(* ===== verification/Pvpgn_Prelude.thy ===== *)
theory Pvpgn_Prelude
  imports Main "HOL-Library.Word" "HOL-Library.Monad_Syntax"
begin

text \<open>
  Shared vocabulary of the development: the machine integers of the sources
  (\<open>unsigned char\<close>, \<open>t_uint16\<close>, \<open>t_uint32\<close>, \<open>t_uint64\<close>), the C library's character
  functions on ASCII strings, the option monad used for \<^emph>\<open>undefined behaviour\<close>
  (\<open>None\<close> is a dereference of an invalid pointer or an out-of-range access, never a normal
  result), and lemmas on lists and words that several components use.

  A C string is the list of its characters before the terminating NUL.
\<close>

unbundle bit_operations_syntax

type_synonym u8 = "8 word"
type_synonym u16 = "16 word"
type_synonym u32 = "32 word"
type_synonym u64 = "64 word"
type_synonym i32 = "32 word"
type_synonym cstring = string

named_theorems heap_simps \<open>reading and writing heap cells\<close>
named_theorems step_invs \<open>operations that keep the invariant of their component\<close>

section \<open>The C library's character functions\<close>

text \<open>The source runs in the C locale: only \<open>'A'..'Z'\<close> and \<open>'a'..'z'\<close> are letters.\<close>

definition c_isupper :: "char \<Rightarrow> bool" where
  "c_isupper c \<longleftrightarrow> (65::nat) \<le> of_char c \<and> (of_char c::nat) \<le> 90"

definition c_islower :: "char \<Rightarrow> bool" where
  "c_islower c \<longleftrightarrow> (97::nat) \<le> of_char c \<and> (of_char c::nat) \<le> 122"

definition c_isdigit :: "char \<Rightarrow> bool" where
  "c_isdigit c \<longleftrightarrow> (48::nat) \<le> of_char c \<and> (of_char c::nat) \<le> 57"

definition c_isprint :: "char \<Rightarrow> bool" where
  "c_isprint c \<longleftrightarrow> (32::nat) \<le> of_char c \<and> (of_char c::nat) \<le> 126"

definition c_tolower :: "char \<Rightarrow> char" where
  "c_tolower c = (if c_isupper c then char_of ((of_char c::nat) + 32) else c)"

definition c_toupper :: "char \<Rightarrow> char" where
  "c_toupper c = (if c_islower c then char_of ((of_char c::nat) - 32) else c)"

text \<open>\<open>char\<close> is a signed byte on the platforms the server is built for.\<close>

definition schar :: "char \<Rightarrow> int" where
  "schar c = (let n = (of_char c::int) in if n < 128 then n else n - 256)"

lemma c_tolower_idem [simp]: "c_tolower (c_tolower c) = c_tolower c"
  by (auto simp: c_tolower_def c_isupper_def of_char_of)

lemma of_char_int_bounds: "(0::int) \<le> of_char c \<and> (of_char c::int) < 256"
proof -
  have "int (of_char c) = of_char c" by (rule of_nat_of_char)
  then show ?thesis using nat_of_char_less_256 [of c] by linarith
qed

lemma schar_inj: "schar a = schar b \<longleftrightarrow> a = b"
  using of_char_int_bounds [of a] of_char_int_bounds [of b]
  by (auto simp: schar_def Let_def of_char_eq_iff split: if_splits)

text \<open>\<^verbatim>\<open>common/introtate.h\<close>: the rotation macro, for any 32-bit count; names compared by \<open>strcasecmp\<close>.\<close>

definition ROTL32 :: "u32 \<Rightarrow> u32 \<Rightarrow> u32" where
  "ROTL32 x n = push_bit (unat (n AND 31)) x OR drop_bit (unat ((- n) AND 31)) x"

text \<open>
  \<^verbatim>\<open>compat/strcasecmp.cpp\<close> and \<^verbatim>\<open>compat/strncasecmp.cpp\<close>: the sign of the comparison. The loops run
  along both strings; after them the longer string decides.
\<close>

definition case_int :: "char \<Rightarrow> int" where
  "case_int c = (if c_isupper c then schar (c_tolower c) else schar c)"

fun strcasecmp :: "cstring \<Rightarrow> cstring \<Rightarrow> int" where
  "strcasecmp (c # cs) (d # ds) =
     (if case_int c < case_int d then -1 else if case_int c > case_int d then 1 else strcasecmp cs ds)"
| "strcasecmp (c # cs) [] = -1"
| "strcasecmp [] (d # ds) = 1"
| "strcasecmp [] [] = 0"

fun strncasecmp :: "cstring \<Rightarrow> cstring \<Rightarrow> nat \<Rightarrow> int" where
  "strncasecmp (c # cs) (d # ds) (Suc n) =
     (if case_int c < case_int d then -1 else if case_int c > case_int d then 1 else strncasecmp cs ds n)"
| "strncasecmp (c # cs) [] (Suc n) = -1"
| "strncasecmp [] (d # ds) (Suc n) = 1"
| "strncasecmp _ _ _ = 0"

definition strcaseeq :: "cstring \<Rightarrow> cstring \<Rightarrow> bool" where
  "strcaseeq a b \<longleftrightarrow> strcasecmp a b = 0"

lemma case_int_eq_iff: "case_int c = case_int d \<longleftrightarrow> c_tolower c = c_tolower d"
proof -
  have "case_int x = schar (c_tolower x)" for x by (simp add: case_int_def c_tolower_def)
  then show ?thesis by (simp add: schar_inj)
qed

lemma strcaseeq_iff: "strcaseeq a b \<longleftrightarrow> map c_tolower a = map c_tolower b"
proof -
  have "strcasecmp a b = 0 \<longleftrightarrow> map c_tolower a = map c_tolower b"
    by (induction a b rule: strcasecmp.induct) (auto simp: case_int_eq_iff [symmetric])
  then show ?thesis by (simp add: strcaseeq_def)
qed

lemma strncasecmp_zero_iff:
  "strncasecmp a b n = 0 \<longleftrightarrow> map c_tolower (take n a) = map c_tolower (take n b)"
  by (induction a b n rule: strncasecmp.induct) (auto simp: case_int_eq_iff [symmetric])

section \<open>Lists and words\<close>

lemma last_map_fst: "xs \<noteq> [] \<Longrightarrow> fst (last xs) = last (map fst xs)"
  by (simp add: last_map)

lemma of_nat_Suc_word: "(of_nat (Suc n) :: 'a::len word) = of_nat n + 1"
  by simp

lemma mask_8: "mask 8 = (0xff :: 'a::len word)"
  by (simp add: mask_eq_exp_minus_1)

lemma ucast_and_ff_u8 [simp]:
  fixes w :: "'a::len word"
  shows "(ucast (w AND 0xff) :: u8) = ucast w"
  unfolding mask_8 [symmetric]
  by (rule bit_word_eqI) (auto simp: bit_simps dest: bit_imp_le_length)

end
