(* ===== verification/Common_List.thy ===== *)
theory Common_List
  imports Pvpgn_Prelude
begin

text \<open>
  \<^verbatim>\<open>common/list.cpp\<close>: the doubly linked list every registry of the servers is kept in.
  The nodes live in an explicit store (\<open>l_cells\<close>, addresses are natural numbers, \<open>l_fresh\<close> is
  the next address \<open>xmalloc\<close> returns; \<open>xmalloc\<close> aborts the program instead of returning NULL).
  Every function writes the same pointers, in the same order, as the source; a read or write
  through an invalid pointer makes the whole call \<open>None\<close>. The static \<open>listhead\<close> element, whose
  address stands for ``before the first element'' in a running traversal, is \<open>ListHead\<close>.

  \<open>holds s xs\<close> relates a list object to the sequence of (node address, data) pairs it stands
  for; every operation is proved to refine the corresponding operation on sequences.
\<close>

section \<open>Data\<close>

datatype eptr = ENull | ListHead | EAddr nat

record 'd elem =
  e_data :: "'d option"
  e_prev :: eptr
  e_next :: eptr

record 'd t_list =
  l_cells :: "nat \<rightharpoonup> 'd elem"
  l_fresh :: nat
  l_len :: u32
  l_head :: eptr
  l_tail :: eptr

text \<open>\<open>p->field = v\<close>: only a live node can be written.\<close>

definition upd_cell :: "(nat \<rightharpoonup> 'd elem) \<Rightarrow> eptr \<Rightarrow> ('d elem \<Rightarrow> 'd elem) \<Rightarrow> (nat \<rightharpoonup> 'd elem) option" where
  "upd_cell c p f =
     (case p of EAddr a \<Rightarrow> (case c a of Some e \<Rightarrow> Some (c(a \<mapsto> f e)) | None \<Rightarrow> None) | _ \<Rightarrow> None)"

section \<open>Operations\<close>

definition list_create :: "'d t_list" where
  "list_create = \<lparr>l_cells = Map.empty, l_fresh = 0, l_len = 0, l_head = ENull, l_tail = ENull\<rparr>"

definition list_destroy :: "'d t_list option \<Rightarrow> int" where
  "list_destroy L = (case L of None \<Rightarrow> -1 | Some s \<Rightarrow> 0)"

definition list_get_length :: "'d t_list option \<Rightarrow> u32" where
  "list_get_length L = (case L of None \<Rightarrow> 0 | Some s \<Rightarrow> l_len s)"

definition list_prepend_data :: "'d t_list \<Rightarrow> 'd option \<Rightarrow> 'd t_list option" where
  "list_prepend_data s d =
     (let a = l_fresh s;
          c1 = (l_cells s)(a \<mapsto> \<lparr>e_data = d, e_prev = ENull, e_next = ENull\<rparr>)
      in do {
        c2 \<leftarrow> (if l_head s \<noteq> ENull then upd_cell c1 (l_head s) (e_prev_update (\<lambda>_. EAddr a))
              else Some c1);
        c3 \<leftarrow> upd_cell c2 (EAddr a) (\<lambda>e. e\<lparr>e_next := l_head s, e_prev := ENull\<rparr>);
        Some (s\<lparr>l_cells := c3, l_fresh := Suc a, l_head := EAddr a,
                l_tail := (if l_tail s = ENull then EAddr a else l_tail s),
                l_len := l_len s + 1\<rparr>)
      })"

definition list_append_data :: "'d t_list \<Rightarrow> 'd option \<Rightarrow> 'd t_list option" where
  "list_append_data s d =
     (let a = l_fresh s;
          c1 = (l_cells s)(a \<mapsto> \<lparr>e_data = d, e_prev = ENull, e_next = ENull\<rparr>);
          h = (if l_head s = ENull then EAddr a else l_head s)
      in do {
        c2 \<leftarrow> (if l_tail s \<noteq> ENull
              then do { c \<leftarrow> upd_cell c1 (EAddr a) (e_prev_update (\<lambda>_. l_tail s));
                        upd_cell c (l_tail s) (e_next_update (\<lambda>_. EAddr a)) }
              else Some c1);
        Some (s\<lparr>l_cells := c2, l_fresh := Suc a, l_head := h, l_tail := EAddr a,
                l_len := l_len s + 1\<rparr>)
      })"

definition list_get_first :: "'d t_list option \<Rightarrow> eptr" where
  "list_get_first L = (case L of None \<Rightarrow> ENull | Some s \<Rightarrow> l_head s)"

definition elem_get_next :: "'d t_list \<Rightarrow> eptr \<Rightarrow> eptr option" where
  "elem_get_next s p =
     (case p of ENull \<Rightarrow> Some ENull
      | ListHead \<Rightarrow> Some (l_head s)
      | EAddr a \<Rightarrow> map_option e_next (l_cells s a))"

definition elem_get_data :: "'d t_list \<Rightarrow> eptr \<Rightarrow> 'd option option" where
  "elem_get_data s p =
     (case p of ENull \<Rightarrow> Some None
      | ListHead \<Rightarrow> Some None
      | EAddr a \<Rightarrow> map_option e_data (l_cells s a))"

definition elem_set_data :: "'d t_list \<Rightarrow> eptr \<Rightarrow> 'd option \<Rightarrow> (int \<times> 'd t_list) option" where
  "elem_set_data s p d =
     (if p = ENull then Some (-1, s)
      else do { c \<leftarrow> upd_cell (l_cells s) p (e_data_update (\<lambda>_. d));
                Some (0, s\<lparr>l_cells := c\<rparr>) })"

text \<open>
  \<open>LIST_TRAVERSE\<close> with a test: the loop may run forever on a cyclic store, so not returning
  is a value (\<open>None\<close>) like an invalid pointer.
\<close>

partial_function (option) find_from :: "'d t_list \<Rightarrow> 'd option \<Rightarrow> eptr \<Rightarrow> eptr option" where
  "find_from s d p =
     (if p = ENull then Some ENull
      else do { x \<leftarrow> elem_get_data s p;
                if x = d then Some p
                else do { q \<leftarrow> elem_get_next s p; find_from s d q } })"

definition list_get_elem_by_data :: "'d t_list option \<Rightarrow> 'd option \<Rightarrow> eptr option" where
  "list_get_elem_by_data L d =
     (case L of None \<Rightarrow> Some ENull | Some s \<Rightarrow> find_from s d (list_get_first L))"

partial_function (option) pos_from :: "'d t_list \<Rightarrow> u32 \<Rightarrow> u32 \<Rightarrow> eptr \<Rightarrow> 'd option option" where
  "pos_from s n pos p =
     (if p = ENull then Some None
      else if n = pos then elem_get_data s p
      else do { q \<leftarrow> elem_get_next s p; pos_from s (n + 1) pos q })"

definition list_get_data_by_pos :: "'d t_list option \<Rightarrow> u32 \<Rightarrow> 'd option option" where
  "list_get_data_by_pos L pos =
     (case L of None \<Rightarrow> Some None | Some s \<Rightarrow> pos_from s 0 pos (list_get_first L))"

text \<open>The copies for \<open>const\<close> lists.\<close>

definition list_get_first_const :: "'d t_list option \<Rightarrow> eptr" where
  "list_get_first_const L = (case L of None \<Rightarrow> ENull | Some s \<Rightarrow> l_head s)"

definition elem_get_next_const :: "'d t_list \<Rightarrow> eptr \<Rightarrow> eptr option" where
  "elem_get_next_const s p =
     (case p of ENull \<Rightarrow> Some ENull
      | ListHead \<Rightarrow> Some (l_head s)
      | EAddr a \<Rightarrow> map_option e_next (l_cells s a))"

definition list_get_elem_by_data_const :: "'d t_list option \<Rightarrow> 'd option \<Rightarrow> eptr option" where
  "list_get_elem_by_data_const L d =
     (case L of None \<Rightarrow> Some ENull | Some s \<Rightarrow> find_from s d (list_get_first_const L))"

text \<open>
  \<open>list_remove_elem(list, &cur)\<close>: unlinks the node \<open>cur\<close> points to and moves \<open>cur\<close> to the
  element before it (to \<open>&listhead\<close> when it was the first), so that the traversal's next
  \<open>elem_get_next\<close> continues with the element after the removed one.
\<close>

definition list_remove_elem ::
  "'d t_list option \<Rightarrow> eptr option \<Rightarrow> (int \<times> 'd t_list option \<times> eptr option) option" where
  "list_remove_elem L cur =
     (case L of None \<Rightarrow> Some (-1, L, cur)
      | Some s \<Rightarrow> (case cur of None \<Rightarrow> Some (-1, L, cur)
      | Some target \<Rightarrow> do {
          t \<leftarrow> (case target of EAddr a \<Rightarrow> l_cells s a | _ \<Rightarrow> None);
          c1 \<leftarrow> (if e_prev t \<noteq> ENull
                then upd_cell (l_cells s) (e_prev t) (e_next_update (\<lambda>_. e_next t))
                else Some (l_cells s));
          c2 \<leftarrow> (if e_next t \<noteq> ENull
                then upd_cell c1 (e_next t) (e_prev_update (\<lambda>_. e_prev t))
                else Some c1);
          let tl' = (if target = l_tail s then e_prev t else l_tail s);
              hd' = (if target = l_head s then e_next t else l_head s);
              cur' = (if target = l_head s then ListHead else e_prev t);
              c3 = (case target of EAddr a \<Rightarrow> c2(a := None) | _ \<Rightarrow> c2)
          in Some (0, Some (s\<lparr>l_cells := c3, l_head := hd', l_tail := tl',
                              l_len := l_len s - 1\<rparr>), Some cur')
        }))"

definition list_remove_data ::
  "'d t_list option \<Rightarrow> 'd option \<Rightarrow> (int \<times> 'd t_list option \<times> eptr) option" where
  "list_remove_data L d =
     (case L of None \<Rightarrow> Some (-1, L, ENull)
      | Some s \<Rightarrow> do {
          p \<leftarrow> list_get_elem_by_data L d;
          if p = ENull then Some (-1, L, ENull)
          else do { (r, L', cur) \<leftarrow> list_remove_elem L (Some p);
                    Some (r, L', the cur) }
        })"

text \<open>
  The loop \<open>LIST_TRAVERSE(list,curr) { if (P(elem_get_data(curr))) list_remove_elem(list,&curr); }\<close>
  by which the callers purge a list (\<open>P\<close> constantly true when a registry is destroyed).
\<close>

partial_function (option) traverse_remove ::
  "('d option \<Rightarrow> bool) \<Rightarrow> 'd t_list \<Rightarrow> eptr \<Rightarrow> 'd t_list option" where
  "traverse_remove P s p =
     (if p = ENull then Some s
      else do { x \<leftarrow> elem_get_data s p;
                (s', cur) \<leftarrow> (if P x
                  then do { (r, L', cur) \<leftarrow> list_remove_elem (Some s) (Some p);
                            Some (the L', the cur) }
                  else Some (s, p));
                q \<leftarrow> elem_get_next s' cur;
                traverse_remove P s' q })"

section \<open>The sequence a list object stands for\<close>

primrec dll :: "(nat \<rightharpoonup> 'd elem) \<Rightarrow> eptr \<Rightarrow> eptr \<Rightarrow> (nat \<times> 'd option) list \<Rightarrow> eptr \<Rightarrow> eptr \<Rightarrow> bool" where
  "dll c pr p [] lst nx \<longleftrightarrow> p = nx \<and> lst = pr"
| "dll c pr p (x # xs) lst nx \<longleftrightarrow>
     p = EAddr (fst x) \<and>
     (\<exists>e. c (fst x) = Some e \<and> e_data e = snd x \<and> e_prev e = pr
          \<and> dll c (EAddr (fst x)) (e_next e) xs lst nx)"

definition holds :: "'d t_list \<Rightarrow> (nat \<times> 'd option) list \<Rightarrow> bool" where
  "holds s xs \<longleftrightarrow>
     dll (l_cells s) ENull (l_head s) xs (l_tail s) ENull
     \<and> distinct (map fst xs) \<and> l_len s = of_nat (length xs)
     \<and> (\<forall>a e. l_cells s a = Some e \<longrightarrow> a < l_fresh s)"

text \<open>The pointer at which a segment starts, and the one of its last node.\<close>

definition first_ptr :: "(nat \<times> 'd option) list \<Rightarrow> eptr \<Rightarrow> eptr" where
  "first_ptr xs nx = (case xs of [] \<Rightarrow> nx | x # _ \<Rightarrow> EAddr (fst x))"

definition last_ptr :: "(nat \<times> 'd option) list \<Rightarrow> eptr \<Rightarrow> eptr" where
  "last_ptr xs pr = (if xs = [] then pr else EAddr (fst (last xs)))"

lemma first_ptr_simps [simp]: "first_ptr [] nx = nx" "first_ptr (x # xs) nx = EAddr (fst x)"
  by (simp_all add: first_ptr_def)

lemma last_ptr_simps [simp]: "last_ptr [] pr = pr" "last_ptr (x # xs) pr = last_ptr xs (EAddr (fst x))"
  "last_ptr (xs @ [x]) pr = EAddr (fst x)"
  by (simp_all add: last_ptr_def)

lemma dll_ptrs: "dll c pr p xs lst nx \<Longrightarrow> p = first_ptr xs nx \<and> lst = last_ptr xs pr"
  by (induction xs arbitrary: pr p) auto

lemma dll_append [simp]:
  "dll c pr p (xs @ ys) lst nx \<longleftrightarrow>
     (\<exists>m q. dll c pr p xs m q \<and> dll c m q ys lst nx)"
  by (induction xs arbitrary: pr p) auto

lemma dll_upd_other:
  "a \<notin> fst ` set xs \<Longrightarrow> dll (c(a := v)) pr p xs lst nx = dll c pr p xs lst nx"
  by (induction xs arbitrary: pr p) auto

lemma dll_dom: "dll c pr p xs lst nx \<Longrightarrow> fst ` set xs \<subseteq> dom c"
  by (induction xs arbitrary: pr p) (simp, fastforce)

lemma holds_fresh: "holds s xs \<Longrightarrow> l_fresh s \<notin> fst ` set xs"
  by (auto simp: holds_def dest!: dll_dom)

lemma holds_head: "holds s xs \<Longrightarrow> l_head s = first_ptr xs ENull"
  and holds_tail: "holds s xs \<Longrightarrow> l_tail s = last_ptr xs ENull"
  and holds_len: "holds s xs \<Longrightarrow> l_len s = of_nat (length xs)"
  by (auto simp: holds_def dest: dll_ptrs)

lemma holds_list_create [simp]: "holds list_create []"
  by (simp add: holds_def list_create_def)

section \<open>Every operation refines the one on sequences\<close>

lemma upd_cell_live [heap_simps]:
  "c a = Some e \<Longrightarrow> upd_cell c (EAddr a) f = Some (c(a \<mapsto> f e))"
  by (simp add: upd_cell_def)

lemma list_prepend_holds:
  assumes "holds s xs"
  shows "\<exists>s'. list_prepend_data s d = Some s' \<and> holds s' ((l_fresh s, d) # xs)"
proof (cases xs)
  case Nil
  with assms show ?thesis
    by (auto simp: list_prepend_data_def Let_def heap_simps holds_def intro: less_SucI)
next
  case (Cons x ys)
  with assms holds_fresh [OF assms] obtain e where
    "l_head s = EAddr (fst x)" "l_cells s (fst x) = Some e" "l_fresh s \<noteq> fst x" "l_tail s \<noteq> ENull"
    by (auto simp: holds_def dest!: dll_ptrs split: list.splits)
      (auto simp: last_ptr_def split: if_splits)
  with assms Cons holds_fresh [OF assms] show ?thesis
    by (auto simp: list_prepend_data_def Let_def heap_simps holds_def dll_upd_other image_iff
             intro: less_SucI split: if_splits)
qed

lemma list_append_holds:
  assumes "holds s xs"
  shows "\<exists>s'. list_append_data s d = Some s' \<and> holds s' (xs @ [(l_fresh s, d)])"
proof (cases xs rule: rev_cases)
  case Nil
  with assms show ?thesis
    by (auto simp: list_append_data_def Let_def heap_simps holds_def intro: less_SucI)
next
  case (snoc ys y)
  with assms holds_fresh [OF assms] obtain e where
    "l_tail s = EAddr (fst y)" "l_cells s (fst y) = Some e" "l_fresh s \<noteq> fst y" "l_head s \<noteq> ENull"
    "l_fresh s \<notin> fst ` set ys" "fst y \<notin> fst ` set ys"
    by (auto simp: holds_def first_ptr_def dest!: dll_ptrs split: list.splits)
  with assms snoc show ?thesis
    by (auto simp: list_append_data_def Let_def heap_simps holds_def dll_upd_other
             intro: less_SucI split: if_splits)
qed

lemma dll_change_prev:
  "dll c pr p (y # ys) lst nx \<Longrightarrow> distinct (map fst (y # ys)) \<Longrightarrow>
     \<exists>e. c (fst y) = Some e \<and> p = EAddr (fst y)
       \<and> dll (c(fst y \<mapsto> e\<lparr>e_prev := q\<rparr>)) q p (y # ys) (last_ptr ys (EAddr (fst y))) nx"
  by (auto simp: dll_upd_other dest: dll_ptrs)

lemma dll_change_next:
  "dll c pr p (xs @ [x]) m q \<Longrightarrow> distinct (map fst (xs @ [x])) \<Longrightarrow>
     \<exists>e. c (fst x) = Some e \<and> m = EAddr (fst x)
       \<and> dll (c(fst x \<mapsto> e\<lparr>e_next := r\<rparr>)) pr p (xs @ [x]) (EAddr (fst x)) r"
  by (auto simp: dll_upd_other dest: dll_ptrs)

lemma holds_split:
  assumes "holds s (xs @ (a, d) # ys)"
  obtains e where "l_cells s a = Some e" "e_prev e = last_ptr xs ENull"
    "e_next e = first_ptr ys ENull" "e_data e = d"
    "dll (l_cells s) ENull (l_head s) xs (last_ptr xs ENull) (EAddr a)"
    "dll (l_cells s) (EAddr a) (first_ptr ys ENull) ys (l_tail s) ENull"
    "l_head s = first_ptr xs (EAddr a)" "l_tail s = last_ptr ys (EAddr a)"
    "distinct (map fst (xs @ (a, d) # ys))"
proof -
  from assms obtain e m where *: "l_cells s a = Some e" "e_prev e = m" "e_data e = d"
      "dll (l_cells s) ENull (l_head s) xs m (EAddr a)"
      "dll (l_cells s) (EAddr a) (e_next e) ys (l_tail s) ENull"
      "distinct (map fst (xs @ (a, d) # ys))"
    by (auto simp: holds_def)
  with dll_ptrs [OF *(4)] dll_ptrs [OF *(5)] show thesis
    by (intro that) auto
qed

lemma first_ptr_notin: "distinct (map fst (xs @ (a, d) # ys)) \<Longrightarrow> (first_ptr xs (EAddr a) = EAddr a) = (xs = [])"
  and last_ptr_notin: "distinct (map fst (xs @ (a, d) # ys)) \<Longrightarrow> (last_ptr ys (EAddr a) = EAddr a) = (ys = [])"
  by (auto simp: first_ptr_def last_ptr_def split: list.splits)

lemma list_remove_elem_holds:
  assumes "holds s (xs @ (a, d) # ys)"
  shows "\<exists>s'. list_remove_elem (Some s) (Some (EAddr a))
                = Some (0, Some s', Some (if xs = [] then ListHead else EAddr (fst (last xs))))
              \<and> holds s' (xs @ ys)"
  using assms
proof (cases rule: holds_split)
  case (1 e)
  note e = "1"
  have inv: "l_len s = of_nat (length (xs @ (a, d) # ys))"
    "\<forall>b e. l_cells s b = Some e \<longrightarrow> b < l_fresh s"
    using assms by (simp_all add: holds_def)
  note ends = first_ptr_notin [OF e(9)] last_ptr_notin [OF e(9)]
  show ?thesis
  proof (cases xs rule: rev_cases)
    case Nil
    show ?thesis
    proof (cases ys)
      case Nil
      with e inv \<open>xs = []\<close> show ?thesis
        by (auto simp: list_remove_elem_def holds_def Let_def)
    next
      case (Cons y zs)
      with e inv ends \<open>xs = []\<close> show ?thesis
        by (auto simp: list_remove_elem_def holds_def Let_def heap_simps dll_upd_other)
    qed
  next
    case (snoc ws x)
    show ?thesis
    proof (cases ys)
      case Nil
      with e inv ends snoc show ?thesis
        by (auto simp: list_remove_elem_def holds_def Let_def heap_simps dll_upd_other)
    next
      case (Cons y zs)
      with e inv ends snoc show ?thesis
        by (auto simp: list_remove_elem_def holds_def Let_def heap_simps dll_upd_other)
    qed
  qed
qed

lemma elem_get_next_holds:
  assumes "holds s (xs @ ys)"
  shows "elem_get_next s (if xs = [] then ListHead else EAddr (fst (last xs)))
          = Some (first_ptr ys ENull)"
proof (cases xs rule: rev_cases)
  case Nil
  with assms show ?thesis by (auto simp: elem_get_next_def holds_head)
next
  case (snoc ws x)
  with assms have "holds s (ws @ (fst x, snd x) # ys)" by simp
  then show ?thesis
    by (cases rule: holds_split) (simp add: elem_get_next_def snoc)
qed

lemma holds_data:
  assumes "holds s (xs @ (a, d) # ys)"
  shows "elem_get_data s (EAddr a) = Some d"
  using assms by (cases rule: holds_split) (simp add: elem_get_data_def)

lemma holds_step:
  assumes "holds s (xs @ (a, d) # ys)"
  shows "elem_get_next s (EAddr a) = Some (first_ptr ys ENull)"
  using elem_get_next_holds [of s "xs @ [(a, d)]" ys] assms by simp

text \<open>Searching and positional access.\<close>

lemma find_from_holds:
  assumes "holds s (xs @ ys)"
  shows "find_from s d (first_ptr ys ENull)
           = Some (case find (\<lambda>x. snd x = d) ys of None \<Rightarrow> ENull | Some x \<Rightarrow> EAddr (fst x))"
  using assms
proof (induction ys arbitrary: xs)
  case Nil
  show ?case by (simp add: find_from.simps)
next
  case (Cons y ys)
  then have h: "holds s (xs @ (fst y, snd y) # ys)" by simp
  have "find_from s d (first_ptr ys ENull)
          = Some (case find (\<lambda>x. snd x = d) ys of None \<Rightarrow> ENull | Some x \<Rightarrow> EAddr (fst x))"
    using Cons.IH [of "xs @ [y]"] Cons.prems by simp
  with holds_data [OF h] holds_step [OF h] show ?case
    by (simp add: find_from.simps [of s d "EAddr (fst y)"])
qed

lemma list_get_elem_by_data_holds:
  assumes "holds s xs"
  shows "list_get_elem_by_data (Some s) d
           = Some (case find (\<lambda>x. snd x = d) xs of None \<Rightarrow> ENull | Some x \<Rightarrow> EAddr (fst x))"
  using find_from_holds [of s "[]" xs d] assms
  by (simp add: list_get_elem_by_data_def list_get_first_def holds_head)

lemma pos_from_holds:
  assumes "holds s (xs @ ys)" "length xs + length ys < 2 ^ 32"
    "length xs \<le> unat pos"
  shows "pos_from s (of_nat (length xs)) pos (first_ptr ys ENull)
           = Some (if unat pos < length xs + length ys then snd (ys ! (unat pos - length xs)) else None)"
  using assms
proof (induction ys arbitrary: xs)
  case Nil
  then show ?case by (simp add: pos_from.simps)
next
  case (Cons y ys)
  then have h: "holds s (xs @ (fst y, snd y) # ys)" by simp
  have eq: "(of_nat (length xs) = pos) \<longleftrightarrow> length xs = unat pos"
    using Cons.prems(2) by (auto simp: word_unat_eq_iff unat_of_nat)
  show ?case
  proof (cases "length xs = unat pos")
    case True
    with eq holds_data [OF h] show ?thesis
      by (simp add: pos_from.simps [of s _ _ "EAddr (fst y)"])
  next
    case False
    then have "length (xs @ [y]) \<le> unat pos" using Cons.prems(3) by simp
    with Cons.IH [of "xs @ [y]"] Cons.prems(1,2) eq False holds_step [OF h] show ?thesis
      by (simp add: pos_from.simps [of s _ _ "EAddr (fst y)"] nth_Cons' add.commute)
  qed
qed

lemma list_get_data_by_pos_holds:
  assumes "holds s xs" "length xs < 2 ^ 32"
  shows "list_get_data_by_pos (Some s) pos
           = Some (if unat pos < length xs then snd (xs ! unat pos) else None)"
  using pos_from_holds [of s "[]" xs pos] assms
  by (simp add: list_get_data_by_pos_def list_get_first_def holds_head)

lemma find_split:
  "find (\<lambda>x. snd x = d) xs = Some x \<Longrightarrow>
     \<exists>ys zs. xs = ys @ x # zs \<and> snd x = d \<and> d \<notin> snd ` set ys"
proof (induction xs)
  case (Cons u us)
  show ?case
  proof (cases "snd u = d")
    case True
    with Cons.prems show ?thesis by (auto intro: exI [of _ "[]"])
  next
    case False
    with Cons obtain ys zs where "us = ys @ x # zs" "snd x = d" "d \<notin> snd ` set ys" by auto
    with False have "u # us = (u # ys) @ x # zs \<and> snd x = d \<and> d \<notin> snd ` set (u # ys)" by auto
    then show ?thesis by blast
  qed
qed simp

lemma list_remove_data_holds:
  assumes "holds s xs" "d \<in> snd ` set xs"
  shows "\<exists>s' cur ys x zs. list_remove_data (Some s) d = Some (0, Some s', cur)
           \<and> xs = ys @ x # zs \<and> snd x = d \<and> d \<notin> snd ` set ys \<and> holds s' (ys @ zs)"
proof -
  obtain x where x: "find (\<lambda>x. snd x = d) xs = Some x"
    using assms(2) by (metis (mono_tags, lifting) find_None_iff image_iff not_Some_eq)
  then obtain ys zs where split: "xs = ys @ (fst x, snd x) # zs" "snd x = d" "d \<notin> snd ` set ys"
    using find_split by (metis prod.collapse)
  from list_remove_elem_holds [of s ys "fst x" "snd x" zs] assms(1) split
  obtain s' where "list_remove_elem (Some s) (Some (EAddr (fst x)))
      = Some (0, Some s', Some (if ys = [] then ListHead else EAddr (fst (last ys))))" "holds s' (ys @ zs)"
    by auto
  with x split list_get_elem_by_data_holds [OF assms(1), of d] show ?thesis
    by (auto simp: list_remove_data_def)
qed

lemma list_remove_data_missing:
  assumes "holds s xs" "d \<notin> snd ` set xs"
  shows "list_remove_data (Some s) d = Some (-1, Some s, ENull)"
proof -
  have "find (\<lambda>x. snd x = d) xs = None"
    using assms(2) by (auto simp: find_None_iff image_iff)
  with list_get_elem_by_data_holds [OF assms(1), of d] show ?thesis
    by (simp add: list_remove_data_def)
qed

text \<open>Removing during a traversal neither skips nor revisits an element.\<close>

lemma traverse_remove_from:
  assumes "holds s (xs @ ys)"
  shows "\<exists>s'. traverse_remove P s (first_ptr ys ENull) = Some s'
              \<and> holds s' (xs @ filter (\<lambda>x. \<not> P (snd x)) ys)"
  using assms
proof (induction ys arbitrary: s xs)
  case Nil
  then show ?case by (simp add: traverse_remove.simps)
next
  case (Cons y ys)
  then have h: "holds s (xs @ (fst y, snd y) # ys)" by simp
  show ?case
  proof (cases "P (snd y)")
    case False
    with Cons.IH [of s "xs @ [y]"] Cons.prems holds_data [OF h] holds_step [OF h] show ?thesis
      by (simp add: traverse_remove.simps [of P s "EAddr (fst y)"])
  next
    case True
    from list_remove_elem_holds [OF h] obtain s' where s':
      "list_remove_elem (Some s) (Some (EAddr (fst y)))
         = Some (0, Some s', Some (if xs = [] then ListHead else EAddr (fst (last xs))))"
      "holds s' (xs @ ys)" by blast
    with True Cons.IH [OF s'(2)] holds_data [OF h] elem_get_next_holds [OF s'(2)] show ?thesis
      by (simp add: traverse_remove.simps [of P s "EAddr (fst y)"])
  qed
qed

lemma traverse_remove_holds:
  assumes "holds s xs"
  shows "\<exists>s'. traverse_remove P s (list_get_first (Some s)) = Some s'
              \<and> holds s' (filter (\<lambda>x. \<not> P (snd x)) xs)"
  using traverse_remove_from [of s "[]" xs P] assms by (simp add: list_get_first_def holds_head)

section \<open>The registry interface\<close>

text \<open>
  What the servers' registries (game queue, server queue, channel and clan lists) rely on: data
  pointers are appended at the end, and removing one removes its first occurrence or fails
  with \<open>-1\<close> and no change.
\<close>

datatype 'd reg_cmd = Add 'd | Del 'd

fun reg_spec :: "'d list \<Rightarrow> 'd reg_cmd \<Rightarrow> 'd list" where
  "reg_spec xs (Add d) = xs @ [d]"
| "reg_spec xs (Del d) = remove1 d xs"

fun reg_run :: "('s \<Rightarrow> 'd \<Rightarrow> 's option) \<Rightarrow> ('s \<Rightarrow> 'd \<Rightarrow> (int \<times> 's) option) \<Rightarrow> 's \<Rightarrow> 'd reg_cmd list \<Rightarrow> 's option" where
  "reg_run add del s [] = Some s"
| "reg_run add del s (Add d # cs) = do { s' \<leftarrow> add s d; reg_run add del s' cs }"
| "reg_run add del s (Del d # cs) = do { (r, s') \<leftarrow> del s d; reg_run add del s' cs }"

locale registry =
  fixes reg :: "'s \<Rightarrow> 'd list \<Rightarrow> bool"
    and new :: 's
    and add :: "'s \<Rightarrow> 'd \<Rightarrow> 's option"
    and del :: "'s \<Rightarrow> 'd \<Rightarrow> (int \<times> 's) option"
  assumes reg_new: "reg new []"
    and reg_add: "reg s xs \<Longrightarrow> \<exists>s'. add s d = Some s' \<and> reg s' (xs @ [d])"
    and reg_del: "reg s xs \<Longrightarrow> d \<in> set xs \<Longrightarrow> \<exists>s'. del s d = Some (0, s') \<and> reg s' (remove1 d xs)"
    and reg_del_missing: "reg s xs \<Longrightarrow> d \<notin> set xs \<Longrightarrow> del s d = Some (-1, s)"
begin

lemma run_refines:
  "reg s xs \<Longrightarrow> \<exists>s'. reg_run add del s cs = Some s' \<and> reg s' (foldl reg_spec xs cs)"
proof (induction cs arbitrary: s xs)
  case (Cons c cs)
  show ?case
  proof (cases c)
    case (Add d)
    from reg_add [OF Cons.prems, of d] obtain s' where "add s d = Some s'" "reg s' (xs @ [d])"
      by blast
    with Cons.IH [of s'] Add show ?thesis by auto
  next
    case (Del d)
    have "\<exists>r s'. del s d = Some (r, s') \<and> reg s' (remove1 d xs)"
    proof (cases "d \<in> set xs")
      case True
      with reg_del [OF Cons.prems] show ?thesis by blast
    next
      case False
      with reg_del_missing [OF Cons.prems] Cons.prems show ?thesis by (auto simp: remove1_idem)
    qed
    with Cons.IH Del show ?thesis by fastforce
  qed
qed simp

lemma run_new: "\<exists>s'. reg_run add del new cs = Some s' \<and> reg s' (foldl reg_spec [] cs)"
  using run_refines [OF reg_new] .

lemma add_del_fresh:
  assumes "reg s xs" "d \<notin> set xs"
  shows "\<exists>s1 s2. add s d = Some s1 \<and> del s1 d = Some (0, s2) \<and> reg s2 xs"
proof -
  from reg_add [OF assms(1), of d] obtain s1 where s1: "add s d = Some s1" "reg s1 (xs @ [d])"
    by blast
  from reg_del [OF s1(2), of d] s1 assms(2) show ?thesis by (auto simp: remove1_append)
qed

end

definition list_reg :: "'d t_list \<Rightarrow> 'd list \<Rightarrow> bool" where
  "list_reg s ds \<longleftrightarrow> (\<exists>xs. holds s xs \<and> map snd xs = map Some ds)"

definition list_add :: "'d t_list \<Rightarrow> 'd \<Rightarrow> 'd t_list option" where
  "list_add s d = list_append_data s (Some d)"

definition list_del :: "'d t_list \<Rightarrow> 'd \<Rightarrow> (int \<times> 'd t_list) option" where
  "list_del s d = map_option (\<lambda>(r, L, cur). (r, the L)) (list_remove_data (Some s) (Some d))"

lemma map_Some_remove1:
  "map Some ds = us @ Some d # vs \<Longrightarrow> Some d \<notin> set us \<Longrightarrow> map Some (remove1 d ds) = us @ vs"
  by (induction us arbitrary: ds) (auto simp: Cons_eq_map_conv map_eq_Cons_conv)

lemma list_reg_mem: "holds s xs \<Longrightarrow> map snd xs = map Some ds \<Longrightarrow> Some d \<in> snd ` set xs \<longleftrightarrow> d \<in> set ds"
  by (metis image_iff list.set_map option.inject)

interpretation lst: registry list_reg list_create list_add list_del
proof unfold_locales
  show "list_reg list_create []"
    by (auto simp: list_reg_def intro: exI [of _ "[]"])
next
  fix s :: "'d t_list" and xs d
  assume "list_reg s xs"
  then obtain ys where ys: "holds s ys" "map snd ys = map Some xs" by (auto simp: list_reg_def)
  then show "\<exists>s'. list_add s d = Some s' \<and> list_reg s' (xs @ [d])"
    using list_append_holds [OF ys(1), of "Some d"]
    by (auto simp: list_reg_def list_add_def intro!: exI [of _ "ys @ [(l_fresh s, Some d)]"])
next
  fix s :: "'d t_list" and xs d
  assume "list_reg s xs" "d \<in> set xs"
  then obtain us where us: "holds s us" "map snd us = map Some xs" "Some d \<in> snd ` set us"
    by (auto simp: list_reg_def list_reg_mem)
  from list_remove_data_holds [OF us(1,3)] obtain s' cur ys x zs where
    r: "list_remove_data (Some s) (Some d) = Some (0, Some s', cur)" "us = ys @ x # zs"
       "snd x = Some d" "Some d \<notin> snd ` set ys" "holds s' (ys @ zs)" by blast
  with us(2) have "map Some (remove1 d xs) = map snd (ys @ zs)"
    using map_Some_remove1 [of xs "map snd ys" d "map snd zs"] by simp
  with r show "\<exists>s'. list_del s d = Some (0, s') \<and> list_reg s' (remove1 d xs)"
    by (auto simp: list_reg_def list_del_def)
next
  fix s :: "'d t_list" and xs d
  assume "list_reg s xs" "d \<notin> set xs"
  then obtain us where "holds s us" "Some d \<notin> snd ` set us"
    by (auto simp: list_reg_def list_reg_mem)
  then show "list_del s d = Some (-1, s)"
    by (simp add: list_del_def list_remove_data_missing)
qed

section \<open>Properties\<close>

text \<open>
  C7. Any sequence of appends and removals, run on the heap list from \<open>list_create\<close>, never reads or
  writes an invalid pointer and leaves a list that holds exactly the sequence the same commands
  give on an abstract list (append at the end, remove the first occurrence or nothing).
\<close>

theorem list_run_refines:
  "\<exists>s. reg_run list_add list_del list_create cs = Some s \<and> list_reg s (foldl reg_spec [] cs)"
  by (rule lst.run_new)

text \<open>
  Removing elements inside \<open>LIST_TRAVERSE\<close> is safe: the loop that removes every element whose
  data satisfies \<open>P\<close> ends, touches only live nodes, and leaves exactly the other elements, in
  order, whatever positions (first, middle, last, all) were removed.
\<close>

lemma traverse_remove_filters:
  assumes "holds s xs"
  shows "\<exists>s'. traverse_remove P s (list_get_first (Some s)) = Some s'
              \<and> holds s' (filter (\<lambda>x. \<not> P (snd x)) xs)"
  using assms by (rule traverse_remove_holds)

lemma traverse_remove_filters_witness:
  "\<exists>s'. traverse_remove (\<lambda>d. d = Some (1::nat))
        \<lparr>l_cells = [0 \<mapsto> \<lparr>e_data = Some 1, e_prev = ENull, e_next = EAddr 1\<rparr>,
                    1 \<mapsto> \<lparr>e_data = Some 2, e_prev = EAddr 0, e_next = ENull\<rparr>],
         l_fresh = 2, l_len = 2, l_head = EAddr 0, l_tail = EAddr 1\<rparr> (EAddr 0) = Some s'
      \<and> holds s' [(1, Some 2)]"
  using traverse_remove_filters [of
      "\<lparr>l_cells = [0 \<mapsto> \<lparr>e_data = Some (1::nat), e_prev = ENull, e_next = EAddr 1\<rparr>,
                    1 \<mapsto> \<lparr>e_data = Some 2, e_prev = EAddr 0, e_next = ENull\<rparr>],
         l_fresh = 2, l_len = 2, l_head = EAddr 0, l_tail = EAddr 1\<rparr>"
      "[(0, Some 1), (1, Some 2)]" "\<lambda>d. d = Some 1"]
  by (simp add: holds_def list_get_first_def)

text \<open>
  \<open>list_get_data_by_pos\<close> returns the element at a position below the length and NULL (with a log
  line) at every other position, for lists of fewer than \<open>2^32\<close> elements.
\<close>

theorem list_get_data_by_pos_nth:
  assumes "holds s xs" "length xs < 2 ^ 32"
  shows "list_get_data_by_pos (Some s) pos
           = Some (if unat pos < length xs then snd (xs ! unat pos) else None)"
  using assms by (rule list_get_data_by_pos_holds)

theorem list_get_data_by_pos_nth_witness:
  "list_get_data_by_pos (Some
       \<lparr>l_cells = [0 \<mapsto> \<lparr>e_data = Some (7::nat), e_prev = ENull, e_next = ENull\<rparr>],
        l_fresh = 1, l_len = 1, l_head = EAddr 0, l_tail = EAddr 0\<rparr>) 0 = Some (Some 7)"
  using list_get_data_by_pos_nth [of
       "\<lparr>l_cells = [0 \<mapsto> \<lparr>e_data = Some (7::nat), e_prev = ENull, e_next = ENull\<rparr>],
        l_fresh = 1, l_len = 1, l_head = EAddr 0, l_tail = EAddr 0\<rparr>" "[(0, Some 7)]" 0]
  by (simp add: holds_def)

end
