(* ===== verification/Bn_Type.thy ===== *)
theory Bn_Type
  imports Pvpgn_Prelude
begin

text \<open>
  \<^verbatim>\<open>common/bn_type.cpp\<close>: the fixed-size byte arrays (\<open>bn_byte\<close>, \<open>bn_short\<close>, \<open>bn_int\<close>,
  \<open>bn_long\<close>) every packet field is made of, and their conversions to host integers (little endian,
  and \<open>n\<close>-variants in network order) and to tag strings. An array is the list of its bytes; a
  pointer argument is an option, \<open>None\<close> for NULL, and every function keeps its NULL guards. A
  function that fills an array returns the result code and the array. The array types make the
  lengths: the lemmas assume them. A character buffer is the list of its bytes, NUL included.
\<close>

section \<open>Operations\<close>

definition char_u8 :: "char \<Rightarrow> u8" where
  "char_u8 c = of_nat (of_char c)"

definition u8_char :: "u8 \<Rightarrow> char" where
  "u8_char b = char_of (unat b)"

text \<open>The copy loops of the four \<open>tag_get\<close> functions, for an array of \<open>k\<close> bytes.\<close>

definition tag_copy :: "nat \<Rightarrow> u8 list \<Rightarrow> char list \<Rightarrow> nat \<Rightarrow> char list" where
  "tag_copy k src dst len =
     (let n = min (len - 1) k
      in map (\<lambda>i. u8_char (src ! (k - 1 - i))) [0..<n] @ [CHR 0x00] @ drop (Suc n) dst)"

definition bn_byte_tag_get :: "u8 list option \<Rightarrow> char list option \<Rightarrow> nat \<Rightarrow> int \<times> char list option" where
  "bn_byte_tag_get src dst len =
     (case dst of None \<Rightarrow> (-1, dst) | Some d \<Rightarrow>
      (case src of None \<Rightarrow> (-1, dst) | Some b \<Rightarrow>
       if len < 1 then (-1, dst) else (0, Some (tag_copy 1 b d len))))"

definition bn_short_tag_get :: "u8 list option \<Rightarrow> char list option \<Rightarrow> nat \<Rightarrow> int \<times> char list option" where
  "bn_short_tag_get src dst len =
     (case dst of None \<Rightarrow> (-1, dst) | Some d \<Rightarrow>
      (case src of None \<Rightarrow> (-1, dst) | Some b \<Rightarrow>
       if len < 1 then (-1, dst) else (0, Some (tag_copy 2 b d len))))"

definition bn_int_tag_get :: "u8 list option \<Rightarrow> char list option \<Rightarrow> nat \<Rightarrow> int \<times> char list option" where
  "bn_int_tag_get src dst len =
     (case dst of None \<Rightarrow> (-1, dst) | Some d \<Rightarrow>
      (case src of None \<Rightarrow> (-1, dst) | Some b \<Rightarrow>
       if len < 1 then (-1, dst) else (0, Some (tag_copy 4 b d len))))"

definition bn_long_tag_get :: "u8 list option \<Rightarrow> char list option \<Rightarrow> nat \<Rightarrow> int \<times> char list option" where
  "bn_long_tag_get src dst len =
     (case dst of None \<Rightarrow> (-1, dst) | Some d \<Rightarrow>
      (case src of None \<Rightarrow> (-1, dst) | Some b \<Rightarrow>
       if len < 1 then (-1, dst) else (0, Some (tag_copy 8 b d len))))"

definition bn_byte_tag_set :: "u8 list option \<Rightarrow> char list option \<Rightarrow> int \<times> u8 list option" where
  "bn_byte_tag_set dst tag =
     (case dst of None \<Rightarrow> (-1, dst) | Some d \<Rightarrow>
      (case tag of None \<Rightarrow> (-1, dst) | Some t \<Rightarrow>
       (0, Some (d[0 := char_u8 (t ! 0)]))))"

definition bn_short_tag_set :: "u8 list option \<Rightarrow> char list option \<Rightarrow> int \<times> u8 list option" where
  "bn_short_tag_set dst tag =
     (case dst of None \<Rightarrow> (-1, dst) | Some d \<Rightarrow>
      (case tag of None \<Rightarrow> (-1, dst) | Some t \<Rightarrow>
       (0, Some (d[0 := char_u8 (t ! 3), 1 := char_u8 (t ! 2)]))))"

definition bn_int_tag_set :: "u8 list option \<Rightarrow> char list option \<Rightarrow> int \<times> u8 list option" where
  "bn_int_tag_set dst tag =
     (case dst of None \<Rightarrow> (-1, dst) | Some d \<Rightarrow>
      (case tag of None \<Rightarrow> (-1, dst) | Some t \<Rightarrow>
       (0, Some (d[0 := char_u8 (t ! 3), 1 := char_u8 (t ! 2), 2 := char_u8 (t ! 1), 3 := char_u8 (t ! 0)]))))"

definition bn_long_tag_set :: "u8 list option \<Rightarrow> char list option \<Rightarrow> int \<times> u8 list option" where
  "bn_long_tag_set dst tag =
     (case dst of None \<Rightarrow> (-1, dst) | Some d \<Rightarrow>
      (case tag of None \<Rightarrow> (-1, dst) | Some t \<Rightarrow>
       (0, Some (d[0 := char_u8 (t ! 7), 1 := char_u8 (t ! 6), 2 := char_u8 (t ! 5), 3 := char_u8 (t ! 4), 4 := char_u8 (t ! 3), 5 := char_u8 (t ! 2), 6 := char_u8 (t ! 1), 7 := char_u8 (t ! 0)]))))"

definition bn_byte_get :: "u8 list option \<Rightarrow> u8" where
  "bn_byte_get src = (case src of None \<Rightarrow> 0 | Some b \<Rightarrow> ucast (b ! 0))"

definition bn_short_get :: "u8 list option \<Rightarrow> u16" where
  "bn_short_get src = (case src of None \<Rightarrow> 0 | Some b \<Rightarrow> ucast (b ! 0) OR push_bit 8 (ucast (b ! 1)))"

definition bn_short_nget :: "u8 list option \<Rightarrow> u16" where
  "bn_short_nget src = (case src of None \<Rightarrow> 0 | Some b \<Rightarrow> ucast (b ! 1) OR push_bit 8 (ucast (b ! 0)))"

definition bn_int_get :: "u8 list option \<Rightarrow> u32" where
  "bn_int_get src = (case src of None \<Rightarrow> 0 | Some b \<Rightarrow> ucast (b ! 0) OR push_bit 8 (ucast (b ! 1)) OR push_bit 16 (ucast (b ! 2)) OR push_bit 24 (ucast (b ! 3)))"

definition bn_int_nget :: "u8 list option \<Rightarrow> u32" where
  "bn_int_nget src = (case src of None \<Rightarrow> 0 | Some b \<Rightarrow> ucast (b ! 3) OR push_bit 8 (ucast (b ! 2)) OR push_bit 16 (ucast (b ! 1)) OR push_bit 24 (ucast (b ! 0)))"

definition bn_long_get :: "u8 list option \<Rightarrow> u64" where
  "bn_long_get src = (case src of None \<Rightarrow> 0 | Some b \<Rightarrow> ucast (b ! 0) OR push_bit 8 (ucast (b ! 1)) OR push_bit 16 (ucast (b ! 2)) OR push_bit 24 (ucast (b ! 3)) OR push_bit 32 (ucast (b ! 4)) OR push_bit 40 (ucast (b ! 5)) OR push_bit 48 (ucast (b ! 6)) OR push_bit 56 (ucast (b ! 7)))"

definition bn_long_get_a :: "u8 list option \<Rightarrow> u32" where
  "bn_long_get_a src = (case src of None \<Rightarrow> 0 | Some b \<Rightarrow> ucast (b ! 4) OR push_bit 8 (ucast (b ! 5)) OR push_bit 16 (ucast (b ! 6)) OR push_bit 24 (ucast (b ! 7)))"

definition bn_long_get_b :: "u8 list option \<Rightarrow> u32" where
  "bn_long_get_b src = (case src of None \<Rightarrow> 0 | Some b \<Rightarrow> ucast (b ! 0) OR push_bit 8 (ucast (b ! 1)) OR push_bit 16 (ucast (b ! 2)) OR push_bit 24 (ucast (b ! 3)))"

definition bn_byte_set :: "u8 list option \<Rightarrow> u8 \<Rightarrow> int \<times> u8 list option" where
  "bn_byte_set dst v =
     (case dst of None \<Rightarrow> (-1, dst) | Some d \<Rightarrow>
      (0, Some (d[0 := ucast v])))"

definition bn_short_set :: "u8 list option \<Rightarrow> u16 \<Rightarrow> int \<times> u8 list option" where
  "bn_short_set dst v =
     (case dst of None \<Rightarrow> (-1, dst) | Some d \<Rightarrow>
      (0, Some (d[0 := ucast (v AND 0xff), 1 := ucast (drop_bit 8 v)])))"

definition bn_short_nset :: "u8 list option \<Rightarrow> u16 \<Rightarrow> int \<times> u8 list option" where
  "bn_short_nset dst v =
     (case dst of None \<Rightarrow> (-1, dst) | Some d \<Rightarrow>
      (0, Some (d[0 := ucast (drop_bit 8 v), 1 := ucast (v AND 0xff)])))"

definition bn_int_set :: "u8 list option \<Rightarrow> u32 \<Rightarrow> int \<times> u8 list option" where
  "bn_int_set dst v =
     (case dst of None \<Rightarrow> (-1, dst) | Some d \<Rightarrow>
      (0, Some (d[0 := ucast (v AND 0xff), 1 := ucast (drop_bit 8 v AND 0xff), 2 := ucast (drop_bit 16 v AND 0xff), 3 := ucast (drop_bit 24 v)])))"

definition bn_int_nset :: "u8 list option \<Rightarrow> u32 \<Rightarrow> int \<times> u8 list option" where
  "bn_int_nset dst v =
     (case dst of None \<Rightarrow> (-1, dst) | Some d \<Rightarrow>
      (0, Some (d[0 := ucast (drop_bit 24 v), 1 := ucast (drop_bit 16 v AND 0xff), 2 := ucast (drop_bit 8 v AND 0xff), 3 := ucast (v AND 0xff)])))"

definition bn_long_set :: "u8 list option \<Rightarrow> u64 \<Rightarrow> int \<times> u8 list option" where
  "bn_long_set dst v =
     (case dst of None \<Rightarrow> (-1, dst) | Some d \<Rightarrow>
      (0, Some (d[0 := ucast (v AND 0xff), 1 := ucast (drop_bit 8 v AND 0xff), 2 := ucast (drop_bit 16 v AND 0xff), 3 := ucast (drop_bit 24 v AND 0xff), 4 := ucast (drop_bit 32 v AND 0xff), 5 := ucast (drop_bit 40 v AND 0xff), 6 := ucast (drop_bit 48 v AND 0xff), 7 := ucast (drop_bit 56 v)])))"

definition bn_long_nset :: "u8 list option \<Rightarrow> u64 \<Rightarrow> int \<times> u8 list option" where
  "bn_long_nset dst v =
     (case dst of None \<Rightarrow> (-1, dst) | Some d \<Rightarrow>
      (0, Some (d[0 := ucast (drop_bit 56 v), 1 := ucast (drop_bit 48 v AND 0xff), 2 := ucast (drop_bit 40 v AND 0xff), 3 := ucast (drop_bit 32 v AND 0xff), 4 := ucast (drop_bit 24 v AND 0xff), 5 := ucast (drop_bit 16 v AND 0xff), 6 := ucast (drop_bit 8 v AND 0xff), 7 := ucast (v AND 0xff)])))"

definition bn_long_set_a_b :: "u8 list option \<Rightarrow> u32 \<Rightarrow> u32 \<Rightarrow> int \<times> u8 list option" where
  "bn_long_set_a_b dst a b =
     (case dst of None \<Rightarrow> (-1, dst) | Some d \<Rightarrow>
      (0, Some (d[0 := ucast (b AND 0xff), 1 := ucast (drop_bit 8 b AND 0xff), 2 := ucast (drop_bit 16 b AND 0xff), 3 := ucast (drop_bit 24 b AND 0xff), 4 := ucast (a AND 0xff), 5 := ucast (drop_bit 8 a AND 0xff), 6 := ucast (drop_bit 16 a AND 0xff), 7 := ucast (drop_bit 24 a)])))"

definition bn_long_nset_a_b :: "u8 list option \<Rightarrow> u32 \<Rightarrow> u32 \<Rightarrow> int \<times> u8 list option" where
  "bn_long_nset_a_b dst a b =
     (case dst of None \<Rightarrow> (-1, dst) | Some d \<Rightarrow>
      (0, Some (d[0 := ucast (drop_bit 24 a), 1 := ucast (drop_bit 16 a AND 0xff), 2 := ucast (drop_bit 8 a AND 0xff), 3 := ucast (a AND 0xff), 4 := ucast (drop_bit 24 b AND 0xff), 5 := ucast (drop_bit 16 b AND 0xff), 6 := ucast (drop_bit 8 b AND 0xff), 7 := ucast (b AND 0xff)])))"

definition bn_raw_set :: "u8 list option \<Rightarrow> u8 list option \<Rightarrow> nat \<Rightarrow> int \<times> u8 list option" where
  "bn_raw_set dst src len =
     (case dst of None \<Rightarrow> (-1, dst) | Some d \<Rightarrow>
      (case src of None \<Rightarrow> (-1, dst) | Some s \<Rightarrow> (0, Some (take len s @ drop len d))))"

definition bn_byte_tag_eq :: "u8 list option \<Rightarrow> char list option \<Rightarrow> int" where
  "bn_byte_tag_eq src tag =
     (case src of None \<Rightarrow> -1 | Some b \<Rightarrow>
      (case tag of None \<Rightarrow> -1 | Some t \<Rightarrow>
       (let (r, temp) = bn_byte_tag_set (Some (replicate 1 0)) tag
        in if r < 0 then -1 else if bn_byte_get src = bn_byte_get temp then 0 else -1)))"

definition bn_short_tag_eq :: "u8 list option \<Rightarrow> char list option \<Rightarrow> int" where
  "bn_short_tag_eq src tag =
     (case src of None \<Rightarrow> -1 | Some b \<Rightarrow>
      (case tag of None \<Rightarrow> -1 | Some t \<Rightarrow>
       (let (r, temp) = bn_short_tag_set (Some (replicate 2 0)) tag
        in if r < 0 then -1 else if bn_short_get src = bn_short_get temp then 0 else -1)))"

definition bn_int_tag_eq :: "u8 list option \<Rightarrow> char list option \<Rightarrow> int" where
  "bn_int_tag_eq src tag =
     (case src of None \<Rightarrow> -1 | Some b \<Rightarrow>
      (case tag of None \<Rightarrow> -1 | Some t \<Rightarrow>
       (let (r, temp) = bn_int_tag_set (Some (replicate 4 0)) tag
        in if r < 0 then -1 else if bn_int_get src = bn_int_get temp then 0 else -1)))"

definition bn_long_tag_eq :: "u8 list option \<Rightarrow> char list option \<Rightarrow> int" where
  "bn_long_tag_eq src tag =
     (case src of None \<Rightarrow> -1 | Some b \<Rightarrow>
      (case tag of None \<Rightarrow> -1 | Some t \<Rightarrow>
       (let (r, temp) = bn_long_tag_set (Some (replicate 8 0)) tag
        in if r < 0 then -1
           else if bn_long_get_a src = bn_long_get_a temp \<and> bn_long_get_b src = bn_long_get_b temp
           then 0 else -1)))"

text \<open>
  \<open>uint32_to_int\<close>: the cast of a value above \<open>2^31\<close> to \<open>int\<close> wraps, as on every compiler the
  server is built with; the result is the \<open>int\<close> as a mathematical integer, \<open>None\<close> for the one
  argument whose negation overflows.
\<close>

definition uint32_to_int :: "u32 \<Rightarrow> int option" where
  "uint32_to_int num =
     (if num < push_bit 30 1 then Some (sint num)
      else if sint (NOT num + 1) = - (2 ^ 31) then None
      else Some (- sint (NOT num + 1)))"

section \<open>Bytes of a word\<close>

lemma u8_char_inverse [simp]: "u8_char (char_u8 c) = c" "char_u8 (u8_char b) = b"
proof -
  show "u8_char (char_u8 c) = c"
    by (simp add: u8_char_def char_u8_def unat_of_nat)
  have "unat b < 256" using unsigned_less [of b, where ?'a = nat] by simp
  then show "char_u8 (u8_char b) = b"
    by (simp add: u8_char_def char_u8_def of_char_of)
qed

lemma byte_step:
  fixes v :: "'a::len word"
  shows "push_bit k (ucast (ucast (drop_bit k v) :: u8)) OR push_bit (k + 8) (drop_bit (k + 8) v)
         = push_bit k (drop_bit k v)"
proof (rule bit_word_eqI)
  fix n assume "n < LENGTH('a)"
  then show "bit (push_bit k (ucast (ucast (drop_bit k v) :: u8)) OR push_bit (k + 8) (drop_bit (k + 8) v)) n
      = bit (push_bit k (drop_bit k v)) n"
    by (cases "n < k + 8") (auto simp: bit_simps dest: bit_imp_le_length)
qed

lemma byte_top:
  fixes v :: "'a::len word"
  assumes "LENGTH('a) = k + 8"
  shows "push_bit k (ucast (ucast (drop_bit k v) :: u8)) = push_bit k (drop_bit k v)"
  using assms by (intro bit_word_eqI) (auto simp: bit_simps dest: bit_imp_le_length)

lemmas byte_steps = byte_step [of 0, simplified] byte_step [of 8, simplified]
  byte_step [of 16, simplified] byte_step [of 24, simplified] byte_step [of 32, simplified]
  byte_step [of 40, simplified] byte_step [of 48, simplified]

lemma bytes_u16 [simp]:
  fixes v :: u16
  shows "ucast (ucast v :: u8) OR push_bit 8 (ucast (ucast (drop_bit 8 v) :: u8)) = v"
  by (simp add: byte_top byte_steps)

lemma bytes_u32 [simp]:
  fixes v :: u32
  shows "ucast (ucast v :: u8) OR push_bit 8 (ucast (ucast (drop_bit 8 v) :: u8))
         OR push_bit 16 (ucast (ucast (drop_bit 16 v) :: u8))
         OR push_bit 24 (ucast (ucast (drop_bit 24 v) :: u8)) = v"
  by (simp add: byte_top byte_steps or.assoc)

lemma bytes_u64 [simp]:
  fixes v :: u64
  shows "ucast (ucast v :: u8) OR push_bit 8 (ucast (ucast (drop_bit 8 v) :: u8))
         OR push_bit 16 (ucast (ucast (drop_bit 16 v) :: u8))
         OR push_bit 24 (ucast (ucast (drop_bit 24 v) :: u8))
         OR push_bit 32 (ucast (ucast (drop_bit 32 v) :: u8))
         OR push_bit 40 (ucast (ucast (drop_bit 40 v) :: u8))
         OR push_bit 48 (ucast (ucast (drop_bit 48 v) :: u8))
         OR push_bit 56 (ucast (ucast (drop_bit 56 v) :: u8)) = v"
  by (simp add: byte_top byte_steps or.assoc)

section \<open>Fixed-width fields\<close>

text \<open>
  What a packet needs of a field type: its encoding fills exactly \<open>width\<close> bytes and decoding is its
  inverse. Writing one field into a buffer then never disturbs another.
\<close>

locale byte_codec =
  fixes width :: nat
    and enc :: "'v \<Rightarrow> u8 list"
    and dec :: "u8 list \<Rightarrow> 'v"
  assumes enc_length: "length (enc v) = width"
    and dec_enc: "dec (enc v) = v"
    and enc_dec: "length b = width \<Longrightarrow> enc (dec b) = b"
begin

lemma enc_inj: "enc v = enc w \<longleftrightarrow> v = w"
  by (metis dec_enc)

lemma dec_inj: "length b = width \<Longrightarrow> length c = width \<Longrightarrow> dec b = dec c \<longleftrightarrow> b = c"
  by (metis enc_dec)

lemma read_written:
  assumes "off + width \<le> length buf"
  shows "dec (take width (drop off (take off buf @ enc v @ drop (off + width) buf))) = v"
  using assms by (simp add: enc_length dec_enc)

lemma write_other:
  assumes "off + width \<le> length buf" "i < off \<or> off + width \<le> i" "i < length buf"
  shows "(take off buf @ enc v @ drop (off + width) buf) ! i = buf ! i"
  using assms by (auto simp: nth_append enc_length)

lemma write_length:
  "off + width \<le> length buf \<Longrightarrow> length (take off buf @ enc v @ drop (off + width) buf) = length buf"
  by (simp add: enc_length)

end

lemma length_2: "length b = 2 \<Longrightarrow> \<exists>b0 b1. b = [b0, b1]"
  and length_4: "length b = 4 \<Longrightarrow> \<exists>b0 b1 b2 b3. b = [b0, b1, b2, b3]"
  and length_8: "length b = 8 \<Longrightarrow> \<exists>b0 b1 b2 b3 b4 b5 b6 b7. b = [b0, b1, b2, b3, b4, b5, b6, b7]"
  by (auto simp: numeral_eq_Suc length_Suc_conv)

lemma word_of_bytes_u16:
  fixes b0 b1 :: u8
  defines "w \<equiv> ucast b0 OR push_bit 8 (ucast b1) :: u16"
  shows "(ucast w :: u8) = b0" "(ucast (drop_bit 8 w) :: u8) = b1"
  unfolding w_def by (rule bit_word_eqI; auto simp: bit_simps dest: bit_imp_le_length)+

lemma word_of_bytes_u32:
  fixes b0 b1 b2 b3 :: u8
  defines "w \<equiv> ucast b0 OR push_bit 8 (ucast b1) OR push_bit 16 (ucast b2) OR push_bit 24 (ucast b3) :: u32"
  shows "(ucast w :: u8) = b0" "(ucast (drop_bit 8 w) :: u8) = b1"
    "(ucast (drop_bit 16 w) :: u8) = b2" "(ucast (drop_bit 24 w) :: u8) = b3"
  unfolding w_def by (rule bit_word_eqI; auto simp: bit_simps dest: bit_imp_le_length)+

lemma word_of_bytes_u64:
  fixes b0 b1 b2 b3 b4 b5 b6 b7 :: u8
  defines "w \<equiv> ucast b0 OR push_bit 8 (ucast b1) OR push_bit 16 (ucast b2) OR push_bit 24 (ucast b3)
    OR push_bit 32 (ucast b4) OR push_bit 40 (ucast b5) OR push_bit 48 (ucast b6)
    OR push_bit 56 (ucast b7) :: u64"
  shows "(ucast w :: u8) = b0" "(ucast (drop_bit 8 w) :: u8) = b1"
    "(ucast (drop_bit 16 w) :: u8) = b2" "(ucast (drop_bit 24 w) :: u8) = b3"
    "(ucast (drop_bit 32 w) :: u8) = b4" "(ucast (drop_bit 40 w) :: u8) = b5"
    "(ucast (drop_bit 48 w) :: u8) = b6" "(ucast (drop_bit 56 w) :: u8) = b7"
  unfolding w_def by (rule bit_word_eqI; auto simp: bit_simps dest: bit_imp_le_length)+

definition enc_short :: "u16 \<Rightarrow> u8 list" where
  "enc_short v = the (snd (bn_short_set (Some (replicate 2 0)) v))"

definition enc_int :: "u32 \<Rightarrow> u8 list" where
  "enc_int v = the (snd (bn_int_set (Some (replicate 4 0)) v))"

definition enc_long :: "u64 \<Rightarrow> u8 list" where
  "enc_long v = the (snd (bn_long_set (Some (replicate 8 0)) v))"

lemmas enc_defs = enc_short_def enc_int_def enc_long_def bn_short_set_def bn_int_set_def bn_long_set_def
lemmas bn_get_defs = bn_byte_get_def bn_short_get_def bn_short_nget_def bn_int_get_def bn_int_nget_def
  bn_long_get_def bn_long_get_a_def bn_long_get_b_def

lemma array_updates [simp]:
  "[a0, a1][0 := x0, 1 := x1] = [x0, x1]"
  "[a0, a1, a2, a3][0 := x0, 1 := x1, 2 := x2, 3 := x3] = [x0, x1, x2, x3]"
  "[a0, a1, a2, a3, a4, a5, a6, a7][0 := x0, 1 := x1, 2 := x2, 3 := x3, 4 := x4, 5 := x5, 6 := x6, 7 := x7] = [x0, x1, x2, x3, x4, x5, x6, x7]"
  by (simp_all add: numeral_eq_Suc)

lemma replicate_arrays [simp]: "replicate 2 x = [x, x]" "replicate 4 x = [x, x, x, x]"
  "replicate 8 x = [x, x, x, x, x, x, x, x]"
  by (simp_all add: numeral_eq_Suc)

lemma enc_eqs:
  "enc_short v = [ucast v, ucast (drop_bit 8 v)]"
  "enc_int w = [ucast w, ucast (drop_bit 8 w), ucast (drop_bit 16 w), ucast (drop_bit 24 w)]"
  "enc_long x = [ucast x, ucast (drop_bit 8 x), ucast (drop_bit 16 x), ucast (drop_bit 24 x),
     ucast (drop_bit 32 x), ucast (drop_bit 40 x), ucast (drop_bit 48 x), ucast (drop_bit 56 x)]"
  by (simp_all only: enc_defs replicate_arrays option.case snd_conv option.sel array_updates ucast_and_ff_u8)

lemma get_eqs:
  "bn_short_get (Some [b0, b1]) = ucast b0 OR push_bit 8 (ucast b1)"
  "bn_int_get (Some [b0, b1, b2, b3]) = ucast b0 OR push_bit 8 (ucast b1) OR push_bit 16 (ucast b2) OR push_bit 24 (ucast b3)"
  "bn_long_get (Some [b0, b1, b2, b3, b4, b5, b6, b7]) = ucast b0 OR push_bit 8 (ucast b1) OR push_bit 16 (ucast b2) OR push_bit 24 (ucast b3) OR push_bit 32 (ucast b4) OR push_bit 40 (ucast b5) OR push_bit 48 (ucast b6) OR push_bit 56 (ucast b7)"
  by (simp_all add: bn_get_defs)

lemma codec_decode:
  "bn_short_get (Some (enc_short v)) = v"
  "bn_int_get (Some (enc_int w)) = w"
  "bn_long_get (Some (enc_long x)) = x"
  by (simp_all only: enc_eqs get_eqs bytes_u16 bytes_u32 bytes_u64)

lemma codec_encode:
  "length b = 2 \<Longrightarrow> enc_short (bn_short_get (Some b)) = b"
  "length b = 4 \<Longrightarrow> enc_int (bn_int_get (Some b)) = b"
  "length b = 8 \<Longrightarrow> enc_long (bn_long_get (Some b)) = b"
  by (auto dest!: length_2 length_4 length_8
        simp only: enc_eqs get_eqs word_of_bytes_u16 word_of_bytes_u32 word_of_bytes_u64)

lemma enc_lengths: "length (enc_short v) = 2" "length (enc_int w) = 4" "length (enc_long x) = 8"
  by (simp_all add: enc_eqs)

interpretation short_field: byte_codec 2 enc_short "\<lambda>b. bn_short_get (Some b)"
  by unfold_locales (rule enc_lengths codec_decode codec_encode; assumption?)+

interpretation int_field: byte_codec 4 enc_int "\<lambda>b. bn_int_get (Some b)"
  by unfold_locales (rule enc_lengths codec_decode codec_encode; assumption?)+

interpretation long_field: byte_codec 8 enc_long "\<lambda>b. bn_long_get (Some b)"
  by unfold_locales (rule enc_lengths codec_decode codec_encode; assumption?)+

text \<open>The setters overwrite the whole array: what was in it does not matter.\<close>

lemma set_eqs:
  "length d2 = 2 \<Longrightarrow> bn_short_set (Some d2) v = (0, Some (enc_short v))"
  "length d4 = 4 \<Longrightarrow> bn_int_set (Some d4) w = (0, Some (enc_int w))"
  "length d8 = 8 \<Longrightarrow> bn_long_set (Some d8) x = (0, Some (enc_long x))"
  by (auto dest!: length_2 length_4 length_8
        simp only: enc_eqs bn_short_set_def bn_int_set_def bn_long_set_def option.case array_updates
          ucast_and_ff_u8)

lemma nset_eqs:
  "length d2 = 2 \<Longrightarrow> bn_short_nset (Some d2) v = (0, Some (rev (enc_short v)))"
  "length d4 = 4 \<Longrightarrow> bn_int_nset (Some d4) w = (0, Some (rev (enc_int w)))"
  "length d8 = 8 \<Longrightarrow> bn_long_nset (Some d8) x = (0, Some (rev (enc_long x)))"
  by (auto dest!: length_2 length_4 length_8
        simp only: enc_eqs bn_short_nset_def bn_int_nset_def bn_long_nset_def option.case array_updates
          ucast_and_ff_u8 rev.simps append.simps)

lemma nget_rev:
  "length b = 2 \<Longrightarrow> bn_short_nget (Some b) = bn_short_get (Some (rev b))"
  "length b = 4 \<Longrightarrow> bn_int_nget (Some b) = bn_int_get (Some (rev b))"
  by (auto dest!: length_2 length_4 simp: bn_get_defs)

lemma set_a_b_eqs:
  "length d = 8 \<Longrightarrow> bn_long_set_a_b (Some d) a b = (0, Some (enc_int b @ enc_int a))"
  "length d = 8 \<Longrightarrow> bn_long_nset_a_b (Some d) a b = (0, Some (rev (enc_int b @ enc_int a)))"
  by (auto dest!: length_8
        simp only: enc_eqs bn_long_set_a_b_def bn_long_nset_a_b_def option.case array_updates
          ucast_and_ff_u8 rev.simps append.simps)

lemma get_a_b_eqs:
  assumes "length lo = 4" "length hi = 4"
  shows "bn_long_get_a (Some (lo @ hi)) = bn_int_get (Some hi)"
    and "bn_long_get_b (Some (lo @ hi)) = bn_int_get (Some lo)"
  using assms by (auto dest!: length_4 simp: bn_get_defs)

section \<open>Properties\<close>



text \<open>
  Storing what was read gives the bytes back: reading is injective on arrays of the right length,
  so no two different packet fields are confused by \<open>bn_short_get\<close>, \<open>bn_int_get\<close> or \<open>bn_long_get\<close>.
\<close>

theorem bn_get_set_roundtrip:
  assumes "length b2 = 2" "length b4 = 4" "length b8 = 8" "length c2 = 2" "length c4 = 4" "length c8 = 8"
  shows "snd (bn_short_set (Some c2) (bn_short_get (Some b2))) = Some b2
    \<and> snd (bn_int_set (Some c4) (bn_int_get (Some b4))) = Some b4
    \<and> snd (bn_long_set (Some c8) (bn_long_get (Some b8))) = Some b8
    \<and> (bn_int_get (Some b4) = bn_int_get (Some c4)) = (b4 = c4)
    \<and> (bn_long_get (Some b8) = bn_long_get (Some c8)) = (b8 = c8)"
  using assms int_field.dec_inj [of b4 c4] long_field.dec_inj [of b8 c8]
  by (simp add: set_eqs codec_encode)

theorem bn_get_set_roundtrip_witness:
  "snd (bn_int_set (Some [0, 0, 0, 0]) (bn_int_get (Some [1, 2, 3, 4]))) = Some [1, 2, 3, 4]"
  using bn_get_set_roundtrip [of "[0, 0]" "[1, 2, 3, 4]" "[0, 0, 0, 0, 0, 0, 0, 0]"
      "[0, 0]" "[0, 0, 0, 0]" "[0, 0, 0, 0, 0, 0, 0, 0]"] by simp

text \<open>
  Tags: a four-character tag stored with \<open>bn_int_tag_set\<close> is read back by \<open>bn_int_tag_get\<close> and
  recognised by \<open>bn_int_tag_eq\<close>. \<open>bn_short_tag_set\<close> stores the third and fourth characters of
  its argument instead of the first two, so a two-character tag does not survive.
\<close>

theorem bn_tag_set_get:
  assumes "length d4 = 4" "length d2 = 2" "4 \<le> length t"
  shows "snd (bn_int_tag_get (snd (bn_int_tag_set (Some d4) (Some t))) (Some buf) 5)
           = Some (take 4 t @ [CHR 0x00] @ drop 5 buf)
    \<and> bn_int_tag_eq (snd (bn_int_tag_set (Some d4) (Some t))) (Some t) = 0
    \<and> snd (bn_short_tag_get (snd (bn_short_tag_set (Some d2) (Some t))) (Some buf) 3)
           = Some (take 2 (drop 2 t) @ [CHR 0x00] @ drop 3 buf)"
proof -
  obtain a b c d us where t: "t = a # b # c # d # us"
    using assms(3) by (auto simp: numeral_eq_Suc Suc_le_length_iff)
  have upt: "[0..<4] = [0, 1, 2, 3::nat]" "[0..<2] = [0, 1::nat]"
    by (simp_all add: upt_rec)
  have int: "bn_int_tag_set (Some e4) (Some t) = (0, Some [char_u8 d, char_u8 c, char_u8 b, char_u8 a])"
    if "length e4 = 4" for e4
    using length_4 [OF that] by (auto simp: bn_int_tag_set_def t)
  have short: "bn_short_tag_set (Some d2) (Some t) = (0, Some [char_u8 d, char_u8 c])"
    using length_2 [OF assms(2)] by (auto simp: bn_short_tag_set_def t)
  have "bn_int_tag_eq (Some [char_u8 d, char_u8 c, char_u8 b, char_u8 a]) (Some t) = 0"
    by (simp add: bn_int_tag_eq_def int del: replicate_arrays)
  moreover have "take 4 t = [a, b, c, d]" "take 2 (drop 2 t) = [c, d]"
    by (simp_all add: t numeral_eq_Suc)
  ultimately show ?thesis
    unfolding int [OF assms(1)] short
    by (simp add: bn_int_tag_get_def bn_short_tag_get_def tag_copy_def upt)
qed

theorem bn_tag_set_get_witness:
  "snd (bn_int_tag_get (snd (bn_int_tag_set (Some [0, 0, 0, 0]) (Some ''IX86''))) (Some ''......'') 5)
     = Some (''IX86'' @ [CHR 0x00, CHR ''.''])
   \<and> snd (bn_short_tag_get (snd (bn_short_tag_set (Some [0, 0]) (Some ''IX86''))) (Some ''....'') 3)
     = Some (''86'' @ [CHR 0x00, CHR ''.''])"
  using bn_tag_set_get [of "[0, 0, 0, 0]" "[0, 0]" "''IX86''" "''......''"]
    bn_tag_set_get [of "[0, 0, 0, 0]" "[0, 0]" "''IX86''" "''....''"]
  by simp

text \<open>
  \<open>uint32_to_int\<close> is the two's complement reading of its argument for every value but \<open>2^31\<close>, where
  the negation it performs overflows.
\<close>

lemma uint32_to_int_sint:
  "uint32_to_int num = (if num = push_bit 31 1 then None else Some (sint num))"
proof -
  have range: "- (2 ^ 31) \<le> sint num" "sint num < 2 ^ 31"
    using sint_greater_eq [of num] sint_less [of num] by simp_all
  have min: "num = push_bit 31 1 \<longleftrightarrow> sint num = - (2 ^ 31)"
    using signed_word_eqI [of num "push_bit 31 1"] by auto
  have neg: "sint (- num) = signed_take_bit 31 (- sint num)"
    by (simp add: sint_word_ariths)
  have "sint (- num) = - sint num" if "sint num \<noteq> - (2 ^ 31)"
    using range that unfolding neg by (intro signed_take_bit_int_eq_self) auto
  moreover have "sint (- num) = - (2 ^ 31)" if "sint num = - (2 ^ 31)"
    using that by (simp add: neg)
  ultimately show ?thesis
    using range min by (auto simp: uint32_to_int_def simp flip: minus_eq_not_plus_1)
qed

end
