(* ===== verification/Packet_Core.thy ===== *)
theory Packet_Core
  imports Bn_Type
begin

text \<open>
  \<^verbatim>\<open>common/packet.cpp\<close>: the packet object of every protocol of the servers. A packet is its
  reference count, class, flags, \<open>len\<close> field and the 3072 bytes of the union it overlays its
  protocol structs on; the header fields are read and written in those bytes at the offsets the
  protocol headers give them. A packet pointer is an option (\<open>None\<close> for NULL). Sizes and offsets
  are \<open>unsigned int\<close>; they are natural numbers where no sum of them can wrap and 32-bit words where
  one can. The fresh memory of a new packet is a parameter.
\<close>

section \<open>Data\<close>

datatype t_packet_class =
    packet_class_none | packet_class_init | packet_class_bnet | packet_class_file
  | packet_class_raw | packet_class_udp | packet_class_d2game | packet_class_d2gs
  | packet_class_d2cs | packet_class_d2cs_bnetd | packet_class_w3route | packet_class_wolgameres

record t_packet =
  p_ref :: u32
  p_class :: t_packet_class
  p_flags :: u32
  p_len :: nat
  p_data :: "u8 list"

abbreviation MAX_PACKET_SIZE :: nat where "MAX_PACKET_SIZE \<equiv> 3072"
abbreviation MAX_WOL_GAMERES_PACKET_SIZE :: nat where "MAX_WOL_GAMERES_PACKET_SIZE \<equiv> 65535"
abbreviation MAX_NORMAL_TYPE :: nat where "MAX_NORMAL_TYPE \<equiv> 0xffff"
abbreviation MAX_FILE_TYPE :: nat where "MAX_FILE_TYPE \<equiv> 0xffff"

text \<open>\<open>sizeof\<close> of the headers.\<close>

fun class_header :: "t_packet_class \<Rightarrow> nat" where
  "class_header packet_class_bnet = 4"
| "class_header packet_class_file = 4"
| "class_header packet_class_udp = 4"
| "class_header packet_class_d2cs = 3"
| "class_header packet_class_d2gs = 8"
| "class_header packet_class_d2cs_bnetd = 8"
| "class_header packet_class_w3route = 4"
| "class_header packet_class_wolgameres = 4"
| "class_header _ = 0"

definition get_bytes :: "u8 list \<Rightarrow> nat \<Rightarrow> nat \<Rightarrow> u8 list" where
  "get_bytes data off n = take n (drop off data)"

definition put_bytes :: "u8 list \<Rightarrow> nat \<Rightarrow> u8 list \<Rightarrow> u8 list" where
  "put_bytes data off bs = take off data @ bs @ drop (off + length bs) data"

definition get_short :: "t_packet \<Rightarrow> nat \<Rightarrow> nat" where
  "get_short p off = unat (bn_short_get (Some (get_bytes (p_data p) off 2)))"

definition put_short :: "t_packet \<Rightarrow> nat \<Rightarrow> nat \<Rightarrow> t_packet" where
  "put_short p off v = p\<lparr>p_data := put_bytes (p_data p) off
     (the (snd (bn_short_set (Some (get_bytes (p_data p) off 2)) (of_nat v))))\<rparr>"

section \<open>Operations\<close>

text \<open>The size the packet claims: in the header, or in \<open>len\<close>, by class; \<open>None\<close> for no class.\<close>

definition claimed_size :: "t_packet \<Rightarrow> nat option" where
  "claimed_size p = (case p_class p of
       packet_class_init \<Rightarrow> Some 1
     | packet_class_bnet \<Rightarrow> Some (get_short p 2)
     | packet_class_file \<Rightarrow> Some (get_short p 0)
     | packet_class_udp \<Rightarrow> Some (p_len p)
     | packet_class_raw \<Rightarrow> Some (p_len p)
     | packet_class_d2game \<Rightarrow> Some (p_len p)
     | packet_class_d2gs \<Rightarrow> Some (get_short p 0)
     | packet_class_d2cs_bnetd \<Rightarrow> Some (get_short p 0)
     | packet_class_d2cs \<Rightarrow> Some (get_short p 0)
     | packet_class_w3route \<Rightarrow> Some (get_short p 2)
     | packet_class_wolgameres \<Rightarrow>
         (let sz = unat (bn_short_nget (Some (get_bytes (p_data p) 0 2)))
          in Some (if sz = 0 then unat (bn_short_nget (Some (get_bytes (p_data p) 2 2))) else sz))
     | packet_class_none \<Rightarrow> None)"

definition packet_get_size :: "t_packet option \<Rightarrow> nat" where
  "packet_get_size pk = (case pk of None \<Rightarrow> 0 | Some p \<Rightarrow>
     (case claimed_size p of None \<Rightarrow> 0
      | Some sz \<Rightarrow> if sz > MAX_PACKET_SIZE then 0 else sz))"

definition packet_set_size :: "t_packet option \<Rightarrow> nat \<Rightarrow> int \<times> t_packet option" where
  "packet_set_size pk sz = (case pk of None \<Rightarrow> (-1, pk) | Some p \<Rightarrow>
     if sz > MAX_PACKET_SIZE then (-1, pk)
     else (case p_class p of
         packet_class_init \<Rightarrow>
           if sz \<noteq> 0 \<and> sz \<noteq> 1 then (-1, pk) else (0, Some (p\<lparr>p_len := sz\<rparr>))
       | packet_class_bnet \<Rightarrow>
           if sz \<noteq> 0 \<and> sz < 4 then (-1, pk) else (0, Some (put_short p 2 sz))
       | packet_class_file \<Rightarrow>
           if sz \<noteq> 0 \<and> sz < 4 then (-1, pk) else (0, Some (put_short p 0 sz))
       | packet_class_udp \<Rightarrow>
           if sz \<noteq> 0 \<and> sz < 4 then (-1, pk) else (0, Some (p\<lparr>p_len := sz\<rparr>))
       | packet_class_raw \<Rightarrow> (0, Some (p\<lparr>p_len := sz\<rparr>))
       | packet_class_d2game \<Rightarrow> (0, Some (p\<lparr>p_len := sz\<rparr>))
       | packet_class_d2cs \<Rightarrow> (0, Some (put_short p 0 sz))
       | packet_class_d2gs \<Rightarrow> (0, Some (put_short p 0 sz))
       | packet_class_d2cs_bnetd \<Rightarrow> (0, Some (put_short p 0 sz))
       | packet_class_w3route \<Rightarrow>
           if sz \<noteq> 0 \<and> sz < 4 then (-1, pk) else (0, Some (put_short p 2 sz))
       | packet_class_wolgameres \<Rightarrow> (0, Some (p\<lparr>p_len := sz\<rparr>))
       | packet_class_none \<Rightarrow> (-1, pk)))"

definition packet_create :: "t_packet \<Rightarrow> t_packet_class \<Rightarrow> t_packet option" where
  "packet_create mem pclass =
     (if pclass = packet_class_none then None
      else snd (packet_set_size (Some (mem\<lparr>p_ref := 1, p_class := pclass, p_flags := 0\<rparr>)) 0))"

definition packet_get_class :: "t_packet option \<Rightarrow> t_packet_class" where
  "packet_get_class pk = (case pk of None \<Rightarrow> packet_class_none | Some p \<Rightarrow> p_class p)"

fun class_str :: "t_packet_class \<Rightarrow> cstring" where
  "class_str packet_class_init = ''init''"
| "class_str packet_class_bnet = ''bnet''"
| "class_str packet_class_file = ''file''"
| "class_str packet_class_udp = ''udp''"
| "class_str packet_class_raw = ''raw''"
| "class_str packet_class_d2game = ''d2game''"
| "class_str packet_class_d2gs = ''d2gs''"
| "class_str packet_class_d2cs_bnetd = ''d2cs_bnetd''"
| "class_str packet_class_d2cs = ''d2cs''"
| "class_str packet_class_w3route = ''w3route''"
| "class_str packet_class_wolgameres = ''wolgameres''"
| "class_str packet_class_none = ''none''"

definition packet_get_class_str :: "t_packet option \<Rightarrow> cstring" where
  "packet_get_class_str pk = (case pk of None \<Rightarrow> ''unknown'' | Some p \<Rightarrow> class_str (p_class p))"

definition packet_set_class :: "t_packet option \<Rightarrow> t_packet_class \<Rightarrow> int \<times> t_packet option" where
  "packet_set_class pk pclass = (case pk of None \<Rightarrow> (-1, pk) | Some p \<Rightarrow>
     if p_class p \<noteq> packet_class_raw then (-1, pk)
     else if pclass = packet_class_none then (-1, pk)
     else (0, Some (p\<lparr>p_class := pclass\<rparr>)))"

definition packet_get_type :: "t_packet option \<Rightarrow> nat" where
  "packet_get_type pk = (case pk of None \<Rightarrow> 0 | Some p \<Rightarrow>
     (let sz = packet_get_size pk;
          byte = (\<lambda>off. unat (bn_byte_get (Some (get_bytes (p_data p) off 1))))
      in case p_class p of
         packet_class_init \<Rightarrow> 1
       | packet_class_bnet \<Rightarrow> if sz < 4 then 0 else get_short p 0
       | packet_class_file \<Rightarrow> if sz < 4 then 0 else get_short p 2
       | packet_class_udp \<Rightarrow>
           if sz < 4 then 0 else unat (bn_int_get (Some (get_bytes (p_data p) 0 4)))
       | packet_class_raw \<Rightarrow> 0
       | packet_class_d2game \<Rightarrow> if sz < 1 then 0 else byte 0
       | packet_class_d2gs \<Rightarrow> if sz < 8 then 0 else get_short p 2
       | packet_class_d2cs_bnetd \<Rightarrow> if sz < 8 then 0 else get_short p 2
       | packet_class_d2cs \<Rightarrow> if sz < 3 then 0 else byte 2
       | packet_class_w3route \<Rightarrow> if sz < 4 then 0 else get_short p 0
       | packet_class_wolgameres \<Rightarrow> 0
       | packet_class_none \<Rightarrow> 0))"

definition packet_set_type :: "t_packet option \<Rightarrow> u32 \<Rightarrow> int \<times> t_packet option" where
  "packet_set_type pk ty = (case pk of None \<Rightarrow> (-1, pk) | Some p \<Rightarrow>
     (let sz = packet_get_size pk;
          short = (\<lambda>off. put_short p off (unat ty));
          byte = (\<lambda>off. p\<lparr>p_data := put_bytes (p_data p) off
                   (the (snd (bn_byte_set (Some (get_bytes (p_data p) off 1)) (ucast ty))))\<rparr>)
      in case p_class p of
         packet_class_init \<Rightarrow> if ty \<noteq> 1 then (-1, pk) else (0, pk)
       | packet_class_bnet \<Rightarrow>
           if sz < 4 then (-1, pk)
           else if unat ty > MAX_NORMAL_TYPE then (-1, pk) else (0, Some (short 0))
       | packet_class_file \<Rightarrow>
           if sz < 4 then (-1, pk)
           else if unat ty > MAX_FILE_TYPE then (-1, pk) else (0, Some (short 2))
       | packet_class_udp \<Rightarrow>
           if sz < 4 then (-1, pk)
           else (0, Some (p\<lparr>p_data := put_bytes (p_data p) 0
                   (the (snd (bn_int_set (Some (get_bytes (p_data p) 0 4)) ty)))\<rparr>))
       | packet_class_d2game \<Rightarrow> if sz < 1 then (-1, pk) else (0, Some (byte 0))
       | packet_class_d2gs \<Rightarrow> if sz < 8 then (-1, pk) else (0, Some (short 2))
       | packet_class_d2cs_bnetd \<Rightarrow> if sz < 8 then (-1, pk) else (0, Some (short 2))
       | packet_class_d2cs \<Rightarrow> if sz < 3 then (-1, pk) else (0, Some (byte 2))
       | packet_class_w3route \<Rightarrow> if sz < 4 then (-1, pk) else (0, Some (short 0))
       | packet_class_wolgameres \<Rightarrow> (0, pk)
       | packet_class_raw \<Rightarrow> (0, pk)
       | packet_class_none \<Rightarrow> (-1, pk)))"

definition packet_get_header_size :: "t_packet option \<Rightarrow> nat" where
  "packet_get_header_size pk = (case pk of None \<Rightarrow> MAX_PACKET_SIZE | Some p \<Rightarrow>
     if packet_get_class pk = packet_class_none then MAX_PACKET_SIZE
     else class_header (packet_get_class pk))"

definition packet_get_flags :: "t_packet option \<Rightarrow> u32" where
  "packet_get_flags pk = (case pk of None \<Rightarrow> 0 | Some p \<Rightarrow> p_flags p)"

definition packet_set_flags :: "t_packet option \<Rightarrow> u32 \<Rightarrow> int \<times> t_packet option" where
  "packet_set_flags pk fl = (case pk of None \<Rightarrow> (-1, pk) | Some p \<Rightarrow> (0, Some (p\<lparr>p_flags := fl\<rparr>)))"

text \<open>
  The four append functions share their bounds: how many bytes fit. \<open>append_len\<close> is \<open>addlen\<close>,
  \<open>None\<close> for the early \<open>return -1\<close>.
\<close>

definition append_len :: "t_packet option \<Rightarrow> nat \<Rightarrow> nat option" where
  "append_len pk len =
     (let sz = packet_get_size pk
      in if sz \<ge> MAX_PACKET_SIZE then None
         else let addlen = (if MAX_PACKET_SIZE - sz > len then len else MAX_PACKET_SIZE - sz)
              in if addlen < 1 then None else Some addlen)"

definition append_bytes :: "t_packet option \<Rightarrow> nat \<Rightarrow> u8 list \<Rightarrow> int \<times> t_packet option" where
  "append_bytes pk addlen bs =
     (let sz = packet_get_size pk;
          pk' = map_option (\<lambda>p. p\<lparr>p_data := put_bytes (p_data p) sz bs\<rparr>) pk
      in (int addlen, snd (packet_set_size pk' (sz + addlen))))"

definition packet_append_string :: "t_packet option \<Rightarrow> u8 list option \<Rightarrow> int \<times> t_packet option" where
  "packet_append_string pk str = (case pk of None \<Rightarrow> (-1, pk) | Some p \<Rightarrow>
     (case str of None \<Rightarrow> (-1, pk) | Some s \<Rightarrow>
      (case append_len pk (length s + 1) of None \<Rightarrow> (-1, pk)
       | Some addlen \<Rightarrow> append_bytes pk addlen (take (addlen - 1) s @ [0]))))"

definition packet_append_ntstring :: "t_packet option \<Rightarrow> u8 list option \<Rightarrow> int \<times> t_packet option" where
  "packet_append_ntstring pk str = (case pk of None \<Rightarrow> (-1, pk) | Some p \<Rightarrow>
     (case str of None \<Rightarrow> (-1, pk) | Some s \<Rightarrow>
      (case append_len pk (length s) of None \<Rightarrow> (-1, pk)
       | Some addlen \<Rightarrow> append_bytes pk addlen (take addlen s))))"

text \<open>A \<open>t_lstr\<close> is a character buffer (NULL or its bytes) and a length.\<close>

definition packet_append_lstr :: "t_packet option \<Rightarrow> (u8 list option \<times> nat) option \<Rightarrow> int \<times> t_packet option" where
  "packet_append_lstr pk lstr = (case pk of None \<Rightarrow> (-1, pk) | Some p \<Rightarrow>
     (case lstr of None \<Rightarrow> (-1, pk) | Some (None, _) \<Rightarrow> (-1, pk)
      | Some (Some s, len) \<Rightarrow>
      (case append_len pk len of None \<Rightarrow> (-1, pk)
       | Some addlen \<Rightarrow> append_bytes pk addlen (take (addlen - 1) s @ [0]))))"

definition packet_append_data :: "t_packet option \<Rightarrow> u8 list option \<Rightarrow> nat \<Rightarrow> int \<times> t_packet option" where
  "packet_append_data pk data len = (case pk of None \<Rightarrow> (-1, pk) | Some p \<Rightarrow>
     (case data of None \<Rightarrow> (-1, pk) | Some d \<Rightarrow>
      (case append_len pk len of None \<Rightarrow> (-1, pk)
       | Some addlen \<Rightarrow> append_bytes pk addlen (take addlen d))))"

text \<open>Pointers into the packet are offsets in its bytes.\<close>

definition packet_get_raw_data :: "t_packet option \<Rightarrow> nat \<Rightarrow> nat option" where
  "packet_get_raw_data pk offset = (case pk of None \<Rightarrow> None | Some p \<Rightarrow>
     if offset \<ge> packet_get_size pk
        \<or> (offset \<ge> MAX_PACKET_SIZE \<and> p_class p \<noteq> packet_class_wolgameres
           \<or> offset \<ge> MAX_WOL_GAMERES_PACKET_SIZE)
     then None else Some offset)"

definition packet_get_raw_data_build :: "t_packet option \<Rightarrow> nat \<Rightarrow> nat option" where
  "packet_get_raw_data_build pk offset = (case pk of None \<Rightarrow> None | Some p \<Rightarrow>
     if offset \<ge> MAX_PACKET_SIZE \<and> p_class p \<noteq> packet_class_wolgameres
        \<or> offset \<ge> MAX_WOL_GAMERES_PACKET_SIZE
     then None else Some offset)"

text \<open>
  The scan for the terminating NUL. The loop condition reads the byte before the bound is
  checked; a read past the bytes is \<open>None\<close>. \<open>Some None\<close> is the NULL result.
\<close>

function str_scan :: "u8 list \<Rightarrow> nat \<Rightarrow> nat \<Rightarrow> nat \<Rightarrow> nat \<Rightarrow> nat option option" where
  "str_scan data sz maxlen offset pos =
     (if pos \<ge> length data then None
      else if data ! pos \<noteq> 0 then
        (if pos \<ge> sz \<or> pos - offset \<ge> maxlen then Some None
         else str_scan data sz maxlen offset (Suc pos))
      else if pos \<ge> sz \<or> pos - offset \<ge> maxlen then Some None
      else Some (Some offset))"
  by pat_completeness auto
termination
  by (relation "measure (\<lambda>(data, sz, maxlen, offset, pos). length data - pos)") auto

declare str_scan.simps [simp del]

definition packet_get_str_const :: "t_packet option \<Rightarrow> nat \<Rightarrow> nat \<Rightarrow> nat option option" where
  "packet_get_str_const pk offset maxlen = (case pk of None \<Rightarrow> Some None | Some p \<Rightarrow>
     if offset \<ge> packet_get_size pk then Some None
     else str_scan (p_data p) (packet_get_size pk) maxlen offset offset)"

text \<open>\<open>offset+len\<close> is an \<open>unsigned int\<close> sum.\<close>

definition packet_get_data_const :: "t_packet option \<Rightarrow> u32 \<Rightarrow> u32 \<Rightarrow> nat option" where
  "packet_get_data_const pk offset len = (case pk of None \<Rightarrow> None | Some p \<Rightarrow>
     if len < 1 then None
     else if unat (offset + len) > packet_get_size pk then None
     else Some (unat offset))"

definition packet_duplicate :: "t_packet \<Rightarrow> t_packet option \<Rightarrow> t_packet option" where
  "packet_duplicate mem src =
     (case packet_create mem (packet_get_class src) of None \<Rightarrow> None
      | Some p \<Rightarrow> (let p1 = snd (packet_append_data (Some p) (map_option p_data src) (packet_get_size src))
                  in snd (packet_set_flags p1 (packet_get_flags src))))"

text \<open>Reference counting, on the store of live packets.\<close>

type_synonym pheap = "nat \<rightharpoonup> t_packet"

definition packet_destroy :: "pheap \<Rightarrow> nat option \<Rightarrow> pheap" where
  "packet_destroy h pk = (case pk of None \<Rightarrow> h | Some a \<Rightarrow> h(a := None))"

definition packet_add_ref :: "pheap \<Rightarrow> nat option \<Rightarrow> (nat option \<times> pheap) option" where
  "packet_add_ref h pk = (case pk of None \<Rightarrow> Some (None, h) | Some a \<Rightarrow>
     (case h a of None \<Rightarrow> None
      | Some p \<Rightarrow> Some (Some a, h(a \<mapsto> p\<lparr>p_ref := p_ref p + 1\<rparr>))))"

definition packet_del_ref :: "pheap \<Rightarrow> nat option \<Rightarrow> pheap option" where
  "packet_del_ref h pk = (case pk of None \<Rightarrow> Some h | Some a \<Rightarrow>
     (case h a of None \<Rightarrow> None
      | Some p \<Rightarrow> if p_ref p < 2 then Some (packet_destroy h pk)
                 else Some (h(a \<mapsto> p\<lparr>p_ref := p_ref p - 1\<rparr>))))"

section \<open>Well-formed packets and their payload\<close>

definition wf_packet :: "t_packet \<Rightarrow> bool" where
  "wf_packet p \<longleftrightarrow> length (p_data p) = MAX_PACKET_SIZE"

lemma wf_packet_updates [simp]:
  "wf_packet (p\<lparr>p_len := n\<rparr>) = wf_packet p" "wf_packet (p\<lparr>p_flags := f\<rparr>) = wf_packet p"
  "wf_packet (p\<lparr>p_ref := r\<rparr>) = wf_packet p" "wf_packet (p\<lparr>p_class := c\<rparr>) = wf_packet p"
  by (simp_all add: wf_packet_def)

text \<open>The classes whose packets the servers build: their size can be set and is read back.\<close>

definition growable :: "t_packet_class \<Rightarrow> bool" where
  "growable c \<longleftrightarrow> c \<notin> {packet_class_none, packet_class_init, packet_class_wolgameres}"

definition payload :: "t_packet \<Rightarrow> u8 list" where
  "payload p = drop (class_header (p_class p)) (take (packet_get_size (Some p)) (p_data p))"

lemma length_put_bytes [simp]:
  "off + length bs \<le> length data \<Longrightarrow> length (put_bytes data off bs) = length data"
  by (simp add: put_bytes_def)

lemma put_short_eq:
  assumes "wf_packet p" "off + 2 \<le> MAX_PACKET_SIZE"
  shows "put_short p off v = p\<lparr>p_data := put_bytes (p_data p) off (enc_short (of_nat v))\<rparr>"
  using assms set_eqs(1) [of "get_bytes (p_data p) off 2"]
  by (simp add: put_short_def get_bytes_def wf_packet_def)

lemma wf_put_short [simp]:
  "wf_packet p \<Longrightarrow> off + 2 \<le> MAX_PACKET_SIZE \<Longrightarrow> wf_packet (put_short p off v)"
  using put_short_eq [of p off v] by (simp add: wf_packet_def enc_lengths)

lemma get_put_short:
  assumes "wf_packet p" "off + 2 \<le> MAX_PACKET_SIZE" "v \<le> MAX_PACKET_SIZE"
  shows "get_short (put_short p off v) off = v"
proof -
  have "bn_short_get (Some (get_bytes (put_bytes (p_data p) off (enc_short (of_nat v))) off 2)) = of_nat v"
    using short_field.read_written [of off "p_data p" "of_nat v"] assms
    by (simp add: wf_packet_def get_bytes_def put_bytes_def enc_lengths)
  with assms put_short_eq [OF assms(1,2)] show ?thesis
    by (simp add: get_short_def unat_of_nat)
qed

lemma drop_put_bytes:
  "off + length bs \<le> k \<Longrightarrow> k \<le> length data \<Longrightarrow> drop k (put_bytes data off bs) = drop k data"
  by (simp add: put_bytes_def)

lemma put_short_frame:
  assumes "wf_packet p" "off + 2 \<le> k" "k \<le> MAX_PACKET_SIZE"
  shows "drop k (p_data (put_short p off v)) = drop k (p_data p)"
  using assms put_short_eq [of p off v] drop_put_bytes [of off "enc_short (of_nat v)" k "p_data p"]
  by (simp add: wf_packet_def enc_lengths)

lemma put_short_sel [simp]:
  "p_class (put_short p off v) = p_class p" "p_flags (put_short p off v) = p_flags p"
  "p_ref (put_short p off v) = p_ref p" "p_len (put_short p off v) = p_len p"
  by (simp_all add: put_short_def)

lemma packet_get_size_flags [simp]:
  "packet_get_size (Some (p\<lparr>p_flags := f\<rparr>)) = packet_get_size (Some p)"
  by (cases "p_class p") (simp_all add: packet_get_size_def claimed_size_def get_short_def Let_def)

lemma packet_get_size_bound: "packet_get_size pk \<le> MAX_PACKET_SIZE"
  by (simp add: packet_get_size_def split: option.splits)

lemma packet_set_size_grows:
  assumes "wf_packet p" "growable (p_class p)" "v \<le> MAX_PACKET_SIZE"
    "v = 0 \<or> class_header (p_class p) \<le> v"
  shows "\<exists>p'. packet_set_size (Some p) v = (0, Some p') \<and> wf_packet p'
     \<and> packet_get_size (Some p') = v \<and> p_class p' = p_class p \<and> p_flags p' = p_flags p
     \<and> p_ref p' = p_ref p
     \<and> drop (class_header (p_class p)) (p_data p') = drop (class_header (p_class p)) (p_data p)"
  using assms get_put_short [OF assms(1) _ assms(3), of 0] get_put_short [OF assms(1) _ assms(3), of 2]
  by (cases "p_class p")
    (auto simp: growable_def packet_set_size_def packet_get_size_def claimed_size_def put_short_frame)

lemma append_len_some:
  assumes "packet_get_size pk < MAX_PACKET_SIZE" "0 < len"
  shows "append_len pk len = Some (min len (MAX_PACKET_SIZE - packet_get_size pk))"
  using assms by (auto simp: append_len_def Let_def)

lemma append_bytes_payload:
  assumes "wf_packet p" "growable (p_class p)" "class_header (p_class p) \<le> packet_get_size (Some p)"
    "length bs = n" "packet_get_size (Some p) + n \<le> MAX_PACKET_SIZE" 
  shows "\<exists>p'. append_bytes (Some p) n bs = (int n, Some p') \<and> wf_packet p' \<and> p_class p' = p_class p
     \<and> p_flags p' = p_flags p
     \<and> packet_get_size (Some p') = packet_get_size (Some p) + n
     \<and> drop (class_header (p_class p)) (take (packet_get_size (Some p) + n) (p_data p')) = payload p @ bs"
proof -
  let ?s = "packet_get_size (Some p)" and ?h = "class_header (p_class p)"
  let ?q = "p\<lparr>p_data := put_bytes (p_data p) ?s bs\<rparr>"
  have wf: "wf_packet ?q" using assms by (simp add: wf_packet_def)
  obtain p' where p': "packet_set_size (Some ?q) (?s + n) = (0, Some p')" "wf_packet p'"
      "packet_get_size (Some p') = ?s + n" "p_class p' = p_class p" "p_flags p' = p_flags p"
      "drop ?h (p_data p') = drop ?h (put_bytes (p_data p) ?s bs)"
    using packet_set_size_grows [OF wf, of "?s + n"] assms by auto
  have "drop ?h (take (?s + n) (p_data p')) = take (?s + n - ?h) (drop ?h (p_data p'))"
    by (simp add: drop_take)
  also have "\<dots> = drop ?h (take (?s + n) (put_bytes (p_data p) ?s bs))"
    by (simp add: p' drop_take)
  also have "\<dots> = payload p @ bs"
    using assms by (simp add: put_bytes_def payload_def wf_packet_def)
  finally show ?thesis using p' by (auto simp: append_bytes_def)
qed

lemma append_payload:
  assumes "wf_packet p" "growable (p_class p)" "class_header (p_class p) \<le> packet_get_size (Some p)"
    "length bs = n" "packet_get_size (Some p) + n \<le> MAX_PACKET_SIZE"
  shows "\<exists>p'. append_bytes (Some p) n bs = (int n, Some p') \<and> wf_packet p' \<and> p_class p' = p_class p
     \<and> packet_get_size (Some p') = packet_get_size (Some p) + n \<and> payload p' = payload p @ bs"
  using append_bytes_payload [OF assms] by (auto simp: payload_def)

text \<open>The string scan.\<close>

lemma str_scan_total:
  assumes "sz < length data" "offset \<le> pos" "pos \<le> sz"
  shows "str_scan data sz maxlen offset pos \<noteq> None"
  using assms
proof (induction data sz maxlen offset pos rule: str_scan.induct)
  case (1 data sz maxlen offset pos)
  show ?case
  proof (cases "pos = sz")
    case True
    with "1.prems" show ?thesis by (subst str_scan.simps) auto
  next
    case False
    with "1" show ?thesis by (subst str_scan.simps) auto
  qed
qed

lemma str_scan_found:
  assumes "pos \<le> k" "k < sz" "k < length data" "k - offset < maxlen"
    "data ! k = 0" "\<forall>i. pos \<le> i \<and> i < k \<longrightarrow> data ! i \<noteq> 0" "offset \<le> pos"
  shows "str_scan data sz maxlen offset pos = Some (Some offset)"
  using assms
proof (induction data sz maxlen offset pos rule: str_scan.induct)
  case (1 data sz maxlen offset pos)
  show ?case
  proof (cases "pos = k")
    case True
    with "1.prems" show ?thesis by (subst str_scan.simps) auto
  next
    case False
    with "1.prems" have "data ! pos \<noteq> 0" "\<not> pos \<ge> sz" "\<not> pos - offset \<ge> maxlen"
        "\<not> pos \<ge> length data" by auto
    moreover from this have "str_scan data sz maxlen offset (Suc pos) = Some (Some offset)"
      using False "1.prems" by (intro "1.IH") auto
    ultimately show ?thesis by (simp add: str_scan.simps [of data sz maxlen offset pos])
  qed
qed

lemma str_scan_sound:
  assumes "str_scan data sz maxlen offset pos = Some (Some r)" "offset \<le> pos"
  shows "r = offset \<and> (\<exists>k. pos \<le> k \<and> k < sz \<and> k < length data \<and> k - offset < maxlen \<and> data ! k = 0)"
  using assms
proof (induction data sz maxlen offset pos rule: str_scan.induct)
  case (1 data sz maxlen offset pos)
  note unf = str_scan.simps [of data sz maxlen offset pos]
  have inside: "\<not> pos \<ge> length data" and bound: "\<not> (pos \<ge> sz \<or> pos - offset \<ge> maxlen)"
    using "1.prems"(1) unf by (metis option.distinct(1) option.inject)+
  show ?case
  proof (cases "data ! pos = 0")
    case True
    with "1.prems" inside bound unf show ?thesis by auto
  next
    case False
    with "1.prems"(1) inside bound unf have "str_scan data sz maxlen offset (Suc pos) = Some (Some r)"
      by simp
    with False inside bound "1.IH" "1.prems"(2)
    have "r = offset \<and> (\<exists>k\<ge>Suc pos. k < sz \<and> k < length data \<and> k - offset < maxlen \<and> data ! k = 0)"
      by simp
    then show ?thesis using Suc_leD by blast
  qed
qed

lemma packet_append_data_eq:
  assumes "packet_get_size (Some p) < MAX_PACKET_SIZE" "0 < len"
  shows "packet_append_data (Some p) (Some d) len =
    (let n = min len (MAX_PACKET_SIZE - packet_get_size (Some p)) in append_bytes (Some p) n (take n d))"
  using append_len_some [OF assms] by (simp add: packet_append_data_def Let_def)

lemma packet_duplicate_payload:
  assumes "wf_packet mem" "wf_packet p" "growable (p_class p)"
    "class_header (p_class p) \<le> packet_get_size (Some p)" "0 < packet_get_size (Some p)"
  shows "\<exists>p'. packet_duplicate mem (Some p) = Some p' \<and> wf_packet p' \<and> p_class p' = p_class p
    \<and> p_flags p' = p_flags p \<and> packet_get_size (Some p') = packet_get_size (Some p)
    \<and> payload p' = payload p"
proof -
  let ?s = "packet_get_size (Some p)" and ?h = "class_header (p_class p)"
  have ne: "p_class p \<noteq> packet_class_none" using assms(3) by (auto simp: growable_def)
  have sb: "?s \<le> MAX_PACKET_SIZE" by (rule packet_get_size_bound)
  obtain q where q: "packet_create mem (p_class p) = Some q" "wf_packet q"
      "packet_get_size (Some q) = 0" "p_class q = p_class p"
    using packet_set_size_grows [of "mem\<lparr>p_ref := 1, p_class := p_class p, p_flags := 0\<rparr>" 0] assms ne
    by (auto simp: packet_create_def wf_packet_def)
  let ?d = "p_data p" and ?q = "q\<lparr>p_data := put_bytes (p_data q) 0 (take ?s (p_data p))\<rparr>"
  have wf: "wf_packet ?q" using q assms sb by (simp add: wf_packet_def)
  obtain p' where p': "packet_set_size (Some ?q) ?s = (0, Some p')" "wf_packet p'"
      "packet_get_size (Some p') = ?s" "p_class p' = p_class p"
      "drop ?h (p_data p') = drop ?h (p_data ?q)"
    using packet_set_size_grows [OF wf, of ?s] assms(3,4) q sb by auto
  have app: "packet_append_data (Some q) (Some ?d) ?s = (int ?s, Some p')"
    using packet_append_data_eq [of q ?s ?d] q assms(5) sb p'(1)
    by (simp add: append_bytes_def Let_def)
  have "drop ?h (take ?s (p_data p')) = take (?s - ?h) (drop ?h (p_data ?q))"
    by (simp add: drop_take p')
  also have "\<dots> = drop ?h (take ?s (p_data p))"
    using assms sb by (simp add: put_bytes_def drop_take wf_packet_def min_def)
  finally have "payload (p'\<lparr>p_flags := p_flags p\<rparr>) = payload p"
    using p' by (simp add: payload_def)
  then show ?thesis
    using q app p' by (simp add: packet_duplicate_def packet_get_class_def packet_set_flags_def
        packet_get_flags_def)
qed

section \<open>Properties\<close>

text \<open>
  Appending to a packet under construction extends its payload by exactly the longest prefix of the
  data that fits in 3072 bytes, returns that length, keeps every earlier payload byte, the class
  and the flags, and leaves the header claiming the new size.
\<close>

lemma packet_append_data_payload:
  assumes "wf_packet p" "growable (p_class p)"
    "class_header (p_class p) \<le> packet_get_size (Some p)" "packet_get_size (Some p) < MAX_PACKET_SIZE"
    "0 < len" "len \<le> length d"
  shows "\<exists>p'. packet_append_data (Some p) (Some d) len
              = (int (min len (MAX_PACKET_SIZE - packet_get_size (Some p))), Some p')
      \<and> wf_packet p' \<and> p_class p' = p_class p
      \<and> packet_get_size (Some p')
          = packet_get_size (Some p) + min len (MAX_PACKET_SIZE - packet_get_size (Some p))
      \<and> payload p' = payload p @ take (min len (MAX_PACKET_SIZE - packet_get_size (Some p))) d"
  using append_payload [of p "take (min len (MAX_PACKET_SIZE - packet_get_size (Some p))) d"] assms
  by (simp add: packet_append_data_eq Let_def)

lemma packet_append_data_payload_witness:
  "\<exists>p'. packet_append_data
      (Some \<lparr>p_ref = 1, p_class = packet_class_raw, p_flags = 0, p_len = 2, p_data = replicate 3072 7\<rparr>)
      (Some [1, 2, 3]) 3 = (3, Some p') \<and> payload p' = [7, 7, 1, 2, 3]"
  using packet_append_data_payload [of
      "\<lparr>p_ref = 1, p_class = packet_class_raw, p_flags = 0, p_len = 2, p_data = replicate 3072 7\<rparr>"
      3 "[1, 2, 3]"]
  by (auto simp: wf_packet_def growable_def packet_get_size_def claimed_size_def payload_def)

text \<open>
  C28. Strings survive the packet: a NUL-free string that fits, appended with \<open>packet_append_string\<close>,
  is found by \<open>packet_get_str_const\<close> at the offset it was appended at, for every \<open>maxlen\<close> that
  leaves room for it and its NUL, and the bytes there are the string and the NUL.
\<close>

theorem packet_string_roundtrip:
  assumes "wf_packet p" "growable (p_class p)" "class_header (p_class p) \<le> packet_get_size (Some p)"
    "0 \<notin> set s" "packet_get_size (Some p) + length s + 1 \<le> MAX_PACKET_SIZE" "length s < maxlen"
  shows "\<exists>p'. packet_append_string (Some p) (Some s) = (int (length s + 1), Some p')
      \<and> packet_get_str_const (Some p') (packet_get_size (Some p)) maxlen
          = Some (Some (packet_get_size (Some p)))
      \<and> get_bytes (p_data p') (packet_get_size (Some p)) (length s + 1) = s @ [0]"
proof -
  let ?s = "packet_get_size (Some p)" and ?h = "class_header (p_class p)"
  have "append_len (Some p) (length s + 1) = Some (length s + 1)"
    using append_len_some [of "Some p" "length s + 1"] assms(5) by (simp add: min_def)
  then obtain p' where p': "packet_append_string (Some p) (Some s) = (int (length s + 1), Some p')"
      "wf_packet p'" "packet_get_size (Some p') = ?s + (length s + 1)"
      "p_class p' = p_class p"
      "drop ?h (take (?s + (length s + 1)) (p_data p')) = payload p @ s @ [0]"
    using append_bytes_payload [of p "s @ [0]" "length s + 1"] assms by (auto simp: packet_append_string_def)
  have "length (payload p) = ?s - ?h"
    using assms(1,3,5) by (simp add: payload_def wf_packet_def)
  with arg_cong [OF p'(5), of "drop (?s - ?h)"] assms(3)
  have bytes: "get_bytes (p_data p') ?s (length s + 1) = s @ [0]"
    by (simp add: get_bytes_def drop_take)
  have nth: "p_data p' ! (?s + i) = (s @ [0]) ! i" if "i < length s + 1" for i
    using arg_cong [OF bytes, of "\<lambda>xs. xs ! i"] that p'(2) assms(5)
    by (simp add: get_bytes_def wf_packet_def)
  have "str_scan (p_data p') (?s + (length s + 1)) maxlen ?s ?s = Some (Some ?s)"
  proof (rule str_scan_found [where k = "?s + length s"])
    show "\<forall>i. ?s \<le> i \<and> i < ?s + length s \<longrightarrow> p_data p' ! i \<noteq> 0"
    proof (intro allI impI)
      fix i assume "?s \<le> i \<and> i < ?s + length s"
      then obtain j where j: "i = ?s + j" "j < length s" by (metis le_Suc_ex nat_add_left_cancel_less)
      then have "p_data p' ! i = s ! j" "s ! j \<in> set s"
        using nth [of j] by (simp_all add: nth_append)
      with assms(4) show "p_data p' ! i \<noteq> 0" by metis
    qed
  qed (use nth [of "length s"] assms p'(2) in \<open>auto simp: wf_packet_def\<close>)
  with p' bytes show ?thesis by (auto simp: packet_get_str_const_def)
qed

theorem packet_string_roundtrip_witness:
  "\<exists>p'. packet_append_string
      (Some \<lparr>p_ref = 1, p_class = packet_class_raw, p_flags = 0, p_len = 2, p_data = replicate 3072 7\<rparr>)
      (Some [65, 66]) = (3, Some p') \<and> packet_get_str_const (Some p') 2 16 = Some (Some 2)"
  using packet_string_roundtrip [of
      "\<lparr>p_ref = 1, p_class = packet_class_raw, p_flags = 0, p_len = 2, p_data = replicate 3072 7\<rparr>"
      "[65, 66]" 16]
  by (auto simp: wf_packet_def growable_def packet_get_size_def claimed_size_def)

text \<open>
  C27. Reading a string from a received packet is memory safe and sound for every packet of fewer than
  3072 bytes, whatever its bytes, offset and \<open>maxlen\<close>: the scan never leaves the packet, and a
  result means that the NUL lies inside the packet and within \<open>maxlen\<close>. (At the full 3072 bytes the
  loop condition reads the byte after the last one before the bound is checked.)
\<close>

theorem packet_get_str_const_safe:
  assumes "wf_packet p" "packet_get_size (Some p) < MAX_PACKET_SIZE"
  shows "\<exists>r. packet_get_str_const (Some p) offset maxlen = Some r
     \<and> (case r of None \<Rightarrow> True
        | Some off \<Rightarrow> off = offset \<and> (\<exists>k. offset \<le> k \<and> k < packet_get_size (Some p)
            \<and> k - offset < maxlen \<and> p_data p ! k = 0))"
proof (cases "offset \<ge> packet_get_size (Some p)")
  case True
  then show ?thesis by (simp add: packet_get_str_const_def)
next
  case False
  then obtain r where r: "str_scan (p_data p) (packet_get_size (Some p)) maxlen offset offset = Some r"
    using str_scan_total [of "packet_get_size (Some p)" "p_data p" offset offset maxlen] assms
    by (auto simp: wf_packet_def)
  with False str_scan_sound [of "p_data p" "packet_get_size (Some p)" maxlen offset offset]
  show ?thesis by (cases r) (auto simp: packet_get_str_const_def)
qed

theorem packet_get_str_const_safe_witness:
  "\<exists>r. packet_get_str_const (Some \<lparr>p_ref = 1, p_class = packet_class_raw, p_flags = 0, p_len = 2,
          p_data = replicate 3072 7\<rparr>) 0 100 = Some r"
  using packet_get_str_const_safe [of
      "\<lparr>p_ref = 1, p_class = packet_class_raw, p_flags = 0, p_len = 2, p_data = replicate 3072 7\<rparr>" 0 100]
  by (auto simp: wf_packet_def packet_get_size_def claimed_size_def)

end
