(* ===== verification/Common_Queue.thy ===== *)
theory Common_Queue
  imports Packet_Core
begin

text \<open>
  \<^verbatim>\<open>common/queue.cpp\<close>: the packet queues of a connection, ring buffers that grow by
  \<open>QUEUE_QUANTUM\<close> slots when full. \<open>queue\<close> is the address of the caller's queue pointer (outer
  \<open>None\<close> for NULL, inner \<open>None\<close> for a queue not created yet); a slot is a packet pointer, \<open>None\<close>
  where it is NULL or not written since \<open>xrealloc\<close>. Reads and writes outside the ring, and a
  modulus of zero, are \<open>None\<close>. The ring's \<open>unsigned\<close> indices are natural numbers: they are bounded
  by \<open>alen\<close>, and an array of \<open>2^32\<close> pointers is never allocated.

  A queue refines a FIFO list: the packets from \<open>tail\<close> on, \<open>ulen\<close> of them, around the ring.
\<close>

abbreviation QUEUE_QUANTUM :: nat where "QUEUE_QUANTUM \<equiv> 10"

record t_queue =
  q_ulen :: nat
  q_alen :: nat
  q_ring :: "nat option list"
  q_head :: nat
  q_tail :: nat

definition memmove :: "'a list \<Rightarrow> nat \<Rightarrow> nat \<Rightarrow> nat \<Rightarrow> 'a list option" where
  "memmove xs dst src n =
     (if dst + n \<le> length xs \<and> src + n \<le> length xs
      then Some (take dst xs @ take n (drop src xs) @ drop (dst + n) xs) else None)"

section \<open>Operations\<close>

definition queue_pull_packet ::
  "t_queue option option \<Rightarrow> (nat option \<times> t_queue option option) option" where
  "queue_pull_packet queue = (case queue of
       None \<Rightarrow> Some (None, queue)
     | Some None \<Rightarrow> Some (None, queue)
     | Some (Some t) \<Rightarrow>
         if q_ulen t = 0 then Some (None, queue)
         else if q_tail t < length (q_ring t) \<and> q_alen t \<noteq> 0
         then Some (q_ring t ! q_tail t,
                    Some (Some (t\<lparr>q_tail := (q_tail t + 1) mod q_alen t, q_ulen := q_ulen t - 1\<rparr>)))
         else None)"

definition queue_peek_packet :: "t_queue option option \<Rightarrow> nat option option" where
  "queue_peek_packet queue = (case queue of
       None \<Rightarrow> Some None
     | Some None \<Rightarrow> Some None
     | Some (Some t) \<Rightarrow>
         if q_ulen t = 0 then Some None
         else if q_tail t < length (q_ring t) then Some (q_ring t ! q_tail t) else None)"

text \<open>The resize: \<open>xrealloc\<close>, then the wrapped-around part is moved behind the old end.\<close>

definition queue_grow :: "t_queue \<Rightarrow> t_queue option" where
  "queue_grow t =
     (let ring = q_ring t @ replicate QUEUE_QUANTUM None;
          t1 = t\<lparr>q_ring := ring, q_alen := q_alen t + QUEUE_QUANTUM\<rparr>
      in if q_head t \<noteq> 0
         then let moved = (if QUEUE_QUANTUM \<le> q_head t then QUEUE_QUANTUM else q_head t)
              in do {
                r1 \<leftarrow> memmove ring (q_ulen t) 0 moved;
                if q_head t > QUEUE_QUANTUM
                then do { r2 \<leftarrow> memmove r1 0 moved (q_head t - moved);
                          Some (t1\<lparr>q_ring := r2, q_head := q_head t - moved\<rparr>) }
                else if q_head t < QUEUE_QUANTUM
                then Some (t1\<lparr>q_ring := r1, q_head := q_ulen t + moved\<rparr>)
                else Some (t1\<lparr>q_ring := r1, q_head := 0\<rparr>) }
         else Some (t1\<lparr>q_head := q_ulen t\<rparr>))"

definition queue_push_packet ::
  "pheap \<Rightarrow> t_queue option option \<Rightarrow> nat option \<Rightarrow> (pheap \<times> t_queue option option) option" where
  "queue_push_packet h queue packet = (case queue of None \<Rightarrow> Some (h, queue) | Some q \<Rightarrow>
     (case packet of None \<Rightarrow> Some (h, queue) | Some pk \<Rightarrow> do {
        let temp = (case q of Some t \<Rightarrow> t
                    | None \<Rightarrow> \<lparr>q_ulen = 0, q_alen = 0, q_ring = [], q_head = 0, q_tail = 0\<rparr>)
        in do {
          t \<leftarrow> (if q_ulen temp = q_alen temp then queue_grow temp else Some temp);
          (p, h') \<leftarrow> packet_add_ref h packet;
          if q_head t < length (q_ring t) \<and> q_alen t \<noteq> 0
          then Some (h', Some (Some (t\<lparr>q_ring := (q_ring t)[q_head t := p],
                                       q_head := (q_head t + 1) mod q_alen t,
                                       q_ulen := q_ulen t + 1\<rparr>)))
          else None } }))"

definition queue_get_length :: "t_queue option option \<Rightarrow> nat" where
  "queue_get_length queue = (case queue of None \<Rightarrow> 0 | Some None \<Rightarrow> 0 | Some (Some t) \<Rightarrow> q_ulen t)"

partial_function (option) clear_loop ::
  "pheap \<Rightarrow> t_queue option option \<Rightarrow> (pheap \<times> t_queue option option) option" where
  "clear_loop h queue = do {
     (p, queue') \<leftarrow> queue_pull_packet queue;
     if p = None then Some (h, queue')
     else do { h' \<leftarrow> packet_del_ref h p; clear_loop h' queue' } }"

definition queue_clear :: "pheap \<Rightarrow> t_queue option option \<Rightarrow> (pheap \<times> t_queue option option) option" where
  "queue_clear h queue = (case queue of None \<Rightarrow> Some (h, queue)
     | Some None \<Rightarrow> Some (h, queue)
     | Some (Some t) \<Rightarrow> do { (h', q') \<leftarrow> clear_loop h queue; Some (h', Some None) })"

section \<open>The FIFO a queue stands for\<close>

text \<open>The slots in queue order: from \<open>tail\<close> to the end of the ring, then from its start.\<close>

definition q_slots :: "t_queue \<Rightarrow> nat option list" where
  "q_slots t = drop (q_tail t) (q_ring t) @ take (q_tail t) (q_ring t)"

definition q_rep :: "t_queue \<Rightarrow> nat list \<Rightarrow> bool" where
  "q_rep t ps \<longleftrightarrow>
     length (q_ring t) = q_alen t \<and> q_ulen t = length ps \<and> q_ulen t \<le> q_alen t
     \<and> (if q_alen t = 0 then q_head t = 0 \<and> q_tail t = 0
        else q_tail t < q_alen t \<and> q_head t = (q_tail t + q_ulen t) mod q_alen t)
     \<and> take (q_ulen t) (q_slots t) = map Some ps"

definition q_holds :: "t_queue option option \<Rightarrow> nat list \<Rightarrow> bool" where
  "q_holds queue ps \<longleftrightarrow>
     (case queue of None \<Rightarrow> False | Some None \<Rightarrow> ps = [] | Some (Some t) \<Rightarrow> q_rep t ps)"

lemma wrap_mod: "(t::nat) < n \<Longrightarrow> i \<le> n \<Longrightarrow> (t + i) mod n = (if t + i < n then t + i else t + i - n)"
  by (simp add: le_mod_geq)

lemma memmove_some:
  "dst + n \<le> length xs \<Longrightarrow> src + n \<le> length xs \<Longrightarrow>
     memmove xs dst src n = Some (take dst xs @ take n (drop src xs) @ drop (dst + n) xs)"
  by (simp add: memmove_def)

text \<open>
  The two shapes of a full ring \<open>u @ v\<close> with \<open>tail = head = length u\<close>: the part \<open>u\<close> before the tail
  is moved behind \<open>v\<close> as far as the ten new slots go, and the rest of it to the front.
\<close>

lemma grow_short_wrap:
  assumes "u \<noteq> []" "length u \<le> 10" "v \<noteq> []"
  shows "queue_grow \<lparr>q_ulen = length u + length v, q_alen = length u + length v, q_ring = u @ v,
            q_head = length u, q_tail = length u\<rparr>
    = Some \<lparr>q_ulen = length u + length v, q_alen = length u + length v + 10,
            q_ring = u @ v @ u @ replicate (10 - length u) None,
            q_head = (length u + (length u + length v)) mod (length u + length v + 10), q_tail = length u\<rparr>"
proof -
  have "memmove ((u @ v) @ replicate 10 None) (length u + length v) 0 (length u)
      = Some (u @ v @ u @ replicate (10 - length u) None)"
    using assms(2) by (simp add: memmove_some)
  with assms show ?thesis
    by (cases "length u = 10") (auto simp: queue_grow_def Let_def)
qed

lemma grow_long_wrap:
  assumes "length u1 = 10" "u2 \<noteq> []" "v \<noteq> []"
  shows "queue_grow \<lparr>q_ulen = 10 + length u2 + length v, q_alen = 10 + length u2 + length v,
            q_ring = u1 @ u2 @ v, q_head = 10 + length u2, q_tail = 10 + length u2\<rparr>
    = Some \<lparr>q_ulen = 10 + length u2 + length v, q_alen = 20 + length u2 + length v,
            q_ring = u2 @ drop (length u2) (u1 @ u2) @ v @ u1,
            q_head = length u2, q_tail = 10 + length u2\<rparr>"
proof -
  have "memmove ((u1 @ u2 @ v) @ replicate 10 None) (10 + length u2 + length v) 0 10
      = Some (u1 @ u2 @ v @ u1)"
    using assms(1) by (simp add: memmove_some)
  moreover have "memmove (u1 @ u2 @ v @ u1) 0 10 (length u2)
      = Some (u2 @ drop (length u2) (u1 @ u2) @ v @ u1)"
    using assms(1) by (simp add: memmove_some)
  ultimately show ?thesis
    using assms by (simp add: queue_grow_def Let_def)
qed

lemma queue_grow_rep:
  assumes "q_rep t ps" "q_ulen t = q_alen t"
  shows "\<exists>t'. queue_grow t = Some t' \<and> q_rep t' ps \<and> q_ulen t' < q_alen t'"
proof -
  define u v where "u = take (q_tail t) (q_ring t)" and "v = drop (q_tail t) (q_ring t)"
  have t: "t = \<lparr>q_ulen = length u + length v, q_alen = length u + length v, q_ring = u @ v,
            q_head = length u, q_tail = length u\<rparr>"
    and vu: "v @ u = map Some ps" and v: "u \<noteq> [] \<longrightarrow> v \<noteq> []"
    using assms by (cases t; auto simp: q_rep_def u_def v_def q_slots_def split: if_splits)+
  have ps: "length ps = length u + length v" using arg_cong [OF vu, of length] by simp
  consider "u = []" | "u \<noteq> []" "length u \<le> 10" | "10 < length u" by fastforce
  then show ?thesis
  proof cases
    case 1
    with t vu ps show ?thesis
      by (auto simp: queue_grow_def Let_def q_rep_def q_slots_def)
  next
    case 2
    with grow_short_wrap [of u v] t v vu ps show ?thesis
      by (auto simp: q_rep_def q_slots_def)
  next
    case 3
    define u1 u2 where "u1 = take 10 u" and "u2 = drop 10 u"
    have u12: "u = u1 @ u2" "length u1 = 10" "u2 \<noteq> []"
      using 3 by (auto simp: u1_def u2_def)
    have "length u2 + length v = length ps - 10" using ps u12 by simp
    with 3 v u12 t vu ps grow_long_wrap [of u1 u2 v] show ?thesis
      by (auto simp: q_rep_def q_slots_def le_mod_geq)
  qed
qed


text \<open>The slots by index, for the single steps.\<close>

lemma q_slots_nth:
  assumes "length (q_ring t) = q_alen t" "q_tail t < q_alen t" "i < q_alen t"
  shows "q_slots t ! i = q_ring t ! ((q_tail t + i) mod q_alen t)"
  using assms by (auto simp: q_slots_def nth_append wrap_mod add.commute)

lemma q_rep_nth:
  assumes "q_alen t \<noteq> 0"
  shows "q_rep t ps \<longleftrightarrow> length (q_ring t) = q_alen t \<and> q_ulen t = length ps \<and> q_ulen t \<le> q_alen t
     \<and> q_tail t < q_alen t \<and> q_head t = (q_tail t + q_ulen t) mod q_alen t
     \<and> (\<forall>i<q_ulen t. q_ring t ! ((q_tail t + i) mod q_alen t) = Some (ps ! i))"
proof -
  have "length (q_ring t) = q_alen t \<Longrightarrow> length (q_slots t) = q_alen t"
    by (simp add: q_slots_def)
  with assms show ?thesis
    by (auto simp: q_rep_def list_eq_iff_nth_eq q_slots_nth)
qed

lemma wrap_inj:
  "(t::nat) < n \<Longrightarrow> i < n \<Longrightarrow> j < n \<Longrightarrow> (t + i) mod n = (t + j) mod n \<Longrightarrow> i = j"
  by (auto simp: wrap_mod split: if_splits)

lemma store_rep:
  assumes "q_rep t ps" "q_ulen t < q_alen t"
  shows "q_rep (t\<lparr>q_ring := (q_ring t)[q_head t := Some a], q_head := (q_head t + 1) mod q_alen t,
                 q_ulen := q_ulen t + 1\<rparr>) (ps @ [a])"
proof -
  have n: "q_alen t \<noteq> 0" using assms(2) by simp
  note r = assms(1)[unfolded q_rep_nth [OF n]]
  have "(q_ring t)[q_head t := Some a] ! ((q_tail t + i) mod q_alen t) = Some ((ps @ [a]) ! i)"
    if "i < Suc (q_ulen t)" for i
  proof (cases "i = q_ulen t")
    case True
    then show ?thesis using r n by simp
  next
    case False
    then have "(q_tail t + q_ulen t) mod q_alen t \<noteq> (q_tail t + i) mod q_alen t"
      using wrap_inj [of "q_tail t" "q_alen t" i "q_ulen t"] r assms(2) that by fastforce
    then show ?thesis using r that False by (simp add: nth_append)
  qed
  then show ?thesis using r n assms(2) by (simp add: q_rep_nth mod_Suc_eq)
qed

lemma take_rep:
  assumes "q_rep t (a # ps)"
  shows "q_ring t ! q_tail t = Some a \<and> q_tail t < q_alen t \<and> length (q_ring t) = q_alen t
    \<and> q_rep (t\<lparr>q_tail := (q_tail t + 1) mod q_alen t, q_ulen := q_ulen t - 1\<rparr>) ps"
proof -
  have n: "q_alen t \<noteq> 0" using assms by (auto simp: q_rep_def)
  note r = assms[unfolded q_rep_nth [OF n]]
  have "q_ring t ! (((q_tail t + 1) mod q_alen t + i) mod q_alen t) = Some (ps ! i)"
    if "i < length ps" for i
  proof -
    have "((q_tail t + 1) mod q_alen t + i) mod q_alen t = (q_tail t + Suc i) mod q_alen t"
      by (simp add: mod_simps)
    moreover have "q_ring t ! ((q_tail t + Suc i) mod q_alen t) = Some ((a # ps) ! Suc i)"
      using r that by (metis Suc_less_eq length_Cons)
    ultimately show ?thesis by simp
  qed
  moreover have "((q_tail t + 1) mod q_alen t + length ps) mod q_alen t = (q_tail t + Suc (length ps)) mod q_alen t"
    by (simp add: mod_simps)
  moreover have "q_ring t ! q_tail t = Some a"
    using r [THEN conjunct2, THEN conjunct2, THEN conjunct2, THEN conjunct2, THEN conjunct2, rule_format, of 0] r
    by auto
  ultimately show ?thesis using r n by (auto simp: q_rep_nth)
qed


section \<open>The interface the connection code relies on\<close>

datatype 'a fifo_cmd = Enq 'a | Deq

text \<open>
  A first-in first-out store: \<open>holds s xs\<close> when \<open>s\<close> stores \<open>xs\<close>, oldest first; \<open>ok s x\<close> when \<open>x\<close> may be
  stored. Both operations succeed in every such state.
\<close>

locale fifo =
  fixes holds :: "'s \<Rightarrow> 'a list \<Rightarrow> bool"
    and ok :: "'s \<Rightarrow> 'a \<Rightarrow> bool"
    and enq :: "'s \<Rightarrow> 'a \<Rightarrow> 's option"
    and deq :: "'s \<Rightarrow> ('a option \<times> 's) option"
  assumes enq_holds:
      "holds s xs \<Longrightarrow> ok s x \<Longrightarrow> \<exists>s'. enq s x = Some s' \<and> holds s' (xs @ [x]) \<and> (\<forall>y. ok s y \<longrightarrow> ok s' y)"
    and deq_cons:
      "holds s (x # xs) \<Longrightarrow> \<exists>s'. deq s = Some (Some x, s') \<and> holds s' xs \<and> (\<forall>y. ok s y \<longrightarrow> ok s' y)"
    and deq_nil: "holds s [] \<Longrightarrow> deq s = Some (None, s)"
begin

lemma step_enq:
  assumes "holds s xs" "ok s x"
  obtains s' where "enq s x = Some s'" "holds s' (xs @ [x])" "\<And>y. ok s y \<Longrightarrow> ok s' y"
  using enq_holds [OF assms] by blast

lemma step_deq:
  assumes "holds s xs"
  obtains s' where "deq s = Some (if xs = [] then None else Some (hd xs), s')" "holds s' (tl xs)"
    "\<And>y. ok s y \<Longrightarrow> ok s' y"
proof (cases xs)
  case Nil
  then show ?thesis using that [of s] deq_nil assms by simp
next
  case (Cons x ys)
  with assms have "holds s (x # ys)" by simp
  from deq_cons [OF this] Cons show ?thesis using that by auto
qed

end

text \<open>What a sequence of commands returns, on the store and on the list it stands for.\<close>

fun fifo_run :: "('s \<Rightarrow> 'a \<Rightarrow> 's option) \<Rightarrow> ('s \<Rightarrow> ('a option \<times> 's) option) \<Rightarrow> 's \<Rightarrow> 'a fifo_cmd list
    \<Rightarrow> ('a option list \<times> 's) option" where
  "fifo_run enq deq s [] = Some ([], s)"
| "fifo_run enq deq s (Enq x # cs) = do { s' \<leftarrow> enq s x; fifo_run enq deq s' cs }"
| "fifo_run enq deq s (Deq # cs) = do {
     (r, s') \<leftarrow> deq s; (rs, s'') \<leftarrow> fifo_run enq deq s' cs; Some (r # rs, s'') }"

fun fifo_spec :: "'a list \<Rightarrow> 'a fifo_cmd list \<Rightarrow> 'a option list \<times> 'a list" where
  "fifo_spec xs [] = ([], xs)"
| "fifo_spec xs (Enq x # cs) = fifo_spec (xs @ [x]) cs"
| "fifo_spec xs (Deq # cs) =
     (let (rs, ys) = fifo_spec (tl xs) cs in ((if xs = [] then None else Some (hd xs)) # rs, ys))"

context fifo
begin

lemma run_refines:
  assumes "holds s xs" "\<And>x. Enq x \<in> set cs \<Longrightarrow> ok s x"
  shows "\<exists>s'. fifo_run enq deq s cs = Some (fst (fifo_spec xs cs), s') \<and> holds s' (snd (fifo_spec xs cs))"
  using assms
proof (induction cs arbitrary: s xs)
  case Nil
  then show ?case by simp
next
  case (Cons c cs)
  show ?case
  proof (cases c)
    case (Enq x)
    with Cons.prems obtain s' where s': "enq s x = Some s'" "holds s' (xs @ [x])" "\<And>y. ok s y \<Longrightarrow> ok s' y"
      by (meson list.set_intros(1) step_enq)
    then show ?thesis
      using Cons.IH [OF s'(2)] Cons.prems(2) Enq by auto
  next
    case Deq
    obtain s' where s': "deq s = Some (if xs = [] then None else Some (hd xs), s')" "holds s' (tl xs)"
      "\<And>y. ok s y \<Longrightarrow> ok s' y"
      using step_deq [OF Cons.prems(1)] by metis
    moreover have "\<And>x. Enq x \<in> set cs \<Longrightarrow> ok s' x" using Cons.prems(2) s'(3) by simp
    ultimately show ?thesis
      using Cons.IH [OF s'(2)] Deq by (auto simp: split_beta)
  qed
qed

end

section \<open>The packet queues are a FIFO\<close>

type_synonym qstate = "pheap \<times> t_queue option option"

definition qs_holds :: "qstate \<Rightarrow> nat list \<Rightarrow> bool" where
  "qs_holds s ps \<longleftrightarrow> q_holds (snd s) ps"

definition qs_live :: "qstate \<Rightarrow> nat \<Rightarrow> bool" where
  "qs_live s a \<longleftrightarrow> a \<in> dom (fst s)"

definition qs_push :: "qstate \<Rightarrow> nat \<Rightarrow> qstate option" where
  "qs_push s a = queue_push_packet (fst s) (snd s) (Some a)"

definition qs_pull :: "qstate \<Rightarrow> (nat option \<times> qstate) option" where
  "qs_pull s = map_option (\<lambda>(p, q). (p, (fst s, q))) (queue_pull_packet (snd s))"

lemma room_rep:
  assumes "q_rep t ps"
  shows "\<exists>t'. (if q_ulen t = q_alen t then queue_grow t else Some t) = Some t' \<and> q_rep t' ps
    \<and> q_ulen t' < q_alen t'"
  using assms queue_grow_rep [OF assms] by (auto simp: q_rep_def)

lemma queue_push_holds:
  assumes "q_holds queue ps" "h a = Some p"
  shows "\<exists>q'. queue_push_packet h queue (Some a) = Some (h(a \<mapsto> p\<lparr>p_ref := p_ref p + 1\<rparr>), q')
    \<and> q_holds q' (ps @ [a])"
proof -
  obtain q where q: "queue = Some q" using assms(1) by (cases queue) (auto simp: q_holds_def)
  define temp where "temp = (case q of Some t \<Rightarrow> t
      | None \<Rightarrow> \<lparr>q_ulen = 0, q_alen = 0, q_ring = [], q_head = 0, q_tail = 0\<rparr>)"
  have "q_rep temp ps"
    using assms(1) q by (cases q) (auto simp: temp_def q_holds_def q_rep_def q_slots_def)
  from room_rep [OF this] obtain t where
    t: "(if q_ulen temp = q_alen temp then queue_grow temp else Some temp) = Some t" "q_rep t ps"
      "q_ulen t < q_alen t" by blast
  have "q_head t < length (q_ring t)" using t(2,3) by (auto simp: q_rep_def split: if_splits)
  moreover have "packet_add_ref h (Some a) = Some (Some a, h(a \<mapsto> p\<lparr>p_ref := p_ref p + 1\<rparr>))"
    using assms(2) by (simp add: packet_add_ref_def)
  moreover have "q_alen t \<noteq> 0" using t(3) by simp
  moreover note store_rep [OF t(2,3), of a]
  ultimately show ?thesis
    using q t(1) by (simp add: queue_push_packet_def temp_def [symmetric] Let_def q_holds_def)
qed

lemma queue_pull_holds:
  assumes "q_holds queue (a # ps)"
  shows "\<exists>q'. queue_pull_packet queue = Some (Some a, q') \<and> q_holds q' ps"
proof -
  obtain t where t: "queue = Some (Some t)" "q_rep t (a # ps)"
    using assms by (auto simp: q_holds_def split: option.splits)
  with take_rep [OF t(2)] show ?thesis
    by (auto simp: queue_pull_packet_def q_holds_def q_rep_def)
qed

lemma queue_pull_empty: "q_holds queue [] \<Longrightarrow> queue_pull_packet queue = Some (None, queue)"
  by (auto simp: q_holds_def queue_pull_packet_def q_rep_def split: option.splits)

lemma qs_push_live: "qs_push s x = Some s' \<Longrightarrow> qs_live s y \<Longrightarrow> qs_live s' y"
  by (auto simp: qs_push_def qs_live_def queue_push_packet_def packet_add_ref_def Let_def
    split: option.splits Option.bind_splits if_splits)

interpretation pq: fifo qs_holds qs_live qs_push qs_pull
proof
  fix s x xs assume "qs_holds s xs" "qs_live s x"
  then obtain p where "q_holds (snd s) xs" "fst s x = Some p" by (auto simp: qs_holds_def qs_live_def)
  from queue_push_holds [of "snd s" xs "fst s" x p] this
  show "\<exists>s'. qs_push s x = Some s' \<and> qs_holds s' (xs @ [x]) \<and> (\<forall>y. qs_live s y \<longrightarrow> qs_live s' y)"
    using qs_push_live [of s x] by (fastforce simp: qs_push_def qs_holds_def)
next
  fix s x xs assume "qs_holds s (x # xs)"
  then show "\<exists>s'. qs_pull s = Some (Some x, s') \<and> qs_holds s' xs \<and> (\<forall>y. qs_live s y \<longrightarrow> qs_live s' y)"
    using queue_pull_holds [of "snd s" x xs] by (auto simp: qs_holds_def qs_pull_def qs_live_def)
next
  fix s assume "qs_holds s []"
  then show "qs_pull s = Some (None, s)"
    using queue_pull_empty [of "snd s"] by (simp add: qs_holds_def qs_pull_def)
qed

text \<open>
  C9. The packet queue is a FIFO: started from a queue pointer that is NULL, every sequence of pushes
  of live packets and pulls runs without a read or write outside the ring (through any number of
  resizes and wrap-arounds), each pull returns the oldest packet still queued (NULL when there is
  none), and \<open>queue_get_length\<close> is afterwards the number of packets left.
\<close>

theorem queue_is_fifo:
  assumes "\<And>a. Enq a \<in> set cs \<Longrightarrow> a \<in> dom h"
  shows "\<exists>h' q'. fifo_run qs_push qs_pull (h, Some None) cs = Some (fst (fifo_spec [] cs), (h', q'))
    \<and> queue_get_length q' = length (snd (fifo_spec [] cs))"
proof -
  have "qs_holds (h, Some None) []" by (simp add: qs_holds_def q_holds_def)
  moreover have "\<And>a. Enq a \<in> set cs \<Longrightarrow> qs_live (h, Some None) a" using assms by (simp add: qs_live_def)
  ultimately obtain s' where
    "fifo_run qs_push qs_pull (h, Some None) cs = Some (fst (fifo_spec [] cs), s')"
    "qs_holds s' (snd (fifo_spec [] cs))"
    using pq.run_refines by blast
  then show ?thesis
    by (cases s') (auto simp: qs_holds_def q_holds_def q_rep_def queue_get_length_def split: option.splits)
qed

definition demo_packet :: t_packet where
  "demo_packet = \<lparr>p_ref = 1, p_class = packet_class_raw, p_flags = 0, p_len = 0, p_data = []\<rparr>"

theorem queue_is_fifo_witness:
  "\<exists>h' q'. fifo_run qs_push qs_pull ([4 \<mapsto> demo_packet, 5 \<mapsto> demo_packet], Some None)
       [Enq 4, Enq 5, Deq, Enq 4] = Some ([Some 4], (h', q')) \<and> queue_get_length q' = 2"
proof -
  let ?cs = "[Enq 4, Enq 5, Deq, Enq 4] :: nat fifo_cmd list"
  have "fifo_spec [] ?cs = ([Some 4], [5, 4])" by simp
  moreover have "\<exists>h' q'. fifo_run qs_push qs_pull ([4 \<mapsto> demo_packet, 5 \<mapsto> demo_packet], Some None) ?cs
      = Some (fst (fifo_spec [] ?cs), (h', q')) \<and> queue_get_length q' = length (snd (fifo_spec [] ?cs))"
    by (rule queue_is_fifo) auto
  moreover have "length [5, 4 :: nat] = 2" by simp
  ultimately show ?thesis by (simp only: fst_conv snd_conv)
qed

text \<open>The references a queue holds.\<close>

definition drop_refs :: "pheap \<Rightarrow> nat list \<Rightarrow> pheap" where
  "drop_refs h ps = (\<lambda>a. case h a of None \<Rightarrow> None
     | Some p \<Rightarrow> if count_list ps a = 0 then Some p
                else if unat (p_ref p) \<le> count_list ps a then None
                else Some (p\<lparr>p_ref := p_ref p - of_nat (count_list ps a)\<rparr>))"

lemma drop_refs_cons:
  assumes "\<And>b. b \<in> set (a # ps) \<Longrightarrow> \<exists>p. h b = Some p \<and> count_list (a # ps) b \<le> unat (p_ref p)"
  obtains h' where "packet_del_ref h (Some a) = Some h'" "drop_refs h' ps = drop_refs h (a # ps)"
    "\<And>b. b \<in> set ps \<Longrightarrow> \<exists>p. h' b = Some p \<and> count_list ps b \<le> unat (p_ref p)"
proof -
  obtain p where p: "h a = Some p" "count_list (a # ps) a \<le> unat (p_ref p)" using assms [of a] by auto
  show ?thesis
  proof (cases "p_ref p < 2")
    case True
    then have "unat (p_ref p) < 2" by (simp add: word_less_nat_alt)
    then have one: "unat (p_ref p) = 1" "count_list ps a = 0" using p(2) by auto
    then have "a \<notin> set ps" by (simp add: count_list_0_iff)
    then show ?thesis
      using that [of "h(a := None)"] True p one assms
      by (fastforce simp: packet_del_ref_def packet_destroy_def drop_refs_def fun_eq_iff split: option.splits)
  next
    case False
    then have ge: "2 \<le> unat (p_ref p)" by (simp add: word_less_nat_alt)
    then have u: "unat (p_ref p - 1) = unat (p_ref p) - 1"
      by (simp add: unat_sub_if_size word_le_nat_alt)
    show ?thesis
      using that [of "h(a \<mapsto> p\<lparr>p_ref := p_ref p - 1\<rparr>)"] False p ge u assms
      by (fastforce simp: packet_del_ref_def drop_refs_def fun_eq_iff algebra_simps split: option.splits)
  qed
qed

lemma clear_loop_drops:
  assumes "q_holds queue ps"
    "\<And>b. b \<in> set ps \<Longrightarrow> \<exists>p. h b = Some p \<and> count_list ps b \<le> unat (p_ref p)"
  shows "\<exists>q'. clear_loop h queue = Some (drop_refs h ps, q') \<and> q_holds q' []"
  using assms
proof (induction ps arbitrary: h queue)
  case Nil
  then show ?case
    by (subst clear_loop.simps)
      (auto simp: queue_pull_empty drop_refs_def fun_eq_iff split: option.splits)
next
  case (Cons a ps)
  obtain q' where q': "queue_pull_packet queue = Some (Some a, q')" "q_holds q' ps"
    using queue_pull_holds [OF Cons.prems(1)] by blast
  obtain h' where h': "packet_del_ref h (Some a) = Some h'" "drop_refs h' ps = drop_refs h (a # ps)"
    "\<And>b. b \<in> set ps \<Longrightarrow> \<exists>p. h' b = Some p \<and> count_list ps b \<le> unat (p_ref p)"
    using drop_refs_cons [of a ps h] Cons.prems(2) by metis
  show ?case
    using Cons.IH [OF q'(2) h'(3)] h'(1,2) q'(1) by (subst clear_loop.simps) auto
qed

text \<open>
  \<open>queue_clear\<close> terminates, frees the queue and releases exactly the references the queue holds:
  a packet queued \<open>n\<close> times loses \<open>n\<close> references and is destroyed when they were its last, every other
  packet is untouched.
\<close>

theorem queue_clear_releases:
  assumes "q_holds (Some (Some t)) ps"
    "\<And>b. b \<in> set ps \<Longrightarrow> \<exists>p. h b = Some p \<and> count_list ps b \<le> unat (p_ref p)"
  shows "queue_clear h (Some (Some t)) = Some (drop_refs h ps, Some None)"
  using clear_loop_drops [OF assms] by (auto simp: queue_clear_def)

theorem queue_clear_releases_witness:
  "queue_clear [4 \<mapsto> demo_packet]
     (Some (Some \<lparr>q_ulen = 1, q_alen = 2, q_ring = [None, Some 4], q_head = 0, q_tail = 1\<rparr>))
   = Some (drop_refs [4 \<mapsto> demo_packet] [4], Some None) \<and> drop_refs [4 \<mapsto> demo_packet] [4] 4 = None"
  by (intro conjI queue_clear_releases)
    (auto simp: q_holds_def q_rep_def q_slots_def demo_packet_def drop_refs_def)

end
