(* ===== verification/Common_Hashtable.thy ===== *)
theory Common_Hashtable
  imports Pvpgn_Prelude "HOL-Library.Multiset"
begin

text \<open>
  \<^verbatim>\<open>common/hashtable.cpp\<close>: the chained hash table behind the account, character and connection
  registries. A removed entry stays in its chain as a tombstone (its data points to the static
  \<open>nodata\<close>) until \<open>hashtable_purge\<close> unlinks it. The entries live in the table's own store
  (\<open>h_fresh\<close> is the next address \<open>xmalloc\<close> returns); a dereference of an invalid pointer, and a
  loop that never ends, are \<open>None\<close>. \<open>len\<close> is a natural number: it counts allocated entries.

  The table refines a family of bags, one per row; the exported \<open>t_entry\<close> cursors visit the live
  entries of all rows in order.
\<close>

section \<open>Data\<close>

datatype 'd hdata = Nodata | Item 'd

record 'd t_internentry =
  ie_data :: "'d hdata"
  ie_next :: "nat option"

type_synonym 'd icells = "nat \<rightharpoonup> 'd t_internentry"

record 'd t_hashtable =
  h_cells :: "'d icells"
  h_fresh :: nat
  h_num_rows :: nat
  h_len :: nat
  h_rows :: "nat option list"

text \<open>An exported entry: row and address; its \<open>hashtable\<close> pointer is the table it is used with.\<close>

record t_entry =
  e_row :: nat
  e_real :: nat

section \<open>Operations\<close>

definition hashtable_entry_export ::
  "nat option \<Rightarrow> 'd t_hashtable option \<Rightarrow> nat \<Rightarrow> t_entry option" where
  "hashtable_entry_export entry ht row = (case entry of None \<Rightarrow> None | Some e \<Rightarrow>
     (case ht of None \<Rightarrow> None | Some t \<Rightarrow>
        if row \<ge> h_num_rows t then None else Some \<lparr>e_row = row, e_real = e\<rparr>))"

definition hashtable_create :: "nat \<Rightarrow> 'd t_hashtable option" where
  "hashtable_create num_rows =
     (if num_rows < 1 then None
      else Some \<lparr>h_cells = Map.empty, h_fresh = 0, h_num_rows = num_rows, h_len = 0,
                 h_rows = replicate num_rows None\<rparr>)"

text \<open>\<open>head\<close> and \<open>change\<close> are the loop's locals; \<open>change\<close> is the cell whose \<open>next\<close> field it points to.\<close>

partial_function (option) purge_row ::
  "'d icells \<Rightarrow> nat option \<Rightarrow> nat option \<Rightarrow> nat option \<Rightarrow> ('d icells \<times> nat option) option" where
  "purge_row c cur head change = (case cur of None \<Rightarrow> Some (c, head) | Some a \<Rightarrow> do {
     e \<leftarrow> c a;
     if ie_data e = Nodata
     then do { c1 \<leftarrow> (case change of None \<Rightarrow> Some c
                     | Some p \<Rightarrow> do { ep \<leftarrow> c p; Some (c(p \<mapsto> ep\<lparr>ie_next := ie_next e\<rparr>)) });
               purge_row (c1(a := None)) (ie_next e) head change }
     else purge_row c (ie_next e) (if head = None then Some a else head) (Some a) })"

fun purge_rows :: "'d icells \<Rightarrow> nat option list \<Rightarrow> ('d icells \<times> nat option list) option" where
  "purge_rows c [] = Some (c, [])"
| "purge_rows c (r # rs) = do {
     (c1, r') \<leftarrow> purge_row c r None None;
     (c2, rs') \<leftarrow> purge_rows c1 rs;
     Some (c2, r' # rs') }"

definition hashtable_purge :: "'d t_hashtable option \<Rightarrow> (int \<times> 'd t_hashtable option) option" where
  "hashtable_purge ht = (case ht of None \<Rightarrow> Some (-1, ht) | Some t \<Rightarrow> do {
     (c, rows) \<leftarrow> purge_rows (h_cells t) (h_rows t);
     Some (0, Some (t\<lparr>h_cells := c, h_rows := rows\<rparr>)) })"

text \<open>A non-empty row is only reported: its entries leak. The result holds the rows reported.\<close>

definition hashtable_destroy :: "'d t_hashtable option \<Rightarrow> (int \<times> nat list) option" where
  "hashtable_destroy ht = (case ht of None \<Rightarrow> Some (-1, []) | Some t \<Rightarrow> do {
     (r, ht') \<leftarrow> hashtable_purge ht;
     Some (0, filter (\<lambda>i. h_rows (the ht') ! i \<noteq> None) [0..<h_num_rows t]) })"

definition hashtable_get_length :: "'d t_hashtable option \<Rightarrow> nat" where
  "hashtable_get_length ht = (case ht of None \<Rightarrow> 0 | Some t \<Rightarrow> h_len t)"

definition hashtable_insert_data ::
  "'d t_hashtable option \<Rightarrow> 'd \<Rightarrow> nat \<Rightarrow> int \<times> 'd t_hashtable option" where
  "hashtable_insert_data ht d hash = (case ht of None \<Rightarrow> (-1, ht) | Some t \<Rightarrow>
     (let a = h_fresh t; row = hash mod h_num_rows t
      in (0, Some (t\<lparr>h_cells := (h_cells t)(a \<mapsto> \<lparr>ie_data = Item d, ie_next = h_rows t ! row\<rparr>),
                     h_fresh := Suc a, h_rows := (h_rows t)[row := Some a], h_len := h_len t + 1\<rparr>))))"

text \<open>The loops over a chain: the first entry with a property of its data, or NULL.\<close>

partial_function (option) chain_find ::
  "('d hdata \<Rightarrow> bool) \<Rightarrow> 'd icells \<Rightarrow> nat option \<Rightarrow> nat option option" where
  "chain_find P c cur = (case cur of None \<Rightarrow> Some None | Some a \<Rightarrow> do {
     e \<leftarrow> c a;
     if P (ie_data e) then Some (Some a) else chain_find P c (ie_next e) })"

definition hashtable_get_entry_by_data ::
  "'d t_hashtable option \<Rightarrow> 'd \<Rightarrow> nat \<Rightarrow> t_entry option option" where
  "hashtable_get_entry_by_data ht d hash = (case ht of None \<Rightarrow> Some None | Some t \<Rightarrow>
     (let row = hash mod h_num_rows t in do {
        r \<leftarrow> chain_find (\<lambda>x. x = Item d) (h_cells t) (h_rows t ! row);
        Some (case r of None \<Rightarrow> None | Some a \<Rightarrow> hashtable_entry_export (Some a) ht row) }))"

definition hashtable_get_entry_by_data_const ::
  "'d t_hashtable option \<Rightarrow> 'd \<Rightarrow> nat \<Rightarrow> t_entry option option" where
  "hashtable_get_entry_by_data_const ht d hash = (case ht of None \<Rightarrow> Some None | Some t \<Rightarrow>
     (let row = hash mod h_num_rows t in do {
        r \<leftarrow> chain_find (\<lambda>x. x = Item d) (h_cells t) (h_rows t ! row);
        Some (case r of None \<Rightarrow> None | Some a \<Rightarrow> hashtable_entry_export (Some a) ht row) }))"

definition hashtable_remove_entry ::
  "'d t_hashtable option \<Rightarrow> t_entry option \<Rightarrow> (int \<times> 'd t_hashtable option) option" where
  "hashtable_remove_entry ht entry = (case ht of None \<Rightarrow> Some (-1, ht) | Some t \<Rightarrow>
     (case entry of None \<Rightarrow> Some (-1, ht) | Some en \<Rightarrow> do {
        e \<leftarrow> h_cells t (e_real en);
        if ie_data e = Nodata then Some (-1, ht)
        else Some (0, Some (t\<lparr>h_cells := (h_cells t)(e_real en \<mapsto> e\<lparr>ie_data := Nodata\<rparr>),
                              h_len := h_len t - 1\<rparr>)) }))"

definition hashtable_entry_release :: "'d t_hashtable option \<Rightarrow> t_entry option \<Rightarrow> int" where
  "hashtable_entry_release ht entry = (case entry of None \<Rightarrow> -1 | Some en \<Rightarrow>
     (case ht of None \<Rightarrow> -1 | Some t \<Rightarrow> if e_row en \<ge> h_num_rows t then -1 else 0))"

definition hashtable_remove_data ::
  "'d t_hashtable option \<Rightarrow> 'd \<Rightarrow> nat \<Rightarrow> (int \<times> 'd t_hashtable option) option" where
  "hashtable_remove_data ht d hash = (case ht of None \<Rightarrow> Some (-1, ht) | Some t \<Rightarrow> do {
     entry \<leftarrow> hashtable_get_entry_by_data ht d hash;
     if entry = None then Some (-1, ht)
     else hashtable_remove_entry ht entry })"

definition entry_get_data :: "'d t_hashtable \<Rightarrow> t_entry option \<Rightarrow> 'd option option" where
  "entry_get_data t entry = (case entry of None \<Rightarrow> Some None | Some en \<Rightarrow> do {
     e \<leftarrow> h_cells t (e_real en);
     Some (case ie_data e of Nodata \<Rightarrow> None | Item d \<Rightarrow> Some d) })"

text \<open>The endless loop of \<open>hashtable_get_data_by_pos\<close>, over its locals \<open>row\<close>, \<open>cur\<close> and \<open>len\<close>.\<close>

partial_function (option) pos_loop ::
  "'d t_hashtable \<Rightarrow> nat \<Rightarrow> nat \<Rightarrow> nat option \<Rightarrow> nat \<Rightarrow> 'd option option" where
  "pos_loop t pos row cur len = (case cur of
       None \<Rightarrow> if row \<ge> h_num_rows t then Some None
               else pos_loop t pos (row + 1) (h_rows t ! row) len
     | Some a \<Rightarrow> do {
         e \<leftarrow> h_cells t a;
         case ie_data e of
           Nodata \<Rightarrow> pos_loop t pos row (ie_next e) len
         | Item d \<Rightarrow> if len = pos then Some (Some d)
                    else pos_loop t pos row (ie_next e) (len + 1) })"

definition hashtable_get_data_by_pos :: "'d t_hashtable option \<Rightarrow> nat \<Rightarrow> 'd option option" where
  "hashtable_get_data_by_pos ht pos =
     (case ht of None \<Rightarrow> Some None | Some t \<Rightarrow> pos_loop t pos 0 None 0)"

text \<open>The nested loops of \<open>get_first\<close> and \<open>get_next\<close>: the first live entry of the rows from \<open>row\<close> on.\<close>

function rows_first :: "'d t_hashtable \<Rightarrow> nat \<Rightarrow> t_entry option option" where
  "rows_first t row =
     (if row \<ge> h_num_rows t then Some None
      else do {
        r \<leftarrow> chain_find (\<lambda>x. x \<noteq> Nodata) (h_cells t) (h_rows t ! row);
        case r of Some a \<Rightarrow> Some (Some \<lparr>e_row = row, e_real = a\<rparr>)
        | None \<Rightarrow> rows_first t (row + 1) })"
  by pat_completeness auto
termination by (relation "measure (\<lambda>(t, row). h_num_rows t - row)") auto

declare rows_first.simps [simp del]

definition hashtable_get_first :: "'d t_hashtable option \<Rightarrow> t_entry option option" where
  "hashtable_get_first ht = (case ht of None \<Rightarrow> Some None | Some t \<Rightarrow> rows_first t 0)"

definition entry_get_next :: "'d t_hashtable \<Rightarrow> t_entry option \<Rightarrow> t_entry option option" where
  "entry_get_next t entry = (case entry of None \<Rightarrow> Some None | Some en \<Rightarrow> do {
     e \<leftarrow> h_cells t (e_real en);
     r \<leftarrow> chain_find (\<lambda>x. x \<noteq> Nodata) (h_cells t) (ie_next e);
     case r of Some a \<Rightarrow> Some (Some (en\<lparr>e_real := a\<rparr>))
     | None \<Rightarrow> rows_first t (e_row en + 1) })"

definition hashtable_get_first_matching :: "'d t_hashtable option \<Rightarrow> nat \<Rightarrow> t_entry option option" where
  "hashtable_get_first_matching ht hash = (case ht of None \<Rightarrow> Some None | Some t \<Rightarrow>
     (let row = hash mod h_num_rows t in do {
        r \<leftarrow> chain_find (\<lambda>x. x \<noteq> Nodata) (h_cells t) (h_rows t ! row);
        Some (case r of None \<Rightarrow> None | Some a \<Rightarrow> hashtable_entry_export (Some a) ht row) }))"

definition entry_get_next_matching :: "'d t_hashtable \<Rightarrow> t_entry option \<Rightarrow> t_entry option option" where
  "entry_get_next_matching t entry = (case entry of None \<Rightarrow> Some None | Some en \<Rightarrow> do {
     e \<leftarrow> h_cells t (e_real en);
     r \<leftarrow> chain_find (\<lambda>x. x \<noteq> Nodata) (h_cells t) (ie_next e);
     Some (case r of Some a \<Rightarrow> Some (en\<lparr>e_real := a\<rparr>) | None \<Rightarrow> None) })"

text \<open>\<open>HASHTABLE_TRAVERSE\<close>: the data the loop's body sees.\<close>

partial_function (option) traverse_from ::
  "'d t_hashtable \<Rightarrow> t_entry option \<Rightarrow> 'd option list option" where
  "traverse_from t entry = (case entry of None \<Rightarrow> Some [] | Some en \<Rightarrow> do {
     d \<leftarrow> entry_get_data t entry;
     next \<leftarrow> entry_get_next t entry;
     ds \<leftarrow> traverse_from t next;
     Some (d # ds) })"

definition hashtable_traverse :: "'d t_hashtable \<Rightarrow> 'd option list option" where
  "hashtable_traverse t = do { entry \<leftarrow> hashtable_get_first (Some t); traverse_from t entry }"

partial_function (option) traverse_matching_from ::
  "'d t_hashtable \<Rightarrow> t_entry option \<Rightarrow> 'd option list option" where
  "traverse_matching_from t entry = (case entry of None \<Rightarrow> Some [] | Some en \<Rightarrow> do {
     d \<leftarrow> entry_get_data t entry;
     next \<leftarrow> entry_get_next_matching t entry;
     ds \<leftarrow> traverse_matching_from t next;
     Some (d # ds) })"

definition hashtable_traverse_matching :: "'d t_hashtable \<Rightarrow> nat \<Rightarrow> 'd option list option" where
  "hashtable_traverse_matching t hash =
     do { entry \<leftarrow> hashtable_get_first_matching (Some t) hash; traverse_matching_from t entry }"

section \<open>Chains\<close>

fun chain :: "'d icells \<Rightarrow> nat option \<Rightarrow> nat list \<Rightarrow> bool" where
  "chain c p [] = (p = None)"
| "chain c p (a # as) = (p = Some a \<and> (\<exists>e. c a = Some e \<and> chain c (ie_next e) as))"

text \<open>The live data of a chain, in order.\<close>

fun items :: "'d icells \<Rightarrow> nat list \<Rightarrow> 'd list" where
  "items c [] = []"
| "items c (a # as) = (case c a of None \<Rightarrow> items c as
     | Some e \<Rightarrow> (case ie_data e of Nodata \<Rightarrow> items c as | Item d \<Rightarrow> d # items c as))"

definition data_at :: "'d icells \<Rightarrow> nat \<Rightarrow> 'd hdata" where
  "data_at c a = ie_data (the (c a))"

lemma chain_dom: "chain c p as \<Longrightarrow> a \<in> set as \<Longrightarrow> a \<in> dom c"
  by (induction as arbitrary: p) auto

lemma chain_frame: "(\<And>a. a \<in> set as \<Longrightarrow> c' a = c a) \<Longrightarrow> chain c' p as = chain c p as"
  by (induction as arbitrary: p) auto

lemma items_frame: "(\<And>a. a \<in> set as \<Longrightarrow> c' a = c a) \<Longrightarrow> items c' as = items c as"
  by (induction as) (auto split: option.splits hdata.splits)

lemma items_append: "items c (xs @ ys) = items c xs @ items c ys"
  by (induction xs) (auto split: option.splits hdata.splits)

text \<open>Marking an entry as deleted keeps every chain.\<close>

lemma chain_mark:
  "chain c p as \<Longrightarrow> c a = Some e \<Longrightarrow> chain (c(a \<mapsto> e\<lparr>ie_data := Nodata\<rparr>)) p as"
  by (induction as arbitrary: p) auto

lemma chain_find_first:
  "chain c p as \<Longrightarrow> chain_find P c p = Some (find (\<lambda>a. P (data_at c a)) as)"
  by (induction as arbitrary: p) (subst chain_find.simps, auto simp: data_at_def)+

lemma find_item_None:
  "chain c p as \<Longrightarrow> find (\<lambda>a. data_at c a = Item d) as = None \<longleftrightarrow> d \<notin> set (items c as)"
  by (induction as arbitrary: p) (auto simp: data_at_def split: hdata.splits)

lemma find_item_Some:
  assumes "chain c p as" "find (\<lambda>a. data_at c a = Item d) as = Some a" "distinct as"
  shows "a \<in> set as \<and> (\<exists>e. c a = Some e \<and> ie_data e = Item d
    \<and> items (c(a \<mapsto> e\<lparr>ie_data := Nodata\<rparr>)) as = remove1 d (items c as))"
  using assms
proof (induction as arbitrary: p)
  case Nil
  then show ?case by simp
next
  case (Cons b bs)
  from Cons.prems(1) obtain e where e: "p = Some b" "c b = Some e" "chain c (ie_next e) bs" by auto
  show ?case
  proof (cases "ie_data e = Item d")
    case True
    define c' where "c' = c(b \<mapsto> e\<lparr>ie_data := Nodata\<rparr>)"
    have c': "c' b = Some (e\<lparr>ie_data := Nodata\<rparr>)" by (simp add: c'_def)
    have "b = a" using True Cons.prems(2) e by (simp add: data_at_def)
    moreover have "items c' bs = items c bs"
      using Cons.prems(3) by (intro items_frame) (auto simp: c'_def)
    ultimately have "c a = Some e \<and> items c' (b # bs) = remove1 d (items c (b # bs))"
      using e c' True by simp
    then show ?thesis using True \<open>b = a\<close> unfolding c'_def by (metis list.set_intros(1))
  next
    case False
    then have f: "find (\<lambda>a. data_at c a = Item d) bs = Some a"
      using Cons.prems(2) e by (simp add: data_at_def)
    from Cons.IH [OF e(3) f] Cons.prems(3) have "a \<noteq> b" by auto
    with Cons.IH [OF e(3) f] Cons.prems(3) False e show ?thesis
      by (auto split: hdata.splits)
  qed
qed

section \<open>The representation invariant\<close>

definition ht_rep :: "'d t_hashtable \<Rightarrow> nat list list \<Rightarrow> bool" where
  "ht_rep t ass \<longleftrightarrow> 0 < h_num_rows t \<and> length (h_rows t) = h_num_rows t \<and> length ass = h_num_rows t
     \<and> (\<forall>i<h_num_rows t. chain (h_cells t) (h_rows t ! i) (ass ! i))
     \<and> distinct (concat ass) \<and> dom (h_cells t) = set (concat ass)
     \<and> (\<forall>a \<in> dom (h_cells t). a < h_fresh t)
     \<and> h_len t = length (concat (map (items (h_cells t)) ass))"

definition ht_holds :: "'d t_hashtable \<Rightarrow> 'd list list \<Rightarrow> bool" where
  "ht_holds t rss \<longleftrightarrow> (\<exists>ass. ht_rep t ass \<and> rss = map (items (h_cells t)) ass)"

lemma ht_repD:
  assumes "ht_rep t ass"
  shows "0 < h_num_rows t" "length (h_rows t) = h_num_rows t" "length ass = h_num_rows t"
    "\<And>i. i < h_num_rows t \<Longrightarrow> chain (h_cells t) (h_rows t ! i) (ass ! i)"
    "distinct (concat ass)" "\<And>a. a \<in> dom (h_cells t) \<Longrightarrow> a < h_fresh t"
    "h_len t = length (concat (map (items (h_cells t)) ass))"
    "\<And>hash. hash mod h_num_rows t < h_num_rows t" "dom (h_cells t) = set (concat ass)"
  using assms by (auto simp: ht_rep_def)

lemma distinct_rows:
  assumes "distinct (concat ass)" "i < length ass" "j < length ass" "i \<noteq> j"
  shows "distinct (ass ! i) \<and> set (ass ! i) \<inter> set (ass ! j) = {}"
  using assms
proof (induction ass arbitrary: i j)
  case (Cons as ass)
  have sub: "set (ass ! k) \<subseteq> set (concat ass)" if "k < length ass" for k
    using that nth_mem by fastforce
  from Cons.prems show ?case
    using Cons.IH [of "i - 1" "j - 1"] sub [of "i - 1"] sub [of "j - 1"]
    by (cases i; cases j) (auto simp: distinct_concat_iff)
qed simp

lemma length_concat_upd:
  assumes "i < length xss"
  shows "length (concat (xss[i := ys])) + length (xss ! i) = length (concat xss) + length ys"
  using assms by (induction xss arbitrary: i) (auto simp: nth_Cons split: nat.splits)

lemma mset_concat_upd:
  "i < length xss \<Longrightarrow> mset (concat (xss[i := a # xss ! i])) = add_mset a (mset (concat xss))"
  by (induction xss arbitrary: i) (auto simp: nth_Cons split: nat.splits)

lemma ht_holds_len: "ht_holds t rss \<Longrightarrow> hashtable_get_length (Some t) = length (concat rss)"
  by (auto simp: ht_holds_def ht_rep_def hashtable_get_length_def)

lemma ht_holds_rows: "ht_holds t rss \<Longrightarrow> length rss = h_num_rows t \<and> 0 < h_num_rows t"
  by (auto simp: ht_holds_def ht_rep_def)

lemma create_holds:
  "0 < n \<Longrightarrow> \<exists>t. hashtable_create n = Some t \<and> ht_holds t (replicate n []) \<and> h_num_rows t = n"
  by (auto simp: hashtable_create_def ht_holds_def ht_rep_def intro!: exI [of _ "replicate n []"])

lemma insert_holds:
  assumes "ht_holds t rss"
  shows "\<exists>t'. hashtable_insert_data (Some t) d hash = (0, Some t') \<and> h_num_rows t' = h_num_rows t
    \<and> ht_holds t' (rss[hash mod h_num_rows t := d # rss ! (hash mod h_num_rows t)])"
proof -
  obtain ass where r: "ht_rep t ass" and rss: "rss = map (items (h_cells t)) ass"
    using assms by (auto simp: ht_holds_def)
  note D = ht_repD [OF r]
  let ?r = "hash mod h_num_rows t" and ?a = "h_fresh t"
  let ?c = "(h_cells t)(?a \<mapsto> \<lparr>ie_data = Item d, ie_next = h_rows t ! ?r\<rparr>)"
  let ?t = "t\<lparr>h_cells := ?c, h_fresh := Suc ?a, h_rows := (h_rows t)[?r := Some ?a], h_len := h_len t + 1\<rparr>"
  have r: "?r < h_num_rows t" using D(8) .
  have fresh: "?a \<notin> set (ass ! i)" if "i < h_num_rows t" for i
    using chain_dom [OF D(4) [OF that]] D(6) by fastforce
  have fr: "chain ?c p (ass ! i) = chain (h_cells t) p (ass ! i)" "items ?c (ass ! i) = items (h_cells t) (ass ! i)"
    if "i < h_num_rows t" for i p
    using fresh [OF that] by (auto intro!: chain_frame items_frame)
  let ?ass = "ass[?r := ?a # ass ! ?r]"
  have ne: "?a \<notin> set (concat ass)" using fresh D(3) by (auto simp: in_set_conv_nth)
  have ms: "mset (concat ?ass) = mset (?a # concat ass)"
    using r D(3) by (simp add: mset_concat_upd)
  then have "distinct (concat ?ass)"
    using ne D(5) by (metis distinct.simps(2) mset_eq_imp_distinct_iff)
  moreover have "dom ?c = set (concat ?ass)"
    using mset_eq_setD [OF ms] D(9) by auto
  moreover have it: "map (items ?c) ?ass = rss[?r := d # rss ! ?r]"
    using r D(3) rss fr(2) by (intro nth_equalityI) (auto simp: nth_list_update)
  moreover have "length (concat (rss[?r := d # rss ! ?r])) = Suc (h_len t)"
    using length_concat_upd [of ?r rss "d # rss ! ?r"] r D(3,7) rss by simp
  moreover have "chain ?c ((h_rows t)[?r := Some ?a] ! i) (?ass ! i)" if "i < h_num_rows t" for i
    using that D(2,3) D(4) [OF that] D(4) [OF r] fr(1) [OF that] fr(1) [OF r]
    by (cases "i = ?r") auto
  moreover have "\<forall>b \<in> dom ?c. b < Suc ?a" using D(6) by (auto simp: less_Suc_eq)
  ultimately have "ht_rep ?t ?ass" using D(1-3) by (simp add: ht_rep_def del: dom_fun_upd)
  with it show ?thesis by (auto simp: hashtable_insert_data_def Let_def ht_holds_def)
qed


lemma get_entry_holds:
  assumes "ht_rep t ass" "hash mod h_num_rows t = r"
  shows "hashtable_get_entry_by_data (Some t) d hash
     = Some (map_option (\<lambda>a. \<lparr>e_row = r, e_real = a\<rparr>)
         (find (\<lambda>a. data_at (h_cells t) a = Item d) (ass ! r)))"
proof -
  have r: "r < h_num_rows t" using ht_repD(8) [OF assms(1)] assms(2) by blast
  show ?thesis
    using chain_find_first [OF ht_repD(4) [OF assms(1) r], of "\<lambda>x. x = Item d"] r assms(2)
    by (simp add: hashtable_get_entry_by_data_def hashtable_entry_export_def Let_def split: option.splits)
qed

lemma remove_missing:
  assumes "ht_holds t rss" "d \<notin> set (rss ! (hash mod h_num_rows t))"
  shows "hashtable_get_entry_by_data (Some t) d hash = Some None
    \<and> hashtable_remove_data (Some t) d hash = Some (-1, Some t)"
proof -
  obtain ass where r: "ht_rep t ass" and rss: "rss = map (items (h_cells t)) ass"
    using assms by (auto simp: ht_holds_def)
  note D = ht_repD [OF r]
  have "find (\<lambda>a. data_at (h_cells t) a = Item d) (ass ! (hash mod h_num_rows t)) = None"
    using find_item_None [OF D(4) [OF D(8)], of d hash] assms(2) rss D(3) D(8) by simp
  with get_entry_holds [OF r refl] show ?thesis by (simp add: hashtable_remove_data_def)
qed

lemma remove_holds:
  assumes "ht_holds t rss" "d \<in> set (rss ! (hash mod h_num_rows t))"
  shows "\<exists>en t'. hashtable_get_entry_by_data (Some t) d hash = Some (Some en)
    \<and> entry_get_data t (Some en) = Some (Some d)
    \<and> hashtable_remove_data (Some t) d hash = Some (0, Some t') \<and> h_num_rows t' = h_num_rows t
    \<and> ht_holds t' (rss[hash mod h_num_rows t := remove1 d (rss ! (hash mod h_num_rows t))])"
proof -
  obtain ass where r: "ht_rep t ass" and rss: "rss = map (items (h_cells t)) ass"
    using assms by (auto simp: ht_holds_def)
  note D = ht_repD [OF r]
  let ?r = "hash mod h_num_rows t"
  have lt: "?r < h_num_rows t" using D(8) .
  obtain a where a: "find (\<lambda>a. data_at (h_cells t) a = Item d) (ass ! ?r) = Some a"
    using find_item_None [OF D(4) [OF lt], of d] assms(2) rss D(3) lt by fastforce
  have dist: "distinct (ass ! ?r)" using D(3,5) lt by (auto simp: distinct_concat_iff)
  from find_item_Some [OF D(4) [OF lt] a dist] obtain e where
    e: "a \<in> set (ass ! ?r)" "h_cells t a = Some e" "ie_data e = Item d"
      "items ((h_cells t)(a \<mapsto> e\<lparr>ie_data := Nodata\<rparr>)) (ass ! ?r) = remove1 d (items (h_cells t) (ass ! ?r))"
    by blast
  let ?c = "(h_cells t)(a \<mapsto> e\<lparr>ie_data := Nodata\<rparr>)"
  let ?t = "t\<lparr>h_cells := ?c, h_len := h_len t - 1\<rparr>"
  have other: "items ?c (ass ! i) = items (h_cells t) (ass ! i)" if "i < h_num_rows t" "i \<noteq> ?r" for i
    using distinct_rows [OF D(5), of ?r i] that lt D(3) e(1) by (intro items_frame) auto
  have it: "map (items ?c) ass = rss[?r := remove1 d (rss ! ?r)]"
    using D(3) rss other e(4) lt by (intro nth_equalityI) (auto simp: nth_list_update)
  moreover have "length (concat (rss[?r := remove1 d (rss ! ?r)])) = h_len t - 1"
  proof -
    have "length (remove1 d (rss ! ?r)) + 1 = length (rss ! ?r)"
      using assms(2) length_pos_if_in_set [OF assms(2)] by (simp add: length_remove1)
    moreover have "h_len t = length (concat rss)" using D(7) rss by simp
    moreover have "?r < length rss" using D(3) rss lt by simp
    ultimately show ?thesis using length_concat_upd [of ?r rss "remove1 d (rss ! ?r)"] by linarith
  qed
  moreover have "chain ?c (h_rows t ! i) (ass ! i)" if "i < h_num_rows t" for i
    using chain_mark [OF D(4) [OF that] e(2)] .
  moreover have "dom ?c = dom (h_cells t)" using e(2) by auto
  moreover have "\<forall>b \<in> dom (h_cells t). b < h_fresh t" using D(6) by blast
  ultimately have "ht_rep ?t ass" using D(1,2,3,5,9) by (simp add: ht_rep_def del: dom_fun_upd)
  with it have h: "ht_holds ?t (rss[?r := remove1 d (rss ! ?r)])"
    unfolding ht_holds_def by (intro exI [of _ ass]) simp
  have g: "hashtable_get_entry_by_data (Some t) d hash = Some (Some \<lparr>e_row = ?r, e_real = a\<rparr>)"
    using get_entry_holds [OF r refl, of d hash] a by simp
  have rem: "hashtable_remove_data (Some t) d hash = Some (0, Some ?t)"
    using e(2,3) by (simp add: hashtable_remove_data_def g hashtable_remove_entry_def)
  have dat: "entry_get_data t (Some \<lparr>e_row = ?r, e_real = a\<rparr>) = Some (Some d)"
    using e(2,3) by (simp add: entry_get_data_def)
  show ?thesis by (intro exI conjI, rule g, rule dat, rule rem, simp, rule h)
qed

section \<open>Purging\<close>

lemma chain_unlink:
  assumes "chain c p (xs @ b # a # ys)" "distinct (xs @ b # a # ys)" "c a = Some e" "c b = Some eb"
  shows "chain (c(b \<mapsto> eb\<lparr>ie_next := ie_next e\<rparr>, a := None)) p (xs @ b # ys)"
  using assms
proof (induction xs arbitrary: p)
  case Nil
  then have "chain c (ie_next e) ys" by auto
  then have "chain (c(b \<mapsto> eb\<lparr>ie_next := ie_next e\<rparr>, a := None)) (ie_next e) ys"
    using Nil.prems(2) by (subst chain_frame [of _ _ c]) auto
  with Nil.prems show ?case by (simp del: fun_upd_apply) (simp add: fun_upd_def)
qed auto

text \<open>
  The loop: \<open>ls\<close> are the live entries passed so far, \<open>as\<close> the rest of the chain. Only cells of the
  chain are written, and the data of the cells kept does not change.
\<close>

lemma purge_row_spec:
  assumes "chain c cur as" "distinct (ls @ as)"
    "if ls = [] then head = None \<and> change = None
     else change = Some (last ls) \<and> chain c head (ls @ as) \<and> (\<forall>a \<in> set ls. data_at c a \<noteq> Nodata)"
  shows "\<exists>c' head' ks. purge_row c cur head change = Some (c', head') \<and> chain c' head' ks
    \<and> ks = ls @ filter (\<lambda>a. data_at c a \<noteq> Nodata) as
    \<and> (\<forall>a \<in> set ks. a \<in> dom c \<and> data_at c' a = data_at c a)
    \<and> (\<forall>a. a \<notin> set (ls @ as) \<longrightarrow> c' a = c a) \<and> dom c' = dom c - {a \<in> set as. data_at c a = Nodata}"
  using assms
proof (induction as arbitrary: c cur ls head change)
  case Nil
  have "cur = None" using Nil.prems(1) by simp
  then have "purge_row c cur head change = Some (c, head)" by (subst purge_row.simps) simp
  moreover have "chain c head ls" using Nil.prems(3) by (simp split: if_splits)
  ultimately show ?case using chain_dom [of c head ls] by auto
next
  case (Cons a as)
  from Cons.prems(1) obtain e where e: "cur = Some a" "c a = Some e" "chain c (ie_next e) as" by auto
  show ?case
  proof (cases "ie_data e = Nodata")
    case dead: True
    define c1 where "c1 = (if ls = [] then c else
       (let eb = the (c (last ls)) in c(last ls \<mapsto> eb\<lparr>ie_next := ie_next e\<rparr>)))"
    have step: "purge_row c cur head change = purge_row (c1(a := None)) (ie_next e) head change"
    proof (cases "ls = []")
      case True
      then show ?thesis using Cons.prems(3) e dead by (subst purge_row.simps) (simp add: c1_def)
    next
      case False
      then have "last ls \<in> dom c" using Cons.prems(3) chain_dom [of c head "ls @ a # as" "last ls"] by simp
      with False show ?thesis
        using Cons.prems(3) e dead by (subst purge_row.simps) (auto simp: c1_def Let_def)
    qed
    have fr: "(c1(a := None)) b = c b" if "b \<noteq> a" "b \<notin> set ls" for b
      using that by (cases "ls = []") (auto simp: c1_def Let_def)
    have ls_dom: "b \<in> dom c" if "b \<in> set ls" for b
      using that Cons.prems(3) chain_dom [of c head "ls @ a # as" b] by (cases "ls = []") auto
    have same: "data_at (c1(a := None)) b = data_at c b" if "b \<noteq> a" for b
      using that by (auto simp: c1_def Let_def data_at_def)
    have dm: "dom (c1(a := None)) = dom c - {a}"
      using ls_dom [of "last ls"] by (cases "ls = []") (auto simp: c1_def Let_def)
    have tl: "chain (c1(a := None)) (ie_next e) as"
      using e(3) Cons.prems(2) fr by (subst chain_frame [of as _ c]) auto
    have inv: "if ls = [] then head = None \<and> change = None
       else change = Some (last ls) \<and> chain (c1(a := None)) head (ls @ as)
         \<and> (\<forall>b \<in> set ls. data_at (c1(a := None)) b \<noteq> Nodata)"
    proof (cases "ls = []")
      case True
      then show ?thesis using Cons.prems(3) by simp
    next
      case False
      define b us where "b = last ls" and "us = butlast ls"
      have ls: "ls = us @ [b]" using False by (simp add: b_def us_def)
      obtain eb where eb: "c b = Some eb" using ls_dom [of b] ls by auto
      have "chain (c(b \<mapsto> eb\<lparr>ie_next := ie_next e\<rparr>, a := None)) head (us @ b # as)"
        using chain_unlink [of c head us b a as e eb] Cons.prems(2,3) e(2) eb ls by auto
      moreover have "c1(a := None) = c(b \<mapsto> eb\<lparr>ie_next := ie_next e\<rparr>, a := None)"
        using ls eb by (simp add: c1_def)
      moreover have "\<forall>x \<in> set ls. x \<noteq> a" using Cons.prems(2) by auto
      ultimately show ?thesis using False Cons.prems(3) same ls by (simp del: fun_upd_apply)
    qed
    have "distinct (ls @ as)" using Cons.prems(2) by auto
    from Cons.IH [OF tl this inv] obtain c' head' where
      r: "purge_row (c1(a := None)) (ie_next e) head change = Some (c', head')"
         "chain c' head' (ls @ filter (\<lambda>b. data_at (c1(a := None)) b \<noteq> Nodata) as)"
         "\<forall>b \<in> set (ls @ filter (\<lambda>b. data_at (c1(a := None)) b \<noteq> Nodata) as).
            b \<in> dom (c1(a := None)) \<and> data_at c' b = data_at (c1(a := None)) b"
         "\<forall>b. b \<notin> set (ls @ as) \<longrightarrow> c' b = (c1(a := None)) b"
         "dom c' = dom (c1(a := None)) - {b \<in> set as. data_at (c1(a := None)) b = Nodata}"
      by blast
    have na: "a \<notin> set as" "a \<notin> set ls" using Cons.prems(2) by auto
    have da: "data_at c a = Nodata" using dead e by (simp add: data_at_def)
    have fl: "filter (\<lambda>b. data_at (c1(a := None)) b \<noteq> Nodata) as = filter (\<lambda>b. data_at c b \<noteq> Nodata) (a # as)"
    proof -
      have "\<forall>x \<in> set as. data_at (c1(a := None)) x = data_at c x" using na(1) same by metis
      then have "filter (\<lambda>b. data_at (c1(a := None)) b \<noteq> Nodata) as = filter (\<lambda>b. data_at c b \<noteq> Nodata) as"
        by (intro filter_cong) simp_all
      then show ?thesis using da by simp
    qed
    have "dom c' = dom c - {b \<in> set (a # as). data_at c b = Nodata}"
    proof -
      have "{b \<in> set as. data_at (c1(a := None)) b = Nodata} = {b \<in> set as. data_at c b = Nodata}"
        using na(1) same by (intro Collect_cong conj_cong refl) metis
      then show ?thesis using r(5) dm da by auto
    qed
    moreover have "\<forall>b \<in> set (ls @ filter (\<lambda>b. data_at c b \<noteq> Nodata) (a # as)). b \<in> dom c \<and> data_at c' b = data_at c b"
      using r(3) fl same dm by (metis DiffE insertI1)
    moreover have "\<forall>b. b \<notin> set (ls @ a # as) \<longrightarrow> c' b = c b" using r(4) fr by auto
    ultimately show ?thesis using step r(1,2) fl by auto
  next
    case live: False
    let ?head = "if head = None then Some a else head"
    have dl: "data_at c a \<noteq> Nodata" using live e by (simp add: data_at_def)
    have step: "purge_row c cur head change = purge_row c (ie_next e) ?head (Some a)"
      using e live by (subst purge_row.simps) simp
    have "chain c ?head ((ls @ [a]) @ as)"
      using Cons.prems(1,3) e by (cases ls) (auto split: if_splits)
    then have inv: "if ls @ [a] = [] then ?head = None \<and> Some a = None
       else Some a = Some (last (ls @ [a])) \<and> chain c ?head ((ls @ [a]) @ as)
         \<and> (\<forall>b \<in> set (ls @ [a]). data_at c b \<noteq> Nodata)"
      using dl Cons.prems(3) by (auto split: if_splits)
    have "distinct ((ls @ [a]) @ as)" using Cons.prems(2) by auto
    from Cons.IH [OF e(3) this inv] step dl show ?thesis by auto
  qed
qed


lemma purge_row_whole:
  assumes "chain c cur as" "distinct as"
  shows "\<exists>c' head'. purge_row c cur None None = Some (c', head')
    \<and> chain c' head' (filter (\<lambda>a. data_at c a \<noteq> Nodata) as)
    \<and> (\<forall>a \<in> set (filter (\<lambda>a. data_at c a \<noteq> Nodata) as). a \<in> dom c \<and> data_at c' a = data_at c a)
    \<and> (\<forall>a. a \<notin> set as \<longrightarrow> c' a = c a) \<and> dom c' = dom c - {a \<in> set as. data_at c a = Nodata}"
  using purge_row_spec [of c cur as "[]" None None] assms by simp

lemma items_data:
  "set as \<subseteq> dom c \<Longrightarrow>
     items c as = concat (map (\<lambda>a. case data_at c a of Nodata \<Rightarrow> [] | Item d \<Rightarrow> [d]) as)"
  by (induction as) (auto simp: data_at_def split: hdata.splits)

lemma items_filter_live:
  assumes "set as \<subseteq> dom c" "set (filter (\<lambda>a. data_at c a \<noteq> Nodata) as) \<subseteq> dom c'"
    "\<And>a. a \<in> set as \<Longrightarrow> data_at c a \<noteq> Nodata \<Longrightarrow> data_at c' a = data_at c a"
  shows "items c' (filter (\<lambda>a. data_at c a \<noteq> Nodata) as) = items c as"
  using assms by (simp add: items_data) (induction as, auto split: hdata.splits)

lemma purge_rows_spec:
  assumes "list_all2 (chain c) rows ass" "distinct (concat ass)"
  shows "\<exists>c' rows'. purge_rows c rows = Some (c', rows')
    \<and> list_all2 (chain c') rows' (map (filter (\<lambda>a. data_at c a \<noteq> Nodata)) ass)
    \<and> (\<forall>a \<in> set (concat ass). data_at c a \<noteq> Nodata \<longrightarrow> data_at c' a = data_at c a)
    \<and> (\<forall>a. a \<notin> set (concat ass) \<longrightarrow> c' a = c a)
    \<and> dom c' = dom c - {a \<in> set (concat ass). data_at c a = Nodata}"
  using assms
proof (induction ass arbitrary: rows c rule: list.induct)
  case Nil
  then show ?case by simp
next
  case (Cons as ass rws)
  from Cons.prems(1) obtain r rows where rws: "rws = r # rows" "chain c r as" "list_all2 (chain c) rows ass"
    by (auto simp: list_all2_Cons2)
  have dis: "distinct as" "distinct (concat ass)" "set as \<inter> set (concat ass) = {}"
    using Cons.prems by auto
  let ?P = "\<lambda>a. data_at c a \<noteq> Nodata"
  from purge_row_whole [OF rws(2) dis(1)] obtain c1 r1 where
    r1: "purge_row c r None None = Some (c1, r1)" "chain c1 r1 (filter ?P as)"
      "\<forall>a \<in> set (filter ?P as). a \<in> dom c \<and> data_at c1 a = data_at c a"
      "\<forall>a. a \<notin> set as \<longrightarrow> c1 a = c a" "dom c1 = dom c - {a \<in> set as. data_at c a = Nodata}"
    by (elim exE conjE) (rule that; assumption)
  have same: "data_at c1 a = data_at c a" if "a \<in> set (concat ass)" for a
  proof -
    from that dis(3) have "a \<notin> set as" by blast
    then show ?thesis using r1(4) by (simp add: data_at_def)
  qed
  have la: "list_all2 (chain c1) rows ass"
    unfolding list_all2_conv_all_nth
  proof (intro conjI allI impI)
    show "length rows = length ass" using rws(3) by (rule list_all2_lengthD)
    fix i assume i: "i < length rows"
    then have "chain c (rows ! i) (ass ! i)" using rws(3) by (simp add: list_all2_conv_all_nth)
    moreover have "c1 a = c a" if "a \<in> set (ass ! i)" for a
    proof -
      have "ass ! i \<in> set ass" using i list_all2_lengthD [OF rws(3)] by simp
      then have "a \<notin> set as" using dis(3) that by auto
      then show ?thesis using r1(4) by blast
    qed
    ultimately show "chain c1 (rows ! i) (ass ! i)" using chain_frame by metis
  qed
  have fe: "map (filter (\<lambda>a. data_at c1 a \<noteq> Nodata)) ass = map (filter ?P) ass"
  proof (rule map_cong [OF refl], rule filter_cong [OF refl])
    fix x a assume "x \<in> set ass" "a \<in> set x"
    then have "a \<in> set (concat ass)" by auto
    then show "(data_at c1 a \<noteq> Nodata) = (data_at c a \<noteq> Nodata)" using same by simp
  qed
  from Cons.IH [OF la dis(2)] obtain c2 rows2 where
    r2: "purge_rows c1 rows = Some (c2, rows2)" "list_all2 (chain c2) rows2 (map (filter ?P) ass)"
      "\<forall>a \<in> set (concat ass). data_at c1 a \<noteq> Nodata \<longrightarrow> data_at c2 a = data_at c1 a"
      "\<forall>a. a \<notin> set (concat ass) \<longrightarrow> c2 a = c1 a"
      "dom c2 = dom c1 - {a \<in> set (concat ass). data_at c1 a = Nodata}"
    unfolding fe by (elim exE conjE) (rule that; assumption)
  have "purge_rows c rws = Some (c2, r1 # rows2)" using r1(1) r2(1) rws(1) by simp
  moreover have "list_all2 (chain c2) (r1 # rows2) (map (filter ?P) (as # ass))"
    using r1(2) r2(2,4) dis(3) chain_frame [of "filter ?P as" c2 c1 r1] by auto
  moreover have "data_at c2 a = data_at c a" if "a \<in> set (concat (as # ass))" "data_at c a \<noteq> Nodata" for a
  proof (cases "a \<in> set as")
    case True
    then have "c2 a = c1 a" using r2(4) dis(3) by blast
    then show ?thesis using True that(2) r1(3) by (simp add: data_at_def)
  next
    case False
    then show ?thesis using r2(3) same that by auto
  qed
  moreover have "dom c2 = dom c - {a \<in> set (concat (as # ass)). data_at c a = Nodata}"
  proof -
    have "{a \<in> set (concat ass). data_at c1 a = Nodata} = {a \<in> set (concat ass). data_at c a = Nodata}"
      using same by (intro Collect_cong conj_cong refl) simp
    then have "dom c2 = dom c - {a \<in> set as. data_at c a = Nodata} - {a \<in> set (concat ass). data_at c a = Nodata}"
      using r2(5) r1(5) by simp
    then show ?thesis by (simp only: concat.simps set_append Un_iff) blast
  qed
  moreover have "\<forall>a. a \<notin> set (concat (as # ass)) \<longrightarrow> c2 a = c a" using r2(4) r1(4) by auto
  ultimately show ?case by blast
qed


lemma filter_concat_rows: "concat (map (filter P) ass) = filter P (concat ass)"
  by (simp add: filter_concat)

lemma purge_rep:
  assumes "ht_rep t ass"
  shows "\<exists>t'. hashtable_purge (Some t) = Some (0, Some t') \<and> h_num_rows t' = h_num_rows t
    \<and> ht_rep t' (map (filter (\<lambda>a. data_at (h_cells t) a \<noteq> Nodata)) ass)
    \<and> map (items (h_cells t')) (map (filter (\<lambda>a. data_at (h_cells t) a \<noteq> Nodata)) ass)
      = map (items (h_cells t)) ass
    \<and> (\<forall>a \<in> dom (h_cells t'). data_at (h_cells t') a \<noteq> Nodata)"
proof -
  note D = ht_repD [OF assms]
  let ?c = "h_cells t" and ?P = "\<lambda>a. data_at (h_cells t) a \<noteq> Nodata"
  let ?ass = "map (filter ?P) ass"
  have "list_all2 (chain ?c) (h_rows t) ass" using D(2,3,4) by (simp add: list_all2_conv_all_nth)
  from purge_rows_spec [OF this D(5)] obtain c' rows' where
    r: "purge_rows ?c (h_rows t) = Some (c', rows')" "list_all2 (chain c') rows' ?ass"
      "\<forall>a \<in> set (concat ass). data_at ?c a \<noteq> Nodata \<longrightarrow> data_at c' a = data_at ?c a"
      "dom c' = dom ?c - {a \<in> set (concat ass). data_at ?c a = Nodata}"
    by (elim exE conjE) (rule that; assumption)
  have dom': "dom c' = set (concat ?ass)" using r(4) D(9) by (auto simp: filter_concat_rows)
  have it: "map (items c') ?ass = map (items ?c) ass"
  proof (rule nth_equalityI)
    fix i assume "i < length (map (items c') ?ass)"
    then have i: "i < length ass" by simp
    then have "set (ass ! i) \<subseteq> set (concat ass)" using i UN_upper [of "ass ! i" "set ass" set] by simp
    then have "items c' (filter ?P (ass ! i)) = items ?c (ass ! i)"
      using r(3) D(9) dom' i by (intro items_filter_live) (auto simp: filter_concat_rows)
    with i show "map (items c') ?ass ! i = map (items ?c) ass ! i" by simp
  qed simp
  let ?t = "t\<lparr>h_cells := c', h_rows := rows'\<rparr>"
  have "distinct (concat ?ass)" using D(5) by (simp add: filter_concat_rows)
  moreover have "length rows' = h_num_rows t" "\<forall>i<h_num_rows t. chain c' (rows' ! i) (?ass ! i)"
    using r(2) D(3) by (auto simp: list_all2_conv_all_nth)
  moreover have "\<forall>a \<in> dom c'. a < h_fresh t" using r(4) D(6) by blast
  moreover have "h_len t = length (concat (map (items c') ?ass))" by (simp only: it D(7))
  ultimately have "ht_rep ?t ?ass" using D(1,3) dom' by (simp add: ht_rep_def del: map_map set_concat)
  moreover have "\<forall>a \<in> dom c'. data_at c' a \<noteq> Nodata"
    using dom' r(3) by (auto simp: filter_concat_rows)
  moreover have "hashtable_purge (Some t) = Some (0, Some ?t)" using r(1) by (simp add: hashtable_purge_def)
  ultimately show ?thesis using it by (intro exI [of _ ?t]) simp
qed

section \<open>Traversal\<close>

lemma chain_split:
  "chain c p (us @ a # vs) \<Longrightarrow> \<exists>e. c a = Some e \<and> chain c (ie_next e) vs"
  by (induction us arbitrary: p) auto

lemma find_live:
  assumes "set as \<subseteq> dom c"
  shows "(case find (\<lambda>a. data_at c a \<noteq> Nodata) as of None \<Rightarrow> items c as = []
    | Some a \<Rightarrow> \<exists>us vs d. as = us @ a # vs \<and> items c us = [] \<and> data_at c a = Item d
        \<and> items c as = d # items c vs)"
  using assms
proof (induction as)
  case Nil
  then show ?case by simp
next
  case (Cons b bs)
  then obtain e where e: "c b = Some e" by auto
  show ?case
  proof (cases "ie_data e")
    case Nodata
    with Cons e show ?thesis
      by (auto simp: data_at_def split: option.splits) (metis append_Cons items.simps(2) e Nodata hdata.case(1) option.case(2))
  next
    case (Item d)
    with e show ?thesis
      by (simp add: data_at_def) (rule exI [of _ "[]"], simp)
  qed
qed

definition rest :: "'d t_hashtable \<Rightarrow> nat list list \<Rightarrow> nat \<Rightarrow> 'd list" where
  "rest t ass row = concat (map (items (h_cells t)) (drop row ass))"

lemma rest_step: "row < length ass \<Longrightarrow> rest t ass row = items (h_cells t) (ass ! row) @ rest t ass (row + 1)"
  by (simp add: rest_def Cons_nth_drop_Suc [symmetric])

text \<open>A cursor and the data still to be visited: over all rows, and in one row.\<close>

definition cursor_in :: "'d t_hashtable \<Rightarrow> nat list list \<Rightarrow> t_entry \<Rightarrow> 'd list \<Rightarrow> bool" where
  "cursor_in t ass en xs \<longleftrightarrow> e_row en < h_num_rows t \<and> (\<exists>us vs d. ass ! e_row en = us @ e_real en # vs
     \<and> data_at (h_cells t) (e_real en) = Item d \<and> xs = d # items (h_cells t) vs)"

definition cursor_at :: "'d t_hashtable \<Rightarrow> nat list list \<Rightarrow> t_entry option \<Rightarrow> 'd list \<Rightarrow> bool" where
  "cursor_at t ass entry xs = (case entry of None \<Rightarrow> xs = []
     | Some en \<Rightarrow> (\<exists>ys. cursor_in t ass en ys \<and> xs = ys @ rest t ass (e_row en + 1)))"

lemma rep_row_dom:
  "ht_rep t ass \<Longrightarrow> row < h_num_rows t \<Longrightarrow> ass ! row = us @ vs \<Longrightarrow> set vs \<subseteq> dom (h_cells t)"
  using ht_repD(4) [of t ass row] chain_dom by fastforce

text \<open>Scanning the rest \<open>vs\<close> of a chain from the address \<open>p\<close>.\<close>

lemma scan_row:
  assumes "ht_rep t ass" "row < h_num_rows t" "ass ! row = us @ vs" "chain (h_cells t) p vs"
  shows "(chain_find (\<lambda>x. x \<noteq> Nodata) (h_cells t) p = Some None \<and> items (h_cells t) vs = [])
    \<or> (\<exists>a. chain_find (\<lambda>x. x \<noteq> Nodata) (h_cells t) p = Some (Some a)
        \<and> cursor_in t ass \<lparr>e_row = row, e_real = a\<rparr> (items (h_cells t) vs))"
  using find_live [OF rep_row_dom [OF assms(1-3)]] assms(2,3) chain_find_first [OF assms(4), of "\<lambda>x. x \<noteq> Nodata"]
  by (auto simp: cursor_in_def split: option.splits) (metis append.assoc append_Cons)+

lemma rows_first_at:
  assumes "ht_rep t ass"
  shows "\<exists>entry. rows_first t row = Some entry \<and> cursor_at t ass entry (rest t ass row)"
proof (induction "h_num_rows t - row" arbitrary: row)
  case 0
  then show ?case using ht_repD(3) [OF assms]
    by (subst rows_first.simps) (simp add: cursor_at_def rest_def)
next
  case (Suc k)
  then have lt: "row < h_num_rows t" by simp
  note st = rest_step [of row ass t] 
  from scan_row [OF assms lt, of "[]"] ht_repD(4) [OF assms lt]
  consider "chain_find (\<lambda>x. x \<noteq> Nodata) (h_cells t) (h_rows t ! row) = Some None" "items (h_cells t) (ass ! row) = []"
    | a where "chain_find (\<lambda>x. x \<noteq> Nodata) (h_cells t) (h_rows t ! row) = Some (Some a)"
        "cursor_in t ass \<lparr>e_row = row, e_real = a\<rparr> (items (h_cells t) (ass ! row))" by auto
  then show ?case
  proof cases
    case 1
    with Suc.hyps(1) [of "row + 1"] Suc.hyps(2) lt st ht_repD(3) [OF assms] show ?thesis
      by (subst rows_first.simps) simp
  next
    case 2
    with lt st ht_repD(3) [OF assms] show ?thesis
      by (subst rows_first.simps) (auto simp: cursor_at_def)
  qed
qed

lemma cursor_step:
  assumes "ht_rep t ass" "cursor_in t ass en (x # ys)"
  shows "entry_get_data t (Some en) = Some (Some x)
    \<and> (\<exists>next. entry_get_next_matching t (Some en) = Some next
        \<and> (case next of None \<Rightarrow> ys = [] | Some en' \<Rightarrow> e_row en' = e_row en \<and> cursor_in t ass en' ys))
    \<and> (\<exists>next. entry_get_next t (Some en) = Some next
        \<and> cursor_at t ass next (ys @ rest t ass (e_row en + 1)))"
proof -
  obtain us vs where u: "e_row en < h_num_rows t" "ass ! e_row en = us @ e_real en # vs"
    "data_at (h_cells t) (e_real en) = Item x" "ys = items (h_cells t) vs"
    using assms(2) by (auto simp: cursor_in_def)
  from chain_split [of "h_cells t" _ us] ht_repD(4) [OF assms(1) u(1)] u(2) obtain e where
    e: "h_cells t (e_real en) = Some e" "chain (h_cells t) (ie_next e) vs" by metis
  from scan_row [OF assms(1) u(1), of "us @ [e_real en]" vs, OF _ e(2)] u(2)
  consider "chain_find (\<lambda>x. x \<noteq> Nodata) (h_cells t) (ie_next e) = Some None" "ys = []"
    | a where "chain_find (\<lambda>x. x \<noteq> Nodata) (h_cells t) (ie_next e) = Some (Some a)"
        "cursor_in t ass (en\<lparr>e_real := a\<rparr>) ys" using u(4) by (cases en) auto
  then show ?thesis
  proof cases
    case 1
    with e u(3) rows_first_at [OF assms(1), of "e_row en + 1"] show ?thesis
      by (auto simp: entry_get_data_def entry_get_next_matching_def entry_get_next_def data_at_def)
  next
    case 2
    with e u(3) show ?thesis
      by (auto simp: entry_get_data_def entry_get_next_matching_def entry_get_next_def data_at_def cursor_at_def)
  qed
qed

lemma cursor_in_Cons: "cursor_in t ass en xs \<Longrightarrow> \<exists>x ys. xs = x # ys"
  by (auto simp: cursor_in_def)

lemma traverse_from_at:
  assumes "ht_rep t ass" "cursor_at t ass entry xs"
  shows "traverse_from t entry = Some (map Some xs)"
  using assms(2)
proof (induction xs arbitrary: entry)
  case Nil
  then have "entry = None" by (auto simp: cursor_at_def cursor_in_def split: option.splits)
  then show ?case by (subst traverse_from.simps) simp
next
  case (Cons x xs)
  then obtain en zs where en0: "entry = Some en" "cursor_in t ass en zs" "x # xs = zs @ rest t ass (e_row en + 1)"
    by (auto simp: cursor_at_def split: option.splits)
  moreover obtain z ys where "zs = z # ys" using cursor_in_Cons [OF en0(2)] by blast
  ultimately have en: "entry = Some en" "cursor_in t ass en (x # ys)" "xs = ys @ rest t ass (e_row en + 1)"
    by auto
  from cursor_step [OF assms(1) en(2)] obtain nxt where
    "entry_get_data t (Some en) = Some (Some x)" "entry_get_next t (Some en) = Some nxt"
    "cursor_at t ass nxt xs" unfolding en(3) by blast
  with Cons.IH [of nxt] show ?case unfolding en(1) by (subst traverse_from.simps) auto
qed

lemma traverse_matching_in:
  assumes "ht_rep t ass" "(case entry of None \<Rightarrow> xs = [] | Some en \<Rightarrow> cursor_in t ass en xs)"
  shows "traverse_matching_from t entry = Some (map Some xs)"
  using assms(2)
proof (induction xs arbitrary: entry)
  case Nil
  then have "entry = None" by (auto simp: cursor_in_def split: option.splits)
  then show ?case by (subst traverse_matching_from.simps) simp
next
  case (Cons x xs)
  then obtain en where en: "entry = Some en" "cursor_in t ass en (x # xs)"
    by (auto split: option.splits)
  from cursor_step [OF assms(1) en(2)] obtain nxt where nxt:
    "entry_get_data t (Some en) = Some (Some x)" "entry_get_next_matching t (Some en) = Some nxt"
    "case nxt of None \<Rightarrow> xs = [] | Some en' \<Rightarrow> e_row en' = e_row en \<and> cursor_in t ass en' xs"
    by blast
  from nxt(3) have "case nxt of None \<Rightarrow> xs = [] | Some en' \<Rightarrow> cursor_in t ass en' xs"
    by (simp split: option.splits)
  with Cons.IH [of nxt] nxt(1,2) show ?case unfolding en(1) by (subst traverse_matching_from.simps) simp
qed

lemma skip_one: "pos - len = Suc n \<Longrightarrow> pos - Suc len = n"
  by simp

lemma pos_loop_at:
  assumes "ht_rep t ass" "chain (h_cells t) cur vs" "len \<le> pos"
  shows "pos_loop t pos row cur len =
     (let xs = items (h_cells t) vs @ rest t ass row
      in Some (if pos - len < length xs then Some (xs ! (pos - len)) else None))"
  using assms(2,3)
proof (induction "h_num_rows t - row" arbitrary: row cur vs len)
  case out: 0
  from out.prems show ?case
  proof (induction vs arbitrary: cur len)
    case Nil
    with out.hyps ht_repD(3) [OF assms(1)] show ?case by (subst pos_loop.simps) (simp add: rest_def)
  next
    case (Cons a as)
    then obtain e where e: "cur = Some a" "h_cells t a = Some e" "chain (h_cells t) (ie_next e) as" by auto
    with Cons.IH [OF e(3)] Cons.prems(2) show ?case
      by (subst pos_loop.simps)
        (cases "pos = len", auto simp: Let_def nth_Cons split: hdata.splits nat.splits
          dest!: skip_one)
  qed
next
  case out: (Suc k)
  have lt: "row < h_num_rows t" using out.hyps(2) by simp
  note st = rest_step [of row ass t]
  from out.prems show ?case
  proof (induction vs arbitrary: cur len)
    case Nil
    with out.hyps(1) [of "row + 1" "h_rows t ! row" "ass ! row" len] out.hyps(2)
      ht_repD(4) [OF assms(1) lt] lt st ht_repD(3) [OF assms(1)]
    show ?case by (subst pos_loop.simps) simp
  next
    case (Cons a as)
    then obtain e where e: "cur = Some a" "h_cells t a = Some e" "chain (h_cells t) (ie_next e) as" by auto
    with Cons.IH [OF e(3)] Cons.prems(2) show ?case
      by (subst pos_loop.simps)
        (cases "pos = len", auto simp: Let_def nth_Cons split: hdata.splits nat.splits
          dest!: skip_one)
  qed
qed


lemma get_by_pos_holds:
  assumes "ht_holds t rss"
  shows "hashtable_get_data_by_pos (Some t) pos
    = Some (if pos < length (concat rss) then Some (concat rss ! pos) else None)"
proof -
  obtain ass where r: "ht_rep t ass" "rss = map (items (h_cells t)) ass"
    using assms by (auto simp: ht_holds_def)
  then show ?thesis
    using pos_loop_at [OF r(1), of None "[]" 0 pos 0]
    by (simp add: hashtable_get_data_by_pos_def rest_def Let_def)
qed

lemma traverse_holds:
  assumes "ht_holds t rss"
  shows "hashtable_traverse t = Some (map Some (concat rss))"
proof -
  obtain ass where r: "ht_rep t ass" "rss = map (items (h_cells t)) ass"
    using assms by (auto simp: ht_holds_def)
  from rows_first_at [OF r(1), of 0] obtain entry where
    "rows_first t 0 = Some entry" "cursor_at t ass entry (rest t ass 0)" by blast
  with traverse_from_at [OF r(1)] r(2) show ?thesis
    by (simp add: hashtable_traverse_def hashtable_get_first_def rest_def)
qed

lemma traverse_matching_holds:
  assumes "ht_holds t rss"
  shows "hashtable_traverse_matching t hash = Some (map Some (rss ! (hash mod h_num_rows t)))"
proof -
  obtain ass where r: "ht_rep t ass" "rss = map (items (h_cells t)) ass"
    using assms by (auto simp: ht_holds_def)
  let ?r = "hash mod h_num_rows t"
  note D = ht_repD [OF r(1)]
  have rs: "rss ! ?r = items (h_cells t) (ass ! ?r)" using r(2) D(3,8) by simp
  have ch: "chain (h_cells t) (h_rows t ! ?r) (ass ! ?r)" using D(4) [OF D(8)] .
  from scan_row [OF r(1) D(8), of hash "[]" "ass ! ?r" "h_rows t ! ?r"] ch
  consider "chain_find (\<lambda>x. x \<noteq> Nodata) (h_cells t) (h_rows t ! ?r) = Some None" "rss ! ?r = []"
    | a where "chain_find (\<lambda>x. x \<noteq> Nodata) (h_cells t) (h_rows t ! ?r) = Some (Some a)"
        "cursor_in t ass \<lparr>e_row = ?r, e_real = a\<rparr> (rss ! ?r)" unfolding rs by auto
  then obtain entry where "hashtable_get_first_matching (Some t) hash = Some entry"
    "case entry of None \<Rightarrow> rss ! ?r = [] | Some en \<Rightarrow> cursor_in t ass en (rss ! ?r)"
  proof cases
    case 1
    with that [of None] show ?thesis by (simp add: hashtable_get_first_matching_def)
  next
    case 2
    with that [of "Some \<lparr>e_row = ?r, e_real = a\<rparr>"] D(8) [of hash] show ?thesis
      by (simp add: hashtable_get_first_matching_def hashtable_entry_export_def Let_def)
  qed
  with traverse_matching_in [OF r(1)] show ?thesis by (simp add: hashtable_traverse_matching_def)
qed

section \<open>The interface of a registry of objects under their hash\<close>

text \<open>
  What the users of a table rely on, for objects that are always filed under the same hash: a bag
  with insertion, removal of one occurrence (0, or -1 when there is none), a membership test and a
  clean-up that changes nothing.
\<close>

locale bag_store =
  fixes holds :: "'s \<Rightarrow> 'd multiset \<Rightarrow> bool"
    and ins :: "'s \<Rightarrow> 'd \<Rightarrow> (int \<times> 's) option"
    and del :: "'s \<Rightarrow> 'd \<Rightarrow> (int \<times> 's) option"
    and mem :: "'s \<Rightarrow> 'd \<Rightarrow> bool option"
    and tidy :: "'s \<Rightarrow> (int \<times> 's) option"
  assumes ins_holds: "holds s B \<Longrightarrow> \<exists>s'. ins s d = Some (0, s') \<and> holds s' (add_mset d B)"
    and del_holds: "holds s B \<Longrightarrow>
      \<exists>s'. del s d = Some (if d \<in># B then 0 else -1, s') \<and> holds s' (B - {#d#})"
    and mem_holds: "holds s B \<Longrightarrow> mem s d = Some (d \<in># B)"
    and tidy_holds: "holds s B \<Longrightarrow> \<exists>s'. tidy s = Some (0, s') \<and> holds s' B"

datatype 'd bag_cmd = BIns 'd | BDel 'd | BMem 'd | BTidy

fun bag_run :: "('s \<Rightarrow> 'd \<Rightarrow> (int \<times> 's) option) \<Rightarrow> ('s \<Rightarrow> 'd \<Rightarrow> (int \<times> 's) option) \<Rightarrow>
    ('s \<Rightarrow> 'd \<Rightarrow> bool option) \<Rightarrow> ('s \<Rightarrow> (int \<times> 's) option) \<Rightarrow> 's \<Rightarrow> 'd bag_cmd list \<Rightarrow> (int list \<times> 's) option" where
  "bag_run ins del mem tidy s [] = Some ([], s)"
| "bag_run ins del mem tidy s (c # cs) = do {
     (r, s') \<leftarrow> (case c of BIns d \<Rightarrow> ins s d | BDel d \<Rightarrow> del s d
                 | BMem d \<Rightarrow> map_option (\<lambda>b. (if b then 1 else 0, s)) (mem s d) | BTidy \<Rightarrow> tidy s);
     (rs, s'') \<leftarrow> bag_run ins del mem tidy s' cs;
     Some (r # rs, s'') }"

fun bag_spec1 :: "'d multiset \<Rightarrow> 'd bag_cmd \<Rightarrow> int \<times> 'd multiset" where
  "bag_spec1 B (BIns d) = (0, add_mset d B)"
| "bag_spec1 B (BDel d) = (if d \<in># B then 0 else -1, B - {#d#})"
| "bag_spec1 B (BMem d) = (if d \<in># B then 1 else 0, B)"
| "bag_spec1 B BTidy = (0, B)"

fun bag_spec :: "'d multiset \<Rightarrow> 'd bag_cmd list \<Rightarrow> int list \<times> 'd multiset" where
  "bag_spec B [] = ([], B)"
| "bag_spec B (c # cs) = (let (r, B1) = bag_spec1 B c; (rs, B2) = bag_spec B1 cs in (r # rs, B2))"

context bag_store
begin

lemma bag_run_refines:
  "holds s B \<Longrightarrow>
     \<exists>s'. bag_run ins del mem tidy s cs = Some (fst (bag_spec B cs), s') \<and> holds s' (snd (bag_spec B cs))"
proof (induction cs arbitrary: s B)
  case (Cons c cs)
  have "\<exists>s'. (case c of BIns d \<Rightarrow> ins s d | BDel d \<Rightarrow> del s d
         | BMem d \<Rightarrow> map_option (\<lambda>b. (if b then 1 else 0, s)) (mem s d) | BTidy \<Rightarrow> tidy s)
      = Some (fst (bag_spec1 B c), s') \<and> holds s' (snd (bag_spec1 B c))"
    using ins_holds [OF Cons.prems] del_holds [OF Cons.prems] mem_holds [OF Cons.prems]
      tidy_holds [OF Cons.prems] Cons.prems by (cases c) auto
  then obtain s' where s': "(case c of BIns d \<Rightarrow> ins s d | BDel d \<Rightarrow> del s d
         | BMem d \<Rightarrow> map_option (\<lambda>b. (if b then 1 else 0, s)) (mem s d) | BTidy \<Rightarrow> tidy s)
      = Some (fst (bag_spec1 B c), s')" "holds s' (snd (bag_spec1 B c))" by blast
  with Cons.IH [OF s'(2)] show ?case by (auto simp: split_beta Let_def)
qed simp

end

text \<open>The table with a hash function \<open>f\<close>: every object sits in its row.\<close>

definition ht_bag :: "('d \<Rightarrow> nat) \<Rightarrow> 'd t_hashtable \<Rightarrow> 'd multiset \<Rightarrow> bool" where
  "ht_bag f t B \<longleftrightarrow> (\<exists>rss. ht_holds t rss \<and> mset (concat rss) = B
     \<and> (\<forall>i<length rss. \<forall>d \<in> set (rss ! i). f d mod length rss = i))"

definition ht_ins :: "('d \<Rightarrow> nat) \<Rightarrow> 'd t_hashtable \<Rightarrow> 'd \<Rightarrow> (int \<times> 'd t_hashtable) option" where
  "ht_ins f t d = (let (r, ht) = hashtable_insert_data (Some t) d (f d) in Some (r, the ht))"

definition ht_del :: "('d \<Rightarrow> nat) \<Rightarrow> 'd t_hashtable \<Rightarrow> 'd \<Rightarrow> (int \<times> 'd t_hashtable) option" where
  "ht_del f t d = map_option (\<lambda>(r, ht). (r, the ht)) (hashtable_remove_data (Some t) d (f d))"

definition ht_mem :: "('d \<Rightarrow> nat) \<Rightarrow> 'd t_hashtable \<Rightarrow> 'd \<Rightarrow> bool option" where
  "ht_mem f t d = map_option (\<lambda>en. en \<noteq> None) (hashtable_get_entry_by_data (Some t) d (f d))"

definition ht_tidy :: "'d t_hashtable \<Rightarrow> (int \<times> 'd t_hashtable) option" where
  "ht_tidy t = map_option (\<lambda>(r, ht). (r, the ht)) (hashtable_purge (Some t))"

lemma mset_concat_remove:
  "i < length xss \<Longrightarrow> d \<in> set (xss ! i) \<Longrightarrow>
     mset (concat (xss[i := remove1 d (xss ! i)])) = mset (concat xss) - {#d#}"
proof (induction xss arbitrary: i)
  case (Cons xs xss)
  show ?case
  proof (cases i)
    case 0
    then show ?thesis using Cons.prems by (simp add: multiset_eq_iff)
  next
    case (Suc j)
    then have j: "j < length xss" "d \<in> set (xss ! j)" using Cons.prems by simp_all
    then have "d \<in># mset (concat xss)" using nth_mem [OF j(1)] by auto
    then have "mset xs + (mset (concat xss) - {#d#}) = mset xs + mset (concat xss) - {#d#}"
      by (simp only: diff_union_single_conv)
    with Cons.IH [OF j] show ?thesis unfolding Suc by simp
  qed
qed simp

lemma mem_concat_row:
  assumes "\<forall>i<length rss. \<forall>d \<in> set (rss ! i). f d mod length rss = i" "0 < length rss"
  shows "d \<in># mset (concat rss) \<longleftrightarrow> d \<in> set (rss ! (f d mod length rss))"
proof
  assume "d \<in># mset (concat rss)"
  then obtain xs where "xs \<in> set rss" "d \<in> set xs" by auto
  then obtain i where "i < length rss" "d \<in> set (rss ! i)" by (metis in_set_conv_nth)
  with assms show "d \<in> set (rss ! (f d mod length rss))" by metis
next
  assume "d \<in> set (rss ! (f d mod length rss))"
  moreover have "rss ! (f d mod length rss) \<in> set rss" using assms(2) by simp
  ultimately show "d \<in># mset (concat rss)" by auto
qed

interpretation hb: bag_store "ht_bag f" "ht_ins f" "ht_del f" "ht_mem f" ht_tidy
  for f :: "'d \<Rightarrow> nat"
proof
  fix t :: "'d t_hashtable" and B d
  assume "ht_bag f t B"
  then obtain rss where h: "ht_holds t rss" "mset (concat rss) = B"
    and pl: "\<forall>i<length rss. \<forall>d \<in> set (rss ! i). f d mod length rss = i"
    by (auto simp: ht_bag_def)
  note n = ht_holds_rows [OF h(1)]
  have memr: "d \<in># B \<longleftrightarrow> d \<in> set (rss ! (f d mod h_num_rows t))" for d
    using mem_concat_row [OF pl, of d] n h(2) by simp
  have lt: "f d mod h_num_rows t < length rss" using n by simp
  show "\<exists>s'. ht_ins f t d = Some (0, s') \<and> ht_bag f s' (add_mset d B)"
  proof -
    let ?rss = "rss[f d mod h_num_rows t := d # rss ! (f d mod h_num_rows t)]"
    from insert_holds [OF h(1), of d "f d"] obtain t' where
      "hashtable_insert_data (Some t) d (f d) = (0, Some t')" "ht_holds t' ?rss" by blast
    moreover have "mset (concat ?rss) = add_mset d B" using mset_concat_upd [OF lt] h(2) by simp
    moreover have "\<forall>i<length ?rss. \<forall>x \<in> set (?rss ! i). f x mod length ?rss = i"
      using pl n lt by (auto simp: nth_list_update)
    ultimately show ?thesis by (auto simp: ht_ins_def ht_bag_def)
  qed
  show "ht_mem f t d = Some (d \<in># B)"
    using remove_missing [OF h(1), of d "f d"] remove_holds [OF h(1), of d "f d"] memr [of d]
    by (cases "d \<in># B") (auto simp: ht_mem_def)
  show "\<exists>s'. ht_del f t d = Some (if d \<in># B then 0 else -1, s') \<and> ht_bag f s' (B - {#d#})"
  proof (cases "d \<in># B")
    case False
    then have "B - {#d#} = B" by (simp add: diff_single_trivial)
    then show ?thesis
      using False remove_missing [OF h(1), of d "f d"] memr [of d] h pl by (auto simp: ht_del_def ht_bag_def)
  next
    case True
    let ?rss = "rss[f d mod h_num_rows t := remove1 d (rss ! (f d mod h_num_rows t))]"
    have inr: "d \<in> set (rss ! (f d mod h_num_rows t))" using True memr by blast
    from remove_holds [OF h(1) inr] obtain t' where
      "hashtable_remove_data (Some t) d (f d) = Some (0, Some t')" "ht_holds t' ?rss" by blast
    moreover have "mset (concat ?rss) = B - {#d#}" using mset_concat_remove [OF lt inr] h(2) by simp
    moreover have "\<forall>i<length ?rss. \<forall>x \<in> set (?rss ! i). f x mod length ?rss = i"
    proof (intro allI impI ballI)
      fix i x assume i: "i < length ?rss" and "x \<in> set (?rss ! i)"
      then have "x \<in> set (rss ! i)"
        using set_remove1_subset [of d "rss ! (f d mod h_num_rows t)"] i
        by (cases "i = f d mod h_num_rows t") auto
      then show "f x mod length ?rss = i" using pl i by simp
    qed
    ultimately show ?thesis using True by (auto simp: ht_del_def ht_bag_def)
  qed
next
  fix t :: "'d t_hashtable" and B
  assume "ht_bag f t B"
  then obtain rss where h: "ht_holds t rss" "mset (concat rss) = B"
    "\<forall>i<length rss. \<forall>d \<in> set (rss ! i). f d mod length rss = i"
    by (auto simp: ht_bag_def)
  from h(1) obtain ass where r: "ht_rep t ass" "rss = map (items (h_cells t)) ass"
    by (auto simp: ht_holds_def)
  from purge_rep [OF r(1)] obtain t' where t':
    "hashtable_purge (Some t) = Some (0, Some t')" "ht_holds t' rss"
    unfolding ht_holds_def r(2) by metis
  then have "ht_bag f t' B" using h(2,3) unfolding ht_bag_def by blast
  with t'(1) show "\<exists>s'. ht_tidy t = Some (0, s') \<and> ht_bag f s' B" by (simp add: ht_tidy_def)
qed


text \<open>
  C8. A hash table is a bag of its objects. Created with at least one row and used with any hash
  function, every sequence of insertions, removals, lookups and purges returns what it returns on a
  bag (a removal 0, or -1 for an object that is not there, a lookup whether the object is there);
  afterwards \<open>hashtable_get_length\<close> is the size of the bag, \<open>HASHTABLE_TRAVERSE\<close> visits every object
  of it exactly once, and the positions of \<open>hashtable_get_data_by_pos\<close> count the same sequence.
\<close>

theorem hashtable_is_bag:
  assumes "0 < num_rows"
  shows "\<exists>t t' xs. hashtable_create num_rows = Some t
    \<and> bag_run (ht_ins f) (ht_del f) (ht_mem f) ht_tidy t cs = Some (fst (bag_spec {#} cs), t')
    \<and> mset xs = snd (bag_spec {#} cs) \<and> hashtable_get_length (Some t') = length xs
    \<and> hashtable_traverse t' = Some (map Some xs)
    \<and> (\<forall>pos. hashtable_get_data_by_pos (Some t') pos
              = Some (if pos < length xs then Some (xs ! pos) else None))"
proof -
  obtain t :: "'a t_hashtable" where t: "hashtable_create num_rows = Some t" "ht_holds t (replicate num_rows [])"
    using create_holds [OF assms] by blast
  have "mset (concat (replicate num_rows [])) = {#}" by (induction num_rows) auto
  then have "ht_bag f t {#}" unfolding ht_bag_def using t(2) by (intro exI [of _ "replicate num_rows []"]) simp
  from hb.bag_run_refines [OF this, of cs] obtain t' where
    t': "bag_run (ht_ins f) (ht_del f) (ht_mem f) ht_tidy t cs = Some (fst (bag_spec {#} cs), t')"
      "ht_bag f t' (snd (bag_spec {#} cs))" by blast
  then obtain rss where "ht_holds t' rss" "mset (concat rss) = snd (bag_spec {#} cs)"
    unfolding ht_bag_def by blast
  with t(1) t'(1) ht_holds_len traverse_holds get_by_pos_holds show ?thesis by blast
qed

theorem hashtable_is_bag_witness:
  "\<exists>t t' xs. hashtable_create 3 = Some t
    \<and> bag_run (ht_ins (\<lambda>d. 2 * d)) (ht_del (\<lambda>d. 2 * d)) (ht_mem (\<lambda>d. 2 * d)) ht_tidy t
        [BIns 4, BIns 7, BDel 4, BDel 4, BTidy, BMem 7] = Some ([0, 0, 0, -1, 0, 1], t')
    \<and> mset xs = {#7 :: nat#} \<and> hashtable_get_length (Some t') = length xs
    \<and> hashtable_traverse t' = Some (map Some xs)"
  using hashtable_is_bag [of 3 "\<lambda>d. 2 * d" "[BIns 4, BIns 7, BDel 4, BDel 4, BTidy, BMem 7]"]
  by (simp add: Let_def) blast

text \<open>
  \<open>HASHTABLE_TRAVERSE_MATCHING\<close> visits exactly the live objects of the row the hash selects, in the
  order of the chain, never an object of another row and never a removed one.
\<close>

lemma hashtable_traverse_matching_row:
  assumes "ht_holds t rss"
  shows "hashtable_traverse_matching t hash = Some (map Some (rss ! (hash mod h_num_rows t)))"
  by (rule traverse_matching_holds [OF assms])

definition demo_table :: "nat t_hashtable" where
  "demo_table = the (snd (hashtable_insert_data (hashtable_create 2) 9 3))"

lemma demo_table_holds: "ht_holds demo_table [[], [9]] \<and> h_num_rows demo_table = 2"
proof -
  obtain t :: "nat t_hashtable" where t: "hashtable_create 2 = Some t" "ht_holds t (replicate 2 [])" "h_num_rows t = 2"
    using create_holds [of 2] by auto
  have "replicate 2 [] = [[], [] :: nat list]" by (simp add: numeral_2_eq_2)
  with insert_holds [OF t(2), of 9 3] t show ?thesis by (auto simp: demo_table_def)
qed

theorem hashtable_traverse_matching_row_witness:
  "hashtable_traverse_matching demo_table 5 = Some [Some 9]"
  using hashtable_traverse_matching_row [of demo_table "[[], [9]]" 5] demo_table_holds by simp

text \<open>
  \<open>hashtable_purge\<close> unlinks and frees exactly the tombstones: it succeeds, the rows hold the same
  objects in the same order, and every entry still allocated is live, so there are \<open>len\<close> of them.
\<close>

lemma hashtable_purge_exact:
  assumes "ht_holds t rss"
  shows "\<exists>t'. hashtable_purge (Some t) = Some (0, Some t') \<and> ht_holds t' rss
    \<and> dom (h_cells t') = {a \<in> dom (h_cells t). data_at (h_cells t) a \<noteq> Nodata}
    \<and> (\<forall>a \<in> dom (h_cells t'). data_at (h_cells t') a \<noteq> Nodata)"
proof -
  obtain ass where r: "ht_rep t ass" "rss = map (items (h_cells t)) ass"
    using assms by (auto simp: ht_holds_def)
  from purge_rep [OF r(1)] obtain t' where t': "hashtable_purge (Some t) = Some (0, Some t')"
    "ht_rep t' (map (filter (\<lambda>a. data_at (h_cells t) a \<noteq> Nodata)) ass)"
    "map (items (h_cells t')) (map (filter (\<lambda>a. data_at (h_cells t) a \<noteq> Nodata)) ass) = rss"
    "\<forall>a \<in> dom (h_cells t'). data_at (h_cells t') a \<noteq> Nodata"
    unfolding r(2) by blast
  have "dom (h_cells t') = {a \<in> dom (h_cells t). data_at (h_cells t) a \<noteq> Nodata}"
    using ht_repD(9) [OF t'(2)] ht_repD(9) [OF r(1)] by (auto simp: filter_concat_rows)
  moreover have "ht_holds t' rss" unfolding ht_holds_def using t'(2,3) by metis
  ultimately show ?thesis using t'(1,4) by blast
qed

theorem hashtable_purge_exact_witness:
  "\<exists>t'. hashtable_purge (Some demo_table) = Some (0, Some t') \<and> ht_holds t' [[], [9]]"
  using hashtable_purge_exact [of demo_table "[[], [9]]"] demo_table_holds by blast

end
