(* ===== verification/Bnet_Hash.thy ===== *)
theory Bnet_Hash
  imports Bn_Type
begin

text \<open>
  \<^verbatim>\<open>common/bnethash.cpp\<close>: the password hashes of the protocol, Blizzard's variant of SHA-1 and SHA-1
  itself, and their printed form. A hash is its five words, the work array \<open>tmp\<close> its 80 words (what
  the caller's stack held is a parameter); words are 32 bits wide and wrap. \<open>sprintf\<close> and \<open>sscanf\<close>
  are the C library's, for the two formats used.

  The functions are compared with definitions written after the standard (FIPS 180-4): the schedule,
  the step functions and the padding.
\<close>

section \<open>Data and operations\<close>

type_synonym t_hash = "u32 list"

datatype t_hash_variant = do_blizzard_hash | do_sha1_hash

definition hash_init :: t_hash where
  "hash_init = [0x67452301, 0xefcdab89, 0x98badcfe, 0x10325476, 0xc3d2e1f0]"

definition expand_word :: "t_hash_variant \<Rightarrow> u32 list \<Rightarrow> nat \<Rightarrow> u32" where
  "expand_word v tmp i =
     (let x = tmp ! i XOR tmp ! (i + 8) XOR tmp ! (i + 2) XOR tmp ! (i + 13)
      in case v of do_blizzard_hash \<Rightarrow> ROTL32 1 x | do_sha1_hash \<Rightarrow> ROTL32 x 1)"

definition expand :: "t_hash_variant \<Rightarrow> u32 list \<Rightarrow> u32 list" where
  "expand v tmp = foldl (\<lambda>t i. t[i + 16 := expand_word v t i]) tmp [0..<64]"

text \<open>The locals \<open>a b c d e g\<close> of the four loops.\<close>

type_synonym regs = "u32 \<times> u32 \<times> u32 \<times> u32 \<times> u32 \<times> u32"

definition round1 :: "u32 list \<Rightarrow> regs \<Rightarrow> nat \<Rightarrow> regs" where
  "round1 tmp s i = (case s of (a, b, c, d, e, g) \<Rightarrow>
     let g' = tmp ! i + ROTL32 a 5 + e + ((b AND c) OR (NOT b AND d)) + 0x5a827999
     in (g', a, ROTL32 b 30, c, d, g'))"

definition round2 :: "u32 list \<Rightarrow> regs \<Rightarrow> nat \<Rightarrow> regs" where
  "round2 tmp s i = (case s of (a, b, c, d, e, g) \<Rightarrow>
     let g' = (d XOR c XOR b) + e + ROTL32 g 5 + tmp ! i + 0x6ed9eba1
     in (g', a, ROTL32 b 30, c, d, g'))"

definition round3 :: "u32 list \<Rightarrow> regs \<Rightarrow> nat \<Rightarrow> regs" where
  "round3 tmp s i = (case s of (a, b, c, d, e, g) \<Rightarrow>
     let g' = tmp ! i + ROTL32 g 5 + e + ((c AND b) OR (d AND c) OR (d AND b)) - 0x70e44324
     in (g', a, ROTL32 b 30, c, d, g'))"

definition round4 :: "u32 list \<Rightarrow> regs \<Rightarrow> nat \<Rightarrow> regs" where
  "round4 tmp s i = (case s of (a, b, c, d, e, g) \<Rightarrow>
     let g' = (d XOR c XOR b) + e + ROTL32 g 5 + tmp ! i - 0x359d3e2a
     in (g', a, ROTL32 b 30, c, d, g'))"

definition do_hash :: "t_hash \<Rightarrow> u32 list \<Rightarrow> t_hash_variant \<Rightarrow> t_hash \<times> u32 list" where
  "do_hash hash tmp0 v =
     (let tmp = expand v tmp0;
          s1 = foldl (round1 tmp) (hash ! 0, hash ! 1, hash ! 2, hash ! 3, hash ! 4, 0) [0..<20];
          s2 = foldl (round2 tmp) s1 [20..<40];
          s3 = foldl (round3 tmp) s2 [40..<60]
      in case foldl (round4 tmp) s3 [60..<80] of (a, b, c, d, e, g) \<Rightarrow>
           ([hash ! 0 + g, hash ! 1 + b, hash ! 2 + c, hash ! 3 + d, hash ! 4 + e], tmp))"

text \<open>The \<open>k\<close>-th of the four parts of a word of \<open>hash_set_16\<close>, at \<open>pos\<close>.\<close>

definition set_part :: "t_hash_variant \<Rightarrow> u8 list \<Rightarrow> nat \<Rightarrow> nat \<Rightarrow> nat \<Rightarrow> u32" where
  "set_part v src count pos k = (case v of
       do_blizzard_hash \<Rightarrow> if pos < count then push_bit (8 * k) (ucast (src ! pos)) else 0
     | do_sha1_hash \<Rightarrow> if pos < count then push_bit (24 - 8 * k) (ucast (src ! pos))
                     else if pos = count then [0x80000000, 0x800000, 0x8000, 0x80] ! k else 0)"

definition hash_set_16 :: "u32 list \<Rightarrow> u8 list \<Rightarrow> nat \<Rightarrow> t_hash_variant \<Rightarrow> u32 list" where
  "hash_set_16 dst src count v =
     map (\<lambda>i. set_part v src count (4 * i) 0 OR set_part v src count (4 * i + 1) 1
            OR set_part v src count (4 * i + 2) 2 OR set_part v src count (4 * i + 3) 3) [0..<16]
     @ drop 16 dst"

function bnet_loop :: "t_hash \<Rightarrow> u32 list \<Rightarrow> u8 list \<Rightarrow> nat \<Rightarrow> t_hash" where
  "bnet_loop hash tmp data sz =
     (if sz > 0 then
        let inc = (if sz > 64 then 64 else sz);
            (hash', tmp') = do_hash hash (hash_set_16 tmp data inc do_blizzard_hash) do_blizzard_hash
        in bnet_loop hash' tmp' (drop inc data) (sz - inc)
      else hash)"
  by pat_completeness auto
termination by (relation "measure (\<lambda>(hash, tmp, data, sz). sz)") auto

declare bnet_loop.simps [simp del]

text \<open>\<open>mem\<close> is the fresh stack array \<open>tmp\<close>; a hash pointer is \<open>None\<close> for NULL.\<close>

definition bnet_hash :: "u32 list \<Rightarrow> t_hash option \<Rightarrow> nat \<Rightarrow> u8 list option \<Rightarrow> int \<times> t_hash option" where
  "bnet_hash mem hashout sz datain = (case hashout of None \<Rightarrow> (-1, hashout) | Some h \<Rightarrow>
     if sz > 0 \<and> datain = None then (-1, hashout)
     else (0, Some (bnet_loop hash_init mem (case datain of None \<Rightarrow> [] | Some d \<Rightarrow> d) sz)))"

primrec length_loop :: "nat \<Rightarrow> u32 \<times> u32" where
  "length_loop 0 = (0, 0)"
| "length_loop (Suc n) = (case length_loop n of (high, low) \<Rightarrow>
     let low' = low + 8 in (if low' = 0 then high + 1 else high, low'))"

definition or_bytes :: "u32 \<Rightarrow> u32 \<Rightarrow> u32" where
  "or_bytes w x = w OR push_bit 24 (drop_bit 24 x AND 0xff) OR push_bit 16 (drop_bit 16 x AND 0xff)
     OR push_bit 8 (drop_bit 8 x AND 0xff) OR (x AND 0xff)"

definition hash_set_length :: "u32 list \<Rightarrow> nat \<Rightarrow> u32 list" where
  "hash_set_length dst sz = (case length_loop sz of (high, low) \<Rightarrow>
     dst[14 := or_bytes (dst ! 14) high, 15 := or_bytes (dst ! 15) low])"

function sha1_loop :: "t_hash \<Rightarrow> u32 list \<Rightarrow> u8 list \<Rightarrow> nat \<Rightarrow> nat \<Rightarrow> t_hash" where
  "sha1_loop hash tmp data sz orgSize =
     (if sz > 0 then
        let inc = (if sz \<ge> 64 then 64 else sz);
            (hash', tmp') =
              (if sz \<ge> 64 then do_hash hash (hash_set_16 tmp data inc do_sha1_hash) do_sha1_hash
               else if sz > 55 then
                 let (hash1, tmp1) = do_hash hash (hash_set_16 tmp data inc do_sha1_hash) do_sha1_hash;
                     tmp2 = hash_set_length (hash_set_16 tmp1 data 0 do_blizzard_hash) orgSize
                 in do_hash hash1 tmp2 do_sha1_hash
               else do_hash hash (hash_set_length (hash_set_16 tmp data inc do_sha1_hash) orgSize)
                      do_sha1_hash)
        in sha1_loop hash' tmp' (drop inc data) (sz - inc) orgSize
      else hash)"
  by pat_completeness auto
termination by (relation "measure (\<lambda>(hash, tmp, data, sz, orgSize). sz)") auto

declare sha1_loop.simps [simp del]

definition sha1_hash :: "u32 list \<Rightarrow> t_hash option \<Rightarrow> nat \<Rightarrow> u8 list option \<Rightarrow> int \<times> t_hash option" where
  "sha1_hash mem hashout sz datain = (case hashout of None \<Rightarrow> (-1, hashout) | Some h \<Rightarrow>
     if sz > 0 \<and> datain = None then (-1, hashout)
     else (0, Some (sha1_loop hash_init mem (case datain of None \<Rightarrow> [] | Some d \<Rightarrow> d) sz sz)))"

text \<open>\<open>bn_int_nset\<close> into a local, read back with \<open>bn_int_get\<close>: the bytes of the word reversed.\<close>

definition swap_word :: "u32 \<Rightarrow> u32" where
  "swap_word x = bn_int_get (snd (bn_int_nset (Some [0, 0, 0, 0]) x))"

definition little_endian_sha1_hash ::
  "u32 list \<Rightarrow> t_hash option \<Rightarrow> nat \<Rightarrow> u8 list option \<Rightarrow> int \<times> t_hash option" where
  "little_endian_sha1_hash mem hashout sz datain =
     (0, map_option (map swap_word) (snd (sha1_hash mem hashout sz datain)))"

definition hash_eq :: "t_hash option \<Rightarrow> t_hash option \<Rightarrow> int" where
  "hash_eq h1 h2 = (case h1 of None \<Rightarrow> -1 | Some a \<Rightarrow> (case h2 of None \<Rightarrow> -1 | Some b \<Rightarrow>
     if \<exists>i \<in> set [0..<5]. a ! i \<noteq> b ! i then 0 else 1))"

text \<open>\<open>sprintf\<close> with \<open>%08x\<close>.\<close>

definition hex_digit :: "nat \<Rightarrow> char" where
  "hex_digit n = ''0123456789abcdef'' ! n"

definition fmt_08x :: "u32 \<Rightarrow> cstring" where
  "fmt_08x w = map (\<lambda>i. hex_digit (unat w div 16 ^ (7 - i) mod 16)) [0..<8]"

definition hash_get_str :: "t_hash option \<Rightarrow> cstring option" where
  "hash_get_str hash = (case hash of None \<Rightarrow> None
     | Some h \<Rightarrow> Some (concat (map (\<lambda>i. fmt_08x (h ! i)) [0..<5])))"

definition little_endian_hash_get_str :: "t_hash \<Rightarrow> cstring option" where
  "little_endian_hash_get_str hash = hash_get_str (Some (map (\<lambda>i. swap_word (hash ! i)) [0..<5]))"

text \<open>
  \<open>sscanf\<close> with \<open>%8x\<close>: leading white space is skipped, then at most eight characters are taken: a
  sign, a \<open>0x\<close>, hexadecimal digits. \<open>None\<close> when there is no digit.
\<close>

definition hex_value :: "char \<Rightarrow> nat option" where
  "hex_value c = (let n = (of_char c :: nat) in
     if 48 \<le> n \<and> n \<le> 57 then Some (n - 48)
     else if 97 \<le> n \<and> n \<le> 102 then Some (n - 87)
     else if 65 \<le> n \<and> n \<le> 70 then Some (n - 55)
     else None)"

definition c_isspace :: "char \<Rightarrow> bool" where
  "c_isspace c \<longleftrightarrow> (of_char c :: nat) \<in> {9, 10, 11, 12, 13, 32}"

definition scan_8x :: "cstring \<Rightarrow> u32 option" where
  "scan_8x s =
     (let t = take 8 (dropWhile c_isspace s);
          neg = (t \<noteq> [] \<and> hd t = CHR ''-'');
          t1 = (if t \<noteq> [] \<and> (hd t = CHR ''-'' \<or> hd t = CHR ''+'') then tl t else t);
          t2 = (if take 2 t1 = ''0x'' \<or> take 2 t1 = ''0X'' then drop 2 t1 else t1);
          ds = takeWhile (\<lambda>c. hex_value c \<noteq> None) t2;
          n = foldl (\<lambda>a c. a * 16 + of_nat (the (hex_value c))) (0 :: u32) ds
      in if ds = [] then None else Some (if neg then - n else n))"

fun set_str_loop :: "t_hash \<Rightarrow> cstring \<Rightarrow> nat list \<Rightarrow> int \<times> t_hash" where
  "set_str_loop h str [] = (0, h)"
| "set_str_loop h str (i # is) = (case scan_8x (drop (i * 8) str) of
      None \<Rightarrow> (-1, h) | Some w \<Rightarrow> set_str_loop (h[i := w]) str is)"

definition hash_set_str :: "t_hash option \<Rightarrow> cstring option \<Rightarrow> int \<times> t_hash option" where
  "hash_set_str hash str = (case hash of None \<Rightarrow> (-1, hash) | Some h \<Rightarrow>
     (case str of None \<Rightarrow> (-1, hash) | Some s \<Rightarrow>
        if length s \<noteq> 5 * 8 then (-1, hash)
        else (let (r, h') = set_str_loop h s [0..<5] in (r, Some h'))))"

section \<open>The standard\<close>

definition rotl :: "nat \<Rightarrow> u32 \<Rightarrow> u32" where
  "rotl n x = push_bit n x OR drop_bit (32 - n) x"

text \<open>The message schedule, for a rotation \<open>r\<close> (in SHA-1 \<open>rotl 1\<close>).\<close>

definition sched_step :: "(u32 \<Rightarrow> u32) \<Rightarrow> u32 list \<Rightarrow> nat \<Rightarrow> u32 list" where
  "sched_step r W t = W @ [r (W ! (t - 3) XOR W ! (t - 8) XOR W ! (t - 14) XOR W ! (t - 16))]"

definition schedule :: "(u32 \<Rightarrow> u32) \<Rightarrow> u32 list \<Rightarrow> u32 list" where
  "schedule r M = foldl (sched_step r) M [16..<80]"

definition sha_f :: "nat \<Rightarrow> u32 \<Rightarrow> u32 \<Rightarrow> u32 \<Rightarrow> u32" where
  "sha_f t x y z = (if t < 20 then (x AND y) XOR (NOT x AND z)
     else if t < 40 then x XOR y XOR z
     else if t < 60 then (x AND y) XOR (x AND z) XOR (y AND z)
     else x XOR y XOR z)"

definition sha_K :: "nat \<Rightarrow> u32" where
  "sha_K t = (if t < 20 then 0x5a827999 else if t < 40 then 0x6ed9eba1
     else if t < 60 then 0x8f1bbcdc else 0xca62c1d6)"

type_synonym sha_regs = "u32 \<times> u32 \<times> u32 \<times> u32 \<times> u32"

definition sha_step :: "u32 list \<Rightarrow> sha_regs \<Rightarrow> nat \<Rightarrow> sha_regs" where
  "sha_step W s t = (case s of (a, b, c, d, e) \<Rightarrow>
     (rotl 5 a + sha_f t b c d + e + sha_K t + W ! t, a, rotl 30 b, c, d))"

definition compress :: "(u32 \<Rightarrow> u32) \<Rightarrow> t_hash \<Rightarrow> u32 list \<Rightarrow> t_hash" where
  "compress r H M =
     (case foldl (sha_step (schedule r M)) (H ! 0, H ! 1, H ! 2, H ! 3, H ! 4) [0..<80] of
        (a, b, c, d, e) \<Rightarrow> [H ! 0 + a, H ! 1 + b, H ! 2 + c, H ! 3 + d, H ! 4 + e])"

text \<open>Words from bytes, in both byte orders; blocks of 64 bytes.\<close>

definition be_word :: "u8 list \<Rightarrow> nat \<Rightarrow> u32" where
  "be_word bs i = push_bit 24 (ucast (bs ! (4 * i))) OR push_bit 16 (ucast (bs ! (4 * i + 1)))
     OR push_bit 8 (ucast (bs ! (4 * i + 2))) OR ucast (bs ! (4 * i + 3))"

definition le_word :: "u8 list \<Rightarrow> nat \<Rightarrow> u32" where
  "le_word bs i = ucast (bs ! (4 * i)) OR push_bit 8 (ucast (bs ! (4 * i + 1)))
     OR push_bit 16 (ucast (bs ! (4 * i + 2))) OR push_bit 24 (ucast (bs ! (4 * i + 3)))"

function blocks :: "u8 list \<Rightarrow> u8 list list" where
  "blocks bs = (if length bs < 64 then [] else take 64 bs # blocks (drop 64 bs))"
  by pat_completeness auto
termination by (relation "measure length") auto

declare blocks.simps [simp del]

definition be_bytes :: "u32 \<Rightarrow> u8 list" where
  "be_bytes x = [ucast (drop_bit 24 x), ucast (drop_bit 16 x), ucast (drop_bit 8 x), ucast x]"

text \<open>The padding: a one bit, zeros up to 56 modulo 64, the length in bits in 64 bits.\<close>

definition sha_padding :: "nat \<Rightarrow> u8 list" where
  "sha_padding n = 0x80 # replicate ((119 - n mod 64) mod 64) 0
     @ be_bytes (of_nat (8 * n div 2 ^ 32)) @ be_bytes (of_nat (8 * n))"

definition sha_process :: "u8 list \<Rightarrow> t_hash" where
  "sha_process bs = foldl (\<lambda>H b. compress (rotl 1) H (map (be_word b) [0..<16])) hash_init (blocks bs)"

definition sha1 :: "u8 list \<Rightarrow> t_hash" where
  "sha1 msg = sha_process (msg @ sha_padding (length msg))"

section \<open>The compression function\<close>

lemma ROTL32_const:
  "ROTL32 x 1 = rotl 1 x" "ROTL32 x 5 = rotl 5 x" "ROTL32 x 30 = rotl 30 x"
  by (simp_all add: ROTL32_def rotl_def)

definition rot_of :: "t_hash_variant \<Rightarrow> u32 \<Rightarrow> u32" where
  "rot_of v x = (case v of do_blizzard_hash \<Rightarrow> ROTL32 1 x | do_sha1_hash \<Rightarrow> rotl 1 x)"

lemma xor_swap: "a XOR b XOR c XOR (d :: u32) = d XOR b XOR c XOR a"
  by (rule bit_word_eqI) (auto simp: bit_simps)

lemma take_Suc_update: "k < length xs \<Longrightarrow> take (Suc k) (xs[k := x]) = take k xs @ [x]"
  by (simp add: take_Suc_conv_app_nth)

lemma expand_word_eq:
  assumes "T ! n = S ! n" "T ! (n + 8) = S ! (n + 8)" "T ! (n + 2) = S ! (n + 2)" "T ! (n + 13) = S ! (n + 13)"
  shows "expand_word v T n = rot_of v (S ! (n + 13) XOR S ! (n + 8) XOR S ! (n + 2) XOR S ! n)"
  unfolding expand_word_def rot_of_def Let_def ROTL32_const assms
  by (simp only: xor_swap [of "S ! n" "S ! (n + 8)" "S ! (n + 2)" "S ! (n + 13)"])

lemma expand_steps:
  assumes "length tmp = 80" "n \<le> 64"
  shows "length (foldl (\<lambda>t i. t[i + 16 := expand_word v t i]) tmp [0..<n]) = 80
    \<and> length (foldl (sched_step (rot_of v)) (take 16 tmp) [16..<16 + n]) = 16 + n
    \<and> take (16 + n) (foldl (\<lambda>t i. t[i + 16 := expand_word v t i]) tmp [0..<n])
      = foldl (sched_step (rot_of v)) (take 16 tmp) [16..<16 + n]"
  using assms(2)
proof (induction n)
  case 0
  then show ?case using assms(1) by simp
next
  case (Suc n)
  let ?T = "foldl (\<lambda>t i. t[i + 16 := expand_word v t i]) tmp [0..<n]"
  let ?S = "foldl (sched_step (rot_of v)) (take 16 tmp) [16..<16 + n]"
  from Suc have ih: "length ?T = 80" "length ?S = 16 + n" "take (16 + n) ?T = ?S" by simp_all
  have nth: "?T ! k = ?S ! k" if "k < 16 + n" for k using that nth_take [of k "16 + n" ?T] unfolding ih(3) by simp
  have ew: "expand_word v ?T n = rot_of v (?S ! (16 + n - 3) XOR ?S ! (16 + n - 8) XOR ?S ! (16 + n - 14) XOR ?S ! (16 + n - 16))"
  proof -
    have "16 + n - 3 = n + 13" "16 + n - 8 = n + 8" "16 + n - 14 = n + 2" "16 + n - 16 = n" by simp_all
    moreover have "expand_word v ?T n
        = rot_of v (?S ! (n + 13) XOR ?S ! (n + 8) XOR ?S ! (n + 2) XOR ?S ! n)"
      by (rule expand_word_eq; rule nth) simp_all
    ultimately show ?thesis by (simp only:)
  qed
  have up: "[16..<16 + Suc n] = [16..<16 + n] @ [16 + n]" "[0..<Suc n] = [0..<n] @ [n]"
    using upt_Suc_append [of 16 "16 + n"] by simp_all
  have S: "foldl (sched_step (rot_of v)) (take 16 tmp) [16..<16 + Suc n] = ?S @ [expand_word v ?T n]"
    by (simp only: up foldl_append foldl_Cons foldl_Nil sched_step_def ew)
  have T: "foldl (\<lambda>t i. t[i + 16 := expand_word v t i]) tmp [0..<Suc n] = ?T[n + 16 := expand_word v ?T n]"
    by (simp only: up foldl_append foldl_Cons foldl_Nil)
  have "take (Suc (16 + n)) (?T[16 + n := expand_word v ?T n]) = ?S @ [expand_word v ?T n]"
    using take_Suc_update [of "16 + n" ?T "expand_word v ?T n"] ih(1,3) Suc.prems by simp
  then show ?case unfolding S T using ih(1,2) by (simp add: add.commute)
qed

lemma expand_schedule:
  assumes "length tmp = 80"
  shows "expand v tmp = schedule (rot_of v) (take 16 tmp) \<and> length (expand v tmp) = 80"
proof -
  have n: "16 + 64 = (80::nat)" by simp
  from expand_steps [OF assms, of 64 v] have
    "length (expand v tmp) = 80" "take 80 (expand v tmp) = schedule (rot_of v) (take 16 tmp)"
    unfolding n expand_def [symmetric] schedule_def [symmetric] by simp_all
  then show ?thesis by (metis order_refl take_all)
qed

definition lift_regs :: "sha_regs \<Rightarrow> regs" where
  "lift_regs s = (case s of (a, b, c, d, e) \<Rightarrow> (a, b, c, d, e, a))"

lemma foldl_lift:
  assumes "\<And>s i. i \<in> set is \<Longrightarrow> R (lift_regs s) i = lift_regs (sha_step W s i)"
  shows "foldl R (lift_regs s) is = lift_regs (foldl (sha_step W) s is)"
  using assms by (induction "is" arbitrary: s) simp_all

lemma ch_eq: "(b AND c) OR (NOT b AND d) = (b AND c) XOR (NOT b AND (d :: u32))"
  by (rule bit_word_eqI) (auto simp: bit_simps)

lemma maj_eq: "(c AND b) OR (d AND c) OR (d AND b) = (b AND c) XOR (b AND d) XOR (c AND (d :: u32))"
  by (rule bit_word_eqI) (auto simp: bit_simps)

lemma minus_K:
  "(x :: u32) - 0x70e44324 = x + 0x8f1bbcdc" "x - 0x359d3e2a = x + 0xca62c1d6"
  by (simp_all add: diff_eq_eq add.assoc)

lemma round1_step:
  "i < 20 \<Longrightarrow> round1 W (a, b, c, d, e, g) i = lift_regs (sha_step W (a, b, c, d, e) i)"
  by (simp add: round1_def lift_regs_def sha_step_def sha_f_def sha_K_def ROTL32_const ch_eq Let_def algebra_simps)

lemma round2_step:
  "20 \<le> i \<Longrightarrow> i < 40 \<Longrightarrow> round2 W (lift_regs s) i = lift_regs (sha_step W s i)"
  by (cases s) (simp add: round2_def lift_regs_def sha_step_def sha_f_def sha_K_def ROTL32_const Let_def minus_K algebra_simps xor.assoc xor.commute xor.left_commute)

lemma round3_step:
  "40 \<le> i \<Longrightarrow> i < 60 \<Longrightarrow> round3 W (lift_regs s) i = lift_regs (sha_step W s i)"
  by (cases s) (simp add: round3_def lift_regs_def sha_step_def sha_f_def sha_K_def ROTL32_const maj_eq Let_def minus_K algebra_simps)

lemma round4_step:
  "60 \<le> i \<Longrightarrow> round4 W (lift_regs s) i = lift_regs (sha_step W s i)"
  by (cases s) (simp add: round4_def lift_regs_def sha_step_def sha_f_def sha_K_def ROTL32_const Let_def minus_K algebra_simps xor.assoc xor.commute xor.left_commute)

lemma do_hash_compress:
  assumes "length tmp = 80"
  shows "do_hash H tmp v = (compress (rot_of v) H (take 16 tmp), expand v tmp)"
proof -
  let ?W = "expand v tmp" and ?s = "(H ! 0, H ! 1, H ! 2, H ! 3, H ! 4)"
  have r1: "foldl (round1 ?W) (H ! 0, H ! 1, H ! 2, H ! 3, H ! 4, 0) [0..<20]
      = lift_regs (foldl (sha_step ?W) ?s [0..<20])"
  proof -
    have "[0..<20] = 0 # [1..<20::nat]" by (simp add: upt_rec)
    moreover have "foldl (round1 ?W) (lift_regs s) [1..<20] = lift_regs (foldl (sha_step ?W) s [1..<20])" for s
      by (rule foldl_lift) (auto simp: lift_regs_def round1_step split: prod.splits)
    ultimately show ?thesis by (simp add: round1_step)
  qed
  have r2: "foldl (round2 ?W) (lift_regs s) [20..<40] = lift_regs (foldl (sha_step ?W) s [20..<40])" for s
    by (rule foldl_lift) (auto intro: round2_step)
  have r3: "foldl (round3 ?W) (lift_regs s) [40..<60] = lift_regs (foldl (sha_step ?W) s [40..<60])" for s
    by (rule foldl_lift) (auto intro: round3_step)
  have r4: "foldl (round4 ?W) (lift_regs s) [60..<80] = lift_regs (foldl (sha_step ?W) s [60..<80])" for s
    by (rule foldl_lift) (auto intro: round4_step)
  have up: "[0..<80] = [0..<20] @ [20..<40] @ [40..<60] @ [60..<80::nat]"
    using upt_add_eq_append [of 0 20 60] upt_add_eq_append [of 20 40 40] upt_add_eq_append [of 40 60 20] by simp
  have sc: "schedule (rot_of v) (take 16 tmp) = ?W" using expand_schedule [OF assms] by simp
  show ?thesis
    unfolding do_hash_def Let_def r1 r2 r3 r4 compress_def sc up foldl_append
    by (simp add: lift_regs_def split: prod.splits)
qed

section \<open>Filling a block\<close>

lemma length_hash_set_16 [simp]: "length (hash_set_16 dst src count v) = 16 + (length dst - 16)"
  by (simp add: hash_set_16_def)

lemma take_hash_set_16:
  "take 16 (hash_set_16 dst src count v) = map (\<lambda>i. set_part v src count (4 * i) 0 OR set_part v src count (4 * i + 1) 1
     OR set_part v src count (4 * i + 2) 2 OR set_part v src count (4 * i + 3) 3) [0..<16]"
  by (simp add: hash_set_16_def del: upt_rec_numeral)

text \<open>The bytes of the block: the data, the one bit after it, zeros.\<close>

definition sha_block :: "u8 list \<Rightarrow> nat \<Rightarrow> u8 list" where
  "sha_block src count = take count src @ (if count < 64 then 0x80 # replicate (63 - count) 0 else [])"

definition zero_block :: "u8 list \<Rightarrow> nat \<Rightarrow> u8 list" where
  "zero_block src count = take count src @ replicate (64 - count) 0"

lemma sha_block_nth:
  assumes "count \<le> length src" "count \<le> 64" "pos < 64"
  shows "sha_block src count ! pos = (if pos < count then src ! pos else if pos = count then 0x80 else 0)"
  using assms by (auto simp: sha_block_def nth_append nth_Cons split: nat.splits)

lemma zero_block_nth:
  assumes "count \<le> length src" "count \<le> 64" "pos < 64"
  shows "zero_block src count ! pos = (if pos < count then src ! pos else 0)"
  using assms by (auto simp: zero_block_def nth_append)

lemma set_part_sha:
  assumes "count \<le> length src" "count \<le> 64" "pos < 64" "k < 4"
  shows "set_part do_sha1_hash src count pos k = push_bit (24 - 8 * k) (ucast (sha_block src count ! pos))"
proof -
  from assms(4) consider "k = 0" | "k = 1" | "k = 2" | "k = 3" by linarith
  then show ?thesis
    using sha_block_nth [OF assms(1-3)] by cases (simp_all add: set_part_def)
qed

lemma set_part_blizzard:
  assumes "count \<le> length src" "count \<le> 64" "pos < 64"
  shows "set_part do_blizzard_hash src count pos k = push_bit (8 * k) (ucast (zero_block src count ! pos))"
  using zero_block_nth [OF assms] by (simp add: set_part_def)

lemma take_set_sha:
  assumes "count \<le> length src" "count \<le> 64"
  shows "take 16 (hash_set_16 dst src count do_sha1_hash) = map (be_word (sha_block src count)) [0..<16]"
  unfolding take_hash_set_16 using assms
  by (intro map_cong refl) (simp add: set_part_sha be_word_def)

lemma take_set_blizzard:
  assumes "count \<le> length src" "count \<le> 64"
  shows "take 16 (hash_set_16 dst src count do_blizzard_hash) = map (le_word (zero_block src count)) [0..<16]"
  unfolding take_hash_set_16 using assms
  by (intro map_cong refl) (simp add: set_part_blizzard le_word_def)

lemma zero_words:
  "take 16 (hash_set_16 dst src 0 do_blizzard_hash) = replicate 16 0"
  unfolding take_hash_set_16 by (rule nth_equalityI) (simp_all add: set_part_def)

section \<open>The length\<close>

lemma div_add_small: "a mod m + b < m \<Longrightarrow> (a + b) div m = a div (m :: nat)"
  by (subst div_add1_eq) simp

lemma length_loop_value:
  "n < 2 ^ 32 \<Longrightarrow> length_loop n = (of_nat (8 * n div 2 ^ 32), of_nat (8 * n))"
proof (induction n)
  case (Suc n)
  have "(of_nat (8 * n) :: u32) + 8 = of_nat (8 * Suc n)" by simp
  moreover have "(of_nat (8 * Suc n) :: u32) = 0 \<longleftrightarrow> 2 ^ 32 dvd 8 * Suc n"
    by (subst word_of_nat_eq_0_iff) simp
  moreover have "8 * Suc n div 2 ^ 32 = (if 2 ^ 32 dvd 8 * Suc n then 8 * n div 2 ^ 32 + 1 else 8 * n div 2 ^ 32)"
  proof -
    have d: "8 * Suc n = 8 * n + 8" by simp
    show ?thesis
    proof (cases "(2::nat) ^ 32 dvd 8 * Suc n")
      case True
      then obtain k where k: "8 * Suc n = 2 ^ 32 * k" by blast
      then have "0 < k" by (cases k) simp_all
      then have "8 * n = 2 ^ 32 * (k - 1) + (2 ^ 32 - 8)" using k by (cases k) simp_all
      then have "8 * n div 2 ^ 32 = k - 1" by simp
      with True k \<open>0 < k\<close> show ?thesis by simp
    next
      case False
      have "8 * n mod 2 ^ 32 \<noteq> 2 ^ 32 - 8"
      proof
        assume a: "8 * n mod 2 ^ 32 = 2 ^ 32 - 8"
        obtain q where "8 * n = 2 ^ 32 * q + (2 ^ 32 - 8)" using a by (metis mult_div_mod_eq)
        then have "8 * Suc n = 2 ^ 32 * (q + 1)" by simp
        with False show False by (metis dvd_triv_left)
      qed
      moreover have "8 * n mod 2 ^ 32 = 8 * (n mod 2 ^ 29)"
        using mult_mod_right [of 8 n "2 ^ 29"] by simp
      ultimately have "8 * n mod 2 ^ 32 + 8 < 2 ^ 32" using mod_less_divisor [of "2 ^ 29" n] by simp
      then have "(8 * n + 8) div 2 ^ 32 = 8 * n div 2 ^ 32" by (rule div_add_small)
      with False d show ?thesis by simp
    qed
  qed
  ultimately show ?case using Suc by (simp add: Let_def add.commute)
qed simp

lemma or_bytes_eq: "or_bytes w x = w OR x"
proof -
  have "or_bytes 0 x = x"
    unfolding or_bytes_def mask_8 [symmetric]
  proof (rule bit_word_eqI)
    fix n assume "n < LENGTH(32)"
    then consider "n < 8" | "8 \<le> n \<and> n < 16" | "16 \<le> n \<and> n < 24" | "24 \<le> n \<and> n < 32" by fastforce
    then show "bit (0 OR push_bit 24 (drop_bit 24 x AND mask 8) OR push_bit 16 (drop_bit 16 x AND mask 8)
        OR push_bit 8 (drop_bit 8 x AND mask 8) OR x AND mask 8) n = bit x n"
      by cases (auto simp: bit_simps)
  qed
  moreover have "or_bytes w x = w OR or_bytes 0 x" by (simp add: or_bytes_def or.assoc)
  ultimately show ?thesis by simp
qed

lemma be_word_bytes: "be_word (be_bytes x) 0 = x"
proof (rule bit_word_eqI)
  fix n assume "n < LENGTH(32)"
  then consider "n < 8" | "8 \<le> n \<and> n < 16" | "16 \<le> n \<and> n < 24" | "24 \<le> n \<and> n < 32" by fastforce
  then show "bit (be_word (be_bytes x) 0) n = bit x n"
    by cases (auto simp: be_word_def be_bytes_def bit_simps)
qed


lemma be_word_cong:
  "(\<And>k. 4 * i \<le> k \<Longrightarrow> k < 4 * i + 4 \<Longrightarrow> xs ! k = ys ! k) \<Longrightarrow> be_word xs i = be_word ys i"
  by (simp add: be_word_def)

lemma be_word_zero: "(\<And>k. 4 * i \<le> k \<Longrightarrow> k < 4 * i + 4 \<Longrightarrow> xs ! k = 0) \<Longrightarrow> be_word xs i = 0"
  by (simp add: be_word_def)

text \<open>A block whose last eight bytes are zero, with the length set, is the block with the length in them.\<close>

definition len_bytes :: "nat \<Rightarrow> u8 list" where
  "len_bytes n = be_bytes (of_nat (8 * n div 2 ^ 32)) @ be_bytes (of_nat (8 * n))"

lemma set_length_words:
  assumes "length bs = 56" "length tmp = 80" "n < 2 ^ 32"
    "take 16 tmp = map (be_word (bs @ replicate 8 0)) [0..<16]"
  shows "take 16 (hash_set_length tmp n) = map (be_word (bs @ len_bytes n)) [0..<16]
    \<and> length (hash_set_length tmp n) = 80"
proof -
  have nth: "tmp ! i = be_word (bs @ replicate 8 0) i" if "i < 16" for i
    using arg_cong [OF assms(4), of "\<lambda>l. l ! i"] that assms(2) by (simp del: upt_rec_numeral)
  have z: "tmp ! 14 = 0" "tmp ! 15 = 0"
    using assms(1) nth [of 14] nth [of 15] by (simp_all add: be_word_def nth_append)
  have w: "be_word (bs @ len_bytes n) 14 = of_nat (8 * n div 2 ^ 32)"
    "be_word (bs @ len_bytes n) 15 = of_nat (8 * n)"
    using be_word_bytes [of "of_nat (8 * n div 2 ^ 32)"] be_word_bytes [of "of_nat (8 * n)"] assms(1)
    unfolding be_word_def len_bytes_def by (simp_all add: nth_append be_bytes_def)
  have "take 16 (hash_set_length tmp n) ! i = be_word (bs @ len_bytes n) i" if i16: "i < 16" for i
  proof -
    consider "i < 14" | "i = 14" | "i = 15" using i16 by linarith
    then show ?thesis
    proof cases
      case 1
      then have "be_word (bs @ replicate 8 0) i = be_word (bs @ len_bytes n) i"
        using assms(1) by (intro be_word_cong) (simp add: nth_append)
      then show ?thesis using 1 nth [of i] by (simp add: hash_set_length_def split: prod.splits)
    next
      case 2
      then show ?thesis using z w assms(2,3) by (simp add: hash_set_length_def length_loop_value or_bytes_eq)
    next
      case 3
      then show ?thesis using z w assms(2,3) by (simp add: hash_set_length_def length_loop_value or_bytes_eq)
    qed
  qed
  moreover have "length (hash_set_length tmp n) = 80"
    using assms(2) by (simp add: hash_set_length_def split: prod.splits)
  ultimately show ?thesis by (intro conjI nth_equalityI) (simp_all del: upt_rec_numeral)
qed

section \<open>The two loops\<close>

definition sha_comp :: "t_hash \<Rightarrow> u8 list \<Rightarrow> t_hash" where
  "sha_comp H b = compress (rotl 1) H (map (be_word b) [0..<16])"

definition bnet_comp :: "t_hash \<Rightarrow> u8 list \<Rightarrow> t_hash" where
  "bnet_comp H b = compress (ROTL32 1) H (map (le_word b) [0..<16])"

lemma rot_of_simps: "rot_of do_sha1_hash = rotl 1" "rot_of do_blizzard_hash = ROTL32 1"
  by (simp_all add: rot_of_def fun_eq_iff)

lemma do_hash_sha:
  assumes "length tmp = 80" "take 16 tmp = map (be_word b) [0..<16]"
  shows "\<exists>tmp'. do_hash H tmp do_sha1_hash = (sha_comp H b, tmp') \<and> length tmp' = 80"
  by (simp add: do_hash_compress [OF assms(1)] expand_schedule [OF assms(1), THEN conjunct2] assms(2)
      sha_comp_def rot_of_simps del: upt_rec_numeral)

lemma do_hash_bnet:
  assumes "length tmp = 80" "take 16 tmp = map (le_word b) [0..<16]"
  shows "\<exists>tmp'. do_hash H tmp do_blizzard_hash = (bnet_comp H b, tmp') \<and> length tmp' = 80"
  by (simp add: do_hash_compress [OF assms(1)] expand_schedule [OF assms(1), THEN conjunct2] assms(2)
      bnet_comp_def rot_of_simps del: upt_rec_numeral)

lemma blocks_one: "length b = 64 \<Longrightarrow> blocks (b @ bs) = b # blocks bs"
  by (subst blocks.simps) simp

lemma blocks_short: "length bs < 64 \<Longrightarrow> blocks bs = []"
  by (subst blocks.simps) simp

lemma sha_pad_mod: "sha_padding (64 + n) = sha_padding n \<longleftrightarrow> len_bytes (64 + n) = len_bytes n"
  by (simp add: sha_padding_def len_bytes_def)

text \<open>The loop on the rest \<open>data\<close> of a message of \<open>n\<close> bytes.\<close>

lemma sha1_loop_rest:
  assumes "length tmp = 80" "n < 2 ^ 32" "length data mod 64 = n mod 64"
  shows "sha1_loop H tmp data (length data) n =
    foldl sha_comp H (blocks (if n mod 64 = 0 then data else data @ sha_padding n))"
  using assms(1,3)
proof (induction "length data" arbitrary: data H tmp rule: less_induct)
  case less
  let ?p = "sha_padding n"
  have p: "?p = 0x80 # replicate ((119 - n mod 64) mod 64) 0 @ len_bytes n"
    by (simp add: sha_padding_def len_bytes_def)
  have ll: "length (len_bytes n) = 8" by (simp add: len_bytes_def be_bytes_def)
  consider "data = []" | "64 \<le> length data" | "55 < length data" "length data < 64"
    | "data \<noteq> []" "length data \<le> 55" by fastforce
  then show ?case
  proof cases
    case 1
    then have "n mod 64 = 0" using less.prems(2) by simp
    with 1 show ?thesis by (subst sha1_loop.simps) (simp add: blocks_short)
  next
    case 2
    let ?t = "hash_set_16 tmp data 64 do_sha1_hash"
    have "sha_block data 64 = take 64 data" by (simp add: sha_block_def)
    then have "take 16 ?t = map (be_word (take 64 data)) [0..<16]" using take_set_sha [of 64 data tmp] 2 by simp
    from do_hash_sha [OF _ this, of H] less.prems(1) obtain tmp' where
      t': "do_hash H ?t do_sha1_hash = (sha_comp H (take 64 data), tmp')" "length tmp' = 80" by auto
    have "sha1_loop H tmp data (length data) n
        = sha1_loop (sha_comp H (take 64 data)) tmp' (drop 64 data) (length (drop 64 data)) n"
    proof -
      have "data \<noteq> []" using 2 by auto
      then show ?thesis using 2 t'(1) by (subst sha1_loop.simps) simp
    qed
    also have "\<dots> = foldl sha_comp (sha_comp H (take 64 data))
        (blocks (if n mod 64 = 0 then drop 64 data else drop 64 data @ ?p))"
      using less.hyps [of "drop 64 data" tmp'] 2 t'(2) less.prems(2) by (simp add: le_mod_geq)
    also have "\<dots> = foldl sha_comp H (blocks (if n mod 64 = 0 then data else data @ ?p))"
      using blocks_one [of "take 64 data" "drop 64 data"] blocks_one [of "take 64 data" "drop 64 data @ ?p"] 2
      by (simp flip: append_assoc)
    finally show ?thesis .
  next
    case 3
    have ne: "data \<noteq> []" using 3 by auto
    let ?l = "length data"
    let ?t = "hash_set_16 tmp data ?l do_sha1_hash" and ?b = "sha_block data ?l"
    have m: "n mod 64 = ?l" using less.prems(2) 3(2) by simp
    from do_hash_sha [OF _ take_set_sha [of ?l data tmp], of H] 3 less.prems(1) obtain tmp1 where
      t1: "do_hash H ?t do_sha1_hash = (sha_comp H ?b, tmp1)" "length tmp1 = 80" by auto
    let ?z = "hash_set_16 tmp1 data 0 do_blizzard_hash" and ?c = "replicate 56 0 @ len_bytes n"
    have "take 16 ?z = map (be_word (replicate 56 0 @ replicate 8 0)) [0..<16]"
      using be_word_zero [of _ "replicate 64 0"]
      by (simp only: zero_words replicate_add [symmetric]) (rule nth_equalityI, simp_all)
    from set_length_words [OF _ _ assms(2) this] t1(2) have
      "take 16 (hash_set_length ?z n) = map (be_word ?c) [0..<16]" "length (hash_set_length ?z n) = 80" by simp_all
    from do_hash_sha [OF this(2,1), of "sha_comp H ?b"] obtain tmp2 where
      t2: "do_hash (sha_comp H ?b) (hash_set_length ?z n) do_sha1_hash = (sha_comp (sha_comp H ?b) ?c, tmp2)"
      by auto
    have "data @ ?p = ?b @ ?c"
    proof -
      have "replicate (119 - ?l) (0::u8) = replicate (63 - ?l) 0 @ replicate 56 0"
        using 3 by (simp flip: replicate_add)
      moreover have "(119 - ?l) mod 64 = 119 - ?l" using 3 by simp
      ultimately show ?thesis using 3 unfolding p m by (simp add: sha_block_def)
    qed
    moreover have "length ?b = 64" "length ?c = 64" using 3 ll by (simp_all add: sha_block_def)
    ultimately have "blocks (data @ ?p) = [?b, ?c]"
      using blocks_one [of ?b ?c] blocks_one [of ?c "[]"] blocks_short [of "[]"] by simp
    then show ?thesis
      using ne 3 t1(1) t2 m by (subst sha1_loop.simps) (simp add: sha1_loop.simps [of _ _ _ 0])
  next
    case 4
    let ?l = "length data"
    let ?t = "hash_set_16 tmp data ?l do_sha1_hash"
    let ?b = "data @ 0x80 # replicate (55 - ?l) 0"
    have m: "n mod 64 = ?l" using less.prems(2) 4(2) by simp
    have "sha_block data ?l = ?b @ replicate 8 0"
    proof -
      have "63 - ?l = (55 - ?l) + 8" using 4 by simp
      then have "replicate (63 - ?l) (0::u8) = replicate (55 - ?l) 0 @ replicate 8 0"
        by (simp only: replicate_add)
      then show ?thesis using 4 by (simp add: sha_block_def)
    qed
    then have "take 16 ?t = map (be_word (?b @ replicate 8 0)) [0..<16]"
      using take_set_sha [of ?l data tmp] 4 by simp
    from set_length_words [OF _ _ assms(2) this] less.prems(1) 4 have
      "take 16 (hash_set_length ?t n) = map (be_word (?b @ len_bytes n)) [0..<16]"
      "length (hash_set_length ?t n) = 80" by simp_all
    from do_hash_sha [OF this(2,1), of H] obtain tmp1 where
      t1: "do_hash H (hash_set_length ?t n) do_sha1_hash = (sha_comp H (?b @ len_bytes n), tmp1)" by auto
    have "(119 - ?l) mod 64 = 55 - ?l" using 4 by (simp add: le_mod_geq)
    then have "data @ ?p = ?b @ len_bytes n" unfolding p m by simp
    moreover have "length (?b @ len_bytes n) = 64" using 4 ll by simp
    ultimately have "blocks (data @ ?p) = [?b @ len_bytes n]"
      using blocks_one [of "?b @ len_bytes n" "[]"] blocks_short [of "[]"] by simp
    then show ?thesis
      using 4 t1 m by (subst sha1_loop.simps) (simp add: sha1_loop.simps [of _ _ _ 0])
  qed
qed


text \<open>Blizzard's variant: little-endian words of the data and zeros, no length.\<close>

definition zero_padding :: "nat \<Rightarrow> u8 list" where
  "zero_padding n = replicate ((64 - n mod 64) mod 64) 0"

definition xsha1 :: "u8 list \<Rightarrow> t_hash" where
  "xsha1 msg = foldl bnet_comp hash_init (blocks (msg @ zero_padding (length msg)))"

lemma bnet_loop_rest:
  assumes "length tmp = 80"
  shows "bnet_loop H tmp data (length data) = foldl bnet_comp H (blocks (data @ zero_padding (length data)))"
  using assms
proof (induction "length data" arbitrary: data H tmp rule: less_induct)
  case less
  consider "data = []" | "64 < length data" | "data \<noteq> []" "length data \<le> 64" by fastforce
  then show ?case
  proof cases
    case 1
    then show ?thesis by (subst bnet_loop.simps) (simp add: blocks_short zero_padding_def)
  next
    case 2
    let ?t = "hash_set_16 tmp data 64 do_blizzard_hash"
    have "zero_block data 64 = take 64 data" by (simp add: zero_block_def)
    then have "take 16 ?t = map (le_word (take 64 data)) [0..<16]" using take_set_blizzard [of 64 data tmp] 2 by simp
    from do_hash_bnet [OF _ this, of H] less.prems obtain tmp' where
      t': "do_hash H ?t do_blizzard_hash = (bnet_comp H (take 64 data), tmp')" "length tmp' = 80" by auto
    have z: "zero_padding (length data) = zero_padding (length (drop 64 data))"
      using 2 by (simp add: zero_padding_def le_mod_geq)
    have "data \<noteq> []" using 2 by auto
    then have "bnet_loop H tmp data (length data)
        = bnet_loop (bnet_comp H (take 64 data)) tmp' (drop 64 data) (length (drop 64 data))"
      using 2 t'(1) by (subst bnet_loop.simps) simp
    also have "\<dots> = foldl bnet_comp (bnet_comp H (take 64 data))
        (blocks (drop 64 data @ zero_padding (length (drop 64 data))))"
      using less.hyps [of "drop 64 data" tmp'] 2 t'(2) by simp
    also have "\<dots> = foldl bnet_comp H (blocks (data @ zero_padding (length data)))"
      using blocks_one [of "take 64 data" "drop 64 data @ zero_padding (length data)"] 2 z
      by (simp flip: append_assoc)
    finally show ?thesis .
  next
    case 3
    let ?l = "length data"
    let ?b = "zero_block data ?l"
    from do_hash_bnet [OF _ take_set_blizzard [of ?l data tmp], of H] 3 less.prems obtain tmp1 where
      t1: "do_hash H (hash_set_16 tmp data ?l do_blizzard_hash) do_blizzard_hash = (bnet_comp H ?b, tmp1)" by auto
    have "data @ zero_padding ?l = ?b"
      using 3 by (cases "?l = 64") (simp_all add: zero_block_def zero_padding_def)
    moreover have "length ?b = 64" using 3 by (simp add: zero_block_def)
    ultimately have "blocks (data @ zero_padding ?l) = [?b]"
      using blocks_one [of ?b "[]"] blocks_short [of "[]"] by simp
    then show ?thesis
      using 3 t1 by (subst bnet_loop.simps) (simp add: bnet_loop.simps [of _ _ _ 0])
  qed
qed

section \<open>Printing and reading a hash\<close>

lemma hex_value_digit: "n < 16 \<Longrightarrow> hex_value (hex_digit n) = Some n \<and> \<not> c_isspace (hex_digit n)
    \<and> hex_digit n \<noteq> CHR ''-'' \<and> hex_digit n \<noteq> CHR ''+'' \<and> hex_digit n \<noteq> CHR ''x'' \<and> hex_digit n \<noteq> CHR ''X''"
proof -
  assume "n < 16"
  then have "n \<in> set [0..<16]" by simp
  moreover have "\<forall>n \<in> set [0..<16]. hex_value (hex_digit n) = Some n \<and> \<not> c_isspace (hex_digit n)
    \<and> hex_digit n \<noteq> CHR ''-'' \<and> hex_digit n \<noteq> CHR ''+'' \<and> hex_digit n \<noteq> CHR ''x'' \<and> hex_digit n \<noteq> CHR ''X''"
    by code_simp
  ultimately show ?thesis by blast
qed

lemma length_fmt [simp]: "length (fmt_08x w) = 8"
  by (simp add: fmt_08x_def)

lemma fmt_digits: "c \<in> set (fmt_08x w) \<Longrightarrow> \<exists>n<16. c = hex_digit n"
  unfolding fmt_08x_def by (metis (no_types, lifting) imageE list.set_map mod_less_divisor zero_less_numeral)

text \<open>The digits read back are the word.\<close>

lemma digits_value:
  "foldl (\<lambda>a c. a * 16 + of_nat (the (hex_value c))) (0 :: u32) (map (\<lambda>i. hex_digit (m div 16 ^ (k - 1 - i) mod 16)) [0..<k])
    = of_nat (m mod 16 ^ k)"
proof (induction k arbitrary: m)
  case (Suc k)
  have e: "map (\<lambda>i. hex_digit (m div 16 ^ (Suc k - 1 - i) mod 16)) [0..<Suc k]
    = map (\<lambda>i. hex_digit (m div 16 div 16 ^ (k - 1 - i) mod 16)) [0..<k] @ [hex_digit (m mod 16)]"
  proof (simp, intro ballI)
    fix i assume "i \<in> {0..<k}"
    then have "k - i = Suc (k - 1 - i)" by simp
    then have "(16::nat) ^ (k - i) = 16 * 16 ^ (k - 1 - i)" by (simp only: power_Suc)
    then show "hex_digit (m div 16 ^ (k - i) mod 16) = hex_digit (m div 16 div 16 ^ (k - Suc i) mod 16)"
      by (simp add: div_mult2_eq)
  qed
  have "of_nat (m div 16 mod 16 ^ k) * 16 + of_nat (m mod 16) = (of_nat (m mod 16 ^ Suc k) :: u32)"
  proof -
    have "m mod 16 ^ Suc k = m div 16 mod 16 ^ k * 16 + m mod 16" by (simp add: mod_mult2_eq)
    then show ?thesis by (simp only: of_nat_add of_nat_mult of_nat_numeral)
  qed
  then show ?case unfolding e foldl_append Suc.IH using hex_value_digit [of "m mod 16"] by simp
qed simp

lemma scan_fmt: "scan_8x (fmt_08x w @ rest) = Some w"
proof -
  obtain c cs where f: "fmt_08x w = c # cs" "length cs = 7" using length_fmt [of w] by (cases "fmt_08x w") auto
  have d: "hex_value x \<noteq> None \<and> \<not> c_isspace x \<and> x \<noteq> CHR ''-'' \<and> x \<noteq> CHR ''+'' \<and> x \<noteq> CHR ''x'' \<and> x \<noteq> CHR ''X''"
    if "x \<in> set (fmt_08x w)" for x
    using fmt_digits [OF that] hex_value_digit by fastforce
  have dw: "dropWhile c_isspace (fmt_08x w @ rest) = fmt_08x w @ rest" using d [of c] f by simp
  have t: "take 8 (fmt_08x w @ rest) = fmt_08x w" by simp
  have nx: "\<not> (take 2 (fmt_08x w) = ''0x'' \<or> take 2 (fmt_08x w) = ''0X'')"
    using d [of "fmt_08x w ! 1"] f by (cases cs) auto
  have tw: "takeWhile (\<lambda>c. hex_value c \<noteq> None) (fmt_08x w) = fmt_08x w"
    using d by (simp add: takeWhile_eq_all_conv)
  have "foldl (\<lambda>a c. a * 16 + of_nat (the (hex_value c))) (0 :: u32) (fmt_08x w) = w"
    using digits_value [of "unat w" 8] unsigned_less [of w, where ?'a = nat]
    by (simp add: fmt_08x_def del: upt_rec_numeral)
  moreover have "fmt_08x w \<noteq> []" "hd (fmt_08x w) \<noteq> CHR ''-''" "hd (fmt_08x w) \<noteq> CHR ''+''"
    using d [of c] f(1) by simp_all
  ultimately show ?thesis
    unfolding scan_8x_def Let_def dw t by (simp only: nx tw simp_thms if_False)
qed


text \<open>
  C23. \<open>sha1_hash\<close> computes SHA-1 as the standard defines it (schedule, step functions, padding with
  the 64-bit length) for every message shorter than \<open>2^32\<close> bytes whose size is not a multiple of 64,
  whatever the work array held before. For a multiple of 64 it omits the padding block: the result is
  the state after the message's own blocks.
\<close>

theorem sha1_hash_standard:
  assumes "length mem = 80" "length msg < 2 ^ 32"
  shows "sha1_hash mem (Some h) (length msg) (Some msg)
    = (0, Some (if length msg mod 64 = 0 then sha_process msg else sha1 msg))"
  using sha1_loop_rest [OF assms, of msg hash_init]
  by (simp add: sha1_hash_def sha1_def sha_process_def sha_comp_def [abs_def])

theorem sha1_hash_standard_witness:
  "sha1_hash (replicate 80 7) (Some []) (length [97, 98, 99 :: u8]) (Some [97, 98, 99]) = (0, Some (sha1 [97, 98, 99]))"
  using sha1_hash_standard [of "replicate 80 7" "[97, 98, 99]" "[]"] by simp

text \<open>
  C24. \<open>bnet_hash\<close> folds Blizzard's compression function over the message in little-endian words, the
  last block filled up with zeros. Nothing else of the message enters: a zero byte appended to a
  message that does not end on a block boundary leaves the hash unchanged.
\<close>

theorem bnet_hash_xsha1:
  assumes "length mem = 80" "length msg mod 64 \<noteq> 0"
  shows "bnet_hash mem (Some h) (length msg) (Some msg) = (0, Some (xsha1 msg))
    \<and> bnet_hash mem (Some h) (length (msg @ [0])) (Some (msg @ [0])) = bnet_hash mem (Some h) (length msg) (Some msg)"
proof -
  have z: "(msg @ [0]) @ zero_padding (length (msg @ [0])) = msg @ zero_padding (length msg)"
  proof -
    have "Suc (length msg) mod 64 = (if Suc (length msg mod 64) = 64 then 0 else Suc (length msg mod 64))"
      by (rule mod_Suc)
    moreover have "length msg mod 64 < 64" by simp
    ultimately have "(64 - length msg mod 64) mod 64 = Suc ((64 - Suc (length msg) mod 64) mod 64)"
      using assms(2) by (auto split: if_splits)
    then show ?thesis by (simp add: zero_padding_def)
  qed
  have "bnet_hash mem (Some h) (length m) (Some m) = (0, Some (xsha1 m))" for m
    using bnet_loop_rest [OF assms(1), of hash_init m] by (simp add: bnet_hash_def xsha1_def)
  with z show ?thesis by (simp only: xsha1_def)
qed

theorem bnet_hash_xsha1_witness:
  "bnet_hash (replicate 80 0) (Some []) (length [5, 0 :: u8]) (Some [5, 0]) = bnet_hash (replicate 80 0) (Some []) (length [5 :: u8]) (Some [5])"
  using bnet_hash_xsha1 [of "replicate 80 0" "[5]" "[]"] by simp

text \<open>
  A hash survives printing and reading: \<open>hash_set_str\<close> accepts every string \<open>hash_get_str\<close> prints and
  stores the hash printed, whatever was stored before, and \<open>hash_eq\<close> then calls the two equal (and
  only equal hashes so).
\<close>

lemma hash_str_roundtrip:
  assumes "length h = 5" "length g = 5"
  shows "hash_set_str (Some g) (hash_get_str (Some h)) = (0, Some h)
    \<and> (hash_eq (Some g) (Some h) = 1 \<longleftrightarrow> g = h)"
proof -
  have u: "[0..<5] = [0, 1, 2, 3, 4 :: nat]" by (simp add: upt_rec)
  obtain a b c d e where h: "h = [a, b, c, d, e]"
    using assms(1) by (auto simp: length_Suc_conv eval_nat_numeral)
  obtain a' b' c' d' e' where g: "g = [a', b', c', d', e']"
    using assms(2) by (auto simp: length_Suc_conv eval_nat_numeral)
  let ?s = "fmt_08x a @ fmt_08x b @ fmt_08x c @ fmt_08x d @ fmt_08x e"
  have gs: "hash_get_str (Some h) = Some ?s" unfolding hash_get_str_def u h by simp
  have "scan_8x (drop (0 * 8) ?s) = Some a" "scan_8x (drop (1 * 8) ?s) = Some b"
    "scan_8x (drop (2 * 8) ?s) = Some c" "scan_8x (drop (3 * 8) ?s) = Some d"
    "scan_8x (drop (4 * 8) ?s) = Some e"
    using scan_fmt [of e "[]"] by (simp_all add: scan_fmt)
  then have "set_str_loop g ?s [0..<5] = (0, h)" unfolding u g h by simp
  moreover have "length ?s = 5 * 8" by simp
  ultimately have "hash_set_str (Some g) (Some ?s) = (0, Some h)" by (simp add: hash_set_str_def)
  moreover have "hash_eq (Some g) (Some h) = 1 \<longleftrightarrow> g = h"
    unfolding hash_eq_def u g h by auto
  ultimately show ?thesis unfolding gs by simp
qed

lemma hash_str_roundtrip_witness:
  "hash_set_str (Some [0, 0, 0, 0, 0]) (hash_get_str (Some [1, 2, 3, 4, 0xdeadbeef]))
     = (0, Some [1, 2, 3, 4, 0xdeadbeef])"
  using hash_str_roundtrip [of "[1, 2, 3, 4, 0xdeadbeef]" "[0, 0, 0, 0, 0]"] by simp

end
