(* ===== verification/Char_Lock.thy ===== *)
theory Char_Lock
  imports Pvpgn_Prelude
begin

text \<open>
  \<^verbatim>\<open>d2dbs/charlock.cpp\<close>: the locks on Diablo II characters, one entry per locked character name,
  linked at the same time in a chain of the hash table \<open>clitbl\<close> and in the doubly linked list of its
  game server in \<open>gsqtbl\<close>. The entries live in an explicit store (\<open>cl_fresh\<close> is the next address
  \<open>xmalloc\<close> returns); a dereference of an invalid pointer, an index outside a table and a modulus of
  zero are \<open>None\<close>. A table pointer is \<open>None\<close> for NULL, a name is a C string (\<open>None\<close> for NULL); names are
  compared without case.

  The tables refine a finite map from lower-case names to the game server that holds the lock.
\<close>

section \<open>Data and operations\<close>

abbreviation MAX_CHARNAME_LEN :: nat where "MAX_CHARNAME_LEN \<equiv> 16"
abbreviation MAX_REALMNAME_LEN :: nat where "MAX_REALMNAME_LEN \<equiv> 32"

record t_charlockinfo =
  cl_charname :: cstring
  cl_realmname :: cstring
  cl_gsid :: nat
  cl_next :: "nat option"
  cl_gsqnext :: "nat option"
  cl_gsqprev :: "nat option"

type_synonym clcells = "nat \<rightharpoonup> t_charlockinfo"

record clstate =
  cl_cells :: clcells
  cl_fresh :: nat
  clitbl :: "nat option list option"
  clitbl_len :: nat
  gsqtbl :: "nat option list option"
  gsqtbl_len :: nat

definition cl_boot :: clstate where
  "cl_boot = \<lparr>cl_cells = Map.empty, cl_fresh = 0, clitbl = None, clitbl_len = 0,
              gsqtbl = None, gsqtbl_len = 0\<rparr>"

definition string_hash :: "cstring option \<Rightarrow> u32" where
  "string_hash string = (case string of None \<Rightarrow> 0 | Some s \<Rightarrow>
     fst (foldl (\<lambda>(hash, pos) c.
            let ch = (if (of_char c :: nat) < 128 then of_char (c_tolower c) else of_char c) :: u32
            in (hash XOR ROTL32 ch pos, pos + 7)) (0, 0) s))"

partial_function (option) free_chain :: "clcells \<Rightarrow> nat option \<Rightarrow> clcells option" where
  "free_chain c ptl = (case ptl of None \<Rightarrow> Some c
     | Some a \<Rightarrow> do { e \<leftarrow> c a; free_chain (c(a := None)) (cl_next e) })"

fun free_rows :: "clcells \<Rightarrow> nat option list \<Rightarrow> clcells option" where
  "free_rows c [] = Some c"
| "free_rows c (r # rs) = do { c' \<leftarrow> free_chain c r; free_rows c' rs }"

definition cl_destroy :: "clstate \<Rightarrow> (int \<times> clstate) option" where
  "cl_destroy s = do {
     c \<leftarrow> (case clitbl s of None \<Rightarrow> Some (cl_cells s) | Some rows \<Rightarrow> free_rows (cl_cells s) rows);
     Some (0, s\<lparr>cl_cells := c, clitbl := None, gsqtbl := None, clitbl_len := 0, gsqtbl_len := 0\<rparr>) }"

definition cl_init :: "clstate \<Rightarrow> nat \<Rightarrow> nat \<Rightarrow> (int \<times> clstate) option" where
  "cl_init s tbllen maxgs =
     (if tbllen = 0 \<or> maxgs = 0 then Some (-1, s)
      else do {
        (r, s') \<leftarrow> cl_destroy s;
        Some (0, s'\<lparr>clitbl := Some (replicate tbllen None), gsqtbl := Some (replicate maxgs None),
                    clitbl_len := tbllen, gsqtbl_len := maxgs\<rparr>) })"

definition table_get :: "nat option list option \<Rightarrow> nat \<Rightarrow> nat option option" where
  "table_get tbl i = (case tbl of None \<Rightarrow> None | Some rows \<Rightarrow> if i < length rows then Some (rows ! i) else None)"

definition table_set :: "nat option list option \<Rightarrow> nat \<Rightarrow> nat option \<Rightarrow> nat option list option option" where
  "table_set tbl i p = (case tbl of None \<Rightarrow> None
     | Some rows \<Rightarrow> if i < length rows then Some (Some (rows[i := p])) else None)"

definition modulo :: "nat \<Rightarrow> nat \<Rightarrow> nat option" where
  "modulo a n = (if n = 0 then None else Some (a mod n))"

text \<open>The searches along a chain, with the trailing pointer \<open>ptmp\<close>.\<close>

partial_function (option) chain_search ::
  "(t_charlockinfo \<Rightarrow> bool) \<Rightarrow> clcells \<Rightarrow> nat option \<Rightarrow> nat option \<Rightarrow> (nat option \<times> nat option) option" where
  "chain_search P c pcl ptmp = (case pcl of None \<Rightarrow> Some (None, ptmp)
     | Some a \<Rightarrow> do { e \<leftarrow> c a; if P e then Some (Some a, ptmp) else chain_search P c (cl_next e) (Some a) })"

definition upd :: "clcells \<Rightarrow> nat option \<Rightarrow> (t_charlockinfo \<Rightarrow> t_charlockinfo) \<Rightarrow> clcells option" where
  "upd c p f = (case p of None \<Rightarrow> None | Some a \<Rightarrow> (case c a of None \<Rightarrow> None | Some e \<Rightarrow> Some (c(a \<mapsto> f e))))"

definition cl_query_charlock_status ::
  "clstate \<Rightarrow> cstring option \<Rightarrow> cstring option \<Rightarrow> (int \<times> nat option) option" where
  "cl_query_charlock_status s charname realmname = (case (charname, realmname) of
       (Some name, Some realm) \<Rightarrow>
         if clitbl_len s = 0 \<or> gsqtbl s = None then Some (-1, None)
         else if length name \<ge> MAX_CHARNAME_LEN then Some (-1, None)
         else do {
           hashval \<leftarrow> modulo (unat (string_hash (Some name))) (clitbl_len s);
           row \<leftarrow> table_get (clitbl s) hashval;
           (pcl, ptmp) \<leftarrow> chain_search (\<lambda>e. strcaseeq (cl_charname e) name) (cl_cells s) row None;
           case pcl of None \<Rightarrow> Some (0, None)
           | Some a \<Rightarrow> do { e \<leftarrow> cl_cells s a; Some (1, Some (cl_gsid e)) } }
     | _ \<Rightarrow> Some (-1, None))"

definition cl_insert_to_gsq_list :: "clstate \<Rightarrow> nat \<Rightarrow> nat option \<Rightarrow> (int \<times> clstate) option" where
  "cl_insert_to_gsq_list s gsid pcl = (case pcl of None \<Rightarrow> Some (-1, s) | Some a \<Rightarrow> do {
     i \<leftarrow> modulo gsid (gsqtbl_len s);
     ptmp \<leftarrow> table_get (gsqtbl s) i;
     tbl \<leftarrow> table_set (gsqtbl s) i (Some a);
     c \<leftarrow> (if ptmp \<noteq> None
          then do { c1 \<leftarrow> upd (cl_cells s) (Some a) (cl_gsqnext_update (\<lambda>_. ptmp));
                    upd c1 ptmp (cl_gsqprev_update (\<lambda>_. Some a)) }
          else Some (cl_cells s));
     Some (0, s\<lparr>gsqtbl := tbl, cl_cells := c\<rparr>) })"

definition cl_delete_from_gsq_list :: "clstate \<Rightarrow> nat option \<Rightarrow> (int \<times> clstate) option" where
  "cl_delete_from_gsq_list s pcl = (case pcl of None \<Rightarrow> Some (-1, s) | Some a \<Rightarrow> do {
     e \<leftarrow> cl_cells s a;
     i \<leftarrow> modulo (cl_gsid e) (gsqtbl_len s);
     let pprev = cl_gsqprev e; pnext = cl_gsqnext e in do {
       (c1, tbl) \<leftarrow> (if pprev \<noteq> None
          then do { c \<leftarrow> upd (cl_cells s) pprev (cl_gsqnext_update (\<lambda>_. pnext)); Some (c, gsqtbl s) }
          else do { t \<leftarrow> table_set (gsqtbl s) i pnext; Some (cl_cells s, t) });
       c2 \<leftarrow> (if pnext \<noteq> None then upd c1 pnext (cl_gsqprev_update (\<lambda>_. pprev)) else Some c1);
       Some (0, s\<lparr>gsqtbl := tbl, cl_cells := c2\<rparr>) } })"

definition cl_lock_char ::
  "clstate \<Rightarrow> cstring option \<Rightarrow> cstring option \<Rightarrow> nat \<Rightarrow> (int \<times> clstate) option" where
  "cl_lock_char s charname realmname gsid = (case (charname, realmname) of
       (Some name, Some realm) \<Rightarrow>
         if clitbl_len s = 0 \<or> gsqtbl s = None then Some (-1, s)
         else if length name \<ge> MAX_CHARNAME_LEN then Some (-1, s)
         else do {
           hashval \<leftarrow> modulo (unat (string_hash (Some name))) (clitbl_len s);
           row \<leftarrow> table_get (clitbl s) hashval;
           (found, ptmp) \<leftarrow> chain_search (\<lambda>e. strcaseeq (cl_charname e) name) (cl_cells s) row None;
           if found \<noteq> None then Some (0, s)
           else do {
             let a = cl_fresh s;
                 c = (cl_cells s)(a \<mapsto> \<lparr>cl_charname = take (MAX_CHARNAME_LEN - 1) name,
                       cl_realmname = take (MAX_REALMNAME_LEN - 1) realm, cl_gsid = gsid,
                       cl_next = None, cl_gsqnext = None, cl_gsqprev = None\<rparr>)
             in do {
               (c', tbl) \<leftarrow> (if ptmp \<noteq> None
                  then do { c1 \<leftarrow> upd c ptmp (cl_next_update (\<lambda>_. Some a)); Some (c1, clitbl s) }
                  else do { t \<leftarrow> table_set (clitbl s) hashval (Some a); Some (c, t) });
               (r, s') \<leftarrow> cl_insert_to_gsq_list
                  (s\<lparr>cl_cells := c', cl_fresh := Suc a, clitbl := tbl\<rparr>) gsid (Some a);
               Some (0, s') } } }
     | _ \<Rightarrow> Some (-1, s))"

definition cl_unlock_char ::
  "clstate \<Rightarrow> cstring option \<Rightarrow> cstring option \<Rightarrow> nat \<Rightarrow> (int \<times> clstate) option" where
  "cl_unlock_char s charname realmname gsid = (case (charname, realmname) of
       (Some name, Some realm) \<Rightarrow>
         if clitbl_len s = 0 \<or> gsqtbl s = None then Some (0, s)
         else if length name \<ge> MAX_CHARNAME_LEN then Some (-1, s)
         else do {
           hashval \<leftarrow> modulo (unat (string_hash (Some name))) (clitbl_len s);
           row \<leftarrow> table_get (clitbl s) hashval;
           (found, ptmp) \<leftarrow> chain_search (\<lambda>e. strcaseeq (cl_charname e) name \<and> cl_gsid e = gsid)
              (cl_cells s) row None;
           (case found of None \<Rightarrow> Some (0, s) | Some a \<Rightarrow> do {
              (r, s1) \<leftarrow> cl_delete_from_gsq_list s (Some a);
              e \<leftarrow> cl_cells s1 a;
              (c, tbl) \<leftarrow> (if ptmp \<noteq> None
                 then do { c1 \<leftarrow> upd (cl_cells s1) ptmp (cl_next_update (\<lambda>_. cl_next e)); Some (c1, clitbl s1) }
                 else do { t \<leftarrow> table_set (clitbl s1) hashval (cl_next e); Some (cl_cells s1, t) });
              Some (0, s1\<lparr>cl_cells := c(a := None), clitbl := tbl\<rparr>) }) }
     | _ \<Rightarrow> Some (-1, s))"

partial_function (option) unlock_loop :: "clstate \<Rightarrow> nat \<Rightarrow> nat option \<Rightarrow> clstate option" where
  "unlock_loop s gsid pcl = (case pcl of None \<Rightarrow> Some s | Some a \<Rightarrow> do {
     e \<leftarrow> cl_cells s a;
     (r, s') \<leftarrow> cl_unlock_char s (Some (cl_charname e)) (Some (cl_realmname e)) gsid;
     unlock_loop s' gsid (cl_gsqnext e) })"

definition cl_unlock_all_char_by_gsid :: "clstate \<Rightarrow> nat \<Rightarrow> (int \<times> clstate) option" where
  "cl_unlock_all_char_by_gsid s gsid = do {
     i \<leftarrow> modulo gsid (gsqtbl_len s);
     pcl \<leftarrow> table_get (gsqtbl s) i;
     s' \<leftarrow> unlock_loop s gsid pcl;
     Some (0, s') }"

section \<open>Segments of the two linkings\<close>

fun nseg :: "clcells \<Rightarrow> nat option \<Rightarrow> nat list \<Rightarrow> nat option \<Rightarrow> bool" where
  "nseg c p [] q = (p = q)"
| "nseg c p (a # as) q = (p = Some a \<and> (\<exists>e. c a = Some e \<and> nseg c (cl_next e) as q))"

fun gseg :: "clcells \<Rightarrow> nat option \<Rightarrow> nat option \<Rightarrow> nat list \<Rightarrow> nat option \<Rightarrow> nat option \<Rightarrow> bool" where
  "gseg c pv p [] pv' q = (pv = pv' \<and> p = q)"
| "gseg c pv p (a # as) pv' q = (p = Some a
     \<and> (\<exists>e. c a = Some e \<and> cl_gsqprev e = pv \<and> gseg c (Some a) (cl_gsqnext e) as pv' q))"

lemma nseg_append: "nseg c p (us @ vs) q \<longleftrightarrow> (\<exists>r. nseg c p us r \<and> nseg c r vs q)"
  by (induction us arbitrary: p) auto

lemma gseg_append:
  "gseg c pv p (us @ vs) pv' q \<longleftrightarrow> (\<exists>pr r. gseg c pv p us pr r \<and> gseg c pr r vs pv' q)"
  by (induction us arbitrary: pv p) auto

lemma nseg_frame:
  assumes "\<And>a. a \<in> set as \<Longrightarrow> map_option cl_next (c' a) = map_option cl_next (c a)"
  shows "nseg c' p as q = nseg c p as q"
  using assms
proof (induction as arbitrary: p)
  case (Cons a as)
  from Cons.prems [of a] Cons.IH Cons.prems show ?case
    by (cases "c a"; cases "c' a") auto
qed simp

lemma gseg_frame:
  assumes "\<And>a. a \<in> set as \<Longrightarrow>
    map_option (\<lambda>e. (cl_gsqnext e, cl_gsqprev e)) (c' a) = map_option (\<lambda>e. (cl_gsqnext e, cl_gsqprev e)) (c a)"
  shows "gseg c' pv p as pv' q = gseg c pv p as pv' q"
  using assms
proof (induction as arbitrary: pv p)
  case (Cons a as)
  from Cons.prems [of a] Cons.IH Cons.prems show ?case
    by (cases "c a"; cases "c' a") auto
qed simp

lemma nseg_dom: "nseg c p as q \<Longrightarrow> a \<in> set as \<Longrightarrow> a \<in> dom c"
  by (induction as arbitrary: p) auto

lemma gseg_prev: "gseg c pv p us pv' q \<Longrightarrow> pv' = (if us = [] then pv else Some (last us))"
  by (induction us arbitrary: pv p) auto

lemma gseg_head: "gseg c pv p us pv' None \<Longrightarrow> p = (if us = [] then None else Some (hd us))"
  by (cases us) auto

text \<open>Relinking around an element of a chain.\<close>

lemma nseg_redirect:
  assumes "nseg c p (us @ [u]) r" "distinct (us @ [u])" "c u = Some e"
  shows "nseg (c(u \<mapsto> e\<lparr>cl_next := q\<rparr>)) p (us @ [u]) q"
proof -
  from assms obtain s where s: "nseg c p us s" "s = Some u" by (auto simp: nseg_append)
  have "nseg (c(u \<mapsto> e\<lparr>cl_next := q\<rparr>)) p us s"
    using s(1) assms(2) by (subst nseg_frame [of us _ c]) auto
  with s(2) show ?thesis by (auto simp: nseg_append)
qed

definition new_prev :: "nat option \<Rightarrow> nat option \<Rightarrow> t_charlockinfo \<Rightarrow> t_charlockinfo" where
  "new_prev p q e = e\<lparr>cl_gsqnext := p, cl_gsqprev := q\<rparr>"

text \<open>A change of link fields keeps what an entry says.\<close>

definition says :: "clcells \<Rightarrow> nat \<Rightarrow> (cstring \<times> cstring \<times> nat) option" where
  "says c a = map_option (\<lambda>e. (cl_charname e, cl_realmname e, cl_gsid e)) (c a)"

lemma says_upd:
  "c a = Some e \<Longrightarrow> says (c(a \<mapsto> e\<lparr>cl_next := q\<rparr>)) = says c"
  "c a = Some e \<Longrightarrow> says (c(a \<mapsto> e\<lparr>cl_gsqnext := q\<rparr>)) = says c"
  "c a = Some e \<Longrightarrow> says (c(a \<mapsto> e\<lparr>cl_gsqprev := q\<rparr>)) = says c"
  by (auto simp: says_def fun_eq_iff)

lemma says_dom: "dom (says c) = dom c"
  by (auto simp: says_def)

section \<open>The representation invariant\<close>

definition norm_name :: "cstring \<Rightarrow> cstring" where
  "norm_name = map c_tolower"

definition name_of :: "clcells \<Rightarrow> nat \<Rightarrow> cstring" where
  "name_of c a = norm_name (fst (the (says c a)))"

definition gs_of :: "clcells \<Rightarrow> nat \<Rightarrow> nat" where
  "gs_of c a = snd (snd (the (says c a)))"

definition row_of :: "nat \<Rightarrow> cstring \<Rightarrow> nat" where
  "row_of n name = unat (string_hash (Some name)) mod n"

definition cl_rep :: "clstate \<Rightarrow> nat list list \<Rightarrow> nat list list \<Rightarrow> bool" where
  "cl_rep s ass bss \<longleftrightarrow>
     (\<exists>rows grows. clitbl s = Some rows \<and> gsqtbl s = Some grows
        \<and> length rows = clitbl_len s \<and> length grows = gsqtbl_len s
        \<and> (\<forall>i<clitbl_len s. nseg (cl_cells s) (rows ! i) (ass ! i) None)
        \<and> (\<forall>j<gsqtbl_len s. \<exists>pv. gseg (cl_cells s) None (grows ! j) (bss ! j) pv None))
     \<and> 0 < clitbl_len s \<and> 0 < gsqtbl_len s
     \<and> length ass = clitbl_len s \<and> length bss = gsqtbl_len s
     \<and> (\<forall>i<clitbl_len s. distinct (ass ! i)) \<and> (\<forall>j<gsqtbl_len s. distinct (bss ! j))
     \<and> (\<forall>i<clitbl_len s. \<forall>a. a \<in> set (ass ! i) \<longleftrightarrow>
            a \<in> dom (cl_cells s) \<and> row_of (clitbl_len s) (name_of (cl_cells s) a) = i)
     \<and> (\<forall>j<gsqtbl_len s. \<forall>a. a \<in> set (bss ! j) \<longleftrightarrow>
            a \<in> dom (cl_cells s) \<and> gs_of (cl_cells s) a mod gsqtbl_len s = j)
     \<and> inj_on (name_of (cl_cells s)) (dom (cl_cells s))
     \<and> (\<forall>a \<in> dom (cl_cells s). a < cl_fresh s \<and> length (name_of (cl_cells s) a) < MAX_CHARNAME_LEN)"

definition locks :: "clcells \<Rightarrow> (cstring \<rightharpoonup> nat) \<Rightarrow> bool" where
  "locks c m \<longleftrightarrow> (\<forall>n g. m n = Some g \<longleftrightarrow> (\<exists>a \<in> dom c. name_of c a = n \<and> gs_of c a = g))"

definition cl_holds :: "clstate \<Rightarrow> (cstring \<rightharpoonup> nat) \<Rightarrow> bool" where
  "cl_holds s m \<longleftrightarrow> (\<exists>ass bss. cl_rep s ass bss) \<and> locks (cl_cells s) m"

text \<open>The hash ignores case.\<close>

lemma tolower_ascii: "(of_char (c_tolower c) :: nat) < 128 \<longleftrightarrow> (of_char c :: nat) < 128"
  by (auto simp: c_tolower_def c_isupper_def of_char_of)

lemma string_hash_norm: "string_hash (Some (norm_name s)) = string_hash (Some s)"
proof -
  have "foldl (\<lambda>(hash, pos) c.
            let ch = (if (of_char c :: nat) < 128 then of_char (c_tolower c) else of_char c) :: u32
            in (hash XOR ROTL32 ch pos, pos + 7)) st (map c_tolower s)
      = foldl (\<lambda>(hash, pos) c.
            let ch = (if (of_char c :: nat) < 128 then of_char (c_tolower c) else of_char c) :: u32
            in (hash XOR ROTL32 ch pos, pos + 7)) st s" for st :: "u32 \<times> u32"
  proof (induction s arbitrary: st)
    case (Cons c s)
    have "(of_char c :: nat) \<ge> 128 \<Longrightarrow> c_tolower c = c" by (simp add: c_tolower_def c_isupper_def)
    with Cons tolower_ascii [of c] show ?case by (cases st) (simp add: Let_def)
  qed simp
  then show ?thesis by (simp add: string_hash_def norm_name_def)
qed

lemma strcaseeq_norm: "strcaseeq a b \<longleftrightarrow> norm_name a = norm_name b"
  by (simp add: strcaseeq_iff norm_name_def)

lemma norm_idem [simp]: "norm_name (norm_name a) = norm_name a" "length (norm_name a) = length a"
  by (simp_all add: norm_name_def)

lemma chain_search_first:
  assumes "nseg c p as None"
  shows "(\<forall>a \<in> set as. \<not> P (the (c a))) \<and>
       chain_search P c p t = Some (None, if as = [] then t else Some (last as))
    \<or> (\<exists>us a vs. as = us @ a # vs \<and> P (the (c a)) \<and> (\<forall>b \<in> set us. \<not> P (the (c b)))
         \<and> chain_search P c p t = Some (Some a, if us = [] then t else Some (last us)))"
  using assms
proof (induction as arbitrary: p t)
  case Nil
  then show ?case by (subst chain_search.simps) simp
next
  case (Cons a as)
  then obtain e where e: "p = Some a" "c a = Some e" "nseg c (cl_next e) as None" by auto
  show ?case
  proof (cases "P e")
    case True
    then have "chain_search P c p t = Some (Some a, t)" using e by (subst chain_search.simps) simp
    with True e show ?thesis by (intro disjI2 exI [of _ "[]"]) auto
  next
    case False
    then have st: "chain_search P c p t = chain_search P c (cl_next e) (Some a)"
      using e by (subst chain_search.simps) simp
    from Cons.IH [OF e(3), of "Some a"] show ?thesis
    proof (elim disjE exE conjE)
      assume "\<forall>a \<in> set as. \<not> P (the (c a))"
        "chain_search P c (cl_next e) (Some a) = Some (None, if as = [] then Some a else Some (last as))"
      then show ?thesis using st False e by (intro disjI1) auto
    next
      fix us b vs
      assume "as = us @ b # vs" "P (the (c b))" "\<forall>b \<in> set us. \<not> P (the (c b))"
        "chain_search P c (cl_next e) (Some a) = Some (Some b, if us = [] then Some a else Some (last us))"
      then show ?thesis using st False e by (intro disjI2 exI [of _ "a # us"] exI [of _ b] exI [of _ vs]) auto
    qed
  qed
qed

section \<open>The two linkings under the operations\<close>

lemma cell_eq_frame:
  assumes "\<And>x. x \<in> set as \<Longrightarrow> c' x = c x"
  shows "nseg c' p as q = nseg c p as q" "gseg c' pv p as pv' q = gseg c pv p as pv' q"
  using assms by (auto intro!: nseg_frame gseg_frame)

lemma gsq_insert:
  assumes "cl_cells s a = Some e" "cl_gsqnext e = None" "cl_gsqprev e = None"
    "gsqtbl s = Some grows" "length grows = gsqtbl_len s" "0 < gsqtbl_len s" "gsid mod gsqtbl_len s = j"
    "gseg (cl_cells s) None (grows ! j) bs pv None" "a \<notin> set bs" "distinct bs"
  shows "\<exists>c' pv'. cl_insert_to_gsq_list s gsid (Some a)
       = Some (0, s\<lparr>gsqtbl := Some (grows[j := Some a]), cl_cells := c'\<rparr>)
    \<and> says c' = says (cl_cells s) \<and> (\<forall>x. map_option cl_next (c' x) = map_option cl_next (cl_cells s x))
    \<and> (\<forall>x. x \<noteq> a \<and> x \<notin> set bs \<longrightarrow> c' x = cl_cells s x) \<and> gseg c' None (Some a) (a # bs) pv' None"
proof -
  let ?c = "cl_cells s"
  have j: "j < length grows" using assms(5-7) by auto
  show ?thesis
  proof (cases bs)
    case Nil
    then have "grows ! j = None" using assms(8) by simp
    then have "cl_insert_to_gsq_list s gsid (Some a)
        = Some (0, s\<lparr>gsqtbl := Some (grows[j := Some a]), cl_cells := ?c\<rparr>)"
      using assms(4-7) j by (simp add: cl_insert_to_gsq_list_def modulo_def table_get_def table_set_def)
    moreover have "gseg ?c None (Some a) (a # bs) (Some a) None" using Nil assms(1-3) by simp
    ultimately show ?thesis by blast
  next
    case (Cons b bs')
    then obtain eb where b: "grows ! j = Some b" "?c b = Some eb" "cl_gsqprev eb = None"
      "gseg ?c (Some b) (cl_gsqnext eb) bs' pv None" using assms(8) by auto
    have ab: "a \<noteq> b" "b \<notin> set bs'" "a \<notin> set bs'" using Cons assms(9,10) by auto
    let ?c1 = "?c(a \<mapsto> e\<lparr>cl_gsqnext := Some b\<rparr>)"
    let ?c2 = "?c1(b \<mapsto> eb\<lparr>cl_gsqprev := Some a\<rparr>)"
    have c1b: "?c1 b = Some eb" using b(2) ab by simp
    have "cl_insert_to_gsq_list s gsid (Some a)
        = Some (0, s\<lparr>gsqtbl := Some (grows[j := Some a]), cl_cells := ?c2\<rparr>)"
      using assms(1,4-7) j b(1,2) ab
      by (simp add: cl_insert_to_gsq_list_def modulo_def table_get_def table_set_def upd_def)
    moreover have "says ?c2 = says ?c" using says_upd(3) [of ?c1 b eb] says_upd(2) [of ?c a e] c1b assms(1) by simp
    moreover have "\<forall>x. map_option cl_next (?c2 x) = map_option cl_next (?c x)" using assms(1) b(2) by auto
    moreover have "\<forall>x. x \<noteq> a \<and> x \<notin> set bs \<longrightarrow> ?c2 x = ?c x" using Cons by auto
    moreover have "gseg ?c2 (Some b) (cl_gsqnext eb) bs' pv None"
      using b(4) ab by (subst cell_eq_frame(2) [of _ _ ?c]) auto
    then have "gseg ?c2 None (Some a) (a # bs) pv None"
      using Cons ab assms(3) by simp
    ultimately show ?thesis by blast
  qed
qed

lemma gseg_redirect_next:
  assumes "gseg c pv p (us @ [u]) pv' q" "distinct (us @ [u])" "c u = Some e"
  shows "gseg (c(u \<mapsto> e\<lparr>cl_gsqnext := q'\<rparr>)) pv p (us @ [u]) (Some u) q'"
proof -
  from assms obtain pr where s: "gseg c pv p us pr (Some u)" "cl_gsqprev e = pr" by (auto simp: gseg_append)
  have "gseg (c(u \<mapsto> e\<lparr>cl_gsqnext := q'\<rparr>)) pv p us pr (Some u)"
    using s(1) assms(2) by (subst cell_eq_frame(2) [of us _ c]) auto
  with s(2) show ?thesis by (auto simp: gseg_append)
qed

lemma gsq_delete:
  assumes "cl_cells s a = Some e" "gsqtbl s = Some grows" "length grows = gsqtbl_len s"
    "0 < gsqtbl_len s" "cl_gsid e mod gsqtbl_len s = j"
    "gseg (cl_cells s) None (grows ! j) (us @ a # vs) pv None" "distinct (us @ a # vs)"
  shows "\<exists>c' p' pv'. cl_delete_from_gsq_list s (Some a)
       = Some (0, s\<lparr>gsqtbl := Some (grows[j := p']), cl_cells := c'\<rparr>)
    \<and> says c' = says (cl_cells s) \<and> (\<forall>x. map_option cl_next (c' x) = map_option cl_next (cl_cells s x))
    \<and> (\<forall>x. x \<notin> set (us @ vs) \<longrightarrow> c' x = cl_cells s x) \<and> gseg c' None p' (us @ vs) pv' None"
proof -
  let ?c = "cl_cells s"
  have j: "j < length grows" using assms(3-5) by auto
  from assms(6) obtain pr where g1: "gseg ?c None (grows ! j) us pr (Some a)" "cl_gsqprev e = pr"
    and g2: "gseg ?c (Some a) (cl_gsqnext e) vs pv None" using assms(1) by (auto simp: gseg_append)
  have pr: "pr = (if us = [] then None else Some (last us))" using gseg_prev [OF g1(1)] .
  define p' where "p' = (if us = [] then cl_gsqnext e else grows ! j)"
  \<comment> \<open>the write through \<open>pprev\<close>\<close>
  have "\<exists>c1. (if pr \<noteq> None then do { c \<leftarrow> upd ?c pr (cl_gsqnext_update (\<lambda>_. cl_gsqnext e)); Some (c, gsqtbl s) }
          else do { t \<leftarrow> table_set (gsqtbl s) j (cl_gsqnext e); Some (?c, t) }) = Some (c1, Some (grows[j := p']))
     \<and> says c1 = says ?c \<and> (\<forall>x. map_option cl_next (c1 x) = map_option cl_next (?c x))
     \<and> (\<forall>x. x \<notin> set us \<longrightarrow> c1 x = ?c x) \<and> gseg c1 None p' us pr (cl_gsqnext e)"
  proof (cases "us = []")
    case True
    then show ?thesis using pr j assms(2) g1 by (auto simp: table_set_def p'_def)
  next
    case False
    then obtain us' u where us: "us = us' @ [u]" by (metis rev_exhaust)
    then obtain eu where eu: "?c u = Some eu" using g1(1) by (auto simp: gseg_append)
    let ?c1 = "?c(u \<mapsto> eu\<lparr>cl_gsqnext := cl_gsqnext e\<rparr>)"
    have "gseg ?c1 None (grows ! j) us (Some u) (cl_gsqnext e)"
      using gseg_redirect_next [of ?c None "grows ! j" us' u pr "Some a" eu] g1(1) eu assms(7) us by simp
    moreover have "\<forall>x. map_option cl_next (?c1 x) = map_option cl_next (?c x)" using eu by auto
    moreover have "says ?c1 = says ?c" using says_upd(2) eu by simp
    moreover have "pr = Some u" "p' = grows ! j" using pr us False by (simp_all add: p'_def)
    ultimately show ?thesis using us eu assms(2) by (auto simp: upd_def)
  qed
  then obtain c1 where c1: "(if pr \<noteq> None then do { c \<leftarrow> upd ?c pr (cl_gsqnext_update (\<lambda>_. cl_gsqnext e)); Some (c, gsqtbl s) }
          else do { t \<leftarrow> table_set (gsqtbl s) j (cl_gsqnext e); Some (?c, t) }) = Some (c1, Some (grows[j := p']))"
      "says c1 = says ?c" "\<And>x. map_option cl_next (c1 x) = map_option cl_next (?c x)"
      "\<And>x. x \<notin> set us \<Longrightarrow> c1 x = ?c x" "gseg c1 None p' us pr (cl_gsqnext e)"
    by (elim exE conjE) (rule that; simp)
  have g2': "gseg c1 (Some a) (cl_gsqnext e) vs pv None"
    using g2 c1(4) assms(7) by (subst cell_eq_frame(2) [of vs _ ?c]) auto
  \<comment> \<open>the write through \<open>pnext\<close>\<close>
  have "\<exists>c2 pv'. (if cl_gsqnext e \<noteq> None then upd c1 (cl_gsqnext e) (cl_gsqprev_update (\<lambda>_. pr)) else Some c1) = Some c2
     \<and> says c2 = says c1 \<and> (\<forall>x. map_option cl_next (c2 x) = map_option cl_next (c1 x))
     \<and> (\<forall>x. x \<notin> set vs \<longrightarrow> c2 x = c1 x) \<and> gseg c2 pr (cl_gsqnext e) vs pv' None"
  proof (cases vs)
    case Nil
    then show ?thesis using g2' by auto
  next
    case (Cons v vs')
    then obtain ev where ev: "cl_gsqnext e = Some v" "c1 v = Some ev" "gseg c1 (Some v) (cl_gsqnext ev) vs' pv None"
      using g2' by auto
    let ?c2 = "c1(v \<mapsto> ev\<lparr>cl_gsqprev := pr\<rparr>)"
    have "gseg ?c2 (Some v) (cl_gsqnext ev) vs' pv None"
      using ev(3) Cons assms(7) by (subst cell_eq_frame(2) [of _ _ c1]) auto
    then have "gseg ?c2 pr (cl_gsqnext e) vs pv None" using Cons ev by simp
    moreover have "\<forall>x. map_option cl_next (?c2 x) = map_option cl_next (c1 x)" using ev(2) by auto
    moreover have "says ?c2 = says c1" using says_upd(3) ev(2) by simp
    moreover have "\<forall>x. x \<notin> set vs \<longrightarrow> ?c2 x = c1 x" using Cons by auto
    moreover have "upd c1 (cl_gsqnext e) (cl_gsqprev_update (\<lambda>_. pr)) = Some ?c2" using ev by (simp add: upd_def)
    ultimately show ?thesis using ev(1) by auto
  qed
  then obtain c2 pv' where c2: "(if cl_gsqnext e \<noteq> None then upd c1 (cl_gsqnext e) (cl_gsqprev_update (\<lambda>_. pr)) else Some c1) = Some c2"
      "says c2 = says c1" "\<And>x. map_option cl_next (c2 x) = map_option cl_next (c1 x)"
      "\<And>x. x \<notin> set vs \<Longrightarrow> c2 x = c1 x" "gseg c2 pr (cl_gsqnext e) vs pv' None"
    by (elim exE conjE) (rule that; simp)
  have "gseg c2 None p' us pr (cl_gsqnext e)"
    using c1(5) c2(4) assms(7) by (subst cell_eq_frame(2) [of us _ c1]) auto
  with c2(5) have "gseg c2 None p' (us @ vs) pv' None" by (auto simp: gseg_append)
  moreover have "cl_delete_from_gsq_list s (Some a)
       = Some (0, s\<lparr>gsqtbl := Some (grows[j := p']), cl_cells := c2\<rparr>)"
  proof -
    have "modulo (cl_gsid e) (gsqtbl_len s) = Some j" using assms(4,5) by (simp add: modulo_def)
    then show ?thesis
      by (simp only: cl_delete_from_gsq_list_def option.case assms(1) Let_def Option.bind.simps prod.case g1(2)
          c1(1) c2(1))
  qed
  moreover have "\<forall>x. x \<notin> set (us @ vs) \<longrightarrow> c2 x = ?c x" using c1(4) c2(4) by auto
  moreover have "\<forall>x. map_option cl_next (c2 x) = map_option cl_next (?c x)" using c1(3) c2(3) by simp
  moreover have "says c2 = says ?c" using c1(2) c2(2) by simp
  ultimately show ?thesis by blast
qed


lemma nseg_last:
  assumes "nseg c p as None" "as \<noteq> []"
  obtains us u e where "as = us @ [u]" "c u = Some e" "cl_next e = None" "nseg c p us (Some u)"
proof -
  from assms(2) obtain us u where "as = us @ [u]" by (metis rev_exhaust)
  with assms(1) that show ?thesis by (auto simp: nseg_append)
qed

text \<open>Appending a new entry: the write of \<open>cl_lock_char\<close> to the end of the chain or to the table.\<close>

lemma chain_append:
  assumes "nseg c (rows ! i) as None" "distinct as" "a \<notin> set as" "c a = Some e" "cl_next e = None"
    "i < length rows"
  shows "\<exists>c' rows'. (if (if as = [] then None else Some (last as)) \<noteq> None
        then do { c1 \<leftarrow> upd c (if as = [] then None else Some (last as)) (cl_next_update (\<lambda>_. Some a)); Some (c1, Some rows) }
        else do { t \<leftarrow> table_set (Some rows) i (Some a); Some (c, t) }) = Some (c', Some rows')
    \<and> length rows' = length rows \<and> (\<forall>k. k \<noteq> i \<longrightarrow> rows' ! k = rows ! k)
    \<and> nseg c' (rows' ! i) (as @ [a]) None \<and> says c' = says c \<and> (\<forall>x. x \<notin> set as \<longrightarrow> c' x = c x)
    \<and> (\<forall>x. map_option (\<lambda>e. (cl_gsqnext e, cl_gsqprev e)) (c' x) = map_option (\<lambda>e. (cl_gsqnext e, cl_gsqprev e)) (c x))"
proof (cases "as = []")
  case True
  then show ?thesis using assms(4-6) by (auto simp: table_set_def)
next
  case False
  from nseg_last [OF assms(1) this] obtain us u eu where
    u: "as = us @ [u]" "c u = Some eu" "cl_next eu = None" "nseg c (rows ! i) us (Some u)" .
  let ?c = "c(u \<mapsto> eu\<lparr>cl_next := Some a\<rparr>)"
  have "nseg ?c (rows ! i) as (Some a)"
    using nseg_redirect [of c "rows ! i" us u None eu "Some a"] assms(1,2) u by simp
  then have "nseg ?c (rows ! i) (as @ [a]) None"
    using assms(3-5) u by (auto simp: nseg_append)
  moreover have "says ?c = says c" using says_upd(1) u(2) by simp
  moreover have "\<forall>x. map_option (\<lambda>e. (cl_gsqnext e, cl_gsqprev e)) (?c x) = map_option (\<lambda>e. (cl_gsqnext e, cl_gsqprev e)) (c x)"
    using u(2) by auto
  moreover have "upd c (Some (last as)) (cl_next_update (\<lambda>_. Some a)) = Some ?c" using u by (simp add: upd_def)
  moreover have "\<forall>x. x \<notin> set as \<longrightarrow> ?c x = c x" using u(1) by auto
  ultimately show ?thesis using False by auto
qed

text \<open>Unlinking an entry: the write of \<open>cl_unlock_char\<close> to the entry before it or to the table.\<close>

lemma lock_chain_unlink:
  assumes "nseg c (rows ! i) (us @ a # vs) None" "distinct (us @ a # vs)" "c a = Some e" "i < length rows"
  shows "\<exists>c' rows'. (if (if us = [] then None else Some (last us)) \<noteq> None
        then do { c1 \<leftarrow> upd c (if us = [] then None else Some (last us)) (cl_next_update (\<lambda>_. cl_next e)); Some (c1, Some rows) }
        else do { t \<leftarrow> table_set (Some rows) i (cl_next e); Some (c, t) }) = Some (c', Some rows')
    \<and> length rows' = length rows \<and> (\<forall>k. k \<noteq> i \<longrightarrow> rows' ! k = rows ! k)
    \<and> nseg c' (rows' ! i) (us @ vs) None \<and> says c' = says c \<and> (\<forall>x. x \<notin> set us \<longrightarrow> c' x = c x)
    \<and> (\<forall>x. map_option (\<lambda>e. (cl_gsqnext e, cl_gsqprev e)) (c' x) = map_option (\<lambda>e. (cl_gsqnext e, cl_gsqprev e)) (c x))"
proof -
  from assms(1,3) have tl: "nseg c (cl_next e) vs None" and us0: "nseg c (rows ! i) us (Some a)"
    by (auto simp: nseg_append)
  show ?thesis
  proof (cases "us = []")
    case True
    then show ?thesis using assms(4) tl by (auto simp: table_set_def)
  next
    case False
    then obtain us' u where us: "us = us' @ [u]" by (metis rev_exhaust)
    with us0 obtain eu where u: "c u = Some eu" by (auto simp: nseg_append)
    let ?c = "c(u \<mapsto> eu\<lparr>cl_next := cl_next e\<rparr>)"
    have "nseg ?c (rows ! i) us (cl_next e)"
      using nseg_redirect [of c "rows ! i" us' u "Some a" eu "cl_next e"] us0 assms(2) u us by simp
    moreover have "nseg ?c (cl_next e) vs None"
      using tl us assms(2) by (subst cell_eq_frame(1) [of vs _ c]) auto
    ultimately have "nseg ?c (rows ! i) (us @ vs) None" by (auto simp: nseg_append)
    moreover have "says ?c = says c" using says_upd(1) u by simp
    moreover have "\<forall>x. map_option (\<lambda>e. (cl_gsqnext e, cl_gsqprev e)) (?c x) = map_option (\<lambda>e. (cl_gsqnext e, cl_gsqprev e)) (c x)"
      using u by auto
    moreover have "upd c (Some (last us)) (cl_next_update (\<lambda>_. cl_next e)) = Some ?c" using u us by (simp add: upd_def)
    moreover have "\<forall>x. x \<notin> set us \<longrightarrow> ?c x = c x" using us by auto
    ultimately show ?thesis using False by auto
  qed
qed

section \<open>Lookup\<close>

lemma cl_repD:
  assumes "cl_rep s ass bss"
  obtains rows grows where "clitbl s = Some rows" "gsqtbl s = Some grows"
    "length rows = clitbl_len s" "length grows = gsqtbl_len s"
    "\<And>i. i < clitbl_len s \<Longrightarrow> nseg (cl_cells s) (rows ! i) (ass ! i) None"
    "\<And>j. j < gsqtbl_len s \<Longrightarrow> \<exists>pv. gseg (cl_cells s) None (grows ! j) (bss ! j) pv None"
  using assms unfolding cl_rep_def by blast

lemma cl_rep_facts:
  assumes "cl_rep s ass bss"
  shows "0 < clitbl_len s" "0 < gsqtbl_len s" "length ass = clitbl_len s" "length bss = gsqtbl_len s"
    "\<And>i. i < clitbl_len s \<Longrightarrow> distinct (ass ! i)" "\<And>j. j < gsqtbl_len s \<Longrightarrow> distinct (bss ! j)"
    "\<And>i a. i < clitbl_len s \<Longrightarrow> a \<in> set (ass ! i) \<longleftrightarrow>
            a \<in> dom (cl_cells s) \<and> row_of (clitbl_len s) (name_of (cl_cells s) a) = i"
    "\<And>j a. j < gsqtbl_len s \<Longrightarrow> a \<in> set (bss ! j) \<longleftrightarrow>
            a \<in> dom (cl_cells s) \<and> gs_of (cl_cells s) a mod gsqtbl_len s = j"
    "inj_on (name_of (cl_cells s)) (dom (cl_cells s))"
    "\<And>a. a \<in> dom (cl_cells s) \<Longrightarrow> a < cl_fresh s \<and> length (name_of (cl_cells s) a) < MAX_CHARNAME_LEN"
  using assms unfolding cl_rep_def by blast+

lemma row_of_norm: "row_of n (norm_name name) = row_of n name"
  by (simp add: row_of_def string_hash_norm)

lemma name_of_cell: "c a = Some e \<Longrightarrow> name_of c a = norm_name (cl_charname e) \<and> gs_of c a = cl_gsid e"
  by (simp add: name_of_def gs_of_def says_def)

lemma lookup_row:
  assumes "cl_rep s ass bss" "norm_name name = nm"
  shows "\<exists>rows r. clitbl s = Some rows \<and> r = row_of (clitbl_len s) name \<and> r < length rows
    \<and> modulo (unat (string_hash (Some name))) (clitbl_len s) = Some r
    \<and> table_get (clitbl s) r = Some (rows ! r) \<and> nseg (cl_cells s) (rows ! r) (ass ! r) None
    \<and> distinct (ass ! r)
    \<and> (\<forall>a. a \<in> dom (cl_cells s) \<and> name_of (cl_cells s) a = nm \<longrightarrow> a \<in> set (ass ! r))"
proof -
  obtain rows grows where R: "clitbl s = Some rows" "length rows = clitbl_len s"
    "\<And>i. i < clitbl_len s \<Longrightarrow> nseg (cl_cells s) (rows ! i) (ass ! i) None"
    using cl_repD [OF assms(1)] by metis
  note F = cl_rep_facts [OF assms(1)]
  let ?r = "row_of (clitbl_len s) name"
  have r: "?r < clitbl_len s" using F(1) by (simp add: row_of_def)
  have "\<forall>a. a \<in> dom (cl_cells s) \<and> name_of (cl_cells s) a = nm \<longrightarrow> a \<in> set (ass ! ?r)"
    using F(7) [OF r] assms(2) row_of_norm by auto
  then show ?thesis using R r F(1,5) by (auto simp: modulo_def table_get_def row_of_def)
qed

text \<open>The search for a name, and for a name of one server.\<close>

lemma search_name:
  assumes "cl_rep s ass bss" "r = row_of (clitbl_len s) name" "clitbl s = Some rows"
    "nseg (cl_cells s) (rows ! r) (ass ! r) None"
    "\<forall>a. a \<in> dom (cl_cells s) \<and> name_of (cl_cells s) a = norm_name name \<longrightarrow> a \<in> set (ass ! r)"
  shows "(\<forall>a \<in> dom (cl_cells s). name_of (cl_cells s) a = norm_name name \<longrightarrow> \<not> Q (cl_gsid (the (cl_cells s a)))) \<and>
      chain_search (\<lambda>e. strcaseeq (cl_charname e) name \<and> Q (cl_gsid e)) (cl_cells s) (rows ! r) None
        = Some (None, if ass ! r = [] then None else Some (last (ass ! r)))
    \<or> (\<exists>us a vs. ass ! r = us @ a # vs \<and> a \<in> dom (cl_cells s) \<and> name_of (cl_cells s) a = norm_name name
        \<and> Q (gs_of (cl_cells s) a)
        \<and> chain_search (\<lambda>e. strcaseeq (cl_charname e) name \<and> Q (cl_gsid e)) (cl_cells s) (rows ! r) None
           = Some (Some a, if us = [] then None else Some (last us)))"
proof -
  let ?c = "cl_cells s" and ?P = "\<lambda>e. strcaseeq (cl_charname e) name \<and> Q (cl_gsid e)"
  have P: "?P (the (?c a)) \<longleftrightarrow> name_of ?c a = norm_name name \<and> Q (gs_of ?c a)" if "a \<in> dom ?c" for a
    using that name_of_cell [of ?c a] by (auto simp: strcaseeq_norm)
  from chain_search_first [OF assms(4), of ?P None] show ?thesis
  proof (elim disjE exE conjE)
    assume n: "\<forall>a \<in> set (ass ! r). \<not> ?P (the (?c a))"
      "chain_search ?P ?c (rows ! r) None = Some (None, if ass ! r = [] then None else Some (last (ass ! r)))"
    have "\<not> Q (cl_gsid (the (?c a)))" if "a \<in> dom ?c" "name_of ?c a = norm_name name" for a
      using n(1) assms(5) P [OF that(1)] that name_of_cell [of ?c a] by fastforce
    with n(2) show ?thesis by blast
  next
    fix us a vs
    assume y: "ass ! r = us @ a # vs" "strcaseeq (cl_charname (the (?c a))) name" "Q (cl_gsid (the (?c a)))"
      "chain_search ?P ?c (rows ! r) None = Some (Some a, if us = [] then None else Some (last us))"
    have "a \<in> dom ?c" using nseg_dom [OF assms(4), of a] y(1) by simp
    with y P show ?thesis by blast
  qed
qed

section \<open>The operations keep the invariant\<close>

lemma name_of_upd:
  assumes "says c' = (says c)(a \<mapsto> v)"
  shows "name_of c' x = (if x = a then norm_name (fst v) else name_of c x)"
    "gs_of c' x = (if x = a then snd (snd v) else gs_of c x)" "dom c' = insert a (dom c)"
  using assms says_dom [of c'] says_dom [of c] by (auto simp: name_of_def gs_of_def)

lemma name_of_del:
  assumes "says c' = (says c)(a := None)"
  shows "x \<noteq> a \<Longrightarrow> name_of c' x = name_of c x" "x \<noteq> a \<Longrightarrow> gs_of c' x = gs_of c x" "dom c' = dom c - {a}"
  using assms says_dom [of c'] says_dom [of c] by (auto simp: name_of_def gs_of_def)

lemma cl_repI:
  assumes "clitbl s = Some rows" "gsqtbl s = Some grows" "clitbl_len s = n" "gsqtbl_len s = m"
    "length rows = n" "length grows = m" "0 < n" "0 < m" "length ass = n" "length bss = m"
    "\<And>i. i < n \<Longrightarrow> nseg (cl_cells s) (rows ! i) (ass ! i) None"
    "\<And>j. j < m \<Longrightarrow> \<exists>pv. gseg (cl_cells s) None (grows ! j) (bss ! j) pv None"
    "\<And>i. i < n \<Longrightarrow> distinct (ass ! i)" "\<And>j. j < m \<Longrightarrow> distinct (bss ! j)"
    "\<And>i a. i < n \<Longrightarrow> a \<in> set (ass ! i) \<longleftrightarrow> a \<in> dom (cl_cells s) \<and> row_of n (name_of (cl_cells s) a) = i"
    "\<And>j a. j < m \<Longrightarrow> a \<in> set (bss ! j) \<longleftrightarrow> a \<in> dom (cl_cells s) \<and> gs_of (cl_cells s) a mod m = j"
    "inj_on (name_of (cl_cells s)) (dom (cl_cells s))"
    "\<forall>a \<in> dom (cl_cells s). a < cl_fresh s \<and> length (name_of (cl_cells s) a) < MAX_CHARNAME_LEN"
  shows "cl_rep s ass bss"
  unfolding cl_rep_def assms(3,4)
  by (intro conjI exI [of _ rows] exI [of _ grows] allI impI assms(1,2,5-18)) assumption+

text \<open>A new entry with the given links extends both representations.\<close>

lemma cl_rep_extend:
  assumes "cl_rep s ass bss" "a \<notin> dom (cl_cells s)" "a < cl_fresh s'"
    "says (cl_cells s') = (says (cl_cells s))(a \<mapsto> (name, realm, g))" "length name < MAX_CHARNAME_LEN"
    "\<forall>b \<in> dom (cl_cells s). name_of (cl_cells s) b \<noteq> norm_name name" "cl_fresh s \<le> cl_fresh s'"
    "clitbl_len s' = clitbl_len s" "gsqtbl_len s' = gsqtbl_len s"
    "r = row_of (clitbl_len s) name" "j = g mod gsqtbl_len s"
    "clitbl s' = Some rows'" "length rows' = clitbl_len s" "gsqtbl s' = Some grows'" "length grows' = gsqtbl_len s"
    "\<And>i. i < clitbl_len s \<Longrightarrow> nseg (cl_cells s') (rows' ! i) (ass[r := ass ! r @ [a]] ! i) None"
    "\<And>k. k < gsqtbl_len s \<Longrightarrow> \<exists>pv. gseg (cl_cells s') None (grows' ! k) (bss[j := a # bss ! j] ! k) pv None"
  shows "cl_rep s' (ass[r := ass ! r @ [a]]) (bss[j := a # bss ! j])"
proof -
  note F = cl_rep_facts [OF assms(1)]
  note N = name_of_upd [OF assms(4)]
  have r: "r < clitbl_len s" using F(1) assms(10) by (simp add: row_of_def)
  have j: "j < gsqtbl_len s" using F(2) assms(11) by simp
  have rr: "row_of (clitbl_len s) (norm_name name) = r" using assms(10) row_of_norm by simp
  have mem: "x \<in> set (ass[r := ass ! r @ [a]] ! i) \<longleftrightarrow> x \<in> dom (cl_cells s') \<and> row_of (clitbl_len s) (name_of (cl_cells s') x) = i"
    if "i < clitbl_len s" for i x
    using F(7) [OF that, of x] F(7) [OF r, of x] N rr F(3) r that assms(2) by (cases "i = r") auto
  have gmem: "x \<in> set (bss[j := a # bss ! j] ! k) \<longleftrightarrow> x \<in> dom (cl_cells s') \<and> gs_of (cl_cells s') x mod gsqtbl_len s = k"
    if "k < gsqtbl_len s" for k x
    using F(8) [OF that, of x] F(8) [OF j, of x] N assms(11) F(4) j that assms(2) by (cases "k = j") auto
  have dis: "distinct (ass[r := ass ! r @ [a]] ! i)" if "i < clitbl_len s" for i
    using F(5) [OF that] F(5) [OF r] F(7) [OF r, of a] F(3) r that assms(2) by (cases "i = r") auto
  have gdis: "distinct (bss[j := a # bss ! j] ! k)" if "k < gsqtbl_len s" for k
    using F(6) [OF that] F(6) [OF j] F(8) [OF j, of a] F(4) j that assms(2) by (cases "k = j") auto
  have inj: "inj_on (name_of (cl_cells s')) (dom (cl_cells s'))"
    using F(9) assms(2,6) N by (auto simp: inj_on_def) 
  have bd: "\<forall>x \<in> dom (cl_cells s'). x < cl_fresh s' \<and> length (name_of (cl_cells s') x) < MAX_CHARNAME_LEN"
  proof
    fix x assume "x \<in> dom (cl_cells s')"
    then have "x = a \<or> x \<noteq> a \<and> x \<in> dom (cl_cells s)" using N(3) by auto
    then show "x < cl_fresh s' \<and> length (name_of (cl_cells s') x) < MAX_CHARNAME_LEN"
      using F(10) [of x] N(1) [of x] assms(3,5,7) by (elim disjE conjE) simp_all
  qed
  show ?thesis
    using F(3,4)
    by (intro cl_repI [OF assms(12,14,8,9,13,15) F(1,2) _ _ assms(16,17) dis gdis mem gmem inj bd]) simp_all
qed

lemma cl_rep_shrink:
  assumes "cl_rep s ass bss" "a \<in> dom (cl_cells s)"
    "says (cl_cells s') = (says (cl_cells s))(a := None)" "cl_fresh s' = cl_fresh s"
    "clitbl_len s' = clitbl_len s" "gsqtbl_len s' = gsqtbl_len s"
    "r = row_of (clitbl_len s) (name_of (cl_cells s) a)" "j = gs_of (cl_cells s) a mod gsqtbl_len s"
    "ass ! r = us @ a # vs" "bss ! j = us' @ a # vs'"
    "clitbl s' = Some rows'" "length rows' = clitbl_len s" "gsqtbl s' = Some grows'" "length grows' = gsqtbl_len s"
    "\<And>i. i < clitbl_len s \<Longrightarrow> nseg (cl_cells s') (rows' ! i) (ass[r := us @ vs] ! i) None"
    "\<And>k. k < gsqtbl_len s \<Longrightarrow> \<exists>pv. gseg (cl_cells s') None (grows' ! k) (bss[j := us' @ vs'] ! k) pv None"
  shows "cl_rep s' (ass[r := us @ vs]) (bss[j := us' @ vs'])"
proof -
  note F = cl_rep_facts [OF assms(1)]
  note N = name_of_del [OF assms(3)]
  have r: "r < clitbl_len s" using F(1) assms(7) by (simp add: row_of_def)
  have j: "j < gsqtbl_len s" using F(2) assms(8) by simp
  have da: "a \<notin> set (us @ vs)" "a \<notin> set (us' @ vs')" using F(5) [OF r] F(6) [OF j] assms(9,10) by auto
  have mem: "x \<in> set (ass[r := us @ vs] ! i) \<longleftrightarrow> x \<in> dom (cl_cells s') \<and> row_of (clitbl_len s) (name_of (cl_cells s') x) = i"
    if "i < clitbl_len s" for i x
    using F(7) [OF that, of x] F(7) [OF r, of x] N(1) [of x] N(3) assms(7,9) da F(3) r that
    by (cases "i = r"; cases "x = a") auto
  have gmem: "x \<in> set (bss[j := us' @ vs'] ! k) \<longleftrightarrow> x \<in> dom (cl_cells s') \<and> gs_of (cl_cells s') x mod gsqtbl_len s = k"
    if "k < gsqtbl_len s" for k x
    using F(8) [OF that, of x] F(8) [OF j, of x] N(2) [of x] N(3) assms(8,10) da F(4) j that
    by (cases "k = j"; cases "x = a") auto
  have dis: "distinct (ass[r := us @ vs] ! i)" if "i < clitbl_len s" for i
    using F(5) [OF that] F(5) [OF r] assms(9) F(3) r that by (cases "i = r") auto
  have gdis: "distinct (bss[j := us' @ vs'] ! k)" if "k < gsqtbl_len s" for k
    using F(6) [OF that] F(6) [OF j] assms(10) F(4) j that by (cases "k = j") auto
  have inj: "inj_on (name_of (cl_cells s')) (dom (cl_cells s'))"
  proof (rule inj_onI)
    fix x y assume "x \<in> dom (cl_cells s')" "y \<in> dom (cl_cells s')" "name_of (cl_cells s') x = name_of (cl_cells s') y"
    then show "x = y" using F(9) N(1) [of x] N(1) [of y] N(3) by (auto dest: inj_onD)
  qed
  have bd: "\<forall>x \<in> dom (cl_cells s'). x < cl_fresh s' \<and> length (name_of (cl_cells s') x) < MAX_CHARNAME_LEN"
  proof
    fix x assume "x \<in> dom (cl_cells s')"
    then have "x \<in> dom (cl_cells s)" "x \<noteq> a" using N(3) by auto
    with F(10) [of x] N(1) [of x] assms(4)
    show "x < cl_fresh s' \<and> length (name_of (cl_cells s') x) < MAX_CHARNAME_LEN" by simp
  qed
  show ?thesis
    using F(3,4)
    by (intro cl_repI [OF assms(11,13,5,6,12,14) F(1,2) _ _ assms(15,16) dis gdis mem gmem inj bd]) simp_all
qed


lemma take_name: "length name < MAX_CHARNAME_LEN \<Longrightarrow> take (MAX_CHARNAME_LEN - 1) name = name"
  by simp

lemma other_row:
  assumes "cl_rep s ass bss" "i < clitbl_len s" "k < clitbl_len s" "i \<noteq> k" "x \<in> set (ass ! i)"
  shows "x \<notin> set (ass ! k)"
  using cl_rep_facts(7) [OF assms(1), of i x] cl_rep_facts(7) [OF assms(1), of k x] assms(2-5) by simp

lemma other_grow:
  assumes "cl_rep s ass bss" "i < gsqtbl_len s" "k < gsqtbl_len s" "i \<noteq> k" "x \<in> set (bss ! i)"
  shows "x \<notin> set (bss ! k)"
  using cl_rep_facts(8) [OF assms(1), of i x] cl_rep_facts(8) [OF assms(1), of k x] assms(2-5) by simp

lemma lock_found:
  assumes "cl_rep s ass bss" "length name < MAX_CHARNAME_LEN"
    "a \<in> dom (cl_cells s)" "name_of (cl_cells s) a = norm_name name"
  shows "cl_lock_char s (Some name) (Some realm) g = Some (0, s)
    \<and> cl_query_charlock_status s (Some name) (Some realm) = Some (1, Some (gs_of (cl_cells s) a))"
proof -
  note F = cl_rep_facts [OF assms(1)]
  obtain rows r where R: "clitbl s = Some rows" "r = row_of (clitbl_len s) name" "r < length rows"
    "modulo (unat (string_hash (Some name))) (clitbl_len s) = Some r"
    "table_get (clitbl s) r = Some (rows ! r)" "nseg (cl_cells s) (rows ! r) (ass ! r) None"
    "\<forall>a. a \<in> dom (cl_cells s) \<and> name_of (cl_cells s) a = norm_name name \<longrightarrow> a \<in> set (ass ! r)"
    using lookup_row [OF assms(1) refl, of name] by blast
  from search_name [OF assms(1) R(2,1,6,7), of "\<lambda>_. True"] assms(3,4) obtain b t where
    b: "b \<in> dom (cl_cells s)" "name_of (cl_cells s) b = norm_name name"
      "chain_search (\<lambda>e. strcaseeq (cl_charname e) name) (cl_cells s) (rows ! r) None = Some (Some b, t)"
    by (simp add: conj_ac) blast
  have "b = a" using F(9) assms(3,4) b(1,2) by (metis inj_onD)
  with b obtain e where e: "cl_cells s a = Some e" by auto
  obtain grows where "gsqtbl s = Some grows" using cl_repD [OF assms(1)] by metis
  then show ?thesis
    using F(1) assms(2) R b(3) e name_of_cell [of "cl_cells s" a e] \<open>b = a\<close>
    by (simp add: cl_lock_char_def cl_query_charlock_status_def)
qed

lemma lock_new:
  assumes "cl_rep s ass bss" "length name < MAX_CHARNAME_LEN"
    "\<forall>a \<in> dom (cl_cells s). name_of (cl_cells s) a \<noteq> norm_name name"
  shows "cl_query_charlock_status s (Some name) (Some realm) = Some (0, None)
    \<and> (\<exists>s' ass' bss'. cl_lock_char s (Some name) (Some realm) g = Some (0, s') \<and> cl_rep s' ass' bss'
       \<and> says (cl_cells s') = (says (cl_cells s))(cl_fresh s \<mapsto> (name, take (MAX_REALMNAME_LEN - 1) realm, g)))"
proof -
  note F = cl_rep_facts [OF assms(1)]
  let ?c = "cl_cells s" and ?a = "cl_fresh s"
  obtain rows r where R: "clitbl s = Some rows" "r = row_of (clitbl_len s) name" "r < length rows"
    "modulo (unat (string_hash (Some name))) (clitbl_len s) = Some r"
    "table_get (clitbl s) r = Some (rows ! r)" "nseg ?c (rows ! r) (ass ! r) None" "distinct (ass ! r)"
    "\<forall>a. a \<in> dom ?c \<and> name_of ?c a = norm_name name \<longrightarrow> a \<in> set (ass ! r)"
    using lookup_row [OF assms(1) refl, of name] by blast
  obtain grows where G: "gsqtbl s = Some grows" "length grows = gsqtbl_len s" "length rows = clitbl_len s"
    "\<And>j. j < gsqtbl_len s \<Longrightarrow> \<exists>pv. gseg ?c None (grows ! j) (bss ! j) pv None"
    "\<And>i. i < clitbl_len s \<Longrightarrow> nseg ?c (rows ! i) (ass ! i) None"
    using cl_repD [OF assms(1)] R(1) by (metis option.inject)
  have r: "r < clitbl_len s" using R(3) G(3) by simp
  define j where "j = g mod gsqtbl_len s"
  have j: "j < gsqtbl_len s" using F(2) by (simp add: j_def)
  from search_name [OF assms(1) R(2,1,6,8), of "\<lambda>_. True"]
  have sr: "chain_search (\<lambda>e. strcaseeq (cl_charname e) name) ?c (rows ! r) None
      = Some (None, if ass ! r = [] then None else Some (last (ass ! r)))"
    using assms(3) by (elim disjE exE conjE) (simp, metis)
  have fr: "?a \<notin> dom ?c" using F(10) by blast
  have frr: "?a \<notin> set (ass ! i)" if "i < clitbl_len s" for i using F(7) [OF that] fr by blast
  have frg: "?a \<notin> set (bss ! k)" if "k < gsqtbl_len s" for k using F(8) [OF that] fr by blast
  let ?e = "\<lparr>cl_charname = take (MAX_CHARNAME_LEN - 1) name, cl_realmname = take (MAX_REALMNAME_LEN - 1) realm,
      cl_gsid = g, cl_next = None, cl_gsqnext = None, cl_gsqprev = None\<rparr>"
  let ?cc = "?c(?a \<mapsto> ?e)"
  let ?lk = "map_option (\<lambda>e. (cl_gsqnext e, cl_gsqprev e))"
  have c0: "nseg ?cc (rows ! r) (ass ! r) None"
    using R(6) frr [OF r] by (subst cell_eq_frame(1) [of _ _ ?c]) auto
  from chain_append [OF c0 R(7) frr [OF r], of ?e] R(3) obtain c' rows' where C:
    "(if (if ass ! r = [] then None else Some (last (ass ! r))) \<noteq> None
        then do { c1 \<leftarrow> upd ?cc (if ass ! r = [] then None else Some (last (ass ! r))) (cl_next_update (\<lambda>_. Some ?a)); Some (c1, Some rows) }
        else do { t \<leftarrow> table_set (Some rows) r (Some ?a); Some (?cc, t) }) = Some (c', Some rows')"
    "length rows' = length rows" "\<forall>k. k \<noteq> r \<longrightarrow> rows' ! k = rows ! k"
    "nseg c' (rows' ! r) (ass ! r @ [?a]) None" "says c' = says ?cc" "\<forall>x. x \<notin> set (ass ! r) \<longrightarrow> c' x = ?cc x"
    "\<forall>x. ?lk (c' x) = ?lk (?cc x)"
    by (simp only: fun_upd_same t_charlockinfo.select_convs simp_thms) blast
  define s1 where "s1 = s\<lparr>cl_cells := c', cl_fresh := Suc ?a, clitbl := Some rows'\<rparr>"
  have c'a: "c' ?a = Some ?e" using C(6) frr [OF r] by simp
  have lk: "?lk (c' x) = ?lk (?c x)" if "x \<noteq> ?a" for x using C(7) that by simp
  obtain pv where "gseg ?c None (grows ! j) (bss ! j) pv None" using G(4) [OF j] by blast
  then have gs1: "gseg (cl_cells s1) None (grows ! j) (bss ! j) pv None"
  proof -
    have "?lk (c' x) = ?lk (?c x)" if "x \<in> set (bss ! j)" for x
      using lk [of x] frg [OF j] that by metis
    then show ?thesis
      unfolding s1_def using \<open>gseg ?c None (grows ! j) (bss ! j) pv None\<close>
      by (simp, subst gseg_frame [of _ _ ?c]) auto
  qed
  have s1: "cl_cells s1 ?a = Some ?e" "gsqtbl s1 = Some grows" "length grows = gsqtbl_len s1"
    "0 < gsqtbl_len s1" "g mod gsqtbl_len s1 = j"
    using c'a G(1,2) F(2) by (simp_all add: s1_def j_def)
  from gsq_insert [OF s1(1) _ _ s1(2-5) gs1 frg [OF j] F(6) [OF j]] obtain c'' pv' where I:
    "cl_insert_to_gsq_list s1 g (Some ?a) = Some (0, s1\<lparr>gsqtbl := Some (grows[j := Some ?a]), cl_cells := c''\<rparr>)"
    "says c'' = says c'" "\<forall>x. map_option cl_next (c'' x) = map_option cl_next (c' x)"
    "\<forall>x. x \<noteq> ?a \<and> x \<notin> set (bss ! j) \<longrightarrow> c'' x = c' x" "gseg c'' None (Some ?a) (?a # bss ! j) pv' None"
    unfolding s1_def by auto
  define s2 where "s2 = s1\<lparr>gsqtbl := Some (grows[j := Some ?a]), cl_cells := c''\<rparr>"
  have says2: "says (cl_cells s2) = (says ?c)(?a \<mapsto> (name, take (MAX_REALMNAME_LEN - 1) realm, g))"
    using I(2) C(5) take_name [OF assms(2)] by (auto simp: s2_def says_def fun_eq_iff)
  have rows2: "nseg (cl_cells s2) (rows' ! i) (ass[r := ass ! r @ [?a]] ! i) None" if i: "i < clitbl_len s" for i
  proof (cases "i = r")
    case True
    have "nseg c'' (rows' ! r) (ass ! r @ [?a]) None" using C(4) I(3) by (subst nseg_frame [of _ _ c']) auto
    then show ?thesis using True F(3) r by (simp add: s2_def)
  next
    case False
    have "map_option cl_next (c'' x) = map_option cl_next (?c x)" if "x \<in> set (ass ! i)" for x
      using that I(3) C(6) other_row [OF assms(1) i r False that] frr [OF i] by auto
    then have "nseg c'' (rows ! i) (ass ! i) None" using G(5) [OF i] by (subst nseg_frame [of _ _ ?c]) auto
    then show ?thesis using False C(3) by (simp add: s2_def)
  qed
  have grows2: "\<exists>pv. gseg (cl_cells s2) None (grows[j := Some ?a] ! k) (bss[j := ?a # bss ! j] ! k) pv None"
    if k: "k < gsqtbl_len s" for k
  proof (cases "k = j")
    case True
    then show ?thesis using I(5) G(2) F(4) j by (auto simp: s2_def)
  next
    case False
    have "?lk (c'' x) = ?lk (?c x)" if "x \<in> set (bss ! k)" for x
    proof -
      have "x \<noteq> ?a" "x \<notin> set (bss ! j)" using that frg [OF k] other_grow [OF assms(1) k j False that] by auto
      then show ?thesis using I(4) lk by simp
    qed
    moreover obtain pv where "gseg ?c None (grows ! k) (bss ! k) pv None" using G(4) [OF k] by blast
    ultimately have "gseg c'' None (grows ! k) (bss ! k) pv None" by (subst gseg_frame [of _ _ ?c]) auto
    then show ?thesis using False by (auto simp: s2_def)
  qed
  have "cl_rep s2 (ass[r := ass ! r @ [?a]]) (bss[j := ?a # bss ! j])"
    by (rule cl_rep_extend [OF assms(1) fr _ says2 assms(2,3) _ _ _ R(2) j_def _ _ _ _ rows2 grows2])
      (simp_all add: s2_def s1_def C(2) G(2,3))
  moreover have "cl_lock_char s (Some name) (Some realm) g = Some (0, s2)"
  proof -
    have g: "(clitbl_len s = 0 \<or> gsqtbl s = None) = False" "(length name \<ge> MAX_CHARNAME_LEN) = False"
      using F(1) G(1) assms(2) by simp_all
    show ?thesis
      by (simp only: cl_lock_char_def prod.case option.case g if_False R(4,5) Option.bind.simps sr simp_thms
          Let_def C(1) [folded R(1)] s1_def [symmetric] I(1) s2_def [symmetric])
  qed
  moreover have "cl_query_charlock_status s (Some name) (Some realm) = Some (0, None)"
    using F(1) G(1) assms(2) R(1,4,5) sr by (simp add: cl_query_charlock_status_def)
  ultimately show ?thesis using says2 by blast
qed


lemma unlock_none:
  assumes "cl_rep s ass bss" "length name < MAX_CHARNAME_LEN"
    "\<forall>a \<in> dom (cl_cells s). name_of (cl_cells s) a = norm_name name \<longrightarrow> gs_of (cl_cells s) a \<noteq> g"
  shows "cl_unlock_char s (Some name) (Some realm) g = Some (0, s)"
proof -
  note F = cl_rep_facts [OF assms(1)]
  obtain rows r where R: "clitbl s = Some rows" "r = row_of (clitbl_len s) name" "r < length rows"
    "modulo (unat (string_hash (Some name))) (clitbl_len s) = Some r"
    "table_get (clitbl s) r = Some (rows ! r)" "nseg (cl_cells s) (rows ! r) (ass ! r) None"
    "\<forall>a. a \<in> dom (cl_cells s) \<and> name_of (cl_cells s) a = norm_name name \<longrightarrow> a \<in> set (ass ! r)"
    using lookup_row [OF assms(1) refl, of name] by blast
  from search_name [OF assms(1) R(2,1,6,7), of "\<lambda>x. x = g"] obtain t where
    sr: "chain_search (\<lambda>e. strcaseeq (cl_charname e) name \<and> cl_gsid e = g) (cl_cells s) (rows ! r) None = Some (None, t)"
    using assms(3) by (elim disjE exE conjE) metis+
  obtain grows where "gsqtbl s = Some grows" using cl_repD [OF assms(1)] by metis
  then show ?thesis using F(1) assms(2) R(4,5) sr by (simp add: cl_unlock_char_def)
qed

lemma unlock_some:
  assumes "cl_rep s ass bss" "length name < MAX_CHARNAME_LEN" "a \<in> dom (cl_cells s)"
    "name_of (cl_cells s) a = norm_name name" "gs_of (cl_cells s) a = g" "j = g mod gsqtbl_len s"
    "bss ! j = us' @ a # vs'"
  shows "\<exists>s' ass'. cl_unlock_char s (Some name) (Some realm) g = Some (0, s')
       \<and> cl_rep s' ass' (bss[j := us' @ vs']) \<and> gsqtbl_len s' = gsqtbl_len s
       \<and> says (cl_cells s') = (says (cl_cells s))(a := None)"
proof -
  note F = cl_rep_facts [OF assms(1)]
  let ?c = "cl_cells s"
  obtain rows r where R: "clitbl s = Some rows" "r = row_of (clitbl_len s) name" "r < length rows"
    "modulo (unat (string_hash (Some name))) (clitbl_len s) = Some r"
    "table_get (clitbl s) r = Some (rows ! r)" "nseg ?c (rows ! r) (ass ! r) None" "distinct (ass ! r)"
    "\<forall>a. a \<in> dom ?c \<and> name_of ?c a = norm_name name \<longrightarrow> a \<in> set (ass ! r)"
    using lookup_row [OF assms(1) refl, of name] by blast
  obtain grows where G: "gsqtbl s = Some grows" "length grows = gsqtbl_len s" "length rows = clitbl_len s"
    "\<And>j. j < gsqtbl_len s \<Longrightarrow> \<exists>pv. gseg ?c None (grows ! j) (bss ! j) pv None"
    "\<And>i. i < clitbl_len s \<Longrightarrow> nseg ?c (rows ! i) (ass ! i) None"
    using cl_repD [OF assms(1)] R(1) by (metis option.inject)
  have r: "r < clitbl_len s" using R(3) G(3) by simp
  have j: "j < gsqtbl_len s" using F(2) assms(6) by simp
  from search_name [OF assms(1) R(2,1,6,8), of "\<lambda>x. x = g"] assms(3-5)
  obtain us vs where as: "ass ! r = us @ a # vs" and
    sr: "chain_search (\<lambda>e. strcaseeq (cl_charname e) name \<and> cl_gsid e = g) ?c (rows ! r) None
      = Some (Some a, if us = [] then None else Some (last us))"
  proof (elim disjE exE conjE)
    assume "\<forall>a \<in> dom ?c. name_of ?c a = norm_name name \<longrightarrow> cl_gsid (the (?c a)) \<noteq> g"
    moreover obtain e where "?c a = Some e" using assms(3) by auto
    ultimately show ?thesis using assms(3-5) name_of_cell [of ?c a e] by auto
  next
    fix us b vs
    assume b: "ass ! r = us @ b # vs" "b \<in> dom ?c" "name_of ?c b = norm_name name"
      "chain_search (\<lambda>e. strcaseeq (cl_charname e) name \<and> cl_gsid e = g) ?c (rows ! r) None
        = Some (Some b, if us = [] then None else Some (last us))"
    have "b = a" using F(9) assms(3,4) b(2,3) by (metis inj_onD)
    with b that show ?thesis by blast
  qed
  obtain e where e: "?c a = Some e" "cl_gsid e = g" using assms(3,5) name_of_cell [of ?c a] by auto
  obtain pv where gj: "gseg ?c None (grows ! j) (us' @ a # vs') pv None" using G(4) [OF j] assms(7) by auto
  have "distinct (us' @ a # vs')" using F(6) [OF j] assms(7) by simp
  from gsq_delete [OF e(1) G(1,2) F(2) _ gj this] e(2) assms(6) obtain c1 p' pv' where D:
    "cl_delete_from_gsq_list s (Some a) = Some (0, s\<lparr>gsqtbl := Some (grows[j := p']), cl_cells := c1\<rparr>)"
    "says c1 = says ?c" "\<forall>x. map_option cl_next (c1 x) = map_option cl_next (?c x)"
    "\<forall>x. x \<notin> set (us' @ vs') \<longrightarrow> c1 x = ?c x" "gseg c1 None p' (us' @ vs') pv' None" by blast
  define s1 where "s1 = s\<lparr>gsqtbl := Some (grows[j := p']), cl_cells := c1\<rparr>"
  have nx: "nseg c1 p bs q = nseg ?c p bs q" for p bs q using D(3) by (intro nseg_frame) simp
  have ch1: "nseg c1 (rows ! r) (us @ a # vs) None" using nx R(6) as by simp
  have dis: "distinct (us @ a # vs)" using R(7) as by simp
  obtain e1 where e1: "c1 a = Some e1" using nseg_dom [OF ch1, of a] by auto
  from lock_chain_unlink [OF ch1 dis e1 R(3)] obtain c2 rows' where U:
    "(if (if us = [] then None else Some (last us)) \<noteq> None
        then do { c1 \<leftarrow> upd c1 (if us = [] then None else Some (last us)) (cl_next_update (\<lambda>_. cl_next e1)); Some (c1, Some rows) }
        else do { t \<leftarrow> table_set (Some rows) r (cl_next e1); Some (c1, t) }) = Some (c2, Some rows')"
    "length rows' = length rows" "\<forall>k. k \<noteq> r \<longrightarrow> rows' ! k = rows ! k"
    "nseg c2 (rows' ! r) (us @ vs) None" "says c2 = says c1" "\<forall>x. x \<notin> set us \<longrightarrow> c2 x = c1 x"
    "\<forall>x. map_option (\<lambda>e. (cl_gsqnext e, cl_gsqprev e)) (c2 x) = map_option (\<lambda>e. (cl_gsqnext e, cl_gsqprev e)) (c1 x)"
    by (elim exE conjE) (rule that; assumption)
  define s2 where "s2 = s1\<lparr>cl_cells := c2(a := None), clitbl := Some rows'\<rparr>"
  have cl1: "clitbl s1 = Some rows" "cl_cells s1 = c1" using R(1) by (simp_all add: s1_def)
  have call: "cl_unlock_char s (Some name) (Some realm) g = Some (0, s2)"
  proof -
    have g: "(clitbl_len s = 0 \<or> gsqtbl s = None) = False" "(length name \<ge> MAX_CHARNAME_LEN) = False"
      using F(1) G(1) assms(2) by simp_all
    show ?thesis
      by (simp only: cl_unlock_char_def prod.case option.case g if_False R(4,5) Option.bind.simps sr simp_thms
          D(1) s1_def [symmetric] cl1 e1 U(1) s2_def [symmetric])
  qed
  have says2: "says (cl_cells s2) = (says ?c)(a := None)"
    using U(5) D(2) by (auto simp: s2_def says_def fun_eq_iff)
  have rows2: "nseg (cl_cells s2) (rows' ! i) (ass[r := us @ vs] ! i) None" if i: "i < clitbl_len s" for i
  proof (cases "i = r")
    case True
    have "a \<notin> set (us @ vs)" using dis by auto
    then have "nseg (c2(a := None)) (rows' ! r) (us @ vs) None"
      using U(4) by (subst cell_eq_frame(1) [of _ _ c2]) auto
    then show ?thesis using True F(3) r by (simp add: s2_def)
  next
    case False
    have "(c2(a := None)) x = c1 x" if x: "x \<in> set (ass ! i)" for x
    proof -
      have "x \<notin> set (ass ! r)" using other_row [OF assms(1) i r False x] .
      then show ?thesis using U(6) as by simp
    qed
    then have "nseg (c2(a := None)) (rows ! i) (ass ! i) None"
      using G(5) [OF i] nx by (subst cell_eq_frame(1) [of _ _ c1]) auto
    then show ?thesis using False U(3) by (simp add: s2_def)
  qed
  have grows2: "\<exists>pv. gseg (cl_cells s2) None (grows[j := p'] ! k) (bss[j := us' @ vs'] ! k) pv None"
    if k: "k < gsqtbl_len s" for k
  proof -
    have fr: "gseg (c2(a := None)) pr p bs pr' q = gseg c1 pr p bs pr' q" if "a \<notin> set bs" for pr p bs pr' q
      using that U(7) by (intro gseg_frame) auto
    show ?thesis
    proof (cases "k = j")
      case True
      have "a \<notin> set (us' @ vs')" using F(6) [OF j] assms(7) by auto
      then show ?thesis using fr D(5) True G(2) F(4) j by (auto simp: s2_def)
    next
      case False
      obtain pv where g: "gseg ?c None (grows ! k) (bss ! k) pv None" using G(4) [OF k] by blast
      have "x \<notin> set (bss ! j)" if "x \<in> set (bss ! k)" for x using other_grow [OF assms(1) k j False that] .
      then have dj: "set (bss ! k) \<inter> set (us' @ a # vs') = {}" using assms(7) by auto
      then have a: "a \<notin> set (bss ! k)" by auto
      have "c1 x = ?c x" if "x \<in> set (bss ! k)" for x
      proof -
        have "x \<notin> set (us' @ vs')" using dj that by auto
        then show ?thesis using D(4) by blast
      qed
      then have "gseg c1 None (grows ! k) (bss ! k) pv None"
        using g by (subst cell_eq_frame(2) [of _ _ ?c]) auto
      then show ?thesis using fr [OF a] False by (auto simp: s2_def)
    qed
  qed
  have "cl_rep s2 (ass[r := us @ vs]) (bss[j := us' @ vs'])"
    by (rule cl_rep_shrink [OF assms(1,3) says2 _ _ _ _ _ as assms(7) _ _ _ _ rows2 grows2])
      (use assms(4-6) R(2) row_of_norm in \<open>simp_all add: s2_def s1_def U(2) G(2,3)\<close>)
  moreover have "gsqtbl_len s2 = gsqtbl_len s" by (simp add: s2_def s1_def)
  ultimately show ?thesis using call says2 by blast
qed


definition head_ptr :: "nat list \<Rightarrow> nat option" where
  "head_ptr vs = (case vs of [] \<Rightarrow> None | v # _ \<Rightarrow> Some v)"

lemma gseg_from:
  assumes "gseg c None p (ks @ vs) pv None"
  shows "\<exists>pr. gseg c pr (head_ptr vs) vs pv None"
  using assms by (cases vs) (auto simp: gseg_append head_ptr_def)

text \<open>\<open>cl_unlock_all_char_by_gsid\<close> walks the list of the server's row: \<open>vs\<close> is still ahead.\<close>

lemma unlock_loop_spec:
  assumes "cl_rep s ass bss" "j = g mod gsqtbl_len s" "bss ! j = ks @ vs"
  shows "\<exists>s' ass' bss'. unlock_loop s g (head_ptr vs) = Some s' \<and> cl_rep s' ass' bss'
    \<and> says (cl_cells s') = (\<lambda>x. if x \<in> set vs \<and> gs_of (cl_cells s) x = g then None else says (cl_cells s) x)"
  using assms
proof (induction vs arbitrary: s ass bss ks)
  case Nil
  then show ?case by (subst unlock_loop.simps) (auto simp: head_ptr_def)
next
  case (Cons v vs)
  note F = cl_rep_facts [OF Cons.prems(1)]
  have j: "j < gsqtbl_len s" using F(2) Cons.prems(2) by simp
  have vd: "v \<in> dom (cl_cells s)" and nv: "v \<notin> set vs" "v \<notin> set ks"
    using F(8) [OF j, of v] F(6) [OF j] Cons.prems(3) by simp_all
  from cl_repD [OF Cons.prems(1)] j obtain pv p where "gseg (cl_cells s) None p (ks @ v # vs) pv None"
    using Cons.prems(3) by metis
  from gseg_from [OF this] obtain e pr where e: "cl_cells s v = Some e" "gseg (cl_cells s) (Some v) (cl_gsqnext e) vs pv None"
    by auto
  have nxt: "cl_gsqnext e = head_ptr vs" using e(2) by (cases vs) (auto simp: head_ptr_def)
  have nm: "name_of (cl_cells s) v = norm_name (cl_charname e)" "gs_of (cl_cells s) v = cl_gsid e"
    using name_of_cell [of "cl_cells s" v e] e(1) by simp_all
  have len: "length (cl_charname e) < MAX_CHARNAME_LEN" using F(10) [OF vd] nm(1) by simp
  let ?call = "cl_unlock_char s (Some (cl_charname e)) (Some (cl_realmname e)) g"
  show ?case
  proof (cases "cl_gsid e = g")
    case True
    from unlock_some [OF Cons.prems(1) len vd nm(1) _ Cons.prems(2,3)] nm(2) True obtain s1 ass1 where
      s1: "?call = Some (0, s1)" "cl_rep s1 ass1 (bss[j := ks @ vs])" "gsqtbl_len s1 = gsqtbl_len s"
      "says (cl_cells s1) = (says (cl_cells s))(v := None)" by blast
    have "j = g mod gsqtbl_len s1" "bss[j := ks @ vs] ! j = ks @ vs"
      using s1(3) Cons.prems(2) F(4) j by simp_all
    from Cons.IH [OF s1(2) this] obtain s' ass' bss' where
      s': "unlock_loop s1 g (head_ptr vs) = Some s'" "cl_rep s' ass' bss'"
      "says (cl_cells s') = (\<lambda>x. if x \<in> set vs \<and> gs_of (cl_cells s1) x = g then None else says (cl_cells s1) x)"
      by blast
    have "gs_of (cl_cells s1) x = gs_of (cl_cells s) x" if "x \<in> set vs" for x
      using name_of_del(2) [OF s1(4), of x] that nv(1) by metis
    then have "says (cl_cells s') = (\<lambda>x. if x \<in> set (v # vs) \<and> gs_of (cl_cells s) x = g then None else says (cl_cells s) x)"
      unfolding s'(3) s1(4) using nm(2) True by (auto simp: fun_eq_iff)
    moreover have "unlock_loop s g (head_ptr (v # vs)) = Some s'"
      using e(1) s1(1) nxt s'(1) by (subst unlock_loop.simps) (simp add: head_ptr_def)
    ultimately show ?thesis using s'(2) by blast
  next
    case False
    have "?call = Some (0, s)"
    proof (rule unlock_none [OF Cons.prems(1) len], intro ballI impI)
      fix b assume "b \<in> dom (cl_cells s)" "name_of (cl_cells s) b = norm_name (cl_charname e)"
      then have "b = v" using F(9) vd nm(1) by (metis inj_onD)
      then show "gs_of (cl_cells s) b \<noteq> g" using False nm(2) by simp
    qed
    then have st: "unlock_loop s g (head_ptr (v # vs)) = unlock_loop s g (head_ptr vs)"
      using e(1) nxt by (subst unlock_loop.simps) (simp add: head_ptr_def)
    from Cons.IH [OF Cons.prems(1,2), of "ks @ [v]"] Cons.prems(3) obtain s' ass' bss' where
      s': "unlock_loop s g (head_ptr vs) = Some s'" "cl_rep s' ass' bss'"
      "says (cl_cells s') = (\<lambda>x. if x \<in> set vs \<and> gs_of (cl_cells s) x = g then None else says (cl_cells s) x)"
      by auto
    have "says (cl_cells s') = (\<lambda>x. if x \<in> set (v # vs) \<and> gs_of (cl_cells s) x = g then None else says (cl_cells s) x)"
      unfolding s'(3) using nm(2) False by (auto simp: fun_eq_iff)
    with st s'(1,2) show ?thesis by auto
  qed
qed

lemma unlock_all_spec:
  assumes "cl_rep s ass bss"
  shows "\<exists>s' ass' bss'. cl_unlock_all_char_by_gsid s g = Some (0, s') \<and> cl_rep s' ass' bss'
    \<and> says (cl_cells s') = (\<lambda>x. if x \<in> dom (cl_cells s) \<and> gs_of (cl_cells s) x = g then None else says (cl_cells s) x)"
proof -
  note F = cl_rep_facts [OF assms]
  define j where "j = g mod gsqtbl_len s"
  have j: "j < gsqtbl_len s" using F(2) by (simp add: j_def)
  obtain grows where G: "gsqtbl s = Some grows" "length grows = gsqtbl_len s"
    "\<And>j. j < gsqtbl_len s \<Longrightarrow> \<exists>pv. gseg (cl_cells s) None (grows ! j) (bss ! j) pv None"
    using cl_repD [OF assms] by metis
  then have hd: "grows ! j = head_ptr (bss ! j)"
    using j gseg_head by (fastforce simp: head_ptr_def split: list.splits)
  from unlock_loop_spec [OF assms j_def, of "[]"] obtain s' ass' bss' where
    s': "unlock_loop s g (head_ptr (bss ! j)) = Some s'" "cl_rep s' ass' bss'"
    "says (cl_cells s') = (\<lambda>x. if x \<in> set (bss ! j) \<and> gs_of (cl_cells s) x = g then None else says (cl_cells s) x)"
    by auto
  have "x \<in> set (bss ! j) \<and> gs_of (cl_cells s) x = g \<longleftrightarrow> x \<in> dom (cl_cells s) \<and> gs_of (cl_cells s) x = g" for x
    using F(8) [OF j, of x] by (auto simp: j_def)
  moreover have "cl_unlock_all_char_by_gsid s g = Some (0, s')"
    using G(1,2) F(2) j s'(1) hd
    by (simp add: cl_unlock_all_char_by_gsid_def modulo_def table_get_def j_def)
  ultimately show ?thesis using s'(2,3) by simp blast
qed

section \<open>The map of locks\<close>

lemma locks_iff:
  "locks c m \<Longrightarrow> a \<in> dom c \<Longrightarrow> m (name_of c a) = Some (gs_of c a)"
  by (auto simp: locks_def)

lemma locks_none: "locks c m \<Longrightarrow> m n = None \<longleftrightarrow> (\<forall>a \<in> dom c. name_of c a \<noteq> n)"
  unfolding locks_def by (metis not_Some_eq)

lemma locks_lock:
  assumes "locks c m" "says c' = (says c)(a \<mapsto> (name, r, g))" "a \<notin> dom c"
    "\<forall>b \<in> dom c. name_of c b \<noteq> norm_name name"
  shows "locks c' (m(norm_name name \<mapsto> g))"
  unfolding locks_def
proof (intro allI)
  fix n g'
  note N = name_of_upd [OF assms(2)]
  have L: "m n = Some g' \<longleftrightarrow> (\<exists>a \<in> dom c. name_of c a = n \<and> gs_of c a = g')" using assms(1) by (simp add: locks_def)
  show "(m(norm_name name \<mapsto> g)) n = Some g' \<longleftrightarrow> (\<exists>a \<in> dom c'. name_of c' a = n \<and> gs_of c' a = g')"
  proof (cases "n = norm_name name")
    case True
    then show ?thesis using N assms(3,4) by auto
  next
    case False
    have "x \<in> dom c \<Longrightarrow> x \<noteq> a" for x using assms(3) by metis
    then have "(\<exists>x \<in> dom c. name_of c' x = n \<and> gs_of c' x = g') = (\<exists>x \<in> dom c. name_of c x = n \<and> gs_of c x = g')"
      by (intro bex_cong refl) (simp add: N)
    moreover have "name_of c' a \<noteq> n" using False N(1) [of a] by simp
    ultimately show ?thesis using False L N(3) by auto
  qed
qed

lemma locks_drop:
  assumes "locks c m" "inj_on (name_of c) (dom c)"
    "says c' = (\<lambda>x. if x \<in> dom c \<and> Q (name_of c x) (gs_of c x) then None else says c x)"
  shows "locks c' (\<lambda>n. case m n of None \<Rightarrow> None | Some g \<Rightarrow> if Q n g then None else Some g)"
  unfolding locks_def
proof (intro allI)
  fix n g
  have d: "x \<in> dom c' \<longleftrightarrow> x \<in> dom c \<and> \<not> Q (name_of c x) (gs_of c x)" for x
  proof -
    have sd: "x \<in> dom k \<longleftrightarrow> says k x \<noteq> None" for k by (simp add: says_def domIff)
    show ?thesis unfolding sd assms(3) by simp
  qed
  have same: "x \<in> dom c' \<Longrightarrow> name_of c' x = name_of c x \<and> gs_of c' x = gs_of c x" for x
    using d assms(3) by (simp add: name_of_def gs_of_def)
  have L: "m n = Some g' \<longleftrightarrow> (\<exists>a \<in> dom c. name_of c a = n \<and> gs_of c a = g')" for g'
    using assms(1) by (simp add: locks_def)
  show "(case m n of None \<Rightarrow> None | Some g \<Rightarrow> if Q n g then None else Some g) = Some g
      \<longleftrightarrow> (\<exists>a \<in> dom c'. name_of c' a = n \<and> gs_of c' a = g)"
  proof -
    have "(\<exists>a \<in> dom c'. name_of c' a = n \<and> gs_of c' a = g) \<longleftrightarrow> \<not> Q n g \<and> (\<exists>a \<in> dom c. name_of c a = n \<and> gs_of c a = g)"
      using d same by metis
    then show ?thesis using L [of g] by (auto split: option.splits if_splits)
  qed
qed


section \<open>The interface of the lock service\<close>

datatype lock_cmd = Lock cstring cstring nat | Unlock cstring cstring nat | UnlockAll nat | Query cstring cstring

text \<open>Abstractly: a finite map from names, compared without case, to the server that holds the lock.\<close>

fun lock_spec :: "(cstring \<rightharpoonup> nat) \<Rightarrow> lock_cmd \<Rightarrow> (int \<times> nat option) \<times> (cstring \<rightharpoonup> nat)" where
  "lock_spec m (Lock n r g) =
     (if length n \<ge> MAX_CHARNAME_LEN then ((-1, None), m)
      else ((0, None), if m (norm_name n) = None then m(norm_name n \<mapsto> g) else m))"
| "lock_spec m (Unlock n r g) =
     (if length n \<ge> MAX_CHARNAME_LEN then ((-1, None), m)
      else ((0, None), if m (norm_name n) = Some g then m(norm_name n := None) else m))"
| "lock_spec m (UnlockAll g) = ((0, None), \<lambda>n. if m n = Some g then None else m n)"
| "lock_spec m (Query n r) =
     (if length n \<ge> MAX_CHARNAME_LEN then (-1, None)
      else (case m (norm_name n) of None \<Rightarrow> (0, None) | Some g \<Rightarrow> (1, Some g)), m)"

locale lock_service =
  fixes holds :: "'s \<Rightarrow> (cstring \<rightharpoonup> nat) \<Rightarrow> bool"
    and query :: "'s \<Rightarrow> cstring \<Rightarrow> cstring \<Rightarrow> (int \<times> nat option) option"
    and lock :: "'s \<Rightarrow> cstring \<Rightarrow> cstring \<Rightarrow> nat \<Rightarrow> (int \<times> 's) option"
    and unlock :: "'s \<Rightarrow> cstring \<Rightarrow> cstring \<Rightarrow> nat \<Rightarrow> (int \<times> 's) option"
    and unlock_all :: "'s \<Rightarrow> nat \<Rightarrow> (int \<times> 's) option"
  assumes query_law: "holds s m \<Longrightarrow> query s n r = Some (fst (lock_spec m (Query n r)))"
    and lock_law: "holds s m \<Longrightarrow> \<exists>s'. lock s n r g = Some (fst (fst (lock_spec m (Lock n r g))), s')
         \<and> holds s' (snd (lock_spec m (Lock n r g)))"
    and unlock_law: "holds s m \<Longrightarrow> \<exists>s'. unlock s n r g = Some (fst (fst (lock_spec m (Unlock n r g))), s')
         \<and> holds s' (snd (lock_spec m (Unlock n r g)))"
    and unlock_all_law: "holds s m \<Longrightarrow> \<exists>s'. unlock_all s g = Some (0, s')
         \<and> holds s' (snd (lock_spec m (UnlockAll g)))"

fun lock_run :: "('s \<Rightarrow> cstring \<Rightarrow> cstring \<Rightarrow> (int \<times> nat option) option) \<Rightarrow>
    ('s \<Rightarrow> cstring \<Rightarrow> cstring \<Rightarrow> nat \<Rightarrow> (int \<times> 's) option) \<Rightarrow>
    ('s \<Rightarrow> cstring \<Rightarrow> cstring \<Rightarrow> nat \<Rightarrow> (int \<times> 's) option) \<Rightarrow> ('s \<Rightarrow> nat \<Rightarrow> (int \<times> 's) option) \<Rightarrow>
    's \<Rightarrow> lock_cmd list \<Rightarrow> ((int \<times> nat option) list \<times> 's) option" where
  "lock_run qu lo un ua s [] = Some ([], s)"
| "lock_run qu lo un ua s (c # cs) = do {
     (out, s') \<leftarrow> (case c of
         Lock n r g \<Rightarrow> map_option (\<lambda>(i, s'). ((i, None), s')) (lo s n r g)
       | Unlock n r g \<Rightarrow> map_option (\<lambda>(i, s'). ((i, None), s')) (un s n r g)
       | UnlockAll g \<Rightarrow> map_option (\<lambda>(i, s'). ((i, None), s')) (ua s g)
       | Query n r \<Rightarrow> map_option (\<lambda>out. (out, s)) (qu s n r));
     (outs, s'') \<leftarrow> lock_run qu lo un ua s' cs;
     Some (out # outs, s'') }"

fun lock_specs :: "(cstring \<rightharpoonup> nat) \<Rightarrow> lock_cmd list \<Rightarrow> (int \<times> nat option) list \<times> (cstring \<rightharpoonup> nat)" where
  "lock_specs m [] = ([], m)"
| "lock_specs m (c # cs) =
     (let (out, m1) = lock_spec m c; (outs, m2) = lock_specs m1 cs in (out # outs, m2))"

text \<open>Commands that do not release the lock of server \<open>g\<close> on the name \<open>n\<close>.\<close>

fun keeps_lock :: "cstring \<Rightarrow> nat \<Rightarrow> lock_cmd \<Rightarrow> bool" where
  "keeps_lock n g (Unlock n' r g') = (norm_name n' \<noteq> norm_name n \<or> g' \<noteq> g)"
| "keeps_lock n g (UnlockAll g') = (g' \<noteq> g)"
| "keeps_lock n g _ = True"

lemma spec_keeps:
  assumes "m (norm_name n) = Some g" "\<And>c. c \<in> set cs \<Longrightarrow> keeps_lock n g c"
  shows "snd (lock_specs m cs) (norm_name n) = Some g"
  using assms
proof (induction cs arbitrary: m)
  case (Cons c cs)
  have "snd (lock_spec m c) (norm_name n) = Some g"
    using Cons.prems(1) Cons.prems(2) [of c] by (cases c) auto
  with Cons.IH [of "snd (lock_spec m c)"] Cons.prems(2) show ?case by (simp add: split_beta Let_def)
qed simp

context lock_service
begin

lemma step_refines:
  assumes "holds s m"
  shows "\<exists>s'. (case c of
         Lock n r g \<Rightarrow> map_option (\<lambda>(i, s'). ((i, None), s')) (lock s n r g)
       | Unlock n r g \<Rightarrow> map_option (\<lambda>(i, s'). ((i, None), s')) (unlock s n r g)
       | UnlockAll g \<Rightarrow> map_option (\<lambda>(i, s'). ((i, None), s')) (unlock_all s g)
       | Query n r \<Rightarrow> map_option (\<lambda>out. (out, s)) (query s n r)) = Some (fst (lock_spec m c), s')
    \<and> holds s' (snd (lock_spec m c))"
proof (cases c)
  case (Lock n r g)
  from lock_law [OF assms, of n r g] Lock show ?thesis by (auto split: if_splits)
next
  case (Unlock n r g)
  from unlock_law [OF assms, of n r g] Unlock show ?thesis by (auto split: if_splits)
next
  case (UnlockAll g)
  from unlock_all_law [OF assms, of g] UnlockAll show ?thesis by auto
next
  case (Query n r)
  with query_law [OF assms, of n r] assms show ?thesis by simp
qed

lemma lock_run_refines:
  "holds s m \<Longrightarrow> \<exists>s'. lock_run query lock unlock unlock_all s cs = Some (fst (lock_specs m cs), s')
     \<and> holds s' (snd (lock_specs m cs))"
proof (induction cs arbitrary: s m)
  case (Cons c cs)
  from step_refines [OF Cons.prems, of c] obtain s' where s': "(case c of
         Lock n r g \<Rightarrow> map_option (\<lambda>(i, s'). ((i, None), s')) (lock s n r g)
       | Unlock n r g \<Rightarrow> map_option (\<lambda>(i, s'). ((i, None), s')) (unlock s n r g)
       | UnlockAll g \<Rightarrow> map_option (\<lambda>(i, s'). ((i, None), s')) (unlock_all s g)
       | Query n r \<Rightarrow> map_option (\<lambda>out. (out, s)) (query s n r)) = Some (fst (lock_spec m c), s')"
    "holds s' (snd (lock_spec m c))" by blast
  from Cons.IH [OF s'(2)] s'(1) show ?case by (auto simp: split_beta Let_def)
qed simp

lemma lock_is_kept:
  assumes "holds s m" "query s n r = Some (1, Some g)" "\<And>c. c \<in> set cs \<Longrightarrow> keeps_lock n g c"
  shows "\<exists>outs s'. lock_run query lock unlock unlock_all s cs = Some (outs, s')
    \<and> query s' n r = Some (1, Some g)"
proof -
  have m: "length n < MAX_CHARNAME_LEN" "m (norm_name n) = Some g"
    using query_law [OF assms(1), of n r] assms(2) by (auto split: if_splits option.splits)
  from lock_run_refines [OF assms(1), of cs] obtain s' where
    s': "lock_run query lock unlock unlock_all s cs = Some (fst (lock_specs m cs), s')"
    "holds s' (snd (lock_specs m cs))" by blast
  have "query s' n r = Some (1, Some g)"
    using query_law [OF s'(2), of n r] spec_keeps [of m n g cs] m assms(3) by simp
  with s'(1) show ?thesis by blast
qed

end

definition cq :: "clstate \<Rightarrow> cstring \<Rightarrow> cstring \<Rightarrow> (int \<times> nat option) option" where
  "cq s n r = cl_query_charlock_status s (Some n) (Some r)"

definition cl :: "clstate \<Rightarrow> cstring \<Rightarrow> cstring \<Rightarrow> nat \<Rightarrow> (int \<times> clstate) option" where
  "cl s n r g = cl_lock_char s (Some n) (Some r) g"

definition cu :: "clstate \<Rightarrow> cstring \<Rightarrow> cstring \<Rightarrow> nat \<Rightarrow> (int \<times> clstate) option" where
  "cu s n r g = cl_unlock_char s (Some n) (Some r) g"

interpretation ls: lock_service cl_holds cq cl cu cl_unlock_all_char_by_gsid
proof
  fix s m n r g
  assume "cl_holds s m"
  then obtain ass bss where R: "cl_rep s ass bss" and L: "locks (cl_cells s) m"
    by (auto simp: cl_holds_def)
  note F = cl_rep_facts [OF R]
  let ?c = "cl_cells s" and ?nm = "norm_name n"
  obtain grows where gt: "gsqtbl s = Some grows" using cl_repD [OF R] by metis
  have ld: "clitbl_len s \<noteq> 0" "gsqtbl s \<noteq> None" using F(1) gt by simp_all
  have too_long: "length n \<ge> MAX_CHARNAME_LEN \<Longrightarrow> cl_query_charlock_status s (Some n) (Some r) = Some (-1, None)
     \<and> cl_lock_char s (Some n) (Some r) g = Some (-1, s) \<and> cl_unlock_char s (Some n) (Some r) g = Some (-1, s)"
    using ld by (simp add: cl_query_charlock_status_def cl_lock_char_def cl_unlock_char_def)
  have none: "m ?nm = None \<Longrightarrow> \<forall>a \<in> dom ?c. name_of ?c a \<noteq> ?nm" using locks_none [OF L] by blast
  have some: "m ?nm = Some h \<Longrightarrow> \<exists>a \<in> dom ?c. name_of ?c a = ?nm \<and> gs_of ?c a = h" for h
    using L by (auto simp: locks_def)
  show "cq s n r = Some (fst (lock_spec m (Query n r)))"
  proof (cases "length n < MAX_CHARNAME_LEN")
    case False
    then show ?thesis using too_long by (simp add: cq_def)
  next
    case True
    then show ?thesis
      using lock_new [OF R True none, of r] lock_found [OF R True, of _ r] some
      by (cases "m ?nm") (auto simp: cq_def)
  qed
  show "\<exists>s'. cl s n r g = Some (fst (fst (lock_spec m (Lock n r g))), s') \<and> cl_holds s' (snd (lock_spec m (Lock n r g)))"
  proof (cases "length n < MAX_CHARNAME_LEN")
    case False
    then show ?thesis using too_long R L by (auto simp: cl_def cl_holds_def)
  next
    case len: True
    show ?thesis
    proof (cases "m ?nm")
      case None
      from lock_new [OF R len none [OF None], of r g] obtain s' ass' bss' where s':
        "cl_lock_char s (Some n) (Some r) g = Some (0, s')" "cl_rep s' ass' bss'"
        "says (cl_cells s') = (says ?c)(cl_fresh s \<mapsto> (n, take (MAX_REALMNAME_LEN - 1) r, g))" by blast
      have "cl_fresh s \<notin> dom ?c" using F(10) by blast
      from locks_lock [OF L s'(3) this none [OF None]] s'(1,2) len None show ?thesis
        by (auto simp: cl_def cl_holds_def)
    next
      case (Some h)
      with some lock_found [OF R len, of _ r g] R L len show ?thesis by (auto simp: cl_def cl_holds_def)
    qed
  qed
  show "\<exists>s'. cu s n r g = Some (fst (fst (lock_spec m (Unlock n r g))), s') \<and> cl_holds s' (snd (lock_spec m (Unlock n r g)))"
  proof (cases "length n < MAX_CHARNAME_LEN")
    case False
    then show ?thesis using too_long R L by (auto simp: cu_def cl_holds_def)
  next
    case len: True
    show ?thesis
    proof (cases "m ?nm = Some g")
      case True
      with some obtain a where a: "a \<in> dom ?c" "name_of ?c a = ?nm" "gs_of ?c a = g" by blast
      define j where "j = g mod gsqtbl_len s"
      have "a \<in> set (bss ! j)" using F(8) [of j a] F(2) a by (simp add: j_def)
      then obtain us vs where "bss ! j = us @ a # vs" by (meson split_list)
      from unlock_some [OF R len a j_def this, of r] obtain s' ass' where s':
        "cl_unlock_char s (Some n) (Some r) g = Some (0, s')" "cl_rep s' ass' (bss[j := us @ vs])"
        "says (cl_cells s') = (says ?c)(a := None)" by blast
      have "says (cl_cells s') = (\<lambda>x. if x \<in> dom ?c \<and> name_of ?c x = ?nm then None else says ?c x)"
      proof -
        have "x \<in> dom ?c \<and> name_of ?c x = ?nm \<longleftrightarrow> x = a" for x using a(1,2) F(9) by (metis inj_onD)
        then show ?thesis unfolding s'(3) by (simp add: fun_eq_iff)
      qed
      note drop = locks_drop [OF L F(9), of _ "\<lambda>nm _. nm = ?nm", OF this]
      have "(\<lambda>n. case m n of None \<Rightarrow> None | Some g \<Rightarrow> if n = ?nm then None else Some g) = m(?nm := None)"
        by (auto simp: fun_eq_iff split: option.splits)
      with drop have "locks (cl_cells s') (m(?nm := None))" by simp
      with s'(1,2) len True show ?thesis by (auto simp: cu_def cl_holds_def)
    next
      case False
      have "\<forall>a \<in> dom ?c. name_of ?c a = ?nm \<longrightarrow> gs_of ?c a \<noteq> g" using False locks_iff [OF L] by metis
      from unlock_none [OF R len this, of r] R L len False show ?thesis by (auto simp: cu_def cl_holds_def)
    qed
  qed
  show "\<exists>s'. cl_unlock_all_char_by_gsid s g = Some (0, s') \<and> cl_holds s' (snd (lock_spec m (UnlockAll g)))"
  proof -
    from unlock_all_spec [OF R, of g] obtain s' ass' bss' where s':
      "cl_unlock_all_char_by_gsid s g = Some (0, s')" "cl_rep s' ass' bss'"
      "says (cl_cells s') = (\<lambda>x. if x \<in> dom ?c \<and> gs_of ?c x = g then None else says ?c x)" by blast
    note drop = locks_drop [OF L F(9), of _ "\<lambda>_ g'. g' = g", OF s'(3)]
    have "(\<lambda>n. case m n of None \<Rightarrow> None | Some g' \<Rightarrow> if g' = g then None else Some g')
        = (\<lambda>n. if m n = Some g then None else m n)"
      by (auto simp: fun_eq_iff split: option.splits)
    with drop have "locks (cl_cells s') (\<lambda>n. if m n = Some g then None else m n)" by simp
    with s'(1,2) show ?thesis by (auto simp: cl_holds_def)
  qed
qed


section \<open>Start and end\<close>

lemma init_holds:
  assumes "0 < n" "0 < k"
  shows "\<exists>s. cl_init cl_boot n k = Some (0, s) \<and> cl_holds s Map.empty"
proof -
  let ?s = "cl_boot\<lparr>cl_cells := Map.empty, clitbl := Some (replicate n None), gsqtbl := Some (replicate k None),
      clitbl_len := n, gsqtbl_len := k\<rparr>"
  have "cl_init cl_boot n k = Some (0, ?s)"
    using assms by (simp add: cl_init_def cl_destroy_def cl_boot_def)
  moreover have "cl_rep ?s (replicate n []) (replicate k [])"
    using assms
    by (intro cl_repI [where n = n and m = k and rows = "replicate n None" and grows = "replicate k None"]) simp_all
  ultimately show ?thesis by (auto simp: cl_holds_def locks_def)
qed

text \<open>
  C10. The lock tables implement a map from names to servers. After \<open>cl_init\<close> with two positive sizes,
  every sequence of locks, unlocks, releases of a server and queries runs without an invalid pointer
  access and returns what the map returns: a lock takes effect only when the name, compared without
  case, is free; an unlock only by the server that holds the lock; a release of a server frees exactly
  its names (also those that share its row with other servers); a query tells the holder; names that
  are too long are refused with -1.
\<close>

theorem charlock_refines_map:
  assumes "0 < tbllen" "0 < maxgs"
  shows "\<exists>s s'. cl_init cl_boot tbllen maxgs = Some (0, s)
    \<and> lock_run cq cl cu cl_unlock_all_char_by_gsid s cs = Some (fst (lock_specs Map.empty cs), s')"
  using init_holds [OF assms] ls.lock_run_refines by blast

theorem charlock_refines_map_witness:
  "\<exists>s s'. cl_init cl_boot 2 1 = Some (0, s)
    \<and> lock_run cq cl cu cl_unlock_all_char_by_gsid s
        [Lock ''Ab'' ''r'' 5, Lock ''cd'' ''r'' 6, Lock ''aB'' ''r'' 6, Query ''AB'' ''r'', UnlockAll 6, Query ''cd'' ''r'']
      = Some ([(0, None), (0, None), (0, None), (1, Some 5), (0, None), (0, None)], s')"
proof -
  let ?cs = "[Lock ''Ab'' ''r'' 5, Lock ''cd'' ''r'' 6, Lock ''aB'' ''r'' 6, Query ''AB'' ''r'', UnlockAll 6, Query ''cd'' ''r'']"
  have n: "norm_name ''Ab'' = ''ab''" "norm_name ''cd'' = ''cd''" "norm_name ''aB'' = ''ab''" "norm_name ''AB'' = ''ab''"
    by code_simp+
  have "fst (lock_specs Map.empty ?cs) = [(0, None), (0, None), (0, None), (1, Some 5), (0, None), (0, None)]"
    by (simp add: n)
  with charlock_refines_map [of 2 1 ?cs] show ?thesis by simp
qed

text \<open>
  Mutual exclusion: while a server holds the lock on a character, no sequence of commands changes
  it other than an unlock of that name by the same server or the release of the server: afterwards a
  query still names the same server.
\<close>

lemma charlock_exclusive:
  assumes "cl_holds s m" "cl_query_charlock_status s (Some n) (Some r) = Some (1, Some g)"
    "\<And>c. c \<in> set cs \<Longrightarrow> keeps_lock n g c"
  shows "\<exists>outs s'. lock_run cq cl cu cl_unlock_all_char_by_gsid s cs = Some (outs, s')
    \<and> cl_query_charlock_status s' (Some n) (Some r) = Some (1, Some g)"
  using ls.lock_is_kept [OF assms(1) _ assms(3), of r] assms(2) by (simp add: cq_def)

definition demo_locks :: clstate where
  "demo_locks = snd (the (cl (snd (the (cl_init cl_boot 2 1))) ''Ab'' ''r'' 5))"

lemma demo_locks_holds:
  "cl_holds demo_locks [norm_name ''Ab'' \<mapsto> 5] \<and> cq demo_locks ''AB'' ''r'' = Some (1, Some 5)"
proof -
  from init_holds [of 2 1] obtain s where s: "cl_init cl_boot 2 1 = Some (0, s)" "cl_holds s Map.empty" by auto
  from ls.lock_law [OF s(2), of "''Ab''" "''r''" 5] s(1) have
    h: "cl_holds demo_locks [norm_name ''Ab'' \<mapsto> 5]" by (auto simp: demo_locks_def)
  have "norm_name ''AB'' = norm_name ''Ab''" by code_simp
  with ls.query_law [OF h, of "''AB''" "''r''"] h show ?thesis by simp
qed

lemma charlock_exclusive_witness:
  "\<exists>outs s'. lock_run cq cl cu cl_unlock_all_char_by_gsid demo_locks [Lock ''ab'' ''x'' 6, UnlockAll 6] = Some (outs, s')
    \<and> cl_query_charlock_status s' (Some ''AB'') (Some ''r'') = Some (1, Some 5)"
  by (rule charlock_exclusive [of _ "[norm_name ''Ab'' \<mapsto> 5]"])
    (use demo_locks_holds in \<open>auto simp: cq_def\<close>)

end
