(* ===== verification/Str_Util.thy ===== *)
theory Str_Util
  imports Pvpgn_Prelude
begin

text \<open>
  \<^verbatim>\<open>common/util.cpp\<close>: the string helpers of the servers. A C string is the list of its characters
  before the NUL (\<open>None\<close> for a NULL pointer); a buffer is a list of characters. Results returned
  through pointers are part of the result. \<open>unsigned int\<close> arithmetic is on 32-bit words,
  \<open>unsigned short\<close> on 16-bit words. \<open>strtoul\<close>, \<open>atoi\<close> and \<open>sprintf\<close> are the C library's for the
  arguments used; \<open>mktime\<close> is a parameter.
\<close>

section \<open>The C library on strings\<close>

definition digit_val :: "char \<Rightarrow> nat" where
  "digit_val c = of_char c - 48"

definition dec_value :: "cstring \<Rightarrow> nat" where
  "dec_value = foldl (\<lambda>a c. 10 * a + digit_val c) 0"

text \<open>\<open>strtoul(s,NULL,10)\<close> where \<open>s\<close> starts with no blank or sign; it saturates (64-bit \<open>long\<close>).\<close>

definition strtoul10 :: "cstring \<Rightarrow> nat" where
  "strtoul10 s = min (dec_value (takeWhile c_isdigit s)) (2 ^ 64 - 1)"

definition c_isblank :: "char \<Rightarrow> bool" where
  "c_isblank c \<longleftrightarrow> (of_char c :: nat) \<in> {9, 10, 11, 12, 13, 32}"

definition atoi :: "cstring \<Rightarrow> int" where
  "atoi s = (let t = dropWhile c_isblank s in
     case t of [] \<Rightarrow> 0
     | c # cs \<Rightarrow> if c = CHR ''-'' then - int (dec_value (takeWhile c_isdigit cs))
                else if c = CHR ''+'' then int (dec_value (takeWhile c_isdigit cs))
                else int (dec_value (takeWhile c_isdigit t)))"

text \<open>\<open>sprintf\<close> with \<open>%d\<close> of a natural number, \<open>%02X\<close> and \<open>%03o\<close> of a byte.\<close>

function fmt_d :: "nat \<Rightarrow> cstring" where
  "fmt_d n = (if n < 10 then [char_of (48 + n)] else fmt_d (n div 10) @ [char_of (48 + n mod 10)])"
  by pat_completeness auto
termination by (relation "measure id") auto

declare fmt_d.simps [simp del]

definition hex_upper :: "nat \<Rightarrow> char" where
  "hex_upper n = ''0123456789ABCDEF'' ! n"

definition fmt_02X :: "nat \<Rightarrow> cstring" where
  "fmt_02X n = [hex_upper (n div 16 mod 16), hex_upper (n mod 16)]"

definition fmt_03o :: "nat \<Rightarrow> cstring" where
  "fmt_03o n = [char_of (48 + n div 64 mod 8), char_of (48 + n div 8 mod 8), char_of (48 + n mod 8)]"

section \<open>Operations\<close>

definition strstart :: "cstring option \<Rightarrow> cstring option \<Rightarrow> int" where
  "strstart full part = (case (full, part) of
       (Some f, Some p) \<Rightarrow>
         (let compare_result = strncasecmp f p (length p)
          in if compare_result \<noteq> 0 then compare_result
             else if length f > length p \<and> f ! length p \<noteq> CHR '' '' then 1
             else compare_result)
     | _ \<Rightarrow> 1)"

lemma strstart_zero_iff:
  "strstart (Some f) (Some p) = 0 \<longleftrightarrow>
     map c_tolower (take (length p) f) = map c_tolower p \<and> (length f = length p \<or> f ! length p = CHR '' '')"
proof (cases "strncasecmp f p (length p) = 0")
  case True
  then have eq: "map c_tolower (take (length p) f) = map c_tolower p" by (simp add: strncasecmp_zero_iff)
  then have "length (take (length p) f) = length p" by (metis length_map)
  then have "length p \<le> length f" by simp
  then show ?thesis using True eq by (auto simp: strstart_def)
next
  case False
  then show ?thesis using strncasecmp_zero_iff [of f p "length p"] by (simp add: strstart_def Let_def)
qed

text \<open>
  \<open>file_get_line\<close>: the static buffer \<open>line\<close> (its characters, so its length is \<open>len\<close>), the rest of the
  file as a list. \<open>None\<close> is a write outside the buffer.
\<close>

abbreviation DEF_LEN :: nat where "DEF_LEN \<equiv> 64"
abbreviation INC_LEN :: nat where "INC_LEN \<equiv> 16"

fun get_line_loop :: "char list \<Rightarrow> char list \<Rightarrow> nat \<Rightarrow> char \<Rightarrow> (char list \<times> nat \<times> bool \<times> char list) option" where
  "get_line_loop [] line pos prev = Some (line, pos, True, [])"
| "get_line_loop (c # cs) line pos prev =
     (if c = CHR 0x0D then get_line_loop cs line pos prev
      else if c = CHR 0x0A then
        (if pos < 1 \<or> prev \<noteq> CHR 0x5C then Some (line, pos, False, cs)
         else get_line_loop cs line (pos - 1) (CHR 0x00))
      else if pos < length line then
        (let line1 = line[pos := c]; pos1 = pos + 1;
             line2 = (if pos1 + 1 \<ge> length line1 then line1 @ replicate INC_LEN (CHR 0x00) else line1)
         in get_line_loop cs line2 pos1 c)
      else None)"

definition file_get_line ::
  "char list option \<Rightarrow> char list option \<Rightarrow> (cstring option \<times> char list option \<times> char list) option" where
  "file_get_line static fp = (case fp of None \<Rightarrow> Some (None, None, [])
     | Some input \<Rightarrow>
       (let line = (case static of None \<Rightarrow> replicate DEF_LEN (CHR 0x00) | Some l \<Rightarrow> l)
        in do {
          (line1, pos, eof, rest) \<leftarrow> get_line_loop input line 0 (CHR 0x00);
          if eof \<and> pos < 1 then Some (None, Some line1, rest)
          else if pos < length line1
          then Some (Some (take pos line1), Some (line1[pos := CHR 0x00]), rest)
          else None }))"

function reverse_loop :: "char list \<Rightarrow> nat \<Rightarrow> nat \<Rightarrow> char list" where
  "reverse_loop str start end =
     (if start < end \<and> end < length str
      then reverse_loop (str[end := str ! start, start := str ! end]) (start + 1) (end - 1)
      else str)"
  by pat_completeness auto
termination by (relation "measure (\<lambda>(str, start, end). end - start)") auto

declare reverse_loop.simps [simp del]

definition strreverse :: "cstring option \<Rightarrow> cstring option" where
  "strreverse str = map_option (\<lambda>s. reverse_loop s 0 (length s - 1)) str"

fun uint_loop :: "cstring \<Rightarrow> 'a::len word \<Rightarrow> 'a word option" where
  "uint_loop [] val = Some val"
| "uint_loop (c # cs) val =
     (let pval = val; val1 = val * 10
      in if val1 div 10 \<noteq> pval then None
         else if \<not> c_isdigit c then None
         else let val2 = val1 + of_nat (digit_val c)
              in if val2 < val1 then None else uint_loop cs val2)"

definition skip_sign :: "cstring \<Rightarrow> cstring" where
  "skip_sign str = (let pos = dropWhile (\<lambda>c. c = CHR '' '' \<or> c = CHR 0x09) str
     in if pos \<noteq> [] \<and> hd pos = CHR ''+'' then tl pos else pos)"

text \<open>\<open>num\<close> is the object pointed to (\<open>None\<close> for NULL); it is written only on success.\<close>

definition str_to_uint :: "cstring option \<Rightarrow> u32 option \<Rightarrow> int \<times> u32 option" where
  "str_to_uint str num = (case (str, num) of
       (Some s, Some n) \<Rightarrow> (case uint_loop (skip_sign s) 0 of None \<Rightarrow> (-1, num) | Some v \<Rightarrow> (0, Some v))
     | _ \<Rightarrow> (-1, num))"

definition str_to_ushort :: "cstring option \<Rightarrow> u16 option \<Rightarrow> int \<times> u16 option" where
  "str_to_ushort str num = (case (str, num) of
       (Some s, Some n) \<Rightarrow> (case uint_loop (skip_sign s) 0 of None \<Rightarrow> (-1, num) | Some v \<Rightarrow> (0, Some v))
     | _ \<Rightarrow> (-1, num))"

definition str_print_term :: "bool \<Rightarrow> char list option \<Rightarrow> nat \<Rightarrow> bool \<Rightarrow> int \<times> char list" where
  "str_print_term fp str len allow_nl =
     (if \<not> fp then (-1, []) else case str of None \<Rightarrow> (-1, []) | Some s \<Rightarrow>
        (let n = (if len = 0 then length (takeWhile (\<lambda>c. c \<noteq> CHR 0x00) s) else len)
         in (0, concat (map (\<lambda>c.
               if (c = CHR 0x7F \<or> (0 \<le> schar c \<and> schar c < 32))
                  \<and> (\<not> allow_nl \<or> (c \<noteq> CHR 0x0D \<and> c \<noteq> CHR 0x0A))
               then [CHR ''^'', char_of ((of_char c + 64) mod 256 :: nat)] else [c]) (take n s)))))"

definition str_get_bool :: "cstring option \<Rightarrow> int" where
  "str_get_bool str = (case str of None \<Rightarrow> -1 | Some s \<Rightarrow>
     if strcaseeq s ''true'' \<or> strcaseeq s ''yes'' \<or> strcaseeq s ''on'' \<or> s = ''1'' then 1
     else if strcaseeq s ''false'' \<or> strcaseeq s ''no'' \<or> strcaseeq s ''off'' \<or> s = ''0'' then 0
     else -1)"

definition units :: "nat \<Rightarrow> cstring \<Rightarrow> cstring" where
  "units n u = fmt_d n @ '' '' @ u @ (if n = 1 then '''' else ''s'')"

definition seconds_to_timestr :: "u32 \<Rightarrow> cstring" where
  "seconds_to_timestr tot =
     (let t = unat tot; days = t div (24 * 60 * 60); hours = t div (60 * 60) mod 24;
          minutes = t div 60 mod 60; seconds = t mod 60
      in if days > 0 then units days ''day'' @ '' '' @ units hours ''hour'' @ '' ''
             @ units minutes ''minute'' @ '' '' @ units seconds ''second''
         else if hours > 0 then units hours ''hour'' @ '' '' @ units minutes ''minute'' @ '' ''
             @ units seconds ''second''
         else if minutes > 0 then units minutes ''minute'' @ '' '' @ units seconds ''second''
         else units seconds ''second'' @ ''.'')"

text \<open>The loop of \<open>clockstr_to_seconds\<close> at \<open>j\<close>: \<open>field\<close> is the string from \<open>i\<close> to \<open>j\<close>.\<close>

fun clock_loop :: "cstring \<Rightarrow> cstring \<Rightarrow> u32 \<Rightarrow> u32 option" where
  "clock_loop [] field temp =
     Some (if field \<noteq> [] then temp * 60 + of_nat (strtoul10 field) else temp)"
| "clock_loop (c # cs) field temp =
     (if c = CHR '':'' then clock_loop cs [] (temp * 60 + of_nat (strtoul10 field))
      else if c_isdigit c then clock_loop cs (field @ [c]) temp
      else None)"

definition clockstr_to_seconds :: "cstring option \<Rightarrow> u32 option \<Rightarrow> int \<times> u32 option" where
  "clockstr_to_seconds clockstr totsecs = (case (clockstr, totsecs) of
       (Some s, Some t) \<Rightarrow> (case clock_loop s [] 0 of None \<Rightarrow> (-1, totsecs) | Some v \<Rightarrow> (0, Some v))
     | _ \<Rightarrow> (-1, totsecs))"

definition escape_fs_char :: "char \<Rightarrow> cstring" where
  "escape_fs_char c =
     (if c = CHR 0x00 \<or> c = CHR ''%'' \<or> c = CHR ''/'' \<or> c = CHR 0x5C \<or> c = CHR '':''
      then CHR ''%'' # fmt_02X (of_char c) else [c])"

definition escape_fs_chars :: "char list option \<Rightarrow> nat \<Rightarrow> cstring option" where
  "escape_fs_chars inp len = map_option (\<lambda>s. concat (map escape_fs_char (take len s))) inp"

definition escape_char :: "char \<Rightarrow> cstring" where
  "escape_char c =
     (if c = CHR 0x5C then [CHR 0x5C, CHR 0x5C]
      else if c = CHR 0x22 then [CHR 0x5C, CHR 0x22]
      else if c_isprint c then [c]
      else if c = CHR 0x07 then [CHR 0x5C, CHR ''a'']
      else if c = CHR 0x08 then [CHR 0x5C, CHR ''b'']
      else if c = CHR 0x09 then [CHR 0x5C, CHR ''t'']
      else if c = CHR 0x0A then [CHR 0x5C, CHR ''n'']
      else if c = CHR 0x0B then [CHR 0x5C, CHR ''v'']
      else if c = CHR 0x0C then [CHR 0x5C, CHR ''f'']
      else if c = CHR 0x0D then [CHR 0x5C, CHR ''r'']
      else CHR 0x5C # fmt_03o (of_char c))"

definition escape_chars :: "char list option \<Rightarrow> nat \<Rightarrow> cstring option" where
  "escape_chars inp len = map_option (\<lambda>s. concat (map escape_char (take len s))) inp"

definition c_isoct :: "char \<Rightarrow> bool" where
  "c_isoct c \<longleftrightarrow> (48::nat) \<le> of_char c \<and> (of_char c::nat) \<le> 55"

definition oct_value :: "cstring \<Rightarrow> nat" where
  "oct_value = foldl (\<lambda>a c. 8 * a + digit_val c) 0"

function unescape :: "cstring \<Rightarrow> cstring" where
  "unescape [] = []"
| "unescape (c # cs) =
     (if c \<noteq> CHR 0x5C then c # unescape cs
      else case cs of
        [] \<Rightarrow> [CHR 0x5C]
      | d # ds \<Rightarrow>
          if d = CHR 0x5C then CHR 0x5C # unescape ds
          else if d = CHR 0x22 then CHR 0x22 # unescape ds
          else if d = CHR ''a'' then CHR 0x07 # unescape ds
          else if d = CHR ''b'' then CHR 0x08 # unescape ds
          else if d = CHR ''t'' then CHR 0x09 # unescape ds
          else if d = CHR ''n'' then CHR 0x0A # unescape ds
          else if d = CHR ''v'' then CHR 0x0B # unescape ds
          else if d = CHR ''f'' then CHR 0x0C # unescape ds
          else if d = CHR ''r'' then CHR 0x0D # unescape ds
          else let temp = takeWhile c_isoct (take 3 cs); num = oct_value temp; rest = drop (length temp) cs
               in if length temp < 3 \<or> num < 1 \<or> num > 255
                  then CHR 0x5C # temp @ unescape rest
                  else char_of num # unescape rest)"
  by pat_completeness auto
termination by (relation "measure length") auto

declare unescape.simps [simp del]

definition unescape_chars :: "cstring option \<Rightarrow> cstring option" where
  "unescape_chars inp = map_option unescape inp"

definition str_to_hex :: "char list \<Rightarrow> nat \<Rightarrow> cstring" where
  "str_to_hex data datalen = concat (map (\<lambda>c. fmt_02X (of_char c) @ '' '') (take datalen data))"

text \<open>\<open>byte\<close> and \<open>c\<close> are \<open>char\<close>s: their arithmetic is kept modulo 256.\<close>

definition nibble :: "char \<Rightarrow> int" where
  "nibble c = (if schar c > 57 then schar c - 65 + 10 else schar c - 48)"

definition hex_to_str :: "cstring \<Rightarrow> nat \<Rightarrow> char list \<times> nat" where
  "hex_to_str source datalen =
     (map (\<lambda>i. char_of ((16 * nibble (source ! (i * 3)) + nibble (source ! (i * 3 + 1))) mod 256)) [0..<datalen],
      datalen)"

definition buildpath :: "cstring \<Rightarrow> cstring \<Rightarrow> cstring" where
  "buildpath root suffix = root @ ''/'' @ suffix"

record tm =
  tm_year :: int
  tm_mon :: int
  tm_mday :: int
  tm_hour :: int
  tm_min :: int
  tm_sec :: int

definition set_day :: "nat \<Rightarrow> int \<Rightarrow> tm \<Rightarrow> tm" where
  "set_day day_s v w = (if day_s = 0 then w\<lparr>tm_year := v - 1900\<rparr>
     else if day_s = 1 then w\<lparr>tm_mon := v - 1\<rparr> else if day_s = 2 then w\<lparr>tm_mday := v\<rparr> else w)"

definition set_time :: "nat \<Rightarrow> int \<Rightarrow> tm \<Rightarrow> tm" where
  "set_time time_s v w = (if time_s = 0 then w\<lparr>tm_hour := v\<rparr>
     else if time_s = 1 then w\<lparr>tm_min := v\<rparr> else if time_s = 2 then w\<lparr>tm_sec := v\<rparr> else w)"

text \<open>The loop at the rest of the string; \<open>p\<close> is the string from the pointer \<open>p\<close> on.\<close>

fun time_loop :: "cstring \<Rightarrow> cstring \<Rightarrow> nat \<Rightarrow> nat \<Rightarrow> nat \<Rightarrow> tm \<Rightarrow> tm" where
  "time_loop [] p day_s time_s lst w =
     (if lst = 1 then set_day day_s (atoi p) w else if lst = 2 then set_time time_s (atoi p) w else w)"
| "time_loop (ch # cs) p day_s time_s lst w =
     (if ch = CHR ''/'' \<or> ch = CHR ''-'' \<or> ch = CHR ''.'' then
        time_loop cs cs (day_s + 1) 0 1 (set_day day_s (atoi p) w)
      else if ch = CHR '':'' then time_loop cs cs 0 (time_s + 1) 2 (set_time time_s (atoi p) w)
      else if ch = CHR '' '' \<or> ch = CHR 0x09 then
        time_loop cs cs 0 0 0 (if lst = 1 then set_day day_s (atoi p) w
                               else if lst = 2 then set_time time_s (atoi p) w else w)
      else time_loop cs p day_s time_s lst w)"

definition timestr_to_time :: "(tm \<Rightarrow> int) \<Rightarrow> cstring option \<Rightarrow> int \<Rightarrow> int \<times> int" where
  "timestr_to_time mktime timestr ptime = (case timestr of None \<Rightarrow> (-1, ptime) | Some s \<Rightarrow>
     if s = [] then (0, 0)
     else (0, mktime (time_loop s s 0 0 0
       \<lparr>tm_year = 0, tm_mon = 0, tm_mday = 1, tm_hour = 0, tm_min = 0, tm_sec = 0\<rparr>)))"

definition strlower :: "cstring \<Rightarrow> cstring" where
  "strlower = map c_tolower"

section \<open>Numbers\<close>

lemma digit_val_less: "c_isdigit c \<Longrightarrow> digit_val c < 10"
  unfolding digit_val_def c_isdigit_def by linarith

lemma take_bit_ten: "10 < (2::nat) ^ n \<Longrightarrow> take_bit n (10::nat) = 10"
  by (rule take_bit_nat_eq_self)

lemma dec_value_Cons_acc:
  "foldl (\<lambda>a c. 10 * a + digit_val c) (10 * v + digit_val c) cs
     = foldl (\<lambda>a c. 10 * a + digit_val c) v (c # cs)"
  by simp

lemma dec_value_ge: "v \<le> foldl (\<lambda>a c. 10 * a + digit_val c) v cs"
proof (induction cs arbitrary: v)
  case (Cons c cs)
  have "v \<le> 10 * v + digit_val c" by simp
  also have "\<dots> \<le> foldl (\<lambda>a c. 10 * a + digit_val c) (10 * v + digit_val c) cs" by (rule Cons)
  finally show ?case by simp
qed simp

lemma ten_times_check:
  fixes v :: "'a::len word"
  assumes "10 < (2::nat) ^ LENGTH('a)"
  shows "(v * 10) div 10 = v \<longleftrightarrow> 10 * unat v < 2 ^ LENGTH('a)"
proof -
  note ten = take_bit_ten [OF assms]
  have "(v * 10) div 10 = v \<longleftrightarrow> unat ((v * 10) div 10) = unat v" by (simp add: word_unat_eq_iff)
  also have "\<dots> \<longleftrightarrow> (10 * unat v) mod 2 ^ LENGTH('a) div 10 = unat v"
    by (simp add: unat_div unat_word_ariths ten mult.commute)
  also have "\<dots> \<longleftrightarrow> 10 * unat v < 2 ^ LENGTH('a)"
  proof
    assume eq: "(10 * unat v) mod 2 ^ LENGTH('a) div 10 = unat v"
    then have "10 * unat v \<le> (10 * unat v) mod 2 ^ LENGTH('a)" by linarith
    also have "\<dots> < 2 ^ LENGTH('a)" by simp
    finally show "10 * unat v < 2 ^ LENGTH('a)" .
  qed simp
  finally show ?thesis .
qed

lemma add_check:
  fixes v :: "'a::len word"
  assumes "d < 2 ^ LENGTH('a)"
  shows "v + of_nat d < v \<longleftrightarrow> \<not> unat v + d < 2 ^ LENGTH('a)"
proof -
  have d: "unat (of_nat d :: 'a word) = d" using assms by (simp add: unat_of_nat take_bit_nat_eq_self)
  show ?thesis
  proof (cases "unat v + d < 2 ^ LENGTH('a)")
    case True
    then have "unat (v + of_nat d) = unat v + d" using d by (simp add: unat_word_ariths)
    then show ?thesis using True by (simp add: word_less_nat_alt)
  next
    case False
    have "unat (v + of_nat d) = (unat v + d) mod 2 ^ LENGTH('a)" using d by (simp add: unat_word_ariths)
    also have "\<dots> = unat v + d - 2 ^ LENGTH('a)"
    proof -
      have "unat v + d - 2 ^ LENGTH('a) < 2 ^ LENGTH('a)"
        using False assms unsigned_less [of v, where ?'a = nat] by linarith
      then show ?thesis using False by (simp add: le_mod_geq)
    qed
    finally show ?thesis using False assms unsigned_less [of v, where ?'a = nat]
      by (simp add: word_less_nat_alt)
  qed
qed

lemma uint_loop_exact:
  fixes v :: "'a::len word"
  assumes "10 < (2::nat) ^ LENGTH('a)"
  shows "uint_loop s v =
    (if list_all c_isdigit s \<and> foldl (\<lambda>a c. 10 * a + digit_val c) (unat v) s < 2 ^ LENGTH('a)
     then Some (of_nat (foldl (\<lambda>a c. 10 * a + digit_val c) (unat v) s)) else None)"
proof (induction s arbitrary: v)
  case Nil
  show ?case by simp
next
  case (Cons c s)
  let ?f = "\<lambda>a c. 10 * a + digit_val c"
  consider "10 * unat v \<ge> 2 ^ LENGTH('a) \<or> \<not> c_isdigit c"
    | "10 * unat v < 2 ^ LENGTH('a)" "c_isdigit c" "10 * unat v + digit_val c \<ge> 2 ^ LENGTH('a)"
    | "c_isdigit c" "10 * unat v + digit_val c < 2 ^ LENGTH('a)"
    by linarith
  then show ?case
  proof cases
    case 1
    have "10 * unat v \<le> foldl ?f (unat v) (c # s)"
      using dec_value_ge [of "10 * unat v + digit_val c" s] by simp
    then show ?thesis using 1 ten_times_check [OF assms, of v] by (auto simp: Let_def)
  next
    case 2
    then have m: "unat (v * 10) = 10 * unat v"
      by (simp add: unat_word_ariths take_bit_ten [OF assms] mult.commute)
    have "v * 10 + of_nat (digit_val c) < v * 10"
      using 2 m add_check [of "digit_val c" "v * 10"] digit_val_less [of c] assms by simp
    moreover have "\<not> foldl ?f (unat v) (c # s) < 2 ^ LENGTH('a)"
      using 2 dec_value_ge [of "10 * unat v + digit_val c" s] by simp
    ultimately show ?thesis using 2 by (simp add: Let_def)
  next
    case 3
    then have m: "unat (v * 10) = 10 * unat v"
      by (simp add: unat_word_ariths take_bit_ten [OF assms] mult.commute)
    have u: "unat (v * 10 + of_nat (digit_val c)) = 10 * unat v + digit_val c"
      using 3 m by (simp add: unat_word_ariths unat_of_nat)
    have "\<not> v * 10 + of_nat (digit_val c) < v * 10"
      using u m by (simp add: word_less_nat_alt)
    moreover have "v * 10 div 10 = v" using 3 ten_times_check [OF assms, of v] by simp
    ultimately show ?thesis using 3 Cons [of "v * 10 + of_nat (digit_val c)"] u by (simp add: Let_def)
  qed
qed

text \<open>
  C29. The number parsers are exact: \<open>str_to_uint\<close> and \<open>str_to_ushort\<close> skip leading blanks and one
  plus sign, and then succeed exactly when all that remains are digits whose decimal value fits the
  type, storing that value. Their overflow tests on wrapped products and sums neither miss an
  overflow nor refuse a value that fits, and a refused string leaves the number unchanged.
\<close>

theorem str_to_number_exact:
  "str_to_uint (Some s) (Some n) =
     (if list_all c_isdigit (skip_sign s) \<and> dec_value (skip_sign s) < 2 ^ 32
      then (0, Some (of_nat (dec_value (skip_sign s)))) else (- 1, Some n))
   \<and> str_to_ushort (Some s) (Some k) =
     (if list_all c_isdigit (skip_sign s) \<and> dec_value (skip_sign s) < 2 ^ 16
      then (0, Some (of_nat (dec_value (skip_sign s)))) else (- 1, Some k))"
  by (simp add: str_to_uint_def str_to_ushort_def uint_loop_exact dec_value_def)


section \<open>Escaping\<close>

lemma of_char_less: "(of_char c :: nat) < 256"
  by (rule nat_of_char_less_256)

lemma div_16_less: "(n::nat) < 256 \<Longrightarrow> n div 16 < 16"
  by simp

lemma octal_parts: "(n::nat) < 256 \<Longrightarrow> 64 * (n div 64) + 8 * (n div 8 mod 8) + n mod 8 = n"
proof -
  have "n div 64 = n div 8 div 8" by (simp add: div_mult2_eq [symmetric])
  then show ?thesis
    using div_mult_mod_eq [of n 8] div_mult_mod_eq [of "n div 8" 8] by linarith
qed

lemma fmt_03o_digits:
  "n < 256 \<Longrightarrow> list_all c_isoct (fmt_03o n) \<and> length (fmt_03o n) = 3 \<and> oct_value (fmt_03o n) = n"
  using octal_parts [of n] by (auto simp: fmt_03o_def c_isoct_def oct_value_def digit_val_def of_char_of take_bit_nat_def)

lemma unescape_octal:
  assumes "list_all c_isoct ds" "length ds = 3" "1 \<le> oct_value ds" "oct_value ds \<le> 255"
  shows "unescape (CHR 0x5C # ds @ rest) = char_of (oct_value ds) # unescape rest"
proof -
  obtain a b c where ds: "ds = [a, b, c]"
    using assms(2) by (auto simp: length_Suc_conv eval_nat_numeral)
  have oct: "c_isoct a" "c_isoct b" "c_isoct c" using assms(1) by (simp_all add: ds)
  have neq: "a \<noteq> CHR 0x5C" "a \<noteq> CHR 0x22" "a \<noteq> CHR ''a''" "a \<noteq> CHR ''b''" "a \<noteq> CHR ''t''"
    "a \<noteq> CHR ''n''" "a \<noteq> CHR ''v''" "a \<noteq> CHR ''f''" "a \<noteq> CHR ''r''"
    using oct(1) by (auto simp: c_isoct_def)
  show ?thesis
    using assms oct neq by (simp add: ds unescape.simps Let_def take_Cons')
qed

lemma unescape_escape_char:
  assumes "c \<noteq> CHR 0x00"
  shows "unescape (escape_char c @ rest) = c # unescape rest"
proof (cases "c = CHR 0x5C \<or> c = CHR 0x22 \<or> c_isprint c \<or> c = CHR 0x07 \<or> c = CHR 0x08 \<or> c = CHR 0x09
    \<or> c = CHR 0x0A \<or> c = CHR 0x0B \<or> c = CHR 0x0C \<or> c = CHR 0x0D")
  case True
  then show ?thesis by (elim disjE) (auto simp: escape_char_def unescape.simps)
next
  case False
  have "(of_char c :: nat) \<noteq> 0"
  proof
    assume "(of_char c :: nat) = 0"
    then have "c = char_of (0::nat)" by (metis char_of_char)
    then show False using assms by (simp add: char_of_def)
  qed
  then have "unescape (CHR 0x5C # fmt_03o (of_char c) @ rest) = char_of (oct_value (fmt_03o (of_char c))) # unescape rest"
    using fmt_03o_digits [OF of_char_less [of c]] of_char_less [of c]
    by (intro unescape_octal) (auto simp: less_Suc_eq_le simp del: nat_of_char_less_256)
  then show ?thesis using False fmt_03o_digits [OF of_char_less [of c]] by (simp add: escape_char_def)
qed

lemma unescape_escape: "CHR 0x00 \<notin> set s \<Longrightarrow> unescape (concat (map escape_char s)) = s"
  by (induction s) (auto simp: unescape_escape_char unescape.simps)

lemma c_isprint_escape_char: "list_all c_isprint (escape_char c)"
  by (auto simp: escape_char_def c_isprint_def fmt_03o_def of_char_of take_bit_nat_def)

lemma list_all_concat_map: "(\<And>x. list_all P (f x)) \<Longrightarrow> list_all P (concat (map f xs))"
  by (induction xs) auto

text \<open>
  C30. Escaping is lossless and printable: \<open>unescape_chars\<close> gives back every NUL-free string that
  \<open>escape_chars\<close> escaped, the escaped text has only printable ASCII characters, and it fits the
  buffer of \<open>len*4+1\<close> bytes that \<open>escape_chars\<close> allocates.
\<close>

theorem escape_roundtrip:
  assumes "CHR 0x00 \<notin> set (take n s)"
  shows "\<exists>e. escape_chars (Some s) n = Some e \<and> unescape_chars (Some e) = Some (take n s)
           \<and> list_all c_isprint e \<and> length e + 1 \<le> n * 4 + 1"
proof -
  let ?e = "concat (map escape_char (take n s))"
  have one: "length (escape_char c) \<le> 4" for c by (simp add: escape_char_def fmt_03o_def)
  have "length (concat (map escape_char xs)) \<le> length xs * 4" for xs
  proof (induction xs)
    case (Cons x xs)
    then show ?case using one [of x] by simp
  qed simp
  then have "length ?e \<le> length (take n s) * 4" .
  then have "length ?e \<le> n * 4" by simp
  then show ?thesis
    using unescape_escape [OF assms] list_all_concat_map [of c_isprint escape_char, OF c_isprint_escape_char]
    by (simp add: escape_chars_def unescape_chars_def)
qed

theorem escape_roundtrip_witness:
  "\<exists>e. escape_chars (Some [CHR ''a'', CHR 0x0A, CHR 0x5C, CHR 0xFF, CHR ''z'']) 5 = Some e
     \<and> unescape_chars (Some e) = Some (take 5 [CHR ''a'', CHR 0x0A, CHR 0x5C, CHR 0xFF, CHR ''z''])
     \<and> list_all c_isprint e \<and> length e + 1 \<le> 5 * 4 + 1"
  by (rule escape_roundtrip) simp

text \<open>The reading of a percent-escaped name, as an abstract inverse.\<close>

definition hex_of :: "char \<Rightarrow> nat" where
  "hex_of c = (if c_isdigit c then of_char c - 48 else of_char c - 55)"

fun percent_decode :: "cstring \<Rightarrow> char list" where
  "percent_decode (c # a # b # cs) =
     (if c = CHR ''%'' then char_of (16 * hex_of a + hex_of b) # percent_decode cs
      else c # percent_decode (a # b # cs))"
| "percent_decode (c # cs) = c # percent_decode cs"
| "percent_decode [] = []"

lemma hex_of_upper: "n < 16 \<Longrightarrow> hex_of (hex_upper n) = n"
proof -
  assume "n < 16"
  then have "n \<in> set [0..<16]" by simp
  moreover have "\<forall>k\<in>set [0..<16]. hex_of (hex_upper k) = k" by code_simp
  ultimately show ?thesis by blast
qed

lemma percent_decode_plain: "c \<noteq> CHR ''%'' \<Longrightarrow> percent_decode (c # cs) = c # percent_decode cs"
  by (cases cs; cases "tl cs") auto

lemma percent_decode_escape: "percent_decode (escape_fs_char c @ rest) = c # percent_decode rest"
proof (cases "escape_fs_char c = [c]")
  case True
  then have "c \<noteq> CHR ''%''" by (auto simp: escape_fs_char_def fmt_02X_def)
  then show ?thesis using True by (simp add: percent_decode_plain)
next
  case False
  then have e: "escape_fs_char c = CHR ''%'' # fmt_02X (of_char c)"
    by (simp add: escape_fs_char_def split: if_splits)
  have "(of_char c :: nat) div 16 mod 16 = of_char c div 16"
    using div_16_less [OF of_char_less] by (rule mod_less)
  then show ?thesis using div_16_less [OF of_char_less, of c] by (simp add: e fmt_02X_def hex_of_upper)
qed

definition fs_safe :: "char \<Rightarrow> bool" where
  "fs_safe c \<longleftrightarrow> c \<notin> {CHR 0x00, CHR ''/'', CHR 0x5C, CHR '':''}"

lemma fs_safe_hex: "n < 16 \<Longrightarrow> fs_safe (hex_upper n)"
proof -
  assume "n < 16"
  then have "n \<in> set [0..<16]" by simp
  moreover have "\<forall>k\<in>set [0..<16]. fs_safe (hex_upper k)" by code_simp
  ultimately show ?thesis by blast
qed

lemma fs_safe_escape: "list_all fs_safe (escape_fs_char c)"
  using of_char_less [of c]
  by (auto simp: escape_fs_char_def fmt_02X_def fs_safe_hex) (simp_all add: fs_safe_def)

text \<open>
  \<open>escape_fs_chars\<close> makes names safe for the file system without merging any: its result has
  no NUL, slash, backslash or colon, decoding the percent escapes gives the original bytes back (so
  different account names get different file names), and it fits the \<open>len*3+1\<close> bytes allocated.
\<close>

lemma escape_fs_safe:
  "\<exists>e. escape_fs_chars (Some s) n = Some e \<and> list_all fs_safe e
     \<and> percent_decode e = take n s \<and> length e + 1 \<le> n * 3 + 1"
proof -
  let ?e = "\<lambda>xs. concat (map escape_fs_char xs)"
  have one: "length (escape_fs_char c) \<le> 3" for c by (simp add: escape_fs_char_def fmt_02X_def)
  have len: "length (?e xs) \<le> length xs * 3" for xs
  proof (induction xs)
    case (Cons x xs)
    then show ?case using one [of x] by simp
  qed simp
  have dec: "percent_decode (?e xs) = xs" for xs
    by (induction xs) (simp_all add: percent_decode_escape)
  show ?thesis
    using len [of "take n s"] dec [of "take n s"] list_all_concat_map [of fs_safe escape_fs_char, OF fs_safe_escape]
    by (simp add: escape_fs_chars_def)
qed

section \<open>Hexadecimal dumps\<close>

lemma nibble_hex_upper: "n < 16 \<Longrightarrow> nibble (hex_upper n) = int n"
proof -
  assume "n < 16"
  then have "n \<in> set [0..<16]" by simp
  moreover have "\<forall>k\<in>set [0..<16]. nibble (hex_upper k) = int k" by code_simp
  ultimately show ?thesis by blast
qed

lemma str_to_hex_nth:
  "i < length d \<Longrightarrow> k < 3 \<Longrightarrow>
   concat (map (\<lambda>c. fmt_02X (of_char c) @ '' '') d) ! (i * 3 + k) = (fmt_02X (of_char (d ! i)) @ '' '') ! k"
proof (induction d arbitrary: i)
  case (Cons c d)
  then show ?case
  proof (cases i)
    case 0
    have "k = 0 \<or> k = 1 \<or> k = 2" using Cons.prems(2) by linarith
    then show ?thesis using 0 by (elim disjE) (simp_all add: fmt_02X_def)
  next
    case (Suc j)
    then show ?thesis using Cons.IH [of j] Cons.prems by (simp add: fmt_02X_def)
  qed
qed simp

lemma hex_byte: "char_of ((16 * nibble (hex_upper (of_char c div 16 mod 16)) + nibble (hex_upper (of_char c mod 16))) mod 256) = c"
proof -
  have a: "(of_char c :: nat) div 16 mod 16 = of_char c div 16"
    using div_16_less [OF of_char_less] by (rule mod_less)
  have "16 * int (of_char c div 16) + int (of_char c mod 16) = int (of_char c)"
    by (simp add: zmod_int zdiv_int)
  then have "16 * nibble (hex_upper (of_char c div 16 mod 16)) + nibble (hex_upper (of_char c mod 16)) = int (of_char c)"
    using div_16_less [OF of_char_less, of c] by (simp add: a nibble_hex_upper)
  moreover have "(char_of (int (of_char c) mod 256) :: char) = c"
    by (simp add: of_nat_of_char char_of_mod_256)
  ultimately show ?thesis by simp
qed

text \<open>
  A hexadecimal dump is read back exactly: \<open>hex_to_str\<close> on the text that \<open>str_to_hex\<close> writes for
  the first \<open>n\<close> bytes of \<open>d\<close> stores those bytes, whatever their values (its nibble arithmetic on
  \<open>char\<close> included), and returns \<open>n\<close>.
\<close>

lemma hex_roundtrip:
  assumes "n \<le> length d"
  shows "hex_to_str (str_to_hex d n) n = (take n d, n)"
proof -
  have *: "str_to_hex d n ! (i * 3 + k) = (fmt_02X (of_char (d ! i)) @ '' '') ! k" if "i < n" "k < 3" for i k
    using str_to_hex_nth [of i "take n d" k] that assms by (simp add: str_to_hex_def)
  have "char_of ((16 * nibble (str_to_hex d n ! (i * 3)) + nibble (str_to_hex d n ! (i * 3 + 1))) mod 256) = d ! i"
    if "i < n" for i
    using *[OF that, of 0] *[OF that, of 1] hex_byte [of "d ! i"] by (simp add: fmt_02X_def)
  then show ?thesis
    using assms by (auto simp: hex_to_str_def intro!: nth_equalityI)
qed

theorem hex_roundtrip_witness:
  "hex_to_str (str_to_hex [CHR 0xA9, CHR ''x'', CHR 0x00] 3) 3 = (take 3 [CHR 0xA9, CHR ''x'', CHR 0x00], 3)"
  by (rule hex_roundtrip) simp

section \<open>Reading lines\<close>

text \<open>The logical line of an input, with no buffer: the line read so far is \<open>acc\<close>.\<close>

fun logical_line :: "char list \<Rightarrow> cstring \<Rightarrow> char \<Rightarrow> cstring \<times> bool \<times> char list" where
  "logical_line [] acc prev = (acc, True, [])"
| "logical_line (c # cs) acc prev =
     (if c = CHR 0x0D then logical_line cs acc prev
      else if c = CHR 0x0A then
        (if acc = [] \<or> prev \<noteq> CHR 0x5C then (acc, False, cs)
         else logical_line cs (butlast acc) (CHR 0x00))
      else logical_line cs (acc @ [c]) c)"

definition line_buffer :: "char list \<Rightarrow> nat \<Rightarrow> bool" where
  "line_buffer line pos \<longleftrightarrow> pos + 1 < length line"

lemma get_line_loop_logical:
  assumes "line_buffer line pos"
  shows "\<exists>line1 pos1 e rest. get_line_loop cs line pos prev = Some (line1, pos1, e, rest)
           \<and> line_buffer line1 pos1 \<and> logical_line cs (take pos line) prev = (take pos1 line1, e, rest)
           \<and> length line \<le> length line1"
  using assms
proof (induction cs arbitrary: line pos prev)
  case Nil
  then show ?case by (auto intro: exI [of _ True])
next
  case (Cons c cs)
  have len: "pos + 1 < length line" using Cons.prems by (simp add: line_buffer_def)
  consider "c = CHR 0x0D" | "c = CHR 0x0A" "pos < 1 \<or> prev \<noteq> CHR 0x5C"
    | "c = CHR 0x0A" "0 < pos" "prev = CHR 0x5C" | "c \<noteq> CHR 0x0D" "c \<noteq> CHR 0x0A"
    by fastforce
  then show ?case
  proof cases
    case 1
    then show ?thesis using Cons.IH [OF Cons.prems, of prev] by simp
  next
    case 2
    then show ?thesis using Cons.prems len by auto
  next
    case 3
    have "line_buffer line (pos - 1)" using len by (simp add: line_buffer_def)
    moreover have "butlast (take pos line) = take (pos - 1) line" using len by (simp add: butlast_take)
    ultimately show ?thesis
      using Cons.IH [of line "pos - 1" "CHR 0x00"] 3 len by auto
  next
    case 4
    define line2 where "line2 = (if pos + 2 \<ge> length (line[pos := c])
      then line[pos := c] @ replicate INC_LEN (CHR 0x00) else line[pos := c])"
    have "line_buffer line2 (pos + 1)" using len by (auto simp: line_buffer_def line2_def)
    moreover have "take (pos + 1) line2 = take pos line @ [c]"
      using len by (auto simp: line2_def take_Suc_conv_app_nth take_update_swap list_update_beyond nth_append)
    moreover have "get_line_loop (c # cs) line pos prev = get_line_loop cs line2 (pos + 1) c"
      using 4 len by (simp add: line2_def Let_def)
    moreover have "length line \<le> length line2" by (simp add: line2_def)
    moreover have "logical_line (c # cs) (take pos line) prev = logical_line cs (take pos line @ [c]) c"
      using 4 by simp
    ultimately show ?thesis
      using Cons.IH [of line2 "pos + 1" c] by (metis le_trans)
  qed
qed

lemma logical_line_plain:
  assumes "list_all (\<lambda>c. c \<noteq> CHR 0x0D \<and> c \<noteq> CHR 0x0A \<and> c \<noteq> CHR 0x5C) l" "prev \<noteq> CHR 0x5C"
  shows "logical_line (l @ CHR 0x0A # rest) acc prev = (acc @ l, False, rest)"
  using assms by (induction l arbitrary: acc prev) auto

text \<open>
  C35. The line reader never writes outside its static buffer and reads logical lines: whatever the
  input and from any buffer it left behind, \<open>file_get_line\<close> returns NULL exactly at the end of the
  input with nothing read, and otherwise the line without carriage returns and with backslash-newline
  joined; the buffer it keeps is again one it can be called with.
\<close>

theorem file_get_line_safe:
  assumes "static = None \<or> (\<exists>l. static = Some l \<and> DEF_LEN \<le> length l)"
  shows "\<exists>out l rest e tx. file_get_line static (Some input) = Some (out, Some l, rest)
           \<and> DEF_LEN \<le> length l \<and> logical_line input [] (CHR 0x00) = (tx, e, rest)
           \<and> out = (if e \<and> tx = [] then None else Some tx)"
proof -
  define line where "line = (case static of None \<Rightarrow> replicate DEF_LEN (CHR 0x00) | Some l \<Rightarrow> l)"
  have line: "line_buffer line 0" "DEF_LEN \<le> length line"
    using assms by (auto simp: line_def line_buffer_def)
  obtain line1 pos1 e rest where
    loop: "get_line_loop input line 0 (CHR 0x00) = Some (line1, pos1, e, rest)" and
    buf: "line_buffer line1 pos1" and
    tx: "logical_line input [] (CHR 0x00) = (take pos1 line1, e, rest)" and
    len: "length line \<le> length line1"
    using get_line_loop_logical [OF line(1), of input "CHR 0x00"] by auto
  have "pos1 < length line1" using buf by (simp add: line_buffer_def)
  moreover have "take pos1 line1 = [] \<longleftrightarrow> pos1 < 1" using calculation by auto
  ultimately show ?thesis
    using loop tx len line(2) by (simp add: file_get_line_def line_def [symmetric])
qed

theorem file_get_line_safe_witness:
  "\<exists>out l rest e tx. file_get_line None (Some (''a'' @ [CHR 0x5C, CHR 0x0A] @ ''b'' @ [CHR 0x0D, CHR 0x0A] @ ''c''))
       = Some (out, Some l, rest) \<and> DEF_LEN \<le> length l
     \<and> logical_line (''a'' @ [CHR 0x5C, CHR 0x0A] @ ''b'' @ [CHR 0x0D, CHR 0x0A] @ ''c'') [] (CHR 0x00) = (tx, e, rest)
     \<and> out = (if e \<and> tx = [] then None else Some tx)"
  by (rule file_get_line_safe) simp

section \<open>Reversal and clock strings\<close>

lemma reverse_loop_nth:
  assumes "start + end + 1 = length s" "\<And>k. k < start \<Longrightarrow> t ! k = s ! (length s - 1 - k)"
    "\<And>k. end < k \<Longrightarrow> k < length s \<Longrightarrow> t ! k = s ! (length s - 1 - k)"
    "\<And>k. start \<le> k \<Longrightarrow> k \<le> end \<Longrightarrow> t ! k = s ! k" "length t = length s"
  shows "reverse_loop t start end = rev s"
  using assms
proof (induction t start "end" rule: reverse_loop.induct)
  case (1 t start "end")
  show ?case
  proof (cases "start < end")
    case True
    let ?u = "t[end := t ! start, start := t ! end]"
    have bounds: "end < length s" "start < length s" using 1(2) True by simp_all
    have "reverse_loop ?u (start + 1) (end - 1) = rev s"
    proof (rule "1.IH")
      show "start < end \<and> end < length t" using True bounds 1(6) by simp
      show "start + 1 + (end - 1) + 1 = length s" using 1(2) True by simp
      show "?u ! k = s ! (length s - 1 - k)" if "k < start + 1" for k
      proof (cases "k = start")
        case True
        then have "length s - 1 - k = end" using 1(2) by simp
        then show ?thesis using True 1(5) [of "end"] \<open>start < end\<close> bounds 1(6) by simp
      next
        case False
        then show ?thesis using 1(3) [of k] that \<open>start < end\<close> by simp
      qed
      show "?u ! k = s ! (length s - 1 - k)" if "end - 1 < k" "k < length s" for k
      proof (cases "k = end")
        case True
        then have "length s - 1 - k = start" using 1(2) by simp
        then show ?thesis using True 1(5) [of start] \<open>start < end\<close> bounds 1(6) by simp
      next
        case False
        then show ?thesis using 1(4) [of k] that \<open>start < end\<close> by simp
      qed
      show "?u ! k = s ! k" if "start + 1 \<le> k" "k \<le> end - 1" for k
        using 1(5) [of k] that True by simp
      show "length ?u = length s" using 1(6) by simp
    qed
    then show ?thesis using True bounds 1(6) by (simp add: reverse_loop.simps [of t start])
  next
    case False
    have "t = rev s"
    proof (rule nth_equalityI)
      show "length t = length (rev s)" using 1(6) by simp
      fix k assume k: "k < length t"
      consider "k < start" | "end < k" | "start = k" "k = end" using False by linarith
      then show "t ! k = rev s ! k"
      proof cases
        case 3
        then have "length s - Suc k = k" using 1(2) by linarith
        then show ?thesis using 1(5) [of k] 3 k 1(6) by (simp add: rev_nth)
      qed (use 1(3) [of k] 1(4) [of k] k 1(6) in \<open>simp_all add: rev_nth\<close>)
    qed
    then show ?thesis using False by (subst reverse_loop.simps) simp
  qed
qed

lemma strreverse_rev: "strreverse (Some s) = Some (rev s)"
proof (cases "s = []")
  case True
  then show ?thesis by (simp add: strreverse_def reverse_loop.simps)
next
  case False
  have "reverse_loop s 0 (length s - 1) = rev s"
    by (rule reverse_loop_nth) (use False in \<open>auto simp: Suc_leI\<close>)
  then show ?thesis by (simp add: strreverse_def)
qed

lemma fmt_d_digits: "list_all c_isdigit (fmt_d n) \<and> fmt_d n \<noteq> []"
proof (induction n rule: fmt_d.induct)
  case (1 n)
  have d: "c_isdigit (char_of (48 + k))" if "k < 10" for k :: nat
    using that by (simp add: c_isdigit_def of_char_of take_bit_nat_def)
  show ?case using 1 d [of n] d [of "n mod 10"] by (subst (1 2) fmt_d.simps) auto
qed

lemma dec_value_snoc: "dec_value (s @ [c]) = 10 * dec_value s + digit_val c"
  by (simp add: dec_value_def)

lemma dec_value_fmt_d: "dec_value (fmt_d n) = n"
proof (induction n rule: fmt_d.induct)
  case (1 n)
  have d: "digit_val (char_of (48 + k)) = k" if "k < 10" for k
    using that by (simp add: digit_val_def of_char_of take_bit_nat_def)
  show ?case
  proof (cases "n < 10")
    case True
    then show ?thesis using d [of n] by (subst fmt_d.simps) (simp add: dec_value_def)
  next
    case False
    then show ?thesis using 1 d [of "n mod 10"] by (subst fmt_d.simps) (simp add: dec_value_snoc)
  qed
qed

lemma clock_loop_digits:
  "list_all c_isdigit ds \<Longrightarrow> clock_loop (ds @ cs) field temp = clock_loop cs (field @ ds) temp"
  by (induction ds arbitrary: field) (auto simp: c_isdigit_def)

lemma strtoul10_fmt_d: "n < 2 ^ 64 \<Longrightarrow> strtoul10 (fmt_d n) = n"
proof -
  assume n: "n < 2 ^ 64"
  have all: "takeWhile c_isdigit (fmt_d n) = fmt_d n"
    using fmt_d_digits [of n] by (simp add: list_all_iff takeWhile_eq_all_conv)
  show "strtoul10 (fmt_d n) = n" unfolding strtoul10_def all dec_value_fmt_d using n by simp
qed

lemma clockstr_to_seconds_hms:
  assumes "h < 2 ^ 64" "m < 2 ^ 64" "s < 2 ^ 64"
  shows "clockstr_to_seconds (Some (fmt_d h @ '':'' @ fmt_d m @ '':'' @ fmt_d s)) (Some t)
           = (0, Some (of_nat ((h * 60 + m) * 60 + s)))"
  using assms fmt_d_digits [of h] fmt_d_digits [of m] fmt_d_digits [of s]
    clock_loop_digits [of "fmt_d s" "[]"]
  by (simp add: clockstr_to_seconds_def clock_loop_digits strtoul10_fmt_d algebra_simps)

text \<open>
  The decimal printing and parsing of numbers agree: what \<open>%d\<close> prints for a 32-bit number is
  read back by \<open>str_to_uint\<close> as that number, and a clock string of printed hours, minutes and seconds
  is read by \<open>clockstr_to_seconds\<close> as the total number of seconds (modulo the width of the result).
\<close>

lemma decimal_roundtrip:
  assumes "h < 2 ^ 64" "m < 2 ^ 64" "s < 2 ^ 64"
  shows "str_to_uint (Some (fmt_d (unat v))) (Some w) = (0, Some v)
    \<and> clockstr_to_seconds (Some (fmt_d h @ '':'' @ fmt_d m @ '':'' @ fmt_d s)) (Some w)
        = (0, Some (of_nat ((h * 60 + m) * 60 + s)))"
proof -
  have digits: "list_all c_isdigit (fmt_d (unat v))" "fmt_d (unat v) \<noteq> []" using fmt_d_digits by simp_all
  obtain c cs where cs: "fmt_d (unat v) = c # cs" using digits(2) by (cases "fmt_d (unat v)") auto
  have "c \<noteq> CHR '' ''" "c \<noteq> CHR 0x09" "c \<noteq> CHR ''+''"
    using digits(1) cs by (auto simp: c_isdigit_def)
  then have "skip_sign (fmt_d (unat v)) = fmt_d (unat v)"
    unfolding cs by (simp add: skip_sign_def Let_def)
  moreover have "unat v < 2 ^ 32" using unsigned_less [of v, where ?'a = nat] by simp
  ultimately have "str_to_uint (Some (fmt_d (unat v))) (Some w) = (0, Some v)"
    using digits dec_value_fmt_d [of "unat v"]
    by (simp add: str_to_uint_def uint_loop_exact dec_value_def)
  then show ?thesis using clockstr_to_seconds_hms [OF assms] by simp
qed

theorem decimal_roundtrip_witness:
  "str_to_uint (Some (fmt_d (unat (4294967295::u32)))) (Some 0) = (0, Some 4294967295)
   \<and> clockstr_to_seconds (Some (fmt_d 1 @ '':'' @ fmt_d 30 @ '':'' @ fmt_d 5)) (Some 0)
        = (0, Some (of_nat ((1 * 60 + 30) * 60 + 5)))"
  by (rule decimal_roundtrip) simp_all

end
