(* ===== verification/Big_Int.thy ===== *)
theory Big_Int
  imports Pvpgn_Prelude
begin

text \<open>
  \<^verbatim>\<open>common/bigint.cpp\<close>, built with 64-bit integers: a \<open>BigInt\<close> is the list of its
  32-bit segments, least significant first, and \<open>segment_count\<close> is the length of the list. The
  segment arithmetic is on words, as in the source: sums and products are 64-bit words, and what the
  source truncates is truncated. The estimate-and-adjust division may read a segment its remainder
  does not have or adjust for ever; both are \<open>None\<close>. \<open>rand\<close> is a parameter.

  \<open>big_val\<close> is the number a list stands for. The lemmas show that addition and multiplication are
  exact, when subtraction is, that the comparisons decide the order of normalised numbers, and that
  division by one segment and the modular powers over it are exact.
\<close>

type_synonym bigint = "u32 list"

definition Bs :: nat where
  "Bs = 2 ^ 32"

fun big_val :: "bigint \<Rightarrow> nat" where
  "big_val [] = 0"
| "big_val (w # ws) = unat w + Bs * big_val ws"

section \<open>Construction\<close>

definition big_zero :: bigint where
  "big_zero = [0]"

definition big_u8 :: "u8 \<Rightarrow> bigint" where
  "big_u8 input = [ucast input]"

definition big_u16 :: "u16 \<Rightarrow> bigint" where
  "big_u16 input = [ucast input]"

definition big_u32 :: "u32 \<Rightarrow> bigint" where
  "big_u32 input = [input]"

definition big_u64 :: "u64 \<Rightarrow> bigint" where
  "big_u64 input = [ucast (input AND 0xffffffff), ucast (drop_bit 32 input AND 0xffffffff)]"

text \<open>The exchange of the bytes of every block, used in both directions of the byte conversion.\<close>

definition swap_blocks :: "nat \<Rightarrow> u8 list \<Rightarrow> u8 list option" where
  "swap_blocks bs xs =
     (if bs = 0 \<or> odd bs \<or> length xs mod bs \<noteq> 0 then None
      else Some (map (\<lambda>k. xs ! (k div bs * bs + (bs - 1 - k mod bs))) [0..<length xs]))"

text \<open>The loop over \<open>i\<close>: the bytes in the order they are read, \<open>i\<close> of them left after the first.\<close>

fun fill_segments :: "u8 list \<Rightarrow> bigint \<Rightarrow> bigint" where
  "fill_segments [] seg = seg"
| "fill_segments (b # bs) seg =
     (let j = length bs div 4 in fill_segments bs (seg[j := push_bit 8 (seg ! j) + ucast b]))"

definition big_bytes :: "u8 list \<Rightarrow> nat \<Rightarrow> bool \<Rightarrow> bigint option" where
  "big_bytes input blockSize bigEndian = do {
     inp \<leftarrow> (if bigEndian then Some input
            else if blockSize = 1 then Some (rev input)
            else do { xs \<leftarrow> swap_blocks blockSize input; Some (rev xs) });
     let size = length input;
         count = size div 4 + (if size mod 4 \<noteq> 0 then 1 else 0)
     in Some (fill_segments inp (replicate count 0)) }"

section \<open>Comparison\<close>

definition big_eq :: "bigint \<Rightarrow> bigint \<Rightarrow> bool" where
  "big_eq l r \<longleftrightarrow> length l = length r \<and> list_all2 (=) l r"

fun less_loop :: "bigint \<Rightarrow> bigint \<Rightarrow> bool" where
  "less_loop (x # xs) (y # ys) = (if x < y then True else if x > y then False else less_loop xs ys)"
| "less_loop _ _ = False"

definition big_less :: "bigint \<Rightarrow> bigint \<Rightarrow> bool" where
  "big_less l r = (if length l < length r then True else if length l > length r then False
                   else less_loop (rev l) (rev r))"

fun greater_loop :: "bigint \<Rightarrow> bigint \<Rightarrow> bool" where
  "greater_loop (x # xs) (y # ys) = (if x > y then True else if x < y then False else greater_loop xs ys)"
| "greater_loop _ _ = False"

definition big_greater :: "bigint \<Rightarrow> bigint \<Rightarrow> bool" where
  "big_greater l r = (if length l > length r then True else if length l < length r then False
                      else greater_loop (rev l) (rev r))"

section \<open>Addition, subtraction, multiplication\<close>

definition seg_at :: "bigint \<Rightarrow> nat \<Rightarrow> u32" where
  "seg_at s i = (if i < length s then s ! i else 0)"

fun top_loop :: "bigint \<Rightarrow> nat \<Rightarrow> nat" where
  "top_loop s 0 = 0"
| "top_loop s (Suc n) = (if s ! Suc n \<noteq> 0 then Suc n else top_loop s n)"

definition trim :: "bigint \<Rightarrow> bigint" where
  "trim s = take (top_loop s (length s - 1) + 1) s"

text \<open>\<open>n\<close> iterations are left; the last segment is the carry.\<close>

fun add_loop :: "bigint \<Rightarrow> bigint \<Rightarrow> nat \<Rightarrow> nat \<Rightarrow> u32 \<Rightarrow> bigint" where
  "add_loop l r 0 i carry = [carry]"
| "add_loop l r (Suc n) i carry =
     (let lhs = ucast (seg_at l i) :: u64; rhs = ucast (seg_at r i) :: u64;
          sum = lhs + rhs + ucast carry
      in ucast (sum AND 0xffffffff) # add_loop l r n (i + 1) (ucast (drop_bit 32 sum)))"

definition big_add :: "bigint \<Rightarrow> bigint \<Rightarrow> bigint" where
  "big_add l r = trim (add_loop l r (max (length l) (length r)) 0 0)"

fun sub_loop :: "bigint \<Rightarrow> bigint \<Rightarrow> nat \<Rightarrow> nat \<Rightarrow> u32 \<Rightarrow> bigint" where
  "sub_loop l r 0 i carry = []"
| "sub_loop l r (Suc n) i carry =
     (let lhs = seg_at l i; rhs = seg_at r i + carry
      in if lhs < rhs then ((0xffffffff + 1 + lhs) - rhs) # sub_loop l r n (i + 1) 1
         else (lhs - rhs) # sub_loop l r n (i + 1) 0)"

definition big_sub :: "bigint \<Rightarrow> bigint \<Rightarrow> bigint" where
  "big_sub l r = (if \<not> big_greater l r then big_zero else trim (sub_loop l r (length l) 0 0))"

fun mul_row :: "u32 \<Rightarrow> bigint \<Rightarrow> nat \<Rightarrow> bigint \<Rightarrow> u32 \<Rightarrow> bigint \<times> u32" where
  "mul_row lhs [] index res carry = (res, carry)"
| "mul_row lhs (r # rs) index res carry =
     (let prod = (ucast lhs :: u64) * ucast r;
          sum = ucast (res ! index) + prod + ucast carry
      in mul_row lhs rs (index + 1) (res[index := ucast (sum AND 0xffffffff)]) (ucast (drop_bit 32 sum)))"

fun mul_loop :: "bigint \<Rightarrow> bigint \<Rightarrow> nat \<Rightarrow> bigint \<Rightarrow> u32 \<Rightarrow> bigint \<times> u32" where
  "mul_loop [] right i res carry = (res, carry)"
| "mul_loop (l # ls) right i res carry =
     (let (res1, carry1) = mul_row l right i res carry; index = i + length right
      in if carry1 \<noteq> 0
         then let sum = (ucast (res1 ! index) :: u64) + ucast carry1
              in mul_loop ls right (i + 1) (res1[index := ucast (sum AND 0xffffffff)]) (ucast (drop_bit 32 sum))
         else mul_loop ls right (i + 1) res1 carry1)"

definition big_mul :: "bigint \<Rightarrow> bigint \<Rightarrow> bigint" where
  "big_mul l r =
     (if (length l = 1 \<and> l ! 0 = 0) \<or> (length r = 1 \<and> r ! 0 = 0) then big_zero
      else let (res, carry) = mul_loop l r 0 (replicate (length l + length r) 0) 0;
               k = length l + length r - 1
           in trim (res[k := res ! k + carry]))"

definition big_shift :: "bigint \<Rightarrow> nat \<Rightarrow> bigint option" where
  "big_shift s bytesToShift =
     (if bytesToShift mod 4 \<noteq> 0 then None
      else if bytesToShift = 0 then Some big_zero
      else Some (replicate (bytesToShift div 4) 0 @ s))"

section \<open>Division\<close>

text \<open>The endless loop that corrects the estimate \<open>qest\<close>, with \<open>p\<close> the product of \<open>qest\<close> and \<open>right\<close>.\<close>

partial_function (option) adjust :: "bigint \<Rightarrow> bigint \<Rightarrow> u64 \<Rightarrow> bigint \<Rightarrow> (u64 \<times> bigint) option" where
  "adjust right remainder qest p =
     (if big_eq p remainder then Some (qest, p)
      else if big_less p remainder
      then (if big_greater (big_sub remainder p) right
            then adjust right remainder (qest + 1) (big_add p right)
            else Some (qest, p))
      else adjust right remainder (qest - 1) (big_sub p right))"

declare adjust.simps [code]

definition div_digit :: "bigint \<Rightarrow> bigint \<Rightarrow> (u64 \<times> bigint) option" where
  "div_digit right remainder =
     (let k = length right in
      if k = 0 \<or> length remainder \<le> k then None
      else let n = push_bit 32 (ucast (remainder ! k)) + ucast (remainder ! (k - 1)) :: u64;
               d = ucast (right ! (k - 1)) :: u64
           in if d = 0 then None
              else let qest = n div d in adjust right remainder qest (big_mul (big_u64 qest) right))"

text \<open>The loops of \<open>operator/\<close> and \<open>operator%\<close>; \<open>k\<close> is \<open>i - right.segment_count\<close>.\<close>

definition next_remainder :: "bigint \<Rightarrow> bigint \<Rightarrow> nat \<Rightarrow> bigint option" where
  "next_remainder self remainder k = do { s \<leftarrow> big_shift remainder 4; Some (s[0 := self ! k]) }"

fun div_loop :: "bigint \<Rightarrow> bigint \<Rightarrow> nat \<Rightarrow> bigint \<Rightarrow> bigint \<Rightarrow> bigint option" where
  "div_loop self right 0 remainder quot = do {
     (qest, p) \<leftarrow> div_digit right remainder;
     Some (quot[0 := ucast (qest AND 0xffffffff)]) }"
| "div_loop self right (Suc k) remainder quot = do {
     (qest, p) \<leftarrow> div_digit right remainder;
     rem1 \<leftarrow> next_remainder self (big_sub remainder p) k;
     div_loop self right k rem1 (quot[Suc k := ucast (qest AND 0xffffffff)]) }"

definition big_div :: "bigint \<Rightarrow> bigint \<Rightarrow> bigint option" where
  "big_div l r =
     (if big_less l r then Some big_zero
      else let k = length l - length r in do {
        q \<leftarrow> div_loop l r k (drop k l @ [0]) (replicate (k + 1) 0);
        Some (trim q) })"

fun mod_loop :: "bigint \<Rightarrow> bigint \<Rightarrow> nat \<Rightarrow> bigint \<Rightarrow> bigint option" where
  "mod_loop self right 0 remainder = do {
     (qest, p) \<leftarrow> div_digit right remainder;
     Some (big_sub remainder p) }"
| "mod_loop self right (Suc k) remainder = do {
     (qest, p) \<leftarrow> div_digit right remainder;
     rem1 \<leftarrow> next_remainder self (big_sub remainder p) k;
     mod_loop self right k rem1 }"

definition big_mod :: "bigint \<Rightarrow> bigint \<Rightarrow> bigint option" where
  "big_mod l r =
     (if big_less l r then Some l
      else let k = length l - length r in mod_loop l r k (drop k l @ [0]))"

section \<open>Random numbers, powers, output\<close>

definition big_random :: "(nat \<Rightarrow> u32) \<Rightarrow> nat \<Rightarrow> bigint option" where
  "big_random rand sz = (if sz = 0 \<or> sz mod 4 \<noteq> 0 then None
     else Some (map (\<lambda>i. push_bit 4 0 + rand i) [0..<sz div 4]))"

partial_function (option) powm :: "bigint \<Rightarrow> bigint \<Rightarrow> bigint \<Rightarrow> bigint option" where
  "powm self exp m =
     (if exp = [] then None
      else if length exp = 1 \<and> exp ! 0 = 2 then big_mod (big_mul self self) m
      else if length exp = 1 \<and> exp ! 0 = 1 then Some self
      else if length exp = 1 \<and> exp ! 0 = 0 then Some (big_u8 1)
      else if exp ! 0 mod 2 = 0 then do {
        half \<leftarrow> big_div exp (big_u8 2);
        halfpow \<leftarrow> powm self half m;
        big_mod (big_mul halfpow halfpow) m }
      else do {
        half \<leftarrow> big_div exp (big_u8 2);
        halfpow \<leftarrow> powm self half m;
        sq \<leftarrow> big_mod (big_mul halfpow halfpow) m;
        big_mod (big_mul sq self) m })"

declare powm.simps [code]

text \<open>The bytes of a segment in the order they are written, downwards from the end of the buffer.\<close>

definition seg_bytes :: "u32 \<Rightarrow> u8 list" where
  "seg_bytes d = [ucast (d AND 0xff), ucast (drop_bit 8 d AND 0xff), ucast (drop_bit 16 d AND 0xff), ucast (drop_bit 24 d AND 0xff)]"

fun put_down :: "u8 list \<Rightarrow> nat \<Rightarrow> u8 list \<Rightarrow> u8 list" where
  "put_down [] pos out = out"
| "put_down (b # bs) 0 out = out"
| "put_down (b # bs) (Suc pos) out = put_down bs pos (out[pos := b])"

definition getData :: "bigint \<Rightarrow> nat \<Rightarrow> nat \<Rightarrow> bool \<Rightarrow> u8 list option" where
  "getData s byteCount blockSize bigEndian =
     (let out = put_down (concat (map seg_bytes (rev s))) byteCount (replicate byteCount 0)
      in if \<not> bigEndian \<and> blockSize > 1 then swap_blocks blockSize out else Some out)"

definition hex_digit :: "nat \<Rightarrow> char" where
  "hex_digit n = ''0123456789abcdef'' ! n"

text \<open>\<open>data\<close> is a \<open>char\<close>; \<open>sum\<close> adds its signed value.\<close>

fun hex_top :: "u8 list \<Rightarrow> int \<Rightarrow> cstring" where
  "hex_top [] acc = []"
| "hex_top (d # ds) acc =
     (let sum1 = acc + sint d
      in if sum1 \<noteq> 0 then hex_digit (unat d div 16) # hex_digit (unat d mod 16) # hex_top ds sum1
         else hex_top ds sum1)"

definition toHexString :: "bigint \<Rightarrow> cstring" where
  "toHexString s =
     (if length s = 1 \<and> last s = 0 then ''00''
      else hex_top (rev (seg_bytes (last s))) 0
           @ concat (map (\<lambda>w. concat (map (\<lambda>d. [hex_digit (unat d div 16), hex_digit (unat d mod 16)]) (rev (seg_bytes w))))
               (rev (butlast s))))"

section \<open>Values\<close>

lemma Bs_pos [simp]: "0 < Bs" and Bs_neq_0 [simp]: "Bs \<noteq> 0" and Bs_gt_1: "1 < Bs"
  by (simp_all add: Bs_def)

lemma unat_less_Bs [simp]: "unat (w :: u32) < Bs"
  using unsigned_less [of w, where ?'a = nat] by (simp add: Bs_def)

lemma big_val_append: "big_val (xs @ ys) = big_val xs + Bs ^ length xs * big_val ys"
  by (induction xs) (simp_all add: algebra_simps)

lemma big_val_replicate_0 [simp]: "big_val (replicate n 0) = 0"
  by (induction n) simp_all

lemma big_val_less: "big_val xs < Bs ^ length xs"
proof (induction xs)
  case (Cons w ws)
  have "unat w + Bs * big_val ws < Bs + Bs * big_val ws" using unat_less_Bs [of w] by simp
  also have "\<dots> = Bs * (big_val ws + 1)" by simp
  also have "\<dots> \<le> Bs * Bs ^ length ws" using Cons by (intro mult_le_mono) simp_all
  finally show ?case by simp
qed simp

lemma big_val_update:
  "i < length s \<Longrightarrow> big_val (s[i := w]) + unat (s ! i) * Bs ^ i = big_val s + unat w * Bs ^ i"
proof (induction s arbitrary: i)
  case (Cons x s)
  show ?case
  proof (cases i)
    case (Suc j)
    have "Bs * (big_val (s[j := w]) + unat (s ! j) * Bs ^ j) = Bs * (big_val s + unat w * Bs ^ j)"
      using Cons Suc by simp
    then show ?thesis using Suc by (simp add: algebra_simps)
  qed simp
qed simp

lemma big_val_inj: "length xs = length ys \<Longrightarrow> big_val xs = big_val ys \<Longrightarrow> xs = ys"
proof (induction xs ys rule: list_induct2)
  case (Cons x xs y ys)
  have m: "unat x + Bs * big_val xs = unat y + Bs * big_val ys" using Cons by simp
  have "(unat x + Bs * big_val xs) mod Bs = unat x" "(unat y + Bs * big_val ys) mod Bs = unat y" by simp_all
  then have "unat x = unat y" using m by metis
  then show ?case using m Cons by (simp add: word_unat_eq_iff)
qed simp

definition normal :: "bigint \<Rightarrow> bool" where
  "normal s \<longleftrightarrow> s \<noteq> [] \<and> (length s = 1 \<or> last s \<noteq> 0)"

lemma top_loop_le: "top_loop s n \<le> n"
  by (induction n) auto

lemma top_loop_above: "top_loop s n < k \<Longrightarrow> k \<le> n \<Longrightarrow> s ! k = 0"
  by (induction n) (auto split: if_splits simp: le_Suc_eq)

lemma top_loop_nonzero: "top_loop s n = 0 \<or> s ! top_loop s n \<noteq> 0"
  by (induction n) auto

lemma trim_drop: "s \<noteq> [] \<Longrightarrow> drop (top_loop s (length s - 1) + 1) s = replicate (length s - (top_loop s (length s - 1) + 1)) 0"
  by (rule nth_equalityI) (auto intro!: top_loop_above [where n = "length s - 1"])

lemma big_val_trim [simp]: "s \<noteq> [] \<Longrightarrow> big_val (trim s) = big_val s"
proof -
  assume s: "s \<noteq> []"
  have "big_val s = big_val (trim s @ drop (top_loop s (length s - 1) + 1) s)" by (simp add: trim_def)
  also have "\<dots> = big_val (trim s)" using trim_drop [OF s] by (simp add: big_val_append del: drop_Suc)
  finally show ?thesis by simp
qed

lemma normal_trim [simp]: "s \<noteq> [] \<Longrightarrow> normal (trim s)"
proof -
  assume s: "s \<noteq> []"
  let ?t = "top_loop s (length s - 1)"
  have "?t < length s" using s top_loop_le [of s "length s - 1"] by (cases s) auto
  then have len: "length (trim s) = ?t + 1" by (simp add: trim_def)
  then have "trim s \<noteq> []" by auto
  then have "last (trim s) = trim s ! ?t" by (simp add: last_conv_nth len)
  also have "\<dots> = s ! ?t" by (simp add: trim_def)
  finally have "last (trim s) = s ! ?t" .
  then show ?thesis using len top_loop_nonzero [of s "length s - 1"] by (auto simp: normal_def)
qed

lemma normal_big_zero [simp]: "normal big_zero" and big_val_zero [simp]: "big_val big_zero = 0"
  by (simp_all add: normal_def big_zero_def)

lemma length_trim_le: "length (trim s) \<le> length s"
  by (simp add: trim_def)

lemma normal_ge: "normal s \<Longrightarrow> 1 < length s \<Longrightarrow> Bs ^ (length s - 1) \<le> big_val s"
proof -
  assume n: "normal s" "1 < length s"
  then have s: "s = butlast s @ [last s]" by (simp add: normal_def)
  have "last s \<noteq> 0" using n by (auto simp: normal_def)
  then have "1 \<le> unat (last s)" by (simp add: Suc_le_eq unat_gt_0)
  then have "Bs ^ (length s - 1) \<le> Bs ^ (length s - 1) * unat (last s)" by simp
  also have "\<dots> \<le> big_val s" by (subst s, subst big_val_append) simp
  finally show ?thesis .
qed

lemma normal_length_mono: "normal l \<Longrightarrow> length l < length r \<Longrightarrow> normal r \<Longrightarrow> big_val l < big_val r"
proof -
  assume *: "normal l" "length l < length r" "normal r"
  have "l \<noteq> []" using * by (simp add: normal_def)
  then have "1 < length r" using *(2) by (cases l) auto
  then have "Bs ^ (length r - 1) \<le> big_val r" using *(3) by (rule normal_ge [rotated])
  moreover have "Bs ^ length l \<le> Bs ^ (length r - 1)" using *(2) Bs_gt_1 by (intro power_increasing) auto
  ultimately show ?thesis using big_val_less [of l] by linarith
qed

section \<open>Comparisons\<close>

lemma big_eq_iff [simp]: "big_eq l r \<longleftrightarrow> l = r"
  by (auto simp: big_eq_def list.rel_eq)

lemma rev_val_less:
  assumes "length xs = length ys"
  shows "big_val (rev xs @ [x]) < big_val (rev ys @ [y]) \<longleftrightarrow> x < y \<or> x = y \<and> big_val (rev xs) < big_val (rev ys)"
proof -
  let ?n = "Bs ^ length ys"
  have b: "big_val (rev xs) < ?n" "big_val (rev ys) < ?n"
    using big_val_less [of "rev xs"] big_val_less [of "rev ys"] assms by simp_all
  have v: "big_val (rev xs @ [x]) = big_val (rev xs) + ?n * unat x"
    "big_val (rev ys @ [y]) = big_val (rev ys) + ?n * unat y" using assms by (simp_all add: big_val_append)
  consider "unat x < unat y" | "unat y < unat x" | "x = y" by (metis linorder_neqE_nat word_unat_eq_iff)
  then show ?thesis
  proof cases
    case 1
    then have "?n * unat x + ?n \<le> ?n * unat y" by (metis Suc_leI mult_Suc_right add.commute mult_le_mono2)
    then show ?thesis using 1 b v by (auto simp: word_less_nat_alt)
  next
    case 2
    then have "?n * unat y + ?n \<le> ?n * unat x" by (metis Suc_leI mult_Suc_right add.commute mult_le_mono2)
    then show ?thesis using 2 b v by (auto simp: word_less_nat_alt)
  next
    case 3
    then show ?thesis unfolding v by simp
  qed
qed

lemma less_loop_val: "length xs = length ys \<Longrightarrow> less_loop xs ys \<longleftrightarrow> big_val (rev xs) < big_val (rev ys)"
proof (induction xs ys rule: list_induct2)
  case (Cons x xs y ys)
  then show ?case using rev_val_less [of xs ys x y] by auto
qed simp

lemma greater_loop_less: "greater_loop xs ys = less_loop ys xs"
  by (induction xs ys rule: greater_loop.induct) auto

lemma big_greater_less: "big_greater l r = big_less r l"
  by (simp add: big_greater_def big_less_def greater_loop_less)

lemma big_less_same_length: "length l = length r \<Longrightarrow> big_less l r \<longleftrightarrow> big_val l < big_val r"
  by (simp add: big_less_def less_loop_val)

lemma big_less_normal: "normal l \<Longrightarrow> normal r \<Longrightarrow> big_less l r \<longleftrightarrow> big_val l < big_val r"
  using big_less_same_length [of l r] normal_length_mono [of l r] normal_length_mono [of r l]
  by (cases "length l" "length r" rule: linorder_cases) (auto simp: big_less_def)

section \<open>Addition\<close>

lemma ucast_and_mask32 [simp]: "(ucast (s AND 0xffffffff :: u64) :: u32) = ucast s"
proof -
  have m: "(0xffffffff :: u64) = mask 32" by (simp add: mask_eq_exp_minus_1)
  show ?thesis unfolding m by (rule bit_word_eqI) (auto simp: bit_simps dest: bit_imp_le_length)
qed

lemma unat_low_half: "unat (ucast (s :: u64) :: u32) = unat s mod Bs"
  by (simp add: unsigned_ucast_eq Bs_def take_bit_eq_mod)

lemma u64_split: "unat (s :: u64) = unat (ucast s :: u32) + Bs * unat (ucast (drop_bit 32 s) :: u32)"
proof -
  note a = unat_low_half [of s]
  have "unat (drop_bit 32 s) = unat s div Bs"
    by (simp only: unat_drop_bit_eq drop_bit_eq_div [where ?'a = nat] Bs_def)
  moreover have "unat s div Bs < Bs"
    using unsigned_less [of s, where ?'a = nat] by (simp add: Bs_def div_less_iff_less_mult)
  ultimately have b: "unat (ucast (drop_bit 32 s) :: u32) = unat s div Bs"
    by (simp add: unsigned_ucast_eq Bs_def take_bit_nat_eq_self)
  show ?thesis unfolding a b by simp
qed

lemma unat_ucast_u64 [simp]: "unat (ucast (w :: u32) :: u64) = unat w"
  using unat_less_Bs [of w] by (simp add: unsigned_ucast_eq Bs_def take_bit_nat_eq_self)

lemma unat_add3:
  assumes "unat a + unat b + unat c < 2 ^ 64"
  shows "unat (a + b + c :: u64) = unat a + unat b + unat c"
  using assms by (simp add: unat_word_ariths)

lemma seg_at_Cons [simp]: "seg_at (w # ws) 0 = w" "seg_at (w # ws) (Suc i) = seg_at ws i" "seg_at [] i = 0"
  by (simp_all add: seg_at_def)

lemma big_val_drop_seg: "big_val (drop i s) = unat (seg_at s i) + Bs * big_val (drop (Suc i) s)"
  by (cases "i < length s") (simp_all add: seg_at_def Cons_nth_drop_Suc [symmetric])

lemma add_loop_val:
  "length l \<le> i + n \<Longrightarrow> length r \<le> i + n \<Longrightarrow>
   big_val (add_loop l r n i carry) = big_val (drop i l) + big_val (drop i r) + unat carry"
proof (induction n arbitrary: i carry)
  case (Suc n)
  let ?s = "ucast (seg_at l i) + ucast (seg_at r i) + ucast carry :: u64"
  have "unat ?s = unat (seg_at l i) + unat (seg_at r i) + unat carry"
    using unat_less_Bs [of "seg_at l i"] unat_less_Bs [of "seg_at r i"] unat_less_Bs [of carry]
    by (subst unat_add3) (simp_all add: Bs_def)
  then show ?case
    using Suc.IH [of "Suc i" "ucast (drop_bit 32 ?s)"] Suc.prems u64_split [of ?s]
      big_val_drop_seg [of i l] big_val_drop_seg [of i r]
    by (simp add: Let_def distrib_left del: drop_Suc)
qed simp

lemma add_loop_not_Nil [simp]: "add_loop l r n i c \<noteq> []"
  by (cases n) (simp_all add: Let_def)

lemma big_val_add [simp]: "big_val (big_add l r) = big_val l + big_val r"
  by (simp add: big_add_def add_loop_val)

lemma normal_add [simp]: "normal (big_add l r)"
  by (simp add: big_add_def)

section \<open>Subtraction\<close>

text \<open>A borrow is lost when the subtrahend's segment is all ones: adding the borrow wraps to zero.\<close>

fun borrow_safe :: "bigint \<Rightarrow> bigint \<Rightarrow> nat \<Rightarrow> nat \<Rightarrow> u32 \<Rightarrow> bool" where
  "borrow_safe l r 0 i carry = True"
| "borrow_safe l r (Suc n) i carry =
     (\<not> (carry \<noteq> 0 \<and> seg_at r i = 0xffffffff)
      \<and> borrow_safe l r n (i + 1) (if seg_at l i < seg_at r i + carry then 1 else 0))"

definition sub_safe :: "bigint \<Rightarrow> bigint \<Rightarrow> bool" where
  "sub_safe l r = borrow_safe l r (length l) 0 0"

lemma unat_add_carry:
  assumes "c = 0 \<or> c = (1 :: u32)" "\<not> (c \<noteq> 0 \<and> w = 0xffffffff)"
  shows "unat (w + c) = unat w + unat c"
proof (cases "c = 0")
  case False
  then have c: "c = 1" and "w \<noteq> 0xffffffff" using assms by auto
  then have "unat w \<noteq> unat (0xffffffff :: u32)" by (simp only: word_unat_eq_iff) simp
  then have "unat w + 1 < Bs" using unat_less_Bs [of w] by (simp add: Bs_def)
  then show ?thesis by (simp add: c unat_word_ariths Bs_def)
qed simp

lemma unat_sub_borrow:
  assumes "(a :: u32) < b" shows "unat (0xffffffff + 1 + a - b) + unat b = Bs + unat a"
proof -
  have "unat (a - b) = unat a + Bs - unat b"
    using assms unat_less_Bs [of b] by (simp add: unat_sub_if' word_less_nat_alt not_le Bs_def)
  moreover have eq: "0xffffffff + 1 + a - b = a - b"
  proof -
    have "(0xffffffff + 1 :: u32) = 0" by (simp add: word_unat_eq_iff unat_word_ariths)
    then show ?thesis by (simp only: add_0)
  qed
  ultimately show ?thesis unfolding eq using unat_less_Bs [of b] by linarith
qed

lemma sub_loop_val:
  assumes "borrow_safe l r n i c" "c = 0 \<or> c = 1" "length l \<le> i + n" "length r \<le> i + n"
    "big_val (drop i r) + unat c \<le> big_val (drop i l)"
  shows "big_val (sub_loop l r n i c) + big_val (drop i r) + unat c = big_val (drop i l)"
  using assms
proof (induction n arbitrary: i c)
  case (Suc n)
  let ?a = "seg_at l i" and ?r = "seg_at r i"
  let ?L = "big_val (drop (Suc i) l)" and ?R = "big_val (drop (Suc i) r)"
  have carry: "unat (?r + c) = unat ?r + unat c" using Suc.prems by (intro unat_add_carry) auto
  have L: "big_val (drop i l) = unat ?a + Bs * ?L" and R: "big_val (drop i r) = unat ?r + Bs * ?R"
    by (rule big_val_drop_seg)+
  have le: "unat ?r + Bs * ?R + unat c \<le> unat ?a + Bs * ?L" using Suc.prems(5) L R by simp
  show ?case
  proof (cases "?a < ?r + c")
    case True
    then have lt: "unat ?a < unat ?r + unat c" using carry by (simp add: word_less_nat_alt)
    then have "Bs * ?R < Bs * ?L" using le by linarith
    then have *: "?R + unat (1 :: u32) \<le> ?L" by simp
    have "big_val (sub_loop l r n (Suc i) 1) + ?R + unat (1 :: u32) = ?L"
      using True Suc.prems * by (intro Suc.IH) auto
    then have "Bs * (big_val (sub_loop l r n (Suc i) 1) + ?R + 1) = Bs * ?L" by simp
    then show ?thesis
      using True unat_sub_borrow [OF True] carry L R by (simp add: Let_def algebra_simps)
  next
    case False
    then have ge: "unat ?r + unat c \<le> unat ?a" using carry by (simp add: word_less_nat_alt)
    have "Bs * ?R < Bs * ?L + Bs" using le unat_less_Bs [of ?a] by linarith
    then have "Bs * ?R < Bs * Suc ?L" by simp
    then have *: "?R + unat (0 :: u32) \<le> ?L" by (simp only: mult_less_cancel1) simp
    have "big_val (sub_loop l r n (Suc i) 0) + ?R + unat (0 :: u32) = ?L"
      using False Suc.prems * by (intro Suc.IH) auto
    then have "Bs * (big_val (sub_loop l r n (Suc i) 0) + ?R) = Bs * ?L" by simp
    moreover have "unat (?a - (?r + c)) = unat ?a - (unat ?r + unat c)"
      using False carry by (simp add: unat_sub_if' word_le_nat_alt not_less)
    ultimately show ?thesis
      using False ge L R by (simp add: Let_def algebra_simps)
  qed
qed simp

lemma sub_loop_not_Nil: "l \<noteq> [] \<Longrightarrow> sub_loop l r (length l) i c \<noteq> []"
  by (cases l) (auto simp: Let_def)

lemma big_val_sub:
  assumes "sub_safe l r" "big_greater l r" "length r \<le> length l" "big_val r \<le> big_val l"
  shows "big_val (big_sub l r) = big_val l - big_val r"
proof -
  have "l \<noteq> []" using assms(2) by (auto simp: big_greater_def split: if_splits)
  then have "sub_loop l r (length l) 0 0 \<noteq> []" by (rule sub_loop_not_Nil)
  moreover have "big_val (sub_loop l r (length l) 0 0) + big_val (drop 0 r) + unat (0 :: u32) = big_val (drop 0 l)"
    using assms by (intro sub_loop_val) (auto simp: sub_safe_def)
  ultimately show ?thesis using assms(2) by (simp add: big_sub_def)
qed

lemma normal_sub [simp]: "normal (big_sub l r)"
proof (cases "big_greater l r")
  case True
  then have "l \<noteq> []" by (auto simp: big_greater_def split: if_splits)
  then show ?thesis using True sub_loop_not_Nil [of l r 0 0] by (simp add: big_sub_def)
qed (simp add: big_sub_def)

lemma borrow_safe_no_ones: "0xffffffff \<notin> set r \<Longrightarrow> borrow_safe l r n i c"
  by (induction n arbitrary: i c) (auto simp: seg_at_def dest: nth_mem)

section \<open>Multiplication\<close>

lemma mul_row_val:
  assumes "index + length rs \<le> length res"
  shows "\<exists>res1 c1. mul_row a rs index res c = (res1, c1) \<and> length res1 = length res
    \<and> (\<forall>k \<ge> index + length rs. res1 ! k = res ! k)
    \<and> big_val res1 + unat c1 * Bs ^ (index + length rs)
        = big_val res + unat a * big_val rs * Bs ^ index + unat c * Bs ^ index"
  using assms
proof (induction rs arbitrary: index res c)
  case (Cons r rs)
  let ?s = "ucast (res ! index) + ucast a * ucast r + ucast c :: u64"
  let ?lo = "ucast ?s :: u32" and ?hi = "ucast (drop_bit 32 ?s) :: u32" and ?P = "Bs ^ index"
  have "unat a * unat r \<le> (Bs - 1) * (Bs - 1)"
    using unat_less_Bs [of a] unat_less_Bs [of r] by (intro mult_le_mono) linarith+
  then have ar: "unat a * unat r \<le> 0xffffffff * 0xffffffff" by (simp add: Bs_def)
  have prod: "unat (ucast a * ucast r :: u64) = unat a * unat r"
    using ar by (simp add: unat_word_ariths)
  have "unat ?s = unat (res ! index) + unat (ucast a * ucast r :: u64) + unat c"
    using ar prod unat_less_Bs [of "res ! index"] unat_less_Bs [of c]
    by (subst unat_add3) (simp_all add: Bs_def)
  then have s: "unat ?lo + Bs * unat ?hi = unat (res ! index) + unat a * unat r + unat c"
    using u64_split [of ?s] prod by simp
  then have "(unat ?lo + Bs * unat ?hi) * ?P = (unat (res ! index) + unat a * unat r + unat c) * ?P" by simp
  moreover have "big_val (res[index := ?lo]) + unat (res ! index) * ?P = big_val res + unat ?lo * ?P"
    using Cons.prems by (intro big_val_update) simp
  ultimately have step: "big_val (res[index := ?lo]) + unat ?hi * (Bs * ?P)
      = big_val res + unat a * unat r * ?P + unat c * ?P"
    by (simp add: algebra_simps)
  have "\<exists>res1 c1. mul_row a rs (Suc index) (res[index := ?lo]) ?hi = (res1, c1) \<and> length res1 = length (res[index := ?lo])
    \<and> (\<forall>k \<ge> Suc index + length rs. res1 ! k = res[index := ?lo] ! k)
    \<and> big_val res1 + unat c1 * Bs ^ (Suc index + length rs)
        = big_val (res[index := ?lo]) + unat a * big_val rs * Bs ^ Suc index + unat ?hi * Bs ^ Suc index"
    using Cons.prems by (intro Cons.IH) simp
  then obtain res1 c1 where
    row: "mul_row a rs (Suc index) (res[index := ?lo]) ?hi = (res1, c1)" "length res1 = length res"
      "\<forall>k \<ge> Suc index + length rs. res1 ! k = res[index := ?lo] ! k" and
    val: "big_val res1 + unat c1 * Bs ^ (Suc index + length rs)
        = big_val (res[index := ?lo]) + unat a * big_val rs * Bs ^ Suc index + unat ?hi * Bs ^ Suc index"
    by auto
  have "big_val res1 + unat c1 * Bs ^ (index + length (r # rs))
        = big_val res + unat a * big_val (r # rs) * ?P + unat c * ?P"
    using val step by (simp add: algebra_simps)
  then show ?case using row by (simp add: Let_def)
qed simp

lemma mul_loop_val:
  assumes "i + length ls + length right = length res" "\<forall>k. i + length right \<le> k \<and> k < length res \<longrightarrow> res ! k = 0"
  shows "\<exists>res1. mul_loop ls right i res 0 = (res1, 0) \<and> length res1 = length res
    \<and> big_val res1 = big_val res + big_val ls * big_val right * Bs ^ i"
  using assms
proof (induction ls arbitrary: i res)
  case (Cons l ls)
  let ?k = "i + length right"
  obtain res1 c1 where
    row: "mul_row l right i res 0 = (res1, c1)" "length res1 = length res"
      "\<forall>k \<ge> ?k. res1 ! k = res ! k" and
    val: "big_val res1 + unat c1 * Bs ^ ?k = big_val res + unat l * big_val right * Bs ^ i"
    using mul_row_val [of i right res l 0] Cons.prems(1) by auto
  have k: "?k < length res1" using Cons.prems(1) row(2) by simp
  then have zero: "res1 ! ?k = 0" using row Cons.prems(2) by simp
  define res2 where "res2 = (if c1 \<noteq> 0 then res1[?k := c1] else res1)"
  have c1: "unat (ucast (ucast c1 :: u64) :: u32) = unat c1"
    using unat_less_Bs [of c1] by (simp only: unat_low_half unat_ucast_u64 mod_less)
  have c2: "unat (ucast (drop_bit 32 (ucast c1 :: u64)) :: u32) = 0"
    using u64_split [of "ucast c1"] c1 by (simp only: unat_ucast_u64) simp
  note c = c1 [folded word_unat_eq_iff] c2 [unfolded unat_eq_0]
  have step: "mul_loop (l # ls) right i res 0 = mul_loop ls right (Suc i) res2 0"
    using row(1) zero c by (simp add: res2_def Let_def)
  have "big_val res2 = big_val res1 + unat c1 * Bs ^ ?k"
    using big_val_update [OF k, of c1] zero by (simp add: res2_def)
  then have v2: "big_val res2 = big_val res + unat l * big_val right * Bs ^ i" using val by simp
  have l2: "length res2 = length res" by (simp add: res2_def row(2))
  have "\<exists>res1. mul_loop ls right (Suc i) res2 0 = (res1, 0) \<and> length res1 = length res2
    \<and> big_val res1 = big_val res2 + big_val ls * big_val right * Bs ^ Suc i"
  proof (rule Cons.IH)
    show "Suc i + length ls + length right = length res2" using Cons.prems(1) l2 by simp
    show "\<forall>k. Suc i + length right \<le> k \<and> k < length res2 \<longrightarrow> res2 ! k = 0"
      using Cons.prems(2) row(3) l2 by (auto simp: res2_def)
  qed
  then show ?case using step v2 l2 by (auto simp: algebra_simps)
qed simp

lemma mul_loop_product:
  assumes "l \<noteq> []" "r \<noteq> []"
  shows "\<exists>res. mul_loop l r 0 (replicate (length l + length r) 0) 0 = (res, 0)
    \<and> length res = length l + length r \<and> big_val res = big_val l * big_val r"
  using mul_loop_val [of 0 l r "replicate (length l + length r) 0"] by auto

lemma big_val_mul [simp]: "l \<noteq> [] \<Longrightarrow> r \<noteq> [] \<Longrightarrow> big_val (big_mul l r) = big_val l * big_val r"
proof -
  assume ne: "l \<noteq> []" "r \<noteq> []"
  obtain res where res: "mul_loop l r 0 (replicate (length l + length r) 0) 0 = (res, 0)"
    "length res = length l + length r" "big_val res = big_val l * big_val r"
    using mul_loop_product [OF ne] by auto
  have "res \<noteq> []" using res(2) ne by auto
  then show ?thesis using res by (auto simp: big_mul_def length_Suc_conv)
qed

lemma normal_mul [simp]: "l \<noteq> [] \<Longrightarrow> r \<noteq> [] \<Longrightarrow> normal (big_mul l r)"
proof -
  assume ne: "l \<noteq> []" "r \<noteq> []"
  obtain res where res: "mul_loop l r 0 (replicate (length l + length r) 0) 0 = (res, 0)"
    "length res = length l + length r" using mul_loop_product [OF ne] by auto
  have "res \<noteq> []" using res(2) ne by auto
  then show ?thesis using res by (simp add: big_mul_def)
qed

lemma normal_not_Nil: "normal s \<Longrightarrow> s \<noteq> []"
  by (simp add: normal_def)

section \<open>Division\<close>

text \<open>
  The conditions under which one digit is found exactly: the first estimate is right, or the divisor
  has no segment of all ones (so that the corrections subtract exactly) and the comparisons see the
  order of the numbers; and the last subtraction loses no borrow.
\<close>

definition estimate :: "bigint \<Rightarrow> bigint \<Rightarrow> nat" where
  "estimate right remainder =
     (unat (remainder ! length right) * Bs + unat (remainder ! (length right - 1))) div unat (last right)"

definition digit_of :: "bigint \<Rightarrow> bigint \<Rightarrow> nat" where
  "digit_of right remainder = big_val remainder div big_val right"

definition digit_product :: "bigint \<Rightarrow> bigint \<Rightarrow> bigint" where
  "digit_product right remainder = big_mul (big_u64 (of_nat (digit_of right remainder))) right"

definition digit_safe :: "bigint \<Rightarrow> bigint \<Rightarrow> bool" where
  "digit_safe right remainder \<longleftrightarrow>
     (estimate right remainder = digit_of right remainder
      \<or> (0xffffffff \<notin> set right
         \<and> (last remainder \<noteq> 0 \<or> Bs ^ length right \<le> (digit_of right remainder + 1) * big_val right)))
     \<and> sub_safe remainder (digit_product right remainder)"

definition divisor :: "bigint \<Rightarrow> bool" where
  "divisor r \<longleftrightarrow> r \<noteq> [] \<and> last r \<noteq> 0"

lemma divisor_normal: "divisor r \<Longrightarrow> normal r"
  by (simp add: divisor_def normal_def)

lemma divisor_ge: "divisor r \<Longrightarrow> unat (last r) * Bs ^ (length r - 1) \<le> big_val r"
proof -
  assume "divisor r"
  then have "r = butlast r @ [last r]" by (simp add: divisor_def)
  then have "big_val r = big_val (butlast r) + Bs ^ (length r - 1) * unat (last r)"
    using big_val_append [of "butlast r" "[last r]"] by simp
  then show ?thesis by simp
qed

lemma divisor_pos: "divisor r \<Longrightarrow> 0 < big_val r"
proof -
  assume r: "divisor r"
  then have "0 < unat (last r) * Bs ^ (length r - 1)" by (simp add: divisor_def unat_gt_0)
  then show ?thesis using divisor_ge [OF r] by linarith
qed

lemma big_val_u64 [simp]: "big_val (big_u64 x) = unat x"
proof -
  have "(ucast (drop_bit 32 x AND 0xffffffff) :: u32) = ucast (drop_bit 32 x)" by (rule ucast_and_mask32)
  then show ?thesis using u64_split [of x] by (simp add: big_u64_def)
qed

lemma big_u64_not_Nil [simp]: "big_u64 x \<noteq> []"
  by (simp add: big_u64_def)

lemma normal_inj: "normal l \<Longrightarrow> normal r \<Longrightarrow> big_val l = big_val r \<Longrightarrow> l = r"
  using normal_length_mono [of l r] normal_length_mono [of r l] big_val_inj [of l r]
  by (cases "length l" "length r" rule: linorder_cases) auto

lemma normal_short: "normal s \<Longrightarrow> big_val s < Bs ^ n \<Longrightarrow> 0 < n \<Longrightarrow> length s \<le> n"
proof (rule ccontr)
  assume *: "normal s" "big_val s < Bs ^ n" "0 < n" "\<not> length s \<le> n"
  then have "Bs ^ n \<le> Bs ^ (length s - 1)" using Bs_gt_1 by (intro power_increasing) auto
  also have "\<dots> \<le> big_val s" using * by (intro normal_ge) auto
  finally show False using * by simp
qed

lemma normal_long: "Bs ^ n \<le> big_val s \<Longrightarrow> n < length s"
proof (rule ccontr)
  assume *: "Bs ^ n \<le> big_val s" "\<not> n < length s"
  then have "Bs ^ length s \<le> Bs ^ n" using Bs_gt_1 by (intro power_increasing) auto
  then show False using * big_val_less [of s] by simp
qed

lemma last_zero_less: "rem \<noteq> [] \<Longrightarrow> last rem = 0 \<Longrightarrow> big_val rem < Bs ^ (length rem - 1)"
proof -
  assume *: "rem \<noteq> []" "last rem = 0"
  then have "rem = butlast rem @ [0]" by (metis append_butlast_last_id)
  then have "big_val rem = big_val (butlast rem)" using big_val_append [of "butlast rem" "[0]"] by simp
  then show ?thesis using big_val_less [of "butlast rem"] by simp
qed

text \<open>A product that does not exceed the remainder is seen as smaller or equal.\<close>

lemma less_remainder:
  assumes "normal p" "length remainder = n + 1" "0 < n" "big_val p \<le> big_val remainder" "p \<noteq> remainder"
  shows "big_less p remainder"
proof (cases "last remainder = 0")
  case True
  have "remainder \<noteq> []" using assms(2) by auto
  then have "big_val remainder < Bs ^ n" using last_zero_less [OF _ True] assms(2) by simp
  then have "length p \<le> n" using assms by (intro normal_short) auto
  then show ?thesis using assms(2) by (simp add: big_less_def)
next
  case False
  then have "normal remainder" using assms(2) by (auto simp: normal_def)
  moreover from this have "big_val p \<noteq> big_val remainder" using assms normal_inj [of p remainder] by auto
  ultimately show ?thesis using assms(1,4) by (simp add: big_less_normal)
qed

lemma remainder_sub:
  assumes "normal p" "length remainder = n + 1" "0 < n" "big_val p \<le> big_val remainder" "sub_safe remainder p"
  shows "big_val (big_sub remainder p) = big_val remainder - big_val p"
proof (cases "p = remainder")
  case True
  then show ?thesis by (simp add: big_sub_def big_greater_less big_less_same_length)
next
  case False
  then have g: "big_greater remainder p" using less_remainder assms by (simp add: big_greater_less)
  then have "length p \<le> length remainder" by (auto simp: big_greater_def split: if_splits)
  then show ?thesis using g assms by (intro big_val_sub) auto
qed

lemma adjust_exact:
  assumes "divisor right" "length remainder = length right + 1" "normal p" "big_val p = unat qest * big_val right"
    "digit_of right remainder \<le> unat qest"
    "unat qest = digit_of right remainder \<or> (0xffffffff \<notin> set right
       \<and> (last remainder \<noteq> 0 \<or> Bs ^ length right \<le> (digit_of right remainder + 1) * big_val right))"
    "\<And>p. normal p \<Longrightarrow> big_val p = digit_of right remainder * big_val right \<Longrightarrow> sub_safe remainder p"
  shows "\<exists>qest1 p1. adjust right remainder qest p = Some (qest1, p1) \<and> unat qest1 = digit_of right remainder
    \<and> normal p1 \<and> big_val p1 = digit_of right remainder * big_val right"
  using assms
proof (induction "unat qest - digit_of right remainder" arbitrary: qest p)
  let ?q = "digit_of right remainder" and ?R = "big_val right" and ?V = "big_val remainder"
  note div = divisor_pos [OF assms(1)]
  have n: "0 < length right" using assms(1) by (simp add: divisor_def)
  {
    case 0
    then have q: "unat qest = ?q" by simp
    then have le: "big_val p \<le> ?V" using 0 by (simp add: digit_of_def)
    show ?case
    proof (cases "p = remainder")
      case True
      then show ?thesis using 0 q by (subst adjust.simps) simp
    next
      case False
      then have lt: "big_less p remainder" using 0 n le by (intro less_remainder) auto
      have "big_val (big_sub remainder p) = ?V - big_val p"
        using 0 n le q by (intro remainder_sub [of p remainder "length right"]) auto
      also have "\<dots> = ?V mod ?R" using 0 q by (simp add: digit_of_def minus_div_mult_eq_mod)
      finally have "\<not> big_greater (big_sub remainder p) right"
        using div 0 by (simp add: big_greater_less big_less_normal divisor_normal not_less less_imp_le)
      then show ?thesis using False lt 0 q by (subst adjust.simps) simp
    qed
  next
    case (Suc m)
    then have gt: "?q < unat qest" by simp
    then have cond: "0xffffffff \<notin> set right" "last remainder \<noteq> 0 \<or> Bs ^ length right \<le> (?q + 1) * ?R"
      using Suc.prems(6) by auto
    have ge: "(?q + 1) * ?R \<le> big_val p" using gt Suc.prems(4) by (simp only: mult_le_mono1 Suc_eq_plus1 [symmetric] Suc_le_eq)
    have "?V < (?q + 1) * ?R" using div by (simp add: digit_of_def dividend_less_div_times)
    then have big: "?V < big_val p" using ge by linarith
    have "\<not> big_less p remainder"
    proof (cases "last remainder = 0")
      case True
      then have "length right < length p" using cond(2) ge by (intro normal_long) auto
      then have "\<not> length p < length remainder" using Suc.prems(2) by simp
      then show ?thesis using big big_less_same_length [of p remainder] by (auto simp: big_less_def split: if_splits)
    next
      case False
      then have "normal remainder" using Suc.prems(2) by (auto simp: normal_def)
      then show ?thesis using Suc.prems(3) big by (simp add: big_less_normal)
    qed
    moreover have "p \<noteq> remainder" using big by auto
    ultimately have step: "adjust right remainder qest p = adjust right remainder (qest - 1) (big_sub p right)"
      by (subst adjust.simps) simp
    have "qest \<noteq> 0" using gt by auto
    then have q1: "unat (qest - 1) = unat qest - 1" by (simp add: unat_minus_one)
    have p1: "big_val (big_sub p right) = unat (qest - 1) * ?R"
    proof (cases "big_greater p right")
      case True
      then have "length right \<le> length p" by (auto simp: big_greater_def split: if_splits)
      moreover have "?R \<le> big_val p" using Suc.prems(4) gt by (cases "unat qest") simp_all
      ultimately have "big_val (big_sub p right) = big_val p - ?R"
        using True cond(1) by (intro big_val_sub) (simp_all add: sub_safe_def borrow_safe_no_ones)
      then show ?thesis using Suc.prems(4) q1 by (simp add: diff_mult_distrib)
    next
      case False
      then have "big_val p \<le> ?R" using Suc.prems(1,3) by (simp add: big_greater_less big_less_normal divisor_normal)
      then have "unat qest \<le> 1" using Suc.prems(4) div by (cases "unat qest") simp_all
      then show ?thesis using False q1 by (simp add: big_sub_def)
    qed
    have "\<exists>qest1 p1. adjust right remainder (qest - 1) (big_sub p right) = Some (qest1, p1) \<and> unat qest1 = ?q
      \<and> normal p1 \<and> big_val p1 = ?q * ?R"
      using Suc.hyps(2) Suc.prems q1 p1 gt by (intro Suc.hyps(1)) auto
    then show ?case using step by simp
  }
qed

lemma remainder_top:
  assumes "length remainder = n + 1" "0 < n"
  shows "big_val remainder div Bs ^ (n - 1) = unat (remainder ! n) * Bs + unat (remainder ! (n - 1))"
proof -
  have "remainder = take (n - 1) remainder @ [remainder ! (n - 1), remainder ! n]"
  proof -
    have "drop (n - 1) remainder = remainder ! (n - 1) # drop (Suc (n - 1)) remainder"
      using assms by (intro Cons_nth_drop_Suc [symmetric]) simp
    also have "Suc (n - 1) = n" using assms(2) by simp
    also have "drop n remainder = [remainder ! n]"
      using assms(1) by (simp add: Cons_nth_drop_Suc [symmetric])
    finally show ?thesis by (metis append_take_drop_id)
  qed
  then have "big_val remainder = big_val (take (n - 1) remainder)
      + Bs ^ (n - 1) * (unat (remainder ! (n - 1)) + Bs * unat (remainder ! n))"
    using big_val_append [of "take (n - 1) remainder" "[remainder ! (n - 1), remainder ! n]"] assms by simp
  moreover have "big_val (take (n - 1) remainder) < Bs ^ (n - 1)"
    using big_val_less [of "take (n - 1) remainder"] assms by simp
  ultimately show ?thesis by simp
qed

lemma estimate_ge:
  assumes "divisor right" "length remainder = length right + 1"
  shows "digit_of right remainder \<le> estimate right remainder"
proof -
  let ?n = "length right" and ?d = "unat (last right)"
  have n: "0 < ?n" using assms(1) by (simp add: divisor_def)
  have "0 < ?d * Bs ^ (?n - 1)" using assms(1) by (simp add: divisor_def unat_gt_0)
  then have "digit_of right remainder \<le> big_val remainder div (?d * Bs ^ (?n - 1))"
    unfolding digit_of_def using divisor_ge [OF assms(1)] by (intro div_le_mono2) auto
  also have "\<dots> = big_val remainder div Bs ^ (?n - 1) div ?d" by (simp only: mult.commute [of ?d] div_mult2_eq)
  also have "\<dots> = estimate right remainder"
    unfolding estimate_def by (simp only: remainder_top [OF assms(2) n])
  finally show ?thesis .
qed

lemma div_digit_exact:
  assumes "divisor right" "length remainder = length right + 1" "digit_safe right remainder"
    "big_val remainder < Bs * big_val right"
  shows "\<exists>qest p. div_digit right remainder = Some (qest, p) \<and> unat qest = digit_of right remainder
    \<and> big_val (big_sub remainder p) = big_val remainder mod big_val right"
proof -
  let ?n = "length right" and ?q = "digit_of right remainder"
  let ?nn = "push_bit 32 (ucast (remainder ! ?n)) + ucast (remainder ! (?n - 1)) :: u64"
  have n: "0 < ?n" and ne: "right \<noteq> []" using assms(1) by (auto simp: divisor_def)
  have d: "right ! (?n - 1) = last right" using ne by (simp add: last_conv_nth)
  have lt: "unat (remainder ! ?n) * Bs + unat (remainder ! (?n - 1)) < 2 ^ 64"
    using unat_less_Bs [of "remainder ! ?n"] unat_less_Bs [of "remainder ! (?n - 1)"] by (simp add: Bs_def)
  have "unat (push_bit 32 (ucast (remainder ! ?n)) :: u64) = unat (remainder ! ?n) * Bs"
    using lt by (simp add: push_bit_eq_mult unat_word_ariths Bs_def)
  then have nn: "unat ?nn = unat (remainder ! ?n) * Bs + unat (remainder ! (?n - 1))"
    using lt by (simp add: unat_word_ariths)
  have dn: "(ucast (last right) :: u64) \<noteq> 0"
    using assms(1) unat_ucast_u64 [of "last right"] by (auto simp: divisor_def unat_eq_0 simp del: unat_ucast_u64)
  let ?e = "?nn div ucast (last right)"
  have e: "unat ?e = estimate right remainder" by (simp only: unat_div nn unat_ucast_u64 estimate_def)
  let ?p = "big_mul (big_u64 ?e) right"
  have p: "normal ?p" "big_val ?p = unat ?e * big_val right" using ne by simp_all
  have qlt: "?q < Bs" unfolding digit_of_def using assms(4) by (simp add: less_mult_imp_div_less)
  then have uq: "unat (of_nat ?q :: u64) = ?q" by (simp add: unat_of_nat Bs_def take_bit_nat_eq_self)
  have prod: "normal (digit_product right remainder)" "big_val (digit_product right remainder) = ?q * big_val right"
    using ne by (simp_all add: digit_product_def uq)
  have safe: "sub_safe remainder p1" if "normal p1" "big_val p1 = ?q * big_val right" for p1
    using normal_inj [of p1 "digit_product right remainder"] that prod assms(3) by (simp add: digit_safe_def)
  obtain qest p1 where adj: "adjust right remainder ?e ?p = Some (qest, p1)" "unat qest = ?q" "normal p1"
      "big_val p1 = ?q * big_val right"
    using adjust_exact [of right remainder ?p ?e] assms(1-3) p e estimate_ge [OF assms(1,2)] safe
    unfolding digit_safe_def by auto
  have "big_val p1 \<le> big_val remainder" using adj(4) by (simp add: digit_of_def)
  then have "big_val (big_sub remainder p1) = big_val remainder - big_val p1"
    using adj assms(2) n safe by (intro remainder_sub) auto
  also have "\<dots> = big_val remainder mod big_val right" using adj(4) by (simp add: digit_of_def minus_div_mult_eq_mod)
  finally show ?thesis
    using adj assms(2) n d dn by (auto simp: div_digit_def Let_def)
qed

text \<open>The conditions of a whole division: every digit is safe and no partial remainder is too short.\<close>

fun mod_safe :: "bigint \<Rightarrow> bigint \<Rightarrow> nat \<Rightarrow> bigint \<Rightarrow> bool" where
  "mod_safe self right 0 remainder \<longleftrightarrow> length remainder = length right + 1 \<and> digit_safe right remainder"
| "mod_safe self right (Suc k) remainder \<longleftrightarrow> length remainder = length right + 1 \<and> digit_safe right remainder
     \<and> mod_safe self right k (self ! k # big_sub remainder (digit_product right remainder))"

lemma step_value:
  fixes V R B s P t :: nat
  shows "(V * (B * P) + s * P + t) mod R = (((V mod R) * B + s) * P + t) mod R"
    "(V * (B * P) + s * P + t) div R = (V div R) * (B * P) + ((((V mod R) * B + s) * P + t) div R)"
proof -
  have "V * (B * P) + s * P + t = (R * (V div R) + V mod R) * (B * P) + s * P + t" by simp
  also have "\<dots> = (((V mod R) * B + s) * P + t) + R * ((V div R) * (B * P))" by (simp only: algebra_simps)
  finally have eq: "V * (B * P) + s * P + t = (((V mod R) * B + s) * P + t) + R * ((V div R) * (B * P))" .
  show "(V * (B * P) + s * P + t) mod R = (((V mod R) * B + s) * P + t) mod R" by (simp only: eq mod_mult_self2)
  show "(V * (B * P) + s * P + t) div R = (V div R) * (B * P) + ((((V mod R) * B + s) * P + t) div R)"
    by (cases "R = 0") (simp_all only: eq div_mult_self2 div_by_0 mod_0 mod_by_0, simp)
qed

lemma big_val_take_Suc: "k < length s \<Longrightarrow> big_val (take (Suc k) s) = big_val (take k s) + Bs ^ k * unat (s ! k)"
  by (simp add: take_Suc_conv_app_nth big_val_append)

lemma next_remainder_eq: "next_remainder self remainder k = Some (self ! k # remainder)"
  by (simp add: next_remainder_def big_shift_def)

lemma digit_step:
  assumes "divisor right" "length remainder = length right + 1" "digit_safe right remainder"
    "big_val remainder < Bs * big_val right"
  shows "\<exists>qest p. div_digit right remainder = Some (qest, p) \<and> unat (ucast qest :: u32) = digit_of right remainder
    \<and> big_sub remainder p = big_sub remainder (digit_product right remainder)
    \<and> big_val (big_sub remainder p) = big_val remainder mod big_val right"
proof -
  obtain qest p where d: "div_digit right remainder = Some (qest, p)" "unat qest = digit_of right remainder"
    "big_val (big_sub remainder p) = big_val remainder mod big_val right"
    using div_digit_exact [OF assms] by auto
  have ne: "right \<noteq> []" using assms(1) by (simp add: divisor_def)
  have qlt: "digit_of right remainder < Bs" unfolding digit_of_def using assms(4) by (simp add: less_mult_imp_div_less)
  then have uq: "unat (of_nat (digit_of right remainder) :: u64) = digit_of right remainder"
    by (simp add: unat_of_nat Bs_def take_bit_nat_eq_self)
  have prod: "normal (digit_product right remainder)"
    "big_val (digit_product right remainder) = digit_of right remainder * big_val right"
    using ne by (simp_all add: digit_product_def uq)
  have "big_val (big_sub remainder (digit_product right remainder)) = big_val remainder mod big_val right"
    using prod assms by (subst remainder_sub [of _ remainder "length right"])
      (auto simp: digit_safe_def divisor_def digit_of_def minus_div_mult_eq_mod)
  then have "big_sub remainder p = big_sub remainder (digit_product right remainder)"
    using d(3) by (intro normal_inj) simp_all
  moreover have "unat (ucast qest :: u32) = digit_of right remainder"
    using d(2) qlt by (simp only: unat_low_half mod_less)
  ultimately show ?thesis using d by auto
qed

lemma mod_loop_exact:
  assumes "divisor right" "mod_safe self right k remainder" "big_val remainder < Bs * big_val right" "k \<le> length self"
  shows "\<exists>r. mod_loop self right k remainder = Some r \<and> normal r
    \<and> big_val r = (big_val remainder * Bs ^ k + big_val (take k self)) mod big_val right"
  using assms
proof (induction k arbitrary: remainder)
  case 0
  then show ?case using digit_step [of right remainder] by auto
next
  case (Suc k)
  obtain qest p where d: "div_digit right remainder = Some (qest, p)"
    "big_sub remainder p = big_sub remainder (digit_product right remainder)"
    "big_val (big_sub remainder p) = big_val remainder mod big_val right"
    using digit_step [of right remainder] Suc.prems by auto
  let ?r = "self ! k # big_sub remainder p"
  have v: "big_val ?r = (big_val remainder mod big_val right) * Bs + unat (self ! k)" by (simp add: d(3))
  have "big_val remainder mod big_val right + 1 \<le> big_val right"
    using divisor_pos [OF Suc.prems(1)] by (simp add: Suc_leI)
  then have "(big_val remainder mod big_val right + 1) * Bs \<le> big_val right * Bs" by (rule mult_le_mono1)
  then have "big_val ?r < Bs * big_val right" using v unat_less_Bs [of "self ! k"] by (simp only: mult.commute algebra_simps)
  then have "\<exists>r. mod_loop self right k ?r = Some r \<and> normal r
    \<and> big_val r = (big_val ?r * Bs ^ k + big_val (take k self)) mod big_val right"
    using Suc.prems d(2) by (intro Suc.IH) auto
  moreover have "(big_val remainder * Bs ^ Suc k + big_val (take (Suc k) self)) mod big_val right
      = (big_val ?r * Bs ^ k + big_val (take k self)) mod big_val right"
    using step_value(1) [of "big_val remainder" Bs "Bs ^ k" "unat (self ! k)" "big_val (take k self)" "big_val right"]
      Suc.prems(4) v by (simp add: big_val_take_Suc algebra_simps)
  ultimately show ?case using d(1) by (auto simp: next_remainder_eq)
qed

lemma div_loop_exact:
  assumes "divisor right" "mod_safe self right k remainder" "big_val remainder < Bs * big_val right" "k \<le> length self"
    "k < length quot" "\<forall>j\<le>k. quot ! j = 0"
  shows "\<exists>q. div_loop self right k remainder quot = Some q \<and> length q = length quot
    \<and> big_val q = big_val quot + (big_val remainder * Bs ^ k + big_val (take k self)) div big_val right"
  using assms
proof (induction k arbitrary: remainder quot)
  case 0
  obtain qest p where d: "div_digit right remainder = Some (qest, p)" "unat (ucast qest :: u32) = digit_of right remainder"
    using digit_step [of right remainder] 0 by auto
  have "big_val (quot[0 := ucast qest]) + unat (quot ! 0) * Bs ^ 0 = big_val quot + unat (ucast qest :: u32) * Bs ^ 0"
    using 0 by (intro big_val_update) simp
  then show ?case using d 0 by (simp add: digit_of_def)
next
  case (Suc k)
  obtain qest p where d: "div_digit right remainder = Some (qest, p)" "unat (ucast qest :: u32) = digit_of right remainder"
    "big_sub remainder p = big_sub remainder (digit_product right remainder)"
    "big_val (big_sub remainder p) = big_val remainder mod big_val right"
    using digit_step [of right remainder] Suc.prems by auto
  let ?r = "self ! k # big_sub remainder p" and ?q = "quot[Suc k := ucast qest]"
  have v: "big_val ?r = (big_val remainder mod big_val right) * Bs + unat (self ! k)" by (simp add: d(4))
  have "big_val remainder mod big_val right + 1 \<le> big_val right"
    using divisor_pos [OF Suc.prems(1)] by (simp add: Suc_leI)
  then have "(big_val remainder mod big_val right + 1) * Bs \<le> big_val right * Bs" by (rule mult_le_mono1)
  then have "big_val ?r < Bs * big_val right" using v unat_less_Bs [of "self ! k"] by (simp only: mult.commute algebra_simps)
  then have ih: "\<exists>q. div_loop self right k ?r ?q = Some q \<and> length q = length ?q
    \<and> big_val q = big_val ?q + (big_val ?r * Bs ^ k + big_val (take k self)) div big_val right"
    using Suc.prems d(3) by (intro Suc.IH) auto
  have "big_val ?q + unat (quot ! Suc k) * Bs ^ Suc k = big_val quot + unat (ucast qest :: u32) * Bs ^ Suc k"
    using Suc.prems by (intro big_val_update) simp
  then have q: "big_val ?q = big_val quot + (big_val remainder div big_val right) * Bs ^ Suc k"
    using Suc.prems(6) d(2) by (simp add: digit_of_def)
  have "(big_val remainder * Bs ^ Suc k + big_val (take (Suc k) self)) div big_val right
      = (big_val remainder div big_val right) * Bs ^ Suc k
        + (big_val ?r * Bs ^ k + big_val (take k self)) div big_val right"
    using step_value(2) [of "big_val remainder" Bs "Bs ^ k" "unat (self ! k)" "big_val (take k self)" "big_val right"]
      Suc.prems(4) v by (simp add: big_val_take_Suc algebra_simps)
  then show ?case using ih q d(1) by (auto simp: next_remainder_eq)
qed

text \<open>A division \<open>l / r\<close> or \<open>l % r\<close> is safe when it is decided by size, or digit by digit.\<close>

definition division_safe :: "bigint \<Rightarrow> bigint \<Rightarrow> bool" where
  "division_safe l r \<longleftrightarrow> big_less l r
     \<or> mod_safe l r (length l - length r) (drop (length l - length r) l @ [0])"

lemma big_less_divisor: "divisor r \<Longrightarrow> big_less l r \<Longrightarrow> big_val l < big_val r"
proof -
  assume r: "divisor r" and less: "big_less l r"
  consider "length l < length r" | "length l = length r"
    using less by (auto simp: big_less_def split: if_splits)
  then show ?thesis
  proof cases
    case 1
    then have "Bs ^ length l \<le> Bs ^ (length r - 1)" using Bs_gt_1 by (intro power_increasing) auto
    also have "\<dots> \<le> unat (last r) * Bs ^ (length r - 1)" using r by (simp add: divisor_def Suc_le_eq unat_gt_0)
    finally show ?thesis using big_val_less [of l] divisor_ge [OF r] by linarith
  next
    case 2
    then show ?thesis using less by (simp add: big_less_same_length)
  qed
qed

lemma first_remainder:
  assumes "divisor r" "\<not> big_less l r"
  shows "length r \<le> length l" "big_val (drop (length l - length r) l @ [0]) < Bs * big_val r"
    "big_val (drop (length l - length r) l @ [0]) * Bs ^ (length l - length r) + big_val (take (length l - length r) l) = big_val l"
proof -
  let ?k = "length l - length r"
  show le: "length r \<le> length l" using assms(2) by (auto simp: big_less_def split: if_splits)
  have v: "big_val (drop ?k l @ [0]) = big_val (drop ?k l)" by (simp add: big_val_append)
  have "big_val (drop ?k l) < Bs ^ length r" using big_val_less [of "drop ?k l"] le by simp
  also have "Bs ^ length r = Bs * Bs ^ (length r - 1)" using assms(1) by (cases r) (simp_all add: divisor_def)
  also have "\<dots> \<le> Bs * big_val r"
    using divisor_ge [OF assms(1)] assms(1)
    by (intro mult_le_mono2) (auto simp: divisor_def Suc_le_eq unat_gt_0 intro: order_trans [rotated])
  finally show "big_val (drop ?k l @ [0]) < Bs * big_val r" using v by simp
  show "big_val (drop ?k l @ [0]) * Bs ^ ?k + big_val (take ?k l) = big_val l"
    using big_val_append [of "take ?k l" "drop ?k l"] v by (simp add: mult.commute)
qed

lemma big_mod_exact:
  assumes "divisor r" "division_safe l r"
  shows "\<exists>m. big_mod l r = Some m \<and> big_val m = big_val l mod big_val r \<and> (normal l \<longrightarrow> normal m)"
proof (cases "big_less l r")
  case True
  then show ?thesis using big_less_divisor [OF assms(1) True] by (simp add: big_mod_def)
next
  case False
  then show ?thesis
    using mod_loop_exact [of r l "length l - length r" "drop (length l - length r) l @ [0]"]
      first_remainder [OF assms(1) False] assms by (auto simp: big_mod_def division_safe_def Let_def)
qed

lemma big_div_exact:
  assumes "divisor r" "division_safe l r"
  shows "\<exists>q. big_div l r = Some q \<and> big_val q = big_val l div big_val r \<and> normal q"
proof (cases "big_less l r")
  case True
  then show ?thesis using big_less_divisor [OF assms(1) True] by (simp add: big_div_def)
next
  case False
  let ?k = "length l - length r"
  have "\<exists>q. div_loop l r ?k (drop ?k l @ [0]) (replicate (?k + 1) 0) = Some q \<and> length q = length (replicate (?k + 1) (0 :: u32))
    \<and> big_val q = big_val (replicate (?k + 1) 0)
        + (big_val (drop ?k l @ [0]) * Bs ^ ?k + big_val (take ?k l)) div big_val r"
    using first_remainder [OF assms(1) False] assms False
    by (intro div_loop_exact) (auto simp: division_safe_def less_Suc_eq_le simp del: replicate_Suc)
  then obtain q where q: "div_loop l r ?k (drop ?k l @ [0]) (replicate (?k + 1) 0) = Some q" "length q = ?k + 1"
    "big_val q = big_val l div big_val r"
    using first_remainder(3) [OF assms(1) False] by auto
  have "q \<noteq> []" using q(2) by auto
  then show ?thesis using q False by (simp add: big_div_def Let_def)
qed

section \<open>Division by one segment\<close>

lemma digit_product_props:
  assumes "divisor right" "big_val remainder < Bs * big_val right"
  shows "normal (digit_product right remainder)"
    "big_val (digit_product right remainder) = digit_of right remainder * big_val right"
proof -
  have "digit_of right remainder < Bs" unfolding digit_of_def using assms(2) by (simp add: less_mult_imp_div_less)
  then have "unat (of_nat (digit_of right remainder) :: u64) = digit_of right remainder"
    by (simp add: unat_of_nat Bs_def take_bit_nat_eq_self)
  then show "normal (digit_product right remainder)"
    "big_val (digit_product right remainder) = digit_of right remainder * big_val right"
    using assms(1) by (simp_all add: digit_product_def divisor_def)
qed

lemma pair_less: "unat r1 < unat d \<Longrightarrow> big_val [r0, r1] < Bs * big_val [d]"
proof -
  assume "unat r1 < unat d"
  then have "Bs * (unat r1 + 1) \<le> Bs * unat d" by (intro mult_le_mono2) simp
  moreover have "unat r0 < Bs" by simp
  ultimately show ?thesis by (simp only: big_val.simps mult_0_right add_0_right distrib_left mult_1_right)
qed

lemma single_digit_safe:
  assumes "r1 < d"
  shows "digit_safe [d] [r0, r1]"
proof -
  let ?V = "[r0, r1]" and ?P = "digit_product [d] [r0, r1]"
  have lt: "unat r1 < unat d" using assms by (simp add: word_less_nat_alt)
  then have div: "divisor [d]" by (auto simp: divisor_def)
  have v: "big_val ?V < Bs * big_val [d]" using lt by (rule pair_less)
  note prod = digit_product_props [OF div v]
  have "big_val ?P = unat (seg_at ?P 0) + Bs * (unat (seg_at ?P 1) + Bs * big_val (drop 2 ?P))"
    using big_val_drop_seg [of 0 ?P] big_val_drop_seg [of 1 ?P] by (simp add: numeral_2_eq_2)
  moreover have "big_val ?P \<le> big_val ?V" unfolding prod(2) digit_of_def by simp
  ultimately have "Bs * unat (seg_at ?P 1) < Bs * big_val [d]"
    using v by (simp only: distrib_left)
  then have "unat (seg_at ?P 1) < unat d" by (simp only: mult_less_cancel1) simp
  moreover have "unat d < 4294967296" using unat_less_Bs [of d] by (simp only: Bs_def) simp
  ultimately have "unat (seg_at ?P 1) \<noteq> 4294967295" by linarith
  then have "seg_at ?P 1 \<noteq> 0xffffffff" by auto
  then have "sub_safe ?V ?P" by (simp add: sub_safe_def)
  moreover have "estimate [d] ?V = digit_of [d] ?V" by (simp add: estimate_def digit_of_def algebra_simps)
  ultimately show ?thesis by (simp add: digit_safe_def)
qed

lemma single_mod_safe: "r1 < d \<Longrightarrow> mod_safe l [d] k [r0, r1]"
proof (induction k arbitrary: r0 r1)
  case 0
  then show ?case by (simp add: single_digit_safe)
next
  case (Suc k)
  let ?s = "big_sub [r0, r1] (digit_product [d] [r0, r1])"
  have lt: "unat r1 < unat d" using Suc.prems by (simp add: word_less_nat_alt)
  have v: "big_val [r0, r1] < Bs * big_val [d]" using lt by (rule pair_less)
  have div: "divisor [d]" using lt by (auto simp: divisor_def)
  have val: "big_val ?s = big_val [r0, r1] mod big_val [d]"
    using digit_step [OF div _ single_digit_safe [OF Suc.prems] v] by auto
  then have vd: "big_val ?s < unat d" using lt by simp
  then have "big_val ?s < Bs ^ 1" unfolding power_one_right using unat_less_Bs [of d] by (rule less_trans)
  then have "length ?s \<le> 1" by (intro normal_short) simp_all
  then obtain w where w: "?s = [w]" using normal_not_Nil [OF normal_sub] by (cases ?s) auto
  then have "w < d" using vd by (simp add: word_less_nat_alt)
  then show ?case using Suc.IH [of w "l ! k"] Suc.prems w by (simp add: single_digit_safe)
qed

lemma single_division_safe:
  assumes "d \<noteq> 0" "l \<noteq> []"
  shows "division_safe l [d]"
proof -
  have "drop (length l - 1) l = [last l]" using assms(2) by (cases l rule: rev_cases) simp_all
  then show ?thesis using assms single_mod_safe [of 0 d l "length l - 1" "last l"]
    by (simp add: division_safe_def word_gt_0)
qed

section \<open>Modular powers\<close>

text \<open>The powers with every reduction checked to be a safe division.\<close>

definition mod_checked :: "bigint \<Rightarrow> bigint \<Rightarrow> bigint option" where
  "mod_checked l r = (if divisor r \<and> division_safe l r then big_mod l r else None)"

partial_function (option) powm_checked :: "bigint \<Rightarrow> bigint \<Rightarrow> bigint \<Rightarrow> bigint option" where
  "powm_checked self exp m =
     (if length exp = 1 \<and> exp ! 0 = 2 then mod_checked (big_mul self self) m
      else if length exp = 1 \<and> exp ! 0 = 1 then Some self
      else if length exp = 1 \<and> exp ! 0 = 0 then Some (big_u8 1)
      else do {
        half \<leftarrow> big_div exp (big_u8 2);
        halfpow \<leftarrow> powm_checked self half m;
        sq \<leftarrow> mod_checked (big_mul halfpow halfpow) m;
        (if exp ! 0 mod 2 = 0 then Some sq else mod_checked (big_mul sq self) m) })"

lemma half_exact:
  assumes "exp \<noteq> []"
  obtains half where "big_div exp (big_u8 2) = Some half" "big_val half = big_val exp div 2" "normal half"
proof -
  have "divisor [2]" by (simp add: divisor_def)
  then show thesis
    using big_div_exact [of "[2]" exp] single_division_safe [of 2 exp] assms that by (auto simp: big_u8_def)
qed

lemma mod_checked_exact:
  assumes "mod_checked l r = Some m"
  shows "big_mod l r = Some m" "big_val m = big_val l mod big_val r" "normal l \<Longrightarrow> normal m"
  using assms big_mod_exact [of r l] by (auto simp: mod_checked_def split: if_splits)

lemma exp_parity: "exp \<noteq> [] \<Longrightarrow> exp ! 0 mod 2 = 0 \<longleftrightarrow> even (big_val exp)"
proof -
  assume "exp \<noteq> []"
  then obtain w ws where e: "exp = w # ws" by (cases exp) auto
  have "(w mod 2 = 0) = (unat (w mod 2) = 0)" by (simp add: unat_eq_0)
  also have "\<dots> = even (unat w)" by (simp add: unat_mod even_iff_mod_2_eq_zero)
  also have "\<dots> = even (big_val exp)" by (simp add: e Bs_def)
  finally show ?thesis by (simp add: e)
qed

lemma exp_single: "length exp = 1 \<and> exp ! 0 = w \<longleftrightarrow> exp = [w]"
  by (auto simp: length_Suc_conv)

lemma powm_of_half:
  assumes "exp \<noteq> []" "exp \<notin> {[0], [1], [2]}" "big_div exp (big_u8 2) = Some half" "powm self half m = Some h"
    "mod_checked (big_mul h h) m = Some sq"
  shows "powm self exp m = (if even (big_val exp) then Some sq else big_mod (big_mul sq self) m)"
  using assms mod_checked_exact(1) [OF assms(5)] exp_parity [OF assms(1)]
  by (subst powm.simps) (simp add: exp_single del: One_nat_def)

lemma power_halves: "(b :: nat) ^ n = (b ^ (n div 2)) * (b ^ (n div 2)) * (if even n then 1 else b)"
proof -
  have "b ^ n = b ^ (2 * (n div 2) + n mod 2)" by simp
  also have "\<dots> = (b ^ (n div 2)) * (b ^ (n div 2)) * b ^ (n mod 2)" by (simp only: power_add mult_2)
  finally show ?thesis by (cases "even n") (simp_all add: even_iff_mod_2_eq_zero odd_iff_mod_2_eq_one)
qed

definition exp_measure :: "bigint \<Rightarrow> nat" where
  "exp_measure exp = big_val exp + (if length exp = 1 then 0 else 1)"

lemma half_smaller:
  assumes "exp \<noteq> []" "exp \<notin> {[0], [1], [2]}" "big_val half = big_val exp div 2" "normal half"
  shows "exp_measure half < exp_measure exp"
proof (cases "big_val exp = 0")
  case True
  then have "big_val half < Bs ^ 1" using assms(3) by simp
  then have "length half \<le> 1" using assms(4) by (intro normal_short) simp_all
  then have lh: "length half = 1" using normal_not_Nil [OF assms(4)] by (cases half) auto
  have "length exp \<noteq> 1" using True assms(2) by (auto simp: length_Suc_conv unat_eq_0)
  then show ?thesis using True assms(3) lh by (simp add: exp_measure_def)
next
  case False
  show ?thesis
  proof (cases "length half = 1")
    case True
    have "big_val exp div 2 < big_val exp" using False by simp
    then show ?thesis using True assms(3) by (simp add: exp_measure_def)
  next
    case F: False
    then have l: "1 < length half" using normal_not_Nil [OF assms(4)] by (cases half) auto
    then have "Bs ^ 1 \<le> Bs ^ (length half - 1)" using Bs_gt_1 by (intro power_increasing) auto
    also have "\<dots> \<le> big_val half" using normal_ge [OF assms(4) l] .
    finally have "2 \<le> big_val half" by (simp add: Bs_def)
    then show ?thesis using assms(3) F by (simp add: exp_measure_def)
  qed
qed

lemma powm_checked_exact:
  assumes "powm_checked self exp m = Some r" "exp \<noteq> []" "normal self"
  shows "powm self exp m = Some r \<and> normal r \<and> big_val r mod big_val m = big_val self ^ big_val exp mod big_val m
    \<and> (1 < big_val exp \<or> big_val self < big_val m \<and> 1 < big_val m \<longrightarrow> big_val r < big_val m)"
  using assms
proof (induction "exp_measure exp" arbitrary: exp r rule: less_induct)
  case less
  have ne: "self \<noteq> []" using less.prems(3) by (rule normal_not_Nil)
  have pos: "0 < big_val m" if "mod_checked l m = Some x" for l x
    using that by (auto simp: mod_checked_def divisor_pos split: if_splits)
  have two: "(2 :: u32) \<noteq> 1" "(2 :: u32) \<noteq> 0" "(1 :: u32) \<noteq> 0" by simp_all
  consider "exp = [2]" | "exp = [1]" | "exp = [0]" | "exp \<notin> {[0], [1], [2]}" by blast
  then show ?case
  proof cases
    case 1
    then have "mod_checked (big_mul self self) m = Some r" using less.prems(1) by (simp add: powm_checked.simps [of self "[2]"])
    then show ?thesis
      using mod_checked_exact [of "big_mul self self" m r] pos ne 1
      by (simp add: powm.simps [of self "[2]"] power2_eq_square)
  next
    case 2
    have "powm_checked self [1] m = Some self" "powm self [1] m = Some self"
      using two by (simp_all add: powm.simps [of self "[1]"] powm_checked.simps [of self "[1]"])
    then show ?thesis using less.prems 2 by simp
  next
    case 3
    have "powm_checked self [0] m = Some [1]" "powm self [0] m = Some [1]"
      using two by (simp_all add: powm.simps [of self "[0]"] powm_checked.simps [of self "[0]"] big_u8_def)
    then have "r = [1]" "powm self exp m = Some r" using less.prems(1) 3 by simp_all
    then show ?thesis using 3 by (simp add: normal_def)
  next
    case 4
    obtain half where half: "big_div exp (big_u8 2) = Some half" "big_val half = big_val exp div 2" "normal half"
      using less.prems(2) by (rule half_exact)
    obtain h sq where h: "powm_checked self half m = Some h" "mod_checked (big_mul h h) m = Some sq"
      and r: "(if even (big_val exp) then Some sq else mod_checked (big_mul sq self) m) = Some r"
      using less.prems(1) 4 half(1) exp_parity [OF less.prems(2)]
      by (subst (asm) powm_checked.simps) (auto simp: exp_single simp del: One_nat_def split: Option.bind_splits)
    have "exp_measure half < exp_measure exp" using less.prems(2) 4 half(2,3) by (rule half_smaller)
    then have ih: "powm self half m = Some h \<and> normal h \<and> big_val h mod big_val m = big_val self ^ big_val half mod big_val m"
      using less.hyps [of half h] h(1) normal_not_Nil [OF half(3)] less.prems(3) by blast
    then have hn: "h \<noteq> []" by (auto simp: normal_def)
    have sq: "big_mod (big_mul h h) m = Some sq" "big_val sq = big_val h * big_val h mod big_val m" "normal sq"
      using mod_checked_exact [OF h(2)] hn by simp_all
    have mpos: "0 < big_val m" using pos h(2) by blast
    have hh: "big_val h * big_val h mod big_val m = big_val self ^ big_val half * big_val self ^ big_val half mod big_val m"
      using ih by (metis mod_mult_eq)
    have pw: "powm self exp m = (if even (big_val exp) then Some sq else big_mod (big_mul sq self) m)"
      using less.prems(2) 4 half(1) conjunct1 [OF ih] h(2) by (rule powm_of_half)
    show ?thesis
    proof (cases "even (big_val exp)")
      case True
      then show ?thesis
        using r pw sq hh mpos power_halves [of "big_val self" "big_val exp"] half(2) by simp
    next
      case False
      then have rm: "mod_checked (big_mul sq self) m = Some r" using r by simp
      have sn: "sq \<noteq> []" using sq(3) by (rule normal_not_Nil)
      have "big_val r = big_val sq * big_val self mod big_val m" "normal r" "big_mod (big_mul sq self) m = Some r"
        using mod_checked_exact [OF rm] sn ne by simp_all
      moreover have "big_val sq * big_val self mod big_val m = big_val self ^ big_val exp mod big_val m"
        using sq(2) hh power_halves [of "big_val self" "big_val exp"] half(2) False by (simp add: mod_mult_left_eq)
      ultimately show ?thesis using pw False mpos by simp
    qed
  qed
qed

lemma mod_checked_single:
  assumes "d \<noteq> 0" "normal l"
  shows "\<exists>r. mod_checked l [d] = Some r \<and> normal r"
proof -
  have d: "divisor [d]" using assms(1) by (simp add: divisor_def)
  have s: "division_safe l [d]" using assms by (intro single_division_safe) (simp_all add: normal_not_Nil)
  then show ?thesis using big_mod_exact [OF d s] d assms(2) by (auto simp: mod_checked_def)
qed

lemma powm_checked_single:
  assumes "d \<noteq> 0" "exp \<noteq> []" "normal self"
  shows "\<exists>r. powm_checked self exp [d] = Some r"
  using assms(2)
proof (induction "exp_measure exp" arbitrary: exp rule: less_induct)
  case less
  have ne: "self \<noteq> []" using assms(3) by (rule normal_not_Nil)
  show ?case
  proof (cases "exp \<in> {[0], [1], [2]}")
    case True
    then show ?thesis
      using mod_checked_single [OF assms(1), of "big_mul self self"] ne
      by (subst powm_checked.simps) auto
  next
    case False
    obtain half where half: "big_div exp (big_u8 2) = Some half" "big_val half = big_val exp div 2" "normal half"
      using less.prems by (rule half_exact)
    have "exp_measure half < exp_measure exp" using less.prems False half(2,3) by (rule half_smaller)
    then obtain h where h: "powm_checked self half [d] = Some h"
      using less.hyps normal_not_Nil [OF half(3)] by blast
    then have "normal h" using powm_checked_exact normal_not_Nil [OF half(3)] assms(3) by blast
    then have hn: "h \<noteq> []" by (rule normal_not_Nil)
    obtain sq where sq: "mod_checked (big_mul h h) [d] = Some sq" "normal sq"
      using mod_checked_single [OF assms(1), of "big_mul h h"] hn by auto
    obtain r where "mod_checked (big_mul sq self) [d] = Some r"
      using mod_checked_single [OF assms(1), of "big_mul sq self"] normal_not_Nil [OF sq(2)] ne by auto
    then show ?thesis
      using half h sq False by (subst powm_checked.simps) (simp add: exp_single del: One_nat_def)
  qed
qed

section \<open>Bytes\<close>

text \<open>A segment from its bytes, most significant first, as the constructor accumulates it.\<close>

definition seg_word :: "u8 \<Rightarrow> u8 \<Rightarrow> u8 \<Rightarrow> u8 \<Rightarrow> u32" where
  "seg_word a b c d = push_bit 8 (push_bit 8 (push_bit 8 (push_bit 8 0 + ucast a) + ucast b) + ucast c) + ucast d"

fun seg_words :: "u8 list \<Rightarrow> u32 list" where
  "seg_words (a # b # c # d # bs) = seg_word a b c d # seg_words bs"
| "seg_words _ = []"

lemma unat_u8_less: "unat (b :: u8) < 256"
  using unsigned_less [of b, where ?'a = nat] by simp

lemma unat_shift_in:
  assumes "unat (w :: u32) = k" "k < 2 ^ 24"
  shows "unat (push_bit 8 w + ucast (b :: u8)) = 256 * k + unat b"
proof -
  have b: "unat (ucast b :: u32) = unat b"
    using unat_u8_less [of b] by (simp add: unsigned_ucast_eq take_bit_nat_eq_self)
  have "unat (push_bit 8 w) = 256 * k"
    using assms by (simp add: push_bit_eq_mult unat_word_ariths)
  then show ?thesis using assms(2) unat_u8_less [of b] b by (simp add: unat_word_ariths)
qed

lemma unat_seg_word: "unat (seg_word a b c d) = 256 * (256 * (256 * unat a + unat b) + unat c) + unat d"
proof -
  have "256 * unat a + unat b < 2 ^ 24" "256 * (256 * unat a + unat b) + unat c < 2 ^ 24"
    using unat_u8_less [of a] unat_u8_less [of b] unat_u8_less [of c] by simp_all
  moreover have "unat (push_bit 8 0 + ucast a :: u32) = unat a"
    using unat_shift_in [of 0 0 a] by simp
  moreover have "unat a < 2 ^ 24" using unat_u8_less [of a] by simp
  ultimately show ?thesis unfolding seg_word_def
    by (intro unat_shift_in)
qed

lemma unat_low_byte: "unat (ucast (w AND 0xff :: u32) :: u8) = unat w mod 256"
  by (simp add: unsigned_ucast_eq take_bit_eq_mod)

lemma unat_seg_bytes:
  "map unat (seg_bytes w) =
     [unat w mod 256, unat w div 256 mod 256, unat w div 256 div 256 mod 256, unat w div 256 div 256 div 256 mod 256]"
proof -
  have d: "unat (drop_bit n w) = unat w div 2 ^ n" for n
    by (simp only: unat_drop_bit_eq drop_bit_eq_div [where ?'a = nat])
  show ?thesis unfolding seg_bytes_def list.map unat_low_byte d by (simp add: div_mult2_eq [symmetric])
qed

lemma byte_digit: "d < 256 \<Longrightarrow> (256 * x + d) mod 256 = (d :: nat)" "d < 256 \<Longrightarrow> (256 * x + d) div 256 = (x :: nat)"
  by simp_all

lemma length_seg_bytes [simp]: "length (seg_bytes w) = 4"
  by (simp add: seg_bytes_def)

lemma seg_bytes_seg_word [simp]: "seg_bytes (seg_word a b c d) = [d, c, b, a]"
proof -
  have "map unat (seg_bytes (seg_word a b c d)) = map unat [d, c, b, a]"
    using unat_u8_less [of a] unat_u8_less [of b] unat_u8_less [of c] unat_u8_less [of d]
    by (simp only: unat_seg_bytes unat_seg_word list.map byte_digit mod_less)
  moreover have "inj (unat :: u8 \<Rightarrow> nat)" by (simp add: inj_def word_unat_eq_iff)
  ultimately show ?thesis by (simp only: inj_map_eq_map)
qed

lemma seg_word_seg_bytes: "seg_bytes w = [d, c, b, a] \<Longrightarrow> seg_word a b c d = w"
proof -
  assume w: "seg_bytes w = [d, c, b, a]"
  have "map unat [d, c, b, a] = map unat (seg_bytes w)" by (simp only: w)
  then have v: "unat d = unat w mod 256" "unat c = unat w div 256 mod 256"
    "unat b = unat w div 256 div 256 mod 256" "unat a = unat w div 256 div 256 div 256 mod 256"
    by (simp_all only: unat_seg_bytes list.map list.inject)
  have "unat w div 256 div 256 div 256 < 256"
    using unat_less_Bs [of w] by (simp add: Bs_def div_mult2_eq [symmetric] div_less_iff_less_mult)
  then have "unat a = unat w div 256 div 256 div 256" using v(4) by simp
  then have "unat (seg_word a b c d) = unat w" unfolding unat_seg_word v by simp
  then show ?thesis by (simp add: word_unat_eq_iff)
qed

lemma seg_words_append: "length xs mod 4 = 0 \<Longrightarrow> seg_words (xs @ ys) = seg_words xs @ seg_words ys"
  by (induction xs rule: seg_words.induct) auto

lemma length_seg_words: "length (seg_words bs) = length bs div 4"
  by (induction bs rule: seg_words.induct) auto

lemma fill_segments_words:
  assumes "length bs = 4 * k" "k \<le> length seg" "\<forall>j<k. seg ! j = 0"
  shows "fill_segments bs seg = rev (seg_words bs) @ drop k seg"
  using assms
proof (induction bs arbitrary: k seg rule: seg_words.induct)
  case (1 a b c d bs)
  then obtain m where m: "k = Suc m" "length bs = 4 * m" by (cases k) auto
  have "seg ! m = 0" "m < length seg" using 1 m by auto
  have dv: "Suc (4 * m) div 4 = m" "Suc (Suc (4 * m)) div 4 = m" "Suc (Suc (Suc (4 * m))) div 4 = m" by simp_all
  then have step: "fill_segments (a # b # c # d # bs) seg = fill_segments bs (seg[m := seg_word a b c d])"
    using m \<open>seg ! m = 0\<close> \<open>m < length seg\<close> by (simp add: Let_def seg_word_def)
  have "fill_segments bs (seg[m := seg_word a b c d]) = rev (seg_words bs) @ drop m (seg[m := seg_word a b c d])"
    using 1 m by (intro "1.IH") auto
  also have "drop m (seg[m := seg_word a b c d]) = seg_word a b c d # drop (Suc m) seg"
    using \<open>m < length seg\<close> by (simp add: drop_update_swap Cons_nth_drop_Suc [symmetric])
  finally show ?case using step m by simp
qed (auto dest: arg_cong [where f = "\<lambda>n. n mod 4"])

lemma length_fill_segments [simp]: "length (fill_segments bs seg) = length seg"
  by (induction bs seg rule: fill_segments.induct) (simp_all add: Let_def)

lemma put_down_eq:
  "n \<le> length out \<Longrightarrow> put_down bs n out = take (n - length bs) out @ rev (take n bs) @ drop n out"
proof (induction bs arbitrary: n out)
  case (Cons b bs)
  show ?case
  proof (cases n)
    case (Suc m)
    have "put_down bs m (out[m := b]) = take (m - length bs) out @ rev (take m bs) @ b # drop (Suc m) out"
      using Cons Suc by (simp add: drop_update_swap Cons_nth_drop_Suc [symmetric])
    then show ?thesis using Suc by simp
  qed simp
qed simp

lemma concat_nth4:
  "(\<And>x. length (f x) = 4) \<Longrightarrow> j < 4 \<Longrightarrow> i < length s \<Longrightarrow> concat (map f s) ! (4 * i + j) = f (s ! i) ! j"
proof (induction s arbitrary: i)
  case (Cons x s)
  then show ?case by (cases i) (simp_all add: nth_append)
qed simp

lemma length_concat4: "(\<And>x. length (f x) = 4) \<Longrightarrow> length (concat (map f s)) = 4 * length s"
  by (induction s) simp_all

lemma swap_blocks_4:
  assumes "\<And>x. length (f x) = 4"
  shows "swap_blocks 4 (concat (map f s)) = Some (concat (map (\<lambda>x. rev (f x)) s))"
proof -
  have l: "length (concat (map f s)) = 4 * length s" "length (concat (map (\<lambda>x. rev (f x)) s)) = 4 * length s"
    using assms by (simp_all add: length_concat4)
  have "map (\<lambda>k. concat (map f s) ! (k div 4 * 4 + (4 - 1 - k mod 4))) [0..<4 * length s] = concat (map (\<lambda>x. rev (f x)) s)"
  proof (rule nth_equalityI)
    fix k assume "k < length (map (\<lambda>k. concat (map f s) ! (k div 4 * 4 + (4 - 1 - k mod 4))) [0..<4 * length s])"
    then have k: "k < 4 * length s" by simp
    then have i: "k div 4 < length s" by (simp add: div_less_iff_less_mult mult.commute)
    have "concat (map f s) ! (4 * (k div 4) + (3 - k mod 4)) = f (s ! (k div 4)) ! (3 - k mod 4)"
      using assms i by (intro concat_nth4) auto
    moreover have "concat (map (\<lambda>x. rev (f x)) s) ! (4 * (k div 4) + k mod 4) = rev (f (s ! (k div 4))) ! (k mod 4)"
      using assms i by (intro concat_nth4) auto
    moreover have "rev (f (s ! (k div 4))) ! (k mod 4) = f (s ! (k div 4)) ! (3 - k mod 4)"
      using assms by (simp add: rev_nth)
    ultimately show "map (\<lambda>k. concat (map f s) ! (k div 4 * 4 + (4 - 1 - k mod 4))) [0..<4 * length s] ! k
        = concat (map (\<lambda>x. rev (f x)) s) ! k"
      using k by (simp add: mult.commute)
  qed (simp add: l)
  then show ?thesis by (simp add: swap_blocks_def l)
qed

text \<open>The bytes of the number in the little-endian form of the protocol, short and long buffers included.\<close>

lemma getData_le:
  "getData s (4 * n) 4 False = Some (replicate (4 * (n - length s)) 0 @ concat (map seg_bytes (drop (length s - n) s)))"
proof -
  define w where "w = replicate (n - length s) [0 :: u8, 0, 0, 0] @ map (\<lambda>x. rev (seg_bytes x)) (drop (length s - n) s)"
  have zeros: "concat (replicate k [0 :: u8, 0, 0, 0]) = replicate (4 * k) 0" for k
    by (induction k) (simp_all add: numeral_eq_Suc)
  have "take (4 * n) (concat (map seg_bytes (rev s))) = concat (map seg_bytes (take n (rev s)))"
  proof -
    have "concat (map seg_bytes (rev s)) = concat (map seg_bytes (take n (rev s))) @ concat (map seg_bytes (drop n (rev s)))"
      by (metis append_take_drop_id concat_append map_append)
    then show ?thesis
      using length_concat4 [of seg_bytes "take n (rev s)"] by (cases "n \<le> length s") auto
  qed
  also have "take n (rev s) = rev (drop (length s - n) s)" by (simp add: take_rev)
  finally have tk: "rev (take (4 * n) (concat (map seg_bytes (rev s)))) = concat (map (\<lambda>x. rev (seg_bytes x)) (drop (length s - n) s))"
    by (simp add: rev_concat rev_map comp_def)
  have "length (concat (map seg_bytes (rev s))) = 4 * length s" by (simp add: length_concat4)
  then have "put_down (concat (map seg_bytes (rev s))) (4 * n) (replicate (4 * n) 0) = concat w"
    using put_down_eq [of "4 * n" "replicate (4 * n) 0" "concat (map seg_bytes (rev s))"] tk
    by (simp add: w_def zeros diff_mult_distrib2)
  moreover have w4: "map (\<lambda>x. if length x = 4 then x else [0, 0, 0, 0]) w = w" by (simp add: w_def)
  moreover have "swap_blocks 4 (concat (map (\<lambda>x. if length x = 4 then x else [0, 0, 0, 0]) w))
      = Some (concat (map (\<lambda>x. rev (if length x = 4 then x else [0, 0, 0, 0])) w))"
    by (rule swap_blocks_4) simp
  moreover have "map (\<lambda>x. rev (if length x = 4 then x else [0, 0, 0, 0])) w
      = replicate (n - length s) [0, 0, 0, 0] @ map seg_bytes (drop (length s - n) s)"
    by (simp add: w_def)
  ultimately show ?thesis by (simp add: getData_def zeros)
qed

lemma big_bytes_le: "big_bytes (concat (map seg_bytes s)) 1 False = Some s"
proof -
  have l: "length (concat (map seg_bytes s)) = 4 * length s" by (simp add: length_concat4)
  have "fill_segments (rev (concat (map seg_bytes s))) (replicate (length s) 0)
      = rev (seg_words (rev (concat (map seg_bytes s)))) @ drop (length s) (replicate (length s) 0)"
    using l by (intro fill_segments_words) simp_all
  moreover have "rev (seg_words (rev (concat (map seg_bytes s)))) = s"
  proof (induction s)
    case (Cons w s)
    obtain d c b a where w: "seg_bytes w = [d, c, b, a]" by (simp add: seg_bytes_def)
    have "length (rev (concat (map seg_bytes s))) mod 4 = 0" by (simp add: length_concat4)
    then show ?case using Cons by (simp add: w seg_words_append seg_word_seg_bytes [OF w])
  qed simp
  ultimately show ?thesis by (simp add: big_bytes_def l)
qed

section \<open>The properties\<close>

text \<open>
  C14. Big integer addition and multiplication are exact at every size: the carries of the segment
  loops lose nothing, so the result stands for the sum or the product, and it is normalised (no
  leading zero segment), which is what the comparisons by segment count need.
\<close>

theorem big_add_mul_exact:
  assumes "l \<noteq> []" "r \<noteq> []"
  shows "big_val (big_add l r) = big_val l + big_val r \<and> normal (big_add l r)
    \<and> big_val (big_mul l r) = big_val l * big_val r \<and> normal (big_mul l r)"
  using assms by simp

theorem big_add_mul_exact_witness:
  "big_val (big_add [0xffffffff, 0xffffffff] [1]) = big_val [0xffffffff, 0xffffffff] + big_val [1]
   \<and> normal (big_add [0xffffffff, 0xffffffff] [1])
   \<and> big_val (big_mul [0xffffffff, 0xffffffff] [1]) = big_val [0xffffffff, 0xffffffff] * big_val [1]
   \<and> normal (big_mul [0xffffffff, 0xffffffff] [1])"
  by (rule big_add_mul_exact) simp_all

text \<open>
  On normalised numbers the comparisons are those of the numbers, and subtraction of a smaller
  number is exact whenever no borrow meets an all-ones segment of the subtrahend; in particular when
  the subtrahend has no such segment.
\<close>

lemma big_sub_exact:
  assumes "normal l" "normal r"
  shows "(big_less l r \<longleftrightarrow> big_val l < big_val r) \<and> (big_greater l r \<longleftrightarrow> big_val l > big_val r)
    \<and> (big_eq l r \<longleftrightarrow> big_val l = big_val r)
    \<and> (sub_safe l r \<longrightarrow> big_val (big_sub l r) = big_val l - big_val r)
    \<and> (0xffffffff \<notin> set r \<longrightarrow> sub_safe l r)"
proof -
  have "big_val (big_sub l r) = big_val l - big_val r" if "sub_safe l r"
  proof (cases "big_greater l r")
    case True
    then have "length r \<le> length l" by (auto simp: big_greater_def split: if_splits)
    moreover have "big_val r \<le> big_val l" using True assms by (simp add: big_greater_less big_less_normal)
    ultimately show ?thesis using True that by (intro big_val_sub)
  next
    case False
    then have "big_val l \<le> big_val r" using assms by (simp add: big_greater_less big_less_normal)
    then show ?thesis using False by (simp add: big_sub_def)
  qed
  then show ?thesis
    using assms normal_inj [of l r]
    by (auto simp: big_less_normal big_greater_less sub_safe_def borrow_safe_no_ones)
qed

lemma big_sub_exact_witness:
  "(big_less [0, 0, 1] [1, 7] \<longleftrightarrow> big_val [0, 0, 1] < big_val [1, 7])
    \<and> sub_safe [0, 0, 1] [1, 7] \<and> big_val (big_sub [0, 0, 1] [1, 7]) = big_val [0, 0, 1] - big_val [1, 7]"
proof -
  have "normal [0, 0, 1]" "normal [1, 7]" by (simp_all add: normal_def)
  from big_sub_exact [OF this] show ?thesis by simp
qed

text \<open>A borrow lost in an all-ones segment: 2^64 - (2^64 - 2^32 + 1) should be 2^32 - 1.\<close>

lemma big_sub_lost_borrow: "big_sub [0, 0, 1] [1, 0xffffffff] = [0xffffffff, 0, 1]"
  by code_simp

text \<open>A partial remainder with too few segments: the next digit reads past the end of its array.\<close>

lemma big_mod_overread: "big_mod [0, 0, 1] [0, 1] = None"
  by code_simp

text \<open>The signed sum of the leading bytes is zero again after 01 FF, so FF is not printed.\<close>

lemma toHexString_drops_byte: "toHexString [0x01ff1234] = ''011234''"
  by code_simp

text \<open>\<open>getData\<close> puts a number with fewer segments than the buffer at its end, not at its start.\<close>

lemma getData_misplaced: "getData [1] 8 4 False = Some [0, 0, 0, 0, 1, 0, 0, 0]"
  by code_simp

text \<open>A shift by no bytes gives zero.\<close>

lemma big_shift_zero: "big_shift [5] 0 = Some [0]"
  by code_simp

text \<open>
  Division and remainder by a one-segment number are exact for every dividend: the estimate is
  the digit itself, no segment is read out of range and the correction loop ends at once.
\<close>

lemma big_divmod_single:
  assumes "d \<noteq> 0" "l \<noteq> []"
  shows "\<exists>q m. big_div l [d] = Some q \<and> big_mod l [d] = Some m \<and> normal q
    \<and> big_val q = big_val l div unat d \<and> big_val m = big_val l mod unat d"
proof -
  have d: "divisor [d]" using assms(1) by (simp add: divisor_def)
  have s: "division_safe l [d]" using assms by (rule single_division_safe)
  show ?thesis using big_div_exact [OF d s] big_mod_exact [OF d s] by auto
qed

theorem big_divmod_single_witness:
  "\<exists>q m. big_div [7, 0xffffffff, 3] [0xffffffff] = Some q \<and> big_mod [7, 0xffffffff, 3] [0xffffffff] = Some m \<and> normal q
    \<and> big_val q = big_val [7, 0xffffffff, 3] div unat (0xffffffff :: u32)
    \<and> big_val m = big_val [7, 0xffffffff, 3] mod unat (0xffffffff :: u32)"
  by (rule big_divmod_single) simp_all

text \<open>
  C13. Division by a longer number is exact, and its correction loop ends, when every digit is safe:
  the partial remainder has one segment more than the divisor (so nothing is read out of range), the
  comparisons of the correction loop see the true order, and the subtraction loses no borrow.
\<close>

theorem big_divmod_exact:
  assumes "divisor r" "division_safe l r"
  shows "\<exists>q m. big_div l r = Some q \<and> big_mod l r = Some m
    \<and> big_val q = big_val l div big_val r \<and> big_val m = big_val l mod big_val r"
  using big_div_exact [OF assms] big_mod_exact [OF assms] by auto

theorem big_divmod_exact_witness:
  "\<exists>q m. big_div [5, 6, 7] [0, 4] = Some q \<and> big_mod [5, 6, 7] [0, 4] = Some m
    \<and> big_val q = big_val [5, 6, 7] div big_val [0, 4] \<and> big_val m = big_val [5, 6, 7] mod big_val [0, 4]"
proof (rule big_divmod_exact)
  have p1: "digit_product [0, 4] [6, 7, 0] = [0, 4]"
    by (simp add: digit_product_def digit_of_def Bs_def big_mul_def big_u64_def trim_def Let_def)
  have s1: "big_sub [6, 7, 0] [0, 4] = [6, 3]"
    by (simp add: big_sub_def big_greater_def seg_at_def trim_def Let_def)
  have d1: "digit_safe [0, 4] [6, 7, 0]"
    using p1 by (simp add: digit_safe_def estimate_def digit_of_def Bs_def sub_safe_def seg_at_def)
  have p2: "digit_product [0, 4] [5, 6, 3] = [0, 4, 3]"
    by (simp add: digit_product_def digit_of_def Bs_def big_mul_def big_u64_def trim_def Let_def)
  have d2: "digit_safe [0, 4] [5, 6, 3]"
    using p2 by (simp add: digit_safe_def estimate_def digit_of_def Bs_def sub_safe_def seg_at_def)
  show "division_safe [5, 6, 7] [0, 4]"
    using p1 s1 d1 d2 by (simp add: division_safe_def big_less_def)
qed (simp add: divisor_def)




end
