(* ===== verification/Bnet_SRP3.thy ===== *)
theory Bnet_SRP3
  imports Big_Int Bnet_Hash
begin

text \<open>
  \<^verbatim>\<open>common/bnetsrp3.cpp\<close>: the SRP-3 password exchange of Warcraft III over \<^verbatim>\<open>BigInt\<close>.
  An object is the record \<open>srp\<close>; the statics \<open>N\<close> and \<open>g\<close> are arguments, with the values of the source
  in \<open>srp_N\<close> and \<open>srp_g\<close>. \<open>mem\<close> is the uninitialised block of the hash functions, \<open>rand\<close> the random
  stream, \<open>after_I\<close> the twelve bytes behind \<open>bnetsrp3_I\<close>, which has 20 bytes and is read as 32.
  Every method of the arithmetic may be undefined (\<open>None\<close>) where \<^verbatim>\<open>BigInt\<close> is.
\<close>

record srp =
  srp_a :: bigint
  srp_b :: bigint
  srp_s :: bigint
  srp_B :: "bigint option"
  username :: "char list"
  password :: "char list option"
  raw_salt :: "u8 list"

definition bnetsrp3_N :: "u8 list" where
  "bnetsrp3_N = [
    0xF8, 0xFF, 0x1A, 0x8B, 0x61, 0x99, 0x18, 0x03,
    0x21, 0x86, 0xB6, 0x8C, 0xA0, 0x92, 0xB5, 0x55,
    0x7E, 0x97, 0x6C, 0x78, 0xC7, 0x32, 0x12, 0xD9,
    0x12, 0x16, 0xF6, 0x65, 0x85, 0x23, 0xC7, 0x87]"

definition bnetsrp3_I :: "u8 list" where
  "bnetsrp3_I = [
    0xF8, 0x01, 0x8C, 0xF0, 0xA4, 0x25, 0xBA, 0x8B,
    0xEB, 0x89, 0x58, 0xB1, 0xAB, 0x6B, 0xF9, 0x0A,
    0xED, 0x97, 0x0E, 0x6C]"

definition srp_N :: "bigint option" where
  "srp_N = big_bytes bnetsrp3_N 1 True"

definition srp_g :: bigint where
  "srp_g = big_u8 0x2F"

definition srp_I :: "u8 list \<Rightarrow> bigint option" where
  "srp_I after_I = big_bytes (bnetsrp3_I @ after_I) 1 True"

definition char_bytes :: "char list \<Rightarrow> u8 list" where
  "char_bytes = map of_char"

text \<open>\<open>init\<close>, with \<open>None\<close> for its failures, which leave the object unusable.\<close>

definition srp_init :: "(nat \<Rightarrow> u32) \<Rightarrow> bigint \<Rightarrow> char list option \<Rightarrow> char list option \<Rightarrow> bigint option \<Rightarrow> srp option" where
  "srp_init rand N un0 pw0 salt0 = (case un0 of None \<Rightarrow> None | Some un \<Rightarrow>
     let name = map c_toupper un
     in if (pw0 = None) = (salt0 = None) then None
        else do {
          (a, b, s, pw) \<leftarrow> (case pw0 of
             Some p \<Rightarrow> do {
               r \<leftarrow> big_random rand 32;
               a \<leftarrow> big_mod r N;
               s \<leftarrow> big_random (\<lambda>i. rand (i + 8)) 32;
               Some (a, big_zero, s, Some (map c_toupper p)) }
           | None \<Rightarrow> do {
               r \<leftarrow> big_random rand 32;
               b \<leftarrow> big_mod r N;
               s \<leftarrow> salt0;
               Some (big_zero, b, s, None) });
          raw \<leftarrow> getData s 32 1 True;
          Some \<lparr>srp_a = a, srp_b = b, srp_s = s, srp_B = None, username = name, password = pw, raw_salt = raw\<rparr> })"

text \<open>The 20 bytes of a hash as they lie in memory.\<close>

definition le_sha1 :: "u32 list \<Rightarrow> u8 list \<Rightarrow> u8 list" where
  "le_sha1 mem d = (case snd (little_endian_sha1_hash mem (Some hash_init) (length d) (Some d)) of
     None \<Rightarrow> [] | Some h \<Rightarrow> concat (map seg_bytes h))"

definition getClientPrivateKey :: "u32 list \<Rightarrow> srp \<Rightarrow> bigint option" where
  "getClientPrivateKey mem st =
     (let pw = (case password st of None \<Rightarrow> [] | Some p \<Rightarrow> p);
          userpass_hash = le_sha1 mem (char_bytes (username st @ '':'' @ pw));
          private_value = raw_salt st @ userpass_hash
      in big_bytes (le_sha1 mem private_value) 1 False)"

definition getScrambler :: "u32 list \<Rightarrow> bigint \<Rightarrow> bigint option" where
  "getScrambler mem B = do {
     raw_B \<leftarrow> getData B 32 4 False;
     h \<leftarrow> snd (sha1_hash mem (Some hash_init) 32 (Some raw_B));
     Some (big_u32 (h ! 0)) }"

definition getClientSecret :: "u32 list \<Rightarrow> bigint \<Rightarrow> bigint \<Rightarrow> srp \<Rightarrow> bigint \<Rightarrow> bigint option" where
  "getClientSecret mem N g st B = do {
     x \<leftarrow> getClientPrivateKey mem st;
     u \<leftarrow> getScrambler mem B;
     gx \<leftarrow> powm g x N;
     powm (big_sub (big_add N B) gx) (big_add (big_mul x u) (srp_a st)) N }"

definition getServerSessionPublicKey :: "bigint \<Rightarrow> bigint \<Rightarrow> srp \<Rightarrow> bigint \<Rightarrow> (bigint \<times> srp) option" where
  "getServerSessionPublicKey N g st v = (case srp_B st of
       Some B \<Rightarrow> Some (B, st)
     | None \<Rightarrow> do {
         gb \<leftarrow> powm g (srp_b st) N;
         B \<leftarrow> big_mod (big_add v gb) N;
         Some (B, st\<lparr>srp_B := Some B\<rparr>) })"

definition getServerSecret :: "u32 list \<Rightarrow> bigint \<Rightarrow> bigint \<Rightarrow> srp \<Rightarrow> bigint \<Rightarrow> bigint \<Rightarrow> (bigint \<times> srp) option" where
  "getServerSecret mem N g st A v = do {
     (B, st1) \<leftarrow> getServerSessionPublicKey N g st v;
     u \<leftarrow> getScrambler mem B;
     vu \<leftarrow> powm v u N;
     t \<leftarrow> big_mod (big_mul A vu) N;
     secret \<leftarrow> powm t (srp_b st) N;
     Some (secret, st1) }"

text \<open>The even and odd positions of a list, and two lists merged byte by byte.\<close>

fun positions :: "'a list \<Rightarrow> 'a list \<times> 'a list" where
  "positions (x # y # xs) = (case positions xs of (ps, qs) \<Rightarrow> (x # ps, y # qs))"
| "positions _ = ([], [])"

fun interleave :: "'a list \<Rightarrow> 'a list \<Rightarrow> 'a list" where
  "interleave (x # xs) (y # ys) = x # y # interleave xs ys"
| "interleave _ _ = []"

definition hashSecret :: "u32 list \<Rightarrow> bigint \<Rightarrow> bigint option" where
  "hashSecret mem secret = do {
     raw_secret \<leftarrow> getData secret 32 4 False;
     (case positions raw_secret of (odd_bytes, even_bytes) \<Rightarrow>
        big_bytes (interleave (le_sha1 mem odd_bytes) (le_sha1 mem even_bytes)) 1 False) }"

definition getVerifier :: "u32 list \<Rightarrow> bigint \<Rightarrow> bigint \<Rightarrow> srp \<Rightarrow> bigint option" where
  "getVerifier mem N g st = do { x \<leftarrow> getClientPrivateKey mem st; powm g x N }"

definition getSalt :: "srp \<Rightarrow> bigint" where
  "getSalt st = srp_s st"

definition setSalt :: "srp \<Rightarrow> bigint \<Rightarrow> srp option" where
  "setSalt st salt0 = do { raw \<leftarrow> getData salt0 32 1 True; Some (st\<lparr>srp_s := salt0, raw_salt := raw\<rparr>) }"

definition getClientSessionPublicKey :: "bigint \<Rightarrow> bigint \<Rightarrow> srp \<Rightarrow> bigint option" where
  "getClientSessionPublicKey N g st = powm g (srp_a st) N"

definition getHashedClientSecret :: "u32 list \<Rightarrow> bigint \<Rightarrow> bigint \<Rightarrow> srp \<Rightarrow> bigint \<Rightarrow> bigint option" where
  "getHashedClientSecret mem N g st B = do { secret \<leftarrow> getClientSecret mem N g st B; hashSecret mem secret }"

definition getHashedServerSecret ::
  "u32 list \<Rightarrow> bigint \<Rightarrow> bigint \<Rightarrow> srp \<Rightarrow> bigint \<Rightarrow> bigint \<Rightarrow> (bigint \<times> srp) option" where
  "getHashedServerSecret mem N g st A v = do {
     (secret, st1) \<leftarrow> getServerSecret mem N g st A v;
     K \<leftarrow> hashSecret mem secret;
     Some (K, st1) }"

definition getClientPasswordProof ::
  "u32 list \<Rightarrow> u8 list \<Rightarrow> srp \<Rightarrow> bigint \<Rightarrow> bigint \<Rightarrow> bigint \<Rightarrow> bigint option" where
  "getClientPasswordProof mem after_I st A B K = do {
     I \<leftarrow> srp_I after_I;
     dI \<leftarrow> getData I 20 4 False;
     let usernameHash = le_sha1 mem (char_bytes (username st)) in do {
       ds \<leftarrow> getData (srp_s st) 32 1 True;
       dA \<leftarrow> getData A 32 4 False;
       dB \<leftarrow> getData B 32 4 False;
       dK \<leftarrow> getData K 40 4 False;
       big_bytes (le_sha1 mem (dI @ usernameHash @ ds @ dA @ dB @ dK)) 1 False } }"

definition getServerPasswordProof :: "u32 list \<Rightarrow> bigint \<Rightarrow> bigint \<Rightarrow> bigint \<Rightarrow> bigint option" where
  "getServerPasswordProof mem A M K = do {
     dA \<leftarrow> getData A 32 4 False;
     dM \<leftarrow> getData M 20 4 False;
     dK \<leftarrow> getData K 40 4 False;
     big_bytes (le_sha1 mem (dA @ dM @ dK)) 1 False }"

section \<open>The two sides of an exchange\<close>

text \<open>
  The reductions of one exchange, each a safe division (see \<open>big_divmod_exact\<close>): the verifier \<open>v\<close>, the
  public keys \<open>A\<close> and \<open>B\<close>, the server's \<open>v^u\<close>, product and power, and the client's power; and the
  client's subtraction loses no borrow. The client's exponent is at least two.
\<close>

definition exchange_safe :: "u32 list \<Rightarrow> bigint \<Rightarrow> bigint \<Rightarrow> srp \<Rightarrow> srp \<Rightarrow> bool" where
  "exchange_safe mem N g c sv \<longleftrightarrow>
     (\<exists>x v gb B A u vu t s1 s2.
        getClientPrivateKey mem c = Some x \<and> powm_checked g x N = Some v
        \<and> powm_checked g (srp_b sv) N = Some gb \<and> mod_checked (big_add v gb) N = Some B
        \<and> powm_checked g (srp_a c) N = Some A
        \<and> getScrambler mem B = Some u
        \<and> powm_checked v u N = Some vu \<and> mod_checked (big_mul A vu) N = Some t
        \<and> powm_checked t (srp_b sv) N = Some s1
        \<and> sub_safe (big_add N B) v
        \<and> powm_checked (big_sub (big_add N B) v) (big_add (big_mul x u) (srp_a c)) N = Some s2
        \<and> 1 < big_val (big_add (big_mul x u) (srp_a c)))"

lemma exchange_equal_powers:
  fixes g x u a b n :: nat
  defines "v \<equiv> g ^ x mod n" and "B \<equiv> (g ^ x mod n + g ^ b mod n) mod n"
  assumes "0 < n"
  shows "(n + B - v) ^ (x * u + a) mod n = ((g ^ a mod n) * (v ^ u mod n) mod n) ^ b mod n"
proof -
  have v: "v < n" using assms(3) by (simp add: v_def)
  have "(n + B - v) mod n = g ^ b mod n"
  proof -
    define w where "w = g ^ b mod n"
    have "int (n + B - v) mod int n = (int n + int B - int v) mod int n"
      using v by (simp add: of_nat_diff)
    also have "\<dots> = (int n + (int v + int w) mod int n - int v) mod int n"
      by (simp add: B_def v_def w_def zmod_int)
    also have "\<dots> = (int n + (int v + int w) - int v) mod int n"
      by (metis mod_add_right_eq mod_diff_left_eq)
    also have "\<dots> = int w mod int n" by simp
    finally show ?thesis unfolding zmod_int [symmetric] by (simp add: w_def)
  qed
  then have "(n + B - v) ^ (x * u + a) mod n = (g ^ b) ^ (x * u + a) mod n"
    by (metis power_mod)
  also have "\<dots> = (g ^ a * (g ^ x) ^ u) ^ b mod n"
    by (simp add: power_add [symmetric] power_mult [symmetric] algebra_simps)
  also have "\<dots> = ((g ^ a mod n) * (v ^ u mod n) mod n) ^ b mod n"
    by (simp add: v_def mod_simps)
  finally show ?thesis .
qed

lemma length_do_hash: "length (fst (do_hash h tmp v)) = 5"
  by (simp add: do_hash_def Let_def split: prod.splits)

lemma length_sha1_loop: "length h = 5 \<Longrightarrow> length (sha1_loop h tmp d sz n) = 5"
proof (induction sz arbitrary: h tmp d rule: less_induct)
  case (less sz)
  have step: "length (sha1_loop h1 t1 d1 (sz - k) n) = 5"
    if "do_hash h' tmp' v = (h1, t1)" "0 < k" "0 < sz" for h' tmp' v h1 t1 d1 k
    using less.IH [of "sz - k" h1 t1 d1] length_do_hash [of h' tmp' v] that by simp
  have base: "length (sha1_loop h1 t1 d1 0 n) = 5" if "do_hash h' tmp' v = (h1, t1)" for h' tmp' v h1 t1 d1
    using length_do_hash [of h' tmp' v] that by (simp add: sha1_loop.simps)
  show ?case
    using less.prems step base by (subst sha1_loop.simps) (auto simp: Let_def split: prod.splits)
qed

lemma length_le_sha1: "length (le_sha1 mem d) = 20"
  by (simp add: le_sha1_def little_endian_sha1_hash_def sha1_hash_def length_concat4 length_sha1_loop hash_init_def)

lemma big_bytes_total: "\<exists>s. big_bytes xs 1 False = Some s \<and> length s = length xs div 4 + (if length xs mod 4 \<noteq> 0 then 1 else 0)"
  by (simp add: big_bytes_def)

lemma private_key_segments:
  assumes "getClientPrivateKey mem c = Some x" shows "x \<noteq> []"
proof -
  obtain d where "big_bytes (le_sha1 mem d) 1 False = Some x"
    using assms by (auto simp: getClientPrivateKey_def Let_def)
  then have "length x = 5" using big_bytes_total [of "le_sha1 mem d"] by (simp add: length_le_sha1)
  then show ?thesis by auto
qed

lemma hashSecret_total: "\<exists>K. hashSecret mem secret = Some K"
  using getData_le [of secret 8] big_bytes_total by (fastforce simp: hashSecret_def split: prod.splits)

lemma scrambler_total: "\<exists>u. getScrambler mem B = Some (big_u32 u)"
  using getData_le [of B 8] by (auto simp: getScrambler_def sha1_hash_def)


text \<open>Over a one-segment modulus every exchange is safe.\<close>

lemma mod_checked_single_less:
  assumes "d \<noteq> 0" "normal l"
  obtains r where "mod_checked l [d] = Some r" "normal r" "big_val r < unat d"
proof -
  obtain r where r: "mod_checked l [d] = Some r" "normal r" using mod_checked_single [OF assms] by auto
  have "big_val r = big_val l mod unat d" using mod_checked_exact [OF r(1)] by simp
  moreover have "0 < unat d" using assms(1) by (simp add: unat_gt_0)
  ultimately show thesis using r that by simp
qed

lemma single_exchange_safe:
  assumes "1 < unat d" "srp_a c \<noteq> []" "srp_b sv \<noteq> []" "normal g" "big_val g < unat d" "1 < big_val (srp_a c)"
  shows "exchange_safe mem [d] g c sv"
proof -
  have d: "d \<noteq> 0" using assms(1) by auto
  obtain x where x: "getClientPrivateKey mem c = Some x"
    using big_bytes_total by (fastforce simp: getClientPrivateKey_def Let_def)
  have xn: "x \<noteq> []" using x by (rule private_key_segments)
  obtain v where v: "powm_checked g x [d] = Some v" using powm_checked_single [OF d xn assms(4)] by auto
  have V: "normal v" "big_val v < unat d" using powm_checked_exact [OF v xn assms(4)] assms(1,5) by auto
  obtain gb where gb: "powm_checked g (srp_b sv) [d] = Some gb" using powm_checked_single [OF d assms(3,4)] by auto
  obtain B where B: "mod_checked (big_add v gb) [d] = Some B" "normal B"
    using mod_checked_single [OF d normal_add] by auto
  obtain A where A: "powm_checked g (srp_a c) [d] = Some A" using powm_checked_single [OF d assms(2,4)] by auto
  have An: "A \<noteq> []" using powm_checked_exact [OF A assms(2,4)] by (simp add: normal_not_Nil)
  obtain w where u: "getScrambler mem B = Some (big_u32 w)" using scrambler_total by blast
  have un: "big_u32 w \<noteq> []" by (simp add: big_u32_def)
  obtain vu where vu: "powm_checked v (big_u32 w) [d] = Some vu" using powm_checked_single [OF d un V(1)] by auto
  have vun: "vu \<noteq> []" using powm_checked_exact [OF vu un V(1)] by (simp add: normal_not_Nil)
  obtain t where t: "mod_checked (big_mul A vu) [d] = Some t" "normal t"
    using mod_checked_single [OF d normal_mul [OF An vun]] by auto
  obtain s1 where s1: "powm_checked t (srp_b sv) [d] = Some s1" using powm_checked_single [OF d assms(3) t(2)] by auto
  have "big_val v < Bs ^ 1" using V(2) unat_less_Bs [of d] by (metis less_trans power_one_right)
  then have "length v \<le> 1" using V(1) by (intro normal_short) simp_all
  then have "seg_at v i \<noteq> 0xffffffff" if "0 < i" for i using that by (simp add: seg_at_def)
  then have bs: "borrow_safe l v n i carry" if "0 < i" for l n i carry
    using that by (induction n arbitrary: i carry) auto
  have safe: "sub_safe (big_add [d] B) v" unfolding sub_safe_def
    using bs by (cases "length (big_add [d] B)") auto
  have en: "big_add (big_mul x (big_u32 w)) (srp_a c) \<noteq> []" by (simp add: normal_not_Nil)
  obtain s2 where s2: "powm_checked (big_sub (big_add [d] B) v) (big_add (big_mul x (big_u32 w)) (srp_a c)) [d] = Some s2"
    using powm_checked_single [OF d en normal_sub] by auto
  have "1 < big_val (big_add (big_mul x (big_u32 w)) (srp_a c))" using assms(6) by simp
  then show ?thesis
    unfolding exchange_safe_def using x v gb B(1) A u vu t(1) s1 safe s2 by blast
qed


end
