(* ===== verification/Client_Tag.thy ===== *)
theory Client_Tag
  imports Pvpgn_Prelude
begin

text \<open>
  \<^verbatim>\<open>common/tag.cpp\<close>: the four-character tags of clients, architectures and languages, kept as 32-bit
  numbers, their conversions, and the test whether a client is in a comma separated list. A \<open>switch\<close>
  over constants is a table of its cases and its default.
\<close>

section \<open>The tags of \<^verbatim>\<open>common/tag.h\<close>\<close>

definition CLIENTTAG_BNCHATBOT_UINT :: u32 where "CLIENTTAG_BNCHATBOT_UINT = 0x43484154"
definition CLIENTTAG_STARCRAFT_UINT :: u32 where "CLIENTTAG_STARCRAFT_UINT = 0x53544152"
definition CLIENTTAG_BROODWARS_UINT :: u32 where "CLIENTTAG_BROODWARS_UINT = 0x53455850"
definition CLIENTTAG_SHAREWARE_UINT :: u32 where "CLIENTTAG_SHAREWARE_UINT = 0x53534852"
definition CLIENTTAG_DIABLORTL_UINT :: u32 where "CLIENTTAG_DIABLORTL_UINT = 0x4452544C"
definition CLIENTTAG_DIABLOSHR_UINT :: u32 where "CLIENTTAG_DIABLOSHR_UINT = 0x44534852"
definition CLIENTTAG_WARCIIBNE_UINT :: u32 where "CLIENTTAG_WARCIIBNE_UINT = 0x5732424E"
definition CLIENTTAG_DIABLO2DV_UINT :: u32 where "CLIENTTAG_DIABLO2DV_UINT = 0x44324456"
definition CLIENTTAG_STARJAPAN_UINT :: u32 where "CLIENTTAG_STARJAPAN_UINT = 0x4A535452"
definition CLIENTTAG_DIABLO2ST_UINT :: u32 where "CLIENTTAG_DIABLO2ST_UINT = 0x44325354"
definition CLIENTTAG_DIABLO2XP_UINT :: u32 where "CLIENTTAG_DIABLO2XP_UINT = 0x44325850"
definition CLIENTTAG_WARCRAFT3_UINT :: u32 where "CLIENTTAG_WARCRAFT3_UINT = 0x57415233"
definition CLIENTTAG_WAR3XP_UINT :: u32 where "CLIENTTAG_WAR3XP_UINT = 0x57335850"
definition CLIENTTAG_IIRC_UINT :: u32 where "CLIENTTAG_IIRC_UINT = 0x49495243"
definition CLIENTTAG_WCHAT_UINT :: u32 where "CLIENTTAG_WCHAT_UINT = 0x57434854"
definition CLIENTTAG_TIBERNSUN_UINT :: u32 where "CLIENTTAG_TIBERNSUN_UINT = 0x5453554E"
definition CLIENTTAG_TIBSUNXP_UINT :: u32 where "CLIENTTAG_TIBSUNXP_UINT = 0x54535850"
definition CLIENTTAG_REDALERT_UINT :: u32 where "CLIENTTAG_REDALERT_UINT = 0x52414C54"
definition CLIENTTAG_REDALERT2_UINT :: u32 where "CLIENTTAG_REDALERT2_UINT = 0x52414C32"
definition CLIENTTAG_DUNE2000_UINT :: u32 where "CLIENTTAG_DUNE2000_UINT = 0x444E324B"
definition CLIENTTAG_NOX_UINT :: u32 where "CLIENTTAG_NOX_UINT = 0x4E4F5858"
definition CLIENTTAG_NOXQUEST_UINT :: u32 where "CLIENTTAG_NOXQUEST_UINT = 0x4E4F5851"
definition CLIENTTAG_RENEGADE_UINT :: u32 where "CLIENTTAG_RENEGADE_UINT = 0x524E4744"
definition CLIENTTAG_RENGDFDS_UINT :: u32 where "CLIENTTAG_RENGDFDS_UINT = 0x52464453"
definition CLIENTTAG_YURISREV_UINT :: u32 where "CLIENTTAG_YURISREV_UINT = 0x59555249"
definition CLIENTTAG_EMPERORBD_UINT :: u32 where "CLIENTTAG_EMPERORBD_UINT = 0x45424644"
definition CLIENTTAG_LOFLORE3_UINT :: u32 where "CLIENTTAG_LOFLORE3_UINT = 0x4C4F5233"
definition CLIENTTAG_WWOL_UINT :: u32 where "CLIENTTAG_WWOL_UINT = 0x57574F4C"
definition CLIENTTAG_UNKNOWN_UINT :: u32 where "CLIENTTAG_UNKNOWN_UINT = 0x554E4B4E"
definition ARCHTAG_WINX86_UINT :: u32 where "ARCHTAG_WINX86_UINT = 0x49583836"
definition ARCHTAG_MACPPC_UINT :: u32 where "ARCHTAG_MACPPC_UINT = 0x504D4143"
definition ARCHTAG_OSXPPC_UINT :: u32 where "ARCHTAG_OSXPPC_UINT = 0x584D4143"
definition GAMELANG_ENGLISH_UINT :: u32 where "GAMELANG_ENGLISH_UINT = 0x656E5553"
definition GAMELANG_GERMAN_UINT :: u32 where "GAMELANG_GERMAN_UINT = 0x64654445"
definition GAMELANG_CZECH_UINT :: u32 where "GAMELANG_CZECH_UINT = 0x6373435A"
definition GAMELANG_SPANISH_UINT :: u32 where "GAMELANG_SPANISH_UINT = 0x65734553"
definition GAMELANG_FRENCH_UINT :: u32 where "GAMELANG_FRENCH_UINT = 0x66724652"
definition GAMELANG_ITALIAN_UINT :: u32 where "GAMELANG_ITALIAN_UINT = 0x69744954"
definition GAMELANG_JAPANESE_UINT :: u32 where "GAMELANG_JAPANESE_UINT = 0x6A614A41"
definition GAMELANG_KOREAN_UINT :: u32 where "GAMELANG_KOREAN_UINT = 0x6B6F4B52"
definition GAMELANG_POLISH_UINT :: u32 where "GAMELANG_POLISH_UINT = 0x706C504C"
definition GAMELANG_RUSSIAN_UINT :: u32 where "GAMELANG_RUSSIAN_UINT = 0x72755255"
definition GAMELANG_CHINESE_S_UINT :: u32 where "GAMELANG_CHINESE_S_UINT = 0x7A68434E"
definition GAMELANG_CHINESE_T_UINT :: u32 where "GAMELANG_CHINESE_T_UINT = 0x7A685457"
definition TAG_UNKNOWN_UINT :: u32 where "TAG_UNKNOWN_UINT = 0x554E4B4E"

lemmas tag_defs =
  CLIENTTAG_BNCHATBOT_UINT_def CLIENTTAG_STARCRAFT_UINT_def CLIENTTAG_BROODWARS_UINT_def
  CLIENTTAG_SHAREWARE_UINT_def CLIENTTAG_DIABLORTL_UINT_def CLIENTTAG_DIABLOSHR_UINT_def
  CLIENTTAG_WARCIIBNE_UINT_def CLIENTTAG_DIABLO2DV_UINT_def CLIENTTAG_STARJAPAN_UINT_def
  CLIENTTAG_DIABLO2ST_UINT_def CLIENTTAG_DIABLO2XP_UINT_def CLIENTTAG_WARCRAFT3_UINT_def
  CLIENTTAG_WAR3XP_UINT_def CLIENTTAG_IIRC_UINT_def CLIENTTAG_WCHAT_UINT_def CLIENTTAG_TIBERNSUN_UINT_def
  CLIENTTAG_TIBSUNXP_UINT_def CLIENTTAG_REDALERT_UINT_def CLIENTTAG_REDALERT2_UINT_def
  CLIENTTAG_DUNE2000_UINT_def CLIENTTAG_NOX_UINT_def CLIENTTAG_NOXQUEST_UINT_def
  CLIENTTAG_RENEGADE_UINT_def CLIENTTAG_RENGDFDS_UINT_def CLIENTTAG_YURISREV_UINT_def
  CLIENTTAG_EMPERORBD_UINT_def CLIENTTAG_LOFLORE3_UINT_def CLIENTTAG_WWOL_UINT_def
  CLIENTTAG_UNKNOWN_UINT_def ARCHTAG_WINX86_UINT_def ARCHTAG_MACPPC_UINT_def ARCHTAG_OSXPPC_UINT_def
  GAMELANG_ENGLISH_UINT_def GAMELANG_GERMAN_UINT_def GAMELANG_CZECH_UINT_def GAMELANG_SPANISH_UINT_def
  GAMELANG_FRENCH_UINT_def GAMELANG_ITALIAN_UINT_def GAMELANG_JAPANESE_UINT_def GAMELANG_KOREAN_UINT_def
  GAMELANG_POLISH_UINT_def GAMELANG_RUSSIAN_UINT_def GAMELANG_CHINESE_S_UINT_def
  GAMELANG_CHINESE_T_UINT_def TAG_UNKNOWN_UINT_def

definition switch_table :: "('k \<times> 'v) list \<Rightarrow> 'v \<Rightarrow> 'k \<Rightarrow> 'v" where
  "switch_table cases dflt k = (case map_of cases k of None \<Rightarrow> dflt | Some v \<Rightarrow> v)"

section \<open>Conversions\<close>

text \<open>
  The four characters are read as signed bytes, so a character from 0x80 on fills the bits above it.
  Reading behind the terminating NUL, or a byte of \<open>temp_str\<close> that was not written, is undefined.
\<close>

definition tag_char :: "cstring \<Rightarrow> nat \<Rightarrow> u32 option" where
  "tag_char s i = (if i < length s then Some (word_of_int (schar (s ! i))) else if i = length s then Some 0 else None)"

definition tag_str_to_uint :: "cstring option \<Rightarrow> u32 option" where
  "tag_str_to_uint tag_str = (case tag_str of None \<Rightarrow> Some 0 | Some s \<Rightarrow> do {
     c0 \<leftarrow> tag_char s 0; c1 \<leftarrow> tag_char s 1; c2 \<leftarrow> tag_char s 2; c3 \<leftarrow> tag_char s 3;
     Some (push_bit 24 c0 OR push_bit 16 c1 OR push_bit 8 c2 OR c3) })"

definition clienttag_str_to_uint :: "cstring option \<Rightarrow> u32 option" where
  "clienttag_str_to_uint clienttag = (case clienttag of None \<Rightarrow> Some CLIENTTAG_UNKNOWN_UINT | Some _ \<Rightarrow> tag_str_to_uint clienttag)"

definition tag_case_str_to_uint :: "cstring \<Rightarrow> u32 option" where
  "tag_case_str_to_uint tag_str =
     (if length tag_str < 4 then None else tag_str_to_uint (Some (map c_toupper (take 4 tag_str))))"

text \<open>The characters of the result end at the first NUL.\<close>

definition tag_byte :: "u32 \<Rightarrow> nat \<Rightarrow> char" where
  "tag_byte tag_uint n = char_of (unat (ucast (drop_bit n tag_uint) :: u8))"

definition c_str :: "char list \<Rightarrow> cstring" where
  "c_str cs = takeWhile (\<lambda>c. c \<noteq> CHR 0x00) cs"

definition tag_uint_to_str :: "u32 \<Rightarrow> cstring" where
  "tag_uint_to_str tag_uint = (if tag_uint = 0 then ''UNKN''
     else c_str [tag_byte tag_uint 24, tag_byte tag_uint 16, tag_byte tag_uint 8, tag_byte tag_uint 0])"

definition tag_uint_to_revstr :: "u32 \<Rightarrow> cstring" where
  "tag_uint_to_revstr tag_uint = (if tag_uint = 0 then ''UNKN''
     else c_str [tag_byte tag_uint 0, tag_byte tag_uint 8, tag_byte tag_uint 16, tag_byte tag_uint 24])"

section \<open>Tables\<close>

definition clienttag_uint_to_str_cases :: "(u32 \<times> cstring) list" where
  "clienttag_uint_to_str_cases = [
    (CLIENTTAG_BNCHATBOT_UINT, ''CHAT''), (CLIENTTAG_STARCRAFT_UINT, ''STAR''),
    (CLIENTTAG_BROODWARS_UINT, ''SEXP''), (CLIENTTAG_SHAREWARE_UINT, ''SSHR''),
    (CLIENTTAG_DIABLORTL_UINT, ''DRTL''), (CLIENTTAG_DIABLOSHR_UINT, ''DSHR''),
    (CLIENTTAG_WARCIIBNE_UINT, ''W2BN''), (CLIENTTAG_DIABLO2DV_UINT, ''D2DV''),
    (CLIENTTAG_STARJAPAN_UINT, ''JSTR''), (CLIENTTAG_DIABLO2ST_UINT, ''D2ST''),
    (CLIENTTAG_DIABLO2XP_UINT, ''D2XP''), (CLIENTTAG_WARCRAFT3_UINT, ''WAR3''),
    (CLIENTTAG_WAR3XP_UINT, ''W3XP''), (CLIENTTAG_IIRC_UINT, ''IIRC''), (CLIENTTAG_WCHAT_UINT, ''WCHT''),
    (CLIENTTAG_TIBERNSUN_UINT, ''TSUN''), (CLIENTTAG_TIBSUNXP_UINT, ''TSXP''),
    (CLIENTTAG_REDALERT_UINT, ''RALT''), (CLIENTTAG_REDALERT2_UINT, ''RAL2''),
    (CLIENTTAG_DUNE2000_UINT, ''DN2K''), (CLIENTTAG_NOX_UINT, ''NOXX''), (CLIENTTAG_NOXQUEST_UINT, ''NOXQ''),
    (CLIENTTAG_RENEGADE_UINT, ''RNGD''), (CLIENTTAG_RENGDFDS_UINT, ''RFDS''),
    (CLIENTTAG_YURISREV_UINT, ''YURI''), (CLIENTTAG_EMPERORBD_UINT, ''EBFD''),
    (CLIENTTAG_LOFLORE3_UINT, ''LOR3''), (CLIENTTAG_WWOL_UINT, ''WWOL'')]"

definition clienttag_uint_to_str :: "u32 \<Rightarrow> cstring" where
  "clienttag_uint_to_str k = switch_table clienttag_uint_to_str_cases ''UNKN'' k"

definition clienttag_get_title_cases :: "(u32 \<times> cstring) list" where
  "clienttag_get_title_cases = [
    (CLIENTTAG_WAR3XP_UINT, ''Warcraft III Frozen Throne''), (CLIENTTAG_WARCRAFT3_UINT, ''Warcraft III''),
    (CLIENTTAG_DIABLO2XP_UINT, ''Diablo II Lord of Destruction''), (CLIENTTAG_DIABLO2DV_UINT, ''Diablo II''),
    (CLIENTTAG_STARJAPAN_UINT, ''Starcraft (Japan)''), (CLIENTTAG_WARCIIBNE_UINT, ''Warcraft II''),
    (CLIENTTAG_DIABLOSHR_UINT, ''Diablo I (Shareware)''), (CLIENTTAG_DIABLORTL_UINT, ''Diablo I''),
    (CLIENTTAG_SHAREWARE_UINT, ''Starcraft (Shareware)''),
    (CLIENTTAG_BROODWARS_UINT, ''Starcraft: Brood War''), (CLIENTTAG_STARCRAFT_UINT, ''Starcraft''),
    (CLIENTTAG_BNCHATBOT_UINT, ''Chat''), (CLIENTTAG_IIRC_UINT, ''Internet Relay Chat''),
    (CLIENTTAG_WCHAT_UINT, ''Westwood Chat''), (CLIENTTAG_TIBERNSUN_UINT, ''Tiberian Sun''),
    (CLIENTTAG_TIBSUNXP_UINT, ''Tiberian Sun: Firestorm''), (CLIENTTAG_REDALERT_UINT, ''Red Alert''),
    (CLIENTTAG_REDALERT2_UINT, ''Red Alert 2''), (CLIENTTAG_DUNE2000_UINT, ''Dune 2000''),
    (CLIENTTAG_NOX_UINT, ''Nox''), (CLIENTTAG_NOXQUEST_UINT, ''Nox Quest''),
    (CLIENTTAG_RENEGADE_UINT, ''Renegade''), (CLIENTTAG_RENGDFDS_UINT, ''Renegade Free Dedicated Server''),
    (CLIENTTAG_YURISREV_UINT, ''Yuri's Revenge''), (CLIENTTAG_EMPERORBD_UINT, ''Emepror: Battle for Dune''),
    (CLIENTTAG_LOFLORE3_UINT, ''Lands of Lore 3''), (CLIENTTAG_WWOL_UINT, ''Westwood Online'')]"

definition clienttag_get_title :: "u32 \<Rightarrow> cstring" where
  "clienttag_get_title k = switch_table clienttag_get_title_cases ''Unknown'' k"

definition tag_check_arch :: "u32 \<Rightarrow> bool" where
  "tag_check_arch tag_uint \<longleftrightarrow> tag_uint \<in> set [
    ARCHTAG_WINX86_UINT, ARCHTAG_MACPPC_UINT, ARCHTAG_OSXPPC_UINT]"

definition tag_check_client :: "u32 \<Rightarrow> bool" where
  "tag_check_client tag_uint \<longleftrightarrow> tag_uint \<in> set [
    CLIENTTAG_BNCHATBOT_UINT, CLIENTTAG_STARCRAFT_UINT, CLIENTTAG_BROODWARS_UINT, CLIENTTAG_SHAREWARE_UINT,
    CLIENTTAG_DIABLORTL_UINT, CLIENTTAG_DIABLOSHR_UINT, CLIENTTAG_WARCIIBNE_UINT, CLIENTTAG_DIABLO2DV_UINT,
    CLIENTTAG_STARJAPAN_UINT, CLIENTTAG_DIABLO2ST_UINT, CLIENTTAG_DIABLO2XP_UINT, CLIENTTAG_WARCRAFT3_UINT,
    CLIENTTAG_WAR3XP_UINT, CLIENTTAG_IIRC_UINT, CLIENTTAG_WCHAT_UINT, CLIENTTAG_TIBERNSUN_UINT,
    CLIENTTAG_TIBSUNXP_UINT, CLIENTTAG_REDALERT_UINT, CLIENTTAG_REDALERT2_UINT, CLIENTTAG_DUNE2000_UINT,
    CLIENTTAG_NOX_UINT, CLIENTTAG_NOXQUEST_UINT, CLIENTTAG_RENEGADE_UINT, CLIENTTAG_RENGDFDS_UINT,
    CLIENTTAG_YURISREV_UINT, CLIENTTAG_EMPERORBD_UINT, CLIENTTAG_LOFLORE3_UINT, CLIENTTAG_WWOL_UINT]"

definition tag_check_gamelang :: "u32 \<Rightarrow> bool" where
  "tag_check_gamelang gamelang \<longleftrightarrow> gamelang \<in> set [
    GAMELANG_ENGLISH_UINT, GAMELANG_GERMAN_UINT, GAMELANG_CZECH_UINT, GAMELANG_SPANISH_UINT,
    GAMELANG_FRENCH_UINT, GAMELANG_ITALIAN_UINT, GAMELANG_JAPANESE_UINT, GAMELANG_KOREAN_UINT,
    GAMELANG_POLISH_UINT, GAMELANG_RUSSIAN_UINT, GAMELANG_CHINESE_S_UINT, GAMELANG_CHINESE_T_UINT]"

definition tag_check_wolv1 :: "u32 \<Rightarrow> bool" where
  "tag_check_wolv1 tag_uint \<longleftrightarrow> tag_uint \<in> set [
    CLIENTTAG_WCHAT_UINT]"

definition tag_check_wolv2 :: "u32 \<Rightarrow> bool" where
  "tag_check_wolv2 tag_uint \<longleftrightarrow> tag_uint \<in> set [
    CLIENTTAG_TIBERNSUN_UINT, CLIENTTAG_TIBSUNXP_UINT, CLIENTTAG_REDALERT_UINT, CLIENTTAG_REDALERT2_UINT,
    CLIENTTAG_DUNE2000_UINT, CLIENTTAG_NOX_UINT, CLIENTTAG_NOXQUEST_UINT, CLIENTTAG_RENEGADE_UINT,
    CLIENTTAG_RENGDFDS_UINT, CLIENTTAG_YURISREV_UINT, CLIENTTAG_EMPERORBD_UINT, CLIENTTAG_LOFLORE3_UINT,
    CLIENTTAG_WWOL_UINT]"

definition tag_sku_cases :: "(int \<times> u32) list" where
  "tag_sku_cases = [
    (1000, CLIENTTAG_WCHAT_UINT), (1003, CLIENTTAG_WCHAT_UINT), (1005, CLIENTTAG_WCHAT_UINT),
    (1006, CLIENTTAG_WCHAT_UINT), (1007, CLIENTTAG_WCHAT_UINT), (1008, CLIENTTAG_WCHAT_UINT),
    (1040, CLIENTTAG_WCHAT_UINT), (3072, CLIENTTAG_RENEGADE_UINT), (3074, CLIENTTAG_RENEGADE_UINT),
    (3075, CLIENTTAG_RENEGADE_UINT), (3078, CLIENTTAG_RENEGADE_UINT), (3081, CLIENTTAG_RENEGADE_UINT),
    (3082, CLIENTTAG_RENEGADE_UINT), (3584, CLIENTTAG_DUNE2000_UINT), (3586, CLIENTTAG_DUNE2000_UINT),
    (3587, CLIENTTAG_DUNE2000_UINT), (3589, CLIENTTAG_DUNE2000_UINT), (3591, CLIENTTAG_DUNE2000_UINT),
    (4096, CLIENTTAG_NOX_UINT), (4098, CLIENTTAG_NOX_UINT), (4099, CLIENTTAG_NOX_UINT),
    (4101, CLIENTTAG_NOX_UINT), (4102, CLIENTTAG_NOX_UINT), (4105, CLIENTTAG_NOX_UINT),
    (4608, CLIENTTAG_TIBERNSUN_UINT), (4610, CLIENTTAG_TIBERNSUN_UINT), (4611, CLIENTTAG_TIBERNSUN_UINT),
    (4615, CLIENTTAG_TIBERNSUN_UINT), (5376, CLIENTTAG_REDALERT_UINT), (5378, CLIENTTAG_REDALERT_UINT),
    (5379, CLIENTTAG_REDALERT_UINT), (6400, CLIENTTAG_LOFLORE3_UINT), (6401, CLIENTTAG_LOFLORE3_UINT),
    (6402, CLIENTTAG_LOFLORE3_UINT), (6403, CLIENTTAG_LOFLORE3_UINT), (6405, CLIENTTAG_LOFLORE3_UINT),
    (7168, CLIENTTAG_TIBSUNXP_UINT), (7170, CLIENTTAG_TIBSUNXP_UINT), (7171, CLIENTTAG_TIBSUNXP_UINT),
    (7175, CLIENTTAG_TIBSUNXP_UINT), (7424, CLIENTTAG_TIBSUNXP_UINT), (7426, CLIENTTAG_TIBSUNXP_UINT),
    (7427, CLIENTTAG_TIBSUNXP_UINT), (7431, CLIENTTAG_TIBSUNXP_UINT), (7936, CLIENTTAG_EMPERORBD_UINT),
    (7938, CLIENTTAG_EMPERORBD_UINT), (7939, CLIENTTAG_EMPERORBD_UINT), (7945, CLIENTTAG_EMPERORBD_UINT),
    (7946, CLIENTTAG_EMPERORBD_UINT), (8448, CLIENTTAG_REDALERT2_UINT), (8450, CLIENTTAG_REDALERT2_UINT),
    (8451, CLIENTTAG_REDALERT2_UINT), (8457, CLIENTTAG_REDALERT2_UINT), (8458, CLIENTTAG_REDALERT2_UINT),
    (8960, CLIENTTAG_REDALERT2_UINT), (8962, CLIENTTAG_REDALERT2_UINT), (8963, CLIENTTAG_REDALERT2_UINT),
    (8969, CLIENTTAG_REDALERT2_UINT), (8970, CLIENTTAG_REDALERT2_UINT), (9472, CLIENTTAG_NOXQUEST_UINT),
    (9474, CLIENTTAG_NOXQUEST_UINT), (9475, CLIENTTAG_NOXQUEST_UINT), (9477, CLIENTTAG_NOXQUEST_UINT),
    (9478, CLIENTTAG_NOXQUEST_UINT), (9481, CLIENTTAG_NOXQUEST_UINT), (10496, CLIENTTAG_YURISREV_UINT),
    (10498, CLIENTTAG_YURISREV_UINT), (10499, CLIENTTAG_YURISREV_UINT), (10505, CLIENTTAG_YURISREV_UINT),
    (10506, CLIENTTAG_YURISREV_UINT), (12288, CLIENTTAG_RENGDFDS_UINT), (32512, CLIENTTAG_WWOL_UINT)]"

definition tag_sku_to_uint :: "int \<Rightarrow> u32" where
  "tag_sku_to_uint sku = (if sku = 0 then CLIENTTAG_UNKNOWN_UINT else switch_table tag_sku_cases CLIENTTAG_WWOL_UINT sku)"

definition tag_channeltype_cases :: "(int \<times> u32) list" where
  "tag_channeltype_cases = [
    (0, CLIENTTAG_WCHAT_UINT), (1, CLIENTTAG_WCHAT_UINT), (2, CLIENTTAG_WCHAT_UINT), (3, CLIENTTAG_WCHAT_UINT),
    (4, CLIENTTAG_WCHAT_UINT), (5, CLIENTTAG_WCHAT_UINT), (12, CLIENTTAG_RENEGADE_UINT),
    (14, CLIENTTAG_DUNE2000_UINT), (16, CLIENTTAG_NOX_UINT), (18, CLIENTTAG_TIBERNSUN_UINT),
    (21, CLIENTTAG_REDALERT_UINT), (31, CLIENTTAG_EMPERORBD_UINT), (33, CLIENTTAG_REDALERT2_UINT),
    (37, CLIENTTAG_NOXQUEST_UINT), (38, CLIENTTAG_WWOL_UINT), (39, CLIENTTAG_WWOL_UINT),
    (40, CLIENTTAG_WWOL_UINT), (41, CLIENTTAG_YURISREV_UINT)]"

definition tag_channeltype_to_uint :: "int \<Rightarrow> u32" where
  "tag_channeltype_to_uint channeltype =
     (if channeltype = 0 then CLIENTTAG_UNKNOWN_UINT else switch_table tag_channeltype_cases CLIENTTAG_WWOL_UINT channeltype)"

definition tag_wol_locale_cases :: "(int \<times> u32) list" where
  "tag_wol_locale_cases = [
    (0, GAMELANG_ENGLISH_UINT), (1, GAMELANG_ENGLISH_UINT), (2, GAMELANG_ENGLISH_UINT),
    (5, GAMELANG_GERMAN_UINT), (6, GAMELANG_FRENCH_UINT), (7, GAMELANG_SPANISH_UINT),
    (12, GAMELANG_ITALIAN_UINT), (19, GAMELANG_JAPANESE_UINT), (20, GAMELANG_KOREAN_UINT),
    (21, GAMELANG_CHINESE_S_UINT), (33, GAMELANG_POLISH_UINT), (36, GAMELANG_RUSSIAN_UINT)]"

definition tag_wol_locale_to_uint :: "int \<Rightarrow> u32" where
  "tag_wol_locale_to_uint locale = switch_table tag_wol_locale_cases GAMELANG_ENGLISH_UINT locale"

section \<open>Lists of clients\<close>

lemma item_shorter: "c \<in> set p \<Longrightarrow> length (takeWhile (\<lambda>d. d \<noteq> c) p) < length p"
  by (induction p) auto

lemma rest_shorter: "c \<in> set p \<Longrightarrow> length (tl (dropWhile (\<lambda>d. d \<noteq> c) p)) < length p"
  by (induction p) (auto simp: less_Suc_eq)

text \<open>
  The loop of \<open>tag_check_in_list\<close> at \<open>p\<close>. \<open>strchr\<close> finds the next comma, which is overwritten by a NUL.
  The \<open>continue\<close> for an item that has not four characters jumps to the test of the loop without
  advancing \<open>p\<close>: the next round sees the item alone, without a comma.
\<close>

function tag_list_loop :: "u32 \<Rightarrow> cstring \<Rightarrow> int option" where
  "tag_list_loop clienttag p =
     (let item = takeWhile (\<lambda>c. c \<noteq> CHR '','') p; q = CHR '','' \<in> set p
      in if strcaseeq item ''all'' then Some 0
         else if length item \<noteq> 4 then (if q then tag_list_loop clienttag item else Some (-1))
         else case tag_case_str_to_uint item of
             None \<Rightarrow> None
           | Some t \<Rightarrow> if clienttag = t then Some 0
               else if q then tag_list_loop clienttag (tl (dropWhile (\<lambda>c. c \<noteq> CHR '','') p)) else Some (-1))"
  by pat_completeness auto

termination
  by (relation "measure (\<lambda>(_, p). length p)") (auto simp: item_shorter rest_shorter simp del: length_tl)

declare tag_list_loop.simps [simp del]

definition tag_check_in_list :: "u32 \<Rightarrow> cstring option \<Rightarrow> int option" where
  "tag_check_in_list clienttag lst = (case lst of None \<Rightarrow> Some 0
     | Some s \<Rightarrow> if strcaseeq s ''all'' then Some 0 else tag_list_loop clienttag s)"

section \<open>Round trips\<close>

definition tag_text :: "cstring \<Rightarrow> bool" where
  "tag_text s \<longleftrightarrow> length s = 4 \<and> list_all (\<lambda>c. 0 < (of_char c :: nat) \<and> (of_char c :: nat) < 128) s"

definition char_byte :: "char \<Rightarrow> u8" where
  "char_byte c = word_of_nat (of_char c)"

lemma char_of_byte: "char_of (unat (char_byte c)) = c"
  using nat_of_char_less_256 [of c] by (simp add: char_byte_def unsigned_of_nat take_bit_nat_eq_self)

lemma schar_byte: "(of_char c :: nat) < 128 \<Longrightarrow> word_of_int (schar c) = (ucast (char_byte c) :: u32)"
proof -
  assume a: "(of_char c :: nat) < 128"
  have i: "int (of_char c) = of_char c" by (rule of_nat_of_char)
  have "schar c = int (of_char c)" using a i by (simp add: schar_def Let_def)
  moreover have "ucast (char_byte c) = (word_of_nat (of_char c) :: u32)"
    using a by (simp add: char_byte_def unsigned_word_eqI unsigned_ucast_eq unsigned_of_nat take_bit_nat_eq_self word_unat_eq_iff)
  ultimately show ?thesis by simp
qed

abbreviation pack :: "u8 \<Rightarrow> u8 \<Rightarrow> u8 \<Rightarrow> u8 \<Rightarrow> u32" where
  "pack a b c d \<equiv> push_bit 24 (ucast a) OR push_bit 16 (ucast b) OR push_bit 8 (ucast c) OR ucast d"

lemma unpack:
  "ucast (drop_bit 24 (pack a b c d)) = a" "ucast (drop_bit 16 (pack a b c d)) = b"
  "ucast (drop_bit 8 (pack a b c d)) = c" "ucast (drop_bit 0 (pack a b c d)) = d"
  by (rule bit_word_eqI; auto simp: bit_simps dest: bit_imp_le_length)+

lemma tag_str_pack:
  "tag_text s \<Longrightarrow> tag_str_to_uint (Some s) = Some (pack (char_byte (s ! 0)) (char_byte (s ! 1)) (char_byte (s ! 2)) (char_byte (s ! 3)))"
  by (auto simp: tag_text_def tag_str_to_uint_def tag_char_def list_all_length schar_byte)

lemma tag_str_read:
  assumes "tag_text s"
  shows "\<exists>t. tag_str_to_uint (Some s) = Some t \<and> tag_uint_to_str t = s \<and> tag_uint_to_revstr t = rev s"
proof -
  obtain a b c d where s: "s = [a, b, c, d]" using assms
    by (auto simp: tag_text_def numeral_eq_Suc length_Suc_conv)
  let ?t = "pack (char_byte a) (char_byte b) (char_byte c) (char_byte d)"
  have nz: "x \<noteq> CHR 0x00" if "x \<in> set s" for x using assms that by (auto simp: tag_text_def list_all_iff)
  have byte: "tag_byte ?t 24 = a" "tag_byte ?t 16 = b" "tag_byte ?t 8 = c" "tag_byte ?t 0 = d"
    unfolding tag_byte_def unpack char_of_byte by (rule refl)+
  have "?t \<noteq> 0"
  proof
    assume "?t = 0"
    then have "tag_byte ?t 24 = CHR 0x00" by (simp add: tag_byte_def char_of_def)
    then show False using byte(1) nz [of a] by (simp add: s)
  qed
  then have "tag_uint_to_str ?t = s" "tag_uint_to_revstr ?t = rev s"
    unfolding tag_uint_to_str_def tag_uint_to_revstr_def byte using nz by (simp_all add: s c_str_def)
  then show ?thesis using tag_str_pack [OF assms] by (auto simp: s)
qed

section \<open>The items of a list\<close>

fun comma_items :: "cstring \<Rightarrow> cstring list" where
  "comma_items [] = [[]]"
| "comma_items (c # cs) = (if c = CHR '','' then [] # comma_items cs
     else case comma_items cs of [] \<Rightarrow> [[c]] | f # fs \<Rightarrow> (c # f) # fs)"

lemma comma_items_step:
  "comma_items p = takeWhile (\<lambda>c. c \<noteq> CHR '','') p #
     (if CHR '','' \<in> set p then comma_items (tl (dropWhile (\<lambda>c. c \<noteq> CHR '','') p)) else [])"
  by (induction p) auto

definition tag_item :: "cstring \<Rightarrow> bool" where
  "tag_item i \<longleftrightarrow> strcaseeq i ''all'' \<or> length i = 4"

definition item_names :: "u32 \<Rightarrow> cstring \<Rightarrow> bool" where
  "item_names t i \<longleftrightarrow> strcaseeq i ''all'' \<or> tag_case_str_to_uint i = Some t"

lemma tag_case_four: "length i = 4 \<Longrightarrow> \<exists>t. tag_case_str_to_uint i = Some t"
  by (simp add: tag_case_str_to_uint_def tag_str_to_uint_def tag_char_def)

lemma item_no_comma: "takeWhile (\<lambda>c. c \<noteq> CHR '','') (takeWhile (\<lambda>c. c \<noteq> CHR '','') p) = takeWhile (\<lambda>c. c \<noteq> CHR '','') p"
  "CHR '','' \<notin> set (takeWhile (\<lambda>c. c \<noteq> CHR '','') p)"
  by (auto simp: takeWhile_idem dest: set_takeWhileD)

lemma tag_list_bad:
  "\<not> tag_item (takeWhile (\<lambda>c. c \<noteq> CHR '','') p) \<Longrightarrow> tag_list_loop clienttag p = Some (-1)"
  using item_no_comma [of p]
  by (subst tag_list_loop.simps) (simp add: tag_item_def Let_def tag_list_loop.simps [of clienttag "takeWhile _ _"])

lemma tag_list_loop_items:
  "tag_list_loop t p = Some (if list_ex (item_names t) (takeWhile tag_item (comma_items p)) then 0 else -1)"
proof (induction "length p" arbitrary: p rule: less_induct)
  case less
  let ?i = "takeWhile (\<lambda>c. c \<noteq> CHR '','') p" and ?r = "tl (dropWhile (\<lambda>c. c \<noteq> CHR '','') p)"
  show ?case
  proof (cases "tag_item ?i")
    case False
    then show ?thesis using tag_list_bad [of p t] by (simp add: comma_items_step [of p])
  next
    case True
    show ?thesis
    proof (cases "strcaseeq ?i ''all''")
      case True
      then show ?thesis
        using \<open>tag_item ?i\<close> by (subst tag_list_loop.simps) (simp add: comma_items_step [of p] item_names_def)
    next
      case False
      then have l: "length ?i = 4" using \<open>tag_item ?i\<close> by (simp add: tag_item_def)
      then obtain u where u: "tag_case_str_to_uint ?i = Some u" using tag_case_four by blast
      have names: "item_names t ?i \<longleftrightarrow> t = u" using False u by (auto simp: item_names_def)
      show ?thesis
      proof (cases "CHR '','' \<in> set p")
        case True
        have "tag_list_loop t p = (if t = u then Some 0 else tag_list_loop t ?r)"
          using False l u True by (subst tag_list_loop.simps) (simp add: Let_def)
        then show ?thesis
          using less [of ?r] rest_shorter [OF True] names \<open>tag_item ?i\<close> True
          by (subst comma_items_step) (simp del: length_tl)
      next
        case nc: False
        have "tag_list_loop t p = (if t = u then Some 0 else Some (-1))"
          using False l u nc by (subst tag_list_loop.simps) (simp add: Let_def)
        then show ?thesis using names \<open>tag_item ?i\<close> nc by (subst comma_items_step) simp
      qed
    qed
  qed
qed

section \<open>Properties\<close>

text \<open>
  Tags and their texts agree: four characters (of seven bits, not NUL) are packed into a tag that
  \<open>tag_uint_to_str\<close> prints back and \<open>tag_uint_to_revstr\<close> prints reversed; the table of
  \<open>clienttag_uint_to_str\<close> is exactly this conversion on the known clients, and \<open>tag_check_client\<close>
  accepts exactly the clients the table knows.
\<close>

lemma tag_text_roundtrip:
  assumes "tag_text s"
  shows "\<exists>t. tag_str_to_uint (Some s) = Some t \<and> tag_uint_to_str t = s \<and> tag_uint_to_revstr t = rev s
    \<and> (tag_check_client t \<longleftrightarrow> clienttag_uint_to_str t \<noteq> ''UNKN'')
    \<and> (if tag_check_client t then clienttag_uint_to_str t = s else clienttag_uint_to_str t = ''UNKN'')"
proof -
  obtain t where t: "tag_str_to_uint (Some s) = Some t" "tag_uint_to_str t = s" "tag_uint_to_revstr t = rev s"
    using tag_str_read [OF assms] by blast
  have dom: "set (map fst clienttag_uint_to_str_cases) = {t. tag_check_client t}"
    by (simp only: clienttag_uint_to_str_cases_def tag_check_client_def list.map fst_conv Collect_mem_eq)
  have printed: "list_all (\<lambda>(k, v). tag_uint_to_str k = v \<and> v \<noteq> ''UNKN'') clienttag_uint_to_str_cases" by code_simp
  show ?thesis
  proof (cases "map_of clienttag_uint_to_str_cases t")
    case None
    then have "\<not> tag_check_client t" using dom by (auto simp: map_of_eq_None_iff)
    then show ?thesis using t None by (auto simp: clienttag_uint_to_str_def switch_table_def)
  next
    case (Some v)
    then have m: "(t, v) \<in> set clienttag_uint_to_str_cases" by (rule map_of_SomeD)
    then have "t \<in> set (map fst clienttag_uint_to_str_cases)" by force
    then have "tag_check_client t" unfolding dom by simp
    then show ?thesis using t Some m printed by (auto simp: clienttag_uint_to_str_def switch_table_def list_all_iff)
  qed
qed

lemma tag_text_roundtrip_witness:
  "\<exists>t. tag_str_to_uint (Some ''W3XP'') = Some t \<and> tag_uint_to_str t = ''W3XP'' \<and> tag_uint_to_revstr t = ''PX3W''
    \<and> (tag_check_client t \<longleftrightarrow> clienttag_uint_to_str t \<noteq> ''UNKN'')"
  using tag_text_roundtrip [of "''W3XP''"] by (auto simp: tag_text_def)

text \<open>
  The test for a client in a comma separated list, for every string: it always returns, and its
  answer is given by the items before the first malformed one (neither \<open>all\<close> nor four characters long).
  The client is allowed if one of these items is \<open>all\<close> or names it, in any case; what stands behind a
  malformed item does not count.
\<close>

lemma tag_list_exact:
  "tag_check_in_list clienttag (Some s)
   = Some (if list_ex (item_names clienttag) (takeWhile tag_item (comma_items s)) then 0 else -1)"
proof (cases "strcaseeq s ''all''")
  case True
  then have m: "map c_tolower s = ''all''" by (simp add: strcaseeq_iff c_tolower_def c_isupper_def)
  have "CHR '','' \<notin> set s"
  proof
    assume "CHR '','' \<in> set s"
    then have "c_tolower CHR '','' \<in> set (map c_tolower s)" by simp
    then show False unfolding m by (simp add: c_tolower_def c_isupper_def)
  qed
  then have "comma_items s = [s]" by (subst comma_items_step) (auto simp: takeWhile_eq_all_conv)
  then show ?thesis using True by (simp add: tag_check_in_list_def tag_item_def item_names_def)
qed (simp add: tag_check_in_list_def tag_list_loop_items)

text \<open>An item with a blank ends the list: Brood War is not allowed by a list that names it.\<close>

lemma tag_list_stops:
  "tag_check_in_list CLIENTTAG_BROODWARS_UINT (Some ''W2BN, STAR,SEXP'') = Some (-1)"
  unfolding tag_check_in_list_def tag_list_loop_items by code_simp

lemma tag_char_sign:
  "map_option tag_uint_to_str (tag_str_to_uint (Some [CHR ''a'', CHR ''b'', CHR ''c'', CHR 0xE4]))
     = Some [CHR 0xFF, CHR 0xFF, CHR 0xFF, CHR 0xE4]"
  by code_simp

lemma tag_channel_zero:
  "tag_channeltype_to_uint 0 = CLIENTTAG_UNKNOWN_UINT \<and> (0, CLIENTTAG_WCHAT_UINT) \<in> set tag_channeltype_cases"
  by (simp add: tag_channeltype_to_uint_def tag_channeltype_cases_def)

end
