(* ===== verification/Channels.thy ===== *)
theory Channels
  imports Str_Util Client_Tag
begin

text \<open>
  \<^verbatim>\<open>bnetd/channel.cpp\<close>, with the part of \<^verbatim>\<open>bnetd/connection.cpp\<close> that puts connections into channels
  and takes them out. The state holds the connections (the fields of \<open>t_connection\<close> the channels read
  or write), the channels at their addresses, the channel list, and the calls made into components
  that are not modelled (messages, the game and clan modules), in order. \<open>None\<close> is an access through
  a dangling or NULL pointer, or a call that does not return.

  \<^verbatim>\<open>channellist_head\<close> is taken after \<open>channellist_create\<close>; the lists \<open>memberlist\<close> and \<open>banlist\<close> are HOL
  lists, and the static cursor \<open>memberlist_curr\<close> is the traversal of the first. The environment gives
  the results of the account, clan, realm and message modules.
\<close>

datatype conn_class = conn_class_init | conn_class_bnet | conn_class_file | conn_class_bot
  | conn_class_telnet | conn_class_ircinit | conn_class_irc | conn_class_wol | conn_class_wserv
  | conn_class_wgameres | conn_class_wladder | conn_class_apireg | conn_class_d2cs_bnetd
  | conn_class_w3route | conn_class_none

datatype t_message_type = message_type_adduser | message_type_join | message_type_part
  | message_type_whisper | message_type_talk | message_type_broadcast | message_type_channel
  | message_type_userflags | message_type_whisperack | message_type_friendwhisperack | message_type_channelfull
  | message_type_channeldoesnotexist | message_type_channelrestricted | message_type_info | message_type_error
  | message_type_emote | message_type_uniqueid | message_type_mode | message_type_kick | message_type_quit
  | message_type_nick | message_type_notice | message_type_namreply | message_type_topic
  | message_type_host | message_type_invmsg | message_type_page | message_wol_joingame | message_type_gameopt_talk
  | message_type_gameopt_whisper | message_wol_start_game | message_wol_advertr | message_wol_chanchk
  | message_wol_userip | message_type_null

record t_connection =
  c_class :: conn_class
  c_account :: "nat option"
  c_channel :: "nat option"
  c_tmpOP_channel :: "cstring option"
  c_tmpVOICE_channel :: "cstring option"
  c_ignore_list :: "nat list"
  c_clienttag :: u32
  c_game :: bool
  c_flags :: u32

record t_channel =
  ch_name :: cstring
  ch_shortname :: "cstring option"
  ch_country :: "cstring option"
  ch_realmname :: "cstring option"
  ch_flags :: u32
  ch_maxmembers :: int
  ch_currmembers :: int
  ch_clienttag :: u32
  ch_id :: u32
  ch_memberlist :: "nat list"
  ch_banlist :: "cstring list"
  ch_logname :: bool
  ch_log :: bool
  ch_minmembers :: int
  ch_gameType :: int
  ch_gameExtension :: "cstring option"

datatype call =
    Msg t_message_type nat nat "cstring option"
  | Log nat nat bool "cstring option"
  | Game_del_player nat
  | Reset_whisper_acks nat
  | Send_welcome nat
  | Clan_status_change nat

record cstate =
  s_conns :: "nat \<Rightarrow> t_connection option"
  s_chans :: "nat \<Rightarrow> t_channel option"
  s_list :: "nat list"
  s_next :: nat
  s_totalcount :: u32
  s_calls :: "call list"

record chan_env =
  account_match :: "nat \<Rightarrow> cstring \<Rightarrow> int"
  boolattr :: "nat \<Rightarrow> cstring \<Rightarrow> int"
  find_account :: "cstring \<Rightarrow> nat option"
  chatname :: "nat \<Rightarrow> cstring option"
  country_of :: "nat \<Rightarrow> cstring option"
  realm_of :: "nat \<Rightarrow> cstring option"
  send_ok :: "t_message_type \<Rightarrow> nat \<Rightarrow> bool"
  log_opens :: bool
  clan_of :: "nat \<Rightarrow> u32 option"
  clan_private :: "u32 \<Rightarrow> bool"
  clan_shaman :: "nat \<Rightarrow> bool"
  clan_motd :: "u32 \<Rightarrow> cstring"
  topic_of :: "cstring \<Rightarrow> cstring option"
  prefs_chanlog :: bool
  prefs_maxusers_per_channel :: int
  tag_of :: "cstring \<Rightarrow> u32"
  uninitialised :: int

section \<open>Flags, names, accounts\<close>

definition channel_flags_public :: u32 where "channel_flags_public = 0x01"
definition channel_flags_moderated :: u32 where "channel_flags_moderated = 0x02"
definition channel_flags_thevoid :: u32 where "channel_flags_thevoid = 0x08"
definition channel_flags_system :: u32 where "channel_flags_system = 0x10"
definition channel_flags_permanent :: u32 where "channel_flags_permanent = 0x40"
definition channel_flags_allowbots :: u32 where "channel_flags_allowbots = 0x80"
definition channel_flags_allowopers :: u32 where "channel_flags_allowopers = 0x100"
definition channel_flags_clan :: u32 where "channel_flags_clan = 0x200"
definition channel_flags_autoname :: u32 where "channel_flags_autoname = 0x400"

lemmas channel_flag_defs = channel_flags_public_def channel_flags_moderated_def channel_flags_thevoid_def
  channel_flags_system_def channel_flags_permanent_def channel_flags_allowbots_def
  channel_flags_allowopers_def channel_flags_clan_def channel_flags_autoname_def

definition has_flag :: "t_channel \<Rightarrow> u32 \<Rightarrow> bool" where
  "has_flag ch fl \<longleftrightarrow> ch_flags ch AND fl \<noteq> 0"

definition flag_if :: "bool \<Rightarrow> u32 \<Rightarrow> u32" where
  "flag_if b fl = (if b then fl else 0)"

definition CHANNEL_NAME_BANNED :: cstring where "CHANNEL_NAME_BANNED = ''THE VOID''"
definition CHANNEL_NAME_KICKED :: cstring where "CHANNEL_NAME_KICKED = ''THE VOID''"

definition get_boolattr :: "chan_env \<Rightarrow> nat option \<Rightarrow> cstring \<Rightarrow> int" where
  "get_boolattr env acc key = (case acc of None \<Rightarrow> -1 | Some a \<Rightarrow> boolattr env a key)"

definition auth_key :: "cstring \<Rightarrow> cstring option \<Rightarrow> cstring" where
  "auth_key what channelname = ''BNET'' @ [CHR 0x5C] @ ''auth'' @ [CHR 0x5C] @ what
     @ (case channelname of None \<Rightarrow> '''' | Some n \<Rightarrow> [CHR 0x5C] @ take 100 n)"

definition account_get_auth_admin :: "chan_env \<Rightarrow> nat option \<Rightarrow> cstring option \<Rightarrow> int" where
  "account_get_auth_admin env acc channelname = get_boolattr env acc (auth_key ''admin'' channelname)"

definition account_get_auth_operator :: "chan_env \<Rightarrow> nat option \<Rightarrow> cstring option \<Rightarrow> int" where
  "account_get_auth_operator env acc channelname = get_boolattr env acc (auth_key ''operator'' channelname)"

definition account_get_auth_voice :: "chan_env \<Rightarrow> nat option \<Rightarrow> cstring \<Rightarrow> int" where
  "account_get_auth_voice env acc channelname = get_boolattr env acc (auth_key ''voice'' (Some channelname))"

definition account_get_auth_mute :: "chan_env \<Rightarrow> nat option \<Rightarrow> int" where
  "account_get_auth_mute env acc = get_boolattr env acc (auth_key ''mute'' None)"

definition account_is_operator_or_admin :: "chan_env \<Rightarrow> nat option \<Rightarrow> cstring \<Rightarrow> int" where
  "account_is_operator_or_admin env acc channel =
     (if account_get_auth_operator env acc (Some channel) = 1 \<or> account_get_auth_operator env acc None = 1
         \<or> account_get_auth_admin env acc (Some channel) = 1 \<or> account_get_auth_admin env acc None = 1
      then 1 else 0)"

section \<open>Connections\<close>

definition upd_conn :: "cstate \<Rightarrow> nat \<Rightarrow> (t_connection \<Rightarrow> t_connection) \<Rightarrow> cstate option" where
  "upd_conn s c f = do { cn \<leftarrow> s_conns s c; Some (s\<lparr>s_conns := (s_conns s)(c \<mapsto> f cn)\<rparr>) }"

definition upd_chan :: "cstate \<Rightarrow> nat \<Rightarrow> (t_channel \<Rightarrow> t_channel) \<Rightarrow> cstate option" where
  "upd_chan s a f = do { ch \<leftarrow> s_chans s a; Some (s\<lparr>s_chans := (s_chans s)(a \<mapsto> f ch)\<rparr>) }"

definition emit :: "call list \<Rightarrow> cstate \<Rightarrow> cstate" where
  "emit evs s = s\<lparr>s_calls := s_calls s @ evs\<rparr>"

definition conn_match :: "chan_env \<Rightarrow> t_connection \<Rightarrow> cstring \<Rightarrow> int" where
  "conn_match env cn un = (case c_account cn of None \<Rightarrow> 0 | Some a \<Rightarrow> account_match env a un)"

definition conn_check_ignoring :: "chan_env \<Rightarrow> t_connection \<Rightarrow> cstring option \<Rightarrow> int" where
  "conn_check_ignoring env cn me = (case me of None \<Rightarrow> -1 | Some m \<Rightarrow>
     (case find_account env m of None \<Rightarrow> -1
      | Some temp \<Rightarrow> if temp \<in> set (c_ignore_list cn) then 1 else 0))"

definition conn_is_irc_variant :: "t_connection \<Rightarrow> bool" where
  "conn_is_irc_variant cn \<longleftrightarrow> c_class cn = conn_class_irc \<or> c_class cn = conn_class_wol
     \<or> c_class cn = conn_class_wserv \<or> c_class cn = conn_class_wladder"

definition conn_get_wol :: "t_connection \<Rightarrow> bool" where
  "conn_get_wol cn \<longleftrightarrow> c_class cn = conn_class_wol"


definition conn_get_clienttag :: "t_connection \<Rightarrow> u32" where
  "conn_get_clienttag cn = (if c_clienttag cn = 0 then CLIENTTAG_UNKNOWN_UINT else c_clienttag cn)"

definition conn_set_tmpOP_channel :: "cstate \<Rightarrow> nat \<Rightarrow> cstring option \<Rightarrow> cstate option" where
  "conn_set_tmpOP_channel s c name = upd_conn s c (c_tmpOP_channel_update (\<lambda>_. name))"

definition conn_set_tmpVOICE_channel :: "cstate \<Rightarrow> nat \<Rightarrow> cstring option \<Rightarrow> cstate option" where
  "conn_set_tmpVOICE_channel s c name = upd_conn s c (c_tmpVOICE_channel_update (\<lambda>_. name))"

definition channel_conn_is_tmpOP :: "t_channel \<Rightarrow> t_connection \<Rightarrow> bool" where
  "channel_conn_is_tmpOP ch cn \<longleftrightarrow> c_tmpOP_channel cn = Some (ch_name ch)"

definition channel_conn_has_tmpVOICE :: "t_channel \<Rightarrow> t_connection \<Rightarrow> bool" where
  "channel_conn_has_tmpVOICE ch cn \<longleftrightarrow> c_tmpVOICE_channel cn = Some (ch_name ch)"

section \<open>Messages\<close>

text \<open>\<open>message_send\<close> hands a message to the queue of \<open>dst\<close>; the environment says when it can.\<close>

definition message_send :: "chan_env \<Rightarrow> t_message_type \<Rightarrow> nat \<Rightarrow> cstring option \<Rightarrow> nat \<Rightarrow> cstate \<Rightarrow> cstate" where
  "message_send env type src txt dst s = (if send_ok env type dst then emit [Msg type src dst txt] s else s)"

definition message_send_text :: "chan_env \<Rightarrow> nat \<Rightarrow> t_message_type \<Rightarrow> nat \<Rightarrow> cstring option \<Rightarrow> cstate \<Rightarrow> cstate" where
  "message_send_text env dst type src txt s = message_send env type src txt dst s"

definition channel_message_log :: "nat \<Rightarrow> nat \<Rightarrow> bool \<Rightarrow> cstring option \<Rightarrow> cstate \<Rightarrow> cstate option" where
  "channel_message_log a me fromuser txt s = do {
     ch \<leftarrow> s_chans s a;
     Some (if ch_log ch then emit [Log a me fromuser txt] s else s) }"

text \<open>The decision of the member loop of \<open>channel_message_send\<close> for one member \<open>c\<close>.\<close>

definition skip_member :: "chan_env \<Rightarrow> t_channel \<Rightarrow> t_message_type \<Rightarrow> nat \<Rightarrow> cstring option \<Rightarrow> nat \<Rightarrow> t_connection \<Rightarrow> bool" where
  "skip_member env ch type me tname c cn =
     (if c = me \<and> (type = message_type_talk \<or> type = message_type_gameopt_talk) then True
      else if c = me \<and> \<not> conn_is_irc_variant cn \<and> type = message_type_part then True
      else if c \<noteq> me \<and> \<not> conn_is_irc_variant cn \<and> has_flag ch channel_flags_thevoid
              \<and> (type = message_type_join \<or> type = message_type_part) then True
      else (type = message_type_talk \<or> type = message_type_whisper \<or> type = message_type_emote
            \<or> type = message_type_broadcast) \<and> conn_check_ignoring env cn tname = 1)"

fun send_members ::
  "chan_env \<Rightarrow> t_channel \<Rightarrow> t_message_type \<Rightarrow> nat \<Rightarrow> cstring option \<Rightarrow> cstring option \<Rightarrow> nat list \<Rightarrow> bool \<Rightarrow> cstate
   \<Rightarrow> (bool \<times> cstate) option" where
  "send_members env ch type me tname txt [] heard s = Some (heard, s)"
| "send_members env ch type me tname txt (c # cs) heard s = do {
     cn \<leftarrow> s_conns s c;
     if skip_member env ch type me tname c cn then send_members env ch type me tname txt cs heard s
     else send_members env ch type me tname txt cs (heard \<or> (send_ok env type c \<and> c \<noteq> me))
            (message_send env type me txt c s) }"

definition channel_message_send ::
  "chan_env \<Rightarrow> nat \<Rightarrow> t_message_type \<Rightarrow> nat \<Rightarrow> cstring option \<Rightarrow> cstate \<Rightarrow> cstate option" where
  "channel_message_send env a type me txt s = do {
     ch \<leftarrow> s_chans s a;
     mn \<leftarrow> s_conns s me;
     let acc = c_account mn
     in if has_flag ch channel_flags_thevoid \<and> type \<noteq> message_type_join \<and> type \<noteq> message_type_part then Some s
        else if account_get_auth_mute env acc = 1
        then Some (message_send_text env me message_type_error me
               (Some ''Your account has been muted, you can't talk on the channel.'') s)
        else if has_flag ch channel_flags_moderated \<and> (type = message_type_talk \<or> type = message_type_emote)
             \<and> \<not> (account_is_operator_or_admin env acc (ch_name ch) \<noteq> 0
                  \<or> channel_conn_has_tmpVOICE ch mn \<or> account_get_auth_voice env acc (ch_name ch) = 1)
        then Some (message_send_text env me message_type_error me (Some ''This channel is moderated'') s)
        else do {
          (heard, s1) \<leftarrow> send_members env ch type me (chatname env me) txt (ch_memberlist ch) False s;
          Some (if \<not> conn_get_wol mn \<and> \<not> heard \<and> (type = message_type_talk \<or> type = message_type_emote)
                then message_send_text env me message_type_info me (Some ''No one hears you.'') s1 else s1) } }"

text \<open>\<open>channel_update_userflags\<close> and \<open>channel_update_latency\<close>: a userflags message to the members.\<close>

definition channel_update_userflags :: "chan_env \<Rightarrow> nat \<Rightarrow> cstate \<Rightarrow> cstate option" where
  "channel_update_userflags env me s = do {
     mn \<leftarrow> s_conns s me;
     (case c_channel mn of None \<Rightarrow> Some s
      | Some a \<Rightarrow> do {
          ch \<leftarrow> s_chans s a;
          Some (foldl (\<lambda>s c. message_send env message_type_userflags me None c s) s (ch_memberlist ch)) }) }"

fun latency_members :: "chan_env \<Rightarrow> nat \<Rightarrow> nat list \<Rightarrow> cstate \<Rightarrow> cstate option" where
  "latency_members env me [] s = Some s"
| "latency_members env me (c # cs) s = do {
     cn \<leftarrow> s_conns s c;
     latency_members env me cs
       (if c_class cn = conn_class_bnet then message_send env message_type_userflags me None c s else s) }"

definition channel_update_latency :: "chan_env \<Rightarrow> nat \<Rightarrow> cstate \<Rightarrow> cstate option" where
  "channel_update_latency env me s = do {
     mn \<leftarrow> s_conns s me;
     (case c_channel mn of None \<Rightarrow> Some s
      | Some a \<Rightarrow> do {
          ch \<leftarrow> s_chans s a;
          latency_members env me (ch_memberlist ch) s }) }"

definition conn_set_flags :: "chan_env \<Rightarrow> nat \<Rightarrow> u32 \<Rightarrow> cstate \<Rightarrow> cstate option" where
  "conn_set_flags env c flags s = do {
     cn \<leftarrow> s_conns s c;
     if flags \<noteq> c_flags cn
     then do { s1 \<leftarrow> upd_conn s c (c_flags_update (\<lambda>_. flags));
               if c_channel cn \<noteq> None then channel_update_userflags env c s1 else Some s1 }
     else Some s }"

definition channel_set_userflags :: "chan_env \<Rightarrow> nat \<Rightarrow> cstate \<Rightarrow> (int \<times> cstate) option" where
  "channel_set_userflags env c s = do {
     cn \<leftarrow> s_conns s c;
     (case c_channel cn of None \<Rightarrow> Some (-1, s)
      | Some a \<Rightarrow> do {
          ch \<leftarrow> s_chans s a;
          let acc = c_account cn; name = ch_name ch;
              newflags =
                (if account_get_auth_admin env acc (Some name) = 1 \<or> account_get_auth_admin env acc None = 1 then 0x1
                 else if account_get_auth_operator env acc (Some name) = 1
                         \<or> account_get_auth_operator env acc None = 1 then 0x8
                 else if channel_conn_is_tmpOP ch cn then 0x2
                 else if account_get_auth_voice env acc name = 1 \<or> channel_conn_has_tmpVOICE ch cn then 0x4
                 else if conn_get_clienttag cn = CLIENTTAG_WARCRAFT3_UINT \<or> conn_get_clienttag cn = CLIENTTAG_WAR3XP_UINT
                 then 0 else 0 :: u32)
          in if c_flags cn \<noteq> newflags
             then do { s1 \<leftarrow> conn_set_flags env c newflags s; s2 \<leftarrow> channel_update_userflags env c s1; Some (0, s2) }
             else Some (0, s) }) }"

section \<open>Creating and destroying channels\<close>

fun find_fullname :: "(nat \<Rightarrow> t_channel option) \<Rightarrow> cstring \<Rightarrow> nat list \<Rightarrow> nat option option" where
  "find_fullname chans name [] = Some None"
| "find_fullname chans name (a # as) = do {
     ch \<leftarrow> chans a;
     if strcasecmp (ch_name ch) name = 0 then Some (Some a) else find_fullname chans name as }"

definition channellist_find_channel_by_fullname :: "cstring \<Rightarrow> cstate \<Rightarrow> nat option option" where
  "channellist_find_channel_by_fullname name s = find_fullname (s_chans s) name (s_list s)"

fun find_id :: "(nat \<Rightarrow> t_channel option) \<Rightarrow> u32 \<Rightarrow> nat list \<Rightarrow> nat option option" where
  "find_id chans i [] = Some None"
| "find_id chans i (a # as) = do { ch \<leftarrow> chans a; if ch_id ch = i then Some (Some a) else find_id chans i as }"

definition channellist_find_channel_bychannelid :: "u32 \<Rightarrow> cstate \<Rightarrow> nat option option" where
  "channellist_find_channel_bychannelid i s = find_id (s_chans s) i (s_list s)"

record create_args =
  ca_fullname :: "cstring option"
  ca_shortname :: "cstring option"
  ca_clienttag :: u32
  ca_permflag :: bool
  ca_botflag :: bool
  ca_operflag :: bool
  ca_logflag :: bool
  ca_country :: "cstring option"
  ca_realmname :: "cstring option"
  ca_maxmembers :: int
  ca_moderated :: bool
  ca_clanflag :: bool
  ca_autoname :: bool

text \<open>The check for a permanent channel of the same name.\<close>

definition create_refused :: "create_args \<Rightarrow> cstring \<Rightarrow> cstate \<Rightarrow> bool option" where
  "create_refused ca fullname s = do {
     old \<leftarrow> channellist_find_channel_by_fullname fullname s;
     (case old of None \<Rightarrow> Some False
      | Some a \<Rightarrow> do {
          ch \<leftarrow> s_chans s a;
          Some (if ch_clienttag ch \<noteq> 0 \<and> ca_clienttag ca \<noteq> 0 \<and> ch_clienttag ch = ca_clienttag ca then True
                else ch_flags ch AND channel_flags_allowbots \<noteq> flag_if (ca_botflag ca) channel_flags_allowbots
                   \<or> ch_flags ch AND channel_flags_allowopers \<noteq> flag_if (ca_operflag ca) channel_flags_allowopers
                   \<or> ch_maxmembers ch \<noteq> ca_maxmembers ca
                   \<or> ch_flags ch AND channel_flags_moderated \<noteq> flag_if (ca_moderated ca) channel_flags_moderated
                   \<or> ch_logname ch \<noteq> ca_logflag ca) }) }"

definition create_flags :: "create_args \<Rightarrow> u32" where
  "create_flags ca =
     (if ca_permflag ca
      then channel_flags_public OR flag_if (ca_clienttag ca \<noteq> 0 \<and> ca_maxmembers ca \<noteq> -1) channel_flags_system
      else 0)
     OR flag_if (ca_moderated ca) channel_flags_moderated
     OR flag_if (case ca_shortname ca of None \<Rightarrow> False
                 | Some sn \<Rightarrow> strcasecmp sn CHANNEL_NAME_KICKED = 0 \<or> strcasecmp sn CHANNEL_NAME_BANNED = 0)
         channel_flags_thevoid
     OR flag_if (ca_permflag ca) channel_flags_permanent
     OR flag_if (ca_botflag ca) channel_flags_allowbots
     OR flag_if (ca_operflag ca) channel_flags_allowopers
     OR flag_if (ca_clanflag ca) channel_flags_clan
     OR flag_if (ca_autoname ca) channel_flags_autoname"

definition channel_create :: "chan_env \<Rightarrow> create_args \<Rightarrow> cstate \<Rightarrow> (nat option \<times> cstate) option" where
  "channel_create env ca s = (case ca_fullname ca of None \<Rightarrow> Some (None, s) | Some fullname \<Rightarrow>
     if fullname = [] \<or> ca_shortname ca = Some [] then Some (None, s)
     else do {
       refused \<leftarrow> (if ca_permflag ca then create_refused ca fullname s else Some False);
       if refused then Some (None, s)
       else let total = (if s_totalcount s + 1 = 0 then 1 else s_totalcount s + 1);
                ch = \<lparr>ch_name = fullname, ch_shortname = ca_shortname ca, ch_country = ca_country ca,
                      ch_realmname = ca_realmname ca, ch_flags = create_flags ca, ch_maxmembers = ca_maxmembers ca,
                      ch_currmembers = 0, ch_clienttag = ca_clienttag ca, ch_id = total, ch_memberlist = [],
                      ch_banlist = [], ch_logname = ca_logflag ca, ch_log = (ca_logflag ca \<and> log_opens env),
                      ch_minmembers = uninitialised env, ch_gameType = 0, ch_gameExtension = None\<rparr>
            in Some (Some (s_next s),
                 s\<lparr>s_chans := (s_chans s)(s_next s \<mapsto> ch), s_list := s_list s @ [s_next s],
                   s_next := s_next s + 1, s_totalcount := total\<rparr>) })"

definition channel_destroy :: "nat option \<Rightarrow> cstate \<Rightarrow> (int \<times> cstate) option" where
  "channel_destroy channel s = (case channel of None \<Rightarrow> Some (-1, s) | Some a \<Rightarrow> do {
     ch \<leftarrow> s_chans s a;
     if ch_memberlist ch \<noteq> []
     then Some (-1, s\<lparr>s_chans := (s_chans s)(a \<mapsto> ch\<lparr>ch_flags := ch_flags ch AND NOT channel_flags_permanent\<rparr>)\<rparr>)
     else Some (0, s\<lparr>s_chans := (s_chans s)(a := None), s_list := remove1 a (s_list s)\<rparr>) })"

section \<open>Bans\<close>

definition channel_ban_user :: "nat option \<Rightarrow> cstring option \<Rightarrow> cstate \<Rightarrow> (int \<times> cstate) option" where
  "channel_ban_user channel user s = (case channel of None \<Rightarrow> Some (-1, s) | Some a \<Rightarrow>
     (case user of None \<Rightarrow> Some (-1, s) | Some un \<Rightarrow> do {
        ch \<leftarrow> s_chans s a;
        if strcasecmp (ch_name ch) CHANNEL_NAME_BANNED = 0 \<or> strcasecmp (ch_name ch) CHANNEL_NAME_KICKED = 0
        then Some (-1, s)
        else if list_ex (\<lambda>b. strcasecmp b un = 0) (ch_banlist ch) then Some (0, s)
        else Some (0, s\<lparr>s_chans := (s_chans s)(a \<mapsto> ch\<lparr>ch_banlist := ch_banlist ch @ [un]\<rparr>)\<rparr>) }))"

fun unban_loop :: "cstring \<Rightarrow> cstring list \<Rightarrow> cstring list option" where
  "unban_loop un [] = None"
| "unban_loop un (b # bs) = (if strcasecmp b un = 0 then Some bs else map_option (\<lambda>r. b # r) (unban_loop un bs))"

definition channel_unban_user :: "nat option \<Rightarrow> cstring option \<Rightarrow> cstate \<Rightarrow> (int \<times> cstate) option" where
  "channel_unban_user channel user s = (case channel of None \<Rightarrow> Some (-1, s) | Some a \<Rightarrow>
     (case user of None \<Rightarrow> Some (-1, s) | Some un \<Rightarrow> do {
        ch \<leftarrow> s_chans s a;
        Some (case unban_loop un (ch_banlist ch) of None \<Rightarrow> (-1, s)
              | Some bs \<Rightarrow> (0, s\<lparr>s_chans := (s_chans s)(a \<mapsto> ch\<lparr>ch_banlist := bs\<rparr>)\<rparr>)) }))"

definition channel_check_banning :: "chan_env \<Rightarrow> t_channel \<Rightarrow> t_connection \<Rightarrow> bool" where
  "channel_check_banning env ch cn =
     (if \<not> has_flag ch channel_flags_allowbots \<and> c_class cn = conn_class_bot then True
      else list_ex (\<lambda>b. conn_match env cn b = 1) (ch_banlist ch))"

section \<open>Joining and leaving\<close>

text \<open>The loop over the members after a connection \<open>c\<close> has been added.\<close>

fun announce_join :: "chan_env \<Rightarrow> nat \<Rightarrow> bool \<Rightarrow> nat list \<Rightarrow> cstate \<Rightarrow> cstate" where
  "announce_join env c game [] s = s"
| "announce_join env c game (u # us) s =
     (let s1 = message_send_text env c message_type_adduser u None s;
          s2 = (if \<not> game then message_send_text env u message_type_join c None s1 else s1)
      in announce_join env c game us s2)"

definition channel_add_connection :: "chan_env \<Rightarrow> nat \<Rightarrow> nat \<Rightarrow> cstate \<Rightarrow> (int \<times> cstate) option" where
  "channel_add_connection env a c s = do {
     ch \<leftarrow> s_chans s a;
     cn \<leftarrow> s_conns s c;
     if channel_check_banning env ch cn
     then do { s1 \<leftarrow> channel_message_log a c False (Some ''JOIN FAILED (banned)'') s; Some (-1, s1) }
     else let ch1 = ch\<lparr>ch_memberlist := c # ch_memberlist ch, ch_currmembers := ch_currmembers ch + 1\<rparr>;
              s0 = s\<lparr>s_chans := (s_chans s)(a \<mapsto> ch1)\<rparr> in do {
       s1 \<leftarrow> channel_message_log a c False (Some ''JOINED'') s0;
       let s2 = message_send_text env c message_type_channel c (Some (ch_name ch)) s1 in do {
       s3 \<leftarrow> (if \<not> has_flag ch channel_flags_permanent \<and> \<not> has_flag ch channel_flags_thevoid
                 \<and> \<not> has_flag ch channel_flags_clan \<and> ch_currmembers ch1 = 1
                 \<and> account_is_operator_or_admin env (c_account cn) (ch_name ch) = 0
              then do {
                s' \<leftarrow> conn_set_tmpOP_channel
                  (message_send_text env c message_type_info c (Some ''you are now tempOP for this channel'') s2)
                  c (Some (ch_name ch));
                channel_update_userflags env c s' }
              else Some s2);
       let s4 = (if \<not> has_flag ch channel_flags_thevoid then announce_join env c (c_game cn) (ch_memberlist ch1) s3
                 else if \<not> c_game cn then message_send_text env c message_type_join c None s3 else s3) in do {
       s5 \<leftarrow> (if conn_is_irc_variant cn \<and> \<not> c_game cn
              then do { (r, s') \<leftarrow> channel_set_userflags env c s4;
                        Some (message_send_text env c message_type_namreply c None
                          (message_send_text env c message_type_topic c None s')) }
              else Some s4);
       Some (0, if ch_log ch then message_send_text env c message_type_info c None s5 else s5) } } } }"

text \<open>The search behind the first member; \<open>None\<close> when the connection is not there.\<close>

fun del_loop :: "nat \<Rightarrow> nat list \<Rightarrow> nat list option" where
  "del_loop c [] = None"
| "del_loop c [m] = None"
| "del_loop c (m # n # ms) = (if n = c then Some (m # ms) else map_option (\<lambda>r. m # r) (del_loop c (n # ms)))"

definition channel_del_connection ::
  "chan_env \<Rightarrow> nat \<Rightarrow> nat \<Rightarrow> t_message_type \<Rightarrow> cstring option \<Rightarrow> cstate \<Rightarrow> (int \<times> cstate) option" where
  "channel_del_connection env a c mess txt s = do {
     s1 \<leftarrow> channel_message_send env a mess c txt s;
     s2 \<leftarrow> channel_message_log a c False (Some ''PARTED'') s1;
     ch \<leftarrow> s_chans s2 a;
     cn \<leftarrow> s_conns s2 c;
     (case ch_memberlist ch of [] \<Rightarrow> None
      | m # ms \<Rightarrow>
        (case (if m = c then Some ms else del_loop c (m # ms)) of
           None \<Rightarrow> Some (-1, s2)
         | Some members \<Rightarrow>
           let ch1 = ch\<lparr>ch_memberlist := members, ch_currmembers := ch_currmembers ch - 1\<rparr>;
               s3 = s2\<lparr>s_chans := (s_chans s2)(a \<mapsto> ch1)\<rparr> in do {
           s4 \<leftarrow> (if c_tmpOP_channel cn = Some (ch_name ch) then conn_set_tmpOP_channel s3 c None else Some s3);
           if members = [] \<and> \<not> has_flag ch channel_flags_permanent
           then do { (r, s5) \<leftarrow> channel_destroy (Some a) s4; Some (0, s5) }
           else Some (0, s4) })) }"

definition conn_part_channel :: "chan_env \<Rightarrow> nat \<Rightarrow> cstate \<Rightarrow> (int \<times> cstate) option" where
  "conn_part_channel env c s = do {
     cn \<leftarrow> s_conns s c;
     (case c_channel cn of None \<Rightarrow> Some (-1, s)
      | Some a \<Rightarrow> do {
          (r, s1) \<leftarrow> channel_del_connection env a c message_type_part None s;
          s2 \<leftarrow> upd_conn s1 c (c_channel_update (\<lambda>_. None));
          Some (0, s2) }) }"

definition conn_quit_channel :: "chan_env \<Rightarrow> nat \<Rightarrow> cstring option \<Rightarrow> cstate \<Rightarrow> (int \<times> cstate) option" where
  "conn_quit_channel env c txt s = do {
     cn \<leftarrow> s_conns s c;
     (case c_channel cn of None \<Rightarrow> Some (-1, s)
      | Some a \<Rightarrow> do {
          (r, s1) \<leftarrow> channel_del_connection env a c message_type_quit txt s;
          s2 \<leftarrow> upd_conn s1 c (c_channel_update (\<lambda>_. None));
          Some (0, s2) }) }"

section \<open>Finding a channel by name\<close>

definition channel_format_name ::
  "cstring option \<Rightarrow> cstring option \<Rightarrow> cstring option \<Rightarrow> nat \<Rightarrow> cstring option" where
  "channel_format_name sname country realmname i = map_option (\<lambda>sn.
     (case realmname of None \<Rightarrow> [] | Some r \<Rightarrow> r @ '' '') @ sn
     @ (case country of None \<Rightarrow> [] | Some k \<Rightarrow> '' '' @ k) @ ''-'' @ fmt_d i) sname"

record find_locals =
  fl_foundperm :: bool
  fl_foundlang :: bool
  fl_maxchannel :: nat
  fl_shortname :: "cstring option"
  fl_specialname :: "cstring option"
  fl_tag :: u32
  fl_bot :: bool
  fl_oper :: bool
  fl_log :: bool
  fl_moderated :: bool
  fl_country :: "cstring option"
  fl_realmname :: "cstring option"
  fl_maxmembers :: int

definition find_start :: find_locals where
  "find_start = \<lparr>fl_foundperm = False, fl_foundlang = False, fl_maxchannel = 0, fl_shortname = None,
     fl_specialname = None, fl_tag = 0, fl_bot = False, fl_oper = False, fl_log = False, fl_moderated = False,
     fl_country = None, fl_realmname = None, fl_maxmembers = 0\<rparr>"

definition find_compatible :: "cstring option \<Rightarrow> cstring option \<Rightarrow> find_locals \<Rightarrow> t_channel \<Rightarrow> bool" where
  "find_compatible country realmname fl ch \<longleftrightarrow>
     ((ch_country ch = None \<and> \<not> fl_foundlang fl) \<or> country = None
      \<or> (ch_country ch \<noteq> None \<and> country \<noteq> None \<and> ch_country ch = country))
     \<and> (ch_realmname ch = None \<or> realmname = None \<or> ch_realmname ch = realmname)"

definition has_room :: "t_channel \<Rightarrow> bool" where
  "has_room ch \<longleftrightarrow> ch_maxmembers ch = -1 \<or> ch_currmembers ch < ch_maxmembers ch"

definition find_save :: "cstring option \<Rightarrow> cstring option \<Rightarrow> t_channel \<Rightarrow> find_locals \<Rightarrow> find_locals" where
  "find_save country realmname ch fl =
     (let fl1 = (if find_compatible country realmname fl ch
                 then let fl' = (if \<not> fl_foundlang fl \<and> ch_country ch \<noteq> None
                                 then fl\<lparr>fl_foundlang := True, fl_maxchannel := 0,
                                         fl_specialname := (if \<not> has_flag ch channel_flags_autoname
                                                            then Some (ch_name ch) else fl_specialname fl)\<rparr>
                                 else fl)
                      in fl'\<lparr>fl_maxchannel := fl_maxchannel fl' + 1\<rparr>
                 else fl)
      in fl1\<lparr>fl_foundperm := True, fl_shortname := ch_shortname ch, fl_tag := ch_clienttag ch,
             fl_bot := has_flag ch channel_flags_allowbots, fl_oper := has_flag ch channel_flags_allowopers,
             fl_log := ch_logname ch,
             fl_country := (if country \<noteq> None then country else ch_country ch),
             fl_realmname := (if realmname \<noteq> None then realmname else ch_realmname ch),
             fl_maxmembers := ch_maxmembers ch, fl_moderated := has_flag ch channel_flags_moderated\<rparr>)"

definition find_create :: "chan_env \<Rightarrow> find_locals \<Rightarrow> cstate \<Rightarrow> (nat option \<times> cstate) option" where
  "find_create env fl s =
     (if \<not> fl_foundperm fl then Some (None, s)
      else let name = (if \<not> fl_foundlang fl \<or> fl_specialname fl = None
                       then channel_format_name (fl_shortname fl) (fl_country fl) (fl_realmname fl) (fl_maxchannel fl + 1)
                       else channel_format_name (fl_specialname fl) None (fl_realmname fl) (fl_maxchannel fl + 1))
           in case name of None \<Rightarrow> Some (None, s)
              | Some n \<Rightarrow> channel_create env
                  \<lparr>ca_fullname = Some n, ca_shortname = fl_shortname fl, ca_clienttag = fl_tag fl,
                   ca_permflag = True, ca_botflag = fl_bot fl, ca_operflag = fl_oper fl, ca_logflag = fl_log fl,
                   ca_country = fl_country fl, ca_realmname = fl_realmname fl, ca_maxmembers = fl_maxmembers fl,
                   ca_moderated = fl_moderated fl, ca_clanflag = False, ca_autoname = True\<rparr> s)"

text \<open>
  \<open>channellist_find_channel_by_name\<close> at position \<open>i\<close> of the list; it calls itself from the head of the
  list with the full name of a channel whose short name matches.
\<close>

partial_function (option) find_loop ::
  "chan_env \<Rightarrow> cstring option \<Rightarrow> cstring option \<Rightarrow> cstring \<Rightarrow> nat \<Rightarrow> find_locals \<Rightarrow> cstate \<Rightarrow> (nat option \<times> cstate) option"
where
  "find_loop env country realmname name i fl s =
     (if length (s_list s) \<le> i then find_create env fl s
      else do {
        ch \<leftarrow> s_chans s (s_list s ! i);
        if strcasecmp (ch_name ch) name = 0 then Some (Some (s_list s ! i), s)
        else if (case ch_shortname ch of None \<Rightarrow> True | Some sn \<Rightarrow> strcasecmp sn name \<noteq> 0)
        then find_loop env country realmname name (i + 1) fl s
        else do {
          (special, s1) \<leftarrow> find_loop env country realmname (ch_name ch) 0 find_start s;
          let a = (case special of Some b \<Rightarrow> b | None \<Rightarrow> s_list s ! i) in do {
          ch1 \<leftarrow> s_chans s1 a;
          if find_compatible country realmname fl ch1 \<and> has_room ch1 then Some (Some a, s1)
          else find_loop env country realmname name (i + 1) (find_save country realmname ch1 fl) s1 } } })"

definition channellist_find_channel_by_name ::
  "chan_env \<Rightarrow> cstring \<Rightarrow> cstring option \<Rightarrow> cstring option \<Rightarrow> cstate \<Rightarrow> (nat option \<times> cstate) option" where
  "channellist_find_channel_by_name env name country realmname s =
     find_loop env country realmname name 0 find_start s"

section \<open>Entering a channel\<close>

text \<open>\<open>str_to_clantag\<close>: the characters are signed, so a character above 127 sets the bits above it.\<close>

definition clantag_char :: "char \<Rightarrow> u32" where
  "clantag_char c = word_of_int (schar c)"

definition str_to_clantag :: "cstring \<Rightarrow> u32" where
  "str_to_clantag str = (case str of [] \<Rightarrow> 0
     | a # as \<Rightarrow> push_bit 24 (clantag_char a) OR (case as of [] \<Rightarrow> 0
       | b # bs \<Rightarrow> push_bit 16 (clantag_char b) OR (case bs of [] \<Rightarrow> 0
         | c # cs \<Rightarrow> push_bit 8 (clantag_char c) OR (case cs of [] \<Rightarrow> 0 | d # ds \<Rightarrow> clantag_char d))))"

definition is_chan_operator :: "chan_env \<Rightarrow> nat option \<Rightarrow> cstring \<Rightarrow> bool" where
  "is_chan_operator env acc name \<longleftrightarrow>
     account_get_auth_admin env acc None = 1 \<or> account_get_auth_admin env acc (Some name) = 1
     \<or> account_get_auth_operator env acc None = 1 \<or> account_get_auth_operator env acc (Some name) = 1"

text \<open>
  The clan checks of \<open>conn_set_channel\<close>: \<open>Inl\<close> is an early return, \<open>Inr\<close> the channel to go on with
  and the clan found.
\<close>

definition clan_checks ::
  "chan_env \<Rightarrow> nat \<Rightarrow> t_connection \<Rightarrow> nat \<Rightarrow> cstring \<Rightarrow> u32 \<Rightarrow> nat option \<Rightarrow> cstate
   \<Rightarrow> ((int \<times> cstate) + (nat option \<times> u32 option \<times> cstate)) option" where
  "clan_checks env c cn acc name clantag channel s =
     (if clantag \<noteq> 0 \<and> \<not> (account_get_auth_admin env (Some acc) (Some name) = 1
                              \<or> account_get_auth_admin env (Some acc) None = 1)
      then if clan_of env acc \<noteq> Some clantag
        then (case channel of
            None \<Rightarrow>
              let s1 = message_send_text env c message_type_error c (Some ''Unable to join channel'') s
              in if c_game cn \<or> c_channel cn = None
                 then do {
                   (ch, s2) \<leftarrow> channellist_find_channel_by_name env CHANNEL_NAME_BANNED (country_of env c) (realm_of env c)
                     (message_send_text env c message_type_error c (Some ''You have been redirected'') s1);
                   Some (Inr (ch, clan_of env acc, s2)) }
                 else Some (Inl (0, s1))
          | Some a \<Rightarrow>
              if clan_private env clantag
              then Some (Inl (0, message_send_text env c message_type_error c
                     (Some ''This is a private clan channel, unable to join!'') s))
              else Some (Inr (channel, clan_of env acc, s)))
        else if clan_shaman env acc
        then do { s1 \<leftarrow> conn_set_tmpOP_channel s c (Some name); Some (Inr (channel, clan_of env acc, s1)) }
        else Some (Inr (channel, clan_of env acc, s))
      else Some (Inr (channel, None, s)))"

text \<open>The checks of an existing channel: the refusal, if any.\<close>

definition join_refused :: "chan_env \<Rightarrow> t_channel \<Rightarrow> t_connection \<Rightarrow> nat \<Rightarrow> cstring \<Rightarrow> cstring option" where
  "join_refused env ch cn acc name =
     (if channel_check_banning env ch cn then Some ''You are banned from that channel.''
      else if \<not> is_chan_operator env (Some acc) name \<and> ch_maxmembers ch = 0
      then Some ''That channel is for Admins/Operators only.''
      else if \<not> is_chan_operator env (Some acc) name \<and> ch_maxmembers ch \<noteq> -1 \<and> ch_currmembers ch \<ge> ch_maxmembers ch
      then Some ''The channel is currently full.''
      else None)"

definition new_channel_args :: "chan_env \<Rightarrow> cstring \<Rightarrow> u32 \<Rightarrow> create_args" where
  "new_channel_args env name clantag =
     \<lparr>ca_fullname = Some name, ca_shortname = Some name, ca_clienttag = 0, ca_permflag = False, ca_botflag = True,
      ca_operflag = True, ca_logflag = prefs_chanlog env, ca_country = None, ca_realmname = None,
      ca_maxmembers = (if prefs_maxusers_per_channel env > 0 then prefs_maxusers_per_channel env else -1),
      ca_moderated = False, ca_clanflag = (clantag \<noteq> 0), ca_autoname = False\<rparr>"

definition after_join :: "chan_env \<Rightarrow> nat \<Rightarrow> nat \<Rightarrow> nat option \<Rightarrow> u32 \<Rightarrow> u32 option \<Rightarrow> cstate \<Rightarrow> cstate option" where
  "after_join env c a oldchannel clantag clan s = do {
     ch \<leftarrow> s_chans s a;
     cn \<leftarrow> s_conns s c;
     let s1 = emit [Send_welcome c] s;
         s2 = (if has_flag ch channel_flags_thevoid
               then message_send_text env c message_type_info c (Some ''This channel does not have chat privileges.'') s1
               else s1);
         s3 = (if clantag \<noteq> 0 \<and> clan = Some clantag
               then message_send_text env c message_type_info c (Some (clan_motd env clantag)) s2 else s2);
         s4 = (case topic_of env (ch_name ch) of None \<Rightarrow> s3
               | Some topic \<Rightarrow> if \<not> conn_is_irc_variant cn
                   then message_send_text env c message_type_info c (Some (ch_name ch @ '' topic: '' @ topic)) s3 else s3);
         s5 = (if has_flag ch channel_flags_moderated
               then message_send_text env c message_type_error c (Some ''This channel is moderated.'') s4 else s4)
     in Some (if Some a \<noteq> oldchannel then emit [Clan_status_change c] s5 else s5) }"

text \<open>The part of \<open>conn_set_channel\<close> from the acknowledgement flags on: the channel is decided.\<close>

definition enter_channel ::
  "chan_env \<Rightarrow> nat \<Rightarrow> cstring \<Rightarrow> u32 \<Rightarrow> u32 option \<Rightarrow> nat option \<Rightarrow> nat option \<Rightarrow> cstate \<Rightarrow> (int \<times> cstate) option" where
  "enter_channel env c name clantag clan oldchannel channel s = do {
     let s1 = emit [Reset_whisper_acks c] s in do {
     cn \<leftarrow> s_conns s1 c;
     s2 \<leftarrow> (if c_game cn then upd_conn (emit [Game_del_player c] s1) c (c_game_update (\<lambda>_. False)) else Some s1);
     (target, created, s3) \<leftarrow> (case channel of Some a \<Rightarrow> Some (Some a, False, s2)
       | None \<Rightarrow> do { (a, s') \<leftarrow> channel_create env (new_channel_args env name clantag) s2; Some (a, True, s') });
     (case target of None \<Rightarrow> Some (-1, s3)
      | Some a \<Rightarrow> do {
          s4 \<leftarrow> upd_conn s3 c (c_channel_update (\<lambda>_. Some a));
          (r, s5) \<leftarrow> channel_add_connection env a c s4;
          if r < 0
          then do {
            s6 \<leftarrow> (if created then map_option snd (channel_destroy (Some a) s5) else Some s5);
            s7 \<leftarrow> upd_conn s6 c (c_channel_update (\<lambda>_. None));
            Some (-1, s7) }
          else do { s6 \<leftarrow> after_join env c a oldchannel clantag clan s5; Some (0, s6) } }) } }"

definition conn_set_channel :: "chan_env \<Rightarrow> nat \<Rightarrow> cstring option \<Rightarrow> cstate \<Rightarrow> (int \<times> cstate) option" where
  "conn_set_channel env c channelname s = do {
     cn \<leftarrow> s_conns s c;
     (case c_account cn of None \<Rightarrow> Some (-1, s) | Some acc \<Rightarrow>
     (case channelname of None \<Rightarrow> Some (-1, s) | Some name \<Rightarrow> do {
       (channel, s1) \<leftarrow> channellist_find_channel_by_name env name (country_of env c) (realm_of env c) s;
       if channel \<noteq> None \<and> channel = c_channel cn then Some (0, s1)
       else let clantag = (if strncasecmp name ''clan '' 5 = 0 \<and> length name < 10
                           then str_to_clantag (drop 5 name) else 0) in do {
       res \<leftarrow> clan_checks env c cn acc name clantag channel s1;
       (case res of Inl (r, s2) \<Rightarrow> Some (r, s2)
        | Inr (channel, clan, s2) \<Rightarrow> do {
            s3 \<leftarrow> (if c_channel cn \<noteq> None then map_option snd (conn_part_channel env c s2) else Some s2);
            refusal \<leftarrow> (case channel of None \<Rightarrow> Some None
              | Some a \<Rightarrow> do { ch \<leftarrow> s_chans s3 a; cn3 \<leftarrow> s_conns s3 c; Some (join_refused env ch cn3 acc name) });
            (case refusal of
               Some txt \<Rightarrow> Some (-1, message_send_text env c message_type_error c (Some txt) s3)
             | None \<Rightarrow> enter_channel env c name clantag clan (c_channel cn) channel s3) }) } })) }"

definition channel_rejoin :: "chan_env \<Rightarrow> nat \<Rightarrow> cstate \<Rightarrow> (int \<times> cstate) option" where
  "channel_rejoin env c s = do {
     cn \<leftarrow> s_conns s c;
     (case c_channel cn of None \<Rightarrow> Some (-1, s)
      | Some a \<Rightarrow> do {
          ch \<leftarrow> s_chans s a;
          (r1, s1) \<leftarrow> conn_part_channel env c s;
          (r2, s2) \<leftarrow> conn_set_channel env c (Some (ch_name ch)) s1;
          (if r2 < 0 then do { (r3, s3) \<leftarrow> conn_set_channel env c (Some CHANNEL_NAME_BANNED) s2; Some (0, s3) }
           else Some (0, s2)) }) }"

section \<open>Permanent channels\<close>

text \<open>\<^verbatim>\<open>common/token.cpp\<close>: the next word of a line, or the text in quotes, and what follows its end.\<close>

definition next_token :: "cstring \<Rightarrow> (cstring \<times> cstring) option" where
  "next_token ptr = (let p = dropWhile c_isblank ptr in
     case p of [] \<Rightarrow> None
     | c # cs \<Rightarrow>
       if c = CHR 0x22 then Some (takeWhile (\<lambda>d. d \<noteq> CHR 0x22) cs, drop 1 (dropWhile (\<lambda>d. d \<noteq> CHR 0x22) cs))
       else Some (takeWhile (\<lambda>d. \<not> c_isblank d) p, drop 1 (dropWhile (\<lambda>d. \<not> c_isblank d) p)))"

fun tokens :: "nat \<Rightarrow> cstring \<Rightarrow> cstring list option" where
  "tokens 0 ptr = Some []"
| "tokens (Suc n) ptr = (case next_token ptr of None \<Rightarrow> None
     | Some (t, rest) \<Rightarrow> map_option (\<lambda>ts. t # ts) (tokens n rest))"

definition null_if :: "cstring \<Rightarrow> cstring \<Rightarrow> cstring option" where
  "null_if word t = (if t = word then None else Some t)"

text \<open>One line of the channel file: \<open>None\<close> when it is skipped.\<close>

definition permanent_args :: "chan_env \<Rightarrow> cstring \<Rightarrow> create_args option" where
  "permanent_args env buff =
     (if buff = [] \<or> hd buff = CHR ''#'' then None
      else case tokens 10 buff of
        Some [name, sname, tag, bt, oper, lg, country, realmname, mx, moderated] \<Rightarrow>
          if str_get_bool (Some bt) < 0 \<or> str_get_bool (Some oper) < 0 \<or> str_get_bool (Some lg) < 0
             \<or> str_get_bool (Some moderated) < 0 then None
          else let sn = null_if ''NULL'' sname; ct = null_if ''NULL'' country; rn = null_if ''NULL'' realmname;
                   args = \<lparr>ca_fullname = None, ca_shortname = sn,
                     ca_clienttag = (if tag = ''NULL'' then 0 else tag_of env tag), ca_permflag = True,
                     ca_botflag = (str_get_bool (Some bt) = 1), ca_operflag = (str_get_bool (Some oper) = 1),
                     ca_logflag = (str_get_bool (Some lg) = 1), ca_country = ct, ca_realmname = rn,
                     ca_maxmembers = atoi mx, ca_moderated = (str_get_bool (Some moderated) = 1),
                     ca_clanflag = False, ca_autoname = False\<rparr>
               in if name \<noteq> ''NONE'' then Some (args\<lparr>ca_fullname := Some name\<rparr>)
                  else (case channel_format_name sn ct rn 1 of None \<Rightarrow> None
                        | Some n \<Rightarrow> Some (args\<lparr>ca_fullname := Some n, ca_autoname := True\<rparr>))
      | _ \<Rightarrow> None)"

fun channellist_load_permanent :: "chan_env \<Rightarrow> cstring list \<Rightarrow> cstate \<Rightarrow> cstate option" where
  "channellist_load_permanent env [] s = Some s"
| "channellist_load_permanent env (line # lines) s =
     (case permanent_args env line of None \<Rightarrow> channellist_load_permanent env lines s
      | Some ca \<Rightarrow> do { (a, s1) \<leftarrow> channel_create env ca s; channellist_load_permanent env lines s1 })"

section \<open>Reading and setting fields\<close>

definition channel_get_name :: "t_channel option \<Rightarrow> cstring" where
  "channel_get_name channel = (case channel of None \<Rightarrow> [] | Some ch \<Rightarrow> ch_name ch)"

definition channel_get_clienttag :: "t_channel option \<Rightarrow> u32" where
  "channel_get_clienttag channel = (case channel of None \<Rightarrow> 0 | Some ch \<Rightarrow> ch_clienttag ch)"

definition channel_get_flags :: "t_channel option \<Rightarrow> u32" where
  "channel_get_flags channel = (case channel of None \<Rightarrow> 0 | Some ch \<Rightarrow> ch_flags ch)"

definition channel_get_permanent :: "t_channel option \<Rightarrow> u32" where
  "channel_get_permanent channel = (case channel of None \<Rightarrow> 0 | Some ch \<Rightarrow> ch_flags ch AND channel_flags_permanent)"

definition channel_get_channelid :: "t_channel option \<Rightarrow> u32" where
  "channel_get_channelid channel = (case channel of None \<Rightarrow> 0 | Some ch \<Rightarrow> ch_id ch)"

definition channel_get_length :: "t_channel \<Rightarrow> nat" where
  "channel_get_length ch = length (ch_memberlist ch)"

definition channel_get_shortname :: "t_channel option \<Rightarrow> cstring option" where
  "channel_get_shortname channel = (case channel of None \<Rightarrow> None | Some ch \<Rightarrow> ch_shortname ch)"

definition channel_get_max :: "t_channel option \<Rightarrow> int" where
  "channel_get_max channel = (case channel of None \<Rightarrow> 0 | Some ch \<Rightarrow> ch_maxmembers ch)"

definition channel_get_curr :: "t_channel option \<Rightarrow> int" where
  "channel_get_curr channel = (case channel of None \<Rightarrow> 0 | Some ch \<Rightarrow> ch_currmembers ch)"

definition channel_get_min :: "t_channel option \<Rightarrow> int" where
  "channel_get_min channel = (case channel of None \<Rightarrow> 0 | Some ch \<Rightarrow> ch_minmembers ch)"

definition set_field :: "nat option \<Rightarrow> (t_channel \<Rightarrow> t_channel) \<Rightarrow> int \<Rightarrow> int \<Rightarrow> cstate \<Rightarrow> (int \<times> cstate) option" where
  "set_field channel f bad good s = (case channel of None \<Rightarrow> Some (bad, s)
     | Some a \<Rightarrow> map_option (\<lambda>s'. (good, s')) (upd_chan s a f))"

definition channel_set_channelid :: "nat option \<Rightarrow> u32 \<Rightarrow> cstate \<Rightarrow> (int \<times> cstate) option" where
  "channel_set_channelid channel i = set_field channel (ch_id_update (\<lambda>_. i)) (-1) 0"

definition channel_set_max :: "nat option \<Rightarrow> int \<Rightarrow> cstate \<Rightarrow> (int \<times> cstate) option" where
  "channel_set_max channel n =
     set_field channel (\<lambda>ch. if n \<noteq> 0 then ch\<lparr>ch_maxmembers := n\<rparr> else ch) 0 1"

definition channel_set_min :: "nat option \<Rightarrow> int \<Rightarrow> cstate \<Rightarrow> (int \<times> cstate) option" where
  "channel_set_min channel n =
     set_field channel (\<lambda>ch. if n \<noteq> 0 then ch\<lparr>ch_minmembers := n\<rparr> else ch) 0 1"

definition channel_wol_set_game_type :: "nat option \<Rightarrow> int \<Rightarrow> cstate \<Rightarrow> (int \<times> cstate) option" where
  "channel_wol_set_game_type channel n =
     set_field channel (\<lambda>ch. if n \<noteq> 0 then ch\<lparr>ch_gameType := n\<rparr> else ch) (-1) 0"

definition channel_wol_set_game_extension :: "nat option \<Rightarrow> cstring option \<Rightarrow> cstate \<Rightarrow> (int \<times> cstate) option" where
  "channel_wol_set_game_extension channel ext s = (if channel = None \<or> ext = None then Some (-1, s)
     else set_field channel (ch_gameExtension_update (\<lambda>_. ext)) (-1) 0 s)"

definition channel_set_flags :: "nat option \<Rightarrow> u32 \<Rightarrow> cstate \<Rightarrow> (int \<times> cstate) option" where
  "channel_set_flags channel flags = set_field channel (ch_flags_update (\<lambda>_. flags)) (-1) 0"

text \<open>\<open>_handle_moderate_command\<close> of \<^verbatim>\<open>bnetd/command.cpp\<close>: the caller of \<open>channel_set_flags\<close>.\<close>

definition handle_moderate_command :: "chan_env \<Rightarrow> nat \<Rightarrow> cstate \<Rightarrow> (int \<times> cstate) option" where
  "handle_moderate_command env c s = do {
     cn \<leftarrow> s_conns s c;
     (case c_channel cn of
        None \<Rightarrow> Some (-1, message_send_text env c message_type_error c
                  (Some ''This command can only be used inside a channel.'') s)
      | Some a \<Rightarrow> do {
          ch \<leftarrow> s_chans s a;
          if account_is_operator_or_admin env (c_account cn) (ch_name ch) = 0
          then Some (-1, message_send_text env c message_type_error c
                  (Some ''You must be at least a Channel Operator to use this command.'') s)
          else do {
            (r, s1) \<leftarrow> channel_set_flags (Some a) (ch_flags ch XOR channel_flags_moderated) s;
            s2 \<leftarrow> channel_message_send env a message_type_info c
                    (Some (if has_flag ch channel_flags_moderated then ''Channel is now unmoderated''
                           else ''Channel is now moderated'')) s1;
            Some (0, s2) } }) }"

section \<open>Reloading the channels\<close>

fun reload_members :: "chan_env \<Rightarrow> nat \<Rightarrow> nat list \<Rightarrow> cstate \<Rightarrow> cstate option" where
  "reload_members env a [] s = Some s"
| "reload_members env a (m # ms) s = do {
     (r, s1) \<leftarrow> channel_del_connection env a m message_type_quit None s;
     s2 \<leftarrow> upd_conn s1 m (c_channel_update (\<lambda>_. None));
     reload_members env a ms s2 }"

text \<open>
  The first pass for one channel. \<open>old\<close> is \<open>channellist_old\<close>: short names and members, both lists
  built by prepending. Duplicating a short name that is NULL is a NULL access.
\<close>

definition reload_channel ::
  "chan_env \<Rightarrow> nat \<Rightarrow> (cstring \<times> nat list) list \<Rightarrow> cstate \<Rightarrow> ((cstring \<times> nat list) list \<times> cstate) option" where
  "reload_channel env a old s = do {
     s1 \<leftarrow> upd_chan s a (\<lambda>ch. ch\<lparr>ch_flags := ch_flags ch OR channel_flags_permanent\<rparr>);
     ch \<leftarrow> s_chans s1 a;
     (old1, s2) \<leftarrow> (if ch_memberlist ch = [] then Some (old, s1)
       else do {
         sn \<leftarrow> ch_shortname ch;
         s' \<leftarrow> reload_members env a (rev (ch_memberlist ch)) s1;
         Some ((sn, rev (ch_memberlist ch)) # old, s') });
     s3 \<leftarrow> upd_chan s2 a (\<lambda>ch. ch\<lparr>ch_flags := ch_flags ch AND NOT channel_flags_permanent\<rparr>);
     (r, s4) \<leftarrow> channel_destroy (Some a) s3;
     Some (old1, s4) }"

fun reload_channels ::
  "chan_env \<Rightarrow> nat list \<Rightarrow> (cstring \<times> nat list) list \<Rightarrow> cstate \<Rightarrow> ((cstring \<times> nat list) list \<times> cstate) option" where
  "reload_channels env [] old s = Some (old, s)"
| "reload_channels env (a # as) old s = do {
     (old1, s1) \<leftarrow> reload_channel env a old s;
     reload_channels env as old1 s1 }"

fun rejoin_members :: "chan_env \<Rightarrow> cstring \<Rightarrow> nat list \<Rightarrow> cstate \<Rightarrow> cstate option" where
  "rejoin_members env sn [] s = Some s"
| "rejoin_members env sn (m # ms) s = do { (r, s1) \<leftarrow> conn_set_channel env m (Some sn) s; rejoin_members env sn ms s1 }"

fun rejoin_channels :: "chan_env \<Rightarrow> (cstring \<times> nat list) list \<Rightarrow> cstate \<Rightarrow> cstate option" where
  "rejoin_channels env [] s = Some s"
| "rejoin_channels env ((sn, ms) # old) s = do { s1 \<leftarrow> rejoin_members env sn ms s; rejoin_channels env old s1 }"

definition channellist_reload :: "chan_env \<Rightarrow> cstring list \<Rightarrow> cstate \<Rightarrow> cstate option" where
  "channellist_reload env lines s = do {
     (old, s1) \<leftarrow> reload_channels env (s_list s) [] s;
     s2 \<leftarrow> channellist_load_permanent env lines (s1\<lparr>s_list := []\<rparr>);
     rejoin_channels env old s2 }"

definition conn_kick_channel :: "chan_env \<Rightarrow> nat \<Rightarrow> cstring option \<Rightarrow> cstate \<Rightarrow> (int \<times> cstate) option" where
  "conn_kick_channel env c txt s = do {
     cn \<leftarrow> s_conns s c;
     (case c_channel cn of None \<Rightarrow> Some (-1, s)
      | Some a \<Rightarrow> do {
          (r, s1) \<leftarrow> channel_del_connection env a c message_type_kick txt s;
          s2 \<leftarrow> upd_conn s1 c (c_channel_update (\<lambda>_. None));
          Some (0, s2) }) }"

end
