(* ===== verification/Channel_Inv.thy ===== *)
theory Channel_Inv
  imports Channels
begin

text \<open>
  The invariant of the channels and connections of \<^verbatim>\<open>bnetd/channel.cpp\<close>, the termination of the search
  by name, the delivery of messages and the bans.
\<close>

section \<open>Steps that leave the channels alone\<close>

definition ckey :: "t_connection \<Rightarrow> nat option \<times> nat option \<times> conn_class \<times> bool" where
  "ckey cn = (c_channel cn, c_account cn, c_class cn, c_game cn)"

definition quiet :: "cstate \<Rightarrow> cstate \<Rightarrow> bool" where
  "quiet s s' \<longleftrightarrow> s_chans s' = s_chans s \<and> s_list s' = s_list s \<and> s_next s' = s_next s
     \<and> (\<forall>c. map_option ckey (s_conns s' c) = map_option ckey (s_conns s c))"

definition live :: "cstate \<Rightarrow> bool" where
  "live s \<longleftrightarrow> (\<forall>a ch c. s_chans s a = Some ch \<longrightarrow> c \<in> set (ch_memberlist ch) \<longrightarrow> s_conns s c \<noteq> None)
     \<and> (\<forall>c cn a. s_conns s c = Some cn \<longrightarrow> c_channel cn = Some a \<longrightarrow> s_chans s a \<noteq> None)"

lemma quiet_refl [simp]: "quiet s s"
  by (simp add: quiet_def)

lemma quiet_trans [trans]: "quiet s s' \<Longrightarrow> quiet s' s'' \<Longrightarrow> quiet s s''"
  by (simp add: quiet_def)

lemma quiet_conn: "quiet s s' \<Longrightarrow> s_conns s c = Some cn \<Longrightarrow> \<exists>cn'. s_conns s' c = Some cn' \<and> ckey cn' = ckey cn"
  by (auto simp: quiet_def dest!: spec [of _ c])

lemma quiet_conn_back: "quiet s s' \<Longrightarrow> s_conns s' c = Some cn' \<Longrightarrow> \<exists>cn. s_conns s c = Some cn \<and> ckey cn' = ckey cn"
  by (cases "s_conns s c") (auto simp: quiet_def dest!: spec [of _ c])

lemma quiet_none: "quiet s s' \<Longrightarrow> s_conns s' c = None \<longleftrightarrow> s_conns s c = None"
  by (auto simp: quiet_def dest!: spec [of _ c])

lemma quiet_live: "quiet s s' \<Longrightarrow> live s \<Longrightarrow> live s'"
  unfolding live_def
proof (intro conjI allI impI; elim conjE)
  fix a ch c assume q: "quiet s s'" and "s_chans s' a = Some ch" and "c \<in> set (ch_memberlist ch)"
    and "\<forall>a ch c. s_chans s a = Some ch \<longrightarrow> c \<in> set (ch_memberlist ch) \<longrightarrow> s_conns s c \<noteq> None"
  then show "s_conns s' c \<noteq> None"
    by (metis quiet_def quiet_none)
next
  fix c cn a assume q: "quiet s s'" and c: "s_conns s' c = Some cn" "c_channel cn = Some a"
    and ptr: "\<forall>c cn a. s_conns s c = Some cn \<longrightarrow> c_channel cn = Some a \<longrightarrow> s_chans s a \<noteq> None"
  obtain cn0 where "s_conns s c = Some cn0" and "ckey cn = ckey cn0"
    using quiet_conn_back [OF q c(1)] by blast
  then show "s_chans s' a \<noteq> None"
    using ptr c(2) q by (auto simp: ckey_def quiet_def)
qed

lemma live_member: "live s \<Longrightarrow> s_chans s a = Some ch \<Longrightarrow> c \<in> set (ch_memberlist ch) \<Longrightarrow> \<exists>cn. s_conns s c = Some cn"
  by (auto simp: live_def)

lemma live_channel: "live s \<Longrightarrow> s_conns s c = Some cn \<Longrightarrow> c_channel cn = Some a \<Longrightarrow> \<exists>ch. s_chans s a = Some ch"
  by (auto simp: live_def)

lemma emit_quiet [simp]: "quiet s (emit evs s)"
  by (simp add: quiet_def emit_def)

lemma emit_sel [simp]: "s_conns (emit evs s) = s_conns s" "s_chans (emit evs s) = s_chans s"
  "s_list (emit evs s) = s_list s" "s_next (emit evs s) = s_next s"
  by (simp_all add: emit_def)

lemma message_send_sel [simp]:
  "s_conns (message_send env ty src tx dst s) = s_conns s" "s_chans (message_send env ty src tx dst s) = s_chans s"
  "s_list (message_send env ty src tx dst s) = s_list s" "s_next (message_send env ty src tx dst s) = s_next s"
  by (simp_all add: message_send_def)

lemma message_send_text_sel [simp]:
  "s_conns (message_send_text env dst ty src tx s) = s_conns s" "s_chans (message_send_text env dst ty src tx s) = s_chans s"
  "s_list (message_send_text env dst ty src tx s) = s_list s" "s_next (message_send_text env dst ty src tx s) = s_next s"
  by (simp_all add: message_send_text_def)

lemma same_quiet: "s_conns s' = s_conns s \<Longrightarrow> s_chans s' = s_chans s \<Longrightarrow> s_list s' = s_list s \<Longrightarrow> s_next s' = s_next s
    \<Longrightarrow> quiet s s'"
  by (simp add: quiet_def)

lemma message_send_text_quiet [simp]: "quiet s (message_send_text env dst ty src tx s)"
  by (rule same_quiet) simp_all

lemma channel_message_log_quiet:
  "s_chans s a = Some ch \<Longrightarrow> \<exists>s'. channel_message_log a me fu tx s = Some s' \<and> s_conns s' = s_conns s
     \<and> s_chans s' = s_chans s \<and> s_list s' = s_list s \<and> s_next s' = s_next s"
  by (auto simp: channel_message_log_def)

lemma send_members_quiet:
  "(\<And>c. c \<in> set ms \<Longrightarrow> s_conns s c \<noteq> None) \<Longrightarrow>
   \<exists>h s'. send_members env ch ty me tn tx ms heard s = Some (h, s') \<and> s_conns s' = s_conns s
     \<and> s_chans s' = s_chans s \<and> s_list s' = s_list s \<and> s_next s' = s_next s"
proof (induction ms arbitrary: heard s)
  case (Cons m ms)
  then obtain cn where cn: "s_conns s m = Some cn" by fastforce
  show ?case
  proof (cases "skip_member env ch ty me tn m cn")
    case True
    then show ?thesis using Cons.IH [of s heard] Cons.prems cn by simp
  next
    case False
    then show ?thesis
      using Cons.IH [of "message_send env ty me tx m s" "heard \<or> (send_ok env ty m \<and> m \<noteq> me)"] Cons.prems cn
      by simp
  qed
qed simp

lemma channel_message_send_same:
  assumes "live s" and "s_chans s a = Some ch" and "s_conns s me = Some mn"
  shows "\<exists>s'. channel_message_send env a ty me tx s = Some s' \<and> s_conns s' = s_conns s
     \<and> s_chans s' = s_chans s \<and> s_list s' = s_list s \<and> s_next s' = s_next s"
proof -
  obtain h s' where "send_members env ch ty me (chatname env me) tx (ch_memberlist ch) False s = Some (h, s')"
    and "s_conns s' = s_conns s \<and> s_chans s' = s_chans s \<and> s_list s' = s_list s \<and> s_next s' = s_next s"
    using send_members_quiet [of "ch_memberlist ch" s] live_member [OF assms(1,2)] by (metis option.simps(3))
  then show ?thesis
    using assms(2,3) by (simp add: channel_message_send_def Let_def)
qed

lemma foldl_message_send [simp]:
  "s_conns (foldl (\<lambda>s c. message_send env ty me tx c s) s ms) = s_conns s"
  "s_chans (foldl (\<lambda>s c. message_send env ty me tx c s) s ms) = s_chans s"
  "s_list (foldl (\<lambda>s c. message_send env ty me tx c s) s ms) = s_list s"
  "s_next (foldl (\<lambda>s c. message_send env ty me tx c s) s ms) = s_next s"
  by (induction ms arbitrary: s) simp_all

lemma announce_join_sel [simp]:
  "s_conns (announce_join env c g ms s) = s_conns s" "s_chans (announce_join env c g ms s) = s_chans s"
  "s_list (announce_join env c g ms s) = s_list s" "s_next (announce_join env c g ms s) = s_next s"
  by (induction ms arbitrary: s) (simp_all add: Let_def)

lemma upd_conn_quiet:
  "s_conns s c = Some cn \<Longrightarrow> ckey (f cn) = ckey cn \<Longrightarrow> \<exists>s'. upd_conn s c f = Some s' \<and> quiet s s'"
  by (auto simp: upd_conn_def quiet_def)

lemma channel_update_userflags_quiet:
  "live s \<Longrightarrow> s_conns s c = Some cn \<Longrightarrow> \<exists>s'. channel_update_userflags env c s = Some s' \<and> quiet s s'"
  by (auto simp: channel_update_userflags_def quiet_def split: option.split dest: live_channel)

lemma conn_set_flags_quiet:
  assumes "live s" and "s_conns s c = Some cn"
  shows "\<exists>s'. conn_set_flags env c fl s = Some s' \<and> quiet s s'"
proof -
  obtain s1 where s1: "upd_conn s c (c_flags_update (\<lambda>_. fl)) = Some s1" and q1: "quiet s s1"
    using upd_conn_quiet [OF assms(2), of "c_flags_update (\<lambda>_. fl)"] by (auto simp: ckey_def)
  obtain cn1 where "s_conns s1 c = Some cn1" using quiet_conn [OF q1 assms(2)] by blast
  then obtain s2 where "channel_update_userflags env c s1 = Some s2" and "quiet s1 s2"
    using channel_update_userflags_quiet [OF quiet_live [OF q1 assms(1)]] by blast
  then show ?thesis
    using s1 q1 assms(2) quiet_trans [OF q1] by (simp add: conn_set_flags_def)
qed

lemma channel_set_userflags_quiet:
  assumes "live s" and "s_conns s c = Some cn"
  shows "\<exists>r s'. channel_set_userflags env c s = Some (r, s') \<and> quiet s s'"
proof (cases "c_channel cn")
  case None
  then show ?thesis using assms(2) by (simp add: channel_set_userflags_def)
next
  case (Some a)
  then obtain ch where ch: "s_chans s a = Some ch" using live_channel assms by blast
  have "\<exists>fl. channel_set_userflags env c s = (if c_flags cn \<noteq> fl
     then do { s1 \<leftarrow> conn_set_flags env c fl s; s2 \<leftarrow> channel_update_userflags env c s1; Some (0, s2) } else Some (0, s))"
    unfolding channel_set_userflags_def Let_def assms(2) Option.bind.bind_lunit Some ch option.case by (rule exI, rule refl)
  then obtain fl where fl: "channel_set_userflags env c s = (if c_flags cn \<noteq> fl
     then do { s1 \<leftarrow> conn_set_flags env c fl s; s2 \<leftarrow> channel_update_userflags env c s1; Some (0, s2) } else Some (0, s))"
    by blast
  have "\<exists>s1 s2. conn_set_flags env c fl s = Some s1 \<and> channel_update_userflags env c s1 = Some s2 \<and> quiet s s2"
  proof -
    obtain s1 where s1: "conn_set_flags env c fl s = Some s1" "quiet s s1"
      using conn_set_flags_quiet [OF assms] by blast
    obtain cn1 where "s_conns s1 c = Some cn1" using quiet_conn [OF s1(2) assms(2)] by blast
    then obtain s2 where "channel_update_userflags env c s1 = Some s2" "quiet s1 s2"
      using channel_update_userflags_quiet [OF quiet_live [OF s1(2) assms(1)]] by blast
    then show ?thesis using s1 quiet_trans by blast
  qed
  then show ?thesis
    unfolding fl by (cases "c_flags cn = fl") auto
qed

section \<open>The invariant\<close>

text \<open>
  \<open>shape S E\<close>: the channel list holds every channel once; the members of a channel are the connections
  that are in it, counted by \<open>currmembers\<close>; a channel that is not permanent has a member. The
  connections in \<open>S\<close> and the channels in \<open>E\<close> are excepted, in the middle of an operation.
\<close>

definition chan_ok :: "bool \<Rightarrow> t_channel \<Rightarrow> bool" where
  "chan_ok may_be_empty ch \<longleftrightarrow> distinct (ch_memberlist ch) \<and> ch_currmembers ch = int (length (ch_memberlist ch))
     \<and> (ch_memberlist ch = [] \<longrightarrow> may_be_empty \<or> has_flag ch channel_flags_permanent)"

definition list_ok :: "cstate \<Rightarrow> bool" where
  "list_ok s \<longleftrightarrow> distinct (s_list s) \<and> (\<forall>a. a \<in> set (s_list s) \<longleftrightarrow> s_chans s a \<noteq> None) \<and> (\<forall>a \<in> set (s_list s). a < s_next s)"

definition link_ok :: "nat set \<Rightarrow> cstate \<Rightarrow> bool" where
  "link_ok S s \<longleftrightarrow>
     (\<forall>a ch c. s_chans s a = Some ch \<longrightarrow> c \<in> set (ch_memberlist ch) \<longrightarrow>
        (\<exists>cn. s_conns s c = Some cn \<and> (c \<notin> S \<longrightarrow> c_channel cn = Some a)))
     \<and> (\<forall>c cn a. s_conns s c = Some cn \<longrightarrow> c \<notin> S \<longrightarrow> c_channel cn = Some a \<longrightarrow>
        (\<exists>ch. s_chans s a = Some ch \<and> c \<in> set (ch_memberlist ch)))"

definition shape :: "nat set \<Rightarrow> nat set \<Rightarrow> cstate \<Rightarrow> bool" where
  "shape S E s \<longleftrightarrow> list_ok s \<and> (\<forall>a ch. s_chans s a = Some ch \<longrightarrow> chan_ok (a \<in> E) ch) \<and> link_ok S s"

abbreviation chan_inv :: "cstate \<Rightarrow> bool" where
  "chan_inv s \<equiv> shape {} {} s"

definition absent :: "nat \<Rightarrow> cstate \<Rightarrow> bool" where
  "absent c s \<longleftrightarrow> (\<forall>a ch. s_chans s a = Some ch \<longrightarrow> c \<notin> set (ch_memberlist ch))"

lemma link_okI:
  assumes "\<And>a ch c. s_chans s a = Some ch \<Longrightarrow> c \<in> set (ch_memberlist ch) \<Longrightarrow>
             \<exists>cn. s_conns s c = Some cn \<and> (c \<notin> S \<longrightarrow> c_channel cn = Some a)"
    and "\<And>c cn a. s_conns s c = Some cn \<Longrightarrow> c \<notin> S \<Longrightarrow> c_channel cn = Some a \<Longrightarrow>
             \<exists>ch. s_chans s a = Some ch \<and> c \<in> set (ch_memberlist ch)"
  shows "link_ok S s"
  unfolding link_ok_def using assms by blast

lemma link_ok_member: "link_ok S s \<Longrightarrow> s_chans s a = Some ch \<Longrightarrow> c \<in> set (ch_memberlist ch)
    \<Longrightarrow> \<exists>cn. s_conns s c = Some cn \<and> (c \<notin> S \<longrightarrow> c_channel cn = Some a)"
  unfolding link_ok_def by blast

lemma link_ok_channel: "link_ok S s \<Longrightarrow> s_conns s c = Some cn \<Longrightarrow> c \<notin> S \<Longrightarrow> c_channel cn = Some a
    \<Longrightarrow> \<exists>ch. s_chans s a = Some ch \<and> c \<in> set (ch_memberlist ch)"
  unfolding link_ok_def by blast

text \<open>The channels a link speaks of may change, as long as their members stay.\<close>

lemma link_ok_chans:
  assumes "link_ok S s" and "s_conns s' = s_conns s"
    and "\<And>a. map_option (set \<circ> ch_memberlist) (s_chans s' a) = map_option (set \<circ> ch_memberlist) (s_chans s a)"
  shows "link_ok S s'"
proof (rule link_okI)
  fix a ch c assume "s_chans s' a = Some ch" "c \<in> set (ch_memberlist ch)"
  then obtain ch0 where "s_chans s a = Some ch0" "c \<in> set (ch_memberlist ch0)"
    using assms(3) [of a] by (cases "s_chans s a") auto
  then show "\<exists>cn. s_conns s' c = Some cn \<and> (c \<notin> S \<longrightarrow> c_channel cn = Some a)"
    using link_ok_member [OF assms(1)] assms(2) by simp
next
  fix c cn a assume "s_conns s' c = Some cn" "c \<notin> S" "c_channel cn = Some a"
  then obtain ch0 where "s_chans s a = Some ch0" "c \<in> set (ch_memberlist ch0)"
    using link_ok_channel [OF assms(1)] assms(2) by metis
  then show "\<exists>ch. s_chans s' a = Some ch \<and> c \<in> set (ch_memberlist ch)"
    using assms(3) [of a] by (cases "s_chans s' a") auto
qed

lemma quiet_link_ok: "quiet s s' \<Longrightarrow> link_ok S s \<Longrightarrow> link_ok S s'"
  unfolding link_ok_def
proof (elim conjE, intro conjI allI impI)
  fix a ch c
  assume q: "quiet s s'" and "s_chans s' a = Some ch" and "c \<in> set (ch_memberlist ch)"
    and "\<forall>a ch c. s_chans s a = Some ch \<longrightarrow> c \<in> set (ch_memberlist ch) \<longrightarrow>
        (\<exists>cn. s_conns s c = Some cn \<and> (c \<notin> S \<longrightarrow> c_channel cn = Some a))"
  then obtain cn where "s_conns s c = Some cn" and "c \<notin> S \<longrightarrow> c_channel cn = Some a"
    by (metis quiet_def)
  then show "\<exists>cn. s_conns s' c = Some cn \<and> (c \<notin> S \<longrightarrow> c_channel cn = Some a)"
    using quiet_conn [OF q] by (force simp: ckey_def)
next
  fix c cn a
  assume q: "quiet s s'" and c: "s_conns s' c = Some cn" "c \<notin> S" "c_channel cn = Some a"
    and "\<forall>c cn a. s_conns s c = Some cn \<longrightarrow> c \<notin> S \<longrightarrow> c_channel cn = Some a \<longrightarrow>
        (\<exists>ch. s_chans s a = Some ch \<and> c \<in> set (ch_memberlist ch))"
  moreover obtain cn0 where "s_conns s c = Some cn0" and "ckey cn = ckey cn0"
    using quiet_conn_back [OF q c(1)] by blast
  ultimately show "\<exists>ch. s_chans s' a = Some ch \<and> c \<in> set (ch_memberlist ch)"
    by (simp add: ckey_def quiet_def)
qed

lemma quiet_shape: "quiet s s' \<Longrightarrow> shape S E s \<Longrightarrow> shape S E s'"
  using quiet_link_ok by (auto simp: shape_def quiet_def list_ok_def)

lemma quiet_absent: "quiet s s' \<Longrightarrow> absent c s \<Longrightarrow> absent c s'"
  by (simp add: absent_def quiet_def)

lemma shape_live: "shape S E s \<Longrightarrow> (\<forall>c \<in> S. \<forall>cn a. s_conns s c = Some cn \<longrightarrow> c_channel cn = Some a \<longrightarrow> s_chans s a \<noteq> None)
    \<Longrightarrow> live s"
  unfolding shape_def live_def link_ok_def by (metis option.simps(3))

lemma chan_inv_live: "shape {} E s \<Longrightarrow> live s"
  by (rule shape_live) blast+

lemma shape_list: "shape S E s \<Longrightarrow> a \<in> set (s_list s) \<Longrightarrow> \<exists>ch. s_chans s a = Some ch"
  by (auto simp: shape_def list_ok_def)

lemma shape_in_list: "shape S E s \<Longrightarrow> s_chans s a = Some ch \<Longrightarrow> a \<in> set (s_list s)"
  by (auto simp: shape_def list_ok_def)

lemma shape_chan_ok: "shape S E s \<Longrightarrow> s_chans s a = Some ch \<Longrightarrow> chan_ok (a \<in> E) ch"
  by (auto simp: shape_def)

lemma shape_member_of: "shape {} E s \<Longrightarrow> s_conns s c = Some cn \<Longrightarrow> c_channel cn = Some a
    \<Longrightarrow> \<exists>ch. s_chans s a = Some ch \<and> c \<in> set (ch_memberlist ch)"
  unfolding shape_def link_ok_def by blast

lemma shape_absent: "shape {} E s \<Longrightarrow> s_conns s c = Some cn \<Longrightarrow> c_channel cn = None \<Longrightarrow> absent c s"
  unfolding shape_def link_ok_def absent_def by fastforce

text \<open>Changing a channel's fields, its members apart.\<close>

lemma shape_upd_chan:
  assumes "shape S E s" and "s_chans s a = Some ch" and "ch_memberlist ch1 = ch_memberlist ch"
    and "ch_currmembers ch1 = ch_currmembers ch"
    and "ch_memberlist ch = [] \<Longrightarrow> has_flag ch1 channel_flags_permanent \<or> a \<in> E"
  shows "shape S E (s\<lparr>s_chans := (s_chans s)(a \<mapsto> ch1)\<rparr>)"
proof -
  have "chan_ok (a \<in> E) ch" using assms(1,2) by (rule shape_chan_ok)
  then have "chan_ok (a \<in> E) ch1" using assms(3-5) by (auto simp: chan_ok_def)
  moreover have "link_ok S (s\<lparr>s_chans := (s_chans s)(a \<mapsto> ch1)\<rparr>)"
    by (rule link_ok_chans [where s = s]) (use assms in \<open>auto simp: shape_def\<close>)
  moreover have "list_ok (s\<lparr>s_chans := (s_chans s)(a \<mapsto> ch1)\<rparr>)"
    using assms(1,2) by (auto simp: shape_def list_ok_def)
  ultimately show ?thesis using assms(1) by (simp add: shape_def)
qed

text \<open>Setting \<open>c_channel\<close> of a connection that is in no member list.\<close>

lemma link_set_channel:
  assumes "link_ok S s" and "absent c s" and "s_conns s c = Some cn" and "S \<subseteq> {c}"
  shows "link_ok {c} (s\<lparr>s_conns := (s_conns s)(c \<mapsto> cn\<lparr>c_channel := t\<rparr>)\<rparr>)" (is "link_ok _ ?s")
    and "t = None \<Longrightarrow> link_ok {} (s\<lparr>s_conns := (s_conns s)(c \<mapsto> cn\<lparr>c_channel := t\<rparr>)\<rparr>)"
proof -
  have m: "\<exists>cn. s_conns ?s d = Some cn \<and> c_channel cn = Some a" if "s_chans s a = Some ch" "d \<in> set (ch_memberlist ch)" for a ch d
  proof -
    have "d \<noteq> c" using assms(2) that by (auto simp: absent_def)
    then show ?thesis using link_ok_member [OF assms(1) that] assms(4) by auto
  qed
  have p: "\<exists>ch. s_chans s a = Some ch \<and> d \<in> set (ch_memberlist ch)"
    if "s_conns ?s d = Some cn'" "d \<noteq> c" "c_channel cn' = Some a" for d cn' a
    using link_ok_channel [OF assms(1), of d cn' a] assms(4) that by auto
  show "link_ok {c} ?s" by (rule link_okI) (use m p in fastforce)+
  show "link_ok {} ?s" if "t = None"
  proof (rule link_okI)
    fix d cn' a assume d: "s_conns ?s d = Some cn'" "c_channel cn' = Some a"
    then have "d \<noteq> c" using that by auto
    then show "\<exists>ch. s_chans ?s a = Some ch \<and> d \<in> set (ch_memberlist ch)" using p [OF d(1) _ d(2)] by simp
  qed (use m in fastforce)
qed

lemma shape_set_channel:
  assumes "shape S E s" and "absent c s" and "s_conns s c = Some cn" and "S \<subseteq> {c}"
  shows "shape {c} E (s\<lparr>s_conns := (s_conns s)(c \<mapsto> cn\<lparr>c_channel := t\<rparr>)\<rparr>)"
    and "t = None \<Longrightarrow> shape {} E (s\<lparr>s_conns := (s_conns s)(c \<mapsto> cn\<lparr>c_channel := t\<rparr>)\<rparr>)"
  using link_set_channel [of S s c cn t] assms by (auto simp: shape_def list_ok_def)

section \<open>Creating, adding, removing\<close>

definition created :: "cstate \<Rightarrow> t_channel \<Rightarrow> u32 \<Rightarrow> cstate" where
  "created s ch tot = s\<lparr>s_chans := (s_chans s)(s_next s \<mapsto> ch), s_list := s_list s @ [s_next s],
     s_next := s_next s + 1, s_totalcount := tot\<rparr>"

lemma find_fullname_total:
  "(\<And>a. a \<in> set as \<Longrightarrow> chans a \<noteq> None) \<Longrightarrow>
   \<exists>r. find_fullname chans name as = Some r \<and> (\<forall>a. r = Some a \<longrightarrow> a \<in> set as)"
proof (induction as)
  case (Cons a as)
  then obtain ch where "chans a = Some ch" by fastforce
  then show ?case using Cons by auto
qed simp

lemma create_refused_total:
  assumes "shape S E s"
  shows "\<exists>b. create_refused ca fullname s = Some b"
proof -
  obtain r where r: "find_fullname (s_chans s) fullname (s_list s) = Some r" "\<And>a. r = Some a \<Longrightarrow> a \<in> set (s_list s)"
    using find_fullname_total [of "s_list s" "s_chans s"] shape_list [OF assms] by (metis option.simps(3))
  show ?thesis
  proof (cases r)
    case (Some a)
    then obtain ch where "s_chans s a = Some ch" using r(2) shape_list [OF assms] by blast
    then show ?thesis using r Some by (simp add: create_refused_def channellist_find_channel_by_fullname_def)
  next
    case None
    then have "create_refused ca fullname s = Some False"
      using r by (simp add: create_refused_def channellist_find_channel_by_fullname_def)
    then show ?thesis by blast
  qed
qed

lemma permanent_bit: "bit (fl :: u32) 6 \<Longrightarrow> fl AND channel_flags_permanent \<noteq> 0"
proof
  assume b: "bit fl 6" and "fl AND channel_flags_permanent = 0"
  then have "\<not> bit (fl AND 0x40) 6" by (simp add: channel_flags_permanent_def)
  then show False using b by (simp add: bit_and_iff)
qed

lemma create_flags_permanent: "ca_permflag ca \<Longrightarrow> create_flags ca AND channel_flags_permanent \<noteq> 0"
  by (rule permanent_bit) (simp add: create_flags_def flag_if_def bit_or_iff channel_flags_permanent_def)

lemma channel_create_total:
  assumes "shape S E s"
  shows "channel_create env ca s = Some (None, s)
    \<or> (\<exists>ch tot. channel_create env ca s = Some (Some (s_next s), created s ch tot)
         \<and> ch_memberlist ch = [] \<and> ch_currmembers ch = 0 \<and> ch_banlist ch = [] \<and> ch_flags ch = create_flags ca
         \<and> Some (ch_name ch) = ca_fullname ca \<and> ch_maxmembers ch = ca_maxmembers ca)"
proof (cases "ca_fullname ca")
  case None
  then show ?thesis by (simp add: channel_create_def)
next
  case (Some fullname)
  obtain b where "create_refused ca fullname s = Some b" using create_refused_total [OF assms] by blast
  then show ?thesis using Some
    by (auto simp: channel_create_def created_def Let_def)
qed

lemma next_fresh: "shape S E s \<Longrightarrow> s_chans s (s_next s) = None"
  unfolding shape_def list_ok_def by (metis less_irrefl)

lemma shape_created:
  assumes "shape S E s" and "ch_memberlist ch = []" and "ch_currmembers ch = 0"
    and "has_flag ch channel_flags_permanent \<or> s_next s \<in> E'" and "E \<subseteq> E'"
  shows "shape S E' (created s ch tot)"
proof -
  have f: "s_chans s (s_next s) = None" using assms(1) by (rule next_fresh)
  have "link_ok S (created s ch tot)"
  proof (rule link_okI)
    fix a ch' c assume "s_chans (created s ch tot) a = Some ch'" "c \<in> set (ch_memberlist ch')"
    then show "\<exists>cn. s_conns (created s ch tot) c = Some cn \<and> (c \<notin> S \<longrightarrow> c_channel cn = Some a)"
      using link_ok_member [of S s a ch' c] assms(1,2) by (auto simp: created_def shape_def split: if_splits)
  next
    fix c cn a assume "s_conns (created s ch tot) c = Some cn" "c \<notin> S" "c_channel cn = Some a"
    then show "\<exists>ch'. s_chans (created s ch tot) a = Some ch' \<and> c \<in> set (ch_memberlist ch')"
      using link_ok_channel [of S s c cn a] assms(1) f by (auto simp: created_def shape_def)
  qed
  moreover have "list_ok (created s ch tot)"
    using assms(1) f by (auto simp: shape_def list_ok_def created_def less_Suc_eq)
  moreover have "chan_ok (a \<in> E') ch'" if "s_chans (created s ch tot) a = Some ch'" for a ch'
  proof (cases "a = s_next s")
    case True
    then show ?thesis using that assms(2-4) by (auto simp: created_def chan_ok_def)
  next
    case False
    then have "chan_ok (a \<in> E) ch'" using that assms(1) by (simp add: created_def shape_def)
    then show ?thesis using assms(5) by (auto simp: chan_ok_def)
  qed
  ultimately show ?thesis by (simp add: shape_def)
qed

lemma del_loop_spec:
  "c \<in> set (m # ms) \<Longrightarrow> (if m = c then Some ms else del_loop c (m # ms)) = Some (remove1 c (m # ms))"
proof (induction ms arbitrary: m)
  case (Cons n ms)
  show ?case
  proof (cases "m = c \<or> n = c")
    case False
    then show ?thesis using Cons.IH [of n] Cons.prems by auto
  qed auto
qed simp

definition add_member :: "nat \<Rightarrow> t_channel \<Rightarrow> t_channel" where
  "add_member c ch = ch\<lparr>ch_memberlist := c # ch_memberlist ch, ch_currmembers := ch_currmembers ch + 1\<rparr>"

definition drop_member :: "nat \<Rightarrow> t_channel \<Rightarrow> t_channel" where
  "drop_member c ch = ch\<lparr>ch_memberlist := remove1 c (ch_memberlist ch), ch_currmembers := ch_currmembers ch - 1\<rparr>"

text \<open>The state after the member has been added is a state of the invariant without exceptions.\<close>

lemma shape_add_member:
  assumes "shape {c} E s" and "E \<subseteq> {a}" and "absent c s" and "s_conns s c = Some cn" and "c_channel cn = Some a"
    and "s_chans s a = Some ch"
  shows "shape {} {} (s\<lparr>s_chans := (s_chans s)(a \<mapsto> add_member c ch)\<rparr>)" (is "shape {} {} ?s")
proof -
  have "link_ok {} ?s"
  proof (rule link_okI)
    fix b ch' d assume b: "s_chans ?s b = Some ch'" "d \<in> set (ch_memberlist ch')"
    show "\<exists>cn. s_conns ?s d = Some cn \<and> (d \<notin> {} \<longrightarrow> c_channel cn = Some b)"
    proof (cases "d = c")
      case True
      then have "b = a" using b assms(3) by (auto simp: absent_def split: if_splits)
      then show ?thesis using True assms(4,5) by simp
    next
      case False
      then obtain ch0 where "s_chans s b = Some ch0" "d \<in> set (ch_memberlist ch0)"
        using b assms(6) by (auto simp: add_member_def split: if_splits)
      then show ?thesis using link_ok_member [of "{c}" s b ch0 d] assms(1) False by (simp add: shape_def)
    qed
  next
    fix d cn' b assume d: "s_conns ?s d = Some cn'" "d \<notin> {}" "c_channel cn' = Some b"
    show "\<exists>ch. s_chans ?s b = Some ch \<and> d \<in> set (ch_memberlist ch)"
    proof (cases "d = c")
      case True
      then show ?thesis using d assms(4,5) by (auto simp: add_member_def)
    next
      case False
      then show ?thesis using link_ok_channel [of "{c}" s d cn' b] d assms(1,6) by (auto simp: shape_def add_member_def)
    qed
  qed
  moreover have "list_ok ?s" using assms(1,6) by (auto simp: shape_def list_ok_def)
  moreover have "chan_ok (b \<in> {}) ch'" if "s_chans ?s b = Some ch'" for b ch'
  proof (cases "b = a")
    case True
    then show ?thesis using that shape_chan_ok [OF assms(1,6)] assms(3,6) by (auto simp: chan_ok_def add_member_def absent_def)
  next
    case False
    then have "b \<notin> E" using assms(2) by auto
    then show ?thesis using that False shape_chan_ok [OF assms(1), of b ch'] by simp
  qed
  ultimately show ?thesis by (simp add: shape_def)
qed

text \<open>After the member has been dropped its channel may be empty.\<close>

lemma shape_drop_member:
  assumes "shape {} E s" and "s_chans s a = Some ch" and "c \<in> set (ch_memberlist ch)"
  shows "shape {c} (insert a E) (s\<lparr>s_chans := (s_chans s)(a \<mapsto> drop_member c ch)\<rparr>)" (is "shape {c} _ ?s")
    and "absent c (s\<lparr>s_chans := (s_chans s)(a \<mapsto> drop_member c ch)\<rparr>)"
proof -
  have d: "distinct (ch_memberlist ch)" using shape_chan_ok [OF assms(1,2)] by (simp add: chan_ok_def)
  have a: "c_channel cn = Some b" if "s_chans s b = Some ch'" "e \<in> set (ch_memberlist ch')" "s_conns s e = Some cn" for b ch' e cn
    using link_ok_member [of "{}" s b ch' e] assms(1) that by (auto simp: shape_def)
  have "link_ok {c} ?s"
  proof (rule link_okI)
    fix b ch' e assume "s_chans ?s b = Some ch'" "e \<in> set (ch_memberlist ch')"
    then obtain ch0 where "s_chans s b = Some ch0" "e \<in> set (ch_memberlist ch0)"
      using assms(2) set_remove1_subset [of c "ch_memberlist ch"] by (auto simp: drop_member_def split: if_splits)
    then show "\<exists>cn. s_conns ?s e = Some cn \<and> (e \<notin> {c} \<longrightarrow> c_channel cn = Some b)"
      using link_ok_member [of "{}" s b ch0 e] assms(1) by (auto simp: shape_def)
  next
    fix e cn b assume e: "s_conns ?s e = Some cn" "e \<notin> {c}" "c_channel cn = Some b"
    then obtain ch0 where "s_chans s b = Some ch0" "e \<in> set (ch_memberlist ch0)"
      using link_ok_channel [of "{}" s e cn b] assms(1) by (auto simp: shape_def)
    then show "\<exists>ch'. s_chans ?s b = Some ch' \<and> e \<in> set (ch_memberlist ch')"
      using e assms(2) by (auto simp: drop_member_def)
  qed
  moreover have "list_ok ?s" using assms(1,2) by (auto simp: shape_def list_ok_def)
  moreover have "chan_ok (b \<in> insert a E) ch'" if "s_chans ?s b = Some ch'" for b ch'
  proof (cases "b = a")
    case True
    moreover have "Suc 0 \<le> length (ch_memberlist ch)" using length_pos_if_in_set [OF assms(3)] by (simp only: Suc_le_eq)
    ultimately show ?thesis using that shape_chan_ok [OF assms(1,2)] assms(3)
      by (auto simp: chan_ok_def drop_member_def length_remove1 of_nat_diff)
  qed (use that shape_chan_ok [OF assms(1), of b ch'] in simp)
  ultimately show "shape {c} (insert a E) ?s" by (simp add: shape_def)
  obtain cn where cn: "s_conns s c = Some cn" "c_channel cn = Some a"
    using link_ok_member [of "{}" s a ch c] assms by (auto simp: shape_def)
  show "absent c ?s"
    unfolding absent_def
  proof (intro allI impI)
    fix b ch' assume b: "s_chans ?s b = Some ch'"
    show "c \<notin> set (ch_memberlist ch')"
    proof (cases "b = a")
      case True
      then show ?thesis using b d by (auto simp: drop_member_def)
    next
      case False
      then show ?thesis using b a [of b ch' c cn] cn by auto
    qed
  qed
qed

section \<open>Joining and leaving keep the invariant\<close>

lemma conn_set_tmpOP_quiet:
  "s_conns s c = Some cn \<Longrightarrow> \<exists>s'. conn_set_tmpOP_channel s c t = Some s' \<and> quiet s s'"
  unfolding conn_set_tmpOP_channel_def by (rule upd_conn_quiet) (simp_all add: ckey_def)

lemma announce_quiet: "quiet s (announce_join env c g ms s)"
  by (rule same_quiet) simp_all

text \<open>What \<open>channel_add_connection\<close> does after the member has been added.\<close>

lemma tempop_quiet:
  assumes "live s" and "s_conns s c = Some cn"
  shows "\<exists>s'. (if b then do {
                s' \<leftarrow> conn_set_tmpOP_channel (message_send_text env c message_type_info c tx s) c t;
                channel_update_userflags env c s' } else Some s) = Some s' \<and> quiet s s'"
proof -
  let ?s = "message_send_text env c message_type_info c tx s"
  obtain s1 where s1: "conn_set_tmpOP_channel ?s c t = Some s1" "quiet ?s s1"
    using conn_set_tmpOP_quiet [of ?s c cn] assms(2) by auto
  have q: "quiet s s1" by (rule quiet_trans [OF message_send_text_quiet s1(2)])
  then obtain s2 where "channel_update_userflags env c s1 = Some s2" "quiet s1 s2"
    using channel_update_userflags_quiet [OF quiet_live [OF q assms(1)]] quiet_conn [OF q assms(2)] by blast
  then show ?thesis using s1(1) quiet_trans [OF q] by simp
qed

lemma userflags_quiet:
  assumes "live s" and "s_conns s c = Some cn"
  shows "\<exists>s'. (if b then do { (r, s') \<leftarrow> channel_set_userflags env c s;
                Some (message_send_text env c ty1 c None (message_send_text env c ty2 c None s')) } else Some s) = Some s'
     \<and> quiet s s'"
proof -
  obtain r s1 where s1: "channel_set_userflags env c s = Some (r, s1)" and q: "quiet s s1"
    using channel_set_userflags_quiet [OF assms] by blast
  have "quiet s1 (message_send_text env c ty1 c None (message_send_text env c ty2 c None s1))"
    by (rule quiet_trans [OF message_send_text_quiet message_send_text_quiet])
  then show ?thesis using s1 quiet_trans [OF q] by simp
qed

lemma channel_add_connection_total:
  assumes s: "shape {c} E s" "E \<subseteq> {a}" and c: "absent c s" "s_conns s c = Some cn" "c_channel cn = Some a"
    and ch: "s_chans s a = Some ch"
  shows "channel_check_banning env ch cn \<Longrightarrow> \<exists>s'. channel_add_connection env a c s = Some (-1, s') \<and> quiet s s'"
    and "\<not> channel_check_banning env ch cn \<Longrightarrow>
      \<exists>s'. channel_add_connection env a c s = Some (0, s') \<and> chan_inv s'
         \<and> quiet (s\<lparr>s_chans := (s_chans s)(a \<mapsto> add_member c ch)\<rparr>) s'"
proof -
  show "\<exists>s'. channel_add_connection env a c s = Some (-1, s') \<and> quiet s s'" if "channel_check_banning env ch cn"
  proof -
    obtain s1 where "channel_message_log a c False (Some ''JOIN FAILED (banned)'') s = Some s1" "quiet s s1"
      using channel_message_log_quiet [OF ch, of c False "Some ''JOIN FAILED (banned)''"] same_quiet by blast
    then show ?thesis using that ch c(2) by (simp add: channel_add_connection_def)
  qed
next
  assume nb: "\<not> channel_check_banning env ch cn"
  let ?ch = "add_member c ch" and ?s = "s\<lparr>s_chans := (s_chans s)(a \<mapsto> add_member c ch)\<rparr>"
  have inv: "chan_inv ?s" by (rule shape_add_member [OF s c ch])
  have a: "s_chans ?s a = Some ?ch" "s_conns ?s c = Some cn" using c by simp_all
  obtain s1 where s1: "channel_message_log a c False (Some ''JOINED'') ?s = Some s1" and q1: "quiet ?s s1"
    using channel_message_log_quiet [OF a(1), of c False "Some ''JOINED''"] same_quiet by blast
  let ?s2 = "message_send_text env c message_type_channel c (Some (ch_name ch)) s1"
  have q2: "quiet ?s ?s2" by (rule quiet_trans [OF q1 message_send_text_quiet])
  have step: "live t \<and> (\<exists>cn. s_conns t c = Some cn)" if "quiet ?s t" for t
    using quiet_live [OF that chan_inv_live [OF inv]] quiet_conn [OF that a(2)] by blast
  let ?b3 = "\<not> has_flag ch channel_flags_permanent \<and> \<not> has_flag ch channel_flags_thevoid
                 \<and> \<not> has_flag ch channel_flags_clan \<and> ch_currmembers ?ch = 1
                 \<and> account_is_operator_or_admin env (c_account cn) (ch_name ch) = 0"
  obtain s3 where s3: "(if ?b3 then do {
                s' \<leftarrow> conn_set_tmpOP_channel
                  (message_send_text env c message_type_info c (Some ''you are now tempOP for this channel'') ?s2)
                  c (Some (ch_name ch));
                channel_update_userflags env c s' } else Some ?s2) = Some s3" and "quiet ?s2 s3"
    using tempop_quiet step [OF q2] by metis
  then have q3: "quiet ?s s3" using quiet_trans [OF q2] by blast
  let ?s4 = "if \<not> has_flag ch channel_flags_thevoid then announce_join env c (c_game cn) (ch_memberlist ?ch) s3
                 else if \<not> c_game cn then message_send_text env c message_type_join c None s3 else s3"
  have q4: "quiet ?s ?s4"
    using quiet_trans [OF q3 announce_quiet] quiet_trans [OF q3 message_send_text_quiet] q3 by simp
  obtain s5 where s5: "(if conn_is_irc_variant cn \<and> \<not> c_game cn
              then do { (r, s') \<leftarrow> channel_set_userflags env c ?s4;
                        Some (message_send_text env c message_type_namreply c None
                          (message_send_text env c message_type_topic c None s')) }
              else Some ?s4) = Some s5" and "quiet ?s4 s5"
    using userflags_quiet step [OF q4] by metis
  then have q5: "quiet ?s s5" using quiet_trans [OF q4] by blast
  let ?s6 = "if ch_log ch then message_send_text env c message_type_info c None s5 else s5"
  have q6: "quiet ?s ?s6" using quiet_trans [OF q5 message_send_text_quiet] q5 by simp
  have "channel_add_connection env a c s = Some (0, ?s6)"
    using nb c(2) ch s1 s3 s5
    unfolding channel_add_connection_def add_member_def [symmetric] Let_def
    by (simp only: bind.bind_lunit if_False)
  then show "\<exists>s'. channel_add_connection env a c s = Some (0, s') \<and> chan_inv s' \<and> quiet ?s s'"
    using q6 quiet_shape [OF q6 inv] by blast
qed

lemma channel_destroy_nonempty:
  "s_chans s a = Some ch \<Longrightarrow> ch_memberlist ch = [] \<Longrightarrow>
   channel_destroy (Some a) s = Some (0, s\<lparr>s_chans := (s_chans s)(a := None), s_list := remove1 a (s_list s)\<rparr>)"
  by (simp add: channel_destroy_def)

lemma shape_destroy:
  assumes "shape S E s" and "s_chans s a = Some ch" and "ch_memberlist ch = []"
  shows "shape S (E - {a}) (s\<lparr>s_chans := (s_chans s)(a := None), s_list := remove1 a (s_list s)\<rparr>)"
    (is "shape _ _ ?s")
proof -
  have "link_ok S ?s"
    by (rule link_okI)
      (use assms link_ok_member [of S s] link_ok_channel [of S s] in \<open>fastforce simp: shape_def split: if_splits\<close>)+
  moreover have "list_ok ?s" using assms(1) by (auto simp: shape_def list_ok_def)
  moreover have "chan_ok (b \<in> E - {a}) ch'" if "s_chans ?s b = Some ch'" for b ch'
    using that shape_chan_ok [OF assms(1), of b ch'] by (auto split: if_splits)
  ultimately show ?thesis by (simp add: shape_def)
qed

definition destroyed :: "nat \<Rightarrow> cstate \<Rightarrow> cstate" where
  "destroyed a s = s\<lparr>s_chans := (s_chans s)(a := None), s_list := remove1 a (s_list s)\<rparr>"

definition goes_away :: "nat \<Rightarrow> t_channel \<Rightarrow> bool" where
  "goes_away c ch \<longleftrightarrow> remove1 c (ch_memberlist ch) = [] \<and> \<not> has_flag ch channel_flags_permanent"

lemma channel_del_connection_total:
  assumes inv: "shape {} E s" and ch: "s_chans s a = Some ch" and c: "c \<in> set (ch_memberlist ch)"
  shows "\<exists>t. quiet (s\<lparr>s_chans := (s_chans s)(a \<mapsto> drop_member c ch)\<rparr>) t
     \<and> channel_del_connection env a c mess tx s = Some (0, if goes_away c ch then destroyed a t else t)"
proof -
  obtain cn where cn: "s_conns s c = Some cn" using inv ch c link_ok_member [of "{}" s a ch c] by (auto simp: shape_def)
  have live: "live s" by (rule chan_inv_live [OF inv])
  obtain s1 where s1: "channel_message_send env a mess c tx s = Some s1"
    and e1: "s_conns s1 = s_conns s" "s_chans s1 = s_chans s" "s_list s1 = s_list s" "s_next s1 = s_next s"
    using channel_message_send_same [OF live ch cn] by blast
  obtain s2 where s2: "channel_message_log a c False (Some ''PARTED'') s1 = Some s2"
    and e2: "s_conns s2 = s_conns s1" "s_chans s2 = s_chans s1" "s_list s2 = s_list s1" "s_next s2 = s_next s1"
    using channel_message_log_quiet [of s1 a ch] ch e1(2) by metis
  let ?s3 = "s2\<lparr>s_chans := (s_chans s2)(a \<mapsto> drop_member c ch)\<rparr>"
  have q3: "quiet (s\<lparr>s_chans := (s_chans s)(a \<mapsto> drop_member c ch)\<rparr>) ?s3"
    by (rule same_quiet) (simp_all add: e1 e2)
  obtain m ms where m: "ch_memberlist ch = m # ms" using c by (cases "ch_memberlist ch") auto
  have del: "(if m = c then Some ms else del_loop c (m # ms)) = Some (remove1 c (ch_memberlist ch))"
    using del_loop_spec [of c m ms] c m by simp
  obtain s4 where s4: "(if c_tmpOP_channel cn = Some (ch_name ch) then conn_set_tmpOP_channel ?s3 c None else Some ?s3) = Some s4"
    and q4: "quiet ?s3 s4"
    using conn_set_tmpOP_quiet [of ?s3 c cn None] cn e1 e2 by (cases "c_tmpOP_channel cn = Some (ch_name ch)") auto
  have chan4: "s_chans s4 a = Some (drop_member c ch)" using q4 by (simp add: quiet_def)
  have "channel_destroy (Some a) s4 = Some (0, destroyed a s4)" if "goes_away c ch"
    unfolding destroyed_def by (rule channel_destroy_nonempty [OF chan4]) (use that in \<open>simp add: goes_away_def drop_member_def\<close>)
  then have "channel_del_connection env a c mess tx s = Some (0, if goes_away c ch then destroyed a s4 else s4)"
    using s1 s2 s4 ch cn e1 e2
    unfolding channel_del_connection_def
    by (simp only: bind.bind_lunit m list.case del option.case Let_def)
      (auto simp: m drop_member_def goes_away_def)
  then show ?thesis using quiet_trans [OF q3 q4] by blast
qed

text \<open>The three ways out of a channel.\<close>

definition leave :: "chan_env \<Rightarrow> t_message_type \<Rightarrow> nat \<Rightarrow> cstring option \<Rightarrow> cstate \<Rightarrow> (int \<times> cstate) option" where
  "leave env mess c tx s = do {
     cn \<leftarrow> s_conns s c;
     (case c_channel cn of None \<Rightarrow> Some (-1, s)
      | Some a \<Rightarrow> do {
          (r, s1) \<leftarrow> channel_del_connection env a c mess tx s;
          s2 \<leftarrow> upd_conn s1 c (c_channel_update (\<lambda>_. None));
          Some (0, s2) }) }"

lemma leave_simps:
  "conn_part_channel env c s = leave env message_type_part c None s"
  "conn_quit_channel env c tx s = leave env message_type_quit c tx s"
  "conn_kick_channel env c tx s = leave env message_type_kick c tx s"
  by (simp_all add: conn_part_channel_def conn_quit_channel_def conn_kick_channel_def leave_def)

text \<open>The connection \<open>c\<close> has left the channel at \<open>a\<close>.\<close>

definition has_left :: "nat \<Rightarrow> nat \<Rightarrow> t_channel \<Rightarrow> cstate \<Rightarrow> cstate \<Rightarrow> bool" where
  "has_left c a ch s s' \<longleftrightarrow>
     s_chans s' = (s_chans s)(a := if goes_away c ch then None else Some (drop_member c ch))
     \<and> s_list s' = (if goes_away c ch then remove1 a (s_list s) else s_list s) \<and> s_next s' = s_next s
     \<and> (\<forall>d. map_option ckey (s_conns s' d) =
           map_option ckey (if d = c then map_option (c_channel_update (\<lambda>_. None)) (s_conns s c) else s_conns s d))"

lemma leave_member:
  assumes inv: "chan_inv s" and ch: "s_chans s a = Some ch" and c: "c \<in> set (ch_memberlist ch)"
  shows "\<exists>s1 s'. channel_del_connection env a c mess tx s = Some (0, s1)
     \<and> upd_conn s1 c (c_channel_update (\<lambda>_. None)) = Some s' \<and> chan_inv s' \<and> has_left c a ch s s'"
proof -
  let ?d = "s\<lparr>s_chans := (s_chans s)(a \<mapsto> drop_member c ch)\<rparr>"
  obtain t where q: "quiet ?d t"
    and del: "channel_del_connection env a c mess tx s = Some (0, if goes_away c ch then destroyed a t else t)"
    using channel_del_connection_total [OF inv ch c] by blast
  let ?u = "if goes_away c ch then destroyed a t else t"
  obtain cn where cn: "s_conns s c = Some cn" using inv ch c link_ok_member [of "{}" s a ch c] by (auto simp: shape_def)
  obtain cn1 where cn1: "s_conns t c = Some cn1" "ckey cn1 = ckey cn" using quiet_conn [OF q, of c cn] cn by auto
  have st: "shape {c} {a} t" and at: "absent c t"
    using quiet_shape [OF q shape_drop_member(1) [OF inv ch c]] quiet_absent [OF q shape_drop_member(2) [OF inv ch c]] by simp_all
  have cht: "s_chans t a = Some (drop_member c ch)" using q by (simp add: quiet_def)
  have "shape {c} {} ?u \<and> absent c ?u"
  proof (cases "goes_away c ch")
    case True
    then have "shape {c} ({a} - {a}) (destroyed a t)"
      unfolding destroyed_def by (intro shape_destroy [OF st cht]) (simp add: goes_away_def drop_member_def)
    then show ?thesis using True at by (simp add: absent_def destroyed_def)
  next
    case False
    have "chan_ok False ch'" if "s_chans t b = Some ch'" for b ch'
      using shape_chan_ok [OF st that] False cht that
      by (cases "b = a") (auto simp: chan_ok_def goes_away_def drop_member_def has_flag_def)
    then show ?thesis using st at False by (simp add: shape_def)
  qed
  moreover have cu: "s_conns ?u c = Some cn1" using cn1 by (simp add: destroyed_def)
  ultimately have "chan_inv (?u\<lparr>s_conns := (s_conns ?u)(c \<mapsto> cn1\<lparr>c_channel := None\<rparr>)\<rparr>)"
    using shape_set_channel(2) [of "{c}" "{}" ?u c cn1 None] by simp
  moreover have "upd_conn ?u c (c_channel_update (\<lambda>_. None))
      = Some (?u\<lparr>s_conns := (s_conns ?u)(c \<mapsto> cn1\<lparr>c_channel := None\<rparr>)\<rparr>)"
    using cu by (simp add: upd_conn_def)
  moreover have "has_left c a ch s (?u\<lparr>s_conns := (s_conns ?u)(c \<mapsto> cn1\<lparr>c_channel := None\<rparr>)\<rparr>)"
    using q cn cn1(2) by (auto simp: has_left_def quiet_def destroyed_def ckey_def)
  ultimately show ?thesis using del by blast
qed

lemma leave_total:
  assumes inv: "chan_inv s" and cn: "s_conns s c = Some cn" and a: "c_channel cn = Some a"
  shows "\<exists>ch s'. s_chans s a = Some ch \<and> c \<in> set (ch_memberlist ch) \<and> leave env mess c tx s = Some (0, s') \<and> chan_inv s'
     \<and> has_left c a ch s s'"
proof -
  obtain ch where ch: "s_chans s a = Some ch" "c \<in> set (ch_memberlist ch)" using shape_member_of [OF inv cn a] by blast
  then obtain s1 s' where "channel_del_connection env a c mess tx s = Some (0, s1)"
     "upd_conn s1 c (c_channel_update (\<lambda>_. None)) = Some s'" "chan_inv s'" "has_left c a ch s s'"
    using leave_member [OF inv] by blast
  then show ?thesis using ch cn a by (auto simp: leave_def)
qed

lemma leave_any:
  assumes "chan_inv s" and "s_conns s c = Some cn"
  shows "\<exists>r s'. leave env mess c tx s = Some (r, s') \<and> chan_inv s'"
proof (cases "c_channel cn")
  case None
  then show ?thesis using assms by (simp add: leave_def)
next
  case (Some a)
  then show ?thesis using leave_total [OF assms Some] by blast
qed

lemma has_left_conn: "has_left c a ch s s' \<Longrightarrow> s_conns s c = Some cn
    \<Longrightarrow> \<exists>cn'. s_conns s' c = Some cn' \<and> ckey cn' = ckey (cn\<lparr>c_channel := None\<rparr>)"
  by (auto simp: has_left_def dest!: spec [of _ c])

section \<open>The search by name\<close>

lemma strcasecmp_refl: "strcasecmp s s = 0"
  by (induction s) auto

lemma find_loop_special:
  assumes "i < length (s_list s)" and "s_chans s (s_list s ! i) = Some chi" and "strcasecmp (ch_name chi) name \<noteq> 0"
    and "\<not> (case ch_shortname chi of None \<Rightarrow> True | Some sn \<Rightarrow> strcasecmp sn name \<noteq> 0)"
    and "find_loop env country realmname (ch_name chi) 0 find_start s = Some (Some b, s)" and "s_chans s b = Some chb"
  shows "find_loop env country realmname name i fl s =
    (if find_compatible country realmname fl chb \<and> has_room chb then Some (Some b, s)
     else find_loop env country realmname name (i + 1) (find_save country realmname chb fl) s)"
  using assms by (subst find_loop.simps) simp

text \<open>
  The search with the full name of the channel at position \<open>k\<close>, from a position up to \<open>k\<close>, ends at or
  before \<open>k\<close> with a channel of the list and changes nothing.
\<close>

lemma find_loop_nested:
  assumes "\<forall>j < length (s_list s). s_chans s (s_list s ! j) \<noteq> None"
  shows "k < length (s_list s) \<Longrightarrow> s_chans s (s_list s ! k) = Some ch \<Longrightarrow> i \<le> k \<Longrightarrow>
    strcasecmp (ch_name ch) name = 0 \<Longrightarrow>
    \<exists>a \<in> set (s_list s). find_loop env country realmname name i fl s = Some (Some a, s)"
proof (induction k arbitrary: ch name i fl rule: less_induct)
  case (less k)
  note outer = less.IH and k = less.prems(1,2) and name = less.prems(4)
  show ?case using less.prems(3)
  proof (induction "k - i" arbitrary: i fl rule: less_induct)
    case less
    then have i: "i < length (s_list s)" using k(1) by simp
    then obtain chi where chi: "s_chans s (s_list s ! i) = Some chi" using assms by blast
    have mem: "s_list s ! i \<in> set (s_list s)" using i by simp
    consider "strcasecmp (ch_name chi) name = 0"
      | "strcasecmp (ch_name chi) name \<noteq> 0" "i < k" using less.prems k(2) name chi by (cases "i = k") auto
    then show ?case
    proof cases
      case 1
      then show ?thesis using i chi mem by (subst find_loop.simps) simp
    next
      case 2
      have later: "\<exists>a \<in> set (s_list s). find_loop env country realmname name (i + 1) fl' s = Some (Some a, s)" for fl'
        by (rule less.hyps) (use 2 in auto)
      show ?thesis
      proof (cases "case ch_shortname chi of None \<Rightarrow> True | Some sn \<Rightarrow> strcasecmp sn name \<noteq> 0")
        case True
        then show ?thesis using 2 i chi later [of fl] by (subst find_loop.simps) simp
      next
        case False
        obtain b where b: "b \<in> set (s_list s)"
          "find_loop env country realmname (ch_name chi) 0 find_start s = Some (Some b, s)"
          using outer [OF 2(2) i chi, of 0 "ch_name chi" find_start] strcasecmp_refl by auto
        then obtain j where "j < length (s_list s)" "b = s_list s ! j" by (auto simp: in_set_conv_nth)
        then obtain chb where chb: "s_chans s b = Some chb" using assms by blast
        show ?thesis
          unfolding find_loop_special [OF i chi 2(1) False b(2) chb]
          using b(1) later [of "find_save country realmname chb fl"] by simp
      qed
    qed
  qed
qed

text \<open>The result of the whole search: a channel of the list with nothing changed, or what \<open>find_create\<close> gives.\<close>

definition name_or_shortname :: "cstring \<Rightarrow> t_channel \<Rightarrow> bool" where
  "name_or_shortname name ch \<longleftrightarrow> strcasecmp (ch_name ch) name = 0
     \<or> (case ch_shortname ch of None \<Rightarrow> False | Some sn \<Rightarrow> strcasecmp sn name = 0)"

lemma find_loop_total:
  assumes "\<forall>j < length (s_list s). s_chans s (s_list s ! j) \<noteq> None"
  shows "(\<exists>a ch. a \<in> set (s_list s) \<and> s_chans s a = Some ch \<and> find_loop env country realmname name i fl s = Some (Some a, s)
            \<and> (strcasecmp (ch_name ch) name = 0 \<or> has_room ch))
     \<or> (\<exists>fl'. find_loop env country realmname name i fl s = find_create env fl' s
          \<and> (fl_foundperm fl' \<longrightarrow> fl_foundperm fl
              \<or> (\<exists>a \<in> set (s_list s). \<exists>ch. s_chans s a = Some ch \<and> name_or_shortname name ch)))"
proof (induction "length (s_list s) - i" arbitrary: i fl rule: less_induct)
  case less
  show ?case
  proof (cases "length (s_list s) \<le> i")
    case True
    then show ?thesis by (intro disjI2 exI [of _ fl]) (simp add: find_loop.simps)
  next
    case False
    then have i: "i < length (s_list s)" by simp
    then obtain chi where chi: "s_chans s (s_list s ! i) = Some chi" using assms by blast
    have mem: "s_list s ! i \<in> set (s_list s)" using i by simp
    have later: "(\<exists>a ch. a \<in> set (s_list s) \<and> s_chans s a = Some ch \<and> find_loop env country realmname name (i + 1) fl1 s = Some (Some a, s)
            \<and> (strcasecmp (ch_name ch) name = 0 \<or> has_room ch))
     \<or> (\<exists>fl'. find_loop env country realmname name (i + 1) fl1 s = find_create env fl' s
          \<and> (fl_foundperm fl' \<longrightarrow> fl_foundperm fl1
              \<or> (\<exists>a \<in> set (s_list s). \<exists>ch. s_chans s a = Some ch \<and> name_or_shortname name ch)))" for fl1
      by (rule less) (use i in simp)
    consider "strcasecmp (ch_name chi) name = 0"
      | "strcasecmp (ch_name chi) name \<noteq> 0" "case ch_shortname chi of None \<Rightarrow> True | Some sn \<Rightarrow> strcasecmp sn name \<noteq> 0"
      | "strcasecmp (ch_name chi) name \<noteq> 0" "\<not> (case ch_shortname chi of None \<Rightarrow> True | Some sn \<Rightarrow> strcasecmp sn name \<noteq> 0)"
      by blast
    then show ?thesis
    proof cases
      case 1
      then show ?thesis using i chi mem by (intro disjI1 exI conjI) (simp_all add: find_loop.simps)
    next
      case 2
      then have "find_loop env country realmname name i fl s = find_loop env country realmname name (i + 1) fl s"
        using i chi by (subst find_loop.simps) simp
      then show ?thesis using later [of fl] by simp
    next
      case 3
      have ns: "name_or_shortname name chi" using 3 by (simp add: name_or_shortname_def split: option.splits)
      obtain b where b: "b \<in> set (s_list s)"
          "find_loop env country realmname (ch_name chi) 0 find_start s = Some (Some b, s)"
        using find_loop_nested [OF assms i chi le0 strcasecmp_refl, of env country realmname find_start] by blast
      then obtain j where "j < length (s_list s)" "b = s_list s ! j" by (auto simp: in_set_conv_nth)
      then obtain chb where chb: "s_chans s b = Some chb" using assms by blast
      have step: "find_loop env country realmname name i fl s =
          (if find_compatible country realmname fl chb \<and> has_room chb then Some (Some b, s)
           else find_loop env country realmname name (i + 1) (find_save country realmname chb fl) s)"
        by (rule find_loop_special [OF i chi 3 b(2) chb])
      show ?thesis
      proof (cases "find_compatible country realmname fl chb \<and> has_room chb")
        case True
        then show ?thesis using step b(1) chb by auto
      next
        case False
        then show ?thesis using step later [of "find_save country realmname chb fl"] mem chi ns
          by (simp only: if_False) blast
      qed
    qed
  qed
qed

lemma shape_nth:
  assumes "shape S E s"
  shows "\<forall>j < length (s_list s). s_chans s (s_list s ! j) \<noteq> None"
  using shape_list [OF assms nth_mem] by fastforce

lemma find_create_total:
  assumes "chan_inv s"
  shows "\<exists>r s'. find_create env fl s = Some (r, s') \<and> chan_inv s' \<and> s_conns s' = s_conns s
    \<and> (r = None \<and> s' = s \<or> (\<exists>ch tot. r = Some (s_next s) \<and> s' = created s ch tot \<and> has_flag ch channel_flags_permanent))
    \<and> (r \<noteq> None \<longrightarrow> fl_foundperm fl)"
proof -
  have c: "\<exists>r s'. channel_create env ca s = Some (r, s') \<and> chan_inv s' \<and> s_conns s' = s_conns s
      \<and> (r = None \<and> s' = s \<or> (\<exists>ch tot. r = Some (s_next s) \<and> s' = created s ch tot \<and> has_flag ch channel_flags_permanent))"
    if "ca_permflag ca" for ca
  proof (cases "channel_create env ca s = Some (None, s)")
    case True
    then show ?thesis using assms by simp
  next
    case False
    then obtain ch tot where ch: "channel_create env ca s = Some (Some (s_next s), created s ch tot)"
      "ch_memberlist ch = []" "ch_currmembers ch = 0" "ch_flags ch = create_flags ca"
      using channel_create_total [OF assms] by blast
    have p: "has_flag ch channel_flags_permanent"
      using create_flags_permanent [OF that] ch(4) by (simp add: has_flag_def)
    then have "chan_inv (created s ch tot)" using shape_created [OF assms ch(2,3), of "{}"] by simp
    moreover have "s_conns (created s ch tot) = s_conns s" by (simp add: created_def)
    ultimately show ?thesis using ch(1) p by blast
  qed
  define nm where "nm = (if \<not> fl_foundlang fl \<or> fl_specialname fl = None
                       then channel_format_name (fl_shortname fl) (fl_country fl) (fl_realmname fl) (fl_maxchannel fl + 1)
                       else channel_format_name (fl_specialname fl) None (fl_realmname fl) (fl_maxchannel fl + 1))"
  show ?thesis
  proof (cases "fl_foundperm fl")
    case False
    then show ?thesis using assms by (simp add: find_create_def)
  next
    case True
    show ?thesis
    proof (cases nm)
      case None
      then have "find_create env fl s = Some (None, s)"
        using True unfolding find_create_def Let_def nm_def [symmetric] by simp
      then show ?thesis using assms by simp
    next
      case (Some n)
      then show ?thesis using True c unfolding find_create_def Let_def nm_def [symmetric] by simp
    qed
  qed
qed

lemma created_conns [simp]: "s_conns (created s ch tot) = s_conns s"
  by (simp add: created_def)

text \<open>The channels that were there before are untouched.\<close>

definition keeps :: "cstate \<Rightarrow> cstate \<Rightarrow> bool" where
  "keeps s s' \<longleftrightarrow> (\<forall>a ch. s_chans s a = Some ch \<longrightarrow> s_chans s' a = Some ch)"

lemma keeps_created: "shape S E s \<Longrightarrow> keeps s (created s ch tot)"
  using next_fresh [of S E s] by (auto simp: keeps_def created_def)

lemma keeps_same: "s_chans s' = s_chans s \<Longrightarrow> keeps s s'"
  by (simp add: keeps_def)

lemma find_by_name_total:
  assumes "chan_inv s"
  shows "\<exists>r s'. channellist_find_channel_by_name env name country realmname s = Some (r, s') \<and> chan_inv s'
    \<and> s_conns s' = s_conns s \<and> keeps s s' \<and> (\<forall>a. r = Some a \<longrightarrow> a \<in> set (s_list s'))"
proof -
  from find_loop_total [OF shape_nth [OF assms], of env country realmname name 0 find_start]
  show ?thesis
  proof (elim disjE exE conjE, goal_cases)
    case (1 a ch)
    then show ?thesis using assms by (simp add: channellist_find_channel_by_name_def keeps_def)
  next
    case (2 a ch)
    then show ?thesis using assms by (simp add: channellist_find_channel_by_name_def keeps_def)
  next
    case (3 fl')
    then have f: "find_loop env country realmname name 0 find_start s = find_create env fl' s" by simp
    obtain r s' where "find_create env fl' s = Some (r, s')" "chan_inv s'" "s_conns s' = s_conns s"
      and r: "r = None \<and> s' = s \<or> (\<exists>ch tot. r = Some (s_next s) \<and> s' = created s ch tot \<and> has_flag ch channel_flags_permanent)"
      using find_create_total [OF assms] by metis
    moreover have "keeps s s'" using r keeps_created [OF assms] by (auto simp: keeps_def)
    moreover have "\<forall>a. r = Some a \<longrightarrow> a \<in> set (s_list s')" using r by (auto simp: created_def)
    ultimately show ?thesis using f by (simp add: channellist_find_channel_by_name_def)
  qed
qed

section \<open>Entering a channel\<close>

definition same_conns :: "cstate \<Rightarrow> cstate \<Rightarrow> bool" where
  "same_conns s s' \<longleftrightarrow> (\<forall>c. map_option ckey (s_conns s' c) = map_option ckey (s_conns s c))"

lemma quiet_same_conns: "quiet s s' \<Longrightarrow> same_conns s s'"
  by (simp add: quiet_def same_conns_def)

lemma same_conns_trans: "same_conns s s' \<Longrightarrow> same_conns s' s'' \<Longrightarrow> same_conns s s''"
  by (simp add: same_conns_def)

lemma same_conns_eq: "s_conns s' = s_conns s \<Longrightarrow> same_conns s s'"
  by (simp add: same_conns_def)

lemma same_conns_conn: "same_conns s s' \<Longrightarrow> s_conns s c = Some cn \<Longrightarrow> \<exists>cn'. s_conns s' c = Some cn' \<and> ckey cn' = ckey cn"
  by (auto simp: same_conns_def dest!: spec [of _ c])

lemma inv_message [simp]: "shape S E (message_send_text env dst ty src tx s) \<longleftrightarrow> shape S E s"
  by (simp add: shape_def link_ok_def list_ok_def)

lemma inv_emit [simp]: "shape S E (emit evs s) \<longleftrightarrow> shape S E s"
  by (simp add: shape_def link_ok_def list_ok_def)

lemma clan_checks_total:
  assumes inv: "chan_inv s" and cn: "s_conns s c = Some cn"
    and ch: "\<And>a. channel = Some a \<Longrightarrow> a \<in> set (s_list s) \<and> c_channel cn \<noteq> Some a"
  shows "(\<exists>r s'. clan_checks env c cn acc name clantag channel s = Some (Inl (r, s')) \<and> chan_inv s' \<and> same_conns s s')
     \<or> (\<exists>ch clan s'. clan_checks env c cn acc name clantag channel s = Some (Inr (ch, clan, s')) \<and> chan_inv s'
          \<and> same_conns s s' \<and> keeps s s' \<and> (\<forall>a. ch = Some a \<longrightarrow> a \<in> set (s_list s') \<and> (c_channel cn = Some a \<longrightarrow> c_game cn)))"
proof -
  have same: "\<exists>ch' clan' s'. Some (Inr (channel, clan, s)) = Some (Inr (ch', clan', s')) \<and> chan_inv s'
      \<and> same_conns s s' \<and> keeps s s' \<and> (\<forall>a. ch' = Some a \<longrightarrow> a \<in> set (s_list s') \<and> (c_channel cn = Some a \<longrightarrow> c_game cn))"
    for clan :: "u32 option"
    by (rule exI [of _ channel], rule exI [of _ clan], rule exI [of _ s])
      (use inv ch in \<open>auto intro: same_conns_eq keeps_same\<close>)
  show ?thesis
  proof (cases "clantag \<noteq> 0 \<and> \<not> (account_get_auth_admin env (Some acc) (Some name) = 1
                              \<or> account_get_auth_admin env (Some acc) None = 1)")
    case False
    then show ?thesis unfolding clan_checks_def using same by auto
  next
    case True
    note clan = True
    show ?thesis
    proof (cases "clan_of env acc \<noteq> Some clantag")
      case True
      show ?thesis
      proof (cases channel)
        case (Some a)
        then show ?thesis
          using clan True inv same [of "clan_of env acc"]
          by (cases "clan_private env clantag") (auto simp: clan_checks_def intro!: same_conns_eq)
      next
        case None
        let ?s = "message_send_text env c message_type_error c (Some ''You have been redirected'')
          (message_send_text env c message_type_error c (Some ''Unable to join channel'') s)"
        have "chan_inv ?s" using inv by simp
        from find_by_name_total [OF this]
        obtain r s' where r: "channellist_find_channel_by_name env CHANNEL_NAME_BANNED (country_of env c) (realm_of env c) ?s = Some (r, s')"
          "chan_inv s'" "s_conns s' = s_conns ?s" "keeps ?s s'" "\<And>a. r = Some a \<Longrightarrow> a \<in> set (s_list s')"
          by blast
        show ?thesis
        proof (cases "c_game cn \<or> c_channel cn = None")
          case red: True
          then have "c_channel cn = Some a \<longrightarrow> c_game cn" for a by auto
          moreover have "same_conns s s'" "keeps s s'" using r(3,4) by (simp_all add: same_conns_def keeps_def)
          ultimately show ?thesis using clan True None red r
            by (simp add: clan_checks_def)
        next
          case False
          then show ?thesis using clan True None inv by (auto simp: clan_checks_def Let_def intro: same_conns_eq)
        qed
      qed
    next
      case False
      show ?thesis
      proof (cases "clan_shaman env acc")
        case True
        obtain s' where s': "conn_set_tmpOP_channel s c (Some name) = Some s'" and q: "quiet s s'"
          using conn_set_tmpOP_quiet [OF cn] by blast
        have "s_list s' = s_list s" "keeps s s'" using q by (simp_all add: quiet_def keeps_def)
        then show ?thesis
          using clan False True s' quiet_shape [OF q inv] quiet_same_conns [OF q] ch
          by (simp add: clan_checks_def)
      next
        case False
        then show ?thesis using clan \<open>\<not> clan_of env acc \<noteq> Some clantag\<close> same [of "clan_of env acc"]
          by (simp add: clan_checks_def)
      qed
    qed
  qed
qed

lemma shape_upd_conn:
  assumes "shape S E s" and "s_conns s c = Some cn" and "c_channel cn1 = c_channel cn"
  shows "shape S E (s\<lparr>s_conns := (s_conns s)(c \<mapsto> cn1)\<rparr>)" (is "shape S E ?s")
proof -
  have "link_ok S ?s"
  proof (rule link_okI)
    fix a ch d assume "s_chans ?s a = Some ch" "d \<in> set (ch_memberlist ch)"
    then show "\<exists>cn. s_conns ?s d = Some cn \<and> (d \<notin> S \<longrightarrow> c_channel cn = Some a)"
      using assms link_ok_member [of S s a ch d] by (auto simp: shape_def)
  next
    fix d cn' a assume "s_conns ?s d = Some cn'" "d \<notin> S" "c_channel cn' = Some a"
    then show "\<exists>ch. s_chans ?s a = Some ch \<and> d \<in> set (ch_memberlist ch)"
      using assms link_ok_channel [of S s d _ a] by (auto simp: shape_def split: if_splits)
  qed
  then show ?thesis using assms(1) by (simp add: shape_def list_ok_def)
qed

lemma after_join_quiet:
  assumes "s_chans s a = Some ch" and "s_conns s c = Some cn"
  shows "\<exists>s'. after_join env c a old clantag clan s = Some s' \<and> quiet s s'"
proof -
  have "\<exists>s'. after_join env c a old clantag clan s = Some s'"
    using assms by (simp add: after_join_def Let_def)
  then obtain s' where s': "after_join env c a old clantag clan s = Some s'" by blast
  moreover from s' have "s_conns s' = s_conns s \<and> s_chans s' = s_chans s \<and> s_list s' = s_list s \<and> s_next s' = s_next s"
    using assms unfolding after_join_def Let_def
    by (clarsimp simp: if_distrib [of s_conns] if_distrib [of s_chans] if_distrib [of s_list] if_distrib [of s_next]
        option.case_distrib [of s_conns] option.case_distrib [of s_chans] option.case_distrib [of s_list]
        option.case_distrib [of s_next] split: option.split cong: if_cong)
  ultimately show ?thesis using same_quiet by blast
qed

text \<open>No connection but \<open>c\<close> has changed.\<close>

definition only_conn :: "nat \<Rightarrow> cstate \<Rightarrow> cstate \<Rightarrow> bool" where
  "only_conn c s s' \<longleftrightarrow> (\<forall>d. d \<noteq> c \<longrightarrow> map_option ckey (s_conns s' d) = map_option ckey (s_conns s d))"

lemma only_conn_trans: "only_conn c s s' \<Longrightarrow> only_conn c s' s'' \<Longrightarrow> only_conn c s s''"
  by (simp add: only_conn_def)

lemma quiet_only_conn: "quiet s s' \<Longrightarrow> only_conn c s s'"
  by (simp add: quiet_def only_conn_def)

lemma same_conns_only_conn: "same_conns s s' \<Longrightarrow> only_conn c s s'"
  by (simp add: same_conns_def only_conn_def)

lemma only_conn_upd: "\<forall>d. d \<noteq> c \<longrightarrow> s_conns s' d = s_conns s d \<Longrightarrow> only_conn c s s'"
  by (simp add: only_conn_def)

text \<open>Adding the connection to the channel that has been decided on.\<close>

definition add_and_welcome ::
  "chan_env \<Rightarrow> nat \<Rightarrow> u32 \<Rightarrow> u32 option \<Rightarrow> nat option \<Rightarrow> nat \<Rightarrow> bool \<Rightarrow> cstate \<Rightarrow> (int \<times> cstate) option" where
  "add_and_welcome env c clantag clan oldchannel a isnew s3 = do {
          s4 \<leftarrow> upd_conn s3 c (c_channel_update (\<lambda>_. Some a));
          (r, s5) \<leftarrow> channel_add_connection env a c s4;
          if r < 0
          then do {
            s6 \<leftarrow> (if isnew then map_option snd (channel_destroy (Some a) s5) else Some s5);
            s7 \<leftarrow> upd_conn s6 c (c_channel_update (\<lambda>_. None));
            Some (-1, s7) }
          else do { s6 \<leftarrow> after_join env c a oldchannel clantag clan s5; Some (0, s6) } }"

lemma enter_channel_alt: "enter_channel env c name clantag clan oldchannel channel s = do {
     let s1 = emit [Reset_whisper_acks c] s in do {
     cn \<leftarrow> s_conns s1 c;
     s2 \<leftarrow> (if c_game cn then upd_conn (emit [Game_del_player c] s1) c (c_game_update (\<lambda>_. False)) else Some s1);
     (target, isnew, s3) \<leftarrow> (case channel of Some a \<Rightarrow> Some (Some a, False, s2)
       | None \<Rightarrow> do { (a, s') \<leftarrow> channel_create env (new_channel_args env name clantag) s2; Some (a, True, s') });
     (case target of None \<Rightarrow> Some (-1, s3)
      | Some a \<Rightarrow> add_and_welcome env c clantag clan oldchannel a isnew s3) } }"
  unfolding enter_channel_def add_and_welcome_def ..

lemma add_and_welcome_total:
  assumes s: "shape {} E s" "E \<subseteq> (if isnew then {a} else {})" and cn: "s_conns s c = Some cn" "c_channel cn = None"
    and ch: "s_chans s a = Some ch" and new: "isnew \<Longrightarrow> ch_memberlist ch = []"
  shows "\<exists>r s'. add_and_welcome env c clantag clan old a isnew s = Some (r, s') \<and> chan_inv s' \<and> only_conn c s s'
     \<and> (r = 0 \<and> (\<exists>cn' ch'. s_conns s' c = Some cn' \<and> c_channel cn' = Some a \<and> c_game cn' = c_game cn \<and> s_chans s' a = Some ch' \<and> c \<in> set (ch_memberlist ch'))
        \<or> r = -1 \<and> (\<exists>cn'. s_conns s' c = Some cn' \<and> c_channel cn' = None))"
proof -
  let ?cn = "cn\<lparr>c_channel := Some a\<rparr>" and ?s = "s\<lparr>s_conns := (s_conns s)(c \<mapsto> cn\<lparr>c_channel := Some a\<rparr>)\<rparr>"
  have abs: "absent c s" by (rule shape_absent [OF s(1) cn])
  have s4: "upd_conn s c (c_channel_update (\<lambda>_. Some a)) = Some ?s" using cn by (simp add: upd_conn_def)
  have inv4: "shape {c} E ?s" by (rule shape_set_channel(1) [OF s(1) abs cn(1)]) simp
  have E: "E \<subseteq> {a}" using s(2) by (cases isnew) auto
  have pre: "absent c ?s" "s_conns ?s c = Some ?cn" "c_channel ?cn = Some a" "s_chans ?s a = Some ch"
    using abs ch by (simp_all add: absent_def)
  note add = channel_add_connection_total [OF inv4 E pre]
  show ?thesis
  proof (cases "channel_check_banning env ch ?cn")
    case False
    obtain s5 where s5: "channel_add_connection env a c ?s = Some (0, s5)" "chan_inv s5"
        "quiet (?s\<lparr>s_chans := (s_chans ?s)(a \<mapsto> add_member c ch)\<rparr>) s5"
      using add(2) [OF False] by blast
    have c5: "s_chans s5 a = Some (add_member c ch)" using s5(3) by (simp add: quiet_def)
    obtain cn5 where cn5: "s_conns s5 c = Some cn5" "ckey cn5 = ckey ?cn"
      using quiet_conn [OF s5(3), of c ?cn] by auto
    obtain s6 where s6: "after_join env c a old clantag clan s5 = Some s6" "quiet s5 s6"
      using after_join_quiet [OF c5 cn5(1)] by blast
    obtain cn6 where "s_conns s6 c = Some cn6" "ckey cn6 = ckey cn5" using quiet_conn [OF s6(2) cn5(1)] by blast
    moreover have "s_chans s6 a = Some (add_member c ch)" using c5 s6(2) by (simp add: quiet_def)
    moreover have "only_conn c s s6"
      using quiet_only_conn [OF s5(3)] quiet_only_conn [OF s6(2)] by (simp add: only_conn_def)
    ultimately show ?thesis using s4 s5 s6 cn5(2) quiet_shape [OF s6(2) s5(2)]
      by (simp add: add_and_welcome_def ckey_def add_member_def)
  next
    case True
    obtain s5 where s5: "channel_add_connection env a c ?s = Some (-1, s5)" and q: "quiet ?s s5"
      using add(1) [OF True] by blast
    have inv5: "shape {c} E s5" and abs5: "absent c s5" and ch5: "s_chans s5 a = Some ch"
      using quiet_shape [OF q inv4] quiet_absent [OF q pre(1)] q pre(4) by (auto simp: quiet_def)
    obtain cn5 where cn5: "s_conns s5 c = Some cn5" using quiet_conn [OF q pre(2)] by blast
    obtain s6 where s6: "(if isnew then map_option snd (channel_destroy (Some a) s5) else Some s5) = Some s6"
      and inv6: "shape {c} {} s6" and abs6: "absent c s6" and e6: "s_conns s6 = s_conns s5"
    proof (cases isnew)
      case True
      show ?thesis
      proof (rule that)
        show "(if isnew then map_option snd (channel_destroy (Some a) s5) else Some s5) =
            Some (s5\<lparr>s_chans := (s_chans s5)(a := None), s_list := remove1 a (s_list s5)\<rparr>)"
          using channel_destroy_nonempty [OF ch5 new [OF True]] True by simp
        have e: "E - {a} = {}" using E by auto
        show "shape {c} {} (s5\<lparr>s_chans := (s_chans s5)(a := None), s_list := remove1 a (s_list s5)\<rparr>)"
          by (rule shape_destroy [OF inv5 ch5 new [OF True], unfolded e])
      qed (use abs5 in \<open>auto simp: absent_def\<close>)
    next
      case False
      then show ?thesis using that [of s5] inv5 abs5 s(2) by simp
    qed
    have "chan_inv (s6\<lparr>s_conns := (s_conns s6)(c \<mapsto> cn5\<lparr>c_channel := None\<rparr>)\<rparr>)"
      using shape_set_channel(2) [OF inv6 abs6, of cn5 None] cn5 e6 by simp
    moreover have "only_conn c s (s6\<lparr>s_conns := (s_conns s6)(c \<mapsto> cn5\<lparr>c_channel := None\<rparr>)\<rparr>)"
      using quiet_only_conn [OF q, of c] e6 by (simp add: only_conn_def)
    ultimately show ?thesis using s4 s5 s6 cn5 e6 by (simp add: add_and_welcome_def upd_conn_def)
  qed
qed

lemma enter_channel_total:
  assumes inv: "chan_inv s" and cn: "s_conns s c = Some cn" "c_channel cn = None"
    and ch: "\<And>a. channel = Some a \<Longrightarrow> a \<in> set (s_list s)"
  shows "\<exists>r s'. enter_channel env c name clantag clan old channel s = Some (r, s') \<and> chan_inv s' \<and> only_conn c s s'
     \<and> (r = 0 \<and> (\<exists>cn' a ch'. s_conns s' c = Some cn' \<and> c_channel cn' = Some a \<and> \<not> c_game cn' \<and> s_chans s' a = Some ch'
            \<and> c \<in> set (ch_memberlist ch') \<and> (if channel = None then s_chans s a = None else channel = Some a))
        \<or> r = -1 \<and> (\<exists>cn'. s_conns s' c = Some cn' \<and> c_channel cn' = None))"
proof -
  let ?s1 = "emit [Reset_whisper_acks c] s"
  obtain s2 cn2 where s2: "(if c_game cn then upd_conn (emit [Game_del_player c] ?s1) c (c_game_update (\<lambda>_. False)) else Some ?s1) = Some s2"
    and inv2: "chan_inv s2" and cn2: "s_conns s2 c = Some cn2" "c_channel cn2 = None" and g2: "\<not> c_game cn2" and e2: "s_list s2 = s_list s" "s_chans s2 = s_chans s"
    and oc: "only_conn c s s2"
  proof (cases "c_game cn")
    case True
    show ?thesis
      by (rule that [of "(emit [Game_del_player c] ?s1)\<lparr>s_conns := (s_conns s)(c \<mapsto> cn\<lparr>c_game := False\<rparr>)\<rparr>" "cn\<lparr>c_game := False\<rparr>"])
        (use True cn inv shape_upd_conn [of "{}" "{}" "emit [Game_del_player c] ?s1" c cn "cn\<lparr>c_game := False\<rparr>"] in
          \<open>simp_all add: upd_conn_def only_conn_def\<close>)
  next
    case False
    then show ?thesis using that [of ?s1 cn] cn inv by (simp add: only_conn_def)
  qed
  show ?thesis
  proof (cases channel)
    case (Some a)
    then obtain ch where "s_chans s2 a = Some ch" using shape_list [OF inv2, of a] ch e2 by auto
    then obtain r s' where "add_and_welcome env c clantag clan old a False s2 = Some (r, s')" "chan_inv s'" and o2: "only_conn c s2 s'"
      and
      "(r = 0 \<and> (\<exists>cn' ch'. s_conns s' c = Some cn' \<and> c_channel cn' = Some a \<and> \<not> c_game cn' \<and> s_chans s' a = Some ch' \<and> c \<in> set (ch_memberlist ch'))
        \<or> r = -1 \<and> (\<exists>cn'. s_conns s' c = Some cn' \<and> c_channel cn' = None))"
      using g2 add_and_welcome_total [OF inv2 _ cn2, where isnew = False and a = a and env = env and clantag = clantag
          and clan = clan and old = old] by auto
    then show ?thesis using Some s2 cn only_conn_trans [OF oc o2] by (auto simp: enter_channel_alt Let_def)
  next
    case None
    let ?ca = "new_channel_args env name clantag"
    show ?thesis
    proof (cases "channel_create env ?ca s2 = Some (None, s2)")
      case True
      then show ?thesis using None s2 cn cn2 inv2 oc by (simp add: enter_channel_alt Let_def)
    next
      case False
      then obtain ch tot where cr: "channel_create env ?ca s2 = Some (Some (s_next s2), created s2 ch tot)"
        "ch_memberlist ch = []" "ch_currmembers ch = 0"
        using channel_create_total [OF inv2, of env ?ca] by blast
      have inv3: "shape {} {s_next s2} (created s2 ch tot)" using shape_created [OF inv2 cr(2,3)] by simp
      have "s_chans (created s2 ch tot) (s_next s2) = Some ch" by (simp add: created_def)
      then obtain r s' where "add_and_welcome env c clantag clan old (s_next s2) True (created s2 ch tot) = Some (r, s')" "chan_inv s'"
        and o2: "only_conn c (created s2 ch tot) s'" and
        "(r = 0 \<and> (\<exists>cn' ch'. s_conns s' c = Some cn' \<and> c_channel cn' = Some (s_next s2) \<and> \<not> c_game cn' \<and> s_chans s' (s_next s2) = Some ch'
             \<and> c \<in> set (ch_memberlist ch'))
        \<or> r = -1 \<and> (\<exists>cn'. s_conns s' c = Some cn' \<and> c_channel cn' = None))"
        using g2 add_and_welcome_total [OF inv3 _ _ cn2(2), where isnew = True and a = "s_next s2" and env = env
          and clantag = clantag and clan = clan and old = old and c = c] cn2(1) cr(2) by auto
      moreover have "only_conn c s s'" using oc o2 by (simp add: only_conn_def)
      moreover have "s_chans s (s_next s2) = None" using next_fresh [OF inv2] e2(2) by simp
      ultimately show ?thesis using None s2 cn cr(1) by (auto simp: enter_channel_alt Let_def)
    qed
  qed
qed

section \<open>\<open>conn_set_channel\<close> and its callers\<close>

definition game_free :: "cstate \<Rightarrow> nat \<Rightarrow> bool" where
  "game_free s c \<longleftrightarrow> (\<exists>cn. s_conns s c = Some cn \<and> (c_game cn \<longrightarrow> c_channel cn = None))"

lemma has_left_only_conn: "has_left c a ch s s' \<Longrightarrow> only_conn c s s'"
  by (simp add: has_left_def only_conn_def)

lemma has_left_in_list: "has_left c a ch s s' \<Longrightarrow> b \<noteq> a \<Longrightarrow> b \<in> set (s_list s) \<Longrightarrow> b \<in> set (s_list s')"
  by (simp add: has_left_def)

lemma same_conns_game_free: "same_conns s s' \<Longrightarrow> game_free s c \<Longrightarrow> game_free s' c"
proof -
  assume same: "same_conns s s'" and "game_free s c"
  then obtain cn where cn: "s_conns s c = Some cn" and g: "c_game cn \<longrightarrow> c_channel cn = None" by (auto simp: game_free_def)
  obtain cn' where "s_conns s' c = Some cn'" "ckey cn' = ckey cn" using same_conns_conn [OF same cn] by blast
  then show ?thesis using g by (simp add: game_free_def ckey_def)
qed

text \<open>
  The connection is in a channel that was there before only when it has been there all along or the
  checks of \<open>conn_set_channel\<close> have let it in.
\<close>

definition entry_ok :: "chan_env \<Rightarrow> nat \<Rightarrow> cstring option \<Rightarrow> cstate \<Rightarrow> cstate \<Rightarrow> bool" where
  "entry_ok env c name s s' \<longleftrightarrow> (\<forall>cn cn' a ch. s_conns s c = Some cn \<longrightarrow> s_conns s' c = Some cn' \<longrightarrow>
     c_channel cn' = Some a \<longrightarrow> c_channel cn \<noteq> Some a \<longrightarrow> s_chans s a = Some ch \<longrightarrow>
     (\<exists>acc nm. c_account cn = Some acc \<and> name = Some nm \<and> join_refused env ch cn acc nm = None))"

lemma entry_ok_same: "same_conns s s' \<Longrightarrow> entry_ok env c name s s'"
  unfolding entry_ok_def
proof (intro allI impI)
  fix cn cn' a ch assume "same_conns s s'" "s_conns s c = Some cn" "s_conns s' c = Some cn'" and ca: "c_channel cn' = Some a" "c_channel cn \<noteq> Some a"
  then have "ckey cn' = ckey cn" by (auto simp: same_conns_def dest: spec [of _ c])
  then show "\<exists>acc nm. c_account cn = Some acc \<and> name = Some nm \<and> join_refused env ch cn acc nm = None"
    using ca by (simp add: ckey_def)
qed

lemma entry_ok_out: "s_conns s' c = Some cn' \<Longrightarrow> c_channel cn' = None \<Longrightarrow> entry_ok env c name s s'"
  by (simp add: entry_ok_def)

lemma join_refused_cong: "c_account cn' = c_account cn \<Longrightarrow> c_class cn' = c_class cn
    \<Longrightarrow> join_refused env ch cn' acc nm = join_refused env ch cn acc nm"
  by (simp add: join_refused_def channel_check_banning_def conn_match_def)

text \<open>
  The one case in which \<open>conn_set_channel\<close> uses a channel that is gone: the checks for clans send the
  connection to the channel it is in, and that channel is destroyed when the connection is taken out of it.
\<close>

definition clantag_of_name :: "cstring \<Rightarrow> u32" where
  "clantag_of_name nm = (if strncasecmp nm ''clan '' 5 = 0 \<and> length nm < 10 then str_to_clantag (drop 5 nm) else 0)"

definition sent_home :: "chan_env \<Rightarrow> nat \<Rightarrow> cstring option \<Rightarrow> cstate \<Rightarrow> bool" where
  "sent_home env c name s \<longleftrightarrow> (case s_conns s c of None \<Rightarrow> False | Some cn \<Rightarrow>
     (case c_account cn of None \<Rightarrow> False | Some acc \<Rightarrow> (case name of None \<Rightarrow> False | Some nm \<Rightarrow>
       (case channellist_find_channel_by_name env nm (country_of env c) (realm_of env c) s of None \<Rightarrow> False
        | Some (channel, s1) \<Rightarrow> \<not> (channel \<noteq> None \<and> channel = c_channel cn)
           \<and> (case clan_checks env c cn acc nm (clantag_of_name nm) channel s1 of
               Some (Inr (Some a, clan, s2)) \<Rightarrow> c_channel cn = Some a
                 \<and> (case s_chans s2 a of None \<Rightarrow> False | Some ch \<Rightarrow> goes_away c ch)
             | _ \<Rightarrow> False)))))"

definition set_channel_ok :: "chan_env \<Rightarrow> nat \<Rightarrow> cstring option \<Rightarrow> cstate \<Rightarrow> int \<times> cstate \<Rightarrow> bool" where
  "set_channel_ok env c name s rs \<longleftrightarrow> chan_inv (snd rs) \<and> only_conn c s (snd rs) \<and> (game_free s c \<longrightarrow> game_free (snd rs) c)
     \<and> entry_ok env c name s (snd rs)"

lemma conn_set_channel_result:
  assumes inv: "chan_inv s" and cn: "s_conns s c = Some cn"
  shows "case conn_set_channel env c name s of None \<Rightarrow> sent_home env c name s
     | Some rs \<Rightarrow> \<not> sent_home env c name s \<and> set_channel_ok env c name s rs"
proof -
  show ?thesis
  proof (cases "c_account cn = None \<or> name = None")
    case True
    then have "conn_set_channel env c name s = Some (-1, s)"
      unfolding conn_set_channel_def cn bind.bind_lunit by (cases "c_account cn") (auto simp only: option.case simp_thms option.distinct)
    moreover have "\<not> sent_home env c name s" using True cn by (auto simp: sent_home_def split: option.split)
    ultimately show ?thesis using inv entry_ok_same [OF same_conns_eq [OF refl]] by (simp add: only_conn_def set_channel_ok_def)
  next
    case False
    then obtain acc nm where acc: "c_account cn = Some acc" "name = Some nm" by auto
    obtain channel s1 where f: "channellist_find_channel_by_name env nm (country_of env c) (realm_of env c) s = Some (channel, s1)"
        and inv1: "chan_inv s1" and e1: "s_conns s1 = s_conns s" and k1: "keeps s s1" and ch: "\<And>a. channel = Some a \<Longrightarrow> a \<in> set (s_list s1)"
      using find_by_name_total [OF inv] by blast
    have gf1: "game_free s c \<longrightarrow> game_free s1 c" using e1 by (simp add: game_free_def)
    show ?thesis
    proof (cases "channel \<noteq> None \<and> channel = c_channel cn")
      case True
      then have "conn_set_channel env c name s = Some (0, s1)" using cn acc f by (clarsimp simp: conn_set_channel_def)
      moreover have "\<not> sent_home env c name s" unfolding sent_home_def cn acc f option.case prod.case using True by blast
      ultimately show ?thesis using inv1 gf1 e1 entry_ok_same [OF same_conns_eq [OF e1]] by (simp add: only_conn_def set_channel_ok_def)
    next
      case nf: False
      define ct where "ct = clantag_of_name nm"
      have unf: "conn_set_channel env c name s = do {
         res \<leftarrow> clan_checks env c cn acc nm ct channel s1;
         (case res of Inl (r, s2) \<Rightarrow> Some (r, s2)
          | Inr (channel, clan, s2) \<Rightarrow> do {
            s3 \<leftarrow> (if c_channel cn \<noteq> None then map_option snd (conn_part_channel env c s2) else Some s2);
            refusal \<leftarrow> (case channel of None \<Rightarrow> Some None
              | Some a \<Rightarrow> do { ch \<leftarrow> s_chans s3 a; cn3 \<leftarrow> s_conns s3 c; Some (join_refused env ch cn3 acc nm) });
            (case refusal of
               Some txt \<Rightarrow> Some (-1, message_send_text env c message_type_error c (Some txt) s3)
             | None \<Rightarrow> enter_channel env c nm ct clan (c_channel cn) channel s3) }) }"
        unfolding conn_set_channel_def Let_def ct_def clantag_of_name_def
        by (simp only: cn acc f nf bind.bind_lunit option.case prod.case if_False)
      have ch': "a \<in> set (s_list s1) \<and> c_channel cn \<noteq> Some a" if "channel = Some a" for a
        using that ch nf by auto
      have cn1: "s_conns s1 c = Some cn" using cn e1 by simp
      have D: "(\<exists>r s'. clan_checks env c cn acc nm ct channel s1 = Some (Inl (r, s')) \<and> chan_inv s' \<and> same_conns s1 s')
        \<or> (\<exists>ch clan s'. clan_checks env c cn acc nm ct channel s1 = Some (Inr (ch, clan, s')) \<and> chan_inv s'
          \<and> same_conns s1 s' \<and> keeps s1 s' \<and> (\<forall>a. ch = Some a \<longrightarrow> a \<in> set (s_list s') \<and> (c_channel cn = Some a \<longrightarrow> c_game cn)))"
        by (rule clan_checks_total [OF inv1 cn1]) (fact ch')
      have sh: "sent_home env c name s \<longleftrightarrow> (case clan_checks env c cn acc nm ct channel s1 of
               Some (Inr (Some a, clan, s2)) \<Rightarrow> c_channel cn = Some a \<and> (case s_chans s2 a of None \<Rightarrow> False | Some ch \<Rightarrow> goes_away c ch)
             | _ \<Rightarrow> False)"
        unfolding sent_home_def cn acc f option.case prod.case ct_def using nf by simp
      from D show ?thesis
      proof (elim disjE exE conjE, goal_cases)
        case (1 r s2)
        have sc: "same_conns s s2" using 1(3) e1 by (simp add: same_conns_def)
        have "game_free s c \<longrightarrow> game_free s2 c" using same_conns_game_free [OF sc] by blast
        then show ?thesis using 1(1,2) unf same_conns_only_conn [OF sc] entry_ok_same [OF sc] sh
          by (simp add: set_channel_ok_def)
      next
        case (2 ch2 clan s2)
        note r2 = 2
        obtain cn2 where cn2: "s_conns s2 c = Some cn2" "ckey cn2 = ckey cn" using same_conns_conn [OF r2(3) cn1] by blast
        obtain s3 cn3 where s3: "(if c_channel cn \<noteq> None then map_option snd (conn_part_channel env c s2) else Some s2) = Some s3"
          and inv3: "chan_inv s3" and cn3: "s_conns s3 c = Some cn3" "c_channel cn3 = None"
          and o3: "only_conn c s2 s3" and k3: "\<And>a ch. s_chans s2 a = Some ch \<Longrightarrow> c_channel cn \<noteq> Some a \<Longrightarrow> s_chans s3 a = Some ch"
          and a3: "c_account cn3 = c_account cn" "c_class cn3 = c_class cn"
          and l3: "\<And>a. ch2 = Some a \<Longrightarrow> if sent_home env c name s then s_chans s3 a = None else a \<in> set (s_list s3)"
          and h3: "sent_home env c name s \<Longrightarrow> ch2 \<noteq> None"
        proof (cases "c_channel cn")
          case None
          then have "\<not> sent_home env c name s" using sh r2(1) by (simp split: option.split)
          then show ?thesis using None that [of s2 cn2] r2 cn2 by (simp add: only_conn_def ckey_def)
        next
          case (Some old)
          then have "c_channel cn2 = Some old" using cn2 by (simp add: ckey_def)
          from leave_total [OF r2(2) cn2(1) this]
          obtain ch s3 where lch: "s_chans s2 old = Some ch" and l: "leave env message_type_part c None s2 = Some (0, s3)" "chan_inv s3" "has_left c old ch s2 s3"
            by blast
          obtain cn3 where "s_conns s3 c = Some cn3" "ckey cn3 = ckey (cn2\<lparr>c_channel := None\<rparr>)"
            using has_left_conn [OF l(3) cn2(1)] by blast
          moreover have "if sent_home env c name s then s_chans s3 a = None else a \<in> set (s_list s3)" if "ch2 = Some a" for a
            using r2(1,5) that Some has_left_in_list [OF l(3), of a] sh lch l(3) by (cases "a = old") (simp_all add: has_left_def)
          moreover have "sent_home env c name s \<Longrightarrow> ch2 \<noteq> None" using sh r2(1) by (cases ch2) simp_all
          moreover have "s_chans s3 a = Some ch'" if "s_chans s2 a = Some ch'" "c_channel cn \<noteq> Some a" for a ch'
            using that Some l(3) by (simp add: has_left_def)
          ultimately show ?thesis
            using cn2(2) by (intro that [of s3 cn3]) (simp_all add: Some l leave_simps ckey_def has_left_only_conn [OF l(3)])
        qed
        have o: "only_conn c s s3" using o3 same_conns_only_conn [OF r2(3)] e1 by (simp add: only_conn_def)
        have gf3: "game_free s3 c" using cn3 by (simp add: game_free_def)
        show ?thesis
        proof (cases "sent_home env c name s")
          case True
          then obtain a where "ch2 = Some a" "s_chans s3 a = None" using h3 l3 by force
          then have "conn_set_channel env c name s = None" using unf r2(1) s3 by simp
          then show ?thesis using True by simp
        next
        case nh: False
        have l3: "\<And>a. ch2 = Some a \<Longrightarrow> a \<in> set (s_list s3)" using l3 nh by simp
        obtain refusal where ref: "(case ch2 of None \<Rightarrow> Some None
              | Some a \<Rightarrow> do { ch \<leftarrow> s_chans s3 a; cn3 \<leftarrow> s_conns s3 c; Some (join_refused env ch cn3 acc nm) }) = Some refusal"
        proof (cases ch2)
          case (Some a)
          then obtain ch where "s_chans s3 a = Some ch" using l3 shape_list [OF inv3] by blast
          then show ?thesis using that Some cn3(1) by simp
        qed (use that in simp)
        show ?thesis
        proof (cases refusal)
          case (Some tx)
          have "entry_ok env c name s (message_send_text env c message_type_error c (Some tx) s3)"
            using cn3 by (intro entry_ok_out) simp_all
          then show ?thesis using Some unf r2(1) s3 ref inv3 o gf3 nh by (simp add: only_conn_def game_free_def set_channel_ok_def)
        next
          case None
          obtain r s4 where s4: "enter_channel env c nm ct clan (c_channel cn) ch2 s3 = Some (r, s4)" "chan_inv s4" "only_conn c s3 s4"
            "r = 0 \<and> (\<exists>cn' a ch'. s_conns s4 c = Some cn' \<and> c_channel cn' = Some a \<and> \<not> c_game cn' \<and> s_chans s4 a = Some ch'
                \<and> c \<in> set (ch_memberlist ch') \<and> (if ch2 = None then s_chans s3 a = None else ch2 = Some a))
             \<or> r = -1 \<and> (\<exists>cn'. s_conns s4 c = Some cn' \<and> c_channel cn' = None)"
            using enter_channel_total [where env = env and name = nm and clantag = ct and clan = clan and old = "c_channel cn"
                and channel = ch2, OF inv3 cn3 l3, simplified] that by (elim exE conjE) simp
          have "game_free s4 c" using s4(4) by (auto simp: game_free_def)
          moreover have "entry_ok env c name s s4"
            unfolding entry_ok_def
          proof (intro allI impI)
            fix cn0 cn' a ch assume c0: "s_conns s c = Some cn0" "s_conns s4 c = Some cn'" "c_channel cn' = Some a"
              "c_channel cn0 \<noteq> Some a" "s_chans s a = Some ch"
            then have cn0: "cn0 = cn" using cn by simp
            have "s_chans s3 a = Some ch" using k3 [of a ch] c0(4,5) cn0 k1 r2(4) by (simp add: keeps_def)
            moreover from this have "ch2 = Some a" using s4(4) c0(2,3) by (auto split: if_splits)
            ultimately have "join_refused env ch cn3 acc nm = None" using ref None cn3(1) by simp
            then show "\<exists>acc nm. c_account cn0 = Some acc \<and> name = Some nm \<and> join_refused env ch cn0 acc nm = None"
              using acc cn0 join_refused_cong [OF a3] by simp
          qed
          ultimately show ?thesis using unf r2(1) s3 ref None s4 only_conn_trans [OF o s4(3)] nh by (simp add: set_channel_ok_def)
        qed
        qed
      qed
    qed
  qed
qed

lemma game_free_not_sent_home:
  assumes inv: "chan_inv s" and gf: "game_free s c"
  shows "\<not> sent_home env c name s"
proof
  assume h: "sent_home env c name s"
  obtain cn acc nm where cn: "s_conns s c = Some cn" "c_account cn = Some acc" "name = Some nm"
    using h by (cases "s_conns s c"; cases "c_account (the (s_conns s c))"; cases name) (simp_all add: sent_home_def)
  obtain channel s1 where f: "channellist_find_channel_by_name env nm (country_of env c) (realm_of env c) s = Some (channel, s1)"
    using h by (cases "channellist_find_channel_by_name env nm (country_of env c) (realm_of env c) s") (auto simp: sent_home_def cn)
  define X where "X = clan_checks env c cn acc nm (clantag_of_name nm) channel s1"
  have n: "\<not> (channel \<noteq> None \<and> channel = c_channel cn)"
    and hX: "case X of Some (Inr (Some a, clan, s2)) \<Rightarrow> c_channel cn = Some a
        \<and> (case s_chans s2 a of None \<Rightarrow> False | Some ch \<Rightarrow> goes_away c ch) | _ \<Rightarrow> False"
    using h unfolding sent_home_def cn f option.case prod.case X_def by blast+
  obtain y where y: "X = Some (Inr y)" using hX by (cases X) (auto split: sum.splits)
  obtain a clan s2 where "y = (Some a, clan, s2)" "c_channel cn = Some a"
    using hX y by (cases y; cases "fst y") auto
  then have ck: "clan_checks env c cn acc nm (clantag_of_name nm) channel s1 = Some (Inr (Some a, clan, s2))" "c_channel cn = Some a"
    using y by (simp_all add: X_def)
  obtain ch1 s1' where f': "channellist_find_channel_by_name env nm (country_of env c) (realm_of env c) s = Some (ch1, s1')"
      "chan_inv s1'" "s_conns s1' = s_conns s" "\<And>a. ch1 = Some a \<Longrightarrow> a \<in> set (s_list s1')"
    using find_by_name_total [OF inv] by blast
  have cn1: "s_conns s1' c = Some cn" using f'(3) cn(1) by simp
  have ch: "channel = Some b \<Longrightarrow> b \<in> set (s_list s1') \<and> c_channel cn \<noteq> Some b" for b using f f'(1,4) n by auto
  have s1: "s1' = s1" using f f'(1) by simp
  from clan_checks_total [where channel = channel and env = env and acc = acc and name = nm and clantag = "clantag_of_name nm",
      OF f'(2) cn1 ch]
  have "c_game cn" using ck by (auto simp: s1)
  then show False using gf cn(1) ck(2) by (simp add: game_free_def)
qed

lemma conn_set_channel_total:
  assumes inv: "chan_inv s" and gf: "game_free s c"
  shows "\<exists>r s'. conn_set_channel env c name s = Some (r, s') \<and> chan_inv s' \<and> only_conn c s s' \<and> game_free s' c
    \<and> entry_ok env c name s s'"
proof -
  obtain cn where cn: "s_conns s c = Some cn" using gf by (auto simp: game_free_def)
  obtain rs where "conn_set_channel env c name s = Some rs" "set_channel_ok env c name s rs"
    using conn_set_channel_result [OF inv cn, where env = env and name = name] game_free_not_sent_home [OF assms, where env = env and name = name] by (auto split: option.splits)
  then show ?thesis using gf by (cases rs) (simp add: set_channel_ok_def)
qed

lemma channel_rejoin_total:
  assumes inv: "chan_inv s" and cn: "s_conns s c = Some cn"
  shows "\<exists>r s'. channel_rejoin env c s = Some (r, s') \<and> chan_inv s' \<and> only_conn c s s'"
proof (cases "c_channel cn")
  case None
  then show ?thesis using assms by (simp add: channel_rejoin_def only_conn_def)
next
  case (Some a)
  obtain ch s1 where ch: "s_chans s a = Some ch" and l: "leave env message_type_part c None s = Some (0, s1)" "chan_inv s1"
      "has_left c a ch s s1"
    using leave_total [OF inv cn Some] by blast
  obtain cn1 where "s_conns s1 c = Some cn1" "ckey cn1 = ckey (cn\<lparr>c_channel := None\<rparr>)" using has_left_conn [OF l(3) cn] by blast
  then have g1: "game_free s1 c" by (simp add: game_free_def ckey_def)
  obtain r2 s2 where s2: "conn_set_channel env c (Some (ch_name ch)) s1 = Some (r2, s2)" "chan_inv s2" "only_conn c s1 s2" "game_free s2 c"
    using conn_set_channel_total [OF l(2) g1] by blast
  obtain r3 s3 where s3: "conn_set_channel env c (Some CHANNEL_NAME_BANNED) s2 = Some (r3, s3)" "chan_inv s3" "only_conn c s2 s3"
    using conn_set_channel_total [OF s2(2,4)] by blast
  have "only_conn c s s2" using only_conn_trans [OF has_left_only_conn [OF l(3)] s2(3)] .
  then show ?thesis
    using cn Some ch l s2 s3 only_conn_trans [of c s s2 s3] by (simp add: channel_rejoin_def leave_simps)
qed

lemma permanent_args_permflag: "permanent_args env line = Some ca \<Longrightarrow> ca_permflag ca"
  by (auto simp: permanent_args_def Let_def split: if_splits option.splits list.splits)

lemma create_permanent_total:
  assumes "chan_inv s" and "ca_permflag ca"
  shows "\<exists>r s'. channel_create env ca s = Some (r, s') \<and> chan_inv s' \<and> s_conns s' = s_conns s"
proof (cases "channel_create env ca s = Some (None, s)")
  case True
  then show ?thesis using assms by simp
next
  case False
  then obtain ch tot where ch: "channel_create env ca s = Some (Some (s_next s), created s ch tot)"
    "ch_memberlist ch = []" "ch_currmembers ch = 0" "ch_flags ch = create_flags ca"
    using channel_create_total [OF assms(1)] by blast
  have "has_flag ch channel_flags_permanent" using create_flags_permanent [OF assms(2)] ch(4) by (simp add: has_flag_def)
  then have "chan_inv (created s ch tot)" using shape_created [OF assms(1) ch(2,3), of "{}"] by simp
  then show ?thesis using ch(1) by simp
qed

lemma load_permanent_total:
  "chan_inv s \<Longrightarrow> \<exists>s'. channellist_load_permanent env lines s = Some s' \<and> chan_inv s' \<and> s_conns s' = s_conns s"
proof (induction lines arbitrary: s)
  case (Cons line lines)
  show ?case
  proof (cases "permanent_args env line")
    case None
    then show ?thesis using Cons by simp
  next
    case (Some ca)
    obtain r s1 where "channel_create env ca s = Some (r, s1)" "chan_inv s1" "s_conns s1 = s_conns s"
      using create_permanent_total [OF Cons.prems permanent_args_permflag [OF Some]] by blast
    then show ?thesis using Some Cons.IH [of s1] by simp
  qed
qed simp

section \<open>Reloading\<close>

text \<open>The members of \<open>a\<close> leave one after the other; a channel marked permanent stays.\<close>

lemma reload_members_total:
  "chan_inv s \<Longrightarrow> s_chans s a = Some ch \<Longrightarrow> has_flag ch channel_flags_permanent \<Longrightarrow> distinct ms
   \<Longrightarrow> set ms = set (ch_memberlist ch) \<Longrightarrow>
   \<exists>s' ch'. reload_members env a ms s = Some s' \<and> chan_inv s' \<and> s_chans s' = (s_chans s)(a \<mapsto> ch')
     \<and> ch_memberlist ch' = [] \<and> s_list s' = s_list s \<and> s_next s' = s_next s
     \<and> (\<forall>d. s_conns s' d = None \<longleftrightarrow> s_conns s d = None)"
proof (induction ms arbitrary: s ch)
  case Nil
  then show ?case by (simp, intro exI [of _ ch]) auto
next
  case (Cons m ms)
  have m: "m \<in> set (ch_memberlist ch)" using Cons.prems(5) by auto
  obtain s1 s2 where l: "channel_del_connection env a m message_type_quit None s = Some (0, s1)"
     "upd_conn s1 m (c_channel_update (\<lambda>_. None)) = Some s2" "chan_inv s2" "has_left m a ch s s2"
    using leave_member [OF Cons.prems(1,2) m] by blast
  let ?ch = "drop_member m ch"
  have ng: "\<not> goes_away m ch" using Cons.prems(3) by (simp add: goes_away_def)
  then have h: "s_chans s2 = (s_chans s)(a \<mapsto> ?ch)" "s_list s2 = s_list s" "s_next s2 = s_next s"
    using l(4) by (simp_all add: has_left_def)
  have n: "s_conns s2 d = None \<longleftrightarrow> s_conns s d = None" for d
  proof -
    have "map_option ckey (s_conns s2 d) =
           map_option ckey (if d = m then map_option (c_channel_update (\<lambda>_. None)) (s_conns s m) else s_conns s d)"
      using l(4) unfolding has_left_def by blast
    then show ?thesis by (cases "s_conns s2 d"; cases "s_conns s d") (auto split: if_splits)
  qed
  have d: "distinct (ch_memberlist ch)" using shape_chan_ok [OF Cons.prems(1,2)] by (simp add: chan_ok_def)
  have ms: "set ms = set (ch_memberlist ?ch)" using Cons.prems(4,5) d by (auto simp: drop_member_def)
  have ch2: "s_chans s2 a = Some ?ch" using h(1) by simp
  have p2: "has_flag ?ch channel_flags_permanent" using Cons.prems(3) by (simp add: drop_member_def has_flag_def)
  have d2: "distinct ms" using Cons.prems(4) by simp
  obtain s' ch' where r: "reload_members env a ms s2 = Some s'" "chan_inv s'" and e: "s_chans s' = (s_chans s2)(a \<mapsto> ch')"
     and r': "ch_memberlist ch' = []" "s_list s' = s_list s2" "s_next s' = s_next s2" "\<forall>d. s_conns s' d = None \<longleftrightarrow> s_conns s2 d = None"
    using Cons.IH [OF l(3) ch2 p2 d2 ms] by blast
  have "s_chans s' = (s_chans s)(a \<mapsto> ch')" using e h(1) by simp
  moreover have "reload_members env a (m # ms) s = Some s'" using l(1,2) r(1) by simp
  ultimately show ?case using r(2) r' h(2,3) n by (intro exI conjI) simp_all
qed

definition reloadable :: "cstate \<Rightarrow> bool" where
  "reloadable s \<longleftrightarrow> (\<forall>a ch. s_chans s a = Some ch \<longrightarrow> ch_memberlist ch \<noteq> [] \<longrightarrow> ch_shortname ch \<noteq> None)"

lemma or_permanent: "has_flag (ch\<lparr>ch_flags := fl OR channel_flags_permanent\<rparr>) channel_flags_permanent"
proof -
  have "(fl OR channel_flags_permanent) AND channel_flags_permanent \<noteq> 0"
    by (rule permanent_bit) (simp add: bit_or_iff channel_flags_permanent_def)
  then show ?thesis by (simp add: has_flag_def)
qed

lemma reload_channel_total:
  assumes inv: "chan_inv s" and ch: "s_chans s a = Some ch" and sn: "ch_memberlist ch \<noteq> [] \<Longrightarrow> ch_shortname ch \<noteq> None"
  shows "\<exists>old' s'. reload_channel env a old s = Some (old', s') \<and> chan_inv s' \<and> s_chans s' = (s_chans s)(a := None)
     \<and> s_list s' = remove1 a (s_list s) \<and> (\<forall>d. s_conns s' d = None \<longleftrightarrow> s_conns s d = None)
     \<and> (\<forall>x \<in> set old'. x \<in> set old \<or> snd x = rev (ch_memberlist ch))"
proof -
  let ?ch = "ch\<lparr>ch_flags := ch_flags ch OR channel_flags_permanent\<rparr>" and ?s1 = "s\<lparr>s_chans := (s_chans s)(a \<mapsto> ch\<lparr>ch_flags := ch_flags ch OR channel_flags_permanent\<rparr>)\<rparr>"
  have s1: "upd_chan s a (\<lambda>ch. ch\<lparr>ch_flags := ch_flags ch OR channel_flags_permanent\<rparr>) = Some ?s1"
    using ch by (simp add: upd_chan_def)
  have inv1: "chan_inv ?s1" by (rule shape_upd_chan [OF inv ch]) (simp_all add: or_permanent)
  have d: "distinct (ch_memberlist ch)" using shape_chan_ok [OF inv ch] by (simp add: chan_ok_def)
  have ch1: "s_chans ?s1 a = Some ?ch" by simp
  obtain old' s2 ch2 where s2: "(if ch_memberlist ?ch = [] then Some (old, ?s1)
       else do { sn \<leftarrow> ch_shortname ?ch; s' \<leftarrow> reload_members env a (rev (ch_memberlist ?ch)) ?s1;
         Some ((sn, rev (ch_memberlist ?ch)) # old, s') }) = Some (old', s2)"
    and p2: "chan_inv s2" "s_chans s2 = (s_chans s)(a \<mapsto> ch2)" "ch_memberlist ch2 = []" "s_list s2 = s_list s"
      "\<forall>d. s_conns s2 d = None \<longleftrightarrow> s_conns s d = None" "\<forall>x \<in> set old'. x \<in> set old \<or> snd x = rev (ch_memberlist ch)"
  proof (cases "ch_memberlist ch = []")
    case True
    then show ?thesis using that [of old ?s1 ?ch] inv1 by simp
  next
    case False
    then obtain sn where sn: "ch_shortname ch = Some sn" using sn by auto
    have "has_flag ?ch channel_flags_permanent" by (rule or_permanent)
    then obtain s' ch' where "reload_members env a (rev (ch_memberlist ?ch)) ?s1 = Some s'" "chan_inv s'"
        "s_chans s' = (s_chans ?s1)(a \<mapsto> ch')" "ch_memberlist ch' = []" "s_list s' = s_list ?s1"
        "\<forall>d. s_conns s' d = None \<longleftrightarrow> s_conns ?s1 d = None"
      using reload_members_total [OF inv1 ch1, of "rev (ch_memberlist ?ch)" env] d by auto
    then show ?thesis using that [of "(sn, rev (ch_memberlist ch)) # old" s' ch'] False sn by auto
  qed
  let ?ch3 = "ch2\<lparr>ch_flags := ch_flags ch2 AND NOT channel_flags_permanent\<rparr>"
  let ?s3 = "s2\<lparr>s_chans := (s_chans s2)(a \<mapsto> ?ch3)\<rparr>"
  have s3: "upd_chan s2 a (\<lambda>ch. ch\<lparr>ch_flags := ch_flags ch AND NOT channel_flags_permanent\<rparr>) = Some ?s3"
    using p2(2) by (simp add: upd_chan_def)
  have inv2: "shape {} {a} s2" using p2(1) by (auto simp: shape_def chan_ok_def)
  have ch2: "s_chans s2 a = Some ch2" using p2(2) by simp
  have inv3: "shape {} {a} ?s3" by (rule shape_upd_chan [OF inv2 ch2]) simp_all
  have m3: "s_chans ?s3 a = Some ?ch3" "ch_memberlist ?ch3 = []" using p2(3) by simp_all
  let ?s4 = "?s3\<lparr>s_chans := (s_chans ?s3)(a := None), s_list := remove1 a (s_list ?s3)\<rparr>"
  have "reload_channel env a old s = Some (old', ?s4)"
    unfolding reload_channel_def using s2
    by (simp only: s1 bind.bind_lunit ch1 prod.case s3 channel_destroy_nonempty [OF m3])
  moreover have "chan_inv ?s4" using shape_destroy [OF inv3 m3] by simp
  ultimately show ?thesis using p2 by auto
qed

lemma reload_channels_total:
  "chan_inv s \<Longrightarrow> reloadable s \<Longrightarrow> s_list s = as \<Longrightarrow> (\<forall>x \<in> set old. \<forall>c \<in> set (snd x). s_conns s c \<noteq> None) \<Longrightarrow>
   \<exists>old' s'. reload_channels env as old s = Some (old', s') \<and> chan_inv s' \<and> s_list s' = []
     \<and> (\<forall>x \<in> set old'. \<forall>c \<in> set (snd x). s_conns s' c \<noteq> None)"
proof (induction as arbitrary: s old)
  case (Cons a as)
  obtain ch where ch: "s_chans s a = Some ch" using shape_list [OF Cons.prems(1), of a] Cons.prems(3) by auto
  have sn: "ch_memberlist ch \<noteq> [] \<Longrightarrow> ch_shortname ch \<noteq> None" using Cons.prems(2) ch unfolding reloadable_def by blast
  obtain old1 s1 where r: "reload_channel env a old s = Some (old1, s1)" and inv1: "chan_inv s1"
    and e: "s_chans s1 = (s_chans s)(a := None)" "s_list s1 = remove1 a (s_list s)" "\<forall>d. s_conns s1 d = None \<longleftrightarrow> s_conns s d = None"
      "\<forall>x \<in> set old1. x \<in> set old \<or> snd x = rev (ch_memberlist ch)"
    using reload_channel_total [OF Cons.prems(1) ch sn, of env old] by blast
  have m: "s_conns s c \<noteq> None" if "c \<in> set (ch_memberlist ch)" for c
    using live_member [OF chan_inv_live [OF Cons.prems(1)] ch that] by auto
  have "reloadable s1" using Cons.prems(2) e(1) by (simp add: reloadable_def)
  moreover have "s_list s1 = as" using e(2) Cons.prems(3) by simp
  moreover have "\<forall>x \<in> set old1. \<forall>c \<in> set (snd x). s_conns s1 c \<noteq> None"
  proof (intro ballI)
    fix x c assume x: "x \<in> set old1" "c \<in> set (snd x)"
    then have "s_conns s c \<noteq> None" using e(4) Cons.prems(4) m [of c] by (cases "x \<in> set old") auto
    then show "s_conns s1 c \<noteq> None" using e(3) by simp
  qed
  ultimately obtain old' s' where "reload_channels env as old1 s1 = Some (old', s')" "chan_inv s'" "s_list s' = []"
     "\<forall>x \<in> set old'. \<forall>c \<in> set (snd x). s_conns s' c \<noteq> None"
    using Cons.IH [OF inv1, of old1] by blast
  then show ?case using r by simp
qed simp

lemma reload_channels_None:
  "chan_inv s \<Longrightarrow> \<not> reloadable s \<Longrightarrow> s_list s = as \<Longrightarrow> reload_channels env as old s = None"
proof (induction as arbitrary: s old)
  case Nil
  then show ?case using shape_in_list [OF Nil.prems(1)] by (fastforce simp: reloadable_def)
next
  case (Cons a as)
  obtain ch where ch: "s_chans s a = Some ch" using shape_list [OF Cons.prems(1), of a] Cons.prems(3) by auto
  show ?case
  proof (cases "ch_memberlist ch \<noteq> [] \<and> ch_shortname ch = None")
    case True
    then have "reload_channel env a old s = None" using ch by (simp add: reload_channel_def upd_chan_def)
    then show ?thesis by simp
  next
    case False
    have sn: "ch_memberlist ch \<noteq> [] \<Longrightarrow> ch_shortname ch \<noteq> None" using False by (rule contrapos_nn) simp
    obtain old1 s1 where r: "reload_channel env a old s = Some (old1, s1)" and inv1: "chan_inv s1"
      and e: "s_chans s1 = (s_chans s)(a := None)" "s_list s1 = remove1 a (s_list s)"
      using reload_channel_total [OF Cons.prems(1) ch sn, of env old] by blast
    have "\<not> reloadable s1"
    proof -
      obtain b chb where b: "s_chans s b = Some chb" "ch_memberlist chb \<noteq> []" "ch_shortname chb = None"
        using Cons.prems(2) by (auto simp: reloadable_def)
      then have "b \<noteq> a" using False ch by auto
      then have "s_chans s1 b = Some chb" using b(1) e(1) by simp
      then show ?thesis using b(2,3) unfolding reloadable_def by blast
    qed
    then show ?thesis using Cons.IH [OF inv1, of old1] r e(2) Cons.prems(3) by simp
  qed
qed

lemma rejoin_members_total:
  "chan_inv s \<Longrightarrow> \<forall>c \<in> set ms. game_free s c \<Longrightarrow>
   \<exists>s'. rejoin_members env sn ms s = Some s' \<and> chan_inv s' \<and> (\<forall>c. game_free s c \<longrightarrow> game_free s' c)"
proof (induction ms arbitrary: s)
  case (Cons m ms)
  then obtain r s1 where s1: "conn_set_channel env m (Some sn) s = Some (r, s1)" "chan_inv s1" "only_conn m s s1" "game_free s1 m"
    using conn_set_channel_total [OF Cons.prems(1), of m env "Some sn"] by auto
  have g: "game_free s1 c" if gf: "game_free s c" for c
  proof (cases "c = m")
    case False
    obtain cn where cn: "s_conns s c = Some cn" "c_game cn \<longrightarrow> c_channel cn = None" using gf by (auto simp: game_free_def)
    have "map_option ckey (s_conns s1 c) = map_option ckey (s_conns s c)" using s1(3) False by (simp add: only_conn_def)
    then show ?thesis using cn by (auto simp: game_free_def ckey_def)
  qed (use s1(4) in simp)
  then show ?case using Cons.IH [OF s1(2)] Cons.prems(2) s1(1) by auto
qed auto

lemma rejoin_channels_total:
  "chan_inv s \<Longrightarrow> \<forall>x \<in> set old. \<forall>c \<in> set (snd x). game_free s c \<Longrightarrow>
   \<exists>s'. rejoin_channels env old s = Some s' \<and> chan_inv s'"
proof (induction old arbitrary: s)
  case (Cons x old)
  obtain sn ms where x: "x = (sn, ms)" by (cases x)
  obtain s1 where "rejoin_members env sn ms s = Some s1" "chan_inv s1" "\<forall>c. game_free s c \<longrightarrow> game_free s1 c"
    using rejoin_members_total [OF Cons.prems(1), of ms env sn] Cons.prems(2) x by auto
  then show ?case using Cons.IH [of s1] Cons.prems(2) x by auto
qed auto

lemma channellist_reload_total:
  assumes inv: "chan_inv s" and "reloadable s"
  shows "\<exists>s'. channellist_reload env lines s = Some s' \<and> chan_inv s'"
proof -
  obtain old s1 where r: "reload_channels env (s_list s) [] s = Some (old, s1)" "chan_inv s1" "s_list s1 = []"
    and m: "\<forall>x \<in> set old. \<forall>c \<in> set (snd x). s_conns s1 c \<noteq> None"
    using reload_channels_total [OF inv assms(2) refl, of "[]" env] by auto
  have "s1\<lparr>s_list := []\<rparr> = s1" using r(3) by simp
  then obtain s2 where s2: "channellist_load_permanent env lines (s1\<lparr>s_list := []\<rparr>) = Some s2" "chan_inv s2" "s_conns s2 = s_conns s1"
    using load_permanent_total [OF r(2), of env lines] by auto
  have "s_chans s1 a = None" for a using shape_in_list [OF r(2), of a] r(3) by (cases "s_chans s1 a") auto
  then have "c_channel cn = None" if "s_conns s1 c = Some cn" for c cn
    using shape_member_of [OF r(2) that] by (cases "c_channel cn") auto
  then have "\<forall>x \<in> set old. \<forall>c \<in> set (snd x). game_free s2 c" using m s2(3) by (fastforce simp: game_free_def)
  then show ?thesis using rejoin_channels_total [OF s2(2), of old env] r(1) s2(1) by (simp add: channellist_reload_def)
qed

section \<open>Every reachable state\<close>

datatype chan_cmd = Connect nat t_connection | Disconnect nat | Start_game nat
  | Join nat "cstring option" | Part nat | Quit nat "cstring option" | Kick nat "cstring option" | Rejoin nat
  | Say t_message_type nat "cstring option" | Ban nat "cstring option" | Unban nat "cstring option"
  | Set_max nat int | Moderate nat | Userflags nat | Find_channel cstring "cstring option" "cstring option"
  | Destroy nat | Load_permanent "cstring list" | Reload "cstring list"

definition drop_result :: "(int \<times> cstate) option \<Rightarrow> cstate option" where
  "drop_result = map_option snd"

fun run_cmd :: "chan_env \<Rightarrow> chan_cmd \<Rightarrow> cstate \<Rightarrow> cstate option" where
  "run_cmd env (Connect c cn) s = Some (s\<lparr>s_conns := (s_conns s)(c \<mapsto> cn)\<rparr>)"
| "run_cmd env (Disconnect c) s = do {
     (r, s1) \<leftarrow> conn_quit_channel env c None s; Some (s1\<lparr>s_conns := (s_conns s1)(c := None)\<rparr>) }"
| "run_cmd env (Start_game c) s = upd_conn s c (c_game_update (\<lambda>_. True))"
| "run_cmd env (Join c name) s = drop_result (conn_set_channel env c name s)"
| "run_cmd env (Part c) s = drop_result (conn_part_channel env c s)"
| "run_cmd env (Quit c tx) s = drop_result (conn_quit_channel env c tx s)"
| "run_cmd env (Kick c tx) s = drop_result (conn_kick_channel env c tx s)"
| "run_cmd env (Rejoin c) s = drop_result (channel_rejoin env c s)"
| "run_cmd env (Say ty c tx) s = do { cn \<leftarrow> s_conns s c; a \<leftarrow> c_channel cn; channel_message_send env a ty c tx s }"
| "run_cmd env (Ban a un) s = drop_result (channel_ban_user (Some a) un s)"
| "run_cmd env (Unban a un) s = drop_result (channel_unban_user (Some a) un s)"
| "run_cmd env (Set_max a n) s = drop_result (channel_set_max (Some a) n s)"
| "run_cmd env (Moderate c) s = drop_result (handle_moderate_command env c s)"
| "run_cmd env (Userflags c) s = drop_result (channel_set_userflags env c s)"
| "run_cmd env (Find_channel name country realmname) s =
     map_option snd (channellist_find_channel_by_name env name country realmname s)"
| "run_cmd env (Destroy a) s = drop_result (channel_destroy (Some a) s)"
| "run_cmd env (Load_permanent lines) s = channellist_load_permanent env lines s"
| "run_cmd env (Reload lines) s = channellist_reload env lines s"

text \<open>When a command may be given: its connection or its channel is there. Nothing else is asked.\<close>

fun cmd_ok :: "chan_cmd \<Rightarrow> cstate \<Rightarrow> bool" where
  "cmd_ok (Connect c cn) s \<longleftrightarrow> s_conns s c = None \<and> c_channel cn = None"
| "cmd_ok (Join c name) s \<longleftrightarrow> s_conns s c \<noteq> None"
| "cmd_ok (Say ty c tx) s \<longleftrightarrow> (case s_conns s c of None \<Rightarrow> False | Some cn \<Rightarrow> c_channel cn \<noteq> None)"
| "cmd_ok (Ban a un) s \<longleftrightarrow> a \<in> set (s_list s)"
| "cmd_ok (Unban a un) s \<longleftrightarrow> a \<in> set (s_list s)"
| "cmd_ok (Set_max a n) s \<longleftrightarrow> a \<in> set (s_list s)"
| "cmd_ok (Destroy a) s \<longleftrightarrow> a \<in> set (s_list s)"
| "cmd_ok (Find_channel name country realmname) s \<longleftrightarrow> True"
| "cmd_ok (Load_permanent lines) s \<longleftrightarrow> True"
| "cmd_ok (Reload lines) s \<longleftrightarrow> True"
| "cmd_ok (Disconnect c) s \<longleftrightarrow> s_conns s c \<noteq> None"
| "cmd_ok (Start_game c) s \<longleftrightarrow> s_conns s c \<noteq> None"
| "cmd_ok (Part c) s \<longleftrightarrow> s_conns s c \<noteq> None"
| "cmd_ok (Quit c tx) s \<longleftrightarrow> s_conns s c \<noteq> None"
| "cmd_ok (Kick c tx) s \<longleftrightarrow> s_conns s c \<noteq> None"
| "cmd_ok (Rejoin c) s \<longleftrightarrow> s_conns s c \<noteq> None"
| "cmd_ok (Moderate c) s \<longleftrightarrow> s_conns s c \<noteq> None"
| "cmd_ok (Userflags c) s \<longleftrightarrow> s_conns s c \<noteq> None"

text \<open>
  The two commands that make the program use a channel that is gone or a NULL string: a join that the
  checks for clans send to the channel the connection is in, when that channel goes away as the
  connection leaves it; and a reload while somebody is in a channel that has no short name.
\<close>

fun faults :: "chan_env \<Rightarrow> chan_cmd \<Rightarrow> cstate \<Rightarrow> bool" where
  "faults env (Join c name) s = sent_home env c name s"
| "faults env (Reload lines) s = list_ex (\<lambda>a. case s_chans s a of None \<Rightarrow> False
     | Some ch \<Rightarrow> ch_memberlist ch \<noteq> [] \<and> ch_shortname ch = None) (s_list s)"
| "faults env cmd s = False"

definition initial :: "cstate" where
  "initial = \<lparr>s_conns = (\<lambda>_. None), s_chans = (\<lambda>_. None), s_list = [], s_next = 0, s_totalcount = 0, s_calls = []\<rparr>"

inductive chan_reach :: "chan_env \<Rightarrow> cstate \<Rightarrow> bool" for env where
  reach_init: "chan_reach env initial"
| reach_step: "chan_reach env s \<Longrightarrow> cmd_ok cmd s \<Longrightarrow> run_cmd env cmd s = Some s' \<Longrightarrow> chan_reach env s'"

lemma same_inv:
  "s_conns s' = s_conns s \<Longrightarrow> s_chans s' = s_chans s \<Longrightarrow> s_list s' = s_list s \<Longrightarrow> s_next s' = s_next s
   \<Longrightarrow> chan_inv s \<Longrightarrow> chan_inv s'"
  using quiet_shape [OF same_quiet] by blast

lemma connect_inv:
  assumes "chan_inv s" and "s_conns s c = None" and "c_channel cn = None"
  shows "chan_inv (s\<lparr>s_conns := (s_conns s)(c \<mapsto> cn)\<rparr>)" (is "chan_inv ?s")
proof -
  have "link_ok {} ?s"
  proof (rule link_okI)
    fix a ch d assume "s_chans ?s a = Some ch" "d \<in> set (ch_memberlist ch)"
    then have "\<exists>cn. s_conns s d = Some cn \<and> c_channel cn = Some a"
      using assms(1) link_ok_member [of "{}" s a ch d] by (simp add: shape_def)
    then show "\<exists>cn. s_conns ?s d = Some cn \<and> (d \<notin> {} \<longrightarrow> c_channel cn = Some a)" using assms(2) by auto
  next
    fix d cn' a assume "s_conns ?s d = Some cn'" "d \<notin> {}" "c_channel cn' = Some a"
    then have "s_conns s d = Some cn'" "c_channel cn' = Some a" using assms(3) by (auto split: if_splits)
    then show "\<exists>ch. s_chans ?s a = Some ch \<and> d \<in> set (ch_memberlist ch)" using shape_member_of [OF assms(1)] by simp
  qed
  then show ?thesis using assms(1) by (simp add: shape_def list_ok_def)
qed

lemma disconnect_inv:
  assumes "chan_inv s" and "s_conns s c = Some cn" and "c_channel cn = None"
  shows "chan_inv (s\<lparr>s_conns := (s_conns s)(c := None)\<rparr>)" (is "chan_inv ?s")
proof -
  have abs: "absent c s" by (rule shape_absent [OF assms])
  have "link_ok {} ?s"
  proof (rule link_okI)
    fix a ch d assume d: "s_chans ?s a = Some ch" "d \<in> set (ch_memberlist ch)"
    then have "\<exists>cn. s_conns s d = Some cn \<and> c_channel cn = Some a"
      using assms(1) link_ok_member [of "{}" s a ch d] by (simp add: shape_def)
    moreover have "d \<noteq> c" using abs d by (auto simp: absent_def)
    ultimately show "\<exists>cn. s_conns ?s d = Some cn \<and> (d \<notin> {} \<longrightarrow> c_channel cn = Some a)" by simp
  next
    fix d cn' a assume "s_conns ?s d = Some cn'" "d \<notin> {}" "c_channel cn' = Some a"
    then have "s_conns s d = Some cn'" "c_channel cn' = Some a" by (auto split: if_splits)
    then show "\<exists>ch. s_chans ?s a = Some ch \<and> d \<in> set (ch_memberlist ch)" using shape_member_of [OF assms(1)] by simp
  qed
  then show ?thesis using assms(1) by (simp add: shape_def list_ok_def)
qed

lemma destroy_total:
  assumes inv: "chan_inv s" and "a \<in> set (s_list s)"
  shows "\<exists>r s'. channel_destroy (Some a) s = Some (r, s') \<and> chan_inv s'"
proof -
  obtain ch where ch: "s_chans s a = Some ch" using shape_list [OF assms] by blast
  show ?thesis
  proof (cases "ch_memberlist ch = []")
    case True
    then show ?thesis using channel_destroy_nonempty [OF ch True] shape_destroy [OF inv ch True] by simp
  next
    case False
    then have "chan_inv (s\<lparr>s_chans := (s_chans s)(a \<mapsto> ch\<lparr>ch_flags := ch_flags ch AND NOT channel_flags_permanent\<rparr>)\<rparr>)"
      by (intro shape_upd_chan [OF inv ch]) simp_all
    then show ?thesis using ch False by (simp add: channel_destroy_def)
  qed
qed

lemma ban_total:
  assumes inv: "chan_inv s" and "a \<in> set (s_list s)"
  shows "\<exists>r s'. channel_ban_user (Some a) un s = Some (r, s') \<and> chan_inv s'"
    and "\<exists>r s'. channel_unban_user (Some a) un s = Some (r, s') \<and> chan_inv s'"
    and "\<exists>r s'. channel_set_max (Some a) n s = Some (r, s') \<and> chan_inv s'"
proof -
  obtain ch where ch: "s_chans s a = Some ch" using shape_list [OF assms] by blast
  have u: "chan_inv (s\<lparr>s_chans := (s_chans s)(a \<mapsto> ch1)\<rparr>)"
    if "ch_memberlist ch1 = ch_memberlist ch" "ch_currmembers ch1 = ch_currmembers ch" "ch_flags ch1 = ch_flags ch" for ch1
    using shape_upd_chan [OF inv ch that(1,2)] that(3) shape_chan_ok [OF inv ch] by (simp add: chan_ok_def has_flag_def)
  show "\<exists>r s'. channel_ban_user (Some a) un s = Some (r, s') \<and> chan_inv s'"
    using ch inv u [of "ch\<lparr>ch_banlist := ch_banlist ch @ [the un]\<rparr>"] by (cases un) (simp_all add: channel_ban_user_def)
  show "\<exists>r s'. channel_unban_user (Some a) un s = Some (r, s') \<and> chan_inv s'"
  proof (cases un)
    case (Some u')
    then show ?thesis using ch inv u [of "ch\<lparr>ch_banlist := the (unban_loop u' (ch_banlist ch))\<rparr>"]
      by (cases "unban_loop u' (ch_banlist ch)") (simp_all add: channel_unban_user_def)
  qed (use inv in \<open>simp add: channel_unban_user_def\<close>)
  show "\<exists>r s'. channel_set_max (Some a) n s = Some (r, s') \<and> chan_inv s'"
    using ch u [of ch] u [of "ch\<lparr>ch_maxmembers := n\<rparr>"] by (simp add: channel_set_max_def set_field_def upd_chan_def)
qed

lemma permanent_xor: "has_flag (ch\<lparr>ch_flags := ch_flags ch XOR channel_flags_moderated\<rparr>) channel_flags_permanent
    \<longleftrightarrow> has_flag ch channel_flags_permanent"
proof -
  have "(ch_flags ch XOR channel_flags_moderated) AND channel_flags_permanent = ch_flags ch AND channel_flags_permanent"
    by (simp add: bit.conj_xor_distrib2 channel_flags_moderated_def channel_flags_permanent_def)
  then show ?thesis by (simp add: has_flag_def)
qed

lemma say_same:
  assumes "chan_inv s" and "s_conns s c = Some cn" and "s_chans s a = Some ch"
  shows "\<exists>s'. channel_message_send env a ty c tx s = Some s' \<and> chan_inv s'"
  using channel_message_send_same [OF chan_inv_live [OF assms(1)] assms(3,2)] same_inv [OF _ _ _ _ assms(1)] by metis

lemma moderate_total:
  assumes inv: "chan_inv s" and cn: "s_conns s c = Some cn"
  shows "\<exists>r s'. handle_moderate_command env c s = Some (r, s') \<and> chan_inv s'"
proof (cases "c_channel cn")
  case None
  then show ?thesis using assms by (simp add: handle_moderate_command_def)
next
  case (Some a)
  then obtain ch where ch: "s_chans s a = Some ch" using shape_member_of [OF inv cn] by blast
  let ?ch = "ch\<lparr>ch_flags := ch_flags ch XOR channel_flags_moderated\<rparr>"
  let ?s = "s\<lparr>s_chans := (s_chans s)(a \<mapsto> ?ch)\<rparr>"
  have inv1: "chan_inv ?s"
    by (rule shape_upd_chan [OF inv ch]) (use shape_chan_ok [OF inv ch] in \<open>simp_all add: permanent_xor chan_ok_def\<close>)
  have "\<exists>s'. channel_message_send env a message_type_info c tx ?s = Some s' \<and> chan_inv s'" for tx
    by (rule say_same [OF inv1, of c cn a ?ch]) (use cn in simp_all)
  then obtain s' where "channel_message_send env a message_type_info c
      (Some (if has_flag ch channel_flags_moderated then ''Channel is now unmoderated'' else ''Channel is now moderated'')) ?s = Some s'"
      "chan_inv s'"
    by blast
  then show ?thesis
    using inv cn Some ch
    by (simp add: handle_moderate_command_def channel_set_flags_def set_field_def upd_chan_def)
qed

lemma faults_reload: "chan_inv s \<Longrightarrow> faults env (Reload lines) s \<longleftrightarrow> \<not> reloadable s"
  using shape_in_list [of "{}" "{}" s] by (fastforce simp: reloadable_def list_ex_iff split: option.splits)

lemma run_cmd_total:
  assumes inv: "chan_inv s" and ok: "cmd_ok cmd s" and nf: "\<not> faults env cmd s"
  shows "\<exists>s'. run_cmd env cmd s = Some s' \<and> chan_inv s'"
proof (cases cmd)
  case (Connect c cn)
  then show ?thesis using connect_inv [OF inv] ok by simp
next
  case (Disconnect c)
  then obtain cn where cn: "s_conns s c = Some cn" using ok by auto
  show ?thesis
  proof (cases "c_channel cn")
    case None
    then show ?thesis using Disconnect cn disconnect_inv [OF inv cn None] by (simp add: conn_quit_channel_def)
  next
    case (Some a)
    obtain ch s' where l: "leave env message_type_quit c None s = Some (0, s')" "chan_inv s'" "has_left c a ch s s'"
      using leave_total [OF inv cn Some] by blast
    obtain cn' where "s_conns s' c = Some cn'" "ckey cn' = ckey (cn\<lparr>c_channel := None\<rparr>)" using has_left_conn [OF l(3) cn] by blast
    then show ?thesis using Disconnect l(1) disconnect_inv [OF l(2), of c cn'] by (simp add: leave_simps ckey_def)
  qed
next
  case (Start_game c)
  then obtain cn where "s_conns s c = Some cn" using ok by auto
  then show ?thesis using Start_game shape_upd_conn [OF inv, of c cn "cn\<lparr>c_game := True\<rparr>"] by (simp add: upd_conn_def)
next
  case (Join c name)
  then obtain cn where "s_conns s c = Some cn" using ok by auto
  then show ?thesis using Join nf conn_set_channel_result [OF inv, of c cn env name]
    by (auto simp: drop_result_def set_channel_ok_def split: option.splits)
next
  case (Part c)
  then show ?thesis using leave_any [OF inv, of c] ok by (fastforce simp: drop_result_def leave_simps)
next
  case (Quit c tx)
  then show ?thesis using leave_any [OF inv, of c] ok by (fastforce simp: drop_result_def leave_simps)
next
  case (Kick c tx)
  then show ?thesis using leave_any [OF inv, of c] ok by (fastforce simp: drop_result_def leave_simps)
next
  case (Rejoin c)
  then show ?thesis using channel_rejoin_total [OF inv, of c] ok by (fastforce simp: drop_result_def)
next
  case (Say ty c tx)
  then obtain cn a where cn: "s_conns s c = Some cn" "c_channel cn = Some a" using ok by (auto split: option.splits)
  then obtain ch where "s_chans s a = Some ch" using shape_member_of [OF inv] by blast
  then show ?thesis using say_same [OF inv cn(1)] Say cn by auto
next
  case (Ban a un)
  then show ?thesis using ban_total(1) [OF inv, of a un] ok by (auto simp: drop_result_def)
next
  case (Unban a un)
  then show ?thesis using ban_total(2) [OF inv, of a un] ok by (auto simp: drop_result_def)
next
  case (Set_max a n)
  then show ?thesis using ban_total(3) [OF inv, of a n] ok by (auto simp: drop_result_def)
next
  case (Moderate c)
  then show ?thesis using moderate_total [OF inv, of c] ok by (fastforce simp: drop_result_def)
next
  case (Userflags c)
  then obtain cn where "s_conns s c = Some cn" using ok by auto
  from channel_set_userflags_quiet [OF chan_inv_live [OF inv] this, of env]
  obtain r s' where "channel_set_userflags env c s = Some (r, s')" "quiet s s'" by blast
  then show ?thesis using Userflags quiet_shape [OF _ inv] by (simp add: drop_result_def)
next
  case (Find_channel name country realmname)
  then show ?thesis using find_by_name_total [OF inv, of env name country realmname] by auto
next
  case (Destroy a)
  then show ?thesis using destroy_total [OF inv, of a] ok by (auto simp: drop_result_def)
next
  case (Load_permanent lines)
  then show ?thesis using load_permanent_total [OF inv] by auto
next
  case (Reload lines)
  then have "reloadable s" using nf faults_reload [OF inv] by blast
  then show ?thesis using channellist_reload_total [OF inv] Reload by simp
qed

lemma run_cmd_faults:
  assumes inv: "chan_inv s" and ok: "cmd_ok cmd s" and f: "faults env cmd s"
  shows "run_cmd env cmd s = None"
proof (cases cmd)
  case (Join c name)
  then obtain cn where "s_conns s c = Some cn" using ok by auto
  then show ?thesis using Join f conn_set_channel_result [OF inv, of c cn env name]
    by (simp add: drop_result_def split: option.splits)
next
  case (Reload lines)
  then show ?thesis using f faults_reload [OF inv] reload_channels_None [OF inv _ refl]
    by (simp add: channellist_reload_def)
qed (use f in simp_all)

lemma run_cmd_result:
  assumes "chan_inv s" and "cmd_ok cmd s"
  shows "case run_cmd env cmd s of None \<Rightarrow> faults env cmd s | Some s' \<Rightarrow> \<not> faults env cmd s \<and> chan_inv s'"
  using run_cmd_total [OF assms, of env] run_cmd_faults [OF assms, of env] by (cases "faults env cmd s") auto

lemma initial_inv: "chan_inv initial"
  by (simp add: initial_def shape_def list_ok_def link_ok_def)

lemma chan_reach_inv: "chan_reach env s \<Longrightarrow> chan_inv s"
proof (induction rule: chan_reach.induct)
  case reach_init
  show ?case by (rule initial_inv)
next
  case (reach_step s cmd s')
  then show ?case using run_cmd_result [of s cmd env] by simp
qed

text \<open>
  C2. However connections join, leave, are kicked, rejoin, talk, enter games and are banned, and whatever
  channels are created, loaded, reloaded and destroyed: a command on a live connection or a channel of
  the list always returns, follows a dangling or NULL pointer exactly in the two cases of \<open>faults\<close> (a
  join that a check for clans sends back to the channel the connection is in and that goes away when it
  leaves; a reload with somebody in a channel that has no short name), and otherwise every channel of the
  state after it stands in the list once and counts its members, its members are exactly the connections
  whose channel it is, each once, and only a permanent channel is empty.
\<close>

theorem channels_consistent:
  assumes "chan_reach env s" and "cmd_ok cmd s"
  shows "case run_cmd env cmd s of None \<Rightarrow> faults env cmd s | Some s' \<Rightarrow> \<not> faults env cmd s \<and> chan_inv s'"
  by (rule run_cmd_result [OF chan_reach_inv [OF assms(1)] assms(2)])

definition quiet_env :: chan_env where
  "quiet_env = \<lparr>account_match = (\<lambda>a un. if strcasecmp un ''eve'' = 0 \<and> a = 1 then 1 else 0), boolattr = (\<lambda>_ _. 0),
     find_account = (\<lambda>_. None), chatname = (\<lambda>_. Some ''x''), country_of = (\<lambda>_. None), realm_of = (\<lambda>_. None),
     send_ok = (\<lambda>_ _. True), log_opens = False, clan_of = (\<lambda>_. None), clan_private = (\<lambda>_. False),
     clan_shaman = (\<lambda>_. False), clan_motd = (\<lambda>_. []), topic_of = (\<lambda>_. None), prefs_chanlog = False,
     prefs_maxusers_per_channel = 0, tag_of = (\<lambda>_. 0), uninitialised = 0\<rparr>"

definition demo_user :: "nat \<Rightarrow> t_connection" where
  "demo_user a = \<lparr>c_class = conn_class_bnet, c_account = Some a, c_channel = None, c_tmpOP_channel = None,
     c_tmpVOICE_channel = None, c_ignore_list = [], c_clienttag = 0, c_game = False, c_flags = 0\<rparr>"

lemma one_user_reach: "chan_reach quiet_env (initial\<lparr>s_conns := (\<lambda>_. None)(7 \<mapsto> demo_user 1)\<rparr>)"
  by (rule reach_step [OF reach_init, of "Connect 7 (demo_user 1)"]) (simp_all add: initial_def demo_user_def)

declare find_loop.simps [code]

lemma channels_consistent_witness:
  "\<exists>s'. run_cmd quiet_env (Join 7 (Some ''tavern'')) (initial\<lparr>s_conns := (\<lambda>_. None)(7 \<mapsto> demo_user 1)\<rparr>) = Some s'
     \<and> \<not> faults quiet_env (Join 7 (Some ''tavern'')) (initial\<lparr>s_conns := (\<lambda>_. None)(7 \<mapsto> demo_user 1)\<rparr>) \<and> chan_inv s'"
proof -
  let ?s = "initial\<lparr>s_conns := (\<lambda>_. None)(7 \<mapsto> demo_user 1)\<rparr>" and ?j = "Join 7 (Some ''tavern'')"
  have "map_option (\<lambda>s. s_list s) (run_cmd quiet_env ?j ?s) = Some [0]" by code_simp
  then obtain s' where s': "run_cmd quiet_env ?j ?s = Some s'" by auto
  have "cmd_ok ?j ?s" by (simp add: demo_user_def)
  from channels_consistent [OF one_user_reach this] show ?thesis using s' by simp
qed

end
