(* ===== verification/Channel_Bans.thy ===== *)
theory Channel_Bans
  imports Channel_Inv
begin

text \<open>
  What every operation of the channels keeps of bans and members: the ban list of a channel that stays is
  the same, and a connection is a member of it afterwards only when it was one before or when no entry of
  the ban list matches it. The lemmas speak of the states in which an operation returns and need no
  invariant.
\<close>

section \<open>States that differ in messages and flags only\<close>

definition still :: "cstate \<Rightarrow> cstate \<Rightarrow> bool" where
  "still s s' \<longleftrightarrow> s_chans s' = s_chans s \<and> s_next s' = s_next s
     \<and> (\<forall>c. map_option c_account (s_conns s' c) = map_option c_account (s_conns s c))"

lemma still_refl [simp]: "still s s"
  by (simp add: still_def)

lemma still_trans: "still s s' \<Longrightarrow> still s' s'' \<Longrightarrow> still s s''"
  by (simp add: still_def)

lemma still_emit [simp]: "still s0 (emit evs s) \<longleftrightarrow> still s0 s"
  by (simp add: still_def)

lemma still_send [simp]: "still s0 (message_send env ty src tx dst s) \<longleftrightarrow> still s0 s"
  by (simp add: still_def)

lemma still_text [simp]: "still s0 (message_send_text env dst ty src tx s) \<longleftrightarrow> still s0 s"
  by (simp add: still_def)

lemma still_foldl [simp]: "still s0 (foldl (\<lambda>s c. message_send env ty me tx c s) s ms) \<longleftrightarrow> still s0 s"
  by (simp add: still_def)

lemma still_announce [simp]: "still s0 (announce_join env c g ms s) \<longleftrightarrow> still s0 s"
  by (simp add: still_def)

lemma still_left [simp]:
  "still (emit evs s) s' \<longleftrightarrow> still s s'"
  "still (message_send env ty src tx dst s) s' \<longleftrightarrow> still s s'"
  "still (message_send_text env dst ty src tx s) s' \<longleftrightarrow> still s s'"
  "still (announce_join env c g ms s) s' \<longleftrightarrow> still s s'"
  by (simp_all add: still_def)

lemma still_upd_conn: "upd_conn s c f = Some s' \<Longrightarrow> (\<And>cn. c_account (f cn) = c_account cn) \<Longrightarrow> still s s'"
  by (auto simp: upd_conn_def still_def bind_eq_Some_conv)

lemma still_tmpOP: "conn_set_tmpOP_channel s c t = Some s' \<Longrightarrow> still s s'"
  unfolding conn_set_tmpOP_channel_def by (erule still_upd_conn) simp

lemma still_log: "channel_message_log a me fu tx s = Some s' \<Longrightarrow> still s s'"
  by (auto simp: channel_message_log_def bind_eq_Some_conv)

lemma still_members: "send_members env ch ty me tn tx ms h s = Some (h', s') \<Longrightarrow> still s s'"
proof (induction ms arbitrary: h s)
  case (Cons m ms)
  show ?case using Cons.prems Cons.IH [of h s] Cons.IH [of "h \<or> send_ok env ty m \<and> m \<noteq> me" "message_send env ty me tx m s"]
    by (auto simp: bind_eq_Some_conv still_def split: if_splits)
qed simp

lemma still_message: "channel_message_send env a ty me tx s = Some s' \<Longrightarrow> still s s'"
  using still_members
  by (auto simp: channel_message_send_def bind_eq_Some_conv Let_def split: if_splits)

lemma still_userflags_sent: "channel_update_userflags env me s = Some s' \<Longrightarrow> still s s'"
  by (auto simp: channel_update_userflags_def bind_eq_Some_conv split: option.splits)

lemma still_set_flags: "conn_set_flags env c fl s = Some s' \<Longrightarrow> still s s'"
  by (auto simp: conn_set_flags_def bind_eq_Some_conv split: if_splits
      intro: still_trans [OF still_upd_conn still_userflags_sent] still_upd_conn)

lemma flags_changed:
  "(if b then do { s1 \<leftarrow> conn_set_flags env c fl s; s2 \<leftarrow> channel_update_userflags env c s1; Some (0, s2) } else Some (0, s)) = Some (r, s')
   \<Longrightarrow> still s s'"
  using still_trans [OF still_set_flags still_userflags_sent] by (auto simp: bind_eq_Some_conv split: if_split_asm)

lemma still_set_userflags: "channel_set_userflags env c s = Some (r, s') \<Longrightarrow> still s s'"
proof -
  assume h: "channel_set_userflags env c s = Some (r, s')"
  obtain cn where cn: "s_conns s c = Some cn" using h by (auto simp: channel_set_userflags_def bind_eq_Some_conv)
  show ?thesis
  proof (cases "c_channel cn")
    case None
    then show ?thesis using h cn by (simp add: channel_set_userflags_def)
  next
    case (Some a)
    then obtain ch where ch: "s_chans s a = Some ch" using h cn by (auto simp: channel_set_userflags_def bind_eq_Some_conv)
    show ?thesis
      using h unfolding channel_set_userflags_def Let_def cn Some ch option.case bind.bind_lunit by (rule flags_changed)
  qed
qed

lemma quiet_still: "quiet s s' \<Longrightarrow> still s s'"
proof -
  assume q: "quiet s s'"
  have "map_option c_account (s_conns s' c) = map_option c_account (s_conns s c)" for c
  proof -
    have "map_option ckey (s_conns s' c) = map_option ckey (s_conns s c)" using q by (simp add: quiet_def)
    then have "map_option (fst \<circ> snd) (map_option ckey (s_conns s' c)) = map_option (fst \<circ> snd) (map_option ckey (s_conns s c))"
      by simp
    then show ?thesis by (simp add: option.map_comp comp_def ckey_def)
  qed
  then show ?thesis using q by (simp add: still_def quiet_def)
qed

lemma still_after_join: "after_join env c a old clantag clan s = Some s' \<Longrightarrow> still s s'"
proof -
  assume h: "after_join env c a old clantag clan s = Some s'"
  obtain ch cn where "s_chans s a = Some ch" "s_conns s c = Some cn"
    using h by (auto simp: after_join_def bind_eq_Some_conv)
  from after_join_quiet [OF this, of env old clantag clan] show ?thesis using h quiet_still by auto
qed

section \<open>Bans and members\<close>

definition banned_by :: "chan_env \<Rightarrow> t_channel \<Rightarrow> t_connection \<Rightarrow> bool" where
  "banned_by env ch cn \<longleftrightarrow> list_ex (\<lambda>b. conn_match env cn b = 1) (ch_banlist ch)"

definition guarded_chan :: "chan_env \<Rightarrow> cstate \<Rightarrow> t_channel \<Rightarrow> t_channel \<Rightarrow> bool" where
  "guarded_chan env s ch ch' \<longleftrightarrow> ch_banlist ch' = ch_banlist ch
     \<and> (\<forall>c cn. c \<in> set (ch_memberlist ch') \<longrightarrow> s_conns s c = Some cn \<longrightarrow> c \<in> set (ch_memberlist ch) \<or> \<not> banned_by env ch cn)"

definition guarded :: "chan_env \<Rightarrow> cstate \<Rightarrow> cstate \<Rightarrow> bool" where
  "guarded env s s' \<longleftrightarrow> s_next s \<le> s_next s'
     \<and> (\<forall>c. map_option c_account (s_conns s' c) = map_option c_account (s_conns s c))
     \<and> (\<forall>a ch'. s_chans s' a = Some ch' \<longrightarrow> a < s_next s \<longrightarrow> (\<exists>ch. s_chans s a = Some ch \<and> guarded_chan env s ch ch'))"

lemma guarded_chan_same: "ch_banlist ch' = ch_banlist ch \<Longrightarrow> set (ch_memberlist ch') \<subseteq> set (ch_memberlist ch) \<Longrightarrow> guarded_chan env s ch ch'"
  by (auto simp: guarded_chan_def)

lemma still_guarded: "still s s' \<Longrightarrow> guarded env s s'"
  by (auto simp: still_def guarded_def intro!: guarded_chan_same)

lemma guarded_refl [simp]: "guarded env s s"
  by (rule still_guarded) simp

lemma banned_by_cong: "c_account cn' = c_account cn \<Longrightarrow> ch_banlist ch' = ch_banlist ch \<Longrightarrow> banned_by env ch' cn' = banned_by env ch cn"
  by (simp add: banned_by_def conn_match_def)

lemma guarded_trans:
  assumes g: "guarded env s s1" "guarded env s1 s2"
  shows "guarded env s s2"
  unfolding guarded_def
proof (intro conjI allI impI)
  show "s_next s \<le> s_next s2" using g by (simp add: guarded_def)
  show "map_option c_account (s_conns s2 c) = map_option c_account (s_conns s c)" for c using g by (simp add: guarded_def)
  fix a ch2 assume a: "s_chans s2 a = Some ch2" "a < s_next s"
  then have "a < s_next s1" using g(1) by (simp add: guarded_def)
  then obtain ch1 where ch1: "s_chans s1 a = Some ch1" "guarded_chan env s1 ch1 ch2" using g(2) a(1) unfolding guarded_def by blast
  then obtain ch where ch: "s_chans s a = Some ch" "guarded_chan env s ch ch1" using g(1) a(2) unfolding guarded_def by blast
  have "guarded_chan env s ch ch2"
    unfolding guarded_chan_def
  proof (intro conjI allI impI)
    show "ch_banlist ch2 = ch_banlist ch" using ch1(2) ch(2) by (simp add: guarded_chan_def)
    fix c cn assume c: "c \<in> set (ch_memberlist ch2)" "s_conns s c = Some cn"
    have "map_option c_account (s_conns s1 c) = Some (c_account cn)" using g(1) c(2) by (simp add: guarded_def)
    then obtain cn1 where cn1: "s_conns s1 c = Some cn1" "c_account cn1 = c_account cn" by (cases "s_conns s1 c") auto
    then have "c \<in> set (ch_memberlist ch1) \<or> \<not> banned_by env ch1 cn1" using ch1(2) c(1) unfolding guarded_chan_def by blast
    then show "c \<in> set (ch_memberlist ch) \<or> \<not> banned_by env ch cn"
      using ch(2) c(2) banned_by_cong [OF cn1(2), of ch1 ch env] unfolding guarded_chan_def by blast
  qed
  then show "\<exists>ch. s_chans s a = Some ch \<and> guarded_chan env s ch ch2" using ch(1) by blast
qed

lemma guarded_chan_upd:
  assumes "s_chans s a = Some ch" and "guarded_chan env s ch ch1"
  shows "guarded env s (s\<lparr>s_chans := (s_chans s)(a \<mapsto> ch1)\<rparr>)"
  using assms by (auto simp: guarded_def intro!: guarded_chan_same)

lemma guarded_upd_chan:
  "upd_chan s a f = Some s' \<Longrightarrow> (\<And>ch. ch_banlist (f ch) = ch_banlist ch) \<Longrightarrow> (\<And>ch. ch_memberlist (f ch) = ch_memberlist ch)
   \<Longrightarrow> guarded env s s'"
  by (auto simp: upd_chan_def bind_eq_Some_conv intro!: guarded_chan_upd guarded_chan_same)

lemma guarded_create: "channel_create env ca s = Some (r, s') \<Longrightarrow> guarded env s s'"
  by (auto simp: channel_create_def bind_eq_Some_conv Let_def guarded_def split: option.splits if_splits intro!: guarded_chan_same)

lemma guarded_destroy: "channel_destroy a s = Some (r, s') \<Longrightarrow> guarded env s s'"
  by (auto simp: channel_destroy_def bind_eq_Some_conv guarded_def split: option.splits if_splits intro!: guarded_chan_same)

lemma not_banned: "\<not> channel_check_banning env ch cn \<Longrightarrow> \<not> banned_by env ch cn"
  by (simp add: channel_check_banning_def banned_by_def split: if_splits)

lemma guarded_still: "guarded env s s1 \<Longrightarrow> still s1 s2 \<Longrightarrow> guarded env s s2"
  by (rule guarded_trans [OF _ still_guarded])

lemma guarded_add:
  assumes "channel_add_connection env a c s = Some (r, s')"
  shows "guarded env s s'"
proof -
  obtain ch cn where ch: "s_chans s a = Some ch" and cn: "s_conns s c = Some cn"
    using assms by (auto simp: channel_add_connection_def bind_eq_Some_conv)
  show ?thesis
  proof (cases "channel_check_banning env ch cn")
    case True
    then show ?thesis using assms ch cn still_guarded [OF still_log]
      by (auto simp: channel_add_connection_def bind_eq_Some_conv)
  next
    case False
    let ?ch = "ch\<lparr>ch_memberlist := c # ch_memberlist ch, ch_currmembers := ch_currmembers ch + 1\<rparr>"
    let ?s0 = "s\<lparr>s_chans := (s_chans s)(a \<mapsto> ?ch)\<rparr>"
    have g0: "guarded env s ?s0"
      using not_banned [OF False] cn by (intro guarded_chan_upd [OF ch]) (auto simp: guarded_chan_def)
    obtain s1 s3 s5 where l: "channel_message_log a c False (Some ''JOINED'') ?s0 = Some s1"
      and s3: "(if \<not> has_flag ch channel_flags_permanent \<and> \<not> has_flag ch channel_flags_thevoid
                 \<and> \<not> has_flag ch channel_flags_clan \<and> ch_currmembers ?ch = 1
                 \<and> account_is_operator_or_admin env (c_account cn) (ch_name ch) = 0
              then do {
                s' \<leftarrow> conn_set_tmpOP_channel
                  (message_send_text env c message_type_info c (Some ''you are now tempOP for this channel'')
                    (message_send_text env c message_type_channel c (Some (ch_name ch)) s1))
                  c (Some (ch_name ch));
                channel_update_userflags env c s' }
              else Some (message_send_text env c message_type_channel c (Some (ch_name ch)) s1)) = Some s3"
      and s5: "(if conn_is_irc_variant cn \<and> \<not> c_game cn
              then do { (r, s') \<leftarrow> channel_set_userflags env c
                  (if \<not> has_flag ch channel_flags_thevoid then announce_join env c (c_game cn) (ch_memberlist ?ch) s3
                   else if \<not> c_game cn then message_send_text env c message_type_join c None s3 else s3);
                        Some (message_send_text env c message_type_namreply c None
                          (message_send_text env c message_type_topic c None s')) }
              else Some (if \<not> has_flag ch channel_flags_thevoid then announce_join env c (c_game cn) (ch_memberlist ?ch) s3
                   else if \<not> c_game cn then message_send_text env c message_type_join c None s3 else s3)) = Some s5"
      and s': "s' = (if ch_log ch then message_send_text env c message_type_info c None s5 else s5)"
      using assms False ch cn unfolding channel_add_connection_def Let_def by (auto simp only: bind_eq_Some_conv option.inject if_False prod.inject)
    have "still s1 s3"
      using s3 by (auto simp: bind_eq_Some_conv split: if_split_asm dest!: still_tmpOP still_userflags_sent intro: still_trans)
    moreover have "still s3 s5"
      using s5 by (auto simp: bind_eq_Some_conv simp del: announce_join.simps split: if_split_asm dest!: still_set_userflags intro: still_trans)
    ultimately have "still ?s0 s'" using still_log [OF l] s' still_trans by (auto split: if_splits)
    then show ?thesis by (rule guarded_still [OF g0])
  qed
qed

lemma guarded_del:
  assumes "channel_del_connection env a c mess tx s = Some (r, s')"
  shows "guarded env s s'"
proof -
  obtain s1 s2 ch cn where s1: "channel_message_send env a mess c tx s = Some s1"
    and s2: "channel_message_log a c False (Some ''PARTED'') s1 = Some s2"
    and ch: "s_chans s2 a = Some ch" and cn: "s_conns s2 c = Some cn"
    using assms unfolding channel_del_connection_def by (auto simp only: bind_eq_Some_conv)
  obtain m ms where ml: "ch_memberlist ch = m # ms"
    using assms unfolding channel_del_connection_def s1 s2 bind.bind_lunit ch cn by (cases "ch_memberlist ch") simp_all
  have g2: "guarded env s s2" using still_guarded [OF still_trans [OF still_message [OF s1] still_log [OF s2]]] .
  show ?thesis
  proof (cases "if m = c then Some ms else del_loop c (m # ms)")
    case None
    then show ?thesis using assms g2 unfolding channel_del_connection_def s1 s2 bind.bind_lunit ch cn ml by simp
  next
    case (Some members)
    let ?ch = "ch\<lparr>ch_memberlist := members, ch_currmembers := ch_currmembers ch - 1\<rparr>"
    let ?s3 = "s2\<lparr>s_chans := (s_chans s2)(a \<mapsto> ?ch)\<rparr>"
    have "members = remove1 c (m # ms)"
    proof (cases "c \<in> set (m # ms)")
      case True
      then show ?thesis using Some del_loop_spec [OF True] by simp
    next
      case False
      have "del_loop c xs = None" if "c \<notin> set xs" for xs
        using that by (induction c xs rule: del_loop.induct) auto
      then show ?thesis using Some False by auto
    qed
    then have g3: "guarded env s2 ?s3"
      using set_remove1_subset [of c "m # ms"] by (intro guarded_chan_upd [OF ch] guarded_chan_same) (simp_all add: ml)
    obtain s4 where s4: "(if c_tmpOP_channel cn = Some (ch_name ch) then conn_set_tmpOP_channel ?s3 c None else Some ?s3) = Some s4"
      and s': "(if members = [] \<and> \<not> has_flag ch channel_flags_permanent
           then do { (r, s5) \<leftarrow> channel_destroy (Some a) s4; Some (0, s5) }
           else Some (0, s4)) = Some (r, s')"
      using assms Some unfolding channel_del_connection_def s1 s2 bind.bind_lunit ch cn ml Let_def
      by (auto simp only: bind_eq_Some_conv option.case list.case)
    have "guarded env ?s3 s4" using s4 by (auto split: if_split_asm dest!: still_tmpOP intro: still_guarded)
    moreover have "guarded env s4 s'" using s' by (auto simp: bind_eq_Some_conv split: if_split_asm dest!: guarded_destroy)
    ultimately show ?thesis using g2 g3 guarded_trans by blast
  qed
qed

lemma guarded_leave: "leave env mess c tx s = Some (r, s') \<Longrightarrow> guarded env s s'"
proof -
  assume h: "leave env mess c tx s = Some (r, s')"
  obtain cn where cn: "s_conns s c = Some cn" using h by (auto simp: leave_def bind_eq_Some_conv)
  show ?thesis
  proof (cases "c_channel cn")
    case None
    then show ?thesis using h cn by (simp add: leave_def)
  next
    case (Some a)
    then obtain r1 s1 where "channel_del_connection env a c mess tx s = Some (r1, s1)" "upd_conn s1 c (c_channel_update (\<lambda>_. None)) = Some s'"
      using h cn by (auto simp: leave_def bind_eq_Some_conv)
    then show ?thesis using guarded_still [OF guarded_del still_upd_conn] by simp
  qed
qed

lemma guarded_find_create: "find_create env fl s = Some (r, s') \<Longrightarrow> guarded env s s'"
  by (auto simp: find_create_def Let_def split: option.split_asm if_split_asm dest: guarded_create)

lemma guarded_find_loop: "find_loop env country realmname name i fl s = Some rs \<Longrightarrow> guarded env s (snd rs)"
proof (erule find_loop.raw_induct [where P = "\<lambda>env country realmname name i fl s rs. guarded env s (snd rs)", rotated], goal_cases)
  case (1 fnd env country realmname name i fl s rs)
  show ?case
  proof (cases "length (s_list s) \<le> i")
    case True
    then show ?thesis using 1(2) by (cases rs) (auto dest: guarded_find_create)
  next
    case False
    obtain ch where ch: "s_chans s (s_list s ! i) = Some ch" using 1(2) False by (auto simp: bind_eq_Some_conv)
    show ?thesis
    proof (cases "strcasecmp (ch_name ch) name = 0")
      case True
      then show ?thesis using 1(2) False ch by auto
    next
      case ne: False
      show ?thesis
      proof (cases "case ch_shortname ch of None \<Rightarrow> True | Some sn \<Rightarrow> strcasecmp sn name \<noteq> 0")
        case True
        then show ?thesis using 1(2) False ch ne by (intro 1(1)) simp
      next
        case nn: False
        obtain special s1 where sp: "fnd env country realmname (ch_name ch) 0 find_start s = Some (special, s1)"
          and rest: "do { ch1 \<leftarrow> s_chans s1 (case special of Some b \<Rightarrow> b | None \<Rightarrow> s_list s ! i);
            if find_compatible country realmname fl ch1 \<and> has_room ch1 then Some (Some (case special of Some b \<Rightarrow> b | None \<Rightarrow> s_list s ! i), s1)
            else fnd env country realmname name (i + 1) (find_save country realmname ch1 fl) s1 } = Some rs"
          using 1(2) False ch ne nn by (auto simp: bind_eq_Some_conv Let_def)
        have g1: "guarded env s s1" using 1(1) [OF sp] by simp
        have "guarded env s1 (snd rs)"
          using rest by (auto simp: bind_eq_Some_conv split: if_split_asm dest: 1(1))
        then show ?thesis using g1 guarded_trans by blast
      qed
    qed
  qed
qed

lemma guarded_find: "channellist_find_channel_by_name env name country realmname s = Some (r, s') \<Longrightarrow> guarded env s s'"
  unfolding channellist_find_channel_by_name_def using guarded_find_loop by fastforce

lemma guarded_text [simp]: "guarded env s0 (message_send_text env' dst ty src tx s) \<longleftrightarrow> guarded env s0 s"
  by (simp add: guarded_def)

lemma guarded_text_left [simp]: "guarded env (message_send_text env' dst ty src tx s) s' \<longleftrightarrow> guarded env s s'"
  by (simp add: guarded_def guarded_chan_def)

lemma guarded_clan_checks:
  assumes "clan_checks env c cn acc name clantag channel s = Some res"
  shows "case res of Inl (r, s') \<Rightarrow> guarded env s s' | Inr (ch, clan, s') \<Rightarrow> guarded env s s'"
  using assms
  by (auto simp: clan_checks_def Let_def bind_eq_Some_conv split: if_split_asm option.split_asm
      dest: guarded_find still_guarded [OF still_tmpOP])

lemma guarded_enter:
  assumes "enter_channel env c name clantag clan oldchannel channel s = Some (r, s')"
  shows "guarded env s s'"
proof -
  let ?s1 = "emit [Reset_whisper_acks c] s"
  obtain cn s2 target isnew s3 where cn: "s_conns ?s1 c = Some cn"
    and s2: "(if c_game cn then upd_conn (emit [Game_del_player c] ?s1) c (c_game_update (\<lambda>_. False)) else Some ?s1) = Some s2"
    and s3: "(case channel of Some a \<Rightarrow> Some (Some a, False, s2)
       | None \<Rightarrow> do { (a, s') \<leftarrow> channel_create env (new_channel_args env name clantag) s2; Some (a, True, s') }) = Some (target, isnew, s3)"
    and rest: "(case target of None \<Rightarrow> Some (-1, s3) | Some a \<Rightarrow> add_and_welcome env c clantag clan oldchannel a isnew s3) = Some (r, s')"
    using assms unfolding enter_channel_alt Let_def by (auto simp only: bind_eq_Some_conv prod.case)
  have "still s s2" using s2 by (auto split: if_split_asm dest!: still_upd_conn)
  moreover have "guarded env s2 s3" using s3 by (auto simp: bind_eq_Some_conv split: option.split_asm dest: guarded_create)
  moreover have "guarded env s3 s'"
  proof (cases target)
    case None
    then show ?thesis using rest by simp
  next
    case (Some a)
    then obtain s4 r5 s5 where s4: "upd_conn s3 c (c_channel_update (\<lambda>_. Some a)) = Some s4"
      and s5: "channel_add_connection env a c s4 = Some (r5, s5)"
      and s': "(if r5 < 0 then do {
            s6 \<leftarrow> (if isnew then map_option snd (channel_destroy (Some a) s5) else Some s5);
            s7 \<leftarrow> upd_conn s6 c (c_channel_update (\<lambda>_. None));
            Some (-1, s7) }
          else do { s6 \<leftarrow> after_join env c a oldchannel clantag clan s5; Some (0, s6) }) = Some (r, s')"
      using rest unfolding add_and_welcome_def by (auto simp only: bind_eq_Some_conv prod.case option.case)
    have "guarded env s3 s5" using guarded_trans [OF still_guarded [OF still_upd_conn [OF s4]] guarded_add [OF s5]] by simp
    moreover have "guarded env s5 s'"
    proof (cases "r5 < 0")
      case True
      then obtain s6 where "(if isnew then map_option snd (channel_destroy (Some a) s5) else Some s5) = Some s6"
        and s7: "upd_conn s6 c (c_channel_update (\<lambda>_. None)) = Some s'" using s' by (auto simp: bind_eq_Some_conv)
      then have "guarded env s5 s6" by (auto split: if_split_asm dest: guarded_destroy)
      then show ?thesis using guarded_still still_upd_conn [OF s7] by simp
    next
      case False
      then show ?thesis using s' by (auto simp: bind_eq_Some_conv dest: still_guarded [OF still_after_join])
    qed
    ultimately show ?thesis using guarded_trans by blast
  qed
  ultimately show ?thesis using guarded_trans still_guarded by blast
qed

lemma guarded_set_channel:
  assumes "conn_set_channel env c name s = Some (r, s')"
  shows "guarded env s s'"
proof -
  obtain cn where cn: "s_conns s c = Some cn" using assms by (auto simp: conn_set_channel_def bind_eq_Some_conv)
  show ?thesis
  proof (cases "c_account cn = None \<or> name = None")
    case True
    then show ?thesis using assms cn by (auto simp: conn_set_channel_def split: option.split_asm)
  next
    case False
    then obtain acc nm where acc: "c_account cn = Some acc" "name = Some nm" by auto
    obtain channel s1 where f: "channellist_find_channel_by_name env nm (country_of env c) (realm_of env c) s = Some (channel, s1)"
      using assms cn acc by (auto simp: conn_set_channel_def bind_eq_Some_conv)
    have g1: "guarded env s s1" by (rule guarded_find [OF f])
    show ?thesis
    proof (cases "channel \<noteq> None \<and> channel = c_channel cn")
      case True
      then show ?thesis using assms cn acc f g1 by (auto simp: conn_set_channel_def)
    next
      case nf: False
      obtain res where res: "clan_checks env c cn acc nm (clantag_of_name nm) channel s1 = Some res"
        and rest: "(case res of Inl (r, s2) \<Rightarrow> Some (r, s2)
        | Inr (channel, clan, s2) \<Rightarrow> do {
            s3 \<leftarrow> (if c_channel cn \<noteq> None then map_option snd (conn_part_channel env c s2) else Some s2);
            refusal \<leftarrow> (case channel of None \<Rightarrow> Some None
              | Some a \<Rightarrow> do { ch \<leftarrow> s_chans s3 a; cn3 \<leftarrow> s_conns s3 c; Some (join_refused env ch cn3 acc nm) });
            (case refusal of
               Some txt \<Rightarrow> Some (-1, message_send_text env c message_type_error c (Some txt) s3)
             | None \<Rightarrow> enter_channel env c nm (clantag_of_name nm) clan (c_channel cn) channel s3) }) = Some (r, s')"
        using assms nf unfolding conn_set_channel_def Let_def clantag_of_name_def cn acc option.case bind.bind_lunit f prod.case
        by (simp only: if_False) (auto simp only: bind_eq_Some_conv)
      note g2 = guarded_clan_checks [OF res]
      show ?thesis
      proof (cases res)
        case (Inl x)
        then show ?thesis using rest g2 g1 guarded_trans by (cases x) auto
      next
        case (Inr x)
        obtain ch clan s2 where x: "x = (ch, clan, s2)" by (cases x)
        have g: "guarded env s s2" using g1 g2 guarded_trans unfolding Inr x by simp
        obtain s3 refusal where s3: "(if c_channel cn \<noteq> None then map_option snd (conn_part_channel env c s2) else Some s2) = Some s3"
          and r3: "(case refusal of
               Some txt \<Rightarrow> Some (-1, message_send_text env c message_type_error c (Some txt) s3)
             | None \<Rightarrow> enter_channel env c nm (clantag_of_name nm) clan (c_channel cn) ch s3) = Some (r, s')"
          using rest unfolding Inr x by (auto simp only: bind_eq_Some_conv sum.case prod.case)
        have "guarded env s2 s3" using s3 by (auto simp: leave_simps split: if_split_asm dest: guarded_leave)
        moreover have "guarded env s3 s'" using r3 by (auto split: option.split_asm dest: guarded_enter)
        ultimately show ?thesis using g guarded_trans by blast
      qed
    qed
  qed
qed

lemma guarded_rejoin:
  assumes "channel_rejoin env c s = Some (r, s')"
  shows "guarded env s s'"
proof -
  obtain cn where cn: "s_conns s c = Some cn" using assms by (auto simp: channel_rejoin_def bind_eq_Some_conv)
  show ?thesis
  proof (cases "c_channel cn")
    case None
    then show ?thesis using assms cn by (simp add: channel_rejoin_def)
  next
    case (Some a)
    obtain ch where ch: "s_chans s a = Some ch" using assms cn Some by (auto simp: channel_rejoin_def bind_eq_Some_conv)
    obtain r1 s1 where l: "conn_part_channel env c s = Some (r1, s1)"
      using assms cn Some ch by (auto simp: channel_rejoin_def bind_eq_Some_conv)
    obtain r2 s2 where l: "conn_part_channel env c s = Some (r1, s1)"
      and j: "conn_set_channel env c (Some (ch_name ch)) s1 = Some (r2, s2)"
      and rest: "(if r2 < 0 then do { (r3, s3) \<leftarrow> conn_set_channel env c (Some CHANNEL_NAME_BANNED) s2; Some (0, s3) }
           else Some (0, s2)) = Some (r, s')"
      using assms cn Some ch l by (auto simp: channel_rejoin_def bind_eq_Some_conv)
    have "guarded env s2 s'" using rest by (auto simp: bind_eq_Some_conv split: if_split_asm dest: guarded_set_channel)
    then show ?thesis using guarded_trans [OF guarded_trans [OF guarded_leave guarded_set_channel [OF j]]] l leave_simps(1) by metis
  qed
qed

lemma guarded_load: "channellist_load_permanent env lines s = Some s' \<Longrightarrow> guarded env s s'"
proof (induction lines arbitrary: s)
  case (Cons line lines)
  then show ?case
    by (auto simp: bind_eq_Some_conv split: option.split_asm intro: guarded_trans [OF guarded_create])
qed simp

lemma guarded_moderate:
  assumes "handle_moderate_command env c s = Some (r, s')"
  shows "guarded env s s'"
proof -
  have u: "guarded env s s1" if "upd_chan s a (ch_flags_update f) = Some s1" for a f s1
    using guarded_upd_chan [OF that] by simp
  show ?thesis
    using assms
    by (auto simp: handle_moderate_command_def channel_set_flags_def set_field_def bind_eq_Some_conv split: option.split_asm if_split_asm
      dest!: u still_message intro: guarded_still)
qed

lemma guarded_set_max: "channel_set_max a n s = Some (r, s') \<Longrightarrow> guarded env s s'"
  by (auto simp: channel_set_max_def set_field_def split: option.split_asm if_split_asm dest!: guarded_upd_chan [where env = env])

lemma guarded_reload_members: "reload_members env a ms s = Some s' \<Longrightarrow> guarded env s s'"
proof (induction ms arbitrary: s)
  case (Cons m ms)
  then show ?case
    by (auto simp: bind_eq_Some_conv intro: guarded_trans [OF guarded_still [OF guarded_del still_upd_conn]])
qed simp

lemma guarded_reload_channel:
  assumes "reload_channel env a old s = Some (old', s')"
  shows "guarded env s s'"
proof -
  obtain s1 where s1: "upd_chan s a (\<lambda>ch. ch\<lparr>ch_flags := ch_flags ch OR channel_flags_permanent\<rparr>) = Some s1"
    using assms by (auto simp: reload_channel_def bind_eq_Some_conv)
  obtain ch where ch: "s_chans s1 a = Some ch" using assms s1 by (auto simp: reload_channel_def bind_eq_Some_conv)
  obtain s2 s3 r where s1: "upd_chan s a (\<lambda>ch. ch\<lparr>ch_flags := ch_flags ch OR channel_flags_permanent\<rparr>) = Some s1"
    and s2: "(if ch_memberlist ch = [] then Some (old, s1)
       else do {
         sn \<leftarrow> ch_shortname ch;
         s' \<leftarrow> reload_members env a (rev (ch_memberlist ch)) s1;
         Some ((sn, rev (ch_memberlist ch)) # old, s') }) = Some (old', s2)"
    and s3: "upd_chan s2 a (\<lambda>ch. ch\<lparr>ch_flags := ch_flags ch AND NOT channel_flags_permanent\<rparr>) = Some s3"
    and s4: "channel_destroy (Some a) s3 = Some (r, s')"
    using assms s1 ch unfolding reload_channel_def by (auto simp only: bind_eq_Some_conv prod.case option.inject prod.inject bind.bind_lunit)
  have "guarded env s s1" using guarded_upd_chan [OF s1] by simp
  moreover have "guarded env s1 s2" using s2 by (auto simp: bind_eq_Some_conv split: if_split_asm dest: guarded_reload_members)
  moreover have "guarded env s2 s3" using guarded_upd_chan [OF s3] by simp
  ultimately show ?thesis using guarded_destroy [OF s4] guarded_trans by blast
qed

lemma guarded_reload_channels: "reload_channels env as old s = Some (old', s') \<Longrightarrow> guarded env s s'"
proof (induction as arbitrary: s old)
  case (Cons a as)
  then show ?case by (auto simp: bind_eq_Some_conv intro: guarded_trans [OF guarded_reload_channel])
qed simp

lemma guarded_rejoin_members: "rejoin_members env sn ms s = Some s' \<Longrightarrow> guarded env s s'"
proof (induction ms arbitrary: s)
  case (Cons m ms)
  then show ?case by (auto simp: bind_eq_Some_conv intro: guarded_trans [OF guarded_set_channel])
qed simp

lemma guarded_rejoin_channels: "rejoin_channels env old s = Some s' \<Longrightarrow> guarded env s s'"
proof (induction old arbitrary: s)
  case (Cons x old)
  then show ?case by (cases x) (auto simp: bind_eq_Some_conv intro: guarded_trans [OF guarded_rejoin_members])
qed simp

lemma guarded_reload:
  assumes "channellist_reload env lines s = Some s'"
  shows "guarded env s s'"
proof -
  obtain old s1 s2 where "reload_channels env (s_list s) [] s = Some (old, s1)"
    and "channellist_load_permanent env lines (s1\<lparr>s_list := []\<rparr>) = Some s2" and "rejoin_channels env old s2 = Some s'"
    using assms by (auto simp: channellist_reload_def bind_eq_Some_conv)
  then have "guarded env s s1" "guarded env (s1\<lparr>s_list := []\<rparr>) s2" "guarded env s2 s'"
    by (auto dest: guarded_reload_channels guarded_load guarded_rejoin_channels)
  moreover have "guarded env s1 (s1\<lparr>s_list := []\<rparr>)" by (rule still_guarded) (simp add: still_def)
  ultimately show ?thesis using guarded_trans by blast
qed

section \<open>Commands\<close>

lemma run_cmd_guarded:
  assumes "run_cmd env cmd s = Some s'"
  shows "guarded env s s' \<or> (\<exists>c cn. cmd = Connect c cn) \<or> (\<exists>c. cmd = Disconnect c) \<or> (\<exists>a un. cmd = Ban a un) \<or> (\<exists>a un. cmd = Unban a un)"
  using assms
proof (cases cmd)
  case (Start_game c)
  then show ?thesis using assms still_guarded [OF still_upd_conn] by auto
next
  case (Userflags c)
  then show ?thesis using assms still_guarded [OF still_set_userflags] by (auto simp: drop_result_def)
next
  case (Say ty c tx)
  then show ?thesis using assms still_guarded [OF still_message] by (auto simp: bind_eq_Some_conv)
qed (auto simp: drop_result_def leave_simps dest: guarded_set_channel guarded_leave guarded_rejoin guarded_set_max
    guarded_moderate guarded_find guarded_destroy guarded_load guarded_reload)

lemma unban_loop_keeps:
  assumes "unban_loop u bs = Some bs'" and "strcasecmp u un \<noteq> 0" and "list_ex (\<lambda>b. strcasecmp b un = 0) bs"
  shows "list_ex (\<lambda>b. strcasecmp b un = 0) bs'"
  using assms
proof (induction bs arbitrary: bs')
  case (Cons b bs)
  show ?case
  proof (cases "strcasecmp b u = 0")
    case True
    then have "strcasecmp b un \<noteq> 0" using Cons.prems(2) strcaseeq_iff by (metis strcaseeq_def)
    then show ?thesis using True Cons.prems by simp
  next
    case False
    then show ?thesis using Cons by (auto split: option.split_asm)
  qed
qed simp

text \<open>A ban of \<open>un\<close> from the channel \<open>a\<close> stays, and who is matched by an entry does not become a member.\<close>

definition ban_holds :: "cstring \<Rightarrow> t_channel \<Rightarrow> bool" where
  "ban_holds un ch \<longleftrightarrow> list_ex (\<lambda>b. strcasecmp b un = 0) (ch_banlist ch)"

lemma run_cmd_ban_holds:
  assumes r: "run_cmd env cmd s = Some s'" and nu: "\<And>u. cmd = Unban a (Some u) \<Longrightarrow> strcasecmp u un \<noteq> 0"
  shows "s_next s \<le> s_next s'"
    and "a < s_next s \<Longrightarrow> s_chans s' a = Some ch' \<Longrightarrow> \<exists>ch. s_chans s a = Some ch \<and> (ban_holds un ch \<longrightarrow> ban_holds un ch')
       \<and> (\<forall>c cn. c \<in> set (ch_memberlist ch') \<longrightarrow> s_conns s c = Some cn \<longrightarrow> c \<in> set (ch_memberlist ch) \<or> \<not> banned_by env ch cn)"
proof -
  have "s_next s \<le> s_next s' \<and> (a < s_next s \<longrightarrow> s_chans s' a = Some ch' \<longrightarrow> (\<exists>ch. s_chans s a = Some ch \<and> (ban_holds un ch \<longrightarrow> ban_holds un ch')
       \<and> (\<forall>c cn. c \<in> set (ch_memberlist ch') \<longrightarrow> s_conns s c = Some cn \<longrightarrow> c \<in> set (ch_memberlist ch) \<or> \<not> banned_by env ch cn)))" for ch'
    using run_cmd_guarded [OF r]
  proof (elim disjE exE)
    assume "guarded env s s'"
    then show ?thesis unfolding guarded_def guarded_chan_def ban_holds_def by fastforce
  next
    fix c cn assume "cmd = Connect c cn"
    then show ?thesis using r by auto
  next
    fix c assume "cmd = Disconnect c"
    then obtain r1 s1 where "conn_quit_channel env c None s = Some (r1, s1)" and s': "s' = s1\<lparr>s_conns := (s_conns s1)(c := None)\<rparr>"
      using r by (auto simp: bind_eq_Some_conv)
    then have "guarded env s s1" by (auto simp: leave_simps dest: guarded_leave)
    then show ?thesis unfolding guarded_def guarded_chan_def ban_holds_def s' by fastforce
  next
    fix b u assume "cmd = Ban b u"
    then show ?thesis using r
      by (auto simp: drop_result_def channel_ban_user_def bind_eq_Some_conv ban_holds_def split: option.split_asm if_split_asm)
  next
    fix b u assume c: "cmd = Unban b u"
    show ?thesis
    proof (cases u)
      case None
      then show ?thesis using r c by (auto simp: drop_result_def channel_unban_user_def)
    next
      case (Some u')
      have "b = a \<Longrightarrow> strcasecmp u' un \<noteq> 0" using nu c Some by simp
      then show ?thesis using r c Some unban_loop_keeps [of u' _ _ un]
        by (cases "b = a") (auto simp: drop_result_def channel_unban_user_def bind_eq_Some_conv ban_holds_def split: option.split_asm)
    qed
  qed
  then show "s_next s \<le> s_next s'"
    and "a < s_next s \<Longrightarrow> s_chans s' a = Some ch' \<Longrightarrow> \<exists>ch. s_chans s a = Some ch \<and> (ban_holds un ch \<longrightarrow> ban_holds un ch')
       \<and> (\<forall>c cn. c \<in> set (ch_memberlist ch') \<longrightarrow> s_conns s c = Some cn \<longrightarrow> c \<in> set (ch_memberlist ch) \<or> \<not> banned_by env ch cn)"
    by blast+
qed

lemma run_cmd_admits:
  assumes "run_cmd env cmd s = Some s'" and "a < s_next s" and "s_chans s' a = Some ch'" and "c \<in> set (ch_memberlist ch')"
    and "s_conns s c = Some cn"
  shows "\<exists>ch. s_chans s a = Some ch \<and> (c \<in> set (ch_memberlist ch) \<or> \<not> banned_by env ch cn)"
proof (cases "\<exists>u. cmd = Unban a (Some u)")
  case False
  have "strcasecmp u un \<noteq> 0" if "cmd = Unban a (Some u)" for u un using False that by blast
  from run_cmd_ban_holds(2) [OF assms(1) this assms(2,3)] show ?thesis using assms(4,5) by blast
next
  case True
  then show ?thesis using assms
    by (auto simp: drop_result_def channel_unban_user_def bind_eq_Some_conv split: option.split_asm)
qed

end
