(* ===== verification/Channel_Props.thy ===== *)
theory Channel_Props
  imports Channel_Bans
begin

text \<open>
  What the channels do for their users: who gets in, who stays out, who hears a message, and what the
  search by name finds. The last section runs two sequences of commands into accesses the program
  should not make.
\<close>

section \<open>Entering\<close>

lemma join_refused_None:
  "join_refused env ch cn acc nm = None \<Longrightarrow> \<not> channel_check_banning env ch cn
     \<and> (is_chan_operator env (Some acc) nm
        \<or> ch_maxmembers ch = -1 \<or> ch_maxmembers ch \<noteq> 0 \<and> ch_currmembers ch < ch_maxmembers ch)"
  by (auto simp: join_refused_def split: if_splits)

lemma conn_set_channel_entry:
  assumes "chan_inv s" and "s_conns s c = Some cn" and "conn_set_channel env c name s = Some (r, s')"
  shows "entry_ok env c name s s'"
  using conn_set_channel_result [OF assms(1,2), of env name] assms(3) by (simp add: set_channel_ok_def)

lemma entry_okD: "entry_ok env c name s s' \<Longrightarrow> s_conns s c = Some cn \<Longrightarrow> s_conns s' c = Some cn' \<Longrightarrow> c_channel cn' = Some a
    \<Longrightarrow> c_channel cn \<noteq> Some a \<Longrightarrow> s_chans s a = Some ch
    \<Longrightarrow> \<exists>acc nm. c_account cn = Some acc \<and> name = Some nm \<and> join_refused env ch cn acc nm = None"
  unfolding entry_ok_def by blast

text \<open>
  C31. A connection that asks for a channel, in a game or not, in a channel or not, ends up in a channel
  that existed before, and that it was not in, only when it is not banned there and the channel has room
  for it, unless it is an operator or administrator.
\<close>

theorem join_respects_limits:
  assumes "chan_reach env s" and "conn_set_channel env c name s = Some (r, s')"
    and "s_conns s c = Some cn" and "s_conns s' c = Some cn'" and "c_channel cn' = Some a" and "c_channel cn \<noteq> Some a"
    and "s_chans s a = Some ch"
  shows "\<not> channel_check_banning env ch cn
     \<and> (is_chan_operator env (c_account cn) (the name)
        \<or> ch_maxmembers ch = -1 \<or> ch_maxmembers ch \<noteq> 0 \<and> ch_currmembers ch < ch_maxmembers ch)"
proof -
  obtain acc nm where acc: "c_account cn = Some acc" "name = Some nm" and "join_refused env ch cn acc nm = None"
    using entry_okD [OF conn_set_channel_entry [OF chan_reach_inv [OF assms(1)] assms(3,2)] assms(3-7)] by blast
  from join_refused_None [OF this(3)] show ?thesis unfolding acc by simp
qed

section \<open>Sequences of commands\<close>

fun run_cmds :: "chan_env \<Rightarrow> chan_cmd list \<Rightarrow> cstate \<Rightarrow> cstate option" where
  "run_cmds env [] s = Some s"
| "run_cmds env (cmd # cmds) s = do { s1 \<leftarrow> run_cmd env cmd s; run_cmds env cmds s1 }"

fun cmds_ok :: "chan_env \<Rightarrow> chan_cmd list \<Rightarrow> cstate \<Rightarrow> bool" where
  "cmds_ok env [] s = True"
| "cmds_ok env (cmd # cmds) s = (cmd_ok cmd s \<and> (case run_cmd env cmd s of None \<Rightarrow> False | Some s1 \<Rightarrow> cmds_ok env cmds s1))"

lemma cmds_reach: "cmds_ok env cmds s \<Longrightarrow> chan_reach env s \<Longrightarrow> chan_reach env (the (run_cmds env cmds s))"
proof (induction cmds arbitrary: s)
  case (Cons cmd cmds)
  then obtain s1 where "cmd_ok cmd s" "run_cmd env cmd s = Some s1" "cmds_ok env cmds s1" by (auto split: option.splits)
  then show ?case using Cons.IH [of s1] reach_step [OF Cons.prems(2)] by simp
qed simp

definition never_unbanned :: "nat \<Rightarrow> cstring \<Rightarrow> chan_cmd list \<Rightarrow> bool" where
  "never_unbanned a un cmds \<longleftrightarrow> (\<forall>u. Unban a (Some u) \<in> set cmds \<longrightarrow> strcasecmp u un \<noteq> 0)"

lemma run_cmds_ban_holds:
  "run_cmds env cmds s = Some s' \<Longrightarrow> never_unbanned a un cmds \<Longrightarrow> a < s_next s \<Longrightarrow>
   s_next s \<le> s_next s' \<and> (\<forall>ch'. s_chans s' a = Some ch' \<longrightarrow> (\<exists>ch. s_chans s a = Some ch \<and> (ban_holds un ch \<longrightarrow> ban_holds un ch')))"
proof (induction cmds arbitrary: s)
  case (Cons cmd cmds)
  then obtain s1 where s1: "run_cmd env cmd s = Some s1" "run_cmds env cmds s1 = Some s'" by (auto simp: bind_eq_Some_conv)
  have nu: "strcasecmp u un \<noteq> 0" if "cmd = Unban a (Some u)" for u using Cons.prems(2) that by (simp add: never_unbanned_def)
  have nx: "s_next s \<le> s_next s1" by (rule run_cmd_ban_holds(1) [OF s1(1) nu])
  have "never_unbanned a un cmds" using Cons.prems(2) by (simp add: never_unbanned_def)
  then have "s_next s1 \<le> s_next s' \<and> (\<forall>ch'. s_chans s' a = Some ch' \<longrightarrow> (\<exists>ch. s_chans s1 a = Some ch \<and> (ban_holds un ch \<longrightarrow> ban_holds un ch')))"
    using Cons.IH [OF s1(2)] nx Cons.prems(3) by simp
  moreover have "\<exists>ch. s_chans s a = Some ch \<and> (ban_holds un ch \<longrightarrow> ban_holds un ch1)" if "s_chans s1 a = Some ch1" for ch1
    using run_cmd_ban_holds(2) [OF s1(1) nu Cons.prems(3) that] by blast
  ultimately show ?case using nx by (meson le_trans)
qed auto

section \<open>Bans\<close>

definition in_channel :: "nat \<Rightarrow> nat option \<Rightarrow> cstate option \<Rightarrow> bool" where
  "in_channel c a so = (case so of None \<Rightarrow> False | Some s \<Rightarrow> (case s_conns s c of None \<Rightarrow> False | Some cn \<Rightarrow> c_channel cn = a))"

lemma ban_made:
  assumes "channel_ban_user (Some a) (Some un) s = Some (0, s1)"
  shows "\<exists>ch. s_chans s1 a = Some ch \<and> ban_holds un ch"
  using assms
  by (auto simp: channel_ban_user_def bind_eq_Some_conv ban_holds_def strcasecmp_refl split: if_split_asm)


section \<open>Talking\<close>

definition ignores :: "chan_env \<Rightarrow> cstate \<Rightarrow> nat \<Rightarrow> nat \<Rightarrow> bool" where
  "ignores env s c me = (case s_conns s c of None \<Rightarrow> False | Some cn \<Rightarrow> conn_check_ignoring env cn (chatname env me) = 1)"

definition listeners :: "chan_env \<Rightarrow> cstate \<Rightarrow> nat \<Rightarrow> nat list \<Rightarrow> nat list" where
  "listeners env s me ms = filter (\<lambda>c. c \<noteq> me \<and> \<not> ignores env s c me \<and> send_ok env message_type_talk c) ms"

lemma send_members_talk:
  "\<forall>c \<in> set ms. s_conns s c \<noteq> None \<Longrightarrow> s_conns s0 = s_conns s \<Longrightarrow>
   \<exists>s'. send_members env ch message_type_talk me (chatname env me) tx ms heard s
       = Some (heard \<or> listeners env s0 me ms \<noteq> [], s')
     \<and> s_calls s' = s_calls s @ map (\<lambda>c. Msg message_type_talk me c tx) (listeners env s0 me ms)"
proof (induction ms arbitrary: s heard)
  case (Cons m ms)
  then obtain cn where cn: "s_conns s m = Some cn" by auto
  have exist: "\<forall>c \<in> set ms. s_conns s c \<noteq> None" using Cons.prems(1) by simp
  have skip: "skip_member env ch message_type_talk me (chatname env me) m cn
      \<longleftrightarrow> m = me \<or> ignores env s0 m me"
    using cn Cons.prems(2) by (auto simp: skip_member_def ignores_def)
  let ?s = "message_send env message_type_talk me tx m s"
  show ?case
  proof (cases "m = me \<or> ignores env s0 m me")
    case True
    then have "listeners env s0 me (m # ms) = listeners env s0 me ms" by (auto simp: listeners_def)
    then show ?thesis using Cons.IH [OF exist Cons.prems(2), of heard] cn skip True by simp
  next
    case False
    let ?h = "heard \<or> (send_ok env message_type_talk m \<and> m \<noteq> me)"
    obtain s' where s': "send_members env ch message_type_talk me (chatname env me) tx ms ?h ?s
          = Some (?h \<or> listeners env s0 me ms \<noteq> [], s')"
        "s_calls s' = s_calls ?s @ map (\<lambda>c. Msg message_type_talk me c tx) (listeners env s0 me ms)"
      using Cons.IH [of ?s ?h] exist Cons.prems(2) by auto
    have step: "send_members env ch message_type_talk me (chatname env me) tx (m # ms) heard s
        = Some (?h \<or> listeners env s0 me ms \<noteq> [], s')"
      using cn skip False s'(1) by simp
    show ?thesis
    proof (cases "send_ok env message_type_talk m")
      case True
      then have "listeners env s0 me (m # ms) = m # listeners env s0 me ms" using False by (simp add: listeners_def)
      then show ?thesis using step s'(2) True False by (simp add: message_send_def emit_def)
    next
      case no: False
      then have "listeners env s0 me (m # ms) = listeners env s0 me ms" by (simp add: listeners_def)
      then show ?thesis using step s'(2) no by (simp add: message_send_def)
    qed
  qed
qed (simp add: listeners_def)

definition may_speak :: "chan_env \<Rightarrow> t_channel \<Rightarrow> t_connection \<Rightarrow> bool" where
  "may_speak env ch mn \<longleftrightarrow> \<not> has_flag ch channel_flags_thevoid \<and> account_get_auth_mute env (c_account mn) \<noteq> 1
     \<and> (has_flag ch channel_flags_moderated \<longrightarrow>
          account_is_operator_or_admin env (c_account mn) (ch_name ch) \<noteq> 0 \<or> channel_conn_has_tmpVOICE ch mn
          \<or> account_get_auth_voice env (c_account mn) (ch_name ch) = 1)"

text \<open>
  C16. What a member says is delivered once to each other member that does not ignore it and can be sent
  to, in the order of the member list, and to nobody else; it is delivered to nobody when the channel is
  the void, the speaker is muted, or the channel is moderated and the speaker has no voice there.
\<close>

theorem talk_reaches_listeners:
  assumes "chan_reach env s" and "s_conns s me = Some mn" and "c_channel mn = Some a" and "s_chans s a = Some ch"
  shows "\<exists>s' notice. channel_message_send env a message_type_talk me tx s = Some s'
     \<and> s_calls s' = s_calls s
         @ (if may_speak env ch mn then map (\<lambda>c. Msg message_type_talk me c tx) (listeners env s me (ch_memberlist ch)) else [])
         @ notice
     \<and> (\<forall>x \<in> set notice. \<exists>ty t. x = Msg ty me me t \<and> (ty = message_type_error \<or> ty = message_type_info))
     \<and> (listeners env s me (ch_memberlist ch) \<noteq> [] \<longrightarrow> may_speak env ch mn \<longrightarrow> notice = [])"
proof -
  have live: "live s" by (rule chan_inv_live [OF chan_reach_inv [OF assms(1)]])
  have "\<forall>c \<in> set (ch_memberlist ch). s_conns s c \<noteq> None" using live_member [OF live assms(4)] by auto
  then obtain s1 where s1: "send_members env ch message_type_talk me (chatname env me) tx (ch_memberlist ch) False s
       = Some (listeners env s me (ch_memberlist ch) \<noteq> [], s1)"
     and c1: "s_calls s1 = s_calls s @ map (\<lambda>c. Msg message_type_talk me c tx) (listeners env s me (ch_memberlist ch))"
    using send_members_talk [of "ch_memberlist ch" s s env ch me tx False] by auto
  have note1: "\<exists>notice. s_calls (message_send_text env me ty me t s') = s_calls s' @ notice
      \<and> (\<forall>x \<in> set notice. x = Msg ty me me t)" for ty t s'
    by (simp add: message_send_text_def message_send_def emit_def)
  show ?thesis
  proof (cases "may_speak env ch mn")
    case True
    let ?s2 = "if \<not> conn_get_wol mn \<and> listeners env s me (ch_memberlist ch) = []
      then message_send_text env me message_type_info me (Some ''No one hears you.'') s1 else s1"
    have sent: "channel_message_send env a message_type_talk me tx s = Some ?s2"
      using True assms(2,4) s1 by (auto simp: channel_message_send_def may_speak_def Let_def)
    show ?thesis
    proof (cases "\<not> conn_get_wol mn \<and> listeners env s me (ch_memberlist ch) = []")
      case alone: True
      obtain notice where n: "s_calls ?s2 = s_calls s1 @ notice" and m: "\<forall>x \<in> set notice. x = Msg message_type_info me me (Some ''No one hears you.'')"
        using note1 [of message_type_info "Some ''No one hears you.''" s1] alone by auto
      have "\<forall>x \<in> set notice. \<exists>ty t. x = Msg ty me me t \<and> (ty = message_type_error \<or> ty = message_type_info)" using m by blast
      then show ?thesis using True c1 sent alone n by (intro exI [of _ ?s2] exI [of _ notice]) simp
    next
      case False
      then show ?thesis using True c1 sent by (intro exI [of _ s1] exI [of _ "[]"]) auto
    qed
  next
    case False
    then consider "channel_message_send env a message_type_talk me tx s = Some s"
      | t where "channel_message_send env a message_type_talk me tx s = Some (message_send_text env me message_type_error me t s)"
      using assms(2,4) by (simp add: channel_message_send_def may_speak_def Let_def) (metis (no_types))
    then show ?thesis
    proof cases
      case 1
      then show ?thesis using False by simp
    next
      case 2
      obtain notice where n: "s_calls (message_send_text env me message_type_error me t s) = s_calls s @ notice"
        "\<forall>x \<in> set notice. x = Msg message_type_error me me t"
        using note1 by blast
      have "\<forall>x \<in> set notice. \<exists>ty t. x = Msg ty me me t \<and> (ty = message_type_error \<or> ty = message_type_info)" using n(2) by blast
      then show ?thesis
        by (intro exI [of _ "message_send_text env me message_type_error me t s"] exI [of _ notice])
          (use False 2 n(1) in simp)
    qed
  qed
qed

section \<open>Searching\<close>

text \<open>
  C33. The search by name, which calls itself with the full names of channels, always ends. It gives a
  channel of the list and changes nothing, one whose full name is the name asked for or which has room; or
  it gives a new, empty, permanent channel put at the end of the list, and then some channel has the name
  as its short name; or nothing, with nothing changed.
\<close>

theorem find_by_name_result:
  assumes "chan_reach env s"
  shows "\<exists>r s'. channellist_find_channel_by_name env name country realmname s = Some (r, s')
    \<and> (case r of None \<Rightarrow> s' = s
       | Some a \<Rightarrow>
           s' = s \<and> a \<in> set (s_list s) \<and> (\<exists>ch. s_chans s a = Some ch \<and> (strcasecmp (ch_name ch) name = 0 \<or> has_room ch))
         \<or> s_list s' = s_list s @ [a] \<and> a \<notin> set (s_list s)
             \<and> (\<exists>ch. s_chans s' = (s_chans s)(a \<mapsto> ch) \<and> has_flag ch channel_flags_permanent)
             \<and> (\<exists>b \<in> set (s_list s). \<exists>ch. s_chans s b = Some ch \<and> name_or_shortname name ch))"
proof -
  have inv: "chan_inv s" by (rule chan_reach_inv [OF assms])
  from find_loop_total [OF shape_nth [OF inv], of env country realmname name 0 find_start]
  show ?thesis unfolding channellist_find_channel_by_name_def
  proof (elim disjE exE conjE, goal_cases)
    case (3 fl')
    obtain r s' where r: "find_create env fl' s = Some (r, s')" "r \<noteq> None \<longrightarrow> fl_foundperm fl'"
      and c: "r = None \<and> s' = s \<or> (\<exists>ch tot. r = Some (s_next s) \<and> s' = created s ch tot \<and> has_flag ch channel_flags_permanent)"
      using find_create_total [OF inv, of env fl'] by metis
    have fresh: "s_next s \<notin> set (s_list s)" using inv by (auto simp: shape_def list_ok_def)
    have nf: "\<not> fl_foundperm find_start" by (simp add: find_start_def)
    show ?case
    proof (cases r)
      case None
      then show ?thesis using 3(1) r(1) c by simp
    next
      case (Some a)
      then obtain ch tot where a: "a = s_next s" "s' = created s ch tot" "has_flag ch channel_flags_permanent" using c by auto
      have "\<exists>b \<in> set (s_list s). \<exists>ch. s_chans s b = Some ch \<and> name_or_shortname name ch" using 3(2) r(2) Some nf by simp
      moreover have "s_chans s' = (s_chans s)(a \<mapsto> ch)" "s_list s' = s_list s @ [a]" using a by (simp_all add: created_def)
      ultimately show ?thesis using 3(1) r(1) Some a(1,3) fresh
        by (intro exI [of _ r] exI [of _ s'] conjI) (simp, simp, blast)
    qed
  qed auto
qed

section \<open>Examples\<close>

definition demo :: "chan_cmd list \<Rightarrow> cstate" where
  "demo cmds = the (run_cmds quiet_env cmds initial)"

lemma demo_reach: "cmds_ok quiet_env cmds initial \<Longrightarrow> chan_reach quiet_env (demo cmds)"
  unfolding demo_def by (rule cmds_reach [OF _ reach_init])

text \<open>A permanent channel with room for two, one user inside and one outside.\<close>

definition tavern :: "chan_cmd list" where
  "tavern = [Load_permanent [''Foo Foo NULL true true false NULL NULL 2 false'', ''# comment''], Connect 7 (demo_user 1),
     Connect 8 (demo_user 2), Join 8 (Some ''foo'')]"

lemma tavern_reach: "chan_reach quiet_env (demo tavern)"
  by (rule demo_reach) code_simp

lemma in_channelE: "in_channel c a so \<Longrightarrow> \<exists>s cn. so = Some s \<and> s_conns s c = Some cn \<and> c_channel cn = a"
  by (simp add: in_channel_def split: option.splits)

text \<open>The user outside is in another channel and in a game.\<close>

definition cellar :: "chan_cmd list" where
  "cellar = tavern @ [Join 7 (Some ''cellar''), Start_game 7]"

lemma cellar_reach: "chan_reach quiet_env (demo cellar)"
  by (rule demo_reach) code_simp

lemma join_respects_limits_witness:
  "\<exists>cn ch. s_conns (demo cellar) 7 = Some cn \<and> s_chans (demo cellar) 0 = Some ch \<and> \<not> channel_check_banning quiet_env ch cn
     \<and> ch_currmembers ch < ch_maxmembers ch"
proof -
  have "in_channel 7 (Some 0) (map_option snd (conn_set_channel quiet_env 7 (Some ''foo'') (demo cellar)))" by code_simp
  then obtain r s' cn' where s': "conn_set_channel quiet_env 7 (Some ''foo'') (demo cellar) = Some (r, s')"
    "s_conns s' 7 = Some cn'" "c_channel cn' = Some 0"
    by (auto dest!: in_channelE)
  have "in_channel 7 (Some 1) (Some (demo cellar))" by code_simp
  then obtain cn where cn: "s_conns (demo cellar) 7 = Some cn" "c_channel cn = Some 1" by (auto dest!: in_channelE)
  have "0 \<in> set (s_list (demo cellar))" by code_simp
  then obtain ch where ch: "s_chans (demo cellar) 0 = Some ch" using shape_list [OF chan_reach_inv [OF cellar_reach]] by blast
  from join_respects_limits [OF cellar_reach s'(1) cn(1) s'(2,3) _ ch]
  have lim: "\<not> channel_check_banning quiet_env ch cn \<and> (is_chan_operator quiet_env (c_account cn) ''foo''
        \<or> ch_maxmembers ch = -1 \<or> ch_maxmembers ch \<noteq> 0 \<and> ch_currmembers ch < ch_maxmembers ch)"
    using cn(2) by simp
  have "\<not> is_chan_operator quiet_env (c_account cn) ''foo''"
    by (cases "c_account cn") (simp_all add: is_chan_operator_def account_get_auth_admin_def account_get_auth_operator_def
        get_boolattr_def quiet_env_def)
  moreover have "map_option ch_maxmembers (s_chans (demo cellar) 0) = Some 2" by code_simp
  ultimately show ?thesis using lim cn(1) ch by auto
qed


lemma talk_reaches_listeners_witness:
  "\<exists>mn ch s' notice. channel_message_send quiet_env 0 message_type_talk 8 (Some ''hi'') (demo (tavern @ [Join 7 (Some ''foo'')])) = Some s'
     \<and> s_calls s' = s_calls (demo (tavern @ [Join 7 (Some ''foo'')]))
         @ (if may_speak quiet_env ch mn then [Msg message_type_talk 8 7 (Some ''hi'')] else []) @ notice"
proof -
  let ?s = "demo (tavern @ [Join 7 (Some ''foo'')])"
  have r: "chan_reach quiet_env ?s" by (rule demo_reach) code_simp
  have "in_channel 8 (Some 0) (Some ?s)" by code_simp
  then obtain mn where mn: "s_conns ?s 8 = Some mn" "c_channel mn = Some 0" by (auto dest!: in_channelE)
  have "0 \<in> set (s_list ?s)" by code_simp
  then obtain ch where ch: "s_chans ?s 0 = Some ch" using shape_list [OF chan_reach_inv [OF r]] by blast
  have "map_option (\<lambda>ch. listeners quiet_env ?s 8 (ch_memberlist ch)) (s_chans ?s 0) = Some [7]" by code_simp
  then show ?thesis using talk_reaches_listeners [OF r mn ch, of "Some ''hi''"] ch by auto
qed

lemma find_by_name_result_witness:
  "\<exists>r s'. channellist_find_channel_by_name quiet_env ''foo'' None None (demo tavern) = Some (r, s')"
  using find_by_name_result [OF tavern_reach, of "''foo''" None None] by blast

section \<open>Two accesses that should not be made\<close>

text \<open>
  A user alone in a channel of its own called THE VOID starts a game without leaving the channel and asks
  for the channel of a clan that is not there. It is sent to THE VOID, that is its own channel, which
  \<open>conn_set_channel\<close> destroys when it takes the user out, before it reads its ban list.
\<close>

lemma clan_redirect_dangles:
  "cmds_ok quiet_env [Connect 7 (demo_user 1), Join 7 (Some ''the void''), Start_game 7] initial
   \<and> run_cmd quiet_env (Join 7 (Some ''clan xyz'')) (demo [Connect 7 (demo_user 1), Join 7 (Some ''the void''), Start_game 7]) = None"
  by (rule conjI; code_simp)

text \<open>Reloading while somebody is in a permanent channel that has no short name duplicates a NULL string.\<close>

lemma reload_without_shortname:
  "cmds_ok quiet_env [Load_permanent [''Foo NULL NULL true true false NULL NULL -1 false''], Connect 7 (demo_user 1),
     Join 7 (Some ''foo'')] initial
   \<and> run_cmd quiet_env (Reload []) (demo [Load_permanent [''Foo NULL NULL true true false NULL NULL -1 false''],
     Connect 7 (demo_user 1), Join 7 (Some ''foo'')]) = None"
  by (rule conjI; code_simp)

end
