(* ===== verification/Ip_Ban.thy ===== *)
theory Ip_Ban
  imports Str_Util "HOL-Library.Sublist"
begin

text \<open>
  \<^verbatim>\<open>bnetd/ipban.cpp\<close>: the list of banned addresses, its patterns (exact addresses, wildcards, ranges,
  netmasks and prefixes), the file it is kept in and the chat command that edits it. The state holds
  the list, the time of the last check, the lines of the ban file and the messages sent. \<open>None\<close> is
  undefined behaviour: a NULL string handed to a C library function, a \<open>sprintf\<close> past the end of its
  buffer, \<open>atoi\<close> of a number outside \<open>int\<close>, or a shift by a count out of range. Times are \<open>time_t\<close>;
  \<open>unsigned long\<close> has 64 bits; the shifts to the left and the sums of \<open>ipban_str_to_ulong\<close> wrap. Lists
  are shorter than \<open>2 ^ 31\<close>.
\<close>

section \<open>Data\<close>

datatype t_ipban_type = ipban_type_exact | ipban_type_wildcard | ipban_type_range | ipban_type_netmask
  | ipban_type_prefix

record t_ipban_entry =
  info1 :: "cstring option"
  info2 :: "cstring option"
  info3 :: "cstring option"
  info4 :: "cstring option"
  ban_type :: t_ipban_type
  endtime :: int

datatype ipban_func = IPBAN_FUNC_ADD | IPBAN_FUNC_DEL | IPBAN_FUNC_LIST | IPBAN_FUNC_CHECK | IPBAN_FUNC_HELP
  | IPBAN_FUNC_UNKNOWN

datatype ban_message = Info nat cstring | Error nat cstring | Admins nat cstring

record ipban_state =
  banlist :: "t_ipban_entry list"
  lastchecktime :: int
  banfile :: "cstring list"
  ban_messages :: "ban_message list"

definition MAX_FUNC_LEN :: nat where "MAX_FUNC_LEN = 10"
definition MAX_IP_STR :: nat where "MAX_IP_STR = 32"
definition MAX_TIME_STR :: nat where "MAX_TIME_STR = 9"

section \<open>Taking strings apart\<close>

text \<open>\<open>strsep(&s, ".")\<close> gives the fields one by one, \<open>strtok(s, ".")\<close> the fields that are not empty.\<close>

fun split_dot :: "cstring \<Rightarrow> cstring list" where
  "split_dot [] = [[]]"
| "split_dot (c # cs) = (if c = CHR ''.'' then [] # split_dot cs
     else case split_dot cs of [] \<Rightarrow> [[c]] | f # fs \<Rightarrow> (c # f) # fs)"

definition strtok_dot :: "cstring \<Rightarrow> cstring list" where
  "strtok_dot s = filter (\<lambda>f. f \<noteq> []) (split_dot s)"

text \<open>\<open>strchr\<close>: what stands before and behind the first occurrence.\<close>

definition strchr_cut :: "char \<Rightarrow> cstring \<Rightarrow> (cstring \<times> cstring) option" where
  "strchr_cut c s = (if c \<in> set s then Some (takeWhile (\<lambda>d. d \<noteq> c) s, tl (dropWhile (\<lambda>d. d \<noteq> c) s)) else None)"

text \<open>\<open>%ld\<close>, \<open>%u\<close> and \<open>%i\<close>\<close>

definition fmt_int :: "int \<Rightarrow> cstring" where
  "fmt_int n = (if n < 0 then CHR ''-'' # fmt_d (nat (- n)) else fmt_d (nat n))"

definition fmt_ld :: "int \<Rightarrow> cstring" where
  "fmt_ld n = fmt_int (sint (word_of_int n :: u64))"

definition fmt_u :: "nat \<Rightarrow> cstring" where
  "fmt_u n = fmt_d (unat (word_of_nat n :: u32))"

definition fmt_i :: "int \<Rightarrow> cstring" where
  "fmt_i n = fmt_int (sint (word_of_int n :: i32))"

text \<open>\<open>sprintf\<close> into an array of \<open>n\<close> characters, which also takes the terminating zero.\<close>

definition into_buf :: "nat \<Rightarrow> cstring \<Rightarrow> cstring option" where
  "into_buf n s = (if length s < n then Some s else None)"

definition MAX_MESSAGE_LEN :: nat where "MAX_MESSAGE_LEN = 255"

text \<open>\<open>std::atoi\<close>, undefined for numbers that are no \<open>int\<close>.\<close>

definition c_atoi :: "cstring \<Rightarrow> int option" where
  "c_atoi s = (if - (2 ^ 31) \<le> atoi s \<and> atoi s < 2 ^ 31 then Some (atoi s) else None)"

section \<open>Patterns\<close>

text \<open>The shifts and sums are of type \<open>int\<close>; the result is extended with its sign to \<open>unsigned long\<close>.\<close>

definition ipban_str_to_ulong :: "cstring \<Rightarrow> u64 option" where
  "ipban_str_to_ulong ipaddr = (case strtok_dot ipaddr of
       ip1 # ip2 # ip3 # ip4 # _ \<Rightarrow> do {
         a1 \<leftarrow> c_atoi ip1; a2 \<leftarrow> c_atoi ip2; a3 \<leftarrow> c_atoi ip3; a4 \<leftarrow> c_atoi ip4;
         Some (scast (push_bit 24 (word_of_int a1) + push_bit 16 (word_of_int a2)
                      + push_bit 8 (word_of_int a3) + word_of_int a4 :: i32)) }
     | _ \<Rightarrow> None)"

definition ipban_could_be_exact_ip_str :: "cstring \<Rightarrow> bool" where
  "ipban_could_be_exact_ip_str str =
     (let fs = split_dot str in 4 \<le> length fs \<and> list_all (\<lambda>f. 1 \<le> length f \<and> length f \<le> 3) (take 4 fs))"

text \<open>The digits behind the slash are tested in a loop that leaves out the last one.\<close>

definition ipban_could_be_ip_str :: "cstring \<Rightarrow> bool option" where
  "ipban_could_be_ip_str str =
     (if length str < 7 then Some False
      else if \<not> list_all (\<lambda>c. c_isdigit c \<or> c = CHR ''.'' \<or> c = CHR ''*'' \<or> c = CHR ''/'' \<or> c = CHR ''-'') str then Some False
      else case strchr_cut (CHR ''-'') str of
        Some (a, b) \<Rightarrow> Some (ipban_could_be_exact_ip_str a \<and> ipban_could_be_exact_ip_str b)
      | None \<Rightarrow> (case strchr_cut (CHR ''*'') str of
          Some _ \<Rightarrow> Some (ipban_could_be_exact_ip_str str)
        | None \<Rightarrow> (case strchr_cut (CHR ''/'') str of
            Some (a, b) \<Rightarrow>
              if CHR ''.'' \<in> set b then Some (ipban_could_be_exact_ip_str a \<and> ipban_could_be_exact_ip_str b)
              else if \<not> ipban_could_be_exact_ip_str a \<or> \<not> list_all c_isdigit (butlast b) then Some False
              else do { n \<leftarrow> c_atoi b; Some (\<not> n > 32) }
          | None \<Rightarrow> Some (ipban_could_be_exact_ip_str str))))"

definition plain_entry :: "t_ipban_type \<Rightarrow> cstring \<Rightarrow> cstring option \<Rightarrow> t_ipban_entry" where
  "plain_entry ty a b = \<lparr>info1 = Some a, info2 = b, info3 = None, info4 = None, ban_type = ty, endtime = 0\<rparr>"

text \<open>\<open>endtime\<close> is not set here: \<open>ipbanlist_add\<close> sets it, \<open>ipban_func_del\<close> does not read it.\<close>

definition split_pattern :: "cstring \<Rightarrow> t_ipban_entry option" where
  "split_pattern cp = (case strchr_cut (CHR ''-'') cp of
       Some (a, b) \<Rightarrow> Some (plain_entry ipban_type_range a (Some b))
     | None \<Rightarrow>
         if CHR ''*'' \<in> set cp
         then (case strtok_dot cp of
             i1 # i2 # i3 # i4 # _ \<Rightarrow> Some \<lparr>info1 = Some i1, info2 = Some i2, info3 = Some i3, info4 = Some i4,
               ban_type = ipban_type_wildcard, endtime = 0\<rparr>
           | _ \<Rightarrow> None)
         else case strchr_cut (CHR ''/'') cp of
             Some (a, b) \<Rightarrow> Some (plain_entry (if CHR ''.'' \<in> set b then ipban_type_netmask else ipban_type_prefix) a (Some b))
           | None \<Rightarrow> Some (plain_entry ipban_type_exact cp None))"

definition ipban_str_to_ipban_entry :: "cstring option \<Rightarrow> t_ipban_entry option option" where
  "ipban_str_to_ipban_entry ipstr = (case ipstr of None \<Rightarrow> Some None | Some cp \<Rightarrow>
     if cp = [] then Some None
     else do { ok \<leftarrow> ipban_could_be_ip_str cp; Some (if ok then split_pattern cp else None) })"

definition ipban_entry_to_str :: "t_ipban_entry \<Rightarrow> cstring option" where
  "ipban_entry_to_str e = (case ban_type e of
       ipban_type_exact \<Rightarrow> do { i1 \<leftarrow> info1 e; into_buf MAX_MESSAGE_LEN i1 }
     | ipban_type_wildcard \<Rightarrow> do { i1 \<leftarrow> info1 e; i2 \<leftarrow> info2 e; i3 \<leftarrow> info3 e; i4 \<leftarrow> info4 e;
         into_buf MAX_MESSAGE_LEN (i1 @ ''.'' @ i2 @ ''.'' @ i3 @ ''.'' @ i4) }
     | ipban_type_range \<Rightarrow> do { i1 \<leftarrow> info1 e; i2 \<leftarrow> info2 e; into_buf MAX_MESSAGE_LEN (i1 @ ''-'' @ i2) }
     | _ \<Rightarrow> do { i1 \<leftarrow> info1 e; i2 \<leftarrow> info2 e; into_buf MAX_MESSAGE_LEN (i1 @ ''/'' @ i2) })"

definition ipban_identical_entry :: "t_ipban_entry \<Rightarrow> t_ipban_entry \<Rightarrow> bool option" where
  "ipban_identical_entry e1 e2 =
     (if ban_type e1 \<noteq> ban_type e2 then Some False
      else case ban_type e2 of
        ipban_type_exact \<Rightarrow> do { a1 \<leftarrow> info1 e1; b1 \<leftarrow> info1 e2; Some (a1 = b1) }
      | ipban_type_wildcard \<Rightarrow> do {
          a1 \<leftarrow> info1 e1; b1 \<leftarrow> info1 e2; a2 \<leftarrow> info2 e1; b2 \<leftarrow> info2 e2;
          a3 \<leftarrow> info3 e1; b3 \<leftarrow> info3 e2; a4 \<leftarrow> info4 e1; b4 \<leftarrow> info4 e2;
          Some (a1 = b1 \<and> a2 = b2 \<and> a3 = b3 \<and> a4 = b4) }
      | _ \<Rightarrow> do { a1 \<leftarrow> info1 e1; b1 \<leftarrow> info1 e2; a2 \<leftarrow> info2 e1; b2 \<leftarrow> info2 e2; Some (a1 = b1 \<and> a2 = b2) })"

section \<open>The list\<close>

definition no_bans :: ipban_state where
  "no_bans = \<lparr>banlist = [], lastchecktime = 0, banfile = [], ban_messages = []\<rparr>"

definition ipbanlist_destroy :: "ipban_state \<Rightarrow> ipban_state" where
  "ipbanlist_destroy s = s\<lparr>banlist := []\<rparr>"

definition emit_ban :: "ban_message list \<Rightarrow> ipban_state \<Rightarrow> ipban_state" where
  "emit_ban ms s = s\<lparr>ban_messages := ban_messages s @ ms\<rparr>"

text \<open>The lines are printed into \<open>line\<close>, with a newline at the end, before they are written.\<close>

fun save_lines :: "t_ipban_entry list \<Rightarrow> cstring list option" where
  "save_lines [] = Some []"
| "save_lines (e # es) = do {
     ipstr \<leftarrow> ipban_entry_to_str e;
     line \<leftarrow> into_buf 1024 ((if endtime e = 0 then ipstr else ipstr @ '' '' @ fmt_ld (endtime e)) @ [CHR 0x0A]);
     ls \<leftarrow> save_lines es;
     Some (butlast line # ls) }"

definition ipbanlist_save :: "ipban_state \<Rightarrow> ipban_state option" where
  "ipbanlist_save s = do { ls \<leftarrow> save_lines (banlist s); Some (s\<lparr>banfile := ls\<rparr>) }"

definition expired :: "int \<Rightarrow> t_ipban_entry \<Rightarrow> bool" where
  "expired now e \<longleftrightarrow> endtime e - now \<le> 0 \<and> endtime e \<noteq> 0"

text \<open>The traversal removes the element under the cursor.\<close>

definition ipbanlist_unload_expired :: "int \<Rightarrow> ipban_state \<Rightarrow> ipban_state option" where
  "ipbanlist_unload_expired now s =
     (let s1 = s\<lparr>banlist := filter (\<lambda>e. \<not> expired now e) (banlist s)\<rparr>
      in if list_ex (expired now) (banlist s) then ipbanlist_save s1 else Some s1)"

definition part_differs :: "cstring \<Rightarrow> cstring option \<Rightarrow> bool option" where
  "part_differs ip info = do { i \<leftarrow> info; Some (i \<noteq> ''*'' \<and> ip \<noteq> i) }"

text \<open>
  One entry of the loop of \<open>ipbanlist_check\<close>: \<open>Inl\<close> is the early return, \<open>Inr\<close> says whether the address
  matched.
\<close>

definition check_entry ::
  "cstring \<Rightarrow> cstring \<times> cstring \<times> cstring \<times> cstring \<Rightarrow> t_ipban_entry \<Rightarrow> (int + bool) option" where
  "check_entry ipaddr ips e = (case ips of (ip1, ip2, ip3, ip4) \<Rightarrow> case ban_type e of
       ipban_type_exact \<Rightarrow> do { i \<leftarrow> info1 e; Some (Inr (i = ipaddr)) }
     | ipban_type_wildcard \<Rightarrow> do {
         d1 \<leftarrow> part_differs ip1 (info1 e);
         if d1 then Some (Inr False) else do {
         d2 \<leftarrow> part_differs ip2 (info2 e);
         if d2 then Some (Inr False) else do {
         d3 \<leftarrow> part_differs ip3 (info3 e);
         if d3 then Some (Inr False) else do {
         d4 \<leftarrow> part_differs ip4 (info4 e);
         Some (Inr (\<not> d4)) } } } }
     | ipban_type_range \<Rightarrow> do {
         lip \<leftarrow> ipban_str_to_ulong ipaddr;
         i1 \<leftarrow> info1 e; lo \<leftarrow> ipban_str_to_ulong i1;
         if lip \<ge> lo then do { i2 \<leftarrow> info2 e; hi \<leftarrow> ipban_str_to_ulong i2; Some (Inr (lip \<le> hi)) }
         else Some (Inr False) }
     | ipban_type_netmask \<Rightarrow> do {
         lip1 \<leftarrow> ipban_str_to_ulong ipaddr;
         if lip1 = 0 then Some (Inl (-1)) else do {
         i1 \<leftarrow> info1 e; lip2 \<leftarrow> ipban_str_to_ulong i1;
         if lip2 = 0 then Some (Inl (-1)) else do {
         i2 \<leftarrow> info2 e; netmask \<leftarrow> ipban_str_to_ulong i2;
         if netmask = 0 then Some (Inl (-1)) else Some (Inr (lip1 AND netmask = lip2 AND netmask)) } } }
     | ipban_type_prefix \<Rightarrow> do {
         lip1 \<leftarrow> ipban_str_to_ulong ipaddr;
         if lip1 = 0 then Some (Inl (-1)) else do {
         i1 \<leftarrow> info1 e; lip2 \<leftarrow> ipban_str_to_ulong i1;
         if lip2 = 0 then Some (Inl (-1)) else do {
         i2 \<leftarrow> info2 e;
         prefix \<leftarrow> c_atoi i2;
         if 32 - prefix < 0 \<or> 32 - prefix \<ge> 64 then None
         else Some (Inr (drop_bit (nat (32 - prefix)) lip1 = drop_bit (nat (32 - prefix)) lip2)) } } })"

fun check_loop ::
  "cstring \<Rightarrow> cstring \<times> cstring \<times> cstring \<times> cstring \<Rightarrow> t_ipban_entry list \<Rightarrow> int \<Rightarrow> int option" where
  "check_loop ipaddr ips [] counter = Some 0"
| "check_loop ipaddr ips (e # es) counter = do {
     r \<leftarrow> check_entry ipaddr ips e;
     (case r of Inl n \<Rightarrow> Some n
      | Inr m \<Rightarrow> if m then Some (counter + 1) else check_loop ipaddr ips es (counter + 1)) }"

definition ipbanlist_check :: "int \<Rightarrow> int \<Rightarrow> cstring option \<Rightarrow> ipban_state \<Rightarrow> (int \<times> ipban_state) option" where
  "ipbanlist_check now check_int ipaddr s = (case ipaddr of None \<Rightarrow> Some (-1, s) | Some ip \<Rightarrow> do {
     s1 \<leftarrow> (if now - lastchecktime s \<ge> check_int
            then do { s' \<leftarrow> ipbanlist_unload_expired now s; Some (s'\<lparr>lastchecktime := now\<rparr>) }
            else Some s);
     (case strtok_dot ip of
        ip1 # ip2 # ip3 # ip4 # _ \<Rightarrow> do { r \<leftarrow> check_loop ip (ip1, ip2, ip3, ip4) (banlist s1) 0; Some (r, s1) }
      | _ \<Rightarrow> Some (-1, s1)) })"

definition ipbanlist_add ::
  "(nat \<Rightarrow> cstring) \<Rightarrow> int \<Rightarrow> nat option \<Rightarrow> cstring \<Rightarrow> int \<Rightarrow> ipban_state \<Rightarrow> (int \<times> ipban_state) option" where
  "ipbanlist_add username now c cp t s = do {
     parsed \<leftarrow> ipban_str_to_ipban_entry (Some cp);
     (case parsed of
       None \<Rightarrow> Some (-1, case c of None \<Rightarrow> s | Some cn \<Rightarrow> emit_ban [Error cn ''Bad IP.''] s)
     | Some entry \<Rightarrow>
         let s1 = s\<lparr>banlist := banlist s @ [entry\<lparr>endtime := t\<rparr>]\<rparr>
         in (case c of None \<Rightarrow> Some (0, s1)
             | Some cn \<Rightarrow>
                 if t = 0
                 then do {
                   tstr \<leftarrow> into_buf MAX_MESSAGE_LEN (cp @ '' banned permamently by '' @ username cn @ ''.'');
                   tstr2 \<leftarrow> into_buf MAX_MESSAGE_LEN (cp @ '' banned permamently.'');
                   Some (0, emit_ban [Admins cn tstr, Info cn tstr2] s1) }
                 else let d = take 48 (seconds_to_timestr (word_of_int (t - now))) in do {
                   tstr \<leftarrow> into_buf MAX_MESSAGE_LEN (cp @ '' banned for '' @ d @ '' by '' @ username cn @ ''.'');
                   tstr2 \<leftarrow> into_buf MAX_MESSAGE_LEN (cp @ '' banned for '' @ d @ ''.'');
                   Some (0, emit_ban [Admins cn tstr, Info cn tstr2] s1) })) }"

text \<open>One line of the ban file.\<close>

definition is_blank :: "char \<Rightarrow> bool" where
  "is_blank c \<longleftrightarrow> c = CHR '' '' \<or> c = CHR 0x09"

definition load_line :: "int \<Rightarrow> cstring \<Rightarrow> ipban_state \<Rightarrow> ipban_state option" where
  "load_line now buff s =
     (let ip = dropWhile is_blank buff
      in if ip = [] \<or> hd ip = CHR ''#'' then Some s
         else let ip = rev (dropWhile is_blank (rev ip));
                  first = takeWhile (\<lambda>c. \<not> is_blank c) ip;
                  t = (if list_ex is_blank ip
                       then (case clockstr_to_seconds (Some (dropWhile is_blank (dropWhile (\<lambda>c. \<not> is_blank c) ip))) (Some 0) of
                           (r, Some v) \<Rightarrow> if r < 0 then 0 else uint v | _ \<Rightarrow> 0)
                       else 0)
              in map_option snd (ipbanlist_add (\<lambda>_. []) now None first t s))"

fun ipbanlist_load :: "int \<Rightarrow> cstring list \<Rightarrow> ipban_state \<Rightarrow> ipban_state option" where
  "ipbanlist_load now [] s = Some s"
| "ipbanlist_load now (l # ls) s = do { s1 \<leftarrow> load_line now l s; ipbanlist_load now ls s1 }"

section \<open>The chat command\<close>

text \<open>Its message, with eight digits at most, always fits \<open>tstr\<close>.\<close>

definition ipbanlist_str_to_time_t :: "int \<Rightarrow> nat option \<Rightarrow> cstring \<Rightarrow> ipban_state \<Rightarrow> int \<times> ipban_state" where
  "ipbanlist_str_to_time_t now c timestr s =
     (let minstr = take (MAX_TIME_STR - 1) (takeWhile c_isdigit timestr);
          s1 = (if drop (length minstr) timestr \<noteq> []
                then (case c of None \<Rightarrow> s
                  | Some cn \<Rightarrow> if length minstr < 1 then emit_ban [Info cn ''There was an error in std::time.''] s
                      else emit_ban [Info cn (''There was an error in std::time. Banning only for: '' @ minstr @ '' minutes.'')] s)
                else s)
      in case clockstr_to_seconds (Some minstr) (Some 0) of
           (r, Some bmin) \<Rightarrow> if r < 0 then (-1, s1) else if bmin = 0 then (0, s1) else (now + uint (bmin * 60), s1)
         | _ \<Rightarrow> (-1, s1))"

definition identify_ipban_function :: "cstring \<Rightarrow> ipban_func" where
  "identify_ipban_function f =
     (if strcasecmp f ''add'' = 0 \<or> strcasecmp f ''a'' = 0 then IPBAN_FUNC_ADD
      else if strcasecmp f ''del'' = 0 \<or> strcasecmp f ''d'' = 0 then IPBAN_FUNC_DEL
      else if strcasecmp f ''list'' = 0 \<or> strcasecmp f ''l'' = 0 \<or> f = [] then IPBAN_FUNC_LIST
      else if strcasecmp f ''check'' = 0 \<or> strcasecmp f ''c'' = 0 then IPBAN_FUNC_CHECK
      else if strcasecmp f ''help'' = 0 \<or> strcasecmp f ''h'' = 0 then IPBAN_FUNC_HELP
      else IPBAN_FUNC_UNKNOWN)"

fun del_identical :: "t_ipban_entry \<Rightarrow> t_ipban_entry list \<Rightarrow> (nat \<times> t_ipban_entry list) option" where
  "del_identical d [] = Some (0, [])"
| "del_identical d (e # es) = do {
     same \<leftarrow> ipban_identical_entry d e;
     (n, rest) \<leftarrow> del_identical d es;
     Some (if same then (n + 1, rest) else (n, e # rest)) }"

text \<open>The number is compared as \<open>unsigned\<close>.\<close>

definition ipban_func_del :: "nat \<Rightarrow> cstring \<Rightarrow> ipban_state \<Rightarrow> (int \<times> ipban_state) option" where
  "ipban_func_del c cp s =
     (if CHR ''.'' \<in> set cp \<or> CHR ''/'' \<in> set cp \<or> CHR ''*'' \<in> set cp
      then do { parsed \<leftarrow> ipban_str_to_ipban_entry (Some cp); (case parsed of
          None \<Rightarrow> Some (-1, emit_ban [Error c ''Illegal IP entry.''] s)
        | Some d \<Rightarrow> do {
            (n, es) \<leftarrow> del_identical d (banlist s);
            if n = 0 then Some (-1, emit_ban [Error c ''No matching entry.''] s)
            else do {
              tstr \<leftarrow> into_buf MAX_MESSAGE_LEN (if n = 1 then ''Entry deleted.'' else ''Deleted '' @ fmt_u n @ '' entries.'');
              Some (0, emit_ban [Info c tstr] (s\<lparr>banlist := es\<rparr>)) } }) }
      else do {
        a \<leftarrow> c_atoi cp;
        let nmbr = unat (word_of_int a :: u32); len = length (banlist s)
        in if nmbr = 0 then Some (-1, emit_ban [Error c ''Wrong entry number.''] s)
           else if nmbr > len then do {
             tstr \<leftarrow> into_buf MAX_MESSAGE_LEN (''There are only '' @ fmt_u len @ '' entries.'');
             Some (-1, emit_ban [Error c tstr] s) }
           else Some (0, emit_ban [Info c ''Entry deleted.'']
                  (s\<lparr>banlist := take (nmbr - 1) (banlist s) @ drop nmbr (banlist s)\<rparr>)) })"

fun list_messages :: "int \<Rightarrow> nat \<Rightarrow> nat \<Rightarrow> t_ipban_entry list \<Rightarrow> ban_message list option" where
  "list_messages now c counter [] = Some []"
| "list_messages now c counter (e # es) = do {
     timestr \<leftarrow> into_buf 50 (if endtime e = 0 then ''(perm)''
                else ''('' @ take 48 (seconds_to_timestr (word_of_int (endtime e - now))) @ '')'');
     ipstr \<leftarrow> ipban_entry_to_str e;
     tstr \<leftarrow> into_buf MAX_MESSAGE_LEN (fmt_u (counter + 1) @ '': '' @ ipstr @ '' '' @ timestr);
     ms \<leftarrow> list_messages now c (counter + 1) es;
     Some (Info c tstr # ms) }"

definition ipban_func_list :: "int \<Rightarrow> nat \<Rightarrow> ipban_state \<Rightarrow> ipban_state option" where
  "ipban_func_list now c s = do {
     ms \<leftarrow> list_messages now c 0 (banlist s);
     Some (emit_ban (Info c ''Banned IPs:'' # (if banlist s = [] then [Info c ''none''] else ms)) s) }"

definition ipban_func_check :: "int \<Rightarrow> int \<Rightarrow> nat \<Rightarrow> cstring \<Rightarrow> ipban_state \<Rightarrow> ipban_state option" where
  "ipban_func_check now check_int c cp s = do {
     (res, s1) \<leftarrow> ipbanlist_check now check_int (Some cp) s;
     if res = 0 then Some (emit_ban [Info c ''IP not banned.''] s1)
     else if res = -1 then Some (emit_ban [Error c ''Error occured.''] s1)
     else do {
       entry \<leftarrow> into_buf MAX_MESSAGE_LEN (''IP banned by rule #'' @ fmt_i res @ ''.'');
       Some (emit_ban [Info c entry] s1) } }"

definition ipban_usage :: "nat \<Rightarrow> ipban_state \<Rightarrow> ipban_state" where
  "ipban_usage c s = emit_ban (map (Info c)
     [''to print this information:'', ''    /ipban h[elp]'', ''to print all baned IPs'', ''    /ipban [l[ist]]'',
      ''to erase ban:'', ''    /ipban d[el] <IP|index num>'', ''    (IP have to be entry accepted in bnban)'',
      ''to add ban:'', ''    /ipban a[dd] IP'', ''    (IP have to be entry accepted in bnban)'',
      ''to check is specified IP banned:'', ''    /ipban c[heck] IP'']) s"

definition next_word :: "nat \<Rightarrow> cstring \<Rightarrow> cstring \<times> cstring" where
  "next_word sz txt = (take (sz - 1) (takeWhile (\<lambda>c. c \<noteq> CHR '' '') txt),
     dropWhile (\<lambda>c. c = CHR '' '') (dropWhile (\<lambda>c. c \<noteq> CHR '' '') txt))"

definition handle_ipban_command ::
  "(nat \<Rightarrow> cstring) \<Rightarrow> int \<Rightarrow> int \<Rightarrow> nat \<Rightarrow> cstring \<Rightarrow> ipban_state \<Rightarrow> ipban_state option" where
  "handle_ipban_command username now check_int c txt s =
     (let (_, rest) = next_word 0 txt;
          (subcommand, rest) = next_word MAX_FUNC_LEN rest;
          (ipstr, rest) = next_word MAX_IP_STR rest
      in case identify_ipban_function subcommand of
           IPBAN_FUNC_ADD \<Rightarrow> let (t, s1) = ipbanlist_str_to_time_t now (Some c) rest s
             in do { (r, s2) \<leftarrow> ipbanlist_add username now (Some c) ipstr t s1; ipbanlist_save s2 }
         | IPBAN_FUNC_DEL \<Rightarrow> do { (r, s1) \<leftarrow> ipban_func_del c ipstr s; ipbanlist_save s1 }
         | IPBAN_FUNC_LIST \<Rightarrow> ipban_func_list now c s
         | IPBAN_FUNC_CHECK \<Rightarrow> ipban_func_check now check_int c ipstr s
         | IPBAN_FUNC_HELP \<Rightarrow>
             Some (ipban_usage c (emit_ban [Info c ''The ipban command supports the following patterns.''] s))
         | IPBAN_FUNC_UNKNOWN \<Rightarrow>
             Some (ipban_usage c (emit_ban [Info c ''The command is incorect. Use one of the following patterns.''] s)))"

section \<open>Parts of strings\<close>

definition no_dot :: "cstring \<Rightarrow> bool" where
  "no_dot f \<longleftrightarrow> CHR ''.'' \<notin> set f"

lemma split_dot_ne [simp]: "split_dot s \<noteq> []"
  by (induction s) (auto split: list.split)

lemma split_dot_append: "no_dot f \<Longrightarrow> split_dot (f @ CHR ''.'' # s) = f # split_dot s"
  by (induction f) (auto simp: no_dot_def)

lemma split_dot_single: "no_dot f \<Longrightarrow> split_dot f = [f]"
  by (induction f) (auto simp: no_dot_def)

lemma split_dot_no_dot: "f \<in> set (split_dot s) \<Longrightarrow> no_dot f"
  by (induction s arbitrary: f) (auto simp: no_dot_def split: if_splits list.splits)

lemma split_dot_head: "split_dot s = f # fs \<Longrightarrow> prefix f s"
proof (induction s arbitrary: f fs)
  case (Cons c cs)
  then show ?case by (cases "c = CHR ''.''") (auto split: list.splits)
qed simp

lemma split_dot_sublist: "f \<in> set (split_dot s) \<Longrightarrow> sublist f s"
proof (induction s arbitrary: f)
  case (Cons c cs)
  obtain g gs where g: "split_dot cs = g # gs" by (cases "split_dot cs") auto
  have "prefix (c # g) (c # cs)" using split_dot_head [OF g] by simp
  then have p: "sublist (c # g) (c # cs)" by (rule prefix_imp_sublist)
  have q: "sublist x (c # cs)" if "x \<in> set (split_dot cs)" for x
    using Cons.IH [OF that] by (rule sublist_order.order_trans) (simp add: suffix_imp_sublist suffix_ConsI)
  show ?case using Cons.prems p q g by (auto split: if_splits)
qed simp

lemma split_dot_length: "sum_list (map (\<lambda>f. length f + 1) (split_dot s)) = length s + 1"
  by (induction s) (auto split: list.splits)

lemma strtok_dot_length: "strtok_dot s = a # b # c # d # rest \<Longrightarrow> length a + length b + length c + length d + 3 \<le> length s"
proof -
  assume t: "strtok_dot s = a # b # c # d # rest"
  have "sum_list (map (\<lambda>f. length f + 1) (filter P xs)) \<le> sum_list (map (\<lambda>f. length f + 1) xs)" for P and xs :: "cstring list"
    by (induction xs) auto
  from this [of "\<lambda>f. f \<noteq> []" "split_dot s"] show ?thesis using t split_dot_length [of s] by (simp add: strtok_dot_def)
qed

section \<open>Numbers that fit\<close>

text \<open>At most nine digits in a row: what makes every \<open>atoi\<close> of a part of a string defined.\<close>

definition short_runs :: "cstring \<Rightarrow> bool" where
  "short_runs s \<longleftrightarrow> list_all (\<lambda>d. list_all c_isdigit d \<longrightarrow> length d \<le> 9) (sublists s)"

lemma short_runsD: "short_runs s \<Longrightarrow> sublist d s \<Longrightarrow> list_all c_isdigit d \<Longrightarrow> length d \<le> 9"
  by (simp add: short_runs_def list_all_iff set_sublists_eq)

lemma short_runs_sublist: "short_runs s \<Longrightarrow> sublist r s \<Longrightarrow> short_runs r"
  by (auto simp: short_runs_def list_all_iff set_sublists_eq intro: sublist_order.order_trans)

lemma dec_value_bound: "list_all c_isdigit ds \<Longrightarrow> foldl (\<lambda>a c. 10 * a + digit_val c) v ds < (v + 1) * 10 ^ length ds"
proof (induction ds arbitrary: v)
  case (Cons c ds)
  have "foldl (\<lambda>a c. 10 * a + digit_val c) (10 * v + digit_val c) ds < (10 * v + digit_val c + 1) * 10 ^ length ds"
    using Cons by simp
  also have "\<dots> \<le> (10 * v + 10) * 10 ^ length ds"
    using digit_val_less [of c] Cons.prems by (intro mult_right_mono) simp_all
  finally show ?case by (simp add: algebra_simps)
qed simp

lemma takeWhile_sublist: "sublist (takeWhile P s) s"
  by (metis prefix_imp_sublist takeWhile_is_prefix)

lemma dropWhile_sublist: "sublist (dropWhile P s) s"
  by (metis suffix_imp_sublist suffix_dropWhile)

lemma atoi_digits: "\<exists>d. sublist d s \<and> list_all c_isdigit d \<and> \<bar>atoi s\<bar> = int (dec_value d)"
proof -
  let ?t = "dropWhile c_isblank s"
  have ds: "list_all c_isdigit (takeWhile c_isdigit xs)" for xs by (auto simp: list_all_iff dest: set_takeWhileD)
  show ?thesis
  proof (cases ?t)
    case Nil
    have "atoi s = 0" by (simp only: atoi_def Let_def Nil list.case)
    then show ?thesis by (intro exI [of _ "[]"]) (simp add: dec_value_def)
  next
    case (Cons c cs)
    have cs: "sublist cs s" using dropWhile_sublist [of c_isblank s] unfolding Cons by (rule sublist_order.order_trans [rotated]) (simp add: suffix_imp_sublist suffix_ConsI)
    have a: "sublist (takeWhile c_isdigit cs) s" using sublist_order.order_trans [OF takeWhile_sublist cs] .
    have b: "sublist (takeWhile c_isdigit ?t) s" using sublist_order.order_trans [OF takeWhile_sublist dropWhile_sublist] .
    show ?thesis
    proof (cases "c = CHR ''-'' \<or> c = CHR ''+''")
      case True
      then show ?thesis using a ds Cons by (intro exI [of _ "takeWhile c_isdigit cs"]) (auto simp: atoi_def)
    next
      case False
      then show ?thesis using b ds Cons by (intro exI [of _ "takeWhile c_isdigit ?t"]) (auto simp: atoi_def)
    qed
  qed
qed

lemma c_atoi_fits: "(\<And>d. sublist d s \<Longrightarrow> list_all c_isdigit d \<Longrightarrow> length d \<le> 9) \<Longrightarrow> c_atoi s = Some (atoi s)"
proof -
  assume l: "\<And>d. sublist d s \<Longrightarrow> list_all c_isdigit d \<Longrightarrow> length d \<le> 9"
  obtain d where d: "sublist d s" "list_all c_isdigit d" "\<bar>atoi s\<bar> = int (dec_value d)" using atoi_digits by blast
  have "dec_value d < 10 ^ length d" using dec_value_bound [OF d(2), of 0] by (simp add: dec_value_def)
  also have "\<dots> \<le> 10 ^ 9" using l [OF d(1,2)] by (intro power_increasing) simp_all
  finally have "int (dec_value d) < 10 ^ 9" by simp
  then have "\<bar>atoi s\<bar> < 10 ^ 9" using d(3) by simp
  then have "- (2 ^ 31) \<le> atoi s \<and> atoi s < 2 ^ 31" by (simp add: abs_less_iff)
  then show ?thesis by (simp only: c_atoi_def if_True simp_thms)
qed

lemma c_atoi_short_runs: "short_runs s \<Longrightarrow> c_atoi s = Some (atoi s)"
  by (rule c_atoi_fits) (rule short_runsD)

lemma c_atoi_short: "length s \<le> 9 \<Longrightarrow> c_atoi s = Some (atoi s)"
  by (rule c_atoi_fits) (meson le_trans sublist_length_le)

lemma exact_tokens:
  assumes "ipban_could_be_exact_ip_str s"
  shows "\<exists>a b c d rest. strtok_dot s = a # b # c # d # rest \<and> length a \<le> 3 \<and> length b \<le> 3 \<and> length c \<le> 3 \<and> length d \<le> 3"
proof -
  let ?fs = "split_dot s"
  have l: "4 \<le> length ?fs" and f: "list_all (\<lambda>f. 1 \<le> length f \<and> length f \<le> 3) (take 4 ?fs)"
    using assms by (auto simp: ipban_could_be_exact_ip_str_def Let_def)
  obtain a b c d rest where fs: "?fs = a # b # c # d # rest"
    using l by (auto simp: numeral_eq_Suc Suc_le_length_iff)
  then show ?thesis using f by (auto simp: strtok_dot_def)
qed

lemma exact_ulong: "ipban_could_be_exact_ip_str s \<Longrightarrow> \<exists>l. ipban_str_to_ulong s = Some l"
proof -
  assume "ipban_could_be_exact_ip_str s"
  from exact_tokens [OF this] obtain a b c d rest where "strtok_dot s = a # b # c # d # rest"
    "length a \<le> 9" "length b \<le> 9" "length c \<le> 9" "length d \<le> 9" by fastforce
  then show ?thesis by (simp add: ipban_str_to_ulong_def c_atoi_short)
qed

lemma runs_ulong: "short_runs s \<Longrightarrow> strtok_dot s = a # b # c # d # rest \<Longrightarrow> \<exists>l. ipban_str_to_ulong s = Some l"
proof -
  assume s: "short_runs s" and t: "strtok_dot s = a # b # c # d # rest"
  have "short_runs f" if "f \<in> set (strtok_dot s)" for f
    using short_runs_sublist [OF s split_dot_sublist] that by (auto simp: strtok_dot_def)
  then show ?thesis using t by (simp add: ipban_str_to_ulong_def c_atoi_short_runs)
qed

section \<open>Well-formed lists\<close>

lemma fmt_d_length_less: "n < 10 ^ Suc k \<Longrightarrow> length (fmt_d n) \<le> Suc k"
proof (induction k arbitrary: n)
  case 0
  then show ?case by (simp add: fmt_d.simps [of n])
next
  case (Suc k)
  have "n div 10 < 10 ^ Suc k" using Suc.prems by (simp add: less_mult_imp_div_less mult.commute)
  then have "length (fmt_d (n div 10)) \<le> Suc k" by (rule Suc.IH)
  moreover have "length (fmt_d n) = (if n < 10 then 1 else Suc (length (fmt_d (n div 10))))" by (simp add: fmt_d.simps [of n])
  ultimately show ?case by (simp only: split: if_split) linarith
qed

lemma fmt_u_length: "length (fmt_u n) \<le> 10"
proof -
  have "unat (word_of_nat n :: u32) < 2 ^ 32" using unsigned_less [of "word_of_nat n :: u32", where 'a = nat] by simp
  then show ?thesis unfolding fmt_u_def using fmt_d_length_less [of _ 9] by simp
qed

lemma fmt_int_length: "- (10 ^ 19) < n \<Longrightarrow> n < 10 ^ 20 \<Longrightarrow> length (fmt_int n) \<le> 20"
  using fmt_d_length_less [of "nat n" 19] fmt_d_length_less [of "nat (- n)" 18] by (auto simp: fmt_int_def)

lemma fmt_i_length: "length (fmt_i n) \<le> 20"
proof -
  have "- (2 ^ 31) \<le> sint (word_of_int n :: i32)" "sint (word_of_int n :: i32) < 2 ^ 31"
    using sint_range_size [of "word_of_int n :: i32"] by (auto simp: word_size)
  then show ?thesis unfolding fmt_i_def by (intro fmt_int_length) simp_all
qed

lemma fmt_ld_length: "length (fmt_ld n) \<le> 20"
proof -
  have "- (2 ^ 63) \<le> sint (word_of_int n :: u64)" "sint (word_of_int n :: u64) < 2 ^ 63"
    using sint_range_size [of "word_of_int n :: u64"] by (auto simp: word_size)
  then show ?thesis unfolding fmt_ld_def by (intro fmt_int_length) simp_all
qed

lemma units_length: "n < 10 ^ Suc k \<Longrightarrow> length (units n u) \<le> k + length u + 3"
  using fmt_d_length_less [of n k] by (auto simp: units_def)

lemma timestr_length: "length (seconds_to_timestr w) \<le> 47"
proof -
  let ?t = "unat w"
  have "?t < 2 ^ 32" using unsigned_less [of w, where 'a = nat] by simp
  then have "?t div (24 * 60 * 60) < 10 ^ Suc 4" by simp
  then have d: "length (units (?t div (24 * 60 * 60)) ''day'') \<le> 10" using units_length [of _ 4 "''day''"] by simp
  have l: "length (units (k mod m) u) \<le> 1 + length u + 3" if "m \<le> 60" "0 < m" for k m u
  proof -
    have "k mod m < m" using that(2) by simp
    then have "k mod m < 10 ^ Suc 1" using that(1) by simp
    then show ?thesis by (rule units_length)
  qed
  have h: "length (units (?t div (60 * 60) mod 24) ''hour'') \<le> 8" using l [of 24 _ "''hour''"] by simp
  have m: "length (units (?t div 60 mod 60) ''minute'') \<le> 10" using l [of 60 _ "''minute''"] by simp
  have s: "length (units (?t mod 60) ''second'') \<le> 10" using l [of 60 _ "''second''"] by simp
  show ?thesis unfolding seconds_to_timestr_def Let_def using d h m s by auto
qed

text \<open>What every entry in the list satisfies: it is printed with at most 190 characters.\<close>

definition wf_entry :: "t_ipban_entry \<Rightarrow> bool" where
  "wf_entry e \<longleftrightarrow> (\<exists>str. ipban_entry_to_str e = Some str \<and> length str \<le> 190) \<and> (case ban_type e of
       ipban_type_exact \<Rightarrow> info1 e \<noteq> None
     | ipban_type_wildcard \<Rightarrow> info1 e \<noteq> None \<and> info2 e \<noteq> None \<and> info3 e \<noteq> None \<and> info4 e \<noteq> None
     | ipban_type_prefix \<Rightarrow> (\<exists>a b n. info1 e = Some a \<and> info2 e = Some b \<and> ipban_could_be_exact_ip_str a
         \<and> c_atoi b = Some n \<and> 0 \<le> n \<and> n \<le> 32)
     | _ \<Rightarrow> (\<exists>a b. info1 e = Some a \<and> info2 e = Some b \<and> ipban_could_be_exact_ip_str a \<and> ipban_could_be_exact_ip_str b))"

lemma entry_to_str_endtime [simp]: "ipban_entry_to_str (e\<lparr>endtime := t\<rparr>) = ipban_entry_to_str e"
  by (cases "ban_type e") (simp_all add: ipban_entry_to_str_def)

lemma wf_endtime [simp]: "wf_entry (e\<lparr>endtime := t\<rparr>) = wf_entry e"
  unfolding wf_entry_def entry_to_str_endtime by (cases "ban_type e") simp_all

lemma atoi_nonneg: "CHR ''-'' \<notin> set s \<Longrightarrow> 0 \<le> atoi s"
  by (auto simp: atoi_def Let_def split: list.split dest!: arg_cong [of "dropWhile _ _" _ set] set_dropWhileD)

lemma strchr_cut_Some: "strchr_cut c s = Some (a, b) \<Longrightarrow> s = a @ c # b"
proof -
  assume h: "strchr_cut c s = Some (a, b)"
  then have a: "a = takeWhile (\<lambda>d. d \<noteq> c) s" and b: "b = tl (dropWhile (\<lambda>d. d \<noteq> c) s)" and c: "c \<in> set s"
    by (auto simp: strchr_cut_def split: if_splits)
  have "dropWhile (\<lambda>d. d \<noteq> c) s = c # b"
    using c unfolding b by (induction s) auto
  then show ?thesis using takeWhile_dropWhile_id [of "\<lambda>d. d \<noteq> c" s] unfolding a by simp
qed

lemma strchr_cut_None: "strchr_cut c s = None \<longleftrightarrow> c \<notin> set s"
  by (simp add: strchr_cut_def)

lemma parse_wf:
  assumes p: "ipban_str_to_ipban_entry (Some s) = Some (Some e)" and len: "length s \<le> 190"
  shows "wf_entry e"
proof -
  have c: "ipban_could_be_ip_str s = Some True" and e: "split_pattern s = Some e"
    using p by (auto simp: ipban_str_to_ipban_entry_def bind_eq_Some_conv split: if_splits)
  have fits: "into_buf MAX_MESSAGE_LEN t = Some t" if "length t \<le> 190" for t
    using that by (simp add: into_buf_def MAX_MESSAGE_LEN_def)
  show "wf_entry e"
  proof (cases "strchr_cut (CHR ''-'') s")
    case (Some ab)
    obtain a b where ab: "ab = (a, b)" by (cases ab)
    have "e = plain_entry ipban_type_range a (Some b)" using e Some ab by (simp add: split_pattern_def)
    moreover have "ipban_could_be_exact_ip_str a \<and> ipban_could_be_exact_ip_str b"
      using c Some ab by (simp add: ipban_could_be_ip_str_def split: if_splits)
    moreover have "length (a @ ''-'' @ b) \<le> 190" using len strchr_cut_Some [OF Some [unfolded ab]] by simp
    ultimately show ?thesis using fits [of "a @ ''-'' @ b"] by (simp add: wf_entry_def plain_entry_def ipban_entry_to_str_def)
  next
    case nominus: None
    show ?thesis
    proof (cases "CHR ''*'' \<in> set s")
      case True
      then obtain i1 i2 i3 i4 rest where i: "strtok_dot s = i1 # i2 # i3 # i4 # rest"
          "e = \<lparr>info1 = Some i1, info2 = Some i2, info3 = Some i3, info4 = Some i4, ban_type = ipban_type_wildcard, endtime = 0\<rparr>"
        using e nominus by (auto simp: split_pattern_def split: list.splits)
      have "length (i1 @ ''.'' @ i2 @ ''.'' @ i3 @ ''.'' @ i4) \<le> 190" using strtok_dot_length [OF i(1)] len by simp
      then show ?thesis using fits [of "i1 @ ''.'' @ i2 @ ''.'' @ i3 @ ''.'' @ i4"] i(2)
        by (simp add: wf_entry_def ipban_entry_to_str_def)
    next
      case nostar: False
      then have nostar': "strchr_cut (CHR ''*'') s = None" by (simp add: strchr_cut_None)
      show ?thesis
      proof (cases "strchr_cut (CHR ''/'') s")
        case (Some ab)
        obtain a b where ab: "ab = (a, b)" by (cases ab)
        have s: "s = a @ ''/'' @ b" using strchr_cut_Some [OF Some [unfolded ab]] by simp
        have e': "e = plain_entry (if CHR ''.'' \<in> set b then ipban_type_netmask else ipban_type_prefix) a (Some b)"
          using e nominus nostar Some ab by (simp add: split_pattern_def)
        have ok: "if CHR ''.'' \<in> set b then ipban_could_be_exact_ip_str a \<and> ipban_could_be_exact_ip_str b
              else ipban_could_be_exact_ip_str a \<and> (\<exists>n. c_atoi b = Some n \<and> n \<le> 32)"
          using c nominus nostar' Some ab by (auto simp: ipban_could_be_ip_str_def bind_eq_Some_conv split: if_splits)
        have "CHR ''-'' \<notin> set b" using s nominus by (auto simp: strchr_cut_None)
        then have "c_atoi b = Some n \<Longrightarrow> 0 \<le> n" for n using atoi_nonneg [of b] by (auto simp: c_atoi_def split: if_splits)
        then show ?thesis using e' ok fits [of "a @ ''/'' @ b"] len s
          by (auto simp: wf_entry_def plain_entry_def ipban_entry_to_str_def split: if_splits)
      next
        case None
        then show ?thesis using e nominus nostar fits [OF len] len
          by (auto simp: split_pattern_def wf_entry_def plain_entry_def ipban_entry_to_str_def)
      qed
    qed
  qed
qed

lemma parse_total: "short_runs s \<Longrightarrow> \<exists>r. ipban_str_to_ipban_entry (Some s) = Some r"
proof -
  assume r: "short_runs s"
  have "short_runs b" if "strchr_cut c s = Some (a, b)" for c a b
    using strchr_cut_Some [OF that] by (intro short_runs_sublist [OF r]) (metis append_Cons append_Nil suffix_imp_sublist suffix_def append_assoc)
  then have "\<exists>x. ipban_could_be_ip_str s = Some x"
    by (auto simp: ipban_could_be_ip_str_def c_atoi_short_runs split: option.split)
  then show ?thesis by (auto simp: ipban_str_to_ipban_entry_def)
qed

definition ban_wf :: "ipban_state \<Rightarrow> bool" where
  "ban_wf s \<longleftrightarrow> (\<forall>e \<in> set (banlist s). wf_entry e)"

lemma save_lines_total:
  "\<forall>e \<in> set es. \<exists>str. ipban_entry_to_str e = Some str \<and> length str \<le> 190 \<Longrightarrow> \<exists>ls. save_lines es = Some ls"
proof (induction es)
  case (Cons e es)
  obtain ls where "save_lines es = Some ls" using Cons by auto
  moreover obtain str where "ipban_entry_to_str e = Some str" "length str \<le> 190" using Cons.prems by auto
  ultimately show ?case using fmt_ld_length [of "endtime e"] by (simp add: into_buf_def)
qed simp

lemma save_total: "ban_wf s \<Longrightarrow> \<exists>ls. ipbanlist_save s = Some (s\<lparr>banfile := ls\<rparr>)"
proof -
  assume "ban_wf s"
  then have "\<forall>e \<in> set (banlist s). \<exists>str. ipban_entry_to_str e = Some str \<and> length str \<le> 190" by (simp add: ban_wf_def wf_entry_def)
  from save_lines_total [OF this] show ?thesis by (auto simp: ipbanlist_save_def)
qed

lemma unload_total:
  assumes "ban_wf s"
  shows "\<exists>s'. ipbanlist_unload_expired now s = Some s' \<and> ban_wf s'
    \<and> banlist s' = filter (\<lambda>e. \<not> expired now e) (banlist s) \<and> lastchecktime s' = lastchecktime s
    \<and> ban_messages s' = ban_messages s"
proof -
  let ?s = "s\<lparr>banlist := filter (\<lambda>e. \<not> expired now e) (banlist s)\<rparr>"
  have w: "ban_wf ?s" using assms by (simp add: ban_wf_def)
  obtain ls where "ipbanlist_save ?s = Some (?s\<lparr>banfile := ls\<rparr>)" using save_total [OF w] by blast
  then show ?thesis using w
    by (cases "list_ex (expired now) (banlist s)") (simp_all add: ipbanlist_unload_expired_def ban_wf_def Let_def)
qed

lemma check_entry_total:
  assumes w: "wf_entry e" and sr: "short_runs ip" and tk: "strtok_dot ip = ip1 # ip2 # ip3 # ip4 # rest"
  shows "\<exists>r. check_entry ip (ip1, ip2, ip3, ip4) e = Some r"
proof -
  obtain lip where lip: "ipban_str_to_ulong ip = Some lip" using runs_ulong [OF sr tk] by blast
  show ?thesis
  proof (cases "ban_type e")
    case ipban_type_prefix
    then obtain a b n where ab: "info1 e = Some a" "info2 e = Some b" "ipban_could_be_exact_ip_str a" "c_atoi b = Some n" "0 \<le> n" "n \<le> 32"
      using w by (auto simp: wf_entry_def)
    then show ?thesis using exact_ulong [of a] lip ipban_type_prefix by (auto simp: check_entry_def)
  next
    case ipban_type_netmask
    then obtain a b where "info1 e = Some a" "info2 e = Some b" "ipban_could_be_exact_ip_str a" "ipban_could_be_exact_ip_str b"
      using w by (auto simp: wf_entry_def)
    then show ?thesis using exact_ulong [of a] exact_ulong [of b] lip ipban_type_netmask by (auto simp: check_entry_def)
  next
    case ipban_type_range
    then obtain a b where "info1 e = Some a" "info2 e = Some b" "ipban_could_be_exact_ip_str a" "ipban_could_be_exact_ip_str b"
      using w by (auto simp: wf_entry_def)
    then show ?thesis using exact_ulong [of a] exact_ulong [of b] lip ipban_type_range by (auto simp: check_entry_def)
  qed (use w in \<open>auto simp: wf_entry_def check_entry_def part_differs_def\<close>)
qed

lemma check_loop_total:
  "\<forall>e \<in> set es. wf_entry e \<Longrightarrow> short_runs ip \<Longrightarrow> strtok_dot ip = ip1 # ip2 # ip3 # ip4 # rest \<Longrightarrow>
   \<exists>r. check_loop ip (ip1, ip2, ip3, ip4) es n = Some r"
proof (induction es arbitrary: n)
  case (Cons e es)
  obtain r where r: "check_entry ip (ip1, ip2, ip3, ip4) e = Some r"
    using check_entry_total [of e ip ip1 ip2 ip3 ip4 rest] Cons.prems by auto
  show ?case
  proof (cases r)
    case (Inr m)
    then show ?thesis using r Cons.IH [of "n + 1"] Cons.prems by (cases m) auto
  qed (use r in simp)
qed simp

lemma check_total:
  assumes "ban_wf s" and sr: "\<And>str. ip = Some str \<Longrightarrow> short_runs str"
  shows "\<exists>r s'. ipbanlist_check now check_int ip s = Some (r, s') \<and> ban_wf s'"
proof (cases ip)
  case None
  then show ?thesis using assms by (simp add: ipbanlist_check_def)
next
  case (Some str)
  obtain s1 where s1: "(if now - lastchecktime s \<ge> check_int
            then do { s' \<leftarrow> ipbanlist_unload_expired now s; Some (s'\<lparr>lastchecktime := now\<rparr>) }
            else Some s) = Some s1" and w: "ban_wf s1"
    using unload_total [OF assms(1), of now] assms(1)
    by (cases "now - lastchecktime s \<ge> check_int") (auto simp: ban_wf_def)
  show ?thesis
  proof (cases "\<exists>ip1 ip2 ip3 ip4 rest. strtok_dot str = ip1 # ip2 # ip3 # ip4 # rest")
    case True
    then obtain ip1 ip2 ip3 ip4 rest where t: "strtok_dot str = ip1 # ip2 # ip3 # ip4 # rest" by blast
    obtain r where "check_loop str (ip1, ip2, ip3, ip4) (banlist s1) 0 = Some r"
      using check_loop_total [of "banlist s1" str ip1 ip2 ip3 ip4 rest 0] w t sr [OF Some] by (auto simp: ban_wf_def)
    then show ?thesis using Some s1 w t by (simp add: ipbanlist_check_def)
  next
    case False
    then have "ipbanlist_check now check_int ip s = Some (-1, s1)"
      using Some s1 by (auto simp: ipbanlist_check_def split: list.split)
    then show ?thesis using w by blast
  qed
qed

section \<open>Every command keeps the list well-formed\<close>

lemma emit_ban_sel [simp]: "banlist (emit_ban ms s) = banlist s" "lastchecktime (emit_ban ms s) = lastchecktime s"
  "banfile (emit_ban ms s) = banfile s"
  by (simp_all add: emit_ban_def)

lemma ban_wf_emit [simp]: "ban_wf (emit_ban ms s) \<longleftrightarrow> ban_wf s"
  by (simp add: ban_wf_def)

text \<open>The connections that give commands have names of at most 158 characters.\<close>

lemma add_total:
  assumes "ban_wf s" and "short_runs cp" and "length cp \<le> 190"
    and c: "\<And>cn. c = Some cn \<Longrightarrow> length cp \<le> 31 \<and> length (username cn) \<le> 158"
  shows "\<exists>r s'. ipbanlist_add username now c cp t s = Some (r, s') \<and> ban_wf s'"
proof -
  obtain parsed where p: "ipban_str_to_ipban_entry (Some cp) = Some parsed" using parse_total [OF assms(2)] by blast
  show ?thesis
  proof (cases parsed)
    case None
    then show ?thesis using p assms(1) by (cases c) (simp_all add: ipbanlist_add_def)
  next
    case (Some e)
    have "wf_entry (e\<lparr>endtime := t\<rparr>)" using parse_wf [of cp e] p Some assms(3) by simp
    then have w: "ban_wf (s\<lparr>banlist := banlist s @ [e\<lparr>endtime := t\<rparr>]\<rparr>)" using assms(1) by (auto simp: ban_wf_def)
    have fits: "into_buf MAX_MESSAGE_LEN x = Some x" if "length x \<le> 254" for x
      using that by (simp add: into_buf_def MAX_MESSAGE_LEN_def)
    show ?thesis
    proof (cases c)
      case (Some cn)
      then have "length cp \<le> 31" "length (username cn) \<le> 158" using c by auto
      then have "length (cp @ '' banned permamently by '' @ username cn @ ''.'') \<le> 254" "length (cp @ '' banned permamently.'') \<le> 254"
        "length (cp @ '' banned for '' @ take 48 d @ '' by '' @ username cn @ ''.'') \<le> 254" "length (cp @ '' banned for '' @ take 48 d @ ''.'') \<le> 254"
        for d by simp_all
      note b = this [THEN fits]
      show ?thesis using p \<open>parsed = Some e\<close> Some w
        by (cases "t = 0") (simp_all add: ipbanlist_add_def Let_def b del: append_Cons append_Nil append.simps)
    qed (use p Some w in \<open>simp add: ipbanlist_add_def\<close>)
  qed
qed

lemma identical_total: "wf_entry d \<Longrightarrow> wf_entry e \<Longrightarrow> \<exists>b. ipban_identical_entry d e = Some b"
  by (cases "ban_type e") (auto simp: wf_entry_def ipban_identical_entry_def)

lemma del_identical_total:
  "wf_entry d \<Longrightarrow> \<forall>e \<in> set es. wf_entry e \<Longrightarrow>
   \<exists>n rest. del_identical d es = Some (n, rest) \<and> set rest \<subseteq> set es"
proof (induction es)
  case (Cons e es)
  obtain n rest where "del_identical d es = Some (n, rest)" "set rest \<subseteq> set es" using Cons by auto
  moreover obtain b where "ipban_identical_entry d e = Some b" using identical_total [of d e] Cons.prems by auto
  ultimately show ?case by (cases b) auto
qed simp

lemma func_del_total:
  assumes w: "ban_wf s" and sr: "short_runs cp" and len: "length cp \<le> 190"
  shows "\<exists>r s'. ipban_func_del c cp s = Some (r, s') \<and> ban_wf s'"
proof -
  have u: "into_buf MAX_MESSAGE_LEN (x @ fmt_u n @ '' entries.'') = Some (x @ fmt_u n @ '' entries.'')" if "length x \<le> 100" for x n
    using fmt_u_length [of n] that by (simp add: into_buf_def MAX_MESSAGE_LEN_def)
  show ?thesis
  proof (cases "CHR ''.'' \<in> set cp \<or> CHR ''/'' \<in> set cp \<or> CHR ''*'' \<in> set cp")
    case True
    obtain parsed where p: "ipban_str_to_ipban_entry (Some cp) = Some parsed" using parse_total [OF sr] by blast
    show ?thesis
    proof (cases parsed)
      case (Some d)
      obtain n rest where d: "del_identical d (banlist s) = Some (n, rest)" "set rest \<subseteq> set (banlist s)"
        using del_identical_total [OF parse_wf [of cp d], of "banlist s"] p Some w len by (auto simp: ban_wf_def)
      have "into_buf MAX_MESSAGE_LEN (if n = 1 then ''Entry deleted.'' else ''Deleted '' @ fmt_u n @ '' entries.'')
        = Some (if n = 1 then ''Entry deleted.'' else ''Deleted '' @ fmt_u n @ '' entries.'')"
        using fmt_u_length [of n] by (simp add: into_buf_def MAX_MESSAGE_LEN_def)
      then show ?thesis using True p Some d w by (auto simp: ipban_func_del_def ban_wf_def)
    qed (use True p w in \<open>simp add: ipban_func_del_def\<close>)
  next
    case False
    note u2 = u [of "''There are only ''"]
    show ?thesis using w u2 c_atoi_short_runs [OF sr]
      by (simp add: ipban_func_del_def False Let_def) (auto simp: ban_wf_def dest: in_set_takeD in_set_dropD)
  qed
qed

lemma list_messages_total: "\<forall>e \<in> set es. wf_entry e \<Longrightarrow> \<exists>ms. list_messages now c n es = Some ms"
proof (induction es arbitrary: n)
  case (Cons e es)
  let ?t = "if endtime e = 0 then ''(perm)'' else ''('' @ take 48 (seconds_to_timestr (word_of_int (endtime e - now))) @ '')''"
  obtain ms where "list_messages now c (n + 1) es = Some ms" using Cons by auto
  moreover obtain str where str: "ipban_entry_to_str e = Some str" "length str \<le> 190" using Cons.prems by (auto simp: wf_entry_def)
  moreover have t: "length ?t \<le> 49" using timestr_length [of "word_of_int (endtime e - now)"] by simp
  then have "into_buf 50 ?t = Some ?t" by (simp add: into_buf_def)
  moreover have "into_buf MAX_MESSAGE_LEN (fmt_u (n + 1) @ '': '' @ str @ '' '' @ ?t) = Some (fmt_u (n + 1) @ '': '' @ str @ '' '' @ ?t)"
  proof -
    have "length (fmt_u (n + 1) @ '': '' @ str @ '' '' @ ?t) < 255" using fmt_u_length [of "n + 1"] str(2) t by simp
    then show ?thesis by (simp only: into_buf_def MAX_MESSAGE_LEN_def if_True)
  qed
  ultimately show ?case by (simp del: append_Cons append_Nil append.simps)
qed simp

lemma next_word_sublist: "next_word n txt = (w, rest) \<Longrightarrow> sublist w txt \<and> sublist rest txt \<and> length w \<le> n - 1"
proof -
  assume "next_word n txt = (w, rest)"
  then have w: "w = take (n - 1) (takeWhile (\<lambda>c. c \<noteq> CHR '' '') txt)"
    and r: "rest = dropWhile (\<lambda>c. c = CHR '' '') (dropWhile (\<lambda>c. c \<noteq> CHR '' '') txt)" by (simp_all add: next_word_def)
  have "sublist w txt" unfolding w
    using sublist_order.order_trans [OF prefix_imp_sublist [OF take_is_prefix] takeWhile_sublist] by blast
  moreover have "sublist rest txt" unfolding r by (rule sublist_order.order_trans [OF dropWhile_sublist dropWhile_sublist])
  ultimately show ?thesis by (simp add: w)
qed

lemma handle_total:
  assumes "ban_wf s" and sr: "short_runs txt" and name: "length (username c) \<le> 158"
  shows "\<exists>s'. handle_ipban_command username now check_int c txt s = Some s' \<and> ban_wf s'"
proof -
  obtain a rest where w0: "next_word 0 txt = (a, rest)" by fastforce
  obtain sub rest1 where w1: "next_word MAX_FUNC_LEN rest = (sub, rest1)" by fastforce
  obtain ip rest2 where w2: "next_word MAX_IP_STR rest1 = (ip, rest2)" by fastforce
  have "sublist ip txt" using next_word_sublist [OF w0] next_word_sublist [OF w1] next_word_sublist [OF w2]
    by (meson sublist_order.order_trans)
  then have ipr: "short_runs ip" by (rule short_runs_sublist [OF sr])
  have ipl: "length ip \<le> 31" using next_word_sublist [OF w2] by (simp add: MAX_IP_STR_def)
  note unf = handle_ipban_command_def w0 w1 w2 Let_def prod.case
  obtain t s1 where t: "ipbanlist_str_to_time_t now (Some c) rest2 s = (t, s1)" by fastforce
  have s1: "ban_wf s1" using t assms(1) by (auto simp: ipbanlist_str_to_time_t_def Let_def split: if_splits prod.splits option.splits)
  show ?thesis
  proof (cases "identify_ipban_function sub")
    case IPBAN_FUNC_ADD
    obtain r s2 where "ipbanlist_add username now (Some c) ip t s1 = Some (r, s2)" "ban_wf s2"
      using add_total [OF s1 ipr, of "Some c" username now t] ipl name by auto
    then show ?thesis using save_total [of s2] IPBAN_FUNC_ADD by (auto simp: unf t ban_wf_def)
  next
    case IPBAN_FUNC_DEL
    obtain r s2 where d: "ipban_func_del c ip s = Some (r, s2)" "ban_wf s2" using func_del_total [OF assms(1) ipr, of c] ipl by auto
    then show ?thesis using save_total [OF d(2)] IPBAN_FUNC_DEL by (auto simp: unf ban_wf_def)
  next
    case IPBAN_FUNC_LIST
    obtain ms where "list_messages now c 0 (banlist s) = Some ms"
      using list_messages_total [of "banlist s" now c 0] assms(1) by (auto simp: ban_wf_def)
    then show ?thesis using assms(1) IPBAN_FUNC_LIST by (simp add: unf ipban_func_list_def)
  next
    case IPBAN_FUNC_CHECK
    obtain r s2 where "ipbanlist_check now check_int (Some ip) s = Some (r, s2)" "ban_wf s2"
      using check_total [OF assms(1), of "Some ip" now check_int] ipr by auto
    moreover have "into_buf MAX_MESSAGE_LEN (''IP banned by rule #'' @ fmt_i r @ ''.'') = Some (''IP banned by rule #'' @ fmt_i r @ ''.'')"
    proof -
      have "length (''IP banned by rule #'' @ fmt_i r @ ''.'') < 255" using fmt_i_length [of r] by simp
      then show ?thesis by (simp only: into_buf_def MAX_MESSAGE_LEN_def if_True)
    qed
    ultimately show ?thesis using IPBAN_FUNC_CHECK by (simp add: unf ipban_func_check_def del: append_Cons append_Nil append.simps)
  qed (use assms(1) in \<open>simp_all add: unf ipban_usage_def\<close>)
qed

section \<open>What a pattern matches\<close>

text \<open>
  Addresses as four numbers, the patterns an administrator writes, and the set of addresses each stands
  for: the specification of \<open>ipbanlist_check\<close>. A prefix of length 0 stands for the half of the addresses
  the base is in. Where an address, a base or a netmask is 0.0.0.0 the check gives up.
\<close>

type_synonym quad = "nat \<times> nat \<times> nat \<times> nat"

datatype pattern = Exact quad | Wild "nat option" "nat option" "nat option" "nat option" | Range quad quad
  | Netmask quad quad | Prefix quad nat

fun quad_ok :: "quad \<Rightarrow> bool" where
  "quad_ok (a, b, c, d) \<longleftrightarrow> a < 256 \<and> b < 256 \<and> c < 256 \<and> d < 256"

fun quad_num :: "quad \<Rightarrow> nat" where
  "quad_num (a, b, c, d) = a * 2 ^ 24 + b * 2 ^ 16 + c * 2 ^ 8 + d"

fun quad_str :: "quad \<Rightarrow> cstring" where
  "quad_str (a, b, c, d) = fmt_d a @ ''.'' @ fmt_d b @ ''.'' @ fmt_d c @ ''.'' @ fmt_d d"

definition part_str :: "nat option \<Rightarrow> cstring" where
  "part_str p = (case p of None \<Rightarrow> ''*'' | Some n \<Rightarrow> fmt_d n)"

fun pattern_str :: "pattern \<Rightarrow> cstring" where
  "pattern_str (Exact q) = quad_str q"
| "pattern_str (Wild a b c d) = part_str a @ ''.'' @ part_str b @ ''.'' @ part_str c @ ''.'' @ part_str d"
| "pattern_str (Range lo hi) = quad_str lo @ ''-'' @ quad_str hi"
| "pattern_str (Netmask q m) = quad_str q @ ''/'' @ quad_str m"
| "pattern_str (Prefix q p) = quad_str q @ ''/'' @ fmt_d p"

definition part_matches :: "nat option \<Rightarrow> nat \<Rightarrow> bool" where
  "part_matches p n \<longleftrightarrow> p = None \<or> p = Some n"

definition part_ok :: "nat option \<Rightarrow> bool" where
  "part_ok p \<longleftrightarrow> (case p of None \<Rightarrow> True | Some n \<Rightarrow> n < 256)"

fun matches :: "quad \<Rightarrow> pattern \<Rightarrow> bool" where
  "matches q (Exact r) \<longleftrightarrow> q = r"
| "matches (a, b, c, d) (Wild p1 p2 p3 p4) \<longleftrightarrow>
     part_matches p1 a \<and> part_matches p2 b \<and> part_matches p3 c \<and> part_matches p4 d"
| "matches q (Range lo hi) \<longleftrightarrow> quad_num lo \<le> quad_num q \<and> quad_num q \<le> quad_num hi"
| "matches q (Netmask r m) \<longleftrightarrow> and (quad_num q) (quad_num m) = and (quad_num r) (quad_num m)"
| "matches q (Prefix r p) \<longleftrightarrow>
     (if p = 0 then (2 ^ 31 \<le> quad_num q \<longleftrightarrow> 2 ^ 31 \<le> quad_num r)
      else quad_num q div 2 ^ (32 - p) = quad_num r div 2 ^ (32 - p))"

fun pattern_ok :: "pattern \<Rightarrow> bool" where
  "pattern_ok (Exact q) \<longleftrightarrow> quad_ok q"
| "pattern_ok (Wild a b c d) \<longleftrightarrow> part_ok a \<and> part_ok b \<and> part_ok c \<and> part_ok d \<and> None \<in> {a, b, c, d}"
| "pattern_ok (Range lo hi) \<longleftrightarrow> quad_ok lo \<and> quad_ok hi"
| "pattern_ok (Netmask q m) \<longleftrightarrow> quad_ok q \<and> quad_ok m"
| "pattern_ok (Prefix q p) \<longleftrightarrow> quad_ok q \<and> p \<le> 32"

fun gives_up :: "quad \<Rightarrow> pattern \<Rightarrow> bool" where
  "gives_up q (Netmask r m) \<longleftrightarrow> quad_num q = 0 \<or> quad_num r = 0 \<or> quad_num m = 0"
| "gives_up q (Prefix r p) \<longleftrightarrow> quad_num q = 0 \<or> quad_num r = 0"
| "gives_up q _ \<longleftrightarrow> False"

section \<open>Printed addresses\<close>

lemma fmt_d_digit: "c \<in> set (fmt_d n) \<Longrightarrow> c_isdigit c"
  using fmt_d_digits [of n] by (simp add: list_all_iff)

lemma nondigit [simp]: "\<not> c_isdigit CHR ''.''" "\<not> c_isdigit CHR ''-''" "\<not> c_isdigit CHR ''*''" "\<not> c_isdigit CHR ''/''"
  "\<not> c_isdigit CHR '' ''" "\<not> c_isdigit CHR 0x09" "\<not> c_isdigit CHR ''#''" "\<not> c_isdigit CHR '':''"
  by (simp_all add: c_isdigit_def)

lemma fmt_d_chars: "CHR ''.'' \<notin> set (fmt_d n)" "CHR ''-'' \<notin> set (fmt_d n)" "CHR ''*'' \<notin> set (fmt_d n)"
  "CHR ''/'' \<notin> set (fmt_d n)"
  by (auto dest: fmt_d_digit)

lemma fmt_d_length: "n < 256 \<Longrightarrow> 1 \<le> length (fmt_d n) \<and> length (fmt_d n) \<le> 3"
proof -
  assume n: "n < 256"
  have s: "length (fmt_d k) = 1" if "k < 10" for k using that by (simp add: fmt_d.simps [of k])
  have l: "length (fmt_d k) = (if k < 10 then 1 else Suc (length (fmt_d (k div 10))))" for k
    by (simp add: fmt_d.simps [of k])
  show ?thesis using l [of n] l [of "n div 10"] s [of "n div 10 div 10"] n by (auto split: if_splits)
qed

lemma fmt_d_inj: "fmt_d a = fmt_d b \<longleftrightarrow> a = b"
  using dec_value_fmt_d by metis

lemma atoi_fmt_d: "atoi (fmt_d n) = int n"
proof -
  obtain c cs where f: "fmt_d n = c # cs" using fmt_d_digits [of n] by (cases "fmt_d n") auto
  have d: "c_isdigit c" using fmt_d_digit [of c n] f by simp
  have b: "\<not> c_isblank c" "c \<noteq> CHR ''-''" "c \<noteq> CHR ''+''" using d by (auto simp: c_isdigit_def c_isblank_def)
  have all: "takeWhile c_isdigit (fmt_d n) = fmt_d n"
    using fmt_d_digits [of n] by (simp add: list_all_iff takeWhile_eq_all_conv)
  have "dropWhile c_isblank (fmt_d n) = fmt_d n" using f b(1) by simp
  then have "atoi (fmt_d n) = int (dec_value (takeWhile c_isdigit (fmt_d n)))"
    using f b(2,3) by (simp add: atoi_def)
  then show ?thesis by (simp add: all dec_value_fmt_d)
qed

lemma fmt_d_ne [simp]: "fmt_d n \<noteq> []"
  using fmt_d_digits by blast

lemma part_str_no_dot: "no_dot (part_str p)" "part_str p \<noteq> []"
  by (cases p; simp add: part_str_def no_dot_def fmt_d_chars)+

lemma part_str_length: "part_ok p \<Longrightarrow> 1 \<le> length (part_str p) \<and> length (part_str p) \<le> 3"
  using fmt_d_length by (cases p) (auto simp: part_str_def part_ok_def)

definition dotted :: "cstring \<Rightarrow> cstring \<Rightarrow> cstring \<Rightarrow> cstring \<Rightarrow> cstring" where
  "dotted a b c d = a @ ''.'' @ b @ ''.'' @ c @ ''.'' @ d"

lemma quad_str_dotted: "quad_str (a, b, c, d) = dotted (fmt_d a) (fmt_d b) (fmt_d c) (fmt_d d)"
  by (simp add: dotted_def)

lemma split_dotted:
  "no_dot a \<Longrightarrow> no_dot b \<Longrightarrow> no_dot c \<Longrightarrow> no_dot d \<Longrightarrow> split_dot (dotted a b c d) = [a, b, c, d]"
  by (simp add: dotted_def split_dot_append split_dot_single)

lemma fmt_no_dot: "no_dot (fmt_d n)"
  by (simp add: no_dot_def fmt_d_chars)

lemma exact_dotted:
  "no_dot a \<Longrightarrow> no_dot b \<Longrightarrow> no_dot c \<Longrightarrow> no_dot d \<Longrightarrow> list_all (\<lambda>f. 1 \<le> length f \<and> length f \<le> 3) [a, b, c, d]
   \<Longrightarrow> ipban_could_be_exact_ip_str (dotted a b c d)"
  by (simp add: ipban_could_be_exact_ip_str_def split_dotted)

lemma exact_quad: "quad_ok q \<Longrightarrow> ipban_could_be_exact_ip_str (quad_str q)"
proof (cases q)
  case (fields a b c d)
  assume "quad_ok q"
  then show ?thesis
    using fmt_d_length [of a] fmt_d_length [of b] fmt_d_length [of c] fmt_d_length [of d]
    unfolding fields quad_str_dotted by (intro exact_dotted fmt_no_dot) simp
qed

lemma fmt_d_pos: "Suc 0 \<le> length (fmt_d n)"
  by (cases "fmt_d n") auto

lemma strtok_quad: "strtok_dot (quad_str (a, b, c, d)) = [fmt_d a, fmt_d b, fmt_d c, fmt_d d]"
  unfolding quad_str_dotted strtok_dot_def by (simp add: split_dotted fmt_no_dot)

lemma quad_chars: "x \<in> set (quad_str q) \<Longrightarrow> c_isdigit x \<or> x = CHR ''.''"
  using fmt_d_digit by (cases q) auto

lemma quad_no: "CHR ''-'' \<notin> set (quad_str q)" "CHR ''*'' \<notin> set (quad_str q)" "CHR ''/'' \<notin> set (quad_str q)"
  by (auto dest: quad_chars)

lemma quad_dot: "CHR ''.'' \<in> set (quad_str q)"
  by (cases q) simp

lemma quad_length: "7 \<le> length (quad_str q)"
proof (cases q)
  case (fields a b c d)
  have "1 \<le> length (fmt_d n)" for n by (cases "fmt_d n") auto
  from this [of a] this [of b] this [of c] this [of d] show ?thesis using fields by simp
qed

lemma quad_num_less: "quad_ok q \<Longrightarrow> quad_num q < 2 ^ 32"
  by (cases q) auto

lemma quad_num_inj: "quad_ok q \<Longrightarrow> quad_ok r \<Longrightarrow> quad_str q = quad_str r \<longleftrightarrow> q = r"
proof -
  assume "quad_ok q" "quad_ok r"
  obtain a b c d a' b' c' d' where q: "q = (a, b, c, d)" "r = (a', b', c', d')" by (cases q, cases r)
  show ?thesis
  proof
    assume "quad_str q = quad_str r"
    then have "strtok_dot (quad_str q) = strtok_dot (quad_str r)" by simp
    then show "q = r" unfolding q strtok_quad by (simp add: fmt_d_inj)
  qed simp
qed

definition quad_ulong :: "quad \<Rightarrow> u64" where
  "quad_ulong q = scast (word_of_nat (quad_num q) :: u32)"

lemma c_atoi_fmt_d: "n < 256 \<Longrightarrow> c_atoi (fmt_d n) = Some (int n)"
  using c_atoi_short [of "fmt_d n"] fmt_d_length [of n] by (simp add: atoi_fmt_d)

lemma ulong_quad:
  assumes "quad_ok q"
  shows "ipban_str_to_ulong (quad_str q) = Some (quad_ulong q)"
proof (cases q)
  case (fields a b c d)
  have l: "a < 256" "b < 256" "c < 256" "d < 256" using assms fields by simp_all
  have "push_bit 24 (word_of_int (int a)) + push_bit 16 (word_of_int (int b)) + push_bit 8 (word_of_int (int c))
      + word_of_int (int d) = (word_of_nat (quad_num q) :: u32)"
    unfolding fields by (simp add: push_bit_eq_mult)
  then show ?thesis unfolding fields ipban_str_to_ulong_def strtok_quad list.case c_atoi_fmt_d [OF l(1)] c_atoi_fmt_d [OF l(2)]
      c_atoi_fmt_d [OF l(3)] c_atoi_fmt_d [OF l(4)] quad_ulong_def bind.bind_lunit
    by (simp only:)
qed

section \<open>Parsing a printed pattern\<close>

fun entry_of :: "pattern \<Rightarrow> t_ipban_entry" where
  "entry_of (Exact q) = plain_entry ipban_type_exact (quad_str q) None"
| "entry_of (Wild a b c d) = \<lparr>info1 = Some (part_str a), info2 = Some (part_str b), info3 = Some (part_str c),
     info4 = Some (part_str d), ban_type = ipban_type_wildcard, endtime = 0\<rparr>"
| "entry_of (Range lo hi) = plain_entry ipban_type_range (quad_str lo) (Some (quad_str hi))"
| "entry_of (Netmask q m) = plain_entry ipban_type_netmask (quad_str q) (Some (quad_str m))"
| "entry_of (Prefix q p) = plain_entry ipban_type_prefix (quad_str q) (Some (fmt_d p))"

lemma strchr_cut_at: "c \<notin> set a \<Longrightarrow> strchr_cut c (a @ c # b) = Some (a, b)"
  by (induction a) (auto simp: strchr_cut_def)

abbreviation ip_char :: "char \<Rightarrow> bool" where
  "ip_char c \<equiv> c_isdigit c \<or> c = CHR ''.'' \<or> c = CHR ''*'' \<or> c = CHR ''/'' \<or> c = CHR ''-''"

lemma quad_ip_chars: "list_all ip_char (quad_str q)"
  using quad_chars [of _ q] by (auto simp: list_all_iff)

lemma fmt_ip_chars: "list_all ip_char (fmt_d n)"
  using fmt_d_digit [of _ n] by (auto simp: list_all_iff)

lemma part_ip_chars: "list_all ip_char (part_str p)"
  by (cases p) (simp_all add: part_str_def fmt_ip_chars)

lemma part_no: "CHR ''-'' \<notin> set (part_str p)" "CHR ''/'' \<notin> set (part_str p)"
  by (cases p; simp add: part_str_def fmt_d_chars)+

lemma wild_dotted: "pattern_str (Wild a b c d) = dotted (part_str a) (part_str b) (part_str c) (part_str d)"
  by (simp add: dotted_def)

lemma dotted_sets: "set (dotted a b c d) = set a \<union> set b \<union> set c \<union> set d \<union> {CHR ''.''}"
  by (auto simp: dotted_def)

lemma dotted_length: "a \<noteq> [] \<Longrightarrow> b \<noteq> [] \<Longrightarrow> c \<noteq> [] \<Longrightarrow> d \<noteq> [] \<Longrightarrow> 7 \<le> length (dotted a b c d)"
  by (cases a; cases b; cases c; cases d) (simp_all add: dotted_def)

lemma parse_pattern:
  assumes "pattern_ok p"
  shows "ipban_str_to_ipban_entry (Some (pattern_str p)) = Some (Some (entry_of p))"
proof (cases p)
  case (Exact q)
  have l: "\<not> length (quad_str q) < 7" "quad_str q \<noteq> []" using quad_length [of q] by auto
  show ?thesis using assms l quad_no [of q] quad_ip_chars [of q] exact_quad [of q] unfolding Exact
    by (simp add: ipban_str_to_ipban_entry_def split_pattern_def ipban_could_be_ip_str_def strchr_cut_def)
next
  case (Wild a b c d)
  let ?s = "dotted (part_str a) (part_str b) (part_str c) (part_str d)"
  have l: "\<not> length ?s < 7" "?s \<noteq> []" using dotted_length [of "part_str a" "part_str b" "part_str c" "part_str d"] part_str_no_dot(2)
    by (auto simp: not_less dotted_def)
  have no: "CHR ''-'' \<notin> set ?s" "CHR ''/'' \<notin> set ?s" unfolding dotted_sets by (auto simp: part_no)
  have star: "CHR ''*'' \<in> set ?s" unfolding dotted_sets using assms Wild by (auto simp: part_str_def)
  have chars: "list_all ip_char ?s"
    using part_ip_chars [of a] part_ip_chars [of b] part_ip_chars [of c] part_ip_chars [of d] by (simp add: dotted_def)
  have ex: "ipban_could_be_exact_ip_str ?s"
    using assms Wild part_str_length by (intro exact_dotted part_str_no_dot(1)) auto
  have tok: "strtok_dot ?s = [part_str a, part_str b, part_str c, part_str d]"
    unfolding strtok_dot_def by (simp add: split_dotted part_str_no_dot)
  have c: "ipban_could_be_ip_str ?s = Some True"
    using l no star chars ex by (simp add: ipban_could_be_ip_str_def strchr_cut_def)
  show ?thesis unfolding Wild wild_dotted using l c no star tok
    by (simp add: ipban_str_to_ipban_entry_def split_pattern_def strchr_cut_def)
next
  case (Range lo hi)
  let ?s = "quad_str lo @ CHR ''-'' # quad_str hi"
  have cut: "strchr_cut (CHR ''-'') ?s = Some (quad_str lo, quad_str hi)" by (rule strchr_cut_at [OF quad_no(1)])
  have c: "ipban_could_be_ip_str ?s = Some True"
    using assms Range quad_length [of lo] quad_ip_chars [of lo] quad_ip_chars [of hi] exact_quad cut
    by (simp add: ipban_could_be_ip_str_def)
  show ?thesis unfolding Range using c cut by (simp add: ipban_str_to_ipban_entry_def split_pattern_def)
next
  case (Netmask q m)
  let ?s = "quad_str q @ CHR ''/'' # quad_str m"
  have cut: "strchr_cut (CHR ''/'') ?s = Some (quad_str q, quad_str m)" by (rule strchr_cut_at [OF quad_no(3)])
  have no: "strchr_cut (CHR ''-'') ?s = None" "strchr_cut (CHR ''*'') ?s = None"
    using quad_no [of q] quad_no [of m] by (simp_all add: strchr_cut_None)
  have c: "ipban_could_be_ip_str ?s = Some True"
    using assms Netmask quad_length [of q] quad_ip_chars [of q] quad_ip_chars [of m] exact_quad cut no quad_dot
    by (simp add: ipban_could_be_ip_str_def)
  show ?thesis unfolding Netmask using c cut no(1) no(2) [unfolded strchr_cut_None] quad_dot
    by (simp add: ipban_str_to_ipban_entry_def split_pattern_def)
next
  case (Prefix q n)
  let ?s = "quad_str q @ CHR ''/'' # fmt_d n"
  have cut: "strchr_cut (CHR ''/'') ?s = Some (quad_str q, fmt_d n)" by (rule strchr_cut_at [OF quad_no(3)])
  have no: "strchr_cut (CHR ''-'') ?s = None" "strchr_cut (CHR ''*'') ?s = None"
    using quad_no [of q] fmt_d_chars [of n] by (simp_all add: strchr_cut_None)
  have bl: "list_all c_isdigit (butlast (fmt_d n))" using fmt_d_digit [of _ n] by (auto simp: list_all_iff dest: in_set_butlastD)
  have c: "ipban_could_be_ip_str ?s = Some True"
    using assms Prefix quad_length [of q] quad_ip_chars [of q] fmt_ip_chars [of n] exact_quad cut no fmt_d_chars(1) bl c_atoi_fmt_d [of n]
    by (simp add: ipban_could_be_ip_str_def)
  show ?thesis unfolding Prefix using c cut no(1) no(2) [unfolded strchr_cut_None] fmt_d_chars(1)
    by (simp add: ipban_str_to_ipban_entry_def split_pattern_def)
qed

section \<open>Comparing addresses as \<open>unsigned long\<close>\<close>

lemma bit_scast: "bit (scast (w :: u32) :: u64) n \<longleftrightarrow> n < 64 \<and> bit w (min n 31)"
  by (auto simp: bit_simps min_def)

lemma scast_inj: "(scast (v :: u32) :: u64) = scast w \<longleftrightarrow> v = w"
proof
  assume e: "(scast v :: u64) = scast w"
  show "v = w"
  proof (rule bit_word_eqI)
    fix n assume "n < LENGTH(32)"
    then show "bit v n \<longleftrightarrow> bit w n" using arg_cong [OF e, of "\<lambda>x. bit x n"] by (simp add: bit_scast min_def)
  qed
qed simp

lemma scast_and: "(scast (v :: u32) :: u64) AND scast w = scast (v AND w)"
  by (rule bit_word_eqI) (simp add: bit_scast bit_and_iff)

lemma scast_drop:
  assumes "n < 32"
  shows "drop_bit n (scast (v :: u32) :: u64) = drop_bit n (scast w) \<longleftrightarrow> drop_bit n v = drop_bit n w"
proof
  assume e: "drop_bit n (scast v :: u64) = drop_bit n (scast w)"
  show "drop_bit n v = drop_bit n w"
  proof (rule bit_word_eqI)
    fix k assume k: "k < LENGTH(32)"
    show "bit (drop_bit n v) k \<longleftrightarrow> bit (drop_bit n w) k"
    proof (cases "n + k < 32")
      case True
      then show ?thesis using arg_cong [OF e, of "\<lambda>x. bit x k"] by (simp add: bit_drop_bit_eq bit_scast min_def)
    next
      case False
      then show ?thesis by (auto simp: bit_drop_bit_eq dest: bit_imp_le_length)
    qed
  qed
next
  assume e: "drop_bit n v = drop_bit n w"
  have b: "bit v k \<longleftrightarrow> bit w k" if "n \<le> k" for k
    using arg_cong [OF e, of "\<lambda>x. bit x (k - n)"] that by (simp add: bit_drop_bit_eq)
  show "drop_bit n (scast v :: u64) = drop_bit n (scast w)"
    by (rule bit_word_eqI) (use assms in \<open>auto simp: bit_drop_bit_eq bit_scast b\<close>)
qed

lemma uint_scast: "uint (scast (w :: u32) :: u64) = uint w + (if uint w < 2 ^ 31 then 0 else 2 ^ 64 - 2 ^ 32)"
proof -
  have s: "sint w = (if uint w < 2 ^ 31 then uint w else uint w - 2 ^ 32)"
  proof (cases "uint w < 2 ^ 31")
    case True
    then show ?thesis using uint_ge_0 [of w] by (simp add: sint_uint signed_take_bit_eq_take_bit_shift take_bit_eq_mod)
  next
    case False
    have "(uint w + 2 ^ 31) mod 2 ^ 32 = (uint w + 2 ^ 31 - 2 ^ 32) mod 2 ^ 32" by (simp only: minus_mod_self2)
    also have "\<dots> = uint w + 2 ^ 31 - 2 ^ 32" using False uint_lt2p [of w] by (intro mod_pos_pos_trivial) simp_all
    finally show ?thesis using False by (simp add: sint_uint signed_take_bit_eq_take_bit_shift take_bit_eq_mod)
  qed
  have e: "uint (scast w :: u64) = sint w mod 2 ^ 64" by (simp only: scast_eq uint_word_of_int) simp
  show ?thesis
  proof (cases "uint w < 2 ^ 31")
    case True
    then have "sint w mod 2 ^ 64 = uint w" unfolding s using uint_ge_0 [of w] by (simp add: mod_pos_pos_trivial)
    then show ?thesis unfolding e using True by simp
  next
    case False
    have "(uint w - 2 ^ 32) mod 2 ^ 64 = (uint w - 2 ^ 32 + 2 ^ 64) mod (2 ^ 64 :: int)" by (simp only: mod_add_self2)
    also have "\<dots> = uint w - 2 ^ 32 + 2 ^ 64" using False uint_lt2p [of w] by (intro mod_pos_pos_trivial) simp_all
    finally show ?thesis unfolding e using False s by simp
  qed
qed

lemma scast_le: "(scast (v :: u32) :: u64) \<le> scast w \<longleftrightarrow> v \<le> w"
  unfolding word_le_def uint_scast using uint_lt2p [of v] uint_lt2p [of w] uint_ge_0 [of v] uint_ge_0 [of w] by auto

abbreviation quad_word :: "quad \<Rightarrow> u32" where
  "quad_word q \<equiv> word_of_nat (quad_num q)"

lemma unat_quad: "quad_ok q \<Longrightarrow> unat (quad_word q) = quad_num q"
  using quad_num_less [of q] by (simp add: unsigned_of_nat take_bit_nat_eq_self)

lemma quad_ulong_zero: "quad_ok q \<Longrightarrow> quad_ulong q = 0 \<longleftrightarrow> quad_num q = 0"
proof -
  assume ok: "quad_ok q"
  have "quad_ulong q = 0 \<longleftrightarrow> quad_word q = 0"
    unfolding quad_ulong_def using scast_inj [of "quad_word q" 0] by simp
  also have "\<dots> \<longleftrightarrow> quad_num q = 0" using unat_quad [OF ok] by (metis unat_0 unsigned_word_eqI)
  finally show ?thesis .
qed

lemma quad_ulong_le: "quad_ok q \<Longrightarrow> quad_ok r \<Longrightarrow> quad_ulong q \<le> quad_ulong r \<longleftrightarrow> quad_num q \<le> quad_num r"
  by (simp only: quad_ulong_def scast_le) (simp only: word_le_nat_alt unat_quad)

lemma quad_ulong_and:
  assumes "quad_ok q" "quad_ok r" "quad_ok m"
  shows "quad_ulong q AND quad_ulong m = quad_ulong r AND quad_ulong m
    \<longleftrightarrow> and (quad_num q) (quad_num m) = and (quad_num r) (quad_num m)"
proof -
  have "quad_ulong q AND quad_ulong m = quad_ulong r AND quad_ulong m
      \<longleftrightarrow> unat (quad_word q AND quad_word m) = unat (quad_word r AND quad_word m)"
    unfolding quad_ulong_def scast_and scast_inj by (simp add: word_unat_eq_iff)
  then show ?thesis using assms by (simp only: unsigned_and_eq unat_quad)
qed

lemma quad_ulong_drop:
  assumes "quad_ok q" "quad_ok r" "n < 32"
  shows "drop_bit n (quad_ulong q) = drop_bit n (quad_ulong r) \<longleftrightarrow> quad_num q div 2 ^ n = quad_num r div 2 ^ n"
proof -
  have "drop_bit n (quad_ulong q) = drop_bit n (quad_ulong r)
      \<longleftrightarrow> unat (drop_bit n (quad_word q)) = unat (drop_bit n (quad_word r))"
    unfolding quad_ulong_def scast_drop [OF assms(3)] by (simp add: word_unat_eq_iff)
  then show ?thesis using assms by (simp only: unat_drop_bit_eq unat_quad) (simp only: drop_bit_eq_div)
qed

section \<open>A check is the first match\<close>

abbreviation quad_parts :: "quad \<Rightarrow> cstring \<times> cstring \<times> cstring \<times> cstring" where
  "quad_parts q \<equiv> (case q of (a, b, c, d) \<Rightarrow> (fmt_d a, fmt_d b, fmt_d c, fmt_d d))"

lemma part_differs_str: "part_differs (fmt_d n) (Some (part_str p)) = Some (\<not> part_matches p n)"
proof -
  have "fmt_d k \<noteq> ''*''" for k using fmt_d_chars(3) [of k] by auto
  then show ?thesis by (cases p) (auto simp: part_differs_def part_str_def part_matches_def fmt_d_inj)
qed

lemma quad_ulong_half:
  assumes "quad_ok q" "quad_ok r"
  shows "drop_bit 32 (quad_ulong q) = drop_bit 32 (quad_ulong r) \<longleftrightarrow> (2 ^ 31 \<le> quad_num q \<longleftrightarrow> 2 ^ 31 \<le> quad_num r)"
proof -
  have u: "uint (drop_bit 32 (quad_ulong x)) = (if quad_num x < 2 ^ 31 then 0 else 2 ^ 32 - 1)" if "quad_ok x" for x
  proof -
    have n: "quad_num x < 2 ^ 32" by (rule quad_num_less [OF that])
    then have w: "uint (quad_word x) = int (quad_num x)" by (simp add: unsigned_of_nat take_bit_nat_eq_self)
    have "unat (drop_bit 32 (quad_ulong x)) = unat (quad_ulong x) div 2 ^ 32"
      by (simp only: unat_drop_bit_eq) (simp only: drop_bit_eq_div)
    then have "int (unat (drop_bit 32 (quad_ulong x))) = int (unat (quad_ulong x)) div 2 ^ 32" by (simp only: zdiv_int of_nat_power of_nat_numeral)
    then have "uint (drop_bit 32 (quad_ulong x)) = uint (quad_ulong x) div 2 ^ 32" by (simp only: int_nat_eq uint_nat)
    also have "uint (quad_ulong x) = int (quad_num x) + (if int (quad_num x) < 2 ^ 31 then 0 else 2 ^ 64 - 2 ^ 32)"
      unfolding quad_ulong_def uint_scast w ..
    also have "\<dots> div 2 ^ 32 = (if quad_num x < 2 ^ 31 then 0 else 2 ^ 32 - 1)"
    proof (cases "quad_num x < 2 ^ 31")
      case True
      then show ?thesis by (simp add: div_pos_pos_trivial)
    next
      case False
      have "(2 :: int) ^ 64 - 2 ^ 32 = (2 ^ 32 - 1) * 2 ^ 32" by simp
      then have "(int (quad_num x) + (2 ^ 64 - 2 ^ 32)) div 2 ^ 32 = 2 ^ 32 - 1 + int (quad_num x) div 2 ^ 32"
        by (simp only:) (rule div_mult_self1, simp)
      moreover have "int (quad_num x) div 2 ^ 32 = 0" using n by (simp add: div_pos_pos_trivial)
      ultimately show ?thesis using False by simp
    qed
    finally show ?thesis .
  qed
  show ?thesis unfolding word_uint_eq_iff u [OF assms(1)] u [OF assms(2)] by auto
qed

lemma check_entry_pattern:
  assumes q: "quad_ok q" and p: "pattern_ok p"
  shows "check_entry (quad_str q) (quad_parts q) ((entry_of p)\<lparr>endtime := t\<rparr>)
    = Some (if gives_up q p then Inl (-1) else Inr (matches q p))"
proof (cases p)
  case (Exact r)
  then show ?thesis using q p quad_num_inj [of r q] by (cases q) (auto simp: check_entry_def plain_entry_def)
next
  case (Wild a b c d)
  then show ?thesis by (cases q) (simp add: check_entry_def part_differs_str)
next
  case (Range lo hi)
  then show ?thesis using q p by (cases q) (simp add: check_entry_def plain_entry_def ulong_quad quad_ulong_le del: quad_str.simps quad_num.simps quad_ok.simps)
next
  case (Netmask r m)
  then show ?thesis using q p
    by (cases q) (simp add: check_entry_def plain_entry_def ulong_quad quad_ulong_zero quad_ulong_and
        del: quad_str.simps quad_num.simps quad_ok.simps)
next
  case (Prefix r n)
  then have n: "n \<le> 32" "quad_ok r" using p by simp_all
  show ?thesis
  proof (cases "n = 0")
    case True
    then show ?thesis using Prefix q n quad_ulong_half [OF q n(2)]
      by (cases q) (simp add: check_entry_def plain_entry_def ulong_quad quad_ulong_zero c_atoi_fmt_d
        del: quad_str.simps quad_num.simps quad_ok.simps)
  next
    case False
    then show ?thesis using Prefix q n
      by (cases q) (simp add: check_entry_def plain_entry_def ulong_quad quad_ulong_zero quad_ulong_drop c_atoi_fmt_d nat_diff_distrib
        del: quad_str.simps quad_num.simps quad_ok.simps)
  qed
qed

text \<open>The position, from 1, of the first pattern that matches; 0 when none does; -1 when the check gives up before.\<close>

fun first_match :: "quad \<Rightarrow> pattern list \<Rightarrow> int \<Rightarrow> int" where
  "first_match q [] n = 0"
| "first_match q (p # ps) n = (if gives_up q p then -1 else if matches q p then n + 1 else first_match q ps (n + 1))"

definition ban_entry :: "pattern \<times> int \<Rightarrow> t_ipban_entry" where
  "ban_entry b = (entry_of (fst b))\<lparr>endtime := snd b\<rparr>"

lemma check_loop_pattern:
  "quad_ok q \<Longrightarrow> \<forall>b \<in> set bs. pattern_ok (fst b) \<Longrightarrow>
   check_loop (quad_str q) (quad_parts q) (map ban_entry bs) n = Some (first_match q (map fst bs) n)"
  by (induction bs arbitrary: n)
    (simp_all add: check_entry_pattern ban_entry_def del: quad_num.simps quad_str.simps split: prod.split)

text \<open>Adding bans one after the other, as the ban file and the command do.\<close>

fun add_bans :: "(nat \<Rightarrow> cstring) \<Rightarrow> int \<Rightarrow> nat option \<Rightarrow> (pattern \<times> int) list \<Rightarrow> ipban_state \<Rightarrow> ipban_state option" where
  "add_bans username now c [] s = Some s"
| "add_bans username now c (b # bs) s = do {
     (r, s1) \<leftarrow> ipbanlist_add username now c (pattern_str (fst b)) (snd b) s;
     add_bans username now c bs s1 }"

lemma add_ban:
  "pattern_ok (fst b) \<Longrightarrow> ipbanlist_add username now c (pattern_str (fst b)) (snd b) s = Some (r, s1) \<Longrightarrow>
   banlist s1 = banlist s @ [ban_entry b] \<and> lastchecktime s1 = lastchecktime s"
  by (cases c) (auto simp: ipbanlist_add_def parse_pattern ban_entry_def Let_def bind_eq_Some_conv split: if_splits)

lemma add_bans_list:
  "\<forall>b \<in> set bs. pattern_ok (fst b) \<Longrightarrow> add_bans username now c bs s = Some s1 \<Longrightarrow>
   banlist s1 = banlist s @ map ban_entry bs \<and> lastchecktime s1 = lastchecktime s"
  by (induction bs arbitrary: s) (auto simp: bind_eq_Some_conv dest!: add_ban)

text \<open>The file never makes \<open>ipbanlist_add\<close> print; the command does, with names of at most 158 characters.\<close>

lemma pattern_length:
  assumes "pattern_ok p"
  shows "length (pattern_str p) \<le> 31"
proof -
  have f: "length (fmt_d n) \<le> 3" if "n < 256" for n using fmt_d_length [OF that] by simp
  have q: "length (quad_str q) \<le> 15" if "quad_ok q" for q
  proof (cases q)
    case (fields a b c d)
    then show ?thesis using that f [of a] f [of b] f [of c] f [of d] by simp
  qed
  have s: "length (part_str x) \<le> 3" if "part_ok x" for x using part_str_length [OF that] by simp
  show ?thesis
  proof (cases p)
    case (Exact r)
    then show ?thesis using assms q [of r] by simp
  next
    case (Wild a b c d)
    then show ?thesis using assms s [of a] s [of b] s [of c] s [of d] by simp
  next
    case (Range lo hi)
    then show ?thesis using assms q [of lo] q [of hi] by simp
  next
    case (Netmask r m)
    then show ?thesis using assms q [of r] q [of m] by simp
  next
    case (Prefix r n)
    then show ?thesis using assms q [of r] f [of n] by simp
  qed
qed

lemma add_bans_total:
  assumes "\<And>cn. c = Some cn \<Longrightarrow> length (username cn) \<le> 158"
  shows "\<forall>b \<in> set bs. pattern_ok (fst b) \<Longrightarrow> \<exists>s1. add_bans username now c bs s = Some s1"
proof (induction bs arbitrary: s)
  case (Cons b bs)
  have fits: "into_buf MAX_MESSAGE_LEN x = Some x" if "length x \<le> 254" for x
    using that by (simp add: into_buf_def MAX_MESSAGE_LEN_def)
  have l: "length (pattern_str (fst b)) \<le> 31" using pattern_length Cons.prems by simp
  have "\<exists>r s1. ipbanlist_add username now c (pattern_str (fst b)) (snd b) s = Some (r, s1)"
  proof (cases c)
    case (Some cn)
    then have "length (username cn) \<le> 158" using assms by simp
    then have "length (pattern_str (fst b) @ '' banned permamently by '' @ username cn @ ''.'') \<le> 254"
      "length (pattern_str (fst b) @ '' banned permamently.'') \<le> 254"
      "length (pattern_str (fst b) @ '' banned for '' @ take 48 d @ '' by '' @ username cn @ ''.'') \<le> 254"
      "length (pattern_str (fst b) @ '' banned for '' @ take 48 d @ ''.'') \<le> 254" for d using l by simp_all
    note m = this [THEN fits]
    show ?thesis using Some Cons.prems
      by (cases "snd b = 0") (simp_all add: ipbanlist_add_def Let_def parse_pattern m del: append_Cons append_Nil append.simps)
  qed (use Cons.prems in \<open>simp add: ipbanlist_add_def parse_pattern\<close>)
  then show ?case using Cons by (force simp: bind_eq_Some_conv)
qed simp

definition live :: "int \<Rightarrow> pattern \<times> int \<Rightarrow> bool" where
  "live now b \<longleftrightarrow> snd b = 0 \<or> now < snd b"

lemma expired_live: "expired now (ban_entry b) \<longleftrightarrow> \<not> live now b"
  by (auto simp: expired_def live_def ban_entry_def)

section \<open>The ban file\<close>

lemma pattern_chars: "list_all ip_char (pattern_str p)"
  by (cases p) (simp_all add: quad_ip_chars part_ip_chars fmt_ip_chars)

lemma pattern_ne: "pattern_str p \<noteq> []"
  using quad_length by (cases p) (auto simp: part_str_no_dot)

lemma ip_char_not_blank: "ip_char c \<Longrightarrow> \<not> is_blank c \<and> c \<noteq> CHR ''#''"
  by (auto simp: is_blank_def c_isdigit_def)

lemma trim_right: "x \<noteq> [] \<Longrightarrow> list_all (\<lambda>c. \<not> is_blank c) x \<Longrightarrow> rev (dropWhile is_blank (rev (y @ x))) = y @ x"
  by (cases x rule: rev_cases) auto

lemma load_line_plain:
  assumes "x \<noteq> []" "list_all ip_char x"
  shows "load_line now x s = map_option snd (ipbanlist_add (\<lambda>_. []) now None x 0 s)"
proof -
  have b: "list_all (\<lambda>c. \<not> is_blank c) x" using assms(2) ip_char_not_blank by (auto simp: list_all_iff)
  obtain c cs where x: "x = c # cs" using assms(1) by (cases x) auto
  have h: "dropWhile is_blank x = x" "hd x \<noteq> CHR ''#''" using b assms(2) ip_char_not_blank [of c] by (auto simp: x)
  have tw: "takeWhile (\<lambda>c. \<not> is_blank c) x = x" and ex: "\<not> list_ex is_blank x"
    using b by (auto simp: list_all_iff list_ex_iff takeWhile_eq_all_conv)
  have tr: "rev (dropWhile is_blank (rev x)) = x" using trim_right [OF assms(1) b, of "[]"] by simp
  show ?thesis unfolding load_line_def Let_def h(1) tr tw using assms(1) h(2) ex by simp
qed

lemma load_line_timed:
  assumes "x \<noteq> []" "list_all ip_char x" "n < 2 ^ 32"
  shows "load_line now (x @ '' '' @ fmt_d n) s = map_option snd (ipbanlist_add (\<lambda>_. []) now None x (int n) s)"
proof -
  have b: "list_all (\<lambda>c. \<not> is_blank c) x" using assms(2) ip_char_not_blank by (auto simp: list_all_iff)
  have d: "list_all (\<lambda>c. \<not> is_blank c) (fmt_d n)"
    using fmt_d_digits [of n] by (auto simp: list_all_iff is_blank_def c_isdigit_def)
  obtain c cs where x: "x = c # cs" using assms(1) by (cases x) auto
  let ?l = "x @ '' '' @ fmt_d n"
  have h: "dropWhile is_blank ?l = ?l" "hd ?l \<noteq> CHR ''#''" using b assms(2) ip_char_not_blank [of c] by (auto simp: x)
  have sp: "is_blank CHR '' ''" by (simp add: is_blank_def)
  have tw: "takeWhile (\<lambda>c. \<not> is_blank c) ?l = x" "dropWhile (\<lambda>c. \<not> is_blank c) ?l = '' '' @ fmt_d n"
    using b sp by (auto simp: list_all_iff takeWhile_append dropWhile_append)
  have dd: "dropWhile is_blank ('' '' @ fmt_d n) = fmt_d n"
    using d sp by (cases "fmt_d n") auto
  have tr: "rev (dropWhile is_blank (rev ?l)) = ?l" using trim_right [OF fmt_d_ne d, of "x @ '' ''"] by simp
  have clock: "clock_loop (fmt_d n) [] 0 = Some (of_nat n)"
    using clock_loop_digits [of "fmt_d n" "[]" "[]" 0] fmt_d_digits [of n] strtoul10_fmt_d [of n] assms(3) by simp
  have v: "uint (word_of_nat n :: u32) = int n"
    using assms(3) by (simp add: unsigned_of_nat take_bit_nat_eq_self)
  have "?l \<noteq> []" using assms(1) by simp
  then have "load_line now ?l s = map_option snd (ipbanlist_add (\<lambda>_. []) now None x
      (case clockstr_to_seconds (Some (fmt_d n)) (Some 0) of (r, Some v) \<Rightarrow> if r < 0 then 0 else uint v | _ \<Rightarrow> 0) s)"
    unfolding load_line_def Let_def h(1) tr tw dd using h(2) sp by simp
  then show ?thesis by (simp add: clockstr_to_seconds_def clock v)
qed

lemma entry_to_str_pattern:
  assumes "pattern_ok (fst b)"
  shows "ipban_entry_to_str (ban_entry b) = Some (pattern_str (fst b))"
proof -
  have "into_buf MAX_MESSAGE_LEN (pattern_str (fst b)) = Some (pattern_str (fst b))"
    using pattern_length [OF assms] by (simp add: into_buf_def MAX_MESSAGE_LEN_def)
  then show ?thesis by (cases b; cases "fst b") (simp_all add: ban_entry_def ipban_entry_to_str_def plain_entry_def)
qed

definition ban_line :: "pattern \<times> int \<Rightarrow> cstring" where
  "ban_line b = (if snd b = 0 then pattern_str (fst b) else pattern_str (fst b) @ '' '' @ fmt_d (nat (snd b)))"

lemma fmt_ld_nat: "0 \<le> t \<Longrightarrow> t < 2 ^ 32 \<Longrightarrow> fmt_ld t = fmt_d (nat t)"
proof -
  assume t: "0 \<le> t" "t < 2 ^ 32"
  have "sint (word_of_int t :: u64) = t"
    using t by (simp add: sint_sbintrunc' signed_take_bit_int_eq_self)
  then show ?thesis using t by (simp add: fmt_ld_def fmt_int_def)
qed

lemma save_lines_bans:
  "\<forall>b \<in> set bs. pattern_ok (fst b) \<and> 0 \<le> snd b \<and> snd b < 2 ^ 32 \<Longrightarrow> save_lines (map ban_entry bs) = Some (map ban_line bs)"
proof (induction bs)
  case (Cons b bs)
  have b: "pattern_ok (fst b)" "0 \<le> snd b" "snd b < 2 ^ 32" using Cons.prems by simp_all
  have "length (ban_line b @ [CHR 0x0A]) < 1024"
    using pattern_length [OF b(1)] fmt_ld_length [of "snd b"] fmt_ld_nat [OF b(2,3)] by (simp add: ban_line_def)
  then have "into_buf 1024 (ban_line b @ [CHR 0x0A]) = Some (ban_line b @ [CHR 0x0A])" by (simp only: into_buf_def if_True)
  moreover have "endtime (ban_entry b) = snd b" by (simp add: ban_entry_def)
  moreover have "(if snd b = 0 then pattern_str (fst b) else pattern_str (fst b) @ '' '' @ fmt_d (nat (snd b))) = ban_line b"
    by (simp add: ban_line_def)
  moreover have "butlast (ban_line b @ [CHR 0x0A]) = ban_line b" by simp
  moreover have "save_lines (map ban_entry bs) = Some (map ban_line bs)" using Cons by simp
  ultimately show ?case using entry_to_str_pattern [OF b(1)] fmt_ld_nat [OF b(2,3)]
    by (simp only: list.map save_lines.simps bind.bind_lunit)
qed simp

lemma load_ban_line:
  assumes "pattern_ok (fst b)" "0 \<le> snd b" "snd b < 2 ^ 32"
  shows "\<exists>s1. load_line now (ban_line b) s = Some s1 \<and> banlist s1 = banlist s @ [ban_entry b]"
proof -
  have "load_line now (ban_line b) s = map_option snd (ipbanlist_add (\<lambda>_. []) now None (pattern_str (fst b)) (snd b) s)"
    using load_line_plain [OF pattern_ne pattern_chars, of now "fst b" s]
      load_line_timed [OF pattern_ne pattern_chars, of "nat (snd b)" now "fst b" s] assms(2,3)
    by (simp add: ban_line_def)
  then show ?thesis using assms(1) by (simp add: ipbanlist_add_def parse_pattern ban_entry_def)
qed

lemma load_ban_lines:
  "\<forall>b \<in> set bs. pattern_ok (fst b) \<and> 0 \<le> snd b \<and> snd b < 2 ^ 32 \<Longrightarrow>
   \<exists>s1. ipbanlist_load now (map ban_line bs) s = Some s1 \<and> banlist s1 = banlist s @ map ban_entry bs"
proof (induction bs arbitrary: s)
  case (Cons b bs)
  then obtain s1 where "load_line now (ban_line b) s = Some s1" "banlist s1 = banlist s @ [ban_entry b]"
    using load_ban_line [of b now s] by auto
  then show ?case using Cons.IH [of s1] Cons.prems by auto
qed simp

section \<open>The server's use of the list\<close>

text \<open>The lines of a ban file the arrays of the program have room for.\<close>

definition line_ok :: "cstring \<Rightarrow> bool" where
  "line_ok l \<longleftrightarrow> short_runs l \<and> length l \<le> 190"

lemma load_line_total:
  assumes "ban_wf s" and "line_ok l"
  shows "\<exists>s'. load_line now l s = Some s' \<and> ban_wf s'"
proof -
  let ?ip = "dropWhile is_blank l"
  let ?tr = "rev (dropWhile is_blank (rev ?ip))" let ?first = "takeWhile (\<lambda>c. \<not> is_blank c) ?tr"
  have "sublist ?tr ?ip" using sublist_rev_right [of "dropWhile is_blank (rev ?ip)" ?ip] dropWhile_sublist [of is_blank "rev ?ip"]
    by (simp add: sublist_rev_left)
  then have f: "sublist ?first l" using takeWhile_sublist dropWhile_sublist sublist_order.order_trans by blast
  then have sr: "short_runs ?first" and len: "length ?first \<le> 190"
    using short_runs_sublist assms(2) sublist_length_le [OF f] by (auto simp: line_ok_def)
  have "\<exists>r s'. ipbanlist_add (\<lambda>_. []) now None ?first t s = Some (r, s') \<and> ban_wf s'" for t
    by (rule add_total [OF assms(1) sr len]) simp
  then have "\<exists>s'. map_option snd (ipbanlist_add (\<lambda>_. []) now None ?first t s) = Some s' \<and> ban_wf s'" for t by force
  then show ?thesis using assms(1) by (simp add: load_line_def Let_def)
qed

lemma load_total: "ban_wf s \<Longrightarrow> list_all line_ok ls \<Longrightarrow> \<exists>s'. ipbanlist_load now ls s = Some s' \<and> ban_wf s'"
proof (induction ls arbitrary: s)
  case (Cons l ls)
  then obtain s1 where "load_line now l s = Some s1" "ban_wf s1" using load_line_total [of s l now] by auto
  then show ?case using Cons by simp
qed simp

text \<open>
  Reachable states of the list: it starts empty, the file is read in, commands and checks follow; a
  reload of the configuration empties the list and reads the file again. The strings are bounded as in
  the theorem below.
\<close>

inductive ban_step :: "(nat \<Rightarrow> cstring) \<Rightarrow> ipban_state \<Rightarrow> ipban_state \<Rightarrow> bool" for username where
  load: "list_all line_ok ls \<Longrightarrow> ipbanlist_load now ls s = Some s' \<Longrightarrow> ban_step username s s'"
| add: "line_ok cp \<Longrightarrow> ipbanlist_add username now None cp t s = Some (r, s') \<Longrightarrow> ban_step username s s'"
| check: "short_runs ip \<Longrightarrow> ipbanlist_check now check_int (Some ip) s = Some (r, s') \<Longrightarrow> ban_step username s s'"
| reload: "list_all line_ok ls \<Longrightarrow> ipbanlist_load now ls (ipbanlist_destroy s) = Some s' \<Longrightarrow> ban_step username s s'"
| unload: "ipbanlist_unload_expired now s = Some s' \<Longrightarrow> ban_step username s s'"
| save: "ipbanlist_save s = Some s' \<Longrightarrow> ban_step username s s'"
| command: "short_runs line \<Longrightarrow> length (username c) \<le> 158 \<Longrightarrow>
    handle_ipban_command username now check_int c line s = Some s' \<Longrightarrow> ban_step username s s'"

inductive ban_reachable :: "(nat \<Rightarrow> cstring) \<Rightarrow> ipban_state \<Rightarrow> bool" for username where
  start: "ban_reachable username no_bans"
| step: "ban_reachable username s \<Longrightarrow> ban_step username s s' \<Longrightarrow> ban_reachable username s'"

lemma destroy_wf: "ban_wf (ipbanlist_destroy s)"
  by (simp add: ipbanlist_destroy_def ban_wf_def)

lemma step_wf: "ban_step username s s' \<Longrightarrow> ban_wf s \<Longrightarrow> ban_wf s'"
proof (induction rule: ban_step.induct)
  case (load ls now s s')
  then show ?case using load_total [of s ls now] by auto
next
  case (add cp now t s r s')
  then show ?case using add_total [of s cp None username now t] by (auto simp: line_ok_def)
next
  case (check ip now check_int s r s')
  then show ?case using check_total [of s "Some ip" now check_int] by auto
next
  case (reload ls now s s')
  then show ?case using load_total [OF destroy_wf, of ls now s] by auto
next
  case (unload now s s')
  then show ?case using unload_total [of s now] by auto
next
  case (save s s')
  then show ?case using save_total [of s] by (auto simp: ban_wf_def)
next
  case (command line c now check_int s s')
  then show ?case using handle_total [of s line username c now check_int] by auto
qed

lemma reachable_wf: "ban_reachable username s \<Longrightarrow> ban_wf s"
  by (induction rule: ban_reachable.induct) (simp_all add: step_wf, simp add: no_bans_def ban_wf_def)

section \<open>Properties\<close>

text \<open>
  C20. A list built by adding bans answers \<open>ipbanlist_check\<close> for a printed address as the patterns say,
  taken in order: the answer is the position of the first ban whose pattern contains the address, or -1
  when a netmask or prefix comes first for which the address, the base or the mask is 0.0.0.0, or 0 when
  neither is met. All patterns of the five kinds are covered, with octets up to 255 and prefixes of 0 to 32, in whatever
  mixture. When the time between two checks has passed the bans that have run out are dropped before;
  otherwise they still count.
\<close>

theorem ban_check_first_match:
  assumes "\<forall>b \<in> set bs. pattern_ok (fst b)" and "quad_ok q" and "add_bans username t0 c bs no_bans = Some s"
  shows "map_option fst (ipbanlist_check now check_int (Some (quad_str q)) s)
    = Some (first_match q (map fst (if now \<ge> check_int then filter (live now) bs else bs)) 0)"
proof -
  have l: "banlist s = map ban_entry bs" and t: "lastchecktime s = 0"
    using add_bans_list [OF assms(1,3)] by (simp_all add: no_bans_def)
  obtain a b c' d where q: "q = (a, b, c', d)" by (cases q)
  have tok: "strtok_dot (quad_str q) = [fmt_d a, fmt_d b, fmt_d c', fmt_d d]" unfolding q by (rule strtok_quad)
  have loop: "check_loop (quad_str q) (fmt_d a, fmt_d b, fmt_d c', fmt_d d) (map ban_entry xs) 0
      = Some (first_match q (map fst xs) 0)" if "set xs \<subseteq> set bs" for xs
    using check_loop_pattern [OF assms(2), of xs 0] that assms(1) by (auto simp: q)
  have lf: "filter (\<lambda>e. \<not> expired now e) (map ban_entry bs) = map ban_entry (filter (live now) bs)"
    by (simp add: filter_map o_def expired_live)
  have "\<forall>e \<in> set (map ban_entry (filter (live now) bs)). \<exists>str. ipban_entry_to_str e = Some str \<and> length str \<le> 190"
    using entry_to_str_pattern pattern_length assms(1) by fastforce
  then obtain ls where ls: "save_lines (map ban_entry (filter (live now) bs)) = Some ls" using save_lines_total by blast
  obtain s' where u: "ipbanlist_unload_expired now s = Some s'" "banlist s' = map ban_entry (filter (live now) bs)"
    using ls by (cases "list_ex (expired now) (banlist s)")
      (simp_all add: ipbanlist_unload_expired_def ipbanlist_save_def l lf Let_def)
  show ?thesis
    using u t l loop [of bs] loop [of "filter (live now) bs"]
    by (simp add: ipbanlist_check_def tok del: quad_str.simps)
qed

theorem ban_check_first_match_witness:
  "\<exists>s. add_bans (\<lambda>_. ''admin'') 0 (Some 3) [(Exact (192, 168, 0, 77), 900), (Wild (Some 10) None None None, 0),
         (Prefix (192, 168, 0, 0) 24, 0), (Netmask (0, 0, 0, 0) (255, 0, 0, 0), 0)] no_bans = Some s
   \<and> map_option fst (ipbanlist_check 1000 30 (Some (quad_str (192, 168, 0, 77))) s) = Some 2
   \<and> map_option fst (ipbanlist_check 10 30 (Some (quad_str (8, 8, 8, 8))) s) = Some (-1)"
proof -
  let ?bs = "[(Exact (192, 168, 0, 77), 900), (Wild (Some 10) None None None, 0), (Prefix (192, 168, 0, 0) 24, 0),
    (Netmask (0, 0, 0, 0) (255, 0, 0, 0), 0 :: int)]"
  have ok: "\<forall>b \<in> set ?bs. pattern_ok (fst b)" by (simp add: part_ok_def)
  obtain s where s: "add_bans (\<lambda>_. ''admin'') 0 (Some 3) ?bs no_bans = Some s"
    using add_bans_total [OF _ ok, of "Some 3" "\<lambda>_. ''admin''" 0 no_bans] by auto
  show ?thesis using s ban_check_first_match [OF ok _ s, of "(192, 168, 0, 77)" 1000 30]
    ban_check_first_match [OF ok _ s, of "(8, 8, 8, 8)" 10 30]
    by (intro exI [of _ s]) (simp add: part_matches_def live_def)
qed

text \<open>
  C22. What \<open>ipbanlist_save\<close> writes, \<open>ipbanlist_load\<close> reads back: a list of valid patterns, permanent or
  with an end time of 32 bits, is restored entry by entry by loading the file its save wrote.
\<close>

theorem ban_save_load:
  assumes "\<forall>b \<in> set bs. pattern_ok (fst b) \<and> 0 \<le> snd b \<and> snd b < 2 ^ 32" and "add_bans username t0 c bs no_bans = Some s"
  shows "\<exists>s1 s2. ipbanlist_save s = Some s1 \<and> ipbanlist_load now (banfile s1) no_bans = Some s2
    \<and> banlist s2 = banlist s1 \<and> length (banlist s1) = length bs"
proof -
  have l: "banlist s = map ban_entry bs" using add_bans_list [OF _ assms(2)] assms(1) by (simp add: no_bans_def)
  have "ipbanlist_save s = Some (s\<lparr>banfile := map ban_line bs\<rparr>)"
    by (simp add: ipbanlist_save_def l save_lines_bans [OF assms(1)])
  then show ?thesis using l load_ban_lines [OF assms(1), of now no_bans] by (auto simp: no_bans_def)
qed

theorem ban_save_load_witness:
  "\<exists>s s1 s2. add_bans (\<lambda>_. ''admin'') 0 None [(Netmask (10, 1, 0, 0) (255, 255, 0, 0), 0),
       (Range (1, 2, 3, 4) (1, 2, 3, 9), 12345)] no_bans = Some s
    \<and> ipbanlist_save s = Some s1 \<and> ipbanlist_load 0 (banfile s1) no_bans = Some s2
    \<and> banlist s2 = banlist s1 \<and> length (banlist s1) = 2"
proof -
  let ?bs = "[(Netmask (10, 1, 0, 0) (255, 255, 0, 0), 0), (Range (1, 2, 3, 4) (1, 2, 3, 9), 12345 :: int)]"
  obtain s where s: "add_bans (\<lambda>_. ''admin'') 0 None ?bs no_bans = Some s"
    using add_bans_total [of None "\<lambda>_. ''admin''" ?bs 0 no_bans] by auto
  then have "\<exists>s1 s2. ipbanlist_save s = Some s1 \<and> ipbanlist_load 0 (banfile s1) no_bans = Some s2
      \<and> banlist s2 = banlist s1 \<and> length (banlist s1) = length ?bs"
    by (intro ban_save_load) simp_all
  moreover have "length ?bs = 2" by simp
  ultimately show ?thesis using s by metis
qed

text \<open>
  C21. No operation on the list reads a NULL string, shifts by a count out of range, overruns one of its
  arrays or hands \<open>atoi\<close> a number that is no \<open>int\<close>, in any state reached from the empty list by loading
  files, adding bans, checking, dropping expired bans, saving and chat commands, as long as the strings
  from outside are bounded: no ten digits in a row in an address, a command or a line of the file, at
  most 190 characters in a line, at most 158 in the name of the user who gives a command. (The lemmas in the
  next section show a long line and a long number that do harm.)
\<close>

theorem ban_no_undefined:
  assumes "ban_reachable username s" and "short_runs ip" and "short_runs line" and "length (username c) \<le> 158"
    and "list_all line_ok ls"
  shows "ipbanlist_check now check_int (Some ip) s \<noteq> None \<and> handle_ipban_command username now check_int c line s \<noteq> None
    \<and> ipbanlist_load now ls s \<noteq> None \<and> ipbanlist_save s \<noteq> None \<and> ipbanlist_unload_expired now s \<noteq> None"
  using check_total [OF reachable_wf [OF assms(1)], of "Some ip" now check_int] load_total [OF reachable_wf [OF assms(1)] assms(5), of now]
    handle_total [where username = username and c = c, OF reachable_wf [OF assms(1)] assms(3,4), of now check_int]
    save_total [OF reachable_wf [OF assms(1)]] unload_total [OF reachable_wf [OF assms(1)], of now] assms(2)
  by auto

theorem ban_no_undefined_witness:
  "\<exists>s. ban_reachable (\<lambda>_. ''admin'') s \<and> length (banlist s) = 1
    \<and> ipbanlist_check 5 1 (Some ''nonsense'') s \<noteq> None
    \<and> handle_ipban_command (\<lambda>_. ''admin'') 5 1 0 ''/ipban d 7'' s \<noteq> None"
proof -
  have "list_all line_ok [''10.0.0.0/8'']" by code_simp
  moreover have "map_option (\<lambda>s. length (banlist s)) (ipbanlist_load 0 [''10.0.0.0/8''] no_bans) = Some 1" by code_simp
  ultimately obtain s where s: "ban_reachable (\<lambda>_. ''admin'') s" "length (banlist s) = 1"
    using ban_reachable.step [OF ban_reachable.start ban_step.load] by fastforce
  have "short_runs ''nonsense''" "short_runs ''/ipban d 7''" by code_simp+
  from ban_no_undefined [OF s(1) this, where c = 0 and ls = "[]" and now = 5 and check_int = 1] show ?thesis using s by auto
qed

section \<open>Where the check gives up, and strings that do harm\<close>

text \<open>
  An entry whose base address or netmask is 0.0.0.0 ends the whole check with -1, and the caller in
  \<^verbatim>\<open>server.cpp\<close> refuses a connection on every result other than 0: with this one entry in the list
  all addresses are refused.
\<close>

definition loaded :: "cstring list \<Rightarrow> ipban_state" where
  "loaded ls = (case ipbanlist_load 0 ls no_bans of None \<Rightarrow> no_bans | Some s \<Rightarrow> s)"

lemma zero_base_refuses_all:
  "map_option fst (ipbanlist_check 0 30 (Some ''8.8.8.8'') (loaded [''0.0.0.0/8''])) = Some (-1)"
  by code_simp

lemma five_parts_not_saved:
  "map_option banfile (ipbanlist_save (loaded [''1.2.3.4.*''])) = Some [''1.2.3.4'']"
  by code_simp

lemma prefix_zero_half:
  "map_option fst (ipbanlist_check 0 30 (Some ''8.8.8.8'') (loaded [''1.1.1.1/0''])) = Some 1
   \<and> map_option fst (ipbanlist_check 0 30 (Some ''200.8.8.8'') (loaded [''1.1.1.1/0''])) = Some 0"
  by code_simp

text \<open>
  A line of any length is accepted when its first four parts look like an address; printing the entry
  overruns \<open>tstr\<close>. A number of a chat command, or a length of a prefix, that is no \<open>int\<close> is handed to \<open>atoi\<close>.
\<close>

lemma long_line_overflows:
  assumes "list_all c_isdigit d" and "247 \<le> length d"
  shows "\<exists>s. ipbanlist_load 0 [''1.2.3.4.'' @ d] no_bans = Some s \<and> length (banlist s) = 1 \<and> ipbanlist_save s = None"
proof -
  let ?x = "''1.2.3.4.'' @ d"
  have d: "\<forall>c \<in> set d. c_isdigit c" using assms(1) by (simp add: list_all_iff)
  have n: "no_dot d" using d by (auto simp: no_dot_def)
  have dig: "c_isdigit CHR ''1''" "c_isdigit CHR ''2''" "c_isdigit CHR ''3''" "c_isdigit CHR ''4''" by (simp_all add: c_isdigit_def)
  have chars: "list_all ip_char ?x" using d dig by (auto simp: list_all_iff)
  have no: "c \<notin> set ?x" if "c \<in> {CHR ''-'', CHR ''*'', CHR ''/''}" for c using d that by auto
  have "split_dot ?x = [''1'', ''2'', ''3'', ''4'', d]" using n by (simp add: split_dot_single)
  then have "ipban_could_be_exact_ip_str ?x" by (simp add: ipban_could_be_exact_ip_str_def)
  moreover have "\<not> length ?x < 7" using assms(2) by simp
  ultimately have "ipban_str_to_ipban_entry (Some ?x) = Some (Some (plain_entry ipban_type_exact ?x None))"
    using chars no by (simp add: ipban_str_to_ipban_entry_def ipban_could_be_ip_str_def split_pattern_def strchr_cut_def)
  then have "load_line 0 ?x no_bans = Some (no_bans\<lparr>banlist := [(plain_entry ipban_type_exact ?x None)\<lparr>endtime := 0\<rparr>]\<rparr>)"
    using load_line_plain [OF _ chars, of 0 no_bans] by (simp add: ipbanlist_add_def no_bans_def)
  moreover have "ipban_entry_to_str ((plain_entry ipban_type_exact ?x None)\<lparr>endtime := 0\<rparr>) = None"
    using assms(2) by (simp add: ipban_entry_to_str_def plain_entry_def into_buf_def MAX_MESSAGE_LEN_def)
  ultimately show ?thesis by (simp add: ipbanlist_save_def)
qed

lemma long_number_undefined:
  "ipban_func_del c ''99999999999999999999'' s = None
   \<and> ipban_str_to_ipban_entry (Some ''1.2.3.4/2147483648'') = None"
proof
  have dig: "c_isdigit CHR ''0''" "c_isdigit CHR ''1''" "c_isdigit CHR ''2''" "c_isdigit CHR ''3''" "c_isdigit CHR ''4''"
    "c_isdigit CHR ''6''" "c_isdigit CHR ''7''" "c_isdigit CHR ''8''" "c_isdigit CHR ''9''"
    "\<not> c_isblank CHR ''9''" "\<not> c_isblank CHR ''2''"
    by (simp_all add: c_isdigit_def c_isblank_def)
  have "c_atoi ''99999999999999999999'' = None"
    by (simp add: c_atoi_def atoi_def dig dec_value_def digit_val_def)
  then show "ipban_func_del c ''99999999999999999999'' s = None" by (simp add: ipban_func_del_def)
  have "c_atoi ''2147483648'' = None"
    by (simp add: c_atoi_def atoi_def dig dec_value_def digit_val_def)
  then show "ipban_str_to_ipban_entry (Some ''1.2.3.4/2147483648'') = None"
    by (simp add: ipban_str_to_ipban_entry_def ipban_could_be_ip_str_def strchr_cut_def ipban_could_be_exact_ip_str_def dig)
qed

lemma long_ban_overflows:
  "fst (ipbanlist_str_to_time_t 1000 None ''71582789'' no_bans) = 1044"
  by (simp add: ipbanlist_str_to_time_t_def MAX_TIME_STR_def clockstr_to_seconds_def strtoul10_def dec_value_def
      digit_val_def c_isdigit_def Let_def)

end
