(* ===== verification/Game_Conv.thy ===== *)
theory Game_Conv
  imports Client_Tag Bn_Type Str_Util
begin

text \<open>
  The data of \<^verbatim>\<open>bnetd/game.h\<close>, the names \<^verbatim>\<open>bnetd/game.cpp\<close> prints for its enumerations, and
  \<^verbatim>\<open>bnetd/game_conv.cpp\<close>: the conversions between the numbers of the client protocols and the types of
  the server, and the parser of the information a client sends when it creates a game. A \<open>switch\<close> over
  constants is a table with a default.
\<close>

section \<open>Games\<close>

datatype t_game_type =
  game_type_none | game_type_all | game_type_topvbot | game_type_melee | game_type_ffa | game_type_oneonone |
  game_type_ctf | game_type_greed | game_type_slaughter | game_type_sdeath | game_type_ladder |
  game_type_ironman | game_type_mapset | game_type_teammelee | game_type_teamffa | game_type_teamctf |
  game_type_pgl | game_type_diablo | game_type_diablo2open | game_type_diablo2closed | game_type_anongame

datatype t_game_status =
  game_status_started | game_status_full | game_status_open | game_status_loaded | game_status_done

datatype t_game_result =
  game_result_none | game_result_win | game_result_loss | game_result_draw | game_result_disconnect |
  game_result_observer | game_result_playing

datatype t_game_option =
  game_option_none | game_option_melee_normal | game_option_ffa_normal | game_option_oneonone_normal |
  game_option_ctf_normal | game_option_greed_10000 | game_option_greed_7500 | game_option_greed_5000 |
  game_option_greed_2500 | game_option_slaughter_60 | game_option_slaughter_45 | game_option_slaughter_30 |
  game_option_slaughter_15 | game_option_sdeath_normal | game_option_ladder_countasloss |
  game_option_ladder_nopenalty | game_option_mapset_normal | game_option_teammelee_4 | game_option_teammelee_3 |
  game_option_teammelee_2 | game_option_teamffa_4 | game_option_teamffa_3 | game_option_teamffa_2 |
  game_option_teamctf_4 | game_option_teamctf_3 | game_option_teamctf_2 | game_option_topvbot_7 |
  game_option_topvbot_6 | game_option_topvbot_5 | game_option_topvbot_4 | game_option_topvbot_3 |
  game_option_topvbot_2 | game_option_topvbot_1

datatype t_game_maptype =
  game_maptype_none | game_maptype_selfmade | game_maptype_blizzard | game_maptype_ladder | game_maptype_pgl |
  game_maptype_kbk | game_maptype_compusa

datatype t_game_tileset =
  game_tileset_none | game_tileset_badlands | game_tileset_space | game_tileset_installation |
  game_tileset_ashworld | game_tileset_jungle | game_tileset_desert | game_tileset_ice | game_tileset_twilight

datatype t_game_speed =
  game_speed_none | game_speed_slowest | game_speed_slower | game_speed_slow | game_speed_normal |
  game_speed_fast | game_speed_faster | game_speed_fastest

datatype t_game_difficulty =
  game_difficulty_none | game_difficulty_normal | game_difficulty_nightmare | game_difficulty_hell |
  game_difficulty_hardcore_normal | game_difficulty_hardcore_nightmare | game_difficulty_hardcore_hell

datatype t_game_flag =
  game_flag_none | game_flag_private

text \<open>
  An array is \<open>None\<close> while its pointer is NULL; connections, accounts and channels are numbers, NULL is
  \<open>None\<close>. \<open>g_channel\<close> is \<open>None\<close> until it is written: \<open>game_create\<close> leaves the field uninitialised.
  The counters are bounded by the memory the arrays take and never wrap.
\<close>

record t_game =
  g_name :: "cstring option"
  g_pass :: cstring
  g_info :: cstring
  g_type :: t_game_type
  g_realm :: u32
  g_realmname :: "cstring option"
  g_clienttag :: u32
  g_addr :: u32
  g_port :: u16
  g_startver :: int
  g_version :: u64
  g_status :: t_game_status
  g_ref :: nat
  g_count :: nat
  g_id :: nat
  g_mapname :: "cstring option"
  g_option :: t_game_option
  g_maptype :: t_game_maptype
  g_tileset :: t_game_tileset
  g_speed :: t_game_speed
  g_mapsize_x :: u32
  g_mapsize_y :: u32
  g_maxplayers :: u32
  g_owner :: "nat option"
  g_connections :: "nat option list option"
  g_players :: "nat option list option"
  g_results :: "t_game_result list option"
  g_reported_results :: "t_game_result list option list option"
  g_report_heads :: "cstring option list option"
  g_report_bodies :: "cstring option list option"
  g_channel :: "nat option option"
  g_create_time :: int
  g_start_time :: int
  g_lastaccess_time :: int
  g_bad :: bool
  g_difficulty :: u32
  g_description :: "cstring option"
  g_flag :: t_game_flag

definition game_difficulty_num :: "t_game_difficulty \<Rightarrow> u32" where
  "game_difficulty_num d = (case d of game_difficulty_none \<Rightarrow> 0 | game_difficulty_normal \<Rightarrow> 1
     | game_difficulty_nightmare \<Rightarrow> 2 | game_difficulty_hell \<Rightarrow> 3 | game_difficulty_hardcore_normal \<Rightarrow> 4
     | game_difficulty_hardcore_nightmare \<Rightarrow> 5 | game_difficulty_hardcore_hell \<Rightarrow> 6)"

section \<open>Names\<close>

definition game_type_get_str :: "t_game_type \<Rightarrow> cstring" where
  "game_type_get_str = switch_table [
    (game_type_none, ''NONE''), (game_type_melee, ''melee''), (game_type_topvbot, ''top vs bottom''),
    (game_type_ffa, ''free for all''), (game_type_oneonone, ''one on one''),
    (game_type_ctf, ''capture the flag''), (game_type_greed, ''greed''), (game_type_slaughter, ''slaughter''),
    (game_type_sdeath, ''sudden death''), (game_type_ladder, ''ladder''), (game_type_ironman, ''ironman''),
    (game_type_mapset, ''mapset''), (game_type_teammelee, ''team melee''),
    (game_type_teamffa, ''team free for all''), (game_type_teamctf, ''team capture the flag''),
    (game_type_pgl, ''PGL''), (game_type_diablo, ''Diablo''), (game_type_diablo2open, ''Diablo II (open)''),
    (game_type_diablo2closed, ''Diablo II (closed)''), (game_type_all, ''UNKNOWN'')] ''UNKNOWN''"

definition game_status_get_str :: "t_game_status \<Rightarrow> cstring" where
  "game_status_get_str = switch_table [
    (game_status_started, ''started''), (game_status_full, ''full''), (game_status_open, ''open''),
    (game_status_done, ''done''), (game_status_loaded, ''loaded'')] ''UNKNOWN''"

definition game_result_get_str :: "t_game_result \<Rightarrow> cstring" where
  "game_result_get_str = switch_table [
    (game_result_none, ''NONE''), (game_result_win, ''WIN''), (game_result_loss, ''LOSS''),
    (game_result_draw, ''DRAW''), (game_result_disconnect, ''DISCONNECT''), (game_result_observer, ''OBSERVER'')] ''UNKNOWN''"

definition game_option_get_str :: "t_game_option \<Rightarrow> cstring" where
  "game_option_get_str = switch_table [
    (game_option_melee_normal, ''normal''), (game_option_ffa_normal, ''normal''),
    (game_option_oneonone_normal, ''normal''), (game_option_ctf_normal, ''normal''),
    (game_option_greed_10000, ''10000 minerals''), (game_option_greed_7500, ''7500 minerals''),
    (game_option_greed_5000, ''5000 minerals''), (game_option_greed_2500, ''2500 minerals''),
    (game_option_slaughter_60, ''60 minutes''), (game_option_slaughter_45, ''45 minutes''),
    (game_option_slaughter_30, ''30 minutes''), (game_option_slaughter_15, ''15 minutes''),
    (game_option_sdeath_normal, ''normal''), (game_option_ladder_countasloss, ''count as loss''),
    (game_option_ladder_nopenalty, ''no penalty''), (game_option_mapset_normal, ''normal''),
    (game_option_teammelee_4, ''4 teams''), (game_option_teammelee_3, ''3 teams''),
    (game_option_teammelee_2, ''2 teams''), (game_option_teamffa_4, ''4 teams''),
    (game_option_teamffa_3, ''3 teams''), (game_option_teamffa_2, ''2 teams''),
    (game_option_teamctf_4, ''4 teams''), (game_option_teamctf_3, ''3 teams''),
    (game_option_teamctf_2, ''2 teams''), (game_option_topvbot_7, ''7 vs all''),
    (game_option_topvbot_6, ''6 vs all''), (game_option_topvbot_5, ''5 vs all''),
    (game_option_topvbot_4, ''4 vs all''), (game_option_topvbot_3, ''3 vs all''),
    (game_option_topvbot_2, ''2 vs all''), (game_option_topvbot_1, ''1 vs all''), (game_option_none, ''none'')] ''UNKNOWN''"

definition game_maptype_get_str :: "t_game_maptype \<Rightarrow> cstring" where
  "game_maptype_get_str = switch_table [
    (game_maptype_selfmade, ''Self-Made''), (game_maptype_blizzard, ''Blizzard''),
    (game_maptype_ladder, ''Ladder''), (game_maptype_pgl, ''PGL''), (game_maptype_kbk, ''KBK''),
    (game_maptype_compusa, ''CompUSA'')] ''Unknown''"

definition game_tileset_get_str :: "t_game_tileset \<Rightarrow> cstring" where
  "game_tileset_get_str = switch_table [
    (game_tileset_badlands, ''Badlands''), (game_tileset_space, ''Space''),
    (game_tileset_installation, ''Installation''), (game_tileset_ashworld, ''Ash World''),
    (game_tileset_jungle, ''Jungle''), (game_tileset_desert, ''Desert''), (game_tileset_ice, ''Ice''),
    (game_tileset_twilight, ''Twilight'')] ''Unknown''"

definition game_speed_get_str :: "t_game_speed \<Rightarrow> cstring" where
  "game_speed_get_str = switch_table [
    (game_speed_slowest, ''slowest''), (game_speed_slower, ''slower''), (game_speed_slow, ''slow''),
    (game_speed_normal, ''normal''), (game_speed_fast, ''fast''), (game_speed_faster, ''faster''),
    (game_speed_fastest, ''fastest'')] ''unknown''"

definition game_difficulty_get_str :: "u32 \<Rightarrow> cstring" where
  "game_difficulty_get_str = switch_table [
    (game_difficulty_num game_difficulty_normal, ''normal''),
    (game_difficulty_num game_difficulty_nightmare, ''nightmare''),
    (game_difficulty_num game_difficulty_hell, ''hell''),
    (game_difficulty_num game_difficulty_hardcore_normal, ''hardcore normal''),
    (game_difficulty_num game_difficulty_hardcore_nightmare, ''hardcore nightmare''),
    (game_difficulty_num game_difficulty_hardcore_hell, ''hardcore hell'')] ''unknown''"

section \<open>The numbers of \<^verbatim>\<open>common/bnet_protocol.h\<close>\<close>

abbreviation CLIENT_GAMELISTREQ_ALL :: u16 where "CLIENT_GAMELISTREQ_ALL \<equiv> 0"
abbreviation CLIENT_GAMELISTREQ_TOPVBOT :: u16 where "CLIENT_GAMELISTREQ_TOPVBOT \<equiv> 15"
abbreviation CLIENT_GAMELISTREQ_MELEE :: u16 where "CLIENT_GAMELISTREQ_MELEE \<equiv> 2"
abbreviation CLIENT_GAMELISTREQ_FFA :: u16 where "CLIENT_GAMELISTREQ_FFA \<equiv> 3"
abbreviation CLIENT_GAMELISTREQ_ONEONONE :: u16 where "CLIENT_GAMELISTREQ_ONEONONE \<equiv> 4"
abbreviation CLIENT_GAMELISTREQ_LADDER :: u16 where "CLIENT_GAMELISTREQ_LADDER \<equiv> 9"
abbreviation CLIENT_GAMELISTREQ_IRONMAN :: u16 where "CLIENT_GAMELISTREQ_IRONMAN \<equiv> 16"
abbreviation CLIENT_GAMELISTREQ_MAPSET :: u16 where "CLIENT_GAMELISTREQ_MAPSET \<equiv> 10"
abbreviation CLIENT_GAMETYPE_DIABLO_0 :: u16 where "CLIENT_GAMETYPE_DIABLO_0 \<equiv> 0"
abbreviation CLIENT_GAMETYPE_DIABLO_1 :: u16 where "CLIENT_GAMETYPE_DIABLO_1 \<equiv> 1"
abbreviation CLIENT_GAMETYPE_DIABLO_2 :: u16 where "CLIENT_GAMETYPE_DIABLO_2 \<equiv> 2"
abbreviation CLIENT_GAMETYPE_DIABLO_3 :: u16 where "CLIENT_GAMETYPE_DIABLO_3 \<equiv> 3"
abbreviation CLIENT_GAMETYPE_DIABLO_4 :: u16 where "CLIENT_GAMETYPE_DIABLO_4 \<equiv> 4"
abbreviation CLIENT_GAMETYPE_DIABLO_5 :: u16 where "CLIENT_GAMETYPE_DIABLO_5 \<equiv> 5"
abbreviation CLIENT_GAMETYPE_DIABLO_6 :: u16 where "CLIENT_GAMETYPE_DIABLO_6 \<equiv> 6"
abbreviation CLIENT_GAMETYPE_DIABLO_7 :: u16 where "CLIENT_GAMETYPE_DIABLO_7 \<equiv> 7"
abbreviation CLIENT_GAMETYPE_DIABLO_8 :: u16 where "CLIENT_GAMETYPE_DIABLO_8 \<equiv> 8"
abbreviation CLIENT_GAMETYPE_DIABLO_9 :: u16 where "CLIENT_GAMETYPE_DIABLO_9 \<equiv> 9"
abbreviation CLIENT_GAMETYPE_DIABLO_a :: u16 where "CLIENT_GAMETYPE_DIABLO_a \<equiv> 10"
abbreviation CLIENT_GAMETYPE_DIABLO_b :: u16 where "CLIENT_GAMETYPE_DIABLO_b \<equiv> 11"
abbreviation CLIENT_GAMETYPE_DIABLO_c :: u16 where "CLIENT_GAMETYPE_DIABLO_c \<equiv> 12"
abbreviation CLIENT_GAMETYPE_DIABLO_d :: u16 where "CLIENT_GAMETYPE_DIABLO_d \<equiv> 13"
abbreviation CLIENT_GAMELISTREQ_CTF :: u16 where "CLIENT_GAMELISTREQ_CTF \<equiv> 5"
abbreviation CLIENT_GAMELISTREQ_GREED :: u16 where "CLIENT_GAMELISTREQ_GREED \<equiv> 6"
abbreviation CLIENT_GAMELISTREQ_SLAUGHTER :: u16 where "CLIENT_GAMELISTREQ_SLAUGHTER \<equiv> 7"
abbreviation CLIENT_GAMELISTREQ_SDEATH :: u16 where "CLIENT_GAMELISTREQ_SDEATH \<equiv> 8"
abbreviation CLIENT_GAMELISTREQ_TEAMMELEE :: u16 where "CLIENT_GAMELISTREQ_TEAMMELEE \<equiv> 11"
abbreviation CLIENT_GAMELISTREQ_TEAMFFA :: u16 where "CLIENT_GAMELISTREQ_TEAMFFA \<equiv> 12"
abbreviation CLIENT_GAMELISTREQ_TEAMCTF :: u16 where "CLIENT_GAMELISTREQ_TEAMCTF \<equiv> 13"
abbreviation CLIENT_GAMELISTREQ_PGL :: u16 where "CLIENT_GAMELISTREQ_PGL \<equiv> 14"
abbreviation CLIENT_GAMETYPE_DIABLO2_OPEN_NORMAL :: u16 where "CLIENT_GAMETYPE_DIABLO2_OPEN_NORMAL \<equiv> 8"
abbreviation CLIENT_GAMETYPE_DIABLO2_OPEN_NIGHTMARE :: u16 where "CLIENT_GAMETYPE_DIABLO2_OPEN_NIGHTMARE \<equiv> 9"
abbreviation CLIENT_GAMETYPE_DIABLO2_OPEN_HELL :: u16 where "CLIENT_GAMETYPE_DIABLO2_OPEN_HELL \<equiv> 10"
abbreviation CLIENT_GAMETYPE_DIABLO2_CLOSE :: u16 where "CLIENT_GAMETYPE_DIABLO2_CLOSE \<equiv> 0"
abbreviation CLIENT_STARTGAME4_OPTION_TOPVBOT_1 :: u16 where "CLIENT_STARTGAME4_OPTION_TOPVBOT_1 \<equiv> 1"
abbreviation CLIENT_STARTGAME4_OPTION_TOPVBOT_2 :: u16 where "CLIENT_STARTGAME4_OPTION_TOPVBOT_2 \<equiv> 2"
abbreviation CLIENT_STARTGAME4_OPTION_TOPVBOT_3 :: u16 where "CLIENT_STARTGAME4_OPTION_TOPVBOT_3 \<equiv> 3"
abbreviation CLIENT_STARTGAME4_OPTION_TOPVBOT_4 :: u16 where "CLIENT_STARTGAME4_OPTION_TOPVBOT_4 \<equiv> 4"
abbreviation CLIENT_STARTGAME4_OPTION_TOPVBOT_5 :: u16 where "CLIENT_STARTGAME4_OPTION_TOPVBOT_5 \<equiv> 5"
abbreviation CLIENT_STARTGAME4_OPTION_TOPVBOT_6 :: u16 where "CLIENT_STARTGAME4_OPTION_TOPVBOT_6 \<equiv> 6"
abbreviation CLIENT_STARTGAME4_OPTION_TOPVBOT_7 :: u16 where "CLIENT_STARTGAME4_OPTION_TOPVBOT_7 \<equiv> 7"
abbreviation CLIENT_STARTGAME4_OPTION_MELEE_NORMAL :: u16 where "CLIENT_STARTGAME4_OPTION_MELEE_NORMAL \<equiv> 1"
abbreviation CLIENT_STARTGAME4_OPTION_FFA_NORMAL :: u16 where "CLIENT_STARTGAME4_OPTION_FFA_NORMAL \<equiv> 1"
abbreviation CLIENT_STARTGAME4_OPTION_ONEONONE_NORMAL :: u16 where "CLIENT_STARTGAME4_OPTION_ONEONONE_NORMAL \<equiv> 1"
abbreviation CLIENT_STARTGAME4_OPTION_LADDER_COUNTASLOSS :: u16 where "CLIENT_STARTGAME4_OPTION_LADDER_COUNTASLOSS \<equiv> 2"
abbreviation CLIENT_STARTGAME4_OPTION_LADDER_NOPENALTY :: u16 where "CLIENT_STARTGAME4_OPTION_LADDER_NOPENALTY \<equiv> 1"
abbreviation CLIENT_STARTGAME4_OPTION_MAPSET_NORMAL :: u16 where "CLIENT_STARTGAME4_OPTION_MAPSET_NORMAL \<equiv> 1"
abbreviation CLIENT_STARTGAME4_OPTION_NONE :: u16 where "CLIENT_STARTGAME4_OPTION_NONE \<equiv> 0"
abbreviation CLIENT_STARTGAME4_OPTION_CTF_NORMAL :: u16 where "CLIENT_STARTGAME4_OPTION_CTF_NORMAL \<equiv> 1"
abbreviation CLIENT_STARTGAME4_OPTION_GREED_10000 :: u16 where "CLIENT_STARTGAME4_OPTION_GREED_10000 \<equiv> 4"
abbreviation CLIENT_STARTGAME4_OPTION_GREED_7500 :: u16 where "CLIENT_STARTGAME4_OPTION_GREED_7500 \<equiv> 3"
abbreviation CLIENT_STARTGAME4_OPTION_GREED_5000 :: u16 where "CLIENT_STARTGAME4_OPTION_GREED_5000 \<equiv> 2"
abbreviation CLIENT_STARTGAME4_OPTION_GREED_2500 :: u16 where "CLIENT_STARTGAME4_OPTION_GREED_2500 \<equiv> 1"
abbreviation CLIENT_STARTGAME4_OPTION_SLAUGHTER_60 :: u16 where "CLIENT_STARTGAME4_OPTION_SLAUGHTER_60 \<equiv> 4"
abbreviation CLIENT_STARTGAME4_OPTION_SLAUGHTER_45 :: u16 where "CLIENT_STARTGAME4_OPTION_SLAUGHTER_45 \<equiv> 3"
abbreviation CLIENT_STARTGAME4_OPTION_SLAUGHTER_30 :: u16 where "CLIENT_STARTGAME4_OPTION_SLAUGHTER_30 \<equiv> 2"
abbreviation CLIENT_STARTGAME4_OPTION_SLAUGHTER_15 :: u16 where "CLIENT_STARTGAME4_OPTION_SLAUGHTER_15 \<equiv> 1"
abbreviation CLIENT_STARTGAME4_OPTION_SDEATH_NORMAL :: u16 where "CLIENT_STARTGAME4_OPTION_SDEATH_NORMAL \<equiv> 1"
abbreviation CLIENT_STARTGAME4_OPTION_TEAMMELEE_4 :: u16 where "CLIENT_STARTGAME4_OPTION_TEAMMELEE_4 \<equiv> 3"
abbreviation CLIENT_STARTGAME4_OPTION_TEAMMELEE_3 :: u16 where "CLIENT_STARTGAME4_OPTION_TEAMMELEE_3 \<equiv> 2"
abbreviation CLIENT_STARTGAME4_OPTION_TEAMMELEE_2 :: u16 where "CLIENT_STARTGAME4_OPTION_TEAMMELEE_2 \<equiv> 1"
abbreviation CLIENT_STARTGAME4_OPTION_TEAMFFA_4 :: u16 where "CLIENT_STARTGAME4_OPTION_TEAMFFA_4 \<equiv> 3"
abbreviation CLIENT_STARTGAME4_OPTION_TEAMFFA_3 :: u16 where "CLIENT_STARTGAME4_OPTION_TEAMFFA_3 \<equiv> 2"
abbreviation CLIENT_STARTGAME4_OPTION_TEAMFFA_2 :: u16 where "CLIENT_STARTGAME4_OPTION_TEAMFFA_2 \<equiv> 1"
abbreviation CLIENT_STARTGAME4_OPTION_TEAMCTF_4 :: u16 where "CLIENT_STARTGAME4_OPTION_TEAMCTF_4 \<equiv> 3"
abbreviation CLIENT_STARTGAME4_OPTION_TEAMCTF_3 :: u16 where "CLIENT_STARTGAME4_OPTION_TEAMCTF_3 \<equiv> 2"
abbreviation CLIENT_STARTGAME4_OPTION_TEAMCTF_2 :: u16 where "CLIENT_STARTGAME4_OPTION_TEAMCTF_2 \<equiv> 1"
abbreviation CLIENT_GAMELISTREQ_DIABLO :: u16 where "CLIENT_GAMELISTREQ_DIABLO \<equiv> 1033"
abbreviation SERVER_GAMELISTREPLY_TYPE_DIABLO2_OPEN :: u16 where "SERVER_GAMELISTREPLY_TYPE_DIABLO2_OPEN \<equiv> 1796"
abbreviation CLIENT_GAME_REPORT_RESULT_PLAYING :: u32 where "CLIENT_GAME_REPORT_RESULT_PLAYING \<equiv> 0"
abbreviation CLIENT_GAME_REPORT_RESULT_WIN :: u32 where "CLIENT_GAME_REPORT_RESULT_WIN \<equiv> 1"
abbreviation CLIENT_GAME_REPORT_RESULT_LOSS :: u32 where "CLIENT_GAME_REPORT_RESULT_LOSS \<equiv> 2"
abbreviation CLIENT_GAME_REPORT_RESULT_DRAW :: u32 where "CLIENT_GAME_REPORT_RESULT_DRAW \<equiv> 3"
abbreviation CLIENT_GAME_REPORT_RESULT_DISCONNECT :: u32 where "CLIENT_GAME_REPORT_RESULT_DISCONNECT \<equiv> 4"
abbreviation CLIENT_GAME_REPORT_RESULT_OBSERVER :: u32 where "CLIENT_GAME_REPORT_RESULT_OBSERVER \<equiv> 5"
abbreviation CLIENT_MAPTYPE_SELFMADE :: u32 where "CLIENT_MAPTYPE_SELFMADE \<equiv> 0"
abbreviation CLIENT_MAPTYPE_BLIZZARD :: u32 where "CLIENT_MAPTYPE_BLIZZARD \<equiv> 1"
abbreviation CLIENT_MAPTYPE_LADDER :: u32 where "CLIENT_MAPTYPE_LADDER \<equiv> 2"
abbreviation CLIENT_MAPTYPE_PGL :: u32 where "CLIENT_MAPTYPE_PGL \<equiv> 3"
abbreviation CLIENT_MAPTYPE_KBK :: u32 where "CLIENT_MAPTYPE_KBK \<equiv> 4"
abbreviation CLIENT_MAPTYPE_CompUSA :: u32 where "CLIENT_MAPTYPE_CompUSA \<equiv> 5"
abbreviation CLIENT_TILESET_BADLANDS :: u32 where "CLIENT_TILESET_BADLANDS \<equiv> 0"
abbreviation CLIENT_TILESET_SPACE :: u32 where "CLIENT_TILESET_SPACE \<equiv> 1"
abbreviation CLIENT_TILESET_INSTALLATION :: u32 where "CLIENT_TILESET_INSTALLATION \<equiv> 2"
abbreviation CLIENT_TILESET_ASHWORLD :: u32 where "CLIENT_TILESET_ASHWORLD \<equiv> 3"
abbreviation CLIENT_TILESET_JUNGLE :: u32 where "CLIENT_TILESET_JUNGLE \<equiv> 4"
abbreviation CLIENT_TILESET_DESERT :: u32 where "CLIENT_TILESET_DESERT \<equiv> 5"
abbreviation CLIENT_TILESET_ICE :: u32 where "CLIENT_TILESET_ICE \<equiv> 6"
abbreviation CLIENT_TILESET_TWILIGHT :: u32 where "CLIENT_TILESET_TWILIGHT \<equiv> 7"
abbreviation CLIENT_GAMESPEED_SLOWEST :: u32 where "CLIENT_GAMESPEED_SLOWEST \<equiv> 0"
abbreviation CLIENT_GAMESPEED_SLOWER :: u32 where "CLIENT_GAMESPEED_SLOWER \<equiv> 1"
abbreviation CLIENT_GAMESPEED_SLOW :: u32 where "CLIENT_GAMESPEED_SLOW \<equiv> 2"
abbreviation CLIENT_GAMESPEED_NORMAL :: u32 where "CLIENT_GAMESPEED_NORMAL \<equiv> 3"
abbreviation CLIENT_GAMESPEED_FAST :: u32 where "CLIENT_GAMESPEED_FAST \<equiv> 4"
abbreviation CLIENT_GAMESPEED_FASTER :: u32 where "CLIENT_GAMESPEED_FASTER \<equiv> 5"
abbreviation CLIENT_GAMESPEED_FASTEST :: u32 where "CLIENT_GAMESPEED_FASTEST \<equiv> 6"
abbreviation CLIENT_DIFFICULTY_NORMAL :: u32 where "CLIENT_DIFFICULTY_NORMAL \<equiv> 1"
abbreviation CLIENT_DIFFICULTY_NIGHTMARE :: u32 where "CLIENT_DIFFICULTY_NIGHTMARE \<equiv> 2"
abbreviation CLIENT_DIFFICULTY_HELL :: u32 where "CLIENT_DIFFICULTY_HELL \<equiv> 3"
abbreviation CLIENT_DIFFICULTY_HARDCORE_NORMAL :: u32 where "CLIENT_DIFFICULTY_HARDCORE_NORMAL \<equiv> 4"
abbreviation CLIENT_DIFFICULTY_HARDCORE_NIGHTMARE :: u32 where "CLIENT_DIFFICULTY_HARDCORE_NIGHTMARE \<equiv> 5"
abbreviation CLIENT_DIFFICULTY_HARDCORE_HELL :: u32 where "CLIENT_DIFFICULTY_HARDCORE_HELL \<equiv> 6"

section \<open>Conversions\<close>

definition bngreqtype_w2 :: "(u16 \<times> t_game_type) list" where
  "bngreqtype_w2 = [
    (CLIENT_GAMELISTREQ_ALL, game_type_all), (CLIENT_GAMELISTREQ_TOPVBOT, game_type_topvbot),
    (CLIENT_GAMELISTREQ_MELEE, game_type_melee), (CLIENT_GAMELISTREQ_FFA, game_type_ffa),
    (CLIENT_GAMELISTREQ_ONEONONE, game_type_oneonone), (CLIENT_GAMELISTREQ_LADDER, game_type_ladder),
    (CLIENT_GAMELISTREQ_IRONMAN, game_type_ironman), (CLIENT_GAMELISTREQ_MAPSET, game_type_mapset)]"

definition bngreqtype_d2 :: "(u16 \<times> t_game_type) list" where
  "bngreqtype_d2 = [
    (CLIENT_GAMELISTREQ_ALL, game_type_diablo2open)]"

definition bngreqtype_d1 :: "(u16 \<times> t_game_type) list" where
  "bngreqtype_d1 = [
    (CLIENT_GAMETYPE_DIABLO_0, game_type_diablo), (CLIENT_GAMETYPE_DIABLO_1, game_type_diablo),
    (CLIENT_GAMETYPE_DIABLO_2, game_type_diablo), (CLIENT_GAMETYPE_DIABLO_3, game_type_diablo),
    (CLIENT_GAMETYPE_DIABLO_4, game_type_diablo), (CLIENT_GAMETYPE_DIABLO_5, game_type_diablo),
    (CLIENT_GAMETYPE_DIABLO_6, game_type_diablo), (CLIENT_GAMETYPE_DIABLO_7, game_type_diablo),
    (CLIENT_GAMETYPE_DIABLO_8, game_type_diablo), (CLIENT_GAMETYPE_DIABLO_9, game_type_diablo),
    (CLIENT_GAMETYPE_DIABLO_a, game_type_diablo), (CLIENT_GAMETYPE_DIABLO_b, game_type_diablo),
    (CLIENT_GAMETYPE_DIABLO_c, game_type_diablo), (CLIENT_GAMETYPE_DIABLO_d, game_type_diablo)]"

definition bngreqtype_sc :: "(u16 \<times> t_game_type) list" where
  "bngreqtype_sc = [
    (CLIENT_GAMELISTREQ_ALL, game_type_all), (CLIENT_GAMELISTREQ_MELEE, game_type_melee),
    (CLIENT_GAMELISTREQ_FFA, game_type_ffa), (CLIENT_GAMELISTREQ_ONEONONE, game_type_oneonone),
    (CLIENT_GAMELISTREQ_CTF, game_type_ctf), (CLIENT_GAMELISTREQ_GREED, game_type_greed),
    (CLIENT_GAMELISTREQ_SLAUGHTER, game_type_slaughter), (CLIENT_GAMELISTREQ_SDEATH, game_type_sdeath),
    (CLIENT_GAMELISTREQ_LADDER, game_type_ladder), (CLIENT_GAMELISTREQ_MAPSET, game_type_mapset),
    (CLIENT_GAMELISTREQ_TEAMMELEE, game_type_teammelee), (CLIENT_GAMELISTREQ_TEAMFFA, game_type_teamffa),
    (CLIENT_GAMELISTREQ_TEAMCTF, game_type_teamctf), (CLIENT_GAMELISTREQ_PGL, game_type_pgl),
    (CLIENT_GAMELISTREQ_TOPVBOT, game_type_topvbot)]"

definition bngreqtype_to_gtype :: "u32 \<Rightarrow> u16 \<Rightarrow> t_game_type" where
  "bngreqtype_to_gtype clienttag bngtype =
     (if clienttag = 0 then game_type_none
      else if clienttag = CLIENTTAG_WARCIIBNE_UINT
        then switch_table bngreqtype_w2 game_type_none bngtype
      else if clienttag = CLIENTTAG_DIABLO2DV_UINT \<or> clienttag = CLIENTTAG_DIABLO2XP_UINT
        then switch_table bngreqtype_d2 game_type_none bngtype
      else if clienttag = CLIENTTAG_DIABLORTL_UINT \<or> clienttag = CLIENTTAG_DIABLOSHR_UINT
        then switch_table bngreqtype_d1 game_type_none bngtype
      else if clienttag = CLIENTTAG_STARCRAFT_UINT \<or> clienttag = CLIENTTAG_BROODWARS_UINT \<or> clienttag = CLIENTTAG_SHAREWARE_UINT
        then switch_table bngreqtype_sc game_type_none bngtype
      else if clienttag = CLIENTTAG_WARCRAFT3_UINT \<or> clienttag = CLIENTTAG_WAR3XP_UINT
        then game_type_all
      else game_type_none)"

definition bngtype_w2 :: "(u16 \<times> t_game_type) list" where
  "bngtype_w2 = [
    (CLIENT_GAMELISTREQ_TOPVBOT, game_type_topvbot), (CLIENT_GAMELISTREQ_MELEE, game_type_melee),
    (CLIENT_GAMELISTREQ_FFA, game_type_ffa), (CLIENT_GAMELISTREQ_ONEONONE, game_type_oneonone),
    (CLIENT_GAMELISTREQ_LADDER, game_type_ladder), (CLIENT_GAMELISTREQ_IRONMAN, game_type_ironman),
    (CLIENT_GAMELISTREQ_MAPSET, game_type_mapset)]"

definition bngtype_d2 :: "(u16 \<times> t_game_type) list" where
  "bngtype_d2 = [
    (CLIENT_GAMETYPE_DIABLO2_OPEN_NORMAL, game_type_diablo2open),
    (CLIENT_GAMETYPE_DIABLO2_OPEN_NIGHTMARE, game_type_diablo2open),
    (CLIENT_GAMETYPE_DIABLO2_OPEN_HELL, game_type_diablo2open),
    (CLIENT_GAMETYPE_DIABLO2_CLOSE, game_type_diablo2closed)]"

definition bngtype_d1 :: "(u16 \<times> t_game_type) list" where
  "bngtype_d1 = [
    (CLIENT_GAMETYPE_DIABLO_0, game_type_diablo), (CLIENT_GAMETYPE_DIABLO_1, game_type_diablo),
    (CLIENT_GAMETYPE_DIABLO_2, game_type_diablo), (CLIENT_GAMETYPE_DIABLO_3, game_type_diablo),
    (CLIENT_GAMETYPE_DIABLO_4, game_type_diablo), (CLIENT_GAMETYPE_DIABLO_5, game_type_diablo),
    (CLIENT_GAMETYPE_DIABLO_6, game_type_diablo), (CLIENT_GAMETYPE_DIABLO_7, game_type_diablo),
    (CLIENT_GAMETYPE_DIABLO_8, game_type_diablo), (CLIENT_GAMETYPE_DIABLO_9, game_type_diablo),
    (CLIENT_GAMETYPE_DIABLO_a, game_type_diablo), (CLIENT_GAMETYPE_DIABLO_b, game_type_diablo),
    (CLIENT_GAMETYPE_DIABLO_c, game_type_diablo)]"

definition bngtype_sc :: "(u16 \<times> t_game_type) list" where
  "bngtype_sc = [
    (CLIENT_GAMELISTREQ_ALL, game_type_all), (CLIENT_GAMELISTREQ_MELEE, game_type_melee),
    (CLIENT_GAMELISTREQ_FFA, game_type_ffa), (CLIENT_GAMELISTREQ_ONEONONE, game_type_oneonone),
    (CLIENT_GAMELISTREQ_CTF, game_type_ctf), (CLIENT_GAMELISTREQ_GREED, game_type_greed),
    (CLIENT_GAMELISTREQ_SLAUGHTER, game_type_slaughter), (CLIENT_GAMELISTREQ_SDEATH, game_type_sdeath),
    (CLIENT_GAMELISTREQ_LADDER, game_type_ladder), (CLIENT_GAMELISTREQ_MAPSET, game_type_mapset),
    (CLIENT_GAMELISTREQ_TEAMMELEE, game_type_teammelee), (CLIENT_GAMELISTREQ_TEAMFFA, game_type_teamffa),
    (CLIENT_GAMELISTREQ_TEAMCTF, game_type_teamctf), (CLIENT_GAMELISTREQ_PGL, game_type_pgl),
    (CLIENT_GAMELISTREQ_TOPVBOT, game_type_topvbot)]"

definition bngtype_to_gtype :: "u32 \<Rightarrow> u16 \<Rightarrow> t_game_type" where
  "bngtype_to_gtype clienttag bngtype =
     (if clienttag = 0 then game_type_none
      else if clienttag = CLIENTTAG_WARCIIBNE_UINT
        then switch_table bngtype_w2 game_type_none bngtype
      else if clienttag = CLIENTTAG_DIABLO2DV_UINT \<or> clienttag = CLIENTTAG_DIABLO2XP_UINT
        then switch_table bngtype_d2 game_type_none bngtype
      else if clienttag = CLIENTTAG_DIABLORTL_UINT \<or> clienttag = CLIENTTAG_DIABLOSHR_UINT
        then switch_table bngtype_d1 game_type_none bngtype
      else if clienttag = CLIENTTAG_STARCRAFT_UINT \<or> clienttag = CLIENTTAG_BROODWARS_UINT \<or> clienttag = CLIENTTAG_SHAREWARE_UINT
        then switch_table bngtype_sc game_type_none bngtype
      else if clienttag = CLIENTTAG_WARCRAFT3_UINT \<or> clienttag = CLIENTTAG_WAR3XP_UINT
        then game_type_all
      else game_type_none)"

definition gtype_to_bngtype :: "t_game_type \<Rightarrow> u16" where
  "gtype_to_bngtype = switch_table [
    (game_type_all, CLIENT_GAMELISTREQ_ALL), (game_type_melee, CLIENT_GAMELISTREQ_MELEE),
    (game_type_ffa, CLIENT_GAMELISTREQ_FFA), (game_type_oneonone, CLIENT_GAMELISTREQ_ONEONONE),
    (game_type_ctf, CLIENT_GAMELISTREQ_CTF), (game_type_greed, CLIENT_GAMELISTREQ_GREED),
    (game_type_slaughter, CLIENT_GAMELISTREQ_SLAUGHTER), (game_type_sdeath, CLIENT_GAMELISTREQ_SDEATH),
    (game_type_ladder, CLIENT_GAMELISTREQ_LADDER), (game_type_mapset, CLIENT_GAMELISTREQ_MAPSET),
    (game_type_teammelee, CLIENT_GAMELISTREQ_TEAMMELEE), (game_type_teamffa, CLIENT_GAMELISTREQ_TEAMFFA),
    (game_type_teamctf, CLIENT_GAMELISTREQ_TEAMCTF), (game_type_pgl, CLIENT_GAMELISTREQ_PGL),
    (game_type_topvbot, CLIENT_GAMELISTREQ_TOPVBOT), (game_type_diablo, CLIENT_GAMELISTREQ_DIABLO),
    (game_type_diablo2open, SERVER_GAMELISTREPLY_TYPE_DIABLO2_OPEN), (game_type_diablo2closed, 0),
    (game_type_anongame, 0), (game_type_none, 0xffff)] 0xffff"

definition bngoption_w2 :: "(t_game_type \<times> (u16 \<times> t_game_option) list) list" where
  "bngoption_w2 = [
    (game_type_topvbot, [(CLIENT_STARTGAME4_OPTION_TOPVBOT_1, game_option_topvbot_1),
        (CLIENT_STARTGAME4_OPTION_TOPVBOT_2, game_option_topvbot_2),
        (CLIENT_STARTGAME4_OPTION_TOPVBOT_3, game_option_topvbot_3),
        (CLIENT_STARTGAME4_OPTION_TOPVBOT_4, game_option_topvbot_4),
        (CLIENT_STARTGAME4_OPTION_TOPVBOT_5, game_option_topvbot_5),
        (CLIENT_STARTGAME4_OPTION_TOPVBOT_6, game_option_topvbot_6),
        (CLIENT_STARTGAME4_OPTION_TOPVBOT_7, game_option_topvbot_7)]),
    (game_type_melee, [(CLIENT_STARTGAME4_OPTION_MELEE_NORMAL, game_option_melee_normal)]),
    (game_type_ffa, [(CLIENT_STARTGAME4_OPTION_FFA_NORMAL, game_option_ffa_normal)]),
    (game_type_oneonone, [(CLIENT_STARTGAME4_OPTION_ONEONONE_NORMAL, game_option_oneonone_normal)]),
    (game_type_ladder, [(CLIENT_STARTGAME4_OPTION_LADDER_COUNTASLOSS, game_option_ladder_countasloss),
        (CLIENT_STARTGAME4_OPTION_LADDER_NOPENALTY, game_option_ladder_nopenalty)]),
    (game_type_ironman, []),
    (game_type_mapset, [(CLIENT_STARTGAME4_OPTION_MAPSET_NORMAL, game_option_mapset_normal)])]"

definition bngoption_d2 :: "(t_game_type \<times> (u16 \<times> t_game_option) list) list" where
  "bngoption_d2 = [
    (game_type_diablo2open, [(CLIENT_STARTGAME4_OPTION_NONE, game_option_none)]),
    (game_type_diablo2closed, [(CLIENT_STARTGAME4_OPTION_NONE, game_option_none)])]"

definition bngoption_d1 :: "(t_game_type \<times> (u16 \<times> t_game_option) list) list" where
  "bngoption_d1 = [
    (game_type_diablo, [])]"

definition bngoption_sc :: "(t_game_type \<times> (u16 \<times> t_game_option) list) list" where
  "bngoption_sc = [
    (game_type_melee, [(CLIENT_STARTGAME4_OPTION_MELEE_NORMAL, game_option_melee_normal)]),
    (game_type_ffa, [(CLIENT_STARTGAME4_OPTION_FFA_NORMAL, game_option_ffa_normal)]),
    (game_type_oneonone, [(CLIENT_STARTGAME4_OPTION_ONEONONE_NORMAL, game_option_oneonone_normal)]),
    (game_type_ctf, [(CLIENT_STARTGAME4_OPTION_CTF_NORMAL, game_option_ctf_normal)]),
    (game_type_greed, [(CLIENT_STARTGAME4_OPTION_GREED_10000, game_option_greed_10000),
        (CLIENT_STARTGAME4_OPTION_GREED_7500, game_option_greed_7500),
        (CLIENT_STARTGAME4_OPTION_GREED_5000, game_option_greed_5000),
        (CLIENT_STARTGAME4_OPTION_GREED_2500, game_option_greed_2500)]),
    (game_type_slaughter, [(CLIENT_STARTGAME4_OPTION_SLAUGHTER_60, game_option_slaughter_60),
        (CLIENT_STARTGAME4_OPTION_SLAUGHTER_45, game_option_slaughter_45),
        (CLIENT_STARTGAME4_OPTION_SLAUGHTER_30, game_option_slaughter_30),
        (CLIENT_STARTGAME4_OPTION_SLAUGHTER_15, game_option_slaughter_15)]),
    (game_type_sdeath, [(CLIENT_STARTGAME4_OPTION_SDEATH_NORMAL, game_option_sdeath_normal)]),
    (game_type_ladder, [(CLIENT_STARTGAME4_OPTION_LADDER_COUNTASLOSS, game_option_ladder_countasloss),
        (CLIENT_STARTGAME4_OPTION_LADDER_NOPENALTY, game_option_ladder_nopenalty)]),
    (game_type_mapset, [(CLIENT_STARTGAME4_OPTION_MAPSET_NORMAL, game_option_mapset_normal)]),
    (game_type_teammelee, [(CLIENT_STARTGAME4_OPTION_TEAMMELEE_4, game_option_teammelee_4),
        (CLIENT_STARTGAME4_OPTION_TEAMMELEE_3, game_option_teammelee_3),
        (CLIENT_STARTGAME4_OPTION_TEAMMELEE_2, game_option_teammelee_2)]),
    (game_type_teamffa, [(CLIENT_STARTGAME4_OPTION_TEAMFFA_4, game_option_teamffa_4),
        (CLIENT_STARTGAME4_OPTION_TEAMFFA_3, game_option_teamffa_3),
        (CLIENT_STARTGAME4_OPTION_TEAMFFA_2, game_option_teamffa_2)]),
    (game_type_teamctf, [(CLIENT_STARTGAME4_OPTION_TEAMCTF_4, game_option_teamctf_4),
        (CLIENT_STARTGAME4_OPTION_TEAMCTF_3, game_option_teamctf_3),
        (CLIENT_STARTGAME4_OPTION_TEAMCTF_2, game_option_teamctf_2)]),
    (game_type_pgl, []),
    (game_type_topvbot, [(CLIENT_STARTGAME4_OPTION_TOPVBOT_1, game_option_topvbot_1),
        (CLIENT_STARTGAME4_OPTION_TOPVBOT_2, game_option_topvbot_2),
        (CLIENT_STARTGAME4_OPTION_TOPVBOT_3, game_option_topvbot_3),
        (CLIENT_STARTGAME4_OPTION_TOPVBOT_4, game_option_topvbot_4),
        (CLIENT_STARTGAME4_OPTION_TOPVBOT_5, game_option_topvbot_5),
        (CLIENT_STARTGAME4_OPTION_TOPVBOT_6, game_option_topvbot_6),
        (CLIENT_STARTGAME4_OPTION_TOPVBOT_7, game_option_topvbot_7)])]"

definition bngoption_to_goption :: "u32 \<Rightarrow> t_game_type \<Rightarrow> u16 \<Rightarrow> t_game_option" where
  "bngoption_to_goption clienttag gtype bngoption =
     (if clienttag = 0 then game_option_none
      else if clienttag = CLIENTTAG_WARCIIBNE_UINT
        then switch_table (switch_table bngoption_w2 [] gtype) game_option_none bngoption
      else if clienttag = CLIENTTAG_DIABLO2DV_UINT \<or> clienttag = CLIENTTAG_DIABLO2XP_UINT
        then switch_table (switch_table bngoption_d2 [] gtype) game_option_none bngoption
      else if clienttag = CLIENTTAG_DIABLORTL_UINT \<or> clienttag = CLIENTTAG_DIABLOSHR_UINT
        then switch_table (switch_table bngoption_d1 [] gtype) game_option_none bngoption
      else if clienttag = CLIENTTAG_STARCRAFT_UINT \<or> clienttag = CLIENTTAG_BROODWARS_UINT \<or> clienttag = CLIENTTAG_SHAREWARE_UINT
        then switch_table (switch_table bngoption_sc [] gtype) game_option_none bngoption
      else if clienttag = CLIENTTAG_WARCRAFT3_UINT \<or> clienttag = CLIENTTAG_WAR3XP_UINT
        then game_option_none
      else game_option_none)"

definition bngresult_to_gresult :: "u32 \<Rightarrow> t_game_result" where
  "bngresult_to_gresult = switch_table [
    (CLIENT_GAME_REPORT_RESULT_PLAYING, game_result_playing), (CLIENT_GAME_REPORT_RESULT_WIN, game_result_win),
    (CLIENT_GAME_REPORT_RESULT_LOSS, game_result_loss), (CLIENT_GAME_REPORT_RESULT_DRAW, game_result_draw),
    (CLIENT_GAME_REPORT_RESULT_DISCONNECT, game_result_disconnect),
    (CLIENT_GAME_REPORT_RESULT_OBSERVER, game_result_observer)] game_result_disconnect"

definition bngmaptype_to_gmaptype :: "u32 \<Rightarrow> t_game_maptype" where
  "bngmaptype_to_gmaptype = switch_table [
    (CLIENT_MAPTYPE_SELFMADE, game_maptype_selfmade), (CLIENT_MAPTYPE_BLIZZARD, game_maptype_blizzard),
    (CLIENT_MAPTYPE_LADDER, game_maptype_ladder), (CLIENT_MAPTYPE_PGL, game_maptype_pgl),
    (CLIENT_MAPTYPE_KBK, game_maptype_kbk), (CLIENT_MAPTYPE_CompUSA, game_maptype_compusa)] game_maptype_none"

definition bngtileset_to_gtileset :: "u32 \<Rightarrow> t_game_tileset" where
  "bngtileset_to_gtileset = switch_table [
    (CLIENT_TILESET_BADLANDS, game_tileset_badlands), (CLIENT_TILESET_SPACE, game_tileset_space),
    (CLIENT_TILESET_INSTALLATION, game_tileset_installation), (CLIENT_TILESET_ASHWORLD, game_tileset_ashworld),
    (CLIENT_TILESET_JUNGLE, game_tileset_jungle), (CLIENT_TILESET_DESERT, game_tileset_desert),
    (CLIENT_TILESET_ICE, game_tileset_ice), (CLIENT_TILESET_TWILIGHT, game_tileset_twilight)] game_tileset_none"

definition bngspeed_to_gspeed :: "u32 \<Rightarrow> t_game_speed" where
  "bngspeed_to_gspeed = switch_table [
    (CLIENT_GAMESPEED_SLOWEST, game_speed_slowest), (CLIENT_GAMESPEED_SLOWER, game_speed_slower),
    (CLIENT_GAMESPEED_SLOW, game_speed_slow), (CLIENT_GAMESPEED_NORMAL, game_speed_normal),
    (CLIENT_GAMESPEED_FAST, game_speed_fast), (CLIENT_GAMESPEED_FASTER, game_speed_faster),
    (CLIENT_GAMESPEED_FASTEST, game_speed_fastest)] game_speed_none"

definition bngdifficulty_to_gdifficulty :: "u32 \<Rightarrow> t_game_difficulty" where
  "bngdifficulty_to_gdifficulty = switch_table [
    (CLIENT_DIFFICULTY_NORMAL, game_difficulty_normal),
    (CLIENT_DIFFICULTY_NIGHTMARE, game_difficulty_nightmare), (CLIENT_DIFFICULTY_HELL, game_difficulty_hell),
    (CLIENT_DIFFICULTY_HARDCORE_NORMAL, game_difficulty_hardcore_normal),
    (CLIENT_DIFFICULTY_HARDCORE_NIGHTMARE, game_difficulty_hardcore_nightmare),
    (CLIENT_DIFFICULTY_HARDCORE_HELL, game_difficulty_hardcore_hell)] game_difficulty_none"

definition w3speed_to_gspeed :: "u32 \<Rightarrow> t_game_speed" where
  "w3speed_to_gspeed = switch_table [
    (0, game_speed_slow), (1, game_speed_normal), (2, game_speed_fast)] game_speed_none"

section \<open>The information sent with a new game\<close>

definition game_set_maptype :: "t_game_maptype \<Rightarrow> t_game \<Rightarrow> t_game" where "game_set_maptype v g = g\<lparr>g_maptype := v\<rparr>"
definition game_set_tileset :: "t_game_tileset \<Rightarrow> t_game \<Rightarrow> t_game" where "game_set_tileset v g = g\<lparr>g_tileset := v\<rparr>"
definition game_set_speed :: "t_game_speed \<Rightarrow> t_game \<Rightarrow> t_game" where "game_set_speed v g = g\<lparr>g_speed := v\<rparr>"
definition game_set_mapsize_x :: "u32 \<Rightarrow> t_game \<Rightarrow> t_game" where "game_set_mapsize_x v g = g\<lparr>g_mapsize_x := v\<rparr>"
definition game_set_mapsize_y :: "u32 \<Rightarrow> t_game \<Rightarrow> t_game" where "game_set_mapsize_y v g = g\<lparr>g_mapsize_y := v\<rparr>"
definition game_set_maxplayers :: "u32 \<Rightarrow> t_game \<Rightarrow> t_game" where "game_set_maxplayers v g = g\<lparr>g_maxplayers := v\<rparr>"
definition game_set_difficulty :: "u32 \<Rightarrow> t_game \<Rightarrow> t_game" where "game_set_difficulty v g = g\<lparr>g_difficulty := v\<rparr>"
definition game_set_description :: "cstring \<Rightarrow> t_game \<Rightarrow> t_game" where "game_set_description v g = g\<lparr>g_description := Some v\<rparr>"
definition game_set_mapname :: "cstring \<Rightarrow> t_game \<Rightarrow> t_game" where "game_set_mapname v g = g\<lparr>g_mapname := Some v\<rparr>"

lemmas game_setters = game_set_maptype_def game_set_tileset_def game_set_speed_def game_set_mapsize_x_def
  game_set_mapsize_y_def game_set_maxplayers_def game_set_difficulty_def game_set_description_def game_set_mapname_def

text \<open>
  Warcraft III: every eighth byte is a mask for the seven that follow; a byte whose bit is clear is
  decremented. The decoded bytes and a NUL overwrite the front of a copy of the text: the result is the
  whole buffer, with the rest of the copy behind the NUL.
\<close>

definition char_dec :: "char \<Rightarrow> char" where
  "char_dec c = char_of (((of_char c :: nat) + 255) mod 256)"

fun w3_decrypt_loop :: "cstring \<Rightarrow> nat \<Rightarrow> u8 \<Rightarrow> char list" where
  "w3_decrypt_loop [] pos bitmask = []"
| "w3_decrypt_loop (c # cs) pos bitmask =
     (if pos mod 8 \<noteq> 0
      then (if bitmask AND 1 = 0 then char_dec c else c) # w3_decrypt_loop cs (pos + 1) (drop_bit 1 bitmask)
      else w3_decrypt_loop cs (pos + 1) (word_of_int (schar c div 2)))"

definition w3_decrypt_mapinfo :: "cstring \<Rightarrow> char list" where
  "w3_decrypt_mapinfo enc = (let dec = w3_decrypt_loop enc 0 0
     in dec @ CHR 0x00 # drop (length dec + 1) (enc @ [CHR 0x00]))"

text \<open>Reads in the buffer are checked; a string must find its NUL inside.\<close>

definition buf_bytes :: "char list \<Rightarrow> nat \<Rightarrow> nat \<Rightarrow> u8 list option" where
  "buf_bytes buf off n = (if off + n \<le> length buf then Some (map char_byte (take n (drop off buf))) else None)"

definition buf_string :: "char list \<Rightarrow> nat \<Rightarrow> cstring option" where
  "buf_string buf off = (if CHR 0x00 \<in> set (drop off buf) then Some (c_str (drop off buf)) else None)"

definition game_parse_w3 :: "cstring \<Rightarrow> t_game \<Rightarrow> (int \<times> t_game) option" where
  "game_parse_w3 gameinfo game =
     (if length gameinfo = 0 then Some (-1, game)
      else if length gameinfo < 24 then Some (-1, game)
      else let pstr = w3_decrypt_mapinfo (drop 9 gameinfo) in do {
        b \<leftarrow> buf_bytes pstr 0 1;
        x \<leftarrow> buf_bytes pstr 5 2;
        y \<leftarrow> buf_bytes pstr 7 2;
        nm \<leftarrow> buf_string pstr 13;
        Some (0, game_set_mapname nm (game_set_mapsize_y (ucast (bn_short_get (Some y)))
          (game_set_mapsize_x (ucast (bn_short_get (Some x)))
            (game_set_speed (w3speed_to_gspeed (ucast (bn_byte_get (Some b)))) game)))) })"

text \<open>\<open>strtok(s, "\r")\<close>: the fields between carriage returns that are not empty.\<close>

fun split_at_char :: "char \<Rightarrow> cstring \<Rightarrow> cstring list" where
  "split_at_char d [] = [[]]"
| "split_at_char d (c # cs) = (if c = d then [] # split_at_char d cs
     else case split_at_char d cs of [] \<Rightarrow> [[c]] | f # fs \<Rightarrow> (c # f) # fs)"

definition CR :: char where "CR = CHR 0x0D"

definition field_or :: "cstring \<Rightarrow> u32 \<Rightarrow> u32" where
  "field_or f dflt = (if f = [] then dflt else case str_to_uint (Some f) (Some 0) of
     (r, Some v) \<Rightarrow> if r < 0 then dflt else v | (r, None) \<Rightarrow> dflt)"

definition game_parse_sc :: "cstring \<Rightarrow> t_game \<Rightarrow> int \<times> t_game" where
  "game_parse_sc gameinfo game = (case filter (\<lambda>f. f \<noteq> []) (split_at_char CR gameinfo) of
       line1 # line2 # _ \<Rightarrow> (case split_at_char CHR '','' line1 of
           unknown # mapsize # maxplayers # speed # maptype # gametype # option # checksum # tileset # player # _ \<Rightarrow>
             let bngmapsize = field_or mapsize 88;
                 bngmaxplayers = field_or maxplayers 8;
                 bngspeed = field_or speed CLIENT_GAMESPEED_FAST;
                 bngmaptype = field_or maptype CLIENT_MAPTYPE_SELFMADE;
                 bngtileset = field_or tileset CLIENT_TILESET_BADLANDS
             in (0, game_set_mapname line2 (game_set_tileset (bngtileset_to_gtileset bngtileset)
                  (game_set_maptype (bngmaptype_to_gmaptype bngmaptype)
                  (game_set_speed (bngspeed_to_gspeed bngspeed)
                  (game_set_maxplayers (bngmaxplayers mod 10)
                  (game_set_mapsize_y ((bngmapsize mod 10) * 32)
                  (game_set_mapsize_x ((bngmapsize div 10) * 32) game)))))))
         | _ \<Rightarrow> (-1, game))
     | _ \<Rightarrow> (-1, game))"

text \<open>Diablo II: a digit and a description; a closed game may come without.\<close>

definition game_parse_d2 :: "cstring \<Rightarrow> t_game \<Rightarrow> int \<times> t_game" where
  "game_parse_d2 gameinfo game =
     (if g_type game = game_type_diablo2closed \<and> gameinfo = []
      then (0, game_set_description [] (game_set_difficulty (game_difficulty_num game_difficulty_none) game))
      else case gameinfo of [] \<Rightarrow> (-1, game)
        | c # cs \<Rightarrow> (case str_to_uint (Some [c]) (Some 0) of
            (r, Some bngdifficulty) \<Rightarrow>
              if r < 0 then (-1, game)
              else let g = game_set_description cs (game_set_difficulty bngdifficulty game)
                   in (0, if g_type game = game_type_diablo2closed then g\<lparr>g_type := game_type_diablo2open\<rparr> else g)
          | (r, None) \<Rightarrow> (-1, game)))"

definition game_parse_info :: "cstring option \<Rightarrow> t_game \<Rightarrow> (int \<times> t_game) option" where
  "game_parse_info gameinfo game = (case gameinfo of None \<Rightarrow> Some (-1, game) | Some info \<Rightarrow>
     let clienttag = g_clienttag game in
     if clienttag = 0 then Some (-1, game)
     else if clienttag = CLIENTTAG_DIABLORTL_UINT \<or> clienttag = CLIENTTAG_DIABLOSHR_UINT
       then Some (0, game_set_maxplayers 4 game)
     else if clienttag = CLIENTTAG_DIABLO2DV_UINT \<or> clienttag = CLIENTTAG_DIABLO2XP_UINT
       then Some (game_parse_d2 info game)
     else if clienttag = CLIENTTAG_WARCRAFT3_UINT \<or> clienttag = CLIENTTAG_WAR3XP_UINT
       then game_parse_w3 info game
     else Some (game_parse_sc info game))"

section \<open>The parser stays inside its buffer\<close>

lemma w3_decrypt_count:
  "length (w3_decrypt_loop cs pos m) + (length cs + (pos + 7) mod 8) div 8 = length cs"
proof (induction cs arbitrary: pos m)
  case (Cons c cs)
  have ih: "length (w3_decrypt_loop cs (pos + 1) m') + (length cs + pos mod 8) div 8 = length cs" for m'
    using Cons.IH [of "pos + 1" m'] by simp
  show ?case
  proof (cases "pos mod 8 = 0")
    case True
    then have "(pos + 7) mod 8 = 7" by presburger
    then have "(length (c # cs) + (pos + 7) mod 8) div 8 = Suc (length cs div 8)" by simp
    then show ?thesis using ih [of "word_of_int (schar c div 2)"] True by simp
  next
    case False
    then have "length (c # cs) + (pos + 7) mod 8 = length cs + pos mod 8" by simp presburger
    then show ?thesis using ih [of "drop_bit 1 m"] False by simp
  qed
qed simp

lemma w3_decrypt_length: "length (w3_decrypt_loop cs 0 m) = length cs - (length cs + 7) div 8"
  using w3_decrypt_count [of cs 0 m] by simp

lemma decrypt_buffer: "length (w3_decrypt_mapinfo enc) \<ge> length (w3_decrypt_loop enc 0 0) + 1"
  by (simp add: w3_decrypt_mapinfo_def Let_def)

lemma game_parse_w3_total: "game_parse_w3 info g \<noteq> None"
proof (cases "length info < 24")
  case False
  let ?enc = "drop 9 info" and ?buf = "w3_decrypt_mapinfo (drop 9 info)"
  let ?k = "length (w3_decrypt_loop ?enc 0 0)"
  have dec: "13 \<le> ?k" using False w3_decrypt_length [of ?enc 0] by simp
  then have l: "13 < length ?buf" "?k < length ?buf" using decrypt_buffer [of ?enc] by simp_all
  have "?buf ! ?k = CHR 0x00" by (simp add: w3_decrypt_mapinfo_def Let_def nth_append)
  then have "drop 13 ?buf ! (?k - 13) = CHR 0x00" using dec l by simp
  moreover have "?k - 13 < length (drop 13 ?buf)" using dec l by simp
  ultimately have "CHR 0x00 \<in> set (drop 13 ?buf)" by (metis nth_mem)
  then show ?thesis using False l by (simp add: game_parse_w3_def Let_def buf_bytes_def buf_string_def)
qed (auto simp: game_parse_w3_def)

lemma game_parse_total: "game_parse_info info g \<noteq> None"
  using game_parse_w3_total [of _ g] by (cases info) (simp_all add: game_parse_info_def Let_def del: not_None_eq)

section \<open>The encoding of Warcraft III\<close>

text \<open>How the client writes the block: groups of seven bytes behind their mask, even bytes incremented.\<close>

definition char_odd :: "char \<Rightarrow> bool" where
  "char_odd c \<longleftrightarrow> odd (of_char c :: nat)"

definition w3_byte :: "char \<Rightarrow> char" where
  "w3_byte c = (if char_odd c then c else char_of ((of_char c :: nat) + 1))"

fun mask_bits :: "bool list \<Rightarrow> u8" where
  "mask_bits [] = 0"
| "mask_bits (b # bs) = (if b then 1 else 0) OR push_bit 1 (mask_bits bs)"

definition w3_mask :: "char list \<Rightarrow> char" where
  "w3_mask cs = char_of (unat (mask_bits (True # map char_odd cs)))"

function w3_encode :: "char list \<Rightarrow> cstring" where
  "w3_encode cs = (if cs = [] then []
     else w3_mask (take 7 cs) # map w3_byte (take 7 cs) @ w3_encode (drop 7 cs))"
  by pat_completeness auto

termination by (relation "measure length") auto

declare w3_encode.simps [simp del]

lemma char_nat_less: "(of_char c :: nat) < 256"
  by (rule nat_of_char_less_256)

lemma char_nat_of: "n < 256 \<Longrightarrow> (of_char (char_of n :: char) :: nat) = n"
  by (simp add: of_char_of)

lemma w3_byte_ne: "w3_byte c \<noteq> CHR 0x00"
proof -
  have "(of_char (w3_byte c) :: nat) \<noteq> 0"
  proof (cases "char_odd c")
    case False
    then have "(of_char c :: nat) + 1 < 256" using char_nat_less [of c] unfolding char_odd_def by presburger
    then show ?thesis using False by (simp add: w3_byte_def char_nat_of)
  qed (auto simp: w3_byte_def char_odd_def intro: Nat.gr0I)
  then show ?thesis by auto
qed

lemma w3_byte_dec: "(if char_odd c then w3_byte c else char_dec (w3_byte c)) = c"
proof (cases "char_odd c")
  case False
  then have e: "(of_char c :: nat) + 1 < 256" using char_nat_less [of c] unfolding char_odd_def by presburger
  have "((of_char c :: nat) + 1 + 255) mod 256 = of_char c" using char_nat_less [of c] by simp
  then show ?thesis using False e by (simp add: w3_byte_def char_dec_def char_nat_of)
qed (simp add: w3_byte_def)

lemma bit_mask_bits: "length bs \<le> 8 \<Longrightarrow> bit (mask_bits bs) i \<longleftrightarrow> i < length bs \<and> bs ! i"
proof (induction bs arbitrary: i)
  case (Cons b bs)
  have c: "bit (mask_bits (b # bs)) i \<longleftrightarrow> (b \<and> i = 0) \<or> (0 < i \<and> i < 8 \<and> bit (mask_bits bs) (i - 1))"
    unfolding mask_bits.simps bit_or_iff bit_push_bit_iff
    by (cases b) (auto simp: bit_1_iff)
  show ?case
  proof (cases i)
    case (Suc j)
    then show ?thesis using Cons.IH [of j] Cons.prems unfolding c by auto
  next
    case 0
    show ?thesis unfolding c using 0 by simp
  qed
qed simp

lemma mask_read:
  assumes "length bs \<le> 7" "i < length bs"
  shows "bit (word_of_int (schar (char_of (unat (mask_bits (True # bs)))) div 2) :: u8) i \<longleftrightarrow> bs ! i"
proof -
  let ?w = "mask_bits (True # bs)"
  have n: "(of_char (char_of (unat ?w) :: char) :: nat) = unat ?w"
    using unsigned_less [of ?w, where ?'a = nat] by (simp add: char_nat_of)
  then have ni: "(of_char (char_of (unat ?w) :: char) :: int) = uint ?w"
    by (metis of_nat_of_char uint_nat)
  have bi: "bit (schar (char_of (unat ?w)) div 2) i \<longleftrightarrow> bit (schar (char_of (unat ?w))) (Suc i)"
    by (simp add: bit_Suc)
  have "bit (uint ?w - 256) (Suc i) \<longleftrightarrow> bit (uint ?w) (Suc i)"
  proof -
    have "take_bit 8 (uint ?w - 256) = take_bit 8 (uint ?w)" by (simp add: take_bit_eq_mod)
    then have "bit (take_bit 8 (uint ?w - 256)) (Suc i) = bit (take_bit 8 (uint ?w)) (Suc i)" by simp
    then show ?thesis using assms by (simp add: bit_take_bit_iff)
  qed
  then have "bit (schar (char_of (unat ?w))) (Suc i) \<longleftrightarrow> bit (uint ?w) (Suc i)"
    unfolding schar_def Let_def ni by simp
  also have "\<dots> \<longleftrightarrow> bit ?w (Suc i)" by (simp add: bit_uint_iff) (use assms in auto)
  also have "\<dots> \<longleftrightarrow> bs ! i" using assms bit_mask_bits [of "True # bs" "Suc i"] by simp
  finally show ?thesis using bi assms by (simp add: bit_word_of_int_iff)
qed

lemma decrypt_chunk:
  "pos mod 8 \<noteq> 0 \<Longrightarrow> pos mod 8 + length ch \<le> 8 \<Longrightarrow> \<forall>i < length ch. bit bm i \<longleftrightarrow> char_odd (ch ! i) \<Longrightarrow>
   w3_decrypt_loop (map w3_byte ch @ rest) pos bm = ch @ w3_decrypt_loop rest (pos + length ch) (drop_bit (length ch) bm)"
proof (induction ch arbitrary: pos bm)
  case (Cons c ch)
  have b0: "bm AND 1 = 0 \<longleftrightarrow> \<not> char_odd c"
    using Cons.prems(3) by (auto simp: and_one_eq odd_iff_mod_2_eq_one bit_0 dest!: spec [of _ 0])
  have hd: "(if bm AND 1 = 0 then char_dec (w3_byte c) else w3_byte c) = c"
    using w3_byte_dec [of c] by (simp add: b0 split: if_splits)
  have tl: "w3_decrypt_loop (map w3_byte ch @ rest) (pos + 1) (drop_bit 1 bm)
    = ch @ w3_decrypt_loop rest (pos + 1 + length ch) (drop_bit (length ch) (drop_bit 1 bm))"
  proof (cases "ch = []")
    case False
    then have "length ch \<ge> 1" by (cases ch) auto
    then have m: "(pos + 1) mod 8 = pos mod 8 + 1" using Cons.prems(1,2) by simp presburger
    have "\<forall>i < length ch. bit (drop_bit 1 bm) i \<longleftrightarrow> char_odd (ch ! i)"
      using Cons.prems(3) by (auto simp: bit_drop_bit_eq dest!: spec [of _ "Suc _"])
    then show ?thesis using Cons.IH [of "pos + 1" "drop_bit 1 bm"] m Cons.prems(2) by simp
  qed simp
  show ?case using Cons.prems(1) hd tl by (simp add: drop_bit_drop_bit add.commute)
qed simp

lemma w3_decrypt_encode: "pos mod 8 = 0 \<Longrightarrow> w3_decrypt_loop (w3_encode cs) pos m = cs"
proof (induction cs arbitrary: pos m rule: w3_encode.induct)
  case (1 cs)
  show ?case
  proof (cases "cs = []")
    case False
    let ?bm = "word_of_int (schar (w3_mask (take 7 cs)) div 2) :: u8"
    have p1: "(pos + 1) mod 8 = 1" using 1(2) by presburger
    have bits: "\<forall>i < length (take 7 cs). bit ?bm i \<longleftrightarrow> char_odd (take 7 cs ! i)"
      using mask_read [of "map char_odd (take 7 cs)"] by (simp add: w3_mask_def)
    have c: "w3_decrypt_loop (map w3_byte (take 7 cs) @ w3_encode (drop 7 cs)) (pos + 1) ?bm
        = take 7 cs @ w3_decrypt_loop (w3_encode (drop 7 cs)) (pos + 1 + length (take 7 cs)) (drop_bit (length (take 7 cs)) ?bm)"
      using bits p1 by (intro decrypt_chunk) simp_all
    have r: "w3_decrypt_loop (w3_encode (drop 7 cs)) (pos + 1 + length (take 7 cs)) (drop_bit (length (take 7 cs)) ?bm) = drop 7 cs"
    proof (cases "length cs < 7")
      case True
      then show ?thesis by (simp add: w3_encode.simps)
    next
      case no: False
      then have "(pos + 1 + length (take 7 cs)) mod 8 = 0" using 1(2) by simp
      then show ?thesis by (intro 1(1) False)
    qed
    show ?thesis using False 1(2) c r by (simp add: w3_encode.simps [of cs])
  qed (simp add: w3_encode.simps)
qed

lemma w3_encode_no_nul: "CHR 0x00 \<notin> set (w3_encode cs)"
proof (induction cs rule: w3_encode.induct)
  case (1 cs)
  have m: "w3_mask ds \<noteq> CHR 0x00" if "length ds \<le> 7" for ds
  proof -
    have "bit (mask_bits (True # map char_odd ds)) 0" using that by (subst bit_mask_bits) simp_all
    then have "unat (mask_bits (True # map char_odd ds)) \<noteq> 0" by (auto simp: unat_eq_zero)
    moreover have "(of_char (w3_mask ds) :: nat) = unat (mask_bits (True # map char_odd ds))"
      using unsigned_less [of "mask_bits (True # map char_odd ds)", where ?'a = nat]
      by (simp add: w3_mask_def char_nat_of)
    ultimately show ?thesis by auto
  qed
  show ?case
  proof (cases "cs = []")
    case False
    then show ?thesis using 1 [OF False] m [of "take 7 cs"] w3_byte_ne [THEN not_sym]
      by (subst w3_encode.simps) (auto simp: image_iff)
  qed (simp add: w3_encode.simps)
qed

definition u8_char :: "u8 \<Rightarrow> char" where
  "u8_char b = char_of (unat b)"

definition short_chars :: "u16 \<Rightarrow> char list" where
  "short_chars w = [u8_char (ucast w), u8_char (ucast (drop_bit 8 w))]"

lemma char_byte_u8 [simp]: "char_byte (u8_char b) = b"
proof -
  have "(of_char (u8_char b) :: nat) = unat b"
    using unsigned_less [of b, where ?'a = nat] by (simp add: u8_char_def char_nat_of)
  then show ?thesis by (simp add: char_byte_def)
qed

lemma short_chars_read: "bn_short_get (Some (map char_byte (short_chars w))) = w"
  unfolding short_chars_def bn_short_get_def
  by (rule bit_word_eqI) (auto simp: bit_simps)

text \<open>The settings of a Warcraft III game as they stand in the block, before it is encoded.\<close>

definition w3_block :: "u8 \<Rightarrow> char list \<Rightarrow> u16 \<Rightarrow> u16 \<Rightarrow> char list \<Rightarrow> cstring \<Rightarrow> char list \<Rightarrow> char list" where
  "w3_block speed opts x y check mapname rest =
     u8_char speed # opts @ short_chars x @ short_chars y @ check @ mapname @ CHR 0x00 # rest"

lemma game_parse_w3_block:
  assumes "length pre = 9" "length opts = 4" "length check = 4" "CHR 0x00 \<notin> set mapname"
  shows "game_parse_w3 (pre @ w3_encode (w3_block speed opts x y check mapname rest)) game
    = Some (0, game\<lparr>g_speed := w3speed_to_gspeed (ucast speed), g_mapsize_x := ucast x, g_mapsize_y := ucast y,
        g_mapname := Some mapname\<rparr>)"
proof -
  let ?b = "w3_block speed opts x y check mapname rest"
  let ?buf = "w3_decrypt_mapinfo (w3_encode ?b)"
  have lb: "14 \<le> length ?b" using assms by (simp add: w3_block_def short_chars_def)
  have le: "length (w3_encode ?b) = length ?b + (length (w3_encode ?b) + 7) div 8"
    using w3_decrypt_length [of "w3_encode ?b" 0] w3_decrypt_encode [of 0 ?b 0] by simp
  have long: "24 \<le> length (pre @ w3_encode ?b)" using lb le assms(1) by simp
  obtain junk where buf: "?buf = ?b @ CHR 0x00 # junk"
    using w3_decrypt_encode [of 0 ?b 0] by (simp add: w3_decrypt_mapinfo_def Let_def)
  obtain o1 o2 o3 o4 where o: "opts = [o1, o2, o3, o4]" using assms(2) by (auto simp: numeral_eq_Suc length_Suc_conv)
  obtain k1 k2 k3 k4 where k: "check = [k1, k2, k3, k4]" using assms(3) by (auto simp: numeral_eq_Suc length_Suc_conv)
  have reads: "buf_bytes ?buf 0 1 = Some [speed]"
      "buf_bytes ?buf 5 2 = Some (map char_byte (short_chars x))"
      "buf_bytes ?buf 7 2 = Some (map char_byte (short_chars y))"
    unfolding buf by (simp_all add: buf_bytes_def w3_block_def o k short_chars_def)
  have name: "buf_string ?buf 13 = Some mapname"
    unfolding buf using assms(4)
    by (auto simp: buf_string_def w3_block_def o k short_chars_def c_str_def takeWhile_append)
  have b: "bn_byte_get (Some [speed]) = speed" by (simp add: bn_byte_get_def)
  have d: "drop 9 (pre @ w3_encode ?b) = w3_encode ?b" using assms(1) by simp
  have ln: "length (pre @ w3_encode ?b) \<noteq> 0" "\<not> length (pre @ w3_encode ?b) < 24" using long by auto
  show ?thesis
    unfolding game_parse_w3_def d Let_def reads name bind.bind_lunit short_chars_read b game_setters
    using ln by (simp only: if_False)
qed

section \<open>Numbers and types\<close>

lemma type_roundtrip_table:
  "list_all (\<lambda>(b, t). gtype_to_bngtype t = b) bngtype_sc"
  "list_all (\<lambda>(b, t). gtype_to_bngtype t = (if t = game_type_ironman then 0xffff else b)) bngtype_w2"
  "list_all (\<lambda>(b, t). t \<noteq> game_type_none) (bngtype_sc @ bngtype_w2)"
  by code_simp+

lemma switch_table_hit: "switch_table cs d k \<noteq> d \<Longrightarrow> (k, switch_table cs d k) \<in> set cs"
  by (auto simp: switch_table_def split: option.splits dest: map_of_SomeD)

section \<open>Properties\<close>

text \<open>
  C25. The block a Warcraft III client encodes into the game information is read back by the server: for
  every speed, map size, check bytes and map name (and whatever bytes follow), in every group of seven,
  the encoded text has no NUL, and \<open>game_parse_info\<close> stores exactly these settings in the game.
\<close>

theorem game_info_w3_roundtrip:
  assumes "g_clienttag game \<in> {CLIENTTAG_WARCRAFT3_UINT, CLIENTTAG_WAR3XP_UINT}"
    and "length pre = 9" and "length opts = 4" and "length check = 4" and "CHR 0x00 \<notin> set mapname"
  shows "CHR 0x00 \<notin> set (w3_encode (w3_block speed opts x y check mapname rest))
    \<and> game_parse_info (Some (pre @ w3_encode (w3_block speed opts x y check mapname rest))) game
      = Some (0, game\<lparr>g_speed := w3speed_to_gspeed (ucast speed), g_mapsize_x := ucast x, g_mapsize_y := ucast y,
          g_mapname := Some mapname\<rparr>)"
proof
  show "CHR 0x00 \<notin> set (w3_encode (w3_block speed opts x y check mapname rest))" by (rule w3_encode_no_nul)
  have "g_clienttag game \<noteq> 0" "g_clienttag game \<notin> {CLIENTTAG_DIABLORTL_UINT, CLIENTTAG_DIABLOSHR_UINT,
      CLIENTTAG_DIABLO2DV_UINT, CLIENTTAG_DIABLO2XP_UINT}"
    using assms(1) by (auto simp: tag_defs)
  then show "game_parse_info (Some (pre @ w3_encode (w3_block speed opts x y check mapname rest))) game
      = Some (0, game\<lparr>g_speed := w3speed_to_gspeed (ucast speed), g_mapsize_x := ucast x, g_mapsize_y := ucast y,
          g_mapname := Some mapname\<rparr>)"
    using assms(1) game_parse_w3_block [OF assms(2-5)] by (simp add: game_parse_info_def Let_def)
qed

definition demo_game :: "u32 \<Rightarrow> t_game_type \<Rightarrow> t_game" where
  "demo_game tag ty = \<lparr>g_name = Some ''demo'', g_pass = [], g_info = [], g_type = ty, g_realm = 0, g_realmname = None,
     g_clienttag = tag, g_addr = 0, g_port = 0, g_startver = 0, g_version = 0, g_status = game_status_open, g_ref = 0,
     g_count = 0, g_id = 1, g_mapname = None, g_option = game_option_none, g_maptype = game_maptype_none,
     g_tileset = game_tileset_none, g_speed = game_speed_none, g_mapsize_x = 0, g_mapsize_y = 0, g_maxplayers = 0,
     g_owner = None, g_connections = None, g_players = None, g_results = None, g_reported_results = None,
     g_report_heads = None, g_report_bodies = None, g_channel = None, g_create_time = 0, g_start_time = 0,
     g_lastaccess_time = 0, g_bad = False, g_difficulty = 0, g_description = None, g_flag = game_flag_none\<rparr>"

theorem game_info_w3_roundtrip_witness:
  "CHR 0x00 \<notin> set (w3_encode (w3_block 1 ''abcd'' 96 128 ''wxyz'' ''Maps/x.w3m'' ''host''))
   \<and> game_parse_info (Some (''123456789'' @ w3_encode (w3_block 1 ''abcd'' 96 128 ''wxyz'' ''Maps/x.w3m'' ''host'')))
       (demo_game CLIENTTAG_WARCRAFT3_UINT game_type_melee)
     = Some (0, (demo_game CLIENTTAG_WARCRAFT3_UINT game_type_melee)\<lparr>g_speed := game_speed_normal, g_mapsize_x := 96,
          g_mapsize_y := 128, g_mapname := Some ''Maps/x.w3m''\<rparr>)"
  using game_info_w3_roundtrip [of "demo_game CLIENTTAG_WARCRAFT3_UINT game_type_melee" "''123456789''" "''abcd''" "''wxyz''"
      "''Maps/x.w3m''" 1 96 128 "''host''"]
  by (simp add: demo_game_def w3speed_to_gspeed_def switch_table_def)

definition same_but_settings :: "t_game \<Rightarrow> t_game \<Rightarrow> bool" where
  "same_but_settings g h \<longleftrightarrow>
     h\<lparr>g_maptype := g_maptype g, g_tileset := g_tileset g, g_speed := g_speed g, g_mapsize_x := g_mapsize_x g,
       g_mapsize_y := g_mapsize_y g, g_maxplayers := g_maxplayers g, g_difficulty := g_difficulty g,
       g_description := g_description g, g_mapname := g_mapname g, g_type := g_type g\<rparr> = g"

lemma parse_w3_settings: "game_parse_w3 info g = Some (r, g') \<Longrightarrow> same_but_settings g g' \<and> (r = 0 \<or> r = -1 \<and> g' = g)"
  by (auto simp: game_parse_w3_def Let_def same_but_settings_def game_setters split: if_splits bind_splits)

lemma parse_sc_settings: "game_parse_sc info g = (r, g') \<Longrightarrow> same_but_settings g g' \<and> (r = 0 \<or> r = -1 \<and> g' = g)"
  by (auto simp: game_parse_sc_def Let_def same_but_settings_def game_setters split: list.splits)

lemma parse_d2_settings: "game_parse_d2 info g = (r, g') \<Longrightarrow> same_but_settings g g' \<and> (r = 0 \<or> r = -1 \<and> g' = g)"
  by (auto simp: game_parse_d2_def Let_def same_but_settings_def game_setters split: list.splits prod.splits option.splits if_splits)

lemma game_parse_settings:
  "\<exists>r g'. game_parse_info info game = Some (r, g') \<and> same_but_settings game g' \<and> (r = 0 \<or> r = -1 \<and> g' = game)"
proof -
  obtain r g' where p: "game_parse_info info game = Some (r, g')" using game_parse_total [of info game] by auto
  have "same_but_settings game game" "same_but_settings game (game_set_maxplayers 4 game)"
    by (simp_all add: same_but_settings_def game_setters)
  then have "same_but_settings game g' \<and> (r = 0 \<or> r = -1 \<and> g' = game)"
    using p parse_w3_settings [of _ game r g'] parse_sc_settings [of _ game r g'] parse_d2_settings [of _ game r g']
    by (cases info) (simp_all add: game_parse_info_def Let_def split: if_splits)
  then show ?thesis using p by blast
qed

text \<open>
  C26. The parser of the game information never reads outside its buffers and always returns, whatever
  string a client sends for whatever game; an error leaves the game unchanged, and a success changes
  nothing but the settings (map, speed, players, difficulty, description, and the type of an open
  Diablo II game declared closed).
\<close>

theorem game_parse_info_safe:
  "\<exists>r g'. game_parse_info info game = Some (r, g') \<and> same_but_settings game g' \<and> (r = 0 \<or> r = -1 \<and> g' = game)"
  by (rule game_parse_settings)

text \<open>
  The number a Starcraft or Warcraft II client gives for the type of a new game is the number the
  server lists the game under, and the one that selects it in a list request, for every number the
  server knows; only ironman games of Warcraft II are listed under 0xFFFF.
\<close>

lemma game_type_roundtrip:
  assumes "clienttag \<in> {CLIENTTAG_STARCRAFT_UINT, CLIENTTAG_BROODWARS_UINT, CLIENTTAG_SHAREWARE_UINT, CLIENTTAG_WARCIIBNE_UINT}"
    and "bngtype_to_gtype clienttag n \<noteq> game_type_none"
  shows "gtype_to_bngtype (bngtype_to_gtype clienttag n)
      = (if bngtype_to_gtype clienttag n = game_type_ironman then 0xffff else n)
    \<and> bngreqtype_to_gtype clienttag n = bngtype_to_gtype clienttag n"
proof (cases "clienttag = CLIENTTAG_WARCIIBNE_UINT")
  case True
  then have e: "bngtype_to_gtype clienttag n = switch_table bngtype_w2 game_type_none n"
    "bngreqtype_to_gtype clienttag n = switch_table bngreqtype_w2 game_type_none n"
    by (simp_all add: bngtype_to_gtype_def bngreqtype_to_gtype_def tag_defs)
  have m: "(n, bngtype_to_gtype clienttag n) \<in> set bngtype_w2"
    using assms(2) switch_table_hit [of bngtype_w2 game_type_none n] unfolding e by blast
  then have "switch_table bngreqtype_w2 game_type_none n = switch_table bngtype_w2 game_type_none n"
    by (auto simp: bngtype_w2_def bngreqtype_w2_def switch_table_def)
  then show ?thesis using m type_roundtrip_table(2) unfolding e by (auto simp: list_all_iff)
next
  case False
  then have e: "bngtype_to_gtype clienttag n = switch_table bngtype_sc game_type_none n"
    "bngreqtype_to_gtype clienttag n = switch_table bngreqtype_sc game_type_none n"
    using assms(1) by (auto simp: bngtype_to_gtype_def bngreqtype_to_gtype_def tag_defs)
  have m: "(n, bngtype_to_gtype clienttag n) \<in> set bngtype_sc"
    using assms(2) switch_table_hit [of bngtype_sc game_type_none n] unfolding e by blast
  have i: "list_all (\<lambda>(b, t). t \<noteq> game_type_ironman) bngtype_sc" by code_simp
  have "bngreqtype_sc = bngtype_sc" by (simp add: bngreqtype_sc_def bngtype_sc_def)
  then show ?thesis using m i type_roundtrip_table(1) unfolding e by (auto simp: list_all_iff)
qed

lemma game_type_roundtrip_witness:
  "bngtype_to_gtype CLIENTTAG_BROODWARS_UINT 4 = game_type_oneonone
   \<and> gtype_to_bngtype (bngtype_to_gtype CLIENTTAG_BROODWARS_UINT 4) = 4"
proof -
  have v: "bngtype_to_gtype CLIENTTAG_BROODWARS_UINT 4 = game_type_oneonone" by code_simp
  then show ?thesis using game_type_roundtrip [of CLIENTTAG_BROODWARS_UINT 4] by simp
qed

end
