(* ===== verification/Bnetd_Game.thy ===== *)
theory Bnetd_Game
  imports Game_Conv
begin

text \<open>
  \<^verbatim>\<open>bnetd/game.cpp\<close> and the part of \<^verbatim>\<open>bnetd/connection.cpp\<close> that moves connections into and out of games:
  the list of games, players joining and leaving, reported results and their evaluation, the statistics
  a finished game adds to the accounts. The state has the games by address, the list of games, and the
  game of every connection; calls into the account, ladder, realm, watch and message modules are recorded
  in order. The environment gives what these modules and the configuration answer. \<open>None\<close> as the result
  of an operation is a dereference of a freed game or an access outside an array.
\<close>

section \<open>State and environment\<close>

datatype t_ladder_id = ladder_id_none | ladder_id_normal | ladder_id_ironman | ladder_id_solo | ladder_id_team
  | ladder_id_ffa | ladder_id_ateam

datatype game_call =
    Watch_leavegame nat u32
  | Realm_add_game_number cstring int
  | D2cs_gameinforeq nat
  | Message_info nat cstring
  | Inc_normal "nat option" u32 t_game_result
  | Set_normal_last_result "nat option" u32 cstring
  | Set_normal_last_time "nat option" u32
  | Ladder_init_account "nat option" u32 t_ladder_id
  | Inc_ladder "nat option" u32 t_ladder_id t_game_result
  | Set_ladder_last_result "nat option" u32 t_ladder_id cstring
  | Set_ladder_last_time "nat option" u32 t_ladder_id
  | Ladder_update u32 t_ladder_id "(nat option \<times> t_game_result) list"
  | Report_file nat bool

record game_env =
  ge_account :: "nat \<Rightarrow> nat"
  ge_game_addr :: "nat \<Rightarrow> u32"
  ge_game_port :: "nat \<Rightarrow> u16"
  ge_clienttag :: "nat \<Rightarrow> u32"
  ge_gameversion :: "nat \<Rightarrow> u64"
  ge_wol :: "nat \<Rightarrow> bool"
  ge_realm :: "nat \<Rightarrow> cstring option"
  ge_normal_wins :: "nat \<Rightarrow> u32 \<Rightarrow> nat"
  ge_report_diablo_games :: bool
  ge_report_all_games :: bool
  ge_ladder_games :: "cstring option"
  ge_ladder_prefix :: "cstring option"
  ge_discisloss :: bool
  ge_now :: int

record game_state =
  games :: "nat \<Rightarrow> t_game option"
  gamelist :: "nat list"
  glist_length :: int
  totalcount :: nat
  game_fresh :: nat
  conn_game :: "nat \<Rightarrow> nat option"
  leave_ack :: "nat \<Rightarrow> bool"
  game_calls :: "game_call list"

definition MAX_GAME_EMPTY_TIME :: int where "MAX_GAME_EMPTY_TIME = 300"
definition STARTVER_UNKNOWN :: int where "STARTVER_UNKNOWN = 0"
definition STARTVER_GW1 :: int where "STARTVER_GW1 = 1"
definition STARTVER_GW3 :: int where "STARTVER_GW3 = 3"
definition STARTVER_GW4 :: int where "STARTVER_GW4 = 4"
definition STARTVER_REALM1 :: int where "STARTVER_REALM1 = 104"

definition note_calls :: "game_call list \<Rightarrow> game_state \<Rightarrow> game_state" where
  "note_calls cs s = s\<lparr>game_calls := game_calls s @ cs\<rparr>"

definition put_game :: "nat \<Rightarrow> t_game \<Rightarrow> game_state \<Rightarrow> game_state" where
  "put_game a g s = s\<lparr>games := (games s)(a \<mapsto> g)\<rparr>"

definition gamelist_create :: "game_state \<Rightarrow> game_state" where
  "gamelist_create s = s\<lparr>gamelist := [], glist_length := 0\<rparr>"

section \<open>Arrays\<close>

text \<open>An access through a NULL array or outside it is \<open>None\<close>.\<close>

definition arr_get :: "'a list option \<Rightarrow> nat \<Rightarrow> 'a option" where
  "arr_get arr i = (case arr of None \<Rightarrow> None | Some xs \<Rightarrow> if i < length xs then Some (xs ! i) else None)"

definition arr_set :: "'a list option \<Rightarrow> nat \<Rightarrow> 'a \<Rightarrow> 'a list option option" where
  "arr_set arr i v = (case arr of None \<Rightarrow> None | Some xs \<Rightarrow> if i < length xs then Some (Some (xs[i := v])) else None)"

text \<open>\<open>xrealloc\<close> to \<open>n + 1\<close> elements, of which the last is written.\<close>

definition arr_grow :: "'a list option \<Rightarrow> nat \<Rightarrow> 'a \<Rightarrow> 'a list option option" where
  "arr_grow arr n v = (case arr of None \<Rightarrow> if n = 0 then Some (Some [v]) else None
     | Some xs \<Rightarrow> if n \<le> length xs then Some (Some (take n xs @ [v])) else None)"

text \<open>The first index below \<open>n\<close> at which the test holds; the test may fault.\<close>

fun first_index :: "(nat \<Rightarrow> bool option) \<Rightarrow> nat list \<Rightarrow> nat option option" where
  "first_index p [] = Some None"
| "first_index p (i # is) = do { b \<leftarrow> p i; if b then Some (Some i) else first_index p is }"

section \<open>Finding games\<close>

definition game_get_name :: "t_game \<Rightarrow> cstring" where
  "game_get_name g = (case g_name g of None \<Rightarrow> ''BNet'' | Some n \<Rightarrow> n)"

definition game_named :: "cstring \<Rightarrow> u32 \<Rightarrow> t_game_type \<Rightarrow> t_game \<Rightarrow> bool" where
  "game_named nm ctag ty g \<longleftrightarrow> (ty = game_type_all \<or> g_type g = ty) \<and> ctag = g_clienttag g
     \<and> (case g_name g of None \<Rightarrow> False | Some n \<Rightarrow> strcasecmp nm n = 0)"

definition game_available :: "t_game \<Rightarrow> bool" where
  "game_available g \<longleftrightarrow> g_status g \<noteq> game_status_started \<and> g_status g \<noteq> game_status_done"

fun find_in_list :: "(t_game \<Rightarrow> bool) \<Rightarrow> nat list \<Rightarrow> game_state \<Rightarrow> nat option option" where
  "find_in_list p [] s = Some None"
| "find_in_list p (a # as) s = do { g \<leftarrow> games s a; if p g then Some (Some a) else find_in_list p as s }"

definition gamelist_find_game :: "cstring \<Rightarrow> u32 \<Rightarrow> t_game_type \<Rightarrow> game_state \<Rightarrow> nat option option" where
  "gamelist_find_game nm ctag ty s = find_in_list (game_named nm ctag ty) (gamelist s) s"

definition gamelist_find_game_available :: "cstring \<Rightarrow> u32 \<Rightarrow> t_game_type \<Rightarrow> game_state \<Rightarrow> nat option option" where
  "gamelist_find_game_available nm ctag ty s =
     find_in_list (\<lambda>g. game_named nm ctag ty g \<and> game_available g) (gamelist s) s"

definition gamelist_find_game_byid :: "nat \<Rightarrow> game_state \<Rightarrow> nat option option" where
  "gamelist_find_game_byid i s = find_in_list (\<lambda>g. g_id g = i) (gamelist s) s"

fun count_games :: "u32 \<Rightarrow> nat list \<Rightarrow> game_state \<Rightarrow> nat option" where
  "count_games ct [] s = Some 0"
| "count_games ct (a # as) s = do { g \<leftarrow> games s a; n \<leftarrow> count_games ct as s;
     Some (if g_clienttag g = ct then n + 1 else n) }"

definition game_get_count_by_clienttag :: "u32 \<Rightarrow> game_state \<Rightarrow> nat option" where
  "game_get_count_by_clienttag ct s = (if ct = 0 then Some 0 else count_games ct (gamelist s) s)"

section \<open>Creating and destroying\<close>

definition new_game :: "cstring \<Rightarrow> cstring \<Rightarrow> cstring \<Rightarrow> t_game_type \<Rightarrow> int \<Rightarrow> u32 \<Rightarrow> u64 \<Rightarrow> int \<Rightarrow> nat \<Rightarrow> t_game" where
  "new_game nm pass info ty startver clienttag gameversion now i =
     \<lparr>g_name = Some nm, g_pass = pass, g_info = info, g_type = ty, g_realm = 0, g_realmname = None,
      g_clienttag = clienttag, g_addr = 0, g_port = 0, g_startver = startver, g_version = gameversion,
      g_status = game_status_open, g_ref = 0, g_count = 0, g_id = i, g_mapname = None,
      g_option = game_option_none, g_maptype = game_maptype_none, g_tileset = game_tileset_none,
      g_speed = game_speed_none, g_mapsize_x = 0, g_mapsize_y = 0, g_maxplayers = 0, g_owner = None,
      g_connections = None, g_players = None, g_results = None, g_reported_results = None,
      g_report_heads = None, g_report_bodies = None, g_channel = None, g_create_time = now,
      g_start_time = 0, g_lastaccess_time = now, g_bad = False,
      g_difficulty = game_difficulty_num game_difficulty_none, g_description = None,
      g_flag = (if pass \<noteq> [] then game_flag_private else game_flag_none)\<rparr>"

text \<open>The new game is inserted at the front of the list. The address is one no live game has.\<close>

definition game_create ::
  "game_env \<Rightarrow> cstring option \<Rightarrow> cstring option \<Rightarrow> cstring option \<Rightarrow> t_game_type \<Rightarrow> int \<Rightarrow> u32 \<Rightarrow> u64 \<Rightarrow>
   game_state \<Rightarrow> (nat option \<times> game_state) option" where
  "game_create env nm pass info ty startver clienttag gameversion s = (case (nm, pass, info) of
       (Some nm', Some pass', Some info') \<Rightarrow> do {
         old \<leftarrow> gamelist_find_game_available nm' clienttag game_type_all s;
         if old \<noteq> None then Some (None, s)
         else if clienttag = 0 then Some (None, s)
         else do {
           let i = totalcount s + 1;
           (r, g) \<leftarrow> game_parse_info info (new_game nm' pass' info' ty startver clienttag gameversion (ge_now env) i);
           let a = game_fresh s;
           Some (Some a, s\<lparr>games := (games s)(a \<mapsto> g), gamelist := a # gamelist s, glist_length := glist_length s + 1,
             totalcount := i, game_fresh := a + 1\<rparr>) } }
     | _ \<Rightarrow> Some (None, s))"

definition game_destroy :: "nat \<Rightarrow> game_state \<Rightarrow> game_state option" where
  "game_destroy a s = do {
     g \<leftarrow> games s a;
     let s1 = s\<lparr>games := (games s)(a := None), gamelist := remove1 a (gamelist s), glist_length := glist_length s - 1\<rparr>;
     Some (case g_realmname g of None \<Rightarrow> s1 | Some r \<Rightarrow> note_calls [Realm_add_game_number r (-1)] s1) }"

section \<open>Results\<close>

definition game_match_type :: "t_game_type \<Rightarrow> cstring option \<Rightarrow> bool" where
  "game_match_type ty gametypes = (case gametypes of None \<Rightarrow> False
     | Some l \<Rightarrow> l \<noteq> [] \<and> list_ex (\<lambda>p.
         if strcaseeq p ''topvbot'' then ty = game_type_topvbot
         else if strcaseeq p ''melee'' then ty = game_type_melee
         else if strcaseeq p ''ffa'' then ty = game_type_ffa
         else if strcaseeq p ''oneonone'' then ty = game_type_oneonone else False) (comma_items l))"

definition game_match_name :: "cstring \<Rightarrow> cstring option \<Rightarrow> bool" where
  "game_match_name nm prefix = (nm = [] \<or> (case prefix of None \<Rightarrow> True
     | Some p \<Rightarrow> p = [] \<or> take (length p) nm = p))"

definition game_is_ladder :: "game_env \<Rightarrow> t_game \<Rightarrow> bool" where
  "game_is_ladder env g \<longleftrightarrow> g_type g = game_type_ladder \<or> g_type g = game_type_ironman
     \<or> (game_match_type (g_type g) (ge_ladder_games env) \<and> game_match_name (game_get_name g) (ge_ladder_prefix env))"

definition game_discisloss :: "game_env \<Rightarrow> t_game \<Rightarrow> bool" where
  "game_discisloss env g =
     (if ge_discisloss env then True
      else if g_type g = game_type_ladder \<or> g_type g = game_type_ironman then g_option g = game_option_ladder_countasloss
      else if game_match_type (g_type g) (ge_ladder_games env) \<and> game_match_name (game_get_name g) (ge_ladder_prefix env)
        then True
      else g_option g = game_option_ladder_countasloss)"

text \<open>The reports about slot \<open>i\<close>, one for every slot that reported.\<close>

fun reports_about :: "nat \<Rightarrow> t_game_result list option list \<Rightarrow> t_game_result list option" where
  "reports_about i [] = Some []"
| "reports_about i (None # rs) = reports_about i rs"
| "reports_about i (Some arr # rs) = (if i < length arr then do { xs \<leftarrow> reports_about i rs; Some (arr ! i # xs) } else None)"

definition tally :: "t_game_result \<Rightarrow> t_game_result list \<Rightarrow> nat" where
  "tally r xs = length (filter (\<lambda>x. x = r) xs)"

definition decide :: "bool \<Rightarrow> t_game_result list \<Rightarrow> t_game_result option" where
  "decide discisloss xs =
     (let wins = tally game_result_win xs; losses = tally game_result_loss xs;
          draws = tally game_result_draw xs; disconnects = tally game_result_disconnect xs
      in if wins + losses + draws + disconnects = 0 then Some game_result_none
         else if disconnects \<ge> draws \<and> disconnects \<ge> losses \<and> disconnects \<ge> wins
           then Some (if discisloss then game_result_loss else game_result_disconnect)
         else if losses \<ge> wins \<and> losses \<ge> draws then Some game_result_loss
         else if draws \<ge> wins then Some game_result_draw
         else if wins \<noteq> 0 then Some game_result_win else None)"

text \<open>The result keeps its old value where no branch decides.\<close>

fun evaluate_slots ::
  "bool \<Rightarrow> t_game_result list option list \<Rightarrow> nat list \<Rightarrow> t_game_result list \<Rightarrow> t_game_result list option" where
  "evaluate_slots disc reps [] results = Some results"
| "evaluate_slots disc reps (i # is) results = do {
     xs \<leftarrow> reports_about i reps;
     if i < length results
     then evaluate_slots disc reps is (case decide disc xs of None \<Rightarrow> results | Some r \<Rightarrow> results[i := r])
     else None }"

definition game_evaluate_results :: "game_env \<Rightarrow> t_game \<Rightarrow> (int \<times> t_game) option" where
  "game_evaluate_results env g = (case (g_results g, g_reported_results g) of
       (Some results, Some reps) \<Rightarrow>
         if length reps < g_count g then None
         else do {
           results' \<leftarrow> evaluate_slots (game_discisloss env g) (take (g_count g) reps) [0..<g_count g] results;
           Some (0, g\<lparr>g_results := Some results'\<rparr>) }
     | _ \<Rightarrow> Some (-1, g))"

definition game_sanity_check :: "t_game_result list \<Rightarrow> nat option list \<Rightarrow> nat \<Rightarrow> bool \<Rightarrow> int" where
  "game_sanity_check results players count discisloss =
     (let rs = take count results;
          winners = tally game_result_win rs; losers = tally game_result_loss rs; draws = tally game_result_draw rs
      in if None \<in> set (take count players) then -1
         else if \<not> list_all (\<lambda>r. r \<in> {game_result_win, game_result_loss, game_result_draw, game_result_disconnect}) rs then -1
         else if draws > 0 then (if draws \<noteq> count then -1 else 0)
         else if discisloss \<and> (losers < 1 \<or> winners < 1 \<or> (winners > 1 \<and> winners \<noteq> losers)) then -1
         else 0)"

text \<open>
  The loop that moves the real players to the front of the arrays, at \<open>i\<close> with \<open>n\<close> found so far, and the
  loop that clears the slots behind them.
\<close>

type_synonym report_rows = "nat option list \<times> t_game_result list \<times> cstring option list \<times> cstring option list"

fun compact_players :: "nat list \<Rightarrow> nat \<Rightarrow> report_rows \<Rightarrow> nat \<times> report_rows" where
  "compact_players [] n rows = (n, rows)"
| "compact_players (i # is) n (ps, rs, hs, bs) =
     (if ps ! i = None then compact_players is n (ps, rs, hs, bs)
      else if rs ! i \<noteq> game_result_none
        then compact_players is (n + 1) (ps[n := ps ! i], rs[n := rs ! i], hs[n := hs ! i], bs[n := bs ! i])
      else compact_players is n (ps, rs, hs, bs))"

fun clear_slots :: "nat list \<Rightarrow> report_rows \<Rightarrow> report_rows" where
  "clear_slots [] rows = rows"
| "clear_slots (i # is) (ps, rs, hs, bs) = clear_slots is (ps[i := None], rs[i := game_result_none], hs[i := None], bs[i := None])"

definition normal_calls :: "u32 \<Rightarrow> nat option \<times> t_game_result \<Rightarrow> game_call list" where
  "normal_calls tag pr = (case pr of (p, r) \<Rightarrow>
     let q = (if r \<in> {game_result_win, game_result_loss, game_result_draw} then r else game_result_disconnect)
     in [Inc_normal p tag q, Set_normal_last_result p tag (game_result_get_str q), Set_normal_last_time p tag])"

definition ladder_calls :: "u32 \<Rightarrow> t_ladder_id \<Rightarrow> nat option \<times> t_game_result \<Rightarrow> game_call list" where
  "ladder_calls tag lid pr = (case pr of (p, r) \<Rightarrow>
     let q = (if r \<in> {game_result_win, game_result_loss, game_result_draw} then r else game_result_disconnect)
     in [Ladder_init_account p tag lid, Inc_ladder p tag lid q, Set_ladder_last_result p tag lid (game_result_get_str q),
         Set_ladder_last_time p tag lid])"

definition wol_ladder_calls :: "u32 \<Rightarrow> nat option \<times> t_game_result \<Rightarrow> game_call list" where
  "wol_ladder_calls tag pr = (case pr of (p, r) \<Rightarrow>
     let q = (if r \<in> {game_result_win, game_result_loss} then r else game_result_disconnect)
     in [Ladder_init_account p tag ladder_id_solo, Inc_ladder p tag ladder_id_solo q])"

definition is_wol :: "u32 \<Rightarrow> bool" where
  "is_wol tag \<longleftrightarrow> tag_check_wolv1 tag \<or> tag_check_wolv2 tag"

definition no_ladder_wol :: "u32 list" where
  "no_ladder_wol = [CLIENTTAG_WCHAT_UINT, CLIENTTAG_REDALERT_UINT, CLIENTTAG_DUNE2000_UINT, CLIENTTAG_NOX_UINT,
     CLIENTTAG_NOXQUEST_UINT, CLIENTTAG_RENEGADE_UINT, CLIENTTAG_RENGDFDS_UINT, CLIENTTAG_EMPERORBD_UINT,
     CLIENTTAG_LOFLORE3_UINT, CLIENTTAG_WWOL_UINT]"

definition diablo_tags :: "u32 list" where
  "diablo_tags = [CLIENTTAG_DIABLOSHR_UINT, CLIENTTAG_DIABLORTL_UINT, CLIENTTAG_DIABLO2ST_UINT, CLIENTTAG_DIABLO2DV_UINT,
     CLIENTTAG_DIABLO2XP_UINT]"

text \<open>The statistics of the first \<open>n\<close> players.\<close>

definition statistics_calls :: "game_env \<Rightarrow> t_game \<Rightarrow> (nat option \<times> t_game_result) list \<Rightarrow> game_call list" where
  "statistics_calls env g prs =
     (let tag = g_clienttag g; lid = (if g_type g = game_type_ironman then ladder_id_ironman else ladder_id_normal)
      in if game_is_ladder env g
         then (if is_wol tag then concat (map (wol_ladder_calls tag) prs) @ [Ladder_update tag ladder_id_solo prs]
               else concat (map (ladder_calls tag lid) prs) @ [Ladder_update tag lid prs])
         else if \<not> tag_check_wolv1 tag \<or> \<not> tag_check_wolv2 tag then concat (map (normal_calls tag) prs)
         else [])"

text \<open>
  \<open>game_report\<close> up to the text of the report file, which is one call; the calls come with the result.
\<close>

definition finish_report :: "game_env \<Rightarrow> t_game \<Rightarrow> nat \<Rightarrow> int \<times> t_game \<times> game_call list" where
  "finish_report env g realcount =
     (let prs = take realcount (zip (the (g_players g)) (the (g_results g)));
          stats = (if realcount \<ge> 1 \<and> \<not> g_bad g then statistics_calls env g prs else [])
      in (0, g, if g_type g \<noteq> game_type_ladder \<and> \<not> ge_report_all_games env then stats
                else stats @ [Report_file (g_id g) (g_bad g)]))"

definition compact_game :: "t_game \<Rightarrow> (nat \<times> t_game) option" where
  "compact_game g = (case (g_players g, g_results g, g_report_heads g, g_report_bodies g) of
       (Some ps, Some rs, Some hs, Some bs) \<Rightarrow>
         let n = g_count g in
         if length ps < n \<or> length rs < n \<or> length hs < n \<or> length bs < n then None
         else let (realcount, rows) = compact_players [0..<n] 0 (ps, rs, hs, bs);
                  (ps', rs', hs', bs') = clear_slots [realcount..<n] rows
              in Some (realcount, g\<lparr>g_players := Some ps', g_results := Some rs', g_report_heads := Some hs',
                   g_report_bodies := Some bs'\<rparr>)
     | _ \<Rightarrow> None)"

text \<open>A game with inconsistent results is marked bad.\<close>

definition judge_game :: "game_env \<Rightarrow> nat \<Rightarrow> t_game \<Rightarrow> t_game" where
  "judge_game env realcount g =
     (let rs = the (g_results g);
          g1 = (if game_sanity_check rs (the (g_players g)) realcount (game_is_ladder env g \<and> game_discisloss env g) < 0
                then g\<lparr>g_bad := True\<rparr> else g)
      in if is_wol (g_clienttag g) \<and> realcount = 2 \<and> rs ! 0 = game_result_disconnect \<and> rs ! 0 = rs ! 1
         then g1\<lparr>g_bad := True\<rparr> else g1)"

definition game_report :: "game_env \<Rightarrow> t_game \<Rightarrow> (int \<times> t_game \<times> game_call list) option" where
  "game_report env g =
     (let tag = g_clienttag g in
      if tag = 0 \<or> g_players g = None \<or> g_reported_results g = None \<or> g_results g = None then Some (-1, g, [])
      else if tag = CLIENTTAG_WARCRAFT3_UINT \<or> tag = CLIENTTAG_WAR3XP_UINT then Some (0, g, [])
      else if tag \<in> set no_ladder_wol then Some (0, g, [])
      else if tag \<in> set diablo_tags
        then (if ge_report_diablo_games env then Some (finish_report env g 0) else Some (0, g, []))
      else do {
        (_, g1) \<leftarrow> game_evaluate_results env g;
        (realcount, g2) \<leftarrow> compact_game g1;
        Some (if realcount < 1 then (-1, g2, []) else finish_report env (judge_game env realcount g2) realcount) })"

section \<open>Status and small fields\<close>

definition game_set_status :: "int \<Rightarrow> t_game_status \<Rightarrow> t_game \<Rightarrow> t_game" where
  "game_set_status now status g =
     (if g_status g = game_status_started \<and> status \<in> {game_status_open, game_status_full, game_status_loaded} then g
      else if g_status g = game_status_done \<and> status \<noteq> game_status_done then g
      else (if status = game_status_started \<and> g_start_time g = 0 then g\<lparr>g_start_time := now\<rparr> else g)\<lparr>g_status := status\<rparr>)"

definition game_set_option :: "t_game_option \<Rightarrow> t_game \<Rightarrow> t_game" where "game_set_option v g = g\<lparr>g_option := v\<rparr>"
definition game_set_flag :: "t_game_flag \<Rightarrow> t_game \<Rightarrow> t_game" where "game_set_flag v g = g\<lparr>g_flag := v\<rparr>"
definition game_set_realm :: "u32 \<Rightarrow> t_game \<Rightarrow> t_game" where "game_set_realm v g = g\<lparr>g_realm := v\<rparr>"
definition game_set_realmname :: "cstring option \<Rightarrow> t_game \<Rightarrow> t_game" where "game_set_realmname v g = g\<lparr>g_realmname := v\<rparr>"
definition game_set_channel :: "nat option \<Rightarrow> t_game \<Rightarrow> t_game" where
  "game_set_channel ch g = (case ch of None \<Rightarrow> g | Some c \<Rightarrow> g\<lparr>g_channel := Some (Some c)\<rparr>)"

text \<open>Reading the field before it was written gives an indeterminate pointer.\<close>

definition game_get_channel :: "t_game \<Rightarrow> nat option option" where "game_get_channel g = g_channel g"

definition game_get_latency :: "t_game \<Rightarrow> u32 option" where
  "game_get_latency g = (if g_ref g < 1 \<or> g_players g = None then Some 0
     else do { p \<leftarrow> arr_get (g_players g) 0; Some 0 })"

definition game_get_player_conn :: "t_game \<Rightarrow> nat \<Rightarrow> nat option option" where
  "game_get_player_conn g i =
     (if g_ref g < 1 \<or> g_players g = None then Some None
      else do { p \<leftarrow> arr_get (g_players g) i; if p = None then Some None else arr_get (g_connections g) i })"

definition game_get_player :: "t_game \<Rightarrow> nat \<Rightarrow> nat option option" where
  "game_get_player g i = (if \<not> i < g_count g then Some None else arr_get (g_players g) i)"

section \<open>Players\<close>

definition game_choose_host :: "game_env \<Rightarrow> t_game \<Rightarrow> t_game option" where
  "game_choose_host env g =
     (if g_count g < 1 \<or> g_connections g = None then Some g
      else do {
        i \<leftarrow> first_index (\<lambda>i. map_option (\<lambda>c. c \<noteq> None) (arr_get (g_connections g) i)) [0..<g_count g];
        (case i of None \<Rightarrow> Some g
         | Some i \<Rightarrow> do { c \<leftarrow> arr_get (g_connections g) i;
             Some (case c of None \<Rightarrow> g
               | Some c \<Rightarrow> g\<lparr>g_owner := Some c, g_addr := ge_game_addr env c, g_port := ge_game_port env c\<rparr>) }) })"

definition set_slot :: "game_env \<Rightarrow> nat \<Rightarrow> nat \<Rightarrow> t_game \<Rightarrow> t_game option" where
  "set_slot env i c g = do {
     cs \<leftarrow> arr_set (g_connections g) i (Some c);
     ps \<leftarrow> arr_set (g_players g) i (Some (ge_account env c));
     rs \<leftarrow> arr_set (g_results g) i game_result_none;
     rr \<leftarrow> arr_set (g_reported_results g) i None;
     hs \<leftarrow> arr_set (g_report_heads g) i None;
     bs \<leftarrow> arr_set (g_report_bodies g) i None;
     Some (g\<lparr>g_connections := cs, g_players := ps, g_results := rs, g_reported_results := rr, g_report_heads := hs,
       g_report_bodies := bs, g_ref := g_ref g + 1, g_lastaccess_time := ge_now env\<rparr>) }"

definition grow_slots :: "game_env \<Rightarrow> nat \<Rightarrow> t_game \<Rightarrow> t_game option" where
  "grow_slots env c g = do {
     let n = g_count g;
     cs \<leftarrow> arr_grow (g_connections g) n (Some c);
     ps \<leftarrow> arr_grow (g_players g) n (Some (ge_account env c));
     rs \<leftarrow> arr_grow (g_results g) n game_result_none;
     rr \<leftarrow> arr_grow (g_reported_results g) n None;
     hs \<leftarrow> arr_grow (g_report_heads g) n None;
     bs \<leftarrow> arr_grow (g_report_bodies g) n None;
     Some (g\<lparr>g_connections := cs, g_players := ps, g_results := rs, g_reported_results := rr, g_report_heads := hs,
       g_report_bodies := bs, g_count := n + 1, g_ref := g_ref g + 1, g_lastaccess_time := ge_now env\<rparr>) }"

text \<open>\<open>conn_get_clienttag\<close>\<close>

definition conn_tag :: "game_env \<Rightarrow> nat \<Rightarrow> u32" where
  "conn_tag env c = (if ge_clienttag env c = 0 then CLIENTTAG_UNKNOWN_UINT else ge_clienttag env c)"

text \<open>The checks of \<open>game_add_player\<close> before it touches the game.\<close>

definition may_join :: "game_env \<Rightarrow> cstring option \<Rightarrow> int \<Rightarrow> nat \<Rightarrow> t_game \<Rightarrow> bool" where
  "may_join env pass startver c g \<longleftrightarrow> (case pass of None \<Rightarrow> False | Some p \<Rightarrow>
     startver \<in> {STARTVER_UNKNOWN, STARTVER_GW1, STARTVER_GW3, STARTVER_GW4, STARTVER_REALM1}
     \<and> \<not> (g_type g = game_type_ladder \<and> ge_normal_wins env (ge_account env c) (conn_tag env c) < 10 \<and> \<not> ge_wol env c)
     \<and> g_clienttag g \<noteq> 0
     \<and> \<not> (g_pass g \<noteq> [] \<and> strcasecmp (g_pass g) p \<noteq> 0))"

definition game_add_player :: "game_env \<Rightarrow> cstring option \<Rightarrow> int \<Rightarrow> nat \<Rightarrow> t_game \<Rightarrow> (int \<times> t_game) option" where
  "game_add_player env pass startver c g =
     (if \<not> may_join env pass startver c g then Some (-1, g)
      else do {
        g1 \<leftarrow> (if g_connections g \<noteq> None \<and> g_count g > 0
               then do {
                 i \<leftarrow> first_index (\<lambda>i. map_option (\<lambda>c. c = None) (arr_get (g_connections g) i)) [0..<g_count g];
                 (case i of Some i \<Rightarrow> set_slot env i c g | None \<Rightarrow> grow_slots env c g) }
               else if g_count g = 0 then grow_slots env c g else Some g);
        g2 \<leftarrow> game_choose_host env g1;
        Some (0, g2) })"

text \<open>The slot of a leaving connection, found by its account.\<close>

definition slot_to_leave :: "game_env \<Rightarrow> nat \<Rightarrow> t_game \<Rightarrow> nat option option" where
  "slot_to_leave env c g = first_index (\<lambda>i. do { p \<leftarrow> arr_get (g_players g) i;
     if p = Some (ge_account env c) then map_option (\<lambda>x. x \<noteq> None) (arr_get (g_connections g) i) else Some False })
     [0..<g_count g]"

text \<open>The connection in slot \<open>i\<close> leaves; the last one has the game reported and destroyed.\<close>

definition leave_slot :: "game_env \<Rightarrow> nat \<Rightarrow> nat \<Rightarrow> t_game \<Rightarrow> game_state \<Rightarrow> (int \<times> game_state) option" where
  "leave_slot env a i g s = do {
     cs \<leftarrow> arr_set (g_connections g) i None;
     let g1 = g\<lparr>g_connections := cs\<rparr>;
     if g_ref g < 2
     then do {
       (_, g2, calls) \<leftarrow> game_report env g1;
       s2 \<leftarrow> game_destroy a (note_calls calls (put_game a g2 s));
       Some (0, s2) }
     else do {
       g2 \<leftarrow> game_choose_host env (g1\<lparr>g_ref := g_ref g - 1, g_lastaccess_time := ge_now env\<rparr>);
       Some (0, put_game a g2 s) } }"

definition acknowledge_leave :: "game_env \<Rightarrow> nat \<Rightarrow> game_state \<Rightarrow> game_state" where
  "acknowledge_leave env c s = (if leave_ack s c then s
     else note_calls [Watch_leavegame (ge_account env c) (conn_tag env c)] (s\<lparr>leave_ack := (leave_ack s)(c := True)\<rparr>))"

definition game_del_player :: "game_env \<Rightarrow> nat \<Rightarrow> nat \<Rightarrow> game_state \<Rightarrow> (int \<times> game_state) option" where
  "game_del_player env a c s = do {
     g \<leftarrow> games s a;
     if g_players g = None \<or> g_reported_results g = None then Some (-1, s)
     else do {
       i \<leftarrow> slot_to_leave env c g;
       (case i of None \<Rightarrow> Some (-1, acknowledge_leave env c s)
        | Some i \<Rightarrow> leave_slot env a i g (acknowledge_leave env c s)) } }"

section \<open>Reports\<close>

text \<open>The first slot of an account; \<open>game_set_report\<close> takes the last one.\<close>

definition slot_of :: "t_game \<Rightarrow> nat \<Rightarrow> nat option option" where
  "slot_of g acct = first_index (\<lambda>i. map_option (\<lambda>p. p = Some acct) (arr_get (g_players g) i)) [0..<g_count g]"

definition game_set_report :: "nat \<Rightarrow> cstring option \<Rightarrow> cstring option \<Rightarrow> t_game \<Rightarrow> (int \<times> t_game) option" where
  "game_set_report acct rephead repbody g =
     (if g_players g = None \<or> g_report_heads g = None \<or> g_report_bodies g = None \<or> rephead = None \<or> repbody = None
      then Some (-1, g)
      else do {
        pos \<leftarrow> first_index (\<lambda>i. map_option (\<lambda>p. p = Some acct) (arr_get (g_players g) i)) (rev [0..<g_count g]);
        (case pos of None \<Rightarrow> Some (-1, g)
         | Some i \<Rightarrow> do {
             hs \<leftarrow> arr_set (g_report_heads g) i rephead;
             bs \<leftarrow> arr_set (g_report_bodies g) i repbody;
             Some (0, g\<lparr>g_report_heads := hs, g_report_bodies := bs\<rparr>) }) })"

text \<open>
  The array of results must have an element for every slot. Of the reporter's own entry only a final
  result is accepted; every value of the type is accepted for the others.
\<close>

definition game_set_reported_results :: "nat \<Rightarrow> t_game_result list \<Rightarrow> t_game \<Rightarrow> (int \<times> t_game) option" where
  "game_set_reported_results acct results g =
     (if g_players g = None \<or> g_reported_results g = None then Some (-1, g)
      else do {
        i \<leftarrow> slot_of g acct;
        (case i of None \<Rightarrow> Some (-1, g)
         | Some i \<Rightarrow> do {
             old \<leftarrow> arr_get (g_reported_results g) i;
             if old \<noteq> None then Some (-1, g)
             else if length results < g_count g then None
             else if results ! i \<in> {game_result_none, game_result_playing} then Some (-1, g)
             else do {
               rr \<leftarrow> arr_set (g_reported_results g) i (Some results);
               Some (0, g\<lparr>g_reported_results := rr\<rparr>) } }) })"

definition game_set_self_report :: "nat \<Rightarrow> t_game_result \<Rightarrow> t_game \<Rightarrow> (int \<times> t_game) option" where
  "game_set_self_report acct result g =
     (if g_players g = None \<or> g_reported_results g = None then Some (-1, g)
      else case g_players g of None \<Rightarrow> None
        | Some ps \<Rightarrow> if length ps < g_count g then None
            else do {
              (_, g1) \<leftarrow> game_set_reported_results acct
                (map (\<lambda>p. if p = Some acct then result else game_result_none) (take (g_count g) ps)) g;
              Some (0, g1) })"

definition game_get_reported_results :: "nat \<Rightarrow> t_game \<Rightarrow> t_game_result list option option" where
  "game_get_reported_results acct g =
     (if g_players g = None \<or> g_reported_results g = None then Some None
      else do { i \<leftarrow> slot_of g acct;
        (case i of None \<Rightarrow> Some None | Some i \<Rightarrow> arr_get (g_reported_results g) i) })"

section \<open>The game of a connection\<close>

text \<open>\<open>conn_set_game\<close>: whether the connection stays where it is, leaving, choosing the game, joining.\<close>

definition already_in :: "nat \<Rightarrow> cstring option \<Rightarrow> game_state \<Rightarrow> bool option" where
  "already_in c gamename s = (case (conn_game s c, gamename) of
       (Some a, Some nm) \<Rightarrow> do { g \<leftarrow> games s a; Some (strcasecmp nm (game_get_name g) = 0) }
     | _ \<Rightarrow> Some False)"

definition clear_conn :: "nat \<Rightarrow> game_state \<Rightarrow> game_state" where
  "clear_conn c s = s\<lparr>conn_game := (conn_game s)(c := None)\<rparr>"

definition set_conn :: "nat \<Rightarrow> nat \<Rightarrow> game_state \<Rightarrow> game_state" where
  "set_conn c a s = s\<lparr>conn_game := (conn_game s)(c \<mapsto> a)\<rparr>"

definition leave_current :: "game_env \<Rightarrow> nat \<Rightarrow> game_state \<Rightarrow> game_state option" where
  "leave_current env c s = (case conn_game s c of None \<Rightarrow> Some s
     | Some a \<Rightarrow> do { (_, s') \<leftarrow> game_del_player env a c s; Some (clear_conn c s') })"

definition find_or_create ::
  "game_env \<Rightarrow> nat \<Rightarrow> cstring \<Rightarrow> cstring option \<Rightarrow> cstring option \<Rightarrow> t_game_type \<Rightarrow> int \<Rightarrow> game_state \<Rightarrow>
   (nat option \<times> game_state) option" where
  "find_or_create env c nm gamepass gameinfo ty version s = do {
     found \<leftarrow> gamelist_find_game_available nm (ge_clienttag env c) ty s;
     other \<leftarrow> gamelist_find_game_available nm (ge_clienttag env c) game_type_all s;
     if found = None \<and> other = None
     then do {
       (new, s') \<leftarrow> game_create env (Some nm) gamepass gameinfo ty version (ge_clienttag env c) (ge_gameversion env c) s;
       (case (new, ge_realm env c) of
          (Some a, Some r) \<Rightarrow> do { g \<leftarrow> games s' a;
            Some (new, note_calls [Realm_add_game_number r 1, D2cs_gameinforeq c]
              (put_game a (game_set_realmname (Some r) g) s')) }
        | _ \<Rightarrow> Some (new, s')) }
     else Some (found, s) }"

definition enter_game :: "game_env \<Rightarrow> nat \<Rightarrow> cstring option \<Rightarrow> int \<Rightarrow> nat \<Rightarrow> game_state \<Rightarrow> (int \<times> game_state) option" where
  "enter_game env c gamepass version a s = do {
     g \<leftarrow> games s a;
     (r, g1) \<leftarrow> game_add_player env gamepass version c g;
     if r < 0 then Some (-1, clear_conn c (put_game a g1 s))
     else let s3 = set_conn c a (put_game a g1 s)
          in Some (0, if game_is_ladder env g1
            then note_calls [Message_info c (if g_owner g1 = Some c then ''Created ladder game'' else ''Joined ladder game'')] s3
            else s3) }"

definition conn_set_game ::
  "game_env \<Rightarrow> nat \<Rightarrow> cstring option \<Rightarrow> cstring option \<Rightarrow> cstring option \<Rightarrow> t_game_type \<Rightarrow> int \<Rightarrow> game_state \<Rightarrow>
   (int \<times> game_state) option" where
  "conn_set_game env c gamename gamepass gameinfo ty version s = do {
     stay \<leftarrow> already_in c gamename s;
     if stay then Some (0, s)
     else do {
       s1 \<leftarrow> leave_current env c s;
       (case gamename of None \<Rightarrow> Some (0, clear_conn c s1)
        | Some nm \<Rightarrow> do {
            (target, s2) \<leftarrow> find_or_create env c nm gamepass gameinfo ty version s1;
            (case target of None \<Rightarrow> Some (0, clear_conn c s2)
             | Some a \<Rightarrow> enter_game env c gamepass version a s2) }) } }"

text \<open>
  The end of \<open>_client_gamereport\<close> in \<^verbatim>\<open>handle_bnet.cpp\<close>: the report is stored, then the client leaves the
  game. When the connection of a player of a started game is destroyed, the server reports a disconnect
  for him.
\<close>

definition client_gamereport_end ::
  "game_env \<Rightarrow> nat \<Rightarrow> (cstring \<times> cstring) option \<Rightarrow> (nat \<Rightarrow> t_game_result) \<Rightarrow> game_state \<Rightarrow> (int \<times> game_state) option" where
  "client_gamereport_end env c rep res s = (case conn_game s c of None \<Rightarrow> Some (-1, s)
     | Some a \<Rightarrow> do {
         g \<leftarrow> games s a;
         (_, g1) \<leftarrow> (case rep of None \<Rightarrow> Some (0, g)
           | Some (h, b) \<Rightarrow> game_set_report (ge_account env c) (Some h) (Some b) g);
         (_, g2) \<leftarrow> game_set_reported_results (ge_account env c) (map res [0..<g_count g]) g1;
         (_, s') \<leftarrow> conn_set_game env c None None None game_type_none 0 (put_game a g2 s);
         Some (0, s') })"

definition conn_destroy_game :: "game_env \<Rightarrow> nat \<Rightarrow> game_state \<Rightarrow> (int \<times> game_state) option" where
  "conn_destroy_game env c s = do {
     s1 \<leftarrow> (case conn_game s c of None \<Rightarrow> Some s
       | Some a \<Rightarrow> do {
           g \<leftarrow> games s a;
           if g_status g = game_status_started
           then do {
             (_, g1) \<leftarrow> game_set_self_report (ge_account env c) game_result_disconnect g;
             (_, g2) \<leftarrow> game_set_report (ge_account env c) (Some ''disconnect'') (Some ''disconnect'') g1;
             Some (put_game a g2 s) }
           else Some s });
     conn_set_game env c None None None game_type_none 0 s1 }"

section \<open>Empty games\<close>

fun check_void :: "game_env \<Rightarrow> nat list \<Rightarrow> game_state \<Rightarrow> game_state option" where
  "check_void env [] s = Some s"
| "check_void env (a # as) s = do {
     g \<leftarrow> games s a;
     if g_realm g = 0 \<or> g_ref g \<ge> 1 then check_void env as s
     else if ge_now env - g_lastaccess_time g > MAX_GAME_EMPTY_TIME
       then do { s' \<leftarrow> game_destroy a s; check_void env as s' }
     else check_void env as s }"

definition gamelist_check_voidgame :: "game_env \<Rightarrow> game_state \<Rightarrow> game_state option" where
  "gamelist_check_voidgame env s = check_void env (gamelist s) s"

end
