(* ===== verification/Game_Inv.thy ===== *)
theory Game_Inv
  imports Bnetd_Game
begin

text \<open>
  The invariant of the games: the list holds exactly the live games, the counters of a game agree with its
  arrays, connections and games point to each other, a report is only kept in a slot whose player has
  left, and no two open games of a client have the same name. Every operation keeps it and returns.
\<close>

section \<open>Arrays\<close>

lemma arr_get_Some [simp]: "i < length xs \<Longrightarrow> arr_get (Some xs) i = Some (xs ! i)"
  by (simp add: arr_get_def)

lemma arr_set_Some [simp]: "i < length xs \<Longrightarrow> arr_set (Some xs) i v = Some (Some (xs[i := v]))"
  by (simp add: arr_set_def)

lemma arr_grow_Some [simp]: "n = length xs \<Longrightarrow> arr_grow (Some xs) n v = Some (Some (xs @ [v]))"
  by (simp add: arr_grow_def)

lemma arr_grow_None [simp]: "arr_grow None 0 v = Some (Some [v])"
  by (simp add: arr_grow_def)

lemma first_index_find:
  "(\<And>i. i \<in> set is \<Longrightarrow> p i = Some (q i)) \<Longrightarrow> first_index p is = Some (List.find q is)"
  by (induction "is") auto

definition live_count :: "nat option list \<Rightarrow> nat" where
  "live_count cs = length (filter (\<lambda>c. c \<noteq> None) cs)"

lemma live_count_snoc [simp]: "live_count (cs @ [c]) = live_count cs + (if c = None then 0 else 1)"
  by (simp add: live_count_def)

lemma live_count_Cons [simp]: "live_count (d # cs) = (if d = None then 0 else 1) + live_count cs"
  by (simp add: live_count_def)

lemma live_count_update:
  "i < length cs \<Longrightarrow> live_count (cs[i := c]) + (if cs ! i = None then 0 else 1) = live_count cs + (if c = None then 0 else 1)"
proof (induction cs arbitrary: i)
  case (Cons d cs)
  show ?case
  proof (cases i)
    case (Suc j)
    then show ?thesis using Cons.IH [of j] Cons.prems by simp
  qed simp
qed simp

lemma live_count_pos: "Some c \<in> set cs \<Longrightarrow> 0 < live_count cs"
  by (auto simp: live_count_def filter_empty_conv)

lemma live_count_one:
  "live_count cs = 1 \<Longrightarrow> Some c \<in> set cs \<Longrightarrow> Some d \<in> set cs \<Longrightarrow> c = d"
proof -
  assume "live_count cs = 1" "Some c \<in> set cs" "Some d \<in> set cs"
  then have m: "Some c \<in> set (filter (\<lambda>c. c \<noteq> None) cs)" "Some d \<in> set (filter (\<lambda>c. c \<noteq> None) cs)"
    and l: "length (filter (\<lambda>c. c \<noteq> None) cs) = 1" by (simp_all add: live_count_def)
  obtain a where "filter (\<lambda>c. c \<noteq> None) cs = [a]" using l by (metis One_nat_def length_0_conv length_Suc_conv)
  then show "c = d" using m by auto
qed

section \<open>Well-formed games\<close>

text \<open>
  \<open>ex\<close> is the connection, if any, that has just stored its report and is about to leave.
\<close>

definition slots_ok ::
  "game_env \<Rightarrow> nat option \<Rightarrow> nat option list \<Rightarrow> nat option list \<Rightarrow> t_game_result list option list \<Rightarrow> bool" where
  "slots_ok env ex cs ps rr \<longleftrightarrow>
     (\<forall>i < length cs. \<forall>c. cs ! i = Some c \<longrightarrow> ps ! i = Some (ge_account env c))
   \<and> (\<forall>i < length cs. \<forall>j < length cs. cs ! i = cs ! j \<longrightarrow> cs ! i = None \<or> i = j)
   \<and> (\<forall>i < length cs. \<forall>arr. rr ! i = Some arr \<longrightarrow> (cs ! i = None \<or> cs ! i = ex) \<and> length cs \<le> length arr)"

definition game_wf :: "game_env \<Rightarrow> nat option \<Rightarrow> t_game \<Rightarrow> bool" where
  "game_wf env ex g \<longleftrightarrow> g_name g \<noteq> None \<and> g_clienttag g \<noteq> 0 \<and>
     (g_count g = 0 \<and> g_ref g = 0 \<and> g_connections g = None \<and> g_players g = None \<and> g_results g = None
        \<and> g_reported_results g = None \<and> g_report_heads g = None \<and> g_report_bodies g = None
      \<or> (\<exists>cs ps rs rr hs bs. g_connections g = Some cs \<and> g_players g = Some ps \<and> g_results g = Some rs
        \<and> g_reported_results g = Some rr \<and> g_report_heads g = Some hs \<and> g_report_bodies g = Some bs
        \<and> 0 < g_count g \<and> length cs = g_count g \<and> length ps = g_count g \<and> length rs = g_count g
        \<and> length rr = g_count g \<and> length hs = g_count g \<and> length bs = g_count g
        \<and> g_ref g = live_count cs \<and> slots_ok env ex cs ps rr))"

definition conn_list :: "t_game \<Rightarrow> nat option list" where
  "conn_list g = (case g_connections g of None \<Rightarrow> [] | Some cs \<Rightarrow> cs)"

definition same_game :: "t_game \<Rightarrow> t_game \<Rightarrow> bool" where
  "same_game g h \<longleftrightarrow> g_name h = g_name g \<and> g_clienttag h = g_clienttag g \<and> g_status h = g_status g \<and> g_id h = g_id g"

lemma same_game_refl [simp]: "same_game g g"
  by (simp add: same_game_def)

lemma game_wf_cases [consumes 1, case_names empty slots]:
  assumes "game_wf env ex g"
  obtains "g_count g = 0" "g_ref g = 0" "g_connections g = None" "g_players g = None" "g_results g = None"
    "g_reported_results g = None" "g_report_heads g = None" "g_report_bodies g = None"
  | cs ps rs rr hs bs where "g_connections g = Some cs" "g_players g = Some ps" "g_results g = Some rs"
    "g_reported_results g = Some rr" "g_report_heads g = Some hs" "g_report_bodies g = Some bs" "0 < g_count g"
    "length cs = g_count g" "length ps = g_count g" "length rs = g_count g" "length rr = g_count g"
    "length hs = g_count g" "length bs = g_count g" "g_ref g = live_count cs" "slots_ok env ex cs ps rr"
  using assms unfolding game_wf_def by (elim conjE disjE exE) (rule that; assumption)+

lemma slots_join:
  assumes "slots_ok env ex cs ps rr" "i < length cs" "cs ! i = None" "length ps = length cs" "length rr = length cs"
    and "Some c \<notin> set cs"
  shows "slots_ok env ex (cs[i := Some c]) (ps[i := Some (ge_account env c)]) (rr[i := None])"
  using assms unfolding slots_ok_def by (auto simp: nth_list_update in_set_conv_nth)

lemma slots_grow:
  assumes "slots_ok env ex cs ps rr" "length ps = length cs" "length rr = length cs" "Some c \<notin> set cs"
    and "\<forall>i < length cs. rr ! i = None"
  shows "slots_ok env ex (cs @ [Some c]) (ps @ [Some (ge_account env c)]) (rr @ [None])"
  using assms unfolding slots_ok_def by (auto simp: nth_append in_set_conv_nth less_Suc_eq)

lemma slots_leave:
  assumes "slots_ok env ex cs ps rr" "i < length cs" "ex = None \<or> ex = cs ! i"
  shows "slots_ok env None (cs[i := None]) ps rr"
  using assms unfolding slots_ok_def by (auto simp: nth_list_update) metis

text \<open>When no slot is free, nobody has left and no report is kept.\<close>

lemma no_reports_when_full:
  "slots_ok env None cs ps rr \<Longrightarrow> \<forall>i < length cs. cs ! i \<noteq> None \<Longrightarrow> length rr = length cs \<Longrightarrow> i < length cs \<Longrightarrow> rr ! i = None"
  unfolding slots_ok_def by (metis option.exhaust)

section \<open>Joining\<close>

lemma choose_host_total:
  assumes "game_wf env ex g"
  shows "\<exists>o' a p. game_choose_host env g = Some (g\<lparr>g_owner := o', g_addr := a, g_port := p\<rparr>)"
  using assms
proof (cases rule: game_wf_cases)
  case empty
  then show ?thesis by (intro exI [of _ "g_owner g"] exI [of _ "g_addr g"] exI [of _ "g_port g"]) (simp add: game_choose_host_def)
next
  case (slots cs ps rs rr hs bs)
  have f: "first_index (\<lambda>i. map_option (\<lambda>c. c \<noteq> None) (arr_get (Some cs) i)) [0..<g_count g]
      = Some (List.find (\<lambda>i. cs ! i \<noteq> None) [0..<g_count g])"
    using slots by (intro first_index_find) simp
  show ?thesis
  proof (cases "List.find (\<lambda>i. cs ! i \<noteq> None) [0..<g_count g]")
    case None
    then show ?thesis using f slots
      by (intro exI [of _ "g_owner g"] exI [of _ "g_addr g"] exI [of _ "g_port g"]) (simp add: game_choose_host_def)
  next
    case (Some i)
    then have "i < length cs" "cs ! i \<noteq> None" using slots by (auto simp: find_Some_iff)
    then obtain c where "cs ! i = Some c" by blast
    then show ?thesis using f slots Some \<open>i < length cs\<close>
      by (intro exI [of _ "Some c"] exI [of _ "ge_game_addr env c"] exI [of _ "ge_game_port env c"])
        (simp add: game_choose_host_def)
  qed
qed

lemma wf_host_update [simp]:
  "game_wf env ex (g\<lparr>g_owner := o', g_addr := a, g_port := p\<rparr>) = game_wf env ex g"
  "conn_list (g\<lparr>g_owner := o', g_addr := a, g_port := p\<rparr>) = conn_list g"
  "same_game h (g\<lparr>g_owner := o', g_addr := a, g_port := p\<rparr>) = same_game h g"
  by (simp_all add: game_wf_def conn_list_def same_game_def)

lemma set_slot_wf:
  assumes "game_wf env None g" "Some c \<notin> set (conn_list g)" "g_connections g = Some cs" "i < g_count g" "cs ! i = None"
  shows "\<exists>g'. set_slot env i c g = Some g' \<and> game_wf env None g' \<and> conn_list g' = cs[i := Some c] \<and> same_game g g'"
  using assms(1)
proof (cases rule: game_wf_cases)
  case (slots cs' ps rs rr hs bs)
  then have e: "cs' = cs" using assms(3) by simp
  have i: "i < length cs" using assms(4) slots e by simp
  have c: "live_count (cs[i := Some c]) = live_count cs + 1" using live_count_update [OF i, of "Some c"] assms(5) by simp
  have s: "slots_ok env None (cs[i := Some c]) (ps[i := Some (ge_account env c)]) (rr[i := None])"
    using slots e assms i by (intro slots_join) (auto simp: conn_list_def)
  show ?thesis using slots e assms i c s
    by (simp add: set_slot_def game_wf_def conn_list_def same_game_def)
qed (use assms in simp)

lemma grow_slots_wf:
  assumes "game_wf env None g" "Some c \<notin> set (conn_list g)" "\<forall>i < length (conn_list g). conn_list g ! i \<noteq> None"
  shows "\<exists>g'. grow_slots env c g = Some g' \<and> game_wf env None g' \<and> conn_list g' = conn_list g @ [Some c] \<and> same_game g g'"
  using assms(1)
proof (cases rule: game_wf_cases)
  case empty
  then show ?thesis using assms(1)
    by (simp add: grow_slots_def game_wf_def conn_list_def same_game_def live_count_def slots_ok_def)
next
  case (slots cs ps rs rr hs bs)
  then have cl: "conn_list g = cs" by (simp add: conn_list_def)
  have r: "\<forall>i < length cs. rr ! i = None"
    using no_reports_when_full [OF slots(15)] assms(3) slots cl by simp
  have s: "slots_ok env None (cs @ [Some c]) (ps @ [Some (ge_account env c)]) (rr @ [None])"
    using slots assms(2) cl r by (intro slots_grow) simp_all
  show ?thesis using slots s assms(1) by (simp add: grow_slots_def game_wf_def conn_list_def same_game_def)
qed

lemma add_player_wf:
  assumes "game_wf env None g" "Some c \<notin> set (conn_list g)" "may_join env pass startver c g"
  shows "\<exists>g'. game_add_player env pass startver c g = Some (0, g') \<and> game_wf env None g'
    \<and> (\<forall>d. Some d \<in> set (conn_list g') \<longleftrightarrow> d = c \<or> Some d \<in> set (conn_list g)) \<and> same_game g g'"
proof -
  have "\<exists>g1. (if g_connections g \<noteq> None \<and> g_count g > 0
               then do {
                 i \<leftarrow> first_index (\<lambda>i. map_option (\<lambda>c. c = None) (arr_get (g_connections g) i)) [0..<g_count g];
                 (case i of Some i \<Rightarrow> set_slot env i c g | None \<Rightarrow> grow_slots env c g) }
               else if g_count g = 0 then grow_slots env c g else Some g) = Some g1
      \<and> game_wf env None g1 \<and> (\<forall>d. Some d \<in> set (conn_list g1) \<longleftrightarrow> d = c \<or> Some d \<in> set (conn_list g)) \<and> same_game g g1"
    using assms(1)
  proof (cases rule: game_wf_cases)
    case empty
    then have "conn_list g = []" by (simp add: conn_list_def)
    then show ?thesis using grow_slots_wf [OF assms(1,2)] empty by auto
  next
    case (slots cs ps rs rr hs bs)
    then have cl: "conn_list g = cs" by (simp add: conn_list_def)
    have f: "first_index (\<lambda>i. map_option (\<lambda>c. c = None) (arr_get (Some cs) i)) [0..<g_count g]
        = Some (List.find (\<lambda>i. cs ! i = None) [0..<g_count g])"
      using slots by (intro first_index_find) simp
    show ?thesis
    proof (cases "List.find (\<lambda>i. cs ! i = None) [0..<g_count g]")
      case None
      then have "\<forall>i < length cs. cs ! i \<noteq> None" using slots by (auto simp: find_None_iff)
      then obtain g' where "grow_slots env c g = Some g'" "game_wf env None g'" "conn_list g' = cs @ [Some c]" "same_game g g'"
        using grow_slots_wf [OF assms(1,2)] unfolding cl by blast
      then show ?thesis using f None slots cl by auto
    next
      case (Some i)
      then have i: "i < g_count g" "cs ! i = None" by (auto simp: find_Some_iff)
      obtain g' where g': "set_slot env i c g = Some g'" "game_wf env None g'" "conn_list g' = cs[i := Some c]" "same_game g g'"
        using set_slot_wf [OF assms(1,2) slots(1) i] by blast
      have "Some d \<in> set (cs[i := Some c]) \<longleftrightarrow> d = c \<or> Some d \<in> set cs" for d
        using i slots(8) by (auto simp: in_set_conv_nth nth_list_update) (metis option.distinct(1) nth_list_update)+
      then show ?thesis using f Some slots(1,7) cl g' by simp
    qed
  qed
  then obtain g1 where g1: "(if g_connections g \<noteq> None \<and> g_count g > 0
               then do {
                 i \<leftarrow> first_index (\<lambda>i. map_option (\<lambda>c. c = None) (arr_get (g_connections g) i)) [0..<g_count g];
                 (case i of Some i \<Rightarrow> set_slot env i c g | None \<Rightarrow> grow_slots env c g) }
               else if g_count g = 0 then grow_slots env c g else Some g) = Some g1"
    and w: "game_wf env None g1" "\<forall>d. Some d \<in> set (conn_list g1) \<longleftrightarrow> d = c \<or> Some d \<in> set (conn_list g)" "same_game g g1"
    by blast
  obtain o' a p where "game_choose_host env g1 = Some (g1\<lparr>g_owner := o', g_addr := a, g_port := p\<rparr>)"
    using choose_host_total [OF w(1)] by blast
  then show ?thesis using g1 w assms(3) by (simp add: game_add_player_def)
qed

section \<open>Evaluating and reporting\<close>

lemma reports_about_total:
  "\<forall>arr. Some arr \<in> set rr \<longrightarrow> i < length arr \<Longrightarrow> \<exists>xs. reports_about i rr = Some xs"
proof (induction rr)
  case (Cons r rr)
  then obtain xs where "reports_about i rr = Some xs" by auto
  then show ?case using Cons.prems by (cases r) auto
qed simp

lemma evaluate_slots_total:
  "\<forall>i \<in> set is. i < length results \<and> (\<forall>arr. Some arr \<in> set rr \<longrightarrow> i < length arr) \<Longrightarrow>
   \<exists>results'. evaluate_slots disc rr is results = Some results' \<and> length results' = length results"
proof (induction "is" arbitrary: results)
  case (Cons i "is")
  obtain xs where xs: "reports_about i rr = Some xs" using reports_about_total [of rr i] Cons.prems by auto
  have l: "length (case decide disc xs of None \<Rightarrow> results | Some r \<Rightarrow> results[i := r]) = length results"
    by (simp split: option.split)
  show ?case using Cons.IH [of "case decide disc xs of None \<Rightarrow> results | Some r \<Rightarrow> results[i := r]"] Cons.prems xs l by auto
qed simp

definition report_ready :: "t_game \<Rightarrow> bool" where
  "report_ready g \<longleftrightarrow> (\<exists>ps rs rr hs bs. g_players g = Some ps \<and> g_results g = Some rs \<and> g_reported_results g = Some rr
     \<and> g_report_heads g = Some hs \<and> g_report_bodies g = Some bs \<and> length ps = g_count g \<and> length rs = g_count g
     \<and> length rr = g_count g \<and> length hs = g_count g \<and> length bs = g_count g
     \<and> (\<forall>arr. Some arr \<in> set rr \<longrightarrow> g_count g \<le> length arr))"

lemma evaluate_total:
  assumes "report_ready g"
  shows "\<exists>rs'. game_evaluate_results env g = Some (0, g\<lparr>g_results := Some rs'\<rparr>) \<and> length rs' = g_count g"
proof -
  obtain ps rs rr hs bs where a: "g_results g = Some rs" "g_reported_results g = Some rr" "length rs = g_count g"
      "length rr = g_count g" "\<forall>arr. Some arr \<in> set rr \<longrightarrow> g_count g \<le> length arr"
    using assms by (auto simp: report_ready_def)
  have "\<forall>i \<in> set [0..<g_count g]. i < length rs \<and> (\<forall>arr. Some arr \<in> set rr \<longrightarrow> i < length arr)" using a by force
  then obtain rs' where "evaluate_slots (game_discisloss env g) rr [0..<g_count g] rs = Some rs'" "length rs' = length rs"
    using evaluate_slots_total by blast
  then show ?thesis using a by (intro exI [of _ rs']) (simp add: game_evaluate_results_def)
qed

lemma finish_report_game: "\<exists>r calls. finish_report env g n = (r, g, calls)"
  by (simp add: finish_report_def Let_def)

definition after_report :: "t_game \<Rightarrow> t_game \<Rightarrow> bool" where
  "after_report g g' \<longleftrightarrow> (\<exists>ps rs hs bs bad. g' = g\<lparr>g_players := ps, g_results := rs, g_report_heads := hs,
     g_report_bodies := bs, g_bad := bad\<rparr>)"

lemma after_report_self [simp]: "after_report g g"
proof -
  have "g = g\<lparr>g_players := g_players g, g_results := g_results g, g_report_heads := g_report_heads g,
      g_report_bodies := g_report_bodies g, g_bad := g_bad g\<rparr>" by simp
  then show ?thesis unfolding after_report_def by blast
qed

lemma after_report_bad: "after_report g g' \<Longrightarrow> after_report g (g'\<lparr>g_bad := b\<rparr>)"
  unfolding after_report_def by force

lemma compact_total:
  assumes "report_ready g" "length rs = g_count g"
  shows "\<exists>n g'. compact_game (g\<lparr>g_results := Some rs\<rparr>) = Some (n, g') \<and> after_report g g'"
proof -
  obtain ps hs bs where a: "g_players g = Some ps" "g_report_heads g = Some hs" "g_report_bodies g = Some bs"
      "length ps = g_count g" "length hs = g_count g" "length bs = g_count g"
    using assms by (auto simp: report_ready_def)
  obtain n rows where c: "compact_players [0..<g_count g] 0 (ps, rs, hs, bs) = (n, rows)" by (metis surj_pair)
  obtain ps2 rs2 hs2 bs2 where k: "clear_slots [n..<g_count g] rows = (ps2, rs2, hs2, bs2)" by (metis prod_cases4)
  have "after_report g (g\<lparr>g_players := Some ps2, g_results := Some rs2, g_report_heads := Some hs2, g_report_bodies := Some bs2,
      g_bad := g_bad g\<rparr>)" unfolding after_report_def by blast
  then show ?thesis using a assms(2) by (simp add: compact_game_def c k Let_def)
qed

lemma judge_after: "after_report g g' \<Longrightarrow> after_report g (judge_game env n g')"
  by (simp add: judge_game_def Let_def after_report_bad)

lemma report_total:
  assumes "report_ready g"
  shows "\<exists>r g' calls. game_report env g = Some (r, g', calls) \<and> after_report g g'"
proof -
  obtain rs where ev: "game_evaluate_results env g = Some (0, g\<lparr>g_results := Some rs\<rparr>)" "length rs = g_count g"
    using evaluate_total [OF assms] by blast
  obtain n g2 where c: "compact_game (g\<lparr>g_results := Some rs\<rparr>) = Some (n, g2)" "after_report g g2"
    using compact_total [OF assms ev(2)] by blast
  obtain r calls where f: "finish_report env (judge_game env n g2) n = (r, judge_game env n g2, calls)"
    using finish_report_game by blast
  obtain r0 calls0 where f0: "finish_report env g 0 = (r0, g, calls0)" using finish_report_game by blast
  show ?thesis using judge_after [OF c(2), of env n] c ev f f0 by (simp add: game_report_def Let_def)
qed

lemma wf_ready: "game_wf env ex g \<Longrightarrow> 0 < g_count g \<Longrightarrow> report_ready g"
proof (erule game_wf_cases)
  fix cs ps rs rr hs bs
  assume a: "g_players g = Some ps" "g_results g = Some rs" "g_reported_results g = Some rr" "g_report_heads g = Some hs"
    "g_report_bodies g = Some bs" "length cs = g_count g" "length ps = g_count g" "length rs = g_count g" "length rr = g_count g"
    "length hs = g_count g" "length bs = g_count g" "slots_ok env ex cs ps rr"
  then have "\<forall>arr. Some arr \<in> set rr \<longrightarrow> g_count g \<le> length arr"
    by (auto simp: slots_ok_def in_set_conv_nth)
  then show "report_ready g" using a by (simp add: report_ready_def)
qed simp

section \<open>The invariant of the state\<close>

definition game_inv :: "game_env \<Rightarrow> nat option \<Rightarrow> game_state \<Rightarrow> bool" where
  "game_inv env ex s \<longleftrightarrow>
     distinct (gamelist s) \<and> set (gamelist s) = dom (games s) \<and> glist_length s = int (length (gamelist s))
   \<and> (\<forall>a g. games s a = Some g \<longrightarrow> a < game_fresh s \<and> game_wf env ex g \<and> g_id g \<le> totalcount s)
   \<and> (\<forall>a b g h. games s a = Some g \<longrightarrow> games s b = Some h \<longrightarrow> g_id g = g_id h \<longrightarrow> a = b)
   \<and> (\<forall>a g c. games s a = Some g \<longrightarrow> (Some c \<in> set (conn_list g) \<longleftrightarrow> conn_game s c = Some a))
   \<and> (\<forall>c a. conn_game s c = Some a \<longrightarrow> games s a \<noteq> None)
   \<and> (\<forall>a b g h. games s a = Some g \<longrightarrow> games s b = Some h \<longrightarrow> game_available g \<longrightarrow> game_available h \<longrightarrow>
        g_clienttag g = g_clienttag h \<longrightarrow> strcasecmp (game_get_name g) (game_get_name h) = 0 \<longrightarrow> a = b)"

lemma game_invD:
  assumes "game_inv env ex s"
  shows "distinct (gamelist s)" "set (gamelist s) = dom (games s)" "glist_length s = int (length (gamelist s))"
    "\<And>a g. games s a = Some g \<Longrightarrow> a < game_fresh s \<and> game_wf env ex g \<and> g_id g \<le> totalcount s"
    "\<And>a b g h. games s a = Some g \<Longrightarrow> games s b = Some h \<Longrightarrow> g_id g = g_id h \<Longrightarrow> a = b"
    "\<And>a g c. games s a = Some g \<Longrightarrow> Some c \<in> set (conn_list g) \<longleftrightarrow> conn_game s c = Some a"
    "\<And>c a. conn_game s c = Some a \<Longrightarrow> games s a \<noteq> None"
    "\<And>a b g h. games s a = Some g \<Longrightarrow> games s b = Some h \<Longrightarrow> game_available g \<Longrightarrow> game_available h \<Longrightarrow>
        g_clienttag g = g_clienttag h \<Longrightarrow> strcasecmp (game_get_name g) (game_get_name h) = 0 \<Longrightarrow> a = b"
  using assms unfolding game_inv_def by blast+

lemma game_inv_irrelevant [simp]:
  "game_inv env ex (note_calls cs s) = game_inv env ex s"
  "game_inv env ex (s\<lparr>leave_ack := l\<rparr>) = game_inv env ex s"
  "games (note_calls cs s) = games s" "conn_game (note_calls cs s) = conn_game s"
  "gamelist (note_calls cs s) = gamelist s" "glist_length (note_calls cs s) = glist_length s"
  "game_fresh (note_calls cs s) = game_fresh s" "totalcount (note_calls cs s) = totalcount s"
  by (simp_all add: game_inv_def note_calls_def)

lemma put_game_sel [simp]:
  "games (put_game a g s) = (games s)(a \<mapsto> g)" "conn_game (put_game a g s) = conn_game s"
  "gamelist (put_game a g s) = gamelist s" "glist_length (put_game a g s) = glist_length s"
  "game_fresh (put_game a g s) = game_fresh s" "totalcount (put_game a g s) = totalcount s"
  by (simp_all add: put_game_def)

lemma slots_ok_mono: "slots_ok env None cs ps rr \<Longrightarrow> slots_ok env ex cs ps rr"
  unfolding slots_ok_def by auto

lemma slots_ok_absent: "slots_ok env (Some c) cs ps rr \<Longrightarrow> Some c \<notin> set cs \<Longrightarrow> slots_ok env None cs ps rr"
  unfolding slots_ok_def by (metis nth_mem)

lemma game_wf_mono: "game_wf env None g \<Longrightarrow> game_wf env ex g"
  using slots_ok_mono unfolding game_wf_def by blast

lemma game_wf_absent: "game_wf env (Some c) g \<Longrightarrow> Some c \<notin> set (conn_list g) \<Longrightarrow> game_wf env None g"
  using slots_ok_absent unfolding game_wf_def conn_list_def by fastforce

lemma game_inv_mono: "game_inv env None s \<Longrightarrow> game_inv env ex s"
  unfolding game_inv_def using game_wf_mono by blast

text \<open>Changing a game that keeps its identity and its connections.\<close>

lemma put_game_inv:
  assumes "game_inv env ex s" "games s a = Some g" "game_wf env ex g'" "g_name g' = g_name g"
    "g_clienttag g' = g_clienttag g" "g_id g' = g_id g" "conn_list g' = conn_list g" "game_available g' \<Longrightarrow> game_available g"
  shows "game_inv env ex (put_game a g' s)"
proof -
  have n: "game_get_name g' = game_get_name g" using assms(4) by (simp add: game_get_name_def)
  note d = game_invD [OF assms(1)]
  have old: "\<exists>h'. games s b = Some h' \<and> g_id h' = g_id h \<and> g_clienttag h' = g_clienttag h
      \<and> game_get_name h' = game_get_name h \<and> (game_available h \<longrightarrow> game_available h')"
    if "games (put_game a g' s) b = Some h" for b h using assms n that by (cases "b = a") auto
  show ?thesis
    unfolding game_inv_def
  proof (intro conjI allI impI)
    show "set (gamelist (put_game a g' s)) = dom (games (put_game a g' s))" using d(2) assms(2) by auto
  next
    fix b c h k assume "games (put_game a g' s) b = Some h" "games (put_game a g' s) c = Some k" "game_available h"
      "game_available k" "g_clienttag h = g_clienttag k" "strcasecmp (game_get_name h) (game_get_name k) = 0"
    then show "b = c" using old [of b h] old [of c k] d(8) [of b _ c] by metis
  next
    fix b c h k assume "games (put_game a g' s) b = Some h" "games (put_game a g' s) c = Some k" "g_id h = g_id k"
    then show "b = c" using old [of b h] old [of c k] d(5) [of b _ c] by metis
  qed (use assms d in \<open>auto split: if_splits\<close>)
qed

section \<open>Leaving\<close>

definition env_ok :: "game_env \<Rightarrow> bool" where
  "env_ok env \<longleftrightarrow> inj (ge_account env)"

text \<open>The slot of a connection, found by its account.\<close>

lemma find_slot:
  assumes "env_ok env" "slots_ok env ex cs ps rr" "length ps = length cs" "g_count g = length cs" "Some c \<in> set cs"
    and "g_players g = Some ps" "g_connections g = Some cs"
  obtains i where "i < length cs" "cs ! i = Some c" "slot_to_leave env c g = Some (Some i)"
proof -
  let ?q = "\<lambda>i. ps ! i = Some (ge_account env c) \<and> cs ! i \<noteq> None"
  have f: "slot_to_leave env c g = Some (List.find ?q [0..<g_count g])"
    unfolding slot_to_leave_def assms(6,7) using assms(3,4) by (intro first_index_find) simp
  obtain k where k: "k < length cs" "cs ! k = Some c" using assms(5) by (auto simp: in_set_conv_nth)
  then have "?q k" using assms(2) by (simp add: slots_ok_def)
  then obtain i where i: "List.find ?q [0..<g_count g] = Some i"
    using k(1) assms(4) by (cases "List.find ?q [0..<g_count g]") (auto simp: find_None_iff)
  then have il: "i < length cs" and q: "?q i" using assms(4) by (auto simp: find_Some_iff)
  then obtain d where d: "cs ! i = Some d" by auto
  then have "ge_account env d = ge_account env c" using assms(2) il q by (simp add: slots_ok_def)
  then have "d = c" using assms(1) by (simp add: env_ok_def inj_eq)
  then show ?thesis using that [of i] il d f i by simp
qed

lemma distinct_slots:
  "slots_ok env ex cs ps rr \<Longrightarrow> i < length cs \<Longrightarrow> cs ! i = Some c \<Longrightarrow>
   Some d \<in> set (cs[i := None]) \<longleftrightarrow> Some d \<in> set cs \<and> d \<noteq> c"
  (is "?ok \<Longrightarrow> ?i \<Longrightarrow> ?c \<Longrightarrow> ?lhs \<longleftrightarrow> ?rhs")
proof
  assume a: ?ok ?i ?c ?lhs
  then obtain j where j: "j < length cs" "cs[i := None] ! j = Some d" by (auto simp: in_set_conv_nth)
  then have n: "j \<noteq> i" "cs ! j = Some d" using a by (auto simp: nth_list_update split: if_splits)
  then have "d \<noteq> c" using a j unfolding slots_ok_def by (metis option.distinct(1))
  then show ?rhs using n j by (auto simp: in_set_conv_nth)
next
  assume a: ?ok ?i ?c ?rhs
  then obtain j where j: "j < length cs" "cs ! j = Some d" by (auto simp: in_set_conv_nth)
  then have "j \<noteq> i" using a by auto
  then have "cs[i := None] ! j = Some d" using j by simp
  then show ?lhs using j by (metis length_list_update nth_mem)
qed

lemma clear_conn_calls [simp]: "clear_conn c (note_calls cs s) = note_calls cs (clear_conn c s)"
  "clear_conn c (s\<lparr>leave_ack := l\<rparr>) = clear_conn c s\<lparr>leave_ack := l\<rparr>"
  by (simp_all add: clear_conn_def note_calls_def)

lemma leave_game_inv:
  assumes "game_inv env ex s" "ex = None \<or> ex = Some c" "games s a = Some g" "conn_game s c = Some a"
    and "game_wf env None g'" "\<forall>d. Some d \<in> set (conn_list g') \<longleftrightarrow> Some d \<in> set (conn_list g) \<and> d \<noteq> c" "same_game g g'"
  shows "game_inv env None (clear_conn c (put_game a g' s))"
proof -
  note d = game_invD [OF assms(1)]
  have n: "game_get_name g' = game_get_name g" "game_available g' = game_available g"
    using assms(7) by (simp_all add: game_get_name_def game_available_def same_game_def)
  have wf: "game_wf env None h" if "games s b = Some h" "b \<noteq> a" for b h
  proof -
    have "Some c \<notin> set (conn_list h)" using d(6) [OF that(1), of c] assms(4) that(2) by simp
    then show ?thesis using d(4) [OF that(1)] assms(2) game_wf_absent by auto
  qed
  have old: "\<exists>h'. games s b = Some h' \<and> g_id h' = g_id h \<and> g_clienttag h' = g_clienttag h
      \<and> game_get_name h' = game_get_name h \<and> (game_available h \<longrightarrow> game_available h')"
    if "games (clear_conn c (put_game a g' s)) b = Some h" for b h
    using assms n that by (cases "b = a") (auto simp: clear_conn_def same_game_def)
  show ?thesis
    unfolding game_inv_def
  proof (intro conjI allI impI)
    show "set (gamelist (clear_conn c (put_game a g' s))) = dom (games (clear_conn c (put_game a g' s)))"
      using d(2) assms(3) by (auto simp: clear_conn_def)
  next
    fix b k h l assume "games (clear_conn c (put_game a g' s)) b = Some h" "games (clear_conn c (put_game a g' s)) k = Some l"
      "game_available h" "game_available l" "g_clienttag h = g_clienttag l" "strcasecmp (game_get_name h) (game_get_name l) = 0"
    then show "b = k" using old [of b h] old [of k l] d(8) [of b _ k] by metis
  next
    fix b k h l assume "games (clear_conn c (put_game a g' s)) b = Some h" "games (clear_conn c (put_game a g' s)) k = Some l"
      "g_id h = g_id l"
    then show "b = k" using old [of b h] old [of k l] d(5) [of b _ k] by metis
  next
    fix b h e assume h: "games (clear_conn c (put_game a g' s)) b = Some h"
    show "Some e \<in> set (conn_list h) \<longleftrightarrow> conn_game (clear_conn c (put_game a g' s)) e = Some b"
      using h d(6) [of b _ e] d(6) [OF assms(3), of e] assms(4,6) by (cases "b = a") (auto simp: clear_conn_def)
  qed (use assms d wf in \<open>auto simp: clear_conn_def same_game_def split: if_splits\<close>)
qed

lemma destroy_inv:
  assumes "game_inv env ex s" "ex = None \<or> ex = Some c" "games s a = Some g"
    and "\<And>d. conn_game s d = Some a \<Longrightarrow> d = c" "conn_game s c = Some a \<or> conn_game s c = None \<and> ex = None"
  shows "\<exists>s'. game_destroy a (put_game a g2 s) = Some s' \<and> game_inv env None (clear_conn c s')
    \<and> conn_game s' = conn_game s \<and> games s' = (games s)(a := None)"
proof -
  note d = game_invD [OF assms(1)]
  let ?t = "s\<lparr>games := (games s)(a := None), gamelist := remove1 a (gamelist s), glist_length := glist_length s - 1\<rparr>"
  have wf: "game_wf env None h" if "games s b = Some h" "b \<noteq> a" for b h
  proof (cases "ex = None")
    case False
    then have "Some c \<notin> set (conn_list h)" using d(6) [OF that(1), of c] assms(5) that(2) by auto
    then show ?thesis using d(4) [OF that(1)] assms(2) game_wf_absent by auto
  qed (use d(4) [OF that(1)] in simp)
  have al: "a \<in> set (gamelist s)" using d(2) assms(3) by auto
  then have ln: "int (length (remove1 a (gamelist s))) = glist_length s - 1"
    using d(3) length_remove1 [of a "gamelist s"] by (cases "gamelist s") auto
  have i: "game_inv env None (clear_conn c ?t)"
    unfolding game_inv_def
  proof (intro conjI allI impI)
    show "set (gamelist (clear_conn c ?t)) = dom (games (clear_conn c ?t))"
      using d(1,2) by (auto simp: clear_conn_def set_remove1_eq split: if_splits)
    show "glist_length (clear_conn c ?t) = int (length (gamelist (clear_conn c ?t)))" using ln by (simp add: clear_conn_def)
  next
    fix b h e assume h: "games (clear_conn c ?t) b = Some h"
    then have b: "b \<noteq> a" "games s b = Some h" by (auto simp: clear_conn_def split: if_splits)
    then show "Some e \<in> set (conn_list h) \<longleftrightarrow> conn_game (clear_conn c ?t) e = Some b"
      using d(6) [OF b(2), of e] assms(5) by (auto simp: clear_conn_def)
  next
    fix e b assume "conn_game (clear_conn c ?t) e = Some b"
    then show "games (clear_conn c ?t) b \<noteq> None" using d(7) [of e b] assms(4) [of e] by (auto simp: clear_conn_def split: if_splits)
  next
    fix b k h l assume "games (clear_conn c ?t) b = Some h" "games (clear_conn c ?t) k = Some l" "g_id h = g_id l"
    then show "b = k" using d(5) [of b h k l] by (auto simp: clear_conn_def split: if_splits)
  next
    fix b k h l assume "games (clear_conn c ?t) b = Some h" "games (clear_conn c ?t) k = Some l"
      "game_available h" "game_available l" "g_clienttag h = g_clienttag l" "strcasecmp (game_get_name h) (game_get_name l) = 0"
    then show "b = k" using d(8) [of b h k l] by (auto simp: clear_conn_def split: if_splits)
  qed (use d wf in \<open>auto simp: clear_conn_def split: if_splits\<close>)
  have e: "game_destroy a (put_game a g2 s) = Some (case g_realmname g2 of None \<Rightarrow> ?t
      | Some r \<Rightarrow> note_calls [Realm_add_game_number r (-1)] ?t)"
    by (simp add: game_destroy_def put_game_def Let_def)
  show ?thesis
  proof (cases "g_realmname g2")
    case None
    then show ?thesis using e i by simp
  next
    case (Some r)
    then show ?thesis using e i by simp
  qed
qed

lemma acknowledge_irrelevant [simp]:
  "game_inv env' ex (acknowledge_leave env c s) = game_inv env' ex s"
  "games (acknowledge_leave env c s) = games s" "conn_game (acknowledge_leave env c s) = conn_game s"
  by (simp_all add: acknowledge_leave_def)

lemma note_put: "note_calls calls (put_game a g s) = put_game a g (note_calls calls s)"
  by (simp add: note_calls_def put_game_def)

lemma leave_slot_inv:
  assumes inv: "game_inv env ex s" and ex: "ex = None \<or> ex = Some c" and a: "conn_game s c = Some a"
    and g: "games s a = Some g" and cs: "g_connections g = Some cs" and i: "i < length cs" "cs ! i = Some c"
  shows "\<exists>s'. leave_slot env a i g s = Some (0, s') \<and> game_inv env None (clear_conn c s') \<and> conn_game s' = conn_game s"
proof -
  note d = game_invD [OF inv]
  have wf: "game_wf env ex g" using d(4) [OF g] by blast
  define g1 where "g1 = g\<lparr>g_connections := Some (cs[i := None])\<rparr>"
  show ?thesis using wf
  proof (cases rule: game_wf_cases)
    case (slots cs' ps rs rr hs bs)
    then have e: "cs' = cs" using cs by simp
    have cl: "conn_list g = cs" using cs by (simp add: conn_list_def)
    have cin: "Some c \<in> set cs" using i nth_mem by metis
    have c1: "live_count (cs[i := None]) + 1 = g_ref g" using live_count_update [OF i(1), of None] i(2) slots e by simp
    have sl: "slots_ok env None (cs[i := None]) ps rr"
      by (rule slots_leave [OF slots(15) [unfolded e] i(1)]) (use ex i(2) in simp)
    show ?thesis
    proof (cases "g_ref g < 2")
      case True
      have one: "live_count cs = 1" using True slots(14) e live_count_pos [OF cin] by simp
      have "report_ready g1" using wf_ready [OF wf slots(7)] by (simp add: report_ready_def g1_def)
      then obtain r g2 calls where rep: "game_report env g1 = Some (r, g2, calls)" using report_total by blast
      have only: "d' = c" if "conn_game s d' = Some a" for d'
        using d(6) [OF g, of d'] that cin cl live_count_one [OF one, of c d'] by simp
      have "\<exists>s'. game_destroy a (put_game a g2 (note_calls calls s)) = Some s' \<and> game_inv env None (clear_conn c s')
          \<and> conn_game s' = conn_game (note_calls calls s) \<and> games s' = (games (note_calls calls s))(a := None)"
      proof (rule destroy_inv [OF _ ex])
        show "d' = c" if "conn_game (note_calls calls s) d' = Some a" for d' using only [of d'] that by simp
      qed (simp_all add: inv g a)
      then obtain s' where "game_destroy a (put_game a g2 (note_calls calls s)) = Some s'"
          "game_inv env None (clear_conn c s')" "conn_game s' = conn_game s" by auto
      then show ?thesis using True rep i cs by (simp add: leave_slot_def g1_def note_put)
    next
      case False
      let ?g = "g1\<lparr>g_ref := g_ref g - 1, g_lastaccess_time := ge_now env\<rparr>"
      have w: "game_wf env None ?g"
        using wf slots sl c1 e by (simp add: game_wf_def g1_def)
      obtain o' ad p where h: "game_choose_host env ?g = Some (?g\<lparr>g_owner := o', g_addr := ad, g_port := p\<rparr>)"
        using choose_host_total [OF w] by blast
      have "game_inv env None (clear_conn c (put_game a (?g\<lparr>g_owner := o', g_addr := ad, g_port := p\<rparr>) s))"
      proof (rule leave_game_inv [OF inv ex g a])
        show "game_wf env None (?g\<lparr>g_owner := o', g_addr := ad, g_port := p\<rparr>)" using w by simp
        show "\<forall>d. Some d \<in> set (conn_list (?g\<lparr>g_owner := o', g_addr := ad, g_port := p\<rparr>)) \<longleftrightarrow> Some d \<in> set (conn_list g) \<and> d \<noteq> c"
          using distinct_slots [OF slots(15) [unfolded e] i] cl by (simp add: g1_def) (simp add: conn_list_def)
        show "same_game g (?g\<lparr>g_owner := o', g_addr := ad, g_port := p\<rparr>)" by (simp add: g1_def same_game_def)
      qed
      then show ?thesis using False h i cs by (simp add: leave_slot_def g1_def)
    qed
  qed (use cs in simp)
qed

lemma del_player_inv:
  assumes env: "env_ok env" and inv: "game_inv env ex s" and ex: "ex = None \<or> ex = Some c" and a: "conn_game s c = Some a"
  shows "\<exists>s'. game_del_player env a c s = Some (0, s') \<and> game_inv env None (clear_conn c s') \<and> conn_game s' = conn_game s"
proof -
  note d = game_invD [OF inv]
  obtain g where g: "games s a = Some g" using d(7) [OF a] by blast
  have wf: "game_wf env ex g" using d(4) [OF g] by blast
  have cin: "Some c \<in> set (conn_list g)" using d(6) [OF g, of c] a by simp
  show ?thesis using wf
  proof (cases rule: game_wf_cases)
    case empty
    then show ?thesis using cin by (simp add: conn_list_def)
  next
    case (slots cs ps rs rr hs bs)
    have cl: "conn_list g = cs" using slots by (simp add: conn_list_def)
    obtain i where i: "i < length cs" "cs ! i = Some c" and f: "slot_to_leave env c g = Some (Some i)"
      using find_slot [OF env slots(15), of g c] slots cin cl by metis
    have "game_del_player env a c s = leave_slot env a i g (acknowledge_leave env c s)"
      using g slots(2,4) f by (simp add: game_del_player_def)
    then show ?thesis
      using leave_slot_inv [of env ex "acknowledge_leave env c s" c a g cs i] inv ex a g slots(1) i by simp
  qed
qed

end
