(* ===== verification/Game_Props.thy ===== *)
theory Game_Props
  imports Game_Inv
begin

text \<open>
  What the games promise: connections join and leave, games are created, reported and removed, and in every
  state the server can reach the invariant of \<^verbatim>\<open>Game_Inv\<close> holds and no operation faults; a started game is
  never reopened; how reported results are weighed; what it takes to join.
\<close>

section \<open>Finding and creating\<close>

lemma find_in_list_total:
  "set as \<subseteq> dom (games s) \<Longrightarrow> \<exists>r. find_in_list p as s = Some r \<and>
     (case r of None \<Rightarrow> \<forall>a \<in> set as. \<forall>g. games s a = Some g \<longrightarrow> \<not> p g
      | Some a \<Rightarrow> a \<in> set as \<and> (\<exists>g. games s a = Some g \<and> p g))"
proof (induction as)
  case (Cons a as)
  then obtain g where g: "games s a = Some g" by auto
  obtain r where "find_in_list p as s = Some r"
    and "case r of None \<Rightarrow> \<forall>a \<in> set as. \<forall>g. games s a = Some g \<longrightarrow> \<not> p g
      | Some a \<Rightarrow> a \<in> set as \<and> (\<exists>g. games s a = Some g \<and> p g)" using Cons by auto
  then show ?case using g by (cases "p g") (auto split: option.splits)
qed simp

lemma find_available_total:
  assumes "game_inv env ex s"
  shows "\<exists>r. gamelist_find_game_available nm ct ty s = Some r \<and>
     (case r of None \<Rightarrow> \<forall>a g. games s a = Some g \<longrightarrow> game_available g \<longrightarrow> \<not> game_named nm ct ty g
      | Some a \<Rightarrow> \<exists>g. games s a = Some g \<and> game_named nm ct ty g \<and> game_available g)"
proof -
  have e: "set (gamelist s) = dom (games s)" using game_invD(2) [OF assms] .
  then obtain r where "find_in_list (\<lambda>g. game_named nm ct ty g \<and> game_available g) (gamelist s) s = Some r"
    and "case r of None \<Rightarrow> \<forall>a \<in> set (gamelist s). \<forall>g. games s a = Some g \<longrightarrow> \<not> (game_named nm ct ty g \<and> game_available g)
      | Some a \<Rightarrow> a \<in> set (gamelist s) \<and> (\<exists>g. games s a = Some g \<and> (game_named nm ct ty g \<and> game_available g))"
    using find_in_list_total by blast
  then show ?thesis using e unfolding gamelist_find_game_available_def
    by (intro exI [of _ r] conjI) (auto split: option.splits)
qed

lemma strcasecmp_sym: "strcasecmp a b = 0 \<longleftrightarrow> strcasecmp b a = 0"
  using strcaseeq_iff [of a b] strcaseeq_iff [of b a] by (simp add: strcaseeq_def) metis

definition add_game :: "t_game \<Rightarrow> game_state \<Rightarrow> game_state" where
  "add_game g s = s\<lparr>games := (games s)(game_fresh s \<mapsto> g), gamelist := game_fresh s # gamelist s,
     glist_length := glist_length s + 1, totalcount := totalcount s + 1, game_fresh := game_fresh s + 1\<rparr>"

lemma add_game_inv:
  assumes inv: "game_inv env ex s" and wf: "game_wf env ex g" "g_id g = totalcount s + 1" "conn_list g = []"
    and new: "\<And>a h. games s a = Some h \<Longrightarrow> game_available h \<Longrightarrow> g_clienttag h = g_clienttag g \<Longrightarrow>
       strcasecmp (game_get_name g) (game_get_name h) \<noteq> 0"
  shows "game_inv env ex (add_game g s)"
proof -
  note d = game_invD [OF inv]
  have f: "games s (game_fresh s) = None" using d(4) [of "game_fresh s"] by (cases "games s (game_fresh s)") auto
  then have nc: "conn_game s c \<noteq> Some (game_fresh s)" for c using d(7) [of c "game_fresh s"] by blast
  show ?thesis
    unfolding game_inv_def
  proof (intro conjI allI impI)
    show "distinct (gamelist (add_game g s))" using d(1,2) f by (auto simp: add_game_def)
    show "set (gamelist (add_game g s)) = dom (games (add_game g s))" using d(2) by (auto simp: add_game_def)
    show "glist_length (add_game g s) = int (length (gamelist (add_game g s)))" using d(3) by (simp add: add_game_def)
  next
    fix b h assume "games (add_game g s) b = Some h"
    then show "b < game_fresh (add_game g s)" "game_wf env ex h" "g_id h \<le> totalcount (add_game g s)"
      using d(4) [of b h] wf by (auto simp: add_game_def split: if_splits)
  next
    fix b k h l assume a: "games (add_game g s) b = Some h" "games (add_game g s) k = Some l" "g_id h = g_id l"
    have o: "h = g \<and> b = game_fresh s \<or> games s b = Some h \<and> g_id h \<noteq> g_id g" using a(1) d(4) [of b h] wf(2)
      by (auto simp: add_game_def split: if_splits)
    have "l = g \<and> k = game_fresh s \<or> games s k = Some l \<and> g_id l \<noteq> g_id g" using a(2) d(4) [of k l] wf(2)
      by (auto simp: add_game_def split: if_splits)
    then show "b = k" using o a(3) d(5) by metis
  next
    fix b h c assume "games (add_game g s) b = Some h"
    then show "Some c \<in> set (conn_list h) \<longleftrightarrow> conn_game (add_game g s) c = Some b"
      using d(6) [of b h c] wf(3) nc by (auto simp: add_game_def split: if_splits)
  next
    fix c b assume "conn_game (add_game g s) c = Some b"
    then show "games (add_game g s) b \<noteq> None" using d(7) [of c b] by (auto simp: add_game_def)
  next
    fix b k h l assume a: "games (add_game g s) b = Some h" "games (add_game g s) k = Some l"
      "game_available h" "game_available l" "g_clienttag h = g_clienttag l" "strcasecmp (game_get_name h) (game_get_name l) = 0"
    have s: "strcasecmp (game_get_name l) (game_get_name h) = 0" using a(6) strcasecmp_sym by blast
    show "b = k"
    proof (cases "b = game_fresh s")
      case True
      then have "h = g" using a(1) by (simp add: add_game_def)
      then show ?thesis using new [of k l] a True by (auto simp: add_game_def split: if_splits)
    next
      case False
      then have b: "games s b = Some h" using a(1) by (simp add: add_game_def)
      show ?thesis
      proof (cases "k = game_fresh s")
        case True
        then have "l = g" using a(2) by (simp add: add_game_def)
        then show ?thesis using new [OF b] a s by simp
      next
        case False
        then show ?thesis using d(8) [OF b, of k l] a by (simp add: add_game_def)
      qed
    qed
  qed
qed

lemma settings_fields:
  assumes "same_but_settings g h"
  shows "g_name h = g_name g" "g_clienttag h = g_clienttag g" "g_id h = g_id g" "g_status h = g_status g" "g_count h = g_count g"
    "g_ref h = g_ref g" "g_connections h = g_connections g" "g_players h = g_players g" "g_results h = g_results g"
    "g_reported_results h = g_reported_results g" "g_report_heads h = g_report_heads g" "g_report_bodies h = g_report_bodies g"
    "g_pass h = g_pass g"
  using assms by (cases g; cases h; simp add: same_but_settings_def)+

lemma settings_wf:
  assumes "same_but_settings g h"
  shows "game_wf env ex h = game_wf env ex g" "conn_list h = conn_list g"
  by (simp_all add: settings_fields [OF assms] game_wf_def conn_list_def)

lemma new_game_wf: "ct \<noteq> 0 \<Longrightarrow> game_wf env ex (new_game nm pass info ty sv ct gv now i)"
  by (simp add: new_game_def game_wf_def)

lemma game_create_inv:
  assumes inv: "game_inv env ex s"
  shows "\<exists>r s'. game_create env nm pass info ty sv ct gv s = Some (r, s') \<and> game_inv env ex s' \<and> conn_game s' = conn_game s
    \<and> (r = None \<longrightarrow> s' = s) \<and> (\<forall>a. r = Some a \<longrightarrow> a \<notin> dom (games s) \<and> (\<exists>g. s' = add_game g s \<and> a = game_fresh s \<and> conn_list g = []))"
proof (cases "nm = None \<or> pass = None \<or> info = None")
  case True
  then show ?thesis using inv by (auto simp: game_create_def split: option.splits)
next
  case False
  then obtain n p i where e: "nm = Some n" "pass = Some p" "info = Some i" by auto
  obtain old where old: "gamelist_find_game_available n ct game_type_all s = Some old"
    and none: "case old of None \<Rightarrow> \<forall>a g. games s a = Some g \<longrightarrow> game_available g \<longrightarrow> \<not> game_named n ct game_type_all g
      | Some a \<Rightarrow> \<exists>g. games s a = Some g \<and> game_named n ct game_type_all g \<and> game_available g"
    using find_available_total [OF inv] by blast
  let ?n = "new_game n p i ty sv ct gv (ge_now env) (totalcount s + 1)"
  obtain r g where g: "game_parse_info (Some i) ?n = Some (r, g)" and sb: "same_but_settings ?n g"
    using game_parse_settings [of "Some i" ?n] by blast
  show ?thesis
  proof (cases "old = None \<and> ct \<noteq> 0")
    case False
    then show ?thesis using inv old e by (auto simp: game_create_def)
  next
    case True
    have f: "games s (game_fresh s) = None" using game_invD(4) [OF inv, of "game_fresh s"] by (cases "games s (game_fresh s)") auto
    have c: "conn_list g = []" using settings_wf [OF sb] by (simp add: conn_list_def new_game_def)
    have "game_inv env ex (add_game g s)"
    proof (rule add_game_inv [OF inv _ _ c])
      show "game_wf env ex g" using settings_wf [OF sb] new_game_wf True by simp
      show "g_id g = totalcount s + 1" using settings_fields [OF sb] by (simp add: new_game_def)
      fix a h assume h: "games s a = Some h" "game_available h" "g_clienttag h = g_clienttag g"
      obtain m where m: "g_name h = Some m" using game_invD(4) [OF inv h(1)] by (auto simp: game_wf_def)
      have "\<not> game_named n ct game_type_all h" using none True h by simp
      then show "strcasecmp (game_get_name g) (game_get_name h) \<noteq> 0"
        using m h(3) settings_fields [OF sb] by (simp add: game_named_def game_get_name_def new_game_def)
    qed
    moreover have "game_create env nm pass info ty sv ct gv s = Some (Some (game_fresh s), add_game g s)"
      using old e True g by (simp add: game_create_def add_game_def Let_def)
    moreover have "conn_game (add_game g s) = conn_game s" by (simp add: add_game_def)
    ultimately show ?thesis using f c by (metis domIff option.distinct(1) option.inject)
  qed
qed

section \<open>Moving a connection\<close>

lemma set_realmname_inv:
  assumes "game_inv env ex s" "games s a = Some g"
  shows "game_inv env ex (put_game a (game_set_realmname r g) s)"
proof (rule put_game_inv [OF assms])
  show "game_wf env ex (game_set_realmname r g)" using game_invD(4) [OF assms]
    by (simp add: game_set_realmname_def game_wf_def)
qed (simp_all add: game_set_realmname_def conn_list_def game_available_def)

text \<open>A connection without a game joins one.\<close>

lemma join_game_inv:
  assumes inv: "game_inv env None s" and c: "conn_game s c = None" and g: "games s a = Some g"
    and wf: "game_wf env None g'" and cl: "\<forall>d. Some d \<in> set (conn_list g') \<longleftrightarrow> d = c \<or> Some d \<in> set (conn_list g)"
    and same: "same_game g g'"
  shows "game_inv env None (set_conn c a (put_game a g' s))"
proof -
  note d = game_invD [OF inv]
  have n: "game_get_name g' = game_get_name g" "game_available g' = game_available g" "g_clienttag g' = g_clienttag g" "g_id g' = g_id g"
    using same by (simp_all add: game_get_name_def game_available_def same_game_def)
  have old: "\<exists>h'. games s b = Some h' \<and> g_id h' = g_id h \<and> g_clienttag h' = g_clienttag h
      \<and> game_get_name h' = game_get_name h \<and> (game_available h \<longrightarrow> game_available h')"
    if "games (set_conn c a (put_game a g' s)) b = Some h" for b h
    using g n that by (cases "b = a") (auto simp: set_conn_def)
  show ?thesis
    unfolding game_inv_def
  proof (intro conjI allI impI)
    show "set (gamelist (set_conn c a (put_game a g' s))) = dom (games (set_conn c a (put_game a g' s)))"
      using d(2) g by (auto simp: set_conn_def)
  next
    fix b k h l assume "games (set_conn c a (put_game a g' s)) b = Some h" "games (set_conn c a (put_game a g' s)) k = Some l"
      "game_available h" "game_available l" "g_clienttag h = g_clienttag l" "strcasecmp (game_get_name h) (game_get_name l) = 0"
    then show "b = k" using old [of b h] old [of k l] d(8) [of b _ k] by metis
  next
    fix b k h l assume "games (set_conn c a (put_game a g' s)) b = Some h" "games (set_conn c a (put_game a g' s)) k = Some l"
      "g_id h = g_id l"
    then show "b = k" using old [of b h] old [of k l] d(5) [of b _ k] by metis
  next
    fix b h e assume h: "games (set_conn c a (put_game a g' s)) b = Some h"
    show "Some e \<in> set (conn_list h) \<longleftrightarrow> conn_game (set_conn c a (put_game a g' s)) e = Some b"
    proof (cases "b = a")
      case True
      then show ?thesis using h cl d(6) [OF g, of e] by (auto simp: set_conn_def)
    next
      case False
      then show ?thesis using h d(6) [of b h e] c by (auto simp: set_conn_def)
    qed
  next
    fix b h assume h: "games (set_conn c a (put_game a g' s)) b = Some h"
    then show "b < game_fresh (set_conn c a (put_game a g' s))" "game_wf env None h" "g_id h \<le> totalcount (set_conn c a (put_game a g' s))"
      using d(4) [of b h] d(4) [OF g] wf n by (auto simp: set_conn_def split: if_splits)
  next
    fix e b assume "conn_game (set_conn c a (put_game a g' s)) e = Some b"
    then show "games (set_conn c a (put_game a g' s)) b \<noteq> None" using d(7) [of e b] by (auto simp: set_conn_def split: if_splits)
  qed (use d in \<open>simp_all add: set_conn_def\<close>)
qed


lemma inv_absent: "game_inv env ex s \<Longrightarrow> ex = None \<or> ex = Some c \<Longrightarrow> conn_game s c = None \<Longrightarrow> game_inv env None s"
proof (erule disjE)
  assume i: "game_inv env ex s" and c: "conn_game s c = None" and e: "ex = Some c"
  have "game_wf env None g" if "games s a = Some g" for a g
    using game_invD(4,6) [OF i that] c e game_wf_absent [of env c g] by simp
  then show "game_inv env None s" using i unfolding game_inv_def by blast
qed simp

lemma clear_conn_id: "conn_game s c = None \<Longrightarrow> clear_conn c s = s"
  by (simp add: clear_conn_def fun_upd_idem)

lemma leave_current_inv:
  assumes "env_ok env" "game_inv env ex s" "ex = None \<or> ex = Some c"
  shows "\<exists>s'. leave_current env c s = Some s' \<and> game_inv env None s' \<and> conn_game s' = (conn_game s)(c := None)"
proof (cases "conn_game s c")
  case None
  then show ?thesis using inv_absent [OF assms(2,3)] by (simp add: leave_current_def fun_upd_idem)
next
  case (Some a)
  then obtain s' where "game_del_player env a c s = Some (0, s')" "game_inv env None (clear_conn c s')" "conn_game s' = conn_game s"
    using del_player_inv [OF assms] by blast
  then show ?thesis using Some by (simp add: leave_current_def) (simp add: clear_conn_def)
qed

lemma find_or_create_inv:
  assumes inv: "game_inv env None s"
  shows "\<exists>r s'. find_or_create env c nm pass info ty v s = Some (r, s') \<and> game_inv env None s' \<and> conn_game s' = conn_game s
    \<and> (\<forall>a. r = Some a \<longrightarrow> games s' a \<noteq> None)"
proof -
  obtain f o' where f: "gamelist_find_game_available nm (ge_clienttag env c) ty s = Some f"
      "gamelist_find_game_available nm (ge_clienttag env c) game_type_all s = Some o'"
    and fs: "case f of None \<Rightarrow> \<forall>a g. games s a = Some g \<longrightarrow> game_available g \<longrightarrow> \<not> game_named nm (ge_clienttag env c) ty g
      | Some a \<Rightarrow> \<exists>g. games s a = Some g \<and> game_named nm (ge_clienttag env c) ty g \<and> game_available g"
    using find_available_total [OF inv] by meson
  show ?thesis
  proof (cases "f = None \<and> o' = None")
    case False
    then show ?thesis using f fs inv by (auto simp: find_or_create_def split: option.splits)
  next
    case True
    obtain r s' where cr: "game_create env (Some nm) pass info ty v (ge_clienttag env c) (ge_gameversion env c) s = Some (r, s')"
      and s': "game_inv env None s'" "conn_game s' = conn_game s"
      and r: "\<forall>a. r = Some a \<longrightarrow> a \<notin> dom (games s) \<and> (\<exists>g. s' = add_game g s \<and> a = game_fresh s \<and> conn_list g = [])"
      using game_create_inv [OF inv] by meson
    show ?thesis
    proof (cases r)
      case None
      then show ?thesis using True f cr s' by (simp add: find_or_create_def)
    next
      case (Some a)
      then obtain g where g: "games s' a = Some g" using r by (auto simp: add_game_def)
      then show ?thesis using True f cr s' Some set_realmname_inv [OF s'(1) g]
        by (cases "ge_realm env c") (simp_all add: find_or_create_def)
    qed
  qed
qed

lemma enter_game_inv:
  assumes inv: "game_inv env None s" and c: "conn_game s c = None" and g: "games s a = Some g"
  shows "\<exists>r s'. enter_game env c pass v a s = Some (r, s') \<and> game_inv env None s'
    \<and> conn_game s' = (conn_game s)(c := (if r = 0 then Some a else None)) \<and> (r = 0 \<longleftrightarrow> may_join env pass v c g)"
proof (cases "may_join env pass v c g")
  case False
  then have "enter_game env c pass v a s = Some (-1, clear_conn c (put_game a g s))"
    using g by (simp add: enter_game_def game_add_player_def)
  moreover have "put_game a g s = s" using g by (simp add: put_game_def fun_upd_idem)
  ultimately show ?thesis using inv c False by (simp add: clear_conn_id fun_upd_idem)
next
  case True
  have wf: "game_wf env None g" using game_invD(4) [OF inv g] by blast
  have "Some c \<notin> set (conn_list g)" using game_invD(6) [OF inv g, of c] c by simp
  then obtain g' where add: "game_add_player env pass v c g = Some (0, g')" and w: "game_wf env None g'"
      "\<forall>d. Some d \<in> set (conn_list g') \<longleftrightarrow> d = c \<or> Some d \<in> set (conn_list g)" "same_game g g'"
    using add_player_wf [OF wf _ True] by blast
  have "game_inv env None (set_conn c a (put_game a g' s))" by (rule join_game_inv [OF inv c g w])
  moreover have "conn_game (set_conn c a (put_game a g' s)) = (conn_game s)(c \<mapsto> a)" by (simp add: set_conn_def)
  ultimately show ?thesis using g add True by (simp add: enter_game_def Let_def)
qed

lemma conn_set_game_inv:
  assumes "env_ok env" "game_inv env ex s" "ex = None \<or> ex = Some c \<and> gamename = None"
  shows "\<exists>r s'. conn_set_game env c gamename pass info ty v s = Some (r, s') \<and> game_inv env None s'"
proof -
  have "\<exists>b. already_in c gamename s = Some b \<and> (b \<longrightarrow> gamename \<noteq> None)"
  proof (cases "conn_game s c")
    case (Some a)
    then obtain g where "games s a = Some g" using game_invD(7) [OF assms(2)] by blast
    then show ?thesis using Some by (cases gamename) (auto simp: already_in_def)
  qed (intro exI [of _ False], simp add: already_in_def)
  then obtain b where b: "already_in c gamename s = Some b" "b \<longrightarrow> gamename \<noteq> None" by blast
  obtain s1 where s1: "leave_current env c s = Some s1" "game_inv env None s1" "conn_game s1 = (conn_game s)(c := None)"
    using leave_current_inv [OF assms(1,2)] assms(3) by blast
  show ?thesis
  proof (cases "b \<or> gamename = None")
    case True
    then show ?thesis using b s1 assms by (cases b) (auto simp: conn_set_game_def clear_conn_id)
  next
    case False
    then obtain nm where nm: "gamename = Some nm" by blast
    obtain r s2 where r: "find_or_create env c nm pass info ty v s1 = Some (r, s2)" "game_inv env None s2"
        "conn_game s2 = conn_game s1" "\<forall>a. r = Some a \<longrightarrow> games s2 a \<noteq> None"
      using find_or_create_inv [OF s1(2)] by blast
    have c: "conn_game s2 c = None" using r s1 by simp
    show ?thesis
    proof (cases r)
      case None
      then show ?thesis using b s1 r nm False c by (simp add: conn_set_game_def clear_conn_id)
    next
      case (Some a)
      then obtain g where g: "games s2 a = Some g" using r by blast
      obtain q s3 where "enter_game env c pass v a s2 = Some (q, s3)" "game_inv env None s3"
        using enter_game_inv [OF r(2) c g] by blast
      then show ?thesis using b s1 r nm False Some by (simp add: conn_set_game_def)
    qed
  qed
qed

section \<open>Reports\<close>

text \<open>A game changed in its reports only.\<close>

definition reports_only :: "t_game \<Rightarrow> t_game \<Rightarrow> bool" where
  "reports_only g g' \<longleftrightarrow> (\<exists>rr hs bs. g' = g\<lparr>g_reported_results := rr, g_report_heads := hs, g_report_bodies := bs\<rparr>)"

lemma reports_only_refl [simp]: "reports_only g g"
proof -
  have "g = g\<lparr>g_reported_results := g_reported_results g, g_report_heads := g_report_heads g, g_report_bodies := g_report_bodies g\<rparr>"
    by simp
  then show ?thesis unfolding reports_only_def by blast
qed

lemma reports_only_trans: "reports_only g h \<Longrightarrow> reports_only h k \<Longrightarrow> reports_only g k"
proof -
  assume "reports_only g h" "reports_only h k"
  then obtain rr hs bs rr' hs' bs' where h: "h = g\<lparr>g_reported_results := rr, g_report_heads := hs, g_report_bodies := bs\<rparr>"
    and k: "k = h\<lparr>g_reported_results := rr', g_report_heads := hs', g_report_bodies := bs'\<rparr>"
    unfolding reports_only_def by blast
  have "k = g\<lparr>g_reported_results := rr', g_report_heads := hs', g_report_bodies := bs'\<rparr>" by (simp add: h k)
  then show ?thesis unfolding reports_only_def by blast
qed

lemma reports_only_fields:
  "reports_only g h \<Longrightarrow> g_name h = g_name g \<and> g_clienttag h = g_clienttag g \<and> g_id h = g_id g \<and> g_status h = g_status g
     \<and> g_count h = g_count g \<and> g_players h = g_players g \<and> conn_list h = conn_list g"
  unfolding reports_only_def by (elim exE) (simp add: conn_list_def)

lemma reports_only_inv:
  assumes "game_inv env ex s" "games s a = Some g" "game_wf env ex g'" "reports_only g g'"
  shows "game_inv env ex (put_game a g' s)"
  by (rule put_game_inv [OF assms(1-3)]) (use reports_only_fields [OF assms(4)] in \<open>simp_all add: game_available_def\<close>)

lemma slot_of_total:
  assumes "game_wf env ex g" "Some c \<in> set (conn_list g)"
  obtains i ps cs where "slot_of g (ge_account env c) = Some (Some i)" "g_players g = Some ps" "g_connections g = Some cs"
    "i < g_count g" "length ps = g_count g" "length cs = g_count g" "ps ! i = Some (ge_account env c)"
  using assms(1)
proof (cases rule: game_wf_cases)
  case empty
  then show ?thesis using assms(2) by (simp add: conn_list_def)
next
  case (slots cs ps rs rr hs bs)
  let ?q = "\<lambda>i. ps ! i = Some (ge_account env c)"
  have f: "slot_of g (ge_account env c) = Some (List.find ?q [0..<g_count g])"
    unfolding slot_of_def slots(2) using slots(9) by (intro first_index_find) simp
  obtain k where k: "k < length cs" "cs ! k = Some c" using assms(2) slots(1) by (auto simp: conn_list_def in_set_conv_nth)
  then have "?q k" using slots(15) by (simp add: slots_ok_def)
  then obtain i where i: "List.find ?q [0..<g_count g] = Some i"
    using k(1) slots(8) by (cases "List.find ?q [0..<g_count g]") (auto simp: find_None_iff)
  then show ?thesis using that [of i ps cs] f slots by (auto simp: find_Some_iff)
qed

lemma own_slot:
  assumes "env_ok env" "slots_ok env ex cs ps rr" "i < length cs" "ps ! i = Some (ge_account env c)"
  shows "cs ! i = None \<or> cs ! i = Some c"
  using assms by (cases "cs ! i") (auto simp: slots_ok_def env_ok_def inj_eq)

lemma slots_report:
  assumes "slots_ok env ex cs ps rr" "i < length cs" "length rr = length cs" "cs ! i = None \<or> cs ! i = ex"
    and "length cs \<le> length results"
  shows "slots_ok env ex cs ps (rr[i := Some results])"
  using assms unfolding slots_ok_def by (auto simp: nth_list_update split: if_splits)

lemma set_results_wf:
  assumes env: "env_ok env" and wf: "game_wf env (Some c) g" and c: "Some c \<in> set (conn_list g)" and l: "g_count g \<le> length results"
  shows "\<exists>r g'. game_set_reported_results (ge_account env c) results g = Some (r, g') \<and> game_wf env (Some c) g' \<and> reports_only g g'"
proof -
  obtain i ps cs where i: "slot_of g (ge_account env c) = Some (Some i)" "g_players g = Some ps" "g_connections g = Some cs"
    "i < g_count g" "length ps = g_count g" "length cs = g_count g" "ps ! i = Some (ge_account env c)"
    using slot_of_total [OF wf c] .
  show ?thesis using wf
  proof (cases rule: game_wf_cases)
    case (slots cs' ps' rs rr hs bs)
    then have e: "cs' = cs" "ps' = ps" using i by simp_all
    have s: "slots_ok env (Some c) cs ps (rr[i := Some results])"
      using slots_report [OF slots(15), of i results] own_slot [OF env slots(15), of i c] i l slots unfolding e by simp
    let ?g = "g\<lparr>g_reported_results := Some (rr[i := Some results])\<rparr>"
    have w: "game_wf env (Some c) ?g" using wf slots s e by (simp add: game_wf_def)
    have o: "reports_only g ?g" unfolding reports_only_def
      by (intro exI [of _ "Some (rr[i := Some results])"] exI [of _ "g_report_heads g"] exI [of _ "g_report_bodies g"]) simp
    consider "rr ! i \<noteq> None" | "rr ! i = None" "results ! i \<in> {game_result_none, game_result_playing}"
      | "rr ! i = None" "results ! i \<notin> {game_result_none, game_result_playing}" by blast
    then show ?thesis
    proof cases
      case 3
      then have "game_set_reported_results (ge_account env c) results g = Some (0, ?g)"
        using i slots l by (simp add: game_set_reported_results_def)
      then show ?thesis using w o by blast
    qed (use i slots l wf in \<open>auto simp: game_set_reported_results_def\<close>)
  qed (use i in simp)
qed

lemma set_report_wf:
  assumes wf: "game_wf env ex g"
  shows "\<exists>r g'. game_set_report acct h b g = Some (r, g') \<and> game_wf env ex g' \<and> reports_only g g'"
proof (cases "g_players g = None \<or> g_report_heads g = None \<or> g_report_bodies g = None \<or> h = None \<or> b = None")
  case True
  then show ?thesis using wf by (simp add: game_set_report_def)
next
  case False
  show ?thesis using wf
  proof (cases rule: game_wf_cases)
    case (slots cs ps rs rr hs bs)
    have f: "first_index (\<lambda>i. map_option (\<lambda>p. p = Some acct) (arr_get (Some ps) i)) (rev [0..<g_count g])
        = Some (List.find (\<lambda>i. ps ! i = Some acct) (rev [0..<g_count g]))"
      using slots(9) by (intro first_index_find) simp
    show ?thesis
    proof (cases "List.find (\<lambda>i. ps ! i = Some acct) (rev [0..<g_count g])")
      case None
      then show ?thesis using f False slots wf by (simp add: game_set_report_def)
    next
      case (Some i)
      then have "i \<in> set (rev [0..<g_count g])" by (metis find_Some_iff nth_mem)
      then have il: "i < g_count g" by simp
      let ?g = "g\<lparr>g_report_heads := Some (hs[i := h]), g_report_bodies := Some (bs[i := b])\<rparr>"
      have "reports_only g ?g" unfolding reports_only_def
        by (intro exI [of _ "g_reported_results g"] exI [of _ "Some (hs[i := h])"] exI [of _ "Some (bs[i := b])"]) simp
      moreover have "game_wf env ex ?g" using wf slots by (simp add: game_wf_def)
      moreover have "game_set_report acct h b g = Some (0, ?g)" using f False slots Some il by (simp add: game_set_report_def)
      ultimately show ?thesis by blast
    qed
  qed (use False in simp)
qed

lemma set_self_report_wf:
  assumes env: "env_ok env" and wf: "game_wf env (Some c) g" and c: "Some c \<in> set (conn_list g)"
  shows "\<exists>r g'. game_set_self_report (ge_account env c) res g = Some (r, g') \<and> game_wf env (Some c) g' \<and> reports_only g g'"
proof -
  obtain i ps cs where i: "g_players g = Some ps" "length ps = g_count g"
    using slot_of_total [OF wf c] by metis
  let ?l = "map (\<lambda>p. if p = Some (ge_account env c) then res else game_result_none) (take (g_count g) ps)"
  obtain r g' where "game_set_reported_results (ge_account env c) ?l g = Some (r, g')" "game_wf env (Some c) g'" "reports_only g g'"
    using set_results_wf [OF env wf c, of ?l] i by auto
  then show ?thesis using i wf by (auto simp: game_set_self_report_def)
qed

section \<open>The operations of the server\<close>

text \<open>
  What the packet handlers and the main loop do with games, on the game of a connection as they do. A
  state is reached by any sequence of them; the accounts of the connections are fixed.
\<close>

datatype game_op =
    Set_game nat "cstring option" "cstring option" "cstring option" t_game_type int
  | Report_game nat "(cstring \<times> cstring) option" "nat \<Rightarrow> t_game_result"
  | Destroy_conn nat
  | Check_void
  | Set_status nat t_game_status
  | Set_option nat t_game_option
  | Set_flag nat t_game_flag
  | Set_realm nat u32
  | Set_channel nat "nat option"

definition change_game :: "nat \<Rightarrow> (t_game \<Rightarrow> t_game) \<Rightarrow> game_state \<Rightarrow> game_state option" where
  "change_game c f s = (case conn_game s c of None \<Rightarrow> Some s
     | Some a \<Rightarrow> do { g \<leftarrow> games s a; Some (put_game a (f g) s) })"

fun game_run :: "game_env \<Rightarrow> game_op \<Rightarrow> game_state \<Rightarrow> game_state option" where
  "game_run env (Set_game c nm pass info ty v) s = map_option snd (conn_set_game env c nm pass info ty v s)"
| "game_run env (Report_game c rep res) s = map_option snd (client_gamereport_end env c rep res s)"
| "game_run env (Destroy_conn c) s = map_option snd (conn_destroy_game env c s)"
| "game_run env Check_void s = gamelist_check_voidgame env s"
| "game_run env (Set_status c st) s = change_game c (game_set_status (ge_now env) st) s"
| "game_run env (Set_option c v) s = change_game c (game_set_option v) s"
| "game_run env (Set_flag c v) s = change_game c (game_set_flag v) s"
| "game_run env (Set_realm c v) s = change_game c (game_set_realm v) s"
| "game_run env (Set_channel c v) s = change_game c (game_set_channel v) s"

definition games_start :: game_state where
  "games_start = \<lparr>games = (\<lambda>_. None), gamelist = [], glist_length = 0, totalcount = 0, game_fresh = 0,
     conn_game = (\<lambda>_. None), leave_ack = (\<lambda>_. False), game_calls = []\<rparr>"

inductive games_reachable :: "(nat \<Rightarrow> nat) \<Rightarrow> game_state \<Rightarrow> bool" for acct where
  games_begin: "games_reachable acct games_start"
| games_step: "games_reachable acct s \<Longrightarrow> ge_account env = acct \<Longrightarrow> game_run env p s = Some s' \<Longrightarrow> games_reachable acct s'"

lemma client_gamereport_inv:
  assumes env: "env_ok env" and inv: "game_inv env None s"
  shows "\<exists>r s'. client_gamereport_end env c rep res s = Some (r, s') \<and> game_inv env None s'"
proof (cases "conn_game s c")
  case None
  then show ?thesis using inv by (simp add: client_gamereport_end_def)
next
  case (Some a)
  obtain g where g: "games s a = Some g" using game_invD(7) [OF inv Some] by blast
  have c: "Some c \<in> set (conn_list g)" using game_invD(6) [OF inv g] Some by simp
  have wf: "game_wf env (Some c) g" using game_invD(4) [OF inv g] game_wf_mono by blast
  have "\<exists>r g1. (case rep of None \<Rightarrow> Some (0, g)
       | Some (h, b) \<Rightarrow> game_set_report (ge_account env c) (Some h) (Some b) g) = Some (r, g1) \<and> game_wf env (Some c) g1 \<and> reports_only g g1"
    using set_report_wf [OF wf] wf by (cases rep) auto
  then obtain r1 g1 where g1: "(case rep of None \<Rightarrow> Some (0, g)
       | Some (h, b) \<Rightarrow> game_set_report (ge_account env c) (Some h) (Some b) g) = Some (r1, g1)"
       "game_wf env (Some c) g1" "reports_only g g1" by blast
  have e: "g_count g1 = g_count g" "conn_list g1 = conn_list g" using reports_only_fields [OF g1(3)] by simp_all
  obtain r2 g2 where g2: "game_set_reported_results (ge_account env c) (map res [0..<g_count g]) g1 = Some (r2, g2)"
      "game_wf env (Some c) g2" "reports_only g1 g2"
    using set_results_wf [OF env g1(2), of "map res [0..<g_count g]"] c e by auto
  have "game_inv env (Some c) (put_game a g2 s)"
    by (rule reports_only_inv [OF game_inv_mono [OF inv] g g2(2) reports_only_trans [OF g1(3) g2(3)]])
  then obtain r3 s' where "conn_set_game env c None None None game_type_none 0 (put_game a g2 s) = Some (r3, s')" "game_inv env None s'"
    using conn_set_game_inv [OF env, of "Some c" "put_game a g2 s" c None] by blast
  then show ?thesis using Some g g1(1) g2(1) by (simp add: client_gamereport_end_def)
qed

lemma conn_destroy_game_inv:
  assumes env: "env_ok env" and inv: "game_inv env None s"
  shows "\<exists>r s'. conn_destroy_game env c s = Some (r, s') \<and> game_inv env None s'"
proof -
  have "\<exists>s1. (case conn_game s c of None \<Rightarrow> Some s
       | Some a \<Rightarrow> do {
           g \<leftarrow> games s a;
           if g_status g = game_status_started
           then do {
             (_, g1) \<leftarrow> game_set_self_report (ge_account env c) game_result_disconnect g;
             (_, g2) \<leftarrow> game_set_report (ge_account env c) (Some ''disconnect'') (Some ''disconnect'') g1;
             Some (put_game a g2 s) }
           else Some s }) = Some s1 \<and> game_inv env (Some c) s1"
  proof (cases "conn_game s c")
    case None
    then show ?thesis using game_inv_mono [OF inv] by simp
  next
    case (Some a)
    obtain g where g: "games s a = Some g" using game_invD(7) [OF inv Some] by blast
    have c: "Some c \<in> set (conn_list g)" using game_invD(6) [OF inv g] Some by simp
    have wf: "game_wf env (Some c) g" using game_invD(4) [OF inv g] game_wf_mono by blast
    obtain r1 g1 where g1: "game_set_self_report (ge_account env c) game_result_disconnect g = Some (r1, g1)"
        "game_wf env (Some c) g1" "reports_only g g1" using set_self_report_wf [OF env wf c] by blast
    obtain r2 g2 where g2: "game_set_report (ge_account env c) (Some ''disconnect'') (Some ''disconnect'') g1 = Some (r2, g2)"
        "game_wf env (Some c) g2" "reports_only g1 g2" using set_report_wf [OF g1(2)] by blast
    have "game_inv env (Some c) (put_game a g2 s)"
      by (rule reports_only_inv [OF game_inv_mono [OF inv] g g2(2) reports_only_trans [OF g1(3) g2(3)]])
    then show ?thesis using Some g g1(1) g2(1) game_inv_mono [OF inv] by simp
  qed
  then show ?thesis using conn_set_game_inv [OF env, of "Some c" _ c None] unfolding conn_destroy_game_def by fastforce
qed

lemma unused_connection:
  assumes "game_inv env ex s"
  obtains c where "conn_game s c = None"
proof -
  note d = game_invD [OF assms]
  have "{c. conn_game s c \<noteq> None} \<subseteq> (\<Union>a \<in> set (gamelist s). the ` set (conn_list (the (games s a))))"
  proof
    fix c assume "c \<in> {c. conn_game s c \<noteq> None}"
    then obtain a where a: "conn_game s c = Some a" by auto
    then obtain g where g: "games s a = Some g" using d(7) by blast
    then have "Some c \<in> set (conn_list g)" using d(6) [OF g] a by simp
    then have "c \<in> the ` set (conn_list (the (games s a)))" using g by force
    moreover have "a \<in> set (gamelist s)" using d(2) g by auto
    ultimately show "c \<in> (\<Union>a \<in> set (gamelist s). the ` set (conn_list (the (games s a))))" by blast
  qed
  then have "finite {c. conn_game s c \<noteq> None}" by (rule finite_subset) simp
  then have "\<exists>c. c \<notin> {c. conn_game s c \<noteq> None}" by (rule ex_new_if_finite [OF infinite_UNIV_nat])
  then show ?thesis using that by auto
qed

lemma destroy_empty_inv:
  assumes inv: "game_inv env None s" and g: "games s a = Some g" and r: "g_ref g = 0"
  shows "\<exists>s'. game_destroy a s = Some s' \<and> game_inv env None s' \<and> games s' = (games s)(a := None)"
proof -
  note d = game_invD [OF inv]
  obtain c where c: "conn_game s c = None" using unused_connection [OF inv] .
  have "Some e \<notin> set (conn_list g)" for e
    using d(4) [OF g] r live_count_pos [of e] by (fastforce simp: game_wf_def conn_list_def)
  then have n: "conn_game s e \<noteq> Some a" for e using d(6) [OF g, of e] by simp
  have "\<exists>s'. game_destroy a (put_game a g s) = Some s' \<and> game_inv env None (clear_conn c s')
    \<and> conn_game s' = conn_game s \<and> games s' = (games s)(a := None)"
    by (rule destroy_inv [OF inv _ g]) (use n c in simp_all)
  moreover have "put_game a g s = s" using g by (simp add: put_game_def fun_upd_idem)
  ultimately show ?thesis using c by (auto simp: clear_conn_id)
qed

lemma check_void_inv:
  "game_inv env None s \<Longrightarrow> distinct as \<Longrightarrow> set as \<subseteq> dom (games s) \<Longrightarrow>
   \<exists>s'. check_void env' as s = Some s' \<and> game_inv env None s'"
proof (induction as arbitrary: s)
  case (Cons a as)
  obtain g where g: "games s a = Some g" using Cons.prems by auto
  show ?case
  proof (cases "g_realm g = 0 \<or> g_ref g \<ge> 1 \<or> \<not> ge_now env' - g_lastaccess_time g > MAX_GAME_EMPTY_TIME")
    case True
    then show ?thesis using Cons g by auto
  next
    case False
    then obtain s' where "game_destroy a s = Some s'" "game_inv env None s'" "games s' = (games s)(a := None)"
      using destroy_empty_inv [OF Cons.prems(1) g] by auto
    moreover from this have "\<exists>t. check_void env' as s' = Some t \<and> game_inv env None t"
      using Cons.prems by (intro Cons.IH) auto
    ultimately show ?thesis using False g by auto
  qed
qed simp

lemma change_game_inv:
  assumes "game_inv env None s" and "\<And>g. game_wf env None g \<Longrightarrow> game_wf env None (f g)"
    and "\<And>g. g_name (f g) = g_name g \<and> g_clienttag (f g) = g_clienttag g \<and> g_id (f g) = g_id g \<and> g_connections (f g) = g_connections g"
    and "\<And>g. game_available (f g) \<Longrightarrow> game_available g"
  shows "\<exists>s'. change_game c f s = Some s' \<and> game_inv env None s'"
proof (cases "conn_game s c")
  case None
  then show ?thesis using assms(1) by (simp add: change_game_def)
next
  case (Some a)
  obtain g where g: "games s a = Some g" using game_invD(7) [OF assms(1) Some] by blast
  have "game_inv env None (put_game a (f g) s)"
  proof (rule put_game_inv [OF assms(1) g])
    show "game_wf env None (f g)" using assms(2) game_invD(4) [OF assms(1) g] by blast
    show "conn_list (f g) = conn_list g" using assms(3) [of g] by (simp add: conn_list_def)
  qed (use assms(3) [of g] assms(4) [of g] in simp_all)
  then show ?thesis using Some g by (simp add: change_game_def)
qed

lemma set_status_available: "game_available (game_set_status now st g) \<Longrightarrow> game_available g"
  by (cases st; cases "g_status g") (auto simp: game_available_def game_set_status_def split: if_splits)

lemma set_status_shape: "\<exists>t st'. game_set_status now st g = g\<lparr>g_start_time := t, g_status := st'\<rparr>"
proof -
  have "g = g\<lparr>g_start_time := g_start_time g, g_status := g_status g\<rparr>" by simp
  moreover have "g\<lparr>g_status := st\<rparr> = g\<lparr>g_start_time := g_start_time g, g_status := st\<rparr>" by simp
  ultimately show ?thesis unfolding game_set_status_def by (simp only: split: if_splits) blast
qed

lemma set_status_keeps:
  "game_wf env ex g \<Longrightarrow> game_wf env ex (game_set_status now st g)"
  "g_name (game_set_status now st g) = g_name g \<and> g_clienttag (game_set_status now st g) = g_clienttag g
    \<and> g_id (game_set_status now st g) = g_id g \<and> g_connections (game_set_status now st g) = g_connections g"
  using set_status_shape [of now st g] by (elim exE, simp add: game_wf_def)+

lemma game_run_inv:
  assumes "env_ok env" "game_inv env None s"
  shows "\<exists>s'. game_run env p s = Some s' \<and> game_inv env None s'"
proof (cases p)
  case (Set_game c nm pass info ty v)
  then show ?thesis using conn_set_game_inv [OF assms, of c nm pass info ty v] by auto
next
  case (Report_game c rep res)
  then show ?thesis using client_gamereport_inv [OF assms, of c rep res] by auto
next
  case (Destroy_conn c)
  then show ?thesis using conn_destroy_game_inv [OF assms, of c] by auto
next
  case Check_void
  then show ?thesis using check_void_inv [OF assms(2), of "gamelist s" env] game_invD(1,2) [OF assms(2)]
    by (simp add: gamelist_check_voidgame_def)
next
  case (Set_status c st)
  show ?thesis unfolding Set_status game_run.simps
    by (rule change_game_inv [OF assms(2)]) (erule set_status_keeps set_status_available | rule set_status_keeps)+
qed (simp only: game_run.simps; intro change_game_inv [OF assms(2)];
     simp add: game_set_option_def game_set_flag_def game_set_realm_def game_set_channel_def game_wf_def game_available_def
       split: option.splits)+

lemma game_inv_account: "ge_account env = ge_account env' \<Longrightarrow> game_inv env ex s \<Longrightarrow> game_inv env' ex s"
  unfolding game_inv_def game_wf_def slots_ok_def by simp

lemma games_start_inv: "game_inv env ex games_start"
  by (simp add: game_inv_def games_start_def)

lemma reachable_inv: "games_reachable acct s \<Longrightarrow> inj acct \<Longrightarrow> ge_account env = acct \<Longrightarrow> game_inv env None s"
proof (induction rule: games_reachable.induct)
  case games_begin
  then show ?case by (simp add: games_start_inv)
next
  case (games_step s env' p s')
  then have "game_inv env' None s" using game_inv_account by metis
  moreover have "env_ok env'" using games_step by (simp add: env_ok_def)
  ultimately have "game_inv env' None s'" using game_run_inv [of env' s p] games_step by auto
  then show ?case using game_inv_account games_step by metis
qed

section \<open>Properties\<close>

text \<open>
  C1. Under every sequence of joining, leaving, reporting, disconnecting, status and setting changes and
  of removals of empty games, with the clock, the configuration and the answers of the other modules changing
  from step to step, no operation ever reads a freed game or outside an array; the list holds exactly
  the live games, every game's reference count, arrays, player and connection slots agree, a connection is
  in the game it points to and in no other, identifiers are unique, and no two open games of a client
  have the same name. It assumes that no account is used by two connections.
\<close>

theorem games_consistent:
  assumes "inj acct" "games_reachable acct s" "ge_account env = acct"
  shows "game_inv env None s \<and> (\<exists>s'. game_run env p s = Some s')"
  using reachable_inv [OF assms(2,1,3)] game_run_inv [of env s p] assms by (auto simp: env_ok_def)

definition sample_env :: game_env where
  "sample_env = \<lparr>ge_account = (\<lambda>c. c), ge_game_addr = (\<lambda>_. 1), ge_game_port = (\<lambda>_. 6112),
     ge_clienttag = (\<lambda>_. CLIENTTAG_STARCRAFT_UINT), ge_gameversion = (\<lambda>_. 1), ge_wol = (\<lambda>_. False), ge_realm = (\<lambda>_. None),
     ge_normal_wins = (\<lambda>a _. if a = 7 then 10 else 0), ge_report_diablo_games = False, ge_report_all_games = False,
     ge_ladder_games = None, ge_ladder_prefix = None, ge_discisloss = False, ge_now = 1000\<rparr>"

theorem games_consistent_witness:
  "game_inv sample_env None games_start
   \<and> (\<exists>s'. game_run sample_env (Set_game 3 (Some ''Game'') (Some ''pw'') (Some '''') game_type_ffa STARTVER_GW1) games_start = Some s')"
proof -
  have "ge_account sample_env = id" by (simp add: sample_env_def fun_eq_iff)
  then show ?thesis by (rule games_consistent [OF inj_on_id games_begin])
qed

definition verdict :: "bool \<Rightarrow> t_game_result list \<Rightarrow> t_game_result" where
  "verdict discisloss xs =
     (let best = foldl (\<lambda>b r. if tally b xs < tally r xs then r else b) game_result_disconnect
                   [game_result_loss, game_result_draw, game_result_win]
      in if tally best xs = 0 then game_result_none
         else if best = game_result_disconnect \<and> discisloss then game_result_loss else best)"

lemma decide_verdict: "decide disc xs = Some (verdict disc xs)"
  by (simp add: decide_def verdict_def Let_def) 

lemma reports_about_all:
  "\<forall>arr. Some arr \<in> set rr \<longrightarrow> i < length arr \<Longrightarrow>
   reports_about i rr = Some (map (\<lambda>arr. arr ! i) (List.map_filter id rr))"
  by (induction rr) (auto simp: List.map_filter_def split: option.splits)

lemma evaluate_slots_verdicts:
  assumes "\<forall>arr. Some arr \<in> set rr \<longrightarrow> n \<le> length arr"
  shows "k \<le> n \<Longrightarrow> length rs = n \<Longrightarrow> evaluate_slots disc rr [k..<n] rs
     = Some (take k rs @ map (\<lambda>i. verdict disc (map (\<lambda>arr. arr ! i) (List.map_filter id rr))) [k..<n])"
proof (induction "n - k" arbitrary: k rs)
  case 0
  then show ?case by simp
next
  case (Suc m)
  then have k: "k < n" by simp
  let ?v = "\<lambda>i. verdict disc (map (\<lambda>arr. arr ! i) (List.map_filter id rr))"
  have "reports_about k rr = Some (map (\<lambda>arr. arr ! k) (List.map_filter id rr))"
    using assms k by (intro reports_about_all) force
  moreover have "evaluate_slots disc rr [Suc k..<n] (rs[k := ?v k]) = Some (take (Suc k) (rs[k := ?v k]) @ map ?v [Suc k..<n])"
    using Suc k by (intro Suc.hyps(1)) auto
  ultimately show ?case using k Suc.prems
    by (simp add: upt_conv_Cons decide_verdict take_Suc_conv_app_nth)
qed

lemma verdict_most:
  "q \<in> {game_result_win, game_result_loss, game_result_draw, game_result_disconnect} \<Longrightarrow>
   tally q xs \<le> tally (verdict False xs) xs \<or> verdict False xs = game_result_none \<and> tally q xs = 0"
  by (auto simp: verdict_def Let_def)

text \<open>
  C18. The evaluation of a game with several reports gives every slot the result most of the reports name
  for it: ties go to disconnect, then loss, then draw; a disconnect counts as a loss where the game says
  so; results that are not final do not count, and without any vote the result is none.
\<close>

theorem game_evaluate_plurality:
  assumes "game_wf env ex g" "g_reported_results g = Some rr" "g_results g = Some rs"
  shows "game_evaluate_results env g = Some (0, g\<lparr>g_results := Some (map
      (\<lambda>i. verdict (game_discisloss env g) (map (\<lambda>arr. arr ! i) (List.map_filter id rr))) [0..<g_count g])\<rparr>)"
  using assms(1)
proof (cases rule: game_wf_cases)
  case (slots cs ps rs' rr' hs bs)
  have "\<forall>arr. Some arr \<in> set rr \<longrightarrow> g_count g \<le> length arr"
    using wf_ready [OF assms(1) slots(7)] assms(2) by (auto simp: report_ready_def)
  then show ?thesis using evaluate_slots_verdicts [of rr "g_count g" 0 rs "game_discisloss env g"] slots assms(2,3)
    by (simp add: game_evaluate_results_def)
qed (use assms in simp)

definition reported_game :: t_game where
  "reported_game = (new_game ''g'' [] [] game_type_ffa 1 CLIENTTAG_STARCRAFT_UINT 1 0 1)
     \<lparr>g_count := 2, g_ref := 1, g_connections := Some [None, Some 5], g_players := Some [Some 4, Some 5],
      g_results := Some [game_result_none, game_result_none], g_report_heads := Some [None, None], g_report_bodies := Some [None, None],
      g_reported_results := Some [Some [game_result_win, game_result_disconnect], None]\<rparr>"

theorem game_evaluate_plurality_witness:
  "game_evaluate_results sample_env reported_game
    = Some (0, reported_game\<lparr>g_results := Some [game_result_win, game_result_disconnect]\<rparr>)"
proof -
  have "slots_ok sample_env None [None, Some 5] [Some 4, Some 5] [Some [game_result_win, game_result_disconnect], None]"
    by (simp add: slots_ok_def sample_env_def less_Suc_eq all_conj_distrib)
  moreover have "CLIENTTAG_STARCRAFT_UINT \<noteq> 0" by (simp add: CLIENTTAG_STARCRAFT_UINT_def)
  ultimately have "game_wf sample_env None reported_game"
    by (simp add: game_wf_def reported_game_def new_game_def live_count_def)
  then have "game_evaluate_results sample_env reported_game = Some (0, reported_game\<lparr>g_results := Some (map
      (\<lambda>i. verdict (game_discisloss sample_env reported_game)
        (map (\<lambda>arr. arr ! i) (List.map_filter id [Some [game_result_win, game_result_disconnect], None]))) [0..<g_count reported_game])\<rparr>)"
    by (rule game_evaluate_plurality) (simp_all add: reported_game_def)
  moreover have "\<not> game_discisloss sample_env reported_game"
    by (simp add: game_discisloss_def sample_env_def reported_game_def new_game_def game_match_type_def)
  ultimately show ?thesis by (simp add: reported_game_def map_filter_simps verdict_def tally_def numeral_2_eq_2 Let_def)
qed

definition request_status :: "(int \<times> t_game_status) list \<Rightarrow> t_game \<Rightarrow> t_game" where
  "request_status reqs g = fold (\<lambda>(now, st). game_set_status now st) reqs g"

lemma set_status_once:
  "g_status g = game_status_started \<Longrightarrow> g_status (game_set_status now st g) \<in> {game_status_started, game_status_done}"
  "g_status g = game_status_done \<Longrightarrow> g_status (game_set_status now st g) = game_status_done"
  "g_start_time g \<noteq> 0 \<Longrightarrow> g_start_time (game_set_status now st g) = g_start_time g"
  by (cases st; simp add: game_set_status_def)+

lemma request_status_simps [simp]:
  "request_status [] g = g"
  "request_status ((now, st) # reqs) g = request_status reqs (game_set_status now st g)"
  by (simp_all add: request_status_def)

lemma request_status_done: "g_status g = game_status_done \<Longrightarrow> g_status (request_status reqs g) = game_status_done"
  by (induction reqs arbitrary: g) (auto simp: set_status_once(2))

lemma request_status_started:
  "g_status g = game_status_started \<or> g_status g = game_status_done \<Longrightarrow>
   g_status (request_status reqs g) = game_status_started \<or> g_status (request_status reqs g) = game_status_done"
proof (induction reqs arbitrary: g)
  case (Cons q reqs)
  obtain now st where q: "q = (now, st)" by (cases q)
  have "g_status (game_set_status now st g) = game_status_started \<or> g_status (game_set_status now st g) = game_status_done"
    using Cons.prems set_status_once(1,2) [of g now st] by auto
  then show ?case using Cons.IH q by simp
qed simp

lemma request_status_time: "g_start_time g \<noteq> 0 \<Longrightarrow> g_start_time (request_status reqs g) = g_start_time g"
  by (induction reqs arbitrary: g) (auto simp: set_status_once(3))

lemma request_status_shape: "\<exists>t st. request_status reqs g = g\<lparr>g_start_time := t, g_status := st\<rparr>"
proof (induction reqs arbitrary: g)
  case Nil
  have "g = g\<lparr>g_start_time := g_start_time g, g_status := g_status g\<rparr>" by simp
  then show ?case by (metis request_status_simps(1))
next
  case (Cons q reqs)
  obtain now st where q: "q = (now, st)" by (cases q)
  obtain t st' where s: "game_set_status now st g = g\<lparr>g_start_time := t, g_status := st'\<rparr>" using set_status_shape by blast
  obtain t2 st2 where "request_status reqs (game_set_status now st g) = (game_set_status now st g)\<lparr>g_start_time := t2, g_status := st2\<rparr>"
    using Cons.IH by blast
  then have "request_status (q # reqs) g = g\<lparr>g_start_time := t2, g_status := st2\<rparr>" by (simp add: q s)
  then show ?case by blast
qed

text \<open>
  C32. Over any sequence of status requests, with any clock, a started game is only started or done
  afterwards and a done game stays done, a start time once set is kept, and nothing but the status and the
  start time changes: a game that has begun is never offered to new players again.
\<close>

theorem game_status_final:
  assumes "g_status g \<in> {game_status_started, game_status_done}" "g_start_time g \<noteq> 0"
  shows "\<not> game_available (request_status reqs g) \<and> g_start_time (request_status reqs g) = g_start_time g
    \<and> request_status reqs g = g\<lparr>g_status := g_status (request_status reqs g)\<rparr>
    \<and> (g_status g = game_status_done \<longrightarrow> g_status (request_status reqs g) = game_status_done)"
proof -
  obtain t st where e: "request_status reqs g = g\<lparr>g_start_time := t, g_status := st\<rparr>" using request_status_shape by blast
  have "t = g_start_time g" using request_status_time [OF assms(2), of reqs] e by simp
  then have "request_status reqs g = g\<lparr>g_status := g_status (request_status reqs g)\<rparr>" using e by simp
  then show ?thesis using request_status_started [of g reqs] request_status_done [of g reqs]
      request_status_time [OF assms(2), of reqs] assms(1) by (auto simp: game_available_def)
qed

theorem game_status_final_witness:
  "request_status [(9, game_status_open), (9, game_status_done), (10, game_status_started)]
     (reported_game\<lparr>g_status := game_status_started, g_start_time := 8\<rparr>)
   = reported_game\<lparr>g_status := game_status_done, g_start_time := 8\<rparr>"
proof -
  let ?g = "reported_game\<lparr>g_status := game_status_started, g_start_time := 8\<rparr>"
  let ?q = "[(9, game_status_open), (9, game_status_done), (10, game_status_started)]"
  have "request_status ?q ?g = ?g\<lparr>g_status := g_status (request_status ?q ?g)\<rparr>"
    using game_status_final [of ?g ?q] by simp
  then show ?thesis by (simp add: game_set_status_def)
qed

text \<open>
  C19. A connection that is in no game enters the game it chose exactly when it gave the game's password (any, if
  the game has none; letter case is ignored), a known protocol version and, for a ladder game outside
  Westwood Online, has won ten normal games; it is then in the game's slots. Otherwise the call fails and
  neither the game nor the connection has changed.
\<close>

theorem game_join_exactly:
  assumes "game_inv env None s" "conn_game s c = None" "games s a = Some g"
  shows "let ok = ((g_pass g = [] \<or> map c_tolower (g_pass g) = map c_tolower pass)
        \<and> v \<in> {STARTVER_UNKNOWN, STARTVER_GW1, STARTVER_GW3, STARTVER_GW4, STARTVER_REALM1}
        \<and> (g_type g = game_type_ladder \<longrightarrow> ge_wol env c \<or> 10 \<le> ge_normal_wins env (ge_account env c) (conn_tag env c)))
    in \<exists>s'. enter_game env c (Some pass) v a s = Some (if ok then 0 else -1, s')
         \<and> (if ok then conn_game s' = (conn_game s)(c \<mapsto> a) \<and> (\<exists>g'. games s' a = Some g' \<and> Some c \<in> set (conn_list g'))
            else s' = s)"
  (is "let ok = ?ok in ?P ok")
proof -
  have "g_clienttag g \<noteq> 0" using game_invD(4) [OF assms(1,3)] by (simp add: game_wf_def)
  moreover have "strcasecmp (g_pass g) pass = 0 \<longleftrightarrow> map c_tolower (g_pass g) = map c_tolower pass"
    using strcaseeq_iff [of "g_pass g" pass] by (simp add: strcaseeq_def)
  ultimately have m: "may_join env (Some pass) v c g \<longleftrightarrow> ?ok"
    unfolding may_join_def option.case by (auto simp: not_le)
  have "?P ?ok"
  proof (cases ?ok)
    case True
    obtain r s' where e: "enter_game env c (Some pass) v a s = Some (r, s')" "game_inv env None s'"
        "conn_game s' = (conn_game s)(c := (if r = 0 then Some a else None))" "r = 0 \<longleftrightarrow> may_join env (Some pass) v c g"
      using enter_game_inv [OF assms, of "Some pass" v] by blast
    then have r: "r = 0" using m True by blast
    then have c: "conn_game s' c = Some a" using e(3) by simp
    then obtain g' where g': "games s' a = Some g'" using game_invD(7) [OF e(2)] by blast
    have "Some c \<in> set (conn_list g')" using game_invD(6) [OF e(2) g', of c] c by simp
    then show ?thesis using True e(1,3) r g' by auto
  next
    case False
    then have "enter_game env c (Some pass) v a s = Some (-1, clear_conn c (put_game a g s))"
      using m assms(3) by (simp add: enter_game_def game_add_player_def)
    moreover have "clear_conn c (put_game a g s) = s"
      using assms by (simp add: put_game_def clear_conn_def fun_upd_idem)
    ultimately show ?thesis using False by auto
  qed
  then show ?thesis by (simp only: Let_def)
qed

definition lobby :: game_state where
  "lobby = add_game (new_game ''g'' ''pw'' [] game_type_ladder 1 CLIENTTAG_STARCRAFT_UINT 1 0 1) games_start"

lemma lobby_inv: "game_inv env None lobby"
  unfolding lobby_def
proof (rule add_game_inv [OF games_start_inv])
  show "game_wf env None (new_game ''g'' ''pw'' [] game_type_ladder 1 CLIENTTAG_STARCRAFT_UINT 1 0 1)"
    by (rule new_game_wf) (simp add: CLIENTTAG_STARCRAFT_UINT_def)
qed (simp_all add: new_game_def games_start_def conn_list_def)

theorem game_join_exactly_witness:
  "\<exists>s t. enter_game sample_env 7 (Some ''PW'') STARTVER_GW1 0 lobby = Some (0, s) \<and> conn_game s 7 = Some 0
     \<and> enter_game sample_env 8 (Some ''PW'') STARTVER_GW1 0 lobby = Some (-1, t) \<and> t = lobby"
proof -
  let ?g = "new_game ''g'' ''pw'' [] game_type_ladder 1 CLIENTTAG_STARCRAFT_UINT 1 0 1"
  have l: "conn_game lobby c = None" "games lobby 0 = Some ?g" for c by (simp_all add: lobby_def games_start_def add_game_def)
  have "map c_tolower ''pw'' = map c_tolower ''PW''" by code_simp
  then have m: "map c_tolower (g_pass ?g) = map c_tolower ''PW''" by (simp add: new_game_def)
  have e: "g_type ?g = game_type_ladder" "ge_wol sample_env c = False"
      "ge_normal_wins sample_env (ge_account sample_env c) t = (if c = 7 then 10 else 0)" for c t
    by (simp_all add: new_game_def sample_env_def)
  have "\<exists>s. enter_game sample_env 7 (Some ''PW'') STARTVER_GW1 0 lobby = Some (0, s) \<and> conn_game s = (conn_game lobby)(7 \<mapsto> 0)"
    using game_join_exactly [where env = sample_env and c = 7 and pass = "''PW''" and v = STARTVER_GW1, OF lobby_inv l]
    unfolding Let_def m e by auto
  moreover have "enter_game sample_env 8 (Some ''PW'') STARTVER_GW1 0 lobby = Some (-1, lobby)"
    using game_join_exactly [where env = sample_env and c = 8 and pass = "''PW''" and v = STARTVER_GW1, OF lobby_inv l]
    unfolding Let_def m e by auto
  ultimately show ?thesis by auto
qed

section \<open>What the model shows of the code\<close>

text \<open>
  A ladder game is created before its creator is refused for not having won ten games: the game stays in
  the list with nobody in it, and the removal of empty games, which looks only at games of realms, keeps
  it for ever.
\<close>

lemma ghost_game:
  "\<exists>s'. conn_set_game sample_env 3 (Some ''L'') (Some []) (Some []) game_type_ladder STARTVER_GW1 games_start = Some (-1, s')
     \<and> gamelist s' = [0] \<and> map_option g_ref (games s' 0) = Some 0 \<and> conn_game s' 3 = None
     \<and> (\<forall>now. gamelist_check_voidgame (sample_env\<lparr>ge_now := now\<rparr>) s' = Some s')"
proof -
  let ?n = "new_game ''L'' [] [] game_type_ladder STARTVER_GW1 CLIENTTAG_STARCRAFT_UINT 1 1000 1"
  have p: "game_parse_info (Some []) ?n = Some (-1, ?n)"
    by code_simp
  have c: "game_create sample_env (Some ''L'') (Some []) (Some []) game_type_ladder STARTVER_GW1 CLIENTTAG_STARCRAFT_UINT 1 games_start
      = Some (Some 0, add_game ?n games_start)"
    using p by (simp add: game_create_def gamelist_find_game_available_def games_start_def Let_def add_game_def
        sample_env_def CLIENTTAG_STARCRAFT_UINT_def)
  have f: "find_or_create sample_env 3 ''L'' (Some []) (Some []) game_type_ladder STARTVER_GW1 games_start
      = Some (Some 0, add_game ?n games_start)"
    using c by (simp add: find_or_create_def gamelist_find_game_available_def games_start_def sample_env_def)
  have j: "\<not> may_join sample_env (Some []) STARTVER_GW1 3 ?n"
    by (simp add: may_join_def sample_env_def new_game_def)
  have "conn_set_game sample_env 3 (Some ''L'') (Some []) (Some []) game_type_ladder STARTVER_GW1 games_start
      = Some (-1, add_game ?n games_start)"
    using f j by (simp add: conn_set_game_def already_in_def leave_current_def enter_game_def game_add_player_def
        games_start_def add_game_def put_game_def clear_conn_def fun_upd_idem)
  then show ?thesis
    by (simp add: add_game_def games_start_def gamelist_check_voidgame_def new_game_def)
qed

text \<open>
  The statistics of an ordinary game: the test that should keep Westwood Online games out of the normal
  statistics holds of every client.
\<close>

lemma wol_counts_as_normal:
  assumes "\<not> game_is_ladder env g"
  shows "statistics_calls env g prs = concat (map (normal_calls (g_clienttag g)) prs)"
proof -
  have "\<not> tag_check_wolv2 CLIENTTAG_WCHAT_UINT" by (simp add: tag_check_wolv2_def tag_defs)
  then have "\<not> tag_check_wolv1 (g_clienttag g) \<or> \<not> tag_check_wolv2 (g_clienttag g)"
    by (auto simp: tag_check_wolv1_def)
  then show ?thesis using assms by (simp add: statistics_calls_def Let_def)
qed

end
