(* ===== verification/Common_Elist.thy ===== *)
theory Common_Elist
  imports Pvpgn_Prelude
begin

text \<open>
  \<^verbatim>\<open>common/elist.h\<close>: the lists whose links are fields of their elements. A heap gives every allocated node
  its two links, next and prev; the head of a list is a node like the others, and the links run in a ring.
  An access to a node that is not allocated is \<open>None\<close>. The single linked lists have a heap of one link.
\<close>

section \<open>Links\<close>

type_synonym 'a eheap = "'a \<Rightarrow> ('a \<times> 'a) option"

definition elist_next :: "'a eheap \<Rightarrow> 'a \<Rightarrow> 'a option" where
  "elist_next h ptr = map_option fst (h ptr)"

definition elist_prev :: "'a eheap \<Rightarrow> 'a \<Rightarrow> 'a option" where
  "elist_prev h ptr = map_option snd (h ptr)"

definition set_next :: "'a \<Rightarrow> 'a \<Rightarrow> 'a eheap \<Rightarrow> 'a eheap option" where
  "set_next p v h = do { (n, q) \<leftarrow> h p; Some (h(p \<mapsto> (v, q))) }"

definition set_prev :: "'a \<Rightarrow> 'a \<Rightarrow> 'a eheap \<Rightarrow> 'a eheap option" where
  "set_prev p v h = do { (n, q) \<leftarrow> h p; Some (h(p \<mapsto> (n, v))) }"

section \<open>Operations\<close>

definition elist_init :: "'a \<Rightarrow> 'a eheap \<Rightarrow> 'a eheap option" where
  "elist_init el h = do { h1 \<leftarrow> set_prev el el h; set_next el el h1 }"

text \<open>Link a new node behind, or before, the node \<open>where'\<close>.\<close>

definition elist_add :: "'a \<Rightarrow> 'a \<Rightarrow> 'a eheap \<Rightarrow> 'a eheap option" where
  "elist_add where' what h = do {
     n \<leftarrow> elist_next h where'; h1 \<leftarrow> set_next what n h;
     n' \<leftarrow> elist_next h1 where'; h2 \<leftarrow> set_prev n' what h1;
     h3 \<leftarrow> set_prev what where' h2;
     set_next where' what h3 }"

definition elist_add_tail :: "'a \<Rightarrow> 'a \<Rightarrow> 'a eheap \<Rightarrow> 'a eheap option" where
  "elist_add_tail where' what h = do {
     p \<leftarrow> elist_prev h where'; h1 \<leftarrow> set_prev what p h;
     p' \<leftarrow> elist_prev h1 where'; h2 \<leftarrow> set_next p' what h1;
     h3 \<leftarrow> set_next what where' h2;
     set_prev where' what h3 }"

definition elist_del :: "'a \<Rightarrow> 'a eheap \<Rightarrow> 'a eheap option" where
  "elist_del what h = do {
     n \<leftarrow> elist_next h what; p \<leftarrow> elist_prev h what; h1 \<leftarrow> set_prev n p h;
     p' \<leftarrow> elist_prev h1 what; n' \<leftarrow> elist_next h1 what;
     set_next p' n' h1 }"

definition elist_empty :: "'a eheap \<Rightarrow> 'a \<Rightarrow> bool option" where
  "elist_empty h ptr = map_option (\<lambda>n. n = ptr) (elist_next h ptr)"

text \<open>
  \<open>elist_for_each\<close>, from \<open>pos\<close>, with the nodes it visits, and \<open>elist_for_each_safe\<close> with a body that
  removes the nodes of a set. A traversal that never meets the head again does not return.
\<close>

partial_function (option) elist_for_each :: "'a eheap \<Rightarrow> 'a \<Rightarrow> 'a \<Rightarrow> 'a list option" where
  "elist_for_each h head pos = (if pos = head then Some []
     else Option.bind (elist_next h pos) (\<lambda>n. Option.bind (elist_for_each h head n) (\<lambda>xs. Some (pos # xs))))"

partial_function (option) elist_for_each_safe :: "('a \<Rightarrow> bool) \<Rightarrow> 'a \<Rightarrow> 'a \<Rightarrow> 'a \<Rightarrow> 'a eheap \<Rightarrow> 'a eheap option" where
  "elist_for_each_safe remove head pos save h = (if pos = head then Some h
     else Option.bind (if remove pos then elist_del pos h else Some h) (\<lambda>h1.
       Option.bind (elist_next h1 save) (\<lambda>save'. elist_for_each_safe remove head save save' h1)))"

section \<open>Rings\<close>

fun links :: "'a eheap \<Rightarrow> 'a list \<Rightarrow> bool" where
  "links h (a # b # cs) \<longleftrightarrow> elist_next h a = Some b \<and> elist_prev h b = Some a \<and> links h (b # cs)"
| "links h _ \<longleftrightarrow> True"

definition ring :: "'a eheap \<Rightarrow> 'a \<Rightarrow> 'a list \<Rightarrow> bool" where
  "ring h head xs \<longleftrightarrow> distinct (head # xs) \<and> links h (head # xs @ [head])"

lemma links_Cons: "links h (a # xs) \<longleftrightarrow> (case xs of [] \<Rightarrow> True | b # _ \<Rightarrow> elist_next h a = Some b \<and> elist_prev h b = Some a \<and> links h xs)"
  by (cases xs) auto

lemma links_join: "links h (as @ m # bs) \<longleftrightarrow> links h (as @ [m]) \<and> links h (m # bs)"
proof (induction as)
  case (Cons a as)
  then show ?case by (cases as) (auto simp: links_Cons [of h a])
qed simp

lemma links_cong:
  "\<forall>x \<in> set (butlast xs). elist_next h' x = elist_next h x \<Longrightarrow> \<forall>x \<in> set (tl xs). elist_prev h' x = elist_prev h x \<Longrightarrow>
   links h' xs = links h xs"
  by (induction h xs rule: links.induct) auto

lemma link_update [simp]:
  "elist_next (h(p \<mapsto> (n, q))) x = (if x = p then Some n else elist_next h x)"
  "elist_prev (h(p \<mapsto> (n, q))) x = (if x = p then Some q else elist_prev h x)"
  by (simp_all add: elist_next_def elist_prev_def)

lemma link_some: "elist_next h a = Some n \<Longrightarrow> elist_prev h a = Some p \<Longrightarrow> h a = Some (n, p)"
  by (auto simp: elist_next_def elist_prev_def)

lemma link_eq: "elist_next h a = elist_next h' a \<Longrightarrow> elist_prev h a = elist_prev h' a \<Longrightarrow> h a = h' a"
  by (cases "h a"; cases "h' a") (auto simp: elist_next_def elist_prev_def)

lemma set_link_simps:
  assumes "h p = Some (n, q)"
  shows "set_next p v h = Some (h(p \<mapsto> (v, q)))" "set_prev p v h = Some (h(p \<mapsto> (n, v)))"
  using assms by (simp_all add: set_next_def set_prev_def)

text \<open>The two nodes around a place of a ring.\<close>

definition left_of :: "'a \<Rightarrow> 'a list \<Rightarrow> 'a" where
  "left_of head as = last (head # as)"

definition right_of :: "'a \<Rightarrow> 'a list \<Rightarrow> 'a" where
  "right_of head bs = hd (bs @ [head])"

lemma left_split: "head # as = butlast (head # as) @ [left_of head as]"
  unfolding left_of_def by (rule append_butlast_last_id [symmetric]) simp

lemma right_split: "bs @ [head] = right_of head bs # tl (bs @ [head])"
  by (cases bs) (simp_all add: right_of_def)

lemma around_in: "left_of head as \<in> set (head # as)" "right_of head bs \<in> set (head # bs)"
proof -
  show "left_of head as \<in> set (head # as)" unfolding left_of_def by (rule last_in_set) simp
  show "right_of head bs \<in> set (head # bs)" by (cases bs) (simp_all add: right_of_def)
qed

lemma ring_list:
  "head # (as @ ms @ bs) @ [head] = butlast (head # as) @ left_of head as # ms @ right_of head bs # tl (bs @ [head])"
proof -
  have "head # (as @ ms @ bs) @ [head] = (head # as) @ ms @ (bs @ [head])" by simp
  also have "... = (butlast (head # as) @ [left_of head as]) @ ms @ (right_of head bs # tl (bs @ [head]))"
    using left_split [of head as] right_split [of bs head] by metis
  finally show ?thesis by (simp only: append_assoc append_Cons append_Nil)
qed

lemma around_sets:
  assumes "distinct (head # as @ bs)"
  shows "left_of head as \<notin> set (butlast (head # as))" "set (butlast (head # as)) \<subseteq> set (head # as)"
    "set (tl (butlast (head # as) @ [left_of head as])) = set as"
    "set (butlast (right_of head bs # tl (bs @ [head]))) = set bs"
    "right_of head bs \<notin> set (tl (bs @ [head]))" "set (tl (bs @ [head])) \<subseteq> set (head # bs)"
proof -
  have "distinct (butlast (head # as) @ [left_of head as])" using assms left_split [of head as] by (metis distinct_append append_Cons)
  then show "left_of head as \<notin> set (butlast (head # as))" by (simp only: distinct_append) auto
  show "set (butlast (head # as)) \<subseteq> set (head # as)" by (meson in_set_butlastD subsetI)
  show "set (tl (butlast (head # as) @ [left_of head as])) = set as" using left_split [of head as] by (metis list.sel(3))
  show "set (butlast (right_of head bs # tl (bs @ [head]))) = set bs" using right_split [of bs head] by (metis butlast_snoc)
  show "right_of head bs \<notin> set (tl (bs @ [head]))" using assms by (cases bs) (auto simp: right_of_def)
  show "set (tl (bs @ [head])) \<subseteq> set (head # bs)" by (cases bs) auto
qed

lemma ring_around:
  assumes "ring h head (as @ bs)"
  shows "elist_next h (left_of head as) = Some (right_of head bs)" "elist_prev h (right_of head bs) = Some (left_of head as)"
proof -
  have "links h (butlast (head # as) @ left_of head as # right_of head bs # tl (bs @ [head]))"
    using assms ring_list [of head as "[]" bs] unfolding ring_def by simp
  from this [THEN links_join [THEN iffD1]]
  show "elist_next h (left_of head as) = Some (right_of head bs)" "elist_prev h (right_of head bs) = Some (left_of head as)"
    by simp_all
qed

text \<open>Changing the links around a place keeps both sides of the ring.\<close>

lemma ring_sides:
  assumes ds: "distinct (head # as @ bs)"
    and l: "links h (butlast (head # as) @ [left_of head as])" "links h (right_of head bs # tl (bs @ [head]))"
    and n: "\<And>x. x \<in> set (head # as @ bs) \<Longrightarrow> x \<noteq> left_of head as \<Longrightarrow> elist_next h' x = elist_next h x"
    and p: "\<And>x. x \<in> set (head # as @ bs) \<Longrightarrow> x \<noteq> right_of head bs \<Longrightarrow> elist_prev h' x = elist_prev h x"
  shows "links h' (butlast (head # as) @ [left_of head as])" "links h' (right_of head bs # tl (bs @ [head]))"
proof -
  note s = around_sets [OF ds]
  show "links h' (butlast (head # as) @ [left_of head as])"
  proof (subst links_cong)
    show "\<forall>x \<in> set (butlast (butlast (head # as) @ [left_of head as])). elist_next h' x = elist_next h x"
      unfolding butlast_snoc
    proof
      fix x assume "x \<in> set (butlast (head # as))"
      then have "x \<in> set (head # as)" "x \<noteq> left_of head as" using s(1,2) by blast+
      then show "elist_next h' x = elist_next h x" by (intro n) auto
    qed
    show "\<forall>x \<in> set (tl (butlast (head # as) @ [left_of head as])). elist_prev h' x = elist_prev h x"
      unfolding s(3)
    proof
      fix x assume "x \<in> set as"
      then have "x \<in> set (head # as @ bs)" "x \<noteq> right_of head bs" using ds around_in(2) [of head bs] by auto
      then show "elist_prev h' x = elist_prev h x" by (rule p)
    qed
  qed (rule l)
  show "links h' (right_of head bs # tl (bs @ [head]))"
  proof (subst links_cong)
    show "\<forall>x \<in> set (butlast (right_of head bs # tl (bs @ [head]))). elist_next h' x = elist_next h x"
      unfolding s(4)
    proof
      fix x assume "x \<in> set bs"
      then have "x \<in> set (head # as @ bs)" "x \<noteq> left_of head as" using ds around_in(1) [of head as] by auto
      then show "elist_next h' x = elist_next h x" by (rule n)
    qed
    show "\<forall>x \<in> set (tl (right_of head bs # tl (bs @ [head]))). elist_prev h' x = elist_prev h x"
      unfolding list.sel
    proof
      fix x assume "x \<in> set (tl (bs @ [head]))"
      then have "x \<in> set (head # as @ bs)" "x \<noteq> right_of head bs" using s(5,6) by auto
      then show "elist_prev h' x = elist_prev h x" by (rule p)
    qed
  qed (rule l)
qed

lemma ring_insert:
  assumes r: "ring h head (as @ bs)" and w: "what \<notin> set (head # as @ bs)"
    and n: "\<And>x. elist_next h' x = (if x = what then Some (right_of head bs) else if x = left_of head as then Some what else elist_next h x)"
    and p: "\<And>x. elist_prev h' x = (if x = what then Some (left_of head as) else if x = right_of head bs then Some what else elist_prev h x)"
  shows "ring h' head (as @ what # bs)"
proof -
  have ds: "distinct (head # as @ bs)" using r by (simp add: ring_def)
  let ?us = "butlast (head # as)" and ?p = "left_of head as" and ?n = "right_of head bs" and ?vs = "tl (bs @ [head])"
  have "links h (?us @ ?p # ?n # ?vs)" using r ring_list [of head as "[]" bs] unfolding ring_def by simp
  from this [THEN links_join [THEN iffD1]] have "links h (?us @ [?p])" "links h (?n # ?vs)" by simp_all
  then have "links h' (?us @ [?p])" "links h' (?n # ?vs)"
    by (rule ring_sides [OF ds]; use n p w in auto)+
  moreover have "what \<noteq> ?p" "what \<noteq> ?n" using w around_in(1) [of head as] around_in(2) [of head bs] by auto
  ultimately have "links h' (?us @ ?p # what # ?n # ?vs)" using n [of what] n [of ?p] p [of what] p [of ?n]
    by (intro links_join [THEN iffD2]) simp
  then have "links h' (head # (as @ what # bs) @ [head])" using ring_list [of head as "[what]" bs] by simp
  then show ?thesis using ds w by (auto simp: ring_def)
qed

lemma ring_remove:
  assumes r: "ring h head (as @ what # bs)"
    and n: "\<And>x. elist_next h' x = (if x = left_of head as then Some (right_of head bs) else elist_next h x)"
    and p: "\<And>x. elist_prev h' x = (if x = right_of head bs then Some (left_of head as) else elist_prev h x)"
  shows "ring h' head (as @ bs)"
proof -
  have ds: "distinct (head # as @ bs)" using r by (auto simp: ring_def)
  let ?us = "butlast (head # as)" and ?p = "left_of head as" and ?n = "right_of head bs" and ?vs = "tl (bs @ [head])"
  have "links h (?us @ ?p # what # ?n # ?vs)" using r ring_list [of head as "[what]" bs] unfolding ring_def by simp
  from this [THEN links_join [THEN iffD1]] have "links h (?us @ [?p])" "links h (?n # ?vs)" by simp_all
  then have "links h' (?us @ [?p])" "links h' (?n # ?vs)"
    by (rule ring_sides [OF ds]; use n p in auto)+
  then have "links h' (?us @ ?p # ?n # ?vs)" using n [of ?p] p [of ?n] by (intro links_join [THEN iffD2]) simp
  then have "links h' (head # (as @ bs) @ [head])" using ring_list [of head as "[]" bs] by simp
  then show ?thesis using ds by (auto simp: ring_def)
qed

section \<open>The operations on rings\<close>

lemma next_allocated: "elist_next h p = Some n \<Longrightarrow> \<exists>q. h p = Some (n, q)"
  by (auto simp: elist_next_def)

lemma prev_allocated: "elist_prev h p = Some q \<Longrightarrow> \<exists>n. h p = Some (n, q)"
  by (auto simp: elist_prev_def)

text \<open>A heap that differs from \<open>h\<close> at most at the nodes \<open>xs\<close>, with the same nodes allocated.\<close>

definition changes_only :: "'a set \<Rightarrow> 'a eheap \<Rightarrow> 'a eheap \<Rightarrow> bool" where
  "changes_only A h h' \<longleftrightarrow> (\<forall>x. x \<notin> A \<longrightarrow> h' x = h x) \<and> dom h' = dom h"

lemma ring_cong: "\<forall>x \<in> set (head # xs). h' x = h x \<Longrightarrow> ring h' head xs = ring h head xs"
proof -
  assume e: "\<forall>x \<in> set (head # xs). h' x = h x"
  have "links h' (head # xs @ [head]) = links h (head # xs @ [head])"
  proof (rule links_cong)
    show "\<forall>x \<in> set (butlast (head # xs @ [head])). elist_next h' x = elist_next h x"
      using e by (auto simp: elist_next_def butlast_append)
    show "\<forall>x \<in> set (tl (head # xs @ [head])). elist_prev h' x = elist_prev h x"
      using e by (auto simp: elist_prev_def)
  qed
  then show ?thesis by (simp add: ring_def)
qed

lemma ring_frame: "changes_only A h h' \<Longrightarrow> A \<inter> set (head # xs) = {} \<Longrightarrow> ring h head xs \<Longrightarrow> ring h' head xs"
  by (subst ring_cong [of head xs h' h]) (auto simp: changes_only_def)

lemma elist_init_ring:
  assumes "h el \<noteq> None"
  shows "\<exists>h'. elist_init el h = Some h' \<and> ring h' el [] \<and> changes_only {el} h h'"
proof -
  obtain n q where "h el = Some (n, q)" using assms by auto
  then have "elist_init el h = Some (h(el \<mapsto> (el, el)))" by (simp add: elist_init_def set_link_simps)
  then show ?thesis using assms by (auto simp: ring_def changes_only_def)
qed

text \<open>Both ways of linking a node lead to the same heap.\<close>

definition linked_in :: "'a \<Rightarrow> 'a \<Rightarrow> 'a \<Rightarrow> 'a eheap \<Rightarrow> 'a eheap" where
  "linked_in p what n h = (if p = n then h(what \<mapsto> (n, p), p \<mapsto> (what, what))
     else h(what \<mapsto> (n, p), p \<mapsto> (what, the (elist_prev h p)), n \<mapsto> (the (elist_next h n), what)))"

lemma link_computes:
  assumes "elist_next h p = Some n" "elist_prev h n = Some p" "what \<noteq> p" "what \<noteq> n" "h what \<noteq> None"
  shows "elist_add_tail n what h = Some (linked_in p what n h)" "elist_add p what h = Some (linked_in p what n h)"
proof -
  obtain q m w where a: "h p = Some (n, q)" "h n = Some (m, p)" "h what = Some w"
    using next_allocated [OF assms(1)] prev_allocated [OF assms(2)] assms(5) by blast
  obtain w1 w2 where w: "w = (w1, w2)" by (cases w)
  show "elist_add_tail n what h = Some (linked_in p what n h)" "elist_add p what h = Some (linked_in p what n h)"
    using a assms(3,4) unfolding w
    by (cases "p = n"; simp add: elist_add_tail_def elist_add_def linked_in_def set_next_def set_prev_def elist_next_def
        elist_prev_def fun_upd_twist)+
qed

lemma linked_in_ring:
  assumes r: "ring h head (as @ bs)" and w: "what \<notin> set (head # as @ bs)" "h what \<noteq> None"
  defines "h' \<equiv> linked_in (left_of head as) what (right_of head bs) h"
  shows "ring h' head (as @ what # bs)" "changes_only {what, left_of head as, right_of head bs} h h'"
proof -
  let ?p = "left_of head as" and ?n = "right_of head bs"
  note a = ring_around [OF r]
  obtain q m where al: "h ?p = Some (?n, q)" "h ?n = Some (m, ?p)"
    using next_allocated [OF a(1)] prev_allocated [OF a(2)] by blast
  have ne: "what \<noteq> ?p" "what \<noteq> ?n" using w around_in(1) [of head as] around_in(2) [of head bs] by auto
  have g: "elist_next h ?n = Some m" "elist_prev h ?p = Some q" using al by (simp_all add: elist_next_def elist_prev_def)
  show "ring h' head (as @ what # bs)"
    by (rule ring_insert [OF r w(1)]) (use a g ne in \<open>auto simp: h'_def linked_in_def\<close>)
  show "changes_only {what, ?p, ?n} h h'" using al w(2) unfolding changes_only_def h'_def linked_in_def by auto
qed

lemma elist_add_tail_ring:
  assumes "ring h head (as @ bs)" "what \<notin> set (head # as @ bs)" "h what \<noteq> None"
  shows "\<exists>h'. elist_add_tail (right_of head bs) what h = Some h' \<and> ring h' head (as @ what # bs)
    \<and> changes_only ({what, head} \<union> set (as @ bs)) h h'"
proof -
  note a = ring_around [OF assms(1)]
  have ne: "what \<noteq> left_of head as" "what \<noteq> right_of head bs"
    using assms(2) around_in(1) [of head as] around_in(2) [of head bs] by auto
  have "changes_only ({what, head} \<union> set (as @ bs)) h (linked_in (left_of head as) what (right_of head bs) h)"
    using linked_in_ring(2) [OF assms] around_in(1) [of head as] around_in(2) [of head bs]
    unfolding changes_only_def by auto
  then show ?thesis using link_computes(1) [OF a ne assms(3)] linked_in_ring(1) [OF assms] by blast
qed

lemma elist_add_ring:
  assumes "ring h head (as @ bs)" "what \<notin> set (head # as @ bs)" "h what \<noteq> None"
  shows "\<exists>h'. elist_add (left_of head as) what h = Some h' \<and> ring h' head (as @ what # bs)
    \<and> changes_only ({what, head} \<union> set (as @ bs)) h h'"
proof -
  note a = ring_around [OF assms(1)]
  have ne: "what \<noteq> left_of head as" "what \<noteq> right_of head bs"
    using assms(2) around_in(1) [of head as] around_in(2) [of head bs] by auto
  have "changes_only ({what, head} \<union> set (as @ bs)) h (linked_in (left_of head as) what (right_of head bs) h)"
    using linked_in_ring(2) [OF assms] around_in(1) [of head as] around_in(2) [of head bs]
    unfolding changes_only_def by auto
  then show ?thesis using link_computes(2) [OF a ne assms(3)] linked_in_ring(1) [OF assms] by blast
qed

lemma ring_at:
  assumes "ring h head (as @ what # bs)"
  shows "elist_next h what = Some (right_of head bs)" "elist_prev h what = Some (left_of head as)"
    "elist_next h (left_of head as) = Some what" "elist_prev h (right_of head bs) = Some what"
    "what \<noteq> left_of head as" "what \<noteq> right_of head bs"
proof -
  have r2: "ring h head ((as @ [what]) @ bs)" using assms by simp
  have l: "left_of head (as @ [what]) = what" "right_of head (what # bs) = what" by (simp_all add: left_of_def right_of_def)
  show "elist_next h what = Some (right_of head bs)" "elist_prev h (right_of head bs) = Some what"
    using ring_around [OF r2] l by simp_all
  show "elist_prev h what = Some (left_of head as)" "elist_next h (left_of head as) = Some what"
    using ring_around [OF assms] l by simp_all
  show "what \<noteq> left_of head as" "what \<noteq> right_of head bs"
    using assms around_in(1) [of head as] around_in(2) [of head bs] by (auto simp: ring_def)
qed

lemma elist_del_ring:
  assumes r: "ring h head (as @ what # bs)"
  shows "\<exists>h'. elist_del what h = Some h' \<and> ring h' head (as @ bs) \<and> changes_only ({head} \<union> set (as @ bs)) h h'
    \<and> h' what = h what"
proof -
  let ?p = "left_of head as" and ?n = "right_of head bs"
  note a = ring_at [OF r]
  obtain q m where al: "h ?p = Some (what, q)" "h ?n = Some (m, what)" "h what = Some (?n, ?p)"
    using next_allocated [OF a(3)] prev_allocated [OF a(4)] link_some [OF a(1,2)] by blast
  define h' where "h' = (if ?p = ?n then h(?p \<mapsto> (?n, ?p)) else h(?n \<mapsto> (m, ?p), ?p \<mapsto> (?n, q)))"
  have e: "elist_del what h = Some h'" using al a(5,6)
    by (auto simp: elist_del_def h'_def set_next_def set_prev_def elist_next_def elist_prev_def)
  have "ring h' head (as @ bs)"
  proof (rule ring_remove [OF r])
    fix x
    show "elist_next h' x = (if x = ?p then Some ?n else elist_next h x)"
      using al by (auto simp: h'_def elist_next_def)
    show "elist_prev h' x = (if x = ?n then Some ?p else elist_prev h x)"
      using al by (auto simp: h'_def elist_prev_def)
  qed
  moreover have "changes_only ({head} \<union> set (as @ bs)) h h'"
    using al around_in(1) [of head as] around_in(2) [of head bs] unfolding changes_only_def h'_def by auto
  moreover have "h' what = h what" using a(5,6) by (auto simp: h'_def)
  ultimately show ?thesis using e by blast
qed

lemma elist_empty_ring: "ring h head xs \<Longrightarrow> elist_empty h head = Some (xs = [])"
  by (cases xs) (auto simp: ring_def elist_empty_def)

lemma right_of_Cons [simp]: "right_of head (x # xs) = x" "right_of head [] = head"
  by (simp_all add: right_of_def)

lemma left_of_snoc [simp]: "left_of head (xs @ [x]) = x" "left_of head [] = head"
  by (simp_all add: left_of_def)

lemma for_each_from: "ring h head (as @ bs) \<Longrightarrow> elist_for_each h head (right_of head bs) = Some bs"
proof (induction bs arbitrary: as)
  case Nil
  then show ?case by (simp add: elist_for_each.simps)
next
  case (Cons b bs)
  have r: "ring h head ((as @ [b]) @ bs)" using Cons.prems by simp
  have "b \<noteq> head" using Cons.prems by (auto simp: ring_def)
  moreover have "elist_next h b = Some (right_of head bs)" using ring_around(1) [OF r] by simp
  ultimately show ?case using Cons.IH [OF r] by (subst elist_for_each.simps) simp
qed

lemma for_each_ring: "ring h head xs \<Longrightarrow> elist_for_each h head (right_of head xs) = Some xs"
  using for_each_from [of h head "[]" xs] by simp

text \<open>Of the nodes before \<open>pos\<close> those to be removed are gone.\<close>

lemma for_each_safe_from:
  "ring h head (as @ bs) \<Longrightarrow> \<exists>h'. (case bs of [] \<Rightarrow> Some h | b # cs \<Rightarrow> elist_for_each_safe remove head b (right_of head cs) h) = Some h'
     \<and> ring h' head (as @ filter (\<lambda>x. \<not> remove x) bs) \<and> changes_only (set (head # as @ bs)) h h'"
proof (induction bs arbitrary: h as)
  case Nil
  then show ?case by (simp add: changes_only_def)
next
  case (Cons b cs)
  note r = Cons.prems
  have nb: "b \<noteq> head" using r by (auto simp: ring_def)
  have "\<exists>h1 as1. (if remove b then elist_del b h else Some h) = Some h1 \<and> ring h1 head (as1 @ cs)
      \<and> as1 = (if remove b then as else as @ [b]) \<and> changes_only (set (head # as @ b # cs)) h h1"
  proof (cases "remove b")
    case True
    obtain h1 where "elist_del b h = Some h1" "ring h1 head (as @ cs)" "changes_only ({head} \<union> set (as @ cs)) h h1"
      using elist_del_ring [OF r] by blast
    then show ?thesis using True by (auto simp: changes_only_def)
  next
    case False
    then show ?thesis using r by (auto simp: changes_only_def)
  qed
  then obtain h1 as1 where h1: "(if remove b then elist_del b h else Some h) = Some h1" "ring h1 head (as1 @ cs)"
      "as1 = (if remove b then as else as @ [b])" "changes_only (set (head # as @ b # cs)) h h1" by blast
  obtain h' where h': "(case cs of [] \<Rightarrow> Some h1 | b # cs \<Rightarrow> elist_for_each_safe remove head b (right_of head cs) h1) = Some h'"
      "ring h' head (as1 @ filter (\<lambda>x. \<not> remove x) cs)" "changes_only (set (head # as1 @ cs)) h1 h'"
    using Cons.IH [OF h1(2)] by blast
  have c: "changes_only (set (head # as @ b # cs)) h h'" using h1(3,4) h'(3) unfolding changes_only_def
    by (auto split: if_splits)
  have e: "elist_for_each_safe remove head b (right_of head cs) h = Some h'"
  proof (cases cs)
    case Nil
    have "elist_next h1 head \<noteq> None" using ring_around(1) [OF h1(2)] ring_at h1(2) Nil
      by (cases as1) (auto simp: ring_def)
    then obtain n where "elist_next h1 head = Some n" by blast
    then show ?thesis using nb h1(1) h'(1) Nil by (subst elist_for_each_safe.simps) (simp add: elist_for_each_safe.simps [of remove head head])
  next
    case (Cons d ds)
    have "elist_next h1 d = Some (right_of head ds)" using ring_at(1) [of h1 head as1 d ds] h1(2) Cons by simp
    then show ?thesis using nb h1(1) h'(1) Cons by (subst elist_for_each_safe.simps) simp
  qed
  have "as @ filter (\<lambda>x. \<not> remove x) (b # cs) = as1 @ filter (\<lambda>x. \<not> remove x) cs" using h1(3) by simp
  then show ?case using e h'(2) c by (auto simp del: filter.simps append.simps)
qed

section \<open>Sequences of operations\<close>

datatype 'a elist_op = Link_behind 'a 'a | Link_before 'a 'a | Unlink 'a | Unlink_all "'a \<Rightarrow> bool"

fun elist_run :: "'a \<Rightarrow> 'a elist_op list \<Rightarrow> 'a eheap \<Rightarrow> 'a eheap option" where
  "elist_run head [] h = Some h"
| "elist_run head (Link_behind w x # ops) h = do { h1 \<leftarrow> elist_add w x h; elist_run head ops h1 }"
| "elist_run head (Link_before w x # ops) h = do { h1 \<leftarrow> elist_add_tail w x h; elist_run head ops h1 }"
| "elist_run head (Unlink x # ops) h = do { h1 \<leftarrow> elist_del x h; elist_run head ops h1 }"
| "elist_run head (Unlink_all f # ops) h = do {
     pos \<leftarrow> elist_next h head; save \<leftarrow> elist_next h pos;
     h1 \<leftarrow> elist_for_each_safe f head pos save h; elist_run head ops h1 }"

text \<open>
  The same on lists. A node is linked once, next to the head or to a node of the list, and only nodes of
  the list are unlinked; other uses are \<open>None\<close>.
\<close>

definition insert_behind :: "'a \<Rightarrow> 'a \<Rightarrow> 'a \<Rightarrow> 'a list \<Rightarrow> 'a list" where
  "insert_behind head w x xs = (if w = head then x # xs
     else takeWhile (\<lambda>y. y \<noteq> w) xs @ w # x # tl (dropWhile (\<lambda>y. y \<noteq> w) xs))"

definition insert_before :: "'a \<Rightarrow> 'a \<Rightarrow> 'a \<Rightarrow> 'a list \<Rightarrow> 'a list" where
  "insert_before head w x xs = (if w = head then xs @ [x]
     else takeWhile (\<lambda>y. y \<noteq> w) xs @ x # dropWhile (\<lambda>y. y \<noteq> w) xs)"

fun elist_spec :: "'a set \<Rightarrow> 'a \<Rightarrow> 'a elist_op list \<Rightarrow> 'a list \<Rightarrow> 'a list option" where
  "elist_spec A head [] xs = Some xs"
| "elist_spec A head (Link_behind w x # ops) xs = (if x \<in> A \<and> x \<notin> set (head # xs) \<and> w \<in> set (head # xs)
     then elist_spec A head ops (insert_behind head w x xs) else None)"
| "elist_spec A head (Link_before w x # ops) xs = (if x \<in> A \<and> x \<notin> set (head # xs) \<and> w \<in> set (head # xs)
     then elist_spec A head ops (insert_before head w x xs) else None)"
| "elist_spec A head (Unlink x # ops) xs = (if x \<in> set xs then elist_spec A head ops (remove1 x xs) else None)"
| "elist_spec A head (Unlink_all f # ops) xs = elist_spec A head ops (filter (\<lambda>x. \<not> f x) xs)"

lemma changes_dom: "changes_only A h h' \<Longrightarrow> dom h' = dom h"
  by (simp add: changes_only_def)

lemma find_node:
  assumes "w \<in> set (head # xs)" "distinct (head # xs)"
  shows "\<exists>as bs. xs = as @ bs \<and> w = left_of head as \<and> insert_behind head w x xs = as @ x # bs"
    and "\<exists>as bs. xs = as @ bs \<and> w = right_of head bs \<and> insert_before head w x xs = as @ x # bs"
proof -
  have t: "takeWhile (\<lambda>y. y \<noteq> w) xs @ w # tl (dropWhile (\<lambda>y. y \<noteq> w) xs) = xs" if "w \<noteq> head"
  proof -
    have "dropWhile (\<lambda>y. y \<noteq> w) xs \<noteq> []" using assms(1) that by (simp add: dropWhile_eq_Nil_conv)
    moreover from hd_dropWhile [OF this] have "hd (dropWhile (\<lambda>y. y \<noteq> w) xs) = w" by simp
    ultimately have "dropWhile (\<lambda>y. y \<noteq> w) xs = w # tl (dropWhile (\<lambda>y. y \<noteq> w) xs)" by (metis list.collapse)
    then show ?thesis using takeWhile_dropWhile_id [of "\<lambda>y. y \<noteq> w" xs] by metis
  qed
  show "\<exists>as bs. xs = as @ bs \<and> w = left_of head as \<and> insert_behind head w x xs = as @ x # bs"
  proof (cases "w = head")
    case True
    then show ?thesis by (intro exI [of _ "[]"] exI [of _ xs]) (simp add: insert_behind_def)
  next
    case False
    then show ?thesis using t
      by (intro exI [of _ "takeWhile (\<lambda>y. y \<noteq> w) xs @ [w]"] exI [of _ "tl (dropWhile (\<lambda>y. y \<noteq> w) xs)"]) (simp add: insert_behind_def)
  qed
  show "\<exists>as bs. xs = as @ bs \<and> w = right_of head bs \<and> insert_before head w x xs = as @ x # bs"
  proof (cases "w = head")
    case True
    then show ?thesis by (intro exI [of _ xs] exI [of _ "[]"]) (simp add: insert_before_def)
  next
    case False
    define ds where "ds = tl (dropWhile (\<lambda>y. y \<noteq> w) xs)"
    have x: "xs = takeWhile (\<lambda>y. y \<noteq> w) xs @ w # ds" using t [OF False] by (simp add: ds_def)
    then have "dropWhile (\<lambda>y. y \<noteq> w) xs = w # ds" by (metis same_append_eq takeWhile_dropWhile_id)
    then have "insert_before head w x xs = takeWhile (\<lambda>y. y \<noteq> w) xs @ x # w # ds" using False by (simp add: insert_before_def)
    then show ?thesis using x right_of_Cons(1) [of head w ds] by metis
  qed
qed

lemma elist_run_ring:
  "ring h head xs \<Longrightarrow> elist_spec (dom h) head ops xs = Some ys \<Longrightarrow> \<exists>h'. elist_run head ops h = Some h' \<and> ring h' head ys"
proof (induction ops arbitrary: h xs)
  case (Cons p ops)
  have ds: "distinct (head # xs)" using Cons.prems(1) by (simp add: ring_def)
  show ?case
  proof (cases p)
    case (Link_behind w x)
    then have a: "x \<in> dom h" "x \<notin> set (head # xs)" "w \<in> set (head # xs)"
        "elist_spec (dom h) head ops (insert_behind head w x xs) = Some ys" using Cons.prems(2) by (auto split: if_splits)
    obtain as bs where s: "xs = as @ bs" "w = left_of head as" "insert_behind head w x xs = as @ x # bs"
      using find_node(1) [OF a(3) ds] by blast
    obtain h1 where h1: "elist_add w x h = Some h1" "ring h1 head (as @ x # bs)" "dom h1 = dom h"
      using elist_add_ring [of h head as bs x] Cons.prems(1) a s changes_dom by (metis domIff)
    then show ?thesis using Cons.IH [OF h1(2)] a(4) s(3) Link_behind by simp
  next
    case (Link_before w x)
    then have a: "x \<in> dom h" "x \<notin> set (head # xs)" "w \<in> set (head # xs)"
        "elist_spec (dom h) head ops (insert_before head w x xs) = Some ys" using Cons.prems(2) by (auto split: if_splits)
    obtain as bs where s: "xs = as @ bs" "w = right_of head bs" "insert_before head w x xs = as @ x # bs"
      using find_node(2) [OF a(3) ds] by blast
    obtain h1 where h1: "elist_add_tail w x h = Some h1" "ring h1 head (as @ x # bs)" "dom h1 = dom h"
      using elist_add_tail_ring [of h head as bs x] Cons.prems(1) a s changes_dom by (metis domIff)
    then show ?thesis using Cons.IH [OF h1(2)] a(4) s(3) Link_before by simp
  next
    case (Unlink x)
    then have a: "x \<in> set xs" "elist_spec (dom h) head ops (remove1 x xs) = Some ys" using Cons.prems(2) by (auto split: if_splits)
    obtain as bs where s: "xs = as @ x # bs" "x \<notin> set as" using a(1) split_list_first by metis
    obtain h1 where h1: "elist_del x h = Some h1" "ring h1 head (as @ bs)" "dom h1 = dom h"
      using elist_del_ring [of h head as x bs] Cons.prems(1) s changes_dom by metis
    have "remove1 x xs = as @ bs" using s by (simp add: remove1_append)
    then show ?thesis using Cons.IH [OF h1(2)] a(2) h1 Unlink by simp
  next
    case (Unlink_all f)
    have f: "elist_next h head = Some (right_of head xs)" using ring_around(1) [of h head "[]" xs] Cons.prems(1) by simp
    have "\<exists>save h1. elist_next h (right_of head xs) = Some save \<and> elist_for_each_safe f head (right_of head xs) save h = Some h1
        \<and> ring h1 head (filter (\<lambda>x. \<not> f x) xs) \<and> dom h1 = dom h"
    proof (cases xs)
      case Nil
      then show ?thesis using f Cons.prems(1) by (simp add: elist_for_each_safe.simps)
    next
      case (Cons b cs)
      have "elist_next h b = Some (right_of head cs)" using ring_at(1) [of h head "[]" b cs] Cons.prems(1) \<open>xs = b # cs\<close> by simp
      then show ?thesis using for_each_safe_from [of h head "[]" xs f] Cons.prems(1) \<open>xs = b # cs\<close> changes_dom by fastforce
    qed
    then obtain save h1 where h1: "elist_next h (right_of head xs) = Some save"
        "elist_for_each_safe f head (right_of head xs) save h = Some h1" "ring h1 head (filter (\<lambda>x. \<not> f x) xs)" "dom h1 = dom h" by blast
    then show ?thesis using Cons.IH [OF h1(3)] Cons.prems(2) f Unlink_all by simp
  qed
qed simp

text \<open>
  C11. Every sequence of operations on an intrusive list that links allocated nodes of no list next to nodes
  of the list and unlinks nodes of it, by themselves or while the list is traversed, runs without an
  access outside the allocated nodes and leaves the list that the same operations on sequences give: a
  traversal from the head visits exactly these nodes, in order, and returns.
\<close>

theorem elist_refines_sequence:
  assumes "h head \<noteq> None" "elist_spec (dom h) head ops [] = Some ys"
  shows "\<exists>h0 h1 pos. elist_init head h = Some h0 \<and> elist_run head ops h0 = Some h1 \<and> elist_next h1 head = Some pos
    \<and> elist_for_each h1 head pos = Some ys \<and> elist_empty h1 head = Some (ys = [])"
proof -
  obtain h0 where h0: "elist_init head h = Some h0" "ring h0 head []" "changes_only {head} h h0"
    using elist_init_ring [of h head] assms(1) by blast
  then obtain h1 where h1: "elist_run head ops h0 = Some h1" "ring h1 head ys"
    using elist_run_ring [OF h0(2), of ops ys] assms(2) changes_dom by metis
  have "elist_next h1 head = Some (right_of head ys)" using ring_around(1) [of h1 head "[]" ys] h1(2) by simp
  then show ?thesis using h0 h1 for_each_ring [OF h1(2)] elist_empty_ring [OF h1(2)] by blast
qed

theorem elist_refines_sequence_witness:
  "\<exists>h0 h1 pos. elist_init (0::nat) (\<lambda>x. if x < 9 then Some (x, x) else None) = Some h0
    \<and> elist_run 0 [Link_before 0 1, Link_before 1 2, Link_behind 1 3, Link_behind 0 4, Unlink 1, Link_before 3 1, Unlink_all (\<lambda>x. x = 4)] h0 = Some h1
    \<and> elist_next h1 0 = Some pos \<and> elist_for_each h1 0 pos = Some [2, 1, 3]"
proof -
  let ?h = "\<lambda>x::nat. if x < 9 then Some (x, x) else None"
  have "dom ?h = {..<9}" by (auto split: if_splits)
  then have "elist_spec (dom ?h) 0 [Link_before 0 1, Link_before 1 2, Link_behind 1 3, Link_behind 0 4, Unlink 1, Link_before 3 1,
      Unlink_all (\<lambda>x. x = 4)] [] = Some [2, 1, 3]"
    by (simp add: insert_before_def insert_behind_def)
  from elist_refines_sequence [OF _ this] show ?thesis by fastforce
qed

section \<open>Nodes with a back pointer\<close>

text \<open>
  The class \<open>elist_node\<close>: a node knows its element while it is linked; removing a node that is linked
  nowhere does nothing. The class \<open>elist\<close> has one such node as head.
\<close>

record ('a, 'i) enode_state =
  en_links :: "'a eheap"
  en_info :: "'a \<Rightarrow> 'i option"

definition link_front :: "'a \<Rightarrow> 'a \<Rightarrow> 'i \<Rightarrow> ('a, 'i) enode_state \<Rightarrow> ('a, 'i) enode_state option" where
  "link_front this where' info s = do {
     n \<leftarrow> elist_next (en_links s) where'; h1 \<leftarrow> set_prev n this (en_links s);
     n' \<leftarrow> elist_next h1 where'; h2 \<leftarrow> set_next this n' h1;
     h3 \<leftarrow> set_prev this where' h2; h4 \<leftarrow> set_next where' this h3;
     Some (s\<lparr>en_links := h4, en_info := (en_info s)(this \<mapsto> info)\<rparr>) }"

definition link_back :: "'a \<Rightarrow> 'a \<Rightarrow> 'i \<Rightarrow> ('a, 'i) enode_state \<Rightarrow> ('a, 'i) enode_state option" where
  "link_back this where' info s = do {
     p \<leftarrow> elist_prev (en_links s) where'; h1 \<leftarrow> set_next p this (en_links s);
     h2 \<leftarrow> set_next this where' h1;
     p' \<leftarrow> elist_prev h2 where'; h3 \<leftarrow> set_prev this p' h2;
     h4 \<leftarrow> set_prev where' this h3;
     Some (s\<lparr>en_links := h4, en_info := (en_info s)(this \<mapsto> info)\<rparr>) }"

definition remove_node :: "'a \<Rightarrow> ('a, 'i) enode_state \<Rightarrow> ('a, 'i) enode_state option" where
  "remove_node this s = do {
     p \<leftarrow> elist_prev (en_links s) this; n \<leftarrow> elist_next (en_links s) this; h0 \<leftarrow> set_next p n (en_links s);
     n' \<leftarrow> elist_next h0 this; p' \<leftarrow> elist_prev h0 this; h1 \<leftarrow> set_prev n' p' h0;
     h2 \<leftarrow> set_next this this h1; h3 \<leftarrow> set_prev this this h2;
     Some (s\<lparr>en_links := h3, en_info := (en_info s)(this := None)\<rparr>) }"

lemma link_node_computes:
  assumes "elist_next (en_links s) p = Some n" "elist_prev (en_links s) n = Some p" "this \<noteq> p" "this \<noteq> n" "en_links s this \<noteq> None"
  shows "link_front this p i s = Some (s\<lparr>en_links := linked_in p this n (en_links s), en_info := (en_info s)(this \<mapsto> i)\<rparr>)"
    "link_back this n i s = Some (s\<lparr>en_links := linked_in p this n (en_links s), en_info := (en_info s)(this \<mapsto> i)\<rparr>)"
proof -
  let ?h = "en_links s"
  obtain q m w where a: "?h p = Some (n, q)" "?h n = Some (m, p)" "?h this = Some w"
    using next_allocated [OF assms(1)] prev_allocated [OF assms(2)] assms(5) by blast
  obtain w1 w2 where w: "w = (w1, w2)" by (cases w)
  show "link_front this p i s = Some (s\<lparr>en_links := linked_in p this n ?h, en_info := (en_info s)(this \<mapsto> i)\<rparr>)"
    "link_back this n i s = Some (s\<lparr>en_links := linked_in p this n ?h, en_info := (en_info s)(this \<mapsto> i)\<rparr>)"
    using a assms(3,4) unfolding w
    by (cases "p = n"; simp add: link_front_def link_back_def linked_in_def set_next_def set_prev_def elist_next_def
        elist_prev_def fun_upd_twist)+
qed

text \<open>A removed node points to itself, so removing it once more changes no list.\<close>

lemma remove_node_ring:
  assumes r: "ring (en_links s) head (as @ this # bs)"
  shows "\<exists>s'. remove_node this s = Some s' \<and> ring (en_links s') head (as @ bs) \<and> en_links s' this = Some (this, this)
    \<and> en_info s' = (en_info s)(this := None) \<and> remove_node this s' = Some s'"
proof -
  let ?h = "en_links s"
  obtain h' where h': "elist_del this ?h = Some h'" "ring h' head (as @ bs)" "h' this = ?h this"
    using elist_del_ring [OF r] by blast
  let ?p = "left_of head as" and ?n = "right_of head bs"
  note a = ring_at [OF r]
  obtain q m where al: "?h ?p = Some (this, q)" "?h ?n = Some (m, this)" "?h this = Some (?n, ?p)"
    using next_allocated [OF a(3)] prev_allocated [OF a(4)] link_some [OF a(1,2)] by blast
  let ?s = "s\<lparr>en_links := h'(this \<mapsto> (this, this)), en_info := (en_info s)(this := None)\<rparr>"
  have e: "remove_node this s = Some ?s"
    using al a(5,6) h'(1)
    by (cases "?p = ?n"; auto simp: remove_node_def elist_del_def set_next_def set_prev_def elist_next_def elist_prev_def fun_upd_twist)
  have "changes_only {this} h' (h'(this \<mapsto> (this, this)))" using h'(3) al by (auto simp: changes_only_def)
  moreover have "this \<notin> set (head # as @ bs)" using r by (auto simp: ring_def)
  ultimately have "ring (h'(this \<mapsto> (this, this))) head (as @ bs)" using ring_frame [OF _ _ h'(2)] by fastforce
  moreover have "remove_node this ?s = Some ?s"
    by (simp add: remove_node_def set_next_def set_prev_def elist_next_def elist_prev_def fun_upd_idem)
  ultimately show ?thesis using e by auto
qed

section \<open>Single linked lists\<close>

type_synonym 'a hheap = "'a \<Rightarrow> 'a option"

definition hlist_init :: "'a \<Rightarrow> 'a hheap \<Rightarrow> 'a hheap option" where
  "hlist_init hl h = do { _ \<leftarrow> h hl; Some (h(hl \<mapsto> hl)) }"

definition hlist_add :: "'a \<Rightarrow> 'a \<Rightarrow> 'a hheap \<Rightarrow> 'a hheap option" where
  "hlist_add where' what h = do { n \<leftarrow> h where'; _ \<leftarrow> h what; let h1 = h(what \<mapsto> n); Some (h1(where' \<mapsto> what)) }"

definition hlist_del :: "'a \<Rightarrow> 'a \<Rightarrow> 'a hheap \<Rightarrow> 'a hheap option" where
  "hlist_del what prev h = do { n \<leftarrow> h what; _ \<leftarrow> h prev; Some (h(prev \<mapsto> n)) }"

definition hlist_promote :: "'a \<Rightarrow> 'a \<Rightarrow> 'a option \<Rightarrow> 'a hheap \<Rightarrow> 'a hheap option" where
  "hlist_promote what prev prev2 h = (case prev2 of None \<Rightarrow> Some h
     | Some p2 \<Rightarrow> do { n \<leftarrow> h what; _ \<leftarrow> h prev; let h1 = h(prev \<mapsto> n); _ \<leftarrow> h1 p2; let h2 = h1(p2 \<mapsto> what);
         Some (h2(what \<mapsto> prev)) })"

fun hlinks :: "'a hheap \<Rightarrow> 'a list \<Rightarrow> bool" where
  "hlinks h (a # b # cs) \<longleftrightarrow> h a = Some b \<and> hlinks h (b # cs)"
| "hlinks h _ \<longleftrightarrow> True"

definition hring :: "'a hheap \<Rightarrow> 'a \<Rightarrow> 'a list \<Rightarrow> bool" where
  "hring h head xs \<longleftrightarrow> distinct (head # xs) \<and> hlinks h (head # xs @ [head])"

lemma hlinks_join: "hlinks h (as @ m # bs) \<longleftrightarrow> hlinks h (as @ [m]) \<and> hlinks h (m # bs)"
proof (induction as)
  case (Cons a as)
  then show ?case by (cases as) auto
qed simp

lemma hlinks_cong: "\<forall>x \<in> set (butlast xs). h' x = h x \<Longrightarrow> hlinks h' xs = hlinks h xs"
  by (induction h xs rule: hlinks.induct) auto

definition upto_left :: "'a \<Rightarrow> 'a list \<Rightarrow> 'a list" where
  "upto_left head as = butlast (head # as) @ [left_of head as]"

definition from_right :: "'a \<Rightarrow> 'a list \<Rightarrow> 'a list" where
  "from_right head bs = right_of head bs # tl (bs @ [head])"

lemma hring_parts:
  "hring h head (as @ ms @ bs) \<longleftrightarrow> distinct (head # as @ ms @ bs) \<and> hlinks h (upto_left head as)
     \<and> hlinks h (left_of head as # ms @ from_right head bs)"
  unfolding hring_def ring_list upto_left_def from_right_def using hlinks_join [of h "butlast (head # as)"] by blast

lemma hlinks_right [simp]:
  "hlinks h (a # from_right head bs) \<longleftrightarrow> h a = Some (right_of head bs) \<and> hlinks h (from_right head bs)"
  by (simp add: from_right_def)

lemma hlinks_keep:
  assumes "distinct (head # as @ bs)" "\<forall>x \<in> set (head # as @ bs) - {left_of head as}. h' x = h x"
  shows "hlinks h' (upto_left head as) = hlinks h (upto_left head as)"
    "hlinks h' (from_right head bs) = hlinks h (from_right head bs)"
proof -
  note s = around_sets [OF assms(1)]
  show "hlinks h' (upto_left head as) = hlinks h (upto_left head as)"
    unfolding upto_left_def
  proof (rule hlinks_cong, unfold butlast_snoc, rule ballI)
    fix x assume "x \<in> set (butlast (head # as))"
    then have "x \<in> set (head # as)" "x \<noteq> left_of head as" using s(1,2) by blast+
    then show "h' x = h x" using assms(2) by auto
  qed
  show "hlinks h' (from_right head bs) = hlinks h (from_right head bs)"
    unfolding from_right_def
  proof (rule hlinks_cong, unfold s(4), rule ballI)
    fix x assume "x \<in> set bs"
    then have "x \<in> set (head # as @ bs)" "x \<noteq> left_of head as" using assms(1) around_in(1) [of head as] by auto
    then show "h' x = h x" using assms(2) by blast
  qed
qed

lemma hlist_add_ring:
  assumes r: "hring h head (as @ bs)" and w: "what \<notin> set (head # as @ bs)" "h what \<noteq> None"
  shows "\<exists>h'. hlist_add (left_of head as) what h = Some h' \<and> hring h' head (as @ what # bs)"
proof -
  let ?p = "left_of head as" and ?n = "right_of head bs"
  have p: "h ?p = Some ?n" "distinct (head # as @ bs)" using r hring_parts [of h head as "[]" bs] by simp_all
  have ne: "what \<noteq> ?p" "what \<noteq> ?n" using w around_in(1) [of head as] around_in(2) [of head bs] by auto
  let ?h = "h(what \<mapsto> ?n, ?p \<mapsto> what)"
  have k: "\<forall>x \<in> set (head # as @ bs) - {?p}. ?h x = h x" using w by auto
  have e: "hlinks ?h (upto_left head as) = hlinks h (upto_left head as)" "hlinks ?h (from_right head bs) = hlinks h (from_right head bs)"
    by (rule hlinks_keep [OF p(2) k])+
  have "hring ?h head (as @ [what] @ bs)" unfolding hring_parts e
    using e(2) r hring_parts [of h head as "[]" bs] w ne by auto
  then show ?thesis using p(1) w ne by (auto simp: hlist_add_def)
qed

lemma hlist_del_ring:
  assumes r: "hring h head (as @ what # bs)"
  shows "\<exists>h'. hlist_del what (left_of head as) h = Some h' \<and> hring h' head (as @ bs)"
proof -
  let ?p = "left_of head as" and ?n = "right_of head bs"
  have p: "h ?p = Some what" "h what = Some ?n" "distinct (head # as @ bs)" using r hring_parts [of h head as "[what]" bs] by auto
  let ?h = "h(?p \<mapsto> ?n)"
  have k: "\<forall>x \<in> set (head # as @ bs) - {?p}. ?h x = h x" by simp
  have e: "hlinks ?h (upto_left head as) = hlinks h (upto_left head as)" "hlinks ?h (from_right head bs) = hlinks h (from_right head bs)"
    by (rule hlinks_keep [OF p(3) k])+
  have "hring ?h head (as @ [] @ bs)" unfolding hring_parts e
    using e(2) r hring_parts [of h head as "[what]" bs] by simp
  then show ?thesis using p by (auto simp: hlist_del_def)
qed

text \<open>A promoted node changes places with the node before it; the first one stays where it is.\<close>

lemma hlist_promote_ring:
  assumes r: "hring h head (as @ prev # what # bs)"
  shows "\<exists>h'. hlist_promote what prev (Some (left_of head as)) h = Some h' \<and> hring h' head (as @ what # prev # bs)"
proof -
  let ?p = "left_of head as" and ?n = "right_of head bs"
  have p: "h ?p = Some prev" "h prev = Some what" "h what = Some ?n" "distinct (head # as @ bs)"
      "prev \<notin> set (head # as @ bs)" "what \<notin> set (head # as @ bs)" "what \<noteq> prev"
    using r hring_parts [of h head as "[prev, what]" bs] by auto
  have ne: "what \<noteq> ?p" "prev \<noteq> ?p" using p(5,6) around_in(1) [of head as] by auto
  let ?h = "h(prev \<mapsto> ?n, ?p \<mapsto> what, what \<mapsto> prev)"
  have k: "\<forall>x \<in> set (head # as @ bs) - {?p}. ?h x = h x" using p(5,6) by auto
  have e: "hlinks ?h (upto_left head as) = hlinks h (upto_left head as)" "hlinks ?h (from_right head bs) = hlinks h (from_right head bs)"
    by (rule hlinks_keep [OF p(4) k])+
  have "hring ?h head (as @ [what, prev] @ bs)" unfolding hring_parts e
    using e(2) r hring_parts [of h head as "[prev, what]" bs] ne p(7) by auto
  then show ?thesis using p ne by (auto simp: hlist_promote_def)
qed

end
