(* ===== verification/Bnetd_Timer.thy ===== *)
theory Bnetd_Timer
  imports Common_Elist Channels
begin

text \<open>
  \<^verbatim>\<open>bnetd/timer.cpp\<close> with the four callbacks that the server uses (\<^verbatim>\<open>bnetd/connection.cpp\<close>, \<^verbatim>\<open>command.cpp\<close>)
  and \<open>conn_set_class\<close>, which sets timers. A timer is linked in the list of all timers, sorted by the time
  it expires, and in the list of its connection; both are intrusive lists, modelled with their links. The
  result \<open>None\<close> is an access to freed memory or a member of the data union that was not written. Calls
  into other modules are recorded in order; \<open>Callback\<close> records every call of a timer.
\<close>

section \<open>State\<close>

datatype t_conn_state = conn_state_empty | conn_state_initial | conn_state_connected | conn_state_loggedin
  | conn_state_destroy | conn_state_bot_username | conn_state_bot_password | conn_state_untrusted
  | conn_state_pending_raw

datatype timer_node = Timerlist_head | Conn_timers nat | Timer_timers nat | Timer_owners nat

datatype t_timer_data = Timer_n nat | Timer_p "cstring option"

datatype t_timer_cb = Cb_test_latency | Cb_send_nullmsg | Cb_shutdown | Cb_user_timer

record t_timer =
  tm_owner :: nat
  tm_when :: int
  tm_cb :: "t_timer_cb option"
  tm_data :: t_timer_data

datatype timer_event = Callback nat int | Irc_ping nat | W3_echoreq nat | Bnet_echoreq nat | Null_message nat
  | Info_message nat cstring | Latency_zero nat | Udptest_send nat | Send_issue nat | Ask_username nat

record timer_conn =
  tc_class :: conn_class
  tc_state :: t_conn_state
  tc_ircping :: u32
  tc_in_game :: bool
  tc_game_port :: u16

record timer_state =
  tm_links :: "timer_node eheap"
  tm_timers :: "nat \<Rightarrow> t_timer option"
  tm_fresh :: nat
  tm_conns :: "nat \<Rightarrow> timer_conn option"
  conn_dead :: "nat list"
  tm_events :: "timer_event list"

record timer_env =
  te_now :: int
  te_ticks :: u32
  te_latency :: nat
  te_nullmsg :: nat
  te_udptest_port :: u16

definition emit_timer :: "timer_event \<Rightarrow> timer_state \<Rightarrow> timer_state" where
  "emit_timer e s = s\<lparr>tm_events := tm_events s @ [e]\<rparr>"

definition upd_tconn :: "nat \<Rightarrow> (timer_conn \<Rightarrow> timer_conn) \<Rightarrow> timer_state \<Rightarrow> timer_state" where
  "upd_tconn c f s = s\<lparr>tm_conns := (tm_conns s)(c := map_option f (tm_conns s c))\<rparr>"

section \<open>The list of timers\<close>

text \<open>\<open>elist_entry\<close> for the two links of a timer; the head of a list is no timer.\<close>

fun entry_timers :: "timer_node \<Rightarrow> nat option" where
  "entry_timers (Timer_timers a) = Some a"
| "entry_timers _ = None"

fun entry_owners :: "timer_node \<Rightarrow> nat option" where
  "entry_owners (Timer_owners a) = Some a"
| "entry_owners _ = None"

definition timerlist_create :: "timer_state \<Rightarrow> (int \<times> timer_state) option" where
  "timerlist_create s = do {
     l \<leftarrow> elist_init Timerlist_head ((tm_links s)(Timerlist_head \<mapsto> (Timerlist_head, Timerlist_head)));
     Some (0, s\<lparr>tm_links := l\<rparr>) }"

partial_function (option) find_later ::
  "timer_node eheap \<Rightarrow> (nat \<Rightarrow> t_timer option) \<Rightarrow> int \<Rightarrow> timer_node \<Rightarrow> timer_node option" where
  "find_later l ts w pos = (if pos = Timerlist_head then Some pos
     else Option.bind (entry_timers pos) (\<lambda>a. Option.bind (ts a) (\<lambda>t.
       if tm_when t > w then Some pos else Option.bind (elist_next l pos) (\<lambda>n. find_later l ts w n))))"

definition timerlist_add_timer ::
  "nat option \<Rightarrow> int \<Rightarrow> t_timer_cb option \<Rightarrow> t_timer_data \<Rightarrow> timer_state \<Rightarrow> (int \<times> timer_state) option" where
  "timerlist_add_timer owner w cb d s = (case owner of None \<Rightarrow> Some (-1, s)
     | Some c \<Rightarrow>
         let a = tm_fresh s;
             t = \<lparr>tm_owner = c, tm_when = w, tm_cb = cb, tm_data = d\<rparr>;
             junk = (Timerlist_head, Timerlist_head);
             l = (tm_links s)(Timer_timers a \<mapsto> junk, Timer_owners a \<mapsto> junk)
         in do {
           first \<leftarrow> elist_next l Timerlist_head;
           pos \<leftarrow> find_later l (tm_timers s) w first;
           l1 \<leftarrow> elist_add_tail pos (Timer_timers a) l;
           _ \<leftarrow> tm_conns s c;
           l2 \<leftarrow> elist_add_tail (Conn_timers c) (Timer_owners a) l1;
           Some (0, s\<lparr>tm_links := l2, tm_timers := (tm_timers s)(a \<mapsto> t), tm_fresh := a + 1\<rparr>) })"

text \<open>Both links of a timer are taken out and its memory is freed.\<close>

definition drop_timer :: "nat \<Rightarrow> timer_state \<Rightarrow> timer_state option" where
  "drop_timer a s = do {
     l1 \<leftarrow> elist_del (Timer_owners a) (tm_links s);
     l2 \<leftarrow> elist_del (Timer_timers a) l1;
     Some (s\<lparr>tm_links := l2(Timer_owners a := None, Timer_timers a := None), tm_timers := (tm_timers s)(a := None)\<rparr>) }"

section \<open>Callbacks\<close>

definition data_n :: "t_timer_data \<Rightarrow> nat option" where
  "data_n d = (case d of Timer_n n \<Rightarrow> Some n | Timer_p _ \<Rightarrow> None)"

definition data_p :: "t_timer_data \<Rightarrow> cstring option option" where
  "data_p d = (case d of Timer_p p \<Rightarrow> Some p | Timer_n _ \<Rightarrow> None)"

definition conn_set_state :: "nat \<Rightarrow> t_conn_state \<Rightarrow> timer_state \<Rightarrow> timer_state option" where
  "conn_set_state c st s = do {
     cn \<leftarrow> tm_conns s c;
     if st = conn_state_destroy \<and> tc_state cn \<noteq> conn_state_destroy
       then Some (upd_tconn c (\<lambda>cn. cn\<lparr>tc_state := st\<rparr>) (s\<lparr>conn_dead := conn_dead s @ [c]\<rparr>))
     else if st \<noteq> conn_state_destroy \<and> tc_state cn = conn_state_destroy
       then (if c \<in> set (conn_dead s)
             then Some (upd_tconn c (\<lambda>cn. cn\<lparr>tc_state := st\<rparr>) (s\<lparr>conn_dead := remove1 c (conn_dead s)\<rparr>))
             else Some s)
     else Some (upd_tconn c (\<lambda>cn. cn\<lparr>tc_state := st\<rparr>) s) }"

definition conn_shutdown :: "nat \<Rightarrow> int \<Rightarrow> t_timer_data \<Rightarrow> timer_state \<Rightarrow> timer_state option" where
  "conn_shutdown c now foo s = (if now = 0 then Some s else conn_set_state c conn_state_destroy s)"

text \<open>What \<open>conn_test_latency\<close> sends. The argument \<open>now\<close> of a callback is the time its timer was set to.\<close>

definition send_latency_test :: "timer_env \<Rightarrow> nat \<Rightarrow> timer_state \<Rightarrow> timer_state option" where
  "send_latency_test env c s = do {
     cn \<leftarrow> tm_conns s c;
     if tc_class cn = conn_class_irc \<or> tc_class cn = conn_class_wol
     then do {
       s1 \<leftarrow> (if tc_ircping cn \<noteq> 0 then conn_set_state c conn_state_destroy (emit_timer (Latency_zero c) s) else Some s);
       Some (emit_timer (Irc_ping c) (upd_tconn c (\<lambda>cn. cn\<lparr>tc_ircping := te_ticks env\<rparr>) s1)) }
     else if tc_class cn = conn_class_w3route then Some (emit_timer (W3_echoreq c) s)
     else if \<not> tc_in_game cn then Some (emit_timer (Bnet_echoreq c) s)
     else Some s }"

definition conn_test_latency :: "timer_env \<Rightarrow> nat \<Rightarrow> int \<Rightarrow> t_timer_data \<Rightarrow> timer_state \<Rightarrow> timer_state option" where
  "conn_test_latency env c now delta s = (if now = 0 then Some s
     else do {
       cn \<leftarrow> tm_conns s c;
       if tc_state cn = conn_state_destroy then Some s
       else do {
         s1 \<leftarrow> send_latency_test env c s;
         n \<leftarrow> data_n delta;
         (_, s2) \<leftarrow> timerlist_add_timer (Some c) (now + int n) (Some Cb_test_latency) delta s1;
         Some s2 } })"

definition conn_send_nullmsg :: "nat \<Rightarrow> int \<Rightarrow> t_timer_data \<Rightarrow> timer_state \<Rightarrow> timer_state option" where
  "conn_send_nullmsg c now delta s = (if now = 0 then Some s
     else do {
       n \<leftarrow> data_n delta;
       (_, s2) \<leftarrow> timerlist_add_timer (Some c) (now + int n) (Some Cb_send_nullmsg) delta (emit_timer (Null_message c) s);
       Some s2 })"

definition user_timer_cb :: "nat \<Rightarrow> int \<Rightarrow> t_timer_data \<Rightarrow> timer_state \<Rightarrow> timer_state option" where
  "user_timer_cb c now str s = do {
     p \<leftarrow> data_p str;
     Some (case p of None \<Rightarrow> s | Some m \<Rightarrow> if now \<noteq> 0 then emit_timer (Info_message c m) s else s) }"

definition timer_callback :: "timer_env \<Rightarrow> nat \<Rightarrow> t_timer \<Rightarrow> int \<Rightarrow> timer_state \<Rightarrow> timer_state option" where
  "timer_callback env a t now s = (case tm_cb t of None \<Rightarrow> Some s
     | Some cb \<Rightarrow> let s0 = emit_timer (Callback a now) s; c = tm_owner t; d = tm_data t in (case cb of
           Cb_test_latency \<Rightarrow> conn_test_latency env c now d s0
         | Cb_send_nullmsg \<Rightarrow> conn_send_nullmsg c now d s0
         | Cb_shutdown \<Rightarrow> conn_shutdown c now d s0
         | Cb_user_timer \<Rightarrow> user_timer_cb c now d s0))"

section \<open>Expiry\<close>

partial_function (option) del_all_loop ::
  "timer_env \<Rightarrow> timer_node \<Rightarrow> timer_node \<Rightarrow> timer_node \<Rightarrow> timer_state \<Rightarrow> timer_state option" where
  "del_all_loop env head pos save s = (if pos = head then Some s
     else Option.bind (entry_owners pos) (\<lambda>a. Option.bind (tm_timers s a) (\<lambda>t.
       Option.bind (timer_callback env a t 0 s) (\<lambda>s1. Option.bind (drop_timer a s1) (\<lambda>s2.
       Option.bind (elist_next (tm_links s2) save) (\<lambda>save'. del_all_loop env head save save' s2))))))"

definition timerlist_del_all_timers :: "timer_env \<Rightarrow> nat option \<Rightarrow> timer_state \<Rightarrow> (int \<times> timer_state) option" where
  "timerlist_del_all_timers env owner s = (case owner of None \<Rightarrow> Some (-1, s)
     | Some c \<Rightarrow> do {
         _ \<leftarrow> tm_conns s c;
         pos \<leftarrow> elist_next (tm_links s) (Conn_timers c);
         save \<leftarrow> elist_next (tm_links s) pos;
         s' \<leftarrow> del_all_loop env (Conn_timers c) pos save s;
         Some (0, s') })"

text \<open>
  The loop over the expired timers: \<open>None\<close> if it runs for ever, \<open>Some None\<close> for a bad access. The link
  to the next timer is read before the callback is called.
\<close>

definition check_timer :: "timer_env \<Rightarrow> int \<Rightarrow> timer_node \<Rightarrow> timer_state \<Rightarrow> (bool \<times> timer_state) option" where
  "check_timer env now pos s = do {
     a \<leftarrow> entry_timers pos; t \<leftarrow> tm_timers s a;
     if tm_when t < now
     then do { s1 \<leftarrow> timer_callback env a t (tm_when t) s; s2 \<leftarrow> drop_timer a s1; Some (True, s2) }
     else Some (False, s) }"

partial_function (option) check_timers_loop ::
  "timer_env \<Rightarrow> int \<Rightarrow> timer_node \<Rightarrow> timer_node \<Rightarrow> timer_state \<Rightarrow> timer_state option option" where
  "check_timers_loop env now pos save s = (if pos = Timerlist_head then Some (Some s)
     else (case check_timer env now pos s of None \<Rightarrow> Some None
       | Some r \<Rightarrow> if fst r
           then (case elist_next (tm_links (snd r)) save of None \<Rightarrow> Some None
             | Some save' \<Rightarrow> check_timers_loop env now save save' (snd r))
           else Some (Some (snd r))))"

definition timerlist_check_timers :: "timer_env \<Rightarrow> int \<Rightarrow> timer_state \<Rightarrow> timer_state option option" where
  "timerlist_check_timers env now s = (case elist_next (tm_links s) Timerlist_head of None \<Rightarrow> Some None
     | Some pos \<Rightarrow> (case elist_next (tm_links s) pos of None \<Rightarrow> Some None
         | Some save \<Rightarrow> check_timers_loop env now pos save s))"

section \<open>Classes of connections\<close>

definition conn_set_class :: "timer_env \<Rightarrow> nat \<Rightarrow> conn_class \<Rightarrow> timer_state \<Rightarrow> timer_state option" where
  "conn_set_class env c cclass s = do {
     cn \<leftarrow> tm_conns s c;
     if tc_class cn = cclass then Some s
     else do {
       let oldclass = tc_class cn;
       let s0 = upd_tconn c (\<lambda>cn. cn\<lparr>tc_class := cclass\<rparr>) s;
       let drop_init = (\<lambda>s. if oldclass = conn_class_init then map_option snd (timerlist_del_all_timers env (Some c) s) else Some s);
       let arm = (\<lambda>cb n s. map_option snd (timerlist_add_timer (Some c) (te_now env + int n) (Some cb) (Timer_n n) s));
       (if cclass = conn_class_bnet then do {
          let s1 = (if te_udptest_port env \<noteq> 0 then upd_tconn c (\<lambda>cn. cn\<lparr>tc_game_port := te_udptest_port env\<rparr>) s0 else s0);
          s2 \<leftarrow> drop_init (emit_timer (Udptest_send c) s1);
          arm Cb_test_latency (te_latency env) s2 }
        else if cclass = conn_class_w3route then arm Cb_test_latency (te_latency env) s0
        else if cclass = conn_class_bot \<or> cclass = conn_class_telnet then do {
          s1 \<leftarrow> (if cclass = conn_class_bot \<and> te_nullmsg env > 0 then arm Cb_send_nullmsg (te_nullmsg env) s0 else Some s0);
          s2 \<leftarrow> drop_init s1;
          Some (emit_timer (Ask_username c) (emit_timer (Send_issue c) s2)) }
        else drop_init s0) } }"

end
