(* ===== verification/Timer_Props.thy ===== *)
theory Timer_Props
  imports Bnetd_Timer
begin

text \<open>
  The timers: the two kinds of lists and the timers agree, the list of all timers is sorted, and a check
  calls exactly the timers that have expired, in the order of their times, and returns, provided that
  no timer is set again to the same time.
\<close>

section \<open>The lists and the timers\<close>

definition when_of :: "timer_state \<Rightarrow> nat \<Rightarrow> int" where
  "when_of s a = tm_when (the (tm_timers s a))"

definition timer_ok :: "t_timer \<Rightarrow> bool" where
  "timer_ok t \<longleftrightarrow> (case tm_cb t of Some Cb_test_latency \<Rightarrow> data_n (tm_data t) \<noteq> None
     | Some Cb_send_nullmsg \<Rightarrow> data_n (tm_data t) \<noteq> None | Some Cb_user_timer \<Rightarrow> data_p (tm_data t) \<noteq> None | _ \<Rightarrow> True)"

definition timer_rep :: "timer_state \<Rightarrow> nat list \<Rightarrow> (nat \<Rightarrow> nat list) \<Rightarrow> bool" where
  "timer_rep s xs ys \<longleftrightarrow>
     ring (tm_links s) Timerlist_head (map Timer_timers xs)
   \<and> (\<forall>c. tm_conns s c \<noteq> None \<longrightarrow> ring (tm_links s) (Conn_timers c) (map Timer_owners (ys c)))
   \<and> set xs = dom (tm_timers s)
   \<and> (\<forall>c. set (ys c) = {a. \<exists>t. tm_timers s a = Some t \<and> tm_owner t = c})
   \<and> sorted (map (when_of s) xs)
   \<and> (\<forall>a t. tm_timers s a = Some t \<longrightarrow> a < tm_fresh s \<and> tm_conns s (tm_owner t) \<noteq> None \<and> timer_ok t)"

lemma timer_repD:
  assumes "timer_rep s xs ys"
  shows "ring (tm_links s) Timerlist_head (map Timer_timers xs)"
    "\<And>c. tm_conns s c \<noteq> None \<Longrightarrow> ring (tm_links s) (Conn_timers c) (map Timer_owners (ys c))"
    "set xs = dom (tm_timers s)" "\<And>c. set (ys c) = {a. \<exists>t. tm_timers s a = Some t \<and> tm_owner t = c}"
    "sorted (map (when_of s) xs)"
    "\<And>a t. tm_timers s a = Some t \<Longrightarrow> a < tm_fresh s \<and> tm_conns s (tm_owner t) \<noteq> None \<and> timer_ok t"
    "distinct xs"
proof -
  show "ring (tm_links s) Timerlist_head (map Timer_timers xs)" using assms by (simp add: timer_rep_def)
  then show "distinct xs" by (simp add: ring_def distinct_map)
qed (use assms in \<open>auto simp: timer_rep_def\<close>)

lemma owners_apart: "timer_rep s xs ys \<Longrightarrow> k \<noteq> c \<Longrightarrow> set (ys k) \<inter> set (ys c) = {}"
  unfolding timer_repD(4) by auto

definition same_timers :: "timer_state \<Rightarrow> timer_state \<Rightarrow> bool" where
  "same_timers s s' \<longleftrightarrow> tm_links s' = tm_links s \<and> tm_timers s' = tm_timers s \<and> tm_fresh s' = tm_fresh s
     \<and> (\<forall>c. tm_conns s' c = None \<longleftrightarrow> tm_conns s c = None)"

lemma same_timers_rep: "same_timers s s' \<Longrightarrow> timer_rep s' xs ys = timer_rep s xs ys"
  unfolding same_timers_def timer_rep_def when_of_def by simp

lemma same_timers_trans: "same_timers s t \<Longrightarrow> same_timers t u \<Longrightarrow> same_timers s u"
  unfolding same_timers_def by simp

lemma same_timers_simps [simp]: "same_timers s s" "same_timers s (emit_timer e s)" "same_timers s (upd_tconn c f s)"
  by (auto simp: same_timers_def emit_timer_def upd_tconn_def)

section \<open>Setting a timer\<close>

lemma right_of_map [simp]: "right_of head (map f (x # xs)) = f x"
  by simp

lemma find_later_spec:
  assumes "\<forall>a \<in> set cs. \<exists>t. ts a = Some t \<and> tm_when t \<le> w" "\<forall>b \<in> set bs. \<exists>t. ts b = Some t \<and> w < tm_when t"
  shows "ring l Timerlist_head (map Timer_timers (as @ cs @ bs)) \<Longrightarrow>
    find_later l ts w (right_of Timerlist_head (map Timer_timers (cs @ bs))) = Some (right_of Timerlist_head (map Timer_timers bs))"
  using assms
proof (induction cs arbitrary: as)
  case Nil
  then show ?case by (cases bs) (auto simp: find_later.simps)
next
  case (Cons c cs)
  have r: "ring l Timerlist_head (map Timer_timers as @ Timer_timers c # map Timer_timers (cs @ bs))" using Cons.prems(1) by simp
  have "ring l Timerlist_head (map Timer_timers ((as @ [c]) @ cs @ bs))" using Cons.prems(1) by simp
  note IH = Cons.IH [OF this]
  obtain t where "ts c = Some t" "tm_when t \<le> w" using Cons.prems(2) by auto
  then show ?case using IH Cons.prems(2,3) ring_at(1) [OF r]
    by (simp add: find_later.simps [of l ts w "Timer_timers c"])
qed

lemma insert_place:
  fixes f :: "nat \<Rightarrow> int"
  assumes "sorted (map f xs)"
  obtains as bs where "xs = as @ bs" "\<forall>a \<in> set as. f a \<le> w" "\<forall>b \<in> set bs. w < f b"
proof -
  let ?as = "takeWhile (\<lambda>a. f a \<le> w) xs" and ?bs = "dropWhile (\<lambda>a. f a \<le> w) xs"
  have "w < f b" if "b \<in> set ?bs" for b
  proof -
    have "?bs \<noteq> []" using that by (metis empty_iff list.set(1))
    then have "\<not> f (hd ?bs) \<le> w" by (rule hd_dropWhile)
    moreover have "sorted (map f ?bs)" using assms by (metis map_append sorted_append takeWhile_dropWhile_id)
    then have "f (hd ?bs) \<le> f b" using that by (cases ?bs) auto
    ultimately show ?thesis by simp
  qed
  then show ?thesis using that [of ?as ?bs] by (auto dest: set_takeWhileD)
qed

text \<open>The parts of the nodes are apart.\<close>

lemma add_timer_rep:
  assumes rep: "timer_rep s (as @ bs) ys" and c: "tm_conns s c \<noteq> None"
    and ok: "timer_ok \<lparr>tm_owner = c, tm_when = w, tm_cb = cb, tm_data = d\<rparr>"
    and le: "\<forall>a \<in> set as. when_of s a \<le> w" and gt: "\<forall>b \<in> set bs. w < when_of s b"
  defines "a \<equiv> tm_fresh s"
  shows "\<exists>s'. timerlist_add_timer (Some c) w cb d s = Some (0, s') \<and> timer_rep s' (as @ a # bs) (ys(c := ys c @ [a]))
    \<and> tm_timers s' = (tm_timers s)(a \<mapsto> \<lparr>tm_owner = c, tm_when = w, tm_cb = cb, tm_data = d\<rparr>) \<and> tm_conns s' = tm_conns s
    \<and> tm_events s' = tm_events s \<and> tm_fresh s' = a + 1 \<and> conn_dead s' = conn_dead s"
proof -
  note r = timer_repD [OF rep]
  let ?t = "\<lparr>tm_owner = c, tm_when = w, tm_cb = cb, tm_data = d\<rparr>" and ?H = Timerlist_head
  let ?l = "(tm_links s)(Timer_timers a \<mapsto> (?H, ?H), Timer_owners a \<mapsto> (?H, ?H))"
  have na: "tm_timers s a = None" using r(6) [of a] unfolding a_def by (cases "tm_timers s (tm_fresh s)") auto
  have nx: "a \<notin> set (as @ bs)" "a \<notin> set (ys k)" for k using r(3) r(4) [of k] na by auto
  have g: "ring ?l ?H (map Timer_timers as @ map Timer_timers bs)"
    using r(1) nx by (subst ring_cong [of _ _ ?l "tm_links s"]) auto
  have live: "\<exists>t. tm_timers s x = Some t \<and> when_of s x = tm_when t" if "x \<in> set (as @ bs)" for x
    using that r(3) by (cases "tm_timers s x") (auto simp: when_of_def)
  have ts: "\<forall>x \<in> set as. \<exists>t. tm_timers s x = Some t \<and> tm_when t \<le> w" "\<forall>x \<in> set bs. \<exists>t. tm_timers s x = Some t \<and> w < tm_when t"
    using live le gt by fastforce+
  have f: "find_later ?l (tm_timers s) w (right_of ?H (map Timer_timers (as @ bs))) = Some (right_of ?H (map Timer_timers bs))"
    using find_later_spec [OF ts, of ?l "[]"] g by simp
  have first: "elist_next ?l ?H = Some (right_of ?H (map Timer_timers (as @ bs)))"
    using ring_around(1) [of ?l ?H "[]" "map Timer_timers (as @ bs)"] g by simp
  obtain l1 where l1: "elist_add_tail (right_of ?H (map Timer_timers bs)) (Timer_timers a) ?l = Some l1"
      "ring l1 ?H (map Timer_timers as @ Timer_timers a # map Timer_timers bs)"
      "changes_only ({Timer_timers a, ?H} \<union> set (map Timer_timers as @ map Timer_timers bs)) ?l l1"
    using elist_add_tail_ring [OF g, of "Timer_timers a"] nx by auto
  have o1: "ring l1 (Conn_timers k) (map Timer_owners (ys k))" if "tm_conns s k \<noteq> None" for k
  proof (rule ring_frame [OF l1(3)])
    show "ring ?l (Conn_timers k) (map Timer_owners (ys k))"
      using r(2) [OF that] nx by (subst ring_cong [of _ _ ?l "tm_links s"]) auto
  qed auto
  have "l1 (Timer_owners a) = ?l (Timer_owners a)" using l1(3) [unfolded changes_only_def, THEN conjunct1, rule_format, of "Timer_owners a"] by auto
  then have al: "l1 (Timer_owners a) \<noteq> None" by simp
  obtain l2 where l2: "elist_add_tail (Conn_timers c) (Timer_owners a) l1 = Some l2"
      "ring l2 (Conn_timers c) (map Timer_owners (ys c) @ [Timer_owners a])"
      "changes_only ({Timer_owners a, Conn_timers c} \<union> set (map Timer_owners (ys c))) l1 l2"
    using elist_add_tail_ring [of l1 "Conn_timers c" "map Timer_owners (ys c)" "[]" "Timer_owners a"] o1 [OF c] nx(2) [of c] al by auto
  let ?s = "s\<lparr>tm_links := l2, tm_timers := (tm_timers s)(a \<mapsto> ?t), tm_fresh := a + 1\<rparr>"
  have e: "timerlist_add_timer (Some c) w cb d s = Some (0, ?s)"
    using first f l1(1) l2(1) c by (auto simp: timerlist_add_timer_def Let_def a_def)
  have "timer_rep ?s (as @ a # bs) (ys(c := ys c @ [a]))"
    unfolding timer_rep_def
  proof (intro conjI allI impI)
    show "ring (tm_links ?s) ?H (map Timer_timers (as @ a # bs))"
      using ring_frame [OF l2(3) _ l1(2)] by auto
    show "ring (tm_links ?s) (Conn_timers k) (map Timer_owners ((ys(c := ys c @ [a])) k))" if "tm_conns ?s k \<noteq> None" for k
    proof (cases "k = c")
      case True
      then show ?thesis using l2(2) by simp
    next
      case False
      then have "({Timer_owners a, Conn_timers c} \<union> set (map Timer_owners (ys c))) \<inter> set (Conn_timers k # map Timer_owners (ys k)) = {}"
        using nx(2) [of k] owners_apart [OF rep False] by auto
      then show ?thesis using ring_frame [OF l2(3) _ o1 [of k]] that False by simp
    qed
    show "set (as @ a # bs) = dom (tm_timers ?s)" using r(3) by auto
    show "set ((ys(c := ys c @ [a])) k) = {b. \<exists>t. tm_timers ?s b = Some t \<and> tm_owner t = k}" for k
      using r(4) [of k] na by auto
    have w: "map (when_of ?s) as = map (when_of s) as" "map (when_of ?s) bs = map (when_of s) bs" "when_of ?s a = w"
      using nx(1) by (auto simp: when_of_def)
    have "sorted (map (when_of s) as @ w # map (when_of s) bs)"
      using r(5) le gt by (auto simp: sorted_append less_imp_le)
    then show "sorted (map (when_of ?s) (as @ a # bs))" by (simp only: map_append list.map w)
  next
    fix b t assume "tm_timers ?s b = Some t"
    then show "b < tm_fresh ?s" "tm_conns ?s (tm_owner t) \<noteq> None" "timer_ok t"
      using r(6) [of b t] c ok by (auto simp: a_def split: if_splits)
  qed
  then show ?thesis using e by auto
qed


section \<open>Taking a timer out\<close>

lemma drop_timer_rep:
  assumes rep: "timer_rep s (as @ a # bs) ys" and t: "tm_timers s a = Some t"
  shows "\<exists>s' cs. drop_timer a s = Some s' \<and> timer_rep s' (as @ bs) (ys(tm_owner t := cs)) \<and> cs = remove1 a (ys (tm_owner t))
    \<and> tm_timers s' = (tm_timers s)(a := None) \<and> tm_conns s' = tm_conns s \<and> tm_events s' = tm_events s
    \<and> tm_fresh s' = tm_fresh s \<and> conn_dead s' = conn_dead s"
proof -
  note r = timer_repD [OF rep]
  let ?c = "tm_owner t" and ?H = Timerlist_head
  have lc: "tm_conns s ?c \<noteq> None" using r(6) [OF t] by blast
  have "a \<in> set (ys ?c)" using r(4) [of ?c] t by auto
  then obtain us vs where ys: "ys ?c = us @ a # vs" "a \<notin> set us" using split_list_first by metis
  obtain l1 where l1: "elist_del (Timer_owners a) (tm_links s) = Some l1" "ring l1 (Conn_timers ?c) (map Timer_owners us @ map Timer_owners vs)"
      "changes_only ({Conn_timers ?c} \<union> set (map Timer_owners us @ map Timer_owners vs)) (tm_links s) l1"
    using elist_del_ring [of "tm_links s" "Conn_timers ?c" "map Timer_owners us" "Timer_owners a" "map Timer_owners vs"] r(2) [OF lc] ys
    by auto
  have g1: "ring l1 ?H (map Timer_timers as @ Timer_timers a # map Timer_timers bs)"
    using ring_frame [OF l1(3) _ r(1)] by auto
  obtain l2 where l2: "elist_del (Timer_timers a) l1 = Some l2" "ring l2 ?H (map Timer_timers as @ map Timer_timers bs)"
      "changes_only ({?H} \<union> set (map Timer_timers as @ map Timer_timers bs)) l1 l2"
    using elist_del_ring [OF g1] by blast
  let ?l = "l2(Timer_owners a := None, Timer_timers a := None)"
  let ?s = "s\<lparr>tm_links := ?l, tm_timers := (tm_timers s)(a := None)\<rparr>"
  have nx: "a \<notin> set (as @ bs)" using r(7) by simp
  have "distinct (us @ a # vs)" using r(2) [OF lc] ys by (auto simp: ring_def distinct_map)
  then have nv: "a \<notin> set (us @ vs)" by simp
  have "timer_rep ?s (as @ bs) (ys(?c := us @ vs))"
    unfolding timer_rep_def
  proof (intro conjI allI impI)
    show "ring (tm_links ?s) ?H (map Timer_timers (as @ bs))"
      using l2(2) nx by (subst ring_cong [of _ _ _ l2]) auto
    show "ring (tm_links ?s) (Conn_timers k) (map Timer_owners ((ys(?c := us @ vs)) k))" if k: "tm_conns ?s k \<noteq> None" for k
    proof -
      have "ring l1 (Conn_timers k) (map Timer_owners ((ys(?c := us @ vs)) k)) \<and> a \<notin> set ((ys(?c := us @ vs)) k)"
      proof (cases "k = ?c")
        case True
        then show ?thesis using l1(2) nv by simp
      next
        case False
        then have "({Conn_timers ?c} \<union> set (map Timer_owners us @ map Timer_owners vs)) \<inter> set (Conn_timers k # map Timer_owners (ys k)) = {}"
          using owners_apart [OF rep False] ys by auto
        moreover have "a \<notin> set (ys k)" using r(4) [of k] t False by auto
        ultimately show ?thesis using ring_frame [OF l1(3) _ r(2) [of k]] k False by simp
      qed
      then have o: "ring l1 (Conn_timers k) (map Timer_owners ((ys(?c := us @ vs)) k))" "a \<notin> set ((ys(?c := us @ vs)) k)" by auto
      have "ring l2 (Conn_timers k) (map Timer_owners ((ys(?c := us @ vs)) k))"
        by (rule ring_frame [OF l2(3) _ o(1)]) auto
      then show ?thesis using o(2) by (subst ring_cong [of _ _ _ l2]) auto
    qed
    show "set (as @ bs) = dom (tm_timers ?s)" using r(3) nx by auto
    show "set ((ys(?c := us @ vs)) k) = {b. \<exists>t. tm_timers ?s b = Some t \<and> tm_owner t = k}" for k
    proof (cases "k = ?c")
      case True
      have "set (us @ vs) = set (ys ?c) - {a}" using ys nv by auto
      then show ?thesis using True r(4) [of ?c] by auto
    next
      case False
      then show ?thesis using r(4) [of k] t by auto
    qed
    have e: "map (when_of ?s) (as @ bs) = map (when_of s) (as @ bs)" using nx by (auto simp: when_of_def)
    show "sorted (map (when_of ?s) (as @ bs))" unfolding e using r(5) by (simp add: sorted_append)
  next
    fix b t assume "tm_timers ?s b = Some t"
    then show "b < tm_fresh ?s" "tm_conns ?s (tm_owner t) \<noteq> None" "timer_ok t"
      using r(6) [of b t] by (auto split: if_splits)
  qed
  moreover have "drop_timer a s = Some ?s" using l1(1) l2(1) by (simp add: drop_timer_def)
  moreover have "remove1 a (ys ?c) = us @ vs" using ys by (simp add: remove1_append)
  ultimately show ?thesis by auto
qed

section \<open>Callbacks\<close>

fun called :: "timer_event list \<Rightarrow> (nat \<times> int) list" where
  "called [] = []"
| "called (Callback a w # es) = (a, w) # called es"
| "called (_ # es) = called es"

lemma called_append [simp]: "called (xs @ ys) = called xs @ called ys"
  by (induction xs rule: called.induct) auto

definition rearm :: "t_timer \<Rightarrow> nat option" where
  "rearm t = (case tm_cb t of Some Cb_test_latency \<Rightarrow> data_n (tm_data t) | Some Cb_send_nullmsg \<Rightarrow> data_n (tm_data t) | _ \<Rightarrow> None)"

lemma rearm_when [simp]: "rearm (t\<lparr>tm_when := w\<rparr>) = rearm t"
  by (simp add: rearm_def cong: option.case_cong t_timer_cb.case_cong)

text \<open>Steps that leave the timers alone and call none.\<close>

definition quiet_timers :: "timer_state \<Rightarrow> timer_state \<Rightarrow> bool" where
  "quiet_timers s s' \<longleftrightarrow> same_timers s s' \<and> (\<exists>evs. tm_events s' = tm_events s @ evs \<and> called evs = [])"

lemma quiet_refl_timers [simp]: "quiet_timers s s"
  by (simp add: quiet_timers_def)

lemma quiet_trans_timers: "quiet_timers s t \<Longrightarrow> quiet_timers t u \<Longrightarrow> quiet_timers s u"
  unfolding quiet_timers_def using same_timers_trans by fastforce

lemma quiet_emit: "called [e] = [] \<Longrightarrow> quiet_timers s (emit_timer e s)"
  by (auto simp: quiet_timers_def emit_timer_def same_timers_def)

lemma quiet_upd [simp]: "quiet_timers s (upd_tconn c f s)"
  by (auto simp: quiet_timers_def upd_tconn_def same_timers_def)

lemma set_state_quiet:
  "tm_conns s c \<noteq> None \<Longrightarrow> \<exists>s'. conn_set_state c st s = Some s' \<and> quiet_timers s s'"
  by (auto simp: conn_set_state_def quiet_timers_def upd_tconn_def same_timers_def)

lemma quiet_timers_live: "quiet_timers s s' \<Longrightarrow> tm_conns s' c = None \<longleftrightarrow> tm_conns s c = None"
  by (simp add: quiet_timers_def same_timers_def)

lemma latency_test_quiet:
  assumes "tm_conns s c \<noteq> None"
  shows "\<exists>s'. send_latency_test env c s = Some s' \<and> quiet_timers s s'"
proof -
  obtain cn where cn: "tm_conns s c = Some cn" using assms by blast
  obtain s1 where "conn_set_state c conn_state_destroy (emit_timer (Latency_zero c) s) = Some s1"
      "quiet_timers (emit_timer (Latency_zero c) s) s1"
    using set_state_quiet [of "emit_timer (Latency_zero c) s" c] assms by (auto simp: emit_timer_def)
  moreover have "quiet_timers s (emit_timer (Latency_zero c) s)" by (rule quiet_emit) simp
  moreover note quiet_trans_timers [of s "emit_timer (Latency_zero c) s" s1]
  moreover have "quiet_timers s u \<Longrightarrow> quiet_timers s (emit_timer (Irc_ping c) (upd_tconn c f u))" for u f
    using quiet_trans_timers quiet_emit quiet_upd by (metis called.simps(1,3))
  ultimately show ?thesis using cn by (auto simp: send_latency_test_def quiet_emit)
qed

text \<open>What a callback does to the list: nothing, or one new timer behind the called one.\<close>

definition after_callback :: "timer_state \<Rightarrow> t_timer \<Rightarrow> nat list \<Rightarrow> timer_state \<Rightarrow> nat list \<Rightarrow> bool" where
  "after_callback s t bs s' bs' \<longleftrightarrow>
     (bs' = bs \<and> tm_timers s' = tm_timers s \<and> tm_fresh s' = tm_fresh s)
   \<or> (\<exists>us vs n. bs = us @ vs \<and> bs' = us @ tm_fresh s # vs \<and> rearm t = Some n \<and> tm_fresh s' = tm_fresh s + 1
        \<and> tm_timers s' = (tm_timers s)(tm_fresh s \<mapsto> t\<lparr>tm_when := tm_when t + int n\<rparr>))"

lemma quiet_after: "quiet_timers s s' \<Longrightarrow> timer_rep s xs ys \<Longrightarrow> timer_rep s' xs ys \<and> after_callback s t bs s' bs"
  unfolding quiet_timers_def using same_timers_rep by (auto simp: after_callback_def same_timers_def)

lemma rearm_after:
  assumes rep: "timer_rep s (as @ a # bs) ys" and t: "tm_timers s a = Some t" and q: "quiet_timers s s0"
    and cb: "tm_cb t = Some cb" and n: "data_n (tm_data t) = Some n" "rearm t = Some n"
  shows "\<exists>s' bs' ys'. timerlist_add_timer (Some (tm_owner t)) (tm_when t + int n) (Some cb) (tm_data t) s0 = Some (0, s')
    \<and> timer_rep s' (as @ a # bs') ys' \<and> after_callback s t bs s' bs' \<and> tm_events s' = tm_events s0
    \<and> (\<forall>c. tm_conns s' c = None \<longleftrightarrow> tm_conns s c = None)"
proof -
  have rep0: "timer_rep s0 (as @ a # bs) ys" using q rep same_timers_rep [of s s0] by (simp add: quiet_timers_def)
  have e: "tm_timers s0 = tm_timers s" "tm_fresh s0 = tm_fresh s" using q by (simp_all add: quiet_timers_def same_timers_def)
  note r = timer_repD [OF rep0]
  have so: "sorted (map (when_of s0) bs)" "\<forall>x \<in> set (as @ [a]). when_of s0 x \<le> when_of s0 a"
    using r(5) by (auto simp: sorted_append)
  obtain us vs where p: "bs = us @ vs" "\<forall>x \<in> set us. when_of s0 x \<le> tm_when t + int n" "\<forall>x \<in> set vs. tm_when t + int n < when_of s0 x"
    using insert_place [OF so(1)] .
  have "when_of s0 a = tm_when t" using t e by (simp add: when_of_def)
  then have le: "\<forall>x \<in> set (as @ a # us). when_of s0 x \<le> tm_when t + int n" using so(2) p(2) by force
  have lc: "tm_conns s0 (tm_owner t) \<noteq> None" using r(6) [of a t] t e by simp
  have tok: "timer_ok t" using r(6) [of a t] t e by simp
  have ok: "timer_ok \<lparr>tm_owner = tm_owner t, tm_when = tm_when t + int n, tm_cb = Some cb, tm_data = tm_data t\<rparr>"
    using tok cb by (cases cb) (simp_all add: timer_ok_def)
  have rep1: "timer_rep s0 ((as @ a # us) @ vs) ys" using rep0 p(1) by simp
  obtain s' where s': "timerlist_add_timer (Some (tm_owner t)) (tm_when t + int n) (Some cb) (tm_data t) s0 = Some (0, s')"
      "timer_rep s' ((as @ a # us) @ tm_fresh s0 # vs) (ys(tm_owner t := ys (tm_owner t) @ [tm_fresh s0]))"
      "tm_timers s' = (tm_timers s0)(tm_fresh s0 \<mapsto> \<lparr>tm_owner = tm_owner t, tm_when = tm_when t + int n, tm_cb = Some cb, tm_data = tm_data t\<rparr>)"
      "tm_conns s' = tm_conns s0" "tm_events s' = tm_events s0" "tm_fresh s' = tm_fresh s0 + 1"
    using add_timer_rep [OF rep1 lc ok le p(3)] by blast
  have nt: "\<lparr>tm_owner = tm_owner t, tm_when = tm_when t + int n, tm_cb = Some cb, tm_data = tm_data t\<rparr> = t\<lparr>tm_when := tm_when t + int n\<rparr>"
    using cb by (cases t) simp
  have "after_callback s t bs s' (us @ tm_fresh s # vs)" unfolding after_callback_def
    using p(1) n(2) s'(3,6) e nt by auto
  then show ?thesis using s' e quiet_timers_live [OF q] by (intro exI [of _ s'] exI [of _ "us @ tm_fresh s # vs"]) auto
qed

lemma timer_callback_rep:
  assumes rep: "timer_rep s (as @ a # bs) ys" and t: "tm_timers s a = Some t"
  shows "\<exists>s' bs' ys' evs. timer_callback env a t (tm_when t) s = Some s' \<and> timer_rep s' (as @ a # bs') ys'
    \<and> after_callback s t bs s' bs' \<and> tm_events s' = tm_events s @ evs
    \<and> called evs = (if tm_cb t = None then [] else [(a, tm_when t)]) \<and> (\<forall>c. tm_conns s' c = None \<longleftrightarrow> tm_conns s c = None)"
proof -
  note r = timer_repD [OF rep]
  have lc: "tm_conns s (tm_owner t) \<noteq> None" and ok: "timer_ok t" using r(6) [OF t] by blast+
  let ?s0 = "emit_timer (Callback a (tm_when t)) s" and ?c = "tm_owner t"
  have rep0: "timer_rep ?s0 (as @ a # bs) ys" using rep same_timers_rep [of s ?s0] by simp
  have t0: "tm_timers ?s0 a = Some t" and l0: "tm_conns ?s0 ?c \<noteq> None" using t lc by (simp_all add: emit_timer_def)
  have ev: "tm_events ?s0 = tm_events s @ [Callback a (tm_when t)]" by (simp add: emit_timer_def)
  have af: "after_callback s t bs s' bs' = after_callback ?s0 t bs s' bs'" for s' bs' by (simp add: after_callback_def emit_timer_def)
  have cs: "tm_conns ?s0 = tm_conns s" by (simp add: emit_timer_def)
  have quiet: ?thesis if "tm_cb t = Some cb" "timer_callback env a t (tm_when t) s = Some s'" "quiet_timers ?s0 s'" for cb s'
    using that quiet_after [OF that(3) rep0, of t bs] af ev cs quiet_timers_live [OF that(3)] unfolding quiet_timers_def by fastforce
  have again: ?thesis if h: "tm_cb t = Some cb" "data_n (tm_data t) = Some n" "rearm t = Some n" "quiet_timers ?s0 s1"
      "timer_callback env a t (tm_when t) s = map_option snd (timerlist_add_timer (Some ?c) (tm_when t + int n) (Some cb) (tm_data t) s1)"
    for cb n s1
  proof -
    obtain s' bs' ys' where "timerlist_add_timer (Some ?c) (tm_when t + int n) (Some cb) (tm_data t) s1 = Some (0, s')"
        "timer_rep s' (as @ a # bs') ys'" "after_callback ?s0 t bs s' bs'" "tm_events s' = tm_events s1"
        "\<forall>c. tm_conns s' c = None \<longleftrightarrow> tm_conns ?s0 c = None"
      using rearm_after [OF rep0 t0 h(4,1,2,3)] by blast
    moreover obtain evs where "tm_events s1 = tm_events ?s0 @ evs" "called evs = []" using h(4) unfolding quiet_timers_def by blast
    ultimately show ?thesis using h(1,5) af ev cs by fastforce
  qed
  show ?thesis
  proof (cases "tm_cb t")
    case None
    then show ?thesis using rep by (intro exI [of _ s] exI [of _ bs] exI [of _ ys]) (simp add: timer_callback_def after_callback_def)
  next
    case (Some cb)
    show ?thesis
    proof (cases cb)
      case Cb_test_latency
      obtain cn where cn: "tm_conns ?s0 ?c = Some cn" using l0 by blast
      obtain n where n: "data_n (tm_data t) = Some n" using ok Some Cb_test_latency by (auto simp: timer_ok_def)
      obtain s1 where s1: "send_latency_test env ?c ?s0 = Some s1" "quiet_timers ?s0 s1" using latency_test_quiet [OF l0] by blast
      show ?thesis
      proof (cases "tm_when t = 0 \<or> tc_state cn = conn_state_destroy")
        case True
        then have "timer_callback env a t (tm_when t) s = Some ?s0"
          using Some Cb_test_latency cn by (auto simp: timer_callback_def Let_def conn_test_latency_def)
        then show ?thesis using quiet [OF Some] by simp
      next
        case False
        then have "timer_callback env a t (tm_when t) s = map_option snd (timerlist_add_timer (Some ?c) (tm_when t + int n) (Some cb) (tm_data t) s1)"
          using Some Cb_test_latency cn s1 n
          by (simp add: timer_callback_def Let_def conn_test_latency_def map_option_bind case_prod_beta split: option.split bind_split)
        then show ?thesis using again [OF Some n _ s1(2)] Some Cb_test_latency n by (simp add: rearm_def)
      qed
    next
      case Cb_send_nullmsg
      obtain n where n: "data_n (tm_data t) = Some n" using ok Some Cb_send_nullmsg by (auto simp: timer_ok_def)
      show ?thesis
      proof (cases "tm_when t = 0")
        case True
        then have "timer_callback env a t (tm_when t) s = Some ?s0"
          using Some Cb_send_nullmsg by (auto simp: timer_callback_def Let_def conn_send_nullmsg_def)
        then show ?thesis using quiet [OF Some] by simp
      next
        case False
        then have "timer_callback env a t (tm_when t) s = map_option snd (timerlist_add_timer (Some ?c) (tm_when t + int n) (Some cb)
            (tm_data t) (emit_timer (Null_message ?c) ?s0))"
          using Some Cb_send_nullmsg n
          by (simp add: timer_callback_def Let_def conn_send_nullmsg_def map_option_bind case_prod_beta split: option.split bind_split)
        moreover have "quiet_timers ?s0 (emit_timer (Null_message ?c) ?s0)" by (rule quiet_emit) simp
        ultimately show ?thesis using again [OF Some n] Some Cb_send_nullmsg n by (simp add: rearm_def)
      qed
    next
      case Cb_shutdown
      obtain s1 where "conn_set_state ?c conn_state_destroy ?s0 = Some s1" "quiet_timers ?s0 s1" using set_state_quiet [OF l0] by blast
      then show ?thesis using quiet [OF Some] Some Cb_shutdown
        by (cases "tm_when t = 0") (auto simp: timer_callback_def Let_def conn_shutdown_def)
    next
      case Cb_user_timer
      obtain p where p: "data_p (tm_data t) = Some p" using ok Some Cb_user_timer by (auto simp: timer_ok_def)
      have "quiet_timers ?s0 (case p of None \<Rightarrow> ?s0 | Some m \<Rightarrow> if tm_when t \<noteq> 0 then emit_timer (Info_message ?c m) ?s0 else ?s0)"
        using quiet_emit [of "Info_message ?c _"] by (auto split: option.split)
      moreover have "timer_callback env a t (tm_when t) s
          = Some (case p of None \<Rightarrow> ?s0 | Some m \<Rightarrow> if tm_when t \<noteq> 0 then emit_timer (Info_message ?c m) ?s0 else ?s0)"
        using Some Cb_user_timer p by (simp add: timer_callback_def Let_def user_timer_cb_def)
      ultimately show ?thesis using quiet [OF Some] by blast
    qed
  qed
qed

section \<open>Checking the timers\<close>

definition advances :: "timer_state \<Rightarrow> bool" where
  "advances s \<longleftrightarrow> (\<forall>a t n. tm_timers s a = Some t \<longrightarrow> rearm t = Some n \<longrightarrow> 0 < n)"

text \<open>A check that still has to look at the timers \<open>bs\<close> of \<open>s\<close> ends in \<open>s'\<close> with the new events \<open>evs\<close>.\<close>

definition checked :: "int \<Rightarrow> timer_state \<Rightarrow> nat list \<Rightarrow> timer_state \<Rightarrow> timer_event list \<Rightarrow> bool" where
  "checked now s bs s' evs \<longleftrightarrow>
     tm_events s' = tm_events s @ evs
   \<and> (\<forall>c. tm_conns s' c = None \<longleftrightarrow> tm_conns s c = None)
   \<and> advances s' \<and> tm_fresh s \<le> tm_fresh s'
   \<and> (\<forall>b t. tm_timers s' b = Some t \<longrightarrow> tm_fresh s \<le> b \<or> tm_timers s b = Some t \<and> \<not> (b \<in> set bs \<and> tm_when t < now))
   \<and> (\<forall>b t. tm_timers s b = Some t \<longrightarrow> \<not> (b \<in> set bs \<and> tm_when t < now) \<longrightarrow> tm_timers s' b = Some t)
   \<and> distinct (map fst (called evs)) \<and> sorted (map snd (called evs))
   \<and> (\<forall>b w. (b, w) \<in> set (called evs) \<longrightarrow> bs \<noteq> [] \<and> when_of s (hd bs) \<le> w
        \<and> (b < tm_fresh s \<longrightarrow> b \<in> set bs \<and> w = when_of s b \<and> w < now))
   \<and> (\<forall>b \<in> set bs. \<forall>t. tm_timers s b = Some t \<longrightarrow> tm_when t < now \<longrightarrow> tm_cb t \<noteq> None \<longrightarrow> (b, tm_when t) \<in> set (called evs))"

lemma checkedD:
  assumes "checked now s bs s' evs"
  shows "tm_events s' = tm_events s @ evs" "\<And>c. tm_conns s' c = None \<longleftrightarrow> tm_conns s c = None" "advances s'"
    "tm_fresh s \<le> tm_fresh s'"
    "\<And>b t. tm_timers s' b = Some t \<Longrightarrow> tm_fresh s \<le> b \<or> tm_timers s b = Some t \<and> \<not> (b \<in> set bs \<and> tm_when t < now)"
    "\<And>b t. tm_timers s b = Some t \<Longrightarrow> \<not> (b \<in> set bs \<and> tm_when t < now) \<Longrightarrow> tm_timers s' b = Some t"
    "distinct (map fst (called evs))" "sorted (map snd (called evs))"
    "\<And>b w. (b, w) \<in> set (called evs) \<Longrightarrow> bs \<noteq> [] \<and> when_of s (hd bs) \<le> w
        \<and> (b < tm_fresh s \<longrightarrow> b \<in> set bs \<and> w = when_of s b \<and> w < now)"
    "\<And>b t. b \<in> set bs \<Longrightarrow> tm_timers s b = Some t \<Longrightarrow> tm_when t < now \<Longrightarrow> tm_cb t \<noteq> None \<Longrightarrow> (b, tm_when t) \<in> set (called evs)"
  using assms unfolding checked_def by blast+

definition backlog :: "int \<Rightarrow> timer_state \<Rightarrow> nat list \<Rightarrow> nat" where
  "backlog now s bs = sum_list (map (\<lambda>b. nat (now - when_of s b)) bs)"

lemma checked_stop:
  assumes "timer_rep s (as @ bs) ys" "advances s" "bs = [] \<or> now \<le> when_of s (hd bs)"
  shows "checked now s bs s []"
proof -
  have "now \<le> when_of s b" if "b \<in> set bs" for b
  proof -
    obtain x xs where bs: "bs = x # xs" using \<open>b \<in> set bs\<close> by (cases bs) auto
    have "sorted (map (when_of s) bs)" using timer_repD(5) [OF assms(1)] by (simp add: sorted_append)
    then have "when_of s x \<le> when_of s b" using that bs by auto
    then show ?thesis using assms(3) bs by simp
  qed
  then show ?thesis using assms(2) by (force simp: checked_def when_of_def)
qed

text \<open>One expired timer: what the next step looks at.\<close>

lemma expire_step:
  assumes rep: "timer_rep s (as @ a # cs) ys" and t: "tm_timers s a = Some t" and due: "tm_when t < now" and adv: "advances s"
  shows "\<exists>s2 as2 bs2 ys2 ev. check_timer env now (Timer_timers a) s = Some (True, s2) \<and> timer_rep s2 (as2 @ bs2) ys2
    \<and> right_of Timerlist_head (map Timer_timers bs2) = right_of Timerlist_head (map Timer_timers cs) \<and> advances s2
    \<and> backlog now s2 bs2 < backlog now s (a # cs) \<and> tm_events s2 = tm_events s @ ev
    \<and> called ev = (if tm_cb t = None then [] else [(a, tm_when t)]) \<and> (\<forall>c. tm_conns s2 c = None \<longleftrightarrow> tm_conns s c = None)
    \<and> tm_fresh s \<le> tm_fresh s2 \<and> tm_timers s2 a = None \<and> a < tm_fresh s
    \<and> (\<forall>b < tm_fresh s. b \<noteq> a \<longrightarrow> tm_timers s2 b = tm_timers s b)
    \<and> (\<forall>b < tm_fresh s. b \<in> set bs2 \<longleftrightarrow> b \<in> set cs) \<and> (\<forall>b \<in> set bs2. tm_when t \<le> when_of s2 b)"
proof -
  obtain s1 bs1 ys1 ev where s1: "timer_callback env a t (tm_when t) s = Some s1" "timer_rep s1 (as @ a # bs1) ys1"
      "after_callback s t cs s1 bs1" "tm_events s1 = tm_events s @ ev"
      "called ev = (if tm_cb t = None then [] else [(a, tm_when t)])" "\<forall>c. tm_conns s1 c = None \<longleftrightarrow> tm_conns s c = None"
    using timer_callback_rep [OF rep t] by blast
  have fr: "b < tm_fresh s" if "b \<in> set (as @ a # cs)" for b
    using timer_repD(3,6) [OF rep] that by (metis domD)
  have af: "a < tm_fresh s" using fr by simp
  have t1: "tm_timers s1 a = Some t" using s1(3) t af by (auto simp: after_callback_def)
  obtain s2 cs2 where s2: "drop_timer a s1 = Some s2" "timer_rep s2 (as @ bs1) (ys1(tm_owner t := cs2))"
      "tm_timers s2 = (tm_timers s1)(a := None)" "tm_conns s2 = tm_conns s1" "tm_events s2 = tm_events s1" "tm_fresh s2 = tm_fresh s1"
    using drop_timer_rep [OF s1(2) t1] by blast
  have chk: "check_timer env now (Timer_timers a) s = Some (True, s2)" using t due s1(1) s2(1) by (simp add: check_timer_def)
  have na: "a \<notin> set cs" using timer_repD(7) [OF rep] by simp
  have keep: "\<forall>b < tm_fresh s. b \<noteq> a \<longrightarrow> tm_timers s2 b = tm_timers s b" using s1(3) s2(3) by (auto simp: after_callback_def)
  have wk: "when_of s2 b = when_of s b" if "b \<in> set cs" for b using keep fr [of b] that na by (auto simp: when_of_def)
  have wt: "when_of s a = tm_when t" using t by (simp add: when_of_def)
  have so: "tm_when t \<le> when_of s b" if "b \<in> set cs" for b
    using timer_repD(5) [OF rep] that wt by (auto simp: sorted_append)
  have adv2: "advances s2" using adv s1(3) s2(3) t unfolding advances_def after_callback_def
    by (auto split: if_splits)
  have bl: "backlog now s2 cs = backlog now s cs" unfolding backlog_def using wk by (metis (mono_tags, lifting) map_eq_conv)
  have dp: "0 < nat (now - tm_when t)" using due by simp
  consider "bs1 = cs" "tm_timers s1 = tm_timers s" "tm_fresh s1 = tm_fresh s"
    | us vs n where "cs = us @ vs" "bs1 = us @ tm_fresh s # vs" "rearm t = Some n" "tm_fresh s1 = tm_fresh s + 1"
        "tm_timers s1 = (tm_timers s)(tm_fresh s \<mapsto> t\<lparr>tm_when := tm_when t + int n\<rparr>)"
    using s1(3) unfolding after_callback_def by blast
  then show ?thesis
  proof cases
    case 1
    have "backlog now s2 cs < backlog now s (a # cs)" unfolding bl using dp wt by (simp add: backlog_def)
    then show ?thesis using chk s2 s1 1 adv2 keep af so wk
      by (intro exI [of _ s2] exI [of _ as] exI [of _ cs] exI [of _ "ys1(tm_owner t := cs2)"] exI [of _ ev]) auto
  next
    case (2 us vs n)
    have np: "0 < n" using adv t 2(3) by (auto simp: advances_def)
    have wf: "when_of s2 (tm_fresh s) = tm_when t + int n" using 2(5) s2(3) af by (simp add: when_of_def)
    have fv: "tm_fresh s \<notin> set (us @ vs)" using fr [of "tm_fresh s"] 2(1) by auto
    show ?thesis
    proof (cases us)
      case Nil
      have r: "timer_rep s2 ((as @ [tm_fresh s]) @ vs) (ys1(tm_owner t := cs2))" using s2(2) 2(2) Nil by simp
      have "backlog now s2 vs < backlog now s (a # cs)" using bl dp wt 2(1) Nil by (simp add: backlog_def)
      then show ?thesis using chk r s2 s1 2 Nil adv2 keep af so wk
        by (intro exI [of _ s2] exI [of _ "as @ [tm_fresh s]"] exI [of _ vs] exI [of _ "ys1(tm_owner t := cs2)"] exI [of _ ev]) auto
    next
      case (Cons u us')
      have "backlog now s2 (us @ tm_fresh s # vs) = backlog now s2 cs + nat (now - (tm_when t + int n))"
        using 2(1) wf by (simp add: backlog_def)
      then have "backlog now s2 (us @ tm_fresh s # vs) < backlog now s (a # cs)"
        using bl dp wt np by (simp add: backlog_def)
      then show ?thesis using chk s2 s1 2 Cons adv2 keep af so wk wf
        by (intro exI [of _ s2] exI [of _ as] exI [of _ "us @ tm_fresh s # vs"] exI [of _ "ys1(tm_owner t := cs2)"] exI [of _ ev]) auto
    qed
  qed
qed


lemma checked_step:
  assumes rep: "timer_rep s (as @ a # cs) ys" and t: "tm_timers s a = Some t" and due: "tm_when t < now"
    and ev: "tm_events s2 = tm_events s @ ev" "called ev = (if tm_cb t = None then [] else [(a, tm_when t)])"
    and k: "\<forall>c. tm_conns s2 c = None \<longleftrightarrow> tm_conns s c = None" "tm_fresh s \<le> tm_fresh s2" "tm_timers s2 a = None" "a < tm_fresh s"
      "\<forall>b < tm_fresh s. b \<noteq> a \<longrightarrow> tm_timers s2 b = tm_timers s b" "\<forall>b < tm_fresh s. b \<in> set bs2 \<longleftrightarrow> b \<in> set cs"
      "\<forall>b \<in> set bs2. tm_when t \<le> when_of s2 b"
    and c: "checked now s2 bs2 s' evs"
  shows "checked now s (a # cs) s' (ev @ evs)"
proof -
  have fr: "b < tm_fresh s" if "tm_timers s b = Some u" for b u using timer_repD(6) [OF rep that] by blast
  have na: "a \<notin> set cs" using timer_repD(7) [OF rep] by simp
  have wk: "when_of s2 b = when_of s b" if "b < tm_fresh s" "b \<noteq> a" for b using k(5) that by (simp add: when_of_def)
  have wa: "when_of s a = tm_when t" using t by (simp add: when_of_def)
  note C = checkedD [OF c]
  have c8: "bs2 \<noteq> []" "when_of s2 (hd bs2) \<le> w" "b < tm_fresh s2 \<Longrightarrow> b \<in> set bs2" "b < tm_fresh s2 \<Longrightarrow> w = when_of s2 b"
      "b < tm_fresh s2 \<Longrightarrow> w < now" if "(b, w) \<in> set (called evs)" for b w
    using C(9) [OF that] by blast+
  have later: "tm_when t \<le> w" "b \<noteq> a" "b < tm_fresh s \<Longrightarrow> b \<in> set cs" "b < tm_fresh s \<Longrightarrow> w = when_of s b" "b < tm_fresh s \<Longrightarrow> w < now"
    if "(b, w) \<in> set (called evs)" for b w
  proof -
    note e = c8 [OF that]
    have "hd bs2 \<in> set bs2" using e(1) by simp
    then show "tm_when t \<le> w" using e(2) k(7) by fastforce
    show n: "b \<noteq> a" using e(3) k(2,4,6) na by auto
    assume b: "b < tm_fresh s"
    then have b2: "b < tm_fresh s2" using k(2) by simp
    show "b \<in> set cs" using e(3) [OF b2] k(6) b by blast
    show "w = when_of s b" using e(4) [OF b2] wk [OF b n] by simp
    show "w < now" using e(5) [OF b2] .
  qed
  show ?thesis
    unfolding checked_def
  proof (intro conjI allI impI ballI)
    show "tm_events s' = tm_events s @ ev @ evs" using C(1) ev(1) by simp
    show "tm_conns s' x = None \<longleftrightarrow> tm_conns s x = None" for x using C(2) k(1) by blast
    show "advances s'" by (rule C(3))
    show "tm_fresh s \<le> tm_fresh s'" using C(4) k(2) by linarith
  next
    fix b u assume b: "tm_timers s' b = Some u"
    then have o: "tm_fresh s2 \<le> b \<or> tm_timers s2 b = Some u \<and> \<not> (b \<in> set bs2 \<and> tm_when u < now)" by (rule C(5))
    show "tm_fresh s \<le> b \<or> tm_timers s b = Some u \<and> \<not> (b \<in> set (a # cs) \<and> tm_when u < now)"
    proof (cases "b < tm_fresh s")
      case True
      then have o2: "tm_timers s2 b = Some u" "\<not> (b \<in> set bs2 \<and> tm_when u < now)" using o k(2) by auto
      then have "b \<noteq> a" using k(3) by auto
      then show ?thesis using o2 k(5,6) True by auto
    qed simp
  next
    fix b u assume b: "tm_timers s b = Some u" "\<not> (b \<in> set (a # cs) \<and> tm_when u < now)"
    then have "b \<noteq> a" using t due by auto
    then have "tm_timers s2 b = Some u" "\<not> (b \<in> set bs2 \<and> tm_when u < now)" using b fr [OF b(1)] k(5,6) by auto
    then show "tm_timers s' b = Some u" by (rule C(6))
  next
    note C(7,8)
    moreover have "a \<notin> fst ` set (called evs)" "\<forall>w \<in> snd ` set (called evs). tm_when t \<le> w" using later(1,2) by force+
    ultimately show "distinct (map fst (called (ev @ evs)))" "sorted (map snd (called (ev @ evs)))" using ev(2) by auto
  next
    fix b w assume m: "(b, w) \<in> set (called (ev @ evs))"
    show "a # cs \<noteq> []" by simp
    show "when_of s (hd (a # cs)) \<le> w" using m later(1) ev(2) wa by (auto split: if_splits)
    show "b \<in> set (a # cs)" if "b < tm_fresh s" using m later(3) ev(2) that by (auto split: if_splits)
    show "w = when_of s b" if "b < tm_fresh s" using m later(4) ev(2) that wa by (auto split: if_splits)
    show "w < now" if "b < tm_fresh s" using m later(5) ev(2) that due by (auto split: if_splits)
  next
    fix b u assume m: "b \<in> set (a # cs)" "tm_timers s b = Some u" "tm_when u < now" "tm_cb u \<noteq> None"
    show "(b, tm_when u) \<in> set (called (ev @ evs))"
    proof (cases "b = a")
      case True
      then show ?thesis using m t ev(2) by auto
    next
      case False
      then have "b \<in> set bs2" "tm_timers s2 b = Some u" using m fr [OF m(2)] k(5,6) by auto
      then have "(b, tm_when u) \<in> set (called evs)" using C(10) m(3,4) by blast
      then show ?thesis by simp
    qed
  qed
qed

lemma check_loop_spec:
  "timer_rep s (as @ bs) ys \<Longrightarrow> advances s \<Longrightarrow> bs = [] \<or> save = right_of Timerlist_head (map Timer_timers (tl bs)) \<Longrightarrow>
   \<exists>s' xs' ys' evs. check_timers_loop env now (right_of Timerlist_head (map Timer_timers bs)) save s = Some (Some s')
     \<and> timer_rep s' xs' ys' \<and> checked now s bs s' evs"
proof (induction "backlog now s bs" arbitrary: s as bs ys save rule: less_induct)
  case less
  show ?case
  proof (cases bs)
    case Nil
    then show ?thesis using less.prems checked_stop [OF less.prems(1,2), of now]
      by (auto simp: check_timers_loop.simps intro!: exI [of _ s])
  next
    case (Cons a cs)
    obtain t where t: "tm_timers s a = Some t" using timer_repD(3) [OF less.prems(1)] Cons by auto
    have wt: "when_of s a = tm_when t" using t by (simp add: when_of_def)
    show ?thesis
    proof (cases "tm_when t < now")
      case False
      have "check_timers_loop env now (Timer_timers a) save s = Some (Some s)"
        using t False by (simp add: check_timers_loop.simps check_timer_def)
      then show ?thesis using less.prems(1) checked_stop [OF less.prems(1,2), of now] Cons False wt by auto
    next
      case True
      have rep: "timer_rep s (as @ a # cs) ys" using less.prems(1) Cons by simp
      obtain s2 as2 bs2 ys2 ev where s2: "check_timer env now (Timer_timers a) s = Some (True, s2)" "timer_rep s2 (as2 @ bs2) ys2"
          "right_of Timerlist_head (map Timer_timers bs2) = right_of Timerlist_head (map Timer_timers cs)" "advances s2"
          "backlog now s2 bs2 < backlog now s (a # cs)" "tm_events s2 = tm_events s @ ev"
          "called ev = (if tm_cb t = None then [] else [(a, tm_when t)])" "\<forall>c. tm_conns s2 c = None \<longleftrightarrow> tm_conns s c = None"
          "tm_fresh s \<le> tm_fresh s2" "tm_timers s2 a = None" "a < tm_fresh s"
          "\<forall>b < tm_fresh s. b \<noteq> a \<longrightarrow> tm_timers s2 b = tm_timers s b" "\<forall>b < tm_fresh s. b \<in> set bs2 \<longleftrightarrow> b \<in> set cs"
          "\<forall>b \<in> set bs2. tm_when t \<le> when_of s2 b"
        using expire_step [OF rep t True less.prems(2), of env] by blast
      have r2: "ring (tm_links s2) Timerlist_head (map Timer_timers as2 @ map Timer_timers bs2)" using timer_repD(1) [OF s2(2)] by simp
      obtain save' where sv: "elist_next (tm_links s2) (right_of Timerlist_head (map Timer_timers bs2)) = Some save'"
          "bs2 = [] \<or> save' = right_of Timerlist_head (map Timer_timers (tl bs2))"
      proof (cases bs2)
        case Nil
        have "elist_next (tm_links s2) Timerlist_head = Some (right_of Timerlist_head (map Timer_timers (as2 @ bs2)))"
          using ring_around(1) [of _ _ "[]"] r2 by (metis append_Nil left_of_snoc(2) map_append)
        then show ?thesis using that Nil by simp
      next
        case (Cons d ds)
        then show ?thesis using that ring_at(1) [of "tm_links s2" Timerlist_head "map Timer_timers as2" "Timer_timers d"] r2 by simp
      qed
      obtain s' xs' ys' evs where IH: "check_timers_loop env now (right_of Timerlist_head (map Timer_timers bs2)) save' s2 = Some (Some s')"
          "timer_rep s' xs' ys'" "checked now s2 bs2 s' evs"
        using less.hyps [OF _ s2(2,4) sv(2)] s2(5) Cons by blast
      have "check_timers_loop env now (Timer_timers a) save s = Some (Some s')"
        using s2(1,3) sv(1) IH(1) less.prems(3) Cons by (subst check_timers_loop.simps) simp
      moreover have "checked now s bs s' (ev @ evs)" using checked_step [OF rep t True s2(6-14) IH(3)] Cons by simp
      ultimately show ?thesis using IH(2) Cons by auto
    qed
  qed
qed

section \<open>Removing the timers of a connection\<close>

lemma callback_zero:
  assumes "timer_ok t" "tm_conns s (tm_owner t) \<noteq> None"
  shows "timer_callback env a t 0 s = Some (if tm_cb t = None then s else emit_timer (Callback a 0) s)"
proof (cases "tm_cb t")
  case (Some cb)
  then show ?thesis using assms
    by (cases cb) (auto simp: timer_callback_def Let_def conn_test_latency_def conn_send_nullmsg_def conn_shutdown_def
        user_timer_cb_def timer_ok_def split: option.split)
qed (simp add: timer_callback_def)

lemma del_all_loop_spec:
  "timer_rep s xs ys \<Longrightarrow> ys c = zs \<Longrightarrow> tm_conns s c \<noteq> None \<Longrightarrow> zs = [] \<or> save = right_of (Conn_timers c) (map Timer_owners (tl zs)) \<Longrightarrow>
   \<exists>s' xs' ys' evs. del_all_loop env (Conn_timers c) (right_of (Conn_timers c) (map Timer_owners zs)) save s = Some s'
     \<and> timer_rep s' xs' ys' \<and> ys' c = [] \<and> tm_conns s' = tm_conns s \<and> tm_fresh s' = tm_fresh s
     \<and> tm_timers s' = (\<lambda>b. if b \<in> set zs then None else tm_timers s b) \<and> tm_events s' = tm_events s @ evs"
proof (induction zs arbitrary: s xs ys save)
  case Nil
  then show ?case by (intro exI [of _ s] exI [of _ xs] exI [of _ ys]) (simp add: del_all_loop.simps)
next
  case (Cons a cs)
  note r = timer_repD [OF Cons.prems(1)]
  have "a \<in> set (ys c)" using Cons.prems(2) by simp
  then obtain t where t: "tm_timers s a = Some t" "tm_owner t = c" using r(4) [of c] by auto
  then have "a \<in> set xs" using r(3) by auto
  then obtain as bs where xs: "xs = as @ a # bs" using split_list by metis
  define s1 where "s1 = (if tm_cb t = None then s else emit_timer (Callback a 0) s)"
  have cb: "timer_callback env a t 0 s = Some s1" unfolding s1_def by (rule callback_zero) (use r(6) [OF t(1)] in auto)
  have st: "same_timers s s1" by (simp add: s1_def)
  have sc: "tm_conns s1 = tm_conns s" by (simp add: s1_def emit_timer_def)
  have ev: "tm_events s1 = tm_events s @ (if tm_cb t = None then [] else [Callback a 0])" by (simp add: s1_def emit_timer_def)
  have rep1: "timer_rep s1 (as @ a # bs) ys" using same_timers_rep [OF st] Cons.prems(1) xs by simp
  have t1: "tm_timers s1 a = Some t" using t st by (simp add: same_timers_def)
  obtain s2 where s2: "drop_timer a s1 = Some s2" "timer_rep s2 (as @ bs) (ys(c := remove1 a (ys c)))"
      "tm_timers s2 = (tm_timers s1)(a := None)" "tm_conns s2 = tm_conns s1" "tm_events s2 = tm_events s1" "tm_fresh s2 = tm_fresh s1"
    using drop_timer_rep [OF rep1 t1] t(2) by blast
  have y2: "(ys(c := remove1 a (ys c))) c = cs" using Cons.prems(2) by simp
  have l2: "tm_conns s2 c \<noteq> None" using Cons.prems(3) s2(4) sc by simp
  have rg: "ring (tm_links s2) (Conn_timers c) (map Timer_owners cs)" using timer_repD(2) [OF s2(2) l2] y2 by simp
  have na: "a \<notin> set cs" using r(2) [OF Cons.prems(3)] Cons.prems(2) by (auto simp: ring_def)
  obtain save' where sv: "elist_next (tm_links s2) (right_of (Conn_timers c) (map Timer_owners cs)) = Some save'"
      "cs = [] \<or> save' = right_of (Conn_timers c) (map Timer_owners (tl cs))"
  proof (cases cs)
    case Nil
    then show ?thesis using that ring_around(1) [of "tm_links s2" "Conn_timers c" "[]" "map Timer_owners cs"] rg by simp
  next
    case (Cons d ds)
    then show ?thesis using that ring_at(1) [of "tm_links s2" "Conn_timers c" "[]" "Timer_owners d"] rg by simp
  qed
  obtain s' xs' ys' evs where IH: "del_all_loop env (Conn_timers c) (right_of (Conn_timers c) (map Timer_owners cs)) save' s2 = Some s'"
      "timer_rep s' xs' ys'" "ys' c = []" "tm_conns s' = tm_conns s2" "tm_fresh s' = tm_fresh s2"
      "tm_timers s' = (\<lambda>b. if b \<in> set cs then None else tm_timers s2 b)" "tm_events s' = tm_events s2 @ evs"
    using Cons.IH [OF s2(2) y2 l2 sv(2)] by blast
  have "del_all_loop env (Conn_timers c) (Timer_owners a) save s = Some s'"
    using t cb s2(1) sv(1) IH(1) Cons.prems(4) by (subst del_all_loop.simps) simp
  moreover have "tm_timers s' = (\<lambda>b. if b \<in> set (a # cs) then None else tm_timers s b)"
    using IH(6) s2(3) st by (auto simp: same_timers_def fun_eq_iff)
  ultimately show ?case using IH s2 st sc ev by (auto simp: same_timers_def)
qed

lemma del_all_rep:
  assumes rep: "timer_rep s xs ys" and c: "tm_conns s c \<noteq> None"
  shows "\<exists>s' xs' ys' evs. timerlist_del_all_timers env (Some c) s = Some (0, s') \<and> timer_rep s' xs' ys' \<and> tm_conns s' = tm_conns s
     \<and> tm_timers s' = (\<lambda>b. case tm_timers s b of None \<Rightarrow> None | Some t \<Rightarrow> if tm_owner t = c then None else Some t)
     \<and> tm_events s' = tm_events s @ evs"
proof -
  note r = timer_repD [OF rep]
  have rg: "ring (tm_links s) (Conn_timers c) (map Timer_owners (ys c))" by (rule r(2) [OF c])
  have first: "elist_next (tm_links s) (Conn_timers c) = Some (right_of (Conn_timers c) (map Timer_owners (ys c)))"
    using ring_around(1) [of "tm_links s" "Conn_timers c" "[]"] rg by simp
  obtain save where sv: "elist_next (tm_links s) (right_of (Conn_timers c) (map Timer_owners (ys c))) = Some save"
      "ys c = [] \<or> save = right_of (Conn_timers c) (map Timer_owners (tl (ys c)))"
  proof (cases "ys c")
    case Nil
    then show ?thesis using that first by simp
  next
    case (Cons d ds)
    then show ?thesis using that ring_at(1) [of "tm_links s" "Conn_timers c" "[]" "Timer_owners d"] rg by simp
  qed
  obtain s' xs' ys' evs where d: "del_all_loop env (Conn_timers c) (right_of (Conn_timers c) (map Timer_owners (ys c))) save s = Some s'"
      "timer_rep s' xs' ys'" "tm_conns s' = tm_conns s" "tm_timers s' = (\<lambda>b. if b \<in> set (ys c) then None else tm_timers s b)"
      "tm_events s' = tm_events s @ evs"
    using del_all_loop_spec [OF rep refl c sv(2)] by blast
  have "tm_timers s' = (\<lambda>b. case tm_timers s b of None \<Rightarrow> None | Some t \<Rightarrow> if tm_owner t = c then None else Some t)"
    using d(4) r(4) [of c] by (auto simp: fun_eq_iff split: option.split)
  moreover obtain cn where "tm_conns s c = Some cn" using c by blast
  ultimately show ?thesis using d first sv(1) by (auto simp: timerlist_del_all_timers_def)
qed

end
