(* ===== verification/Timer_Reach.thy ===== *)
theory Timer_Reach
  imports Timer_Props
begin

text \<open>
  The timers over the life of the server: connections come, set timers, change their class and go, and the
  main loop checks the timers. In every state reached this way the lists and the timers agree and a check
  calls exactly the timers that have expired.
\<close>

section \<open>Connections come and go\<close>

text \<open>
  The parts of \<open>conn_create\<close> and \<open>conn_destroy\<close> that touch the timers. The memory of a new connection is
  fresh, its links hold no defined value before \<open>elist_init\<close>.
\<close>

definition conn_create_timers :: "nat \<Rightarrow> u16 \<Rightarrow> timer_state \<Rightarrow> timer_state option" where
  "conn_create_timers c port s = do {
     l \<leftarrow> elist_init (Conn_timers c) ((tm_links s)(Conn_timers c \<mapsto> (Timerlist_head, Timerlist_head)));
     Some (s\<lparr>tm_links := l, tm_conns := (tm_conns s)(c \<mapsto> \<lparr>tc_class = conn_class_init, tc_state = conn_state_initial,
       tc_ircping = 0, tc_in_game = False, tc_game_port = port\<rparr>)\<rparr>) }"

definition conn_destroy_timers :: "timer_env \<Rightarrow> nat \<Rightarrow> timer_state \<Rightarrow> timer_state option" where
  "conn_destroy_timers env c s = do {
     _ \<leftarrow> tm_conns s c;
     (_, s1) \<leftarrow> timerlist_del_all_timers env (Some c)
       (upd_tconn c (\<lambda>cn. cn\<lparr>tc_in_game := False, tc_state := conn_state_empty\<rparr>) s);
     Some (s1\<lparr>conn_dead := remove1 c (conn_dead s1), tm_links := (tm_links s1)(Conn_timers c := None),
       tm_conns := (tm_conns s1)(c := None)\<rparr>) }"

text \<open>The timer that closes a connection which has not said what it is (\<open>sd_accept\<close>); a delay of 0 sets none.\<close>

definition initkill_timer :: "nat \<Rightarrow> int \<Rightarrow> nat \<Rightarrow> timer_state \<Rightarrow> timer_state option" where
  "initkill_timer c now delay s = (if delay \<noteq> 0
     then map_option snd (timerlist_add_timer (Some c) (now + int delay) (Some Cb_shutdown) (Timer_p None) s) else Some s)"

text \<open>The end of the timer command: \<open>delta\<close> is the duration, \<open>msg\<close> the copy of the text that it sends.\<close>

definition set_user_timer :: "nat \<Rightarrow> int \<Rightarrow> nat \<Rightarrow> cstring \<Rightarrow> timer_state \<Rightarrow> timer_state option" where
  "set_user_timer c now delta msg s =
     map_option snd (timerlist_add_timer (Some c) (now + int delta) (Some Cb_user_timer) (Timer_p (Some msg)) s)"

section \<open>Good states\<close>

definition timers_good :: "timer_state \<Rightarrow> bool" where
  "timers_good s \<longleftrightarrow> (\<exists>xs ys. timer_rep s xs ys) \<and> advances s"

lemma timers_goodI: "timer_rep s xs ys \<Longrightarrow> advances s \<Longrightarrow> timers_good s"
  unfolding timers_good_def by blast

definition same_conns :: "timer_state \<Rightarrow> timer_state \<Rightarrow> bool" where
  "same_conns s s' \<longleftrightarrow> (\<forall>c. tm_conns s' c = None \<longleftrightarrow> tm_conns s c = None)"

text \<open>A step that returns a good state with the same connections.\<close>

definition keeps_good :: "timer_state \<Rightarrow> timer_state option \<Rightarrow> bool" where
  "keeps_good s r \<longleftrightarrow> (\<exists>s'. r = Some s' \<and> timers_good s' \<and> same_conns s s')"

lemma keeps_good_bind:
  assumes "keeps_good s r" "\<And>s'. timers_good s' \<Longrightarrow> same_conns s s' \<Longrightarrow> keeps_good s' (f s')"
  shows "keeps_good s (Option.bind r f)"
  using assms unfolding keeps_good_def same_conns_def by fastforce

lemma keeps_good_Some: "timers_good s' \<Longrightarrow> same_conns s s' \<Longrightarrow> keeps_good s (Some s')"
  by (simp add: keeps_good_def)

lemma keeps_good_quiet: "keeps_good s0 r \<Longrightarrow> quiet_timers s s0 \<Longrightarrow> keeps_good s r"
  unfolding keeps_good_def same_conns_def quiet_timers_def same_timers_def by auto

lemma good_quiet: "quiet_timers s s' \<Longrightarrow> timers_good s \<Longrightarrow> timers_good s'"
  unfolding timers_good_def quiet_timers_def using same_timers_rep [of s s']
  by (auto simp: advances_def same_timers_def)

lemma quiet_timers_conns: "quiet_timers s s' \<Longrightarrow> same_conns s s'"
  by (simp add: quiet_timers_def same_timers_def same_conns_def)

lemma keeps_good_add:
  assumes "timers_good s" "tm_conns s c \<noteq> None" "timer_ok \<lparr>tm_owner = c, tm_when = w, tm_cb = cb, tm_data = d\<rparr>"
    "rearm \<lparr>tm_owner = c, tm_when = w, tm_cb = cb, tm_data = d\<rparr> \<noteq> Some 0"
  shows "keeps_good s (map_option snd (timerlist_add_timer (Some c) w cb d s))"
proof -
  obtain xs ys where rep: "timer_rep s xs ys" and adv: "advances s" using assms(1) by (auto simp: timers_good_def)
  obtain as bs where xs: "xs = as @ bs" "\<forall>a \<in> set as. when_of s a \<le> w" "\<forall>b \<in> set bs. w < when_of s b"
    using insert_place [OF timer_repD(5) [OF rep]] .
  have rep': "timer_rep s (as @ bs) ys" using rep xs(1) by simp
  obtain s' where s': "timerlist_add_timer (Some c) w cb d s = Some (0, s')"
      "timer_rep s' (as @ tm_fresh s # bs) (ys(c := ys c @ [tm_fresh s]))"
      "tm_timers s' = (tm_timers s)(tm_fresh s \<mapsto> \<lparr>tm_owner = c, tm_when = w, tm_cb = cb, tm_data = d\<rparr>)" "tm_conns s' = tm_conns s"
    using add_timer_rep [OF rep' assms(2,3) xs(2,3)] by blast
  have "advances s'" using adv s'(3) assms(4) by (auto simp: advances_def)
  then show ?thesis using s' by (auto simp: keeps_good_def timers_good_def same_conns_def)
qed

lemma keeps_good_del_all:
  assumes "timers_good s" "tm_conns s c \<noteq> None"
  shows "keeps_good s (map_option snd (timerlist_del_all_timers env (Some c) s))"
proof -
  obtain xs ys where rep: "timer_rep s xs ys" and adv: "advances s" using assms(1) by (auto simp: timers_good_def)
  obtain s' xs' ys' where s': "timerlist_del_all_timers env (Some c) s = Some (0, s')" "timer_rep s' xs' ys'" "tm_conns s' = tm_conns s"
      "tm_timers s' = (\<lambda>b. case tm_timers s b of None \<Rightarrow> None | Some t \<Rightarrow> if tm_owner t = c then None else Some t)"
    using del_all_rep [OF rep assms(2), of env] by blast
  have "advances s'" using adv s'(4) by (auto simp: advances_def split: option.splits if_splits)
  then show ?thesis using s' by (auto simp: keeps_good_def timers_good_def same_conns_def)
qed

lemma conns_kept: "same_conns s s' \<Longrightarrow> tm_conns s c \<noteq> None \<Longrightarrow> tm_conns s' c \<noteq> None"
  by (simp add: same_conns_def)

section \<open>Each operation\<close>

lemma good_create:
  assumes "timers_good s" "tm_conns s c = None"
  shows "\<exists>s'. conn_create_timers c port s = Some s' \<and> timers_good s' \<and> tm_timers s' = tm_timers s"
proof -
  obtain xs ys where rep: "timer_rep s xs ys" and adv: "advances s" using assms(1) by (auto simp: timers_good_def)
  note r = timer_repD [OF rep]
  let ?l = "(tm_links s)(Conn_timers c \<mapsto> (Timerlist_head, Timerlist_head))"
  obtain l where l: "elist_init (Conn_timers c) ?l = Some l" "ring l (Conn_timers c) []" "changes_only {Conn_timers c} ?l l"
    using elist_init_ring [of ?l "Conn_timers c"] by auto
  have "set (ys c) = {}" unfolding r(4) using r(6) assms(2) by blast
  then have no: "ys c = []" by simp
  have same: "l x = tm_links s x" if "x \<noteq> Conn_timers c" for x using l(3) that by (simp add: changes_only_def)
  let ?s = "s\<lparr>tm_links := l, tm_conns := (tm_conns s)(c \<mapsto> \<lparr>tc_class = conn_class_init, tc_state = conn_state_initial,
       tc_ircping = 0, tc_in_game = False, tc_game_port = port\<rparr>)\<rparr>"
  have "timer_rep ?s xs ys"
    unfolding timer_rep_def
  proof (intro conjI allI impI)
    show "ring (tm_links ?s) Timerlist_head (map Timer_timers xs)" using r(1) same by (subst ring_cong [of _ _ _ "tm_links s"]) auto
    show "ring (tm_links ?s) (Conn_timers k) (map Timer_owners (ys k))" if k: "tm_conns ?s k \<noteq> None" for k
    proof (cases "k = c")
      case True
      then show ?thesis using l(2) no by simp
    next
      case False
      then have "tm_conns s k \<noteq> None" using k by simp
      then show ?thesis using r(2) [of k] same False by (subst ring_cong [of _ _ _ "tm_links s"]) auto
    qed
    show "sorted (map (when_of ?s) xs)" using r(5) by (simp add: when_of_def [abs_def])
    fix a t assume "tm_timers ?s a = Some t"
    then show "a < tm_fresh ?s" "tm_conns ?s (tm_owner t) \<noteq> None" "timer_ok t" using r(6) [of a t] by auto
  qed (use r(3,4) in auto)
  then have "timers_good ?s" by (rule timers_goodI) (use adv in \<open>simp add: advances_def\<close>)
  then show ?thesis using l(1) by (simp add: conn_create_timers_def)
qed

lemma good_destroy:
  assumes "timers_good s" "tm_conns s c \<noteq> None"
  shows "\<exists>s'. conn_destroy_timers env c s = Some s' \<and> timers_good s' \<and> (\<forall>a t. tm_timers s' a = Some t \<longrightarrow> tm_owner t \<noteq> c)"
proof -
  let ?s0 = "upd_tconn c (\<lambda>cn. cn\<lparr>tc_in_game := False, tc_state := conn_state_empty\<rparr>) s"
  have q: "quiet_timers s ?s0" by simp
  have g: "timers_good ?s0" by (rule good_quiet [OF q assms(1)])
  then obtain xs ys where rep: "timer_rep ?s0 xs ys" and adv: "advances ?s0" by (auto simp: timers_good_def)
  have lc: "tm_conns ?s0 c \<noteq> None" using conns_kept [OF quiet_timers_conns [OF q] assms(2)] .
  obtain s1 xs1 ys1 where s1: "timerlist_del_all_timers env (Some c) ?s0 = Some (0, s1)" "timer_rep s1 xs1 ys1" "tm_conns s1 = tm_conns ?s0"
      "tm_timers s1 = (\<lambda>b. case tm_timers ?s0 b of None \<Rightarrow> None | Some t \<Rightarrow> if tm_owner t = c then None else Some t)"
    using del_all_rep [OF rep lc, of env] by blast
  have ow: "tm_owner t \<noteq> c" if "tm_timers s1 a = Some t" for a t using that s1(4) by (auto split: option.splits if_splits)
  note r = timer_repD [OF s1(2)]
  let ?s = "s1\<lparr>conn_dead := remove1 c (conn_dead s1), tm_links := (tm_links s1)(Conn_timers c := None), tm_conns := (tm_conns s1)(c := None)\<rparr>"
  have "timer_rep ?s xs1 ys1"
    unfolding timer_rep_def
  proof (intro conjI allI impI)
    show "ring (tm_links ?s) Timerlist_head (map Timer_timers xs1)" using r(1) by (subst ring_cong [of _ _ _ "tm_links s1"]) auto
    show "ring (tm_links ?s) (Conn_timers k) (map Timer_owners (ys1 k))" if k: "tm_conns ?s k \<noteq> None" for k
    proof -
      have "k \<noteq> c" "tm_conns s1 k \<noteq> None" using k by (auto split: if_splits)
      then show ?thesis using r(2) [of k] by (subst ring_cong [of _ _ _ "tm_links s1"]) auto
    qed
    show "sorted (map (when_of ?s) xs1)" using r(5) by (simp add: when_of_def [abs_def])
    fix a t assume "tm_timers ?s a = Some t"
    then show "a < tm_fresh ?s" "tm_conns ?s (tm_owner t) \<noteq> None" "timer_ok t" using r(6) [of a t] ow [of a t] by auto
  qed (use r(3,4) in auto)
  moreover have "advances ?s" using adv s1(4) by (auto simp: advances_def split: option.splits if_splits)
  ultimately have "timers_good ?s" by (rule timers_goodI)
  then show ?thesis using s1(1) ow assms(2) by (auto simp: conn_destroy_timers_def)
qed

lemma good_set_class:
  assumes g: "timers_good s" and c: "tm_conns s c \<noteq> None" and lat: "0 < te_latency env"
  shows "keeps_good s (conn_set_class env c cclass s)"
proof -
  obtain cn where cn: "tm_conns s c = Some cn" using c by blast
  let ?s0 = "upd_tconn c (\<lambda>cn. cn\<lparr>tc_class := cclass\<rparr>) s"
  let ?drop = "\<lambda>s. if tc_class cn = conn_class_init then map_option snd (timerlist_del_all_timers env (Some c) s) else Some s"
  let ?arm = "\<lambda>cb n s. map_option snd (timerlist_add_timer (Some c) (te_now env + int n) (Some cb) (Timer_n n) s)"
  have drop: "keeps_good u (?drop u)" if "timers_good u" "tm_conns u c \<noteq> None" for u
    using keeps_good_del_all [OF that] that(1) by (auto simp: keeps_good_def same_conns_def)
  have arm: "keeps_good u (?arm cb n u)" if "timers_good u" "tm_conns u c \<noteq> None" "0 < n" "cb = Cb_test_latency \<or> cb = Cb_send_nullmsg" for u cb n
    using that(3,4) by (intro keeps_good_add [OF that(1,2)]) (auto simp: timer_ok_def rearm_def data_n_def)
  have q0: "quiet_timers s ?s0" by simp
  have g0: "timers_good ?s0" "tm_conns ?s0 c \<noteq> None" using good_quiet [OF q0 g] conns_kept [OF quiet_timers_conns [OF q0] c] by auto
  have bnet: "keeps_good s (do { s2 \<leftarrow> ?drop (emit_timer (Udptest_send c) u); ?arm Cb_test_latency (te_latency env) s2 })"
    if u: "quiet_timers s u" for u
  proof -
    have qu: "quiet_timers s (emit_timer (Udptest_send c) u)" using quiet_trans_timers [OF u quiet_emit] by simp
    have gu: "timers_good (emit_timer (Udptest_send c) u)" "tm_conns (emit_timer (Udptest_send c) u) c \<noteq> None"
      using good_quiet [OF qu g] conns_kept [OF quiet_timers_conns [OF qu] c] by auto
    show ?thesis
    proof (rule keeps_good_quiet [OF keeps_good_bind [OF drop [OF gu]] qu])
      fix s' assume s': "timers_good s'" "same_conns (emit_timer (Udptest_send c) u) s'"
      show "keeps_good s' (?arm Cb_test_latency (te_latency env) s')"
        by (rule arm) (use s'(1) conns_kept [OF s'(2) gu(2)] lat in auto)
    qed
  qed
  have bot: "keeps_good s (do { s1 \<leftarrow> r; s2 \<leftarrow> ?drop s1; Some (emit_timer (Ask_username c) (emit_timer (Send_issue c) s2)) })"
    if r: "keeps_good ?s0 r" for r
  proof (rule keeps_good_quiet [OF keeps_good_bind [OF r] q0])
    fix s1 assume s1: "timers_good s1" "same_conns ?s0 s1"
    show "keeps_good s1 (do { s2 \<leftarrow> ?drop s1; Some (emit_timer (Ask_username c) (emit_timer (Send_issue c) s2)) })"
    proof (rule keeps_good_bind [OF drop])
      fix s2 assume "timers_good s2"
      moreover have "quiet_timers s2 (emit_timer (Ask_username c) (emit_timer (Send_issue c) s2))"
        using quiet_trans_timers [OF quiet_emit quiet_emit] by simp
      ultimately show "keeps_good s2 (Some (emit_timer (Ask_username c) (emit_timer (Send_issue c) s2)))"
        using good_quiet quiet_timers_conns keeps_good_Some by blast
    qed (use s1 conns_kept [OF s1(2) g0(2)] in auto)
  qed
  show ?thesis
  proof (cases "tc_class cn = cclass")
    case True
    then show ?thesis using g cn by (simp add: conn_set_class_def keeps_good_def same_conns_def)
  next
    case False
    have null: "keeps_good ?s0 (if cclass = conn_class_bot \<and> te_nullmsg env > 0 then ?arm Cb_send_nullmsg (te_nullmsg env) ?s0 else Some ?s0)"
      using arm [OF g0, of "te_nullmsg env" Cb_send_nullmsg] keeps_good_Some [OF g0(1), of ?s0]
      by (auto simp: same_conns_def simp del: map_option_eq_Some)
    have other: "keeps_good s (?arm Cb_test_latency (te_latency env) ?s0)" "keeps_good s (?drop ?s0)"
      using keeps_good_quiet [OF arm [OF g0 lat] q0] keeps_good_quiet [OF drop [OF g0] q0] by auto
    have port: "quiet_timers s (if te_udptest_port env \<noteq> 0 then upd_tconn c (\<lambda>cn. cn\<lparr>tc_game_port := te_udptest_port env\<rparr>) ?s0 else ?s0)"
      using quiet_trans_timers [OF q0 quiet_upd] by simp
    note b = bnet [OF port] and bo = bot [OF null]
    show ?thesis
      using b bo other by (simp only: conn_set_class_def cn bind.bind_lunit Let_def if_not_P [OF False] split: if_split) auto
  qed
qed

section \<open>Shutting down\<close>

partial_function (option) destroy_loop :: "timer_node \<Rightarrow> timer_node \<Rightarrow> timer_state \<Rightarrow> timer_state option" where
  "destroy_loop pos save s = (if pos = Timerlist_head then Some s
     else Option.bind (entry_timers pos) (\<lambda>a. Option.bind (tm_timers s a) (\<lambda>t. Option.bind (drop_timer a s) (\<lambda>s2.
       Option.bind (elist_next (tm_links s2) save) (\<lambda>save'. destroy_loop save save' s2)))))"

definition timerlist_destroy :: "timer_state \<Rightarrow> (int \<times> timer_state) option" where
  "timerlist_destroy s = do {
     pos \<leftarrow> elist_next (tm_links s) Timerlist_head;
     save \<leftarrow> elist_next (tm_links s) pos;
     s1 \<leftarrow> destroy_loop pos save s;
     l \<leftarrow> elist_init Timerlist_head (tm_links s1);
     Some (0, s1\<lparr>tm_links := l\<rparr>) }"

text \<open>The first two links that a loop over all timers follows.\<close>

lemma timers_first:
  assumes "timer_rep s xs ys"
  obtains save where "elist_next (tm_links s) Timerlist_head = Some (right_of Timerlist_head (map Timer_timers xs))"
    "elist_next (tm_links s) (right_of Timerlist_head (map Timer_timers xs)) = Some save"
    "xs = [] \<or> save = right_of Timerlist_head (map Timer_timers (tl xs))"
proof -
  note r = timer_repD(1) [OF assms]
  have first: "elist_next (tm_links s) Timerlist_head = Some (right_of Timerlist_head (map Timer_timers xs))"
    using ring_around(1) [of "tm_links s" Timerlist_head "[]"] r by simp
  show ?thesis
  proof (cases xs)
    case Nil
    then show ?thesis using that first by simp
  next
    case (Cons d ds)
    then show ?thesis using that first ring_at(1) [of "tm_links s" Timerlist_head "[]" "Timer_timers d"] r by simp
  qed
qed

lemma destroy_loop_spec:
  "timer_rep s xs ys \<Longrightarrow> xs = [] \<or> save = right_of Timerlist_head (map Timer_timers (tl xs)) \<Longrightarrow>
   \<exists>s' ys'. destroy_loop (right_of Timerlist_head (map Timer_timers xs)) save s = Some s' \<and> timer_rep s' [] ys'"
proof (induction xs arbitrary: s ys save)
  case Nil
  then show ?case by (auto simp: destroy_loop.simps)
next
  case (Cons a cs)
  obtain t where t: "tm_timers s a = Some t" using timer_repD(3) [OF Cons.prems(1)] by auto
  obtain s2 ys2 where s2: "drop_timer a s = Some s2" "timer_rep s2 cs ys2"
    using drop_timer_rep [of s "[]" a cs ys t] Cons.prems(1) t by auto
  obtain save' where sv: "elist_next (tm_links s2) (right_of Timerlist_head (map Timer_timers cs)) = Some save'"
      "cs = [] \<or> save' = right_of Timerlist_head (map Timer_timers (tl cs))"
    using timers_first [OF s2(2)] by metis
  obtain s' ys' where "destroy_loop (right_of Timerlist_head (map Timer_timers cs)) save' s2 = Some s'" "timer_rep s' [] ys'"
    using Cons.IH [OF s2(2) sv(2)] by blast
  then show ?case using t s2(1) sv(1) Cons.prems(2) by (subst destroy_loop.simps) auto
qed

text \<open>\<open>timerlist_destroy\<close> frees every timer without calling it and leaves an empty list.\<close>

lemma timerlist_destroy_frees:
  assumes "timers_good s"
  shows "\<exists>s'. timerlist_destroy s = Some (0, s') \<and> tm_timers s' = Map.empty \<and> elist_empty (tm_links s') Timerlist_head = Some True"
proof -
  obtain xs ys where rep: "timer_rep s xs ys" using assms by (auto simp: timers_good_def)
  obtain save where sv: "elist_next (tm_links s) Timerlist_head = Some (right_of Timerlist_head (map Timer_timers xs))"
      "elist_next (tm_links s) (right_of Timerlist_head (map Timer_timers xs)) = Some save"
      "xs = [] \<or> save = right_of Timerlist_head (map Timer_timers (tl xs))"
    using timers_first [OF rep] .
  obtain s1 ys1 where s1: "destroy_loop (right_of Timerlist_head (map Timer_timers xs)) save s = Some s1" "timer_rep s1 [] ys1"
    using destroy_loop_spec [OF rep sv(3)] by blast
  have "tm_links s1 Timerlist_head \<noteq> None" using timer_repD(1) [OF s1(2)] by (auto simp: ring_def elist_next_def)
  then obtain l where l: "elist_init Timerlist_head (tm_links s1) = Some l" "ring l Timerlist_head []"
    using elist_init_ring [of "tm_links s1" Timerlist_head] by blast
  have "dom (tm_timers s1) = {}" using timer_repD(3) [OF s1(2)] by simp
  then have "tm_timers s1 = Map.empty" by blast
  then show ?thesis using sv(1,2) s1(1) l elist_empty_ring [OF l(2)] by (simp add: timerlist_destroy_def)
qed

section \<open>Reachable states\<close>

definition no_timers :: timer_state where
  "no_timers = \<lparr>tm_links = Map.empty, tm_timers = Map.empty, tm_fresh = 0, tm_conns = Map.empty, conn_dead = [], tm_events = []\<rparr>"

inductive timer_step :: "timer_state \<Rightarrow> timer_state \<Rightarrow> bool" where
  step_create: "tm_conns s c = None \<Longrightarrow> conn_create_timers c port s = Some s' \<Longrightarrow> timer_step s s'"
| step_destroy: "tm_conns s c \<noteq> None \<Longrightarrow> conn_destroy_timers env c s = Some s' \<Longrightarrow> timer_step s s'"
| step_initkill: "tm_conns s c \<noteq> None \<Longrightarrow> initkill_timer c now delay s = Some s' \<Longrightarrow> timer_step s s'"
| step_user: "tm_conns s c \<noteq> None \<Longrightarrow> set_user_timer c now delta msg s = Some s' \<Longrightarrow> timer_step s s'"
| step_state: "tm_conns s c \<noteq> None \<Longrightarrow> conn_set_state c st s = Some s' \<Longrightarrow> timer_step s s'"
| step_class: "tm_conns s c \<noteq> None \<Longrightarrow> 0 < te_latency env \<Longrightarrow> conn_set_class env c cclass s = Some s' \<Longrightarrow> timer_step s s'"
| step_irc: "tm_conns s c \<noteq> None \<Longrightarrow> 0 < n \<Longrightarrow> conn_test_latency env c now (Timer_n n) s = Some s' \<Longrightarrow> timer_step s s'"
| step_check: "timerlist_check_timers env now s = Some (Some s') \<Longrightarrow> timer_step s s'"

inductive timers_reachable :: "timer_state \<Rightarrow> bool" where
  reach_start: "timerlist_create no_timers = Some (r, s) \<Longrightarrow> timers_reachable s"
| reach_step: "timers_reachable s \<Longrightarrow> timer_step s s' \<Longrightarrow> timers_reachable s'"

lemma keeps_good_initkill: "timers_good s \<Longrightarrow> tm_conns s c \<noteq> None \<Longrightarrow> keeps_good s (initkill_timer c now delay s)"
  using keeps_good_add [of s c "now + int delay" "Some Cb_shutdown" "Timer_p None"] keeps_good_Some [of s s]
  by (simp add: initkill_timer_def timer_ok_def rearm_def same_conns_def)

lemma keeps_good_user: "timers_good s \<Longrightarrow> tm_conns s c \<noteq> None \<Longrightarrow> keeps_good s (set_user_timer c now delta msg s)"
  unfolding set_user_timer_def by (rule keeps_good_add) (simp_all add: timer_ok_def rearm_def data_p_def)

lemma keeps_good_state: "timers_good s \<Longrightarrow> tm_conns s c \<noteq> None \<Longrightarrow> keeps_good s (conn_set_state c st s)"
  using set_state_quiet [of s c st] good_quiet quiet_timers_conns unfolding keeps_good_def by blast

lemma keeps_good_test:
  assumes g: "timers_good s" and c: "tm_conns s c \<noteq> None" and n: "0 < n"
  shows "keeps_good s (conn_test_latency env c now (Timer_n n) s)"
proof -
  obtain cn where cn: "tm_conns s c = Some cn" using c by blast
  obtain s1 where s1: "send_latency_test env c s = Some s1" "quiet_timers s s1" using latency_test_quiet [OF c] by blast
  have c1: "tm_conns s1 c \<noteq> None" by (rule conns_kept [OF quiet_timers_conns [OF s1(2)] c])
  have "keeps_good s1 (map_option snd (timerlist_add_timer (Some c) (now + int n) (Some Cb_test_latency) (Timer_n n) s1))"
    by (rule keeps_good_add [OF good_quiet [OF s1(2) g] c1]) (use n in \<open>simp_all add: timer_ok_def rearm_def data_n_def\<close>)
  then have "keeps_good s (map_option snd (timerlist_add_timer (Some c) (now + int n) (Some Cb_test_latency) (Timer_n n) s1))"
    by (rule keeps_good_quiet [OF _ s1(2)])
  moreover have "keeps_good s (Some s)" by (rule keeps_good_Some [OF g]) (simp add: same_conns_def)
  moreover have "Option.bind r (\<lambda>(_, y). Some y) = map_option snd r" for r :: "(int \<times> timer_state) option"
    by (cases r) auto
  ultimately show ?thesis using cn s1(1) by (simp add: conn_test_latency_def data_n_def)
qed

lemma check_good:
  assumes "timers_good s"
  shows "\<exists>s' xs evs. timerlist_check_timers env now s = Some (Some s') \<and> timers_good s' \<and> set xs = dom (tm_timers s) \<and> checked now s xs s' evs"
proof -
  obtain xs ys where rep: "timer_rep s xs ys" and adv: "advances s" using assms by (auto simp: timers_good_def)
  note r = timer_repD [OF rep]
  obtain save where sv: "elist_next (tm_links s) Timerlist_head = Some (right_of Timerlist_head (map Timer_timers xs))"
      "elist_next (tm_links s) (right_of Timerlist_head (map Timer_timers xs)) = Some save"
      "xs = [] \<or> save = right_of Timerlist_head (map Timer_timers (tl xs))"
    using timers_first [OF rep] .
  have rep': "timer_rep s ([] @ xs) ys" using rep by simp
  obtain s' xs' ys' evs where c: "check_timers_loop env now (right_of Timerlist_head (map Timer_timers xs)) save s = Some (Some s')"
      "timer_rep s' xs' ys'" "checked now s xs s' evs"
    using check_loop_spec [OF rep' adv sv(3)] by blast
  have "timers_good s'" using c(2) checkedD(3) [OF c(3)] by (rule timers_goodI)
  then show ?thesis using c sv(1,2) r(3) by (auto simp: timerlist_check_timers_def)
qed

lemma start_good: "\<exists>s. timerlist_create no_timers = Some (0, s) \<and> timers_good s"
proof -
  have "timerlist_create no_timers = Some (0, no_timers\<lparr>tm_links := [Timerlist_head \<mapsto> (Timerlist_head, Timerlist_head)]\<rparr>)"
    by (simp add: timerlist_create_def elist_init_def set_link_simps no_timers_def)
  moreover have "timer_rep (no_timers\<lparr>tm_links := [Timerlist_head \<mapsto> (Timerlist_head, Timerlist_head)]\<rparr>) [] (\<lambda>c. [])"
    by (simp add: timer_rep_def no_timers_def ring_def elist_next_def elist_prev_def)
  then have "timers_good (no_timers\<lparr>tm_links := [Timerlist_head \<mapsto> (Timerlist_head, Timerlist_head)]\<rparr>)"
    by (rule timers_goodI) (simp add: advances_def no_timers_def)
  ultimately show ?thesis by blast
qed

lemma keeps_goodD: "r = Some s' \<Longrightarrow> keeps_good s r \<Longrightarrow> timers_good s'"
  by (auto simp: keeps_good_def)

lemma step_good: "timer_step s s' \<Longrightarrow> timers_good s \<Longrightarrow> timers_good s'"
proof (induction rule: timer_step.induct)
  case (step_create s c port s')
  then show ?case using good_create [of s c port] by auto
next
  case (step_destroy s c env s')
  then show ?case using good_destroy [of s c env] by auto
next
  case (step_check env now s s')
  then show ?case using check_good [of s env now] by auto
qed (erule keeps_goodD, rule good_set_class keeps_good_test keeps_good_initkill keeps_good_user keeps_good_state, assumption+)+

lemma reach_good: "timers_reachable s \<Longrightarrow> timers_good s"
  by (induction rule: timers_reachable.induct) (use start_good step_good in auto)

section \<open>Properties\<close>

text \<open>
  C6. In every reachable state the list of all timers, read from its head, holds every timer once, in the
  order of their times, and the list of each connection holds exactly its own timers; so no timer is left
  behind when its connection goes, and every operation on a connection returns without touching freed memory.
\<close>

theorem timers_consistent:
  assumes "timers_reachable s"
  shows "(\<exists>pos xs. elist_next (tm_links s) Timerlist_head = Some pos
      \<and> elist_for_each (tm_links s) Timerlist_head pos = Some (map Timer_timers xs) \<and> distinct xs
      \<and> set xs = dom (tm_timers s) \<and> sorted (map (\<lambda>a. tm_when (the (tm_timers s a))) xs))
    \<and> (\<forall>a t. tm_timers s a = Some t \<longrightarrow> tm_conns s (tm_owner t) \<noteq> None)
    \<and> (\<forall>c. tm_conns s c \<noteq> None \<longrightarrow>
         (\<exists>pos ys. elist_next (tm_links s) (Conn_timers c) = Some pos
           \<and> elist_for_each (tm_links s) (Conn_timers c) pos = Some (map Timer_owners ys) \<and> distinct ys
           \<and> set ys = {a. \<exists>t. tm_timers s a = Some t \<and> tm_owner t = c})
       \<and> (\<forall>env. \<exists>s'. conn_destroy_timers env c s = Some s' \<and> tm_conns s' c = None
           \<and> (\<forall>a t. tm_timers s' a = Some t \<longrightarrow> tm_owner t \<noteq> c))
       \<and> (\<forall>now n msg. initkill_timer c now n s \<noteq> None \<and> set_user_timer c now n msg s \<noteq> None)
       \<and> (\<forall>st. conn_set_state c st s \<noteq> None)
       \<and> (\<forall>env cclass. 0 < te_latency env \<longrightarrow> conn_set_class env c cclass s \<noteq> None))"
proof (intro conjI allI impI)
  have g: "timers_good s" using assms by (rule reach_good)
  then obtain xs ys where rep: "timer_rep s xs ys" unfolding timers_good_def by blast
  note r = timer_repD [OF rep]
  show "\<exists>pos xs. elist_next (tm_links s) Timerlist_head = Some pos
      \<and> elist_for_each (tm_links s) Timerlist_head pos = Some (map Timer_timers xs) \<and> distinct xs
      \<and> set xs = dom (tm_timers s) \<and> sorted (map (\<lambda>a. tm_when (the (tm_timers s a))) xs)"
    using ring_around(1) [of "tm_links s" Timerlist_head "[]" "map Timer_timers xs"] for_each_ring [OF r(1)] r(1,3,5,7)
    by (auto simp: when_of_def [abs_def])
  show "tm_conns s (tm_owner t) \<noteq> None" if "tm_timers s a = Some t" for a t using r(6) [OF that] by blast
  fix c assume c: "tm_conns s c \<noteq> None"
  have "distinct (ys c)" using r(2) [OF c] by (auto simp: ring_def distinct_map)
  then show "\<exists>pos ys. elist_next (tm_links s) (Conn_timers c) = Some pos
      \<and> elist_for_each (tm_links s) (Conn_timers c) pos = Some (map Timer_owners ys) \<and> distinct ys
      \<and> set ys = {a. \<exists>t. tm_timers s a = Some t \<and> tm_owner t = c}"
    using ring_around(1) [of "tm_links s" "Conn_timers c" "[]" "map Timer_owners (ys c)"] for_each_ring [OF r(2) [OF c]] r(2) [OF c] r(4) [of c]
    by auto
  show "\<exists>s'. conn_destroy_timers env c s = Some s' \<and> tm_conns s' c = None \<and> (\<forall>a t. tm_timers s' a = Some t \<longrightarrow> tm_owner t \<noteq> c)" for env
    using good_destroy [OF g c, of env] by (auto simp: conn_destroy_timers_def split: bind_splits prod.splits)
  show "initkill_timer c now n s \<noteq> None" "set_user_timer c now n msg s \<noteq> None" "conn_set_state c st s \<noteq> None" for now n msg st
    using keeps_good_initkill [OF g c] keeps_good_user [OF g c] keeps_good_state [OF g c] unfolding keeps_good_def by blast+
  show "conn_set_class env c cclass s \<noteq> None" if "0 < te_latency env" for env cclass
    using good_set_class [OF g c that] unfolding keeps_good_def by blast
qed

text \<open>
  C5. In every reachable state a check of the timers returns; it calls every timer whose time has passed, once, with
  the time it was set to, in the order of the times, and removes it, and it neither calls nor removes any other.
\<close>

theorem timers_fire:
  assumes "timers_reachable s"
  shows "\<exists>s' evs. timerlist_check_timers env now s = Some (Some s') \<and> timers_reachable s' \<and> tm_events s' = tm_events s @ evs
    \<and> distinct (map fst (called evs)) \<and> sorted (map snd (called evs))
    \<and> (\<forall>a t. tm_timers s a = Some t \<and> tm_when t < now \<longrightarrow>
         tm_timers s' a = None \<and> (tm_cb t \<noteq> None \<longrightarrow> (a, tm_when t) \<in> set (called evs)))
    \<and> (\<forall>a t. tm_timers s a = Some t \<and> now \<le> tm_when t \<longrightarrow> tm_timers s' a = Some t \<and> a \<notin> fst ` set (called evs))"
proof -
  have g: "timers_good s" using assms by (rule reach_good)
  obtain s' xs evs where c: "timerlist_check_timers env now s = Some (Some s')" "set xs = dom (tm_timers s)" "checked now s xs s' evs"
    using check_good [OF g, of env now] by blast
  have r: "timers_reachable s'" using reach_step [OF assms step_check [OF c(1)]] .
  note C = checkedD [OF c(3)]
  have fr: "a < tm_fresh s \<and> a \<in> set xs" if "tm_timers s a = Some t" for a t
    using g c(2) that timer_repD(6) unfolding timers_good_def by blast
  have gone: "tm_timers s' a = None" if "tm_timers s a = Some t" "tm_when t < now" for a t
    using C(5) [of a] fr [OF that(1)] that by (cases "tm_timers s' a") auto
  have call: "(a, tm_when t) \<in> set (called evs)" if "tm_timers s a = Some t" "tm_when t < now" "tm_cb t \<noteq> None" for a t
    using C(10) fr that by blast
  have kept: "tm_timers s' a = Some t \<and> a \<notin> fst ` set (called evs)" if t: "tm_timers s a = Some t" "now \<le> tm_when t" for a t
  proof -
    have "(a, w) \<notin> set (called evs)" for w
      using C(9) [of a w] fr [OF t(1)] t by (auto simp: when_of_def)
    then show ?thesis using C(6) t by force
  qed
  show ?thesis using c(1) r C(1,7,8) gone call kept by blast
qed

section \<open>An example\<close>

definition timer_example :: "timer_state option" where
  "timer_example = do {
     (_, s0) \<leftarrow> timerlist_create no_timers;
     s1 \<leftarrow> conn_create_timers 7 6112 s0;
     s2 \<leftarrow> initkill_timer 7 100 60 s1;
     set_user_timer 7 100 5 ''hi'' s2 }"

lemma timer_example_reachable:
  "\<exists>s. timer_example = Some s \<and> timers_reachable s \<and> tm_conns s 7 \<noteq> None
    \<and> tm_timers s = [0 \<mapsto> \<lparr>tm_owner = 7, tm_when = 160, tm_cb = Some Cb_shutdown, tm_data = Timer_p None\<rparr>,
        1 \<mapsto> \<lparr>tm_owner = 7, tm_when = 105, tm_cb = Some Cb_user_timer, tm_data = Timer_p (Some ''hi'')\<rparr>]"
proof -
  obtain s0 where s0: "timerlist_create no_timers = Some (0, s0)" "timers_good s0" using start_good by blast
  have e0: "tm_conns s0 = Map.empty" "tm_timers s0 = Map.empty" "tm_fresh s0 = 0"
    using s0(1) by (auto simp: timerlist_create_def no_timers_def split: bind_splits)
  have r0: "timers_reachable s0" using reach_start [OF s0(1)] .
  obtain s1 where s1: "conn_create_timers 7 6112 s0 = Some s1" "timers_good s1" "tm_timers s1 = tm_timers s0"
    using good_create [OF s0(2), of 7 6112] e0 by auto
  have e1: "tm_conns s1 7 \<noteq> None" "tm_fresh s1 = 0" using s1(1) e0 by (auto simp: conn_create_timers_def split: bind_splits)
  have r1: "timers_reachable s1" using reach_step [OF r0 step_create] s1(1) e0(1) by simp
  obtain s2 where s2: "initkill_timer 7 100 60 s1 = Some s2" "timers_good s2" "same_conns s1 s2"
    using keeps_good_initkill [OF s1(2) e1(1), of 100 60] by (auto simp: keeps_good_def)
  have e2: "tm_conns s2 7 \<noteq> None" using conns_kept [OF s2(3) e1(1)] .
  have f2: "tm_fresh s2 = 1" "tm_timers s2 = [0 \<mapsto> \<lparr>tm_owner = 7, tm_when = 160, tm_cb = Some Cb_shutdown, tm_data = Timer_p None\<rparr>]"
    using s2(1) e1 s1(3) e0 by (auto simp: initkill_timer_def timerlist_add_timer_def Let_def split: bind_splits)
  have r2: "timers_reachable s2" using reach_step [OF r1 step_initkill [OF e1(1) s2(1)]] .
  obtain s3 where s3: "set_user_timer 7 100 5 ''hi'' s2 = Some s3" "timers_good s3" "same_conns s2 s3"
    using keeps_good_user [OF s2(2) e2, of 100 5] by (auto simp: keeps_good_def)
  have r3: "timers_reachable s3" using reach_step [OF r2 step_user [OF e2 s3(1)]] .
  have "tm_timers s3 = (tm_timers s2)(1 \<mapsto> \<lparr>tm_owner = 7, tm_when = 105, tm_cb = Some Cb_user_timer, tm_data = Timer_p (Some ''hi'')\<rparr>)"
    using s3(1) f2 by (auto simp: set_user_timer_def timerlist_add_timer_def Let_def split: bind_splits)
  then show ?thesis using s0(1) s1(1) s2(1) s3(1) r3 f2 conns_kept [OF s3(3) e2] by (simp add: timer_example_def)
qed

theorem timers_consistent_witness:
  "\<exists>s pos xs. timer_example = Some s \<and> elist_next (tm_links s) Timerlist_head = Some pos
    \<and> elist_for_each (tm_links s) Timerlist_head pos = Some (map Timer_timers xs) \<and> distinct xs \<and> set xs = {0, 1}"
proof -
  obtain s where s: "timer_example = Some s" "timers_reachable s" "dom (tm_timers s) = {0, 1}"
    using timer_example_reachable by (elim exE conjE) (simp add: insert_commute)
  from timers_consistent [OF s(2), THEN conjunct1] show ?thesis using s(1,3) by auto
qed

theorem timers_fire_witness:
  "\<exists>s s' evs. timer_example = Some s
    \<and> timerlist_check_timers \<lparr>te_now = 110, te_ticks = 0, te_latency = 600, te_nullmsg = 120, te_udptest_port = 0\<rparr> 110 s = Some (Some s')
    \<and> tm_events s' = tm_events s @ evs \<and> (1, 105) \<in> set (called evs) \<and> tm_timers s' 1 = None \<and> tm_timers s' 0 \<noteq> None"
proof -
  obtain s where s: "timer_example = Some s" "timers_reachable s"
      "tm_timers s 0 = Some \<lparr>tm_owner = 7, tm_when = 160, tm_cb = Some Cb_shutdown, tm_data = Timer_p None\<rparr>"
      "tm_timers s 1 = Some \<lparr>tm_owner = 7, tm_when = 105, tm_cb = Some Cb_user_timer, tm_data = Timer_p (Some ''hi'')\<rparr>"
    using timer_example_reachable by auto
  let ?env = "\<lparr>te_now = 110, te_ticks = 0, te_latency = 600, te_nullmsg = 120, te_udptest_port = 0\<rparr>"
  obtain s' evs where f: "timerlist_check_timers ?env 110 s = Some (Some s')" "tm_events s' = tm_events s @ evs"
      "\<forall>a t. tm_timers s a = Some t \<and> tm_when t < 110 \<longrightarrow> tm_timers s' a = None \<and> (tm_cb t \<noteq> None \<longrightarrow> (a, tm_when t) \<in> set (called evs))"
      "\<forall>a t. tm_timers s a = Some t \<and> 110 \<le> tm_when t \<longrightarrow> tm_timers s' a = Some t \<and> a \<notin> fst ` set (called evs)"
    using timers_fire [OF s(2), of ?env 110] by (elim exE conjE) blast
  have "(1, 105) \<in> set (called evs) \<and> tm_timers s' 1 = None" using f(3) [rule_format, OF conjI, OF s(4)] by simp
  moreover have "tm_timers s' 0 \<noteq> None" using f(4) [rule_format, OF conjI, OF s(3)] by simp
  ultimately show ?thesis using s(1) f(1,2) by blast
qed

section \<open>What the timers do not do\<close>

text \<open>
  A chat bot gets no null messages: \<open>conn_set_class\<close> sets the timer for them and then removes all timers
  of the new connection, this one with them.
\<close>

lemma bot_nullmsg_lost:
  assumes r: "timers_reachable s" and cn: "tm_conns s c = Some cn" and i: "tc_class cn = conn_class_init"
  shows "\<exists>s'. conn_set_class env c conn_class_bot s = Some s' \<and> (\<forall>a t. tm_timers s' a = Some t \<longrightarrow> tm_owner t \<noteq> c)"
proof -
  let ?s0 = "upd_tconn c (\<lambda>cn. cn\<lparr>tc_class := conn_class_bot\<rparr>) s"
  let ?r1 = "if te_nullmsg env > 0 then map_option snd (timerlist_add_timer (Some c) (te_now env + int (te_nullmsg env))
      (Some Cb_send_nullmsg) (Timer_n (te_nullmsg env)) ?s0) else Some ?s0"
  have q: "quiet_timers s ?s0" by simp
  have g: "timers_good ?s0" "tm_conns ?s0 c \<noteq> None"
    using good_quiet [OF q reach_good [OF r]] conns_kept [OF quiet_timers_conns [OF q]] cn by auto
  have "keeps_good ?s0 ?r1"
  proof (cases "te_nullmsg env > 0")
    case True
    then show ?thesis using keeps_good_add [OF g, of "te_now env + int (te_nullmsg env)" "Some Cb_send_nullmsg" "Timer_n (te_nullmsg env)"]
      by (simp add: timer_ok_def rearm_def data_n_def)
  qed (use keeps_good_Some [OF g(1), of ?s0] in \<open>simp add: same_conns_def\<close>)
  then obtain s1 where s1: "?r1 = Some s1" "timers_good s1" "same_conns ?s0 s1" unfolding keeps_good_def by blast
  obtain xs ys where rep: "timer_rep s1 xs ys" using s1(2) unfolding timers_good_def by blast
  obtain s2 where s2: "timerlist_del_all_timers env (Some c) s1 = Some (0, s2)"
      "tm_timers s2 = (\<lambda>b. case tm_timers s1 b of None \<Rightarrow> None | Some t \<Rightarrow> if tm_owner t = c then None else Some t)"
    using del_all_rep [OF rep conns_kept [OF s1(3) g(2)], of env] by blast
  have "conn_set_class env c conn_class_bot s = Some (emit_timer (Ask_username c) (emit_timer (Send_issue c) s2))"
    using cn i s1(1) s2(1) by (simp add: conn_set_class_def Let_def)
  moreover have "tm_owner t \<noteq> c" if "tm_timers (emit_timer (Ask_username c) (emit_timer (Send_issue c) s2)) a = Some t" for a t
    using that s2(2) by (auto simp: emit_timer_def split: option.splits if_splits)
  ultimately show ?thesis by blast
qed

text \<open>
  The preferences accept a latency of 0. Then two latency timers that have expired keep \<open>timerlist_check_timers\<close>
  in its loop for ever: each call sets the timer again to the same time, behind the one that is next.
\<close>

definition due_at :: "int \<Rightarrow> timer_state \<Rightarrow> bool" where
  "due_at w s \<longleftrightarrow> (\<forall>a t. tm_timers s a = Some t \<longrightarrow> tm_when t = w \<and> tm_cb t = Some Cb_test_latency \<and> tm_data t = Timer_n 0)
     \<and> (\<forall>c cn. tm_conns s c = Some cn \<longrightarrow> tc_class cn = conn_class_w3route \<and> tc_state cn \<noteq> conn_state_destroy)"

lemma due_step:
  assumes rep: "timer_rep s (a # b # cs) ys" and d: "due_at w s" and w: "w \<noteq> 0" "w < now"
  shows "\<exists>s' n ys'. check_timer env now (Timer_timers a) s = Some (True, s') \<and> timer_rep s' (b # cs @ [n]) ys' \<and> due_at w s'"
proof -
  note r = timer_repD [OF rep]
  obtain t where t: "tm_timers s a = Some t" using r(3) by auto
  have tt: "tm_when t = w" "tm_cb t = Some Cb_test_latency" "tm_data t = Timer_n 0" using d t by (auto simp: due_at_def)
  let ?c = "tm_owner t" and ?s1 = "emit_timer (W3_echoreq (tm_owner t)) (emit_timer (Callback a w) s)"
  obtain cn where cn: "tm_conns s ?c = Some cn" using r(6) [OF t] by blast
  have cc: "tc_class cn = conn_class_w3route" "tc_state cn \<noteq> conn_state_destroy" using d cn by (auto simp: due_at_def)
  have e1: "tm_conns ?s1 = tm_conns s" "tm_timers ?s1 = tm_timers s" by (simp_all add: emit_timer_def)
  have "same_timers s ?s1" using same_timers_trans same_timers_simps(2) by blast
  then have rep1: "timer_rep ?s1 ((a # b # cs) @ []) ys" using same_timers_rep [of s ?s1] rep by simp
  have le: "\<forall>x \<in> set (a # b # cs). when_of ?s1 x \<le> w"
  proof
    fix x assume "x \<in> set (a # b # cs)"
    then obtain u where "tm_timers s x = Some u" using r(3) by blast
    then show "when_of ?s1 x \<le> w" using d e1(2) by (auto simp: when_of_def due_at_def)
  qed
  have lc: "tm_conns ?s1 ?c \<noteq> None" and ok: "timer_ok \<lparr>tm_owner = ?c, tm_when = w, tm_cb = Some Cb_test_latency, tm_data = Timer_n 0\<rparr>"
    using cn e1 by (auto simp: timer_ok_def data_n_def)
  obtain s2 ys2 where s2: "timerlist_add_timer (Some ?c) w (Some Cb_test_latency) (Timer_n 0) ?s1 = Some (0, s2)"
      "timer_rep s2 (a # b # cs @ [tm_fresh ?s1]) ys2"
      "tm_timers s2 = (tm_timers ?s1)(tm_fresh ?s1 \<mapsto> \<lparr>tm_owner = ?c, tm_when = w, tm_cb = Some Cb_test_latency, tm_data = Timer_n 0\<rparr>)"
      "tm_conns s2 = tm_conns ?s1"
    using add_timer_rep [OF rep1 lc ok le] by auto
  have "send_latency_test env ?c (emit_timer (Callback a w) s) = Some ?s1"
    using cn cc by (simp add: send_latency_test_def emit_timer_def)
  then have cb: "timer_callback env a t w s = Some s2"
    using tt cn cc s2(1) w(1) by (simp add: timer_callback_def Let_def conn_test_latency_def data_n_def emit_timer_def)
  have t2: "tm_timers s2 a = Some t" using s2(3) e1 t r(6) [OF t] by (auto simp: emit_timer_def)
  have rep2: "timer_rep s2 ([] @ a # (b # cs @ [tm_fresh ?s1])) ys2" using s2(2) by simp
  obtain s3 ys3 where s3: "drop_timer a s2 = Some s3" "timer_rep s3 (b # cs @ [tm_fresh ?s1]) ys3"
      "tm_timers s3 = (tm_timers s2)(a := None)" "tm_conns s3 = tm_conns s2"
    using drop_timer_rep [OF rep2 t2] by auto
  have "due_at w s3" using d s3(3,4) s2(3,4) e1 by (auto simp: due_at_def)
  moreover have "check_timer env now (Timer_timers a) s = Some (True, s3)"
    using t tt w(2) cb s3(1) by (simp add: check_timer_def)
  ultimately show ?thesis using s3(2) by blast
qed

lemma due_loop_for_ever:
  assumes "w \<noteq> 0" "check_timers_loop env now pos save s = Some r"
  shows "w < now \<longrightarrow> \<not> (\<exists>a b cs ys. pos = Timer_timers a \<and> save = Timer_timers b \<and> timer_rep s (a # b # cs) ys \<and> due_at w s)"
  using assms(2)
proof (rule check_timers_loop.raw_induct [rotated])
  fix loop env now pos save s r
  assume IH: "\<And>env now pos save s r. loop env now pos save s = Some r \<Longrightarrow>
      w < now \<longrightarrow> \<not> (\<exists>a b cs ys. pos = Timer_timers a \<and> save = Timer_timers b \<and> timer_rep s (a # b # cs) ys \<and> due_at w s)"
    and step: "(if pos = Timerlist_head then Some (Some s)
     else (case check_timer env now pos s of None \<Rightarrow> Some None
       | Some r \<Rightarrow> if fst r
           then (case elist_next (tm_links (snd r)) save of None \<Rightarrow> Some None
             | Some save' \<Rightarrow> loop env now save save' (snd r))
           else Some (Some (snd r)))) = Some r"
  show "w < now \<longrightarrow> \<not> (\<exists>a b cs ys. pos = Timer_timers a \<and> save = Timer_timers b \<and> timer_rep s (a # b # cs) ys \<and> due_at w s)"
  proof (intro impI notI)
    assume w: "w < now" and "\<exists>a b cs ys. pos = Timer_timers a \<and> save = Timer_timers b \<and> timer_rep s (a # b # cs) ys \<and> due_at w s"
    then obtain a b cs ys where h: "pos = Timer_timers a" "save = Timer_timers b" "timer_rep s (a # b # cs) ys" "due_at w s" by blast
    obtain s' n ys' where s': "check_timer env now (Timer_timers a) s = Some (True, s')" "timer_rep s' (b # cs @ [n]) ys'" "due_at w s'"
      using due_step [OF h(3,4) assms(1) w] by blast
    obtain d ds where d: "cs @ [n] = d # ds" by (cases cs) auto
    have "ring (tm_links s') Timerlist_head ([] @ Timer_timers b # map Timer_timers (d # ds))"
      using timer_repD(1) [OF s'(2)] d by simp
    from ring_at(1) [OF this] have nx: "elist_next (tm_links s') (Timer_timers b) = Some (Timer_timers d)" by simp
    then have "loop env now (Timer_timers b) (Timer_timers d) s' = Some r" using step h(1,2) s'(1) by simp
    from IH [OF this] show False using w s'(2,3) d by auto
  qed
qed

lemma zero_latency_never_returns:
  assumes rep: "timer_rep s (a # b # cs) ys" and d: "due_at w s" and w: "w \<noteq> 0" "w < now"
  shows "timerlist_check_timers env now s = None"
proof -
  have r: "ring (tm_links s) Timerlist_head (map Timer_timers (a # b # cs))" using timer_repD(1) [OF rep] .
  have "elist_next (tm_links s) Timerlist_head = Some (Timer_timers a)"
    using ring_around(1) [of "tm_links s" Timerlist_head "[]" "map Timer_timers (a # b # cs)"] r by simp
  moreover have "elist_next (tm_links s) (Timer_timers a) = Some (Timer_timers b)"
    using ring_at(1) [of "tm_links s" Timerlist_head "[]" "Timer_timers a"] r by simp
  moreover have "check_timers_loop env now (Timer_timers a) (Timer_timers b) s = None"
    using due_loop_for_ever [OF w(1), of env now "Timer_timers a" "Timer_timers b" s] rep d w(2)
    by (cases "check_timers_loop env now (Timer_timers a) (Timer_timers b) s") auto
  ultimately show ?thesis by (simp add: timerlist_check_timers_def)
qed

end
