(* ===== verification/Attr_File.thy ===== *)
theory Attr_File
  imports Str_Util
begin

text \<open>
  The attributes of an account and the plain text files that keep them: \<^verbatim>\<open>bnetd/attr.h\<close> and
  \<^verbatim>\<open>bnetd/file_plain.cpp\<close>. A file is the list of the lines \<open>file_get_line\<close> reads from it.
\<close>

section \<open>Attributes\<close>

record t_attr =
  attr_key :: cstring
  attr_val :: "cstring option"
  attr_dirty :: bool

definition attr_create :: "cstring \<Rightarrow> cstring option \<Rightarrow> t_attr" where
  "attr_create key val = \<lparr>attr_key = key, attr_val = val, attr_dirty = False\<rparr>"

definition attr_get_key :: "t_attr \<Rightarrow> cstring" where
  "attr_get_key attr = attr_key attr"

definition attr_get_val :: "t_attr \<Rightarrow> cstring option" where
  "attr_get_val attr = attr_val attr"

definition attr_get_dirty :: "t_attr \<Rightarrow> bool" where
  "attr_get_dirty attr = attr_dirty attr"

definition attr_clear_dirty :: "t_attr \<Rightarrow> t_attr" where
  "attr_clear_dirty attr = attr\<lparr>attr_dirty := False\<rparr>"

definition attr_set_dirty :: "t_attr \<Rightarrow> t_attr" where
  "attr_set_dirty attr = attr\<lparr>attr_dirty := True\<rparr>"

definition attr_set_val :: "t_attr \<Rightarrow> cstring option \<Rightarrow> t_attr" where
  "attr_set_val attr val = attr\<lparr>attr_val := val\<rparr>"

lemmas attr_defs = attr_create_def attr_get_key_def attr_get_val_def attr_get_dirty_def attr_clear_dirty_def
  attr_set_dirty_def attr_set_val_def

section \<open>Writing a file\<close>

text \<open>
  The first 20 characters of the name of the attributes that are not to be saved; the test looks at the
  escaped key, as the code does.
\<close>

definition char_default :: cstring where
  "char_default = ''BNET'' @ [CHR 0x5C] @ ''CharacterDefault'' @ [CHR 0x5C]"

definition attr_line :: "cstring \<Rightarrow> cstring \<Rightarrow> cstring" where
  "attr_line key val = [CHR 0x22] @ key @ [CHR 0x22, CHR ''='', CHR 0x22] @ val @ [CHR 0x22]"

fun plain_write_lines :: "t_attr list \<Rightarrow> cstring list" where
  "plain_write_lines [] = []"
| "plain_write_lines (attr # as) =
     (let key = escape_chars (Some (attr_get_key attr)) (length (attr_get_key attr));
          val = (case attr_get_val attr of None \<Rightarrow> None | Some v \<Rightarrow> escape_chars (Some v) (length v))
      in (case (key, val) of
            (Some k, Some v) \<Rightarrow> if take 20 char_default = take 20 k then [] else [attr_line k v]
          | _ \<Rightarrow> []) @ plain_write_lines as)"

text \<open>The file, whether it could be opened and closed, and the attributes with their marks cleared.\<close>

definition plain_write_attrs :: "bool \<Rightarrow> t_attr list \<Rightarrow> int \<times> cstring list option \<times> t_attr list" where
  "plain_write_attrs can_write as =
     (if \<not> can_write then (-1, None, as) else (0, Some (plain_write_lines as), map attr_clear_dirty as))"

section \<open>Reading a file\<close>

text \<open>The two formats of \<open>sscanf\<close>: a literal character, a set that must match something, white space.\<close>

definition c_isspace :: "char \<Rightarrow> bool" where
  "c_isspace c \<longleftrightarrow> c = CHR '' '' \<or> c = CHR 0x09 \<or> c = CHR 0x0A \<or> c = CHR 0x0B \<or> c = CHR 0x0C \<or> c = CHR 0x0D"

fun scan_lit :: "char \<Rightarrow> cstring \<Rightarrow> cstring option" where
  "scan_lit c [] = None"
| "scan_lit c (x # xs) = (if x = c then Some xs else None)"

definition scan_unquoted :: "cstring \<Rightarrow> (cstring \<times> cstring) option" where
  "scan_unquoted s = (let w = takeWhile (\<lambda>c. c \<noteq> CHR 0x22) s in
     if w = [] then None else Some (w, dropWhile (\<lambda>c. c \<noteq> CHR 0x22) s))"

definition scan_key :: "cstring \<Rightarrow> (cstring \<times> cstring) option" where
  "scan_key s = do { s1 \<leftarrow> scan_lit (CHR 0x22) s; scan_unquoted s1 }"

definition scan_key_val :: "cstring \<Rightarrow> (cstring \<times> cstring) option" where
  "scan_key_val s = do {
     (k, s1) \<leftarrow> scan_key s;
     s2 \<leftarrow> scan_lit (CHR 0x22) s1;
     s3 \<leftarrow> scan_lit (CHR ''='') (dropWhile c_isspace s2);
     s4 \<leftarrow> scan_lit (CHR 0x22) (dropWhile c_isspace s3);
     (v, _) \<leftarrow> scan_unquoted s4;
     Some (k, v) }"

text \<open>One line: the key and the value given to the callback, if any.\<close>

definition plain_read_line :: "cstring \<Rightarrow> (cstring \<times> cstring) option" where
  "plain_read_line buff =
     (if buff = [] \<or> hd buff = CHR ''#'' then None
      else if length buff < 6 then None
      else (case scan_key_val buff of
          Some (k, v) \<Rightarrow> Some (unescape k, unescape v)
        | None \<Rightarrow> (case scan_key buff of Some (k, _) \<Rightarrow> Some (unescape k, []) | None \<Rightarrow> None)))"

definition plain_read_attrs :: "cstring list option \<Rightarrow> int \<times> (cstring \<times> cstring) list" where
  "plain_read_attrs fl = (case fl of None \<Rightarrow> (-1, []) | Some ls \<Rightarrow> (0, List.map_filter plain_read_line ls))"

definition plain_read_attr :: "cstring list option \<Rightarrow> cstring \<Rightarrow> t_attr option" where
  "plain_read_attr fl key = None"

section \<open>Lines\<close>

lemma logical_line_join:
  "list_all (\<lambda>c. c \<noteq> CHR 0x0D \<and> c \<noteq> CHR 0x0A) l \<Longrightarrow> (if l = [] then prev else List.last l) \<noteq> CHR 0x5C \<Longrightarrow>
   logical_line (l @ CHR 0x0A # rest) acc prev = (acc @ l, False, rest)"
proof (induction l arbitrary: acc prev)
  case (Cons c cs)
  then show ?case by (cases "cs = []") auto
qed auto

lemma escape_chars_map: "escape_chars (Some s) (length s) = Some (concat (map escape_char s))"
  by (simp add: escape_chars_def)

lemma escape_printable: "list_all c_isprint (concat (map escape_char s))"
  by (rule list_all_concat_map) (rule c_isprint_escape_char)

lemma printable_no_newline: "c_isprint c \<Longrightarrow> c \<noteq> CHR 0x0D \<and> c \<noteq> CHR 0x0A"
  by (auto simp: c_isprint_def)

text \<open>What is written is read back as the same lines, whatever the values.\<close>

lemma written_line_is_line:
  assumes "l \<in> set (plain_write_lines as)"
  shows "logical_line (l @ CHR 0x0A # rest) [] (CHR 0x00) = (l, False, rest)"
proof -
  obtain k v where l: "l = attr_line (concat (map escape_char k)) (concat (map escape_char v))"
    using assms by (induction as) (auto simp: Let_def escape_chars_map split: option.splits if_splits)
  have "list_all c_isprint [CHR 0x22, CHR ''='']" by (simp add: c_isprint_def)
  then have "list_all c_isprint l" using escape_printable [of k] escape_printable [of v] by (simp add: l attr_line_def)
  then have "list_all (\<lambda>c. c \<noteq> CHR 0x0D \<and> c \<noteq> CHR 0x0A) l" by (rule list.pred_mono_strong) (rule printable_no_newline)
  moreover have "l \<noteq> []" "List.last l = CHR 0x22" by (simp_all add: l attr_line_def)
  ultimately show ?thesis using logical_line_join [of l "CHR 0x00" rest "[]"] by simp
qed

section \<open>Writing and reading\<close>

text \<open>Text without the double quote and without NUL is read back; a double quote ends the value early.\<close>

definition quote_free :: "cstring \<Rightarrow> bool" where
  "quote_free s \<longleftrightarrow> CHR 0x22 \<notin> set s \<and> CHR 0x00 \<notin> set s"

lemma escape_char_quote: "c \<noteq> CHR 0x22 \<Longrightarrow> CHR 0x22 \<notin> set (escape_char c)"
proof -
  assume c: "c \<noteq> CHR 0x22"
  have "CHR 0x22 \<notin> set (fmt_03o (of_char c))"
    using fmt_03o_digits [OF of_char_less [of c]] by (auto simp: list_all_iff c_isoct_def)
  then show ?thesis using c by (simp add: escape_char_def)
qed

lemma escape_quote_free: "quote_free s \<Longrightarrow> CHR 0x22 \<notin> set (concat (map escape_char s))"
proof -
  assume "quote_free s"
  then have "\<forall>c \<in> set s. CHR 0x22 \<notin> set (escape_char c)" using escape_char_quote by (metis quote_free_def)
  then show ?thesis by simp
qed

lemma escape_char_nonempty: "escape_char c \<noteq> []"
  by (simp add: escape_char_def)

lemma escape_nonempty: "concat (map escape_char s) = [] \<longleftrightarrow> s = []"
  using escape_char_nonempty by (cases s) auto

lemma scan_unquoted_quote:
  "CHR 0x22 \<notin> set w \<Longrightarrow> w \<noteq> [] \<Longrightarrow> scan_unquoted (w @ CHR 0x22 # s) = Some (w, CHR 0x22 # s)"
  unfolding scan_unquoted_def Let_def by (auto simp: takeWhile_append dropWhile_append)

lemma scan_unquoted_empty: "scan_unquoted (CHR 0x22 # s) = None"
  by (simp add: scan_unquoted_def)

lemma read_line_written:
  assumes k: "quote_free k" "k \<noteq> []" and v: "quote_free v"
  shows "plain_read_line (attr_line (concat (map escape_char k)) (concat (map escape_char v))) = Some (k, v)"
proof -
  let ?k = "concat (map escape_char k)" and ?v = "concat (map escape_char v)"
  have u: "unescape ?k = k" "unescape ?v = v" using k v unescape_escape by (simp_all add: quote_free_def)
  have n: "CHR 0x22 \<notin> set ?k" "CHR 0x22 \<notin> set ?v" using escape_quote_free k(1) v by blast+
  have ne: "?k \<noteq> []" using k(2) escape_nonempty by simp
  have key: "scan_key (attr_line ?k ?v) = Some (?k, CHR 0x22 # CHR ''='' # CHR 0x22 # ?v @ [CHR 0x22])"
    using scan_unquoted_quote [OF n(1) ne] by (simp add: scan_key_def attr_line_def)
  have sp: "\<not> c_isspace (CHR ''='')" "\<not> c_isspace (CHR 0x22)" by (simp_all add: c_isspace_def)
  have val: "scan_key_val (attr_line ?k ?v) = (if ?v = [] then None else Some (?k, ?v))"
    using scan_unquoted_quote [OF n(2), of "[]"] scan_unquoted_empty sp
    unfolding scan_key_val_def key by (auto simp del: concat_eq_Nil_conv)
  have len: "6 \<le> length (attr_line ?k ?v)"
  proof -
    have "0 < length ?k" using ne by blast
    moreover have "length (attr_line ?k ?v) = 5 + length ?k + length ?v" by (simp add: attr_line_def del: length_concat)
    ultimately show ?thesis by linarith
  qed
  have hd: "attr_line ?k ?v \<noteq> []" "hd (attr_line ?k ?v) \<noteq> CHR ''#''" by (simp_all add: attr_line_def)
  show ?thesis
  proof (cases "?v = []")
    case True
    then have "v = []" using escape_nonempty by simp
    then show ?thesis using len hd key val True u by (simp add: plain_read_line_def del: length_concat)
  next
    case False
    then show ?thesis using len hd val u by (simp add: plain_read_line_def del: length_concat concat_eq_Nil_conv)
  qed
qed

text \<open>No attribute is skipped: the backslashes of a key are doubled before the test for the name is made.\<close>

lemma escaped_head:
  assumes "concat (map escape_char k) = x # xs" "x \<noteq> CHR 0x5C"
  shows "\<exists>k'. k = x # k' \<and> concat (map escape_char k') = xs"
proof (cases k)
  case (Cons c cs)
  have "escape_char c = [c]" "x = c" using assms unfolding Cons by (auto simp: escape_char_def split: if_splits)
  then show ?thesis using assms Cons by simp
qed (use assms in simp)

lemma escaped_backslash:
  assumes "concat (map escape_char k) = CHR 0x5C # y # ys"
  shows "y \<noteq> CHR ''C''"
proof (cases k)
  case (Cons c cs)
  obtain a b d where o: "fmt_03o (of_char c) = [a, b, d]"
    using fmt_03o_digits [OF of_char_less [of c]] by (auto simp: length_Suc_conv eval_nat_numeral)
  then have "c_isoct a" using fmt_03o_digits [OF of_char_less [of c]] by simp
  then have "a \<noteq> CHR ''C''" by (auto simp: c_isoct_def)
  then show ?thesis using assms o unfolding Cons by (auto simp: escape_char_def split: if_splits)
qed (use assms in simp)

lemma escaped_prefix:
  "concat (map escape_char k) = xs @ ys \<Longrightarrow> CHR 0x5C \<notin> set xs \<Longrightarrow> \<exists>k'. concat (map escape_char k') = ys"
proof (induction xs arbitrary: k)
  case (Cons x xs)
  then obtain k' where "concat (map escape_char k') = xs @ ys" using escaped_head [of k x "xs @ ys"] by auto
  then show ?case using Cons.IH Cons.prems(2) by simp
qed auto

lemma char_default_20: "take 20 char_default = ''BNET'' @ CHR 0x5C # CHR ''C'' # ''haracterDefaul''"
  by (simp add: char_default_def)

lemma escaped_never_default: "take 20 char_default \<noteq> take 20 (concat (map escape_char k))"
proof
  assume h: "take 20 char_default = take 20 (concat (map escape_char k))"
  obtain r where "concat (map escape_char k) = take 20 (concat (map escape_char k)) @ r" by (metis append_take_drop_id)
  then have "concat (map escape_char k) = (''BNET'' @ CHR 0x5C # CHR ''C'' # ''haracterDefaul'') @ r"
    unfolding h [symmetric] char_default_20 .
  then have e: "concat (map escape_char k) = ''BNET'' @ (CHR 0x5C # CHR ''C'' # (''haracterDefaul'' @ r))"
    by (simp only: append_assoc append_Cons append_Nil)
  then obtain k' where "concat (map escape_char k') = CHR 0x5C # CHR ''C'' # (''haracterDefaul'' @ r)"
    using escaped_prefix [OF e] by auto
  then show False using escaped_backslash by blast
qed

lemma plain_write_Cons:
  "plain_write_lines (a # as) = (case attr_val a of None \<Rightarrow> []
     | Some v \<Rightarrow> [attr_line (concat (map escape_char (attr_key a))) (concat (map escape_char v))]) @ plain_write_lines as"
  using escaped_never_default by (simp add: Let_def escape_chars_map attr_defs split: option.split)

definition storable :: "t_attr \<Rightarrow> bool" where
  "storable a \<longleftrightarrow> quote_free (attr_key a) \<and> attr_key a \<noteq> [] \<and> (case attr_val a of None \<Rightarrow> True | Some v \<Rightarrow> quote_free v)"

definition attr_pairs :: "t_attr list \<Rightarrow> (cstring \<times> cstring) list" where
  "attr_pairs as = List.map_filter (\<lambda>a. map_option (Pair (attr_key a)) (attr_val a)) as"

lemma attr_pairs_simps [simp]:
  "attr_pairs [] = []"
  "attr_pairs (a # as) = (case attr_val a of None \<Rightarrow> [] | Some v \<Rightarrow> [(attr_key a, v)]) @ attr_pairs as"
  by (auto simp: attr_pairs_def map_filter_simps split: option.split)

lemma read_write_lines: "list_all storable as \<Longrightarrow> List.map_filter plain_read_line (plain_write_lines as) = attr_pairs as"
proof (induction as)
  case (Cons a as)
  then show ?case using read_line_written [of "attr_key a"]
    by (auto simp: plain_write_Cons storable_def map_filter_simps split: option.split_asm option.split simp del: plain_write_lines.simps)
qed (simp add: map_filter_simps)

text \<open>
  C39. A file of attributes is read back as it was written: every attribute with a value, in order, for all
  keys and values without double quotes, however many unprintable characters they hold; every line that is
  written is one line for the reader.
\<close>

theorem account_file_roundtrip:
  assumes "list_all storable as"
  shows "\<exists>ls. plain_write_attrs True as = (0, Some ls, map attr_clear_dirty as) \<and> plain_read_attrs (Some ls) = (0, attr_pairs as)
    \<and> (\<forall>l \<in> set ls. \<forall>rest. logical_line (l @ CHR 0x0A # rest) [] (CHR 0x00) = (l, False, rest))"
  using read_write_lines [OF assms] written_line_is_line by (simp add: plain_write_attrs_def plain_read_attrs_def)

theorem account_file_roundtrip_witness:
  "\<exists>ls. plain_write_attrs True [attr_create (''a'' @ [CHR 0x5C] @ ''b'') (Some [CHR 0x0A, CHR 0xFF]), attr_create ''c'' (Some []), attr_create ''d'' None]
      = (0, Some ls, map attr_clear_dirty [attr_create (''a'' @ [CHR 0x5C] @ ''b'') (Some [CHR 0x0A, CHR 0xFF]), attr_create ''c'' (Some []), attr_create ''d'' None])
    \<and> plain_read_attrs (Some ls) = (0, [(''a'' @ [CHR 0x5C] @ ''b'', [CHR 0x0A, CHR 0xFF]), (''c'', [])])"
proof -
  have "list_all storable [attr_create (''a'' @ [CHR 0x5C] @ ''b'') (Some [CHR 0x0A, CHR 0xFF]), attr_create ''c'' (Some []), attr_create ''d'' None]"
    by (simp add: storable_def quote_free_def attr_create_def)
  from account_file_roundtrip [OF this] show ?thesis by (auto simp: attr_create_def)
qed

text \<open>A value with a double quote comes back cut off, with a backslash in place of the quote and the rest.\<close>

lemma unescape_escape_append: "CHR 0x00 \<notin> set p \<Longrightarrow> unescape (concat (map escape_char p) @ s) = p @ unescape s"
  by (induction p) (auto simp: unescape_escape_char)

lemma quote_cuts_value:
  assumes k: "quote_free k" "k \<noteq> []" and p: "quote_free p"
  shows "plain_write_lines [attr_create k (Some (p @ CHR 0x22 # q))]
      = [attr_line (concat (map escape_char k)) (concat (map escape_char (p @ CHR 0x22 # q)))]
    \<and> List.map_filter plain_read_line (plain_write_lines [attr_create k (Some (p @ CHR 0x22 # q))]) = [(k, p @ [CHR 0x5C])]"
proof -
  let ?k = "concat (map escape_char k)" and ?p = "concat (map escape_char p)"
  let ?v = "?p @ CHR 0x5C # CHR 0x22 # concat (map escape_char q)"
  have w: "plain_write_lines [attr_create k (Some (p @ CHR 0x22 # q))] = [attr_line ?k ?v]"
    by (subst plain_write_Cons) (simp add: attr_create_def escape_char_def)
  have u: "unescape ?k = k" "unescape (?p @ [CHR 0x5C]) = p @ [CHR 0x5C]"
    using unescape_escape [of k] unescape_escape_append [of p "[CHR 0x5C]"] k p by (simp_all add: quote_free_def unescape.simps)
  have n: "CHR 0x22 \<notin> set ?k" "CHR 0x22 \<notin> set (?p @ [CHR 0x5C])" using escape_quote_free [OF k(1)] escape_quote_free [OF p] by auto
  have ne: "?k \<noteq> []" using k(2) escape_nonempty by simp
  have key: "scan_key (attr_line ?k ?v) = Some (?k, CHR 0x22 # CHR ''='' # CHR 0x22 # ?v @ [CHR 0x22])"
    using scan_unquoted_quote [OF n(1) ne] by (simp add: scan_key_def attr_line_def)
  have sp: "\<not> c_isspace (CHR ''='')" "\<not> c_isspace (CHR 0x22)" by (simp_all add: c_isspace_def)
  have "scan_unquoted (?v @ [CHR 0x22]) = Some (?p @ [CHR 0x5C], CHR 0x22 # concat (map escape_char q) @ [CHR 0x22])"
    using scan_unquoted_quote [OF n(2)] by simp
  then have val: "scan_key_val (attr_line ?k ?v) = Some (?k, ?p @ [CHR 0x5C])"
    using sp unfolding scan_key_val_def key by (simp del: append_assoc)
  have "length (attr_line ?k ?v) = 7 + length ?k + length ?p + length (concat (map escape_char q))"
    by (simp add: attr_line_def del: length_concat)
  then have "6 \<le> length (attr_line ?k ?v)" by linarith
  moreover have "attr_line ?k ?v \<noteq> []" "hd (attr_line ?k ?v) \<noteq> CHR ''#''" by (simp_all add: attr_line_def)
  ultimately have "plain_read_line (attr_line ?k ?v) = Some (k, p @ [CHR 0x5C])"
    using val u by (simp add: plain_read_line_def del: length_concat)
  then show ?thesis unfolding w by (simp add: map_filter_simps escape_char_def)
qed

end
