(* ===== verification/Attr_Group.thy ===== *)
theory Attr_Group
  imports Attr_File
begin

text \<open>
  The cache of attributes: \<^verbatim>\<open>bnetd/attrgroup.cpp\<close> over a storage, the record of functions of \<^verbatim>\<open>storage.h\<close>,
  with \<open>attrlayer_accessed\<close> and the lists of \<^verbatim>\<open>attrlayer.cpp\<close>. A group keeps its attributes in a list in
  which an attribute that is found moves one place forward; the lists of loaded and of modified groups are
  intrusive lists, here the lists of their elements. \<open>None\<close> is an access to a group that does not exist.
\<close>

section \<open>State\<close>

record ('i, 'd) t_storage =
  st_read_attrs :: "'d \<Rightarrow> 'i \<Rightarrow> int \<times> (cstring \<times> cstring) list"
  st_write_attrs :: "'d \<Rightarrow> 'i \<Rightarrow> t_attr list \<Rightarrow> int \<times> 'd \<times> t_attr list"
  st_read_attr :: "'d \<Rightarrow> 'i \<Rightarrow> cstring \<Rightarrow> t_attr option"
  st_escape_key :: "cstring \<Rightarrow> cstring"

record 'i t_attrgroup =
  ag_list :: "t_attr list"
  ag_storage :: 'i
  ag_loaded :: bool
  ag_accessed :: bool
  ag_dirty :: bool
  ag_lastaccess :: int
  ag_dirtytime :: int

record ('i, 'd) attr_world =
  aw_disk :: 'd
  aw_groups :: "nat \<Rightarrow> 'i t_attrgroup option"
  aw_fresh :: nat
  aw_loadedlist :: "nat list"
  aw_dirtylist :: "nat list"
  aw_now :: int
  aw_defattrs :: "nat option"

record attr_conf =
  ac_user_sync_timer :: int
  ac_user_flush_timer :: int

definition set_group :: "nat \<Rightarrow> 'i t_attrgroup \<Rightarrow> ('i, 'd) attr_world \<Rightarrow> ('i, 'd) attr_world" where
  "set_group g ag w = w\<lparr>aw_groups := (aw_groups w)(g \<mapsto> ag)\<rparr>"

section \<open>Marks\<close>

definition attrlayer_accessed :: "nat \<Rightarrow> ('i, 'd) attr_world \<Rightarrow> ('i, 'd) attr_world" where
  "attrlayer_accessed g w = w\<lparr>aw_loadedlist := remove1 g (aw_loadedlist w) @ [g]\<rparr>"

definition attrgroup_set_accessed :: "nat \<Rightarrow> ('i, 'd) attr_world \<Rightarrow> ('i, 'd) attr_world option" where
  "attrgroup_set_accessed g w = do {
     ag \<leftarrow> aw_groups w g;
     Some (attrlayer_accessed g (set_group g (ag\<lparr>ag_accessed := True, ag_lastaccess := aw_now w\<rparr>) w)) }"

definition attrgroup_clear_accessed :: "nat \<Rightarrow> ('i, 'd) attr_world \<Rightarrow> ('i, 'd) attr_world option" where
  "attrgroup_clear_accessed g w = do { ag \<leftarrow> aw_groups w g; Some (set_group g (ag\<lparr>ag_accessed := False\<rparr>) w) }"

definition attrgroup_set_dirty :: "nat \<Rightarrow> ('i, 'd) attr_world \<Rightarrow> ('i, 'd) attr_world option" where
  "attrgroup_set_dirty g w = do {
     ag \<leftarrow> aw_groups w g;
     if ag_dirty ag then Some w
     else Some ((set_group g (ag\<lparr>ag_dirtytime := aw_now w, ag_dirty := True\<rparr>) w)\<lparr>aw_dirtylist := aw_dirtylist w @ [g]\<rparr>) }"

definition attrgroup_clear_dirty :: "nat \<Rightarrow> ('i, 'd) attr_world \<Rightarrow> ('i, 'd) attr_world option" where
  "attrgroup_clear_dirty g w = do {
     ag \<leftarrow> aw_groups w g;
     if \<not> ag_dirty ag then Some w
     else Some ((set_group g (ag\<lparr>ag_dirty := False\<rparr>) w)\<lparr>aw_dirtylist := remove1 g (aw_dirtylist w)\<rparr>) }"

definition attrgroup_set_loaded :: "nat \<Rightarrow> ('i, 'd) attr_world \<Rightarrow> ('i, 'd) attr_world option" where
  "attrgroup_set_loaded g w = do {
     ag \<leftarrow> aw_groups w g;
     if ag_loaded ag then Some w
     else Some ((set_group g (ag\<lparr>ag_loaded := True\<rparr>) w)\<lparr>aw_loadedlist := aw_loadedlist w @ [g]\<rparr>) }"

definition attrgroup_clear_loaded :: "nat \<Rightarrow> ('i, 'd) attr_world \<Rightarrow> ('i, 'd) attr_world option" where
  "attrgroup_clear_loaded g w = do {
     ag \<leftarrow> aw_groups w g;
     if \<not> ag_loaded ag then Some w
     else do {
       w1 \<leftarrow> attrgroup_clear_dirty g w;
       w2 \<leftarrow> attrgroup_clear_accessed g w1;
       ag2 \<leftarrow> aw_groups w2 g;
       Some ((set_group g (ag2\<lparr>ag_loaded := False\<rparr>) w2)\<lparr>aw_loadedlist := remove1 g (aw_loadedlist w2)\<rparr>) } }"

definition attrgroup_create_storage :: "'i \<Rightarrow> ('i, 'd) attr_world \<Rightarrow> nat \<times> ('i, 'd) attr_world" where
  "attrgroup_create_storage i w = (aw_fresh w, (set_group (aw_fresh w)
     \<lparr>ag_list = [], ag_storage = i, ag_loaded = False, ag_accessed = False, ag_dirty = False, ag_lastaccess = 0, ag_dirtytime = 0\<rparr> w)
     \<lparr>aw_fresh := aw_fresh w + 1\<rparr>)"

section \<open>Saving and dropping a group\<close>

text \<open>The result of the storage is not looked at.\<close>

definition attrgroup_save ::
  "('i, 'd) t_storage \<Rightarrow> attr_conf \<Rightarrow> nat \<Rightarrow> bool \<Rightarrow> ('i, 'd) attr_world \<Rightarrow> (int \<times> ('i, 'd) attr_world) option" where
  "attrgroup_save st conf g force w = do {
     ag \<leftarrow> aw_groups w g;
     if \<not> ag_loaded ag then Some (0, w)
     else if \<not> ag_dirty ag then Some (0, w)
     else if \<not> force \<and> aw_now w - ag_dirtytime ag < ac_user_sync_timer conf then Some (0, w)
     else do {
       let (_, disk, as) = st_write_attrs st (aw_disk w) (ag_storage ag) (ag_list ag);
       w1 \<leftarrow> attrgroup_clear_dirty g ((set_group g (ag\<lparr>ag_list := as\<rparr>) w)\<lparr>aw_disk := disk\<rparr>);
       Some (1, w1) } }"

definition attrgroup_flush ::
  "('i, 'd) t_storage \<Rightarrow> attr_conf \<Rightarrow> nat \<Rightarrow> bool \<Rightarrow> ('i, 'd) attr_world \<Rightarrow> (int \<times> ('i, 'd) attr_world) option" where
  "attrgroup_flush st conf g force w = do {
     ag \<leftarrow> aw_groups w g;
     if \<not> ag_loaded ag then Some (0, w)
     else if \<not> force \<and> ag_accessed ag \<and> aw_now w - ag_lastaccess ag < ac_user_flush_timer conf then Some (0, w)
     else do {
       (_, w1) \<leftarrow> attrgroup_save st conf g True w;
       ag1 \<leftarrow> aw_groups w1 g;
       w2 \<leftarrow> attrgroup_clear_loaded g (set_group g (ag1\<lparr>ag_list := []\<rparr>) w1);
       Some (1, w2) } }"

definition attrgroup_unload ::
  "('i, 'd) t_storage \<Rightarrow> attr_conf \<Rightarrow> nat \<Rightarrow> ('i, 'd) attr_world \<Rightarrow> (int \<times> ('i, 'd) attr_world) option" where
  "attrgroup_unload st conf g w = map_option (\<lambda>(_, w1). (0, w1)) (attrgroup_flush st conf g True w)"

section \<open>Looking up\<close>

definition attrgroup_escape_key :: "('i, 'd) t_storage \<Rightarrow> cstring \<Rightarrow> cstring" where
  "attrgroup_escape_key st key =
     (if strncasecmp key ''DynKey'' 6 = 0 then st_escape_key st (''Record'' @ drop 6 key)
      else if take 4 key = ''Star'' then st_escape_key st (''STAR'' @ drop 4 key)
      else st_escape_key st key)"

text \<open>
  The loop of \<open>attrgroup_find_attr\<close>: the place of the first attribute with the key after it has moved one
  place forward, and the new list.
\<close>

fun find_promote :: "cstring \<Rightarrow> t_attr list \<Rightarrow> (nat \<times> t_attr list) option" where
  "find_promote key [] = None"
| "find_promote key (a # as) = (if strcasecmp (attr_get_key a) key = 0 then Some (0, a # as)
     else (case as of [] \<Rightarrow> None
       | b # bs \<Rightarrow> if strcasecmp (attr_get_key b) key = 0 then Some (0, b # a # bs)
           else map_option (\<lambda>(n, l). (n + 1, a # l)) (find_promote key as)))"

text \<open>The part of \<open>attrgroup_find_attr\<close> behind the call of \<open>attrgroup_load\<close>; \<open>key\<close> is escaped already.\<close>

definition find_attr_loaded ::
  "('i, 'd) t_storage \<Rightarrow> nat \<Rightarrow> cstring \<Rightarrow> ('i, 'd) attr_world \<Rightarrow> (nat option \<times> ('i, 'd) attr_world) option" where
  "find_attr_loaded st g key w = do {
     w1 \<leftarrow> attrgroup_set_accessed g w;
     ag \<leftarrow> aw_groups w1 g;
     Some (case find_promote key (ag_list ag) of
         Some (n, l) \<Rightarrow> (Some n, set_group g (ag\<lparr>ag_list := l\<rparr>) w1)
       | None \<Rightarrow> (case st_read_attr st (aw_disk w1) (ag_storage ag) key of
             Some a \<Rightarrow> (Some 0, set_group g (ag\<lparr>ag_list := a # ag_list ag\<rparr>) w1)
           | None \<Rightarrow> (None, w1))) }"

text \<open>The part of \<open>attrgroup_set_attr\<close> behind \<open>attrgroup_find_attr\<close>.\<close>

definition set_found_attr ::
  "nat \<Rightarrow> cstring \<Rightarrow> cstring option \<Rightarrow> nat option \<Rightarrow> ('i, 'd) attr_world \<Rightarrow> (int \<times> ('i, 'd) attr_world) option" where
  "set_found_attr g newkey val pos w = do {
     ag \<leftarrow> aw_groups w g;
     (case pos of
        Some n \<Rightarrow> if attr_get_val (ag_list ag ! n) = val then Some (0, w)
          else do {
            w1 \<leftarrow> attrgroup_set_dirty g (set_group g (ag\<lparr>ag_list := (ag_list ag)[n := attr_set_dirty (attr_set_val (ag_list ag ! n) val)]\<rparr>) w);
            Some (0, w1) }
      | None \<Rightarrow> do {
            w1 \<leftarrow> attrgroup_set_dirty g (set_group g (ag\<lparr>ag_list := attr_set_dirty (attr_create newkey val) # ag_list ag\<rparr>) w);
            Some (0, w1) }) }"

text \<open>\<open>attrgroup_set_attr\<close> on a group that is marked as loaded, as the callback of \<open>attrgroup_load\<close> finds it.\<close>

definition set_attr_loaded ::
  "('i, 'd) t_storage \<Rightarrow> nat \<Rightarrow> cstring \<Rightarrow> cstring option \<Rightarrow> ('i, 'd) attr_world \<Rightarrow> (int \<times> ('i, 'd) attr_world) option" where
  "set_attr_loaded st g key val w = do {
     let newkey = attrgroup_escape_key st key;
     (pos, w1) \<leftarrow> find_attr_loaded st g newkey w;
     set_found_attr g newkey val pos w1 }"

fun load_attrs ::
  "('i, 'd) t_storage \<Rightarrow> nat \<Rightarrow> (cstring \<times> cstring) list \<Rightarrow> ('i, 'd) attr_world \<Rightarrow> ('i, 'd) attr_world option" where
  "load_attrs st g [] w = Some w"
| "load_attrs st g ((k, v) # kvs) w = do { (_, w1) \<leftarrow> set_attr_loaded st g k (Some v) w; load_attrs st g kvs w1 }"

definition attrgroup_load :: "('i, 'd) t_storage \<Rightarrow> nat \<Rightarrow> ('i, 'd) attr_world \<Rightarrow> (int \<times> ('i, 'd) attr_world) option" where
  "attrgroup_load st g w = do {
     ag \<leftarrow> aw_groups w g;
     if ag_loaded ag then Some (0, w)
     else if ag_dirty ag then Some (-1, w)
     else do {
       w1 \<leftarrow> attrgroup_set_loaded g w;
       let (rc, kvs) = st_read_attrs st (aw_disk w1) (ag_storage ag);
       w2 \<leftarrow> load_attrs st g kvs w1;
       if rc \<noteq> 0 then Some (-1, w2)
       else do { w3 \<leftarrow> attrgroup_clear_dirty g w2; Some (0, w3) } } }"

text \<open>The key that the caller uses afterwards, the place of the attribute, the state.\<close>

definition attrgroup_find_attr ::
  "('i, 'd) t_storage \<Rightarrow> nat \<Rightarrow> cstring \<Rightarrow> bool \<Rightarrow> ('i, 'd) attr_world \<Rightarrow> (cstring \<times> nat option \<times> ('i, 'd) attr_world) option" where
  "attrgroup_find_attr st g key escape w = do {
     (rc, w1) \<leftarrow> attrgroup_load st g w;
     if rc \<noteq> 0 then Some (key, None, w1)
     else do {
       let newkey = (if escape then attrgroup_escape_key st key else key);
       (pos, w2) \<leftarrow> find_attr_loaded st g newkey w1;
       Some (newkey, pos, w2) } }"

definition attr_at :: "nat \<Rightarrow> nat option \<Rightarrow> ('i, 'd) attr_world \<Rightarrow> cstring option option" where
  "attr_at g pos w = do { ag \<leftarrow> aw_groups w g; Some (case pos of None \<Rightarrow> None | Some n \<Rightarrow> attr_get_val (ag_list ag ! n)) }"

text \<open>\<open>attrgroup_get_attrlow\<close>: the group itself, then the group of default attributes.\<close>

definition attrgroup_get_attr ::
  "('i, 'd) t_storage \<Rightarrow> nat \<Rightarrow> cstring \<Rightarrow> ('i, 'd) attr_world \<Rightarrow> (cstring option \<times> ('i, 'd) attr_world) option" where
  "attrgroup_get_attr st g key w = do {
     (newkey, pos, w1) \<leftarrow> attrgroup_find_attr st g key True w;
     v \<leftarrow> attr_at g pos w1;
     if v = None \<and> Some g \<noteq> aw_defattrs w1
     then do {
       d \<leftarrow> aw_defattrs w1;
       (_, pos2, w2) \<leftarrow> attrgroup_find_attr st d newkey False w1;
       v2 \<leftarrow> attr_at d pos2 w2;
       Some (v2, w2) }
     else Some (v, w1) }"

definition attrgroup_set_attr ::
  "('i, 'd) t_storage \<Rightarrow> nat \<Rightarrow> cstring \<Rightarrow> cstring option \<Rightarrow> ('i, 'd) attr_world \<Rightarrow> (int \<times> ('i, 'd) attr_world) option" where
  "attrgroup_set_attr st g key val w = do {
     (newkey, pos, w1) \<leftarrow> attrgroup_find_attr st g key True w;
     set_found_attr g newkey val pos w1 }"

end
