(* ===== verification/Attr_Inv.thy ===== *)
theory Attr_Inv
  imports Attr_Group "HOL-Library.Multiset"
begin

text \<open>
  The cache of attributes as a map: what each group holds is a map from keys, compared without case, to
  values, whether the group is loaded or its attributes are in the storage. The locale of storages states
  what the cache relies on; the plain text files are one.
\<close>

section \<open>Lists of attributes as maps\<close>

definition keyn :: "cstring \<Rightarrow> cstring" where
  "keyn k = map c_tolower k"

lemma keyn_eq: "strcasecmp a b = 0 \<longleftrightarrow> keyn a = keyn b"
  using strcaseeq_iff [of a b] by (simp add: strcaseeq_def keyn_def)

abbreviation akey :: "t_attr \<Rightarrow> cstring" where
  "akey a \<equiv> keyn (attr_key a)"

fun list_map :: "t_attr list \<Rightarrow> cstring \<Rightarrow> cstring option" where
  "list_map [] = Map.empty"
| "list_map (a # as) = (list_map as)(akey a := attr_val a)"

lemma list_map_absent: "k \<notin> akey ` set l \<Longrightarrow> list_map l k = None"
  by (induction l) auto

lemma list_map_present: "distinct (map akey l) \<Longrightarrow> a \<in> set l \<Longrightarrow> list_map l (akey a) = attr_val a"
  by (induction l) (auto, metis imageI)

lemma list_map_set_eq:
  assumes "distinct (map akey l)" "distinct (map akey l')" "set l = set l'"
  shows "list_map l = list_map l'"
proof
  fix k
  show "list_map l k = list_map l' k"
  proof (cases "k \<in> akey ` set l")
    case True
    then obtain a where "a \<in> set l" "k = akey a" by blast
    then show ?thesis using list_map_present assms by metis
  next
    case False
    then show ?thesis using list_map_absent assms(3) by metis
  qed
qed

lemma list_map_update:
  assumes "distinct (map akey l)" "n < length l" "akey a = akey (l ! n)"
  shows "distinct (map akey (l[n := a]))" "list_map (l[n := a]) = (list_map l)(akey a := attr_val a)"
proof -
  have e: "map akey (l[n := a]) = map akey l" using assms(2,3) by (simp add: map_update list_update_same_conv)
  show d: "distinct (map akey (l[n := a]))" unfolding e by (rule assms(1))
  show "list_map (l[n := a]) = (list_map l)(akey a := attr_val a)"
  proof
    fix k
    show "list_map (l[n := a]) k = ((list_map l)(akey a := attr_val a)) k"
    proof (cases "k = akey a")
      case True
      then show ?thesis using list_map_present [OF d, of a] assms(2) by (simp add: set_update_memI)
    next
      case False
      show ?thesis
      proof (cases "k \<in> akey ` set l")
        case True
        then obtain m where m: "m < length l" "k = akey (l ! m)" by (auto simp: in_set_conv_nth)
        then have "m \<noteq> n" using False assms(3) by auto
        then have "l[n := a] ! m = l ! m" by simp
        then have "l ! m \<in> set (l[n := a])" using m(1) by (metis length_list_update nth_mem)
        then show ?thesis using list_map_present [OF d] list_map_present [OF assms(1)] m False by (metis fun_upd_other nth_mem)
      next
        case no: False
        have "k \<notin> akey ` set (l[n := a])" using e no by (metis list.set_map)
        then show ?thesis using list_map_absent no False by simp
      qed
    qed
  qed
qed

lemma find_promote_Some:
  "find_promote key l = Some (n, l') \<Longrightarrow> mset l' = mset l \<and> n < length l' \<and> akey (l' ! n) = keyn key"
proof (induction l arbitrary: n l')
  case (Cons a as)
  show ?case
  proof (cases "strcasecmp (attr_key a) key = 0")
    case True
    then show ?thesis using Cons.prems by (auto simp: attr_defs keyn_eq)
  next
    case False
    note na = this
    then obtain b bs where as: "as = b # bs" using Cons.prems by (auto simp: attr_defs split: list.splits)
    show ?thesis
    proof (cases "strcasecmp (attr_key b) key = 0")
      case True
      then show ?thesis using Cons.prems na as by (auto simp: attr_defs keyn_eq)
    next
      case False
      then obtain m k where "find_promote key as = Some (m, k)" "n = m + 1" "l' = a # k"
        using Cons.prems na as by (auto simp: attr_defs simp del: find_promote.simps(2) split: list.splits) (auto simp: attr_defs)
      then show ?thesis using Cons.IH by auto
    qed
  qed
qed simp

lemma find_promote_None: "find_promote key l = None \<Longrightarrow> keyn key \<notin> akey ` set l"
proof (induction l)
  case (Cons a as)
  have a: "keyn key \<noteq> akey a" using Cons.prems keyn_eq [of "attr_key a" key] by (auto simp: attr_defs split: if_splits)
  have "find_promote key as = None"
  proof (cases as)
    case (Cons b bs)
    then show ?thesis using Cons.prems a keyn_eq [of "attr_key a" key] by (auto simp: attr_defs split: if_splits)
  qed simp
  then show ?case using Cons.IH a by auto
qed simp

definition list_ok :: "('i, 'd) t_storage \<Rightarrow> t_attr list \<Rightarrow> bool" where
  "list_ok st l \<longleftrightarrow> distinct (map akey l) \<and> list_all storable l \<and> (\<forall>a \<in> set l. attrgroup_escape_key st (attr_key a) = attr_key a)"

lemma list_ok_mset: "mset l' = mset l \<Longrightarrow> list_ok st l \<Longrightarrow> list_ok st l' \<and> list_map l' = list_map l"
proof -
  assume m: "mset l' = mset l" and ok: "list_ok st l"
  have s: "set l' = set l" using m by (rule mset_eq_setD)
  have "mset (map akey l') = mset (map akey l)" using m by simp
  then have d: "distinct (map akey l')" using ok by (metis list_ok_def mset_eq_imp_distinct_iff)
  then show ?thesis using ok s list_map_set_eq [OF d _ s] by (auto simp: list_ok_def list_all_iff)
qed

section \<open>Steps on one group\<close>

definition attr_lists_ok :: "('i, 'd) attr_world \<Rightarrow> bool" where
  "attr_lists_ok w \<longleftrightarrow> distinct (aw_loadedlist w) \<and> distinct (aw_dirtylist w)
     \<and> set (aw_loadedlist w) = {g. \<exists>ag. aw_groups w g = Some ag \<and> ag_loaded ag}
     \<and> set (aw_dirtylist w) = {g. \<exists>ag. aw_groups w g = Some ag \<and> ag_dirty ag}"

definition only_group :: "nat \<Rightarrow> ('i, 'd) attr_world \<Rightarrow> ('i, 'd) attr_world \<Rightarrow> bool" where
  "only_group g w w' \<longleftrightarrow> (\<forall>h. h \<noteq> g \<longrightarrow> aw_groups w' h = aw_groups w h) \<and> aw_disk w' = aw_disk w \<and> aw_now w' = aw_now w
     \<and> aw_fresh w' = aw_fresh w \<and> aw_defattrs w' = aw_defattrs w \<and> (attr_lists_ok w \<longrightarrow> attr_lists_ok w')"

lemma only_group_refl [simp]: "only_group g w w"
  by (simp add: only_group_def)

lemma only_group_trans: "only_group g w w' \<Longrightarrow> only_group g w' w'' \<Longrightarrow> only_group g w w''"
  by (simp add: only_group_def)

lemma lists_remove_add: "set (remove1 g xs @ [g]) = insert g (set xs)" if "distinct xs"
  using that by (auto simp: set_remove1_eq)

lemma accessed_step:
  assumes "aw_groups w g = Some ag" "ag_loaded ag"
  shows "\<exists>w' ag'. attrgroup_set_accessed g w = Some w' \<and> only_group g w w' \<and> aw_groups w' g = Some ag'
    \<and> ag' = ag\<lparr>ag_accessed := True, ag_lastaccess := aw_now w\<rparr>"
  using assms
  by (auto simp: attrgroup_set_accessed_def attrlayer_accessed_def set_group_def only_group_def attr_lists_ok_def)

lemma list_step:
  assumes "aw_groups w g = Some ag"
  shows "only_group g w (set_group g (ag\<lparr>ag_list := l\<rparr>) w)"
  using assms by (auto simp: only_group_def set_group_def attr_lists_ok_def split: if_splits)

lemma dirty_step:
  assumes "aw_groups w g = Some ag"
  shows "\<exists>w' ag'. attrgroup_set_dirty g w = Some w' \<and> only_group g w w' \<and> aw_groups w' g = Some ag' \<and> ag_dirty ag'
    \<and> ag_list ag' = ag_list ag \<and> ag_storage ag' = ag_storage ag \<and> ag_loaded ag' = ag_loaded ag"
proof (cases "ag_dirty ag")
  case True
  then show ?thesis using assms by (simp add: attrgroup_set_dirty_def)
next
  case False
  then show ?thesis using assms
    by (auto simp: attrgroup_set_dirty_def set_group_def only_group_def attr_lists_ok_def)
qed

lemma clear_dirty_step:
  assumes "aw_groups w g = Some ag"
  shows "\<exists>w' ag'. attrgroup_clear_dirty g w = Some w' \<and> only_group g w w' \<and> aw_groups w' g = Some ag' \<and> ag' = ag\<lparr>ag_dirty := False\<rparr>"
proof (cases "ag_dirty ag")
  case True
  then show ?thesis using assms
    by (auto simp: attrgroup_clear_dirty_def set_group_def only_group_def attr_lists_ok_def split: if_splits)
next
  case False
  then have "ag\<lparr>ag_dirty := False\<rparr> = ag" by simp
  then show ?thesis using assms False by (simp add: attrgroup_clear_dirty_def)
qed

definition storable_kv :: "cstring \<Rightarrow> cstring option \<Rightarrow> bool" where
  "storable_kv k v \<longleftrightarrow> quote_free k \<and> k \<noteq> [] \<and> (case v of None \<Rightarrow> True | Some x \<Rightarrow> quote_free x)"

text \<open>The map a list of stored pairs stands for; later pairs override earlier ones.\<close>

fun pairs_map :: "('i, 'd) t_storage \<Rightarrow> (cstring \<times> cstring) list \<Rightarrow> (cstring \<Rightarrow> cstring option) \<Rightarrow> cstring \<Rightarrow> cstring option" where
  "pairs_map st [] m = m"
| "pairs_map st ((k, v) # ps) m = pairs_map st ps (m(keyn (attrgroup_escape_key st k) \<mapsto> v))"

definition grp_ok :: "('i, 'd) t_storage \<Rightarrow> 'd \<Rightarrow> (cstring \<Rightarrow> cstring option) \<Rightarrow> 'i t_attrgroup \<Rightarrow> bool" where
  "grp_ok st d m ag \<longleftrightarrow> list_ok st (ag_list ag) \<and> (ag_loaded ag \<longrightarrow> m = list_map (ag_list ag))
     \<and> (\<not> ag_loaded ag \<longrightarrow> ag_list ag = [] \<and> \<not> ag_dirty ag)
     \<and> (\<not> ag_dirty ag \<longrightarrow> (\<exists>ps. st_read_attrs st d (ag_storage ag) = (0, ps) \<and> (\<forall>(k, v) \<in> set ps. storable_kv k (Some v))
          \<and> m = pairs_map st ps Map.empty))"

text \<open>\<open>valid\<close> are the names a group may have in the storage.\<close>

definition world_ok :: "('i, 'd) t_storage \<Rightarrow> ('i \<Rightarrow> bool) \<Rightarrow> ('i, 'd) attr_world \<Rightarrow> (nat \<Rightarrow> cstring \<Rightarrow> cstring option) \<Rightarrow> bool" where
  "world_ok st valid w M \<longleftrightarrow> (\<forall>g ag. aw_groups w g = Some ag \<longrightarrow> grp_ok st (aw_disk w) (M g) ag \<and> valid (ag_storage ag))
     \<and> (\<forall>g h ag ah. aw_groups w g = Some ag \<longrightarrow> aw_groups w h = Some ah \<longrightarrow> g \<noteq> h \<longrightarrow> ag_storage ag \<noteq> ag_storage ah)
     \<and> attr_lists_ok w \<and> (\<exists>d. aw_defattrs w = Some d \<and> aw_groups w d \<noteq> None)"

lemma world_okD:
  assumes "world_ok st valid w M"
  shows "\<And>g ag. aw_groups w g = Some ag \<Longrightarrow> grp_ok st (aw_disk w) (M g) ag"
    "\<And>g ag. aw_groups w g = Some ag \<Longrightarrow> valid (ag_storage ag)"
    "\<And>g h ag ah. aw_groups w g = Some ag \<Longrightarrow> aw_groups w h = Some ah \<Longrightarrow> g \<noteq> h \<Longrightarrow> ag_storage ag \<noteq> ag_storage ah"
    "attr_lists_ok w" "\<exists>d. aw_defattrs w = Some d \<and> aw_groups w d \<noteq> None"
  using assms unfolding world_ok_def by blast+

lemma world_disk_step:
  assumes ok: "world_ok st valid w M" and o: "only_group g (w\<lparr>aw_disk := d'\<rparr>) w'" and g: "aw_groups w g = Some ag" "aw_groups w' g = Some ag'"
    and ag': "ag_storage ag' = ag_storage ag" "grp_ok st (aw_disk w') m ag'"
    and d: "\<forall>j. valid j \<longrightarrow> j \<noteq> ag_storage ag \<longrightarrow> st_read_attrs st d' j = st_read_attrs st (aw_disk w) j"
  shows "world_ok st valid w' (M(g := m))"
proof -
  note W = world_okD [OF ok]
  have o': "\<And>h. h \<noteq> g \<Longrightarrow> aw_groups w' h = aw_groups w h" "aw_disk w' = d'" "aw_defattrs w' = aw_defattrs w" "attr_lists_ok w'"
    using o W(4) by (auto simp: only_group_def attr_lists_ok_def)
  show ?thesis unfolding world_ok_def
  proof (intro conjI allI impI)
    show "grp_ok st (aw_disk w') ((M(g := m)) h) ah" if h: "aw_groups w' h = Some ah" for h ah
    proof (cases "h = g")
      case False
      then have w: "aw_groups w h = Some ah" using h o'(1) by simp
      have "st_read_attrs st d' (ag_storage ah) = st_read_attrs st (aw_disk w) (ag_storage ah)"
        using d W(2) [OF w] W(3) [OF w g(1) False] by simp
      then show ?thesis using W(1) [OF w] False o'(2) by (simp add: grp_ok_def)
    qed (use h g ag' in simp)
    show "valid (ag_storage ah)" if "aw_groups w' h = Some ah" for h ah
      using that o'(1) [of h] g ag'(1) W(2) by (cases "h = g") auto
    show "ag_storage ah \<noteq> ag_storage ak" if "aw_groups w' h = Some ah" "aw_groups w' k = Some ak" "h \<noteq> k" for h k ah ak
    proof -
      have old: "\<exists>b. aw_groups w j = Some b \<and> ag_storage b = ag_storage a" if "aw_groups w' j = Some a" for j a
        using that o'(1) [of j] g ag'(1) by (cases "j = g") auto
      show ?thesis using old [OF that(1)] old [OF that(2)] W(3) that(3) by metis
    qed
    show "attr_lists_ok w'" by (rule o'(4))
    show "\<exists>d. aw_defattrs w' = Some d \<and> aw_groups w' d \<noteq> None"
      using W(5) o'(1,3) g by (metis option.discI)
  qed
qed

lemma world_step:
  assumes "world_ok st valid w M" "only_group g w w'" "aw_groups w g = Some ag" "aw_groups w' g = Some ag'"
    and "ag_storage ag' = ag_storage ag" "grp_ok st (aw_disk w') m ag'"
  shows "world_ok st valid w' (M(g := m))"
  using world_disk_step [of st valid w M g "aw_disk w" w'] assms by simp

section \<open>The contract of a storage\<close>

locale attr_storage =
  fixes st :: "('i, 'd) t_storage" and valid :: "'i \<Rightarrow> bool"
  assumes write_read: "valid i \<Longrightarrow> list_all storable as \<Longrightarrow> \<exists>d'. st_write_attrs st d i as = (0, d', map attr_clear_dirty as)
      \<and> st_read_attrs st d' i = (0, attr_pairs as) \<and> (\<forall>j. valid j \<longrightarrow> j \<noteq> i \<longrightarrow> st_read_attrs st d' j = st_read_attrs st d j)"
    and no_single: "st_read_attr st d i k = None"
    and same_key: "st_escape_key st k = k"
begin

lemma escape_idem: "attrgroup_escape_key st (attrgroup_escape_key st k) = attrgroup_escape_key st k"
proof -
  have "c_tolower (CHR ''R'') \<noteq> c_tolower (CHR ''D'')" "c_tolower (CHR ''S'') \<noteq> c_tolower (CHR ''D'')"
    by (simp_all add: c_tolower_def c_isupper_def)
  then have "strncasecmp (''Record'' @ s) ''DynKey'' 6 \<noteq> 0" "strncasecmp (''STAR'' @ s) ''DynKey'' 6 \<noteq> 0" for s
    by (simp_all add: strncasecmp_zero_iff)
  then show ?thesis by (auto simp: attrgroup_escape_key_def same_key)
qed

lemma escape_quote_free_key: "quote_free k \<Longrightarrow> quote_free (attrgroup_escape_key st k)"
  by (auto simp: attrgroup_escape_key_def same_key quote_free_def dest: in_set_dropD)

lemma escape_nonempty_key: "k \<noteq> [] \<Longrightarrow> attrgroup_escape_key st k \<noteq> []"
  by (auto simp: attrgroup_escape_key_def same_key)

abbreviation norm :: "cstring \<Rightarrow> cstring" where
  "norm k \<equiv> keyn (attrgroup_escape_key st k)"

lemma find_loaded_step:
  assumes g: "aw_groups w g = Some ag" "ag_loaded ag" and ok: "list_ok st (ag_list ag)"
  shows "\<exists>pos w' ag'. find_attr_loaded st g key w = Some (pos, w') \<and> only_group g w w' \<and> aw_groups w' g = Some ag'
    \<and> list_ok st (ag_list ag') \<and> list_map (ag_list ag') = list_map (ag_list ag) \<and> ag_loaded ag' \<and> ag_dirty ag' = ag_dirty ag
    \<and> ag_storage ag' = ag_storage ag
    \<and> (case pos of None \<Rightarrow> keyn key \<notin> akey ` set (ag_list ag') | Some n \<Rightarrow> n < length (ag_list ag') \<and> akey (ag_list ag' ! n) = keyn key)"
proof -
  obtain w1 ag1 where w1: "attrgroup_set_accessed g w = Some w1" "only_group g w w1" "aw_groups w1 g = Some ag1"
      "ag1 = ag\<lparr>ag_accessed := True, ag_lastaccess := aw_now w\<rparr>"
    using accessed_step [OF g] by blast
  have l1: "ag_list ag1 = ag_list ag" using w1(4) by simp
  show ?thesis
  proof (cases "find_promote key (ag_list ag)")
    case None
    then have "find_attr_loaded st g key w = Some (None, w1)" using w1(1,3) l1 by (simp add: find_attr_loaded_def no_single)
    then show ?thesis using w1 l1 ok g(2) find_promote_None [OF None]
      by (intro exI [of _ None] exI [of _ w1] exI [of _ ag1]) simp
  next
    case (Some r)
    obtain n l where r: "find_promote key (ag_list ag) = Some (n, l)" using Some by (cases r) auto
    note p = find_promote_Some [OF r]
    have "find_attr_loaded st g key w = Some (Some n, set_group g (ag1\<lparr>ag_list := l\<rparr>) w1)"
      using w1(1,3) l1 r by (simp add: find_attr_loaded_def)
    moreover have "only_group g w (set_group g (ag1\<lparr>ag_list := l\<rparr>) w1)"
      using only_group_trans [OF w1(2) list_step [OF w1(3)]] .
    ultimately show ?thesis using w1(4) g(2) p list_ok_mset [OF conjunct1 [OF p] ok]
      by (intro exI [of _ "Some n"] exI [of _ "set_group g (ag1\<lparr>ag_list := l\<rparr>) w1"] exI [of _ "ag1\<lparr>ag_list := l\<rparr>"]) (simp add: set_group_def)
  qed
qed

lemma set_found_step:
  assumes g: "aw_groups w g = Some ag" and ok: "list_ok st (ag_list ag)"
    and pos: "case pos of None \<Rightarrow> keyn k \<notin> akey ` set (ag_list ag) | Some n \<Rightarrow> n < length (ag_list ag) \<and> akey (ag_list ag ! n) = keyn k"
    and kv: "storable_kv k v" "attrgroup_escape_key st k = k"
  shows "\<exists>w' ag'. set_found_attr g k v pos w = Some (0, w') \<and> only_group g w w' \<and> aw_groups w' g = Some ag'
    \<and> list_ok st (ag_list ag') \<and> list_map (ag_list ag') = (list_map (ag_list ag))(keyn k := v)
    \<and> ag_storage ag' = ag_storage ag \<and> ag_loaded ag' = ag_loaded ag
    \<and> (ag_dirty ag' \<or> (\<not> ag_dirty ag \<and> list_map (ag_list ag') = list_map (ag_list ag)))"
proof (cases pos)
  case None
  let ?a = "attr_set_dirty (attr_create k v)" and ?ag = "ag\<lparr>ag_list := attr_set_dirty (attr_create k v) # ag_list ag\<rparr>"
  have w1: "aw_groups (set_group g ?ag w) g = Some ?ag" by (simp add: set_group_def)
  obtain w' ag' where w': "attrgroup_set_dirty g (set_group g ?ag w) = Some w'" "only_group g (set_group g ?ag w) w'"
      "aw_groups w' g = Some ag'" "ag_dirty ag'" "ag_list ag' = ag_list ?ag" "ag_storage ag' = ag_storage ?ag" "ag_loaded ag' = ag_loaded ?ag"
    using dirty_step [OF w1] by blast
  have "only_group g w w'" using only_group_trans [OF list_step [OF g] w'(2)] .
  moreover have "list_ok st (ag_list ag')" using ok kv pos None w'(5)
    by (auto simp: list_ok_def attr_defs storable_def storable_kv_def)
  moreover have "set_found_attr g k v pos w = Some (0, w')" using g None w'(1) by (simp add: set_found_attr_def)
  ultimately show ?thesis using w' by (auto simp: attr_defs)
next
  case (Some n)
  let ?a = "attr_set_dirty (attr_set_val (ag_list ag ! n) v)"
  have n: "n < length (ag_list ag)" "akey (ag_list ag ! n) = keyn k" "distinct (map akey (ag_list ag))"
    using pos Some ok by (simp_all add: list_ok_def)
  show ?thesis
  proof (cases "attr_get_val (ag_list ag ! n) = v")
    case True
    have "list_map (ag_list ag) (keyn k) = v" using list_map_present [OF n(3), of "ag_list ag ! n"] n True by (simp add: attr_defs)
    then have "list_map (ag_list ag) = (list_map (ag_list ag))(keyn k := v)" by auto
    then show ?thesis using g ok Some True by (intro exI [of _ w] exI [of _ ag]) (simp add: set_found_attr_def)
  next
    case False
    let ?ag = "ag\<lparr>ag_list := (ag_list ag)[n := ?a]\<rparr>"
    have w1: "aw_groups (set_group g ?ag w) g = Some ?ag" by (simp add: set_group_def)
    obtain w' ag' where w': "attrgroup_set_dirty g (set_group g ?ag w) = Some w'" "only_group g (set_group g ?ag w) w'"
        "aw_groups w' g = Some ag'" "ag_dirty ag'" "ag_list ag' = ag_list ?ag" "ag_storage ag' = ag_storage ?ag" "ag_loaded ag' = ag_loaded ?ag"
      using dirty_step [OF w1] by blast
    have a: "akey ?a = akey (ag_list ag ! n)" "attr_val ?a = v" by (simp_all add: attr_defs)
    note u = list_map_update [OF n(3,1) a(1)]
    have m: "ag_list ag ! n \<in> set (ag_list ag)" using n(1) by simp
    have "storable ?a" "attrgroup_escape_key st (attr_key ?a) = attr_key ?a"
      using ok m kv(1) by (auto simp: list_ok_def attr_defs storable_def storable_kv_def list_all_iff)
    then have "list_ok st ((ag_list ag)[n := ?a])"
      using ok u(1) by (auto simp: list_ok_def list_all_iff dest!: set_update_subset_insert [THEN subsetD])
    moreover have "only_group g w w'" using only_group_trans [OF list_step [OF g] w'(2)] .
    moreover have "set_found_attr g k v pos w = Some (0, w')" using g Some False w'(1) by (simp add: set_found_attr_def)
    ultimately show ?thesis using w' u(2) a n(2) by auto
  qed
qed

lemma set_loaded_step:
  assumes g: "aw_groups w g = Some ag" "ag_loaded ag" and ok: "list_ok st (ag_list ag)" and kv: "storable_kv k v"
  shows "\<exists>w' ag'. set_attr_loaded st g k v w = Some (0, w') \<and> only_group g w w' \<and> aw_groups w' g = Some ag'
    \<and> list_ok st (ag_list ag') \<and> list_map (ag_list ag') = (list_map (ag_list ag))(norm k := v)
    \<and> ag_storage ag' = ag_storage ag \<and> ag_loaded ag'
    \<and> (ag_dirty ag' \<or> (\<not> ag_dirty ag \<and> list_map (ag_list ag') = list_map (ag_list ag)))"
proof -
  let ?k = "attrgroup_escape_key st k"
  obtain pos w1 ag1 where w1: "find_attr_loaded st g ?k w = Some (pos, w1)" "only_group g w w1" "aw_groups w1 g = Some ag1"
      "list_ok st (ag_list ag1)" "list_map (ag_list ag1) = list_map (ag_list ag)" "ag_loaded ag1" "ag_dirty ag1 = ag_dirty ag"
      "ag_storage ag1 = ag_storage ag"
      "case pos of None \<Rightarrow> keyn ?k \<notin> akey ` set (ag_list ag1) | Some n \<Rightarrow> n < length (ag_list ag1) \<and> akey (ag_list ag1 ! n) = keyn ?k"
    using find_loaded_step [OF g ok, of ?k] by blast
  have kv': "storable_kv ?k v" using kv escape_quote_free_key escape_nonempty_key by (auto simp: storable_kv_def)
  obtain w' ag' where w': "set_found_attr g ?k v pos w1 = Some (0, w')" "only_group g w1 w'" "aw_groups w' g = Some ag'"
      "list_ok st (ag_list ag')" "list_map (ag_list ag') = (list_map (ag_list ag1))(keyn ?k := v)"
      "ag_storage ag' = ag_storage ag1" "ag_loaded ag' = ag_loaded ag1"
      "ag_dirty ag' \<or> (\<not> ag_dirty ag1 \<and> list_map (ag_list ag') = list_map (ag_list ag1))"
    using set_found_step [OF w1(3,4,9) kv' escape_idem] by blast
  then show ?thesis using w1 only_group_trans [OF w1(2) w'(2)] by (simp add: set_attr_loaded_def)
qed

end

section \<open>Loading and looking up\<close>

lemma loaded_step:
  assumes "aw_groups w g = Some ag" "\<not> ag_loaded ag"
  shows "\<exists>w' ag'. attrgroup_set_loaded g w = Some w' \<and> only_group g w w' \<and> aw_groups w' g = Some ag' \<and> ag' = ag\<lparr>ag_loaded := True\<rparr>"
  using assms by (auto simp: attrgroup_set_loaded_def set_group_def only_group_def attr_lists_ok_def)

lemma attr_at_map:
  assumes "aw_groups w g = Some ag" "list_ok st (ag_list ag)"
    and "case pos of None \<Rightarrow> k \<notin> akey ` set (ag_list ag) | Some n \<Rightarrow> n < length (ag_list ag) \<and> akey (ag_list ag ! n) = k"
  shows "attr_at g pos w = Some (list_map (ag_list ag) k)"
proof (cases pos)
  case None
  then show ?thesis using assms list_map_absent [of k "ag_list ag"] by (simp add: attr_at_def)
next
  case (Some n)
  then have "ag_list ag ! n \<in> set (ag_list ag)" "k = akey (ag_list ag ! n)" using assms(3) by auto
  then show ?thesis using Some assms list_map_present by (fastforce simp: attr_at_def attr_defs list_ok_def)
qed

context attr_storage
begin

lemma load_attrs_step:
  "aw_groups w g = Some ag \<Longrightarrow> ag_loaded ag \<Longrightarrow> list_ok st (ag_list ag) \<Longrightarrow> \<forall>(k, v) \<in> set kvs. storable_kv k (Some v) \<Longrightarrow>
   \<exists>w' ag'. load_attrs st g kvs w = Some w' \<and> only_group g w w' \<and> aw_groups w' g = Some ag' \<and> list_ok st (ag_list ag')
     \<and> list_map (ag_list ag') = pairs_map st kvs (list_map (ag_list ag)) \<and> ag_storage ag' = ag_storage ag \<and> ag_loaded ag'"
proof (induction kvs arbitrary: w ag)
  case Nil
  then show ?case by (intro exI [of _ w] exI [of _ ag]) simp
next
  case (Cons kv kvs)
  obtain k v where kv: "kv = (k, v)" by (cases kv)
  then have s: "storable_kv k (Some v)" using Cons.prems(4) by simp
  obtain w1 ag1 where w1: "set_attr_loaded st g k (Some v) w = Some (0, w1)" "only_group g w w1" "aw_groups w1 g = Some ag1"
      "list_ok st (ag_list ag1)" "list_map (ag_list ag1) = (list_map (ag_list ag))(norm k := Some v)"
      "ag_storage ag1 = ag_storage ag" "ag_loaded ag1"
    using set_loaded_step [OF Cons.prems(1,2,3) s] by blast
  obtain w' ag' where w': "load_attrs st g kvs w1 = Some w'" "only_group g w1 w'" "aw_groups w' g = Some ag'" "list_ok st (ag_list ag')"
      "list_map (ag_list ag') = pairs_map st kvs (list_map (ag_list ag1))" "ag_storage ag' = ag_storage ag1" "ag_loaded ag'"
    using Cons.IH [OF w1(3,7,4)] Cons.prems(4) by auto
  then show ?case using kv w1 only_group_trans [OF w1(2) w'(2)] by auto
qed

lemma load_step:
  assumes g: "aw_groups w g = Some ag" and ok: "grp_ok st (aw_disk w) m ag"
  shows "\<exists>w' ag'. attrgroup_load st g w = Some (0, w') \<and> only_group g w w' \<and> aw_groups w' g = Some ag'
    \<and> grp_ok st (aw_disk w') m ag' \<and> ag_loaded ag' \<and> ag_storage ag' = ag_storage ag"
proof (cases "ag_loaded ag")
  case True
  then show ?thesis using g ok by (simp add: attrgroup_load_def)
next
  case False
  then have e: "ag_list ag = []" "\<not> ag_dirty ag" using ok by (auto simp: grp_ok_def)
  then obtain ps where ps: "st_read_attrs st (aw_disk w) (ag_storage ag) = (0, ps)" "\<forall>(k, v) \<in> set ps. storable_kv k (Some v)"
      "m = pairs_map st ps Map.empty"
    using ok by (auto simp: grp_ok_def)
  obtain w1 where w1: "attrgroup_set_loaded g w = Some w1" "only_group g w w1" "aw_groups w1 g = Some (ag\<lparr>ag_loaded := True\<rparr>)"
    using loaded_step [OF g False] by blast
  have l1: "ag_loaded (ag\<lparr>ag_loaded := True\<rparr>)" "list_ok st (ag_list (ag\<lparr>ag_loaded := True\<rparr>))" using e(1) by (simp_all add: list_ok_def)
  obtain w2 ag2 where w2: "load_attrs st g ps w1 = Some w2" "only_group g w1 w2" "aw_groups w2 g = Some ag2" "list_ok st (ag_list ag2)"
      "list_map (ag_list ag2) = pairs_map st ps (list_map (ag_list (ag\<lparr>ag_loaded := True\<rparr>)))" "ag_storage ag2 = ag_storage (ag\<lparr>ag_loaded := True\<rparr>)"
      "ag_loaded ag2"
    using load_attrs_step [OF w1(3) l1 ps(2)] by blast
  obtain w3 where w3: "attrgroup_clear_dirty g w2 = Some w3" "only_group g w2 w3" "aw_groups w3 g = Some (ag2\<lparr>ag_dirty := False\<rparr>)"
    using clear_dirty_step [OF w2(3)] by blast
  have o: "only_group g w w3" using only_group_trans [OF w1(2) only_group_trans [OF w2(2) w3(2)]] .
  have d: "aw_disk w1 = aw_disk w" "aw_disk w3 = aw_disk w" using w1(2) o by (simp_all add: only_group_def)
  have "attrgroup_load st g w = Some (0, w3)"
    using g False e(2) w1(1) ps(1) w2(1) w3(1) d(1) by (simp add: attrgroup_load_def)
  moreover have "list_map (ag_list ag2) = m" using w2(5) e(1) ps(3) by simp
  then have "grp_ok st (aw_disk w3) m (ag2\<lparr>ag_dirty := False\<rparr>)"
    using w2(4,6,7) ps d(2) by (simp add: grp_ok_def)
  ultimately show ?thesis using o w3(3) w2(6,7) by (intro exI [of _ w3] exI [of _ "ag2\<lparr>ag_dirty := False\<rparr>"]) simp
qed

lemma find_step:
  assumes g: "aw_groups w g = Some ag" and ok: "grp_ok st (aw_disk w) m ag"
  shows "\<exists>pos w' ag'. attrgroup_find_attr st g key esc w = Some (if esc then attrgroup_escape_key st key else key, pos, w')
    \<and> only_group g w w' \<and> aw_groups w' g = Some ag' \<and> grp_ok st (aw_disk w') m ag' \<and> ag_loaded ag' \<and> ag_storage ag' = ag_storage ag
    \<and> (case pos of None \<Rightarrow> keyn (if esc then attrgroup_escape_key st key else key) \<notin> akey ` set (ag_list ag')
       | Some n \<Rightarrow> n < length (ag_list ag') \<and> akey (ag_list ag' ! n) = keyn (if esc then attrgroup_escape_key st key else key))"
proof -
  let ?k = "if esc then attrgroup_escape_key st key else key"
  obtain w1 ag1 where w1: "attrgroup_load st g w = Some (0, w1)" "only_group g w w1" "aw_groups w1 g = Some ag1"
      "grp_ok st (aw_disk w1) m ag1" "ag_loaded ag1" "ag_storage ag1 = ag_storage ag"
    using load_step [OF g ok] by blast
  have l1: "list_ok st (ag_list ag1)" using w1(4) by (simp add: grp_ok_def)
  obtain pos w2 ag2 where w2: "find_attr_loaded st g ?k w1 = Some (pos, w2)" "only_group g w1 w2" "aw_groups w2 g = Some ag2"
      "list_ok st (ag_list ag2)" "list_map (ag_list ag2) = list_map (ag_list ag1)" "ag_loaded ag2" "ag_dirty ag2 = ag_dirty ag1"
      "ag_storage ag2 = ag_storage ag1"
      "case pos of None \<Rightarrow> keyn ?k \<notin> akey ` set (ag_list ag2) | Some n \<Rightarrow> n < length (ag_list ag2) \<and> akey (ag_list ag2 ! n) = keyn ?k"
    using find_loaded_step [OF w1(3,5) l1, of ?k] by blast
  have d: "aw_disk w2 = aw_disk w1" using w2(2) by (simp add: only_group_def)
  have "grp_ok st (aw_disk w2) m ag2" using w1(4,5) w2(4-8) d unfolding grp_ok_def by metis
  then show ?thesis using w1 w2 only_group_trans [OF w1(2) w2(2)] by (auto simp: attrgroup_find_attr_def)
qed

lemma set_step:
  assumes ok: "world_ok st valid w M" and g: "aw_groups w g = Some ag" and kv: "storable_kv k v"
  shows "\<exists>w'. attrgroup_set_attr st g k v w = Some (0, w') \<and> world_ok st valid w' (M(g := (M g)(norm k := v)))
    \<and> (\<forall>h. aw_groups w' h = None \<longleftrightarrow> aw_groups w h = None) \<and> aw_defattrs w' = aw_defattrs w"
proof -
  let ?k = "attrgroup_escape_key st k"
  note W = world_okD [OF ok]
  obtain pos w1 ag1 where w1: "attrgroup_find_attr st g k True w = Some (?k, pos, w1)" "only_group g w w1" "aw_groups w1 g = Some ag1"
      "grp_ok st (aw_disk w1) (M g) ag1" "ag_loaded ag1" "ag_storage ag1 = ag_storage ag"
      "case pos of None \<Rightarrow> keyn ?k \<notin> akey ` set (ag_list ag1) | Some n \<Rightarrow> n < length (ag_list ag1) \<and> akey (ag_list ag1 ! n) = keyn ?k"
    using find_step [OF g W(1) [OF g], of k True] unfolding if_True by blast
  have l1: "list_ok st (ag_list ag1)" using w1(4) by (simp add: grp_ok_def)
  have kv': "storable_kv ?k v" using kv escape_quote_free_key escape_nonempty_key by (auto simp: storable_kv_def)
  obtain w' ag' where w': "set_found_attr g ?k v pos w1 = Some (0, w')" "only_group g w1 w'" "aw_groups w' g = Some ag'"
      "list_ok st (ag_list ag')" "list_map (ag_list ag') = (list_map (ag_list ag1))(keyn ?k := v)"
      "ag_storage ag' = ag_storage ag1" "ag_loaded ag' = ag_loaded ag1"
      "ag_dirty ag' \<or> (\<not> ag_dirty ag1 \<and> list_map (ag_list ag') = list_map (ag_list ag1))"
    using set_found_step [OF w1(3) l1 w1(7) kv' escape_idem] by blast
  have d: "aw_disk w' = aw_disk w1" using w'(2) by (simp add: only_group_def)
  have m1: "M g = list_map (ag_list ag1)" using w1(4,5) by (simp add: grp_ok_def)
  have "grp_ok st (aw_disk w') ((M g)(keyn ?k := v)) ag'" using w'(4-8) w1(4,5) m1 d unfolding grp_ok_def by auto
  then have "world_ok st valid w' (M(g := (M g)(keyn ?k := v)))"
    using world_step [OF ok only_group_trans [OF w1(2) w'(2)] g w'(3)] w'(6) w1(6) by simp
  moreover have "attrgroup_set_attr st g k v w = Some (0, w')" using w1(1) w'(1) by (simp add: attrgroup_set_attr_def)
  moreover have "\<forall>h. aw_groups w' h = None \<longleftrightarrow> aw_groups w h = None" "aw_defattrs w' = aw_defattrs w"
    using only_group_trans [OF w1(2) w'(2)] g w'(3) unfolding only_group_def by (metis option.discI)+
  ultimately show ?thesis by blast
qed

end

section \<open>Reading, saving and dropping\<close>

lemma clear_loaded_step:
  assumes g: "aw_groups w g = Some ag" and l: "ag_loaded ag"
  shows "\<exists>w' ag'. attrgroup_clear_loaded g w = Some w' \<and> only_group g w w' \<and> aw_groups w' g = Some ag'
    \<and> ag' = ag\<lparr>ag_dirty := False, ag_accessed := False, ag_loaded := False\<rparr>"
proof -
  obtain w1 where w1: "attrgroup_clear_dirty g w = Some w1" "only_group g w w1" "aw_groups w1 g = Some (ag\<lparr>ag_dirty := False\<rparr>)"
    using clear_dirty_step [OF g] by blast
  define w2 where "w2 = set_group g (ag\<lparr>ag_dirty := False, ag_accessed := False\<rparr>) w1"
  have w2: "attrgroup_clear_accessed g w1 = Some w2" "aw_groups w2 g = Some (ag\<lparr>ag_dirty := False, ag_accessed := False\<rparr>)"
    using w1(3) by (simp_all add: attrgroup_clear_accessed_def w2_def set_group_def)
  define w3 where "w3 = (set_group g (ag\<lparr>ag_dirty := False, ag_accessed := False, ag_loaded := False\<rparr>) w2)
    \<lparr>aw_loadedlist := remove1 g (aw_loadedlist w2)\<rparr>"
  have "attrgroup_clear_loaded g w = Some w3" using g l w1(1) w2 by (simp add: attrgroup_clear_loaded_def w3_def)
  moreover have "only_group g w1 w3"
    using w1(3) by (auto simp: only_group_def w3_def w2_def set_group_def attr_lists_ok_def split: if_splits)
  then have "only_group g w w3" by (rule only_group_trans [OF w1(2)])
  moreover have "aw_groups w3 g = Some (ag\<lparr>ag_dirty := False, ag_accessed := False, ag_loaded := False\<rparr>)"
    by (simp add: w3_def set_group_def)
  ultimately show ?thesis by blast
qed

lemma pairs_map_list:
  "distinct (map akey l) \<Longrightarrow> \<forall>a \<in> set l. attrgroup_escape_key st (attr_key a) = attr_key a \<Longrightarrow>
   pairs_map st (attr_pairs l) m = m ++ list_map l"
proof (induction l arbitrary: m)
  case (Cons a as)
  have "list_map as (akey a) = None" using Cons.prems(1) list_map_absent [of "akey a" as] by simp
  then have e: "(m(akey a \<mapsto> v)) ++ list_map as = m ++ (list_map as)(akey a \<mapsto> v)" "m ++ (list_map as)(akey a := None) = m ++ list_map as" for v
    by (auto simp: map_add_def fun_eq_iff split: option.splits)
  have IH: "pairs_map st (attr_pairs as) m' = m' ++ list_map as" for m' using Cons by simp
  have k: "attrgroup_escape_key st (attr_key a) = attr_key a" using Cons.prems(2) by simp
  show ?case by (cases "attr_val a") (simp_all only: attr_pairs_simps option.case append.simps pairs_map.simps k IH list_map.simps e)
qed simp

lemma list_ok_pairs:
  assumes "list_ok st l"
  shows "pairs_map st (attr_pairs l) Map.empty = list_map l" "\<forall>(k, v) \<in> set (attr_pairs l). storable_kv k (Some v)"
proof -
  show "pairs_map st (attr_pairs l) Map.empty = list_map l" using assms pairs_map_list [of l st Map.empty] by (simp add: list_ok_def)
  show "\<forall>(k, v) \<in> set (attr_pairs l). storable_kv k (Some v)"
    using assms unfolding list_ok_def by (induction l) (auto simp: storable_def storable_kv_def split: option.splits)
qed

lemma list_ok_clear_dirty: "list_ok st l \<Longrightarrow> list_ok st (map attr_clear_dirty l) \<and> list_map (map attr_clear_dirty l) = list_map l"
  by (induction l) (auto simp: list_ok_def attr_defs storable_def)

text \<open>
  The specification of a read: a map per group, whose keys are compared without case after the old names are
  translated; \<open>df\<close> is the group of default attributes.
\<close>

type_synonym attr_map = "nat \<Rightarrow> cstring \<Rightarrow> cstring option"

definition norm_key :: "('i, 'd) t_storage \<Rightarrow> cstring \<Rightarrow> cstring" where
  "norm_key st k = keyn (attrgroup_escape_key st k)"

definition spec_get :: "('i, 'd) t_storage \<Rightarrow> nat option \<Rightarrow> attr_map \<Rightarrow> nat \<Rightarrow> cstring \<Rightarrow> cstring option" where
  "spec_get st df M g k = (case M g (norm_key st k) of
     Some v \<Rightarrow> Some v
   | None \<Rightarrow> if Some g = df then None else (case df of None \<Rightarrow> None | Some d \<Rightarrow> M d (norm_key st k)))"

context attr_storage
begin

lemma get_group_step:
  assumes ok: "world_ok st valid w M" and g: "aw_groups w g = Some ag"
  shows "\<exists>pos w'. attrgroup_find_attr st g key esc w = Some (if esc then attrgroup_escape_key st key else key, pos, w')
    \<and> attr_at g pos w' = Some (M g (keyn (if esc then attrgroup_escape_key st key else key)))
    \<and> world_ok st valid w' M \<and> (\<forall>h. aw_groups w' h = None \<longleftrightarrow> aw_groups w h = None) \<and> aw_defattrs w' = aw_defattrs w"
proof -
  let ?k = "if esc then attrgroup_escape_key st key else key"
  obtain pos w1 ag1 where w1: "attrgroup_find_attr st g key esc w = Some (?k, pos, w1)" "only_group g w w1" "aw_groups w1 g = Some ag1"
      "grp_ok st (aw_disk w1) (M g) ag1" "ag_loaded ag1" "ag_storage ag1 = ag_storage ag"
      "case pos of None \<Rightarrow> keyn ?k \<notin> akey ` set (ag_list ag1) | Some n \<Rightarrow> n < length (ag_list ag1) \<and> akey (ag_list ag1 ! n) = keyn ?k"
    using find_step [OF g world_okD(1) [OF ok g], of key esc] by blast
  have l1: "list_ok st (ag_list ag1)" and m1: "M g = list_map (ag_list ag1)" using w1(4,5) by (simp_all add: grp_ok_def)
  have "attr_at g pos w1 = Some (M g (keyn ?k))" using attr_at_map [OF w1(3) l1 w1(7)] m1 by simp
  moreover have "world_ok st valid w1 M" using world_step [OF ok w1(2) g w1(3,6,4)] by simp
  moreover have "\<forall>h. aw_groups w1 h = None \<longleftrightarrow> aw_groups w h = None" "aw_defattrs w1 = aw_defattrs w"
    using w1(2,3) g unfolding only_group_def by (metis option.discI)+
  ultimately show ?thesis using w1(1) by blast
qed

lemma get_step:
  assumes ok: "world_ok st valid w M" and g: "aw_groups w g \<noteq> None"
  shows "\<exists>w'. attrgroup_get_attr st g k w = Some (spec_get st (aw_defattrs w) M g k, w')
    \<and> world_ok st valid w' M \<and> (\<forall>h. aw_groups w' h = None \<longleftrightarrow> aw_groups w h = None) \<and> aw_defattrs w' = aw_defattrs w"
proof -
  let ?k = "attrgroup_escape_key st k"
  obtain ag where ag: "aw_groups w g = Some ag" using g by blast
  obtain pos w1 where w1: "attrgroup_find_attr st g k True w = Some (?k, pos, w1)" "attr_at g pos w1 = Some (M g (keyn ?k))"
      "world_ok st valid w1 M" "\<forall>h. aw_groups w1 h = None \<longleftrightarrow> aw_groups w h = None" "aw_defattrs w1 = aw_defattrs w"
    using get_group_step [OF ok ag, of k True] unfolding if_True by blast
  show ?thesis
  proof (cases "M g (norm k) = None \<and> Some g \<noteq> aw_defattrs w")
    case False
    then have "attrgroup_get_attr st g k w = Some (spec_get st (aw_defattrs w) M g k, w1)"
      using w1(1,2,5) by (auto simp: attrgroup_get_attr_def spec_get_def norm_key_def split: option.split)
    then show ?thesis using w1 by blast
  next
    case True
    obtain d dg where d: "aw_defattrs w = Some d" "aw_groups w1 d = Some dg" using world_okD(5) [OF w1(3)] w1(5) by auto
    obtain pos2 w2 where w2: "attrgroup_find_attr st d ?k False w1 = Some (?k, pos2, w2)" "attr_at d pos2 w2 = Some (M d (keyn ?k))"
        "world_ok st valid w2 M" "\<forall>h. aw_groups w2 h = None \<longleftrightarrow> aw_groups w1 h = None" "aw_defattrs w2 = aw_defattrs w1"
      using get_group_step [OF w1(3) d(2), of ?k False] unfolding if_False by blast
    have "attrgroup_get_attr st g k w = Some (spec_get st (aw_defattrs w) M g k, w2)"
      using w1 w2(1,2) True d(1) by (simp add: attrgroup_get_attr_def spec_get_def norm_key_def)
    then show ?thesis using w1 w2 by auto
  qed
qed

lemma save_step:
  assumes ok: "world_ok st valid w M" and g: "aw_groups w g = Some ag"
  shows "\<exists>rc w' ag'. attrgroup_save st conf g force w = Some (rc, w') \<and> world_ok st valid w' M \<and> aw_groups w' g = Some ag'
    \<and> ag_loaded ag' = ag_loaded ag \<and> (force \<longrightarrow> \<not> ag_dirty ag') \<and> rc = (if ag_dirty ag' = ag_dirty ag then 0 else 1)
    \<and> only_group g (w\<lparr>aw_disk := aw_disk w'\<rparr>) w'"
proof (cases "ag_loaded ag \<and> ag_dirty ag \<and> (force \<or> \<not> aw_now w - ag_dirtytime ag < ac_user_sync_timer conf)")
  case False
  have "\<not> ag_loaded ag \<Longrightarrow> \<not> ag_dirty ag" using world_okD(1) [OF ok g] by (simp add: grp_ok_def)
  then show ?thesis using ok g False by (auto simp: attrgroup_save_def)
next
  case True
  note W = world_okD [OF ok]
  have l: "list_ok st (ag_list ag)" "M g = list_map (ag_list ag)" using W(1) [OF g] True by (simp_all add: grp_ok_def)
  obtain d' where d': "st_write_attrs st (aw_disk w) (ag_storage ag) (ag_list ag) = (0, d', map attr_clear_dirty (ag_list ag))"
      "st_read_attrs st d' (ag_storage ag) = (0, attr_pairs (ag_list ag))"
      "\<forall>j. valid j \<longrightarrow> j \<noteq> ag_storage ag \<longrightarrow> st_read_attrs st d' j = st_read_attrs st (aw_disk w) j"
    using write_read [OF W(2) [OF g]] l(1) unfolding list_ok_def by blast
  define ag1 where "ag1 = ag\<lparr>ag_list := map attr_clear_dirty (ag_list ag)\<rparr>"
  define w0 where "w0 = set_group g ag1 (w\<lparr>aw_disk := d'\<rparr>)"
  have w0: "(set_group g ag1 w)\<lparr>aw_disk := d'\<rparr> = w0" by (cases w) (simp add: w0_def set_group_def)
  have g0: "aw_groups w0 g = Some ag1" by (simp add: w0_def set_group_def)
  have "only_group g (w\<lparr>aw_disk := d'\<rparr>) w0"
    using list_step [of "w\<lparr>aw_disk := d'\<rparr>" g ag "map attr_clear_dirty (ag_list ag)"] g by (simp add: w0_def ag1_def)
  moreover obtain w1 where w1: "attrgroup_clear_dirty g w0 = Some w1" "only_group g w0 w1" "aw_groups w1 g = Some (ag1\<lparr>ag_dirty := False\<rparr>)"
    using clear_dirty_step [OF g0] by blast
  ultimately have o: "only_group g (w\<lparr>aw_disk := d'\<rparr>) w1" using only_group_trans by blast
  then have dk: "aw_disk w1 = d'" by (simp add: only_group_def)
  have "grp_ok st (aw_disk w1) (M g) (ag1\<lparr>ag_dirty := False\<rparr>)"
    unfolding grp_ok_def dk using True l d'(2) list_ok_clear_dirty [OF l(1)] list_ok_pairs [OF l(1)] by (simp add: ag1_def)
  then have "world_ok st valid w1 M"
    using world_disk_step [OF ok o g w1(3) _ _ d'(3), of "M g"] by (simp add: ag1_def)
  moreover have "attrgroup_save st conf g force w = Some (1, w1)"
    using g True d'(1) w1(1) w0 unfolding ag1_def by (auto simp: attrgroup_save_def)
  ultimately show ?thesis using w1(3) o dk True by (auto simp: ag1_def)
qed

lemma flush_step:
  assumes ok: "world_ok st valid w M" and g: "aw_groups w g = Some ag"
  shows "\<exists>rc w' ag'. attrgroup_flush st conf g force w = Some (rc, w') \<and> world_ok st valid w' M \<and> aw_groups w' g = Some ag'
    \<and> (force \<longrightarrow> \<not> ag_loaded ag') \<and> rc = (if ag_loaded ag' = ag_loaded ag then 0 else 1)
    \<and> only_group g (w\<lparr>aw_disk := aw_disk w'\<rparr>) w'"
proof (cases "ag_loaded ag \<and> (force \<or> \<not> (ag_accessed ag \<and> aw_now w - ag_lastaccess ag < ac_user_flush_timer conf))")
  case False
  then show ?thesis using ok g by (auto simp: attrgroup_flush_def)
next
  case True
  obtain rc w1 ag1 where w1: "attrgroup_save st conf g True w = Some (rc, w1)" "world_ok st valid w1 M" "aw_groups w1 g = Some ag1"
      "ag_loaded ag1" "\<not> ag_dirty ag1" "only_group g (w\<lparr>aw_disk := aw_disk w1\<rparr>) w1"
    using save_step [OF ok g, of conf True] True by blast
  define w2 where "w2 = set_group g (ag1\<lparr>ag_list := []\<rparr>) w1"
  have g2: "aw_groups w2 g = Some (ag1\<lparr>ag_list := []\<rparr>)" by (simp add: w2_def set_group_def)
  obtain w3 ag3 where w3: "attrgroup_clear_loaded g w2 = Some w3" "only_group g w2 w3" "aw_groups w3 g = Some ag3"
      "ag3 = (ag1\<lparr>ag_list := []\<rparr>)\<lparr>ag_dirty := False, ag_accessed := False, ag_loaded := False\<rparr>"
    using clear_loaded_step [OF g2] w1(4) by auto
  have o: "only_group g w1 w3" using only_group_trans [OF list_step [OF w1(3)] w3(2) [unfolded w2_def]] .
  have dk: "aw_disk w3 = aw_disk w1" using o by (simp add: only_group_def)
  have "grp_ok st (aw_disk w3) (M g) ag3"
    using world_okD(1) [OF w1(2,3)] w1(5) w3(4) dk by (simp add: grp_ok_def list_ok_def)
  then have "world_ok st valid w3 M" using world_step [OF w1(2) o w1(3) w3(3), of "M g"] w3(4) by simp
  moreover have "attrgroup_flush st conf g force w = Some (1, w3)"
    using g True w1(1,3) w3(1) by (auto simp: attrgroup_flush_def w2_def)
  moreover have "only_group g (w\<lparr>aw_disk := aw_disk w3\<rparr>) w3" using only_group_trans [OF w1(6)] o dk by simp
  ultimately show ?thesis using w3(3,4) True by auto
qed

end

end
