(* ===== verification/Attr_Props.thy ===== *)
theory Attr_Props
  imports Attr_Layer
begin

text \<open>
  The properties of the attribute cache: it answers as a map does over any sequence of operations and
  sweeps, a full sweep leaves nothing that only the memory holds; a failed write is not noticed, and a
  sweep that stops at a group that is saved by other means stays there.
\<close>

section \<open>Full sweeps\<close>

lemma sweep_succ_first: "sweep_succ xs (sweep_first xs) = Some (sweep_first (tl xs))"
  by (cases xs) (simp_all add: sweep_succ_def sweep_first_def)

lemma sweep_loop_all:
  assumes step: "\<And>w g xs. I w \<Longrightarrow> lst w = g # xs \<Longrightarrow> \<exists>w1. act g w = Some (1, w1) \<and> I w1 \<and> lst w1 = xs"
  shows "I w \<Longrightarrow> length (lst w) < n \<Longrightarrow> \<exists>w'. sweep_loop act lst True k n t \<lparr>sw_curr = sweep_first (lst w), sw_next = sweep_first (tl (lst w))\<rparr> w
    = Some (\<lparr>sw_curr = None, sw_next = sweep_first []\<rparr>, w') \<and> I w' \<and> lst w' = []"
proof (induction "lst w" arbitrary: w n t)
  case Nil
  then obtain m where "n = Suc m" using gr0_conv_Suc by auto
  then show ?case using Nil by (simp add: sweep_first_def flip: Nil(1))
next
  case (Cons g xs)
  obtain m where n: "n = Suc m" "length xs < m" using Cons by (cases n) (auto simp flip: Cons.hyps(2))
  obtain w1 where w1: "act g w = Some (1, w1)" "I w1" "lst w1 = xs" using step [OF Cons.prems(1)] Cons.hyps(2) by metis
  have s: "sweep_succ xs (sweep_first xs) = Some (sweep_first (tl xs))" by (rule sweep_succ_first)
  show ?case using Cons.hyps(1) [of w1 m "t + 1"] w1 n s by (simp add: sweep_first_def [of "g # xs"] flip: Cons.hyps(2))
qed

lemma sweep_run_all:
  assumes "\<And>w g xs. I w \<Longrightarrow> lst w = g # xs \<Longrightarrow> \<exists>w1. act g w = Some (1, w1) \<and> I w1 \<and> lst w1 = xs" "I w"
  shows "\<exists>c' w'. sweep_run act lst True k c w = Some (0, c', w') \<and> I w' \<and> lst w' = []"
proof -
  obtain w' where "sweep_loop act lst True k (Suc (length (lst w))) 0 \<lparr>sw_curr = sweep_first (lst w), sw_next = sweep_first (tl (lst w))\<rparr> w
      = Some (\<lparr>sw_curr = None, sw_next = sweep_first []\<rparr>, w')" "I w'" "lst w' = []"
    using sweep_loop_all [where act = act and lst = lst and n = "Suc (length (lst w))", OF assms] by blast
  then show ?thesis by (simp add: sweep_run_def sweep_succ_first del: sweep_loop.simps)
qed

lemma save_lists: "attrgroup_save st conf g f w = Some (rc, w') \<Longrightarrow>
    aw_loadedlist w' = aw_loadedlist w \<and> (rc = 0 \<longrightarrow> aw_dirtylist w' = aw_dirtylist w) \<and> (rc \<noteq> 0 \<longrightarrow> aw_dirtylist w' = remove1 g (aw_dirtylist w))
    \<and> (\<forall>h. aw_groups w' h = None \<longleftrightarrow> aw_groups w h = None) \<and> aw_defattrs w' = aw_defattrs w"
  by (auto simp: attrgroup_save_def attrgroup_clear_dirty_def set_group_def split: if_splits prod.splits bind_splits)

lemma save_keeps_loaded: "attrgroup_save st conf g f w = Some (rc, w') \<Longrightarrow> aw_groups w g = Some ag \<Longrightarrow>
    \<exists>ag1. aw_groups w' g = Some ag1 \<and> ag_loaded ag1 = ag_loaded ag"
  by (auto simp: attrgroup_save_def attrgroup_clear_dirty_def set_group_def split: if_splits prod.splits bind_splits)

lemma clear_loaded_lists: "attrgroup_clear_loaded g w = Some w' \<Longrightarrow> aw_groups w g = Some ag \<Longrightarrow> ag_loaded ag \<Longrightarrow>
    aw_loadedlist w' = remove1 g (aw_loadedlist w) \<and> (\<forall>h. aw_groups w' h = None \<longleftrightarrow> aw_groups w h = None) \<and> aw_defattrs w' = aw_defattrs w"
  by (cases "ag_dirty ag") (auto simp: attrgroup_clear_loaded_def attrgroup_clear_dirty_def attrgroup_clear_accessed_def set_group_def split: if_splits)

lemma flush_lists:
  assumes "attrgroup_flush st conf g f w = Some (rc, w')"
  shows "(rc = 0 \<longrightarrow> aw_loadedlist w' = aw_loadedlist w) \<and> (rc \<noteq> 0 \<longrightarrow> aw_loadedlist w' = remove1 g (aw_loadedlist w))
    \<and> (\<forall>h. aw_groups w' h = None \<longleftrightarrow> aw_groups w h = None) \<and> aw_defattrs w' = aw_defattrs w"
proof -
  obtain ag where ag: "aw_groups w g = Some ag" using assms by (auto simp: attrgroup_flush_def split: bind_splits)
  show ?thesis
  proof (cases "ag_loaded ag \<and> (f \<or> \<not> (ag_accessed ag \<and> aw_now w - ag_lastaccess ag < ac_user_flush_timer conf))")
    case False
    then show ?thesis using assms ag by (auto simp: attrgroup_flush_def split: if_splits)
  next
    case True
    then obtain rc1 w1 ag1 where w1: "attrgroup_save st conf g True w = Some (rc1, w1)" "aw_groups w1 g = Some ag1" "rc = 1"
        "attrgroup_clear_loaded g (set_group g (ag1\<lparr>ag_list := []\<rparr>) w1) = Some w'"
      using assms ag by (auto simp: attrgroup_flush_def split: if_splits bind_splits)
    have "ag_loaded ag1" using save_keeps_loaded [OF w1(1) ag] w1(2) True by simp
    then show ?thesis using clear_loaded_lists [OF w1(4)] save_lists [OF w1(1)] w1(2,3) ag by (auto simp: set_group_def)
  qed
qed

section \<open>The cache as a map\<close>

datatype attr_op =
    Op_get nat cstring
  | Op_set nat cstring "cstring option"
  | Op_load nat
  | Op_save nat bool
  | Op_flush nat bool
  | Op_save_all
  | Op_flush_all
  | Op_time int

text \<open>One operation, with the value a read gives; \<open>None\<close> is an access to a group that does not exist.\<close>

definition attr_step ::
  "('i, 'd) t_storage \<Rightarrow> attr_conf \<Rightarrow> attr_op \<Rightarrow> ('i, 'd) attr_world \<Rightarrow> (cstring option \<times> ('i, 'd) attr_world) option" where
  "attr_step st conf op w = (case op of
     Op_get g k \<Rightarrow> attrgroup_get_attr st g k w
   | Op_set g k v \<Rightarrow> map_option (\<lambda>(_, w1). (None, w1)) (attrgroup_set_attr st g k v w)
   | Op_load g \<Rightarrow> map_option (\<lambda>(_, w1). (None, w1)) (attrgroup_load st g w)
   | Op_save g force \<Rightarrow> map_option (\<lambda>(_, w1). (None, w1)) (attrgroup_save st conf g force w)
   | Op_flush g force \<Rightarrow> map_option (\<lambda>(_, w1). (None, w1)) (attrgroup_flush st conf g force w)
   | Op_save_all \<Rightarrow> map_option (\<lambda>(_, _, w1). (None, w1)) (attrlayer_save st conf True True 0 \<lparr>sw_curr = None, sw_next = None\<rparr> w)
   | Op_flush_all \<Rightarrow> map_option (\<lambda>(_, _, w1). (None, w1)) (attrlayer_flush st conf True True 0 \<lparr>sw_curr = None, sw_next = None\<rparr> w)
   | Op_time t \<Rightarrow> Some (None, w\<lparr>aw_now := t\<rparr>))"

fun attr_run ::
  "('i, 'd) t_storage \<Rightarrow> attr_conf \<Rightarrow> attr_op list \<Rightarrow> ('i, 'd) attr_world \<Rightarrow> (cstring option list \<times> ('i, 'd) attr_world) option" where
  "attr_run st conf [] w = Some ([], w)"
| "attr_run st conf (op # ops) w = do {
     (v, w1) \<leftarrow> attr_step st conf op w;
     (vs, w2) \<leftarrow> attr_run st conf ops w1;
     Some (v # vs, w2) }"

text \<open>The specification: only a write changes the map.\<close>

definition spec_step :: "('i, 'd) t_storage \<Rightarrow> nat option \<Rightarrow> attr_op \<Rightarrow> attr_map \<Rightarrow> cstring option \<times> attr_map" where
  "spec_step st df op M = (case op of
     Op_get g k \<Rightarrow> (spec_get st df M g k, M)
   | Op_set g k v \<Rightarrow> (None, M(g := (M g)(norm_key st k := v)))
   | _ \<Rightarrow> (None, M))"

fun spec_run :: "('i, 'd) t_storage \<Rightarrow> nat option \<Rightarrow> attr_op list \<Rightarrow> attr_map \<Rightarrow> cstring option list \<times> attr_map" where
  "spec_run st df [] M = ([], M)"
| "spec_run st df (op # ops) M = (let (v, M1) = spec_step st df op M; (vs, M2) = spec_run st df ops M1 in (v # vs, M2))"

definition op_ok :: "('i, 'd) attr_world \<Rightarrow> attr_op \<Rightarrow> bool" where
  "op_ok w op = (case op of
     Op_get g _ \<Rightarrow> aw_groups w g \<noteq> None
   | Op_set g k v \<Rightarrow> aw_groups w g \<noteq> None \<and> storable_kv k v
   | Op_load g \<Rightarrow> aw_groups w g \<noteq> None
   | Op_save g _ \<Rightarrow> aw_groups w g \<noteq> None
   | Op_flush g _ \<Rightarrow> aw_groups w g \<noteq> None
   | _ \<Rightarrow> True)"

definition same_groups :: "('i, 'd) attr_world \<Rightarrow> ('i, 'd) attr_world \<Rightarrow> bool" where
  "same_groups w w' \<longleftrightarrow> (\<forall>h. aw_groups w' h = None \<longleftrightarrow> aw_groups w h = None) \<and> aw_defattrs w' = aw_defattrs w"

lemma same_groups_op_ok: "same_groups w w' \<Longrightarrow> op_ok w' op = op_ok w op"
  by (auto simp: same_groups_def op_ok_def split: attr_op.split)

lemma only_group_same: "only_group g w w' \<Longrightarrow> aw_groups w g = Some ag \<Longrightarrow> aw_groups w' g = Some ag' \<Longrightarrow> same_groups w w'"
  unfolding only_group_def same_groups_def by (metis option.discI)

context attr_storage
begin

lemma save_all_step:
  assumes "world_ok st valid w M"
  shows "\<exists>c' w'. attrlayer_save st conf True True k c w = Some (0, c', w') \<and> world_ok st valid w' M \<and> same_groups w w' \<and> aw_dirtylist w' = []"
  unfolding attrlayer_save_def
proof -
  let ?I = "\<lambda>w'. world_ok st valid w' M \<and> same_groups w w'"
  have "\<exists>w2. attrgroup_save st conf g True w1 = Some (1, w2) \<and> ?I w2 \<and> aw_dirtylist w2 = xs"
    if I: "?I w1" and l: "aw_dirtylist w1 = g # xs" for w1 g xs
  proof -
    obtain ag where ag: "aw_groups w1 g = Some ag" "ag_dirty ag"
      using world_okD(4) [OF conjunct1 [OF I]] list.set_intros(1) [of g xs] unfolding attr_lists_ok_def l by blast
    obtain rc w2 ag2 where w2: "attrgroup_save st conf g True w1 = Some (rc, w2)" "world_ok st valid w2 M" "aw_groups w2 g = Some ag2" "\<not> ag_dirty ag2"
        "rc = (if ag_dirty ag2 = ag_dirty ag then 0 else 1)"
      using save_step [OF conjunct1 [OF I] ag(1), of conf True] by blast
    then show ?thesis using save_lists [OF w2(1)] I l ag(2) by (auto simp: same_groups_def)
  qed
  then show "\<exists>c' w'. sweep_run (\<lambda>g. attrgroup_save st conf g True) aw_dirtylist True k c w = Some (0, c', w') \<and> world_ok st valid w' M
      \<and> same_groups w w' \<and> aw_dirtylist w' = []"
    using sweep_run_all [where I = ?I and lst = aw_dirtylist and act = "\<lambda>g. attrgroup_save st conf g True"] assms
    by (simp add: same_groups_def)
qed

lemma flush_all_step:
  assumes "world_ok st valid w M"
  shows "\<exists>c' w'. attrlayer_flush st conf True True k c w = Some (0, c', w') \<and> world_ok st valid w' M \<and> same_groups w w' \<and> aw_loadedlist w' = []"
  unfolding attrlayer_flush_def
proof -
  let ?I = "\<lambda>w'. world_ok st valid w' M \<and> same_groups w w'"
  have "\<exists>w2. attrgroup_flush st conf g True w1 = Some (1, w2) \<and> ?I w2 \<and> aw_loadedlist w2 = xs"
    if I: "?I w1" and l: "aw_loadedlist w1 = g # xs" for w1 g xs
  proof -
    obtain ag where ag: "aw_groups w1 g = Some ag" "ag_loaded ag"
      using world_okD(4) [OF conjunct1 [OF I]] list.set_intros(1) [of g xs] unfolding attr_lists_ok_def l by blast
    obtain rc w2 ag2 where w2: "attrgroup_flush st conf g True w1 = Some (rc, w2)" "world_ok st valid w2 M" "aw_groups w2 g = Some ag2" "\<not> ag_loaded ag2"
        "rc = (if ag_loaded ag2 = ag_loaded ag then 0 else 1)"
      using flush_step [OF conjunct1 [OF I] ag(1), of conf True] by blast
    then show ?thesis using flush_lists [OF w2(1)] I l ag(2) by (auto simp: same_groups_def)
  qed
  then show "\<exists>c' w'. sweep_run (\<lambda>g. attrgroup_flush st conf g True) aw_loadedlist True k c w = Some (0, c', w') \<and> world_ok st valid w' M
      \<and> same_groups w w' \<and> aw_loadedlist w' = []"
    using sweep_run_all [where I = ?I and lst = aw_loadedlist and act = "\<lambda>g. attrgroup_flush st conf g True"] assms
    by (simp add: same_groups_def)
qed

lemma step_refines:
  assumes ok: "world_ok st valid w M" and op: "op_ok w op"
  shows "\<exists>w'. attr_step st conf op w = Some (fst (spec_step st (aw_defattrs w) op M), w')
    \<and> world_ok st valid w' (snd (spec_step st (aw_defattrs w) op M)) \<and> same_groups w w'"
proof (cases op)
  case (Op_get g k)
  then show ?thesis using get_step [OF ok, of g k] op by (auto simp: attr_step_def spec_step_def op_ok_def same_groups_def)
next
  case (Op_set g k v)
  then obtain ag where "aw_groups w g = Some ag" "storable_kv k v" using op by (auto simp: op_ok_def)
  then show ?thesis using Op_set set_step [OF ok] by (fastforce simp: attr_step_def spec_step_def same_groups_def norm_key_def)
next
  case (Op_load g)
  then obtain ag where ag: "aw_groups w g = Some ag" using op by (auto simp: op_ok_def)
  obtain w' ag' where w': "attrgroup_load st g w = Some (0, w')" "only_group g w w'" "aw_groups w' g = Some ag'"
      "grp_ok st (aw_disk w') (M g) ag'" "ag_storage ag' = ag_storage ag"
    using load_step [OF ag world_okD(1) [OF ok ag]] by blast
  then show ?thesis
    using Op_load world_step [OF ok w'(2) ag w'(3) w'(5,4)] only_group_same [OF w'(2) ag] by (simp add: attr_step_def spec_step_def)
next
  case (Op_save g f)
  then obtain ag where ag: "aw_groups w g = Some ag" using op by (auto simp: op_ok_def)
  obtain rc w' where w': "attrgroup_save st conf g f w = Some (rc, w')" "world_ok st valid w' M"
    using save_step [OF ok ag, of conf f] by blast
  then show ?thesis using Op_save save_lists [OF w'(1)] by (simp add: attr_step_def spec_step_def same_groups_def)
next
  case (Op_flush g f)
  then obtain ag where ag: "aw_groups w g = Some ag" using op by (auto simp: op_ok_def)
  obtain rc w' where w': "attrgroup_flush st conf g f w = Some (rc, w')" "world_ok st valid w' M"
    using flush_step [OF ok ag, of conf f] by blast
  then show ?thesis using Op_flush flush_lists [OF w'(1)] by (simp add: attr_step_def spec_step_def same_groups_def)
next
  case Op_save_all
  then show ?thesis using save_all_step [OF ok] by (fastforce simp: attr_step_def spec_step_def)
next
  case Op_flush_all
  then show ?thesis using flush_all_step [OF ok] by (fastforce simp: attr_step_def spec_step_def)
next
  case (Op_time t)
  have "world_ok st valid (w\<lparr>aw_now := t\<rparr>) M" using ok by (simp add: world_ok_def attr_lists_ok_def)
  then show ?thesis using Op_time by (simp add: attr_step_def spec_step_def same_groups_def)
qed

lemma run_refines:
  "world_ok st valid w M \<Longrightarrow> \<forall>op \<in> set ops. op_ok w op \<Longrightarrow>
   \<exists>w'. attr_run st conf ops w = Some (fst (spec_run st (aw_defattrs w) ops M), w')
     \<and> world_ok st valid w' (snd (spec_run st (aw_defattrs w) ops M)) \<and> same_groups w w'"
proof (induction ops arbitrary: w M)
  case Nil
  then show ?case by (simp add: same_groups_def)
next
  case (Cons op ops)
  obtain v M1 where s: "spec_step st (aw_defattrs w) op M = (v, M1)" by (cases "spec_step st (aw_defattrs w) op M")
  obtain vs M2 where r: "spec_run st (aw_defattrs w) ops M1 = (vs, M2)" by (cases "spec_run st (aw_defattrs w) ops M1")
  obtain w1 where w1: "attr_step st conf op w = Some (v, w1)" "world_ok st valid w1 M1" "same_groups w w1"
    using step_refines [OF Cons.prems(1), of op conf] Cons.prems(2) s by auto
  have d: "aw_defattrs w1 = aw_defattrs w" using w1(3) by (simp add: same_groups_def)
  obtain w2 where w2: "attr_run st conf ops w1 = Some (vs, w2)" "world_ok st valid w2 M2" "same_groups w1 w2"
    using Cons.IH [OF w1(2)] Cons.prems(2) same_groups_op_ok [OF w1(3)] r d by auto
  have "same_groups w w2" using w1(3) w2(3) by (simp add: same_groups_def)
  then show ?case using w1(1) w2 s r by simp
qed

end

section \<open>Properties\<close>

abbreviation plain_storage :: "cstring \<Rightarrow> (cstring, file_system) t_storage" where
  "plain_storage dir \<equiv> file_storage (file_conf_ok dir)"

abbreviation plain_ok :: "cstring \<Rightarrow> (cstring, file_system) attr_world \<Rightarrow> attr_map \<Rightarrow> bool" where
  "plain_ok dir \<equiv> world_ok (plain_storage dir) (\<lambda>i. i \<noteq> account_tmp dir)"

text \<open>A world with two groups whose files are empty; group 0 has the defaults.\<close>

definition empty_group :: "cstring \<Rightarrow> cstring t_attrgroup" where
  "empty_group i = \<lparr>ag_list = [], ag_storage = i, ag_loaded = False, ag_accessed = False, ag_dirty = False, ag_lastaccess = 0, ag_dirtytime = 0\<rparr>"

definition empty_world :: "(cstring, file_system) attr_world" where
  "empty_world = \<lparr>aw_disk = [''d'' \<mapsto> [], ''u'' \<mapsto> []], aw_groups = [0 \<mapsto> empty_group ''d'', 1 \<mapsto> empty_group ''u''], aw_fresh = 2,
     aw_loadedlist = [], aw_dirtylist = [], aw_now = 0, aw_defattrs = Some 0\<rparr>"

lemma empty_world_ok: "plain_ok ''v'' empty_world (\<lambda>_. Map.empty)"
  by (auto simp: world_ok_def empty_world_def empty_group_def grp_ok_def list_ok_def attr_lists_ok_def account_tmp_def
    file_defs_ok map_filter_simps split: if_splits)

text \<open>
  C3. The cache of attributes over the plain files answers as a map of keys to values: for any sequence of
  reads, writes, loads, saves, flushes, full sweeps and changes of the clock on groups that exist, with keys
  and values that a file can hold, the reads give what the map gives (the default group's value where a group
  has none), and the invariant that ties the cache and the files to the map holds at the end.
\<close>

theorem attr_cache_refines_map:
  assumes "plain_ok dir w M" "\<forall>op \<in> set ops. op_ok w op"
  shows "\<exists>w'. attr_run (plain_storage dir) conf ops w = Some (fst (spec_run (plain_storage dir) (aw_defattrs w) ops M), w')
    \<and> plain_ok dir w' (snd (spec_run (plain_storage dir) (aw_defattrs w) ops M))"
  using plain.run_refines [OF assms, of conf] by blast

theorem attr_cache_refines_map_witness:
  "\<exists>w'. attr_run (plain_storage ''v'') \<lparr>ac_user_sync_timer = 300, ac_user_flush_timer = 1200\<rparr>
      [Op_set 1 ''Star'' (Some ''x''), Op_set 0 ''b'' (Some ''y''), Op_flush_all, Op_get 1 ''star'', Op_get 1 ''B'', Op_get 1 ''c''] empty_world
    = Some ([None, None, None, Some ''x'', Some ''y'', None], w')"
proof -
  let ?ops = "[Op_set 1 ''Star'' (Some ''x''), Op_set 0 ''b'' (Some ''y''), Op_flush_all, Op_get 1 ''star'', Op_get 1 ''B'', Op_get 1 ''c'']"
  have ok: "\<forall>op \<in> set ?ops. op_ok empty_world op"
    by (simp add: op_ok_def empty_world_def storable_kv_def quote_free_def)
  have n: "norm_key (plain_storage ''v'') ''Star'' = ''star''" "norm_key (plain_storage ''v'') ''star'' = ''star''"
    "norm_key (plain_storage ''v'') ''b'' = ''b''" "norm_key (plain_storage ''v'') ''B'' = ''b''" "norm_key (plain_storage ''v'') ''c'' = ''c''"
    by (code_simp)+
  have "fst (spec_run (plain_storage ''v'') (aw_defattrs empty_world) ?ops (\<lambda>_. Map.empty)) = [None, None, None, Some ''x'', Some ''y'', None]"
    by (simp add: spec_step_def spec_get_def n empty_world_def)
  then show ?thesis
    using attr_cache_refines_map [OF empty_world_ok ok, of "\<lparr>ac_user_sync_timer = 300, ac_user_flush_timer = 1200\<rparr>"] by auto
qed



text \<open>
  C38. A save whose file cannot be written is not noticed: when \<open>attrgroup_flush\<close> saves a modified group to a
  storage that fails to open the file, it reports success, the file system is as before, and the attributes
  are dropped from memory.
\<close>

theorem failed_save_loses_attributes:
  assumes g: "aw_groups w g = Some ag" and l: "ag_loaded ag" "ag_dirty ag"
  shows "\<exists>w' ag'. attrgroup_flush (file_storage \<lparr>fc_accountsdir = Some dir, fc_can_write = False, fc_can_rename = r\<rparr>) conf g True w = Some (1, w')
    \<and> aw_disk w' = aw_disk w \<and> aw_groups w' g = Some ag' \<and> ag_list ag' = [] \<and> \<not> ag_loaded ag' \<and> \<not> ag_dirty ag'"
  using assms
  by (simp add: attrgroup_flush_def attrgroup_save_def file_storage_def file_write_attrs_def plain_write_attrs_def set_group_def
    attrgroup_clear_dirty_def attrgroup_clear_loaded_def attrgroup_clear_accessed_def)

theorem failed_save_loses_attributes_witness:
  "\<exists>w' ag'. attrgroup_flush (file_storage \<lparr>fc_accountsdir = Some ''v'', fc_can_write = False, fc_can_rename = True\<rparr>)
      \<lparr>ac_user_sync_timer = 300, ac_user_flush_timer = 1200\<rparr> 1 True
      (set_group 1 ((empty_group ''u'')\<lparr>ag_list := [attr_create ''a'' (Some ''x'')], ag_loaded := True, ag_dirty := True\<rparr>) empty_world) = Some (1, w')
    \<and> aw_disk w' = aw_disk empty_world \<and> aw_groups w' 1 = Some ag' \<and> ag_list ag' = []"
proof -
  let ?ag = "(empty_group ''u'')\<lparr>ag_list := [attr_create ''a'' (Some ''x'')], ag_loaded := True, ag_dirty := True\<rparr>"
  have "aw_groups (set_group 1 ?ag empty_world) 1 = Some ?ag" "aw_disk (set_group 1 ?ag empty_world) = aw_disk empty_world" "ag_loaded ?ag" "ag_dirty ?ag"
    by (simp_all add: set_group_def)
  then show ?thesis
    using failed_save_loses_attributes [of "set_group 1 ?ag empty_world" 1 "?ag" "''v''" True "\<lparr>ac_user_sync_timer = 300, ac_user_flush_timer = 1200\<rparr>"]
    by metis
qed

text \<open>A load that fails is not tried again: the group counts as loaded, with no attributes.\<close>

lemma failed_load_sticks:
  assumes "aw_groups w g = Some ag" "\<not> ag_loaded ag" "\<not> ag_dirty ag" "aw_disk w (ag_storage ag) = None"
  shows "\<exists>w'. attrgroup_load (plain_storage dir) g w = Some (-1, w') \<and> attrgroup_load (plain_storage dir) g w' = Some (0, w')
    \<and> aw_groups w' g = Some (ag\<lparr>ag_loaded := True\<rparr>)"
  using assms by (simp add: attrgroup_load_def attrgroup_set_loaded_def set_group_def file_defs_ok)

text \<open>
  A sweep that has stopped at a group, by its step or because it was modified too recently, does not move on
  once the group is saved by other means: \<open>attrgroup_save\<close> gives 0 for it, and the sweep stops there again.
\<close>

lemma save_sweep_stuck:
  assumes "sw_curr c = Some g" "aw_groups w g = Some ag" "\<not> ag_dirty ag"
  shows "attrlayer_save st conf False force k c w = Some (1, c, w)"
  using assms by (simp add: attrlayer_save_def sweep_run_def attrgroup_save_def)

end
