(* ===== verification/Account_Core.thy ===== *)
theory Account_Core
  imports Attr_Layer
begin

text \<open>
  \<^verbatim>\<open>bnetd/account.cpp\<close> with the typed accessors at the head of \<^verbatim>\<open>account_wrap.cpp\<close>: the accounts in memory,
  the tables that find them by name and by number, and the way they come from the storage. An account is an
  address; its attributes are a group of \<open>Attr_Group\<close>. The tables are the lists of their entries, newest
  first, which is what \<open>Common_Hashtable\<close> shows of them. \<open>None\<close> is an access to an account or a group
  that does not exist.
\<close>

section \<open>State\<close>

record t_friend =
  fr_mutual :: int
  fr_account :: nat

record t_account =
  ac_attrgroup :: "nat option"
  ac_name :: "cstring option"
  ac_namehash :: u32
  ac_uid :: u32
  ac_floaded :: bool
  ac_friends :: "t_friend list option"
  ac_conn :: "nat option"

record ('i, 'd) acc_world =
  ax_attr :: "('i, 'd) attr_world"
  ax_accounts :: "nat \<Rightarrow> t_account option"
  ax_fresh :: nat
  ax_names :: "(u32 \<times> nat) list"
  ax_uids :: "(u32 \<times> nat) list"
  ax_maxuid :: u32
  ax_force :: bool

text \<open>
  The storage with its functions for whole accounts, and the configuration. \<open>ae_create_account\<close> is given
  \<open>maxuserid\<close>; \<open>ae_read_accounts\<close> gives the accounts of the storage in the order it lists them.
\<close>

record ('i, 'd) acc_env =
  ae_storage :: "('i, 'd) t_storage"
  ae_conf :: attr_conf
  ae_create_account :: "u32 \<Rightarrow> cstring \<Rightarrow> 'i option"
  ae_read_account :: "'d \<Rightarrow> cstring option \<Rightarrow> u32 \<Rightarrow> 'i option"
  ae_read_accounts :: "'d \<Rightarrow> 'i list"
  ae_max_accounts :: u32
  ae_savebyname :: bool
  ae_symbols :: cstring
  ae_max_friends :: u32

definition set_account :: "nat \<Rightarrow> t_account \<Rightarrow> ('i, 'd) acc_world \<Rightarrow> ('i, 'd) acc_world" where
  "set_account a ac w = w\<lparr>ax_accounts := (ax_accounts w)(a \<mapsto> ac)\<rparr>"

text \<open>A key of several parts with backslashes between.\<close>

fun attr_key_path :: "cstring list \<Rightarrow> cstring" where
  "attr_key_path [] = []"
| "attr_key_path [p] = p"
| "attr_key_path (p # ps) = p @ CHR 0x5C # attr_key_path ps"

section \<open>Names\<close>

definition hash_char :: "char \<Rightarrow> u32" where
  "hash_char c = (if \<not> c_isupper c then word_of_int (schar c) else word_of_int (schar (c_tolower c)))"

definition account_hash :: "cstring \<Rightarrow> u32" where
  "account_hash username = foldl (\<lambda>h c. (h + push_bit 5 h) XOR hash_char c) 5381 username"

definition c_isalnum :: "char \<Rightarrow> bool" where
  "c_isalnum c \<longleftrightarrow> c_isupper c \<or> c_islower c \<or> c_isdigit c"

definition account_check_name :: "('i, 'd) acc_env \<Rightarrow> cstring \<Rightarrow> int" where
  "account_check_name env name =
     (if \<exists>ch \<in> set name. ch = CHR ''/'' \<or> ch = CHR 0x5C \<or> \<not> c_isalnum ch \<and> ch \<notin> set (ae_symbols env) then -1
      else if length name < 2 \<or> length name \<ge> 16 then -1 else 0)"

section \<open>Attributes\<close>

definition account_get_strattr :: "('i, 'd) acc_env \<Rightarrow> nat \<Rightarrow> cstring \<Rightarrow> ('i, 'd) acc_world \<Rightarrow> (cstring option \<times> ('i, 'd) acc_world) option" where
  "account_get_strattr env a key w = do {
     ac \<leftarrow> ax_accounts w a;
     case ac_attrgroup ac of
       None \<Rightarrow> Some (None, w)
     | Some g \<Rightarrow> do {
         (v, x) \<leftarrow> attrgroup_get_attr (ae_storage env) g key (ax_attr w);
         Some (v, w\<lparr>ax_attr := x\<rparr>) } }"

definition account_set_strattr :: "('i, 'd) acc_env \<Rightarrow> nat \<Rightarrow> cstring \<Rightarrow> cstring option \<Rightarrow> ('i, 'd) acc_world \<Rightarrow> (int \<times> ('i, 'd) acc_world) option" where
  "account_set_strattr env a key val w = do {
     ac \<leftarrow> ax_accounts w a;
     case ac_attrgroup ac of
       None \<Rightarrow> Some (-1, w)
     | Some g \<Rightarrow> do {
         (rc, x) \<leftarrow> attrgroup_set_attr (ae_storage env) g key val (ax_attr w);
         Some (rc, w\<lparr>ax_attr := x\<rparr>) } }"

definition num_value :: "cstring option \<Rightarrow> u32" where
  "num_value temp = (case temp of None \<Rightarrow> 0
     | Some t \<Rightarrow> (case str_to_uint (Some t) (Some 0) of (rc, val) \<Rightarrow> if rc < 0 then 0 else (case val of None \<Rightarrow> 0 | Some v \<Rightarrow> v)))"

definition account_get_numattr :: "('i, 'd) acc_env \<Rightarrow> nat \<Rightarrow> cstring \<Rightarrow> ('i, 'd) acc_world \<Rightarrow> (u32 \<times> ('i, 'd) acc_world) option" where
  "account_get_numattr env a key w = do { (temp, w1) \<leftarrow> account_get_strattr env a key w; Some (num_value temp, w1) }"

definition account_set_numattr :: "('i, 'd) acc_env \<Rightarrow> nat \<Rightarrow> cstring \<Rightarrow> u32 \<Rightarrow> ('i, 'd) acc_world \<Rightarrow> (int \<times> ('i, 'd) acc_world) option" where
  "account_set_numattr env a key val w = account_set_strattr env a key (Some (fmt_d (unat val))) w"

definition account_get_boolattr :: "('i, 'd) acc_env \<Rightarrow> nat \<Rightarrow> cstring \<Rightarrow> ('i, 'd) acc_world \<Rightarrow> (int \<times> ('i, 'd) acc_world) option" where
  "account_get_boolattr env a key w = do {
     (temp, w1) \<leftarrow> account_get_strattr env a key w;
     Some (case temp of None \<Rightarrow> -1 | Some t \<Rightarrow> str_get_bool (Some t), w1) }"

definition account_set_boolattr :: "('i, 'd) acc_env \<Rightarrow> nat \<Rightarrow> cstring \<Rightarrow> int \<Rightarrow> ('i, 'd) acc_world \<Rightarrow> (int \<times> ('i, 'd) acc_world) option" where
  "account_set_boolattr env a key val w = account_set_strattr env a key (Some (if val \<noteq> 0 then ''true'' else ''false'')) w"

definition account_get_name :: "('i, 'd) acc_env \<Rightarrow> nat \<Rightarrow> ('i, 'd) acc_world \<Rightarrow> (cstring option \<times> ('i, 'd) acc_world) option" where
  "account_get_name env a w = do {
     ac \<leftarrow> ax_accounts w a;
     case ac_name ac of
       Some n \<Rightarrow> Some (Some n, w)
     | None \<Rightarrow> do {
         (temp, w1) \<leftarrow> account_get_strattr env a (attr_key_path [''BNET'', ''acct'', ''username'']) w;
         ac1 \<leftarrow> ax_accounts w1 a;
         Some (temp, set_account a (ac1\<lparr>ac_name := temp\<rparr>) w1) } }"

definition account_get_uid :: "('i, 'd) acc_world \<Rightarrow> nat \<Rightarrow> u32 option" where
  "account_get_uid w a = map_option ac_uid (ax_accounts w a)"

definition account_match :: "('i, 'd) acc_env \<Rightarrow> nat \<Rightarrow> cstring \<Rightarrow> ('i, 'd) acc_world \<Rightarrow> (int \<times> ('i, 'd) acc_world) option" where
  "account_match env a username w = do {
     ac \<leftarrow> ax_accounts w a;
     let userid = (if username \<noteq> [] \<and> hd username = CHR ''#'' then num_value (Some (tl username)) else 0);
     if userid \<noteq> 0 then Some (if ac_uid ac = userid then 1 else 0, w)
     else if ac_namehash ac = account_hash username then do {
       (tname, w1) \<leftarrow> account_get_name env a w;
       Some (case tname of None \<Rightarrow> 0 | Some n \<Rightarrow> if strcasecmp n username = 0 then 1 else 0, w1) }
     else Some (0, w) }"

section \<open>The tables\<close>

definition matching :: "u32 \<Rightarrow> (u32 \<times> nat) list \<Rightarrow> nat list" where
  "matching h xs = List.map snd (List.filter (\<lambda>(k, _). k = h) xs)"

text \<open>The traversals of the entries with one hash: the first account with the number, with the name.\<close>

fun uid_loop :: "('i, 'd) acc_world \<Rightarrow> nat list \<Rightarrow> u32 \<Rightarrow> nat option option" where
  "uid_loop w [] uid = Some None"
| "uid_loop w (a # as) uid = do { ac \<leftarrow> ax_accounts w a; if ac_uid ac = uid then Some (Some a) else uid_loop w as uid }"

fun name_loop :: "('i, 'd) acc_env \<Rightarrow> nat list \<Rightarrow> cstring \<Rightarrow> ('i, 'd) acc_world \<Rightarrow> (nat option \<times> ('i, 'd) acc_world) option" where
  "name_loop env [] username w = Some (None, w)"
| "name_loop env (a # as) username w = do {
     (tname, w1) \<leftarrow> account_get_name env a w;
     (case tname of
        Some n \<Rightarrow> if strcasecmp n username = 0 then Some (Some a, w1) else name_loop env as username w1
      | None \<Rightarrow> name_loop env as username w1) }"

definition accountlist_allow_add :: "('i, 'd) acc_env \<Rightarrow> ('i, 'd) acc_world \<Rightarrow> bool" where
  "accountlist_allow_add env w =
     (if ax_force w then True
      else if ae_max_accounts env = 0 then True
      else if unat (ae_max_accounts env) \<le> length (ax_names w) then False
      else True)"

definition accountlist_add_account :: "('i, 'd) acc_env \<Rightarrow> nat \<Rightarrow> ('i, 'd) acc_world \<Rightarrow> (nat option \<times> ('i, 'd) acc_world) option" where
  "accountlist_add_account env a w = do {
     (username, w1) \<leftarrow> account_get_name env a w;
     (uid, w2) \<leftarrow> account_get_numattr env a (attr_key_path [''BNET'', ''acct'', ''userid'']) w1;
     (case username of
        None \<Rightarrow> Some (None, w2)
      | Some name \<Rightarrow>
          if length name < 1 then Some (None, w2)
          else if uid < 1 then Some (None, w2)
          else if \<not> accountlist_allow_add env w2 then Some (None, w2)
          else do {
            ac \<leftarrow> ax_accounts w2 a;
            let namehash = account_hash name;
            let w3 = set_account a (ac\<lparr>ac_namehash := namehash, ac_uid := uid\<rparr>) w2;
            dup \<leftarrow> (if uid \<le> ax_maxuid w3 then uid_loop w3 (matching uid (ax_uids w3)) uid else Some None);
            if dup \<noteq> None then Some (None, w3)
            else do {
              (dup2, w4) \<leftarrow> name_loop env (matching namehash (ax_names w3)) name w3;
              if dup2 \<noteq> None then Some (None, w4)
              else Some (Some a, w4\<lparr>ax_names := (namehash, a) # ax_names w4, ax_uids := (uid, a) # ax_uids w4,
                ax_maxuid := (if uid > ax_maxuid w4 then uid else ax_maxuid w4)\<rparr>) } }) }"

section \<open>Creating and destroying\<close>

definition friendlist_unload :: "t_friend list option \<Rightarrow> int \<times> t_friend list option" where
  "friendlist_unload flist = (case flist of None \<Rightarrow> (-1, None) | Some fs \<Rightarrow> (0, Some (List.map (\<lambda>fr. fr\<lparr>fr_mutual := -1\<rparr>) fs)))"

definition account_unload_friends :: "nat \<Rightarrow> ('i, 'd) acc_world \<Rightarrow> (int \<times> ('i, 'd) acc_world) option" where
  "account_unload_friends a w = do {
     ac \<leftarrow> ax_accounts w a;
     let (rc, fs) = friendlist_unload (ac_friends ac);
     if rc < 0 then Some (-1, w)
     else Some (0, set_account a (ac\<lparr>ac_friends := fs, ac_floaded := False\<rparr>) w) }"

definition account_save :: "('i, 'd) acc_env \<Rightarrow> nat \<Rightarrow> bool \<Rightarrow> ('i, 'd) acc_world \<Rightarrow> (int \<times> ('i, 'd) acc_world) option" where
  "account_save env a force w = do {
     ac \<leftarrow> ax_accounts w a;
     case ac_attrgroup ac of
       None \<Rightarrow> Some (-1, w)
     | Some g \<Rightarrow> do {
         (rc, x) \<leftarrow> attrgroup_save (ae_storage env) (ae_conf env) g force (ax_attr w);
         Some (rc, w\<lparr>ax_attr := x\<rparr>) } }"

definition account_flush :: "('i, 'd) acc_env \<Rightarrow> nat \<Rightarrow> bool \<Rightarrow> ('i, 'd) acc_world \<Rightarrow> (int \<times> ('i, 'd) acc_world) option" where
  "account_flush env a force w = do {
     ac \<leftarrow> ax_accounts w a;
     case ac_attrgroup ac of
       None \<Rightarrow> Some (-1, w)
     | Some g \<Rightarrow> do {
         (rc, x) \<leftarrow> attrgroup_flush (ae_storage env) (ae_conf env) g force (ax_attr w);
         if rc < 0 then Some (rc, w\<lparr>ax_attr := x\<rparr>)
         else do {
           (_, w1) \<leftarrow> account_unload_friends a (w\<lparr>ax_attr := x\<rparr>);
           Some (rc, w1) } } }"

definition attrgroup_destroy :: "('i, 'd) t_storage \<Rightarrow> attr_conf \<Rightarrow> nat \<Rightarrow> ('i, 'd) attr_world \<Rightarrow> (int \<times> ('i, 'd) attr_world) option" where
  "attrgroup_destroy st conf g x = do {
     (_, x1) \<leftarrow> attrgroup_unload st conf g x;
     Some (0, x1\<lparr>aw_groups := (aw_groups x1)(g := None)\<rparr>) }"

definition account_destroy :: "('i, 'd) acc_env \<Rightarrow> nat \<Rightarrow> ('i, 'd) acc_world \<Rightarrow> ('i, 'd) acc_world option" where
  "account_destroy env a w = do {
     ac \<leftarrow> ax_accounts w a;
     x \<leftarrow> (case ac_attrgroup ac of
        None \<Rightarrow> Some (ax_attr w)
      | Some g \<Rightarrow> map_option snd (attrgroup_destroy (ae_storage env) (ae_conf env) g (ax_attr w)));
     Some (w\<lparr>ax_attr := x, ax_accounts := (ax_accounts w)(a := None)\<rparr>) }"

text \<open>The account \<open>account_create\<close> allocates, with no group yet.\<close>

definition new_account :: "('i, 'd) acc_world \<Rightarrow> nat \<times> ('i, 'd) acc_world" where
  "new_account w = (ax_fresh w, (set_account (ax_fresh w)
     \<lparr>ac_attrgroup = None, ac_name = None, ac_namehash = 0, ac_uid = 0, ac_floaded = False, ac_friends = None, ac_conn = None\<rparr> w)
     \<lparr>ax_fresh := ax_fresh w + 1\<rparr>)"

definition account_load :: "nat \<Rightarrow> ('i, 'd) acc_world \<Rightarrow> (nat \<times> ('i, 'd) acc_world) option" where
  "account_load g w = (let (a, w1) = new_account w in do {
     ac \<leftarrow> ax_accounts w1 a;
     Some (a, set_account a (ac\<lparr>ac_attrgroup := Some g\<rparr>) w1) })"

definition attrgroup_create_nameuid :: "('i, 'd) acc_env \<Rightarrow> cstring option \<Rightarrow> u32 \<Rightarrow> ('i, 'd) attr_world \<Rightarrow> nat option \<times> ('i, 'd) attr_world" where
  "attrgroup_create_nameuid env name uid x = (case ae_read_account env (aw_disk x) name uid of
     None \<Rightarrow> (None, x)
   | Some info \<Rightarrow> (let (g, x1) = attrgroup_create_storage info x in (Some g, x1)))"

definition attrgroup_create_newuser :: "('i, 'd) acc_env \<Rightarrow> u32 \<Rightarrow> cstring \<Rightarrow> ('i, 'd) attr_world \<Rightarrow> (nat option \<times> ('i, 'd) attr_world) option" where
  "attrgroup_create_newuser env maxuid name x = (case ae_create_account env maxuid name of
     None \<Rightarrow> Some (None, x)
   | Some stmp \<Rightarrow> (let (g, x1) = attrgroup_create_storage stmp x in do {
       x2 \<leftarrow> attrgroup_set_loaded g x1;
       Some (Some g, x2) }))"

definition account_load_new :: "('i, 'd) acc_env \<Rightarrow> cstring option \<Rightarrow> u32 \<Rightarrow> ('i, 'd) acc_world \<Rightarrow> (nat option \<times> ('i, 'd) acc_world) option" where
  "account_load_new env name uid w =
     (if (case name of None \<Rightarrow> False | Some n \<Rightarrow> account_check_name env n \<noteq> 0) then Some (None, w)
      else (case attrgroup_create_nameuid env name uid (ax_attr w) of
          (None, x) \<Rightarrow> Some (None, w\<lparr>ax_attr := x, ax_force := False\<rparr>)
        | (Some g, x) \<Rightarrow> do {
            (a, w1) \<leftarrow> account_load g (w\<lparr>ax_attr := x, ax_force := True\<rparr>);
            (r, w2) \<leftarrow> accountlist_add_account env a w1;
            (case r of
               None \<Rightarrow> do { w3 \<leftarrow> account_destroy env a w2; Some (None, w3\<lparr>ax_force := False\<rparr>) }
             | Some _ \<Rightarrow> Some (Some a, w2\<lparr>ax_force := False\<rparr>)) }))"

definition accountlist_find_account_by_uid :: "('i, 'd) acc_env \<Rightarrow> u32 \<Rightarrow> ('i, 'd) acc_world \<Rightarrow> (nat option \<times> ('i, 'd) acc_world) option" where
  "accountlist_find_account_by_uid env uid w = do {
     r \<leftarrow> (if uid \<noteq> 0 then uid_loop w (matching uid (ax_uids w)) uid else Some None);
     case r of Some a \<Rightarrow> Some (Some a, w) | None \<Rightarrow> account_load_new env None uid w }"

definition accountlist_find_account :: "('i, 'd) acc_env \<Rightarrow> cstring \<Rightarrow> ('i, 'd) acc_world \<Rightarrow> (nat option \<times> ('i, 'd) acc_world) option" where
  "accountlist_find_account env username w = do {
     let userid = (if username \<noteq> [] \<and> hd username = CHR ''#'' then num_value (Some (tl username))
       else if \<not> ae_savebyname env then num_value (Some username) else 0);
     (r, w1) \<leftarrow> (if userid \<noteq> 0 then accountlist_find_account_by_uid env userid w else Some (None, w));
     (case r of
        Some a \<Rightarrow> Some (Some a, w1)
      | None \<Rightarrow>
          if userid = 0 \<or> hd username = CHR ''#'' \<or> c_isdigit (hd username)
          then do {
            (r2, w2) \<leftarrow> name_loop env (matching (account_hash username) (ax_names w1)) username w1;
            (case r2 of Some a \<Rightarrow> Some (Some a, w2) | None \<Rightarrow> account_load_new env (Some username) 0 w2) }
          else account_load_new env (Some username) 0 w1) }"

definition account_create :: "('i, 'd) acc_env \<Rightarrow> cstring \<Rightarrow> cstring \<Rightarrow> ('i, 'd) acc_world \<Rightarrow> (nat option \<times> ('i, 'd) acc_world) option" where
  "account_create env username passhash1 w =
     (if account_check_name env username \<noteq> 0 then Some (None, w)
      else (let (a, w1) = new_account w; err = (\<lambda>v. do { v1 \<leftarrow> account_destroy env a v; Some (None, v1) }) in do {
        (dup, w2) \<leftarrow> accountlist_find_account env username w1;
        if dup \<noteq> None then err w2
        else do {
          (g, x) \<leftarrow> attrgroup_create_newuser env (ax_maxuid w2) username (ax_attr w2);
          (case g of
             None \<Rightarrow> err (w2\<lparr>ax_attr := x\<rparr>)
           | Some g' \<Rightarrow> do {
               ac \<leftarrow> ax_accounts w2 a;
               let w3 = set_account a (ac\<lparr>ac_attrgroup := Some g', ac_name := Some username\<rparr>) (w2\<lparr>ax_attr := x\<rparr>);
               (r1, w4) \<leftarrow> account_set_strattr env a (attr_key_path [''BNET'', ''acct'', ''username'']) (Some username) w3;
               if r1 < 0 then err w4
               else do {
                 (r2, w5) \<leftarrow> account_set_numattr env a (attr_key_path [''BNET'', ''acct'', ''userid'']) (ax_maxuid w4 + 1) w4;
                 if r2 < 0 then err w5
                 else do {
                   (r3, w6) \<leftarrow> account_set_strattr env a (attr_key_path [''BNET'', ''acct'', ''passhash1'']) (Some passhash1) w5;
                   if r3 < 0 then err w6
                   else do {
                     (r4, w7) \<leftarrow> account_set_numattr env a (attr_key_path [''BNET'', ''acct'', ''ctime'']) (word_of_int (aw_now (ax_attr w6))) w6;
                     if r4 \<noteq> 0 then err w7 else Some (Some a, w7) } } } }) } }))"

definition accountlist_create_account :: "('i, 'd) acc_env \<Rightarrow> cstring \<Rightarrow> cstring \<Rightarrow> ('i, 'd) acc_world \<Rightarrow> (nat option \<times> ('i, 'd) acc_world) option" where
  "accountlist_create_account env username passhash1 w = do {
     (res, w1) \<leftarrow> account_create env username passhash1 w;
     (case res of
        None \<Rightarrow> Some (None, w1)
      | Some a \<Rightarrow> do {
          (r, w2) \<leftarrow> accountlist_add_account env a w1;
          (case r of
             None \<Rightarrow> do { w3 \<leftarrow> account_destroy env a w2; Some (None, w3) }
           | Some _ \<Rightarrow> do { (_, w3) \<leftarrow> account_save env a True w2; Some (Some a, w3) }) }) }"

section \<open>Loading the whole list\<close>

definition cb_read_accounts :: "('i, 'd) acc_env \<Rightarrow> 'i \<Rightarrow> ('i, 'd) acc_world \<Rightarrow> ('i, 'd) acc_world option" where
  "cb_read_accounts env info w = (let (g, x) = attrgroup_create_storage info (ax_attr w) in do {
     (a, w1) \<leftarrow> account_load g (w\<lparr>ax_attr := x\<rparr>);
     (r, w2) \<leftarrow> accountlist_add_account env a w1;
     (case r of
        None \<Rightarrow> account_destroy env a w2
      | Some _ \<Rightarrow> map_option snd (account_flush env a True w2)) })"

fun load_loop :: "('i, 'd) acc_env \<Rightarrow> 'i list \<Rightarrow> ('i, 'd) acc_world \<Rightarrow> ('i, 'd) acc_world option" where
  "load_loop env [] w = Some w"
| "load_loop env (i # is) w = do { w1 \<leftarrow> cb_read_accounts env i w; load_loop env is w1 }"

definition accountlist_load_all :: "('i, 'd) acc_env \<Rightarrow> ('i, 'd) acc_world \<Rightarrow> ('i, 'd) acc_world option" where
  "accountlist_load_all env w = do {
     w1 \<leftarrow> load_loop env (ae_read_accounts env (aw_disk (ax_attr w))) (w\<lparr>ax_force := True\<rparr>);
     Some (w1\<lparr>ax_force := False\<rparr>) }"

section \<open>Account files\<close>

text \<open>
  \<^verbatim>\<open>bnetd/storage_file.cpp\<close>: the file of a new account, the file of an account asked for by name. \<open>defacct\<close> is
  the path of the default account, \<open>maxuid\<close> the largest number of an account.
\<close>

definition fmt_06u :: "nat \<Rightarrow> cstring" where
  "fmt_06u n = replicate (6 - length (fmt_d n)) (CHR ''0'') @ fmt_d n"

definition file_create_account :: "file_conf \<Rightarrow> bool \<Rightarrow> cstring \<Rightarrow> u32 \<Rightarrow> cstring \<Rightarrow> cstring option" where
  "file_create_account fc savebyname defacct maxuid username = (case fc_accountsdir fc of
     None \<Rightarrow> None
   | Some dir \<Rightarrow>
       if savebyname then
         if username = defacct then None
         else (case escape_fs_chars (Some username) (length username) of
             None \<Rightarrow> None | Some safename \<Rightarrow> Some (dir @ ''/'' @ safename))
       else Some (dir @ ''/'' @ fmt_06u (unat (maxuid + 1))))"

definition file_read_account :: "file_conf \<Rightarrow> bool \<Rightarrow> file_system \<Rightarrow> cstring option \<Rightarrow> u32 \<Rightarrow> cstring option" where
  "file_read_account fc savebyname d accname uid = (case fc_accountsdir fc of
     None \<Rightarrow> None
   | Some dir \<Rightarrow> (case accname of
       None \<Rightarrow> None
     | Some n \<Rightarrow> if savebyname then if d (dir @ ''/'' @ n) = None then None else Some (dir @ ''/'' @ n) else None))"

end
