(* ===== verification/Account_Inv.thy ===== *)
theory Account_Inv
  imports Account_Core Attr_Props
begin

text \<open>
  The operations on attributes return on groups that exist, whatever the storage answers, and keep the set of
  groups; on this rest the invariant of the accounts and what the lookups find.
\<close>

section \<open>Operations on groups return\<close>

definition live :: "nat \<Rightarrow> ('i, 'd) attr_world \<Rightarrow> bool" where
  "live g x \<longleftrightarrow> aw_groups x g \<noteq> None"

definition keeps :: "('i, 'd) attr_world \<Rightarrow> ('i, 'd) attr_world \<Rightarrow> bool" where
  "keeps x x' \<longleftrightarrow> (\<forall>g. live g x' = live g x) \<and> aw_defattrs x' = aw_defattrs x \<and> aw_fresh x' = aw_fresh x"

lemma keeps_refl [simp]: "keeps x x"
  by (simp add: keeps_def)

lemma keeps_trans: "keeps x y \<Longrightarrow> keeps y z \<Longrightarrow> keeps x z"
  by (simp add: keeps_def)

lemma keeps_live: "keeps x y \<Longrightarrow> live g y = live g x"
  by (simp add: keeps_def)

lemma liveE: "live g x \<Longrightarrow> (\<And>ag. aw_groups x g = Some ag \<Longrightarrow> thesis) \<Longrightarrow> thesis"
  by (auto simp: live_def)

lemma keeps_set_group: "live g x \<Longrightarrow> keeps x (set_group g ag x)"
  by (auto simp: keeps_def live_def set_group_def)

lemma keeps_lists:
  "keeps x (y\<lparr>aw_dirtylist := l\<rparr>) = keeps x y" "keeps x (y\<lparr>aw_loadedlist := l\<rparr>) = keeps x y" "keeps x (y\<lparr>aw_disk := d\<rparr>) = keeps x y"
  by (simp_all add: keeps_def live_def)

lemma marks_return:
  assumes "live g x"
  shows "\<exists>y. attrgroup_set_accessed g x = Some y \<and> keeps x y" "\<exists>y. attrgroup_set_dirty g x = Some y \<and> keeps x y"
    "\<exists>y. attrgroup_clear_dirty g x = Some y \<and> keeps x y" "\<exists>y. attrgroup_clear_accessed g x = Some y \<and> keeps x y"
    "\<exists>y. attrgroup_set_loaded g x = Some y \<and> keeps x y"
  using assms keeps_set_group [OF assms]
  by (auto simp: attrgroup_set_accessed_def attrgroup_set_dirty_def attrgroup_clear_dirty_def attrgroup_clear_accessed_def
    attrgroup_set_loaded_def attrlayer_accessed_def keeps_lists elim!: liveE)

lemma clear_loaded_returns:
  assumes "live g x"
  shows "\<exists>y. attrgroup_clear_loaded g x = Some y \<and> keeps x y"
proof -
  obtain ag where ag: "aw_groups x g = Some ag" using assms by (rule liveE)
  obtain y where y: "attrgroup_clear_dirty g x = Some y" "keeps x y" using marks_return(3) [OF assms] by blast
  have ly: "live g y" using y(2) assms by (simp add: keeps_live)
  obtain z where z: "attrgroup_clear_accessed g y = Some z" "keeps y z" using marks_return(4) [OF ly] by blast
  have lz: "live g z" using z(2) ly by (simp add: keeps_live)
  obtain az where "aw_groups z g = Some az" using lz by (rule liveE)
  then show ?thesis
    using ag y z keeps_trans [OF keeps_trans [OF y(2) z(2)] keeps_set_group [OF lz]]
    by (simp add: attrgroup_clear_loaded_def keeps_lists)
qed

lemma find_attr_loaded_returns:
  assumes "live g x"
  shows "\<exists>pos y. find_attr_loaded st g key x = Some (pos, y) \<and> keeps x y"
proof -
  obtain y where y: "attrgroup_set_accessed g x = Some y" "keeps x y" using marks_return(1) [OF assms] by blast
  have ly: "live g y" using y(2) assms by (simp add: keeps_live)
  obtain ag where "aw_groups y g = Some ag" using ly by (rule liveE)
  then show ?thesis
    using y keeps_trans [OF y(2) keeps_set_group [OF ly]]
    by (simp add: find_attr_loaded_def split: option.split)
qed

lemma set_found_attr_returns:
  assumes "live g x"
  shows "\<exists>y. set_found_attr g k v pos x = Some (0, y) \<and> keeps x y"
proof -
  obtain ag where ag: "aw_groups x g = Some ag" using assms by (rule liveE)
  have "\<exists>y. attrgroup_set_dirty g (set_group g a x) = Some y \<and> keeps x y" for a
    using marks_return(2) [of g "set_group g a x"] keeps_set_group [OF assms, of a] assms by (auto simp: keeps_live intro: keeps_trans)
  then show ?thesis using ag by (auto simp: set_found_attr_def split: option.split) (metis bind.bind_lunit)+
qed

lemma load_attrs_returns: "live g x \<Longrightarrow> \<exists>y. load_attrs st g kvs x = Some y \<and> keeps x y"
proof (induction kvs arbitrary: x)
  case (Cons kv kvs)
  obtain k v where kv: "kv = (k, v)" by (cases kv)
  obtain pos y where y: "find_attr_loaded st g (attrgroup_escape_key st k) x = Some (pos, y)" "keeps x y"
    using find_attr_loaded_returns [OF Cons.prems] by blast
  obtain z where z: "set_found_attr g (attrgroup_escape_key st k) (Some v) pos y = Some (0, z)" "keeps y z"
    using set_found_attr_returns [of g y] keeps_live [OF y(2)] Cons.prems by metis
  obtain u where u: "load_attrs st g kvs z = Some u" "keeps z u"
    using Cons.IH [of z] y(2) z(2) Cons.prems by (auto simp: keeps_live)
  show ?case using kv y z u keeps_trans [OF y(2) keeps_trans [OF z(2) u(2)]] by (simp add: set_attr_loaded_def)
qed simp

lemma load_returns:
  assumes "live g x"
  shows "\<exists>rc y. attrgroup_load st g x = Some (rc, y) \<and> keeps x y"
proof -
  obtain ag where ag: "aw_groups x g = Some ag" using assms by (rule liveE)
  obtain y where y: "attrgroup_set_loaded g x = Some y" "keeps x y" using marks_return(5) [OF assms] by blast
  obtain rc kvs where r: "st_read_attrs st (aw_disk y) (ag_storage ag) = (rc, kvs)" by (metis surj_pair)
  obtain z where z: "load_attrs st g kvs y = Some z" "keeps y z"
    using load_attrs_returns [of g y] keeps_live [OF y(2)] assms by metis
  obtain u where u: "attrgroup_clear_dirty g z = Some u" "keeps z u"
    using marks_return(3) [of g z] y(2) z(2) assms by (auto simp: keeps_live)
  show ?thesis using ag y z u r keeps_trans [OF y(2) z(2)] keeps_trans [OF y(2) keeps_trans [OF z(2) u(2)]]
    by (simp add: attrgroup_load_def)
qed

lemma find_attr_returns:
  assumes "live g x"
  shows "\<exists>k pos y. attrgroup_find_attr st g key esc x = Some (k, pos, y) \<and> keeps x y"
proof -
  obtain rc y where y: "attrgroup_load st g x = Some (rc, y)" "keeps x y" using load_returns [OF assms] by blast
  obtain pos z where z: "find_attr_loaded st g (if esc then attrgroup_escape_key st key else key) y = Some (pos, z)" "keeps y z"
    using find_attr_loaded_returns [of g y] keeps_live [OF y(2)] assms by metis
  show ?thesis using y z keeps_trans [OF y(2) z(2)] by (simp add: attrgroup_find_attr_def)
qed

lemma set_attr_returns:
  assumes "live g x"
  shows "\<exists>y. attrgroup_set_attr st g k v x = Some (0, y) \<and> keeps x y"
proof -
  obtain k' pos y where y: "attrgroup_find_attr st g k True x = Some (k', pos, y)" "keeps x y" using find_attr_returns [OF assms] by blast
  obtain z where "set_found_attr g k' v pos y = Some (0, z)" "keeps y z"
    using set_found_attr_returns [of g y] keeps_live [OF y(2)] assms by metis
  then show ?thesis using y keeps_trans by (auto simp: attrgroup_set_attr_def)
qed

definition def_live :: "('i, 'd) attr_world \<Rightarrow> bool" where
  "def_live x \<longleftrightarrow> (\<exists>d. aw_defattrs x = Some d \<and> live d x) \<and> (\<forall>g. live g x \<longrightarrow> g < aw_fresh x)"

lemma keeps_def_live: "keeps x y \<Longrightarrow> def_live y = def_live x"
  by (simp add: keeps_def def_live_def)

lemma attr_at_returns: "live g x \<Longrightarrow> \<exists>v. attr_at g pos x = Some v"
  by (auto simp: attr_at_def elim!: liveE)

lemma get_attr_returns:
  assumes "live g x" "def_live x"
  shows "\<exists>v y. attrgroup_get_attr st g k x = Some (v, y) \<and> keeps x y"
proof -
  obtain k' pos y where y: "attrgroup_find_attr st g k True x = Some (k', pos, y)" "keeps x y" using find_attr_returns [OF assms(1)] by blast
  obtain v where v: "attr_at g pos y = Some v" using attr_at_returns [of g y] y(2) assms(1) by (auto simp: keeps_live)
  obtain d where d: "aw_defattrs y = Some d" "live d y" using assms(2) keeps_def_live [OF y(2)] by (auto simp: def_live_def)
  obtain k2 pos2 z where z: "attrgroup_find_attr st d k' False y = Some (k2, pos2, z)" "keeps y z" using find_attr_returns [OF d(2)] by blast
  obtain v2 where v2: "attr_at d pos2 z = Some v2" using attr_at_returns [of d z] z(2) d(2) by (auto simp: keeps_live)
  show ?thesis using y v d z v2 keeps_trans [OF y(2) z(2)] by (simp add: attrgroup_get_attr_def)
qed

lemma save_returns:
  assumes "live g x"
  shows "\<exists>rc y. attrgroup_save st conf g force x = Some (rc, y) \<and> keeps x y \<and> rc \<ge> 0"
proof -
  obtain ag where ag: "aw_groups x g = Some ag" using assms by (rule liveE)
  obtain rc d as where r: "st_write_attrs st (aw_disk x) (ag_storage ag) (ag_list ag) = (rc, d, as)" by (metis surj_pair)
  have "\<exists>y. attrgroup_clear_dirty g ((set_group g (ag\<lparr>ag_list := as\<rparr>) x)\<lparr>aw_disk := d\<rparr>) = Some y \<and> keeps x y"
    using marks_return(3) [of g "(set_group g (ag\<lparr>ag_list := as\<rparr>) x)\<lparr>aw_disk := d\<rparr>"] keeps_set_group [OF assms, of "ag\<lparr>ag_list := as\<rparr>"] assms
    by (metis keeps_lists(3) keeps_live keeps_trans)
  then show ?thesis using ag r by (auto simp: attrgroup_save_def)
qed

lemma flush_returns:
  assumes "live g x"
  shows "\<exists>rc y. attrgroup_flush st conf g force x = Some (rc, y) \<and> keeps x y \<and> rc \<ge> 0"
proof -
  obtain ag where ag: "aw_groups x g = Some ag" using assms by (rule liveE)
  obtain rc y where y: "attrgroup_save st conf g True x = Some (rc, y)" "keeps x y" using save_returns [OF assms] by blast
  have ly: "live g y" using y(2) assms by (simp add: keeps_live)
  obtain ay where ay: "aw_groups y g = Some ay" using ly by (rule liveE)
  obtain z where z: "attrgroup_clear_loaded g (set_group g (ay\<lparr>ag_list := []\<rparr>) y) = Some z" "keeps (set_group g (ay\<lparr>ag_list := []\<rparr>) y) z"
    using clear_loaded_returns [of g "set_group g (ay\<lparr>ag_list := []\<rparr>) y"] keeps_live [OF keeps_set_group [OF ly]] ly by metis
  show ?thesis using ag y ay z keeps_trans [OF y(2) keeps_trans [OF keeps_set_group [OF ly] z(2)]] by (simp add: attrgroup_flush_def)
qed

section \<open>The invariant of the accounts\<close>

definition accounts_ok :: "('i, 'd) attr_world \<Rightarrow> (nat \<Rightarrow> t_account option) \<Rightarrow> nat \<Rightarrow> bool" where
  "accounts_ok x A f \<longleftrightarrow> def_live x
     \<and> (\<forall>a ac. A a = Some ac \<longrightarrow> a < f \<and> (\<forall>g. ac_attrgroup ac = Some g \<longrightarrow> live g x \<and> aw_defattrs x \<noteq> Some g))
     \<and> (\<forall>a b ac bc g. A a = Some ac \<longrightarrow> A b = Some bc \<longrightarrow> a \<noteq> b \<longrightarrow> ac_attrgroup ac = Some g \<longrightarrow> ac_attrgroup bc \<noteq> Some g)"

definition name_entry :: "(nat \<Rightarrow> t_account option) \<Rightarrow> u32 \<times> nat \<Rightarrow> bool" where
  "name_entry A e \<longleftrightarrow> (\<exists>ac n g. A (snd e) = Some ac \<and> ac_attrgroup ac = Some g \<and> ac_name ac = Some n
     \<and> fst e = account_hash n \<and> ac_namehash ac = account_hash n)"

definition uid_entry :: "(nat \<Rightarrow> t_account option) \<Rightarrow> u32 \<Rightarrow> u32 \<times> nat \<Rightarrow> bool" where
  "uid_entry A m e \<longleftrightarrow> (\<exists>ac. A (snd e) = Some ac \<and> ac_uid ac = fst e \<and> 1 \<le> fst e \<and> fst e \<le> m)"

definition same_name :: "(nat \<Rightarrow> t_account option) \<Rightarrow> nat \<Rightarrow> nat \<Rightarrow> bool" where
  "same_name A a b \<longleftrightarrow> (\<exists>ac bc n m. A a = Some ac \<and> A b = Some bc \<and> ac_name ac = Some n \<and> ac_name bc = Some m \<and> strcasecmp n m = 0)"

definition tables_ok :: "(nat \<Rightarrow> t_account option) \<Rightarrow> (u32 \<times> nat) list \<Rightarrow> (u32 \<times> nat) list \<Rightarrow> u32 \<Rightarrow> bool" where
  "tables_ok A N U m \<longleftrightarrow> List.map snd N = List.map snd U \<and> distinct (List.map snd N) \<and> distinct (List.map fst U)
     \<and> (\<forall>e \<in> set N. name_entry A e) \<and> (\<forall>e \<in> set U. uid_entry A m e)
     \<and> (\<forall>a \<in> snd ` set N. \<forall>b \<in> snd ` set N. same_name A a b \<longrightarrow> a = b)"

definition listed :: "('i, 'd) acc_world \<Rightarrow> nat set" where
  "listed w = snd ` set (ax_names w)"

definition acc_inv :: "('i, 'd) acc_world \<Rightarrow> bool" where
  "acc_inv w \<longleftrightarrow> accounts_ok (ax_attr w) (ax_accounts w) (ax_fresh w)
     \<and> tables_ok (ax_accounts w) (ax_names w) (ax_uids w) (ax_maxuid w)"

lemma tables_ok_cong:
  assumes "tables_ok A N U m" "\<And>a. a \<in> snd ` set N \<Longrightarrow> B a = A a"
  shows "tables_ok B N U m"
proof -
  have s: "snd ` set U = snd ` set N" using assms(1) by (metis tables_ok_def list.set_map)
  have n: "name_entry B e = name_entry A e" if "e \<in> set N" for e using assms(2) that by (simp add: name_entry_def)
  have u: "uid_entry B m e = uid_entry A m e" if "e \<in> set U" for e
    using assms(2) [of "snd e"] that s by (metis image_eqI uid_entry_def)
  have e: "same_name B a b = same_name A a b" if "a \<in> snd ` set N" "b \<in> snd ` set N" for a b
    using assms(2) [OF that(1)] assms(2) [OF that(2)] by (simp add: same_name_def)
  show ?thesis using assms(1) n u e unfolding tables_ok_def by blast
qed

lemma accounts_ok_keeps:
  "accounts_ok x A f \<Longrightarrow> keeps x y \<Longrightarrow> accounts_ok y A f"
  unfolding accounts_ok_def using keeps_def_live [of x y] by (simp add: keeps_def)

lemma accounts_ok_sub:
  assumes ok: "accounts_ok x A f" and s: "\<And>b c. B b = Some c \<Longrightarrow> \<exists>c'. A b = Some c' \<and> ac_attrgroup c' = ac_attrgroup c"
  shows "accounts_ok x B f"
  unfolding accounts_ok_def
proof (intro conjI allI impI)
  show "def_live x" using ok by (simp add: accounts_ok_def)
  show "a < f" if "B a = Some c" for a c using s [OF that] ok by (auto simp: accounts_ok_def)
  show "live g x" "aw_defattrs x \<noteq> Some g" if "B a = Some c" "ac_attrgroup c = Some g" for a c g
    using s [OF that(1)] that(2) ok by (auto simp: accounts_ok_def)
  show "ac_attrgroup d \<noteq> Some g" if h: "B a = Some c" "B b = Some d" "a \<noteq> b" "ac_attrgroup c = Some g" for a b c d g
  proof -
    obtain c' d' where "A a = Some c'" "ac_attrgroup c' = Some g" "A b = Some d'" "ac_attrgroup d' = ac_attrgroup d"
      using s [OF h(1)] s [OF h(2)] h(4) by auto
    then show ?thesis using ok h(3) unfolding accounts_ok_def by metis
  qed
qed

lemma accounts_ok_update:
  assumes "accounts_ok x A f" "A a = Some ac" "ac_attrgroup ac' = ac_attrgroup ac"
  shows "accounts_ok x (A(a \<mapsto> ac')) f"
  using assms(2,3) by (auto intro!: accounts_ok_sub [OF assms(1)] split: if_splits)

text \<open>Only the attributes and the one account \<open>a\<close> may differ.\<close>

definition only_acc :: "nat \<Rightarrow> ('i, 'd) acc_world \<Rightarrow> ('i, 'd) acc_world \<Rightarrow> bool" where
  "only_acc a w w' \<longleftrightarrow> keeps (ax_attr w) (ax_attr w') \<and> (\<forall>b. b \<noteq> a \<longrightarrow> ax_accounts w' b = ax_accounts w b)
     \<and> ax_fresh w' = ax_fresh w \<and> ax_names w' = ax_names w \<and> ax_uids w' = ax_uids w \<and> ax_maxuid w' = ax_maxuid w \<and> ax_force w' = ax_force w"

lemma only_acc_refl [simp]: "only_acc a w w"
  by (simp add: only_acc_def)

lemma only_acc_trans: "only_acc a w v \<Longrightarrow> only_acc a v u \<Longrightarrow> only_acc a w u"
  using keeps_trans by (fastforce simp: only_acc_def)

lemma only_acc_attr: "keeps (ax_attr w) x \<Longrightarrow> only_acc a w (w\<lparr>ax_attr := x\<rparr>)"
  by (simp add: only_acc_def)

lemma acc_inv_attr: "acc_inv w \<Longrightarrow> keeps (ax_attr w) x \<Longrightarrow> acc_inv (w\<lparr>ax_attr := x\<rparr>)"
  using accounts_ok_keeps [of "ax_attr w" "ax_accounts w" "ax_fresh w" x] by (simp add: acc_inv_def)

text \<open>A change of one account that keeps its group, and its name and number if it is listed.\<close>

lemma acc_inv_step:
  assumes i: "acc_inv w" and o: "only_acc a w w'" and a: "ax_accounts w a = Some ac" "ax_accounts w' a = Some ac'"
    and g: "ac_attrgroup ac' = ac_attrgroup ac"
    and l: "a \<in> listed w \<Longrightarrow> ac_name ac' = ac_name ac \<and> ac_uid ac' = ac_uid ac \<and> ac_namehash ac' = ac_namehash ac"
  shows "acc_inv w'"
proof -
  have A: "ax_accounts w' = (ax_accounts w)(a \<mapsto> ac')" using o a(2) by (auto simp: only_acc_def)
  have "accounts_ok (ax_attr w') (ax_accounts w') (ax_fresh w')"
    using accounts_ok_update [of "ax_attr w'" "ax_accounts w" "ax_fresh w", OF _ a(1) g]
      accounts_ok_keeps [of "ax_attr w" "ax_accounts w" "ax_fresh w" "ax_attr w'"] i o A by (simp add: acc_inv_def only_acc_def)
  moreover have "tables_ok (ax_accounts w') (ax_names w) (ax_uids w) (ax_maxuid w)"
  proof (cases "a \<in> listed w")
    case False
    then show ?thesis using tables_ok_cong [of "ax_accounts w" "ax_names w" "ax_uids w" "ax_maxuid w" "ax_accounts w'"] i A
      unfolding acc_inv_def listed_def by (metis fun_upd_other)
  next
    case True
    have n: "name_entry (ax_accounts w') e = name_entry (ax_accounts w) e" for e
      using a l [OF True] g A by (auto simp: name_entry_def)
    have u: "uid_entry (ax_accounts w') m e = uid_entry (ax_accounts w) m e" for m e
      using a l [OF True] A by (auto simp: uid_entry_def)
    have s: "same_name (ax_accounts w') b c = same_name (ax_accounts w) b c" for b c
      using a l [OF True] A by (auto simp: same_name_def)
    show ?thesis using i unfolding acc_inv_def tables_ok_def n u s by blast
  qed
  ultimately show ?thesis using o by (simp add: acc_inv_def only_acc_def)
qed

lemma acc_invD:
  assumes "acc_inv w" "ax_accounts w a = Some ac"
  shows "a < ax_fresh w" "ac_attrgroup ac = Some g \<Longrightarrow> live g (ax_attr w)" "ac_attrgroup ac = Some g \<Longrightarrow> aw_defattrs (ax_attr w) \<noteq> Some g"
  using assms by (auto simp: acc_inv_def accounts_ok_def)

lemma acc_inv_def_live: "acc_inv w \<Longrightarrow> def_live (ax_attr w)"
  by (simp add: acc_inv_def accounts_ok_def)

lemma listed_account:
  assumes "acc_inv w" "a \<in> listed w"
  shows "\<exists>ac n g. ax_accounts w a = Some ac \<and> ac_attrgroup ac = Some g \<and> ac_name ac = Some n
    \<and> (account_hash n, a) \<in> set (ax_names w) \<and> (ac_uid ac, a) \<in> set (ax_uids w) \<and> 1 \<le> ac_uid ac \<and> ac_uid ac \<le> ax_maxuid w"
proof -
  obtain e where e: "e \<in> set (ax_names w)" "a = snd e" using assms(2) by (auto simp: listed_def)
  have T: "tables_ok (ax_accounts w) (ax_names w) (ax_uids w) (ax_maxuid w)" using assms(1) by (simp add: acc_inv_def)
  obtain ac n g where n: "ax_accounts w a = Some ac" "ac_attrgroup ac = Some g" "ac_name ac = Some n" "fst e = account_hash n"
    using T e unfolding tables_ok_def name_entry_def by metis
  have "a \<in> snd ` set (ax_uids w)" using T e by (metis tables_ok_def list.set_map image_eqI)
  then obtain u where u: "u \<in> set (ax_uids w)" "a = snd u" by auto
  then have "uid_entry (ax_accounts w) (ax_maxuid w) u" using T by (simp add: tables_ok_def)
  then have "ac_uid ac = fst u" "1 \<le> fst u" "fst u \<le> ax_maxuid w" using n(1) u(2) by (auto simp: uid_entry_def)
  moreover have "(fst e, a) \<in> set (ax_names w)" "(fst u, a) \<in> set (ax_uids w)" using e u by (metis prod.collapse)+
  ultimately show ?thesis using n by auto
qed

section \<open>Attributes and names of accounts\<close>

lemma get_strattr_returns:
  assumes "acc_inv w" "ax_accounts w a = Some ac"
  shows "\<exists>v x. account_get_strattr env a key w = Some (v, w\<lparr>ax_attr := x\<rparr>) \<and> keeps (ax_attr w) x"
proof (cases "ac_attrgroup ac")
  case None
  have "w = w\<lparr>ax_attr := ax_attr w\<rparr>" by simp
  then show ?thesis using assms(2) None by (metis account_get_strattr_def bind.bind_lunit keeps_refl option.case(1))
next
  case (Some g)
  then show ?thesis
    using get_attr_returns [OF acc_invD(2) [OF assms Some] acc_inv_def_live [OF assms(1)], of "ae_storage env" key] assms(2)
    by (auto simp: account_get_strattr_def)
qed

lemma set_strattr_returns:
  assumes "acc_inv w" "ax_accounts w a = Some ac" "ac_attrgroup ac = Some g"
  shows "\<exists>x. account_set_strattr env a key v w = Some (0, w\<lparr>ax_attr := x\<rparr>) \<and> keeps (ax_attr w) x"
  using set_attr_returns [OF acc_invD(2) [OF assms], of "ae_storage env" key v] assms(2,3)
  by (auto simp: account_set_strattr_def)

lemma get_numattr_returns:
  assumes "acc_inv w" "ax_accounts w a = Some ac"
  shows "\<exists>v x. account_get_numattr env a key w = Some (v, w\<lparr>ax_attr := x\<rparr>) \<and> keeps (ax_attr w) x"
  using get_strattr_returns [OF assms, of env key] by (auto simp: account_get_numattr_def)

lemma get_name_cached: "ax_accounts w a = Some ac \<Longrightarrow> ac_name ac = Some n \<Longrightarrow> account_get_name env a w = Some (Some n, w)"
  by (simp add: account_get_name_def)

lemma get_name_returns:
  assumes "acc_inv w" "ax_accounts w a = Some ac"
  shows "\<exists>v w'. account_get_name env a w = Some (v, w') \<and> only_acc a w w' \<and> ax_accounts w' a = Some (ac\<lparr>ac_name := v\<rparr>)"
proof (cases "ac_name ac")
  case (Some n)
  have "ac\<lparr>ac_name := Some n\<rparr> = ac" using Some [symmetric] by simp
  then show ?thesis using get_name_cached [OF assms(2) Some] assms(2) by auto
next
  case None
  obtain v x where x: "account_get_strattr env a (attr_key_path [''BNET'', ''acct'', ''username'']) w = Some (v, w\<lparr>ax_attr := x\<rparr>)" "keeps (ax_attr w) x"
    using get_strattr_returns [OF assms] by blast
  then show ?thesis using assms(2) None by (simp add: account_get_name_def set_account_def only_acc_def)
qed

text \<open>Equal names have equal hashes, so the search in one row of the table is enough.\<close>

lemma account_hash_lower: "account_hash s = account_hash (keyn s)"
proof -
  have "hash_char c = hash_char (c_tolower c)" for c
    by (metis c_tolower_def c_tolower_idem hash_char_def)
  then have "foldl (\<lambda>h c. (h + push_bit 5 h) XOR hash_char c) h s = foldl (\<lambda>h c. (h + push_bit 5 h) XOR hash_char c) h (map c_tolower s)" for h
    by (induction s arbitrary: h) simp_all
  then show ?thesis by (simp add: account_hash_def keyn_def)
qed

lemma account_hash_case: "strcasecmp a b = 0 \<Longrightarrow> account_hash a = account_hash b"
  by (metis account_hash_lower keyn_eq)

section \<open>Lookups\<close>

lemma uid_loop_returns: "\<forall>a \<in> set as. \<exists>ac. ax_accounts w a = Some ac \<Longrightarrow>
    \<exists>r. uid_loop w as uid = Some r \<and> (case r of None \<Rightarrow> \<forall>a \<in> set as. \<forall>ac. ax_accounts w a = Some ac \<longrightarrow> ac_uid ac \<noteq> uid
      | Some a \<Rightarrow> a \<in> set as \<and> (\<exists>ac. ax_accounts w a = Some ac \<and> ac_uid ac = uid))"
  by (induction "as") (auto split: option.splits)

lemma name_loop_returns: "\<forall>a \<in> set as. \<exists>ac n. ax_accounts w a = Some ac \<and> ac_name ac = Some n \<Longrightarrow>
    \<exists>r. name_loop env as u w = Some (r, w) \<and> (case r of
        None \<Rightarrow> \<forall>a \<in> set as. \<forall>ac n. ax_accounts w a = Some ac \<longrightarrow> ac_name ac = Some n \<longrightarrow> strcasecmp n u \<noteq> 0
      | Some a \<Rightarrow> a \<in> set as \<and> (\<exists>ac n. ax_accounts w a = Some ac \<and> ac_name ac = Some n \<and> strcasecmp n u = 0))"
proof (induction "as")
  case (Cons a as)
  obtain ac n where a: "ax_accounts w a = Some ac" "ac_name ac = Some n" using Cons.prems by auto
  show ?case using Cons a get_name_cached [OF a, of env] by (auto split: option.splits)
qed simp

lemma matching_listed: "a \<in> set (matching h (ax_names w)) \<Longrightarrow> a \<in> listed w"
  by (force simp: matching_def listed_def)

lemma matching_iff: "a \<in> set (matching h xs) \<longleftrightarrow> (h, a) \<in> set xs"
  by (auto simp: matching_def image_iff)

lemma uids_listed: "acc_inv w \<Longrightarrow> (u, a) \<in> set (ax_uids w) \<Longrightarrow> a \<in> listed w"
  unfolding acc_inv_def tables_ok_def listed_def by (metis list.set_map image_eqI snd_conv)

text \<open>The account with a name, among those listed; the account with a number.\<close>

definition named :: "('i, 'd) acc_world \<Rightarrow> cstring \<Rightarrow> nat \<Rightarrow> bool" where
  "named w u a \<longleftrightarrow> a \<in> listed w \<and> (\<exists>ac n. ax_accounts w a = Some ac \<and> ac_name ac = Some n \<and> strcasecmp n u = 0)"

definition numbered :: "('i, 'd) acc_world \<Rightarrow> u32 \<Rightarrow> nat \<Rightarrow> bool" where
  "numbered w u a \<longleftrightarrow> a \<in> listed w \<and> (\<exists>ac. ax_accounts w a = Some ac \<and> ac_uid ac = u)"

lemma named_unique: "acc_inv w \<Longrightarrow> named w u a \<Longrightarrow> named w u b \<Longrightarrow> a = b"
proof -
  assume i: "acc_inv w" and a: "named w u a" and b: "named w u b"
  then have "same_name (ax_accounts w) a b" by (fastforce simp: named_def same_name_def keyn_eq)
  then show ?thesis using i a b by (auto simp: acc_inv_def tables_ok_def named_def listed_def)
qed

lemma numbered_unique: "acc_inv w \<Longrightarrow> numbered w u a \<Longrightarrow> numbered w u b \<Longrightarrow> a = b"
proof -
  assume i: "acc_inv w" and a: "numbered w u a" and b: "numbered w u b"
  have "(u, a) \<in> set (ax_uids w)" "(u, b) \<in> set (ax_uids w)"
    using listed_account [OF i, of a] listed_account [OF i, of b] a b by (auto simp: numbered_def)
  moreover have "distinct (List.map fst (ax_uids w))" using i by (simp add: acc_inv_def tables_ok_def)
  ultimately show ?thesis by (metis eq_key_imp_eq_value)
qed

lemma name_search:
  assumes i: "acc_inv w"
  shows "\<exists>r. name_loop env (matching (account_hash u) (ax_names w)) u w = Some (r, w)
    \<and> (case r of None \<Rightarrow> \<forall>a. \<not> named w u a | Some a \<Rightarrow> named w u a)"
proof -
  let ?m = "matching (account_hash u) (ax_names w)"
  have "\<forall>a \<in> set ?m. \<exists>ac n. ax_accounts w a = Some ac \<and> ac_name ac = Some n"
    using listed_account [OF i matching_listed] by metis
  from name_loop_returns [OF this, of env u]
  obtain r where r: "name_loop env ?m u w = Some (r, w)" "case r of
        None \<Rightarrow> \<forall>a \<in> set ?m. \<forall>ac n. ax_accounts w a = Some ac \<longrightarrow> ac_name ac = Some n \<longrightarrow> strcasecmp n u \<noteq> 0
      | Some a \<Rightarrow> a \<in> set ?m \<and> (\<exists>ac n. ax_accounts w a = Some ac \<and> ac_name ac = Some n \<and> strcasecmp n u = 0)"
    by blast
  have "a \<in> set ?m" if "named w u a" for a
    using that listed_account [OF i, of a] account_hash_case by (fastforce simp: named_def matching_iff)
  then have "case r of None \<Rightarrow> \<forall>a. \<not> named w u a | Some a \<Rightarrow> named w u a"
    using r(2) matching_listed by (fastforce simp: named_def split: option.splits)
  then show ?thesis using r(1) by blast
qed

lemma uid_search:
  assumes i: "acc_inv w"
  shows "\<exists>r. uid_loop w (matching u (ax_uids w)) u = Some r \<and> (case r of None \<Rightarrow> \<forall>a. \<not> numbered w u a | Some a \<Rightarrow> numbered w u a)"
proof -
  let ?m = "matching u (ax_uids w)"
  have l: "a \<in> listed w" if "a \<in> set ?m" for a using that uids_listed [OF i] by (auto simp: matching_iff)
  then have "\<forall>a \<in> set ?m. \<exists>ac. ax_accounts w a = Some ac" using listed_account [OF i] by metis
  from uid_loop_returns [OF this, of u]
  obtain r where r: "uid_loop w ?m u = Some r" "case r of None \<Rightarrow> \<forall>a \<in> set ?m. \<forall>ac. ax_accounts w a = Some ac \<longrightarrow> ac_uid ac \<noteq> u
      | Some a \<Rightarrow> a \<in> set ?m \<and> (\<exists>ac. ax_accounts w a = Some ac \<and> ac_uid ac = u)"
    by blast
  have m: "a \<in> set ?m \<and> (\<exists>ac. ax_accounts w a = Some ac \<and> ac_uid ac = u)" if "numbered w u a" for a
    using that listed_account [OF i, of a] by (auto simp: numbered_def matching_iff)
  have "case r of None \<Rightarrow> \<forall>a. \<not> numbered w u a | Some a \<Rightarrow> numbered w u a"
  proof (cases r)
    case None
    then show ?thesis using r(2) m by simp metis
  next
    case (Some a)
    then show ?thesis using r(2) l [of a] by (simp add: numbered_def)
  qed
  then show ?thesis using r(1) by blast
qed

section \<open>Adding, destroying and loading\<close>

lemma add_account_step:
  assumes i: "acc_inv w" and a: "ax_accounts w a = Some ac" "ac_attrgroup ac = Some g" "a \<notin> listed w"
  shows "\<exists>r w' ac'. accountlist_add_account env a w = Some (r, w') \<and> acc_inv w' \<and> keeps (ax_attr w) (ax_attr w')
    \<and> (\<forall>b. b \<noteq> a \<longrightarrow> ax_accounts w' b = ax_accounts w b) \<and> ax_accounts w' a = Some ac' \<and> ac_attrgroup ac' = Some g
    \<and> ax_fresh w' = ax_fresh w \<and> ax_force w' = ax_force w \<and> ax_maxuid w \<le> ax_maxuid w'
    \<and> (r = None \<and> ax_names w' = ax_names w \<or> r = Some a \<and> (\<exists>h. ax_names w' = (h, a) # ax_names w))
    \<and> (ac_name ac \<noteq> None \<longrightarrow> ac_name ac' = ac_name ac)"
proof -
  let ?uk = "attr_key_path [''BNET'', ''acct'', ''userid'']"
  obtain v w1 where w1: "account_get_name env a w = Some (v, w1)" "only_acc a w w1" "ax_accounts w1 a = Some (ac\<lparr>ac_name := v\<rparr>)"
    using get_name_returns [OF i a(1)] by blast
  have nm: "ac_name ac \<noteq> None \<longrightarrow> v = ac_name ac" using w1(1) a(1) by (auto simp: account_get_name_def)
  have i1: "acc_inv w1" using acc_inv_step [OF i w1(2) a(1) w1(3)] a(3) by simp
  obtain uid x where x: "account_get_numattr env a ?uk w1 = Some (uid, w1\<lparr>ax_attr := x\<rparr>)" "keeps (ax_attr w1) x"
    using get_numattr_returns [OF i1 w1(3)] by blast
  define w2 where "w2 = w1\<lparr>ax_attr := x\<rparr>"
  have i2: "acc_inv w2" and o2: "only_acc a w w2" and a2: "ax_accounts w2 a = Some (ac\<lparr>ac_name := v\<rparr>)"
    using acc_inv_attr [OF i1 x(2)] only_acc_trans [OF w1(2) only_acc_attr [OF x(2)]] w1(3) by (simp_all add: w2_def)
  have eq: "accountlist_add_account env a w = (case v of None \<Rightarrow> Some (None, w2) | Some name \<Rightarrow>
      if length name < 1 then Some (None, w2) else if uid < 1 then Some (None, w2) else if \<not> accountlist_allow_add env w2 then Some (None, w2)
      else (let w3 = set_account a (ac\<lparr>ac_name := v, ac_namehash := account_hash name, ac_uid := uid\<rparr>) w2 in do {
            dup \<leftarrow> (if uid \<le> ax_maxuid w3 then uid_loop w3 (matching uid (ax_uids w3)) uid else Some None);
            if dup \<noteq> None then Some (None, w3)
            else do {
              (dup2, w4) \<leftarrow> name_loop env (matching (account_hash name) (ax_names w3)) name w3;
              if dup2 \<noteq> None then Some (None, w4)
              else Some (Some a, w4\<lparr>ax_names := (account_hash name, a) # ax_names w4, ax_uids := (uid, a) # ax_uids w4,
                ax_maxuid := (if uid > ax_maxuid w4 then uid else ax_maxuid w4)\<rparr>) } }))"
    using w1(1) x(1) a2 by (simp add: accountlist_add_account_def w2_def [symmetric] Let_def split: option.split)
  have out: ?thesis if "accountlist_add_account env a w = Some (None, w')" "acc_inv w'" "only_acc a w w'"
      "ax_accounts w' a = Some (ac\<lparr>ac_name := v, ac_namehash := h, ac_uid := u\<rparr>)" for w' h u
    using that a(2) nm by (intro exI [of _ None] exI [of _ w'] exI [of _ "ac\<lparr>ac_name := v, ac_namehash := h, ac_uid := u\<rparr>"]) (auto simp: only_acc_def)
  have same: "ac\<lparr>ac_name := v\<rparr> = ac\<lparr>ac_name := v, ac_namehash := ac_namehash ac, ac_uid := ac_uid ac\<rparr>" by simp
  show ?thesis
  proof (cases "\<exists>name. v = Some name \<and> \<not> length name < 1 \<and> \<not> uid < 1 \<and> accountlist_allow_add env w2")
    case False
    then have "accountlist_add_account env a w = Some (None, w2)" unfolding eq by (auto split: option.split)
    then show ?thesis using out i2 o2 a2 same by metis
  next
    case True
    then obtain name where v: "v = Some name" and c: "\<not> length name < 1" "\<not> uid < 1" "accountlist_allow_add env w2" by blast
    define ac3 where "ac3 = ac\<lparr>ac_name := v, ac_namehash := account_hash name, ac_uid := uid\<rparr>"
    define w3 where "w3 = set_account a ac3 w2"
    have a3: "ax_accounts w3 a = Some ac3" by (simp add: w3_def set_account_def)
    have o3: "only_acc a w2 w3" by (simp add: w3_def set_account_def only_acc_def)
    have l2: "a \<notin> listed w2" using a(3) o2 by (simp add: listed_def only_acc_def)
    have i3: "acc_inv w3" using acc_inv_step [OF i2 o3 a2 a3] l2 by (simp add: ac3_def)
    have ow3: "only_acc a w w3" using only_acc_trans [OF o2 o3] .
    have l3: "a \<notin> listed w3" using a(3) ow3 by (simp add: listed_def only_acc_def)
    obtain r1 where r1: "uid_loop w3 (matching uid (ax_uids w3)) uid = Some r1" "case r1 of None \<Rightarrow> \<forall>b. \<not> numbered w3 uid b | Some b \<Rightarrow> numbered w3 uid b"
      using uid_search [OF i3] by blast
    obtain r2 where r2: "name_loop env (matching (account_hash name) (ax_names w3)) name w3 = Some (r2, w3)"
        "case r2 of None \<Rightarrow> \<forall>b. \<not> named w3 name b | Some b \<Rightarrow> named w3 name b"
      using name_search [OF i3] by blast
    define dup where "dup = (if uid \<le> ax_maxuid w3 then r1 else None)"
    have eq2: "accountlist_add_account env a w = (if dup \<noteq> None then Some (None, w3) else if r2 \<noteq> None then Some (None, w3)
        else Some (Some a, w3\<lparr>ax_names := (account_hash name, a) # ax_names w3, ax_uids := (uid, a) # ax_uids w3,
                ax_maxuid := (if uid > ax_maxuid w3 then uid else ax_maxuid w3)\<rparr>))"
      unfolding eq using v c r1(1) r2(1) by (auto simp: dup_def w3_def ac3_def Let_def)
    show ?thesis
    proof (cases "dup \<noteq> None \<or> r2 \<noteq> None")
      case True
      then have "accountlist_add_account env a w = Some (None, w3)" unfolding eq2 by auto
      then show ?thesis using out i3 ow3 a3 unfolding ac3_def by metis
    next
      case False
      define w4 where "w4 = w3\<lparr>ax_names := (account_hash name, a) # ax_names w3, ax_uids := (uid, a) # ax_uids w3,
                ax_maxuid := (if uid > ax_maxuid w3 then uid else ax_maxuid w3)\<rparr>"
      have nu: "\<not> numbered w3 uid b" for b
      proof (cases "uid \<le> ax_maxuid w3")
        case True
        then show ?thesis using False r1(2) by (simp add: dup_def)
      next
        case no: False
        show ?thesis
        proof
          assume "numbered w3 uid b"
          then have "uid \<le> ax_maxuid w3" using listed_account [OF i3, of b] by (auto simp: numbered_def)
          then show False using no by simp
        qed
      qed
      have nn: "\<not> named w3 name b" for b using False r2(2) by simp
      have T: "tables_ok (ax_accounts w3) (ax_names w3) (ax_uids w3) (ax_maxuid w3)" using i3 by (simp add: acc_inv_def)
      have u1: "uid \<notin> fst ` set (ax_uids w3)"
      proof
        assume "uid \<in> fst ` set (ax_uids w3)"
        then obtain b where "(uid, b) \<in> set (ax_uids w3)" by auto
        then have "numbered w3 uid b" using uids_listed [OF i3] T by (fastforce simp: numbered_def tables_ok_def uid_entry_def)
        then show False using nu by simp
      qed
      have ul: "uid_entry (ax_accounts w4) (ax_maxuid w4) e" if "e \<in> set (ax_uids w3)" for e
        using T that by (fastforce simp: tables_ok_def uid_entry_def w4_def)
      have ua: "uid_entry (ax_accounts w4) (ax_maxuid w4) (uid, a)"
        using a3 c(2) [unfolded not_less] by (auto simp del: word_le_less_eq simp: uid_entry_def w4_def ac3_def)
      have na: "name_entry (ax_accounts w4) (account_hash name, a)"
        using a3 a(2) v by (simp add: name_entry_def w4_def ac3_def)
      have sn: "b \<in> snd ` set (ax_names w3) \<Longrightarrow> \<not> same_name (ax_accounts w3) a b \<and> \<not> same_name (ax_accounts w3) b a" for b
        using nn [of b] a3 v unfolding named_def listed_def same_name_def ac3_def by (auto simp: keyn_eq)
      have "tables_ok (ax_accounts w4) (ax_names w4) (ax_uids w4) (ax_maxuid w4)"
        unfolding tables_ok_def
      proof (intro conjI)
        show "List.map snd (ax_names w4) = List.map snd (ax_uids w4)" using T by (simp add: w4_def tables_ok_def)
        have "distinct (List.map snd (ax_names w3))" using T unfolding tables_ok_def by blast
        then show "distinct (List.map snd (ax_names w4))" using l3 by (simp add: w4_def listed_def)
        show "distinct (List.map fst (ax_uids w4))" using T u1 by (simp add: w4_def tables_ok_def)
        show "\<forall>e \<in> set (ax_names w4). name_entry (ax_accounts w4) e" using T na by (simp add: w4_def tables_ok_def)
        show "\<forall>e \<in> set (ax_uids w4). uid_entry (ax_accounts w4) (ax_maxuid w4) e" using ul ua by (simp add: w4_def)
        show "\<forall>b \<in> snd ` set (ax_names w4). \<forall>d \<in> snd ` set (ax_names w4). same_name (ax_accounts w4) b d \<longrightarrow> b = d"
          using T sn by (auto simp: w4_def tables_ok_def)
      qed
      then have "acc_inv w4" using i3 by (simp add: acc_inv_def w4_def)
      moreover have "accountlist_add_account env a w = Some (Some a, w4)" using False unfolding eq2 by (simp add: w4_def)
      moreover have "ax_maxuid w \<le> ax_maxuid w4" using ow3 by (auto simp: w4_def only_acc_def)
      ultimately show ?thesis using ow3 a3 a(2) nm
        by (intro exI [of _ "Some a"] exI [of _ w4] exI [of _ ac3]) (auto simp: w4_def ac3_def only_acc_def)
    qed
  qed
qed

text \<open>What an operation does to the accounts that were there: they stay, with group, and listed ones with name and number.\<close>

definition acc_ext :: "('i, 'd) acc_world \<Rightarrow> ('i, 'd) acc_world \<Rightarrow> bool" where
  "acc_ext w w' \<longleftrightarrow> (\<forall>a ac. ax_accounts w a = Some ac \<longrightarrow> ax_accounts w' a = Some ac)
     \<and> listed w \<subseteq> listed w' \<and> (\<forall>a \<in> listed w'. a \<in> listed w \<or> ax_accounts w a = None)
     \<and> ax_fresh w \<le> ax_fresh w' \<and> ax_maxuid w \<le> ax_maxuid w' \<and> aw_defattrs (ax_attr w') = aw_defattrs (ax_attr w)"

lemma acc_ext_refl [simp]: "acc_ext w w"
  by (simp add: acc_ext_def)

lemma acc_ext_trans:
  assumes "acc_ext w v" "acc_ext v u"
  shows "acc_ext w u"
proof -
  have "a \<in> listed w \<or> ax_accounts w a = None" if "a \<in> listed u" for a
  proof (cases "a \<in> listed v")
    case True
    then show ?thesis using assms(1) by (simp add: acc_ext_def)
  next
    case False
    then have "ax_accounts v a = None" using that assms(2) by (auto simp: acc_ext_def)
    then show ?thesis using assms(1) unfolding acc_ext_def by (metis option.exhaust option.distinct(1))
  qed
  moreover have "ax_fresh w \<le> ax_fresh u" "ax_maxuid w \<le> ax_maxuid u" "listed w \<subseteq> listed u"
    using assms unfolding acc_ext_def by (meson le_trans order_trans subset_trans)+
  ultimately show ?thesis using assms by (simp add: acc_ext_def)
qed

lemma destroy_step:
  assumes i: "acc_inv w" and a: "ax_accounts w a = Some ac" "a \<notin> listed w"
  shows "\<exists>w'. account_destroy env a w = Some w' \<and> acc_inv w' \<and> ax_accounts w' = (ax_accounts w)(a := None)
    \<and> ax_names w' = ax_names w \<and> ax_maxuid w' = ax_maxuid w \<and> ax_fresh w' = ax_fresh w \<and> ax_force w' = ax_force w
    \<and> aw_defattrs (ax_attr w') = aw_defattrs (ax_attr w)"
proof -
  have ok: "accounts_ok (ax_attr w) (ax_accounts w) (ax_fresh w)" and T: "tables_ok (ax_accounts w) (ax_names w) (ax_uids w) (ax_maxuid w)"
    using i by (simp_all add: acc_inv_def)
  have T': "tables_ok ((ax_accounts w)(a := None)) (ax_names w) (ax_uids w) (ax_maxuid w)"
    by (rule tables_ok_cong [OF T]) (use a(2) in \<open>metis listed_def fun_upd_other\<close>)
  have A': "accounts_ok x ((ax_accounts w)(a := None)) (ax_fresh w)" if "accounts_ok x (ax_accounts w) (ax_fresh w)" for x
    by (rule accounts_ok_sub [OF that]) (auto split: if_splits)
  show ?thesis
  proof (cases "ac_attrgroup ac")
    case None
    then show ?thesis using a(1) T' A' [OF ok] by (simp add: account_destroy_def acc_inv_def)
  next
    case (Some g)
    have lg: "live g (ax_attr w)" "aw_defattrs (ax_attr w) \<noteq> Some g" using acc_invD [OF i a(1)] Some by auto
    obtain rc x where x: "attrgroup_flush (ae_storage env) (ae_conf env) g True (ax_attr w) = Some (rc, x)" "keeps (ax_attr w) x"
      using flush_returns [OF lg(1)] by blast
    define y where "y = x\<lparr>aw_groups := (aw_groups x)(g := None)\<rparr>"
    have lv: "live h y \<longleftrightarrow> h \<noteq> g \<and> live h (ax_attr w)" for h using keeps_live [OF x(2)] by (auto simp: y_def live_def)
    have df: "aw_defattrs y = aw_defattrs (ax_attr w)" "aw_fresh y = aw_fresh (ax_attr w)" using x(2) by (simp_all add: y_def keeps_def)
    have "accounts_ok y ((ax_accounts w)(a := None)) (ax_fresh w)"
      unfolding accounts_ok_def
    proof (intro conjI allI impI)
      show "def_live y" using ok lg(2) lv df unfolding accounts_ok_def def_live_def by metis
      show "b < ax_fresh w" if "((ax_accounts w)(a := None)) b = Some c" for b c
        using that ok by (auto simp: accounts_ok_def split: if_splits)
      show "live h y" "aw_defattrs y \<noteq> Some h" if "((ax_accounts w)(a := None)) b = Some c" "ac_attrgroup c = Some h" for b c h
      proof -
        have b: "b \<noteq> a" "ax_accounts w b = Some c" using that(1) by (auto split: if_splits)
        have "h \<noteq> g" using ok a(1) Some b that(2) unfolding accounts_ok_def by metis
        then show "live h y" "aw_defattrs y \<noteq> Some h" using ok b(2) that(2) lv df by (auto simp: accounts_ok_def)
      qed
      show "ac_attrgroup d \<noteq> Some h" if "((ax_accounts w)(a := None)) b = Some c" "((ax_accounts w)(a := None)) e = Some d" "b \<noteq> e" "ac_attrgroup c = Some h" for b e c d h
        using that ok unfolding accounts_ok_def by (metis fun_upd_apply option.distinct(1))
    qed
    moreover have "account_destroy env a w = Some (w\<lparr>ax_attr := y, ax_accounts := (ax_accounts w)(a := None)\<rparr>)"
      using a(1) Some x(1) by (simp add: account_destroy_def attrgroup_destroy_def attrgroup_unload_def y_def)
    ultimately show ?thesis using T' df by (simp add: acc_inv_def)
  qed
qed

text \<open>A new group that no account owns.\<close>

definition free_group :: "nat \<Rightarrow> ('i, 'd) acc_world \<Rightarrow> bool" where
  "free_group g w \<longleftrightarrow> live g (ax_attr w) \<and> aw_defattrs (ax_attr w) \<noteq> Some g \<and> (\<forall>a ac. ax_accounts w a = Some ac \<longrightarrow> ac_attrgroup ac \<noteq> Some g)"

lemma create_storage_step:
  assumes i: "acc_inv w" and c: "attrgroup_create_storage info (ax_attr w) = (g, x)"
  shows "acc_inv (w\<lparr>ax_attr := x\<rparr>) \<and> free_group g (w\<lparr>ax_attr := x\<rparr>) \<and> aw_defattrs x = aw_defattrs (ax_attr w)"
proof -
  have ok: "accounts_ok (ax_attr w) (ax_accounts w) (ax_fresh w)" using i by (simp add: acc_inv_def)
  have g: "g = aw_fresh (ax_attr w)" and lv: "live h x \<longleftrightarrow> h = g \<or> live h (ax_attr w)" for h
    using c by (auto simp: attrgroup_create_storage_def set_group_def live_def)
  have df: "aw_defattrs x = aw_defattrs (ax_attr w)" "aw_fresh x = aw_fresh (ax_attr w) + 1"
    using c by (auto simp: attrgroup_create_storage_def set_group_def)
  have old: "h < g" if "live h (ax_attr w)" for h using ok that by (auto simp: accounts_ok_def def_live_def g)
  have dl: "def_live x" using ok lv df old by (fastforce simp: accounts_ok_def def_live_def g)
  have "accounts_ok x (ax_accounts w) (ax_fresh w)" using ok dl lv df unfolding accounts_ok_def by metis
  moreover have "aw_defattrs x \<noteq> Some g" using ok old [of g] df(1) unfolding accounts_ok_def def_live_def by (metis less_irrefl option.inject)
  moreover have "\<forall>a ac. ax_accounts w a = Some ac \<longrightarrow> ac_attrgroup ac \<noteq> Some g" using ok old by (fastforce simp: accounts_ok_def)
  ultimately show ?thesis using i lv df by (simp add: acc_inv_def free_group_def)
qed

lemma acc_inv_force: "acc_inv (w\<lparr>ax_force := f\<rparr>) = acc_inv w"
  by (simp add: acc_inv_def)

lemma account_load_step:
  assumes i: "acc_inv w" and g: "free_group g w"
  shows "\<exists>w' ac. account_load g w = Some (ax_fresh w, w') \<and> acc_inv w' \<and> ax_accounts w' = (ax_accounts w)(ax_fresh w \<mapsto> ac)
    \<and> ac_attrgroup ac = Some g \<and> ax_accounts w (ax_fresh w) = None \<and> ax_names w' = ax_names w \<and> ax_fresh w' = ax_fresh w + 1
    \<and> ax_maxuid w' = ax_maxuid w \<and> ax_attr w' = ax_attr w \<and> ax_fresh w \<notin> listed w"
proof -
  have ok: "accounts_ok (ax_attr w) (ax_accounts w) (ax_fresh w)" and T: "tables_ok (ax_accounts w) (ax_names w) (ax_uids w) (ax_maxuid w)"
    using i by (simp_all add: acc_inv_def)
  have n: "ax_accounts w (ax_fresh w) = None" using ok by (metis accounts_ok_def less_irrefl option.exhaust)
  then have nl: "ax_fresh w \<notin> listed w" using listed_account [OF i, of "ax_fresh w"] by auto
  define ac where "ac = \<lparr>ac_attrgroup = Some g, ac_name = None, ac_namehash = 0, ac_uid = 0, ac_floaded = False, ac_friends = None, ac_conn = None\<rparr>"
  define w' where "w' = w\<lparr>ax_accounts := (ax_accounts w)(ax_fresh w \<mapsto> ac), ax_fresh := ax_fresh w + 1\<rparr>"
  have "account_load g w = Some (ax_fresh w, w')"
    by (simp add: account_load_def new_account_def set_account_def w'_def ac_def)
  moreover have "tables_ok (ax_accounts w') (ax_names w) (ax_uids w) (ax_maxuid w)"
    by (rule tables_ok_cong [OF T]) (use nl in \<open>auto simp: listed_def w'_def image_iff\<close>)
  moreover have "accounts_ok (ax_attr w) (ax_accounts w') (ax_fresh w + 1)"
    unfolding accounts_ok_def
  proof (intro conjI allI impI)
    show "def_live (ax_attr w)" using ok by (simp add: accounts_ok_def)
    show "b < ax_fresh w + 1" if "ax_accounts w' b = Some c" for b c
      using that ok by (auto simp: accounts_ok_def w'_def less_Suc_eq split: if_splits)
    show "live h (ax_attr w)" "aw_defattrs (ax_attr w) \<noteq> Some h" if "ax_accounts w' b = Some c" "ac_attrgroup c = Some h" for b c h
      using that ok g by (auto simp: accounts_ok_def w'_def free_group_def ac_def split: if_splits)
    show "ac_attrgroup d \<noteq> Some h" if e: "ax_accounts w' b = Some c" "ax_accounts w' e = Some d" "b \<noteq> e" "ac_attrgroup c = Some h" for b e c d h
    proof (cases "b = ax_fresh w \<or> e = ax_fresh w")
      case True
      then show ?thesis using e g by (auto simp: w'_def free_group_def ac_def)
    next
      case False
      then show ?thesis using e ok unfolding accounts_ok_def w'_def by simp
    qed
  qed
  ultimately show ?thesis using n nl by (intro exI [of _ w'] exI [of _ ac]) (auto simp: acc_inv_def w'_def ac_def)
qed

text \<open>Loading a group into an account and adding it: refused, or listed.\<close>

lemma load_add_step:
  assumes i: "acc_inv w" and g: "free_group g w"
  shows "\<exists>a r w1 w2. account_load g w = Some (a, w1) \<and> accountlist_add_account env a w1 = Some (r, w2)
    \<and> (case r of
        None \<Rightarrow> \<exists>w3. account_destroy env a w2 = Some w3 \<and> acc_inv w3 \<and> acc_ext w w3 \<and> ax_names w3 = ax_names w
      | Some b \<Rightarrow> b = a \<and> acc_inv w2 \<and> acc_ext w w2 \<and> a \<in> listed w2)"
proof -
  obtain w1 ac where w1: "account_load g w = Some (ax_fresh w, w1)" "acc_inv w1" "ax_accounts w1 = (ax_accounts w)(ax_fresh w \<mapsto> ac)"
      "ac_attrgroup ac = Some g" "ax_accounts w (ax_fresh w) = None" "ax_names w1 = ax_names w" "ax_fresh w1 = ax_fresh w + 1"
      "ax_maxuid w1 = ax_maxuid w" "ax_attr w1 = ax_attr w" "ax_fresh w \<notin> listed w"
    using account_load_step [OF i g] by blast
  let ?a = "ax_fresh w"
  have a: "ax_accounts w1 ?a = Some ac" "?a \<notin> listed w1" using w1 by (simp_all add: listed_def)
  obtain r w2 ac2 where w2: "accountlist_add_account env ?a w1 = Some (r, w2)" "acc_inv w2" "keeps (ax_attr w1) (ax_attr w2)"
      "\<forall>b. b \<noteq> ?a \<longrightarrow> ax_accounts w2 b = ax_accounts w1 b" "ax_accounts w2 ?a = Some ac2" "ax_fresh w2 = ax_fresh w1"
      "ax_maxuid w1 \<le> ax_maxuid w2" "r = None \<and> ax_names w2 = ax_names w1 \<or> r = Some ?a \<and> (\<exists>h. ax_names w2 = (h, ?a) # ax_names w1)"
    using add_account_step [OF w1(2) a(1) w1(4) a(2), of env] by metis
  have df: "aw_defattrs (ax_attr w2) = aw_defattrs (ax_attr w)" using w2(3) w1(9) by (simp add: keeps_def)
  have acc: "ax_accounts w b = Some bc \<Longrightarrow> ax_accounts w2 b = Some bc \<and> b \<noteq> ?a" for b bc
    using w1(3,5) w2(4) by (metis fun_upd_other option.distinct(1))
  show ?thesis
  proof (cases r)
    case None
    then have n2: "ax_names w2 = ax_names w" using w2(8) w1(6) by auto
    then have "?a \<notin> listed w2" using w1(10) by (simp add: listed_def)
    from destroy_step [OF w2(2,5) this, of env]
    obtain w3 where w3: "account_destroy env ?a w2 = Some w3" "acc_inv w3" "ax_accounts w3 = (ax_accounts w2)(?a := None)"
        "ax_names w3 = ax_names w2" "ax_maxuid w3 = ax_maxuid w2" "ax_fresh w3 = ax_fresh w2" "aw_defattrs (ax_attr w3) = aw_defattrs (ax_attr w2)"
      by blast
    have "acc_ext w w3" using w3 w1 w2 n2 df acc by (auto simp: acc_ext_def listed_def)
    then show ?thesis using w1(1) w2(1) w3 None n2 by auto
  next
    case (Some b)
    then have b: "b = ?a" "listed w2 = insert ?a (listed w)" using w2(8) w1(6) by (auto simp: listed_def)
    have "acc_ext w w2" using w1 w2 df acc b by (auto simp: acc_ext_def)
    then show ?thesis using w1(1) w2(1,2) Some b by auto
  qed
qed

lemma load_new_step:
  assumes i: "acc_inv w"
  shows "\<exists>r w'. account_load_new env name uid w = Some (r, w') \<and> acc_inv w' \<and> acc_ext w w'
    \<and> (case r of None \<Rightarrow> ax_names w' = ax_names w | Some a \<Rightarrow> a \<in> listed w' \<and> a \<notin> listed w)"
proof (cases "case name of None \<Rightarrow> False | Some n \<Rightarrow> account_check_name env n \<noteq> 0")
  case True
  then show ?thesis using i by (auto simp: account_load_new_def)
next
  case False
  note nm = this
  show ?thesis
  proof (cases "ae_read_account env (aw_disk (ax_attr w)) name uid")
    case None
    then have "account_load_new env name uid w = Some (None, w\<lparr>ax_force := False\<rparr>)"
      using nm by (simp add: account_load_new_def attrgroup_create_nameuid_def)
    then show ?thesis using i by (simp add: acc_inv_force acc_ext_def listed_def)
  next
    case (Some info)
    obtain g x where c: "attrgroup_create_storage info (ax_attr w) = (g, x)" by fastforce
    define v where "v = w\<lparr>ax_attr := x, ax_force := True\<rparr>"
    note cs = create_storage_step [OF i c]
    have iv: "acc_inv v" "free_group g v" using cs by (auto simp: v_def acc_inv_def free_group_def)
    have ev: "acc_ext w v" using cs by (auto simp: v_def acc_ext_def listed_def)
    have nv: "ax_names v = ax_names w" by (simp add: v_def)
    obtain a r w1 w2 where l: "account_load g v = Some (a, w1)" "accountlist_add_account env a w1 = Some (r, w2)"
        "case r of None \<Rightarrow> \<exists>w3. account_destroy env a w2 = Some w3 \<and> acc_inv w3 \<and> acc_ext v w3 \<and> ax_names w3 = ax_names v
          | Some b \<Rightarrow> b = a \<and> acc_inv w2 \<and> acc_ext v w2 \<and> a \<in> listed w2"
      using load_add_step [OF iv, of env] by blast
    have eq: "account_load_new env name uid w = (case r of
        None \<Rightarrow> do { w3 \<leftarrow> account_destroy env a w2; Some (None, w3\<lparr>ax_force := False\<rparr>) }
      | Some _ \<Rightarrow> Some (Some a, w2\<lparr>ax_force := False\<rparr>))"
      using nm Some c l(1,2) unfolding v_def by (simp add: account_load_new_def attrgroup_create_nameuid_def split: option.split)
    have fr: "acc_ext w u \<Longrightarrow> acc_ext w (u\<lparr>ax_force := False\<rparr>)" for u by (simp add: acc_ext_def listed_def)
    show ?thesis
    proof (cases r)
      case None
      then obtain w3 where w3: "account_destroy env a w2 = Some w3" "acc_inv w3" "acc_ext v w3" "ax_names w3 = ax_names v" using l(3) by auto
      then show ?thesis using eq None fr [OF acc_ext_trans [OF ev w3(3)]] nv by (simp add: acc_inv_force)
    next
      case (Some b)
      then have b: "acc_inv w2" "acc_ext v w2" "a \<in> listed w2" using l(3) by auto
      have "a \<notin> listed w"
      proof
        assume "a \<in> listed w"
        then have "ax_accounts v a \<noteq> None" using listed_account [OF i] by (fastforce simp: v_def)
        moreover have "a = ax_fresh v" using l(1) by (auto simp: account_load_def new_account_def set_account_def)
        moreover have "ax_accounts v (ax_fresh v) = None" using account_load_step [OF iv] by blast
        ultimately show False by simp
      qed
      then show ?thesis using eq Some b fr [OF acc_ext_trans [OF ev b(2)]] by (simp add: acc_inv_force listed_def)
    qed
  qed
qed

lemma find_by_uid_step:
  assumes i: "acc_inv w"
  shows "\<exists>r w'. accountlist_find_account_by_uid env uid w = Some (r, w') \<and> acc_inv w' \<and> acc_ext w w'
    \<and> (\<forall>a. r = Some a \<longrightarrow> a \<in> listed w')
    \<and> (uid \<noteq> 0 \<longrightarrow> (\<forall>a. numbered w uid a \<longrightarrow> r = Some a \<and> w' = w)) \<and> (\<forall>a. r = Some a \<longrightarrow> a \<in> listed w \<longrightarrow> numbered w uid a)"
proof -
  obtain r where r: "uid_loop w (matching uid (ax_uids w)) uid = Some r" "case r of None \<Rightarrow> \<forall>a. \<not> numbered w uid a | Some a \<Rightarrow> numbered w uid a"
    using uid_search [OF i] by blast
  show ?thesis
  proof (cases "uid = 0 \<or> r = None")
    case True
    then have e: "accountlist_find_account_by_uid env uid w = account_load_new env None uid w"
      using r(1) by (auto simp: accountlist_find_account_by_uid_def)
    have "uid \<noteq> 0 \<Longrightarrow> \<not> numbered w uid a" for a using True r(2) by auto
    moreover obtain r3 w3 where l: "account_load_new env None uid w = Some (r3, w3)" "acc_inv w3" "acc_ext w w3"
        "case r3 of None \<Rightarrow> ax_names w3 = ax_names w | Some a \<Rightarrow> a \<in> listed w3 \<and> a \<notin> listed w"
      using load_new_step [OF i, of env None uid] by blast
    moreover have "\<forall>a. r3 = Some a \<longrightarrow> a \<in> listed w3 \<and> a \<notin> listed w" using l(4) by auto
    ultimately show ?thesis unfolding e by (intro exI [of _ r3] exI [of _ w3]) auto
  next
    case False
    then obtain a where a: "r = Some a" "uid \<noteq> 0" by auto
    then have n: "numbered w uid a" using r(2) by simp
    have "accountlist_find_account_by_uid env uid w = Some (Some a, w)" using a r(1) by (simp add: accountlist_find_account_by_uid_def)
    moreover have "a \<in> listed w" using n by (simp add: numbered_def)
    moreover have "\<forall>b. numbered w uid b \<longrightarrow> b = a" using numbered_unique [OF i _ n] by blast
    ultimately show ?thesis using i n acc_ext_refl [of w] by blast
  qed
qed

definition name_uid :: "('i, 'd) acc_env \<Rightarrow> cstring \<Rightarrow> u32" where
  "name_uid env username = (if username \<noteq> [] \<and> hd username = CHR ''#'' then num_value (Some (tl username))
     else if \<not> ae_savebyname env then num_value (Some username) else 0)"

lemma named_ext: "acc_ext w v \<Longrightarrow> named w u a \<Longrightarrow> named v u a"
  unfolding named_def acc_ext_def by (metis subsetD)

lemma find_account_step:
  assumes i: "acc_inv w"
  shows "\<exists>r w'. accountlist_find_account env username w = Some (r, w') \<and> acc_inv w' \<and> acc_ext w w' \<and> (\<forall>a. r = Some a \<longrightarrow> a \<in> listed w')
    \<and> (name_uid env username = 0 \<longrightarrow> (\<forall>a. named w username a \<longrightarrow> r = Some a \<and> w' = w) \<and> (\<forall>a. r = Some a \<longrightarrow> a \<in> listed w \<longrightarrow> named w username a))"
proof -
  define userid where "userid = name_uid env username"
  obtain r1 w1 where r1: "(if userid \<noteq> 0 then accountlist_find_account_by_uid env userid w else Some (None, w)) = Some (r1, w1)"
      "acc_inv w1" "acc_ext w w1" "\<forall>a. r1 = Some a \<longrightarrow> a \<in> listed w1" "userid = 0 \<longrightarrow> r1 = None \<and> w1 = w"
  proof (cases "userid = 0")
    case True
    then show ?thesis using that [of None w] i by simp
  next
    case False
    then show ?thesis using that find_by_uid_step [OF i, of env userid] by (metis (no_types, lifting))
  qed
  obtain r2 where r2: "name_loop env (matching (account_hash username) (ax_names w1)) username w1 = Some (r2, w1)"
      "case r2 of None \<Rightarrow> \<forall>a. \<not> named w1 username a | Some a \<Rightarrow> named w1 username a"
    using name_search [OF r1(2)] by blast
  have eq: "accountlist_find_account env username w = (case r1 of Some a \<Rightarrow> Some (Some a, w1)
      | None \<Rightarrow> if userid = 0 \<or> hd username = CHR ''#'' \<or> c_isdigit (hd username)
          then (case r2 of Some a \<Rightarrow> Some (Some a, w1) | None \<Rightarrow> account_load_new env (Some username) 0 w1)
          else account_load_new env (Some username) 0 w1)"
    using r1(1) r2(1) unfolding accountlist_find_account_def Let_def userid_def name_uid_def [symmetric]
    by (simp split: option.split)
  obtain r3 w3 where l: "account_load_new env (Some username) 0 w1 = Some (r3, w3)" "acc_inv w3" "acc_ext w1 w3"
      "case r3 of None \<Rightarrow> ax_names w3 = ax_names w1 | Some a \<Rightarrow> a \<in> listed w3 \<and> a \<notin> listed w1"
    using load_new_step [OF r1(2), of env "Some username" 0] by blast
  have l3: "\<forall>a. r3 = Some a \<longrightarrow> a \<in> listed w3 \<and> a \<notin> listed w1" using l(4) by auto
  show ?thesis
  proof (cases "r1 \<noteq> None \<or> \<not> (userid = 0 \<or> hd username = CHR ''#'' \<or> c_isdigit (hd username))")
    case True
    then show ?thesis using eq r1 l l3 acc_ext_trans [OF r1(3) l(3)] unfolding userid_def [symmetric]
      by (cases r1) auto
  next
    case False
    show ?thesis
    proof (cases r2)
      case None
      have "userid = 0 \<Longrightarrow> \<not> named w username a" for a using None r2(2) r1(5) by auto
      then show ?thesis using None eq False r1 l l3 acc_ext_trans [OF r1(3) l(3)] unfolding userid_def [symmetric] by auto
    next
      case (Some a)
      then have n: "named w1 username a" using r2(2) by simp
      have "userid = 0 \<Longrightarrow> named w username b \<Longrightarrow> b = a" for b using named_unique [OF r1(2) n] r1(5) by blast
      then show ?thesis using Some n eq False r1 unfolding userid_def [symmetric] by (auto simp: named_def)
    qed
  qed
qed

end
