(* ===== verification/Account_Props.thy ===== *)
theory Account_Props
  imports Account_Inv
begin

text \<open>
  The accounts of the server over any sequence of operations: creation, lookups that load from the storage,
  the load of the whole list, saves and flushes. Names and numbers stay unique and are found.
\<close>

section \<open>Creating an account\<close>

lemma new_account_step:
  assumes i: "acc_inv w" and n: "new_account w = (a, w')"
  shows "acc_inv w' \<and> acc_ext w w' \<and> a \<notin> listed w' \<and> ax_names w' = ax_names w \<and> ax_accounts w a = None
    \<and> (\<exists>ac. ax_accounts w' a = Some ac \<and> ac_attrgroup ac = None)"
proof -
  define ac where "ac = \<lparr>ac_attrgroup = None, ac_name = None, ac_namehash = 0, ac_uid = 0, ac_floaded = False, ac_friends = None, ac_conn = None\<rparr>"
  have w': "a = ax_fresh w" "w' = w\<lparr>ax_accounts := (ax_accounts w)(ax_fresh w \<mapsto> ac), ax_fresh := ax_fresh w + 1\<rparr>"
    using n by (auto simp: new_account_def set_account_def ac_def)
  have ok: "accounts_ok (ax_attr w) (ax_accounts w) (ax_fresh w)" and T: "tables_ok (ax_accounts w) (ax_names w) (ax_uids w) (ax_maxuid w)"
    using i by (simp_all add: acc_inv_def)
  have na: "ax_accounts w a = None" using ok w'(1) by (metis accounts_ok_def less_irrefl option.exhaust)
  then have nl: "a \<notin> listed w" using listed_account [OF i, of a] by auto
  have "tables_ok (ax_accounts w') (ax_names w) (ax_uids w) (ax_maxuid w)"
    by (rule tables_ok_cong [OF T]) (use nl w' in \<open>auto simp: listed_def image_iff\<close>)
  moreover have "accounts_ok (ax_attr w) (ax_accounts w') (ax_fresh w + 1)"
    unfolding accounts_ok_def
  proof (intro conjI allI impI)
    show "def_live (ax_attr w)" using ok by (simp add: accounts_ok_def)
    show "b < ax_fresh w + 1" if "ax_accounts w' b = Some c" for b c
      using that ok w' by (auto simp: accounts_ok_def less_Suc_eq split: if_splits)
    show "live h (ax_attr w)" "aw_defattrs (ax_attr w) \<noteq> Some h" if "ax_accounts w' b = Some c" "ac_attrgroup c = Some h" for b c h
      using that ok w' by (auto simp: accounts_ok_def ac_def split: if_splits)
    show "ac_attrgroup d \<noteq> Some h" if e: "ax_accounts w' b = Some c" "ax_accounts w' e = Some d" "b \<noteq> e" "ac_attrgroup c = Some h" for b e c d h
    proof (cases "b = a \<or> e = a")
      case True
      then show ?thesis using e w' by (auto simp: ac_def)
    next
      case False
      then show ?thesis using e ok w' unfolding accounts_ok_def by simp
    qed
  qed
  ultimately show ?thesis using w' na nl by (auto simp: acc_inv_def listed_def acc_ext_def ac_def)
qed

lemma newuser_step:
  assumes i: "acc_inv w"
  shows "\<exists>g x. attrgroup_create_newuser env m name (ax_attr w) = Some (g, x) \<and> acc_inv (w\<lparr>ax_attr := x\<rparr>)
    \<and> aw_defattrs x = aw_defattrs (ax_attr w) \<and> (\<forall>g'. g = Some g' \<longrightarrow> free_group g' (w\<lparr>ax_attr := x\<rparr>))"
proof (cases "ae_create_account env m name")
  case None
  then show ?thesis using i by (simp add: attrgroup_create_newuser_def)
next
  case (Some info)
  obtain g x where c: "attrgroup_create_storage info (ax_attr w) = (g, x)" by fastforce
  note cs = create_storage_step [OF i c]
  then have lg: "live g x" by (simp add: free_group_def)
  obtain y where y: "attrgroup_set_loaded g x = Some y" "keeps x y" using marks_return(5) [OF lg] by blast
  have "acc_inv (w\<lparr>ax_attr := y\<rparr>)" using acc_inv_attr [of "w\<lparr>ax_attr := x\<rparr>" y] cs y(2) by simp
  moreover have "free_group g (w\<lparr>ax_attr := y\<rparr>)" using cs y(2) by (auto simp: free_group_def keeps_def)
  moreover have "aw_defattrs y = aw_defattrs (ax_attr w)" using cs y(2) by (simp add: keeps_def)
  ultimately show ?thesis using Some c y(1) by (simp add: attrgroup_create_newuser_def)
qed

lemma attach_step:
  assumes i: "acc_inv w" and a: "ax_accounts w a = Some ac" "ac_attrgroup ac = None" "a \<notin> listed w" and g: "free_group g w"
    and ac': "ac_attrgroup ac' = Some g"
  shows "acc_inv (set_account a ac' w)"
proof -
  have ok: "accounts_ok (ax_attr w) (ax_accounts w) (ax_fresh w)" and T: "tables_ok (ax_accounts w) (ax_names w) (ax_uids w) (ax_maxuid w)"
    using i by (simp_all add: acc_inv_def)
  have "tables_ok ((ax_accounts w)(a \<mapsto> ac')) (ax_names w) (ax_uids w) (ax_maxuid w)"
    by (rule tables_ok_cong [OF T]) (use a(3) in \<open>auto simp: listed_def image_iff\<close>)
  moreover have "accounts_ok (ax_attr w) ((ax_accounts w)(a \<mapsto> ac')) (ax_fresh w)"
    unfolding accounts_ok_def
  proof (intro conjI allI impI)
    show "def_live (ax_attr w)" using ok by (simp add: accounts_ok_def)
    show "b < ax_fresh w" if "((ax_accounts w)(a \<mapsto> ac')) b = Some c" for b c
      using that ok a(1) by (auto simp: accounts_ok_def split: if_splits)
    show "live h (ax_attr w)" "aw_defattrs (ax_attr w) \<noteq> Some h" if "((ax_accounts w)(a \<mapsto> ac')) b = Some c" "ac_attrgroup c = Some h" for b c h
      using that ok g ac' by (auto simp: accounts_ok_def free_group_def split: if_splits)
    show "ac_attrgroup d \<noteq> Some h" if e: "((ax_accounts w)(a \<mapsto> ac')) b = Some c" "((ax_accounts w)(a \<mapsto> ac')) e = Some d" "b \<noteq> e" "ac_attrgroup c = Some h" for b e c d h
    proof (cases "b = a \<or> e = a")
      case True
      then show ?thesis using e g ac' by (auto simp: free_group_def)
    next
      case False
      then show ?thesis using e ok unfolding accounts_ok_def by simp
    qed
  qed
  ultimately show ?thesis by (simp add: acc_inv_def set_account_def)
qed

text \<open>A state in which the new account \<open>a\<close> is not listed and has its group, and what was there before stays.\<close>

definition fresh_account :: "('i, 'd) acc_world \<Rightarrow> nat \<Rightarrow> ('i, 'd) acc_world \<Rightarrow> bool" where
  "fresh_account w a v \<longleftrightarrow> acc_inv v \<and> acc_ext w v \<and> ax_accounts w a = None \<and> a \<notin> listed v
     \<and> (\<exists>ac. ax_accounts v a = Some ac)"

lemma fresh_account_attr:
  assumes "fresh_account w a v" "keeps (ax_attr v) x"
  shows "fresh_account w a (v\<lparr>ax_attr := x\<rparr>)"
  using assms acc_inv_attr [of v x] by (auto simp: fresh_account_def acc_ext_def listed_def keeps_def)

lemma err_step:
  assumes "fresh_account w a v"
  shows "\<exists>w'. account_destroy env a v = Some w' \<and> acc_inv w' \<and> acc_ext w w'"
proof -
  obtain ac where a: "acc_inv v" "ax_accounts v a = Some ac" "a \<notin> listed v" "acc_ext w v" "ax_accounts w a = None"
    using assms by (auto simp: fresh_account_def)
  from destroy_step [OF a(1-3), of env] obtain w' where w': "account_destroy env a v = Some w'" "acc_inv w'"
      "ax_accounts w' = (ax_accounts v)(a := None)" "ax_names w' = ax_names v" "ax_maxuid w' = ax_maxuid v" "ax_fresh w' = ax_fresh v"
      "aw_defattrs (ax_attr w') = aw_defattrs (ax_attr v)"
    by blast
  have "acc_ext w w'" using w' a(4,5) by (auto simp: acc_ext_def listed_def)
  then show ?thesis using w' by blast
qed

lemma create_step:
  assumes i: "acc_inv w"
  shows "\<exists>r w'. account_create env u p w = Some (r, w') \<and> acc_inv w' \<and> acc_ext w w'
    \<and> (\<forall>a. r = Some a \<longrightarrow> fresh_account w a w' \<and> (\<exists>ac g. ax_accounts w' a = Some ac \<and> ac_attrgroup ac = Some g))"
proof (cases "account_check_name env u \<noteq> 0")
  case True
  then show ?thesis using i by (simp add: account_create_def)
next
  case False
  note ck = this
  obtain a w1 where n: "new_account w = (a, w1)" by fastforce
  note n1 = new_account_step [OF i n]
  then have i1: "acc_inv w1" by simp
  obtain dup w2 where f: "accountlist_find_account env u w1 = Some (dup, w2)" "acc_inv w2" "acc_ext w1 w2"
    using find_account_step [OF i1, of env u] by blast
  have ext2: "acc_ext w w2" using acc_ext_trans [OF _ f(3)] n1 by blast
  obtain ac where ac: "ax_accounts w2 a = Some ac" "ac_attrgroup ac = None" using n1 f(3) unfolding acc_ext_def by blast
  have nl2: "a \<notin> listed w2" using n1 f(3) by (auto simp: acc_ext_def)
  have f2: "fresh_account w a w2" using f(2) ext2 n1 nl2 ac by (simp add: fresh_account_def)
  let ?err = "\<lambda>v. do { v1 \<leftarrow> account_destroy env a v; Some (None, v1) }"
  have err: "\<exists>w'. ?err v = Some (None, w') \<and> acc_inv w' \<and> acc_ext w w'" if "fresh_account w a v" for v
    using err_step [OF that, of env] by auto
  obtain g x where x: "attrgroup_create_newuser env (ax_maxuid w2) u (ax_attr w2) = Some (g, x)" "acc_inv (w2\<lparr>ax_attr := x\<rparr>)"
      "aw_defattrs x = aw_defattrs (ax_attr w2)" "\<forall>g'. g = Some g' \<longrightarrow> free_group g' (w2\<lparr>ax_attr := x\<rparr>)"
    using newuser_step [OF f(2), of env "ax_maxuid w2" u] by blast
  have f2x: "fresh_account w a (w2\<lparr>ax_attr := x\<rparr>)" using f2 x(2,3) by (auto simp: fresh_account_def acc_ext_def listed_def)
  show ?thesis
  proof (cases "dup \<noteq> None \<or> g = None")
    case True
    then have "account_create env u p w = ?err (if dup \<noteq> None then w2 else w2\<lparr>ax_attr := x\<rparr>)"
      using ck n f(1) x(1) by (auto simp: account_create_def)
    then show ?thesis using err [OF f2] err [OF f2x] by (cases "dup \<noteq> None") auto
  next
    case False
    then obtain g' where g': "g = Some g'" by auto
    define ac3 where "ac3 = ac\<lparr>ac_attrgroup := Some g', ac_name := Some u\<rparr>"
    define w3 where "w3 = set_account a ac3 (w2\<lparr>ax_attr := x\<rparr>)"
    have i3: "acc_inv w3"
      using attach_step [OF x(2), of a ac g' ac3] ac nl2 x(4) g' by (simp add: w3_def ac3_def listed_def)
    have f3: "fresh_account w a w3" using f2x i3 n1 ac3_def by (auto simp: fresh_account_def w3_def set_account_def acc_ext_def listed_def)
    have a3: "ax_accounts w3 a = Some ac3" "ac_attrgroup ac3 = Some g'" by (simp_all add: w3_def set_account_def ac3_def)
    define bn where "bn s = attr_key_path [''BNET'', ''acct'', s]" for s
    have set: "\<exists>y. account_set_strattr env a k val v = Some (0, v\<lparr>ax_attr := y\<rparr>) \<and> fresh_account w a (v\<lparr>ax_attr := y\<rparr>) \<and> ax_accounts (v\<lparr>ax_attr := y\<rparr>) a = Some ac3"
      if "fresh_account w a v" "ax_accounts v a = Some ac3" for k val v
    proof -
      have "acc_inv v" using that(1) by (simp add: fresh_account_def)
      then show ?thesis using set_strattr_returns [OF _ that(2) a3(2), of env k val] fresh_account_attr [OF that(1)] that(2) by auto
    qed
    obtain y4 where y4: "account_set_strattr env a (bn ''username'') (Some u) w3 = Some (0, w3\<lparr>ax_attr := y4\<rparr>)"
        "fresh_account w a (w3\<lparr>ax_attr := y4\<rparr>)" "ax_accounts (w3\<lparr>ax_attr := y4\<rparr>) a = Some ac3" using set [OF f3 a3(1)] by blast
    obtain y5 where y5: "account_set_strattr env a (bn ''userid'') (Some (fmt_d (unat (ax_maxuid w3 + 1)))) (w3\<lparr>ax_attr := y4\<rparr>) = Some (0, w3\<lparr>ax_attr := y5\<rparr>)"
        "fresh_account w a (w3\<lparr>ax_attr := y5\<rparr>)" "ax_accounts (w3\<lparr>ax_attr := y5\<rparr>) a = Some ac3" using set [OF y4(2,3)] by auto
    obtain y6 where y6: "account_set_strattr env a (bn ''passhash1'') (Some p) (w3\<lparr>ax_attr := y5\<rparr>) = Some (0, w3\<lparr>ax_attr := y6\<rparr>)"
        "fresh_account w a (w3\<lparr>ax_attr := y6\<rparr>)" "ax_accounts (w3\<lparr>ax_attr := y6\<rparr>) a = Some ac3" using set [OF y5(2,3)] by auto
    obtain y7 where y7: "account_set_strattr env a (bn ''ctime'') (Some (fmt_d (unat (word_of_int (aw_now y6) :: u32)))) (w3\<lparr>ax_attr := y6\<rparr>) = Some (0, w3\<lparr>ax_attr := y7\<rparr>)"
        "fresh_account w a (w3\<lparr>ax_attr := y7\<rparr>)" "ax_accounts (w3\<lparr>ax_attr := y7\<rparr>) a = Some ac3" using set [OF y6(2,3)] by auto
    have "account_create env u p w = Some (Some a, w3\<lparr>ax_attr := y7\<rparr>)"
      using ck n f(1) x(1) False g' ac(1) y4(1) y5(1) y6(1) y7(1)
      unfolding bn_def by (simp add: account_create_def account_set_numattr_def w3_def ac3_def)
    then show ?thesis using y7(2,3) a3(2) by (auto simp: fresh_account_def)
  qed
qed

lemma create_account_step:
  assumes i: "acc_inv w"
  shows "\<exists>r w'. accountlist_create_account env u p w = Some (r, w') \<and> acc_inv w' \<and> acc_ext w w' \<and> (\<forall>a. r = Some a \<longrightarrow> a \<in> listed w' \<and> a \<notin> listed w)"
proof -
  obtain r w1 where c: "account_create env u p w = Some (r, w1)" "acc_inv w1" "acc_ext w w1"
      "\<forall>a. r = Some a \<longrightarrow> fresh_account w a w1 \<and> (\<exists>ac g. ax_accounts w1 a = Some ac \<and> ac_attrgroup ac = Some g)"
    using create_step [OF i, of env u p] by blast
  show ?thesis
  proof (cases r)
    case None
    then show ?thesis using c by (simp add: accountlist_create_account_def)
  next
    case (Some a)
    then obtain ac g where a: "ax_accounts w1 a = Some ac" "ac_attrgroup ac = Some g" "a \<notin> listed w1" "ax_accounts w a = None"
      using c(4) by (auto simp: fresh_account_def)
    obtain r2 w2 ac2 where w2: "accountlist_add_account env a w1 = Some (r2, w2)" "acc_inv w2" "keeps (ax_attr w1) (ax_attr w2)"
        "\<forall>b. b \<noteq> a \<longrightarrow> ax_accounts w2 b = ax_accounts w1 b" "ax_accounts w2 a = Some ac2" "ac_attrgroup ac2 = Some g" "ax_fresh w2 = ax_fresh w1"
        "ax_maxuid w1 \<le> ax_maxuid w2" "r2 = None \<and> ax_names w2 = ax_names w1 \<or> r2 = Some a \<and> (\<exists>h. ax_names w2 = (h, a) # ax_names w1)"
      using add_account_step [OF c(2) a(1-3), of env] by metis
    have nl: "a \<notin> listed w" using listed_account [OF i, of a] a(4) by auto
    have kp: "ax_accounts w2 b = Some bc" if "ax_accounts w b = Some bc" for b bc
      using that c(3) w2(4) a(4) unfolding acc_ext_def by (metis option.distinct(1))
    show ?thesis
    proof (cases r2)
      case None
      then have "ax_names w2 = ax_names w1" using w2(9) by auto
      then have "fresh_account w a w2" using c(3) w2 a kp by (auto simp: fresh_account_def acc_ext_def listed_def keeps_def)
      from err_step [OF this, of env] show ?thesis using Some c(1) w2(1) None by (auto simp: accountlist_create_account_def)
    next
      case s2: (Some b)
      then have b: "listed w2 = insert a (listed w1)" using w2(9) by (auto simp: listed_def)
      have e2: "acc_ext w w2" using c(3) w2 a b kp by (auto simp: acc_ext_def keeps_def)
      obtain rc x where x: "attrgroup_save (ae_storage env) (ae_conf env) g True (ax_attr w2) = Some (rc, x)" "keeps (ax_attr w2) x"
        using save_returns [OF acc_invD(2) [OF w2(2,5,6)]] by blast
      have "accountlist_create_account env u p w = Some (Some a, w2\<lparr>ax_attr := x\<rparr>)"
        using Some c(1) w2(1,5,6) s2 x(1) by (simp add: accountlist_create_account_def account_save_def)
      moreover have "acc_ext w (w2\<lparr>ax_attr := x\<rparr>)" using e2 x(2) by (auto simp: acc_ext_def listed_def keeps_def)
      ultimately show ?thesis using acc_inv_attr [OF w2(2) x(2)] b nl by (auto simp: listed_def)
    qed
  qed
qed

section \<open>Loading, saving, flushing\<close>

lemma cb_step:
  assumes i: "acc_inv w"
  shows "\<exists>w'. cb_read_accounts env info w = Some w' \<and> acc_inv w' \<and> acc_ext w w'"
proof -
  obtain g x where c: "attrgroup_create_storage info (ax_attr w) = (g, x)" by fastforce
  define v where "v = w\<lparr>ax_attr := x\<rparr>"
  note cs = create_storage_step [OF i c]
  have iv: "acc_inv v" "free_group g v" using cs by (simp_all add: v_def)
  have ev: "acc_ext w v" using cs by (auto simp: v_def acc_ext_def listed_def)
  obtain a r w1 w2 where l: "account_load g v = Some (a, w1)" "accountlist_add_account env a w1 = Some (r, w2)"
      "case r of None \<Rightarrow> \<exists>w3. account_destroy env a w2 = Some w3 \<and> acc_inv w3 \<and> acc_ext v w3 \<and> ax_names w3 = ax_names v
        | Some b \<Rightarrow> b = a \<and> acc_inv w2 \<and> acc_ext v w2 \<and> a \<in> listed w2"
    using load_add_step [OF iv, of env] by blast
  show ?thesis
  proof (cases r)
    case None
    then obtain w3 where "account_destroy env a w2 = Some w3" "acc_inv w3" "acc_ext v w3" using l(3) by auto
    then show ?thesis using c l(1,2) None acc_ext_trans [OF ev] by (auto simp: cb_read_accounts_def v_def)
  next
    case (Some b)
    then have b: "acc_inv w2" "acc_ext v w2" "a \<in> listed w2" using l(3) by auto
    obtain ac n h where ac: "ax_accounts w2 a = Some ac" "ac_attrgroup ac = Some h" "ac_name ac = Some n" using listed_account [OF b(1,3)] by blast
    obtain rc y where y: "attrgroup_flush (ae_storage env) (ae_conf env) h True (ax_attr w2) = Some (rc, y)" "keeps (ax_attr w2) y" "0 \<le> rc"
      using flush_returns [OF acc_invD(2) [OF b(1) ac(1,2)]] by blast
    have iy: "acc_inv (w2\<lparr>ax_attr := y\<rparr>)" using acc_inv_attr [OF b(1) y(2)] .
    have an: "ax_accounts v a = None"
      using l(1) account_load_step [OF iv] by (auto simp: account_load_def new_account_def set_account_def)
    obtain rc2 w4 where w4: "account_unload_friends a (w2\<lparr>ax_attr := y\<rparr>) = Some (rc2, w4)" "acc_inv w4"
        "\<forall>b. b \<noteq> a \<longrightarrow> ax_accounts w4 b = ax_accounts w2 b" "ax_names w4 = ax_names w2" "ax_maxuid w4 = ax_maxuid w2" "ax_fresh w4 = ax_fresh w2"
        "aw_defattrs (ax_attr w4) = aw_defattrs (ax_attr w2)"
    proof (cases "ac_friends ac")
      case None
      then show ?thesis using that [of _ "w2\<lparr>ax_attr := y\<rparr>"] ac(1) iy y(2)
        by (simp add: account_unload_friends_def friendlist_unload_def keeps_def)
    next
      case (Some fs)
      define ac2 where "ac2 = ac\<lparr>ac_friends := Some (map (\<lambda>fr. fr\<lparr>fr_mutual := -1\<rparr>) fs), ac_floaded := False\<rparr>"
      define u where "u = set_account a ac2 (w2\<lparr>ax_attr := y\<rparr>)"
      have "acc_inv u"
        by (rule acc_inv_step [OF iy, of a u ac ac2]) (use ac in \<open>simp_all add: u_def set_account_def only_acc_def ac2_def\<close>)
      then show ?thesis using that [of 0 u] ac(1) Some y(2)
        by (simp add: account_unload_friends_def friendlist_unload_def keeps_def u_def set_account_def ac2_def)
    qed
    have "cb_read_accounts env info w = Some w4"
      using c l(1,2) Some ac(1,2) y(1,3) w4(1) by (simp add: cb_read_accounts_def v_def account_flush_def)
    moreover have "ax_accounts w4 d = Some bc" if "ax_accounts v d = Some bc" for d bc
      using that b(2) w4(3) an unfolding acc_ext_def by (metis option.distinct(1))
    then have "acc_ext v w4" using b(2) w4(4-7) by (auto simp: acc_ext_def listed_def)
    ultimately show ?thesis using w4(2) acc_ext_trans [OF ev] by blast
  qed
qed

lemma load_loop_step: "acc_inv w \<Longrightarrow> \<exists>w'. load_loop env is w = Some w' \<and> acc_inv w' \<and> acc_ext w w'"
proof (induction "is" arbitrary: w)
  case (Cons i "is")
  then show ?case using cb_step [OF Cons.prems, of env i] acc_ext_trans by fastforce
qed simp

lemma load_all_step: "acc_inv w \<Longrightarrow> \<exists>w'. accountlist_load_all env w = Some w' \<and> acc_inv w' \<and> acc_ext w w'"
proof -
  assume "acc_inv w"
  then have "acc_inv (w\<lparr>ax_force := True\<rparr>)" by (simp add: acc_inv_def)
  from load_loop_step [OF this, of env "ae_read_accounts env (aw_disk (ax_attr w))"]
  obtain w1 where "load_loop env (ae_read_accounts env (aw_disk (ax_attr w))) (w\<lparr>ax_force := True\<rparr>) = Some w1" "acc_inv w1" "acc_ext (w\<lparr>ax_force := True\<rparr>) w1"
    by blast
  then show ?thesis by (simp add: accountlist_load_all_def acc_inv_def acc_ext_def listed_def)
qed

text \<open>What callers rely on: a listed account stays listed, with its group, name and number.\<close>

definition accounts_stay :: "('i, 'd) acc_world \<Rightarrow> ('i, 'd) acc_world \<Rightarrow> bool" where
  "accounts_stay w w' \<longleftrightarrow> (\<forall>a \<in> listed w. a \<in> listed w' \<and> (\<exists>ac ac'. ax_accounts w a = Some ac \<and> ax_accounts w' a = Some ac'
     \<and> ac_attrgroup ac' = ac_attrgroup ac \<and> ac_name ac' = ac_name ac \<and> ac_uid ac' = ac_uid ac))"

lemma accounts_stay_trans:
  assumes "accounts_stay w v" "accounts_stay v u"
  shows "accounts_stay w u"
  unfolding accounts_stay_def
proof
  fix a
  assume "a \<in> listed w"
  then obtain ac ac' where a: "a \<in> listed v" "ax_accounts w a = Some ac" "ax_accounts v a = Some ac'"
      "ac_attrgroup ac' = ac_attrgroup ac" "ac_name ac' = ac_name ac" "ac_uid ac' = ac_uid ac"
    using assms(1) unfolding accounts_stay_def by blast
  then show "a \<in> listed u \<and> (\<exists>ac ac'. ax_accounts w a = Some ac \<and> ax_accounts u a = Some ac'
      \<and> ac_attrgroup ac' = ac_attrgroup ac \<and> ac_name ac' = ac_name ac \<and> ac_uid ac' = ac_uid ac)"
    using assms(2) unfolding accounts_stay_def by (metis option.inject)
qed

lemma accounts_stay_refl: "acc_inv w \<Longrightarrow> accounts_stay w w"
  using listed_account unfolding accounts_stay_def by blast

lemma ext_stays: "acc_inv w \<Longrightarrow> acc_ext w w' \<Longrightarrow> accounts_stay w w'"
  using listed_account unfolding accounts_stay_def acc_ext_def by blast

lemma only_acc_stays:
  assumes "acc_inv w" "only_acc a w w'" "ax_accounts w a = Some ac" "ax_accounts w' a = Some ac'"
    and "ac_attrgroup ac' = ac_attrgroup ac" "ac_name ac' = ac_name ac" "ac_uid ac' = ac_uid ac" "ac_namehash ac' = ac_namehash ac"
  shows "acc_inv w' \<and> accounts_stay w w'"
proof
  show "acc_inv w'" using acc_inv_step [OF assms(1-5)] assms(6-8) by blast
  show "accounts_stay w w'" unfolding accounts_stay_def
  proof
    fix b
    assume b: "b \<in> listed w"
    then have "b \<in> listed w'" using assms(2) by (simp add: only_acc_def listed_def)
    moreover obtain bc where "ax_accounts w b = Some bc" using listed_account [OF assms(1) b] by blast
    ultimately show "b \<in> listed w' \<and> (\<exists>ac ac'. ax_accounts w b = Some ac \<and> ax_accounts w' b = Some ac'
      \<and> ac_attrgroup ac' = ac_attrgroup ac \<and> ac_name ac' = ac_name ac \<and> ac_uid ac' = ac_uid ac)"
      using assms by (cases "b = a") (auto simp: only_acc_def)
  qed
qed

lemma flush_account_step:
  assumes i: "acc_inv w" and a: "a \<in> listed w"
  shows "\<exists>rc w'. account_flush env a f w = Some (rc, w') \<and> acc_inv w' \<and> accounts_stay w w'"
proof -
  obtain ac n g where ac: "ax_accounts w a = Some ac" "ac_attrgroup ac = Some g" using listed_account [OF i a] by blast
  obtain rc y where y: "attrgroup_flush (ae_storage env) (ae_conf env) g f (ax_attr w) = Some (rc, y)" "keeps (ax_attr w) y" "0 \<le> rc"
    using flush_returns [OF acc_invD(2) [OF i ac]] by blast
  define ac2 where "ac2 = (case ac_friends ac of None \<Rightarrow> ac | Some fs \<Rightarrow> ac\<lparr>ac_friends := Some (map (\<lambda>fr. fr\<lparr>fr_mutual := -1\<rparr>) fs), ac_floaded := False\<rparr>)"
  define u where "u = (if ac_friends ac = None then w\<lparr>ax_attr := y\<rparr> else set_account a ac2 (w\<lparr>ax_attr := y\<rparr>))"
  have "account_flush env a f w = Some (rc, u)"
    using ac y(1,3) by (auto simp: account_flush_def account_unload_friends_def friendlist_unload_def u_def ac2_def split: option.split)
  moreover have "acc_inv u \<and> accounts_stay w u"
    by (rule only_acc_stays [OF i, of a _ ac ac2])
      (use ac y(2) in \<open>auto simp: u_def ac2_def only_acc_def set_account_def split: option.split\<close>)
  ultimately show ?thesis by blast
qed

lemma save_account_step:
  assumes i: "acc_inv w" and a: "a \<in> listed w"
  shows "\<exists>rc w'. account_save env a f w = Some (rc, w') \<and> acc_inv w' \<and> accounts_stay w w'"
proof -
  obtain ac n g where ac: "ax_accounts w a = Some ac" "ac_attrgroup ac = Some g" using listed_account [OF i a] by blast
  obtain rc y where y: "attrgroup_save (ae_storage env) (ae_conf env) g f (ax_attr w) = Some (rc, y)" "keeps (ax_attr w) y"
    using save_returns [OF acc_invD(2) [OF i ac]] by blast
  have "acc_inv (w\<lparr>ax_attr := y\<rparr>) \<and> accounts_stay w (w\<lparr>ax_attr := y\<rparr>)"
    by (rule only_acc_stays [OF i, of a _ ac ac]) (use ac y(2) in \<open>simp_all add: only_acc_def\<close>)
  then show ?thesis using ac y(1) by (simp add: account_save_def)
qed

lemma attr_change_stays:
  assumes i: "acc_inv w" and a: "a \<in> listed w" and k: "keeps (ax_attr w) y"
  shows "acc_inv (w\<lparr>ax_attr := y\<rparr>) \<and> accounts_stay w (w\<lparr>ax_attr := y\<rparr>)"
proof -
  obtain ac where "ax_accounts w a = Some ac" using listed_account [OF i a] by blast
  then show ?thesis by (intro only_acc_stays [OF i, of a _ ac ac]) (use k in \<open>simp_all add: only_acc_def\<close>)
qed

section \<open>Any sequence of operations\<close>

datatype acc_op =
    A_find cstring
  | A_find_uid u32
  | A_create cstring cstring
  | A_load_all
  | A_save nat bool
  | A_flush nat bool
  | A_get nat cstring
  | A_set nat cstring "cstring option"
  | A_time int

text \<open>The operations on one account are for the accounts of the list, which callers got from a lookup.\<close>

definition acc_step :: "('i, 'd) acc_env \<Rightarrow> acc_op \<Rightarrow> ('i, 'd) acc_world \<Rightarrow> (nat option \<times> ('i, 'd) acc_world) option" where
  "acc_step env op w = (case op of
     A_find u \<Rightarrow> accountlist_find_account env u w
   | A_find_uid uid \<Rightarrow> accountlist_find_account_by_uid env uid w
   | A_create u p \<Rightarrow> accountlist_create_account env u p w
   | A_load_all \<Rightarrow> map_option (Pair None) (accountlist_load_all env w)
   | A_save a f \<Rightarrow> if a \<in> listed w then map_option (\<lambda>(_, w1). (None, w1)) (account_save env a f w) else Some (None, w)
   | A_flush a f \<Rightarrow> if a \<in> listed w then map_option (\<lambda>(_, w1). (None, w1)) (account_flush env a f w) else Some (None, w)
   | A_get a k \<Rightarrow> if a \<in> listed w then map_option (\<lambda>(_, w1). (None, w1)) (account_get_strattr env a k w) else Some (None, w)
   | A_set a k v \<Rightarrow> if a \<in> listed w then map_option (\<lambda>(_, w1). (None, w1)) (account_set_strattr env a k v w) else Some (None, w)
   | A_time t \<Rightarrow> Some (None, w\<lparr>ax_attr := (ax_attr w)\<lparr>aw_now := t\<rparr>\<rparr>))"

fun acc_run :: "('i, 'd) acc_env \<Rightarrow> acc_op list \<Rightarrow> ('i, 'd) acc_world \<Rightarrow> (nat option list \<times> ('i, 'd) acc_world) option" where
  "acc_run env [] w = Some ([], w)"
| "acc_run env (op # ops) w = do { (r, w1) \<leftarrow> acc_step env op w; (rs, w2) \<leftarrow> acc_run env ops w1; Some (r # rs, w2) }"

lemma acc_step_inv:
  assumes i: "acc_inv w"
  shows "\<exists>r w'. acc_step env op w = Some (r, w') \<and> acc_inv w' \<and> accounts_stay w w' \<and> (\<forall>a. r = Some a \<longrightarrow> a \<in> listed w')"
proof (cases op)
  case (A_find u)
  then show ?thesis using find_account_step [OF i, of env u] ext_stays [OF i] by (auto simp: acc_step_def)
next
  case (A_find_uid u)
  then show ?thesis using find_by_uid_step [OF i, of env u] ext_stays [OF i] by (auto simp: acc_step_def)
next
  case (A_create u p)
  then show ?thesis using create_account_step [OF i, of env u p] ext_stays [OF i] by (auto simp: acc_step_def)
next
  case A_load_all
  then show ?thesis using load_all_step [OF i, of env] ext_stays [OF i] by (auto simp: acc_step_def)
next
  case (A_save a f)
  then show ?thesis using save_account_step [OF i, of a env f] accounts_stay_refl [OF i] i by (cases "a \<in> listed w") (auto simp: acc_step_def)
next
  case (A_flush a f)
  then show ?thesis using flush_account_step [OF i, of a env f] accounts_stay_refl [OF i] i by (cases "a \<in> listed w") (auto simp: acc_step_def)
next
  case (A_get a k)
  show ?thesis
  proof (cases "a \<in> listed w")
    case True
    then obtain ac where "ax_accounts w a = Some ac" using listed_account [OF i] by blast
    then show ?thesis using get_strattr_returns [OF i, of a ac env k] attr_change_stays [OF i True] A_get True by (auto simp: acc_step_def)
  qed (use A_get accounts_stay_refl [OF i] i in \<open>simp add: acc_step_def\<close>)
next
  case (A_set a k v)
  show ?thesis
  proof (cases "a \<in> listed w")
    case True
    then obtain ac g where "ax_accounts w a = Some ac" "ac_attrgroup ac = Some g" using listed_account [OF i] by blast
    then show ?thesis using set_strattr_returns [OF i, of a ac g env k v] attr_change_stays [OF i True] A_set True by (auto simp: acc_step_def)
  qed (use A_set accounts_stay_refl [OF i] i in \<open>simp add: acc_step_def\<close>)
next
  case (A_time t)
  have k: "keeps (ax_attr w) ((ax_attr w)\<lparr>aw_now := t\<rparr>)" by (simp add: keeps_def live_def)
  show ?thesis using A_time acc_inv_attr [OF i k] accounts_stay_refl [OF i]
    by (simp add: acc_step_def accounts_stay_def listed_def)
qed

lemma acc_run_inv:
  "acc_inv w \<Longrightarrow> \<exists>rs w'. acc_run env ops w = Some (rs, w') \<and> acc_inv w' \<and> accounts_stay w w'"
proof (induction ops arbitrary: w)
  case Nil
  then show ?case using accounts_stay_refl by simp
next
  case (Cons op ops)
  obtain r w1 where "acc_step env op w = Some (r, w1)" "acc_inv w1" "accounts_stay w w1" using acc_step_inv [OF Cons.prems, of env op] by blast
  moreover obtain rs w2 where "acc_run env ops w1 = Some (rs, w2)" "acc_inv w2" "accounts_stay w1 w2" using Cons.IH [OF calculation(2)] by blast
  ultimately show ?case using accounts_stay_trans by fastforce
qed

section \<open>Properties\<close>

text \<open>A server that has loaded no account yet: the default group, over the files \<open>d\<close>.\<close>

definition start_world :: "file_system \<Rightarrow> (cstring, file_system) acc_world" where
  "start_world d = \<lparr>ax_attr = \<lparr>aw_disk = d, aw_groups = [0 \<mapsto> empty_group ''v/d''], aw_fresh = 1, aw_loadedlist = [], aw_dirtylist = [],
     aw_now = 0, aw_defattrs = Some 0\<rparr>, ax_accounts = Map.empty, ax_fresh = 0, ax_names = [], ax_uids = [], ax_maxuid = 0, ax_force = False\<rparr>"

definition file_env :: "u32 \<Rightarrow> (cstring, file_system) acc_env" where
  "file_env limit = \<lparr>ae_storage = file_storage (file_conf_ok ''v''), ae_conf = \<lparr>ac_user_sync_timer = 300, ac_user_flush_timer = 1200\<rparr>,
     ae_create_account = file_create_account (file_conf_ok ''v'') True ''v/d'', ae_read_account = file_read_account (file_conf_ok ''v'') True,
     ae_read_accounts = (\<lambda>_. []), ae_max_accounts = limit, ae_savebyname = True, ae_symbols = ''-_[]'', ae_max_friends = 20\<rparr>"

lemma start_world_inv: "acc_inv (start_world d)"
  by (simp add: acc_inv_def start_world_def accounts_ok_def tables_ok_def def_live_def live_def)

text \<open>
  C4. The account list is consistent whatever the storage answers and whichever operations run: lookups by
  name and number (which load accounts from the storage), creations, loads of the whole list, saves, flushes,
  reads and writes of attributes and changes of the clock all return without an access to an account or a
  group that is gone; the invariant holds afterwards, so no two accounts of the list have names equal up to
  case or the same number; and an account of the list stays there with its name, number and attributes' group.
\<close>

theorem accounts_consistent:
  assumes "acc_inv w"
  shows "\<exists>rs w'. acc_run env ops w = Some (rs, w') \<and> acc_inv w' \<and> accounts_stay w w'
    \<and> (\<forall>u a b. named w' u a \<longrightarrow> named w' u b \<longrightarrow> a = b) \<and> (\<forall>n a b. numbered w' n a \<longrightarrow> numbered w' n b \<longrightarrow> a = b)"
proof -
  obtain rs w' where w': "acc_run env ops w = Some (rs, w')" "acc_inv w'" "accounts_stay w w'" using acc_run_inv [OF assms] by blast
  have "\<forall>u a b. named w' u a \<longrightarrow> named w' u b \<longrightarrow> a = b" using named_unique [OF w'(2)] by blast
  moreover have "\<forall>n a b. numbered w' n a \<longrightarrow> numbered w' n b \<longrightarrow> a = b" using numbered_unique [OF w'(2)] by blast
  ultimately show ?thesis using w' by (intro exI [of _ rs] exI [of _ w'] conjI)
qed

theorem accounts_consistent_witness:
  "\<exists>rs w'. acc_run (file_env 5) [A_create ''ab'' ''p'', A_find ''AB'', A_load_all, A_flush 0 True, A_find_uid 1] (start_world Map.empty) = Some (rs, w') \<and> acc_inv w'"
  using accounts_consistent [OF start_world_inv] by blast

text \<open>
  C40. \<open>accountlist_find_account\<close> with a name that is not read as a number finds the account of the list with
  that name, up to case, and changes nothing; if it gives an account that was in the list, the account has
  the name; if no account of the list has the name, the result is none, or an account that was just loaded.
\<close>

theorem find_account_exact:
  assumes "acc_inv w" "name_uid env username = 0"
  shows "\<exists>r w'. accountlist_find_account env username w = Some (r, w')
    \<and> (\<forall>a. named w username a \<longrightarrow> r = Some a \<and> w' = w) \<and> (\<forall>a. r = Some a \<longrightarrow> a \<in> listed w' \<and> (a \<in> listed w \<longrightarrow> named w username a))"
proof -
  obtain r w' where "accountlist_find_account env username w = Some (r, w')" "\<forall>a. r = Some a \<longrightarrow> a \<in> listed w'"
      "(\<forall>a. named w username a \<longrightarrow> r = Some a \<and> w' = w) \<and> (\<forall>a. r = Some a \<longrightarrow> a \<in> listed w \<longrightarrow> named w username a)"
    using find_account_step [OF assms(1), of env username] assms(2) by blast
  then show ?thesis by (intro exI [of _ r] exI [of _ w'] conjI) blast+
qed

theorem find_account_exact_witness:
  "\<exists>r w'. accountlist_find_account (file_env 5) ''ab'' (start_world Map.empty) = Some (r, w')"
proof -
  have "name_uid (file_env 5) ''ab'' = 0" by (simp add: name_uid_def file_env_def)
  from find_account_exact [OF start_world_inv this] show ?thesis by blast
qed

end
