(* ===== verification/Spec2Isabelle.thy ===== *)
theory Spec2Isabelle
  imports Common_List Bn_Type Packet_Core Common_Queue Common_Hashtable Bnet_Hash Char_Lock Str_Util Big_Int Bnet_SRP3
    Client_Tag Channels Channel_Inv Channel_Bans Channel_Props Ip_Ban Game_Conv Bnetd_Game Game_Inv Game_Props
    Common_Elist Bnetd_Timer Timer_Props Timer_Reach
    Attr_File Attr_Group Attr_Inv Attr_Layer Attr_Props
    Account_Core Account_Inv Account_Props
begin

text \<open>
  A verification library of PvPGN, a family of servers for the Battle.net, Westwood Online and Diablo II
  protocols. The sources are under \<^verbatim>\<open>src/pvpgn/src\<close>: \<^verbatim>\<open>common\<close> holds the data structures, encodings and
  cryptography every server uses, \<^verbatim>\<open>bnetd\<close> is the chat and game server, \<^verbatim>\<open>d2cs\<close> the character server and
  \<^verbatim>\<open>d2dbs\<close> the database server of Diablo II.

  \<^bold>\<open>How the parts interact.\<close> A server reads bytes into a \<open>t_packet\<close> (\<open>Packet_Core\<close>), whose numbers are
  little-endian byte arrays (\<open>Bn_Type\<close>); packets wait in the ring buffer of a connection
  (\<open>Common_Queue\<close>). The registries of accounts, connections, channels and games are doubly linked lists
  (\<open>Common_List\<close>) or chained hash tables (\<open>Common_Hashtable\<close>). Passwords are hashed with a variant of
  SHA-1 (\<open>Bnet_Hash\<close>) or exchanged with SRP (\<open>Bnet_SRP3\<close>) over the multi-word integers of \<open>Big_Int\<close>.
  Text passes through the conversions of \<open>Str_Util\<close>. On these, \<^verbatim>\<open>bnetd\<close> keeps the chat channels
  (\<open>Channels\<close>) and the games (\<open>Bnetd_Game\<close>) of its connections, and \<^verbatim>\<open>d2dbs\<close> the locks that let one game server at a time write a character
  (\<open>Char_Lock\<close>).

  \<^bold>\<open>Theories and sources.\<close> A definition has the name of the function it translates; a loop of a function
  is a definition of its own beside it.

    \<^item> \<open>Pvpgn_Prelude\<close>: the C types, strings as lists of characters without NUL, \<open>strcasecmp\<close>, rotation
      (\<^verbatim>\<open>common/introtate.h\<close>, \<^verbatim>\<open>compat/strcasecmp.cpp\<close>).
    \<^item> \<open>Common_List\<close>: \<^verbatim>\<open>common/list.cpp\<close>. The state is a store from addresses to nodes with head, tail and
      length; a freed node is absent, so an access through a stale pointer is \<open>None\<close>. The locale of
      registries states what the owners of lists rely on.
    \<^item> \<open>Common_Elist\<close>: \<^verbatim>\<open>common/elist.h\<close>, the lists whose links are members of their elements, on a heap of
      links. A traversal need not end on links that form no ring, so the macros are \<open>partial_function\<close>.
    \<^item> \<open>Bn_Type\<close>: \<^verbatim>\<open>common/bn_type.cpp\<close>, byte for byte; the locale of codecs gives the round trips.
    \<^item> \<open>Packet_Core\<close>: \<^verbatim>\<open>common/packet.cpp\<close>. A packet is its class, flags, reference count and the array of
      3072 bytes.
    \<^item> \<open>Common_Queue\<close>: \<^verbatim>\<open>common/queue.cpp\<close>; the locale of FIFO queues.
    \<^item> \<open>Common_Hashtable\<close>: \<^verbatim>\<open>common/hashtable.cpp\<close>, rows of chained entries with tombstones; the locale of
      bags.
    \<^item> \<open>Bnet_Hash\<close>: \<^verbatim>\<open>common/bnethash.cpp\<close>, compared with definitions written after FIPS 180-4.
    \<^item> \<open>Str_Util\<close>: \<^verbatim>\<open>common/util.cpp\<close>. \<open>file_get_line\<close> has the buffer and its growth as state.
    \<^item> \<open>Big_Int\<close>: \<^verbatim>\<open>common/bigint.cpp\<close>, numbers as lists of 32-bit segments, least significant first; the
      meaning of a list is \<open>big_val\<close>.
    \<^item> \<open>Bnet_SRP3\<close>: \<^verbatim>\<open>common/bnetsrp3.cpp\<close>.
    \<^item> \<open>Channels\<close>, \<open>Channel_Inv\<close>, \<open>Channel_Bans\<close>, \<open>Channel_Props\<close>: \<^verbatim>\<open>bnetd/channel.cpp\<close> and the part of
      \<^verbatim>\<open>bnetd/connection.cpp\<close> that moves connections between channels, with the accessors of
      \<^verbatim>\<open>account_wrap.cpp\<close> and \<^verbatim>\<open>clan.cpp\<close> they call. The state has the connections, the channels by
      address, the channel list and the sequence of calls into other components; the environment record
      gives the answers of the account, clan, realm and message modules.
    \<^item> \<open>Ip_Ban\<close>: \<^verbatim>\<open>bnetd/ipban.cpp\<close>, the banned addresses with their file and chat command; the patterns
      and the addresses each contains are specified apart from the code.
    \<^item> \<open>Client_Tag\<close>: \<^verbatim>\<open>common/tag.cpp\<close>, the four-character tags of clients, systems and languages, their
      tables and the lists of allowed clients.
    \<^item> \<open>Game_Conv\<close>: the types of \<^verbatim>\<open>bnetd/game.h\<close>, \<^verbatim>\<open>bnetd/game_conv.cpp\<close>: the numbers of the protocol and the
      information string of a new game, for each family of clients.
    \<^item> \<open>Bnetd_Game\<close>, \<open>Game_Inv\<close>, \<open>Game_Props\<close>: \<^verbatim>\<open>bnetd/game.cpp\<close> and the part of \<^verbatim>\<open>bnetd/connection.cpp\<close>
      and \<^verbatim>\<open>handle_bnet.cpp\<close> that moves connections into and out of games. The state has the games by
      address, the list, the game of every connection and the calls into other modules, in order; the
      environment record gives what accounts, configuration and clock answer, and may change at every step.
    \<^item> \<open>Bnetd_Timer\<close>, \<open>Timer_Props\<close>, \<open>Timer_Reach\<close>: \<^verbatim>\<open>bnetd/timer.cpp\<close> with its callbacks and the parts of
      \<^verbatim>\<open>connection.cpp\<close>, \<^verbatim>\<open>command.cpp\<close> and \<^verbatim>\<open>server.cpp\<close> that set and drop timers; a timer is in two
      intrusive lists of \<open>Common_Elist\<close>.
    \<^item> \<open>Attr_File\<close>, \<open>Attr_Group\<close>, \<open>Attr_Inv\<close>, \<open>Attr_Layer\<close>, \<open>Attr_Props\<close>: \<^verbatim>\<open>bnetd/attr.h\<close>,
      \<^verbatim>\<open>file_plain.cpp\<close>, \<^verbatim>\<open>attrgroup.cpp\<close>, \<^verbatim>\<open>attrlayer.cpp\<close> and the account files of
      \<^verbatim>\<open>storage_file.cpp\<close>. The state has the groups of attributes by address, the lists of loaded and of
      modified groups, the clock and the files; the record of functions of \<^verbatim>\<open>storage.h\<close> is a parameter whose
      contract is a locale, interpreted on the plain files.
    \<^item> \<open>Account_Core\<close>, \<open>Account_Inv\<close>, \<open>Account_Props\<close>: \<^verbatim>\<open>bnetd/account.cpp\<close> and the accessors of numbers and
      booleans of \<^verbatim>\<open>account_wrap.cpp\<close>. The state has the accounts by address, the tables of names and
      numbers as the lists of their entries, and the state of the attributes; the functions of the storage
      for whole accounts are parameters, those for account files are translated.
    \<^item> \<open>Char_Lock\<close>: \<^verbatim>\<open>d2dbs/charlock.cpp\<close>, the character and game server indices over shared nodes.

  \<^bold>\<open>What the lemmas show.\<close> Each data structure refines an abstract one (a list, a FIFO, a bag, a map of
  owners) for every sequence of operations, and never follows a dangling pointer on the way. Encodings
  and conversions have round trips and bounds. The arithmetic is compared with the integers, the hashes
  with their standard, the password exchange with the equation that makes both sides agree. The channels
  have an invariant over every reachable state and a description of the two commands that make the program
  use a channel that is gone or a missing name; from these come who gets in, who is kept out and who
  hears a message. The check of banned addresses gives the first pattern that contains the address.
  The games have an invariant of their own over every reachable state, an evaluation of reports that is a
  vote, and a condition that says exactly who may join. The lists of timers agree in every reachable state,
  and a check calls exactly the timers that have expired, in order. The cache of account attributes answers
  as a map does, whatever is loaded, saved or dropped between, as long as the files can be written. Names and numbers of
  accounts stay unique and are found, whatever the storage answers.

  \<^bold>\<open>Termination and fuel.\<close> Loops are structural recursions where the source counts or follows a finite
  list. The loops that need not end are \<open>partial_function (option)\<close>: the correction loop of the long
  division, \<open>powm\<close> around it, the search for a channel by name, which calls itself, and the loops over
  intrusive lists; where they end is a theorem. The check of the timers ends because a periodic timer is set
  again to a later time; with a period of 0 it need not end. Fuel is used only with a bound on the number of steps that a lemma shows to be enough.

  \<^bold>\<open>Not modelled.\<close> Sockets and descriptor watching, files, SQL drivers, logging and the process main
  loops are system interfaces; \<open>xalloc\<close> aborts when memory runs out, so allocation succeeds. The packet
  handlers and chat commands dispatch into every component; of them only the handler that changes the
  flags of a channel and the end of the one that takes game reports are translated; the text of the report
  file of a game is not. Realms, clans, teams, friends, ladders, anonymous games,
  tournaments, the other storages of accounts, and the character server are not translated yet.
\<close>

end
